(* ===== verification/Rymos_Prelude.thy ===== *)
theory Rymos_Prelude
  imports Main "HOL-Library.Word"
begin

text \<open>
  Shared vocabulary of the development: the machine integers of the kernel, byte strings,
  slices and slice copies of fixed-size arrays, first-match loops over an index range,
  little-endian encodings, saturating and wrapping arithmetic, and the result type of code
  that can stop in the kernel's panic handler (\<^verbatim>\<open>kernel/src/main.rs\<close>, function
  \<^verbatim>\<open>panic\<close>: an endless spin).

  A \<^verbatim>\<open>usize\<close> is a \<open>nat\<close>; where the operands come from a program the
  wrap-around at \<open>2 ^ 64\<close> is written out with \<open>usize_add\<close> (the kernel is built in the
  release profile, so unsigned arithmetic wraps).  A fixed-size array is a list whose length
  is part of the component's well-formedness invariant.
\<close>

unbundle bit_operations_syntax

type_synonym u8 = "8 word"
type_synonym u16 = "16 word"
type_synonym u32 = "32 word"
type_synonym u64 = "64 word"
type_synonym bytes = "8 word list"

named_theorems slice_simps "slices and slice copies of fixed-size arrays"
named_theorems word_consts "kernel constants, unfolded for evaluation"

text \<open>Code that may reach the panic handler instead of returning.\<close>

datatype 'a outcome = Panic | Ret 'a

fun bind_outcome :: "'a outcome \<Rightarrow> ('a \<Rightarrow> 'b outcome) \<Rightarrow> 'b outcome" where
  "bind_outcome Panic f = Panic"
| "bind_outcome (Ret x) f = f x"

text \<open>A byte-string literal \<^verbatim>\<open>b"..."\<close>.\<close>

definition lit :: "string \<Rightarrow> bytes" where
  "lit s = map of_char s"

lemma lit_simps [simp]: "lit [] = []" "lit (c # s) = of_char c # lit s"
  by (simp_all add: lit_def)

section \<open>Machine arithmetic\<close>

definition usize_add :: "nat \<Rightarrow> nat \<Rightarrow> nat" where
  "usize_add a b = (a + b) mod 2 ^ 64"

lemma usize_add_small [simp]: "a + b < 2 ^ 64 \<Longrightarrow> usize_add a b = a + b"
  by (simp add: usize_add_def)

definition saturating_sub :: "'l::len word \<Rightarrow> 'l word \<Rightarrow> 'l word" where
  "saturating_sub a b = (if a < b then 0 else a - b)"

lemma unat_saturating_sub: "unat (saturating_sub a b) = unat a - unat b"
  by (auto simp: saturating_sub_def word_less_nat_alt unat_sub word_le_nat_alt not_less)

lemma unat_add_no_wrap:
  fixes a b :: "'l::len word"
  shows "unat a + unat b < 2 ^ LENGTH('l) \<Longrightarrow> unat (a + b) = unat a + unat b"
  by (simp add: unat_word_ariths)

lemma unat_ucast_up:
  fixes x :: "'a::len word"
  assumes "LENGTH('a) \<le> LENGTH('b)"
  shows "unat (ucast x :: 'b::len word) = unat x"
proof -
  have "unat x < 2 ^ LENGTH('a)" by (rule unsigned_less)
  also have "\<dots> \<le> 2 ^ LENGTH('b)" using assms by simp
  finally show ?thesis by (simp add: unsigned_ucast_eq take_bit_nat_eq_self)
qed

lemma unat_bound: "unat (w :: 'l::len word) < 2 ^ LENGTH('l)"
  by (rule unsigned_less)

lemma word_add_of_nat: "x + y = of_nat (unat x + unat (y :: 'l::len word))"
  by simp

lemma unat_of_nat_small: "n < 2 ^ LENGTH('l) \<Longrightarrow> unat (of_nat n :: 'l::len word) = n"
  by (simp add: unat_of_nat)

section \<open>First-match loops\<close>

text \<open>
  The source's \<^verbatim>\<open>for index in 0..N { if p(index) { return Some(index); } } None\<close>
  is \<open>find p [0..<N]\<close>.
\<close>

lemma find_upt_Some:
  "find P [0..<n] = Some i \<longleftrightarrow> i < n \<and> P i \<and> (\<forall>j<i. \<not> P j)"
  by (auto simp: find_Some_iff nth_append)

lemma find_upt_None: "find P [0..<n] = None \<longleftrightarrow> (\<forall>i<n. \<not> P i)"
  by (auto simp: find_None_iff)

lemma find_upt_SomeD:
  assumes "find P [0..<n] = Some i"
  shows "i < n" "P i" "\<And>j. j < i \<Longrightarrow> \<not> P j"
  using assms by (auto simp: find_upt_Some)

lemma find_upt_NoneD: "find P [0..<n] = None \<Longrightarrow> i < n \<Longrightarrow> \<not> P i"
  by (auto simp: find_upt_None)

lemma find_upt_first: "P 0 \<Longrightarrow> 0 < n \<Longrightarrow> find P [0..<n] = Some 0"
  by (simp add: find_upt_Some)

lemma find_upt_ex: "i < n \<Longrightarrow> P i \<Longrightarrow> \<exists>j. find P [0..<n] = Some j"
  using find_upt_None [of P n] by (cases "find P [0..<n]") auto

text \<open>With at most one match, the loop finds it whatever its position.\<close>

lemma find_upt_unique:
  assumes "i < n" "P i" "\<And>j. j < n \<Longrightarrow> P j \<Longrightarrow> j = i"
  shows "find P [0..<n] = Some i"
proof -
  obtain j where "find P [0..<n] = Some j" using find_upt_ex [of i n P, OF assms(1,2)] by blast
  with assms(3) show ?thesis by (auto simp: find_upt_Some)
qed

lemma find_upt_cong:
  "(\<And>i. i < n \<Longrightarrow> P i = Q i) \<Longrightarrow> find P [0..<n] = find Q [0..<n]"
  by (rule find_cong) auto

section \<open>Slices of fixed-size arrays\<close>

text \<open>\<^verbatim>\<open>&xs[a..b]\<close> and \<^verbatim>\<open>xs[a..a + ys.len()].copy_from_slice(ys)\<close>, for in-range bounds.\<close>

definition subslice :: "'a list \<Rightarrow> nat \<Rightarrow> nat \<Rightarrow> 'a list" where
  "subslice xs a b = take (b - a) (drop a xs)"

definition copy_at :: "'a list \<Rightarrow> nat \<Rightarrow> 'a list \<Rightarrow> 'a list" where
  "copy_at xs a ys = take a xs @ ys @ drop (a + length ys) xs"

lemma length_slice [simp]: "b \<le> length xs \<Longrightarrow> length (subslice xs a b) = b - a"
  by (simp add: subslice_def)

lemma nth_slice [simp]: "i < b - a \<Longrightarrow> a \<le> length xs \<Longrightarrow> subslice xs a b ! i = xs ! (a + i)"
  by (simp add: subslice_def)

lemma length_copy_at [simp]:
  "a + length ys \<le> length xs \<Longrightarrow> length (copy_at xs a ys) = length xs"
  by (simp add: copy_at_def)

lemma nth_copy_at:
  assumes "a + length ys \<le> length xs"
  shows "copy_at xs a ys ! i = (if a \<le> i \<and> i < a + length ys then ys ! (i - a) else xs ! i)"
  using assms by (auto simp: copy_at_def nth_append)

lemma nth_copy_at_out [slice_simps]:
  "a + length ys \<le> length xs \<Longrightarrow> i < a \<or> a + length ys \<le> i \<Longrightarrow> copy_at xs a ys ! i = xs ! i"
  by (auto simp: nth_copy_at)

lemma nth_copy_at_in [slice_simps]:
  "a + length ys \<le> length xs \<Longrightarrow> a \<le> i \<Longrightarrow> i < a + length ys \<Longrightarrow> copy_at xs a ys ! i = ys ! (i - a)"
  by (auto simp: nth_copy_at)

lemma slice_copy_at_out [slice_simps]:
  assumes "a + length ys \<le> length xs" "c \<le> length xs" "c \<le> a \<or> a + length ys \<le> b"
  shows "subslice (copy_at xs a ys) b c = subslice xs b c"
  using assms by (auto simp: list_eq_iff_nth_eq nth_copy_at subslice_def)

lemma slice_copy_at_in [slice_simps]:
  "a + length ys \<le> length xs \<Longrightarrow> subslice (copy_at xs a ys) a (a + length ys) = ys"
  by (simp add: subslice_def copy_at_def)

lemma slice_copy_at_within:
  assumes "a + length ys \<le> length xs" "a \<le> b" "c \<le> a + length ys"
  shows "subslice (copy_at xs a ys) b c = subslice ys (b - a) (c - a)"
  using assms by (auto simp: list_eq_iff_nth_eq nth_copy_at subslice_def)

lemma slice_append_split:
  "a \<le> b \<Longrightarrow> b \<le> c \<Longrightarrow> subslice xs a c = subslice xs a b @ subslice xs b c"
proof -
  assume h: "a \<le> b" "b \<le> c"
  have "take (c - a) (drop a xs) = take (b - a + (c - b)) (drop a xs)"
    using h by simp
  also have "\<dots> = take (b - a) (drop a xs) @ take (c - b) (drop (b - a) (drop a xs))"
    by (rule take_add)
  finally show ?thesis using h by (simp add: subslice_def)
qed

lemma slice_empty [simp]: "subslice xs a a = []"
  by (simp add: subslice_def)

lemma slice_all [simp]: "length xs \<le> n \<Longrightarrow> subslice xs 0 n = xs"
  by (simp add: subslice_def)

lemma slice_prefix: "subslice xs 0 n = take n xs"
  by (simp add: subslice_def)

lemma copy_at_prefix: "length ys \<le> length xs \<Longrightarrow> take (length ys) (copy_at xs 0 ys) = ys"
  by (simp add: copy_at_def)

lemma slice_slice: "c \<le> b - a \<Longrightarrow> subslice (subslice xs a b) d c = subslice xs (a + d) (a + c)"
  by (cases "d \<le> c") (simp_all add: subslice_def take_drop min_def add.commute)

section \<open>Little-endian encodings\<close>

definition to_le_bytes32 :: "u32 \<Rightarrow> bytes" where
  "to_le_bytes32 x = map (\<lambda>i. ucast (drop_bit (i * 8) x)) [0..<4]"

definition to_le_bytes64 :: "u64 \<Rightarrow> bytes" where
  "to_le_bytes64 x = map (\<lambda>i. ucast (drop_bit (i * 8) x)) [0..<8]"

lemma length_to_le_bytes [simp]: "length (to_le_bytes32 x) = 4" "length (to_le_bytes64 y) = 8"
  by (simp_all add: to_le_bytes32_def to_le_bytes64_def)

text \<open>The bits of a value assembled byte by byte.\<close>

lemma bit_le_fold:
  fixes a :: "'l::len word" and bs :: bytes
  assumes "n < LENGTH('l)"
  shows "bit (fold (\<lambda>i v. v OR push_bit (i * 8) (ucast (bs ! i))) [0..<k] a) n \<longleftrightarrow>
    bit a n \<or> (\<exists>i<k. i * 8 \<le> n \<and> n < i * 8 + 8 \<and> bit (bs ! i) (n - i * 8))"
proof (induction k)
  case 0
  then show ?case by simp
next
  case (Suc k)
  have "bit (push_bit (k * 8) (ucast (bs ! k) :: 'l word)) n \<longleftrightarrow>
      k * 8 \<le> n \<and> n < k * 8 + 8 \<and> bit (bs ! k) (n - k * 8)"
    using assms bit_imp_le_length [of "bs ! k" "n - k * 8"]
    by (auto simp: bit_push_bit_iff bit_ucast_iff)
  then show ?case by (auto simp: Suc bit_or_iff less_Suc_eq)
qed

lemma bit_le_byte:
  fixes x :: "'l::len word"
  assumes "n < LENGTH('l)" "LENGTH('l) = k * 8"
  shows "(\<exists>i<k. i * 8 \<le> n \<and> n < i * 8 + 8 \<and>
      bit (map (\<lambda>i. ucast (drop_bit (i * 8) x) :: u8) [0..<k] ! i) (n - i * 8)) \<longleftrightarrow> bit x n"
    (is "?L \<longleftrightarrow> _")
proof
  assume ?L
  then show "bit x n" by (auto simp: bit_ucast_iff bit_drop_bit_eq)
next
  assume b: "bit x n"
  let ?i = "n div 8"
  have i: "?i < k" using assms by (simp add: less_mult_imp_div_less)
  have "?i * 8 \<le> n" "n < ?i * 8 + 8" by presburger+
  with b i show ?L
    by (intro exI [of _ ?i]) (auto simp: bit_ucast_iff bit_drop_bit_eq)
qed

end
