(* ===== verification/Byte_Strings.thy ===== *)
theory Byte_Strings
  imports Rymos_Prelude
begin

text \<open>
  The byte-string helpers at the end of \<^verbatim>\<open>kernel/src/main.rs\<close>: trimming and word
  splitting of shell lines, prefix and suffix tests, decimal parsing, name validation,
  argument tokenising, alignment, and the index-based scanning loops that the argument
  tokeniser and the path-component iterator share.  Both scanners are shown equal to one
  reference splitter, \<open>tokens\<close>, and decimal parsing to the value of the numeral.
\<close>

section \<open>Character classes\<close>

definition is_blank :: "u8 \<Rightarrow> bool" where
  "is_blank b \<longleftrightarrow> b = 32 \<or> b = 9"

definition is_arg_space :: "u8 \<Rightarrow> bool" where
  "is_arg_space b \<longleftrightarrow> b = 32 \<or> b = 9 \<or> b = 10 \<or> b = 13"

definition is_ascii_digit :: "u8 \<Rightarrow> bool" where
  "is_ascii_digit b \<longleftrightarrow> 48 \<le> b \<and> b \<le> 57"

definition is_ascii_alphanumeric :: "u8 \<Rightarrow> bool" where
  "is_ascii_alphanumeric b \<longleftrightarrow>
     (48 \<le> b \<and> b \<le> 57) \<or> (65 \<le> b \<and> b \<le> 90) \<or> (97 \<le> b \<and> b \<le> 122)"

definition is_ascii_graphic :: "u8 \<Rightarrow> bool" where
  "is_ascii_graphic b \<longleftrightarrow> 33 \<le> b \<and> b \<le> 126"

text \<open>The bytes the kernel accepts in a file name: alphanumeric, dot, underscore, dash.\<close>

definition is_name_byte :: "u8 \<Rightarrow> bool" where
  "is_name_byte b \<longleftrightarrow> is_ascii_alphanumeric b \<or> b = 46 \<or> b = 95 \<or> b = 45"

section \<open>Shell words\<close>

fun trim_back :: "bytes \<Rightarrow> bytes" where
  "trim_back bs = (if bs \<noteq> [] \<and> is_blank (last bs) then trim_back (butlast bs) else bs)"

declare trim_back.simps [simp del]

definition trim :: "bytes \<Rightarrow> bytes" where
  "trim bs = trim_back (dropWhile is_blank bs)"

definition split_word :: "bytes \<Rightarrow> bytes \<times> bytes" where
  "split_word input =
     (let bs = trim input in
      case find (\<lambda>i. bs ! i = 32 \<or> bs ! i = 9) [0..<length bs] of
        Some i \<Rightarrow> (take i bs, trim (drop (i + 1) bs))
      | None \<Rightarrow> (bs, []))"

definition eq :: "bytes \<Rightarrow> bytes \<Rightarrow> bool" where
  "eq left right \<longleftrightarrow> left = right"

definition starts_with :: "bytes \<Rightarrow> bytes \<Rightarrow> bool" where
  "starts_with v prefix \<longleftrightarrow> length prefix \<le> length v \<and> take (length prefix) v = prefix"

definition ends_with :: "bytes \<Rightarrow> bytes \<Rightarrow> bool" where
  "ends_with v suffix \<longleftrightarrow> length suffix \<le> length v \<and> drop (length v - length suffix) v = suffix"

fun contains :: "bytes \<Rightarrow> u8 \<Rightarrow> bool" where
  "contains [] needle = False"
| "contains (b # bs) needle = (if b = needle then True else contains bs needle)"

fun find_last_from :: "bytes \<Rightarrow> u8 \<Rightarrow> nat \<Rightarrow> nat option" where
  "find_last_from bs needle 0 = None"
| "find_last_from bs needle (Suc i) =
     (if bs ! i = needle then Some i else find_last_from bs needle i)"

definition find_last_byte :: "bytes \<Rightarrow> u8 \<Rightarrow> nat option" where
  "find_last_byte bs needle = find_last_from bs needle (length bs)"

definition valid_name :: "bytes \<Rightarrow> bool" where
  "valid_name name \<longleftrightarrow> \<not> (name = [] \<or> length name > 16) \<and> list_all is_name_byte name"

section \<open>Decimal parsing\<close>

definition checked_mul_u32 :: "u32 \<Rightarrow> u32 \<Rightarrow> u32 option" where
  "checked_mul_u32 a b = (if unat a * unat b < 2 ^ 32 then Some (a * b) else None)"

definition checked_add_u32 :: "u32 \<Rightarrow> u32 \<Rightarrow> u32 option" where
  "checked_add_u32 a b = (if unat a + unat b < 2 ^ 32 then Some (a + b) else None)"

fun parse_u32_loop :: "u32 \<Rightarrow> bytes \<Rightarrow> u32 option" where
  "parse_u32_loop v [] = Some v"
| "parse_u32_loop v (b # bs) =
     (if \<not> is_ascii_digit b then None else
      case checked_mul_u32 v 10 of None \<Rightarrow> None | Some v1 \<Rightarrow>
      case checked_add_u32 v1 (ucast (b - 48)) of None \<Rightarrow> None | Some v2 \<Rightarrow>
      parse_u32_loop v2 bs)"

definition parse_u32 :: "bytes \<Rightarrow> u32 option" where
  "parse_u32 bs = (if bs = [] then None else parse_u32_loop 0 bs)"

section \<open>Index-based scanning loops\<close>

function skip_while :: "(u8 \<Rightarrow> bool) \<Rightarrow> bytes \<Rightarrow> nat \<Rightarrow> nat" where
  "skip_while P bs i = (if i < length bs \<and> P (bs ! i) then skip_while P bs (Suc i) else i)"
  by pat_completeness auto
termination by (relation "measure (\<lambda>(P, bs, i). length bs - i)") auto

declare skip_while.simps [simp del]

text \<open>
  Skip separators, then take the run up to the next separator: the common body of
  \<^verbatim>\<open>next_arg_token\<close> and of the path-component iterator.
\<close>

definition scan_token :: "(u8 \<Rightarrow> bool) \<Rightarrow> bytes \<Rightarrow> nat \<Rightarrow> (bytes \<times> nat) option" where
  "scan_token sep bs index =
     (let start = skip_while sep bs index in
      if start \<ge> length bs then None
      else let stop = skip_while (\<lambda>b. \<not> sep b) bs start in
        Some (subslice bs start stop, stop))"

definition next_arg_token :: "bytes \<Rightarrow> nat \<Rightarrow> (bytes \<times> nat) option" where
  "next_arg_token args index = scan_token is_arg_space args index"

text \<open>The loop of \<^verbatim>\<open>raw_args_to_argv\<close>; the first argument is the room left in the table.\<close>

fun raw_args_loop :: "nat \<Rightarrow> bytes \<Rightarrow> nat \<Rightarrow> bytes list" where
  "raw_args_loop 0 args index = []"
| "raw_args_loop (Suc room) args index =
     (case next_arg_token args index of
        None \<Rightarrow> []
      | Some (token, after) \<Rightarrow> token # raw_args_loop room args after)"

definition raw_args_to_argv :: "bytes \<Rightarrow> bytes list" where
  "raw_args_to_argv args = raw_args_loop 8 args 0"

section \<open>Alignment\<close>

definition align_up_u64 :: "u64 \<Rightarrow> u64 \<Rightarrow> u64" where
  "align_up_u64 v align = (v + align - 1) AND NOT (align - 1)"

definition align_down_u64 :: "u64 \<Rightarrow> u64 \<Rightarrow> u64" where
  "align_down_u64 v align = v AND NOT (align - 1)"

section \<open>Little-endian reads\<close>

definition read_le32_from_slice :: "bytes \<Rightarrow> u32" where
  "read_le32_from_slice bs =
     ucast (bs ! 0) OR push_bit 8 (ucast (bs ! 1)) OR push_bit 16 (ucast (bs ! 2))
       OR push_bit 24 (ucast (bs ! 3))"

definition read_le64_from_slice :: "bytes \<Rightarrow> u64" where
  "read_le64_from_slice bs = fold (\<lambda>i v. v OR push_bit (i * 8) (ucast (bs ! i))) [0..<8] 0"

section \<open>Reference definitions\<close>

text \<open>The maximal runs of non-separator bytes, in order.\<close>

function tokens :: "(u8 \<Rightarrow> bool) \<Rightarrow> bytes \<Rightarrow> bytes list" where
  "tokens P bs =
     (case dropWhile P bs of [] \<Rightarrow> []
      | c # cs \<Rightarrow> takeWhile (\<lambda>b. \<not> P b) (c # cs) # tokens P (dropWhile (\<lambda>b. \<not> P b) (c # cs)))"
  by pat_completeness auto
termination
proof (relation "measure (\<lambda>(P, bs). length bs)", simp)
  fix P :: "u8 \<Rightarrow> bool" and bs c cs
  assume h: "dropWhile P bs = c # cs"
  then have "\<not> P c" by (metis hd_dropWhile list.sel(1) list.distinct(1))
  then have "length (dropWhile (\<lambda>b. \<not> P b) (c # cs)) \<le> length cs"
    by (simp add: length_dropWhile_le)
  also have "\<dots> < length bs"
    using h length_dropWhile_le [of P bs] by simp
  finally show "((P, dropWhile (\<lambda>b. \<not> P b) (c # cs)), P, bs) \<in> measure (\<lambda>(P, bs). length bs)"
    by simp
qed

declare tokens.simps [simp del]

definition decimal_value :: "bytes \<Rightarrow> nat" where
  "decimal_value bs = foldl (\<lambda>a b. a * 10 + (unat b - 48)) 0 bs"

section \<open>Lemmas\<close>

lemma starts_with_iff: "starts_with v p \<longleftrightarrow> (\<exists>r. v = p @ r)"
  unfolding starts_with_def by (metis append_eq_conv_conj append_take_drop_id le_add1 length_append)

lemma contains_iff [simp]: "contains bs b \<longleftrightarrow> b \<in> set bs"
  by (induction bs) auto

lemma find_last_from_Some:
  "find_last_from bs b n = Some i \<longleftrightarrow> i < n \<and> bs ! i = b \<and> (\<forall>j. i < j \<and> j < n \<longrightarrow> bs ! j \<noteq> b)"
  by (induction n) (auto simp: less_Suc_eq)

lemma find_last_from_None: "find_last_from bs b n = None \<longleftrightarrow> (\<forall>j<n. bs ! j \<noteq> b)"
  by (induction n) (auto simp: less_Suc_eq)

lemma find_last_byte_Some:
  assumes "find_last_byte bs b = Some i"
  shows "bs = take i bs @ b # drop (Suc i) bs" "b \<notin> set (drop (Suc i) bs)" "i < length bs"
proof -
  from assms have i: "i < length bs" "bs ! i = b"
      and after: "\<And>j. i < j \<Longrightarrow> j < length bs \<Longrightarrow> bs ! j \<noteq> b"
    by (auto simp: find_last_byte_def find_last_from_Some)
  show "i < length bs" by (fact i)
  show "bs = take i bs @ b # drop (Suc i) bs" using i by (metis id_take_nth_drop)
  show "b \<notin> set (drop (Suc i) bs)" using after by (auto simp: in_set_conv_nth)
qed

lemma find_last_byte_None: "find_last_byte bs b = None \<longleftrightarrow> b \<notin> set bs"
  by (auto simp: find_last_byte_def find_last_from_None in_set_conv_nth)

lemma find_last_byte_append:
  "b \<notin> set suf \<Longrightarrow> find_last_byte (pre @ b # suf) b = Some (length pre)"
  by (auto simp: find_last_byte_def find_last_from_Some nth_append nth_Cons')

subsection \<open>Scanning\<close>

lemma tokens_none: "dropWhile P bs = [] \<Longrightarrow> tokens P bs = []"
  by (subst tokens.simps) (simp only: list.case)

lemma tokens_some:
  "dropWhile P bs = c # cs \<Longrightarrow>
     tokens P bs = takeWhile (\<lambda>b. \<not> P b) (c # cs) # tokens P (dropWhile (\<lambda>b. \<not> P b) (c # cs))"
  by (subst tokens.simps) (simp only: list.case)

lemma skip_while_bounds: "i \<le> length bs \<Longrightarrow> i \<le> skip_while P bs i \<and> skip_while P bs i \<le> length bs"
proof (induction P bs i rule: skip_while.induct)
  case (1 P bs i)
  then show ?case by (subst (1 2) skip_while.simps) (auto dest: Suc_leD)
qed

lemma drop_skip_while: "i \<le> length bs \<Longrightarrow> drop (skip_while P bs i) bs = dropWhile P (drop i bs)"
proof (induction P bs i rule: skip_while.induct)
  case (1 P bs i)
  show ?case
  proof (cases "i < length bs \<and> P (bs ! i)")
    case True
    then have "drop i bs = bs ! i # drop (Suc i) bs" by (simp add: Cons_nth_drop_Suc)
    with True 1 show ?thesis by (subst skip_while.simps) simp
  next
    case False
    then have "dropWhile P (drop i bs) = drop i bs"
      using 1 by (cases "drop i bs") (auto simp: not_less nth_via_drop)
    with False show ?thesis by (subst skip_while.simps) (simp only: if_False)
  qed
qed

lemma subslice_skip_while:
  assumes "i \<le> length bs"
  shows "subslice bs i (skip_while P bs i) = takeWhile P (drop i bs)"
proof -
  let ?e = "skip_while P bs i"
  have b: "i \<le> ?e" "?e \<le> length bs" using skip_while_bounds [OF assms] by auto
  have "takeWhile P (drop i bs) @ drop ?e bs = drop i bs"
    using drop_skip_while [OF assms, of P] by simp
  moreover have "subslice bs i ?e @ drop ?e bs = drop i bs"
    using b by (simp add: subslice_def) (metis append_take_drop_id drop_drop le_add_diff_inverse2)
  ultimately show ?thesis by (metis append_same_eq)
qed

text \<open>The scanner finds the first token after an index.\<close>

lemma scan_token_tokens:
  assumes "index \<le> length args"
  shows "(case scan_token P args index of
            None \<Rightarrow> tokens P (drop index args) = []
          | Some (t, after) \<Rightarrow> after \<le> length args \<and>
              tokens P (drop index args) = t # tokens P (drop after args))"
proof -
  let ?s = "skip_while P args index"
  let ?e = "skip_while (\<lambda>b. \<not> P b) args ?s"
  have s: "?s \<le> length args" using skip_while_bounds [OF assms] by simp
  have ds: "drop ?s args = dropWhile P (drop index args)"
    by (rule drop_skip_while [OF assms])
  show ?thesis
  proof (cases "?s \<ge> length args")
    case True
    with ds have "dropWhile P (drop index args) = []" by simp
    then have "tokens P (drop index args) = []" by (rule tokens_none)
    with True show ?thesis by (simp add: scan_token_def Let_def)
  next
    case False
    then obtain c cs where c: "drop ?s args = c # cs" by (cases "drop ?s args") auto
    have t: "subslice args ?s ?e = takeWhile (\<lambda>b. \<not> P b) (drop ?s args)"
      by (rule subslice_skip_while [OF s])
    have e: "drop ?e args = dropWhile (\<lambda>b. \<not> P b) (drop ?s args)" "?e \<le> length args"
      using drop_skip_while [OF s] skip_while_bounds [OF s] by auto
    have "tokens P (drop index args) =
        takeWhile (\<lambda>b. \<not> P b) (c # cs) #
        tokens P (dropWhile (\<lambda>b. \<not> P b) (c # cs))"
      by (rule tokens_some) (simp only: ds [symmetric] c)
    with False t e show ?thesis by (simp add: scan_token_def Let_def c)
  qed
qed

lemma raw_args_loop_tokens:
  "index \<le> length args \<Longrightarrow>
     raw_args_loop room args index = take room (tokens is_arg_space (drop index args))"
proof (induction room arbitrary: index)
  case 0
  then show ?case by simp
next
  case (Suc room)
  from scan_token_tokens [OF Suc.prems, of is_arg_space] Suc.IH show ?case
    by (cases "scan_token is_arg_space args index") (auto simp: next_arg_token_def)
qed

lemma tokens_nonempty: "t \<in> set (tokens P bs) \<Longrightarrow> t \<noteq> [] \<and> (\<forall>b \<in> set t. \<not> P b)"
proof (induction P bs rule: tokens.induct)
  case (1 P bs)
  show ?case
  proof (cases "dropWhile P bs")
    case Nil
    from "1.prems" show ?thesis unfolding tokens_none [OF Nil] by simp
  next
    case (Cons c cs)
    then have c: "\<not> P c" by (metis hd_dropWhile list.sel(1) list.distinct(1))
    from "1.prems" consider "t = takeWhile (\<lambda>b. \<not> P b) (c # cs)"
      | "t \<in> set (tokens P (dropWhile (\<lambda>b. \<not> P b) (c # cs)))"
      unfolding tokens_some [OF Cons] by auto
    then show ?thesis
    proof cases
      case 1
      have "\<forall>b \<in> set t. \<not> P b" unfolding 1 using set_takeWhileD by fast
      with 1 c show ?thesis by simp
    next
      case 2
      then show ?thesis by (rule "1.IH" [OF Cons])
    qed
  qed
qed

subsection \<open>Little-endian round trips\<close>

lemma read_le32_fold:
  "read_le32_from_slice bs = fold (\<lambda>i v. v OR push_bit (i * 8) (ucast (bs ! i))) [0..<4] 0"
  by (simp add: read_le32_from_slice_def upt_rec or.assoc numeral_2_eq_2 numeral_3_eq_3)

lemma read_le32_to_le_bytes [simp]: "read_le32_from_slice (to_le_bytes32 x) = x"
  by (rule bit_word_eqI)
    (simp add: read_le32_fold bit_le_fold to_le_bytes32_def bit_le_byte [where k = 4])

lemma read_le64_to_le_bytes [simp]: "read_le64_from_slice (to_le_bytes64 x) = x"
  by (rule bit_word_eqI)
    (simp add: read_le64_from_slice_def bit_le_fold to_le_bytes64_def bit_le_byte [where k = 8])

subsection \<open>Decimal parsing\<close>

lemma is_ascii_digit_nat: "is_ascii_digit b \<longleftrightarrow> 48 \<le> unat b \<and> unat b \<le> 57"
  by (simp add: is_ascii_digit_def word_le_nat_alt)

lemma digit_value: "is_ascii_digit b \<Longrightarrow> unat (ucast (b - 48) :: u32) = unat b - 48"
  by (simp add: unat_ucast_up is_ascii_digit_def unat_sub)

lemma foldl_decimal_mono:
  "a \<le> foldl (\<lambda>a b. a * 10 + (unat (b::u8) - 48)) a bs"
proof (induction bs arbitrary: a)
  case (Cons b bs)
  have "a \<le> a * 10 + (unat b - 48)" by simp
  also have "\<dots> \<le> foldl (\<lambda>a b. a * 10 + (unat b - 48)) (a * 10 + (unat b - 48)) bs" by (rule Cons)
  finally show ?case by simp
qed simp

lemma parse_step:
  assumes "is_ascii_digit b"
  shows "parse_u32_loop v (b # bs) =
    (if unat v * 10 + (unat b - 48) < 2 ^ 32
     then parse_u32_loop (of_nat (unat v * 10 + (unat b - 48))) bs else None)"
proof (cases "unat v * 10 < 2 ^ 32")
  case True
  then have v: "unat (v * 10) = unat v * 10" by (simp add: unat_word_ariths)
  let ?d = "ucast (b - 48) :: u32"
  have "v * 10 + ?d = of_nat (unat (v * 10) + unat ?d)" 
    by (rule word_add_of_nat)
  then have "v * 10 + ?d = of_nat (unat v * 10 + (unat b - 48))"
    by (simp only: v digit_value [OF assms])
  moreover have "checked_mul_u32 v 10 = Some (v * 10)" using True by (simp add: checked_mul_u32_def)
  moreover have "checked_add_u32 (v * 10) ?d =
      (if unat v * 10 + (unat b - 48) < 2 ^ 32 then Some (v * 10 + ?d) else None)"
    by (simp only: checked_add_u32_def v digit_value [OF assms])
  ultimately show ?thesis using assms by simp
next
  case False
  with assms show ?thesis by (simp add: checked_mul_u32_def)
qed

lemma parse_u32_loop_value:
  "parse_u32_loop v bs =
     (let n = foldl (\<lambda>a b. a * 10 + (unat b - 48)) (unat v) bs in
      if list_all is_ascii_digit bs \<and> n < 2 ^ 32 then Some (of_nat n) else None)"
proof (induction bs arbitrary: v)
  case Nil
  then show ?case using unat_bound [of v] by (simp add: Let_def)
next
  case (Cons b bs)
  show ?case
  proof (cases "is_ascii_digit b")
    case False
    then show ?thesis by simp
  next
    case True
    let ?m = "unat v * 10 + (unat b - 48)"
    show ?thesis
    proof (cases "?m < 2 ^ 32")
      case small: True
      then have "unat (of_nat ?m :: u32) = ?m" by (intro unat_of_nat_small) simp
      with small True show ?thesis by (simp only: parse_step Cons.IH if_True) simp
    next
      case big: False
      then have "\<not> foldl (\<lambda>a b. a * 10 + (unat b - 48)) ?m bs < 2 ^ 32"
        using foldl_decimal_mono [of ?m bs] by linarith
      with big True show ?thesis by (simp only: parse_step if_False) simp
    qed
  qed
qed

end
