(* ===== verification/Phys_Allocator.thy ===== *)
theory Phys_Allocator
  imports Byte_Strings
begin

text \<open>
  The physical page allocator: \<^verbatim>\<open>PhysPageAllocator\<close> and
  \<^verbatim>\<open>init_physical_allocator\<close> of \<^verbatim>\<open>kernel/src/main.rs\<close>.  Free memory is a
  table of up to 32 ranges, each consumed from its low end, plus a stack of up to 4096
  returned pages that is served first.  The interface the rest of the kernel relies on is the
  locale \<open>page_pool\<close>; the allocator interprets it, with the set of pages it can still
  hand out as the abstract state.
\<close>

section \<open>Model\<close>

definition PAGE_SIZE :: u64 where "PAGE_SIZE = 4096"
definition MAX_PHYS_RANGES :: nat where "MAX_PHYS_RANGES = 32"
definition FREE_PAGE_STACK_MAX :: nat where "FREE_PAGE_STACK_MAX = 4096"
definition APP_LOAD_MAX :: u64 where "APP_LOAD_MAX = 0x9000000"

record page_range =
  rg_next :: u64
  rg_end :: u64

record phys_page_allocator =
  ranges :: "page_range list"
  range_count :: nat
  total_pages :: u64
  allocated_pages :: u64
  free_stack :: "u64 list"
  free_count :: nat

definition page_range_empty :: page_range where
  "page_range_empty = \<lparr>rg_next = 0, rg_end = 0\<rparr>"

definition allocator_empty :: phys_page_allocator where
  "allocator_empty =
     \<lparr>ranges = replicate MAX_PHYS_RANGES page_range_empty, range_count = 0, total_pages = 0,
      allocated_pages = 0, free_stack = replicate FREE_PAGE_STACK_MAX 0, free_count = 0\<rparr>"

definition add_range :: "phys_page_allocator \<Rightarrow> u64 \<Rightarrow> u64 \<Rightarrow> phys_page_allocator" where
  "add_range a start0 end0 =
     (let start = align_up_u64 start0 PAGE_SIZE; stop = align_down_u64 end0 PAGE_SIZE in
      if start \<ge> stop \<or> range_count a \<ge> MAX_PHYS_RANGES then a
      else a\<lparr>ranges := (ranges a)[range_count a := \<lparr>rg_next = start, rg_end = stop\<rparr>],
             range_count := range_count a + 1,
             total_pages := total_pages a + (stop - start) div PAGE_SIZE\<rparr>)"

definition alloc_page :: "phys_page_allocator \<Rightarrow> u64 option \<times> phys_page_allocator" where
  "alloc_page a =
     (if free_count a > 0 then
        let n = free_count a - 1 in
        (Some (free_stack a ! n),
         a\<lparr>free_count := n, free_stack := (free_stack a)[n := 0],
           allocated_pages := allocated_pages a + 1\<rparr>)
      else
        case find (\<lambda>i. rg_next (ranges a ! i) < rg_end (ranges a ! i)) [0..<range_count a] of
          Some i \<Rightarrow>
            let r = ranges a ! i in
            (Some (rg_next r),
             a\<lparr>ranges := (ranges a)[i := r\<lparr>rg_next := rg_next r + PAGE_SIZE\<rparr>],
               allocated_pages := allocated_pages a + 1\<rparr>)
        | None \<Rightarrow> (None, a))"

definition free_page :: "u64 \<Rightarrow> phys_page_allocator \<Rightarrow> bool \<times> phys_page_allocator" where
  "free_page page a =
     (if page AND (PAGE_SIZE - 1) \<noteq> 0 \<or> free_count a \<ge> FREE_PAGE_STACK_MAX then (False, a)
      else (True, a\<lparr>free_stack := (free_stack a)[free_count a := page],
                    free_count := free_count a + 1,
                    allocated_pages := saturating_sub (allocated_pages a) 1\<rparr>))"

definition free_pages :: "phys_page_allocator \<Rightarrow> u64" where
  "free_pages a = saturating_sub (total_pages a) (allocated_pages a)"

text \<open>
  \<^verbatim>\<open>init_physical_allocator\<close> walks the firmware's memory map: conventional memory
  (type 7) from \<^verbatim>\<open>APP_LOAD_MAX\<close> up becomes a range.  The map is given by the boot
  loader; a descriptor is the triple of fields the kernel reads.
\<close>

record efi_memory_descriptor =
  md_typ :: u32
  md_physical_start :: u64
  md_number_of_pages :: u64

definition add_descriptor :: "efi_memory_descriptor \<Rightarrow> phys_page_allocator \<Rightarrow> phys_page_allocator" where
  "add_descriptor d a =
     (if md_typ d \<noteq> 7 then a
      else let start = md_physical_start d; stop = start + md_number_of_pages d * PAGE_SIZE in
        add_range a (if start < APP_LOAD_MAX then APP_LOAD_MAX else start) stop)"

definition init_physical_allocator :: "efi_memory_descriptor list option \<Rightarrow> phys_page_allocator" where
  "init_physical_allocator memory_map =
     (case memory_map of None \<Rightarrow> allocator_empty
      | Some ds \<Rightarrow> fold add_descriptor ds allocator_empty)"

section \<open>Invariant and abstract state\<close>

definition page_aligned :: "u64 \<Rightarrow> bool" where
  "page_aligned p \<longleftrightarrow> p AND (PAGE_SIZE - 1) = 0"

definition range_pages :: "page_range \<Rightarrow> u64 set" where
  "range_pages r = {p. page_aligned p \<and> rg_next r \<le> p \<and> p < rg_end r}"

definition stack_pages :: "phys_page_allocator \<Rightarrow> u64 set" where
  "stack_pages a = set (take (free_count a) (free_stack a))"

definition avail_pages :: "phys_page_allocator \<Rightarrow> u64 set" where
  "avail_pages a = stack_pages a \<union> (\<Union>i<range_count a. range_pages (ranges a ! i))"

definition allocator_wf :: "phys_page_allocator \<Rightarrow> bool" where
  "allocator_wf a \<longleftrightarrow>
     length (ranges a) = MAX_PHYS_RANGES \<and> range_count a \<le> MAX_PHYS_RANGES \<and>
     length (free_stack a) = FREE_PAGE_STACK_MAX \<and> free_count a \<le> FREE_PAGE_STACK_MAX \<and>
     (\<forall>i<range_count a. page_aligned (rg_next (ranges a ! i)) \<and> page_aligned (rg_end (ranges a ! i))) \<and>
     (\<forall>i<range_count a. \<forall>j<range_count a. i \<noteq> j \<longrightarrow>
        range_pages (ranges a ! i) \<inter> range_pages (ranges a ! j) = {}) \<and>
     distinct (take (free_count a) (free_stack a)) \<and>
     (\<forall>p \<in> stack_pages a. page_aligned p) \<and>
     (\<forall>i<range_count a. stack_pages a \<inter> range_pages (ranges a ! i) = {})"

lemmas alloc_consts = PAGE_SIZE_def MAX_PHYS_RANGES_def FREE_PAGE_STACK_MAX_def

section \<open>Page arithmetic\<close>

lemma page_aligned_dvd: "page_aligned p \<longleftrightarrow> 4096 dvd unat p"
proof -
  have "p AND (PAGE_SIZE - 1) = take_bit 12 p"
    by (simp add: PAGE_SIZE_def take_bit_eq_mask mask_eq_exp_minus_1)
  moreover have "unat (take_bit 12 p) = take_bit 12 (unat p)" by (rule unsigned_take_bit_eq)
  moreover have "take_bit 12 (unat p) = unat p mod 4096" by (simp add: take_bit_eq_mod)
  ultimately show ?thesis
    by (metis page_aligned_def dvd_eq_mod_eq_0 unat_0 unat_eq_zero)
qed

lemma unat_page_size [simp]: "unat PAGE_SIZE = 4096"
  by (simp add: PAGE_SIZE_def)

text \<open>Two page addresses in order leave room for a page between them.\<close>

lemma aligned_less:
  assumes "page_aligned p" "page_aligned q" "p < q"
  shows "unat p + 4096 \<le> unat q"
proof -
  obtain a b where a: "unat p = 4096 * a" and b: "unat q = 4096 * b"
    using assms(1,2) by (auto simp: page_aligned_dvd dvd_def)
  with assms(3) have "a < b" by (simp add: word_less_nat_alt)
  then show ?thesis unfolding a b by linarith
qed

lemma unat_next_page:
  assumes "page_aligned p" "page_aligned q" "p < q"
  shows "unat (p + PAGE_SIZE) = unat p + 4096"
proof -
  have "unat p + 4096 < 2 ^ 64"
    using aligned_less [OF assms] unat_bound [of q] by simp
  then show ?thesis using unat_add_no_wrap [of p PAGE_SIZE] by simp
qed

lemma page_aligned_next:
  "page_aligned p \<Longrightarrow> page_aligned q \<Longrightarrow> p < q \<Longrightarrow> page_aligned (p + PAGE_SIZE)"
  using unat_next_page [of p q] by (simp add: page_aligned_dvd)

lemma range_pages_step:
  assumes "page_aligned (rg_next r)" "page_aligned (rg_end r)" "rg_next r < rg_end r"
  shows "range_pages (r\<lparr>rg_next := rg_next r + PAGE_SIZE\<rparr>) = range_pages r - {rg_next r}"
    and "rg_next r \<in> range_pages r"
proof -
  note u = unat_next_page [OF assms]
  show "rg_next r \<in> range_pages r" using assms by (simp add: range_pages_def)
  have "rg_next r + PAGE_SIZE \<le> p \<longleftrightarrow> rg_next r \<le> p \<and> p \<noteq> rg_next r" if "page_aligned p" for p
  proof -
    have "rg_next r < p \<Longrightarrow> unat (rg_next r) + 4096 \<le> unat p"
      using aligned_less [OF assms(1) that] .
    then show ?thesis using u by (auto simp: word_le_nat_alt word_less_nat_alt le_less word_unat_eq_iff)
  qed
  then show "range_pages (r\<lparr>rg_next := rg_next r + PAGE_SIZE\<rparr>) = range_pages r - {rg_next r}"
    by (auto simp: range_pages_def)
qed

lemma range_pages_empty: "\<not> rg_next r < rg_end r \<Longrightarrow> range_pages r = {}"
  by (auto simp: range_pages_def)

section \<open>Allocation and release on the abstract state\<close>

lemma take_pop: "0 < n \<Longrightarrow> n \<le> length xs \<Longrightarrow> take n xs = take (n - 1) xs @ [xs ! (n - 1)]"
  by (cases n) (auto simp: take_Suc_conv_app_nth)

lemma stack_pop:
  assumes "allocator_wf a" "free_count a > 0"
  shows "stack_pages a = insert (free_stack a ! (free_count a - 1)) (set (take (free_count a - 1) (free_stack a)))"
    and "free_stack a ! (free_count a - 1) \<notin> set (take (free_count a - 1) (free_stack a))"
    and "distinct (take (free_count a - 1) (free_stack a))"
proof -
  have "take (free_count a) (free_stack a) =
      take (free_count a - 1) (free_stack a) @ [free_stack a ! (free_count a - 1)]"
    using assms by (intro take_pop) (auto simp: allocator_wf_def)
  with assms show "stack_pages a = insert (free_stack a ! (free_count a - 1)) (set (take (free_count a - 1) (free_stack a)))"
    and "free_stack a ! (free_count a - 1) \<notin> set (take (free_count a - 1) (free_stack a))"
    and "distinct (take (free_count a - 1) (free_stack a))"
    by (auto simp: allocator_wf_def stack_pages_def)
qed

text \<open>The three outcomes of an allocation.\<close>

lemma alloc_page_cases [consumes 1, case_names stack range none]:
  assumes "alloc_page a = (r, a')"
  obtains "free_count a > 0" "r = Some (free_stack a ! (free_count a - 1))"
      "a' = a\<lparr>free_count := free_count a - 1, free_stack := (free_stack a)[free_count a - 1 := 0],
             allocated_pages := allocated_pages a + 1\<rparr>"
  | i where "free_count a = 0" "i < range_count a"
      "rg_next (ranges a ! i) < rg_end (ranges a ! i)" "r = Some (rg_next (ranges a ! i))"
      "a' = a\<lparr>ranges := (ranges a)[i := (ranges a ! i)\<lparr>rg_next := rg_next (ranges a ! i) + PAGE_SIZE\<rparr>],
             allocated_pages := allocated_pages a + 1\<rparr>"
  | "free_count a = 0" "r = None" "a' = a"
      "\<And>i. i < range_count a \<Longrightarrow> \<not> rg_next (ranges a ! i) < rg_end (ranges a ! i)"
proof (cases "free_count a > 0")
  case True
  moreover from this assms have "r = Some (free_stack a ! (free_count a - 1))"
      "a' = a\<lparr>free_count := free_count a - 1, free_stack := (free_stack a)[free_count a - 1 := 0],
             allocated_pages := allocated_pages a + 1\<rparr>"
    by (simp_all add: alloc_page_def Let_def)
  ultimately show ?thesis by (rule that(1))
next
  case False
  let ?f = "find (\<lambda>i. rg_next (ranges a ! i) < rg_end (ranges a ! i)) [0..<range_count a]"
  show ?thesis
  proof (cases ?f)
    case None
    with False assms have "r = None" "a' = a" by (simp_all add: alloc_page_def)
    moreover have "\<not> rg_next (ranges a ! i) < rg_end (ranges a ! i)" if "i < range_count a" for i
      using find_upt_NoneD [OF None that] .
    ultimately show ?thesis using False by (intro that(3)) simp_all
  next
    case (Some i)
    with False assms have "r = Some (rg_next (ranges a ! i))"
      "a' = a\<lparr>ranges := (ranges a)[i := (ranges a ! i)\<lparr>rg_next := rg_next (ranges a ! i) + PAGE_SIZE\<rparr>],
             allocated_pages := allocated_pages a + 1\<rparr>"
      by (simp_all add: alloc_page_def Let_def)
    with False find_upt_SomeD(1,2) [OF Some] show ?thesis by (intro that(2)) simp_all
  qed
qed

lemma alloc_page_stack:
  assumes wf: "allocator_wf a" and fc: "free_count a > 0"
    and a': "a' = a\<lparr>free_count := free_count a - 1, free_stack := (free_stack a)[free_count a - 1 := 0],
             allocated_pages := allocated_pages a + 1\<rparr>"
  shows "allocator_wf a'" "free_stack a ! (free_count a - 1) \<in> avail_pages a"
    "avail_pages a' = avail_pages a - {free_stack a ! (free_count a - 1)}"
proof -
  let ?p = "free_stack a ! (free_count a - 1)"
  note pop = stack_pop [OF wf fc]
  have st: "stack_pages a' = stack_pages a - {?p}" "take (free_count a') (free_stack a') = take (free_count a - 1) (free_stack a)"
    using pop by (auto simp: a' stack_pages_def)
  have notin: "?p \<notin> range_pages (ranges a ! i)" if "i < range_count a" for i
    using that wf pop(1) by (auto simp: allocator_wf_def)
  show "?p \<in> avail_pages a" using pop(1) by (simp add: avail_pages_def)
  show "avail_pages a' = avail_pages a - {?p}"
    using st notin by (auto simp: avail_pages_def a')
  show "allocator_wf a'"
    unfolding allocator_wf_def st(2)
    using wf st(1) pop(3) by (auto simp: allocator_wf_def a')
qed

lemma alloc_page_range:
  assumes wf: "allocator_wf a" and fc: "free_count a = 0" and i: "i < range_count a"
    and less: "rg_next (ranges a ! i) < rg_end (ranges a ! i)"
    and a': "a' = a\<lparr>ranges := (ranges a)[i := (ranges a ! i)\<lparr>rg_next := rg_next (ranges a ! i) + PAGE_SIZE\<rparr>],
             allocated_pages := allocated_pages a + 1\<rparr>"
  shows "allocator_wf a'" "rg_next (ranges a ! i) \<in> avail_pages a"
    "avail_pages a' = avail_pages a - {rg_next (ranges a ! i)}"
proof -
  let ?p = "rg_next (ranges a ! i)"
  have al: "page_aligned ?p" "page_aligned (rg_end (ranges a ! i))" and len: "i < length (ranges a)"
    using wf i by (auto simp: allocator_wf_def)
  note step = range_pages_step [OF al less]
  have pages: "range_pages (ranges a' ! j) = (if j = i then range_pages (ranges a ! i) - {?p} else range_pages (ranges a ! j))" for j
    using len step(1) by (simp add: a' nth_list_update)
  have notin: "?p \<notin> range_pages (ranges a ! j)" if "j < range_count a" "j \<noteq> i" for j
    using that wf i step(2) by (auto simp: allocator_wf_def)
  have st: "stack_pages a = {}" "stack_pages a' = {}" using fc by (simp_all add: stack_pages_def a')
  show "?p \<in> avail_pages a" using step(2) i by (auto simp: avail_pages_def)
  have "(\<Union>j<range_count a. range_pages (ranges a' ! j)) = (\<Union>j<range_count a. range_pages (ranges a ! j)) - {?p}"
    using notin step(2) i by (auto simp: pages split: if_splits)
  moreover have rc: "range_count a' = range_count a" by (simp add: a')
  ultimately show "avail_pages a' = avail_pages a - {?p}" unfolding avail_pages_def st rc by simp
  have "page_aligned (rg_next (ranges a' ! j))" "page_aligned (rg_end (ranges a' ! j))" if "j < range_count a" for j
    using that wf len page_aligned_next [OF al less]
    by (auto simp: allocator_wf_def a' nth_list_update)
  moreover have "range_pages (ranges a' ! j) \<inter> range_pages (ranges a' ! k) = {}"
    if "j < range_count a" "k < range_count a" "j \<noteq> k" for j k
    using that wf by (auto simp: pages allocator_wf_def)
  ultimately show "allocator_wf a'"
    using wf fc by (simp add: allocator_wf_def a' stack_pages_def)
qed

lemma free_page_True:
  assumes wf: "allocator_wf a" and f: "free_page p a = (True, a')" and p: "p \<notin> avail_pages a"
  shows "allocator_wf a'" "avail_pages a' = insert p (avail_pages a)"
proof -
  let ?n = "free_count a"
  from f have n: "?n < FREE_PAGE_STACK_MAX" and al: "page_aligned p"
    and a': "a' = a\<lparr>free_stack := (free_stack a)[?n := p], free_count := ?n + 1,
                    allocated_pages := saturating_sub (allocated_pages a) 1\<rparr>"
    by (auto simp: free_page_def page_aligned_def split: if_splits)
  have len: "?n < length (free_stack a)" using n wf by (simp add: allocator_wf_def)
  have tk: "take (free_count a') (free_stack a') = take ?n (free_stack a) @ [p]"
    using len by (simp add: a' take_Suc_conv_app_nth)
  have st: "stack_pages a' = insert p (stack_pages a)"
    by (simp add: stack_pages_def tk)
  have rc: "range_count a' = range_count a" "ranges a' = ranges a" by (simp_all add: a')
  show "avail_pages a' = insert p (avail_pages a)" unfolding avail_pages_def st rc by simp
  have "p \<notin> stack_pages a" "\<And>i. i < range_count a \<Longrightarrow> p \<notin> range_pages (ranges a ! i)"
    using p by (auto simp: avail_pages_def)
  with wf st al n tk show "allocator_wf a'"
    unfolding allocator_wf_def by (simp add: a' stack_pages_def)
qed

lemma free_page_False: "free_page p a = (False, a') \<Longrightarrow> a' = a"
  by (auto simp: free_page_def split: if_splits)

section \<open>The interface: a pool of pages\<close>

text \<open>
  What the page-table code and every other owner of physical pages relies on: an allocation
  takes a page out of the available set, a release of a page that is not available puts it
  back or leaves the pool alone.
\<close>

locale page_pool =
  fixes alloc :: "'s \<Rightarrow> 'p option \<times> 's"
    and release :: "'p \<Rightarrow> 's \<Rightarrow> bool \<times> 's"
    and avail :: "'s \<Rightarrow> 'p set"
    and pool_ok :: "'s \<Rightarrow> bool"
  assumes alloc_some: "pool_ok s \<Longrightarrow> alloc s = (Some p, s') \<Longrightarrow>
      pool_ok s' \<and> p \<in> avail s \<and> avail s' = avail s - {p}"
    and alloc_none: "pool_ok s \<Longrightarrow> alloc s = (None, s') \<Longrightarrow> s' = s \<and> avail s = {}"
    and release_true: "pool_ok s \<Longrightarrow> p \<notin> avail s \<Longrightarrow> release p s = (True, s') \<Longrightarrow>
      pool_ok s' \<and> avail s' = insert p (avail s)"
    and release_false: "release p s = (False, s') \<Longrightarrow> s' = s"
begin

text \<open>Pages owned by clients stay disjoint from the pool.\<close>

lemma alloc_fresh:
  "pool_ok s \<Longrightarrow> owned \<inter> avail s = {} \<Longrightarrow> alloc s = (Some p, s') \<Longrightarrow>
     p \<notin> owned \<and> insert p owned \<inter> avail s' = {}"
  using alloc_some by blast

lemma release_owned:
  "pool_ok s \<Longrightarrow> owned \<inter> avail s = {} \<Longrightarrow> p \<in> owned \<Longrightarrow> release p s = (done, s') \<Longrightarrow>
     pool_ok s' \<and> (owned - {p}) \<inter> avail s' = {} \<and> avail s' \<subseteq> insert p (avail s)"
  using release_true [of s p s'] release_false [of p s s'] by (cases "done") auto

lemma alloc_none_iff:
  assumes "pool_ok s"
  shows "fst (alloc s) = None \<longleftrightarrow> avail s = {}"
  using alloc_some [OF assms, of _ "snd (alloc s)"] alloc_none [OF assms, of "snd (alloc s)"]
  by (cases "fst (alloc s)") (auto simp: prod_eq_iff)

end

interpretation phys: page_pool alloc_page free_page avail_pages allocator_wf
proof unfold_locales
  fix a p a'
  assume wf: "allocator_wf a"
  show "allocator_wf a' \<and> p \<in> avail_pages a \<and> avail_pages a' = avail_pages a - {p}"
    if "alloc_page a = (Some p, a')"
    using that
  proof (cases rule: alloc_page_cases)
    case stack
    with alloc_page_stack [OF wf stack(1,3)] show ?thesis by simp
  next
    case (range i)
    with alloc_page_range [OF wf range(1,2,3,5)] show ?thesis by simp
  next
    case none
    then show ?thesis by simp
  qed
  show "a' = a \<and> avail_pages a = {}" if "alloc_page a = (None, a')"
    using that by (cases rule: alloc_page_cases)
      (auto simp: avail_pages_def stack_pages_def range_pages_empty)
  show "allocator_wf a' \<and> avail_pages a' = insert p (avail_pages a)"
    if "p \<notin> avail_pages a" "free_page p a = (True, a')"
    using free_page_True [OF wf that(2,1)] by blast
next
  show "a' = a" if "free_page p a = (False, a')" for p a a'
    using that by (rule free_page_False)
qed

section \<open>Clients of the allocator\<close>

text \<open>
  Any interleaving of allocations and releases by the kernel, with the set of pages owned by
  it as ghost state.  A release the allocator refuses (its stack is full) loses the page.
\<close>

inductive page_client :: "phys_page_allocator \<Rightarrow> phys_page_allocator \<Rightarrow> u64 set \<Rightarrow> bool"
  for a0 :: phys_page_allocator where
  start: "page_client a0 a0 {}"
| get: "page_client a0 a owned \<Longrightarrow> alloc_page a = (Some p, a') \<Longrightarrow> page_client a0 a' (insert p owned)"
| get_none: "page_client a0 a owned \<Longrightarrow> alloc_page a = (None, a') \<Longrightarrow> page_client a0 a' owned"
| put: "page_client a0 a owned \<Longrightarrow> p \<in> owned \<Longrightarrow> free_page p a = (ok, a') \<Longrightarrow>
    page_client a0 a' (owned - {p})"

lemma page_client_inv:
  assumes "page_client a0 a owned" "allocator_wf a0"
  shows "allocator_wf a \<and> owned \<inter> avail_pages a = {} \<and> owned \<union> avail_pages a \<subseteq> avail_pages a0"
  using assms
proof (induction rule: page_client.induct)
  case start
  then show ?case by simp
next
  case (get a owned p a')
  then have wf: "allocator_wf a" and d: "owned \<inter> avail_pages a = {}"
    and sub: "owned \<union> avail_pages a \<subseteq> avail_pages a0" by auto
  from phys.alloc_some [OF wf get.hyps(2)] phys.alloc_fresh [OF wf d get.hyps(2)] sub
  show ?case by auto
next
  case (get_none a owned a')
  then show ?case using phys.alloc_none by blast
next
  case (put a owned p ok a')
  then have wf: "allocator_wf a" and d: "owned \<inter> avail_pages a = {}"
    and sub: "owned \<union> avail_pages a \<subseteq> avail_pages a0" by auto
  from phys.release_owned [OF wf d put.hyps(2,3)] sub put.hyps(2) show ?case by blast
qed

subsection \<open>Accounting\<close>

lemma alloc_page_counters:
  assumes "alloc_page a = (r, a')"
  shows "total_pages a' = total_pages a"
    "allocated_pages a' = (if r = None then allocated_pages a else allocated_pages a + 1)"
  using assms by (cases rule: alloc_page_cases, simp_all)+

lemma free_page_counters:
  assumes "free_page p a = (ok, a')"
  shows "total_pages a' = total_pages a"
    "allocated_pages a' = (if ok then saturating_sub (allocated_pages a) 1 else allocated_pages a)"
  using assms by (auto simp: free_page_def split: if_splits)

lemma finite_pages [simp]: "finite (S :: u64 set)"
  by (rule finite_subset [OF subset_UNIV]) simp

lemma page_client_counters:
  assumes "page_client a0 a owned" "allocator_wf a0" "allocated_pages a0 = 0"
    and "unat (total_pages a0) = card (avail_pages a0)"
  shows "total_pages a = total_pages a0 \<and>
    unat (allocated_pages a) + card (avail_pages a) = unat (total_pages a0)"
  using assms
proof (induction rule: page_client.induct)
  case start
  then show ?case by simp
next
  case (get a owned p a')
  then have wf: "allocator_wf a" using page_client_inv by blast
  from phys.alloc_some [OF wf get.hyps(2)]
  have c: "Suc (card (avail_pages a')) = card (avail_pages a)"
    by (metis card_Suc_Diff1 finite_pages)
  have ih: "unat (allocated_pages a) + card (avail_pages a) = unat (total_pages a0)"
    "total_pages a = total_pages a0" using get by auto
  have "unat (allocated_pages a) + 1 < 2 ^ 64"
    using ih(1) c unat_bound [of "total_pages a0"] by simp
  then have "unat (allocated_pages a + 1) = unat (allocated_pages a) + 1"
    using unat_add_no_wrap [of "allocated_pages a" 1] by simp
  with alloc_page_counters [OF get.hyps(2)] ih c show ?case by simp
next
  case (get_none a owned a')
  then have "allocator_wf a" using page_client_inv by blast
  then have "a' = a" using phys.alloc_none get_none.hyps(2) by blast
  with get_none show ?case by simp
next
  case (put a owned p ok a')
  note inv = page_client_inv [OF put.hyps(1) put.prems(1)]
  have ih: "unat (allocated_pages a) + card (avail_pages a) = unat (total_pages a0)"
    "total_pages a = total_pages a0" using put by auto
  show ?case
  proof (cases ok)
    case True
    have p: "p \<notin> avail_pages a" "p \<in> avail_pages a0" using inv put.hyps(2) by auto
    have "free_page p a = (True, a')" using put.hyps(3) True by simp
    with phys.release_true [of a p a'] inv p(1) have av: "avail_pages a' = insert p (avail_pages a)"
      by simp
    have "card (insert p (avail_pages a)) \<le> card (avail_pages a0)"
      using inv p by (intro card_mono) auto
    then have "Suc (card (avail_pages a)) \<le> unat (total_pages a0)" using p put.prems by simp
    then have "unat (allocated_pages a) \<ge> 1" using ih by linarith
    moreover have "card (avail_pages a') = Suc (card (avail_pages a))" unfolding av using p(1) by simp
    moreover have "unat (allocated_pages a') = unat (allocated_pages a) - 1"
      using free_page_counters(2) [OF put.hyps(3)] True by (simp add: unat_saturating_sub)
    moreover have "total_pages a' = total_pages a0"
      using free_page_counters(1) [OF put.hyps(3)] ih(2) by simp
    ultimately show ?thesis using ih(1) by linarith
  next
    case False
    with put.hyps(3) have "a' = a" using phys.release_false [of p a a'] by simp
    with ih show ?thesis by simp
  qed
qed

subsection \<open>Building the pool from the memory map\<close>

lemma range_pages_image:
  assumes "page_aligned (rg_next r)" "page_aligned (rg_end r)"
  shows "range_pages r =
    (\<lambda>k. of_nat (unat (rg_next r) + 4096 * k)) ` {..<(unat (rg_end r) - unat (rg_next r)) div 4096}"
    (is "_ = ?f ` {..<?n}")
proof -
  obtain a b where a: "unat (rg_next r) = 4096 * a" and b: "unat (rg_end r) = 4096 * b"
    using assms by (auto simp: page_aligned_dvd dvd_def)
  have n: "?n = b - a" unfolding a b by (simp flip: diff_mult_distrib2)
  have u: "unat (?f k) = 4096 * (a + k)" if "k < ?n" for k
  proof -
    have "4096 * (a + k) < 4096 * b" using that n by simp
    then have "4096 * (a + k) < 2 ^ 64" using b unat_bound [of "rg_end r"] by simp
    then have "unat (of_nat (4096 * (a + k)) :: u64) = 4096 * (a + k)"
      by (intro unat_of_nat_small) simp
    then show ?thesis by (simp only: a distrib_left)
  qed
  show ?thesis
  proof (intro subset_antisym subsetI)
    fix p assume p: "p \<in> range_pages r"
    then obtain c where c: "unat p = 4096 * c" by (auto simp: range_pages_def page_aligned_dvd dvd_def)
    with p a b have "a \<le> c" "c < b" by (auto simp: range_pages_def word_le_nat_alt word_less_nat_alt)
    then have k: "c - a < ?n" and "unat (?f (c - a)) = unat p" using n u [of "c - a"] c by auto
    then have "p = ?f (c - a)" by (simp only: word_unat_eq_iff)
    with k show "p \<in> ?f ` {..<?n}" by blast
  next
    fix p assume "p \<in> ?f ` {..<?n}"
    then obtain k where k: "k < ?n" "p = ?f k" by blast
    with u n a b show "p \<in> range_pages r"
      by (auto simp: range_pages_def page_aligned_dvd word_le_nat_alt word_less_nat_alt)
  qed
qed

lemma card_range_pages:
  assumes "page_aligned (rg_next r)" "page_aligned (rg_end r)"
  shows "card (range_pages r) = (unat (rg_end r) - unat (rg_next r)) div 4096"
proof -
  let ?n = "(unat (rg_end r) - unat (rg_next r)) div 4096"
  let ?f = "\<lambda>k. of_nat (unat (rg_next r) + 4096 * k) :: u64"
  have u: "unat (?f k) = unat (rg_next r) + 4096 * k" if "k < ?n" for k
  proof -
    have "4096 * k < unat (rg_end r) - unat (rg_next r)"
      using that by (simp add: div_less_iff_less_mult less_eq_div_iff_mult_less_eq)
    then show ?thesis using unat_bound [of "rg_end r"] by (intro unat_of_nat_small) simp
  qed
  have "inj_on ?f {..<?n}"
  proof (rule inj_onI)
    fix j k assume jk: "j \<in> {..<?n}" "k \<in> {..<?n}" and "?f j = ?f k"
    then have "unat (?f j) = unat (?f k)" by (simp only:)
    then have "unat (rg_next r) + 4096 * j = unat (rg_next r) + 4096 * k"
      using u [of j] u [of k] jk by (simp only: lessThan_iff)
    then show "j = k" by simp
  qed
  then show ?thesis by (simp add: range_pages_image [OF assms] card_image)
qed

lemma align_down_aligned: "page_aligned (align_down_u64 v PAGE_SIZE)"
  by (simp add: page_aligned_def align_down_u64_def and.assoc)

lemma align_down_le: "align_down_u64 v PAGE_SIZE \<le> v"
  by (simp add: align_down_u64_def word_and_le2)

lemma align_up_aligned: "page_aligned (align_up_u64 v PAGE_SIZE)"
  by (simp add: page_aligned_def align_up_u64_def and.assoc)

lemma align_up_id:
  assumes "page_aligned v"
  shows "align_up_u64 v PAGE_SIZE = v"
proof -
  have "v AND 4095 = 0" using assms by (simp add: page_aligned_def PAGE_SIZE_def)
  then have "v + 4095 = v OR 4095" by (rule disjunctive_add_eq_or)
  moreover have "(v OR 4095) AND NOT 4095 = v AND NOT 4095"
    by (simp only: bit.conj_disj_distrib2 bit.conj_cancel_right or.right_neutral)
  moreover have "v AND NOT 4095 = v"
  proof -
    have "v = v AND (4095 OR NOT 4095)" by (simp only: bit.disj_cancel_right and.right_neutral)
    then show ?thesis using \<open>v AND 4095 = 0\<close>
      by (simp only: bit.conj_disj_distrib or.left_neutral)
  qed
  ultimately have "(v + 4095) AND NOT 4095 = v" by (simp only:)
  then show ?thesis by (simp only: align_up_u64_def PAGE_SIZE_def) (simp add: add.commute)
qed

lemma avail_aligned: "allocator_wf a \<Longrightarrow> p \<in> avail_pages a \<Longrightarrow> page_aligned p"
  by (auto simp: allocator_wf_def avail_pages_def range_pages_def)

lemma card_aligned_bound:
  assumes "\<And>p. p \<in> S \<Longrightarrow> page_aligned p"
  shows "card S < 2 ^ 64"
proof -
  have "1 \<notin> S" using assms [of 1] by (auto simp: page_aligned_dvd)
  then have "card S < card (UNIV :: u64 set)" by (intro psubset_card_mono) auto
  then show ?thesis by (simp add: card_word)
qed

lemma add_range_effect:
  assumes wf: "allocator_wf a" and tot: "unat (total_pages a) = card (avail_pages a)"
    and new: "new = range_pages \<lparr>rg_next = align_up_u64 s PAGE_SIZE, rg_end = align_down_u64 e PAGE_SIZE\<rparr>"
    and disj: "new \<inter> avail_pages a = {}"
  shows "allocator_wf (add_range a s e)"
    and "avail_pages (add_range a s e) = avail_pages a \<or> avail_pages (add_range a s e) = avail_pages a \<union> new"
    and "unat (total_pages (add_range a s e)) = card (avail_pages (add_range a s e))"
    and "allocated_pages (add_range a s e) = allocated_pages a"
proof -
  let ?s = "align_up_u64 s PAGE_SIZE" and ?e = "align_down_u64 e PAGE_SIZE" and ?n = "range_count a"
  let ?a = "add_range a s e"
  let ?r = "\<lparr>rg_next = ?s, rg_end = ?e\<rparr>"
  consider "?s \<ge> ?e \<or> ?n \<ge> MAX_PHYS_RANGES" | "\<not> (?s \<ge> ?e \<or> ?n \<ge> MAX_PHYS_RANGES)" by blast
  then have "allocator_wf ?a \<and> (avail_pages ?a = avail_pages a \<or> avail_pages ?a = avail_pages a \<union> new) \<and>
      unat (total_pages ?a) = card (avail_pages ?a) \<and> allocated_pages ?a = allocated_pages a"
  proof cases
    case 1
    then have "?a = a" by (simp add: add_range_def Let_def)
    with wf tot show ?thesis by simp
  next
    case 2
    then have a': "?a = a\<lparr>ranges := (ranges a)[?n := ?r], range_count := ?n + 1,
        total_pages := total_pages a + (?e - ?s) div PAGE_SIZE\<rparr>"
      by (simp add: add_range_def Let_def)
    have len: "?n < length (ranges a)" using 2 wf by (simp add: allocator_wf_def)
    have nth: "ranges ?a ! i = (if i = ?n then ?r else ranges a ! i)" for i
      using len by (simp add: a' nth_list_update)
    have st: "stack_pages ?a = stack_pages a" and rc: "range_count ?a = Suc ?n"
      by (simp_all add: a' stack_pages_def)
    have "(\<Union>i<?n. range_pages (ranges ?a ! i)) = (\<Union>i<?n. range_pages (ranges a ! i))"
      by (intro SUP_cong) (auto simp: nth)
    then have "(\<Union>i<Suc ?n. range_pages (ranges ?a ! i)) = (\<Union>i<?n. range_pages (ranges a ! i)) \<union> new"
      by (simp add: lessThan_Suc nth new Un_commute)
    then have av: "avail_pages ?a = avail_pages a \<union> new"
      unfolding avail_pages_def st rc by blast
    have d: "stack_pages a \<inter> new = {}" "\<And>i. i < ?n \<Longrightarrow> range_pages (ranges a ! i) \<inter> new = {}"
      using disj by (auto simp: avail_pages_def)
    have pages: "range_pages (ranges ?a ! i) = (if i = ?n then new else range_pages (ranges a ! i))" for i
      by (simp add: nth new)
    have wfd: "range_pages (ranges a ! i) \<inter> range_pages (ranges a ! j) = {}"
      if "i < ?n" "j < ?n" "i \<noteq> j" for i j
      using that wf by (simp add: allocator_wf_def)
    have wf': "allocator_wf ?a"
      unfolding allocator_wf_def
    proof (intro conjI allI impI)
      show "page_aligned (rg_next (ranges ?a ! i))" "page_aligned (rg_end (ranges ?a ! i))"
        if "i < range_count ?a" for i
        using that wf by (auto simp: nth rc allocator_wf_def align_up_aligned align_down_aligned)
      show "range_pages (ranges ?a ! i) \<inter> range_pages (ranges ?a ! j) = {}"
        if "i < range_count ?a" "j < range_count ?a" "i \<noteq> j" for i j
        using that d(2) [of i] d(2) [of j] wfd [of i j] unfolding pages rc less_Suc_eq
        by (auto simp: Int_commute)
      show "stack_pages ?a \<inter> range_pages (ranges ?a ! i) = {}" if "i < range_count ?a" for i
        using that wf d(1) unfolding pages rc st less_Suc_eq allocator_wf_def by auto
    qed (use wf 2 in \<open>auto simp: allocator_wf_def a' stack_pages_def\<close>)
    have "unat ((?e - ?s) div PAGE_SIZE) = (unat ?e - unat ?s) div 4096"
    proof -
      have "?s \<le> ?e" using 2 linear by blast
      then show ?thesis by (simp add: unat_div unat_sub)
    qed
    also have "\<dots> = card new"
      unfolding new using card_range_pages [of ?r] by (simp add: align_up_aligned align_down_aligned)
    finally have dv: "unat ((?e - ?s) div PAGE_SIZE) = card new" .
    have cu: "card (avail_pages ?a) = card (avail_pages a) + card new"
      unfolding av using disj by (intro card_Un_disjoint) auto
    have "card (avail_pages ?a) < 2 ^ 64" using wf' avail_aligned by (intro card_aligned_bound) blast
    then have "unat (total_pages a + (?e - ?s) div PAGE_SIZE) = card (avail_pages a) + card new"
      using unat_add_no_wrap [of "total_pages a" "(?e - ?s) div PAGE_SIZE"] tot dv cu by simp
    with wf' av cu show ?thesis by (simp add: a')
  qed
  then show "allocator_wf ?a" "avail_pages ?a = avail_pages a \<or> avail_pages ?a = avail_pages a \<union> new"
    "unat (total_pages ?a) = card (avail_pages ?a)" "allocated_pages ?a = allocated_pages a"
    by blast+
qed

text \<open>
  What the firmware promises about the map (UEFI, \<^verbatim>\<open>GetMemoryMap\<close>): descriptors of
  conventional memory are page aligned, stay below \<open>2 ^ 64\<close> and do not overlap.
\<close>

definition desc_stop :: "efi_memory_descriptor \<Rightarrow> nat" where
  "desc_stop d = unat (md_physical_start d) + unat (md_number_of_pages d) * 4096"

definition efi_map_ok :: "efi_memory_descriptor list \<Rightarrow> bool" where
  "efi_map_ok ds \<longleftrightarrow>
     list_all (\<lambda>d. md_typ d = 7 \<longrightarrow> page_aligned (md_physical_start d) \<and> desc_stop d < 2 ^ 64) ds \<and>
     sorted_wrt (\<lambda>d e. md_typ d = 7 \<longrightarrow> md_typ e = 7 \<longrightarrow>
       desc_stop d \<le> unat (md_physical_start e) \<or> desc_stop e \<le> unat (md_physical_start d)) ds"

definition conventional :: "efi_memory_descriptor \<Rightarrow> u64 set" where
  "conventional d = {p. md_typ d = 7 \<and> unat (md_physical_start d) \<le> unat p \<and> unat p < desc_stop d \<and>
     APP_LOAD_MAX \<le> p}"

lemma desc_stop_word:
  assumes "desc_stop d < 2 ^ 64"
  shows "unat (md_physical_start d + md_number_of_pages d * PAGE_SIZE) = desc_stop d"
  using assms by (simp add: desc_stop_def unat_word_ariths)

lemma add_descriptor_effect:
  assumes wf: "allocator_wf a" and tot: "unat (total_pages a) = card (avail_pages a)"
    and d: "md_typ d = 7 \<longrightarrow> page_aligned (md_physical_start d) \<and> desc_stop d < 2 ^ 64"
    and disj: "conventional d \<inter> avail_pages a = {}"
  shows "allocator_wf (add_descriptor d a) \<and> avail_pages (add_descriptor d a) \<subseteq> avail_pages a \<union> conventional d \<and>
    unat (total_pages (add_descriptor d a)) = card (avail_pages (add_descriptor d a)) \<and>
    allocated_pages (add_descriptor d a) = allocated_pages a"
proof (cases "md_typ d = 7")
  case False
  with wf tot show ?thesis by (simp add: add_descriptor_def)
next
  case True
  let ?s = "if md_physical_start d < APP_LOAD_MAX then APP_LOAD_MAX else md_physical_start d"
  let ?e = "md_physical_start d + md_number_of_pages d * PAGE_SIZE"
  let ?new = "range_pages \<lparr>rg_next = align_up_u64 ?s PAGE_SIZE, rg_end = align_down_u64 ?e PAGE_SIZE\<rparr>"
  have al: "page_aligned ?s" using d True by (simp add: page_aligned_dvd APP_LOAD_MAX_def)
  have sub: "?new \<subseteq> conventional d"
  proof
    fix p assume "p \<in> ?new"
    then have "?s \<le> p" "p < align_down_u64 ?e PAGE_SIZE"
      by (simp_all add: range_pages_def align_up_id [OF al])
    then have "?s \<le> p" "p < ?e" using align_down_le [of ?e] by auto
    then have "md_physical_start d \<le> p" "APP_LOAD_MAX \<le> p" "unat p < desc_stop d"
      using d True desc_stop_word [of d] by (auto simp: word_less_nat_alt word_le_nat_alt split: if_splits)
    with True show "p \<in> conventional d" by (simp add: conventional_def word_le_nat_alt)
  qed
  have eq: "add_descriptor d a = add_range a ?s ?e" using True by (simp add: add_descriptor_def Let_def)
  have "?new \<inter> avail_pages a = {}" using sub disj by blast
  note e = add_range_effect [OF wf tot refl this]
  have "avail_pages (add_range a ?s ?e) \<subseteq> avail_pages a \<union> conventional d" using e(2) sub by blast
  with e(1,3,4) show ?thesis unfolding eq by blast
qed

lemma fold_add_descriptor:
  assumes "allocator_wf a" "unat (total_pages a) = card (avail_pages a)" "allocated_pages a = 0"
    and "efi_map_ok ds" "\<And>d. d \<in> set ds \<Longrightarrow> conventional d \<inter> avail_pages a = {}"
  shows "allocator_wf (fold add_descriptor ds a) \<and> allocated_pages (fold add_descriptor ds a) = 0 \<and>
    avail_pages (fold add_descriptor ds a) \<subseteq> avail_pages a \<union> (\<Union>d \<in> set ds. conventional d) \<and>
    unat (total_pages (fold add_descriptor ds a)) = card (avail_pages (fold add_descriptor ds a))"
  using assms
proof (induction ds arbitrary: a)
  case Nil
  then show ?case by simp
next
  case (Cons d ds)
  let ?a = "add_descriptor d a"
  have ok: "md_typ d = 7 \<longrightarrow> page_aligned (md_physical_start d) \<and> desc_stop d < 2 ^ 64" "efi_map_ok ds"
    and apart: "\<And>e. e \<in> set ds \<Longrightarrow> conventional d \<inter> conventional e = {}"
    using Cons.prems(4) by (auto simp: efi_map_ok_def conventional_def)
  from add_descriptor_effect [OF Cons.prems(1,2) ok(1)] Cons.prems(3,5)
  have s: "allocator_wf ?a" "avail_pages ?a \<subseteq> avail_pages a \<union> conventional d"
    "unat (total_pages ?a) = card (avail_pages ?a)" "allocated_pages ?a = 0" by auto
  have "conventional e \<inter> avail_pages ?a = {}" if "e \<in> set ds" for e
    using that s(2) apart [OF that] Cons.prems(5) [of e] by auto
  from Cons.IH [OF s(1,3,4) ok(2) this] s(2) show ?case by auto
qed

lemma allocator_empty_facts:
  "allocator_wf allocator_empty" "avail_pages allocator_empty = {}"
  "total_pages allocator_empty = 0" "allocated_pages allocator_empty = 0"
  by (simp_all add: allocator_empty_def allocator_wf_def avail_pages_def stack_pages_def)

section \<open>Properties\<close>

text \<open>
  C1. The page allocator never hands out a page that is still owned: from any well-formed
  allocator, after any interleaving of allocations and releases of owned pages (releases the
  allocator refuses included), a successful allocation returns a page-aligned page of the initial pool that no client
  owns.  The page was available and is the only one that leaves the available set; the allocator stays well formed and
  nothing that is owned now, the new page included, is available.
\<close>

theorem alloc_page_never_owned:
  assumes "allocator_wf a0" "page_client a0 a owned" "alloc_page a = (Some p, a')"
  shows "p \<notin> owned \<and> p \<in> avail_pages a0 \<and> page_aligned p \<and> p \<in> avail_pages a \<and> avail_pages a' = avail_pages a - {p} \<and>
    allocator_wf a' \<and> insert p owned \<inter> avail_pages a' = {}"
proof -
  have inv: "allocator_wf a" "owned \<inter> avail_pages a = {}" "owned \<union> avail_pages a \<subseteq> avail_pages a0"
    using page_client_inv [OF assms(2,1)] by auto
  with phys.alloc_some [OF inv(1) assms(3)] avail_aligned [OF inv(1)] show ?thesis by auto
qed

definition demo_map :: "efi_memory_descriptor list" where
  "demo_map =
     [\<lparr>md_typ = 7, md_physical_start = 0x100000, md_number_of_pages = 16\<rparr>,
      \<lparr>md_typ = 2, md_physical_start = 0x9000000, md_number_of_pages = 1\<rparr>,
      \<lparr>md_typ = 7, md_physical_start = 0x9001000, md_number_of_pages = 2\<rparr>]"

definition demo_allocator :: phys_page_allocator where
  "demo_allocator = init_physical_allocator (Some demo_map)"

lemma demo_map_ok: "efi_map_ok demo_map"
  by (simp add: demo_map_def efi_map_ok_def desc_stop_def page_aligned_def PAGE_SIZE_def)

lemma demo_allocator_eq:
  "demo_allocator = allocator_empty\<lparr>ranges := (replicate 32 page_range_empty)[0 := \<lparr>rg_next = 0x9001000, rg_end = 0x9003000\<rparr>],
     range_count := 1, total_pages := 2\<rparr>"
  by (simp add: demo_allocator_def init_physical_allocator_def demo_map_def add_descriptor_def add_range_def
      APP_LOAD_MAX_def align_up_u64_def align_down_u64_def allocator_empty_def alloc_consts Let_def)

lemma demo_alloc:
  "alloc_page demo_allocator = (Some 0x9001000,
     demo_allocator\<lparr>ranges := (replicate 32 page_range_empty)[0 := \<lparr>rg_next = 0x9002000, rg_end = 0x9003000\<rparr>],
       allocated_pages := 1\<rparr>)"
  by (simp add: demo_allocator_eq alloc_page_def allocator_empty_def alloc_consts Let_def)

lemma demo_wf: "allocator_wf demo_allocator \<and> allocated_pages demo_allocator = 0 \<and>
    unat (total_pages demo_allocator) = card (avail_pages demo_allocator)"
  unfolding demo_allocator_def init_physical_allocator_def option.case
  using fold_add_descriptor [OF _ _ _ demo_map_ok, of allocator_empty] allocator_empty_facts by simp

definition demo_taken :: phys_page_allocator where
  "demo_taken = demo_allocator\<lparr>ranges := (replicate 32 page_range_empty)[0 := \<lparr>rg_next = 0x9002000, rg_end = 0x9003000\<rparr>],
     allocated_pages := 1\<rparr>"

lemma demo_alloc_next: "fst (alloc_page demo_taken) = Some 0x9002000"
  by (simp add: demo_taken_def demo_allocator_eq alloc_page_def allocator_empty_def alloc_consts Let_def)

theorem alloc_page_never_owned_witness:
  "\<exists>a'. alloc_page demo_taken = (Some 0x9002000, a') \<and> 0x9002000 \<notin> {0x9001000 :: u64} \<and> 0x9002000 \<in> avail_pages demo_taken \<and>
     avail_pages a' = avail_pages demo_taken - {0x9002000} \<and> allocator_wf a' \<and> {0x9002000, 0x9001000} \<inter> avail_pages a' = {}"
proof -
  obtain a' where a: "alloc_page demo_taken = (Some 0x9002000, a')" using demo_alloc_next by (cases "alloc_page demo_taken") auto
  have "page_client demo_allocator demo_taken {0x9001000}"
    using page_client.get [OF page_client.start demo_alloc] by (simp add: demo_taken_def)
  from alloc_page_never_owned [OF _ this a] a demo_wf show ?thesis by blast
qed

text \<open>
  \<^verbatim>\<open>free_pages\<close> is exact: starting from a pool whose total counts its pages and with
  nothing allocated, after any client history it reports the number of pages that can still be
  handed out, and allocation fails exactly when that number is 0.
\<close>

theorem free_pages_exact:
  assumes "allocator_wf a0" "allocated_pages a0 = 0" "unat (total_pages a0) = card (avail_pages a0)"
    and "page_client a0 a owned"
  shows "unat (free_pages a) = card (avail_pages a) \<and> (fst (alloc_page a) = None \<longleftrightarrow> free_pages a = 0)"
proof -
  have wf: "allocator_wf a" using page_client_inv [OF assms(4,1)] by simp
  have c: "unat (free_pages a) = card (avail_pages a)"
    using page_client_counters [OF assms(4,1-3)] by (auto simp: free_pages_def unat_saturating_sub)
  then have "free_pages a = 0 \<longleftrightarrow> avail_pages a = {}" by (simp flip: unat_eq_zero)
  with c phys.alloc_none_iff [OF wf] show ?thesis by simp
qed

theorem free_pages_exact_witness:
  "unat (free_pages demo_allocator) = card (avail_pages demo_allocator) \<and>
     (fst (alloc_page demo_allocator) = None \<longleftrightarrow> free_pages demo_allocator = 0)"
  by (rule free_pages_exact [OF _ _ _ page_client.start]) (simp_all add: demo_wf)

text \<open>
  C2. \<^verbatim>\<open>init_physical_allocator\<close> on a memory map as the firmware promises it builds a
  well-formed pool (ranges disjoint and aligned, counters exact) whose every page is
  conventional memory at or above \<^verbatim>\<open>APP_LOAD_MAX\<close>, clear of the program image window.
\<close>

theorem init_physical_allocator_sound:
  assumes "efi_map_ok ds"
  shows "allocator_wf (init_physical_allocator (Some ds)) \<and>
    avail_pages (init_physical_allocator (Some ds)) \<subseteq> (\<Union>d \<in> set ds. conventional d) \<and>
    unat (total_pages (init_physical_allocator (Some ds))) = card (avail_pages (init_physical_allocator (Some ds)))"
  using fold_add_descriptor [OF _ _ _ assms, of allocator_empty] allocator_empty_facts
  by (simp add: init_physical_allocator_def)

theorem init_physical_allocator_sound_witness:
  "allocator_wf (init_physical_allocator (Some demo_map)) \<and>
    avail_pages (init_physical_allocator (Some demo_map)) \<subseteq> (\<Union>d \<in> set demo_map. conventional d) \<and>
    unat (total_pages (init_physical_allocator (Some demo_map))) =
      card (avail_pages (init_physical_allocator (Some demo_map)))"
  by (rule init_physical_allocator_sound [OF demo_map_ok])

end
