(* ===== verification/Page_Tables.thy ===== *)
theory Page_Tables
  imports Phys_Allocator "HOL-Library.Sublist"
begin

text \<open>
  Four-level page tables, \<^verbatim>\<open>kernel/src/main.rs\<close>: the walkers and editors
  \<^verbatim>\<open>ensure_next_table\<close>, \<^verbatim>\<open>map_page\<close>, \<^verbatim>\<open>unmap_page\<close> and their page-range loops, the
  kernel's own PML4, the private address space and the kernel stack of a process, and the
  release of all of them.

  Physical memory is identity-mapped while this code runs, so a table is read and written at
  its physical address; memory is a map from the addresses of 64-bit words to their values.
  The translation caches are not modelled (\<^verbatim>\<open>invlpg\<close> is a no-op here).

  The abstraction is \<open>walk\<close>: the page reached from a root along a path of table indices.
  Every editor is an update of that finite map at one path.
\<close>

section \<open>Model\<close>

definition PAGE_TABLE_ENTRIES :: nat where "PAGE_TABLE_ENTRIES = 512"
definition PAGE_PRESENT :: u64 where "PAGE_PRESENT = 1"
definition PAGE_WRITABLE :: u64 where "PAGE_WRITABLE = 2"
definition PAGE_HUGE :: u64 where "PAGE_HUGE = 128"
definition PAGE_ADDR_MASK :: u64 where "PAGE_ADDR_MASK = 0x000FFFFFFFFFF000"
definition USER_HEAP_BASE :: u64 where "USER_HEAP_BASE = 0xFFFF900000000000"
definition USER_HEAP_STRIDE :: u64 where "USER_HEAP_STRIDE = 256 * 1024 * 1024"
definition USER_MMAP_BASE :: u64 where "USER_MMAP_BASE = 0xFFFFA00000000000"
definition USER_MMAP_STRIDE :: u64 where "USER_MMAP_STRIDE = 1024 * 1024 * 1024"
definition KERNEL_STACK_BASE :: u64 where "KERNEL_STACK_BASE = 0xFFFFB00000000000"
definition KERNEL_STACK_STRIDE :: u64 where "KERNEL_STACK_STRIDE = 2 * 1024 * 1024"
definition KERNEL_STACK_PAGES :: nat where "KERNEL_STACK_PAGES = 32"
definition APP_LOAD_MIN :: u64 where "APP_LOAD_MIN = 0x200000"

record paging =
  phys_mem :: "u64 \<Rightarrow> u64"
  phys_alloc :: phys_page_allocator
  kernel_pml4_phys :: u64
  cr3 :: u64

definition pml4_index :: "u64 \<Rightarrow> nat" where "pml4_index virt = unat (drop_bit 39 virt AND 0x1FF)"
definition pdpt_index :: "u64 \<Rightarrow> nat" where "pdpt_index virt = unat (drop_bit 30 virt AND 0x1FF)"
definition pd_index :: "u64 \<Rightarrow> nat" where "pd_index virt = unat (drop_bit 21 virt AND 0x1FF)"
definition pt_index :: "u64 \<Rightarrow> nat" where "pt_index virt = unat (drop_bit 12 virt AND 0x1FF)"

text \<open>\<^verbatim>\<open>table.add(index)\<close>, its volatile read and its volatile write.\<close>

definition entry_addr :: "u64 \<Rightarrow> nat \<Rightarrow> u64" where
  "entry_addr table index = table + 8 * of_nat index"

definition write_entry :: "u64 \<Rightarrow> nat \<Rightarrow> u64 \<Rightarrow> 'a paging_scheme \<Rightarrow> 'a paging_scheme" where
  "write_entry table index v s = s\<lparr>phys_mem := (phys_mem s)(entry_addr table index := v)\<rparr>"

definition zero_page :: "u64 \<Rightarrow> (u64 \<Rightarrow> u64) \<Rightarrow> u64 \<Rightarrow> u64" where
  "zero_page page m a = (if align_down_u64 a PAGE_SIZE = page then 0 else m a)"

definition copy_page :: "u64 \<Rightarrow> u64 \<Rightarrow> (u64 \<Rightarrow> u64) \<Rightarrow> u64 \<Rightarrow> u64" where
  "copy_page src dst m a = (if align_down_u64 a PAGE_SIZE = dst then m (src + (a - dst)) else m a)"

definition alloc_zeroed_page :: "'a paging_scheme \<Rightarrow> u64 option \<times> 'a paging_scheme" where
  "alloc_zeroed_page s =
     (case alloc_page (phys_alloc s) of
        (None, a) \<Rightarrow> (None, s\<lparr>phys_alloc := a\<rparr>)
      | (Some page, a) \<Rightarrow> (Some page, s\<lparr>phys_alloc := a, phys_mem := zero_page page (phys_mem s)\<rparr>))"

definition free_phys_page :: "u64 \<Rightarrow> 'a paging_scheme \<Rightarrow> bool \<times> 'a paging_scheme" where
  "free_phys_page page s =
     (case free_page page (phys_alloc s) of (ok, a) \<Rightarrow> (ok, s\<lparr>phys_alloc := a\<rparr>))"

definition page_is_zeroed :: "u64 \<Rightarrow> 'a paging_scheme \<Rightarrow> bool" where
  "page_is_zeroed page s \<longleftrightarrow> list_all (\<lambda>index. phys_mem s (entry_addr page index) = 0) [0..<PAGE_TABLE_ENTRIES]"

definition table_entry_address :: "(u64 \<Rightarrow> u64) \<Rightarrow> u64 \<Rightarrow> nat \<Rightarrow> u64 option" where
  "table_entry_address m table index =
     (let entry = m (entry_addr table index) in
      if entry AND PAGE_PRESENT = 0 \<or> entry AND PAGE_HUGE \<noteq> 0 then None
      else Some (entry AND PAGE_ADDR_MASK))"

definition ensure_next_table :: "u64 \<Rightarrow> nat \<Rightarrow> 'a paging_scheme \<Rightarrow> u64 option \<times> 'a paging_scheme" where
  "ensure_next_table table index s =
     (let entry = phys_mem s (entry_addr table index) in
      if entry AND PAGE_PRESENT \<noteq> 0 then
        if entry AND PAGE_HUGE \<noteq> 0 then (None, s) else (Some (entry AND PAGE_ADDR_MASK), s)
      else
        case alloc_zeroed_page s of
          (None, s) \<Rightarrow> (None, s)
        | (Some nxt, s) \<Rightarrow>
            (Some nxt, write_entry table index ((nxt AND PAGE_ADDR_MASK) OR PAGE_PRESENT OR PAGE_WRITABLE) s))"

definition map_page :: "u64 \<Rightarrow> u64 \<Rightarrow> u64 \<Rightarrow> u64 \<Rightarrow> 'a paging_scheme \<Rightarrow> bool \<times> 'a paging_scheme" where
  "map_page pml4_phys virt phys flags s =
     (if pml4_phys = 0 \<or> virt AND (PAGE_SIZE - 1) \<noteq> 0 \<or> phys AND (PAGE_SIZE - 1) \<noteq> 0 then (False, s)
      else
        case ensure_next_table pml4_phys (pml4_index virt) s of
          (None, s) \<Rightarrow> (False, s)
        | (Some pdpt_phys, s) \<Rightarrow>
        case ensure_next_table pdpt_phys (pdpt_index virt) s of
          (None, s) \<Rightarrow> (False, s)
        | (Some pd_phys, s) \<Rightarrow>
        case ensure_next_table pd_phys (pd_index virt) s of
          (None, s) \<Rightarrow> (False, s)
        | (Some pt_phys, s) \<Rightarrow>
            if phys_mem s (entry_addr pt_phys (pt_index virt)) AND PAGE_PRESENT \<noteq> 0 then (False, s)
            else (True, write_entry pt_phys (pt_index virt) ((phys AND PAGE_ADDR_MASK) OR flags) s))"

definition unmap_page :: "u64 \<Rightarrow> u64 \<Rightarrow> 'a paging_scheme \<Rightarrow> u64 option \<times> 'a paging_scheme" where
  "unmap_page pml4_phys virt s =
     (if pml4_phys = 0 \<or> virt AND (PAGE_SIZE - 1) \<noteq> 0 then (None, s)
      else
        case table_entry_address (phys_mem s) pml4_phys (pml4_index virt) of
          None \<Rightarrow> (None, s)
        | Some pdpt_phys \<Rightarrow>
        case table_entry_address (phys_mem s) pdpt_phys (pdpt_index virt) of
          None \<Rightarrow> (None, s)
        | Some pd_phys \<Rightarrow>
        case table_entry_address (phys_mem s) pd_phys (pd_index virt) of
          None \<Rightarrow> (None, s)
        | Some pt_phys \<Rightarrow>
            let entry = phys_mem s (entry_addr pt_phys (pt_index virt)) in
            if entry AND PAGE_PRESENT = 0 then (None, s)
            else (Some (entry AND PAGE_ADDR_MASK), write_entry pt_phys (pt_index virt) 0 s))"

fun unmap_loop :: "u64 \<Rightarrow> u64 \<Rightarrow> nat list \<Rightarrow> nat \<Rightarrow> 'a paging_scheme \<Rightarrow> nat \<times> 'a paging_scheme" where
  "unmap_loop pml4_phys base [] reclaimed s = (reclaimed, s)"
| "unmap_loop pml4_phys base (index # is) reclaimed s =
     (case unmap_page pml4_phys (base + of_nat index * PAGE_SIZE) s of
        (None, s) \<Rightarrow> unmap_loop pml4_phys base is reclaimed s
      | (Some phys, s) \<Rightarrow>
          if phys \<noteq> 0 then
            case free_page phys (phys_alloc s) of
              (ok, a) \<Rightarrow> unmap_loop pml4_phys base is (if ok then reclaimed + 1 else reclaimed) (s\<lparr>phys_alloc := a\<rparr>)
          else unmap_loop pml4_phys base is reclaimed s)"

definition unmap_user_pages :: "u64 \<Rightarrow> u64 \<Rightarrow> nat \<Rightarrow> 'a paging_scheme \<Rightarrow> nat \<times> 'a paging_scheme" where
  "unmap_user_pages pml4_phys base page_count s = unmap_loop pml4_phys base [0..<page_count] 0 s"

fun map_user_loop :: "u64 \<Rightarrow> u64 \<Rightarrow> nat list \<Rightarrow> 'a paging_scheme \<Rightarrow> bool \<times> 'a paging_scheme" where
  "map_user_loop pml4_phys base [] s = (True, s)"
| "map_user_loop pml4_phys base (index # is) s =
     (case alloc_zeroed_page s of
        (None, s) \<Rightarrow> (False, snd (unmap_user_pages pml4_phys base index s))
      | (Some phys, s) \<Rightarrow>
          case map_page pml4_phys (base + of_nat index * PAGE_SIZE) phys (PAGE_PRESENT OR PAGE_WRITABLE) s of
            (True, s) \<Rightarrow> map_user_loop pml4_phys base is s
          | (False, s) \<Rightarrow>
              (False, snd (unmap_user_pages pml4_phys base index
                 (s\<lparr>phys_alloc := snd (free_page phys (phys_alloc s))\<rparr>))))"

definition map_user_pages :: "u64 \<Rightarrow> u64 \<Rightarrow> nat \<Rightarrow> 'a paging_scheme \<Rightarrow> bool \<times> 'a paging_scheme" where
  "map_user_pages pml4_phys base page_count s = map_user_loop pml4_phys base [0..<page_count] s"

definition page_mapped :: "u64 \<Rightarrow> u64 \<Rightarrow> 'a paging_scheme \<Rightarrow> bool" where
  "page_mapped pml4_phys virt s =
     (if pml4_phys = 0 \<or> virt AND (PAGE_SIZE - 1) \<noteq> 0 then False
      else
        case table_entry_address (phys_mem s) pml4_phys (pml4_index virt) of
          None \<Rightarrow> False
        | Some pdpt_phys \<Rightarrow>
        case table_entry_address (phys_mem s) pdpt_phys (pdpt_index virt) of
          None \<Rightarrow> False
        | Some pd_phys \<Rightarrow>
        case table_entry_address (phys_mem s) pd_phys (pd_index virt) of
          None \<Rightarrow> False
        | Some pt_phys \<Rightarrow> table_entry_address (phys_mem s) pt_phys (pt_index virt) \<noteq> None)"

fun map_image_loop :: "u64 \<Rightarrow> u64 \<Rightarrow> nat list \<Rightarrow> 'a paging_scheme \<Rightarrow> bool \<times> 'a paging_scheme" where
  "map_image_loop pml4_phys base [] s = (True, s)"
| "map_image_loop pml4_phys base (index # is) s =
     (let virt = base + of_nat index * PAGE_SIZE in
      if page_mapped pml4_phys virt s then map_image_loop pml4_phys base is s
      else
        case alloc_zeroed_page s of
          (None, s) \<Rightarrow> (False, s)
        | (Some phys, s) \<Rightarrow>
            case map_page pml4_phys virt phys (PAGE_PRESENT OR PAGE_WRITABLE) s of
              (True, s) \<Rightarrow> map_image_loop pml4_phys base is s
            | (False, s) \<Rightarrow> (False, snd (free_phys_page phys s)))"

definition map_image_pages :: "u64 \<Rightarrow> u64 \<Rightarrow> nat \<Rightarrow> 'a paging_scheme \<Rightarrow> bool \<times> 'a paging_scheme" where
  "map_image_pages pml4_phys base page_count s = map_image_loop pml4_phys base [0..<page_count] s"

text \<open>
  A table is cloned into a zeroed page: \<^verbatim>\<open>alloc_zeroed_page\<close> and
  \<^verbatim>\<open>copy_nonoverlapping\<close> of its 512 entries.  The kernel's own PML4 is cloned from the active
  one on first use.
\<close>

definition clone_table :: "u64 \<Rightarrow> 'a paging_scheme \<Rightarrow> u64 option \<times> 'a paging_scheme" where
  "clone_table src s =
     (case alloc_zeroed_page s of
        (None, s) \<Rightarrow> (None, s)
      | (Some dst, s) \<Rightarrow> (Some dst, s\<lparr>phys_mem := copy_page src dst (phys_mem s)\<rparr>))"

definition clone_active_pml4 :: "'a paging_scheme \<Rightarrow> u64 option \<times> 'a paging_scheme" where
  "clone_active_pml4 s = (let old_pml4 = cr3 s AND 0x000FFFFFFFFFF000 in clone_table old_pml4 s)"

definition ensure_kernel_pml4 :: "'a paging_scheme \<Rightarrow> u64 option \<times> 'a paging_scheme" where
  "ensure_kernel_pml4 s =
     (if kernel_pml4_phys s \<noteq> 0 then (Some (kernel_pml4_phys s), s)
      else
        case clone_active_pml4 s of
          (None, s) \<Rightarrow> (None, s)
        | (Some new_pml4, s) \<Rightarrow> (Some new_pml4, s\<lparr>kernel_pml4_phys := new_pml4, cr3 := new_pml4\<rparr>))"

section \<open>Words of pages\<close>

lemmas paging_consts = PAGE_PRESENT_def PAGE_WRITABLE_def PAGE_HUGE_def PAGE_ADDR_MASK_def PAGE_TABLE_ENTRIES_def

lemma align_down_nat: "unat (align_down_u64 a PAGE_SIZE) = 4096 * (unat a div 4096)"
proof -
  have m: "PAGE_SIZE - 1 = mask 12" by (simp add: PAGE_SIZE_def mask_eq_exp_minus_1)
  have "align_down_u64 a PAGE_SIZE = push_bit 12 (drop_bit 12 a)"
    unfolding align_down_u64_def m by (rule bit_word_eqI) (auto simp: bit_simps)
  then have "unat (align_down_u64 a PAGE_SIZE) = take_bit 64 (push_bit 12 (drop_bit 12 (unat a)))"
    using unat_bound [of a] by (simp add: unsigned_push_bit_eq unsigned_drop_bit_eq take_bit_nat_eq_self)
  also have "\<dots> = push_bit 12 (drop_bit 12 (unat a))"
    using unat_bound [of a] by (simp add: push_bit_eq_mult drop_bit_eq_div take_bit_nat_eq_self_iff)
  finally show ?thesis by (simp add: push_bit_eq_mult drop_bit_eq_div)
qed

lemma unat_entry_addr:
  assumes "page_aligned t" "i < 512"
  shows "unat (entry_addr t i) = unat t + 8 * i"
proof -
  obtain k where k: "unat t = 4096 * k" using assms(1) by (auto simp: page_aligned_dvd dvd_def)
  with unat_bound [of t] have "unat t + 4096 \<le> 2 ^ 64" by simp
  moreover have e: "unat (8 * of_nat i :: u64) = 8 * i"
    using assms(2) by (simp add: unat_word_ariths unat_of_nat)
  ultimately show ?thesis unfolding entry_addr_def
    using assms(2) unat_add_no_wrap [of t "8 * of_nat i"] by simp
qed

lemma entry_addr_page:
  assumes "page_aligned t" "i < 512"
  shows "align_down_u64 (entry_addr t i) PAGE_SIZE = t"
proof -
  obtain k where "unat t = 4096 * k" using assms(1) by (auto simp: page_aligned_dvd dvd_def)
  then have "unat (align_down_u64 (entry_addr t i) PAGE_SIZE) = unat t"
    using assms(2) by (simp add: align_down_nat unat_entry_addr [OF assms])
  then show ?thesis by (simp add: word_unat_eq_iff)
qed

lemma entry_addr_inj:
  assumes "page_aligned t" "page_aligned u" "i < 512" "j < 512"
  shows "entry_addr t i = entry_addr u j \<longleftrightarrow> t = u \<and> i = j"
proof
  assume e: "entry_addr t i = entry_addr u j"
  then have "t = u" using entry_addr_page assms by metis
  moreover have "unat t + 8 * i = unat u + 8 * j" using e assms by (metis unat_entry_addr)
  ultimately show "t = u \<and> i = j" by simp
qed simp

lemma mask_aligned: "page_aligned (e AND PAGE_ADDR_MASK)"
  unfolding page_aligned_def PAGE_SIZE_def PAGE_ADDR_MASK_def by (simp add: and.assoc)

section \<open>Paths of table indices\<close>

definition idx :: "nat list \<Rightarrow> bool" where "idx p \<longleftrightarrow> list_all (\<lambda>i. i < 512) p"

lemma idx_simps [simp]: "idx []" "idx (i # p) \<longleftrightarrow> i < 512 \<and> idx p" "idx (p @ q) \<longleftrightarrow> idx p \<and> idx q"
  by (simp_all add: idx_def)

fun walk :: "(u64 \<Rightarrow> u64) \<Rightarrow> u64 \<Rightarrow> nat list \<Rightarrow> u64 option" where
  "walk m t [] = Some t"
| "walk m t (i # is) = (case table_entry_address m t i of None \<Rightarrow> None | Some u \<Rightarrow> walk m u is)"

lemma walk_snoc: "walk m t (p @ [i]) = (case walk m t p of None \<Rightarrow> None | Some u \<Rightarrow> table_entry_address m u i)"
  by (induction m t p rule: walk.induct) (auto split: option.splits)

lemma walk_aligned: "page_aligned t \<Longrightarrow> walk m t p = Some u \<Longrightarrow> page_aligned u"
  by (induction m t p rule: walk.induct)
    (auto simp: table_entry_address_def Let_def mask_aligned split: option.splits if_splits)

text \<open>The raw entry at the end of a non-empty path.\<close>

definition ent :: "(u64 \<Rightarrow> u64) \<Rightarrow> u64 \<Rightarrow> nat list \<Rightarrow> nat \<Rightarrow> u64 option" where
  "ent m root p i = map_option (\<lambda>u. m (entry_addr u i)) (walk m root p)"

text \<open>The page tables under a root form a tree, clear of the pages the allocator can hand out.\<close>

definition tree_ok :: "(u64 \<Rightarrow> u64) \<Rightarrow> u64 \<Rightarrow> u64 set \<Rightarrow> bool" where
  "tree_ok m root A \<longleftrightarrow> page_aligned root \<and>
     (\<forall>p q t. length p \<le> 3 \<longrightarrow> length q \<le> 3 \<longrightarrow> idx p \<longrightarrow> idx q \<longrightarrow>
        walk m root p = Some t \<longrightarrow> walk m root q = Some t \<longrightarrow> p = q) \<and>
     (\<forall>p t. length p \<le> 3 \<longrightarrow> idx p \<longrightarrow> walk m root p = Some t \<longrightarrow> t \<notin> A) \<and>
     (\<forall>t \<in> A. page_aligned t \<and> t AND PAGE_ADDR_MASK = t)"

lemma tree_okD:
  assumes "tree_ok m root A"
  shows "page_aligned root"
    "\<And>p q t. length p \<le> 3 \<Longrightarrow> length q \<le> 3 \<Longrightarrow> idx p \<Longrightarrow> idx q \<Longrightarrow>
        walk m root p = Some t \<Longrightarrow> walk m root q = Some t \<Longrightarrow> p = q"
    "\<And>p t. length p \<le> 3 \<Longrightarrow> idx p \<Longrightarrow> walk m root p = Some t \<Longrightarrow> t \<notin> A"
    "\<And>t. t \<in> A \<Longrightarrow> page_aligned t" "\<And>t. t \<in> A \<Longrightarrow> t AND PAGE_ADDR_MASK = t"
  using assms by (auto simp: tree_ok_def)

lemma walk_eqI:
  assumes "\<And>q' j. prefix (q' @ [j]) q \<Longrightarrow> walk m root q' \<noteq> None \<Longrightarrow>
      table_entry_address m' (the (walk m root q')) j = table_entry_address m (the (walk m root q')) j"
  shows "walk m' root q = walk m root q"
  using assms
proof (induction q rule: rev_induct)
  case (snoc j q)
  have "walk m' root q = walk m root q"
    by (rule snoc.IH) (use snoc.prems in \<open>auto intro: prefix_prefix\<close>)
  moreover have "table_entry_address m' (the (walk m root q)) j = table_entry_address m (the (walk m root q)) j"
    if "walk m root q \<noteq> None" by (rule snoc.prems) (use that in auto)
  ultimately show ?case by (auto simp: walk_snoc split: option.splits)
qed simp

text \<open>Writing one entry leaves alone every path that does not go through it.\<close>

lemma write_frame:
  assumes tr: "tree_ok m root A" and w: "walk m root p = Some t" "length p \<le> 3" "idx p" "i < 512"
    and q: "length q \<le> 3" "idx q" "\<not> prefix (p @ [i]) q"
  shows "walk (m(entry_addr t i := v)) root q = walk m root q"
proof (rule walk_eqI)
  fix q' j
  assume pre: "prefix (q' @ [j]) q" and "walk m root q' \<noteq> None"
  then obtain u where u: "walk m root q' = Some u" by auto
  have q': "length q' \<le> 3" "idx q'" "j < 512" using pre q by (auto simp: prefix_def)
  have "entry_addr t i \<noteq> entry_addr u j"
  proof
    assume "entry_addr t i = entry_addr u j"
    then have "t = u" "i = j"
      using entry_addr_inj walk_aligned [OF tree_okD(1) [OF tr]] w u q' by metis+
    with tree_okD(2) [OF tr w(2) q'(1) w(3) q'(2)] w(1) u have "p = q'" by simp
    with pre q(3) \<open>i = j\<close> show False by simp
  qed
  with u show "table_entry_address (m(entry_addr t i := v)) (the (walk m root q')) j =
      table_entry_address m (the (walk m root q')) j"
    by (simp add: table_entry_address_def)
qed

lemma ent_write_frame:
  assumes tr: "tree_ok m root A" and w: "walk m root p = Some t" "length p \<le> 3" "idx p" "i < 512"
    and q: "length q \<le> 3" "idx q" "j < 512" "\<not> prefix (p @ [i]) (q @ [j])"
  shows "ent (m(entry_addr t i := v)) root q j = ent m root q j"
proof -
  have nq: "\<not> prefix (p @ [i]) q" using q(4) by (auto intro: prefix_prefix)
  show ?thesis
  proof (cases "walk m root q")
    case None
    with write_frame [OF tr w q(1,2) nq] show ?thesis by (simp add: ent_def)
  next
    case (Some u)
    have "entry_addr t i \<noteq> entry_addr u j"
    proof
      assume "entry_addr t i = entry_addr u j"
      then have "t = u" "i = j"
        using entry_addr_inj walk_aligned [OF tree_okD(1) [OF tr]] w Some q by metis+
      with tree_okD(2) [OF tr w(2) q(1) w(3) q(2)] w(1) Some have "p = q" by simp
      with q(4) \<open>i = j\<close> show False by simp
    qed
    with Some write_frame [OF tr w q(1,2) nq] show ?thesis by (simp add: ent_def)
  qed
qed

text \<open>Clearing a page the allocator hands out leaves every path alone.\<close>

lemma zero_frame:
  assumes tr: "tree_ok m root A" and n: "n \<in> A" and q: "length q \<le> 3" "idx q"
  shows "walk (zero_page n m) root q = walk m root q"
    "j < 512 \<Longrightarrow> ent (zero_page n m) root q j = ent m root q j"
proof -
  have z: "zero_page n m (entry_addr u j) = m (entry_addr u j)"
    if "walk m root q' = Some u" "length q' \<le> 3" "idx q'" "j < 512" for q' u j
  proof -
    have "page_aligned u" using walk_aligned [OF tree_okD(1) [OF tr] that(1)] .
    with tree_okD(3) [OF tr that(2,3,1)] n entry_addr_page [of u j] that(4) show ?thesis
      by (auto simp: zero_page_def)
  qed
  show w: "walk (zero_page n m) root q = walk m root q"
  proof (rule walk_eqI)
    fix q' j
    assume "prefix (q' @ [j]) q" "walk m root q' \<noteq> None"
    with q z [of q' _ j] show "table_entry_address (zero_page n m) (the (walk m root q')) j =
        table_entry_address m (the (walk m root q')) j"
      by (auto simp: table_entry_address_def prefix_def)
  qed
  show "ent (zero_page n m) root q j = ent m root q j" if "j < 512"
    using z [OF _ q that] by (cases "walk m root q") (simp_all add: ent_def w)
qed

section \<open>Translation\<close>

definition vpath :: "u64 \<Rightarrow> nat list" where
  "vpath virt = [pml4_index virt, pdpt_index virt, pd_index virt]"

definition translate :: "(u64 \<Rightarrow> u64) \<Rightarrow> u64 \<Rightarrow> u64 \<Rightarrow> u64 option" where
  "translate m root virt =
     (case ent m root (vpath virt) (pt_index virt) of
        None \<Rightarrow> None
      | Some e \<Rightarrow> if e AND PAGE_PRESENT = 0 then None else Some (e AND PAGE_ADDR_MASK))"

definition tables :: "(u64 \<Rightarrow> u64) \<Rightarrow> u64 \<Rightarrow> u64 set" where
  "tables m root = {t. \<exists>p. length p \<le> 3 \<and> idx p \<and> walk m root p = Some t}"

abbreviation avail :: "'a paging_scheme \<Rightarrow> u64 set" where
  "avail s \<equiv> avail_pages (phys_alloc s)"

definition paging_ok :: "u64 \<Rightarrow> 'a paging_scheme \<Rightarrow> bool" where
  "paging_ok root s \<longleftrightarrow> allocator_wf (phys_alloc s) \<and> tree_ok (phys_mem s) root (avail s)"

text \<open>
  What every step of a mapping may do besides its own edit: turn available pages into tables of
  the root.  Pages that were neither available nor tables keep their contents.
\<close>

definition tables_grown :: "u64 \<Rightarrow> 'a paging_scheme \<Rightarrow> 'a paging_scheme \<Rightarrow> bool" where
  "tables_grown root s s' \<longleftrightarrow>
     paging_ok root s' \<and> avail s' \<subseteq> avail s \<and>
     (\<forall>p t. length p \<le> 3 \<longrightarrow> idx p \<longrightarrow> walk (phys_mem s) root p = Some t \<longrightarrow> walk (phys_mem s') root p = Some t) \<and>
     tables (phys_mem s') root \<subseteq> tables (phys_mem s) root \<union> (avail s - avail s') \<and>
     (\<forall>a. align_down_u64 a PAGE_SIZE \<notin> avail s \<union> tables (phys_mem s) root \<longrightarrow> phys_mem s' a = phys_mem s a) \<and>
     kernel_pml4_phys s' = kernel_pml4_phys s \<and> cr3 s' = cr3 s \<and> paging.more s' = paging.more s"

lemma tables_grownD:
  assumes "tables_grown root s s'"
  shows "paging_ok root s'" "avail s' \<subseteq> avail s"
    "\<And>p t. length p \<le> 3 \<Longrightarrow> idx p \<Longrightarrow> walk (phys_mem s) root p = Some t \<Longrightarrow> walk (phys_mem s') root p = Some t"
    "tables (phys_mem s') root \<subseteq> tables (phys_mem s) root \<union> (avail s - avail s')"
    "\<And>a. align_down_u64 a PAGE_SIZE \<notin> avail s \<Longrightarrow> align_down_u64 a PAGE_SIZE \<notin> tables (phys_mem s) root \<Longrightarrow>
        phys_mem s' a = phys_mem s a"
  using assms by (auto simp: tables_grown_def)

lemma tables_grown_refl: "paging_ok root s \<Longrightarrow> tables_grown root s s"
  by (simp add: tables_grown_def)

lemma tables_grown_trans:
  assumes "tables_grown root s s1" "tables_grown root s1 s2"
  shows "tables_grown root s s2"
proof -
  note g1 = tables_grownD [OF assms(1)] and g2 = tables_grownD [OF assms(2)]
  have "phys_mem s2 a = phys_mem s a"
    if "align_down_u64 a PAGE_SIZE \<notin> avail s \<union> tables (phys_mem s) root" for a
    using that g1(2,4) g1(5) [of a] g2(5) [of a] by auto
  moreover have "tables (phys_mem s2) root \<subseteq> tables (phys_mem s) root \<union> (avail s - avail s2)"
    using g1(2,4) g2(2,4) by blast
  moreover have "\<forall>p t. length p \<le> 3 \<longrightarrow> idx p \<longrightarrow> walk (phys_mem s) root p = Some t \<longrightarrow> walk (phys_mem s2) root p = Some t"
    using g1(3) g2(3) by blast
  moreover have "avail s2 \<subseteq> avail s" using g1(2) g2(2) by blast
  ultimately show ?thesis using g2(1) assms by (simp add: tables_grown_def)
qed

lemma idx_bound: "unat (drop_bit n virt AND 0x1FF :: u64) < 512"
proof -
  have "drop_bit n virt AND 0x1FF \<le> (0x1FF :: u64)" by (rule word_and_le1)
  then show ?thesis by (simp add: word_le_nat_alt)
qed

lemma vpath_idx [simp]: "length (vpath v) = 3" "idx (vpath v)" "pt_index v < 512" "pml4_index v < 512"
    "pdpt_index v < 512" "pd_index v < 512"
  by (simp_all add: vpath_def pml4_index_def pdpt_index_def pd_index_def pt_index_def idx_bound)

lemma walk_append: "walk m t (p @ r) = (case walk m t p of None \<Rightarrow> None | Some u \<Rightarrow> walk m u r)"
  by (induction m t p rule: walk.induct) (auto split: option.splits)

text \<open>A fresh table hung into an absent entry.\<close>

lemma entry_bits:
  assumes "n AND PAGE_ADDR_MASK = n"
  shows "(n AND PAGE_ADDR_MASK OR PAGE_PRESENT OR PAGE_WRITABLE) AND PAGE_PRESENT \<noteq> 0"
    "(n AND PAGE_ADDR_MASK OR PAGE_PRESENT OR PAGE_WRITABLE) AND PAGE_HUGE = 0"
    "(n AND PAGE_ADDR_MASK OR PAGE_PRESENT OR PAGE_WRITABLE) AND PAGE_ADDR_MASK = n"
proof -
  have d: "(x OR y) AND z = (x AND z) OR (y AND z)" for x y z :: u64 by (rule bit.conj_disj_distrib2)
  have a: "n AND x = n AND (PAGE_ADDR_MASK AND x)" for x using assms by (metis and.assoc)
  have c: "n AND PAGE_HUGE = 0" "n AND PAGE_PRESENT = 0"
    using a [of PAGE_HUGE] a [of PAGE_PRESENT] by (simp_all add: paging_consts)
  show "(n AND PAGE_ADDR_MASK OR PAGE_PRESENT OR PAGE_WRITABLE) AND PAGE_PRESENT \<noteq> 0"
    "(n AND PAGE_ADDR_MASK OR PAGE_PRESENT OR PAGE_WRITABLE) AND PAGE_HUGE = 0"
    "(n AND PAGE_ADDR_MASK OR PAGE_PRESENT OR PAGE_WRITABLE) AND PAGE_ADDR_MASK = n"
    unfolding assms d using assms c by (simp_all add: paging_consts)
qed

lemma hang_table:
  assumes tr: "tree_ok m root A" and w: "walk m root p = Some t" "length p \<le> 2" "idx p" "i < 512"
    and absent: "m (entry_addr t i) AND PAGE_PRESENT = 0" and n: "n \<in> A"
    and m': "m' = (zero_page n m)(entry_addr t i := n AND PAGE_ADDR_MASK OR PAGE_PRESENT OR PAGE_WRITABLE)"
  shows "\<And>q. length q \<le> 3 \<Longrightarrow> idx q \<Longrightarrow> walk m' root q = (if q = p @ [i] then Some n else walk m root q)"
    and "tree_ok m' root (A - {n})" "translate m' root = translate m root"
proof -
  let ?z = "zero_page n m"
  have p3: "length p \<le> 3" using w(2) by simp
  have t: "page_aligned t" "t \<notin> A" using walk_aligned [OF tree_okD(1) [OF tr] w(1)] tree_okD(3) [OF tr p3 w(3,1)] by auto
  note na = tree_okD(4,5) [OF tr n]
  have trz: "tree_ok ?z root A" unfolding tree_ok_def
    using tr zero_frame(1) [OF tr n] by (auto simp: tree_ok_def)
  have wz: "walk ?z root p = Some t" using zero_frame(1) [OF tr n p3 w(3)] w(1) by simp
  have ent_n: "m' (entry_addr n j) = 0" if "j < 512" for j
    using that na t n entry_addr_inj [OF na(1) t(1) that w(4)] entry_addr_page [OF na(1) that]
    by (auto simp: m' zero_page_def)
  have at: "table_entry_address m' t i = Some n"
    using entry_bits [OF na(2)] by (simp add: m' table_entry_address_def)
  have old: "table_entry_address m t i = None" using absent by (simp add: table_entry_address_def)
  have off: "walk m' root q = walk m root q" if "length q \<le> 3" "idx q" "\<not> prefix (p @ [i]) q" for q
    unfolding m' using write_frame [OF trz wz p3 w(3,4) that] zero_frame(1) [OF tr n that(1,2)] by simp
  have pi: "walk m' root p = Some t" using off [OF p3 w(3)] w(1) by (simp add: prefix_def)
  show W: "walk m' root q = (if q = p @ [i] then Some n else walk m root q)"
    if q: "length q \<le> 3" "idx q" for q
  proof (cases "prefix (p @ [i]) q")
    case False
    then show ?thesis using off [OF q] by auto
  next
    case True
    then obtain r where r: "q = (p @ [i]) @ r" by (auto simp: prefix_def)
    have "walk m root (p @ [i]) = None" by (simp add: walk_snoc w(1) old)
    then have "walk m root q = None" by (simp add: r walk_append del: append_assoc)
    moreover have "walk m' root (p @ [i]) = Some n" by (simp add: walk_snoc pi at)
    moreover have "walk m' n r = None" if "r \<noteq> []"
      using that q(2) ent_n r by (cases r) (auto simp: table_entry_address_def)
    ultimately show ?thesis using r by (cases "r = []") (simp_all add: walk_append del: append_assoc)
  qed
  show "tree_ok m' root (A - {n})" unfolding tree_ok_def
  proof (intro conjI allI impI ballI)
    show "page_aligned root" by (rule tree_okD(1) [OF tr])
    fix q1 q2 u
    assume q: "length q1 \<le> 3" "idx q1" "walk m' root q1 = Some u"
    then have u: "if q1 = p @ [i] then u = n else walk m root q1 = Some u" using W [of q1] by (auto split: if_splits)
    with tree_okD(3) [OF tr q(1,2)] show "u \<notin> A - {n}" by (auto split: if_splits)
    assume q': "length q2 \<le> 3" "idx q2" "walk m' root q2 = Some u"
    then have u': "if q2 = p @ [i] then u = n else walk m root q2 = Some u" using W [of q2] by (auto split: if_splits)
    show "q1 = q2"
    proof (cases "q1 = p @ [i] \<or> q2 = p @ [i]")
      case True
      with u u' tree_okD(3) [OF tr q(1,2)] tree_okD(3) [OF tr q'(1,2)] n show ?thesis by (metis (full_types))
    next
      case False
      with u u' tree_okD(2) [OF tr q(1) q'(1) q(2) q'(2)] show ?thesis by simp
    qed
  next
    fix u
    assume "u \<in> A - {n}"
    then show "page_aligned u" "u AND PAGE_ADDR_MASK = u" using tree_okD(4,5) [OF tr] by auto
  qed
  show "translate m' root = translate m root"
  proof
    fix v
    have e: "ent m' root (vpath v) (pt_index v) = ent m root (vpath v) (pt_index v)"
      if "\<not> prefix (p @ [i]) (vpath v @ [pt_index v])"
      unfolding m' using ent_write_frame [OF trz wz p3 w(3,4) _ _ _ that]
        zero_frame(2) [OF tr n] by simp
    have f: "translate m' root v = None \<and> translate m root v = None"
      if "prefix (p @ [i]) (vpath v @ [pt_index v])"
    proof -
      have pr: "prefix (p @ [i]) (vpath v)" by (rule prefix_length_prefix [OF that]) (use w(2) in simp_all)
      then obtain r where r: "vpath v = (p @ [i]) @ r" by (auto simp: prefix_def)
      have "walk m root (vpath v) = None"
        unfolding r by (simp add: walk_append w(1) old)
      then show ?thesis using W [of "vpath v"] ent_n
        by (simp add: translate_def ent_def split: if_splits)
    qed
    show "translate m' root v = translate m root v"
    proof (cases "prefix (p @ [i]) (vpath v @ [pt_index v])")
      case True
      from f [OF this] show ?thesis by simp
    next
      case False
      from e [OF this] show ?thesis by (simp only: translate_def)
    qed
  qed
qed

section \<open>Growing the tree\<close>

lemma alloc_zeroed_page_cases [consumes 2, case_names none some]:
  assumes "alloc_zeroed_page s = (r, s')" "allocator_wf (phys_alloc s)"
  obtains "r = None" "s' = s" "avail s = {}"
  | n a where "r = Some n" "n \<in> avail s" "avail_pages a = avail s - {n}" "allocator_wf a"
      "s' = s\<lparr>phys_alloc := a, phys_mem := zero_page n (phys_mem s)\<rparr>"
proof -
  obtain r0 a where a: "alloc_page (phys_alloc s) = (r0, a)" by force
  show ?thesis
  proof (cases r0)
    case None
    with assms(1) a phys.alloc_none [OF assms(2), of a] show ?thesis
      by (intro that(1)) (simp_all add: alloc_zeroed_page_def)
  next
    case (Some n)
    with assms(1) a phys.alloc_some [OF assms(2), of n a] show ?thesis
      by (intro that(2) [of n a]) (simp_all add: alloc_zeroed_page_def)
  qed
qed

lemma ensure_next_table_spec:
  assumes ok: "paging_ok root s" and w: "walk (phys_mem s) root p = Some t" "length p \<le> 2" "idx p" "i < 512"
    and e: "ensure_next_table t i s = (r, s')"
  shows "tables_grown root s s'" "translate (phys_mem s') root = translate (phys_mem s) root"
    "\<And>u. r = Some u \<Longrightarrow> walk (phys_mem s') root (p @ [i]) = Some u"
proof -
  let ?m = "phys_mem s" and ?A = "avail s"
  have al: "allocator_wf (phys_alloc s)" and tr: "tree_ok ?m root ?A" using ok by (simp_all add: paging_ok_def)
  have "tables_grown root s s' \<and> translate (phys_mem s') root = translate ?m root \<and>
      (\<forall>u. r = Some u \<longrightarrow> walk (phys_mem s') root (p @ [i]) = Some u)"
  proof (cases "?m (entry_addr t i) AND PAGE_PRESENT = 0")
    case False
    with e have "s' = s" "\<forall>u. r = Some u \<longrightarrow> table_entry_address ?m t i = Some u"
      by (auto simp: ensure_next_table_def table_entry_address_def Let_def split: if_splits)
    with w(1) tables_grown_refl [OF ok] show ?thesis by (simp add: walk_snoc)
  next
    case True
    obtain r0 s0 where a: "alloc_zeroed_page s = (r0, s0)" by force
    from a al show ?thesis
    proof (cases rule: alloc_zeroed_page_cases)
      case none
      with a True e tables_grown_refl [OF ok] show ?thesis by (auto simp: ensure_next_table_def)
    next
      case (some n b)
      from True e a some have r: "r = Some n"
        and s': "s' = write_entry t i (n AND PAGE_ADDR_MASK OR PAGE_PRESENT OR PAGE_WRITABLE) s0"
        by (auto simp: ensure_next_table_def)
      have m': "phys_mem s' = (zero_page n ?m)(entry_addr t i := n AND PAGE_ADDR_MASK OR PAGE_PRESENT OR PAGE_WRITABLE)"
        and A': "avail s' = ?A - {n}" and al': "allocator_wf (phys_alloc s')"
        and rest: "kernel_pml4_phys s' = kernel_pml4_phys s" "cr3 s' = cr3 s" "paging.more s' = paging.more s"
        using some(3-5) by (simp_all add: s' write_entry_def)
      note h = hang_table [OF tr w True _ m']
      have nA: "n \<in> ?A" by (rule some(2))
      have W: "walk (phys_mem s') root q = (if q = p @ [i] then Some n else walk ?m root q)"
        if "length q \<le> 3" "idx q" for q using h(1) [OF nA that] .
      have none: "walk ?m root (p @ [i]) = None" using True w(1) by (simp add: walk_snoc table_entry_address_def)
      have keep: "phys_mem s' a = ?m a" if "align_down_u64 a PAGE_SIZE \<notin> ?A \<union> tables ?m root" for a
      proof -
        have "t \<in> tables ?m root" using w by (auto simp: tables_def intro!: exI [of _ p])
        moreover have "align_down_u64 (entry_addr t i) PAGE_SIZE = t"
          using entry_addr_page walk_aligned [OF tree_okD(1) [OF tr] w(1)] w(4) by blast
        ultimately show ?thesis using that nA by (auto simp: m' zero_page_def)
      qed
      have "tables_grown root s s'" unfolding tables_grown_def
      proof (intro conjI)
        show "paging_ok root s'" using h(2) [OF nA] al' A' by (simp add: paging_ok_def)
        show "\<forall>q u. length q \<le> 3 \<longrightarrow> idx q \<longrightarrow> walk ?m root q = Some u \<longrightarrow> walk (phys_mem s') root q = Some u"
          using W none by auto
        show "tables (phys_mem s') root \<subseteq> tables ?m root \<union> (?A - avail s')"
          using W nA A' by (auto simp: tables_def split: if_splits)
      qed (use A' keep rest in auto)
      moreover have "walk (phys_mem s') root (p @ [i]) = Some n" using W [of "p @ [i]"] w by simp
      ultimately show ?thesis using h(3) [OF nA] r by simp
    qed
  qed
  then show "tables_grown root s s'" "translate (phys_mem s') root = translate ?m root"
    "\<And>u. r = Some u \<Longrightarrow> walk (phys_mem s') root (p @ [i]) = Some u" by blast+
qed

section \<open>Mapping and unmapping one page\<close>

definition same_page :: "u64 \<Rightarrow> u64 \<Rightarrow> bool" where
  "same_page v w \<longleftrightarrow> vpath v = vpath w \<and> pt_index v = pt_index w"

text \<open>The page an entry of the last level maps.\<close>

definition leaf :: "u64 \<Rightarrow> u64 option" where
  "leaf e = (if e AND PAGE_PRESENT = 0 then None else Some (e AND PAGE_ADDR_MASK))"

lemma leaf_0 [simp]: "leaf 0 = None"
  by (simp add: leaf_def)

lemma translate_leaf:
  "walk m root (vpath v) = Some pt \<Longrightarrow> translate m root v = leaf (m (entry_addr pt (pt_index v)))"
  by (simp add: translate_def ent_def leaf_def)

lemma translate_walk: "translate m root v = Some x \<Longrightarrow> \<exists>pt. walk m root (vpath v) = Some pt"
  by (cases "walk m root (vpath v)") (simp_all add: translate_def ent_def)

lemma write_leaf:
  assumes ok: "paging_ok root s" and w: "walk (phys_mem s) root (vpath virt) = Some pt"
    and s': "s' = write_entry pt (pt_index virt) e s"
  shows "tables_grown root s s'" "avail s' = avail s"
    "translate (phys_mem s') root = (\<lambda>v. if same_page v virt then leaf e else translate (phys_mem s) root v)"
proof -
  let ?m = "phys_mem s" and ?i = "pt_index virt"
  have tr: "tree_ok ?m root (avail s)" using ok by (simp add: paging_ok_def)
  have m': "phys_mem s' = ?m(entry_addr pt ?i := e)" and A: "phys_alloc s' = phys_alloc s"
    by (simp_all add: s' write_entry_def)
  have W: "walk (phys_mem s') root q = walk ?m root q" if "length q \<le> 3" "idx q" for q
    unfolding m' by (rule write_frame [OF tr w _ _ _ that]) (use that in \<open>auto dest: prefix_length_le\<close>)
  have T: "tables (phys_mem s') root = tables ?m root" using W by (auto simp: tables_def)
  have tr': "tree_ok (phys_mem s') root (avail s')" unfolding tree_ok_def A
    using tr W by (auto simp: tree_ok_def)
  have keep: "phys_mem s' a = ?m a" if "align_down_u64 a PAGE_SIZE \<notin> avail s \<union> tables ?m root" for a
  proof -
    have "pt \<in> tables ?m root" using w by (auto simp: tables_def intro!: exI [of _ "vpath virt"])
    moreover have "align_down_u64 (entry_addr pt ?i) PAGE_SIZE = pt"
      using entry_addr_page walk_aligned [OF tree_okD(1) [OF tr] w] by simp
    ultimately show ?thesis using that by (auto simp: m')
  qed
  show "avail s' = avail s" using A by simp
  show "tables_grown root s s'" unfolding tables_grown_def
    using tr' W T keep A ok by (auto simp: paging_ok_def s' write_entry_def)
  show "translate (phys_mem s') root = (\<lambda>v. if same_page v virt then leaf e else translate ?m root v)"
  proof
    fix v
    show "translate (phys_mem s') root v = (if same_page v virt then leaf e else translate ?m root v)"
    proof (cases "same_page v virt")
      case True
      then have "walk (phys_mem s') root (vpath v) = Some pt" using W [of "vpath v"] w by (simp add: same_page_def)
      with True translate_leaf show ?thesis by (simp add: same_page_def m')
    next
      case False
      have "ent (phys_mem s') root (vpath v) (pt_index v) = ent ?m root (vpath v) (pt_index v)"
        unfolding m'
      proof (rule ent_write_frame [OF tr w])
        show "\<not> prefix (vpath virt @ [?i]) (vpath v @ [pt_index v])"
          using False by (auto simp: same_page_def prefix_def)
      qed simp_all
      with False show ?thesis by (simp add: translate_def)
    qed
  qed
qed

lemma map_page_spec:
  assumes ok: "paging_ok root s" and e: "map_page root virt phys flags s = (done, s')"
    and fl: "flags AND PAGE_PRESENT \<noteq> 0" "flags AND PAGE_ADDR_MASK = 0" and ph: "phys AND PAGE_ADDR_MASK = phys"
  shows "tables_grown root s s'"
    "done \<Longrightarrow> translate (phys_mem s) root virt = None \<and>
      translate (phys_mem s') root = (\<lambda>v. if same_page v virt then Some phys else translate (phys_mem s) root v)"
    "\<not> done \<Longrightarrow> translate (phys_mem s') root = translate (phys_mem s) root"
  supply walk.simps [simp del]
proof -
  let ?g = "\<lambda>s'. tables_grown root s s' \<and> translate (phys_mem s') root = translate (phys_mem s) root"
  let ?goal = "tables_grown root s s' \<and>
     (if done then translate (phys_mem s) root virt = None \<and>
        translate (phys_mem s') root = (\<lambda>v. if same_page v virt then Some phys else translate (phys_mem s) root v)
      else translate (phys_mem s') root = translate (phys_mem s) root)"
  have fin: ?goal if "\<not> done" "?g s'" using that by simp
  have ?goal
  proof (cases "root = 0 \<or> virt AND (PAGE_SIZE - 1) \<noteq> 0 \<or> phys AND (PAGE_SIZE - 1) \<noteq> 0")
    case True
    with e tables_grown_refl [OF ok] show ?thesis by (auto simp: map_page_def)
  next
    case False
    obtain r1 s1 where e1: "ensure_next_table root (pml4_index virt) s = (r1, s1)" by force
    note p1 = ensure_next_table_spec [OF ok walk.simps(1) _ _ _ e1, simplified]
    show ?thesis
    proof (cases r1)
      case None
      with e e1 False p1 show ?thesis by (auto simp: map_page_def)
    next
      case r1: (Some pdpt)
      note ok1 = tables_grownD(1) [OF p1(1)]
      obtain r2 s2 where e2: "ensure_next_table pdpt (pdpt_index virt) s1 = (r2, s2)" by force
      note p2 = ensure_next_table_spec [OF ok1 p1(3) [OF r1] _ _ _ e2, simplified]
      have g2: "?g s2" using tables_grown_trans [OF p1(1) p2(1)] p1(2) p2(2) by simp
      show ?thesis
      proof (cases r2)
        case None
        with e e1 e2 r1 False g2 show ?thesis by (auto simp: map_page_def)
      next
        case r2: (Some pd)
        note ok2 = tables_grownD(1) [OF p2(1)]
        obtain r3 s3 where e3: "ensure_next_table pd (pd_index virt) s2 = (r3, s3)" by force
        note p3 = ensure_next_table_spec [OF ok2 p2(3) [OF r2] _ _ _ e3, simplified]
        have g3: "?g s3" using tables_grown_trans [of root s s2 s3] g2 p3(1,2) by simp
        show ?thesis
        proof (cases r3)
          case None
          with e e1 e2 e3 r1 r2 False g3 show ?thesis by (auto simp: map_page_def)
        next
          case r3: (Some pt)
          note ok3 = tables_grownD(1) [OF p3(1)]
          have w: "walk (phys_mem s3) root (vpath virt) = Some pt" using p3(3) [OF r3] by (simp add: vpath_def)
          let ?e = "phys_mem s3 (entry_addr pt (pt_index virt))"
          have d: "done = (?e AND PAGE_PRESENT = 0)" and s': "s' = (if done then
              write_entry pt (pt_index virt) (phys AND PAGE_ADDR_MASK OR flags) s3 else s3)"
            using e e1 e2 e3 r1 r2 r3 False by (auto simp: map_page_def split: if_splits)
          show ?thesis
          proof (cases "done")
            case False
            with fin g3 s' show ?thesis by simp
          next
            case True
            note wl = write_leaf [OF ok3 w s' [unfolded if_P [OF True]]]
            have lf: "leaf (phys AND PAGE_ADDR_MASK OR flags) = Some phys"
              using fl ph by (simp add: leaf_def bit.conj_disj_distrib2 or_eq_0_iff)
            have "translate (phys_mem s) root virt = None"
              using translate_leaf [OF w] g3 d True by (simp add: leaf_def)
            moreover have "translate (phys_mem s') root =
                (\<lambda>v. if same_page v virt then Some phys else translate (phys_mem s) root v)"
              using wl(3) unfolding lf conjunct2 [OF g3] .
            ultimately show ?thesis using wl(1) g3 True tables_grown_trans [of root s s3 s'] by simp
          qed
        qed
      qed
    qed
  qed
  then show "tables_grown root s s'"
    "done \<Longrightarrow> translate (phys_mem s) root virt = None \<and>
      translate (phys_mem s') root = (\<lambda>v. if same_page v virt then Some phys else translate (phys_mem s) root v)"
    "\<not> done \<Longrightarrow> translate (phys_mem s') root = translate (phys_mem s) root"
    by (auto split: if_splits)
qed

lemma unmap_page_spec:
  assumes ok: "paging_ok root s" and al: "root \<noteq> 0" "page_aligned virt" and e: "unmap_page root virt s = (r, s')"
  shows "r = translate (phys_mem s) root virt" "tables_grown root s s'" "phys_alloc s' = phys_alloc s"
    "translate (phys_mem s') root = (\<lambda>v. if same_page v virt then None else translate (phys_mem s) root v)"
proof -
  let ?m = "phys_mem s"
  have "r = translate ?m root virt \<and> tables_grown root s s' \<and> phys_alloc s' = phys_alloc s \<and>
    translate (phys_mem s') root = (\<lambda>v. if same_page v virt then None else translate ?m root v)"
  proof (cases "translate ?m root virt")
    case None
    have "unmap_page root virt s = (None, s)"
      using None al unfolding unmap_page_def translate_def ent_def vpath_def page_aligned_def
      by (auto simp: Let_def split: option.splits if_splits)
    moreover have "translate ?m root v = None" if "same_page v virt" for v
      using None that by (simp add: translate_def same_page_def)
    ultimately show ?thesis using e None tables_grown_refl [OF ok] by (auto simp: fun_eq_iff)
  next
    case (Some x)
    then obtain pt where w: "walk ?m root (vpath virt) = Some pt" using translate_walk by blast
    have x: "leaf (?m (entry_addr pt (pt_index virt))) = Some x" using Some translate_leaf [OF w] by simp
    have "unmap_page root virt s = (Some x, write_entry pt (pt_index virt) 0 s)"
      using w x al unfolding unmap_page_def vpath_def page_aligned_def
      by (auto simp: Let_def leaf_def split: option.splits if_splits)
    with e have r: "r = Some x" and s': "s' = write_entry pt (pt_index virt) 0 s" by simp_all
    note wl = write_leaf [OF ok w s', unfolded leaf_0]
    show ?thesis using wl Some r by (simp add: s' write_entry_def)
  qed
  then show "r = translate ?m root virt" "tables_grown root s s'" "phys_alloc s' = phys_alloc s"
    "translate (phys_mem s') root = (\<lambda>v. if same_page v virt then None else translate ?m root v)" by blast+
qed

section \<open>Runs of pages\<close>

abbreviation page_at :: "u64 \<Rightarrow> nat \<Rightarrow> u64" where
  "page_at base k \<equiv> base + of_nat k * PAGE_SIZE"

lemma drop_mod: "unat (drop_bit n v AND 0x1FF :: u64) = unat v div 2 ^ n mod 512"
proof -
  have "drop_bit n v AND 0x1FF = take_bit 9 (drop_bit n v)"
    by (simp add: take_bit_eq_mask mask_eq_exp_minus_1)
  then have "unat (drop_bit n v AND 0x1FF) = take_bit 9 (drop_bit n (take_bit 64 (unat v)))"
    by (simp only: unsigned_take_bit_eq unsigned_drop_bit_eq) simp
  also have "take_bit 64 (unat v) = unat v" using unat_bound [of v] by (simp add: take_bit_nat_eq_self)
  finally show ?thesis by (simp only: take_bit_eq_mod drop_bit_eq_div) simp
qed

lemma same_page_nat:
  assumes "same_page v w"
  shows "unat v div 4096 mod 2 ^ 36 = unat w div 4096 mod 2 ^ 36"
proof -
  have split: "x mod 2 ^ 36 = x mod 512 + 512 * (x div 512 mod 512 + 512 * (x div 512 div 512 mod 512
      + 512 * (x div 512 div 512 div 512 mod 512)))" for x :: nat
  proof -
    have "x mod (512 * 134217728) = x mod 512 + 512 * (x div 512 mod 134217728)"
      "x div 512 mod (512 * 262144) = x div 512 mod 512 + 512 * (x div 512 div 512 mod 262144)"
      "x div 512 div 512 mod (512 * 512) = x div 512 div 512 mod 512 + 512 * (x div 512 div 512 div 512 mod 512)"
      by (simp_all only: mod_mult2_eq add.commute)
    then show ?thesis by simp
  qed
  have d: "unat u div 2 ^ 21 = unat u div 4096 div 512" "unat u div 2 ^ 30 = unat u div 4096 div 512 div 512"
    "unat u div 2 ^ 39 = unat u div 4096 div 512 div 512 div 512" "unat u div 2 ^ 12 = unat u div 4096" for u :: u64
    by (simp_all only: div_mult2_eq [symmetric]) simp_all
  from assms show ?thesis
    unfolding same_page_def vpath_def pml4_index_def pdpt_index_def pd_index_def pt_index_def drop_mod d
      split [of "unat v div 4096"] split [of "unat w div 4096"] by (simp only: list.inject simp_thms)
qed

lemma page_at_aligned: "page_aligned base \<Longrightarrow> page_aligned (page_at base k)"
proof -
  assume "page_aligned base"
  then have "4096 dvd unat base" by (simp add: page_aligned_dvd)
  moreover have "(4096::nat) dvd 2 ^ 64" by simp
  ultimately show ?thesis
    by (simp add: page_aligned_dvd PAGE_SIZE_def unat_word_ariths dvd_mod_iff mod_mult_left_eq)
qed

lemma page_at_nat:
  assumes "page_aligned base"
  shows "unat (page_at base k) div 4096 mod 2 ^ 36 = (unat base div 4096 + k) mod 2 ^ 36"
proof -
  obtain b where b: "unat base = 4096 * b" using assms by (auto simp: page_aligned_dvd dvd_def)
  have "unat (page_at base k) = (4096 * (b + k)) mod 2 ^ 64"
  proof -
    have "unat (page_at base k) = (unat base + k mod 2 ^ 64 * 4096 mod 2 ^ 64) mod 2 ^ 64"
      by (simp only: unat_word_ariths unat_of_nat unat_page_size) simp
    also have "\<dots> = (unat base + k * 4096) mod 2 ^ 64" by (simp only: mod_simps)
    finally show ?thesis by (simp only: b distrib_left mult.commute [of _ 4096])
  qed
  also have "\<dots> = 4096 * ((b + k) mod 2 ^ 52)"
    using mult_mod_right [of 4096 "b + k" "2 ^ 52"] by simp
  finally have "unat (page_at base k) div 4096 = (b + k) mod 2 ^ 52" by simp
  moreover have "(b + k) mod 2 ^ 52 mod 2 ^ 36 = (b + k) mod (2 ^ 36 :: nat)"
    by (rule mod_mod_cancel) (simp add: le_imp_power_dvd)
  ultimately show ?thesis by (simp add: b)
qed

lemma page_at_inj:
  assumes "page_aligned base" "same_page (page_at base i) (page_at base j)" "i < 2 ^ 36" "j < 2 ^ 36"
  shows "i = j"
proof -
  let ?b = "unat base div 4096"
  have "(?b + i) mod 2 ^ 36 = (?b + j) mod 2 ^ 36"
    using same_page_nat [OF assms(2)] by (simp only: page_at_nat [OF assms(1)])
  then have "2 ^ 36 dvd (i - j) \<and> 2 ^ 36 dvd (j - i)"
    by (metis add_diff_cancel_left diff_is_0_eq dvd_0_right le_cases mod_eq_dvd_iff_nat nat_add_left_cancel_le)
  with assms(3,4) show ?thesis by (metis diff_is_0_eq le_antisym le_less_trans diff_le_self nat_dvd_not_less not_gr_zero)
qed

lemma same_page_refl [simp]: "same_page v v" by (simp add: same_page_def)

lemma same_page_trans: "same_page v w \<Longrightarrow> same_page w x \<Longrightarrow> same_page v x" by (simp add: same_page_def)

lemma same_page_sym: "same_page v w \<Longrightarrow> same_page w v" by (simp add: same_page_def)

text \<open>
  A page is released safely when it is neither available nor a table; the pool then takes it back
  or refuses it, and the tree is unharmed.
\<close>

lemma paging_ok_free:
  assumes ok: "paging_ok root s" and x: "x \<notin> avail s" "x \<notin> tables (phys_mem s) root" "x AND PAGE_ADDR_MASK = x"
    and f: "free_page x (phys_alloc s) = (done, a)"
  shows "paging_ok root (s\<lparr>phys_alloc := a\<rparr>)" "avail s \<subseteq> avail_pages a" "avail_pages a \<subseteq> insert x (avail s)"
proof -
  have wf: "allocator_wf (phys_alloc s)" and tr: "tree_ok (phys_mem s) root (avail s)"
    using ok by (simp_all add: paging_ok_def)
  have r: "allocator_wf a \<and> (avail_pages a = insert x (avail s) \<or> avail_pages a = avail s)"
    using phys.release_true [OF wf x(1), of a] phys.release_false [of x "phys_alloc s" a] f wf by (cases "done") auto
  have "page_aligned x" using mask_aligned [of x] x(3) by simp
  then have "tree_ok (phys_mem s) root (avail_pages a)"
    using r tr x by (auto simp: tree_ok_def tables_def)
  with r show "paging_ok root (s\<lparr>phys_alloc := a\<rparr>)" "avail s \<subseteq> avail_pages a" "avail_pages a \<subseteq> insert x (avail s)"
    by (auto simp: paging_ok_def)
qed

text \<open>The pages of a run belong to the run alone.\<close>

definition run_owned :: "u64 \<Rightarrow> 'a paging_scheme \<Rightarrow> u64 \<Rightarrow> nat set \<Rightarrow> bool" where
  "run_owned root s base K \<longleftrightarrow>
     (\<forall>k \<in> K. \<forall>x. translate (phys_mem s) root (page_at base k) = Some x \<longrightarrow>
        x \<notin> avail s \<and> x \<notin> tables (phys_mem s) root \<and>
        (\<forall>l \<in> K. translate (phys_mem s) root (page_at base l) = Some x \<longrightarrow> l = k))"

definition outside :: "u64 \<Rightarrow> nat set \<Rightarrow> (u64 \<Rightarrow> u64 option) \<Rightarrow> u64 \<Rightarrow> u64 option" where
  "outside base K tr v = (if \<exists>k \<in> K. same_page v (page_at base k) then None else tr v)"

lemma translate_same: "same_page v w \<Longrightarrow> translate m root v = translate m root w"
  by (simp add: translate_def same_page_def)

lemma translate_masked: "translate m root v = Some x \<Longrightarrow> x AND PAGE_ADDR_MASK = x"
  by (auto simp: translate_def and.assoc split: option.splits if_splits)

lemma tables_same_walk:
  "(\<And>p. length p \<le> 3 \<Longrightarrow> idx p \<Longrightarrow> walk m' root p = walk m root p) \<Longrightarrow> tables m' root = tables m root"
  by (auto simp: tables_def)

lemma unmap_page_tables:
  assumes "paging_ok root s" "root \<noteq> 0" "page_aligned virt" "unmap_page root virt s = (r, s')"
  shows "tables (phys_mem s') root = tables (phys_mem s) root"
proof -
  note sp = unmap_page_spec [OF assms]
  have "tables (phys_mem s) root \<subseteq> tables (phys_mem s') root"
    using tables_grownD(3) [OF sp(2)] by (auto simp: tables_def)
  moreover have "tables (phys_mem s') root \<subseteq> tables (phys_mem s) root"
    using tables_grownD(4) [OF sp(2)] sp(3) by simp
  ultimately show ?thesis by simp
qed

text \<open>The frame of an unmapping: the tables stay, other pages keep their contents.\<close>

definition tables_kept :: "u64 \<Rightarrow> 'a paging_scheme \<Rightarrow> 'a paging_scheme \<Rightarrow> bool" where
  "tables_kept root s s' \<longleftrightarrow>
     paging_ok root s' \<and> tables (phys_mem s') root = tables (phys_mem s) root \<and> avail s \<subseteq> avail s' \<and>
     (\<forall>a. align_down_u64 a PAGE_SIZE \<notin> avail s' \<union> tables (phys_mem s) root \<longrightarrow> phys_mem s' a = phys_mem s a) \<and>
     kernel_pml4_phys s' = kernel_pml4_phys s \<and> cr3 s' = cr3 s \<and> paging.more s' = paging.more s"

lemma tables_kept_refl: "paging_ok root s \<Longrightarrow> tables_kept root s s"
  by (simp add: tables_kept_def)

lemma tables_kept_trans: "tables_kept root s s1 \<Longrightarrow> tables_kept root s1 s2 \<Longrightarrow> tables_kept root s s2"
  unfolding tables_kept_def by (auto dest: subsetD)

text \<open>One turn of the unmapping loop: unmap a page and give it back.\<close>

definition unmap_step :: "u64 \<Rightarrow> u64 \<Rightarrow> 'a paging_scheme \<Rightarrow> bool \<times> 'a paging_scheme" where
  "unmap_step root virt s =
     (case unmap_page root virt s of
        (None, s) \<Rightarrow> (False, s)
      | (Some phys, s) \<Rightarrow>
          if phys \<noteq> 0 then case free_page phys (phys_alloc s) of (ok, a) \<Rightarrow> (ok, s\<lparr>phys_alloc := a\<rparr>) else (False, s))"

lemma unmap_loop_step:
  "unmap_loop root base (k # is) n s =
     (case unmap_step root (page_at base k) s of (b, s1) \<Rightarrow> unmap_loop root base is (if b then n + 1 else n) s1)"
  by (simp add: unmap_step_def split: option.splits prod.splits)

lemma unmap_step_spec:
  assumes ok: "paging_ok root s" and al: "root \<noteq> 0" "page_aligned virt" and e: "unmap_step root virt s = (b, s')"
    and own: "\<And>x. translate (phys_mem s) root virt = Some x \<Longrightarrow> x \<notin> avail s \<and> x \<notin> tables (phys_mem s) root"
  shows "tables_kept root s s'"
    "translate (phys_mem s') root = (\<lambda>v. if same_page v virt then None else translate (phys_mem s) root v)"
    "avail s' \<subseteq> avail s \<union> {x. translate (phys_mem s) root virt = Some x}"
proof -
  obtain r s1 where u: "unmap_page root virt s = (r, s1)" by force
  note sp = unmap_page_spec [OF ok al u] and T = unmap_page_tables [OF ok al u]
  note g = tables_grownD [OF sp(2)]
  have kept: "tables_kept root s s1"
    using g(1,5) T sp(2,3) by (auto simp: tables_kept_def tables_grown_def)
  have "tables_kept root s s' \<and> phys_mem s' = phys_mem s1 \<and> avail s' \<subseteq> avail s \<union> {x. translate (phys_mem s) root virt = Some x}"
  proof (cases "r = None \<or> r = Some 0")
    case True
    with e u have "s' = s1" by (auto simp: unmap_step_def)
    with kept sp(3) show ?thesis by simp
  next
    case False
    then obtain x where r: "r = Some x" "x \<noteq> 0" by (cases r) auto
    obtain ok' a where f: "free_page x (phys_alloc s1) = (ok', a)" by force
    with e u r have s': "s' = s1\<lparr>phys_alloc := a\<rparr>" by (simp add: unmap_step_def)
    have x: "translate (phys_mem s) root virt = Some x" using sp(1) r by simp
    note fr = paging_ok_free [OF g(1) _ _ translate_masked [OF x] f]
    have "paging_ok root s'" "avail s1 \<subseteq> avail s'" "avail s' \<subseteq> insert x (avail s1)"
      using fr own [OF x] sp(3) T by (simp_all add: s')
    moreover from this have "tables_kept root s1 s'" by (simp add: tables_kept_def s')
    ultimately show ?thesis using tables_kept_trans [OF kept] x sp(3) by (auto simp: s')
  qed
  with sp(4) show "tables_kept root s s'"
    "translate (phys_mem s') root = (\<lambda>v. if same_page v virt then None else translate (phys_mem s) root v)"
    "avail s' \<subseteq> avail s \<union> {x. translate (phys_mem s) root virt = Some x}" by simp_all
qed

lemma unmap_loop_spec:
  assumes "paging_ok root s" "root \<noteq> 0" "page_aligned base" "distinct is" "set is \<subseteq> {..<2 ^ 36}"
    "run_owned root s base (set is)" "unmap_loop root base is n s = (n', s')"
  shows "tables_kept root s s' \<and>
    translate (phys_mem s') root = outside base (set is) (translate (phys_mem s) root) \<and>
    avail s' \<subseteq> avail s \<union> {x. \<exists>k \<in> set is. translate (phys_mem s) root (page_at base k) = Some x}"
  using assms
proof (induction "is" arbitrary: s n)
  case Nil
  then show ?case by (simp add: tables_kept_refl outside_def fun_eq_iff)
next
  case (Cons k "is")
  obtain b s1 where st: "unmap_step root (page_at base k) s = (b, s1)" by force
  have own: "x \<notin> avail s \<and> x \<notin> tables (phys_mem s) root"
    if "translate (phys_mem s) root (page_at base k) = Some x" for x
    using Cons.prems(6) that by (auto simp: run_owned_def)
  note sp = unmap_step_spec [OF Cons.prems(1,2) page_at_aligned [OF Cons.prems(3)] st own]
  have tr: "translate (phys_mem s1) root (page_at base l) = translate (phys_mem s) root (page_at base l)"
    if "l \<in> set is" for l
    using that Cons.prems(4,5) page_at_inj [OF Cons.prems(3), of l k] by (auto simp: sp(2))
  have av: "x \<notin> avail s1" if "translate (phys_mem s) root (page_at base l) = Some x" "l \<in> set is" for l x
  proof
    assume "x \<in> avail s1"
    with sp(3) that Cons.prems(6) have "translate (phys_mem s) root (page_at base k) = Some x"
      by (auto simp: run_owned_def)
    with that Cons.prems(4,6) show False by (auto simp: run_owned_def)
  qed
  have ok1: "paging_ok root s1" and T: "tables (phys_mem s1) root = tables (phys_mem s) root"
    using sp(1) by (simp_all add: tables_kept_def)
  have "run_owned root s1 base (set is)"
    using Cons.prems(6) av by (auto simp: run_owned_def tr T)
  then have IH: "tables_kept root s1 s' \<and>
      translate (phys_mem s') root = outside base (set is) (translate (phys_mem s1) root) \<and>
      avail s' \<subseteq> avail s1 \<union> {x. \<exists>l \<in> set is. translate (phys_mem s1) root (page_at base l) = Some x}"
    using Cons.IH [OF ok1 Cons.prems(2,3), of "if b then n + 1 else n"] Cons.prems(4,5,7)
    by (simp add: unmap_loop_step st del: unmap_loop.simps)
  have "translate (phys_mem s') root = outside base (set (k # is)) (translate (phys_mem s) root)"
    unfolding conjunct1 [OF conjunct2 [OF IH]] by (auto simp: outside_def fun_eq_iff sp(2))
  moreover have "avail s' \<subseteq> avail s \<union> {x. \<exists>l \<in> set (k # is). translate (phys_mem s) root (page_at base l) = Some x}"
    using conjunct2 [OF conjunct2 [OF IH]] sp(3) tr by auto
  ultimately show ?case using tables_kept_trans [OF sp(1) conjunct1 [OF IH]] by blast
qed

text \<open>
  The state in the middle of mapping a run: the pages \<open>fs\<close> were taken from the allocator,
  are empty, and are the only pages besides new tables that changed.
\<close>

definition run_frame :: "u64 \<Rightarrow> 'a paging_scheme \<Rightarrow> 'a paging_scheme \<Rightarrow> u64 list \<Rightarrow> bool" where
  "run_frame root s0 s fs \<longleftrightarrow>
     paging_ok root s \<and> avail s \<subseteq> avail s0 \<and> distinct fs \<and> set fs \<subseteq> avail s0 \<and> set fs \<inter> avail s = {} \<and>
     set fs \<inter> tables (phys_mem s) root = {} \<and>
     (\<forall>a. align_down_u64 a PAGE_SIZE \<in> set fs \<longrightarrow> phys_mem s a = 0) \<and>
     tables (phys_mem s0) root \<subseteq> tables (phys_mem s) root \<and>
     tables (phys_mem s) root \<subseteq> tables (phys_mem s0) root \<union> avail s0 \<and>
     (\<forall>a. align_down_u64 a PAGE_SIZE \<notin> avail s0 \<union> tables (phys_mem s0) root \<longrightarrow> phys_mem s a = phys_mem s0 a) \<and>
     kernel_pml4_phys s = kernel_pml4_phys s0 \<and> cr3 s = cr3 s0 \<and> paging.more s = paging.more s0"

definition run_trans :: "u64 \<Rightarrow> (u64 \<Rightarrow> u64) \<Rightarrow> (u64 \<Rightarrow> u64) \<Rightarrow> u64 \<Rightarrow> u64 list \<Rightarrow> bool" where
  "run_trans root m0 m base fs \<longleftrightarrow>
     (\<forall>j<length fs. translate m0 root (page_at base j) = None \<and> translate m root (page_at base j) = Some (fs ! j)) \<and>
     (\<forall>v. (\<forall>j<length fs. \<not> same_page v (page_at base j)) \<longrightarrow> translate m root v = translate m0 root v)"

lemma run_frame_start: "paging_ok root s \<Longrightarrow> run_frame root s s []"
  by (simp add: run_frame_def)

lemma run_frame_grown:
  assumes f: "run_frame root s0 s fs" and g: "tables_grown root s s'"
  shows "run_frame root s0 s' fs"
proof -
  note gd = tables_grownD [OF g]
  have t: "tables (phys_mem s) root \<subseteq> tables (phys_mem s') root" using gd(3) by (auto simp: tables_def)
  have z: "phys_mem s' a = phys_mem s a" if "align_down_u64 a PAGE_SIZE \<in> set fs" for a
    using that gd(5) [of a] f by (auto simp: run_frame_def)
  have k: "phys_mem s' a = phys_mem s0 a" if "align_down_u64 a PAGE_SIZE \<notin> avail s0 \<union> tables (phys_mem s0) root" for a
  proof -
    have "align_down_u64 a PAGE_SIZE \<notin> avail s" "align_down_u64 a PAGE_SIZE \<notin> tables (phys_mem s) root"
      using that f by (auto simp: run_frame_def)
    with that gd(5) f show ?thesis by (simp add: run_frame_def)
  qed
  show ?thesis using f g gd(1,2,4) t z k by (auto simp: run_frame_def tables_grown_def)
qed

lemma run_frame_alloc:
  assumes f: "run_frame root s0 s fs" and a: "alloc_zeroed_page s = (Some n, s')"
  shows "run_frame root s0 s' (fs @ [n])" "translate (phys_mem s') root = translate (phys_mem s) root"
    "n AND PAGE_ADDR_MASK = n"
proof -
  have ok: "paging_ok root s" using f by (simp add: run_frame_def)
  then have al: "allocator_wf (phys_alloc s)" and tr: "tree_ok (phys_mem s) root (avail s)"
    by (simp_all add: paging_ok_def)
  from a al obtain b where nb: "n \<in> avail s" "avail_pages b = avail s - {n}" "allocator_wf b"
    "s' = s\<lparr>phys_alloc := b, phys_mem := zero_page n (phys_mem s)\<rparr>"
    by (cases rule: alloc_zeroed_page_cases) auto
  note z = zero_frame [OF tr nb(1)]
  have T: "tables (phys_mem s') root = tables (phys_mem s) root"
    using z(1) by (intro tables_same_walk) (simp add: nb(4))
  have n: "n \<notin> tables (phys_mem s) root" using tr nb(1) by (auto simp: tree_ok_def tables_def)
  have "tree_ok (phys_mem s') root (avail s')" using tr z(1) by (auto simp: tree_ok_def nb(2,4))
  then have "paging_ok root s'" using nb(3) by (simp add: paging_ok_def nb(4))
  then show "run_frame root s0 s' (fs @ [n])"
    using f nb(1,2) n T by (auto simp: run_frame_def nb(4) zero_page_def)
  show "translate (phys_mem s') root = translate (phys_mem s) root"
    using z(2) by (simp add: nb(4) translate_def fun_eq_iff)
  show "n AND PAGE_ADDR_MASK = n" using tree_okD(5) [OF tr nb(1)] .
qed

lemma run_frame_release:
  assumes f: "run_frame root s0 s (fs @ [n])" and n: "n AND PAGE_ADDR_MASK = n"
    and r: "free_page n (phys_alloc s) = (ok, a)"
  shows "run_frame root s0 (s\<lparr>phys_alloc := a\<rparr>) fs"
proof -
  note p = paging_ok_free [OF _ _ _ n r, of root]
  have "paging_ok root s" "n \<notin> avail s" "n \<notin> tables (phys_mem s) root" using f by (auto simp: run_frame_def)
  note p = p [OF this]
  show ?thesis using f p by (auto simp: run_frame_def)
qed

text \<open>Undoing a partial run restores the translation.\<close>

lemma rollback:
  assumes f: "run_frame root s0 s fs" and t: "run_trans root (phys_mem s0) (phys_mem s) base fs"
    and b: "root \<noteq> 0" "page_aligned base" "length fs \<le> 2 ^ 36"
    and e: "unmap_user_pages root base (length fs) s = (n, s')"
  shows "run_frame root s0 s' []" "translate (phys_mem s') root = translate (phys_mem s0) root"
proof -
  have ok: "paging_ok root s" using f by (simp add: run_frame_def)
  have tj: "translate (phys_mem s) root (page_at base j) = Some (fs ! j)" if "j < length fs" for j
    using t that by (simp add: run_trans_def)
  have own: "run_owned root s base {..<length fs}"
  proof -
    have "distinct fs" "set fs \<inter> avail s = {}" "set fs \<inter> tables (phys_mem s) root = {}"
      using f by (simp_all add: run_frame_def)
    then show ?thesis by (auto simp: run_owned_def tj distinct_conv_nth disjoint_iff)
  qed
  have u: "tables_kept root s s' \<and>
      translate (phys_mem s') root = outside base {..<length fs} (translate (phys_mem s) root) \<and>
      avail s' \<subseteq> avail s \<union> {x. \<exists>k \<in> {..<length fs}. translate (phys_mem s) root (page_at base k) = Some x}"
    using unmap_loop_spec [OF ok b(1,2), of "[0..<length fs]" 0 n s'] own b(3) e
    by (simp add: unmap_user_pages_def atLeast0LessThan)
  have "avail s' \<subseteq> avail s \<union> set fs" using u by (auto simp: tj)
  then have "avail s' \<subseteq> avail s0" using f by (auto simp: run_frame_def)
  with u f show "run_frame root s0 s' []" by (auto simp: run_frame_def tables_kept_def)
  show "translate (phys_mem s') root = translate (phys_mem s0) root"
  proof
    fix v
    show "translate (phys_mem s') root v = translate (phys_mem s0) root v"
    proof (cases "\<exists>k<length fs. same_page v (page_at base k)")
      case True
      then obtain k where k: "k < length fs" "same_page v (page_at base k)" by blast
      with t translate_same [OF k(2)] have "translate (phys_mem s0) root v = None" by (simp add: run_trans_def)
      with True u show ?thesis by (auto simp: outside_def)
    next
      case False
      with t u show ?thesis by (auto simp: run_trans_def outside_def)
    qed
  qed
qed

lemma leaf_flags: "(PAGE_PRESENT OR PAGE_WRITABLE) AND PAGE_PRESENT \<noteq> 0" "(PAGE_PRESENT OR PAGE_WRITABLE) AND PAGE_ADDR_MASK = 0"
  by (simp_all add: paging_consts)

text \<open>One turn of the mapping loop.\<close>

lemma run_trans_snoc:
  assumes t: "run_trans root m0 m base fs" and b: "page_aligned base" "length fs < 2 ^ 36"
    and new: "translate m root (page_at base (length fs)) = None"
      "translate m' root = (\<lambda>v. if same_page v (page_at base (length fs)) then Some n else translate m root v)"
  shows "run_trans root m0 m' base (fs @ [n])"
  unfolding run_trans_def
proof (intro conjI allI impI)
  fix j
  assume j: "j < length (fs @ [n])"
  have ne: "\<not> same_page (page_at base i) (page_at base j)" if "i \<noteq> j" "i \<le> length fs" for i
    using that j b page_at_inj [OF b(1), of i j] by auto
  show "translate m0 root (page_at base j) = None"
  proof (cases "j < length fs")
    case True
    then show ?thesis using t by (simp add: run_trans_def)
  next
    case False
    with j have j': "j = length fs" by simp
    have "\<not> same_page (page_at base j) (page_at base i)" if "i < length fs" for i
      using ne [of i] that j' same_page_sym by auto
    then have "translate m root (page_at base j) = translate m0 root (page_at base j)"
      using t by (simp add: run_trans_def)
    with new(1) j' show ?thesis by simp
  qed
  show "translate m' root (page_at base j) = Some ((fs @ [n]) ! j)"
  proof (cases "j < length fs")
    case True
    with ne [of "length fs"] have "\<not> same_page (page_at base j) (page_at base (length fs))"
      using same_page_sym by auto
    with t True show ?thesis by (simp add: new(2) run_trans_def nth_append)
  next
    case False
    with j have j': "j = length fs" by simp
    show ?thesis by (simp add: new(2) j')
  qed
next
  fix v
  assume "\<forall>j<length (fs @ [n]). \<not> same_page v (page_at base j)"
  then have "\<not> same_page v (page_at base (length fs))" "\<forall>j<length fs. \<not> same_page v (page_at base j)" by auto
  with t show "translate m' root v = translate m0 root v" by (simp add: new(2) run_trans_def)
qed

lemma map_user_loop_spec:
  assumes "run_frame root s0 s fs" "run_trans root (phys_mem s0) (phys_mem s) base fs"
    and b: "root \<noteq> 0" "page_aligned base" "n \<le> 2 ^ 36" and len: "length fs \<le> n"
    and e: "map_user_loop root base [length fs..<n] s = (done, s')"
  shows "if done then \<exists>gs. length gs = n \<and> run_frame root s0 s' gs \<and> run_trans root (phys_mem s0) (phys_mem s') base gs
    else run_frame root s0 s' [] \<and> translate (phys_mem s') root = translate (phys_mem s0) root"
  using assms(1,2) len e
proof (induction "n - length fs" arbitrary: s fs)
  case 0
  then show ?case by auto
next
  case (Suc d)
  have split: "[length fs..<n] = length fs # [Suc (length fs)..<n]" using Suc.hyps(2) by (simp add: upt_rec)
  have k: "length fs < 2 ^ 36" using Suc.hyps(2) b(3) by simp
  note f = Suc.prems(1) and t = Suc.prems(2)
  have undo: ?case if "run_frame root s0 u fs" "run_trans root (phys_mem s0) (phys_mem u) base fs"
    "done = False" "s' = snd (unmap_user_pages root base (length fs) u)" for u
    using rollback [OF that(1,2) b(1,2), of "fst (unmap_user_pages root base (length fs) u)" s'] k that(3,4) by simp
  obtain r s1 where a: "alloc_zeroed_page s = (r, s1)" by force
  show ?case
  proof (cases r)
    case None
    have "allocator_wf (phys_alloc s)" using f by (simp add: run_frame_def paging_ok_def)
    with a have "s1 = s" using None by (cases rule: alloc_zeroed_page_cases) auto
    with a None Suc.prems(4) undo [OF f t] show ?thesis by (simp add: split)
  next
    case (Some x)
    note fa = run_frame_alloc [OF f a [unfolded Some]]
    have ok1: "paging_ok root s1" using fa(1) by (simp add: run_frame_def)
    obtain dn s2 where m: "map_page root (page_at base (length fs)) x (PAGE_PRESENT OR PAGE_WRITABLE) s1 = (dn, s2)" by force
    note ms = map_page_spec [OF ok1 m leaf_flags fa(3)]
    have f2: "run_frame root s0 s2 (fs @ [x])" by (rule run_frame_grown [OF fa(1) ms(1)])
    show ?thesis
    proof (cases dn)
      case False
      obtain ok a' where fr: "free_page x (phys_alloc s2) = (ok, a')" by force
      have "run_trans root (phys_mem s0) (phys_mem (s2\<lparr>phys_alloc := a'\<rparr>)) base fs"
        using t ms(3) [OF False] fa(2) by (simp add: run_trans_def)
      then show ?thesis
        using undo [OF run_frame_release [OF f2 fa(3) fr]] Suc.prems(4) a Some m False fr by (simp add: split)
    next
      case True
      have t2: "run_trans root (phys_mem s0) (phys_mem s2) base (fs @ [x])"
        by (rule run_trans_snoc [OF t b(2) k]) (use ms(2) [OF True] fa(2) in auto)
      have "map_user_loop root base [length (fs @ [x])..<n] s2 = (done, s')"
        using Suc.prems(4) a Some m True by (simp add: split)
      moreover have "d = n - length (fs @ [x])" "length (fs @ [x]) \<le> n" using Suc.hyps(2) by auto
      ultimately show ?thesis using Suc.hyps(1) [OF _ f2 t2] by blast
    qed
  qed
qed

lemma map_user_pages_run:
  assumes "paging_ok root s" "root \<noteq> 0" "page_aligned base" "n \<le> 2 ^ 36"
    and "map_user_pages root base n s = (done, s')"
  shows "if done then \<exists>gs. length gs = n \<and> run_frame root s s' gs \<and> run_trans root (phys_mem s) (phys_mem s') base gs
    else run_frame root s s' [] \<and> translate (phys_mem s') root = translate (phys_mem s) root"
  using map_user_loop_spec [OF run_frame_start [OF assms(1)] _ assms(2-4), of "done" s'] assms(5)
  by (simp add: run_trans_def map_user_pages_def)


section \<open>Properties\<close>

text \<open>
  C16. \<^verbatim>\<open>map_user_pages\<close> maps a run of pages or nothing.  On success every page of the run,
  unmapped before, translates to a page of its own that came from the allocator and is zeroed,
  and no other translation changed; on failure the translation is what it was before the call,
  whichever allocation failed.  In both cases the tables stay a tree clear of the free pool and
  no page that was neither free nor a table has changed.
\<close>

theorem map_user_pages_correct:
  assumes "paging_ok root s" "root \<noteq> 0" "page_aligned base" "n \<le> 2 ^ 36"
    and "map_user_pages root base n s = (done, s')"
  shows "paging_ok root s' \<and> avail s' \<subseteq> avail s \<and>
    (\<forall>a. align_down_u64 a PAGE_SIZE \<notin> avail s \<union> tables (phys_mem s) root \<longrightarrow> phys_mem s' a = phys_mem s a) \<and>
    (if done then \<exists>gs. length gs = n \<and> distinct gs \<and> set gs \<subseteq> avail s - avail s' \<and>
       (\<forall>j<n. translate (phys_mem s) root (page_at base j) = None \<and>
          translate (phys_mem s') root (page_at base j) = Some (gs ! j)) \<and>
       (\<forall>v. (\<forall>j<n. \<not> same_page v (page_at base j)) \<longrightarrow>
          translate (phys_mem s') root v = translate (phys_mem s) root v) \<and>
       (\<forall>a. align_down_u64 a PAGE_SIZE \<in> set gs \<longrightarrow> phys_mem s' a = 0)
     else translate (phys_mem s') root = translate (phys_mem s) root)"
proof -
  have "if done then \<exists>gs. length gs = n \<and> run_frame root s s' gs \<and> run_trans root (phys_mem s) (phys_mem s') base gs
    else run_frame root s s' [] \<and> translate (phys_mem s') root = translate (phys_mem s) root"
    by (rule map_user_pages_run [OF assms])
  then show ?thesis
  proof (cases "done")
    case True
    with \<open>if done then _ else _\<close> obtain gs where gs: "length gs = n" "run_frame root s s' gs"
      "run_trans root (phys_mem s) (phys_mem s') base gs" by auto
    have "\<exists>gs. length gs = n \<and> distinct gs \<and> set gs \<subseteq> avail s - avail s' \<and>
       (\<forall>j<n. translate (phys_mem s) root (page_at base j) = None \<and>
          translate (phys_mem s') root (page_at base j) = Some (gs ! j)) \<and>
       (\<forall>v. (\<forall>j<n. \<not> same_page v (page_at base j)) \<longrightarrow>
          translate (phys_mem s') root v = translate (phys_mem s) root v) \<and>
       (\<forall>a. align_down_u64 a PAGE_SIZE \<in> set gs \<longrightarrow> phys_mem s' a = 0)"
      using gs by (intro exI [of _ gs]) (auto simp: run_frame_def run_trans_def)
    with gs(2) True show ?thesis by (auto simp: run_frame_def)
  next
    case False
    with \<open>if done then _ else _\<close> show ?thesis by (auto simp: run_frame_def)
  qed
qed

definition demo_pool :: phys_page_allocator where
  "demo_pool = init_physical_allocator (Some [\<lparr>md_typ = 7, md_physical_start = 0x9000000, md_number_of_pages = 16\<rparr>])"

definition demo_paging :: paging where
  "demo_paging = \<lparr>phys_mem = (\<lambda>a. 0), phys_alloc = demo_pool, kernel_pml4_phys = 0x1000, cr3 = 0x1000\<rparr>"

lemma demo_pool_eq:
  "demo_pool = allocator_empty\<lparr>ranges := (replicate 32 page_range_empty)[0 := \<lparr>rg_next = 0x9000000, rg_end = 0x9010000\<rparr>],
     range_count := 1, total_pages := 16\<rparr>"
  by (simp add: demo_pool_def init_physical_allocator_def add_descriptor_def add_range_def
      APP_LOAD_MAX_def align_up_u64_def align_down_u64_def allocator_empty_def alloc_consts Let_def)

lemma demo_map_runs: "fst (map_user_pages 0x1000 0xFFFF900000000000 1 demo_paging)"
  by (simp add: map_user_pages_def demo_paging_def alloc_zeroed_page_def demo_pool_eq alloc_page_def allocator_empty_def
     map_page_def ensure_next_table_def write_entry_def zero_page_def align_down_u64_def
      pml4_index_def pdpt_index_def pd_index_def pt_index_def entry_addr_def paging_consts alloc_consts Let_def)

lemma masked_page:
  assumes "page_aligned t" "unat t < 2 ^ 52"
  shows "t AND PAGE_ADDR_MASK = t"
proof -
  have t: "take_bit 52 t = t" using assms(2)
    by (simp add: word_unat_eq_iff unsigned_take_bit_eq take_bit_nat_eq_self)
  have z: "t AND mask 12 = 0" using assms(1) by (simp add: page_aligned_def PAGE_SIZE_def mask_eq_exp_minus_1)
  have hi: "n < 52" if "bit t n" for n
    using arg_cong [OF t, of "\<lambda>w. bit w n"] that by (simp add: bit_take_bit_iff)
  have lo: "12 \<le> n" if "bit t n" for n
    using arg_cong [OF z, of "\<lambda>w. bit w n"] that by (auto simp: bit_and_iff bit_mask_iff dest: bit_imp_le_length)
  have m: "PAGE_ADDR_MASK = mask 52 AND NOT (mask 12)" by (simp add: PAGE_ADDR_MASK_def mask_eq_exp_minus_1)
  show ?thesis unfolding m by (rule bit_word_eqI) (auto simp: bit_simps dest: hi lo)
qed

lemma demo_pool_facts: "allocator_wf demo_pool" "p \<in> avail_pages demo_pool \<Longrightarrow> 0x9000000 \<le> unat p \<and> unat p < 0x9010000"
proof -
  let ?d = "\<lparr>md_typ = 7, md_physical_start = 0x9000000, md_number_of_pages = 16\<rparr>"
  have ok: "efi_map_ok [?d]" by (simp add: efi_map_ok_def desc_stop_def page_aligned_def PAGE_SIZE_def)
  note f = fold_add_descriptor [OF _ _ _ ok, of allocator_empty, simplified allocator_empty_facts, simplified]
  show "allocator_wf demo_pool" using f by (simp add: demo_pool_def init_physical_allocator_def)
  show "0x9000000 \<le> unat p \<and> unat p < 0x9010000" if "p \<in> avail_pages demo_pool"
    using that f by (auto simp: demo_pool_def init_physical_allocator_def conventional_def desc_stop_def)
qed

lemma walk_zero: "walk (\<lambda>a. 0) t p = Some u \<longleftrightarrow> p = [] \<and> u = t"
  by (cases p) (auto simp: table_entry_address_def)

lemma demo_paging_ok: "paging_ok 0x1000 demo_paging"
  unfolding paging_ok_def tree_ok_def
  using demo_pool_facts avail_aligned [OF demo_pool_facts(1)] masked_page
  by (force simp: demo_paging_def walk_zero page_aligned_def PAGE_SIZE_def)

theorem map_user_pages_correct_witness:
  "fst (map_user_pages 0x1000 0xFFFF900000000000 1 demo_paging) \<and>
   paging_ok 0x1000 (snd (map_user_pages 0x1000 0xFFFF900000000000 1 demo_paging)) \<and>
   translate (phys_mem (snd (map_user_pages 0x1000 0xFFFF900000000000 1 demo_paging))) 0x1000 0xFFFF900000000000 \<noteq> None"
proof -
  let ?r = "map_user_pages 0x1000 0xFFFF900000000000 1 demo_paging"
  have al: "page_aligned 0xFFFF900000000000" by (simp add: page_aligned_def PAGE_SIZE_def)
  have run: "?r = (True, snd ?r)" using demo_map_runs by (simp add: prod_eq_iff)
  from map_user_pages_correct [OF demo_paging_ok _ al _ run] demo_map_runs show ?thesis by auto
qed

end
