(* ===== verification/Address_Spaces.thy ===== *)
theory Address_Spaces
  imports Page_Tables
begin

text \<open>
  The address space and the kernel stack of a process, \<^verbatim>\<open>kernel/src/main.rs\<close>:
  \<^verbatim>\<open>create_process_address_space\<close> and its release, the stack mapping and its release, and the
  release of the tables of the heap and mmap windows.  A private address space shares the
  kernel's tables except for the program image window, which it leaves unmapped.
\<close>

section \<open>Model\<close>

definition heap_window :: "u32 \<Rightarrow> u64" where "heap_window pid = USER_HEAP_BASE + ucast pid * USER_HEAP_STRIDE"
definition mmap_window :: "u32 \<Rightarrow> u64" where "mmap_window pid = USER_MMAP_BASE + ucast pid * USER_MMAP_STRIDE"
definition stack_window :: "u32 \<Rightarrow> u64" where "stack_window pid = KERNEL_STACK_BASE + ucast pid * KERNEL_STACK_STRIDE"

definition image_pds :: "nat list" where
  "image_pds = [pd_index APP_LOAD_MIN ..< pd_index (APP_LOAD_MAX - PAGE_SIZE) + 1]"

text \<open>The private PML4, PDPT and PD of a process, over a PML4 that already has its window entries.\<close>

definition private_tables :: "u64 \<Rightarrow> 'a paging_scheme \<Rightarrow> u64 option \<times> 'a paging_scheme" where
  "private_tables kernel_pml4 s =
     (let pml4_idx = pml4_index APP_LOAD_MIN; pdpt_idx = pdpt_index APP_LOAD_MIN in
      case clone_table kernel_pml4 s of
        (None, s) \<Rightarrow> (None, s)
      | (Some new_pml4, s) \<Rightarrow>
      case table_entry_address (phys_mem s) new_pml4 pml4_idx of
        None \<Rightarrow> (None, snd (free_phys_page new_pml4 s))
      | Some shared_pdpt \<Rightarrow>
      case clone_table shared_pdpt s of
        (None, s) \<Rightarrow> (None, snd (free_phys_page new_pml4 s))
      | (Some new_pdpt, s) \<Rightarrow>
      case table_entry_address (phys_mem s) new_pdpt pdpt_idx of
        None \<Rightarrow> (None, snd (free_phys_page new_pml4 (snd (free_phys_page new_pdpt s))))
      | Some shared_pd \<Rightarrow>
      case clone_table shared_pd s of
        (None, s) \<Rightarrow> (None, snd (free_phys_page new_pml4 (snd (free_phys_page new_pdpt s))))
      | (Some new_pd, s) \<Rightarrow>
      let s = fold (\<lambda>pd_idx. write_entry new_pd pd_idx 0) image_pds s;
          s = write_entry new_pdpt pdpt_idx ((new_pd AND PAGE_ADDR_MASK) OR PAGE_PRESENT OR PAGE_WRITABLE) s;
          s = write_entry new_pml4 pml4_idx ((new_pdpt AND PAGE_ADDR_MASK) OR PAGE_PRESENT OR PAGE_WRITABLE) s
      in (Some new_pml4, s))"

definition create_process_address_space :: "u32 \<Rightarrow> 'a paging_scheme \<Rightarrow> u64 option \<times> 'a paging_scheme" where
  "create_process_address_space pid s =
     (case ensure_kernel_pml4 s of
        (None, s) \<Rightarrow> (None, s)
      | (Some kernel_pml4, s) \<Rightarrow>
        case ensure_next_table kernel_pml4 (pml4_index (heap_window pid)) s of
          (None, s) \<Rightarrow> (None, s)
        | (Some _, s) \<Rightarrow>
        case ensure_next_table kernel_pml4 (pml4_index (mmap_window pid)) s of
          (None, s) \<Rightarrow> (None, s)
        | (Some _, s) \<Rightarrow>
        case ensure_next_table kernel_pml4 (pml4_index (stack_window pid)) s of
          (None, s) \<Rightarrow> (None, s)
        | (Some _, s) \<Rightarrow> private_tables kernel_pml4 s)"

text \<open>
  The release walks free a page where the table entry is present.  \<open>free_entry\<close> is one
  such step, \<^verbatim>\<open>if let Some(p) = table_entry_address(table, index) { ...; free_phys_page(p); }\<close>.
\<close>

definition free_entry ::
  "u64 \<Rightarrow> (u64 \<Rightarrow> 'a paging_scheme \<Rightarrow> 'a paging_scheme) \<Rightarrow> nat \<Rightarrow> 'a paging_scheme \<Rightarrow> 'a paging_scheme" where
  "free_entry table inner index s =
     (case table_entry_address (phys_mem s) table index of
        None \<Rightarrow> s
      | Some p \<Rightarrow> snd (free_phys_page p (inner p s)))"

definition destroy_process_address_space :: "u64 \<Rightarrow> 'a paging_scheme \<Rightarrow> 'a paging_scheme" where
  "destroy_process_address_space pml4_phys s =
     (if pml4_phys = 0 then s
      else
        snd (free_phys_page pml4_phys
          (free_entry pml4_phys (\<lambda>pdpt_phys.
             free_entry pdpt_phys (\<lambda>pd_phys.
               fold (free_entry pd_phys (\<lambda>pt_phys.
                 fold (free_entry pt_phys (\<lambda>data_phys s. s)) [0..<PAGE_TABLE_ENTRIES])) image_pds)
             (pdpt_index APP_LOAD_MIN))
           (pml4_index APP_LOAD_MIN) s)))"

definition create_process_stack :: "u32 \<Rightarrow> 'a paging_scheme \<Rightarrow> u64 option \<times> 'a paging_scheme" where
  "create_process_stack pid s =
     (case ensure_kernel_pml4 s of
        (None, s) \<Rightarrow> (None, s)
      | (Some kernel_pml4, s) \<Rightarrow>
          let stack_top = stack_window pid + KERNEL_STACK_STRIDE;
              mapped_base = stack_top - of_nat KERNEL_STACK_PAGES * PAGE_SIZE in
          case map_user_pages kernel_pml4 mapped_base KERNEL_STACK_PAGES s of
            (True, s) \<Rightarrow> (Some stack_top, s)
          | (False, s) \<Rightarrow> (None, s))"

text \<open>\<^verbatim>\<open>if let Some(pt) = table_entry_address(pd, i) { free_phys_page(pt); pd[i] = 0; }\<close>\<close>

definition free_and_clear :: "u64 \<Rightarrow> nat \<Rightarrow> 'a paging_scheme \<Rightarrow> 'a paging_scheme" where
  "free_and_clear table index s =
     (case table_entry_address (phys_mem s) table index of
        None \<Rightarrow> s
      | Some p \<Rightarrow> write_entry table index 0 (snd (free_phys_page p s)))"

definition reclaim_process_stack :: "u32 \<Rightarrow> 'a paging_scheme \<Rightarrow> 'a paging_scheme" where
  "reclaim_process_stack pid s =
     (case ensure_kernel_pml4 s of
        (None, s) \<Rightarrow> s
      | (Some kernel_pml4, s) \<Rightarrow>
          let stack_base = stack_window pid;
              stack_top = stack_base + KERNEL_STACK_STRIDE;
              mapped_base = stack_top - of_nat KERNEL_STACK_PAGES * PAGE_SIZE;
              s = snd (unmap_user_pages kernel_pml4 mapped_base KERNEL_STACK_PAGES s) in
          case table_entry_address (phys_mem s) kernel_pml4 (pml4_index stack_base) of
            None \<Rightarrow> s
          | Some pdpt_phys \<Rightarrow>
          case table_entry_address (phys_mem s) pdpt_phys (pdpt_index stack_base) of
            None \<Rightarrow> s
          | Some pd_phys \<Rightarrow> free_and_clear pd_phys (pd_index stack_base) s)"

definition reclaim_heap_tables :: "u64 \<Rightarrow> u32 \<Rightarrow> 'a paging_scheme \<Rightarrow> 'a paging_scheme" where
  "reclaim_heap_tables kernel_pml4 pid s =
     (let heap_base = heap_window pid in
      case table_entry_address (phys_mem s) kernel_pml4 (pml4_index heap_base) of
        None \<Rightarrow> s
      | Some pdpt_phys \<Rightarrow>
      case table_entry_address (phys_mem s) pdpt_phys (pdpt_index heap_base) of
        None \<Rightarrow> s
      | Some pd_phys \<Rightarrow>
          let start_pd = pd_index heap_base;
              end_pd = start_pd + unat (USER_HEAP_STRIDE div (2 * 1024 * 1024))
          in fold (free_and_clear pd_phys) [start_pd..<end_pd] s)"

definition reclaim_mmap_tables :: "u64 \<Rightarrow> u32 \<Rightarrow> 'a paging_scheme \<Rightarrow> 'a paging_scheme" where
  "reclaim_mmap_tables kernel_pml4 pid s =
     (let mmap_base = mmap_window pid in
      case table_entry_address (phys_mem s) kernel_pml4 (pml4_index mmap_base) of
        None \<Rightarrow> s
      | Some pdpt_phys \<Rightarrow>
          let pdpt_idx = pdpt_index mmap_base in
          case table_entry_address (phys_mem s) pdpt_phys pdpt_idx of
            None \<Rightarrow> s
          | Some pd_phys \<Rightarrow>
              let s = fold (free_entry pd_phys (\<lambda>pt_phys s. s)) [0..<PAGE_TABLE_ENTRIES] s;
                  s = snd (free_phys_page pd_phys s)
              in write_entry pdpt_phys pdpt_idx 0 s)"

definition reclaim_process_window_tables :: "u32 \<Rightarrow> 'a paging_scheme \<Rightarrow> 'a paging_scheme" where
  "reclaim_process_window_tables pid s =
     (if kernel_pml4_phys s = 0 then s
      else reclaim_mmap_tables (kernel_pml4_phys s) pid (reclaim_heap_tables (kernel_pml4_phys s) pid s))"


section \<open>Scratch pages\<close>

text \<open>
  While a private address space is built, only pages taken from the allocator change: any tree of
  tables that is clear of the pool keeps its walks.
\<close>

definition scratch_only :: "'a paging_scheme \<Rightarrow> 'a paging_scheme \<Rightarrow> bool" where
  "scratch_only s s' \<longleftrightarrow>
     allocator_wf (phys_alloc s') \<and> avail s' \<subseteq> avail s \<and>
     (\<forall>a. align_down_u64 a PAGE_SIZE \<notin> avail s \<longrightarrow> phys_mem s' a = phys_mem s a) \<and>
     kernel_pml4_phys s' = kernel_pml4_phys s \<and> cr3 s' = cr3 s \<and> paging.more s' = paging.more s"

lemma foreign_frame:
  assumes tr: "tree_ok m root A" and eq: "\<And>a. align_down_u64 a PAGE_SIZE \<notin> A \<Longrightarrow> m' a = m a"
    and q: "length q \<le> 3" "idx q"
  shows "walk m' root q = walk m root q" "j < 512 \<Longrightarrow> ent m' root q j = ent m root q j"
proof -
  have z: "m' (entry_addr u j) = m (entry_addr u j)"
    if "walk m root q' = Some u" "length q' \<le> 3" "idx q'" "j < 512" for q' u j
  proof -
    have "page_aligned u" using walk_aligned [OF tree_okD(1) [OF tr] that(1)] .
    with tree_okD(3) [OF tr that(2,3,1)] entry_addr_page [of u j] that(4) show ?thesis by (intro eq) simp
  qed
  show w: "walk m' root q = walk m root q"
  proof (rule walk_eqI)
    fix q' j
    assume pre: "prefix (q' @ [j]) q" and "walk m root q' \<noteq> None"
    then obtain u where u: "walk m root q' = Some u" by auto
    have "length q' \<le> 3" "idx q'" "j < 512" using pre q by (auto simp: prefix_def)
    then have "m' (entry_addr u j) = m (entry_addr u j)" by (rule z [OF u])
    with u show "table_entry_address m' (the (walk m root q')) j = table_entry_address m (the (walk m root q')) j"
      by (simp add: table_entry_address_def)
  qed
  show "ent m' root q j = ent m root q j" if "j < 512"
    using z [OF _ q that] by (cases "walk m root q") (simp_all add: ent_def w)
qed

lemma tree_ok_cong:
  assumes tr: "tree_ok m root A" and w: "\<And>p. length p \<le> 3 \<Longrightarrow> idx p \<Longrightarrow> walk m' root p = walk m root p"
    and A: "A' \<subseteq> A"
  shows "tree_ok m' root A'"
  unfolding tree_ok_def
proof (intro conjI allI impI ballI)
  show "page_aligned root" by (rule tree_okD(1) [OF tr])
next
  fix p q t
  assume "length p \<le> 3" "length q \<le> 3" "idx p" "idx q" "walk m' root p = Some t" "walk m' root q = Some t"
  then show "p = q" using tree_okD(2) [OF tr] w by metis
next
  fix p t
  assume "length p \<le> 3" "idx p" "walk m' root p = Some t"
  then show "t \<notin> A'" using tree_okD(3) [OF tr] w A by (metis subsetD)
next
  fix t
  assume "t \<in> A'"
  then show "page_aligned t" "t AND PAGE_ADDR_MASK = t" using tree_okD(4,5) [OF tr] A by auto
qed

lemma scratch_only_ok:
  assumes "paging_ok root s" "scratch_only s s'"
  shows "paging_ok root s'" "translate (phys_mem s') root = translate (phys_mem s) root"
    "tables (phys_mem s') root = tables (phys_mem s) root"
proof -
  have tr: "tree_ok (phys_mem s) root (avail s)" using assms(1) by (simp add: paging_ok_def)
  have eq: "phys_mem s' a = phys_mem s a" if "align_down_u64 a PAGE_SIZE \<notin> avail s" for a
    using assms(2) that by (simp add: scratch_only_def)
  note f = foreign_frame [OF tr eq]
  show "translate (phys_mem s') root = translate (phys_mem s) root"
    using f(2) by (simp add: translate_def fun_eq_iff)
  show "tables (phys_mem s') root = tables (phys_mem s) root" using f(1) by (intro tables_same_walk) simp
  have "tree_ok (phys_mem s') root (avail s')"
    by (rule tree_ok_cong [OF tr f(1)]) (use assms(2) in \<open>simp_all add: scratch_only_def\<close>)
  with assms(2) show "paging_ok root s'" by (simp add: paging_ok_def scratch_only_def)
qed

lemma scratch_only_refl: "allocator_wf (phys_alloc s) \<Longrightarrow> scratch_only s s"
  by (simp add: scratch_only_def)

lemma scratch_alloc:
  assumes "scratch_only s s1" "alloc_zeroed_page s1 = (r, s2)"
  shows "scratch_only s s2" "r = Some n \<Longrightarrow> n \<in> avail s \<and> n \<in> avail s1 \<and> avail s2 = avail s1 - {n} \<and>
    phys_mem s2 = zero_page n (phys_mem s1)"
proof -
  have al: "allocator_wf (phys_alloc s1)" using assms(1) by (simp add: scratch_only_def)
  have "scratch_only s s2 \<and> (\<forall>n. r = Some n \<longrightarrow> n \<in> avail s \<and> n \<in> avail s1 \<and> avail s2 = avail s1 - {n} \<and>
    phys_mem s2 = zero_page n (phys_mem s1))"
    using assms(2) al
  proof (cases rule: alloc_zeroed_page_cases)
    case none
    with assms(1) show ?thesis by simp
  next
    case (some k a)
    with assms(1) show ?thesis by (auto simp: scratch_only_def zero_page_def)
  qed
  then show "scratch_only s s2" "r = Some n \<Longrightarrow> n \<in> avail s \<and> n \<in> avail s1 \<and> avail s2 = avail s1 - {n} \<and>
    phys_mem s2 = zero_page n (phys_mem s1)" by blast+
qed

lemma scratch_write:
  assumes "scratch_only s s1" "n \<in> avail s" "\<And>a. align_down_u64 a PAGE_SIZE \<noteq> n \<Longrightarrow> m a = phys_mem s1 a"
  shows "scratch_only s (s1\<lparr>phys_mem := m\<rparr>)"
proof -
  have "m a = phys_mem s a" if "align_down_u64 a PAGE_SIZE \<notin> avail s" for a
    using that assms by (metis scratch_only_def)
  with assms(1) show ?thesis by (simp add: scratch_only_def)
qed

lemma scratch_free:
  assumes "scratch_only s s1" "n \<in> avail s" "n \<notin> avail s1"
  shows "scratch_only s (snd (free_phys_page n s1))" "avail (snd (free_phys_page n s1)) \<subseteq> insert n (avail s1)"
proof -
  have wf: "allocator_wf (phys_alloc s1)" using assms(1) by (simp add: scratch_only_def)
  obtain ok a where f: "free_page n (phys_alloc s1) = (ok, a)" by force
  have r: "allocator_wf a \<and> (avail_pages a = insert n (avail s1) \<or> avail_pages a = avail s1)"
    using phys.release_true [OF wf assms(3), of a] phys.release_false [of n "phys_alloc s1" a] f wf by (cases ok) auto
  with assms(1,2) f show "scratch_only s (snd (free_phys_page n s1))"
    "avail (snd (free_phys_page n s1)) \<subseteq> insert n (avail s1)"
    by (auto simp: scratch_only_def free_phys_page_def)
qed

section \<open>The private tables\<close>

lemma image_indices [simp]: "pml4_index APP_LOAD_MIN = 0" "pdpt_index APP_LOAD_MIN = 0" "image_pds = [1..<72]"
  by (simp_all add: image_pds_def pml4_index_def pdpt_index_def pd_index_def APP_LOAD_MIN_def APP_LOAD_MAX_def PAGE_SIZE_def)

lemma copy_page_entry:
  "page_aligned dst \<Longrightarrow> i < 512 \<Longrightarrow> copy_page src dst m (entry_addr dst i) = m (entry_addr src i)"
  using entry_addr_page [of dst i] by (simp add: copy_page_def) (simp add: entry_addr_def)

lemma copy_page_other: "align_down_u64 a PAGE_SIZE \<noteq> dst \<Longrightarrow> copy_page src dst m a = m a"
  by (simp add: copy_page_def)

lemma fold_clear:
  "fold (\<lambda>i. write_entry t i 0) ks s =
     s\<lparr>phys_mem := \<lambda>a. if \<exists>k \<in> set ks. a = entry_addr t k then 0 else phys_mem s a\<rparr>"
  by (induction ks arbitrary: s) (auto simp: write_entry_def fun_eq_iff)

text \<open>A clone holds the entries of its source and changes no other page.\<close>

definition cloned :: "'a paging_scheme \<Rightarrow> u64 \<Rightarrow> 'a paging_scheme \<Rightarrow> u64 \<Rightarrow> 'a paging_scheme \<Rightarrow> bool" where
  "cloned s src s1 n s2 \<longleftrightarrow> n \<in> avail s \<and> n \<in> avail s1 \<and> avail s2 = avail s1 - {n} \<and> page_aligned n \<and>
     (\<forall>i<512. phys_mem s2 (entry_addr n i) = phys_mem s (entry_addr src i)) \<and>
     (\<forall>a. align_down_u64 a PAGE_SIZE \<noteq> n \<longrightarrow> phys_mem s2 a = phys_mem s1 a)"


lemma clone_table_spec:
  assumes sc: "scratch_only s s1" and e: "clone_table src s1 = (r, s2)" and ok: "paging_ok K s"
    and src: "page_aligned src" "src \<notin> avail s"
  shows "scratch_only s s2" "r = None \<Longrightarrow> s2 = s1"
    "r = Some n \<Longrightarrow> cloned s src s1 n s2"
proof -
  obtain r0 u where a: "alloc_zeroed_page s1 = (r0, u)" by force
  note A = scratch_alloc [OF sc a]
  have al: "allocator_wf (phys_alloc s1)" using sc by (simp add: scratch_only_def)
  have "scratch_only s s2 \<and> (r = None \<longrightarrow> s2 = s1) \<and> (\<forall>n. r = Some n \<longrightarrow> cloned s src s1 n s2)"
  proof (cases r0)
    case None
    from a al have "u = s1" using None by (cases rule: alloc_zeroed_page_cases) auto
    with None e a sc show ?thesis by (simp add: clone_table_def)
  next
    case (Some n)
    note n = A(2) [OF Some]
    have pa: "page_aligned n" using tree_okD(4) ok n by (auto simp: paging_ok_def)
    have r: "r = Some n" and s2: "s2 = u\<lparr>phys_mem := copy_page src n (phys_mem u)\<rparr>"
      using e a Some by (simp_all add: clone_table_def)
    have "phys_mem s2 (entry_addr n i) = phys_mem s (entry_addr src i)" if "i < 512" for i
      using entry_addr_page [OF src(1) that] src(2) n sc that
      by (auto simp: s2 copy_page_entry [OF pa that] zero_page_def scratch_only_def)
    moreover have "scratch_only s s2" unfolding s2
      by (rule scratch_write [OF A(1), of n]) (use n copy_page_other in auto)
    moreover have "phys_mem s2 a = phys_mem s1 a" if "align_down_u64 a PAGE_SIZE \<noteq> n" for a
      using that n by (simp add: s2 copy_page_other zero_page_def)
    ultimately show ?thesis using r n pa by (simp add: s2 cloned_def)
  qed
  then show "scratch_only s s2" "r = None \<Longrightarrow> s2 = s1"
    "r = Some n \<Longrightarrow> cloned s src s1 n s2" by blast+
qed

abbreviation table_entry :: "u64 \<Rightarrow> u64" where
  "table_entry t \<equiv> (t AND PAGE_ADDR_MASK) OR PAGE_PRESENT OR PAGE_WRITABLE"

text \<open>The contents of the three new tables.\<close>

definition private_layout :: "(u64 \<Rightarrow> u64) \<Rightarrow> u64 \<Rightarrow> (u64 \<Rightarrow> u64) \<Rightarrow> u64 \<Rightarrow> u64 \<Rightarrow> u64 \<Rightarrow> bool" where
  "private_layout m K m' new pdpt pd \<longleftrightarrow>
     (\<exists>shared_pdpt shared_pd. table_entry_address m K 0 = Some shared_pdpt \<and>
        table_entry_address m shared_pdpt 0 = Some shared_pd \<and>
        (\<forall>i<512. m' (entry_addr new i) = (if i = 0 then table_entry pdpt else m (entry_addr K i))) \<and>
        (\<forall>i<512. m' (entry_addr pdpt i) = (if i = 0 then table_entry pd else m (entry_addr shared_pdpt i))) \<and>
        (\<forall>i<512. m' (entry_addr pd i) = (if i \<in> {1..<72} then 0 else m (entry_addr shared_pd i))))"

text \<open>Linking the three clones.\<close>

lemma link_layout:
  assumes pa: "page_aligned n1" "page_aligned n2" "page_aligned n3" and d: "distinct [n1, n2, n3]"
    and c: "\<And>i. i < 512 \<Longrightarrow> phys_mem t (entry_addr n1 i) = m (entry_addr K i)"
      "\<And>i. i < 512 \<Longrightarrow> phys_mem t (entry_addr n2 i) = m (entry_addr sp i)"
      "\<And>i. i < 512 \<Longrightarrow> phys_mem t (entry_addr n3 i) = m (entry_addr sd i)"
    and sh: "table_entry_address m K 0 = Some sp" "table_entry_address m sp 0 = Some sd"
    and s': "s' = write_entry n1 0 (table_entry n2) (write_entry n2 0 (table_entry n3)
      (fold (\<lambda>i. write_entry n3 i 0) [1..<72] t))"
  shows "private_layout m K (phys_mem s') n1 n2 n3"
    "\<And>a. align_down_u64 a PAGE_SIZE \<notin> {n1, n2, n3} \<Longrightarrow> phys_mem s' a = phys_mem t a"
proof -
  note inj = entry_addr_inj [OF pa(1) pa(2)] entry_addr_inj [OF pa(1) pa(3)] entry_addr_inj [OF pa(2) pa(3)]
    entry_addr_inj [OF pa(2) pa(1)] entry_addr_inj [OF pa(3) pa(1)] entry_addr_inj [OF pa(3) pa(2)]
    entry_addr_inj [OF pa(1) pa(1)] entry_addr_inj [OF pa(2) pa(2)] entry_addr_inj [OF pa(3) pa(3)]
  have m': "phys_mem s' = (\<lambda>a. if a = entry_addr n1 0 then table_entry n2 else if a = entry_addr n2 0 then table_entry n3
      else if \<exists>k \<in> set [1..<72]. a = entry_addr n3 k then 0 else phys_mem t a)"
    by (simp add: s' fold_clear write_entry_def fun_eq_iff)
  have "phys_mem s' (entry_addr n1 i) = (if i = 0 then table_entry n2 else m (entry_addr K i))"
    "phys_mem s' (entry_addr n2 i) = (if i = 0 then table_entry n3 else m (entry_addr sp i))"
    "phys_mem s' (entry_addr n3 i) = (if i \<in> {1..<72} then 0 else m (entry_addr sd i))" if "i < 512" for i
    using that d inj c [OF that] unfolding m' by auto
  with sh show "private_layout m K (phys_mem s') n1 n2 n3" by (auto simp: private_layout_def)
  show "phys_mem s' a = phys_mem t a" if "align_down_u64 a PAGE_SIZE \<notin> {n1, n2, n3}" for a
    using that entry_addr_page pa unfolding m' by auto
qed

lemma root_table:
  assumes "paging_ok K s"
  shows "page_aligned K" "K \<notin> avail s"
  using tree_okD(1) [of "phys_mem s" K "avail s"] tree_okD(3) [of "phys_mem s" K "avail s" "[]" K] assms
  by (simp_all add: paging_ok_def)

lemma sub_table:
  assumes "paging_ok K s" "walk (phys_mem s) K p = Some t" "length p \<le> 3" "idx p"
  shows "page_aligned t" "t \<notin> avail s"
  using walk_aligned [OF root_table(1) [OF assms(1)] assms(2)] tree_okD(3) [OF _ assms(3,4,2)] assms(1)
  by (auto simp: paging_ok_def)

lemma free_two:
  assumes "scratch_only s u" "n1 \<in> avail s" "n2 \<in> avail s" "n1 \<notin> avail u" "n2 \<notin> avail u" "n1 \<noteq> n2"
  shows "scratch_only s (snd (free_phys_page n1 (snd (free_phys_page n2 u))))"
  by (rule scratch_free(1)) (use scratch_free [OF assms(1,3,5)] assms(2,4,6) in auto)

lemma private_link:
  assumes ok: "paging_ok K s" and c: "cloned s K s n1 s1" "cloned s sp s1 n2 s2" "cloned s sd s2 n3 s3"
    and sc: "scratch_only s s3" and sh: "table_entry_address (phys_mem s) K 0 = Some sp"
      "table_entry_address (phys_mem s) sp 0 = Some sd"
    and s': "s' = write_entry n1 0 (table_entry n2) (write_entry n2 0 (table_entry n3)
      (fold (\<lambda>i. write_entry n3 i 0) [1..<72] s3))"
  shows "scratch_only s s'" "distinct [n1, n2, n3]" "{n1, n2, n3} \<subseteq> avail s - avail s'"
    "private_layout (phys_mem s) K (phys_mem s') n1 n2 n3"
proof -
  have pa: "page_aligned n1" "page_aligned n2" "page_aligned n3" and d: "distinct [n1, n2, n3]"
    using c by (auto simp: cloned_def)
  show "distinct [n1, n2, n3]" by (rule d)
  have ent: "phys_mem s3 (entry_addr n1 i) = phys_mem s (entry_addr K i)"
    "phys_mem s3 (entry_addr n2 i) = phys_mem s (entry_addr sp i)"
    "phys_mem s3 (entry_addr n3 i) = phys_mem s (entry_addr sd i)" if "i < 512" for i
    using c d entry_addr_page [OF pa(1) that] entry_addr_page [OF pa(2) that] that by (auto simp: cloned_def)
  note l = link_layout [OF pa d ent sh s']
  show "private_layout (phys_mem s) K (phys_mem s') n1 n2 n3" by (rule l(1))
  have A: "phys_alloc s' = phys_alloc s3" "kernel_pml4_phys s' = kernel_pml4_phys s3" "cr3 s' = cr3 s3"
    "paging.more s' = paging.more s3" by (simp_all add: s' fold_clear write_entry_def)
  show "{n1, n2, n3} \<subseteq> avail s - avail s'" using c by (auto simp: cloned_def A)
  have "phys_mem s' a = phys_mem s a" if "align_down_u64 a PAGE_SIZE \<notin> avail s" for a
  proof -
    have "align_down_u64 a PAGE_SIZE \<notin> {n1, n2, n3}" using that c by (auto simp: cloned_def)
    with l(2) sc that show ?thesis by (simp add: scratch_only_def)
  qed
  with sc show "scratch_only s s'" by (simp add: scratch_only_def A)
qed

lemma private_tables_spec:
  assumes ok: "paging_ok K s" and e: "private_tables K s = (r, s')"
  shows "scratch_only s s' \<and> (\<forall>new. r = Some new \<longrightarrow> (\<exists>pdpt pd. distinct [new, pdpt, pd] \<and>
      {new, pdpt, pd} \<subseteq> avail s - avail s' \<and> private_layout (phys_mem s) K (phys_mem s') new pdpt pd))"
proof -
  let ?m = "phys_mem s"
  have wf: "scratch_only s s" using ok scratch_only_refl by (auto simp: paging_ok_def)
  obtain r1 s1 where c1: "clone_table K s = (r1, s1)" by force
  note p1 = clone_table_spec [OF wf c1 ok root_table [OF ok]]
  show ?thesis
  proof (cases r1)
    case None
    with e c1 p1(1) show ?thesis by (simp add: private_tables_def)
  next
    case r1: (Some n1)
    note n1 = p1(3) [OF r1]
    have t1: "table_entry_address (phys_mem s1) n1 0 = table_entry_address ?m K 0"
      using n1 by (simp add: cloned_def table_entry_address_def)
    show ?thesis
    proof (cases "table_entry_address ?m K 0")
      case None
      with e c1 r1 t1 scratch_free(1) [OF p1(1)] n1 show ?thesis by (simp add: private_tables_def cloned_def)
    next
      case sp: (Some sp)
      obtain r2 s2 where c2: "clone_table sp s1 = (r2, s2)" by force
      have w1: "walk ?m K [0] = Some sp" using sp by simp
      note p2 = clone_table_spec [OF p1(1) c2 ok sub_table [OF ok w1], simplified]
      show ?thesis
      proof (cases r2)
        case None
        with e c1 r1 t1 sp c2 p2(2) scratch_free(1) [OF p1(1)] n1 show ?thesis by (simp add: private_tables_def cloned_def)
      next
        case r2: (Some n2)
        note n2 = p2(3) [OF r2]
        have sc2: "scratch_only s s2" by (rule p2(1))
        have t2: "table_entry_address (phys_mem s2) n2 0 = table_entry_address ?m sp 0"
          using n2 by (simp add: cloned_def table_entry_address_def)
        have f2: "scratch_only s (snd (free_phys_page n1 (snd (free_phys_page n2 s2))))"
          using free_two [OF sc2, of n1 n2] n1 n2 by (auto simp: cloned_def)
        show ?thesis
        proof (cases "table_entry_address ?m sp 0")
          case None
          with e c1 r1 t1 sp c2 r2 t2 f2 show ?thesis by (simp add: private_tables_def)
        next
          case sd: (Some sd)
          have w2: "walk ?m K [0, 0] = Some sd" using sp sd by simp
          obtain r3 s3 where c3: "clone_table sd s2 = (r3, s3)" by force
          note p3 = clone_table_spec [OF sc2 c3 ok sub_table [OF ok w2], simplified]
          show ?thesis
          proof (cases r3)
            case None
            with e c1 r1 t1 sp c2 r2 t2 sd c3 p3(2) f2 show ?thesis by (simp add: private_tables_def)
          next
            case r3: (Some n3)
            have r: "r = Some n1" and s': "s' = write_entry n1 0 (table_entry n2) (write_entry n2 0 (table_entry n3)
                (fold (\<lambda>i. write_entry n3 i 0) [1..<72] s3))"
              using e c1 r1 t1 sp c2 r2 t2 sd c3 r3 by (simp_all add: private_tables_def Let_def)
            note l = private_link [OF ok n1 n2 p3(3) [OF r3] p3(1) sp sd s']
            show ?thesis using l r by blast
          qed
        qed
      qed
    qed
  qed
qed

section \<open>Translation in a private address space\<close>

definition in_image_window :: "u64 \<Rightarrow> bool" where
  "in_image_window v \<longleftrightarrow> pml4_index v = pml4_index APP_LOAD_MIN \<and> pdpt_index v = pdpt_index APP_LOAD_MIN \<and>
     pd_index v \<in> set image_pds"

lemma window_nat:
  fixes x :: nat
  assumes "x < 2 ^ 48"
  shows "x div 2 ^ 39 mod 512 = 0 \<and> x div 2 ^ 30 mod 512 = 0 \<and> x div 2 ^ 21 mod 512 \<in> {1..<72} \<longleftrightarrow>
    0x200000 \<le> x \<and> x < 0x9000000" (is "?a \<and> ?b \<and> ?c \<longleftrightarrow> ?r")
proof
  assume l: "?a \<and> ?b \<and> ?c"
  have "x div 2 ^ 39 < 512" using assms by (simp add: less_mult_imp_div_less)
  with l have "x div 2 ^ 39 = 0" by simp
  then have "x < 2 ^ 39" by (simp add: div_eq_0_iff)
  then have "x div 2 ^ 30 < 512" by (simp add: less_mult_imp_div_less)
  with l have "x div 2 ^ 30 = 0" by simp
  then have "x < 2 ^ 30" by (simp add: div_eq_0_iff)
  then have "x div 2 ^ 21 < 512" by (simp add: less_mult_imp_div_less)
  with l have "1 \<le> x div 2 ^ 21" "x div 2 ^ 21 < 72" by simp_all
  then show ?r by (simp_all add: div_less_iff_less_mult less_eq_div_iff_mult_less_eq)
next
  assume r: ?r
  then have "x div 2 ^ 21 < 72" "1 \<le> x div 2 ^ 21"
    by (simp_all add: div_less_iff_less_mult less_eq_div_iff_mult_less_eq)
  with r show "?a \<and> ?b \<and> ?c" by simp
qed

lemma in_image_window_range:
  assumes "unat v < 2 ^ 48"
  shows "in_image_window v \<longleftrightarrow> APP_LOAD_MIN \<le> v \<and> v < APP_LOAD_MAX"
proof -
  have i: "pml4_index v = unat v div 2 ^ 39 mod 512" "pdpt_index v = unat v div 2 ^ 30 mod 512"
    "pd_index v = unat v div 2 ^ 21 mod 512" by (simp_all only: pml4_index_def pdpt_index_def pd_index_def drop_mod)
  have "in_image_window v \<longleftrightarrow> 0x200000 \<le> unat v \<and> unat v < 0x9000000"
    unfolding in_image_window_def image_indices i set_upt by (rule window_nat [OF assms])
  then show ?thesis by (simp add: word_le_nat_alt word_less_nat_alt APP_LOAD_MIN_def APP_LOAD_MAX_def)
qed

text \<open>What \<open>private_tables\<close> leaves behind.\<close>

definition private_space :: "'a paging_scheme \<Rightarrow> u64 \<Rightarrow> 'a paging_scheme \<Rightarrow> u64 \<Rightarrow> u64 \<Rightarrow> u64 \<Rightarrow> bool" where
  "private_space s K s' new pdpt pd \<longleftrightarrow> paging_ok K s \<and> scratch_only s s' \<and> distinct [new, pdpt, pd] \<and>
     {new, pdpt, pd} \<subseteq> avail s - avail s' \<and> private_layout (phys_mem s) K (phys_mem s') new pdpt pd"

lemma private_subtree:
  assumes ps: "private_space s K s' new pdpt pd"
    and w: "walk (phys_mem s) K p = Some t" "length (p @ q) \<le> 3" "idx (p @ q)"
  shows "walk (phys_mem s') t q = walk (phys_mem s) t q"
    "j < 512 \<Longrightarrow> phys_mem s' (entry_addr t j) = phys_mem s (entry_addr t j)"
proof -
  have tr: "tree_ok (phys_mem s) K (avail s)" using ps by (simp add: private_space_def paging_ok_def)
  have "phys_mem s' a = phys_mem s a" if "align_down_u64 a PAGE_SIZE \<notin> avail s" for a
    using ps that by (simp add: private_space_def scratch_only_def)
  note f = foreign_frame [OF tr this]
  have p: "length p \<le> 3" "idx p" using w by simp_all
  have "walk (phys_mem s') K (p @ q) = walk (phys_mem s) K (p @ q)" "walk (phys_mem s') K p = Some t"
    using f(1) [OF _ w(2,3)] f(1) [OF _ p] w(1) by simp_all
  with w(1) show "walk (phys_mem s') t q = walk (phys_mem s) t q" by (simp add: walk_append)
  show "phys_mem s' (entry_addr t j) = phys_mem s (entry_addr t j)" if "j < 512"
    using f(2) [OF _ p that] \<open>walk (phys_mem s') K p = Some t\<close> w(1) by (simp add: ent_def)
qed

text \<open>The walks of the private root.\<close>

definition private_walk :: "(nat list \<Rightarrow> u64 option) \<Rightarrow> u64 \<Rightarrow> u64 \<Rightarrow> u64 \<Rightarrow> nat list \<Rightarrow> u64 option" where
  "private_walk W new pdpt pd q =
     (case q of [] \<Rightarrow> Some new
      | i # q' \<Rightarrow> if i \<noteq> 0 then W q else
        case q' of [] \<Rightarrow> Some pdpt
        | j # q'' \<Rightarrow> if j \<noteq> 0 then W q else
          case q'' of [] \<Rightarrow> Some pd
          | k # r \<Rightarrow> if k \<in> {1..<72} then None else W q)"

lemma tea_entry: "m (entry_addr t i) = table_entry u \<Longrightarrow> u AND PAGE_ADDR_MASK = u \<Longrightarrow> table_entry_address m t i = Some u"
  using entry_bits [of u] by (simp add: table_entry_address_def)

lemma tea_cong: "m (entry_addr t i) = m' (entry_addr t' i) \<Longrightarrow> table_entry_address m t i = table_entry_address m' t' i"
  by (simp add: table_entry_address_def)

lemma private_walk_eq:
  assumes ps: "private_space s K s' new pdpt pd" and q: "length q \<le> 3" "idx q"
  shows "walk (phys_mem s') new q = private_walk (walk (phys_mem s) K) new pdpt pd q"
proof -
  let ?m = "phys_mem s" and ?m' = "phys_mem s'"
  have tr: "tree_ok ?m K (avail s)" using ps by (simp add: private_space_def paging_ok_def)
  have mk: "pdpt AND PAGE_ADDR_MASK = pdpt" "pd AND PAGE_ADDR_MASK = pd"
    using tree_okD(5) [OF tr] ps by (auto simp: private_space_def)
  obtain sp sd where sh: "table_entry_address ?m K 0 = Some sp" "table_entry_address ?m sp 0 = Some sd"
    and l: "\<And>i. i < 512 \<Longrightarrow> ?m' (entry_addr new i) = (if i = 0 then table_entry pdpt else ?m (entry_addr K i))"
      "\<And>i. i < 512 \<Longrightarrow> ?m' (entry_addr pdpt i) = (if i = 0 then table_entry pd else ?m (entry_addr sp i))"
      "\<And>i. i < 512 \<Longrightarrow> ?m' (entry_addr pd i) = (if i \<in> {1..<72} then 0 else ?m (entry_addr sd i))"
    using ps by (auto simp: private_space_def private_layout_def)
  have t0: "table_entry_address ?m' new 0 = Some pdpt" "table_entry_address ?m' pdpt 0 = Some pd"
    using l(1,2) [of 0] mk by (auto intro: tea_entry)
  have ti: "table_entry_address ?m' new i = table_entry_address ?m K i"
    "table_entry_address ?m' pdpt i = table_entry_address ?m sp i" if "i < 512" "i \<noteq> 0" for i
    using l(1,2) [OF that(1)] that by (auto intro: tea_cong)
  have td: "table_entry_address ?m' pd k = (if k \<in> {1..<72} then None else table_entry_address ?m sd k)" if "k < 512" for k
    using l(3) [OF that] by (auto simp: table_entry_address_def)
  have go: "walk ?m' u r = walk ?m u r"
    if "walk ?m K p = Some t" "table_entry_address ?m t i = Some u" "length p + length r \<le> 2" "idx p" "i < 512" "idx r" for p t i u r
    using private_subtree(1) [OF ps, of "p @ [i]" u r] that by (simp add: walk_snoc)
  have sub: "(case table_entry_address ?m t i of None \<Rightarrow> None | Some u \<Rightarrow> walk ?m' u r) =
      (case table_entry_address ?m t i of None \<Rightarrow> None | Some u \<Rightarrow> walk ?m u r)"
    if "walk ?m K p = Some t" "length p + length r \<le> 2" "idx p" "i < 512" "idx r" for p t i r
    using go [OF that(1) _ that(2-5)] by (auto split: option.splits)
  have w: "walk ?m K [0] = Some sp" "walk ?m K [0, 0] = Some sd" using sh by simp_all
  show ?thesis
    using q sub [of "[]" K] sub [OF w(1)] sub [OF w(2)]
    by (auto simp: private_walk_def t0 ti td sh split: list.splits)
qed

lemma private_walk_cases:
  assumes "private_walk W new pdpt pd q = Some t"
  shows "(q, t) \<in> {([], new), ([0], pdpt), ([0, 0], pd)} \<or> W q = Some t"
  using assms by (auto simp: private_walk_def split: list.splits if_splits)

lemma private_tree_ok:
  assumes ps: "private_space s K s' new pdpt pd"
  shows "paging_ok new s'"
proof -
  let ?m = "phys_mem s" and ?m' = "phys_mem s'"
  have tr: "tree_ok ?m K (avail s)" and al: "allocator_wf (phys_alloc s')" and sub: "avail s' \<subseteq> avail s"
    using ps by (simp_all add: private_space_def paging_ok_def scratch_only_def)
  have fr: "{new, pdpt, pd} \<subseteq> avail s - avail s'" "distinct [new, pdpt, pd]" using ps by (simp_all add: private_space_def)
  have W: "(q, t) \<in> {([], new), ([0], pdpt), ([0, 0], pd)} \<or> walk ?m K q = Some t \<and> t \<notin> avail s"
    if "length q \<le> 3" "idx q" "walk ?m' new q = Some t" for q t
    using private_walk_cases [of "walk ?m K"] private_walk_eq [OF ps that(1,2)] that tree_okD(3) [OF tr that(1,2)] by metis
  have "tree_ok ?m' new (avail s')" unfolding tree_ok_def
  proof (intro conjI allI impI ballI)
    show "page_aligned new" using tree_okD(4) [OF tr] fr by blast
  next
    fix p q t
    assume a: "length p \<le> 3" "length q \<le> 3" "idx p" "idx q" "walk ?m' new p = Some t" "walk ?m' new q = Some t"
    show "p = q"
      using W [OF a(1,3,5)] W [OF a(2,4,6)] fr tree_okD(2) [OF tr a(1-4), of t] by auto
  next
    fix p t
    assume "length p \<le> 3" "idx p" "walk ?m' new p = Some t"
    from W [OF this] fr sub show "t \<notin> avail s'" by auto
  next
    fix t
    assume "t \<in> avail s'"
    then show "page_aligned t" "t AND PAGE_ADDR_MASK = t" using tree_okD(4,5) [OF tr] sub by auto
  qed
  with al show ?thesis by (simp add: paging_ok_def)
qed

lemma private_translate:
  assumes ps: "private_space s K s' new pdpt pd"
  shows "translate (phys_mem s') new v = (if in_image_window v then None else translate (phys_mem s) K v)"
proof -
  let ?m = "phys_mem s" and ?m' = "phys_mem s'"
  have w: "walk ?m' new (vpath v) = private_walk (walk ?m K) new pdpt pd (vpath v)"
    by (rule private_walk_eq [OF ps]) simp_all
  show ?thesis
  proof (cases "in_image_window v")
    case True
    then have "private_walk (walk ?m K) new pdpt pd (vpath v) = None"
      by (simp add: private_walk_def vpath_def in_image_window_def)
    with True w show ?thesis by (simp add: translate_def ent_def)
  next
    case False
    then have w': "walk ?m' new (vpath v) = walk ?m K (vpath v)"
      unfolding w by (auto simp: private_walk_def vpath_def in_image_window_def simp del: walk.simps)
    have "ent ?m' new (vpath v) (pt_index v) = ent ?m K (vpath v) (pt_index v)"
      using private_subtree(2) [OF ps, of "vpath v" _ "[]" "pt_index v"] w'
      by (cases "walk ?m K (vpath v)") (simp_all add: ent_def)
    with False show ?thesis by (simp add: translate_def)
  qed
qed

text \<open>The window entries are hung into the kernel's tables before the clone.\<close>

lemma create_process_address_space_spec:
  assumes ok: "paging_ok (kernel_pml4_phys s) s" and K: "kernel_pml4_phys s \<noteq> 0"
    and e: "create_process_address_space pid s = (r, s')"
  shows "paging_ok (kernel_pml4_phys s) s' \<and> avail s' \<subseteq> avail s \<and>
    translate (phys_mem s') (kernel_pml4_phys s) = translate (phys_mem s) (kernel_pml4_phys s) \<and>
    (\<forall>new. r = Some new \<longrightarrow> new \<in> avail s - avail s' \<and> paging_ok new s' \<and>
       (\<forall>v. translate (phys_mem s') new v =
          (if in_image_window v then None else translate (phys_mem s) (kernel_pml4_phys s) v)))"
  (is "?goal s' r")
  supply walk.simps [simp del]
proof -
  let ?K = "kernel_pml4_phys s"
  let ?g = "\<lambda>s'. tables_grown ?K s s' \<and> translate (phys_mem s') ?K = translate (phys_mem s) ?K"
  have fail: "?goal u None" if "?g u" for u using tables_grownD(1,2) [of ?K s u] that by simp
  have step: "?g u'" if "?g u" "ensure_next_table ?K i u = (q, u')" "i < 512" for u u' q i
  proof -
    have "paging_ok ?K u" using tables_grownD(1) that(1) by blast
    note sp = ensure_next_table_spec [OF this walk.simps(1) _ _ that(3,2), simplified]
    show ?thesis using sp(1,2) that(1) tables_grown_trans [of ?K s u u'] by simp
  qed
  have g0: "?g s" using tables_grown_refl [OF ok] by simp
  obtain r1 s1 where e1: "ensure_next_table ?K (pml4_index (heap_window pid)) s = (r1, s1)" by force
  obtain r2 s2 where e2: "ensure_next_table ?K (pml4_index (mmap_window pid)) s1 = (r2, s2)" by force
  obtain r3 s3 where e3: "ensure_next_table ?K (pml4_index (stack_window pid)) s2 = (r3, s3)" by force
  note g1 = step [OF g0 e1 vpath_idx(4)]
  note g2 = step [OF g1 e2 vpath_idx(4)]
  note g3 = step [OF g2 e3 vpath_idx(4)]
  have run: "create_process_address_space pid s =
      (if r1 = None then (None, s1) else if r2 = None then (None, s2) else if r3 = None then (None, s3)
       else private_tables ?K s3)"
    using K e1 e2 e3 by (simp add: create_process_address_space_def ensure_kernel_pml4_def split: option.splits)
  show ?thesis
  proof (cases "r1 = None \<or> r2 = None \<or> r3 = None")
    case True
    with run e fail [OF g1] fail [OF g2] fail [OF g3] show ?thesis by (auto split: if_splits)
  next
    case False
    with run e have pt: "private_tables ?K s3 = (r, s')" by auto
    have ok3: "paging_ok ?K s3" using tables_grownD(1) g3 by blast
    note p = private_tables_spec [OF ok3 pt]
    note so = scratch_only_ok [OF ok3 conjunct1 [OF p]]
    have av: "avail s3 \<subseteq> avail s" "avail s' \<subseteq> avail s3"
      using tables_grownD(2) g3 p by (blast, simp add: scratch_only_def)
    have "new \<in> avail s - avail s' \<and> paging_ok new s' \<and>
       (\<forall>v. translate (phys_mem s') new v = (if in_image_window v then None else translate (phys_mem s) ?K v))"
      if r: "r = Some new" for new
    proof -
      from p r obtain pdpt pd where ps: "private_space s3 ?K s' new pdpt pd" using ok3 by (auto simp: private_space_def)
      then have "new \<in> avail s - avail s'" using av by (auto simp: private_space_def)
      with private_tree_ok [OF ps] private_translate [OF ps] g3 show ?thesis by simp
    qed
    with so g3 av show ?thesis by auto
  qed
qed

section \<open>Properties\<close>

text \<open>
  C17. A private address space is isolated in the program image window and identical to the
  kernel's elsewhere.  When \<^verbatim>\<open>create_process_address_space\<close> succeeds, every canonical low
  address in \<^verbatim>\<open>APP_LOAD_MIN..APP_LOAD_MAX\<close> is unmapped under the new PML4 and every other
  address translates as under the kernel's PML4; the new tables form a tree of their own.
  Whether it succeeds or runs out of pages, the kernel's own translations are unchanged.
\<close>

theorem create_process_address_space_isolated:
  assumes "paging_ok (kernel_pml4_phys s) s" "kernel_pml4_phys s \<noteq> 0"
    and "create_process_address_space pid s = (r, s')"
  shows "paging_ok (kernel_pml4_phys s) s' \<and> avail s' \<subseteq> avail s \<and>
    translate (phys_mem s') (kernel_pml4_phys s) = translate (phys_mem s) (kernel_pml4_phys s) \<and>
    (\<forall>new. r = Some new \<longrightarrow> new \<in> avail s - avail s' \<and> paging_ok new s' \<and>
       (\<forall>v. unat v < 2 ^ 48 \<longrightarrow> APP_LOAD_MIN \<le> v \<longrightarrow> v < APP_LOAD_MAX \<longrightarrow> translate (phys_mem s') new v = None) \<and>
       (\<forall>v. \<not> in_image_window v \<longrightarrow>
          translate (phys_mem s') new v = translate (phys_mem s') (kernel_pml4_phys s) v))"
  using create_process_address_space_spec [OF assms] in_image_window_range by auto

definition demo_tables :: "u64 \<Rightarrow> u64" where
  "demo_tables = (\<lambda>a. 0)(0x1000 := 0x2003, 0x2000 := 0x3003)"

definition demo_kernel :: paging where
  "demo_kernel = demo_paging\<lparr>phys_mem := demo_tables\<rparr>"

definition demo_pool_at :: "nat \<Rightarrow> phys_page_allocator" where
  "demo_pool_at k = allocator_empty\<lparr>ranges := (replicate 32 page_range_empty)
     [0 := \<lparr>rg_next = 0x9000000 + 4096 * of_nat k, rg_end = 0x9010000\<rparr>],
     range_count := 1, total_pages := 16, allocated_pages := of_nat k\<rparr>"

lemma demo_pool_at_0: "demo_pool = demo_pool_at 0"
  by (simp add: demo_pool_eq demo_pool_at_def allocator_empty_def)

lemma demo_alloc_at:
  assumes "k < 16"
  shows "alloc_zeroed_page \<lparr>phys_mem = m, phys_alloc = demo_pool_at k, kernel_pml4_phys = K, cr3 = c\<rparr> =
    (Some (0x9000000 + 4096 * of_nat k),
     \<lparr>phys_mem = zero_page (0x9000000 + 4096 * of_nat k) m, phys_alloc = demo_pool_at (k + 1), kernel_pml4_phys = K, cr3 = c\<rparr>)"
proof -
  have "unat (0x9000000 + 4096 * of_nat k :: u64) = 0x9000000 + 4096 * k"
    using assms by (simp add: unat_word_ariths unat_of_nat)
  then have "0x9000000 + 4096 * of_nat k < (0x9010000 :: u64)" using assms by (simp add: word_less_nat_alt)
  then show ?thesis
    by (simp add: alloc_zeroed_page_def demo_pool_at_def alloc_page_def allocator_empty_def alloc_consts Let_def algebra_simps)
qed

lemma demo_create_runs: "fst (create_process_address_space 1 demo_kernel) \<noteq> None"
  by (simp add: create_process_address_space_def ensure_kernel_pml4_def private_tables_def clone_table_def copy_page_def
      demo_kernel_def demo_tables_def demo_paging_def demo_pool_at_0 demo_alloc_at
      ensure_next_table_def write_entry_def zero_page_def align_down_u64_def table_entry_address_def
      heap_window_def mmap_window_def stack_window_def USER_HEAP_BASE_def USER_HEAP_STRIDE_def USER_MMAP_BASE_def
      USER_MMAP_STRIDE_def KERNEL_STACK_BASE_def KERNEL_STACK_STRIDE_def
      pml4_index_def pdpt_index_def pd_index_def pt_index_def entry_addr_def paging_consts PAGE_SIZE_def
      APP_LOAD_MIN_def Let_def fold_clear del: image_indices)

lemma demo_tea:
  assumes "page_aligned t" "i < 512"
  shows "table_entry_address demo_tables t i =
    (if i = 0 \<and> t = 0x1000 then Some 0x2000 else if i = 0 \<and> t = 0x2000 then Some 0x3000 else None)"
proof -
  have al: "page_aligned 0x1000" "page_aligned 0x2000" by (simp_all add: page_aligned_def PAGE_SIZE_def)
  have e: "entry_addr t i = 0x1000 \<longleftrightarrow> t = 0x1000 \<and> i = 0" "entry_addr t i = 0x2000 \<longleftrightarrow> t = 0x2000 \<and> i = 0"
    using entry_addr_inj [OF assms(1) al(1) assms(2), of 0] entry_addr_inj [OF assms(1) al(2) assms(2), of 0]
    by (simp_all add: entry_addr_def)
  show ?thesis using e by (auto simp: table_entry_address_def demo_tables_def paging_consts)
qed

lemma demo_walk:
  assumes "walk demo_tables 0x1000 q = Some t" "idx q"
  shows "(q, t) \<in> {([], 0x1000), ([0], 0x2000), ([0, 0], 0x3000)}"
proof -
  have al: "page_aligned 0x1000" "page_aligned 0x2000" "page_aligned 0x3000" by (simp_all add: page_aligned_def PAGE_SIZE_def)
  show ?thesis
  proof (cases q)
    case (Cons i q1)
    with assms al have w: "i = 0" "walk demo_tables 0x2000 q1 = Some t" "idx q1"
      by (auto simp: demo_tea split: option.splits if_splits)
    show ?thesis
    proof (cases q1)
      case Nil
      with Cons w show ?thesis by simp
    next
      case (Cons j q2)
      with w al have w2: "j = 0" "walk demo_tables 0x3000 q2 = Some t" "idx q2"
        by (auto simp: demo_tea split: option.splits if_splits)
      then have "q2 = []" using al by (cases q2) (auto simp: demo_tea split: option.splits if_splits)
      with \<open>q = i # q1\<close> Cons w w2 show ?thesis by simp
    qed
  qed (use assms in simp)
qed

lemma demo_kernel_ok: "paging_ok 0x1000 demo_kernel"
proof -
  have "tree_ok demo_tables 0x1000 (avail_pages demo_pool)"
    unfolding tree_ok_def
  proof (intro conjI allI impI ballI)
    fix p q t
    assume "idx p" "walk demo_tables 0x1000 p = Some t"
    note p = demo_walk [OF this(2,1)]
    then show "t \<notin> avail_pages demo_pool" using demo_pool_facts(2) [of t] by auto
    assume "idx q" "walk demo_tables 0x1000 q = Some t"
    from p demo_walk [OF this(2,1)] show "p = q" by auto
  next
    fix t assume "t \<in> avail_pages demo_pool"
    with demo_pool_facts avail_aligned [OF demo_pool_facts(1)] show "page_aligned t" "t AND PAGE_ADDR_MASK = t"
      by (force intro: masked_page)+
  qed (simp add: page_aligned_def PAGE_SIZE_def)
  with demo_pool_facts(1) show ?thesis by (simp add: paging_ok_def demo_kernel_def demo_paging_def)
qed

theorem create_process_address_space_isolated_witness:
  "\<exists>new s'. create_process_address_space 1 demo_kernel = (Some new, s') \<and> paging_ok new s' \<and>
     translate (phys_mem s') new 0x400000 = None"
proof -
  obtain new where n: "fst (create_process_address_space 1 demo_kernel) = Some new" using demo_create_runs by auto
  let ?s = "snd (create_process_address_space 1 demo_kernel)"
  have run: "create_process_address_space 1 demo_kernel = (Some new, ?s)" using n by (simp add: prod_eq_iff)
  have K: "kernel_pml4_phys demo_kernel = 0x1000" by (simp add: demo_kernel_def demo_paging_def)
  have "paging_ok new ?s \<and> translate (phys_mem ?s) new 0x400000 = None"
    using create_process_address_space_isolated [of demo_kernel, unfolded K, OF demo_kernel_ok _ run]
    by (simp add: APP_LOAD_MIN_def APP_LOAD_MAX_def)
  with run show ?thesis by blast
qed

section \<open>The windows of a process\<close>

lemmas window_consts = USER_HEAP_BASE_def USER_HEAP_STRIDE_def USER_MMAP_BASE_def USER_MMAP_STRIDE_def
  KERNEL_STACK_BASE_def KERNEL_STACK_STRIDE_def

definition USER_MMAP_SIZE :: u64 where "USER_MMAP_SIZE = 768 * 1024 * 1024"

definition heap_range :: "u32 \<Rightarrow> nat set" where
  "heap_range pid = {unat (heap_window pid) ..< unat (heap_window pid) + unat USER_HEAP_STRIDE}"

definition mmap_range :: "u32 \<Rightarrow> nat set" where
  "mmap_range pid = {unat (mmap_window pid) ..< unat (mmap_window pid) + unat USER_MMAP_SIZE}"

definition stack_range :: "u32 \<Rightarrow> nat set" where
  "stack_range pid = {unat (stack_window pid) ..< unat (stack_window pid) + unat KERNEL_STACK_STRIDE}"

lemma window_nats:
  assumes "unat pid < 2 ^ 16"
  shows "unat (heap_window pid) = 0xFFFF900000000000 + unat pid * 2 ^ 28"
    "unat (mmap_window pid) = 0xFFFFA00000000000 + unat pid * 2 ^ 30"
    "unat (stack_window pid) = 0xFFFFB00000000000 + unat pid * 2 ^ 21"
proof -
  have p: "unat (ucast pid :: u64) = unat pid" by (rule unat_ucast_up) simp
  show "unat (heap_window pid) = 0xFFFF900000000000 + unat pid * 2 ^ 28"
    "unat (mmap_window pid) = 0xFFFFA00000000000 + unat pid * 2 ^ 30"
    "unat (stack_window pid) = 0xFFFFB00000000000 + unat pid * 2 ^ 21"
    using assms by (simp_all add: heap_window_def mmap_window_def stack_window_def window_consts unat_word_ariths p)
qed

text \<open>
  Below process number 16384 the windows the kernel gives to processes never meet: the heap
  windows of two processes are disjoint, and so are their mmap windows and their kernel stacks,
  and no window of one kind meets a window of another kind, of the same or of another process.
\<close>

theorem process_windows_disjoint:
  assumes "p < 16384" "q < 16384"
  shows "(p \<noteq> q \<longrightarrow> heap_range p \<inter> heap_range q = {} \<and> mmap_range p \<inter> mmap_range q = {} \<and>
      stack_range p \<inter> stack_range q = {}) \<and>
    heap_range p \<inter> mmap_range q = {} \<and> heap_range p \<inter> stack_range q = {} \<and> mmap_range p \<inter> stack_range q = {}"
proof -
  have b: "unat p < 16384" "unat q < 16384" using assms by (simp_all add: word_less_nat_alt)
  have ne: "p \<noteq> q \<longleftrightarrow> unat p < unat q \<or> unat q < unat p" by (metis linorder_neq_iff word_unat_eq_iff)
  note w = window_nats [of p] window_nats [of q]
  show ?thesis
    unfolding ne heap_range_def mmap_range_def stack_range_def
    using b w by (auto simp: USER_MMAP_SIZE_def USER_HEAP_STRIDE_def KERNEL_STACK_STRIDE_def)
qed

theorem process_windows_disjoint_witness:
  "heap_range 1 \<inter> heap_range 2 = {} \<and> mmap_range 1 \<inter> stack_range 2 = {}"
  using process_windows_disjoint [of 1 2] by simp

text \<open>
  Process numbers are never reused, and from number 16384 on the windows do meet: the mmap
  window of process 16384 covers the kernel stacks of the processes 0 to 383.
\<close>

theorem process_windows_overlap:
  assumes "pid < 384"
  shows "stack_range pid \<subseteq> mmap_range 16384"
proof -
  have b: "unat pid < 384" using assms by (simp add: word_less_nat_alt)
  note w = window_nats [of pid] window_nats [of 16384]
  show ?thesis unfolding mmap_range_def stack_range_def
    using b w by (auto simp: USER_MMAP_SIZE_def KERNEL_STACK_STRIDE_def)
qed

theorem process_windows_overlap_witness: "stack_range 1 \<subseteq> mmap_range 16384"
  by (rule process_windows_overlap) simp

end
