(* ===== verification/Console.thy ===== *)
theory Console
  imports Byte_Strings
begin

text \<open>
  The text console of \<^verbatim>\<open>kernel/src/main.rs\<close>: a grid of cells mirrored to VGA text memory,
  to the framebuffer and to the serial line.  The cell array has 128 by 48 bytes whatever the
  geometry; \<open>console_wf\<close> bounds the geometry and the cursor, so that every access is
  inside the array (no index panic), and each operation keeps it.  The visible screen is a
  list of rows that a line feed on the last row shifts up, and the serial line receives the
  written text with the console's line breaks.

  The VGA memory, the framebuffer and the bytes sent on the serial line are fields of the
  console state; the busy wait of the UART before each byte is not modelled.
\<close>

definition VGA_WIDTH :: nat where "VGA_WIDTH = 80"
definition VGA_HEIGHT :: nat where "VGA_HEIGHT = 25"
definition VGA_COLOR :: u8 where "VGA_COLOR = 0x0A"
definition TEXT_COLS_MAX :: nat where "TEXT_COLS_MAX = 128"
definition TEXT_ROWS_MAX :: nat where "TEXT_ROWS_MAX = 48"
definition FONT_WIDTH :: nat where "FONT_WIDTH = 8"
definition FONT_HEIGHT :: nat where "FONT_HEIGHT = 16"
definition FB_FOREGROUND :: u32 where "FB_FOREGROUND = 0x0000FF00"
definition FB_BACKGROUND :: u32 where "FB_BACKGROUND = 0x00000000"

record console =
  row :: nat
  col :: nat
  rows :: nat
  cols :: nat
  cells :: bytes
  framebuffer_base :: u64
  framebuffer_size :: nat
  framebuffer_width :: nat
  framebuffer_height :: nat
  pixels_per_scan_line :: nat
  pixel_format :: u32
  vga :: "nat \<Rightarrow> u8"
  pixels :: "nat \<Rightarrow> u32"
  serial :: bytes

definition clamp_text_cols :: "nat \<Rightarrow> nat" where
  "clamp_text_cols v = (if v = 0 then VGA_WIDTH else if v > TEXT_COLS_MAX then TEXT_COLS_MAX else v)"

definition clamp_text_rows :: "nat \<Rightarrow> nat" where
  "clamp_text_rows v = (if v = 0 then VGA_HEIGHT else if v > TEXT_ROWS_MAX then TEXT_ROWS_MAX else v)"

record boot_info =
  bi_framebuffer_base :: u64
  bi_framebuffer_size :: nat
  bi_horizontal_resolution :: nat
  bi_vertical_resolution :: nat
  bi_pixels_per_scan_line :: nat
  bi_pixel_format :: u32

text \<open>The contents of the two video memories before the console starts are arguments.\<close>

definition without_framebuffer :: "(nat \<Rightarrow> u8) \<Rightarrow> (nat \<Rightarrow> u32) \<Rightarrow> console" where
  "without_framebuffer vga0 pixels0 =
     \<lparr>row = 0, col = 0, rows = VGA_HEIGHT, cols = VGA_WIDTH,
      cells = replicate (TEXT_COLS_MAX * TEXT_ROWS_MAX) 32,
      framebuffer_base = 0, framebuffer_size = 0, framebuffer_width = 0, framebuffer_height = 0,
      pixels_per_scan_line = 0, pixel_format = 0, vga = vga0, pixels = pixels0, serial = []\<rparr>"

definition console_new :: "(nat \<Rightarrow> u8) \<Rightarrow> (nat \<Rightarrow> u32) \<Rightarrow> boot_info option \<Rightarrow> console" where
  "console_new vga0 pixels0 boot_info =
     (case boot_info of
        None \<Rightarrow> without_framebuffer vga0 pixels0
      | Some info \<Rightarrow>
          if bi_framebuffer_base info = 0 \<or> bi_horizontal_resolution info = 0
             \<or> bi_vertical_resolution info = 0 \<or> bi_pixels_per_scan_line info = 0
          then without_framebuffer vga0 pixels0
          else
            \<lparr>row = 0, col = 0,
             rows = clamp_text_rows (bi_vertical_resolution info div FONT_HEIGHT),
             cols = clamp_text_cols (bi_horizontal_resolution info div FONT_WIDTH),
             cells = replicate (TEXT_COLS_MAX * TEXT_ROWS_MAX) 32,
             framebuffer_base = bi_framebuffer_base info, framebuffer_size = bi_framebuffer_size info,
             framebuffer_width = bi_horizontal_resolution info,
             framebuffer_height = bi_vertical_resolution info,
             pixels_per_scan_line = bi_pixels_per_scan_line info,
             pixel_format = bi_pixel_format info, vga = vga0, pixels = pixels0, serial = []\<rparr>)"

section \<open>Drawing\<close>

definition glyph :: "u8 \<Rightarrow> u8 list" where
  "glyph byte =
     (if byte = 48 then [0x0E, 0x11, 0x13, 0x15, 0x19, 0x11, 0x0E]
     else if byte = 49 then [0x04, 0x0C, 0x04, 0x04, 0x04, 0x04, 0x0E]
     else if byte = 50 then [0x0E, 0x11, 0x01, 0x02, 0x04, 0x08, 0x1F]
     else if byte = 51 then [0x1E, 0x01, 0x01, 0x0E, 0x01, 0x01, 0x1E]
     else if byte = 52 then [0x02, 0x06, 0x0A, 0x12, 0x1F, 0x02, 0x02]
     else if byte = 53 then [0x1F, 0x10, 0x10, 0x1E, 0x01, 0x01, 0x1E]
     else if byte = 54 then [0x06, 0x08, 0x10, 0x1E, 0x11, 0x11, 0x0E]
     else if byte = 55 then [0x1F, 0x01, 0x02, 0x04, 0x08, 0x08, 0x08]
     else if byte = 56 then [0x0E, 0x11, 0x11, 0x0E, 0x11, 0x11, 0x0E]
     else if byte = 57 then [0x0E, 0x11, 0x11, 0x0F, 0x01, 0x02, 0x0C]
     else if byte = 97 \<or> byte = 65 then [0x0E, 0x11, 0x11, 0x1F, 0x11, 0x11, 0x11]
     else if byte = 98 \<or> byte = 66 then [0x1E, 0x11, 0x11, 0x1E, 0x11, 0x11, 0x1E]
     else if byte = 99 \<or> byte = 67 then [0x0E, 0x11, 0x10, 0x10, 0x10, 0x11, 0x0E]
     else if byte = 100 \<or> byte = 68 then [0x1E, 0x11, 0x11, 0x11, 0x11, 0x11, 0x1E]
     else if byte = 101 \<or> byte = 69 then [0x1F, 0x10, 0x10, 0x1E, 0x10, 0x10, 0x1F]
     else if byte = 102 \<or> byte = 70 then [0x1F, 0x10, 0x10, 0x1E, 0x10, 0x10, 0x10]
     else if byte = 103 \<or> byte = 71 then [0x0E, 0x11, 0x10, 0x17, 0x11, 0x11, 0x0F]
     else if byte = 104 \<or> byte = 72 then [0x11, 0x11, 0x11, 0x1F, 0x11, 0x11, 0x11]
     else if byte = 105 \<or> byte = 73 then [0x0E, 0x04, 0x04, 0x04, 0x04, 0x04, 0x0E]
     else if byte = 106 \<or> byte = 74 then [0x07, 0x02, 0x02, 0x02, 0x12, 0x12, 0x0C]
     else if byte = 107 \<or> byte = 75 then [0x11, 0x12, 0x14, 0x18, 0x14, 0x12, 0x11]
     else if byte = 108 \<or> byte = 76 then [0x10, 0x10, 0x10, 0x10, 0x10, 0x10, 0x1F]
     else if byte = 109 \<or> byte = 77 then [0x11, 0x1B, 0x15, 0x15, 0x11, 0x11, 0x11]
     else if byte = 110 \<or> byte = 78 then [0x11, 0x19, 0x15, 0x13, 0x11, 0x11, 0x11]
     else if byte = 111 \<or> byte = 79 then [0x0E, 0x11, 0x11, 0x11, 0x11, 0x11, 0x0E]
     else if byte = 112 \<or> byte = 80 then [0x1E, 0x11, 0x11, 0x1E, 0x10, 0x10, 0x10]
     else if byte = 113 \<or> byte = 81 then [0x0E, 0x11, 0x11, 0x11, 0x15, 0x12, 0x0D]
     else if byte = 114 \<or> byte = 82 then [0x1E, 0x11, 0x11, 0x1E, 0x14, 0x12, 0x11]
     else if byte = 115 \<or> byte = 83 then [0x0F, 0x10, 0x10, 0x0E, 0x01, 0x01, 0x1E]
     else if byte = 116 \<or> byte = 84 then [0x1F, 0x04, 0x04, 0x04, 0x04, 0x04, 0x04]
     else if byte = 117 \<or> byte = 85 then [0x11, 0x11, 0x11, 0x11, 0x11, 0x11, 0x0E]
     else if byte = 118 \<or> byte = 86 then [0x11, 0x11, 0x11, 0x11, 0x0A, 0x0A, 0x04]
     else if byte = 119 \<or> byte = 87 then [0x11, 0x11, 0x11, 0x15, 0x15, 0x1B, 0x11]
     else if byte = 120 \<or> byte = 88 then [0x11, 0x11, 0x0A, 0x04, 0x0A, 0x11, 0x11]
     else if byte = 121 \<or> byte = 89 then [0x11, 0x11, 0x0A, 0x04, 0x04, 0x04, 0x04]
     else if byte = 122 \<or> byte = 90 then [0x1F, 0x01, 0x02, 0x04, 0x08, 0x10, 0x1F]
     else if byte = 32 then [0, 0, 0, 0, 0, 0, 0]
     else if byte = 46 then [0, 0, 0, 0, 0, 0x0C, 0x0C]
     else if byte = 44 then [0, 0, 0, 0, 0, 0x0C, 0x08]
     else if byte = 58 then [0, 0x0C, 0x0C, 0, 0x0C, 0x0C, 0]
     else if byte = 59 then [0, 0x0C, 0x0C, 0, 0x0C, 0x08, 0x10]
     else if byte = 47 then [0x01, 0x01, 0x02, 0x04, 0x08, 0x10, 0x10]
     else if byte = 92 then [0x10, 0x10, 0x08, 0x04, 0x02, 0x01, 0x01]
     else if byte = 45 then [0, 0, 0, 0x1F, 0, 0, 0]
     else if byte = 95 then [0, 0, 0, 0, 0, 0, 0x1F]
     else if byte = 61 then [0, 0x1F, 0, 0x1F, 0, 0, 0]
     else if byte = 43 then [0, 0x04, 0x04, 0x1F, 0x04, 0x04, 0]
     else if byte = 36 then [0x04, 0x0F, 0x14, 0x0E, 0x05, 0x1E, 0x04]
     else if byte = 62 then [0x10, 0x08, 0x04, 0x02, 0x04, 0x08, 0x10]
     else if byte = 60 then [0x01, 0x02, 0x04, 0x08, 0x04, 0x02, 0x01]
     else if byte = 91 then [0x0E, 0x08, 0x08, 0x08, 0x08, 0x08, 0x0E]
     else if byte = 93 then [0x0E, 0x02, 0x02, 0x02, 0x02, 0x02, 0x0E]
     else if byte = 40 then [0x02, 0x04, 0x08, 0x08, 0x08, 0x04, 0x02]
     else if byte = 41 then [0x08, 0x04, 0x02, 0x02, 0x02, 0x04, 0x08]
     else if byte = 33 then [0x04, 0x04, 0x04, 0x04, 0x04, 0, 0x04]
     else if byte = 63 then [0x0E, 0x11, 0x01, 0x02, 0x04, 0, 0x04]
     else if byte = 39 then [0x04, 0x04, 0x08, 0, 0, 0, 0]
     else if byte = 34 then [0x0A, 0x0A, 0, 0, 0, 0, 0]
     else [0x1F, 0x11, 0x02, 0x04, 0x04, 0, 0x04])"

definition write_pixel :: "nat \<Rightarrow> nat \<Rightarrow> u32 \<Rightarrow> console \<Rightarrow> console" where
  "write_pixel x y color con =
     (if x \<ge> framebuffer_width con \<or> y \<ge> framebuffer_height con then con
      else
        let index = y * pixels_per_scan_line con + x in
        if index * 4 \<ge> framebuffer_size con then con
        else con\<lparr>pixels := (pixels con)(index := color)\<rparr>)"

definition draw_framebuffer_cell :: "nat \<Rightarrow> nat \<Rightarrow> u8 \<Rightarrow> console \<Rightarrow> console" where
  "draw_framebuffer_cell r c byte con =
     (if framebuffer_base con = 0 then con
      else
        let x = c * FONT_WIDTH; y = r * FONT_HEIGHT in
        if x + FONT_WIDTH \<ge> framebuffer_width con \<or> y + FONT_HEIGHT \<ge> framebuffer_height con then con
        else
          let con = fold (\<lambda>py con. fold (\<lambda>px con. write_pixel (x + px) (y + py) FB_BACKGROUND con)
                [0..<FONT_WIDTH] con) [0..<FONT_HEIGHT] con;
              g = glyph byte in
          fold (\<lambda>glyph_y con. fold (\<lambda>glyph_x con.
              if (g ! glyph_y) AND push_bit (4 - glyph_x) 1 \<noteq> 0 then
                let x0 = x + 1 + glyph_x; y0 = y + 2 + glyph_y * 2 in
                write_pixel x0 (y0 + 1) FB_FOREGROUND (write_pixel x0 y0 FB_FOREGROUND con)
              else con) [0..<5] con) [0..<7] con)"

definition clear_framebuffer :: "console \<Rightarrow> console" where
  "clear_framebuffer con =
     (if framebuffer_base con = 0 then con
      else con\<lparr>pixels := (\<lambda>i. if i < framebuffer_size con div 4 then FB_BACKGROUND else pixels con i)\<rparr>)"

section \<open>Cells and lines\<close>

definition serial_write_byte :: "u8 \<Rightarrow> console \<Rightarrow> console" where
  "serial_write_byte byte con = con\<lparr>serial := serial con @ [byte]\<rparr>"

definition read_cell :: "console \<Rightarrow> nat \<Rightarrow> nat \<Rightarrow> u8" where
  "read_cell con r c = cells con ! (r * TEXT_COLS_MAX + c)"

definition write_cell :: "nat \<Rightarrow> nat \<Rightarrow> u8 \<Rightarrow> console \<Rightarrow> console" where
  "write_cell r c byte con =
     (let con = con\<lparr>cells := (cells con)[r * TEXT_COLS_MAX + c := byte]\<rparr>;
          con = (if r < VGA_HEIGHT \<and> c < VGA_WIDTH then
                   let offset = (r * VGA_WIDTH + c) * 2 in
                   con\<lparr>vga := (vga con)(offset := byte, offset + 1 := VGA_COLOR)\<rparr>
                 else con)
      in draw_framebuffer_cell r c byte con)"

definition scroll :: "console \<Rightarrow> console" where
  "scroll con =
     (let con = fold (\<lambda>r con. fold (\<lambda>c con. write_cell (r - 1) c (read_cell con r c) con)
            [0..<cols con] con) [1..<rows con] con
      in fold (\<lambda>c con. write_cell (rows con - 1) c 32 con) [0..<cols con] con)"

definition new_line :: "console \<Rightarrow> console" where
  "new_line con =
     (let con = con\<lparr>col := 0\<rparr>;
          con = (if row con + 1 \<ge> rows con then scroll con else con\<lparr>row := row con + 1\<rparr>)
      in serial_write_byte 10 (serial_write_byte 13 con))"

definition write_byte :: "u8 \<Rightarrow> console \<Rightarrow> console" where
  "write_byte byte con =
     (if byte = 10 then new_line con
      else if byte = 13 then con
      else
        let con = (if col con \<ge> cols con then new_line con else con);
            con = write_cell (row con) (col con) byte con;
            con = con\<lparr>col := col con + 1\<rparr>
        in serial_write_byte byte con)"

definition write_bytes :: "bytes \<Rightarrow> console \<Rightarrow> console" where
  "write_bytes bs con = fold write_byte bs con"

definition console_write :: "string \<Rightarrow> console \<Rightarrow> console" where
  "console_write text con = write_bytes (lit text) con"

definition write_line :: "string \<Rightarrow> console \<Rightarrow> console" where
  "write_line text con = new_line (console_write text con)"

definition backspace :: "console \<Rightarrow> console" where
  "backspace con =
     (if col con = 0 then con
      else
        let con = con\<lparr>col := col con - 1\<rparr>;
            con = write_cell (row con) (col con) 32 con
        in serial_write_byte 8 (serial_write_byte 32 (serial_write_byte 8 con)))"

definition console_clear :: "console \<Rightarrow> console" where
  "console_clear con =
     (let con = clear_framebuffer con;
          con = fold (\<lambda>r con. fold (\<lambda>c con. write_cell r c 32 con) [0..<cols con] con) [0..<rows con] con
      in con\<lparr>row := 0, col := 0\<rparr>)"

section \<open>Numbers\<close>

text \<open>The digits in the order the first loop stores them, least significant first.\<close>

fun digits_loop :: "nat \<Rightarrow> bytes" where
  "digits_loop v = (if v > 0 then (48 + of_nat (v mod 10)) # digits_loop (v div 10) else [])"

declare digits_loop.simps [simp del]

definition usize_text :: "nat \<Rightarrow> bytes" where
  "usize_text v = (if v = 0 then [48] else rev (digits_loop v))"

definition write_usize :: "nat \<Rightarrow> console \<Rightarrow> console" where
  "write_usize v con = fold write_byte (usize_text v) con"

definition i32_text :: "u32 \<Rightarrow> bytes" where
  "i32_text v = (if sint v < 0 then 45 # usize_text (unat (scast (- v) :: u64)) else usize_text (unat (scast v :: u64)))"

definition write_i32 :: "u32 \<Rightarrow> console \<Rightarrow> console" where
  "write_i32 v con = fold write_byte (i32_text v) con"

definition hex_digit :: "u8 \<Rightarrow> u8" where
  "hex_digit v = (if v AND 0x0F \<le> 9 then 48 + (v AND 0x0F) else 65 + ((v AND 0x0F) - 10))"

definition write_hex_digit :: "u8 \<Rightarrow> console \<Rightarrow> console" where
  "write_hex_digit v con = write_byte (hex_digit v) con"

definition write_hex_u8 :: "u8 \<Rightarrow> console \<Rightarrow> console" where
  "write_hex_u8 v con = write_hex_digit (v AND 0x0F) (write_hex_digit (drop_bit 4 v) con)"

definition write_hex_u16 :: "u16 \<Rightarrow> console \<Rightarrow> console" where
  "write_hex_u16 v con = write_hex_u8 (ucast v) (write_hex_u8 (ucast (drop_bit 8 v)) con)"

definition write_hex_u64 :: "u64 \<Rightarrow> console \<Rightarrow> console" where
  "write_hex_u64 v con =
     fold (\<lambda>k con. write_hex_digit (ucast (drop_bit (k * 4) v AND 0x0F)) con) (rev [0..<16]) con"

definition video_info :: "console \<Rightarrow> console" where
  "video_info con =
     (if framebuffer_base con = 0 then write_line ''video: legacy VGA text fallback 80x25'' con
      else
        let con = console_write ''video: '' con;
            con = write_usize (framebuffer_width con) con;
            con = console_write ''x'' con;
            con = write_usize (framebuffer_height con) con;
            con = console_write '' pitch '' con;
            con = write_usize (pixels_per_scan_line con) con;
            con = console_write '' text '' con;
            con = write_usize (cols con) con;
            con = console_write ''x'' con;
            con = write_usize (rows con) con;
            con = console_write '' format '' con;
            con = write_usize (unat (pixel_format con)) con
        in new_line con)"

section \<open>The invariant\<close>

lemmas console_consts = VGA_WIDTH_def VGA_HEIGHT_def TEXT_COLS_MAX_def TEXT_ROWS_MAX_def FONT_WIDTH_def FONT_HEIGHT_def

definition console_wf :: "console \<Rightarrow> bool" where
  "console_wf con \<longleftrightarrow> 0 < rows con \<and> rows con \<le> 48 \<and> 0 < cols con \<and> cols con \<le> 128 \<and>
     row con < rows con \<and> col con \<le> cols con \<and> length (cells con) = 6144"

text \<open>
  Two states that differ in drawing only: the grid may differ in its cells, the video memories
  only inside their bounds.
\<close>

definition media_kept :: "console \<Rightarrow> console \<Rightarrow> bool" where
  "media_kept con con' \<longleftrightarrow>
     con' = con\<lparr>cells := cells con', vga := vga con', pixels := pixels con'\<rparr> \<and> length (cells con') = length (cells con) \<and>
     (\<forall>a \<ge> 4000. vga con' a = vga con a) \<and>
     (\<forall>i. framebuffer_size con \<le> i * 4 \<longrightarrow> pixels con' i = pixels con i)"

lemma media_kept_refl [simp]: "media_kept con con"
  by (simp add: media_kept_def)

lemma media_kept_geometry:
  assumes "media_kept con con'"
  shows "rows con' = rows con" "cols con' = cols con" "row con' = row con" "col con' = col con"
    "serial con' = serial con" "length (cells con') = length (cells con)" "framebuffer_size con' = framebuffer_size con"
proof -
  have "con' = con\<lparr>cells := cells con', vga := vga con', pixels := pixels con'\<rparr>" using assms by (simp add: media_kept_def)
  then obtain c v p where e: "con' = con\<lparr>cells := c, vga := v, pixels := p\<rparr>" by blast
  show "rows con' = rows con" "cols con' = cols con" "row con' = row con" "col con' = col con"
    "serial con' = serial con" "framebuffer_size con' = framebuffer_size con" by (simp_all add: e)
  show "length (cells con') = length (cells con)" using assms by (simp add: media_kept_def)
qed

lemma media_kept_trans:
  assumes "media_kept a b" "media_kept b c"
  shows "media_kept a c"
proof -
  have b: "b = a\<lparr>cells := cells b, vga := vga b, pixels := pixels b\<rparr>"
    and c: "c = b\<lparr>cells := cells c, vga := vga c, pixels := pixels c\<rparr>"
    using assms by (simp_all add: media_kept_def)
  have "c = a\<lparr>cells := cells c, vga := vga c, pixels := pixels c\<rparr>" by (subst c, subst b) simp
  moreover have "framebuffer_size b = framebuffer_size a" using media_kept_geometry(7) [OF assms(1)] .
  ultimately show ?thesis using assms unfolding media_kept_def by simp
qed

lemma media_kept_fold:
  assumes "\<And>x c. media_kept c (f x c)"
  shows "media_kept c (fold f xs c)"
proof (induction xs arbitrary: c)
  case (Cons x xs)
  have "media_kept c (f x c)" "media_kept (f x c) (fold f xs (f x c))" using assms Cons by blast+
  then show ?case by (auto intro: media_kept_trans)
qed simp

definition px_only :: "console \<Rightarrow> console \<Rightarrow> bool" where
  "px_only con con' \<longleftrightarrow> media_kept con con' \<and> cells con' = cells con"

lemma px_trans: "px_only a b \<Longrightarrow> px_only b c \<Longrightarrow> px_only a c"
  using media_kept_trans by (auto simp: px_only_def)

lemma px_refl [simp]: "px_only a a"
  by (simp add: px_only_def)

lemma px_fold:
  assumes "\<And>x c. px_only c (f x c)"
  shows "px_only c (fold f xs c)"
proof (induction xs arbitrary: c)
  case (Cons x xs)
  have "px_only c (f x c)" "px_only (f x c) (fold f xs (f x c))" using assms Cons by blast+
  then show ?case by (auto intro: px_trans)
qed simp

lemma px_write: "px_only con (write_pixel x y color con)"
  by (auto simp: write_pixel_def Let_def media_kept_def px_only_def)

lemma px_draw: "px_only con (draw_framebuffer_cell r c b con)"
proof -
  define x y where "x = c * FONT_WIDTH" and "y = r * FONT_HEIGHT"
  define F1 where "F1 = (\<lambda>py con. fold (\<lambda>px con. write_pixel (x + px) (y + py) FB_BACKGROUND con) [0..<FONT_WIDTH] con)"
  define F2 where "F2 = (\<lambda>gy con. fold (\<lambda>gx con. if (glyph b ! gy) AND push_bit (4 - gx) 1 \<noteq> 0
      then write_pixel (x + 1 + gx) (y + 2 + gy * 2 + 1) FB_FOREGROUND (write_pixel (x + 1 + gx) (y + 2 + gy * 2) FB_FOREGROUND con)
      else con) [0..<5] con)"
  have "px_only con (F1 py con)" for py con unfolding F1_def by (intro px_fold px_write)
  moreover have "px_only con (F2 gy con)" for gy con
    unfolding F2_def by (intro px_fold) (auto intro: px_trans [OF px_write px_write])
  ultimately have "px_only con (fold F2 [0..<7] (fold F1 [0..<FONT_HEIGHT] con))"
    by (intro px_trans [OF px_fold px_fold])
  moreover have "draw_framebuffer_cell r c b con = con \<or>
      draw_framebuffer_cell r c b con = fold F2 [0..<7] (fold F1 [0..<FONT_HEIGHT] con)"
    unfolding draw_framebuffer_cell_def Let_def F1_def F2_def x_def y_def by presburger
  ultimately show ?thesis by (auto simp: px_only_def)
qed

lemma write_cell_media: "media_kept con (write_cell r c b con)"
proof -
  define con1 where "con1 = con\<lparr>cells := (cells con)[r * 128 + c := b]\<rparr>"
  define con2 where "con2 = (if r < 25 \<and> c < 80 then con1\<lparr>vga := (vga con1)((r * 80 + c) * 2 := b, (r * 80 + c) * 2 + 1 := VGA_COLOR)\<rparr> else con1)"
  have "media_kept con con1" by (simp add: media_kept_def con1_def)
  moreover have "media_kept con1 con2"
    by (auto simp: media_kept_def con2_def)
  moreover have "write_cell r c b con = draw_framebuffer_cell r c b con2"
    by (simp add: write_cell_def Let_def con1_def con2_def console_consts)
  ultimately show ?thesis using px_draw media_kept_trans unfolding px_only_def by metis
qed

lemma cells_write_cell: "cells (write_cell r c b con) = (cells con)[r * 128 + c := b]"
  using px_draw by (simp add: write_cell_def Let_def console_consts px_only_def)

lemma read_write_cell:
  assumes "length (cells con) = 6144" "r < 48" "c < 128" "c' < 128"
  shows "read_cell (write_cell r c b con) r' c' = (if r' = r \<and> c' = c then b else read_cell con r' c')"
proof -
  have "r' = r \<and> c' = c" if "r' * 128 + c' = r * 128 + c"
  proof -
    have "(r' * 128 + c') div 128 = r'" "(r * 128 + c) div 128 = r" using assms(3,4) by simp_all
    with that show ?thesis by simp
  qed
  then have "r' * 128 + c' = r * 128 + c \<longleftrightarrow> r' = r \<and> c' = c" by blast
  moreover have "r * 128 + c < 6144" using assms(2,3) by simp
  ultimately show ?thesis using assms(1) by (auto simp: read_cell_def cells_write_cell console_consts nth_list_update)
qed

lemma console_wf_media: "media_kept con con' \<Longrightarrow> console_wf con' = console_wf con"
  by (simp add: console_wf_def media_kept_geometry)

section \<open>Scrolling\<close>

lemma copy_row:
  assumes "length (cells con) = 6144" "1 \<le> r" "r < 48" "n \<le> 128" "c' < 128"
  defines "con' \<equiv> fold (\<lambda>c con. write_cell (r - 1) c (read_cell con r c) con) [0..<n] con"
  shows "media_kept con con' \<and> read_cell con' r' c' = (if r' = r - 1 \<and> c' < n then read_cell con r c' else read_cell con r' c')"
  unfolding con'_def using assms(4,5)
proof (induction n arbitrary: r' c')
  case (Suc n)
  let ?m = "fold (\<lambda>c con. write_cell (r - 1) c (read_cell con r c) con) [0..<n] con"
  have m: "media_kept con ?m" using Suc.IH [of c'] Suc.prems by simp
  have src: "read_cell ?m r n = read_cell con r n" using Suc.IH [of n r] Suc.prems assms(2) by auto
  have len: "length (cells ?m) = 6144" using media_kept_geometry(6) [OF m] assms(1) by simp
  have e: "fold (\<lambda>c con. write_cell (r - 1) c (read_cell con r c) con) [0..<Suc n] con =
      write_cell (r - 1) n (read_cell con r n) ?m" using src by simp
  have "read_cell (write_cell (r - 1) n (read_cell con r n) ?m) r' c' =
      (if r' = r - 1 \<and> c' = n then read_cell con r n else read_cell ?m r' c')"
    using len assms(3) Suc.prems by (intro read_write_cell) simp_all
  moreover have "read_cell ?m r' c' = (if r' = r - 1 \<and> c' < n then read_cell con r c' else read_cell con r' c')"
    using Suc.IH [of c' r'] Suc.prems by simp
  ultimately show ?case
    unfolding e using media_kept_trans [OF m write_cell_media] by (auto simp: less_Suc_eq)
qed simp

lemma copy_rows:
  assumes "length (cells con) = 6144" "cols con \<le> 128" "n < 48" "c' < 128"
  defines "con' \<equiv> fold (\<lambda>r con. fold (\<lambda>c con. write_cell (r - 1) c (read_cell con r c) con) [0..<cols con] con) [1..<Suc n] con"
  shows "media_kept con con' \<and>
    read_cell con' r' c' = (if r' < n \<and> c' < cols con then read_cell con (r' + 1) c' else read_cell con r' c')"
  unfolding con'_def using assms(3,4)
proof (induction n arbitrary: r' c')
  case (Suc n)
  let ?m = "fold (\<lambda>r con. fold (\<lambda>c con. write_cell (r - 1) c (read_cell con r c) con) [0..<cols con] con) [1..<Suc n] con"
  let ?m' = "fold (\<lambda>c con. write_cell (Suc n - 1) c (read_cell con (Suc n) c) con) [0..<cols con] ?m"
  have m: "media_kept con ?m" using Suc.IH [of c'] Suc.prems by simp
  have len: "length (cells ?m) = 6144" "cols ?m = cols con" using media_kept_geometry [OF m] assms(1) by simp_all
  have e: "fold (\<lambda>r con. fold (\<lambda>c con. write_cell (r - 1) c (read_cell con r c) con) [0..<cols con] con) [1..<Suc (Suc n)] con = ?m'"
    using len(2) by simp
  have m': "media_kept ?m ?m' \<and> read_cell ?m' r' c' = (if r' = Suc n - 1 \<and> c' < cols con then read_cell ?m (Suc n) c' else read_cell ?m r' c')"
    using len assms(2) Suc.prems by (intro copy_row) simp_all
  have A: "read_cell ?m r' c' = (if r' < n \<and> c' < cols con then read_cell con (r' + 1) c' else read_cell con r' c')"
    using Suc.IH [of c' r'] Suc.prems by simp
  have B: "read_cell ?m (Suc n) c' = read_cell con (Suc n) c'" using Suc.IH [of c' "Suc n"] Suc.prems by simp
  have "read_cell ?m' r' c' = (if r' < Suc n \<and> c' < cols con then read_cell con (r' + 1) c' else read_cell con r' c')"
    unfolding m' [THEN conjunct2] A B by (cases "r' = n") simp_all
  moreover have "media_kept con ?m'" using m m' media_kept_trans by blast
  ultimately show ?case unfolding e by blast
qed simp

lemma clear_row:
  assumes "length (cells con) = 6144" "r < 48" "n \<le> 128" "c' < 128" "r = rows con - 1"
  defines "con' \<equiv> fold (\<lambda>c con. write_cell (rows con - 1) c 32 con) [0..<n] con"
  shows "media_kept con con' \<and> read_cell con' r' c' = (if r' = r \<and> c' < n then 32 else read_cell con r' c')"
  unfolding con'_def using assms(3,4)
proof (induction n arbitrary: r' c')
  case (Suc n)
  let ?m = "fold (\<lambda>c con. write_cell (rows con - 1) c 32 con) [0..<n] con"
  have m: "media_kept con ?m" using Suc.IH [of c'] Suc.prems by simp
  have len: "length (cells ?m) = 6144" "rows ?m = rows con" using media_kept_geometry [OF m] assms(1) by simp_all
  have e: "fold (\<lambda>c con. write_cell (rows con - 1) c 32 con) [0..<Suc n] con = write_cell r n 32 ?m"
    using len(2) assms(5) by simp
  have "read_cell (write_cell r n 32 ?m) r' c' = (if r' = r \<and> c' = n then 32 else read_cell ?m r' c')"
    using len assms(2) Suc.prems by (intro read_write_cell) simp_all
  with Suc.IH [of c' r'] Suc.prems show ?case
    unfolding e using media_kept_trans [OF m write_cell_media] by (auto simp: less_Suc_eq)
qed simp

lemma scroll_cells:
  assumes "console_wf con" "r' < rows con" "c' < cols con"
  shows "media_kept con (scroll con)"
    "read_cell (scroll con) r' c' = (if r' + 1 < rows con then read_cell con (r' + 1) c' else 32)"
proof -
  let ?m = "fold (\<lambda>r con. fold (\<lambda>c con. write_cell (r - 1) c (read_cell con r c) con) [0..<cols con] con) [1..<rows con] con"
  have wf: "length (cells con) = 6144" "cols con \<le> 128" "rows con \<le> 48" "0 < rows con" "c' < 128"
    using assms by (simp_all add: console_wf_def)
  have m: "media_kept con ?m \<and> read_cell ?m r' c' = (if r' < rows con - 1 \<and> c' < cols con then read_cell con (r' + 1) c' else read_cell con r' c')"
    using copy_rows [OF wf(1,2), of "rows con - 1" c' r'] wf by simp
  then have g: "length (cells ?m) = 6144" "rows ?m = rows con" "cols ?m = cols con"
    using media_kept_geometry wf(1) by auto
  have s: "scroll con = fold (\<lambda>c con. write_cell (rows con - 1) c 32 con) [0..<cols con] ?m"
    unfolding scroll_def Let_def g(3) ..
  have c: "media_kept ?m (scroll con) \<and> read_cell (scroll con) r' c' = (if r' = rows con - 1 \<and> c' < cols con then 32 else read_cell ?m r' c')"
    unfolding s by (rule clear_row) (use g wf in simp_all)
  from m c show "media_kept con (scroll con)" using media_kept_trans by blast
  from m c assms(2,3) show "read_cell (scroll con) r' c' = (if r' + 1 < rows con then read_cell con (r' + 1) c' else 32)"
    by auto
qed

section \<open>Lines and bytes\<close>

definition screen :: "console \<Rightarrow> bytes list" where
  "screen con = map (\<lambda>r. map (read_cell con r) [0..<cols con]) [0..<rows con]"

definition video_kept :: "console \<Rightarrow> console \<Rightarrow> bool" where
  "video_kept con con' \<longleftrightarrow> rows con' = rows con \<and> cols con' = cols con \<and> framebuffer_size con' = framebuffer_size con \<and>
     (\<forall>a \<ge> 4000. vga con' a = vga con a) \<and> (\<forall>i. framebuffer_size con \<le> i * 4 \<longrightarrow> pixels con' i = pixels con i)"

lemma video_kept_trans: "video_kept a b \<Longrightarrow> video_kept b c \<Longrightarrow> video_kept a c"
  by (simp add: video_kept_def)

lemma video_kept_media: "media_kept con con' \<Longrightarrow> video_kept con con'"
  using media_kept_geometry [of con con'] unfolding video_kept_def media_kept_def by blast

text \<open>What the serial line receives: line breaks as CR LF, the console's own wraps included.\<close>

fun echo :: "nat \<Rightarrow> nat \<Rightarrow> bytes \<Rightarrow> bytes" where
  "echo width c [] = []"
| "echo width c (b # bs) =
     (if b = 10 then [13, 10] @ echo width 0 bs
      else if b = 13 then echo width c bs
      else if c \<ge> width then [13, 10, b] @ echo width 1 bs
      else b # echo width (c + 1) bs)"

lemma wf_scroll:
  assumes "console_wf con"
  shows "media_kept con (scroll con)"
  using scroll_cells(1) [OF assms, of 0 0] assms by (simp add: console_wf_def)

lemma wf_col: "console_wf con \<Longrightarrow> c \<le> cols con \<Longrightarrow> console_wf (con\<lparr>col := c\<rparr>)"
  by (simp add: console_wf_def)

lemma new_line_facts:
  assumes "console_wf con"
  shows "console_wf (new_line con)" "video_kept con (new_line con)" "col (new_line con) = 0"
    "serial (new_line con) = serial con @ [13, 10]"
    "row (new_line con) = (if row con + 1 \<ge> rows con then row con else row con + 1)"
proof -
  let ?c = "con\<lparr>col := 0\<rparr>"
  have wf: "console_wf ?c" using assms by (simp add: console_wf_def)
  note m = wf_scroll [OF wf]
  note g = media_kept_geometry [OF m]
  have wfs: "console_wf (scroll ?c)" using console_wf_media [OF m] wf by simp
  show "console_wf (new_line con)" "col (new_line con) = 0" "serial (new_line con) = serial con @ [13, 10]"
    "row (new_line con) = (if row con + 1 \<ge> rows con then row con else row con + 1)"
    using wfs wf g by (auto simp: new_line_def Let_def serial_write_byte_def console_wf_def)
  show "video_kept con (new_line con)"
    using video_kept_media [OF m] by (auto simp: new_line_def Let_def serial_write_byte_def video_kept_def)
qed

lemma write_byte_facts:
  assumes "console_wf con"
  shows "console_wf (write_byte b con) \<and> video_kept con (write_byte b con) \<and>
    serial (write_byte b con) @ echo (cols con) (col (write_byte b con)) bs = serial con @ echo (cols con) (col con) (b # bs)"
proof -
  consider "b = 10" | "b = 13" | "b \<noteq> 10" "b \<noteq> 13" by blast
  then show ?thesis
  proof cases
    case 1
    with new_line_facts [OF assms] show ?thesis by (simp add: write_byte_def)
  next
    case 2
    with assms show ?thesis by (simp add: write_byte_def video_kept_def)
  next
    case 3
    define c1 where "c1 = (if col con \<ge> cols con then new_line con else con)"
    have c1: "console_wf c1" "video_kept con c1" "col c1 < cols c1"
      "serial c1 @ b # echo (cols con) (col c1 + 1) bs = serial con @ echo (cols con) (col con) (b # bs)"
      using 3 assms new_line_facts [OF assms] by (auto simp: c1_def console_wf_def video_kept_def)
    have m: "media_kept c1 (write_cell (row c1) (col c1) b c1)" by (rule write_cell_media)
    note g = media_kept_geometry [OF m]
    have "write_byte b con = (let k = write_cell (row c1) (col c1) b c1 in
        serial_write_byte b (k\<lparr>col := col k + 1\<rparr>))"
      using 3 by (simp add: write_byte_def Let_def c1_def)
    moreover have "console_wf (write_cell (row c1) (col c1) b c1)" using c1(1) console_wf_media [OF m] by simp
    ultimately show ?thesis
      using c1 g video_kept_trans [OF c1(2) video_kept_media [OF m]]
      by (auto simp: Let_def serial_write_byte_def console_wf_def video_kept_def)
  qed
qed

lemma write_bytes_facts:
  assumes "console_wf con"
  shows "console_wf (write_bytes bs con) \<and> video_kept con (write_bytes bs con) \<and>
    serial (write_bytes bs con) = serial con @ echo (cols con) (col con) bs"
  using assms
proof (induction bs arbitrary: con)
  case Nil
  then show ?case by (simp add: write_bytes_def video_kept_def)
next
  case (Cons b bs)
  note w = write_byte_facts [OF Cons.prems, of b bs]
  then have c: "cols (write_byte b con) = cols con" by (simp add: video_kept_def)
  from Cons.IH [OF w [THEN conjunct1]] w c video_kept_trans show ?case
    unfolding write_bytes_def by (metis fold.simps(2) o_apply append_assoc)
qed

section \<open>Decimal and hexadecimal text\<close>

lemma digit_word: "n < 10 \<Longrightarrow> unat (48 + of_nat n :: u8) = 48 + n"
  by (simp add: unat_word_ariths unat_of_nat_small)

lemma foldl_digits:
  "foldl (\<lambda>a b. a * 10 + (unat b - 48)) 0 (rev (digits_loop v)) = v"
proof (induction v rule: digits_loop.induct)
  case (1 v)
  show ?case
  proof (cases "v > 0")
    case True
    then have "digits_loop v = (48 + of_nat (v mod 10)) # digits_loop (v div 10)" by (subst digits_loop.simps) simp
    with 1 [OF True] show ?thesis by (simp add: digit_word)
  qed (simp add: digits_loop.simps)
qed

lemma decimal_usize_text: "decimal_value (usize_text v) = v"
  by (simp add: decimal_value_def usize_text_def foldl_digits)

lemma length_digits: "v < 10 ^ n \<Longrightarrow> length (digits_loop v) \<le> n"
proof (induction n arbitrary: v)
  case 0
  then show ?case by (simp add: digits_loop.simps)
next
  case (Suc n)
  then have "v div 10 < 10 ^ n" by (simp add: less_mult_imp_div_less mult.commute)
  with Suc.IH show ?case by (subst digits_loop.simps) simp
qed

section \<open>Properties\<close>

text \<open>
  C15.  Writing any bytes to a well-formed console keeps it well formed: the cursor stays on the
  grid, so every cell access is inside the cell array; nothing is written to VGA memory beyond the
  80 by 25 text page or to the framebuffer beyond its size; and the serial line receives
  exactly the text, with each line break (the console's automatic wraps included) as CR LF.
\<close>

theorem console_write_bytes_safe:
  assumes "console_wf con"
  shows "console_wf (write_bytes bs con) \<and> video_kept con (write_bytes bs con) \<and>
    serial (write_bytes bs con) = serial con @ echo (cols con) (col con) bs"
  by (rule write_bytes_facts [OF assms])

lemma console_new_wf: "console_wf (console_new v p bi)"
  by (auto simp: console_new_def without_framebuffer_def console_wf_def console_consts clamp_text_rows_def
      clamp_text_cols_def split: option.splits)

theorem console_write_bytes_safe_witness:
  "console_wf (console_new (\<lambda>_. 0) (\<lambda>_. 0) None) \<and>
   serial (write_bytes (lit ''hi'' @ [10]) (console_new (\<lambda>_. 0) (\<lambda>_. 0) None)) = lit ''hi'' @ [13, 10]"
  using console_write_bytes_safe [OF console_new_wf, of "lit ''hi'' @ [10]" "\<lambda>_. 0" "\<lambda>_. 0" None]
    console_new_wf [of "\<lambda>_. 0" "\<lambda>_. 0" None]
  by (simp add: console_new_def without_framebuffer_def console_consts)

text \<open>
  A line break on the last row scrolls the visible screen by one row: the rows move up and
  the last row becomes blank; on any other row the screen is unchanged.
\<close>

theorem new_line_screen:
  assumes "console_wf con"
  shows "screen (new_line con) =
    (if row con + 1 < rows con then screen con else tl (screen con) @ [replicate (cols con) 32])"
proof (cases "row con + 1 < rows con")
  case True
  then show ?thesis
    by (simp add: screen_def new_line_def Let_def serial_write_byte_def read_cell_def)
next
  case False
  let ?c = "con\<lparr>col := 0\<rparr>"
  have wf: "console_wf ?c" using assms by (simp add: console_wf_def)
  have g: "rows (scroll ?c) = rows con" "cols (scroll ?c) = cols con"
    using media_kept_geometry [OF wf_scroll [OF wf]] by simp_all
  have rc: "read_cell ?c = read_cell con" by (simp add: read_cell_def fun_eq_iff)
  have cell: "read_cell (scroll ?c) r k = (if r + 1 < rows con then read_cell con (r + 1) k else 32)"
    if "r < rows con" "k < cols con" for r k
    using scroll_cells(2) [OF wf, of r k] that rc by simp
  have "screen (new_line con) = screen (scroll ?c)"
    using False by (simp add: screen_def new_line_def Let_def serial_write_byte_def read_cell_def)
  also have "\<dots> = tl (screen con) @ [replicate (cols con) 32]"
    using assms g cell
    by (intro nth_equalityI) (auto simp: screen_def nth_append nth_tl console_wf_def intro!: nth_equalityI)
  finally show ?thesis using False by simp
qed

theorem new_line_screen_witness:
  "console_wf (console_new (\<lambda>_. 0) (\<lambda>_. 0) None) \<and>
   screen (new_line (console_new (\<lambda>_. 0) (\<lambda>_. 0) None)) = screen (console_new (\<lambda>_. 0) (\<lambda>_. 0) None)"
  using new_line_screen [OF console_new_wf, of "\<lambda>_. 0" "\<lambda>_. 0" None] console_new_wf [of "\<lambda>_. 0" "\<lambda>_. 0" None]
  by (simp add: console_new_def without_framebuffer_def console_consts)

text \<open>
   Printing a number and reading its digits back gives the number, and a 64-bit number never
  needs more than the twenty digits of the buffer.
\<close>

theorem usize_text_roundtrip:
  assumes "v < 2 ^ 64"
  shows "decimal_value (usize_text v) = v \<and> length (usize_text v) \<le> 20"
  using decimal_usize_text length_digits [of v 20] assms by (simp add: usize_text_def)

theorem usize_text_roundtrip_witness:
  "decimal_value (usize_text 18446744073709551615) = 18446744073709551615 \<and> length (usize_text 18446744073709551615) \<le> 20"
  using usize_text_roundtrip [of 18446744073709551615] by simp

lemma unat_scast_nonneg:
  fixes w :: u32
  assumes "0 \<le> sint w"
  shows "unat (scast w :: u64) = nat (sint w)"
proof -
  have "sint w < 2 ^ 31" using sint_lt [of w] by simp
  then have "sint w mod 2 ^ LENGTH(64) = sint w" using assms by simp
  moreover have "uint (word_of_int (sint w) :: u64) = sint w mod 2 ^ LENGTH(64)" by (rule uint_word_of_int)
  moreover have "(scast w :: u64) = word_of_int (sint w)" by simp
  ultimately have "uint (scast w :: u64) = sint w" by metis
  then show ?thesis by (simp only: unat_eq_nat_uint)
qed

lemma sint_neg:
  fixes v :: u32
  assumes "sint v \<noteq> - (2 ^ 31)"
  shows "sint (- v) = - sint v"
proof -
  have "- (2 ^ 31) \<le> sint v" "sint v < 2 ^ 31" using sint_ge [of v] sint_lt [of v] by simp_all
  with assms show ?thesis by (simp add: sint_word_ariths signed_take_bit_int_eq_self)
qed

text \<open>
  A signed number prints as its decimal numeral with a minus sign, for every 32-bit value
  but the smallest one.
\<close>

theorem i32_text_correct:
  assumes "sint v \<noteq> - (2 ^ 31)"
  shows "i32_text v = (if sint v < 0 then lit ''-'' @ usize_text (nat (- sint v)) else usize_text (nat (sint v)))"
  using unat_scast_nonneg [of v] unat_scast_nonneg [of "- v"] sint_neg [OF assms] by (simp add: i32_text_def)

theorem i32_text_correct_witness: "i32_text (- 7) = lit ''-7''"
proof -
  have s: "sint (- 7 :: u32) = - 7" by simp
  then have "i32_text (- 7) = lit ''-'' @ usize_text 7" using i32_text_correct [of "- 7"] by simp
  then show ?thesis by (simp add: usize_text_def digits_loop.simps)
qed

text \<open>
  The smallest 32-bit value is printed wrongly: its negation wraps to itself and is then
  sign-extended to 64 bits, so a twenty-digit number appears.
\<close>

theorem i32_text_min_value: "i32_text 0x80000000 = lit ''-18446744071562067968''"
proof -
  have "unat (scast (- 0x80000000 :: u32) :: u64) = 18446744071562067968" "sint (0x80000000 :: u32) < 0" by simp_all
  then show ?thesis by (simp add: i32_text_def usize_text_def digits_loop.simps)
qed

end
