(* ===== verification/Boot_Fs.thy ===== *)
theory Boot_Fs
  imports Console
begin

text \<open>
  The read-only boot filesystem, \<^verbatim>\<open>impl BootFs\<close> in \<^verbatim>\<open>kernel/src/main.rs\<close>:
  a table of fixed-size entries at the start of the initrd image, parsed in place.  The image
  is untrusted: the pointer arithmetic of \<open>bootfs_entry\<close> is shown to stay inside it
  whatever its bytes are, and lookup returns the data of the first entry with the name.

  The memory at \<^verbatim>\<open>base\<close> is the list of the image's bytes; a null base is \<open>None\<close>.
\<close>

type_synonym bootfs = "bytes option"

record boot_fs_entry =
  be_kind :: u8
  be_name :: nat
  be_name_len :: nat
  be_data :: nat
  be_data_len :: nat

definition bootfs_new :: "(u64 \<times> bytes) option \<Rightarrow> bootfs" where
  "bootfs_new boot_info =
     (case boot_info of
        None \<Rightarrow> None
      | Some (initrd_base, img) \<Rightarrow> if initrd_base = 0 \<or> length img = 0 then None else Some img)"

definition bootfs_valid :: "bootfs \<Rightarrow> bool" where
  "bootfs_valid fs \<longleftrightarrow>
     (case fs of None \<Rightarrow> False
      | Some img \<Rightarrow> \<not> length img < 12 \<and> subslice img 0 8 = lit ''RYFS1'' @ [0, 0, 0])"

definition le16_at :: "bytes \<Rightarrow> nat \<Rightarrow> nat" where
  "le16_at img at = unat (img ! at) OR push_bit 8 (unat (img ! (at + 1)))"

definition entry_count :: "bootfs \<Rightarrow> nat" where
  "entry_count fs = (if \<not> bootfs_valid fs then 0 else le16_at (the fs) 8)"

definition entry_size :: "bootfs \<Rightarrow> nat" where
  "entry_size fs = (if \<not> bootfs_valid fs then 0 else le16_at (the fs) 10)"

definition read_le32 :: "bytes \<Rightarrow> nat \<Rightarrow> u32" where
  "read_le32 img at =
     ucast (img ! at) OR push_bit 8 (ucast (img ! (at + 1))) OR push_bit 16 (ucast (img ! (at + 2)))
       OR push_bit 24 (ucast (img ! (at + 3)))"

text \<open>The pointers of an entry are offsets into the image.\<close>

definition bootfs_entry :: "bootfs \<Rightarrow> nat \<Rightarrow> boot_fs_entry option" where
  "bootfs_entry fs index =
     (let esize = entry_size fs in
      if esize < 42 then None
      else
        let img = the fs; offset = 12 + index * esize in
        if offset + 42 > length img then None
        else
          let kind = img ! offset;
              name_len = unat (img ! (offset + 1));
              data_offset = unat (read_le32 img (offset + 2));
              data_len = unat (read_le32 img (offset + 6)) in
          if name_len > 32 \<or> data_offset + data_len > length img then None
          else Some \<lparr>be_kind = kind, be_name = offset + 10, be_name_len = name_len,
                     be_data = data_offset, be_data_len = data_len\<rparr>)"

definition be_name_bytes :: "bootfs \<Rightarrow> boot_fs_entry \<Rightarrow> bytes" where
  "be_name_bytes fs e = subslice (the fs) (be_name e) (be_name e + be_name_len e)"

definition be_data_bytes :: "bootfs \<Rightarrow> boot_fs_entry \<Rightarrow> bytes" where
  "be_data_bytes fs e = subslice (the fs) (be_data e) (be_data e + be_data_len e)"

fun find_entry_loop :: "bootfs \<Rightarrow> bytes \<Rightarrow> nat list \<Rightarrow> boot_fs_entry option" where
  "find_entry_loop fs name [] = None"
| "find_entry_loop fs name (index # rest) =
     (case bootfs_entry fs index of
        Some e \<Rightarrow> if be_name_bytes fs e = name then Some e else find_entry_loop fs name rest
      | None \<Rightarrow> find_entry_loop fs name rest)"

definition bootfs_find_entry :: "bootfs \<Rightarrow> bytes \<Rightarrow> boot_fs_entry option" where
  "bootfs_find_entry fs name =
     (if \<not> bootfs_valid fs then None else find_entry_loop fs name [0..<entry_count fs])"

fun find_data_loop :: "bootfs \<Rightarrow> bytes \<Rightarrow> nat list \<Rightarrow> bytes option" where
  "find_data_loop fs name [] = None"
| "find_data_loop fs name (index # rest) =
     (case bootfs_entry fs index of
        Some e \<Rightarrow> if be_name_bytes fs e = name then Some (be_data_bytes fs e) else find_data_loop fs name rest
      | None \<Rightarrow> find_data_loop fs name rest)"

definition bootfs_find_data :: "bootfs \<Rightarrow> bytes \<Rightarrow> bytes option" where
  "bootfs_find_data fs name =
     (if \<not> bootfs_valid fs then None else find_data_loop fs name [0..<entry_count fs])"

definition bootfs_used_bytes :: "bootfs \<Rightarrow> nat" where
  "bootfs_used_bytes fs = (if bootfs_valid fs then length (the fs) else 0)"

definition bootfs_ls_entry :: "bootfs \<Rightarrow> nat \<Rightarrow> console \<Rightarrow> console" where
  "bootfs_ls_entry fs index con =
     (case bootfs_entry fs index of
        None \<Rightarrow> con
      | Some e \<Rightarrow>
          let con = (if be_kind e = 2 then console_write ''[dir]  '' con else console_write ''[file] '' con);
              con = write_bytes (be_name_bytes fs e) con;
              con = console_write ''  '' con;
              con = write_usize (be_data_len e) con
          in write_line '' B'' con)"

definition bootfs_ls :: "bootfs \<Rightarrow> console \<Rightarrow> console" where
  "bootfs_ls fs con =
     (if \<not> bootfs_valid fs then write_line ''bootfs: not loaded'' con
      else fold (bootfs_ls_entry fs) [0..<entry_count fs] con)"

definition bootfs_cat :: "bootfs \<Rightarrow> bytes \<Rightarrow> console \<Rightarrow> console" where
  "bootfs_cat fs name con =
     (if \<not> bootfs_valid fs then write_line ''bootfs: not loaded'' con
      else
        case bootfs_find_data fs name of
          Some data \<Rightarrow> new_line (write_bytes data con)
        | None \<Rightarrow> write_line ''bootcat: not found'' con)"

section \<open>Bounds\<close>

lemma bootfs_entry_image: "bootfs_entry fs index = Some e \<Longrightarrow> \<exists>img. fs = Some img \<and> bootfs_valid fs"
  by (cases "bootfs_valid fs") (auto simp: bootfs_entry_def entry_size_def bootfs_valid_def split: option.splits)

lemma bootfs_entry_bounds:
  assumes "bootfs_entry fs index = Some e"
  shows "12 \<le> be_name e" "be_name e + be_name_len e \<le> length (the fs)" "be_name_len e \<le> 32"
    "be_data e + be_data_len e \<le> length (the fs)"
  using assms by (auto simp: bootfs_entry_def Let_def split: if_splits)

lemma find_data_loop_entry:
  "find_data_loop fs name is = map_option (be_data_bytes fs) (find_entry_loop fs name is)"
  by (induction fs name "is" rule: find_data_loop.induct) (auto split: option.splits)

lemma find_entry_loop_Some:
  "find_entry_loop fs name is = Some e \<Longrightarrow> \<exists>i \<in> set is. bootfs_entry fs i = Some e \<and> be_name_bytes fs e = name"
  by (induction fs name "is" rule: find_entry_loop.induct) (auto split: option.splits if_splits)

lemma find_entry_loop_None:
  "find_entry_loop fs name is = None \<Longrightarrow> i \<in> set is \<Longrightarrow> bootfs_entry fs i = Some e \<Longrightarrow> be_name_bytes fs e \<noteq> name"
  by (induction fs name "is" rule: find_entry_loop.induct) (auto split: option.splits if_splits)

section \<open>Properties\<close>

text \<open>
   Whatever bytes the boot image holds, an entry that the parser returns has its name and its
  data inside the image: no pointer computed from the image leaves it.
\<close>

theorem bootfs_entry_in_bounds:
  assumes "bootfs_entry fs index = Some e"
  shows "\<exists>img. fs = Some img \<and> 12 \<le> be_name e \<and> be_name e + be_name_len e \<le> length img \<and>
    be_data e + be_data_len e \<le> length img \<and> length (be_name_bytes fs e) = be_name_len e \<and>
    length (be_data_bytes fs e) = be_data_len e"
  using bootfs_entry_bounds [OF assms] bootfs_entry_image [OF assms]
  by (auto simp: be_name_bytes_def be_data_bytes_def)

definition demo_image :: bytes where
  "demo_image = lit ''RYFS1'' @ [0, 0, 0] @ [1, 0, 42, 0] @ [1, 2] @ [54, 0, 0, 0] @ [3, 0, 0, 0] @ lit ''hi'' @
     replicate 30 0 @ lit ''abc''"

lemma demo_image_entry:
  "bootfs_entry (Some demo_image) 0 = Some \<lparr>be_kind = 1, be_name = 22, be_name_len = 2, be_data = 54, be_data_len = 3\<rparr>"
  by code_simp

theorem bootfs_entry_in_bounds_witness:
  "\<exists>e img. bootfs_entry (Some demo_image) 0 = Some e \<and> Some demo_image = Some img \<and>
     be_data e + be_data_len e \<le> length img"
  using bootfs_entry_in_bounds [OF demo_image_entry] demo_image_entry by auto

text \<open>
  Looking up data by name is looking up the entry and taking its bytes; the lookup fails
  exactly when no readable entry of the table has the name.
\<close>

theorem bootfs_find_data_correct:
  "bootfs_find_data fs name = map_option (be_data_bytes fs) (bootfs_find_entry fs name) \<and>
   (bootfs_find_data fs name = None \<longleftrightarrow>
      \<not> (\<exists>i < entry_count fs. \<exists>e. bootfs_entry fs i = Some e \<and> be_name_bytes fs e = name))"
proof -
  have e: "bootfs_find_data fs name = map_option (be_data_bytes fs) (bootfs_find_entry fs name)"
    by (simp add: bootfs_find_data_def bootfs_find_entry_def find_data_loop_entry)
  have "bootfs_find_entry fs name = None \<longleftrightarrow>
      \<not> (\<exists>i < entry_count fs. \<exists>e. bootfs_entry fs i = Some e \<and> be_name_bytes fs e = name)"
  proof (cases "bootfs_valid fs")
    case False
    then show ?thesis by (simp add: bootfs_find_entry_def entry_count_def)
  next
    case True
    then show ?thesis
      using find_entry_loop_Some [of fs name "[0..<entry_count fs]"] find_entry_loop_None [of fs name "[0..<entry_count fs]"]
      by (cases "find_entry_loop fs name [0..<entry_count fs]") (fastforce simp: bootfs_find_entry_def)+
  qed
  with e show ?thesis by simp
qed

end
