(* ===== verification/Kernel_State.thy ===== *)
theory Kernel_State
  imports Address_Spaces Boot_Fs
begin

text \<open>
  The statics of \<^verbatim>\<open>kernel/src/main.rs\<close> as one record: the process table with its reserved
  idle slot, the running index, the next process number, the stacks waiting to be freed, the
  shared descriptor and pipe tables, the console and the initrd.  It extends the paging state,
  so that the page-table operations apply to it unchanged.

  A signed \<^verbatim>\<open>i32\<close> is a 32-bit word read with \<open>sint\<close>; pointers to byte strings are the
  byte strings.
\<close>

definition PROCESS_COUNT :: nat where "PROCESS_COUNT = 16"
definition PROCESS_NAME_MAX :: nat where "PROCESS_NAME_MAX = 24"
definition PROCESS_ARGS_MAX :: nat where "PROCESS_ARGS_MAX = 64"
definition PROCESS_ARGV_COUNT_MAX :: nat where "PROCESS_ARGV_COUNT_MAX = 8"
definition PROCESS_ARGV_VALUE_MAX :: nat where "PROCESS_ARGV_VALUE_MAX = 64"
definition PROCESS_HEAP_PAGE_MAX :: nat where "PROCESS_HEAP_PAGE_MAX = 1024"
definition PROCESS_MAPPING_MAX :: nat where "PROCESS_MAPPING_MAX = 64"
definition APP_CWD_MAX :: nat where "APP_CWD_MAX = 64"
definition APP_ENV_COUNT :: nat where "APP_ENV_COUNT = 64"
definition APP_ENV_KEY_MAX :: nat where "APP_ENV_KEY_MAX = 24"
definition APP_ENV_VALUE_MAX :: nat where "APP_ENV_VALUE_MAX = 96"
definition APP_FD_COUNT :: nat where "APP_FD_COUNT = 32"
definition APP_FD_BASE :: int where "APP_FD_BASE = 3"
definition APP_PIPE_COUNT :: nat where "APP_PIPE_COUNT = 12"
definition APP_PIPE_BUFFER_SIZE :: nat where "APP_PIPE_BUFFER_SIZE = 8192"
definition STDIN_FD :: int where "STDIN_FD = 0"
definition STDOUT_FD :: int where "STDOUT_FD = 1"
definition STDERR_FD :: int where "STDERR_FD = 2"
definition ERR_OK :: int where "ERR_OK = 0"
definition ERR_INVAL :: int where "ERR_INVAL = 22"
definition ERR_NOENT :: int where "ERR_NOENT = 2"
definition ERR_NOSPC :: int where "ERR_NOSPC = 28"
definition ERR_NOTDIR :: int where "ERR_NOTDIR = 20"
definition ERR_ISDIR :: int where "ERR_ISDIR = 21"
definition ERR_EXIST :: int where "ERR_EXIST = 17"
definition ERR_IO :: int where "ERR_IO = 5"

lemmas process_consts [simp] = PROCESS_COUNT_def PROCESS_NAME_MAX_def PROCESS_ARGS_MAX_def PROCESS_ARGV_COUNT_MAX_def
  PROCESS_ARGV_VALUE_MAX_def PROCESS_HEAP_PAGE_MAX_def PROCESS_MAPPING_MAX_def APP_CWD_MAX_def APP_ENV_COUNT_def
  APP_ENV_KEY_MAX_def APP_ENV_VALUE_MAX_def APP_FD_COUNT_def APP_FD_BASE_def APP_PIPE_COUNT_def APP_PIPE_BUFFER_SIZE_def
  STDIN_FD_def STDOUT_FD_def STDERR_FD_def

lemmas error_consts [simp] = ERR_OK_def ERR_INVAL_def ERR_NOENT_def ERR_NOSPC_def ERR_NOTDIR_def ERR_ISDIR_def
  ERR_EXIST_def ERR_IO_def

datatype process_state = Empty | Ready | Running | Exited | Failed | Blocked | Loading

datatype wait_target = WaitNone | WaitPid u32 | WaitAnyChild

record process_mapping =
  pm_used :: bool
  pm_virt :: u64
  pm_pages :: nat

record app_env_var =
  ev_used :: bool
  ev_deleted :: bool
  ev_key :: bytes
  ev_key_len :: nat
  ev_value :: bytes
  ev_value_len :: nat

record process =
  p_pid :: u32
  p_parent_pid :: u32
  p_waited :: bool
  p_state :: process_state
  p_exit_code :: u32
  p_name :: bytes
  p_name_len :: nat
  p_args :: bytes
  p_args_len :: nat
  p_argv :: "bytes list"
  p_argv_lens :: "nat list"
  p_argv_count :: nat
  p_heap_base :: u64
  p_heap_pages :: "u64 list"
  p_heap_page_count :: nat
  p_mappings :: "process_mapping list"
  p_pml4_phys :: u64
  p_std_fds :: "int list"
  p_cwd :: bytes
  p_cwd_len :: nat
  p_env :: "app_env_var list"
  p_last_error :: int
  p_heap_next :: u64
  p_heap_limit :: u64
  p_mmap_next :: u64
  p_mmap_limit :: u64
  p_context_rsp :: u64
  p_entry_point :: u64
  p_waiting_for :: wait_target

datatype app_fd_kind = KindEmpty | KindBootFs | KindPfs | KindPipeRead | KindPipeWrite

text \<open>The \<^verbatim>\<open>data\<close> pointer of a descriptor is the byte string it points to.\<close>

record app_fd =
  fd_is_open :: bool
  fd_kind :: app_fd_kind
  fd_flags :: u32
  fd_data :: bytes
  fd_len :: nat
  fd_offset :: nat
  fd_pfs_index :: nat

record app_pipe =
  pp_used :: bool
  pp_read_open :: bool
  pp_write_open :: bool
  pp_buffer :: bytes
  pp_read_offset :: nat
  pp_len :: nat

definition process_mapping_empty :: process_mapping where
  "process_mapping_empty = \<lparr>pm_used = False, pm_virt = 0, pm_pages = 0\<rparr>"

definition app_env_var_empty :: app_env_var where
  "app_env_var_empty = \<lparr>ev_used = False, ev_deleted = False, ev_key = replicate APP_ENV_KEY_MAX 0, ev_key_len = 0,
     ev_value = replicate APP_ENV_VALUE_MAX 0, ev_value_len = 0\<rparr>"

definition app_fd_empty :: app_fd where
  "app_fd_empty = \<lparr>fd_is_open = False, fd_kind = KindEmpty, fd_flags = 0, fd_data = [], fd_len = 0, fd_offset = 0,
     fd_pfs_index = 0\<rparr>"

definition app_pipe_empty :: app_pipe where
  "app_pipe_empty = \<lparr>pp_used = False, pp_read_open = False, pp_write_open = False,
     pp_buffer = replicate APP_PIPE_BUFFER_SIZE 0, pp_read_offset = 0, pp_len = 0\<rparr>"

definition process_empty :: process where
  "process_empty =
     \<lparr>p_pid = 0, p_parent_pid = 0, p_waited = False, p_state = Empty, p_exit_code = 0,
      p_name = replicate PROCESS_NAME_MAX 0, p_name_len = 0, p_args = replicate PROCESS_ARGS_MAX 0, p_args_len = 0,
      p_argv = replicate PROCESS_ARGV_COUNT_MAX (replicate PROCESS_ARGV_VALUE_MAX 0),
      p_argv_lens = replicate PROCESS_ARGV_COUNT_MAX 0, p_argv_count = 0,
      p_heap_base = 0, p_heap_pages = replicate PROCESS_HEAP_PAGE_MAX 0, p_heap_page_count = 0,
      p_mappings = replicate PROCESS_MAPPING_MAX process_mapping_empty, p_pml4_phys = 0,
      p_std_fds = [STDIN_FD, STDOUT_FD, STDERR_FD], p_cwd = replicate APP_CWD_MAX 0, p_cwd_len = 0,
      p_env = replicate APP_ENV_COUNT app_env_var_empty, p_last_error = ERR_OK,
      p_heap_next = 0, p_heap_limit = 0, p_mmap_next = 0, p_mmap_limit = 0,
      p_context_rsp = 0, p_entry_point = 0, p_waiting_for = WaitNone\<rparr>"

record kernel = paging +
  process_table :: "process list"
  current_process_index :: nat
  next_pid :: u32
  pending_stack_reclaims :: "u32 option list"
  app_console :: "console option"
  app_bootfs :: bootfs
  app_fds :: "app_fd list"
  app_pipes :: "app_pipe list"

text \<open>Changing one slot, and the fields of a slot.\<close>

definition set_proc :: "nat \<Rightarrow> process \<Rightarrow> kernel \<Rightarrow> kernel" where
  "set_proc index p k = k\<lparr>process_table := (process_table k)[index := p]\<rparr>"

abbreviation proc :: "kernel \<Rightarrow> nat \<Rightarrow> process" where
  "proc k index \<equiv> process_table k ! index"

lemma set_proc_simps [simp]:
  "current_process_index (set_proc i p k) = current_process_index k" "next_pid (set_proc i p k) = next_pid k"
  "length (process_table (set_proc i p k)) = length (process_table k)"
  "pending_stack_reclaims (set_proc i p k) = pending_stack_reclaims k"
  "app_console (set_proc i p k) = app_console k" "app_bootfs (set_proc i p k) = app_bootfs k"
  "app_fds (set_proc i p k) = app_fds k" "app_pipes (set_proc i p k) = app_pipes k"
  "phys_mem (set_proc i p k) = phys_mem k" "phys_alloc (set_proc i p k) = phys_alloc k"
  "kernel_pml4_phys (set_proc i p k) = kernel_pml4_phys k" "cr3 (set_proc i p k) = cr3 k"
  by (simp_all add: set_proc_def)

lemma proc_set_proc:
  "i < length (process_table k) \<Longrightarrow> proc (set_proc i p k) j = (if j = i then p else proc k j)"
  by (simp add: set_proc_def nth_list_update)

lemma proc_set_same [simp]: "i < length (process_table k) \<Longrightarrow> proc (set_proc i p k) i = p"
  and proc_set_other [simp]: "j \<noteq> i \<Longrightarrow> proc (set_proc i p k) j = proc k j"
  by (simp_all add: set_proc_def)

lemma set_proc_set_proc [simp]: "set_proc i p (set_proc i q k) = set_proc i p k"
  by (simp add: set_proc_def)

text \<open>The sizes of the fixed arrays.\<close>

definition process_ok :: "process \<Rightarrow> bool" where
  "process_ok p \<longleftrightarrow>
     length (p_name p) = 24 \<and> p_name_len p \<le> 24 \<and> length (p_args p) = 64 \<and> p_args_len p \<le> 64 \<and>
     length (p_argv p) = 8 \<and> list_all (\<lambda>a. length a = 64) (p_argv p) \<and> length (p_argv_lens p) = 8 \<and>
     list_all (\<lambda>n. n \<le> 64) (p_argv_lens p) \<and> p_argv_count p \<le> 8 \<and>
     length (p_mappings p) = 64 \<and> length (p_std_fds p) = 3 \<and>
     length (p_cwd p) = 64 \<and> p_cwd_len p \<le> 64 \<and> length (p_env p) = 64"

definition table_ok :: "kernel \<Rightarrow> bool" where
  "table_ok k \<longleftrightarrow> length (process_table k) = 17 \<and> list_all process_ok (process_table k) \<and>
     current_process_index k \<le> 16 \<and> length (pending_stack_reclaims k) = 16"

lemma table_ok_length: "table_ok k \<Longrightarrow> length (process_table k) = 17"
  by (simp add: table_ok_def)

lemma table_ok_proc: "table_ok k \<Longrightarrow> i \<le> 16 \<Longrightarrow> process_ok (proc k i)"
  by (simp add: table_ok_def list_all_length)

lemma table_ok_set_proc: "table_ok k \<Longrightarrow> process_ok p \<Longrightarrow> table_ok (set_proc i p k)"
  by (auto simp: table_ok_def set_proc_def list_all_iff dest: set_update_subset_insert [THEN subsetD])

lemma process_ok_empty: "process_ok process_empty"
  by (simp add: process_ok_def process_empty_def list_all_iff)

end
