(* ===== verification/Process_Table.thy ===== *)
theory Process_Table
  imports Kernel_State
begin

text \<open>
  The process table, \<^verbatim>\<open>kernel/src/main.rs\<close>: claiming a slot for a new process, its state and
  exit status, the mappings it owns, the process list, and the non-blocking half of
  \<^verbatim>\<open>wait\<close>.  Each function runs with interrupts disabled or touches one field, so it is one
  atomic operation on the kernel state.
\<close>

section \<open>Model\<close>

definition process_find_slot :: "kernel \<Rightarrow> process_state \<Rightarrow> nat option" where
  "process_find_slot k st = find (\<lambda>index. p_state (proc k index) = st) [0..<PROCESS_COUNT]"

definition zombie :: "process \<Rightarrow> bool" where
  "zombie p \<longleftrightarrow> p_state p = Exited \<or> p_state p = Failed"

definition process_find_reapable_slot :: "kernel \<Rightarrow> nat option" where
  "process_find_reapable_slot k = find (\<lambda>index. p_waited (proc k index) \<and> zombie (proc k index)) [0..<PROCESS_COUNT]"

text \<open>The copies of the arguments into the fixed arrays of the slot, truncated to their size.\<close>

definition copy_arg :: "bytes list \<Rightarrow> nat \<Rightarrow> process \<Rightarrow> process" where
  "copy_arg argv i p =
     (let arg_len = min (length (argv ! i)) PROCESS_ARGV_VALUE_MAX in
      p\<lparr>p_argv_lens := (p_argv_lens p)[i := arg_len],
        p_argv := (p_argv p)[i := copy_at (p_argv p ! i) 0 (take arg_len (argv ! i))]\<rparr>)"

definition copy_argv :: "bytes list \<Rightarrow> process \<Rightarrow> process" where
  "copy_argv argv p =
     fold (copy_arg argv) [0..<min (length argv) PROCESS_ARGV_COUNT_MAX]
       (p\<lparr>p_argv_count := min (length argv) PROCESS_ARGV_COUNT_MAX\<rparr>)"

definition new_process :: "u32 \<Rightarrow> u32 \<Rightarrow> bytes \<Rightarrow> bytes \<Rightarrow> bytes list \<Rightarrow> process" where
  "new_process pid parent_pid name args argv =
     (let name_len = min (length name) PROCESS_NAME_MAX; args_len = min (length args) PROCESS_ARGS_MAX in
      copy_argv argv
        (process_empty\<lparr>p_pid := pid, p_parent_pid := parent_pid, p_state := Loading,
           p_name_len := name_len, p_name := copy_at (p_name process_empty) 0 (take name_len name),
           p_args_len := args_len, p_args := copy_at (p_args process_empty) 0 (take args_len args)\<rparr>))"

definition process_spawn_with_argv ::
  "bytes \<Rightarrow> bytes \<Rightarrow> bytes list \<Rightarrow> u32 \<Rightarrow> kernel \<Rightarrow> nat option \<times> kernel" where
  "process_spawn_with_argv name args argv parent_pid k =
     (let pid = next_pid k;
          bumped = next_pid k + 1;
          k = k\<lparr>next_pid := (if bumped = 0 then 1 else bumped)\<rparr>;
          slot = (case process_find_slot k Empty of
                    Some index \<Rightarrow> Some index | None \<Rightarrow> process_find_reapable_slot k)
      in case slot of
           Some index \<Rightarrow> (Some index, set_proc index (new_process pid parent_pid name args argv) k)
         | None \<Rightarrow> (None, k))"

definition process_pid :: "kernel \<Rightarrow> nat \<Rightarrow> u32" where
  "process_pid k index = p_pid (proc k index)"

definition current_pid :: "kernel \<Rightarrow> u32" where
  "current_pid k = process_pid k (current_process_index k)"

definition process_spawn :: "bytes \<Rightarrow> bytes \<Rightarrow> kernel \<Rightarrow> nat option \<times> kernel" where
  "process_spawn name args k =
     process_spawn_with_argv name args (raw_args_to_argv args) (current_pid k) k"

definition process_set_state :: "nat \<Rightarrow> process_state \<Rightarrow> u32 \<Rightarrow> kernel \<Rightarrow> kernel" where
  "process_set_state index st exit_code k =
     set_proc index ((proc k index)\<lparr>p_state := st, p_exit_code := exit_code\<rparr>) k"

definition process_fail_unwaited :: "nat \<Rightarrow> kernel \<Rightarrow> kernel" where
  "process_fail_unwaited index k =
     (let k = process_set_state index Failed (- 1) k in
      set_proc index ((proc k index)\<lparr>p_waited := True\<rparr>) k)"

definition process_track_mapping :: "nat \<Rightarrow> u64 \<Rightarrow> nat \<Rightarrow> kernel \<Rightarrow> bool \<times> kernel" where
  "process_track_mapping index virt pages k =
     (if index \<ge> PROCESS_COUNT then (False, k)
      else
        let p = proc k index; maps = p_mappings p in
        case find (\<lambda>i. \<not> pm_used (maps ! i)) [0..<length maps] of
          Some i \<Rightarrow>
            (True, set_proc index
               (p\<lparr>p_mappings := maps[i := \<lparr>pm_used = True, pm_virt = virt, pm_pages = pages\<rparr>]\<rparr>) k)
        | None \<Rightarrow> (False, k))"

definition process_untrack_mapping :: "nat \<Rightarrow> u64 \<Rightarrow> nat \<Rightarrow> kernel \<Rightarrow> bool \<times> kernel" where
  "process_untrack_mapping index virt pages k =
     (if index \<ge> PROCESS_COUNT then (False, k)
      else
        let p = proc k index; maps = p_mappings p in
        case find (\<lambda>i. pm_used (maps ! i) \<and> pm_virt (maps ! i) = virt \<and> pm_pages (maps ! i) = pages) [0..<length maps] of
          Some i \<Rightarrow>
            (True, set_proc index
               (p\<lparr>p_mappings := maps[i := (maps ! i)\<lparr>pm_used := False, pm_virt := 0, pm_pages := 0\<rparr>]\<rparr>) k)
        | None \<Rightarrow> (False, k))"

definition reclaim_mapping :: "process_mapping \<Rightarrow> nat \<times> kernel \<Rightarrow> nat \<times> kernel" where
  "reclaim_mapping mapping = (\<lambda>(reclaimed, k).
     if \<not> pm_used mapping then (reclaimed, k)
     else case unmap_user_pages (kernel_pml4_phys k) (pm_virt mapping) (pm_pages mapping) k of
            (n, k) \<Rightarrow> (reclaimed + n, k))"

text \<open>Every used mapping is unmapped and its slot emptied; an unused slot is left as it is.\<close>

definition process_reclaim_mappings :: "nat \<Rightarrow> kernel \<Rightarrow> nat \<times> kernel" where
  "process_reclaim_mappings index k =
     (if index \<ge> PROCESS_COUNT then (0, k)
      else
        let p = proc k index in
        case fold reclaim_mapping (p_mappings p) (0, k) of
          (reclaimed, k) \<Rightarrow>
            (reclaimed, set_proc index
               (p\<lparr>p_mappings := map (\<lambda>m. if pm_used m then process_mapping_empty else m) (p_mappings p),
                 p_heap_base := 0, p_heap_pages := replicate (length (p_heap_pages p)) 0, p_heap_page_count := 0\<rparr>) k))"

record process_status =
  st_state :: u32
  st_exit_code :: u32

fun state_code :: "process_state \<Rightarrow> u32" where
  "state_code Empty = 0"
| "state_code Ready = 1"
| "state_code Running = 2"
| "state_code Exited = 3"
| "state_code Failed = 4"
| "state_code Blocked = 5"
| "state_code Loading = 6"

fun process_state_name :: "process_state \<Rightarrow> string" where
  "process_state_name Empty = ''empty''"
| "process_state_name Ready = ''ready''"
| "process_state_name Running = ''running''"
| "process_state_name Exited = ''exited''"
| "process_state_name Failed = ''failed''"
| "process_state_name Blocked = ''blocked''"
| "process_state_name Loading = ''loading''"

definition process_state_from_u32 :: "u32 \<Rightarrow> process_state" where
  "process_state_from_u32 st =
     (if st = 1 then Ready else if st = 2 then Running else if st = 3 then Exited else if st = 4 then Failed
      else if st = 5 then Blocked else if st = 6 then Loading else Empty)"

definition collect_status :: "nat \<Rightarrow> kernel \<Rightarrow> process_status \<times> kernel" where
  "collect_status index k =
     (let p = proc k index in
      (\<lparr>st_state = state_code (p_state p), st_exit_code = p_exit_code p\<rparr>, set_proc index (p\<lparr>p_waited := True\<rparr>) k))"

definition process_wait_by_pid :: "u32 \<Rightarrow> kernel \<Rightarrow> process_status option \<times> kernel" where
  "process_wait_by_pid pid k =
     (case find (\<lambda>index. p_pid (proc k index) = pid \<and> \<not> p_waited (proc k index) \<and> zombie (proc k index))
        [0..<PROCESS_COUNT] of
        Some index \<Rightarrow> (case collect_status index k of (st, k) \<Rightarrow> (Some st, k))
      | None \<Rightarrow> (None, k))"

definition process_wait_any_child :: "u32 \<Rightarrow> kernel \<Rightarrow> (u32 \<times> process_status) option \<times> kernel" where
  "process_wait_any_child parent_pid k =
     (case find (\<lambda>index. p_parent_pid (proc k index) = parent_pid \<and> \<not> p_waited (proc k index) \<and> zombie (proc k index))
        [0..<PROCESS_COUNT] of
        Some index \<Rightarrow> (case collect_status index k of (st, k') \<Rightarrow> (Some (p_pid (proc k index), st), k'))
      | None \<Rightarrow> (None, k))"

definition find_process_index_by_pid :: "u32 \<Rightarrow> kernel \<Rightarrow> nat option" where
  "find_process_index_by_pid pid k =
     find (\<lambda>index. p_pid (proc k index) = pid \<and> p_state (proc k index) \<noteq> Empty) [0..<PROCESS_COUNT]"

definition print_process_status :: "u32 \<Rightarrow> process_status \<Rightarrow> console \<Rightarrow> console" where
  "print_process_status pid status con =
     (let con = console_write ''pid '' con;
          con = write_usize (unat pid) con;
          con = console_write '' '' con;
          con = console_write (process_state_name (process_state_from_u32 (st_state status))) con;
          con = console_write '' exit '' con;
          con = write_i32 (st_exit_code status) con
      in new_line con)"

definition process_wait :: "bytes \<Rightarrow> console \<Rightarrow> kernel \<Rightarrow> console \<times> kernel" where
  "process_wait pid_bytes con k =
     (if pid_bytes = [] then
        case process_wait_any_child 0 k of
          (Some (pid, status), k) \<Rightarrow> (print_process_status pid status con, k)
        | (None, k) \<Rightarrow> (write_line ''wait: no child status'' con, k)
      else
        case parse_u32 pid_bytes of
          None \<Rightarrow> (write_line ''wait: invalid pid'' con, k)
        | Some pid \<Rightarrow>
            case process_wait_by_pid pid k of
              (Some status, k) \<Rightarrow> (print_process_status pid status con, k)
            | (None, k) \<Rightarrow> (write_line ''wait: pid not found'' con, k))"

definition process_list_entry :: "process \<Rightarrow> console \<Rightarrow> console" where
  "process_list_entry p con =
     (if p_state p = Empty then con
      else
        let con = write_usize (unat (p_pid p)) con;
            con = console_write ''    '' con;
            con = console_write (process_state_name (p_state p)) con;
            con = console_write ''  '' con;
            con = write_i32 (p_exit_code p) con;
            con = console_write ''     '' con;
            con = write_bytes (take (p_name_len p) (p_name p)) con;
            con = (if p_args_len p > 0 then
                     write_bytes (take (p_args_len p) (p_args p)) (console_write '' '' con) else con)
        in new_line con)"

definition process_list :: "kernel \<Rightarrow> console \<Rightarrow> console" where
  "process_list k con =
     fold (\<lambda>index. process_list_entry (proc k index)) [0..<PROCESS_COUNT]
       (write_line ''pid  state    exit  name args'' con)"

section \<open>Claiming a slot\<close>

lemma fold_argv_ok: "process_ok p \<Longrightarrow> set is \<subseteq> {..<8} \<Longrightarrow> process_ok (fold (copy_arg argv) is p)"
proof (induction "is" arbitrary: p)
  case (Cons i "is")
  then have "process_ok (copy_arg argv i p)"
    by (auto simp: copy_arg_def Let_def process_ok_def list_all_length nth_list_update)
  with Cons.IH [of "copy_arg argv i p"] Cons.prems(2) show ?case by simp
qed simp

lemma copy_argv_ok: "process_ok p \<Longrightarrow> process_ok (copy_argv argv p)"
  unfolding copy_argv_def by (rule fold_argv_ok) (auto simp: process_ok_def)

definition same_identity :: "process \<Rightarrow> process \<Rightarrow> bool" where
  "same_identity p q \<longleftrightarrow> p_pid q = p_pid p \<and> p_parent_pid q = p_parent_pid p \<and> p_waited q = p_waited p \<and>
     p_state q = p_state p \<and> p_context_rsp q = p_context_rsp p \<and> p_waiting_for q = p_waiting_for p \<and>
     p_name q = p_name p \<and> p_name_len q = p_name_len p"

lemma fold_argv_identity: "same_identity p (fold (copy_arg argv) is p)"
  by (induction "is" arbitrary: p) (auto simp: same_identity_def copy_arg_def Let_def)

lemma copy_argv_identity: "same_identity p (copy_argv argv p)"
  using fold_argv_identity [of "p\<lparr>p_argv_count := min (length argv) 8\<rparr>" argv "[0..<min (length argv) 8]"]
  by (simp add: copy_argv_def same_identity_def)

lemma new_process_fields [simp]:
  "p_pid (new_process pid par name args argv) = pid" "p_parent_pid (new_process pid par name args argv) = par"
  "p_state (new_process pid par name args argv) = Loading" "\<not> p_waited (new_process pid par name args argv)"
  "p_context_rsp (new_process pid par name args argv) = 0"
  "take (p_name_len (new_process pid par name args argv)) (p_name (new_process pid par name args argv)) = take 24 name"
  using copy_argv_identity [of "process_empty\<lparr>p_pid := pid, p_parent_pid := par, p_state := Loading,
           p_name_len := min (length name) 24, p_name := copy_at (p_name process_empty) 0 (take (min (length name) 24) name),
           p_args_len := min (length args) 64, p_args := copy_at (p_args process_empty) 0 (take (min (length args) 64) args)\<rparr>" argv]
  by (simp_all add: new_process_def Let_def same_identity_def) (simp_all add: process_empty_def copy_at_def min_def)

lemma new_process_ok: "process_ok (new_process pid par name args argv)"
  unfolding new_process_def Let_def
  by (rule copy_argv_ok) (simp add: process_ok_def process_empty_def list_all_iff)

text \<open>A slot that may be given to a new process: unused, or a zombie whose status was collected.\<close>

definition reusable :: "process \<Rightarrow> bool" where
  "reusable p \<longleftrightarrow> p_state p = Empty \<or> p_waited p \<and> zombie p"

lemma spawn_cases [consumes 1, case_names claimed full]:
  assumes "process_spawn_with_argv name args argv parent_pid k = (r, k')"
  obtains i where "r = Some i" "i < 16" "reusable (proc k i)"
      "k' = set_proc i (new_process (next_pid k) parent_pid name args argv)
         (k\<lparr>next_pid := (if next_pid k + 1 = 0 then 1 else next_pid k + 1)\<rparr>)"
  | "r = None" "k' = k\<lparr>next_pid := (if next_pid k + 1 = 0 then 1 else next_pid k + 1)\<rparr>"
      "\<And>i. i < 16 \<Longrightarrow> \<not> reusable (proc k i)"
proof -
  let ?b = "if next_pid k + 1 = 0 then 1 else next_pid k + 1"
  let ?k = "k\<lparr>next_pid := ?b\<rparr>"
  consider (e) i where "process_find_slot ?k Empty = Some i"
    | (z) i where "process_find_slot ?k Empty = None" "process_find_reapable_slot ?k = Some i"
    | (f) "process_find_slot ?k Empty = None" "process_find_reapable_slot ?k = None"
    by (cases "process_find_slot ?k Empty"; cases "process_find_reapable_slot ?k") auto
  then show ?thesis
  proof cases
    case e
    with find_upt_SomeD(1,2) [OF e [unfolded process_find_slot_def]] assms show ?thesis
      by (intro that(1) [of i]) (simp_all add: process_spawn_with_argv_def Let_def reusable_def)
  next
    case z
    with find_upt_SomeD(1,2) [OF z(2) [unfolded process_find_reapable_slot_def]] assms show ?thesis
      by (intro that(1) [of i]) (simp_all add: process_spawn_with_argv_def Let_def reusable_def)
  next
    case f
    have "\<not> reusable (proc k i)" if "i < 16" for i
      using find_upt_NoneD [OF f(1) [unfolded process_find_slot_def], of i]
        find_upt_NoneD [OF f(2) [unfolded process_find_reapable_slot_def], of i] that
      by (simp add: reusable_def)
    with f assms show ?thesis by (intro that(2)) (simp_all add: process_spawn_with_argv_def Let_def)
  qed
qed

text \<open>Process numbers are unique while the counter has not wrapped.\<close>

definition pids_ok :: "kernel \<Rightarrow> bool" where
  "pids_ok k \<longleftrightarrow>
     (\<forall>i<16. p_state (proc k i) \<noteq> Empty \<longrightarrow> 0 < p_pid (proc k i) \<and> p_pid (proc k i) < next_pid k) \<and>
     (\<forall>i<16. \<forall>j<16. p_state (proc k i) \<noteq> Empty \<longrightarrow> p_state (proc k j) \<noteq> Empty \<longrightarrow>
        p_pid (proc k i) = p_pid (proc k j) \<longrightarrow> i = j) \<and> 0 < next_pid k"

lemma pids_okD: "pids_ok k \<Longrightarrow> i < 16 \<Longrightarrow> j < 16 \<Longrightarrow> p_state (proc k i) \<noteq> Empty \<Longrightarrow> p_state (proc k j) \<noteq> Empty \<Longrightarrow>
    p_pid (proc k i) = p_pid (proc k j) \<Longrightarrow> i = j"
  by (simp add: pids_ok_def)

lemma next_pid_less: "(n :: u32) + 1 \<noteq> 0 \<Longrightarrow> n < n + 1"
proof -
  assume "n + 1 \<noteq> 0"
  then have "unat n + 1 \<noteq> 2 ^ 32" using unat_eq_zero [of "n + 1"] by (auto simp: unat_word_ariths)
  then have "unat n + 1 < 2 ^ 32" using unat_bound [of n] by simp
  then have "unat (n + 1) = unat n + 1" using unat_add_no_wrap [of n 1] by simp
  then show ?thesis by (simp add: word_less_nat_alt)
qed

lemma table_ok_next_pid [simp]: "table_ok (k\<lparr>next_pid := n\<rparr>) = table_ok k"
  by (simp add: table_ok_def)

lemma pids_ok_spawn:
  assumes "pids_ok k" "next_pid k + 1 \<noteq> 0" "length (process_table k) = 17" "i < 16"
  shows "pids_ok (set_proc i (new_process (next_pid k) par name args argv) (k\<lparr>next_pid := next_pid k + 1\<rparr>))"
proof -
  note lt = next_pid_less [OF assms(2)]
  let ?k = "set_proc i (new_process (next_pid k) par name args argv) (k\<lparr>next_pid := next_pid k + 1\<rparr>)"
  have old: "p_pid (proc k j) \<noteq> next_pid k" if "j < 16" "p_state (proc k j) \<noteq> Empty" for j
    using assms(1) that by (auto simp: pids_ok_def)
  have pr: "proc ?k j = (if j = i then new_process (next_pid k) par name args argv else proc k j)" if "j < 16" for j
    using assms(3,4) by (simp add: proc_set_proc)
  show ?thesis unfolding pids_ok_def
  proof (intro conjI allI impI)
    fix j assume j: "j < 16" "p_state (proc ?k j) \<noteq> Empty"
    with assms(1) lt show "0 < p_pid (proc ?k j)" "p_pid (proc ?k j) < next_pid ?k"
      by (auto simp: pr pids_ok_def split: if_splits intro: less_trans)
    fix l assume "l < 16" "p_state (proc ?k l) \<noteq> Empty" "p_pid (proc ?k j) = p_pid (proc ?k l)"
    with j old [of j] old [of l] pids_okD [OF assms(1), of j l] show "j = l" by (auto simp: pr split: if_splits)
  next
    show "0 < next_pid ?k" using assms(2) by (simp add: word_neq_0_conv)
  qed
qed

lemma pids_ok_bump:
  assumes "pids_ok k" "next_pid k + 1 \<noteq> 0"
  shows "pids_ok (k\<lparr>next_pid := next_pid k + 1\<rparr>)"
  using assms next_pid_less [OF assms(2)] by (auto simp: pids_ok_def intro: less_trans)

text \<open>A change of state keeps the numbers unique.\<close>

lemma pids_ok_update:
  assumes "pids_ok k" "i < length (process_table k)" "p_pid p = p_pid (proc k i)"
    "p_state p \<noteq> Empty \<Longrightarrow> p_state (proc k i) \<noteq> Empty"
  shows "pids_ok (set_proc i p k)"
proof -
  have "p_pid (proc (set_proc i p k) j) = p_pid (proc k j)"
    "p_state (proc (set_proc i p k) j) \<noteq> Empty \<Longrightarrow> p_state (proc k j) \<noteq> Empty" for j
    using assms(2-4) by (auto simp: proc_set_proc split: if_splits)
  with assms(1) show ?thesis unfolding pids_ok_def set_proc_simps by metis
qed

section \<open>Collecting a status\<close>

lemma wait_by_pid_cases [consumes 1, case_names collected none]:
  assumes "process_wait_by_pid pid k = (r, k')"
  obtains i where "i < 16" "p_pid (proc k i) = pid" "\<not> p_waited (proc k i)" "zombie (proc k i)"
      "r = Some \<lparr>st_state = state_code (p_state (proc k i)), st_exit_code = p_exit_code (proc k i)\<rparr>"
      "k' = set_proc i ((proc k i)\<lparr>p_waited := True\<rparr>) k"
  | "r = None" "k' = k" "\<And>i. i < 16 \<Longrightarrow> p_pid (proc k i) = pid \<Longrightarrow> zombie (proc k i) \<Longrightarrow> p_waited (proc k i)"
proof (cases "find (\<lambda>index. p_pid (proc k index) = pid \<and> \<not> p_waited (proc k index) \<and> zombie (proc k index)) [0..<16]")
  case None
  with assms find_upt_NoneD [OF None] show ?thesis by (intro that(2)) (auto simp: process_wait_by_pid_def)
next
  case (Some i)
  with assms find_upt_SomeD(1,2) [OF Some] show ?thesis
    by (intro that(1) [of i]) (auto simp: process_wait_by_pid_def collect_status_def Let_def)
qed

lemma process_state_code_inverse: "process_state_from_u32 (state_code st) = st"
  by (cases st) (simp_all add: process_state_from_u32_def)

lemma zombie_waited [simp]: "zombie (p\<lparr>p_waited := b\<rparr>) = zombie p"
  by (simp add: zombie_def)

section \<open>Properties\<close>

text \<open>
  C18. Starting a process never overwrites one that matters: the slot it claims was unused or held
  a finished process whose status has been collected, every other slot is left alone, the new
  process gets a number no other process has and starts as \<^verbatim>\<open>Loading\<close>, so the scheduler cannot
  pick it.  When every slot holds a live process or an uncollected status, the call fails and the
  table is unchanged.  The table stays well formed.
\<close>

theorem process_spawn_claims:
  assumes "table_ok k" "pids_ok k" "next_pid k + 1 \<noteq> 0"
    and "process_spawn_with_argv name args argv parent_pid k = (r, k')"
  shows "table_ok k' \<and> pids_ok k' \<and>
    (case r of
       Some i \<Rightarrow> i < 16 \<and> reusable (proc k i) \<and> p_pid (proc k' i) = next_pid k \<and> p_parent_pid (proc k' i) = parent_pid \<and>
         p_state (proc k' i) = Loading \<and> take (p_name_len (proc k' i)) (p_name (proc k' i)) = take 24 name \<and>
         (\<forall>j. j \<noteq> i \<longrightarrow> proc k' j = proc k j)
     | None \<Rightarrow> process_table k' = process_table k \<and> (\<forall>i<16. \<not> reusable (proc k i)))"
  using assms(4)
proof (cases rule: spawn_cases)
  case (claimed i)
  have len: "length (process_table k) = 17" by (rule table_ok_length [OF assms(1)])
  have "table_ok k'" using assms(1,3) new_process_ok by (simp add: claimed(4) table_ok_set_proc)
  moreover have "pids_ok k'" using pids_ok_spawn [OF assms(2,3) len claimed(2)] assms(3) by (simp add: claimed(4))
  ultimately show ?thesis using claimed len by simp
next
  case full
  with assms(1) pids_ok_bump [OF assms(2,3)] assms(3) show ?thesis by simp
qed

definition demo_state :: kernel where
  "demo_state = \<lparr>phys_mem = (\<lambda>a. 0), phys_alloc = allocator_empty, kernel_pml4_phys = 0, cr3 = 0,
     process_table = replicate 17 process_empty, current_process_index = 16, next_pid = 1,
     pending_stack_reclaims = replicate 16 None, app_console = None, app_bootfs = None,
     app_fds = replicate 32 app_fd_empty, app_pipes = replicate 12 app_pipe_empty\<rparr>"

lemma demo_state_ok: "table_ok demo_state" "pids_ok demo_state"
  using process_ok_empty by (simp_all add: demo_state_def table_ok_def pids_ok_def list_all_iff process_empty_def)

theorem process_spawn_claims_witness:
  "\<exists>i k'. process_spawn_with_argv (lit ''rysh'') [] [] 0 demo_state = (Some i, k') \<and> pids_ok k' \<and> p_pid (proc k' i) = 1"
proof -
  obtain r k' where e: "process_spawn_with_argv (lit ''rysh'') [] [] 0 demo_state = (r, k')" by force
  have "r \<noteq> None" using e
  proof (cases rule: spawn_cases)
    case full
    from full(3) [of 0] show ?thesis by (simp add: demo_state_def reusable_def process_empty_def)
  qed simp
  moreover have "next_pid demo_state = 1" by (simp add: demo_state_def)
  ultimately show ?thesis using process_spawn_claims [OF demo_state_ok _ e] e by auto
qed

text \<open>
  The status of a finished process is delivered once and unaltered: \<^verbatim>\<open>process_wait_by_pid\<close>
  returns the state and exit code of the finished process with that number, marks it collected and
  changes nothing else, and a second call finds nothing.  It returns nothing only when no
  uncollected finished process has the number.
\<close>

theorem process_wait_by_pid_once:
  assumes "table_ok k" "pids_ok k" "process_wait_by_pid pid k = (r, k')"
  shows "table_ok k' \<and> pids_ok k' \<and>
    (case r of
       Some st \<Rightarrow> \<exists>i<16. p_pid (proc k i) = pid \<and> \<not> p_waited (proc k i) \<and> zombie (proc k i) \<and>
         process_state_from_u32 (st_state st) = p_state (proc k i) \<and> st_exit_code st = p_exit_code (proc k i) \<and>
         proc k' i = (proc k i)\<lparr>p_waited := True\<rparr> \<and> (\<forall>j. j \<noteq> i \<longrightarrow> proc k' j = proc k j) \<and>
         process_wait_by_pid pid k' = (None, k')
     | None \<Rightarrow> k' = k \<and> (\<forall>i<16. p_pid (proc k i) = pid \<longrightarrow> zombie (proc k i) \<longrightarrow> p_waited (proc k i)))"
  using assms(3)
proof (cases rule: wait_by_pid_cases)
  case none
  with assms(1,2) show ?thesis by simp
next
  case (collected i)
  have len: "length (process_table k) = 17" by (rule table_ok_length [OF assms(1)])
  have st: "p_state (proc k i) \<noteq> Empty" using collected(4) by (auto simp: zombie_def)
  have pr: "proc k' j = (if j = i then (proc k i)\<lparr>p_waited := True\<rparr> else proc k j)" for j
    using collected(1,6) len by (simp add: proc_set_proc)
  have "process_ok (proc k i)" using table_ok_proc [OF assms(1)] collected(1) by simp
  then have "table_ok k'" unfolding collected(6)
    by (intro table_ok_set_proc [OF assms(1)]) (simp add: process_ok_def)
  moreover have "pids_ok k'" unfolding collected(6)
    by (rule pids_ok_update [OF assms(2)]) (use collected(1) len in simp_all)
  moreover have "process_wait_by_pid pid k' = (None, k')"
  proof (cases "process_wait_by_pid pid k'")
    case (Pair r2 k2)
    then show ?thesis
    proof (cases rule: wait_by_pid_cases)
      case (collected l)
      then have "l \<noteq> i" "p_state (proc k l) \<noteq> Empty" "p_pid (proc k l) = pid"
        by (auto simp: pr zombie_def split: if_splits)
      with pids_okD [OF assms(2) \<open>l < 16\<close> \<open>i < 16\<close>] st \<open>p_pid (proc k i) = pid\<close> show ?thesis by simp
    qed (use Pair in simp)
  qed
  ultimately show ?thesis using collected pr
    by (auto simp: process_state_code_inverse intro!: exI [of _ i])
qed

definition demo_zombie :: kernel where
  "demo_zombie = set_proc 0 (process_empty\<lparr>p_pid := 1, p_state := Exited, p_exit_code := 7\<rparr>) (demo_state\<lparr>next_pid := 2\<rparr>)"

lemma demo_zombie_ok: "table_ok demo_zombie" "pids_ok demo_zombie"
proof -
  have "process_ok (process_empty\<lparr>p_pid := 1, p_state := Exited, p_exit_code := 7\<rparr>)"
    using process_ok_empty by (simp add: process_ok_def)
  with demo_state_ok(1) show "table_ok demo_zombie" by (simp add: demo_zombie_def table_ok_set_proc)
  have "proc demo_zombie j = (if j = 0 then process_empty\<lparr>p_pid := 1, p_state := Exited, p_exit_code := 7\<rparr> else process_empty)"
    if "j < 17" for j using that by (simp add: demo_zombie_def demo_state_def set_proc_def nth_list_update)
  moreover have "next_pid demo_zombie = 2" "p_state process_empty = Empty"
    by (simp_all add: demo_zombie_def demo_state_def process_empty_def)
  ultimately show "pids_ok demo_zombie" by (auto simp: pids_ok_def split: if_splits)
qed

theorem process_wait_by_pid_once_witness:
  "\<exists>st k'. process_wait_by_pid 1 demo_zombie = (Some st, k') \<and> st_exit_code st = 7 \<and> process_wait_by_pid 1 k' = (None, k')"
proof -
  have p0: "proc demo_zombie 0 = process_empty\<lparr>p_pid := 1, p_state := Exited, p_exit_code := 7\<rparr>"
    by (simp add: demo_zombie_def demo_state_def set_proc_def)
  obtain r k' where e: "process_wait_by_pid 1 demo_zombie = (r, k')" by force
  have "r = Some \<lparr>st_state = 3, st_exit_code = 7\<rparr>" using e
  proof (cases rule: wait_by_pid_cases)
    case (collected i)
    from pids_okD [OF demo_zombie_ok(2), of i 0] collected p0 have "i = 0" by (auto simp: zombie_def)
    with collected p0 show ?thesis by simp
  next
    case none
    from none(3) [of 0] p0 show ?thesis by (simp add: zombie_def process_empty_def)
  qed
  then show ?thesis using process_wait_by_pid_once [OF demo_zombie_ok e] e by auto
qed

end
