(* ===== verification/Scheduler.thy ===== *)
theory Scheduler
  imports Process_Table
begin

text \<open>
  The scheduler, \<^verbatim>\<open>kernel/src/main.rs\<close>: picking the next process, handing the CPU over,
  blocking and waking waiters, exit, preemption, and the blocking waits.

  \<^verbatim>\<open>switch_to\<close> is modelled up to \<^verbatim>\<open>context_switch\<close>: the stack pointer of the outgoing
  context (an argument, since it is a register) is saved in its slot.  What it does once the
  context is resumed, \<^verbatim>\<open>reclaim_pending_stacks\<close>, is a step of its own, as other contexts run
  in between.  The step relation \<open>sched_step\<close> interleaves these steps the way timer ticks
  and voluntary yields do; a tick may fall between any two steps of a process.
\<close>

section \<open>Model\<close>

definition pick_next_ready :: "kernel \<Rightarrow> nat option" where
  "pick_next_ready k = find (\<lambda>index. p_state (proc k index) = Ready) [0..<PROCESS_COUNT]"

definition should_wake :: "u32 \<Rightarrow> process \<Rightarrow> bool" where
  "should_wake pid p \<longleftrightarrow> p_state p = Blocked \<and>
     (case p_waiting_for p of WaitPid target \<Rightarrow> target = pid | WaitAnyChild \<Rightarrow> True | WaitNone \<Rightarrow> False)"

definition wake :: "u32 \<Rightarrow> nat \<Rightarrow> kernel \<Rightarrow> kernel" where
  "wake pid index k =
     (let p = proc k index in
      if should_wake pid p then set_proc index (p\<lparr>p_waiting_for := WaitNone, p_state := Ready\<rparr>) k else k)"

definition wake_waiters_for :: "u32 \<Rightarrow> kernel \<Rightarrow> kernel" where
  "wake_waiters_for pid k = fold (wake pid) [0..<PROCESS_COUNT] k"

definition activate_pml4 :: "nat \<Rightarrow> kernel \<Rightarrow> kernel" where
  "activate_pml4 next_index k =
     (let next_pml4 = p_pml4_phys (proc k next_index);
          (target_pml4, k) = (if next_pml4 \<noteq> 0 then (next_pml4, k)
             else case ensure_kernel_pml4 k of (None, k) \<Rightarrow> (0, k) | (Some p, k) \<Rightarrow> (p, k))
      in if target_pml4 \<noteq> 0 then k\<lparr>cr3 := target_pml4\<rparr> else k)"

definition switch_to :: "nat \<Rightarrow> u64 \<Rightarrow> kernel \<Rightarrow> kernel" where
  "switch_to next_index rsp k =
     (let k = (if next_index < PROCESS_COUNT
               then set_proc next_index ((proc k next_index)\<lparr>p_state := Running\<rparr>) k else k);
          prev_index = current_process_index k;
          k = k\<lparr>current_process_index := next_index\<rparr>;
          k = activate_pml4 next_index k
      in set_proc prev_index ((proc k prev_index)\<lparr>p_context_rsp := rsp\<rparr>) k)"

definition queue_stack_reclaim :: "u32 \<Rightarrow> kernel \<Rightarrow> kernel" where
  "queue_stack_reclaim pid k =
     (case find (\<lambda>i. pending_stack_reclaims k ! i = None) [0..<length (pending_stack_reclaims k)] of
        Some i \<Rightarrow> k\<lparr>pending_stack_reclaims := (pending_stack_reclaims k)[i := Some pid]\<rparr>
      | None \<Rightarrow> k)"

definition reclaim_slot :: "nat \<Rightarrow> kernel \<Rightarrow> kernel" where
  "reclaim_slot i k =
     (case pending_stack_reclaims k ! i of
        None \<Rightarrow> k
      | Some pid \<Rightarrow>
          reclaim_process_stack pid (k\<lparr>pending_stack_reclaims := (pending_stack_reclaims k)[i := None]\<rparr>))"

definition reclaim_pending_stacks :: "kernel \<Rightarrow> kernel" where
  "reclaim_pending_stacks k = fold reclaim_slot [0..<length (pending_stack_reclaims k)] k"

text \<open>The part of \<^verbatim>\<open>exit_and_yield\<close> before its loop of scheduler steps.\<close>

definition exit_process :: "nat \<Rightarrow> u32 \<Rightarrow> kernel \<Rightarrow> kernel" where
  "exit_process exit_index code k =
     (let pid = process_pid k exit_index; k = process_set_state exit_index Exited code k in
      wake_waiters_for pid k)"

definition run_scheduler_step :: "u64 \<Rightarrow> kernel \<Rightarrow> kernel" where
  "run_scheduler_step rsp k =
     (let nxt = (case pick_next_ready k of Some i \<Rightarrow> i | None \<Rightarrow> PROCESS_COUNT) in switch_to nxt rsp k)"

definition exit_and_yield :: "nat \<Rightarrow> u32 \<Rightarrow> u64 \<Rightarrow> kernel \<Rightarrow> kernel" where
  "exit_and_yield exit_index code rsp k = run_scheduler_step rsp (exit_process exit_index code k)"

definition maybe_preempt :: "u64 \<Rightarrow> kernel \<Rightarrow> kernel" where
  "maybe_preempt rsp k =
     (let current = current_process_index k in
      if current < PROCESS_COUNT \<and> p_state (proc k current) \<noteq> Running then k
      else
        case pick_next_ready k of
          None \<Rightarrow> k
        | Some nxt \<Rightarrow>
            let k = (if current < PROCESS_COUNT
                     then set_proc current ((proc k current)\<lparr>p_state := Ready\<rparr>) k else k)
            in switch_to nxt rsp k)"

text \<open>
  \<^verbatim>\<open>process_trampoline\<close> after the program's entry point has returned \<open>code\<close>: everything the
  process owned is released, then it exits.
\<close>

definition process_teardown :: "kernel \<Rightarrow> kernel" where
  "process_teardown k =
     (let index = current_process_index k;
          pid = p_pid (proc k index);
          pml4 = p_pml4_phys (proc k index);
          (reclaimed, k) = process_reclaim_mappings index k;
          k = reclaim_process_window_tables pid k;
          k = destroy_process_address_space pml4 k;
          k = (case ensure_kernel_pml4 k of (Some kernel_pml4, k) \<Rightarrow> k\<lparr>cr3 := kernel_pml4\<rparr> | (None, k) \<Rightarrow> k);
          k = set_proc index ((proc k index)\<lparr>p_pml4_phys := 0\<rparr>) k;
          k = queue_stack_reclaim pid k
      in if reclaimed > 0 then
           k\<lparr>app_console := map_option (\<lambda>con.
             write_line '' pages'' (write_usize reclaimed (console_write ''heap reclaimed '' con))) (app_console k)\<rparr>
         else k)"

definition process_trampoline :: "u32 \<Rightarrow> u64 \<Rightarrow> kernel \<Rightarrow> kernel" where
  "process_trampoline code rsp k =
     (let index = current_process_index k in exit_and_yield index code rsp (process_teardown k))"

definition block_current_on :: "wait_target \<Rightarrow> kernel \<Rightarrow> kernel" where
  "block_current_on target k =
     (let index = current_process_index k in
      if index < PROCESS_COUNT
      then set_proc index ((proc k index)\<lparr>p_waiting_for := target, p_state := Blocked\<rparr>) k else k)"

definition has_live_child :: "u32 \<Rightarrow> kernel \<Rightarrow> bool" where
  "has_live_child parent_pid k \<longleftrightarrow>
     list_ex (\<lambda>index. p_parent_pid (proc k index) = parent_pid \<and>
       p_state (proc k index) \<in> {Ready, Running, Blocked}) [0..<PROCESS_COUNT]"

text \<open>
  One turn of the blocking waits: an answer, or the process blocks and the scheduler runs something
  else; the loop continues when the process is resumed.
\<close>

datatype 'a wait_turn = WaitDone 'a | WaitAgain

definition wait_for_pid_turn :: "u32 \<Rightarrow> kernel \<Rightarrow> process_status option wait_turn \<times> kernel" where
  "wait_for_pid_turn pid k =
     (case process_wait_by_pid pid k of
        (Some status, k) \<Rightarrow> (WaitDone (Some status), k)
      | (None, k) \<Rightarrow>
          if find_process_index_by_pid pid k = None then (WaitDone None, k)
          else (WaitAgain, block_current_on (WaitPid pid) k))"

definition wait_for_any_child_turn :: "u32 \<Rightarrow> kernel \<Rightarrow> (u32 \<times> process_status) option wait_turn \<times> kernel" where
  "wait_for_any_child_turn parent_pid k =
     (case process_wait_any_child parent_pid k of
        (Some r, k) \<Rightarrow> (WaitDone (Some r), k)
      | (None, k) \<Rightarrow>
          if \<not> has_live_child parent_pid k then (WaitDone None, k)
          else (WaitAgain, block_current_on WaitAnyChild k))"

section \<open>The paging operations keep the rest of the kernel\<close>

lemma alloc_zeroed_page_more: "paging.more (snd (alloc_zeroed_page s)) = paging.more s"
  by (simp add: alloc_zeroed_page_def split: prod.splits option.splits)

lemma write_entry_more [simp]: "paging.more (write_entry t i v s) = paging.more s"
  by (simp add: write_entry_def)

lemma free_phys_page_more [simp]: "paging.more (snd (free_phys_page p s)) = paging.more s"
  by (simp add: free_phys_page_def split: prod.splits)

lemma clone_table_more: "paging.more (snd (clone_table t s)) = paging.more s"
  using alloc_zeroed_page_more [of s] by (auto simp: clone_table_def split: prod.splits option.splits)

lemma ensure_kernel_pml4_more: "paging.more (snd (ensure_kernel_pml4 s)) = paging.more s"
  using clone_table_more [of "cr3 s AND 0x000FFFFFFFFFF000" s]
  by (auto simp: ensure_kernel_pml4_def clone_active_pml4_def Let_def split: prod.splits option.splits)

lemma unmap_page_more: "paging.more (snd (unmap_page r v s)) = paging.more s"
  by (auto simp: unmap_page_def Let_def split: option.splits)

lemma unmap_loop_more: "paging.more (snd (unmap_loop r b is n s)) = paging.more s"
proof (induction "is" arbitrary: n s)
  case (Cons i "is")
  have "paging.more (snd (unmap_step r (page_at b i) s)) = paging.more s"
    using unmap_page_more [of r "page_at b i" s] by (auto simp: unmap_step_def split: prod.splits option.splits)
  with Cons.IH show ?case
    by (auto simp: unmap_loop_step split: prod.splits simp del: unmap_loop.simps)
qed simp

lemma unmap_user_pages_more [simp]: "paging.more (snd (unmap_user_pages r b n s)) = paging.more s"
  by (simp add: unmap_user_pages_def unmap_loop_more)

lemma fold_more: "(\<And>x s. paging.more (f x s) = paging.more s) \<Longrightarrow> paging.more (fold f xs s) = paging.more s"
  by (induction xs arbitrary: s) simp_all

lemma free_entry_more:
  "(\<And>p s. paging.more (inner p s) = paging.more s) \<Longrightarrow> paging.more (free_entry t inner i s) = paging.more s"
  by (simp add: free_entry_def split: option.splits)

lemma free_and_clear_more [simp]: "paging.more (free_and_clear t i s) = paging.more s"
  by (simp add: free_and_clear_def split: option.splits)

lemma destroy_process_address_space_more [simp]: "paging.more (destroy_process_address_space p s) = paging.more s"
  by (simp add: destroy_process_address_space_def free_entry_more fold_more)

lemma reclaim_heap_tables_more [simp]: "paging.more (reclaim_heap_tables q pid s) = paging.more s"
  by (simp add: reclaim_heap_tables_def Let_def fold_more split: option.splits)

lemma reclaim_mmap_tables_more [simp]: "paging.more (reclaim_mmap_tables q pid s) = paging.more s"
  by (simp add: reclaim_mmap_tables_def Let_def fold_more free_entry_more split: option.splits)

lemma reclaim_process_window_tables_more [simp]: "paging.more (reclaim_process_window_tables pid s) = paging.more s"
  by (simp add: reclaim_process_window_tables_def)

lemma reclaim_process_stack_more [simp]: "paging.more (reclaim_process_stack pid s) = paging.more s"
  using ensure_kernel_pml4_more [of s]
  by (auto simp: reclaim_process_stack_def Let_def split: option.splits prod.splits)

lemma more_eq:
  fixes k k' :: kernel
  assumes "paging.more k' = paging.more k"
  obtains m a p c where "k' = k\<lparr>phys_mem := m, phys_alloc := a, kernel_pml4_phys := p, cr3 := c\<rparr>"
proof (rule that)
  show "k' = k\<lparr>phys_mem := phys_mem k', phys_alloc := phys_alloc k', kernel_pml4_phys := kernel_pml4_phys k', cr3 := cr3 k'\<rparr>"
    using assms by (cases k, cases k') simp
qed

lemma more_fields:
  fixes k k' :: kernel
  assumes "paging.more k' = paging.more k"
  shows "process_table k' = process_table k" "current_process_index k' = current_process_index k"
    "next_pid k' = next_pid k" "pending_stack_reclaims k' = pending_stack_reclaims k"
    "app_console k' = app_console k" "app_bootfs k' = app_bootfs k" "app_fds k' = app_fds k" "app_pipes k' = app_pipes k"
  by (rule more_eq [OF assms], simp)+

lemma table_ok_more:
  assumes "paging.more k' = paging.more (k :: kernel)"
  shows "table_ok k' = table_ok k"
  by (simp add: table_ok_def more_fields [OF assms])

section \<open>The effect on the table\<close>

lemma wake_fold:
  assumes "length (process_table k) = 17" "n \<le> 16"
  shows "proc (fold (wake pid) [0..<n] k) i =
      (if i < n \<and> should_wake pid (proc k i) then (proc k i)\<lparr>p_waiting_for := WaitNone, p_state := Ready\<rparr> else proc k i) \<and>
    fold (wake pid) [0..<n] k = k\<lparr>process_table := process_table (fold (wake pid) [0..<n] k)\<rparr> \<and>
    length (process_table (fold (wake pid) [0..<n] k)) = 17"
  using assms(2)
proof (induction n arbitrary: i)
  case 0
  then show ?case using assms(1) by simp
next
  case (Suc n)
  let ?k = "fold (wake pid) [0..<n] k"
  have IH: "proc ?k j = (if j < n \<and> should_wake pid (proc k j) then (proc k j)\<lparr>p_waiting_for := WaitNone, p_state := Ready\<rparr> else proc k j)"
    "?k = k\<lparr>process_table := process_table ?k\<rparr>" "length (process_table ?k) = 17" for j
    using Suc by auto
  have w: "fold (wake pid) [0..<Suc n] k = wake pid n ?k" by simp
  have "proc (wake pid n ?k) i = (if i < Suc n \<and> should_wake pid (proc k i) then (proc k i)\<lparr>p_waiting_for := WaitNone, p_state := Ready\<rparr> else proc k i)"
    using Suc.prems IH(3) by (auto simp: wake_def Let_def proc_set_proc IH(1) less_Suc_eq)
  moreover have "wake pid n ?k = k\<lparr>process_table := process_table (wake pid n ?k)\<rparr>"
    by (simp add: wake_def Let_def set_proc_def) (metis (no_types, lifting) IH(2) kernel.surjective kernel.update_convs(1))
  ultimately show ?case unfolding w using IH(3) by (simp add: wake_def Let_def)
qed

lemma wake_waiters_facts:
  assumes "length (process_table k) = 17"
  shows "proc (wake_waiters_for pid k) i =
      (if i < 16 \<and> should_wake pid (proc k i) then (proc k i)\<lparr>p_waiting_for := WaitNone, p_state := Ready\<rparr> else proc k i)"
    "current_process_index (wake_waiters_for pid k) = current_process_index k"
    "pending_stack_reclaims (wake_waiters_for pid k) = pending_stack_reclaims k"
    "next_pid (wake_waiters_for pid k) = next_pid k"
    "length (process_table (wake_waiters_for pid k)) = 17"
proof -
  have w: "wake_waiters_for pid k = fold (wake pid) [0..<16] k" by (simp add: wake_waiters_for_def)
  note f = wake_fold [OF assms, of 16 pid, folded w, simplified]
  show "proc (wake_waiters_for pid k) i =
      (if i < 16 \<and> should_wake pid (proc k i) then (proc k i)\<lparr>p_waiting_for := WaitNone, p_state := Ready\<rparr> else proc k i)"
    "length (process_table (wake_waiters_for pid k)) = 17"
    using f by auto
  obtain t where "wake_waiters_for pid k = k\<lparr>process_table := t\<rparr>" using f by blast
  then show "current_process_index (wake_waiters_for pid k) = current_process_index k"
    "pending_stack_reclaims (wake_waiters_for pid k) = pending_stack_reclaims k"
    "next_pid (wake_waiters_for pid k) = next_pid k" by simp_all
qed

lemma list_all_proc: "length (process_table k) = 17 \<Longrightarrow> list_all process_ok (process_table k) \<longleftrightarrow> (\<forall>i<17. process_ok (proc k i))"
  by (simp add: list_all_length)

lemma process_ok_states [simp]:
  "process_ok (p\<lparr>p_state := st\<rparr>) = process_ok p" "process_ok (p\<lparr>p_waiting_for := w\<rparr>) = process_ok p"
  "process_ok (p\<lparr>p_waited := b\<rparr>) = process_ok p" "process_ok (p\<lparr>p_exit_code := c\<rparr>) = process_ok p"
  "process_ok (p\<lparr>p_context_rsp := r\<rparr>) = process_ok p" "process_ok (p\<lparr>p_pml4_phys := a\<rparr>) = process_ok p"
  "process_ok (p\<lparr>p_entry_point := a\<rparr>) = process_ok p"
  by (simp_all add: process_ok_def)

lemma table_ok_wake: "table_ok k \<Longrightarrow> table_ok (wake_waiters_for pid k)"
proof -
  assume ok: "table_ok k"
  note w = wake_waiters_facts [OF table_ok_length [OF ok]]
  have "process_ok (proc (wake_waiters_for pid k) i)" if "i < 17" for i
    using table_ok_proc [OF ok, of i] that by (simp add: w(1))
  with ok show ?thesis by (simp add: table_ok_def w(2,3,5) list_all_proc [OF w(5)])
qed

lemma activate_pml4_more: "paging.more (activate_pml4 i k) = paging.more k"
  using ensure_kernel_pml4_more [of k]
  by (auto simp: activate_pml4_def Let_def split: prod.splits option.splits if_splits)

text \<open>Handing the CPU over changes two slots.\<close>

lemma switch_to_facts:
  assumes "table_ok k" "next_index \<le> 16"
  shows "table_ok (switch_to next_index rsp k)"
    "current_process_index (switch_to next_index rsp k) = next_index"
    "proc (switch_to next_index rsp k) i =
      (let p = (if i = next_index \<and> i < 16 then (proc k i)\<lparr>p_state := Running\<rparr> else proc k i) in
       if i = current_process_index k then p\<lparr>p_context_rsp := rsp\<rparr> else p)"
    "next_pid (switch_to next_index rsp k) = next_pid k"
proof -
  define k1 where "k1 = (if next_index < 16 then set_proc next_index ((proc k next_index)\<lparr>p_state := Running\<rparr>) k else k)"
  define k2 where "k2 = k1\<lparr>current_process_index := next_index\<rparr>"
  have ok1: "table_ok k1" using assms table_ok_proc [OF assms(1)] by (auto simp: k1_def intro: table_ok_set_proc)
  then have ok2: "table_ok k2" using assms(2) by (simp add: table_ok_def k2_def)
  have len: "length (process_table k) = 17" "length (process_table k2) = 17"
    using table_ok_length assms(1) ok2 by auto
  have c1: "current_process_index k1 = current_process_index k" "next_pid k1 = next_pid k" by (simp_all add: k1_def)
  have p2: "proc k2 i = (if i = next_index \<and> i < 16 then (proc k i)\<lparr>p_state := Running\<rparr> else proc k i)" for i
    using len assms(2) by (auto simp: k2_def k1_def proc_set_proc)
  define k3 where "k3 = activate_pml4 next_index k2"
  have m: "paging.more k3 = paging.more k2" by (simp add: k3_def activate_pml4_more)
  have sw: "switch_to next_index rsp k =
      set_proc (current_process_index k) ((proc k3 (current_process_index k))\<lparr>p_context_rsp := rsp\<rparr>) k3"
    by (simp add: switch_to_def Let_def c1 flip: k1_def k2_def k3_def)
  note mf = more_fields [OF m]
  have cur: "current_process_index k \<le> 16" using assms(1) by (simp add: table_ok_def)
  have ok3: "table_ok k3" using table_ok_more [OF m] ok2 by simp
  then show "table_ok (switch_to next_index rsp k)"
    unfolding sw using table_ok_proc [OF ok3 cur] by (intro table_ok_set_proc) simp_all
  show "current_process_index (switch_to next_index rsp k) = next_index" "next_pid (switch_to next_index rsp k) = next_pid k"
    using c1 by (simp_all add: sw mf) (simp_all add: k2_def c1)
  show "proc (switch_to next_index rsp k) i =
      (let p = (if i = next_index \<and> i < 16 then (proc k i)\<lparr>p_state := Running\<rparr> else proc k i) in
       if i = current_process_index k then p\<lparr>p_context_rsp := rsp\<rparr> else p)"
    unfolding sw using len(2) cur by (simp add: proc_set_proc mf p2 Let_def)
qed

lemma reclaim_pending_stacks_table:
  "process_table (reclaim_pending_stacks k) = process_table k"
  "current_process_index (reclaim_pending_stacks k) = current_process_index k"
  "next_pid (reclaim_pending_stacks k) = next_pid k"
  "length (pending_stack_reclaims (reclaim_pending_stacks k)) = length (pending_stack_reclaims k)"
proof -
  have one: "process_table (reclaim_slot i k) = process_table k \<and> current_process_index (reclaim_slot i k) = current_process_index k \<and>
      next_pid (reclaim_slot i k) = next_pid k \<and>
      length (pending_stack_reclaims (reclaim_slot i k)) = length (pending_stack_reclaims k)" for i k
    using more_fields [OF reclaim_process_stack_more, of _ "k\<lparr>pending_stack_reclaims := (pending_stack_reclaims k)[i := None]\<rparr>"]
    by (simp add: reclaim_slot_def split: option.splits)
  have "process_table (fold reclaim_slot is k) = process_table k \<and>
      current_process_index (fold reclaim_slot is k) = current_process_index k \<and> next_pid (fold reclaim_slot is k) = next_pid k \<and>
      length (pending_stack_reclaims (fold reclaim_slot is k)) = length (pending_stack_reclaims k)" for "is" k
    by (induction "is" arbitrary: k) (simp_all add: one)
  then show "process_table (reclaim_pending_stacks k) = process_table k"
    "current_process_index (reclaim_pending_stacks k) = current_process_index k"
    "next_pid (reclaim_pending_stacks k) = next_pid k"
    "length (pending_stack_reclaims (reclaim_pending_stacks k)) = length (pending_stack_reclaims k)"
    by (simp_all add: reclaim_pending_stacks_def)
qed

lemma reclaim_mappings_more: "paging.more (snd (fold reclaim_mapping ms (n, k))) = paging.more k"
proof (induction ms arbitrary: n k)
  case (Cons m ms)
  obtain n1 k1 where e: "reclaim_mapping m (n, k) = (n1, k1)" by force
  have "paging.more k1 = paging.more k"
    using e unmap_user_pages_more [of "kernel_pml4_phys k" "pm_virt m" "pm_pages m" k]
    by (auto simp: reclaim_mapping_def split: if_splits prod.splits simp del: unmap_user_pages_more)
  with Cons.IH e show ?case by simp
qed simp

text \<open>The release of a process's resources leaves its identity, and every other slot.\<close>

definition same_role :: "process \<Rightarrow> process \<Rightarrow> bool" where
  "same_role p q \<longleftrightarrow> p_pid q = p_pid p \<and> p_parent_pid q = p_parent_pid p \<and> p_waited q = p_waited p \<and>
     p_state q = p_state p \<and> p_exit_code q = p_exit_code p \<and> p_context_rsp q = p_context_rsp p \<and>
     p_waiting_for q = p_waiting_for p \<and> (process_ok p \<longrightarrow> process_ok q)"

lemma same_role_refl [simp]: "same_role p p"
  by (simp add: same_role_def)

lemma process_reclaim_mappings_table:
  assumes "process_reclaim_mappings i k = (n, k')" "length (process_table k) = 17" "i \<le> 16"
  shows "length (process_table k') = 17" "current_process_index k' = current_process_index k"
    "next_pid k' = next_pid k" "pending_stack_reclaims k' = pending_stack_reclaims k" "same_role (proc k j) (proc k' j)"
proof -
  let ?f = "fold reclaim_mapping (p_mappings (proc k i)) (0, k)"
  note m = more_fields [OF reclaim_mappings_more [of "p_mappings (proc k i)" 0 k]]
  show "length (process_table k') = 17" "current_process_index k' = current_process_index k"
    "next_pid k' = next_pid k" "pending_stack_reclaims k' = pending_stack_reclaims k" "same_role (proc k j) (proc k' j)"
    using assms m by (auto simp: process_reclaim_mappings_def Let_def proc_set_proc same_role_def process_ok_def
        split: if_splits prod.splits)
qed

lemma process_teardown_table:
  assumes ok: "table_ok k"
  shows "table_ok (process_teardown k)" "current_process_index (process_teardown k) = current_process_index k"
    "next_pid (process_teardown k) = next_pid k" "same_role (proc k j) (proc (process_teardown k) j)"
proof -
  let ?i = "current_process_index k"
  have i: "?i \<le> 16" and len: "length (process_table k) = 17" using ok by (simp_all add: table_ok_def)
  obtain n k1 where e1: "process_reclaim_mappings ?i k = (n, k1)" by force
  note t1 = process_reclaim_mappings_table [OF e1 len i]
  define k2 where "k2 = (case ensure_kernel_pml4 (destroy_process_address_space (p_pml4_phys (proc k ?i))
      (reclaim_process_window_tables (p_pid (proc k ?i)) k1)) of (Some a, k) \<Rightarrow> k\<lparr>cr3 := a\<rparr> | (None, k) \<Rightarrow> k)"
  have m2: "paging.more k2 = paging.more k1"
    using ensure_kernel_pml4_more [of "destroy_process_address_space (p_pml4_phys (proc k ?i))
      (reclaim_process_window_tables (p_pid (proc k ?i)) k1)"]
    by (auto simp: k2_def split: prod.splits option.splits)
  define k3 where "k3 = queue_stack_reclaim (p_pid (proc k ?i)) (set_proc ?i ((proc k2 ?i)\<lparr>p_pml4_phys := 0\<rparr>) k2)"
  have t3: "process_table k3 = (process_table k2)[?i := (proc k2 ?i)\<lparr>p_pml4_phys := 0\<rparr>]"
    "current_process_index k3 = current_process_index k2" "next_pid k3 = next_pid k2"
    "length (pending_stack_reclaims k3) = length (pending_stack_reclaims k2)"
    by (simp_all add: k3_def queue_stack_reclaim_def set_proc_def split: option.splits)
  have td: "process_table (process_teardown k) = process_table k3"
    "current_process_index (process_teardown k) = current_process_index k3" "next_pid (process_teardown k) = next_pid k3"
    "pending_stack_reclaims (process_teardown k) = pending_stack_reclaims k3"
    by (simp_all add: process_teardown_def Let_def e1 flip: k2_def k3_def)
  note f = td t3 more_fields [OF m2] t1
  have len': "length (process_table k1) = 17" by (rule t1(1))
  have role: "same_role (proc k j) (proc (process_teardown k) j)" for j
    using process_reclaim_mappings_table(5) [OF e1 len i, of j] len' i
    by (cases "j = ?i") (simp_all add: f nth_list_update same_role_def)
  then show "same_role (proc k j) (proc (process_teardown k) j)" .
  show "current_process_index (process_teardown k) = current_process_index k" "next_pid (process_teardown k) = next_pid k"
    by (simp_all add: f)
  have "process_ok (proc (process_teardown k) j)" if "j < 17" for j
    using role [of j] table_ok_proc [OF ok, of j] that by (simp add: same_role_def)
  then have "list_all process_ok (process_table (process_teardown k))" using len' by (simp add: list_all_length f)
  with ok show "table_ok (process_teardown k)" by (simp add: table_ok_def f)
qed

section \<open>Interleavings\<close>

text \<open>
  The code that runs belongs to the current context: the idle context or a process that is
  \<^verbatim>\<open>Running\<close>.  Saved stack pointers are never null.
\<close>

definition active :: "kernel \<Rightarrow> bool" where
  "active k \<longleftrightarrow> current_process_index k = 16 \<or> p_state (proc k (current_process_index k)) = Running"

text \<open>The last steps of \<^verbatim>\<open>prepare_process\<close>: the slot gets its address space, entry point and first stack pointer.\<close>

definition mark_ready :: "nat \<Rightarrow> u64 \<Rightarrow> u64 \<Rightarrow> u64 \<Rightarrow> kernel \<Rightarrow> kernel" where
  "mark_ready index child_pml4 entry initial_rsp k =
     process_set_state index Ready 0
       (set_proc index ((proc k index)\<lparr>p_pml4_phys := child_pml4, p_entry_point := entry, p_context_rsp := initial_rsp\<rparr>) k)"

inductive sched_step :: "kernel \<Rightarrow> kernel \<Rightarrow> bool" where
  spawn: "active k \<Longrightarrow> process_spawn_with_argv name args argv parent k = (r, k') \<Longrightarrow> sched_step k k'"
| ready: "active k \<Longrightarrow> i < 16 \<Longrightarrow> p_state (proc k i) = Loading \<Longrightarrow> rsp \<noteq> 0 \<Longrightarrow> sched_step k (mark_ready i pml4 entry rsp k)"
| fail: "active k \<Longrightarrow> i < 16 \<Longrightarrow> p_state (proc k i) = Loading \<Longrightarrow> sched_step k (process_set_state i Failed (- 1) k)"
| fail_unwaited: "active k \<Longrightarrow> i < 16 \<Longrightarrow> p_state (proc k i) = Loading \<Longrightarrow> sched_step k (process_fail_unwaited i k)"
| reap: "active k \<Longrightarrow> process_wait_by_pid pid k = (r, k') \<Longrightarrow> sched_step k k'"
| reap_any: "active k \<Longrightarrow> process_wait_any_child pid k = (r, k') \<Longrightarrow> sched_step k k'"
| block: "active k \<Longrightarrow> sched_step k (block_current_on target k)"
| teardown: "active k \<Longrightarrow> current_process_index k < 16 \<Longrightarrow> sched_step k (process_teardown k)"
| exit: "active k \<Longrightarrow> current_process_index k < 16 \<Longrightarrow> sched_step k (exit_process (current_process_index k) code k)"
| yield: "current_process_index k = 16 \<or> p_state (proc k (current_process_index k)) \<in> {Blocked, Exited} \<Longrightarrow> rsp \<noteq> 0 \<Longrightarrow>
    sched_step k (run_scheduler_step rsp k)"
| tick: "rsp \<noteq> 0 \<Longrightarrow> sched_step k (maybe_preempt rsp k)"
| resume: "active k \<Longrightarrow> sched_step k (reclaim_pending_stacks k)"

definition runnable :: "process \<Rightarrow> bool" where
  "runnable p \<longleftrightarrow> p_state p \<in> {Ready, Running, Blocked}"

definition sched_inv :: "kernel \<Rightarrow> bool" where
  "sched_inv k \<longleftrightarrow> table_ok k \<and>
     (\<forall>i<16. p_state (proc k i) = Running \<longrightarrow> i = current_process_index k) \<and>
     (current_process_index k < 16 \<longrightarrow> p_state (proc k (current_process_index k)) \<in> {Running, Blocked, Exited}) \<and>
     (\<forall>i<16. runnable (proc k i) \<longrightarrow> p_context_rsp (proc k i) \<noteq> 0)"

lemma sched_invI:
  assumes "table_ok k'" "\<And>i. i < 16 \<Longrightarrow> p_state (proc k' i) = Running \<Longrightarrow> i = current_process_index k'"
    "current_process_index k' < 16 \<Longrightarrow> p_state (proc k' (current_process_index k')) \<in> {Running, Blocked, Exited}"
    "\<And>i. i < 16 \<Longrightarrow> runnable (proc k' i) \<Longrightarrow> p_context_rsp (proc k' i) \<noteq> 0"
  shows "sched_inv k'"
  using assms by (simp add: sched_inv_def)

lemma sched_invD:
  assumes "sched_inv k"
  shows "table_ok k" "\<And>i. i < 16 \<Longrightarrow> p_state (proc k i) = Running \<Longrightarrow> i = current_process_index k"
    "current_process_index k < 16 \<Longrightarrow> p_state (proc k (current_process_index k)) \<in> {Running, Blocked, Exited}"
    "\<And>i. i < 16 \<Longrightarrow> runnable (proc k i) \<Longrightarrow> p_context_rsp (proc k i) \<noteq> 0"
    "length (process_table k) = 17" "current_process_index k \<le> 16"
  using assms by (auto simp: sched_inv_def table_ok_def)

text \<open>A change of one slot other than the running one, to a state that is not running.\<close>

lemma sched_inv_update:
  assumes inv: "sched_inv k" and i: "i < 16" and ok: "process_ok p" and st: "p_state p \<noteq> Running"
    and cur: "i = current_process_index k \<Longrightarrow> p_state p \<in> {Blocked, Exited}"
    and rsp: "runnable p \<Longrightarrow> p_context_rsp p \<noteq> 0"
  shows "sched_inv (set_proc i p k)"
proof (rule sched_invI)
  note d = sched_invD [OF inv]
  show "table_ok (set_proc i p k)" by (rule table_ok_set_proc [OF d(1) ok])
  have pr: "proc (set_proc i p k) j = (if j = i then p else proc k j)" for j
    using i d(5) by (simp add: proc_set_proc)
  show "j = current_process_index (set_proc i p k)" if "j < 16" "p_state (proc (set_proc i p k) j) = Running" for j
    using that st d(2) by (auto simp: pr split: if_splits)
  show "p_context_rsp (proc (set_proc i p k) j) \<noteq> 0" if "j < 16" "runnable (proc (set_proc i p k) j)" for j
    using that rsp d(4) by (auto simp: pr split: if_splits)
  show "p_state (proc (set_proc i p k) (current_process_index (set_proc i p k))) \<in> {Running, Blocked, Exited}"
    if "current_process_index (set_proc i p k) < 16"
    using that cur d(3) by (auto simp: pr)
qed

lemma sched_inv_same_role:
  assumes inv: "sched_inv k" and t: "table_ok k'" "current_process_index k' = current_process_index k"
    "\<And>j. p_state (proc k' j) = p_state (proc k j)" "\<And>j. p_context_rsp (proc k' j) = p_context_rsp (proc k j)"
  shows "sched_inv k'"
  using sched_invD [OF inv] t by (intro sched_invI) (auto simp: runnable_def)

lemma pick_next_ready_Some: "pick_next_ready k = Some i \<Longrightarrow> i < 16 \<and> p_state (proc k i) = Ready"
  using find_upt_SomeD(1,2) by (auto simp: pick_next_ready_def)

lemma pick_next_ready_None: "pick_next_ready k = None \<Longrightarrow> i < 16 \<Longrightarrow> p_state (proc k i) \<noteq> Ready"
  using find_upt_NoneD by (auto simp: pick_next_ready_def)

lemma switch_inv:
  assumes ok: "table_ok k" and none: "\<And>i. i < 16 \<Longrightarrow> p_state (proc k i) \<noteq> Running"
    and rsps: "\<And>i. i < 16 \<Longrightarrow> runnable (proc k i) \<Longrightarrow> p_context_rsp (proc k i) \<noteq> 0"
    and nxt: "n = 16 \<or> n < 16 \<and> p_state (proc k n) = Ready" and rsp: "rsp \<noteq> 0"
  shows "sched_inv (switch_to n rsp k)"
proof -
  have "n \<le> 16" using nxt by auto
  note f = switch_to_facts [OF ok this]
  show ?thesis
    by (rule sched_invI) (use f none rsps nxt rsp in \<open>auto simp: Let_def runnable_def split: if_splits\<close>)
qed

lemma run_scheduler_step_inv:
  assumes inv: "sched_inv k" and y: "current_process_index k = 16 \<or> p_state (proc k (current_process_index k)) \<in> {Blocked, Exited}"
    and rsp: "rsp \<noteq> 0"
  shows "sched_inv (run_scheduler_step rsp k)"
proof -
  note d = sched_invD [OF inv]
  have none: "p_state (proc k i) \<noteq> Running" if "i < 16" for i using d(2) [OF that] y that by auto
  show ?thesis
    unfolding run_scheduler_step_def Let_def
    by (rule switch_inv [OF d(1) none d(4) _ rsp]) (auto split: option.splits dest: pick_next_ready_Some)
qed

text \<open>A tick does nothing, or turns the running process back to \<^verbatim>\<open>Ready\<close> and switches.\<close>

lemma maybe_preempt_cases [consumes 1, case_names stay switch]:
  assumes ok: "table_ok k"
  obtains "maybe_preempt rsp k = k"
  | n k1 where "maybe_preempt rsp k = switch_to n rsp k1" "n < 16" "p_state (proc k n) = Ready" "table_ok k1"
      "\<And>i. proc k1 i = (if i = current_process_index k \<and> i < 16 then (proc k i)\<lparr>p_state := Ready\<rparr> else proc k i)"
      "current_process_index k < 16 \<longrightarrow> p_state (proc k (current_process_index k)) = Running" "next_pid k1 = next_pid k"
      "current_process_index k1 = current_process_index k" "pick_next_ready k = Some n"
proof (cases "current_process_index k < 16 \<and> p_state (proc k (current_process_index k)) \<noteq> Running \<or> pick_next_ready k = None")
  case True
  then have "maybe_preempt rsp k = k" by (auto simp: maybe_preempt_def Let_def)
  then show ?thesis by (rule that(1))
next
  case False
  let ?c = "current_process_index k"
  let ?k1 = "if ?c < 16 then set_proc ?c ((proc k ?c)\<lparr>p_state := Ready\<rparr>) k else k"
  obtain n where n: "pick_next_ready k = Some n" "n < 16" "p_state (proc k n) = Ready" using False pick_next_ready_Some by auto
  have len: "length (process_table k) = 17" "?c \<le> 16" using ok by (simp_all add: table_ok_def)
  show ?thesis
  proof (rule that(2) [of n ?k1])
    show "maybe_preempt rsp k = switch_to n rsp ?k1" using False n by (auto simp: maybe_preempt_def Let_def)
    show "table_ok ?k1" using ok table_ok_proc [OF ok len(2)] by (auto intro: table_ok_set_proc)
    show "proc ?k1 i = (if i = ?c \<and> i < 16 then (proc k i)\<lparr>p_state := Ready\<rparr> else proc k i)" for i
      using len by (auto simp: proc_set_proc)
  qed (use n False in auto)
qed

lemma maybe_preempt_inv:
  assumes inv: "sched_inv k" and rsp: "rsp \<noteq> 0"
  shows "sched_inv (maybe_preempt rsp k)"
  using sched_invD(1) [OF inv]
proof (cases rule: maybe_preempt_cases [where rsp = rsp])
  case stay
  with inv show ?thesis by simp
next
  case (switch n k1)
  note d = sched_invD [OF inv]
  show ?thesis unfolding switch(1)
  proof (rule switch_inv [OF switch(4) _ _ _ rsp])
    show "p_state (proc k1 i) \<noteq> Running" if "i < 16" for i using that d(2) by (auto simp: switch(5))
    show "p_context_rsp (proc k1 i) \<noteq> 0" if "i < 16" "runnable (proc k1 i)" for i
      using that d(4) [of i] switch(6) by (auto simp: switch(5) runnable_def split: if_splits)
    show "n = 16 \<or> n < 16 \<and> p_state (proc k1 n) = Ready" using switch(2,3) by (simp add: switch(5))
  qed
qed

lemma wake_inv:
  assumes ok: "table_ok k" and r: "\<And>i. i < 16 \<Longrightarrow> p_state (proc k i) \<noteq> Running"
    and c: "current_process_index k < 16" "p_state (proc k (current_process_index k)) = Exited"
    and rsps: "\<And>i. i < 16 \<Longrightarrow> runnable (proc k i) \<Longrightarrow> p_context_rsp (proc k i) \<noteq> 0"
  shows "sched_inv (wake_waiters_for pid k)"
proof -
  note w = wake_waiters_facts [OF table_ok_length [OF ok], of pid]
  show ?thesis
    by (rule sched_invI) (use table_ok_wake [OF ok] r c rsps in
      \<open>auto simp: w(1,2) should_wake_def runnable_def split: if_splits\<close>)
qed

lemma exit_process_inv:
  assumes inv: "sched_inv k" and c: "active k" "current_process_index k < 16"
  shows "sched_inv (exit_process (current_process_index k) code k)"
proof -
  note d = sched_invD [OF inv]
  let ?c = "current_process_index k"
  let ?k = "process_set_state ?c Exited code k"
  have pr: "proc ?k i = (if i = ?c then (proc k i)\<lparr>p_state := Exited, p_exit_code := code\<rparr> else proc k i)" for i
    using c(2) d(5) by (simp add: process_set_state_def proc_set_proc)
  have cur: "current_process_index ?k = ?c" by (simp add: process_set_state_def)
  show ?thesis unfolding exit_process_def Let_def
  proof (rule wake_inv)
    show "table_ok ?k" using d(1) table_ok_proc [OF d(1,6)] by (auto simp: process_set_state_def intro: table_ok_set_proc)
    show "p_state (proc ?k i) \<noteq> Running" if "i < 16" for i using that d(2) by (auto simp: pr)
    show "p_context_rsp (proc ?k i) \<noteq> 0" if "i < 16" "runnable (proc ?k i)" for i
      using that d(4) by (auto simp: pr runnable_def split: if_splits)
  qed (use c in \<open>simp_all add: cur pr\<close>)
qed

lemma loading_not_current: "sched_inv k \<Longrightarrow> i < 16 \<Longrightarrow> p_state (proc k i) = Loading \<Longrightarrow> i \<noteq> current_process_index k"
  using sched_invD(3) [of k] by auto

lemma collect_inv:
  assumes "sched_inv k" "i < 16"
  shows "sched_inv (set_proc i ((proc k i)\<lparr>p_waited := True\<rparr>) k)"
proof -
  note d = sched_invD [OF assms(1)]
  show ?thesis
    by (rule sched_inv_same_role [OF assms(1)])
      (use d(1,5) assms(2) table_ok_proc [OF d(1), of i] in \<open>auto simp: proc_set_proc intro: table_ok_set_proc\<close>)
qed

lemma sched_step_inv: "sched_step k k' \<Longrightarrow> sched_inv k \<Longrightarrow> sched_inv k'"
proof (induction rule: sched_step.induct)
  case (spawn k name args argv parent r k')
  let ?k = "k\<lparr>next_pid := (if next_pid k + 1 = 0 then 1 else next_pid k + 1)\<rparr>"
  have inv: "sched_inv ?k" using spawn.prems by (simp add: sched_inv_def)
  from spawn.hyps(2) show ?case
  proof (cases rule: spawn_cases)
    case (claimed i)
    have "i \<noteq> current_process_index k" using claimed(2,3) spawn.hyps(1) by (auto simp: active_def reusable_def zombie_def)
    then show ?thesis unfolding claimed(4)
      by (intro sched_inv_update [OF inv claimed(2) new_process_ok]) (simp_all add: runnable_def)
  next
    case full
    with inv show ?thesis by simp
  qed
next
  case (ready k i rsp pml4 entry)
  note d = sched_invD [OF ready.prems] and ne = loading_not_current [OF ready.prems ready.hyps(2,3)]
  have "mark_ready i pml4 entry rsp k = set_proc i ((proc k i)\<lparr>p_pml4_phys := pml4, p_entry_point := entry,
      p_context_rsp := rsp, p_state := Ready, p_exit_code := 0\<rparr>) k"
    using ready.hyps d(5) by (simp add: mark_ready_def process_set_state_def)
  then show ?case using ne ready.hyps table_ok_proc [OF d(1), of i]
    by (simp only:) (rule sched_inv_update [OF ready.prems], auto)
next
  case (fail k i)
  note d = sched_invD [OF fail.prems] and ne = loading_not_current [OF fail.prems fail.hyps(2,3)]
  show ?case unfolding process_set_state_def
    by (rule sched_inv_update [OF fail.prems fail.hyps(2)]) (use ne table_ok_proc [OF d(1), of i] fail.hyps in \<open>auto simp: runnable_def\<close>)
next
  case (fail_unwaited k i)
  note d = sched_invD [OF fail_unwaited.prems] and ne = loading_not_current [OF fail_unwaited.prems fail_unwaited.hyps(2,3)]
  have "process_fail_unwaited i k = set_proc i ((proc k i)\<lparr>p_state := Failed, p_exit_code := - 1, p_waited := True\<rparr>) k"
    using fail_unwaited.hyps d(5) by (simp add: process_fail_unwaited_def process_set_state_def Let_def)
  then show ?case using ne fail_unwaited.hyps table_ok_proc [OF d(1), of i]
    by (simp only:) (rule sched_inv_update [OF fail_unwaited.prems], auto simp: runnable_def)
next
  case (reap k pid r k')
  from reap.hyps(2) show ?case by (cases rule: wait_by_pid_cases) (use reap.prems collect_inv in auto)
next
  case (reap_any k pid r k')
  then have "k' = k \<or> (\<exists>i<16. k' = set_proc i ((proc k i)\<lparr>p_waited := True\<rparr>) k)"
    by (auto simp: process_wait_any_child_def collect_status_def Let_def find_upt_Some split: option.splits)
  with reap_any.prems collect_inv show ?case by auto
next
  case (block k target)
  note d = sched_invD [OF block.prems]
  show ?case unfolding block_current_on_def Let_def
    using block d table_ok_proc [OF d(1,6)] sched_inv_update [OF block.prems, of "current_process_index k"
      "(proc k (current_process_index k))\<lparr>p_waiting_for := target, p_state := Blocked\<rparr>"]
    by (auto simp: active_def runnable_def)
next
  case (teardown k)
  note t = process_teardown_table [OF sched_invD(1) [OF teardown.prems]]
  show ?case
    by (rule sched_inv_same_role [OF teardown.prems t(1,2)]) (use t(4) in \<open>simp_all add: same_role_def\<close>)
next
  case (resume k)
  have "table_ok (reclaim_pending_stacks k)"
    using sched_invD(1) [OF resume.prems] by (simp add: table_ok_def reclaim_pending_stacks_table)
  then show ?case
    by (rule sched_inv_same_role [OF resume.prems]) (simp_all add: reclaim_pending_stacks_table)
qed (auto intro: run_scheduler_step_inv maybe_preempt_inv exit_process_inv)

section \<open>A waiter nobody will wake\<close>

text \<open>
  Process numbers do not wrap around along the steps considered.
\<close>

definition plain_step :: "kernel \<Rightarrow> kernel \<Rightarrow> bool" where
  "plain_step k k' \<longleftrightarrow> sched_step k k' \<and> next_pid k \<le> next_pid k'"

text \<open>
  A process is stranded when it is blocked on a number whose process has finished (or is gone): no
  live process has the number and no new one will get it.
\<close>

definition stranded :: "nat \<Rightarrow> u32 \<Rightarrow> kernel \<Rightarrow> bool" where
  "stranded c b k \<longleftrightarrow> c < 16 \<and> p_state (proc k c) = Blocked \<and> p_waiting_for (proc k c) = WaitPid b \<and> b < next_pid k \<and>
     (\<forall>i<16. p_pid (proc k i) = b \<longrightarrow> p_state (proc k i) \<in> {Empty, Exited, Failed})"

lemma strandedI:
  assumes "stranded c b k" "p_state (proc k' c) = Blocked" "p_waiting_for (proc k' c) = WaitPid b" "b < next_pid k'"
    "\<And>i. i < 16 \<Longrightarrow> p_pid (proc k' i) = b \<Longrightarrow> p_state (proc k' i) \<in> {Empty, Exited, Failed}"
  shows "stranded c b k'"
  using assms by (simp add: stranded_def)

text \<open>Steps that keep the numbers, and move no process with the number to a live state.\<close>

lemma stranded_kept:
  assumes "stranded c b k" "next_pid k' = next_pid k" "p_state (proc k' c) = Blocked" "p_waiting_for (proc k' c) = WaitPid b"
    "\<And>i. i < 16 \<Longrightarrow> p_pid (proc k' i) = p_pid (proc k i)"
    "\<And>i. i < 16 \<Longrightarrow> p_state (proc k i) \<in> {Empty, Exited, Failed} \<Longrightarrow> p_state (proc k' i) \<in> {Empty, Exited, Failed}"
  shows "stranded c b k'"
proof (rule strandedI [OF assms(1,3,4)])
  show "b < next_pid k'" using assms(1,2) by (simp add: stranded_def)
  show "p_state (proc k' i) \<in> {Empty, Exited, Failed}" if "i < 16" "p_pid (proc k' i) = b" for i
  proof (rule assms(6) [OF that(1)])
    show "p_state (proc k i) \<in> {Empty, Exited, Failed}"
      using assms(1) assms(5) [OF that(1)] that by (simp add: stranded_def)
  qed
qed

lemma switch_stranded:
  assumes st: "stranded c b k" and ok: "table_ok k" and n: "n = 16 \<or> n < 16 \<and> p_state (proc k n) = Ready"
  shows "stranded c b (switch_to n rsp k)"
proof -
  have c: "c < 16" "p_state (proc k c) = Blocked" "p_waiting_for (proc k c) = WaitPid b" using st by (simp_all add: stranded_def)
  have "n \<le> 16" "n \<noteq> c" using n c by auto
  note f = switch_to_facts [OF ok this(1), of rsp]
  show ?thesis
    by (rule stranded_kept [OF st f(4)]) (use \<open>n \<noteq> c\<close> n c in \<open>auto simp: f(3) Let_def\<close>)
qed

lemma pick_target: "(case pick_next_ready k of Some i \<Rightarrow> i | None \<Rightarrow> 16) = 16 \<or>
   (case pick_next_ready k of Some i \<Rightarrow> i | None \<Rightarrow> 16) < 16 \<and>
   p_state (proc k (case pick_next_ready k of Some i \<Rightarrow> i | None \<Rightarrow> 16)) = Ready"
  by (cases "pick_next_ready k") (auto dest: pick_next_ready_Some)

lemma preempt_stranded:
  assumes st: "stranded c b k" and ok: "table_ok k"
  shows "stranded c b (maybe_preempt rsp k)"
  using ok
proof (cases rule: maybe_preempt_cases [where rsp = rsp])
  case stay
  with st show ?thesis by simp
next
  case (switch n k1)
  have "stranded c b k1"
    by (rule stranded_kept [OF st switch(7)]) (use switch(6) st in \<open>auto simp: switch(5) stranded_def\<close>)
  then show ?thesis unfolding switch(1)
    by (rule switch_stranded [OF _ switch(4)]) (use switch(2,3) in \<open>simp add: switch(5)\<close>)
qed

lemma exit_stranded:
  assumes st: "stranded c b k" and ok: "table_ok k" and a: "active k" "current_process_index k < 16"
  shows "stranded c b (exit_process (current_process_index k) code k)"
proof -
  let ?e = "current_process_index k"
  let ?k = "process_set_state ?e Exited code k"
  have len: "length (process_table k) = 17" using ok by (simp add: table_ok_def)
  have run: "p_state (proc k ?e) = Running" using a by (simp add: active_def)
  have pid: "process_pid k ?e \<noteq> b" using st run a(2) by (auto simp: stranded_def process_pid_def)
  have pr: "proc ?k i = (if i = ?e then (proc k i)\<lparr>p_state := Exited, p_exit_code := code\<rparr> else proc k i)" for i
    using a(2) len by (simp add: process_set_state_def proc_set_proc)
  have len': "length (process_table ?k) = 17" using len by (simp add: process_set_state_def)
  note w = wake_waiters_facts [OF len', of "process_pid k ?e"]
  have ne: "c \<noteq> ?e" using st run by (auto simp: stranded_def)
  have nx: "next_pid ?k = next_pid k" by (simp add: process_set_state_def)
  show ?thesis unfolding exit_process_def Let_def
  proof (rule stranded_kept [OF st])
    have "\<not> should_wake (process_pid k ?e) (proc ?k c)"
      using st pid ne by (simp add: pr should_wake_def stranded_def)
    then show "p_state (proc (wake_waiters_for (process_pid k ?e) ?k) c) = Blocked"
      "p_waiting_for (proc (wake_waiters_for (process_pid k ?e) ?k) c) = WaitPid b"
      using st ne by (simp_all add: w(1) pr stranded_def)
    show "p_state (proc (wake_waiters_for (process_pid k ?e) ?k) i) \<in> {Empty, Exited, Failed}"
      if "i < 16" "p_state (proc k i) \<in> {Empty, Exited, Failed}" for i
      using that by (auto simp: w(1) pr should_wake_def)
  qed (simp_all add: w(1,4) nx pr)
qed

lemma stranded_step:
  assumes "plain_step k k'" "sched_inv k" "stranded c b k"
  shows "stranded c b k'"
proof -
  have st: "stranded c b k" and inv: "sched_inv k" and step: "sched_step k k'" and nw: "next_pid k \<le> next_pid k'"
    using assms by (simp_all add: plain_step_def)
  note d = sched_invD [OF inv]
  have c: "c < 16" "p_state (proc k c) = Blocked" "p_waiting_for (proc k c) = WaitPid b" "b < next_pid k"
    using st by (simp_all add: stranded_def)
  have one: "stranded c b (set_proc i p k)"
    if "i < 16" "i \<noteq> c" "p_pid p = p_pid (proc k i)" "p_state (proc k i) \<notin> {Empty, Exited, Failed} \<or> p_state p \<in> {Empty, Exited, Failed}" for i p
    using that st d(5) by (intro stranded_kept [OF st]) (auto simp: proc_set_proc stranded_def)
  have collect: "stranded c b (set_proc i ((proc k i)\<lparr>p_waited := True\<rparr>) k)" if "i < 16" for i
    using that st d(5) by (intro stranded_kept [OF st]) (auto simp: proc_set_proc stranded_def)
  from step show ?thesis
  proof cases
    case (spawn name args argv parent r)
    from spawn(2) show ?thesis
    proof (cases rule: spawn_cases)
      case (claimed i)
      have "i \<noteq> c" using claimed(3) c(2) by (auto simp: reusable_def zombie_def)
      have pr: "proc k' j = (if j = i then new_process (next_pid k) parent name args argv else proc k j)" for j
        using claimed(2,4) d(5) by (simp add: proc_set_proc)
      show ?thesis
        by (rule strandedI [OF st]) (use st c nw \<open>i \<noteq> c\<close> in \<open>auto simp: pr stranded_def split: if_splits\<close>)
    next
      case full
      have "process_table k' = process_table k" by (simp add: full(2))
      with st c nw show ?thesis by (auto simp: stranded_def)
    qed
  next
    case (ready i rsp pml4 entry)
    have "mark_ready i pml4 entry rsp k = set_proc i ((proc k i)\<lparr>p_pml4_phys := pml4, p_entry_point := entry,
        p_context_rsp := rsp, p_state := Ready, p_exit_code := 0\<rparr>) k"
      using ready d(5) by (simp add: mark_ready_def process_set_state_def)
    moreover have "i \<noteq> c" using ready c(2) by auto
    ultimately show ?thesis unfolding ready(1) using ready by (simp only:) (rule one, auto)
  next
    case (fail i)
    moreover have "i \<noteq> c" using fail c(2) by auto
    ultimately show ?thesis unfolding fail(1) process_set_state_def by (intro one) auto
  next
    case (fail_unwaited i)
    then have "process_fail_unwaited i k = set_proc i ((proc k i)\<lparr>p_state := Failed, p_exit_code := - 1, p_waited := True\<rparr>) k"
      using d(5) by (simp add: process_fail_unwaited_def process_set_state_def Let_def)
    moreover have "i \<noteq> c" using fail_unwaited c(2) by auto
    ultimately show ?thesis unfolding fail_unwaited(1) using fail_unwaited by (simp only:) (rule one, auto)
  next
    case (reap pid r)
    from reap(2) show ?thesis by (cases rule: wait_by_pid_cases) (use st collect in auto)
  next
    case (reap_any pid r)
    then have "k' = k \<or> (\<exists>i<16. k' = set_proc i ((proc k i)\<lparr>p_waited := True\<rparr>) k)"
      by (auto simp: process_wait_any_child_def collect_status_def Let_def find_upt_Some split: option.splits)
    with st collect show ?thesis by auto
  next
    case (block target)
    then have "current_process_index k < 16 \<Longrightarrow> current_process_index k \<noteq> c" using c(2) by (auto simp: active_def)
    then show ?thesis using block st one [of "current_process_index k" "(proc k (current_process_index k))\<lparr>p_waiting_for := target, p_state := Blocked\<rparr>"]
      by (auto simp: block_current_on_def Let_def active_def)
  next
    case teardown
    note t = process_teardown_table [OF d(1)]
    show ?thesis unfolding teardown(1)
      by (rule stranded_kept [OF st t(3)]) (use t(4) c in \<open>simp_all add: same_role_def\<close>)
  next
    case (exit code)
    with exit_stranded [OF st d(1)] show ?thesis by simp
  next
    case (yield rsp)
    show ?thesis unfolding yield(1) run_scheduler_step_def Let_def PROCESS_COUNT_def
      by (rule switch_stranded [OF st d(1) pick_target])
  next
    case (tick rsp)
    with preempt_stranded [OF st d(1)] show ?thesis by simp
  next
    case resume
    then show ?thesis using st by (simp add: stranded_def reclaim_pending_stacks_table)
  qed
qed

lemma stranded_forever:
  assumes "plain_step\<^sup>*\<^sup>* k k'" "sched_inv k" "stranded c b k"
  shows "sched_inv k' \<and> stranded c b k'"
  using assms
proof (induction rule: rtranclp_induct)
  case (step k' k'')
  then have "sched_inv k'" "stranded c b k'" by auto
  with step.hyps(2) stranded_step sched_step_inv show ?case by (auto simp: plain_step_def)
qed simp

section \<open>Properties\<close>

lemma reachable_inv: "sched_step\<^sup>*\<^sup>* k k' \<Longrightarrow> sched_inv k \<Longrightarrow> sched_inv k'"
  by (induction rule: rtranclp_induct) (auto intro: sched_step_inv)

text \<open>
  C19. Whatever the interleaving of process creation, waits, exits, yields and timer ticks, at most
  one process is running and it is the one the kernel believes is running; the process the
  scheduler would pick next is ready, is not the running one, and has a stack to resume on.
\<close>

theorem scheduler_safe:
  assumes "sched_inv k" "sched_step\<^sup>*\<^sup>* k k'"
  shows "(\<forall>i<16. p_state (proc k' i) = Running \<longrightarrow> i = current_process_index k') \<and>
    (\<forall>n. pick_next_ready k' = Some n \<longrightarrow>
       n < 16 \<and> p_state (proc k' n) = Ready \<and> n \<noteq> current_process_index k' \<and> p_context_rsp (proc k' n) \<noteq> 0)"
proof -
  note d = sched_invD [OF reachable_inv [OF assms(2,1)]]
  have "n < 16 \<and> p_state (proc k' n) = Ready \<and> n \<noteq> current_process_index k' \<and> p_context_rsp (proc k' n) \<noteq> 0"
    if "pick_next_ready k' = Some n" for n
    using pick_next_ready_Some [OF that] d(3,4) by (auto simp: runnable_def)
  with d(2) show ?thesis by auto
qed

text \<open>A table with a running parent in slot 0 and a ready child in slot 1.\<close>

definition demo_proc :: "u32 \<Rightarrow> u32 \<Rightarrow> process_state \<Rightarrow> process" where
  "demo_proc pid parent st = process_empty\<lparr>p_pid := pid, p_parent_pid := parent, p_state := st, p_pml4_phys := 0x1000, p_context_rsp := 0x2000\<rparr>"

definition demo_family :: kernel where
  "demo_family = set_proc 1 (demo_proc 2 1 Ready) (set_proc 0 (demo_proc 1 0 Running)
     (demo_state\<lparr>next_pid := 3, current_process_index := 0\<rparr>))"

lemma demo_proc_sel [simp]:
  "p_pid (demo_proc a b st) = a" "p_parent_pid (demo_proc a b st) = b" "p_state (demo_proc a b st) = st"
  "p_pml4_phys (demo_proc a b st) = 0x1000" "p_context_rsp (demo_proc a b st) = 0x2000" "p_waited (demo_proc a b st) = False"
  by (simp_all add: demo_proc_def process_empty_def)

lemma demo_family_facts:
  "j < 17 \<Longrightarrow> proc demo_family j = (if j = 0 then demo_proc 1 0 Running else if j = 1 then demo_proc 2 1 Ready else process_empty)"
  "current_process_index demo_family = 0" "next_pid demo_family = 3" "length (process_table demo_family) = 17"
  by (simp_all add: demo_family_def demo_state_def set_proc_def nth_list_update)

lemma demo_family_inv: "sched_inv demo_family"
proof (rule sched_invI)
  have "process_ok (demo_proc a b st)" for a b st
    using process_ok_empty by (simp add: demo_proc_def process_ok_def)
  then show "table_ok demo_family"
    unfolding demo_family_def using demo_state_ok(1) by (intro table_ok_set_proc) (simp_all add: table_ok_def)
  have "p_state process_empty = Empty" by (simp add: process_empty_def)
  then have e: "p_state (proc demo_family i) = Empty" if "1 < i" "i < 17" for i using that by (simp add: demo_family_facts)
  show "i = current_process_index demo_family" if "i < 16" "p_state (proc demo_family i) = Running" for i
    using that e [of i] by (cases "i = 0"; cases "i = 1") (auto simp: demo_family_facts)
  show "p_context_rsp (proc demo_family i) \<noteq> 0" if "i < 16" "runnable (proc demo_family i)" for i
    using that e [of i] by (cases "i = 0"; cases "i = 1") (auto simp: demo_family_facts runnable_def)
qed (simp add: demo_family_facts)

theorem scheduler_safe_witness:
  "{i. i < 16 \<and> p_state (proc (maybe_preempt 0x3000 demo_family) i) = Running} \<subseteq>
     {current_process_index (maybe_preempt 0x3000 demo_family)}"
proof -
  have "sched_step demo_family (maybe_preempt 0x3000 demo_family)" by (rule tick) simp
  then show ?thesis using scheduler_safe [OF demo_family_inv r_into_rtranclp] by blast
qed

text \<open>
  C20. An exit is never missed by a process that is already blocked: when the running process
  exits, every process blocked on its number or on any child becomes ready, no other process
  changes, and the exit code is waiting to be collected under its number.
\<close>

theorem exit_wakes_waiters:
  assumes "sched_inv k" "pids_ok k" "active k" "c = current_process_index k" "c < 16" "\<not> p_waited (proc k c)"
  shows "(\<forall>i<16. i \<noteq> c \<longrightarrow> proc (exit_process c code k) i =
      (if p_state (proc k i) = Blocked \<and> p_waiting_for (proc k i) \<in> {WaitPid (p_pid (proc k c)), WaitAnyChild}
       then (proc k i)\<lparr>p_waiting_for := WaitNone, p_state := Ready\<rparr> else proc k i)) \<and>
    fst (process_wait_by_pid (p_pid (proc k c)) (exit_process c code k)) =
      Some \<lparr>st_state = 3, st_exit_code = code\<rparr>"
proof -
  note d = sched_invD [OF assms(1)]
  let ?k = "process_set_state c Exited code k" and ?k' = "exit_process c code k"
  have run: "p_state (proc k c) = Running" using assms(3,4,5) by (auto simp: active_def)
  have pr: "proc ?k i = (if i = c then (proc k i)\<lparr>p_state := Exited, p_exit_code := code\<rparr> else proc k i)" for i
    using assms(5) d(5) by (simp add: process_set_state_def proc_set_proc)
  have len: "length (process_table ?k) = 17" using d(5) by (simp add: process_set_state_def)
  note w = wake_waiters_facts(1) [OF len, of "p_pid (proc k c)"]
  have pr': "proc ?k' i = (if i = c then (proc k i)\<lparr>p_state := Exited, p_exit_code := code\<rparr>
      else if i < 16 \<and> should_wake (p_pid (proc k c)) (proc k i)
      then (proc k i)\<lparr>p_waiting_for := WaitNone, p_state := Ready\<rparr> else proc k i)" for i
    by (simp add: exit_process_def Let_def w pr should_wake_def process_pid_def)
  have wk: "should_wake pid p \<longleftrightarrow> p_state p = Blocked \<and> p_waiting_for p \<in> {WaitPid pid, WaitAnyChild}" for pid p
    by (auto simp: should_wake_def split: wait_target.splits)
  have "fst (process_wait_by_pid (p_pid (proc k c)) ?k') = Some \<lparr>st_state = 3, st_exit_code = code\<rparr>"
  proof -
    obtain r k2 where e: "process_wait_by_pid (p_pid (proc k c)) ?k' = (r, k2)" by force
    then show ?thesis
    proof (cases rule: wait_by_pid_cases)
      case (collected i)
      have "i = c"
      proof (rule ccontr)
        assume "i \<noteq> c"
        with collected(1-4) have "p_pid (proc k i) = p_pid (proc k c)" "p_state (proc k i) \<noteq> Empty"
          by (auto simp: pr' zombie_def split: if_splits)
        with pids_okD [OF assms(2), of i c] collected(1) assms(5) run \<open>i \<noteq> c\<close> show False by auto
      qed
      with collected e show ?thesis by (simp add: pr')
    next
      case none
      from none(3) [OF assms(5)] assms(6) show ?thesis by (simp add: pr' zombie_def)
    qed
  qed
  then show ?thesis by (simp add: pr' wk)
qed

lemma demo_family_pids: "pids_ok demo_family"
proof -
  have "p_state process_empty = Empty" by (simp add: process_empty_def)
  then show ?thesis by (auto simp: pids_ok_def demo_family_facts)
qed

theorem exit_wakes_waiters_witness:
  "fst (process_wait_by_pid 1 (exit_process 0 7 demo_family)) = Some \<lparr>st_state = 3, st_exit_code = 7\<rparr>"
  using exit_wakes_waiters [OF demo_family_inv demo_family_pids, of 0 7] by (simp add: active_def demo_family_facts)

lemma block_strands:
  assumes inv: "sched_inv k" and a: "active k" "c = current_process_index k" "c < 16" and b: "b < next_pid k"
    and fin: "\<And>i. i < 16 \<Longrightarrow> p_pid (proc k i) = b \<Longrightarrow> p_state (proc k i) \<in> {Empty, Exited, Failed}"
  shows "sched_inv (block_current_on (WaitPid b) k) \<and> stranded c b (block_current_on (WaitPid b) k)"
proof -
  note d = sched_invD [OF inv]
  have run: "p_state (proc k c) = Running" using a by (auto simp: active_def)
  then have "p_pid (proc k c) \<noteq> b" using fin [of c] a(3) by auto
  then show ?thesis using sched_step_inv [OF block [OF a(1)] inv] a b fin d(5)
    by (auto simp: block_current_on_def Let_def stranded_def proc_set_proc)
qed

text \<open>
  C21. A wake-up can be lost: \<^verbatim>\<open>wait_for_pid_blocking\<close> decides to block and then blocks in two
  steps, and a timer tick may let the child run and exit in between.  A process that blocks on a
  number whose process has already finished stays blocked through every continuation (as long as
  process numbers do not wrap), and the scheduler never picks it again.
\<close>

theorem wait_lost_wakeup:
  assumes "sched_inv k" "active k" "current_process_index k = c" "c < 16" "b < next_pid k"
    "\<forall>i<16. p_pid (proc k i) = b \<longrightarrow> p_state (proc k i) \<in> {Empty, Exited, Failed}"
    "plain_step\<^sup>*\<^sup>* (block_current_on (WaitPid b) k) k'"
  shows "p_state (proc k' c) = Blocked \<and> p_waiting_for (proc k' c) = WaitPid b \<and> pick_next_ready k' \<noteq> Some c"
proof -
  have "stranded c b k'"
    using block_strands [OF assms(1,2) _ assms(4,5)] assms(3,6) stranded_forever [OF assms(7)] by blast
  then show ?thesis using pick_next_ready_Some [of k' c] by (auto simp: stranded_def)
qed

text \<open>The interleaving: the parent's check finds the child alive, the tick runs it, it exits, the parent resumes.\<close>

definition demo_raced :: kernel where
  "demo_raced = exit_and_yield 1 7 0x3000 (maybe_preempt 0x3000 demo_family)"

lemma demo_raced_step:
  "sched_step\<^sup>*\<^sup>* demo_family demo_raced" "current_process_index demo_raced = 0" "next_pid demo_raced = 3"
  "j < 17 \<Longrightarrow> p_state (proc demo_raced j) = (if j = 0 then Running else if j = 1 then Exited else Empty)"
  "j < 17 \<Longrightarrow> p_pid (proc demo_raced j) = (if j = 0 then 1 else if j = 1 then 2 else 0)"
proof -
  define k1 where "k1 = maybe_preempt 0x3000 demo_family"
  define k2 where "k2 = exit_process 1 7 k1"
  have e: "p_state process_empty = Empty" "p_pid process_empty = 0" by (simp_all add: process_empty_def)
  note d = sched_invD [OF demo_family_inv]
  have "pick_next_ready demo_family = Some 1" by (simp add: pick_next_ready_def upt_rec demo_family_facts)
  then have k1: "k1 = switch_to 1 0x3000 (set_proc 0 ((demo_proc 1 0 Running)\<lparr>p_state := Ready\<rparr>) demo_family)"
    by (simp add: k1_def maybe_preempt_def Let_def demo_family_facts)
  have ok: "table_ok (set_proc 0 ((demo_proc 1 0 Running)\<lparr>p_state := Ready\<rparr>) demo_family)"
    using table_ok_proc [OF d(1), of 0] by (intro table_ok_set_proc d(1)) (simp add: demo_family_facts)
  note f1 = switch_to_facts [OF ok, of 1 "0x3000", folded k1, simplified]
  have s1: "p_state (proc k1 j) = (if j = 0 then Ready else if j = 1 then Running else Empty)"
    "p_pid (proc k1 j) = (if j = 0 then 1 else if j = 1 then 2 else 0)" if "j < 17" for j
    using that by (simp_all add: f1(3) demo_family_facts proc_set_proc e)
  have st1: "sched_step demo_family k1" unfolding k1_def by (rule tick) simp
  have a1: "active k1" "current_process_index k1 = 1" by (simp_all add: active_def f1(2) s1)
  have st2: "sched_step k1 k2" unfolding k2_def using exit [OF a1(1), of 7] by (simp add: a1)
  have len: "length (process_table (process_set_state 1 Exited 7 k1)) = 17"
    using table_ok_length [OF f1(1)] by (simp add: process_set_state_def)
  note w = wake_waiters_facts [OF len, of 2]
  have k2: "k2 = wake_waiters_for 2 (process_set_state 1 Exited 7 k1)"
    by (simp add: k2_def exit_process_def Let_def process_pid_def s1)
  have s2: "p_state (proc k2 j) = (if j = 0 then Ready else if j = 1 then Exited else Empty)"
    "p_pid (proc k2 j) = (if j = 0 then 1 else if j = 1 then 2 else 0)" if "j < 17" for j
    unfolding k2 w(1) using that table_ok_length [OF f1(1)]
    by (simp_all add: process_set_state_def proc_set_proc s1 should_wake_def)
  have c2: "current_process_index k2 = 1" "next_pid k2 = 3"
    unfolding k2 w(2,4) by (simp_all add: process_set_state_def f1(2,4) demo_family_facts)
  have r: "demo_raced = run_scheduler_step 0x3000 k2" by (simp add: demo_raced_def exit_and_yield_def k1_def k2_def)
  have "pick_next_ready k2 = Some 0" by (simp add: pick_next_ready_def upt_rec s2)
  then have r': "demo_raced = switch_to 0 0x3000 k2" by (simp add: r run_scheduler_step_def)
  have "table_ok k2" using sched_invD(1) [OF sched_step_inv [OF st2 sched_step_inv [OF st1 demo_family_inv]]] .
  note f3 = switch_to_facts [OF this, of 0 "0x3000", folded r', simplified]
  have "sched_step k2 demo_raced" unfolding r by (rule yield) (simp_all add: c2 s2)
  with st1 st2 show "sched_step\<^sup>*\<^sup>* demo_family demo_raced" by (meson converse_rtranclp_into_rtranclp r_into_rtranclp)
  show "current_process_index demo_raced = 0" "next_pid demo_raced = 3" by (simp_all add: f3(2,4) c2)
  show "p_state (proc demo_raced j) = (if j = 0 then Running else if j = 1 then Exited else Empty)"
    "p_pid (proc demo_raced j) = (if j = 0 then 1 else if j = 1 then 2 else 0)" if "j < 17"
    using that by (simp_all add: f3(3) c2 Let_def s2)
qed

theorem wait_lost_wakeup_witness:
  "process_wait_by_pid 2 demo_family = (None, demo_family) \<and> find_process_index_by_pid 2 demo_family = Some 1 \<and>
   sched_step\<^sup>*\<^sup>* demo_family demo_raced \<and> current_process_index demo_raced = 0 \<and>
   p_state (proc (block_current_on (WaitPid 2) demo_raced) 0) = Blocked \<and>
   pick_next_ready (block_current_on (WaitPid 2) demo_raced) \<noteq> Some 0"
proof -
  note r = demo_raced_step
  have "p_state process_empty = Empty" by (simp add: process_empty_def)
  then have "process_wait_by_pid 2 demo_family = (None, demo_family)" "find_process_index_by_pid 2 demo_family = Some 1"
    by (simp_all add: process_wait_by_pid_def find_process_index_by_pid_def upt_rec demo_family_facts zombie_def)
  moreover have "p_state (proc (block_current_on (WaitPid 2) demo_raced) 0) = Blocked \<and>
      pick_next_ready (block_current_on (WaitPid 2) demo_raced) \<noteq> Some 0"
    using wait_lost_wakeup [OF reachable_inv [OF r(1) demo_family_inv] _ r(2), of 2] r by (simp add: active_def)
  ultimately show ?thesis using r(1,2) by simp
qed

text \<open>
  Waiting for a process whose status was already collected never returns either, while its slot
  is not reused: the process is still found in the table, so the wait blocks instead of failing,
  and nothing wakes it.
\<close>

theorem wait_collected_blocks:
  assumes "sched_inv k" "pids_ok k" "active k" "current_process_index k = c" "c < 16"
    "i < 16" "zombie (proc k i)" "p_waited (proc k i)" "p_pid (proc k i) = b"
  shows "wait_for_pid_turn b k = (WaitAgain, block_current_on (WaitPid b) k) \<and>
    (\<forall>k'. plain_step\<^sup>*\<^sup>* (block_current_on (WaitPid b) k) k' \<longrightarrow> p_state (proc k' c) = Blocked \<and> pick_next_ready k' \<noteq> Some c)"
proof -
  have ne: "p_state (proc k i) \<noteq> Empty" using assms(7) by (auto simp: zombie_def)
  have uniq: "j = i \<or> p_state (proc k j) = Empty" if "j < 16" "p_pid (proc k j) = b" for j
    using pids_okD [OF assms(2) that(1) assms(6)] that assms(9) ne by auto
  obtain r k1 where e: "process_wait_by_pid b k = (r, k1)" by force
  have none: "process_wait_by_pid b k = (None, k)" using e
  proof (cases rule: wait_by_pid_cases)
    case (collected j)
    with uniq [of j] assms(8) show ?thesis by (auto simp: zombie_def)
  qed (use e in simp)
  have "find_process_index_by_pid b k \<noteq> None"
    using find_upt_NoneD [of "\<lambda>index. p_pid (proc k index) = b \<and> p_state (proc k index) \<noteq> Empty" 16 i] assms(6,9) ne
    by (auto simp: find_process_index_by_pid_def)
  then have turn: "wait_for_pid_turn b k = (WaitAgain, block_current_on (WaitPid b) k)"
    by (simp add: wait_for_pid_turn_def none)
  have "b < next_pid k" using assms(2,6,9) ne by (auto simp: pids_ok_def)
  moreover have "p_state (proc k j) \<in> {Empty, Exited, Failed}" if "j < 16" "p_pid (proc k j) = b" for j
    using uniq [OF that] assms(7) by (auto simp: zombie_def)
  ultimately have s: "sched_inv (block_current_on (WaitPid b) k) \<and> stranded c b (block_current_on (WaitPid b) k)"
    using block_strands [OF assms(1,3)] assms(4,5) by simp
  have "p_state (proc k' c) = Blocked \<and> pick_next_ready k' \<noteq> Some c"
    if "plain_step\<^sup>*\<^sup>* (block_current_on (WaitPid b) k) k'" for k'
    using stranded_forever [OF that] s pick_next_ready_Some [of k' c] by (auto simp: stranded_def)
  with turn show ?thesis by blast
qed

definition demo_collected :: kernel where
  "demo_collected = set_proc 1 ((demo_proc 2 1 Exited)\<lparr>p_waited := True\<rparr>) demo_family"

theorem wait_collected_blocks_witness:
  "wait_for_pid_turn 2 demo_collected = (WaitAgain, block_current_on (WaitPid 2) demo_collected)"
proof -
  have ok: "process_ok ((demo_proc 2 1 Exited)\<lparr>p_waited := True\<rparr>)"
    using process_ok_empty by (simp add: demo_proc_def process_ok_def)
  have inv: "sched_inv demo_collected" unfolding demo_collected_def
    by (rule sched_inv_update [OF demo_family_inv _ ok]) (simp_all add: demo_family_facts runnable_def)
  have pids: "pids_ok demo_collected" unfolding demo_collected_def
    by (rule pids_ok_update [OF demo_family_pids]) (simp_all add: demo_family_facts)
  show ?thesis
    using wait_collected_blocks [OF inv pids, of 0 1 2]
    by (simp add: demo_collected_def active_def demo_family_facts zombie_def)
qed

text \<open>The queue of stacks to free is left alone by a tick.\<close>

lemma switch_to_pending: "pending_stack_reclaims (switch_to n rsp k) = pending_stack_reclaims k"
  by (simp add: switch_to_def Let_def more_fields [OF activate_pml4_more])

lemma maybe_preempt_pending: "pending_stack_reclaims (maybe_preempt rsp k) = pending_stack_reclaims k"
  by (simp add: maybe_preempt_def Let_def switch_to_pending split: option.splits)

lemma queue_stack_reclaim_pending:
  assumes "None \<in> set (pending_stack_reclaims k)"
  shows "Some pid \<in> set (pending_stack_reclaims (queue_stack_reclaim pid k))"
proof -
  obtain i where i: "i < length (pending_stack_reclaims k)" "pending_stack_reclaims k ! i = None"
    using assms by (metis in_set_conv_nth)
  then have "find (\<lambda>i. pending_stack_reclaims k ! i = None) [0..<length (pending_stack_reclaims k)] \<noteq> None"
    by (auto simp: find_None_iff)
  then obtain j where j: "find (\<lambda>i. pending_stack_reclaims k ! i = None) [0..<length (pending_stack_reclaims k)] = Some j" by blast
  then have "j < length (pending_stack_reclaims k)" by (auto simp: find_Some_iff)
  with j show ?thesis by (simp add: queue_stack_reclaim_def set_update_memI)
qed

lemma process_teardown_pending:
  assumes ok: "table_ok k" and room: "None \<in> set (pending_stack_reclaims k)"
  shows "Some (p_pid (proc k (current_process_index k))) \<in> set (pending_stack_reclaims (process_teardown k))"
proof -
  let ?i = "current_process_index k"
  have i: "?i \<le> 16" and len: "length (process_table k) = 17" using ok by (simp_all add: table_ok_def)
  obtain n k1 where e1: "process_reclaim_mappings ?i k = (n, k1)" by force
  note t1 = process_reclaim_mappings_table [OF e1 len i]
  define k2 where "k2 = (case ensure_kernel_pml4 (destroy_process_address_space (p_pml4_phys (proc k ?i))
      (reclaim_process_window_tables (p_pid (proc k ?i)) k1)) of (Some a, k) \<Rightarrow> k\<lparr>cr3 := a\<rparr> | (None, k) \<Rightarrow> k)"
  have m2: "paging.more k2 = paging.more k1"
    using ensure_kernel_pml4_more [of "destroy_process_address_space (p_pml4_phys (proc k ?i))
      (reclaim_process_window_tables (p_pid (proc k ?i)) k1)"]
    by (auto simp: k2_def split: prod.splits option.splits)
  have "pending_stack_reclaims (process_teardown k) =
      pending_stack_reclaims (queue_stack_reclaim (p_pid (proc k ?i)) (set_proc ?i ((proc k2 ?i)\<lparr>p_pml4_phys := 0\<rparr>) k2))"
    by (simp add: process_teardown_def Let_def e1 flip: k2_def)
  then show ?thesis using room by (simp add: queue_stack_reclaim_pending more_fields [OF m2] t1)
qed

text \<open>
  A process that is ending queues its own kernel stack for release before it has left it, with
  timer ticks enabled.  If a tick hands the CPU to another process at that point, the stack stays
  queued while its owner is ready to be resumed on it; whoever runs next frees the queued stacks.
\<close>

theorem stack_queued_while_ready:
  assumes "sched_inv k" "active k" "current_process_index k = c" "c < 16" "None \<in> set (pending_stack_reclaims k)"
    "pick_next_ready k = Some n" "rsp \<noteq> 0"
  shows "let k' = maybe_preempt rsp (process_teardown k) in
    sched_step\<^sup>*\<^sup>* k k' \<and> current_process_index k' = n \<and> p_state (proc k' c) = Ready \<and> p_context_rsp (proc k' c) = rsp \<and>
    Some (p_pid (proc k' c)) \<in> set (pending_stack_reclaims k')"
proof -
  let ?t = "process_teardown k" and ?k' = "maybe_preempt rsp (process_teardown k)"
  note d = sched_invD [OF assms(1)]
  note t = process_teardown_table [OF d(1)]
  have run: "p_state (proc k c) = Running" using assms(2-4) by (auto simp: active_def)
  have role: "p_state (proc ?t j) = p_state (proc k j)" "p_pid (proc ?t j) = p_pid (proc k j)" for j
    using t(4) [of j] by (simp_all add: same_role_def)
  have pick: "pick_next_ready ?t = Some n" using assms(6) by (simp add: pick_next_ready_def role)
  have n: "n < 16" "n \<noteq> c" using pick_next_ready_Some [OF assms(6)] run by auto
  let ?u = "set_proc c ((proc ?t c)\<lparr>p_state := Ready\<rparr>) ?t"
  have k': "?k' = switch_to n rsp ?u" using pick run assms(3,4) by (simp add: maybe_preempt_def Let_def t(2) role)
  have "table_ok ?u" using table_ok_proc [OF t(1), of c] assms(4) by (intro table_ok_set_proc t(1)) simp
  note f = switch_to_facts [OF this, of n rsp, folded k']
  have len: "length (process_table ?t) = 17" by (rule table_ok_length [OF t(1)])
  have steps: "sched_step k ?t" "sched_step ?t ?k'"
    using teardown [OF assms(2)] tick [OF assms(7), of ?t] assms(3,4) by auto
  have "Some (p_pid (proc k c)) \<in> set (pending_stack_reclaims ?k')"
    using process_teardown_pending [OF d(1) assms(5)] assms(3) by (simp add: maybe_preempt_pending)
  moreover have "current_process_index ?k' = n" "proc ?k' c = (proc ?t c)\<lparr>p_state := Ready, p_context_rsp := rsp\<rparr>"
    using n f(2,3) assms(3,4) len t(2) by (simp_all add: Let_def)
  ultimately show ?thesis using steps by (simp add: Let_def role)
qed

theorem stack_queued_while_ready_witness:
  "p_state (proc (maybe_preempt 0x3000 (process_teardown demo_family)) 0) = Ready \<and>
   Some (p_pid (proc (maybe_preempt 0x3000 (process_teardown demo_family)) 0))
     \<in> set (pending_stack_reclaims (maybe_preempt 0x3000 (process_teardown demo_family)))"
proof -
  have "pick_next_ready demo_family = Some 1" by (simp add: pick_next_ready_def upt_rec demo_family_facts)
  moreover have "None \<in> set (pending_stack_reclaims demo_family)" by (simp add: demo_family_def demo_state_def)
  ultimately show ?thesis
    using stack_queued_while_ready [OF demo_family_inv, of 0 1 "0x3000"] by (simp add: active_def demo_family_facts Let_def)
qed

end
