(* ===== verification/Program_Memory.thy ===== *)
theory Program_Memory
  imports Scheduler
begin

text \<open>
  Memory calls of programs, \<^verbatim>\<open>kernel/src/main.rs\<close>: the heap and mapping windows of a process,
  \<^verbatim>\<open>abi_mem_alloc_pages\<close>, \<^verbatim>\<open>abi_mem_map_pages\<close> with guard pages, and \<^verbatim>\<open>abi_mem_unmap_pages\<close>.  The windows
  are bump-allocated: addresses are handed out once.  Zero is the failure value, as in the code.
\<close>

section \<open>Model\<close>

definition USER_HEAP_MAX_PAGES_PER_CALL :: nat where "USER_HEAP_MAX_PAGES_PER_CALL = 4096"
definition USER_MMAP_MAX_PAGES_PER_CALL :: nat where "USER_MMAP_MAX_PAGES_PER_CALL = 16384"
definition MEM_MAP_GUARD :: u32 where "MEM_MAP_GUARD = 1"

definition checked_add :: "u64 \<Rightarrow> u64 \<Rightarrow> u64 option" where
  "checked_add a b = (if unat a + unat b < 2 ^ 64 then Some (a + b) else None)"

definition checked_mul :: "u64 \<Rightarrow> u64 \<Rightarrow> u64 option" where
  "checked_mul a b = (if unat a * unat b < 2 ^ 64 then Some (a * b) else None)"

definition current_pml4_or_kernel :: "kernel \<Rightarrow> u64 option \<times> kernel" where
  "current_pml4_or_kernel k =
     (let index = current_process_index k in
      if index < PROCESS_COUNT \<and> p_pml4_phys (proc k index) \<noteq> 0 then (Some (p_pml4_phys (proc k index)), k)
      else ensure_kernel_pml4 k)"

definition app_set_heap_window :: "nat \<Rightarrow> u32 \<Rightarrow> kernel \<Rightarrow> kernel" where
  "app_set_heap_window index pid k =
     (let base = heap_window pid; mmap_base = mmap_window pid in
      if index \<le> PROCESS_COUNT then
        let p = proc k index;
            first_setup = (p_heap_base p = 0);
            p = p\<lparr>p_heap_base := base, p_heap_limit := base + USER_HEAP_STRIDE, p_mmap_limit := mmap_base + USER_MMAP_SIZE\<rparr>
        in set_proc index (if first_setup then p\<lparr>p_heap_next := base, p_mmap_next := mmap_base\<rparr> else p) k
      else k)"

text \<open>
  The end of both allocating calls: record the run, map it in the kernel's tables, and take the record
  back when that fails.
\<close>

definition track_and_map :: "u64 \<Rightarrow> u64 \<Rightarrow> nat \<Rightarrow> kernel \<Rightarrow> u64 \<times> kernel" where
  "track_and_map pml4_phys base page_count k =
     (let index = current_process_index k in
      case process_track_mapping index base page_count k of
        (False, k) \<Rightarrow> (0, k)
      | (True, k) \<Rightarrow>
          (case map_user_pages pml4_phys base page_count k of
             (True, k) \<Rightarrow> (base, k)
           | (False, k) \<Rightarrow> (0, snd (process_untrack_mapping index base page_count k))))"

definition abi_mem_alloc_pages :: "nat \<Rightarrow> kernel \<Rightarrow> u64 \<times> kernel" where
  "abi_mem_alloc_pages page_count k =
     (if page_count = 0 \<or> page_count > USER_HEAP_MAX_PAGES_PER_CALL then (0, k)
      else case ensure_kernel_pml4 k of
        (None, k) \<Rightarrow> (0, k)
      | (Some pml4_phys, k) \<Rightarrow>
          let index = current_process_index k; p = proc k index in
          if p_heap_base p = 0 \<or> p_heap_next p = 0 \<or> p_heap_limit p = 0 then (0, k)
          else case checked_mul (of_nat page_count) PAGE_SIZE of
            None \<Rightarrow> (0, k)
          | Some byte_count \<Rightarrow>
              (case checked_add (p_heap_next p) byte_count of
                 None \<Rightarrow> (0, k)
               | Some nxt \<Rightarrow>
                   if nxt > p_heap_limit p then (0, k)
                   else track_and_map pml4_phys (p_heap_next p) page_count (set_proc index (p\<lparr>p_heap_next := nxt\<rparr>) k)))"

definition abi_mem_map_pages :: "nat \<Rightarrow> u32 \<Rightarrow> kernel \<Rightarrow> u64 \<times> kernel" where
  "abi_mem_map_pages page_count flags k =
     (if page_count = 0 \<or> page_count > USER_MMAP_MAX_PAGES_PER_CALL then (0, k)
      else if flags AND NOT MEM_MAP_GUARD \<noteq> 0 then (0, k)
      else case ensure_kernel_pml4 k of
        (None, k) \<Rightarrow> (0, k)
      | (Some pml4_phys, k) \<Rightarrow>
          let index = current_process_index k; p = proc k index;
              guard = (flags AND MEM_MAP_GUARD \<noteq> 0);
              total_pages = page_count + (if guard then 2 else 0) in
          if p_mmap_next p = 0 \<or> p_mmap_limit p = 0 then (0, k)
          else case checked_mul (of_nat total_pages) PAGE_SIZE of
            None \<Rightarrow> (0, k)
          | Some byte_count \<Rightarrow>
              (case checked_add (p_mmap_next p) byte_count of
                 None \<Rightarrow> (0, k)
               | Some nxt \<Rightarrow>
                   if nxt > p_mmap_limit p then (0, k)
                   else track_and_map pml4_phys (if guard then p_mmap_next p + PAGE_SIZE else p_mmap_next p) page_count
                          (set_proc index (p\<lparr>p_mmap_next := nxt\<rparr>) k)))"

definition abi_mem_unmap_pages :: "u64 \<Rightarrow> nat \<Rightarrow> kernel \<Rightarrow> int \<times> kernel" where
  "abi_mem_unmap_pages address page_count k =
     (if address = 0 \<or> page_count = 0 \<or> page_count > USER_MMAP_MAX_PAGES_PER_CALL \<or> address AND (PAGE_SIZE - 1) \<noteq> 0
      then (- 1, k)
      else case process_untrack_mapping (current_process_index k) address page_count k of
        (False, k) \<Rightarrow> (- 1, k)
      | (True, k) \<Rightarrow> (0, snd (unmap_user_pages (kernel_pml4_phys k) address page_count k)))"

section \<open>Fresh runs of pages\<close>

text \<open>
  Every page of the run was unmapped and now has a zeroed page of its own, taken from the allocator; no
  other translation changed.
\<close>

definition fresh_run :: "u64 \<Rightarrow> kernel \<Rightarrow> kernel \<Rightarrow> u64 \<Rightarrow> nat \<Rightarrow> bool" where
  "fresh_run root k k' base n \<longleftrightarrow>
     (\<exists>gs. length gs = n \<and> distinct gs \<and> set gs \<subseteq> avail k - avail k' \<and>
        run_trans root (phys_mem k) (phys_mem k') base gs \<and>
        (\<forall>a. align_down_u64 a PAGE_SIZE \<in> set gs \<longrightarrow> phys_mem k' a = 0))"

definition recorded :: "u64 \<Rightarrow> nat \<Rightarrow> process \<Rightarrow> bool" where
  "recorded virt n p \<longleftrightarrow> \<lparr>pm_used = True, pm_virt = virt, pm_pages = n\<rparr> \<in> set (p_mappings p)"

lemma track_mapping_cases [consumes 2, case_names tracked full]:
  assumes "process_track_mapping i virt n k = (ok, k')" "i < length (process_table k)"
  obtains m where "ok" "i < 16" "k' = set_proc i ((proc k i)\<lparr>p_mappings := m\<rparr>) k" "length m = length (p_mappings (proc k i))"
      "\<lparr>pm_used = True, pm_virt = virt, pm_pages = n\<rparr> \<in> set m"
  | "\<not> ok" "k' = k"
  using assms(1)
  by (auto simp: process_track_mapping_def Let_def find_upt_Some PROCESS_COUNT_def split: if_splits option.splits
      intro: that simp del: upt.simps) (metis length_list_update set_update_memI that(1))

lemma untrack_mapping_cases:
  assumes "process_untrack_mapping i virt n k = (ok, k')"
  obtains m where "k' = set_proc i ((proc k i)\<lparr>p_mappings := m\<rparr>) k" "length m = length (p_mappings (proc k i))" | "k' = k"
  using assms by (auto simp: process_untrack_mapping_def Let_def split: if_splits option.splits intro: that)

lemma phys_set_proc: "paging_ok root (set_proc i p k) = paging_ok root k" "avail (set_proc i p k) = avail k"
  by (simp_all add: paging_ok_def)

lemma track_and_map_spec:
  assumes ok: "paging_ok root k" "root \<noteq> 0" and t: "table_ok k"
    and b: "page_aligned base" "base \<noteq> 0" "n \<le> 2 ^ 36" and e: "track_and_map root base n k = (r, k')"
  shows "paging_ok root k' \<and> table_ok k' \<and> current_process_index k' = current_process_index k \<and>
    (if r = 0 then translate (phys_mem k') root = translate (phys_mem k) root
     else r = base \<and> fresh_run root k k' base n \<and> recorded base n (proc k' (current_process_index k)) \<and>
       p_mmap_next (proc k' (current_process_index k)) = p_mmap_next (proc k (current_process_index k)) \<and>
       p_heap_next (proc k' (current_process_index k)) = p_heap_next (proc k (current_process_index k)))"
proof -
  let ?i = "current_process_index k"
  have i: "?i < length (process_table k)" "?i \<le> 16" using t by (simp_all add: table_ok_def)
  have keep: "table_ok (set_proc ?i ((proc k' ?i)\<lparr>p_mappings := m\<rparr>) k')"
    if "table_ok k'" "length m = length (p_mappings (proc k' ?i))" for m k'
    using that table_ok_proc [OF that(1) i(2)] by (intro table_ok_set_proc) (auto simp: process_ok_def)
  obtain ok1 k1 where tr: "process_track_mapping ?i base n k = (ok1, k1)" by force
  from tr i(1) show ?thesis
  proof (cases rule: track_mapping_cases)
    case full
    with e tr ok t show ?thesis by (simp add: track_and_map_def Let_def)
  next
    case (tracked m)
    have ok1: "paging_ok root k1" and t1: "table_ok k1" using ok keep [OF t tracked(4)] by (simp_all add: tracked(3) phys_set_proc)
    obtain dn k2 where mp: "map_user_pages root base n k1 = (dn, k2)" by force
    note run = map_user_pages_run [OF ok1 ok(2) b(1,3) mp]
    show ?thesis
    proof (cases dn)
      case True
      with run obtain gs where gs: "length gs = n" "run_frame root k1 k2 gs" "run_trans root (phys_mem k1) (phys_mem k2) base gs" by auto
      then have more: "paging.more k2 = paging.more k1" by (simp add: run_frame_def)
      have "r = base" "k' = k2" using e tr tracked(1) mp True by (simp_all add: track_and_map_def Let_def)
      moreover have "fresh_run root k k2 base n"
        using gs unfolding fresh_run_def run_frame_def by (intro exI [of _ gs]) (auto simp: tracked(3))
      ultimately show ?thesis
        using gs(2) b(2) tracked(5) i(1) t1 more_fields [OF more] table_ok_more [OF more]
        by (simp add: run_frame_def tracked(3) recorded_def)
    next
      case False
      with run have f: "run_frame root k1 k2 []" "translate (phys_mem k2) root = translate (phys_mem k1) root" by auto
      then have more: "paging.more k2 = paging.more k1" by (simp add: run_frame_def)
      obtain ok3 k3 where u: "process_untrack_mapping ?i base n k2 = (ok3, k3)" by force
      have r: "r = 0" "k' = k3" using e tr tracked(1) mp False u by (simp_all add: track_and_map_def Let_def)
      have k2: "paging_ok root k2" "table_ok k2" using f(1) t1 table_ok_more [OF more] by (simp_all add: run_frame_def)
      from u show ?thesis
      proof (cases rule: untrack_mapping_cases)
        case (1 m')
        from keep [OF k2(2) 1(2)] k2 f(2) more_fields [OF more] show ?thesis by (simp add: r 1(1) phys_set_proc tracked(3))
      next
        case 2
        with k2 f(2) more_fields [OF more] show ?thesis by (simp add: r tracked(3))
      qed
    qed
  qed
qed

lemma run_outside:
  assumes "run_trans root m m' (page_at base g) gs" "page_aligned base" "j < 2 ^ 36" "g + length gs \<le> 2 ^ 36" "j < g \<or> g + length gs \<le> j"
  shows "translate m' root (page_at base j) = translate m root (page_at base j)"
proof -
  have "\<not> same_page (page_at base j) (page_at (page_at base g) i)" if "i < length gs" for i
  proof
    assume "same_page (page_at base j) (page_at (page_at base g) i)"
    moreover have "page_at (page_at base g) i = page_at base (g + i)" by (simp add: algebra_simps)
    ultimately have "j = g + i" using page_at_inj [OF assms(2), of j "g + i"] assms(3,4) that by simp
    with assms(5) that show False by auto
  qed
  with assms(1) show ?thesis by (simp add: run_trans_def)
qed

lemma window_step:
  assumes "n \<le> 2 ^ 32" "checked_mul (of_nat n) PAGE_SIZE = Some b" "checked_add a b = Some c"
  shows "unat c = unat a + n * 4096"
proof -
  have "unat b = n * 4096"
    using assms(1,2) by (auto simp: checked_mul_def PAGE_SIZE_def unat_word_ariths unat_of_nat split: if_splits)
  then show ?thesis using assms(3) by (auto simp: checked_add_def unat_word_ariths split: if_splits)
qed

lemma guard_flag: "flags AND NOT MEM_MAP_GUARD = 0 \<Longrightarrow> flags AND MEM_MAP_GUARD \<noteq> 0 \<longleftrightarrow> flags = 1"
proof -
  assume "flags AND NOT MEM_MAP_GUARD = 0"
  moreover have "flags = (flags AND 1) OR (flags AND NOT 1)"
    by (rule bit_word_eqI) (auto simp: bit_or_iff bit_and_iff bit_not_iff)
  ultimately have "flags = flags AND 1" by (simp add: MEM_MAP_GUARD_def)
  moreover have "flags AND 1 = of_bool (odd flags)" by (simp add: and_one_eq mod_2_eq_odd)
  ultimately show ?thesis unfolding MEM_MAP_GUARD_def by (cases "odd flags") auto
qed

lemma mem_map_unfold:
  assumes K: "kernel_pml4_phys k \<noteq> 0" and i: "i = current_process_index k" and nxt: "nxt = p_mmap_next (proc k i)"
    and g: "g = (if flags = 1 then 1 else 0 :: nat)"
  shows "abi_mem_map_pages n flags k =
    (if n = 0 \<or> n > 16384 \<or> flags AND NOT MEM_MAP_GUARD \<noteq> 0 \<or> nxt = 0 \<or> p_mmap_limit (proc k i) = 0 then (0, k)
     else case checked_mul (of_nat (n + 2 * g)) PAGE_SIZE of None \<Rightarrow> (0, k)
       | Some b \<Rightarrow> (case checked_add nxt b of None \<Rightarrow> (0, k)
         | Some c \<Rightarrow> if c > p_mmap_limit (proc k i) then (0, k)
             else track_and_map (kernel_pml4_phys k) (page_at nxt g) n (set_proc i ((proc k i)\<lparr>p_mmap_next := c\<rparr>) k)))"
proof (cases "n = 0 \<or> n > 16384 \<or> flags AND NOT MEM_MAP_GUARD \<noteq> 0")
  case True
  then show ?thesis by (auto simp: abi_mem_map_pages_def USER_MMAP_MAX_PAGES_PER_CALL_def)
next
  case False
  then have "flags AND MEM_MAP_GUARD \<noteq> 0 \<longleftrightarrow> flags = 1" by (intro guard_flag) simp
  then have "n + (if flags AND MEM_MAP_GUARD \<noteq> 0 then 2 else 0) = n + 2 * g"
    "(if flags AND MEM_MAP_GUARD \<noteq> 0 then nxt + PAGE_SIZE else nxt) = page_at nxt g" by (simp_all add: g)
  then show ?thesis using False K
    unfolding abi_mem_map_pages_def ensure_kernel_pml4_def Let_def i [symmetric] nxt [symmetric] USER_MMAP_MAX_PAGES_PER_CALL_def
    by (simp only: if_True if_False option.case prod.case i [symmetric] nxt [symmetric] not_False_eq_True de_Morgan_disj simp_thms)
qed

section \<open>Properties\<close>

text \<open>
  Mapping memory for a program.  \<^verbatim>\<open>abi_mem_map_pages\<close> either returns zero and no translation has
  changed, or it returns the address of a run of fresh zeroed pages inside the process's mapping window,
  recorded for release, and the window pointer has moved past it.  With a guard the pages right before and
  right behind the run belong to the same reservation and are left as they were.
\<close>

theorem mem_map_pages_correct:
  assumes "paging_ok (kernel_pml4_phys k) k" "kernel_pml4_phys k \<noteq> 0" "table_ok k" "page_aligned (p_mmap_next (proc k (current_process_index k)))"
    "abi_mem_map_pages n flags k = (r, k')"
  shows "let i = current_process_index k; root = kernel_pml4_phys k; nxt = p_mmap_next (proc k i); g = (if flags = 1 then 1 else 0) in
    paging_ok root k' \<and> table_ok k' \<and>
    (if r = 0 then translate (phys_mem k') root = translate (phys_mem k) root
     else r = page_at nxt g \<and> fresh_run root k k' r n \<and> recorded r n (proc k' i) \<and>
       unat (p_mmap_next (proc k' i)) = unat nxt + (n + 2 * g) * 4096 \<and> unat (p_mmap_next (proc k' i)) \<le> unat (p_mmap_limit (proc k i)) \<and>
       list_all (\<lambda>j. translate (phys_mem k') root (page_at nxt j) = translate (phys_mem k) root (page_at nxt j))
         (if g = 1 then [0, n + 1] else []))"
proof -
  define i root where "i = current_process_index k" and "root = kernel_pml4_phys k"
  define nxt where "nxt = p_mmap_next (proc k i)"
  define g :: nat where "g = (if flags = 1 then 1 else 0)"
  have il: "i < length (process_table k)" "i \<le> 16" using assms(3) by (simp_all add: i_def table_ok_def)
  have al: "page_aligned nxt" using assms(4) by (simp add: nxt_def i_def)
  consider (refused) "r = 0" "k' = k"
    | (reserved) c where "n \<le> 16384" "0 < n" "c \<le> p_mmap_limit (proc k i)" "nxt \<noteq> 0" "unat c = unat nxt + (n + 2 * g) * 4096"
        "track_and_map root (page_at nxt g) n (set_proc i ((proc k i)\<lparr>p_mmap_next := c\<rparr>) k) = (r, k')"
  proof -
    note e = mem_map_unfold [OF assms(2) i_def nxt_def g_def, of n, unfolded assms(5), folded root_def]
    show thesis
    proof (cases "r = 0 \<and> k' = k")
      case False
      with e [symmetric] obtain b c where bc: "checked_mul (of_nat (n + 2 * g)) PAGE_SIZE = Some b" "checked_add nxt b = Some c"
        "\<not> p_mmap_limit (proc k i) < c" and n: "n \<le> 16384" "0 < n" "nxt \<noteq> 0"
        and t: "track_and_map root (page_at nxt g) n (set_proc i ((proc k i)\<lparr>p_mmap_next := c\<rparr>) k) = (r, k')"
        by (auto simp del: of_nat_add split: if_splits option.splits)
      have "unat c = unat nxt + (n + 2 * g) * 4096" by (rule window_step [OF _ bc(1,2)]) (use n in \<open>simp add: g_def\<close>)
      with that(2) n bc(3) t show ?thesis by (meson linorder_not_less)
    qed (use that(1) in blast)
  qed
  then show ?thesis
  proof cases
    case refused
    with assms(1,3) show ?thesis by (simp add: Let_def)
  next
    case (reserved c)
    let ?k = "set_proc i ((proc k i)\<lparr>p_mmap_next := c\<rparr>) k"
    have t: "table_ok ?k" using table_ok_proc [OF assms(3) il(2)] by (intro table_ok_set_proc [OF assms(3)]) (simp add: process_ok_def)
    have "unat (page_at nxt g) = unat nxt + g * 4096"
      using reserved(5) unat_bound [of c] by (cases "flags = 1") (simp_all add: unat_word_ariths g_def PAGE_SIZE_def)
    then have "page_at nxt g \<noteq> 0" using reserved(4) by (metis add_is_0 unat_eq_zero unsigned_0)
    then have ne: "page_at nxt g \<noteq> 0" .
    have pg: "paging_ok root ?k" "root \<noteq> 0" "n \<le> 2 ^ 36" using assms(1,2) reserved(1) by (simp_all add: root_def phys_set_proc)
    have cur: "current_process_index ?k = i" "proc ?k i = (proc k i)\<lparr>p_mmap_next := c\<rparr>" using il(1) by (simp_all add: i_def)
    have sp: "paging_ok root k' \<and> table_ok k' \<and>
      (if r = 0 then translate (phys_mem k') root = translate (phys_mem k) root
       else r = page_at nxt g \<and> fresh_run root ?k k' (page_at nxt g) n \<and> recorded (page_at nxt g) n (proc k' i) \<and> p_mmap_next (proc k' i) = c)"
      using track_and_map_spec [OF pg(1,2) t page_at_aligned [OF al] ne pg(3) reserved(6)] unfolding cur by auto
    have out: "translate (phys_mem k') root (page_at nxt j) = translate (phys_mem k) root (page_at nxt j)"
      if fr: "fresh_run root ?k k' (page_at nxt g) n" and j: "j < 2 ^ 36" "j < g \<or> g + n \<le> j" for j
    proof -
      from fr obtain gs where gs: "length gs = n" "run_trans root (phys_mem k) (phys_mem k') (page_at nxt g) gs"
        by (auto simp: fresh_run_def)
      show ?thesis by (rule run_outside [OF gs(2) al]) (use gs(1) j reserved(1) in \<open>auto simp: g_def\<close>)
    qed
    have fr: "fresh_run root ?k k' b n = fresh_run root k k' b n" for b by (simp add: fresh_run_def)
    have "unat c \<le> unat (p_mmap_limit (proc k i))" using reserved(3) by (simp add: word_le_nat_alt)
    with sp out [of 0] out [of "n + 1"] reserved(1,5) show ?thesis
      unfolding Let_def i_def [symmetric] root_def [symmetric] nxt_def [symmetric] g_def [symmetric]
      by (auto simp: fr)
  qed
qed

text \<open>A process with a mapping window, over the tables of \<open>demo_paging\<close>.\<close>

definition demo_mapper :: kernel where
  "demo_mapper = demo_state\<lparr>phys_alloc := demo_pool, kernel_pml4_phys := 0x1000, cr3 := 0x1000,
     process_table := (replicate 17 process_empty)[0 := process_empty\<lparr>p_mmap_next := mmap_window 1, p_mmap_limit := mmap_window 1 + USER_MMAP_SIZE\<rparr>],
     current_process_index := 0\<rparr>"

lemma demo_mapper_ok: "paging_ok 0x1000 demo_mapper" "table_ok demo_mapper"
proof -
  show "paging_ok 0x1000 demo_mapper"
    using demo_paging_ok by (simp add: paging_ok_def demo_mapper_def demo_paging_def demo_state_def)
  show "table_ok demo_mapper"
    using process_ok_empty by (auto simp: demo_mapper_def demo_state_def table_ok_def list_all_length nth_list_update process_ok_def)
qed

lemma demo_mmap_window: "mmap_window 1 = 0xFFFFA00040000000" "mmap_window 1 + USER_MMAP_SIZE = 0xFFFFA00070000000"
  by (simp_all add: mmap_window_def USER_MMAP_BASE_def USER_MMAP_STRIDE_def USER_MMAP_SIZE_def)

lemma demo_maps: "fst (abi_mem_map_pages 1 1 demo_mapper) \<noteq> 0"
proof -
  have f: "find (\<lambda>i. \<not> pm_used (replicate 64 process_mapping_empty ! i)) [0..<64] = Some 0"
    by (rule find_upt_first) (simp_all add: process_mapping_empty_def)
  have "fst (map_user_pages 0x1000 0xFFFFA00040001000 1 k)" if "phys_mem k = (\<lambda>a. 0)" "phys_alloc k = demo_pool" for k :: kernel
    using that by (simp add: map_user_pages_def alloc_zeroed_page_def demo_pool_eq alloc_page_def allocator_empty_def
        map_page_def ensure_next_table_def write_entry_def zero_page_def align_down_u64_def
        pml4_index_def pdpt_index_def pd_index_def pt_index_def entry_addr_def paging_consts alloc_consts Let_def)
  then have m: "\<exists>k2. map_user_pages 0x1000 0xFFFFA00040001000 1 k = (True, k2)"
    if "phys_mem k = (\<lambda>a. 0)" "phys_alloc k = demo_pool" for k :: kernel
    using that by (metis prod.collapse)
  have p: "proc demo_mapper 0 = process_empty\<lparr>p_mmap_next := 0xFFFFA00040000000, p_mmap_limit := 0xFFFFA00070000000\<rparr>"
    "current_process_index demo_mapper = 0" "kernel_pml4_phys demo_mapper = 0x1000"
    using demo_mmap_window(2) by (simp_all add: demo_mapper_def demo_mmap_window(1))
  let ?k = "set_proc 0 ((proc demo_mapper 0)\<lparr>p_mmap_next := 0xFFFFA00040003000\<rparr>) demo_mapper"
  obtain k1 where k1: "process_track_mapping 0 0xFFFFA00040001000 1 ?k = (True, k1)" "phys_mem k1 = (\<lambda>a. 0)" "phys_alloc k1 = demo_pool"
    using f by (simp add: process_track_mapping_def p process_empty_def Let_def demo_mapper_def demo_state_def)
  from m [OF k1(2,3)] obtain k2 where k2: "map_user_pages 0x1000 0xFFFFA00040001000 1 k1 = (True, k2)" by blast
  have "track_and_map 0x1000 0xFFFFA00040001000 1 ?k = (0xFFFFA00040001000, k2)"
    using k1(1) k2 p(2) by (simp add: track_and_map_def Let_def)
  then show ?thesis
    by (simp add: mem_map_unfold [OF _ refl refl refl] p MEM_MAP_GUARD_def checked_mul_def checked_add_def PAGE_SIZE_def)
qed

theorem mem_map_pages_correct_witness:
  "\<exists>k'. abi_mem_map_pages 1 1 demo_mapper = (0xFFFFA00040001000, k') \<and>
     fresh_run 0x1000 demo_mapper k' 0xFFFFA00040001000 1 \<and>
     translate (phys_mem k') 0x1000 0xFFFFA00040000000 = translate (phys_mem demo_mapper) 0x1000 0xFFFFA00040000000"
proof -
  obtain r k' where e: "abi_mem_map_pages 1 1 demo_mapper = (r, k')" by force
  have "fst (abi_mem_map_pages 1 1 demo_mapper) \<noteq> 0" by (rule demo_maps)
  then have "r \<noteq> 0" using e by simp
  moreover have p: "proc demo_mapper 0 = process_empty\<lparr>p_mmap_next := mmap_window 1, p_mmap_limit := mmap_window 1 + USER_MMAP_SIZE\<rparr>"
    "current_process_index demo_mapper = 0" "kernel_pml4_phys demo_mapper = 0x1000" by (simp_all add: demo_mapper_def)
  moreover have "page_aligned (0xFFFFA00040000000 :: u64)" by (simp add: page_aligned_def PAGE_SIZE_def)
  ultimately show ?thesis using mem_map_pages_correct [OF _ _ demo_mapper_ok(2) _ e] demo_mapper_ok(1) e
    by (auto simp: Let_def demo_mmap_window PAGE_SIZE_def)
qed

end
