(* ===== verification/User_Heap.thy ===== *)
theory User_Heap
  imports Program_Memory
begin

text \<open>
  The allocator of the user runtime, \<^verbatim>\<open>runtime/rymos-user/src/lib.rs\<close>: a bump allocator over chunks of pages
  taken from the kernel with \<^verbatim>\<open>mem_alloc_pages\<close>.  What the allocator needs of the kernel is the contract
  \<open>page_source\<close>; the kernel's call provides it.
\<close>

section \<open>Model\<close>

definition MIN_HEAP_CHUNK :: u64 where "MIN_HEAP_CHUNK = 64 * 1024"

definition user_mem_alloc_pages :: "nat \<Rightarrow> kernel \<Rightarrow> u64 option \<times> kernel" where
  "user_mem_alloc_pages page_count k =
     (case abi_mem_alloc_pages page_count k of (address, k) \<Rightarrow> (if address = 0 then None else Some address, k))"

record bump =
  bump_base :: u64
  bump_next :: u64
  bump_end :: u64
  bump_allocated :: u64

definition bump_new :: bump where
  "bump_new = \<lparr>bump_base = 0, bump_next = 0, bump_end = 0, bump_allocated = 0\<rparr>"

text \<open>
  \<open>alloc\<close> with the layout's size and alignment; zero is the null pointer.  The page source is an argument:
  the runtime passes its \<^verbatim>\<open>mem_alloc_pages\<close>.
\<close>

definition alloc_chunk :: "(nat \<Rightarrow> 's \<Rightarrow> u64 option \<times> 's) \<Rightarrow> u64 \<Rightarrow> u64 \<Rightarrow> bump \<Rightarrow> 's \<Rightarrow> u64 \<times> bump \<times> 's" where
  "alloc_chunk take_pages layout_size align h s =
     (case checked_add layout_size align of
        None \<Rightarrow> (0, h, s)
      | Some chunk_size \<Rightarrow>
          let chunk_size = max chunk_size MIN_HEAP_CHUNK;
              pages = align_up_u64 chunk_size PAGE_SIZE div PAGE_SIZE in
          (case take_pages (unat pages) s of
             (None, s) \<Rightarrow> (0, h, s)
           | (Some base, s) \<Rightarrow>
               let chunk_end = base + pages * PAGE_SIZE; aligned = align_up_u64 base align in
               (case checked_add aligned layout_size of
                  None \<Rightarrow> (0, h, s)
                | Some stop \<Rightarrow>
                    if stop > chunk_end then (0, h, s)
                    else (aligned,
                      h\<lparr>bump_base := (if bump_base h = 0 then base else bump_base h), bump_next := stop,
                        bump_end := chunk_end, bump_allocated := bump_allocated h + pages * PAGE_SIZE\<rparr>, s))))"

definition bump_alloc :: "(nat \<Rightarrow> 's \<Rightarrow> u64 option \<times> 's) \<Rightarrow> u64 \<Rightarrow> u64 \<Rightarrow> bump \<Rightarrow> 's \<Rightarrow> u64 \<times> bump \<times> 's" where
  "bump_alloc take_pages layout_size align h s =
     (let aligned = align_up_u64 (bump_next h) align in
      case checked_add aligned layout_size of
        None \<Rightarrow> (0, h, s)
      | Some stop \<Rightarrow>
          if stop \<le> bump_end h then (aligned, h\<lparr>bump_next := stop\<rparr>, s)
          else alloc_chunk take_pages layout_size align h s)"

definition user_alloc :: "u64 \<Rightarrow> u64 \<Rightarrow> bump \<Rightarrow> kernel \<Rightarrow> u64 \<times> bump \<times> kernel" where
  "user_alloc = bump_alloc user_mem_alloc_pages"

definition user_dealloc :: "u64 \<Rightarrow> bump \<Rightarrow> bump" where
  "user_dealloc ptr h = h"

definition heap_size :: "bump \<Rightarrow> u64" where "heap_size h = bump_allocated h"
definition heap_base :: "bump \<Rightarrow> u64" where "heap_base h = bump_base h"

text \<open>A sequence of allocations, each with its layout, and the pointers they return.\<close>

fun bump_run :: "(nat \<Rightarrow> 's \<Rightarrow> u64 option \<times> 's) \<Rightarrow> (u64 \<times> u64) list \<Rightarrow> bump \<Rightarrow> 's \<Rightarrow> u64 list \<times> bump \<times> 's" where
  "bump_run take_pages [] h s = ([], h, s)"
| "bump_run take_pages ((n, align) # rs) h s =
     (case bump_alloc take_pages n align h s of
        (p, h, s) \<Rightarrow> (case bump_run take_pages rs h s of (ps, h, s) \<Rightarrow> (p # ps, h, s)))"

section \<open>Alignment\<close>

text \<open>Layouts as the language guarantees them, with an alignment of at most \<open>2 ^ 32\<close>.\<close>

definition layout_ok :: "u64 \<times> u64 \<Rightarrow> bool" where
  "layout_ok l \<longleftrightarrow> 0 < unat (fst l) \<and> unat (fst l) + unat (snd l) \<le> 2 ^ 63 \<and> (\<exists>a \<le> 32. snd l = 2 ^ a)"

lemma layout_okE:
  assumes "layout_ok (n, al)"
  obtains a where "al = 2 ^ a" "a < 64" "unat al = 2 ^ a" "(2 :: nat) ^ a \<le> 2 ^ 32" "0 < unat n" "unat n + unat al \<le> 2 ^ 63"
proof -
  obtain a where a: "al = 2 ^ a" "a \<le> 32" and n: "0 < unat n" "unat n + unat al \<le> 2 ^ 63" using assms by (auto simp: layout_ok_def)
  have p: "(2 :: nat) ^ a \<le> 2 ^ 32" by (rule power_increasing [OF a(2)]) simp
  have "unat (of_nat (2 ^ a) :: u64) = 2 ^ a" by (rule unat_of_nat_small) (use p in simp)
  with a(1) have "unat al = 2 ^ a" by simp
  with that a p n show ?thesis by simp
qed

lemma unat_align_up:
  assumes "a < 64" "unat v + 2 ^ a \<le> 2 ^ 64"
  shows "unat (align_up_u64 v (2 ^ a)) = (unat v + (2 ^ a - 1)) div 2 ^ a * 2 ^ a"
proof -
  let ?x = "v + 2 ^ a - 1"
  have p: "unat ((2 :: u64) ^ a) = 2 ^ a"
    using unat_of_nat_small [of "2 ^ a", where 'l = 64] power_strict_increasing [OF assms(1), of "2 :: nat"] by simp
  then have "(2 :: u64) ^ a \<noteq> 0" by (metis power_not_zero unsigned_0 zero_neq_numeral)
  then have m: "unat ((2 :: u64) ^ a - 1) = 2 ^ a - 1" by (simp add: unat_minus_one p)
  have x: "unat ?x = unat v + (2 ^ a - 1)"
  proof -
    have "unat (v + (2 ^ a - 1)) = unat v + unat ((2 :: u64) ^ a - 1)"
      using assms(2) m by (intro unat_add_no_wrap) simp
    then show ?thesis by (simp add: m add_diff_eq)
  qed
  have "?x = (?x AND NOT (2 ^ a - 1)) + take_bit a ?x"
    by (subst disjunctive_add_eq_or) (auto simp: take_bit_eq_mask mask_eq_exp_minus_1 [symmetric] bit_eq_iff bit_and_iff bit_or_iff bit_not_iff)
  then have "?x AND NOT (2 ^ a - 1) = ?x - take_bit a ?x" by (metis add_diff_cancel_right')
  moreover have "unat (take_bit a ?x) = unat ?x mod 2 ^ a"
    by (rule trans [OF unsigned_take_bit_eq take_bit_eq_mod])
  moreover have "take_bit a ?x \<le> ?x" by (simp add: word_le_nat_alt calculation(2))
  ultimately have "unat (?x AND NOT (2 ^ a - 1)) = unat ?x - unat ?x mod 2 ^ a" by (simp add: unat_sub)
  then show ?thesis by (simp add: align_up_u64_def x minus_mod_eq_div_mult)
qed

lemma align_up_bounds:
  assumes "a < 64" "unat v + 2 ^ a \<le> 2 ^ 64"
  shows "2 ^ a dvd unat (align_up_u64 v (2 ^ a))" "unat v \<le> unat (align_up_u64 v (2 ^ a))"
    "unat (align_up_u64 v (2 ^ a)) < unat v + 2 ^ a"
proof -
  let ?n = "unat v + (2 ^ a - 1) :: nat"
  note u = unat_align_up [OF assms]
  show "2 ^ a dvd unat (align_up_u64 v (2 ^ a))" by (simp add: u)
  have "?n = ?n div 2 ^ a * 2 ^ a + ?n mod 2 ^ a" by (simp only: div_mult_mod_eq)
  moreover have "?n mod 2 ^ a < 2 ^ a" by simp
  ultimately show "unat v \<le> unat (align_up_u64 v (2 ^ a))" "unat (align_up_u64 v (2 ^ a)) < unat v + 2 ^ a"
    unfolding u using zero_less_power [of "2 :: nat" a] by linarith+
qed

lemma checked_addD: "checked_add a b = Some c \<Longrightarrow> unat c = unat a + unat b"
  by (auto simp: checked_add_def intro: unat_add_no_wrap split: if_splits)

lemma checked_add_None: "checked_add a b = None \<longleftrightarrow> 2 ^ 64 \<le> unat a + unat b"
  by (simp add: checked_add_def linorder_not_less)

lemma page_count:
  assumes "unat c \<le> 2 ^ 63"
  shows "unat c \<le> unat (align_up_u64 c PAGE_SIZE div PAGE_SIZE) * 4096" "unat (align_up_u64 c PAGE_SIZE div PAGE_SIZE) \<le> 2 ^ 51 + 1"
proof -
  have P: "PAGE_SIZE = 2 ^ 12" by (simp add: PAGE_SIZE_def)
  have "2 ^ 12 dvd unat (align_up_u64 c (2 ^ 12))" and b: "unat c \<le> unat (align_up_u64 c (2 ^ 12))"
    "unat (align_up_u64 c (2 ^ 12)) < unat c + 2 ^ 12"
    using assms by (intro align_up_bounds; simp)+
  then have d: "unat (align_up_u64 c (2 ^ 12) div 2 ^ 12) * 4096 = unat (align_up_u64 c (2 ^ 12))"
    by (simp add: unat_div)
  with b(1) show "unat c \<le> unat (align_up_u64 c PAGE_SIZE div PAGE_SIZE) * 4096" unfolding P by linarith
  show "unat (align_up_u64 c PAGE_SIZE div PAGE_SIZE) \<le> 2 ^ 51 + 1" unfolding P using d b(2) assms by simp
qed

section \<open>The contract of the page source\<close>

text \<open>
  Pages are handed out above a mark that only rises, so no page is handed out twice; what was handed out
  stays usable.
\<close>

locale page_source =
  fixes take_pages :: "nat \<Rightarrow> 's \<Rightarrow> u64 option \<times> 's" and inv :: "'s \<Rightarrow> bool" and mark :: "'s \<Rightarrow> nat"
    and usable :: "'s \<Rightarrow> u64 \<Rightarrow> bool"
  assumes kept: "inv s \<Longrightarrow> take_pages n s = (r, s') \<Longrightarrow> inv s' \<and> mark s \<le> mark s' \<and> (\<forall>a. usable s a \<longrightarrow> usable s' a)"
    and taken: "inv s \<Longrightarrow> take_pages n s = (Some b, s') \<Longrightarrow> b \<noteq> 0 \<and> mark s \<le> unat b \<and> unat b + n * 4096 \<le> mark s' \<and>
      (\<forall>a. unat b \<le> unat a \<and> unat a < unat b + n * 4096 \<longrightarrow> usable s' a)"
    and mark_bound: "inv s \<Longrightarrow> mark s + 2 ^ 32 \<le> 2 ^ 64"
begin

definition bump_ok :: "bump \<Rightarrow> 's \<Rightarrow> bool" where
  "bump_ok h s \<longleftrightarrow> inv s \<and> bump_next h \<le> bump_end h \<and> unat (bump_end h) \<le> mark s \<and>
     (bump_next h = 0 \<longrightarrow> bump_end h = 0) \<and> (\<forall>a. bump_next h \<le> a \<and> a < bump_end h \<longrightarrow> usable s a)"

lemma bump_ok_new: "inv s \<Longrightarrow> bump_ok bump_new s"
  by (simp add: bump_ok_def bump_new_def)

text \<open>The block at \<open>p\<close> for a layout: aligned, usable, behind \<open>lo\<close> and ending at \<open>hi\<close>.\<close>

definition block :: "'s \<Rightarrow> u64 \<times> u64 \<Rightarrow> u64 \<Rightarrow> bool" where
  "block s l p \<longleftrightarrow> unat (snd l) dvd unat p \<and> (\<forall>a. unat p \<le> unat a \<and> unat a < unat p + unat (fst l) \<longrightarrow> usable s a)"

lemma chunk_step:
  assumes ok: "bump_ok h s" and l: "layout_ok (n, al)" and e: "alloc_chunk take_pages n al h s = (p, h', s')"
  shows "bump_ok h' s' \<and> (\<forall>a. usable s a \<longrightarrow> usable s' a) \<and>
    (if p = 0 then h' = h \<and> (\<exists>c. take_pages c s = (None, s'))
     else block s' (n, al) p \<and> bump_next h \<le> p \<and> unat p + unat n = unat (bump_next h'))"
proof -
  obtain a where a: "al = 2 ^ a" "a < 64" and ua: "unat al = 2 ^ a" and al32: "(2 :: nat) ^ a \<le> 2 ^ 32"
    and n: "0 < unat n" "unat n + unat al \<le> 2 ^ 63" using layout_okE [OF l] .
  have "checked_add n al \<noteq> None" using n(2) by (simp add: checked_add_None)
  then obtain c where c: "checked_add n al = Some c" "unat c = unat n + unat al" using checked_addD by blast
  let ?c = "max c MIN_HEAP_CHUNK"
  define pages where "pages = align_up_u64 ?c PAGE_SIZE div PAGE_SIZE"
  have mc: "unat ?c = max (unat c) 65536" by (simp add: MIN_HEAP_CHUNK_def max_def word_le_nat_alt)
  have pg: "unat ?c \<le> unat pages * 4096" "unat pages \<le> 2 ^ 51 + 1"
    unfolding pages_def using n(2) c(2) mc by (intro page_count; simp)+
  obtain r s1 where tk: "take_pages (unat pages) s = (r, s1)" by force
  have i: "inv s" using ok by (simp add: bump_ok_def)
  note k = kept [OF i tk]
  show ?thesis
  proof (cases r)
    case None
    with e c(1) tk have r: "p = 0" "h' = h" "s' = s1" by (simp_all add: alloc_chunk_def pages_def [symmetric])
    with ok k have "bump_ok h s1" by (auto simp: bump_ok_def)
    with r k tk None show ?thesis by auto
  next
    case (Some b)
    note t = taken [OF i tk [unfolded Some]]
    have mb: "mark s1 + 2 ^ 32 \<le> 2 ^ 64" using mark_bound k by blast
    define g where "g = align_up_u64 b al"
    have g: "2 ^ a dvd unat g" "unat b \<le> unat g" "unat g < unat b + 2 ^ a"
      unfolding g_def a(1) using a(2) t mb al32 by (intro align_up_bounds; simp)+
    have ce: "unat (b + pages * PAGE_SIZE) = unat b + unat pages * 4096"
    proof -
      have "unat (pages * PAGE_SIZE) = unat pages * 4096" using pg(2) by (simp add: unat_word_ariths PAGE_SIZE_def)
      then show ?thesis using t mb by (subst unat_add_no_wrap) simp_all
    qed
    have le: "unat g + unat n \<le> unat b + unat pages * 4096" using g(3) pg(1) mc c(2) ua by linarith
    then have "checked_add g n \<noteq> None" using t mb unfolding checked_add_None by simp
    then obtain st where st: "checked_add g n = Some st" "unat st = unat g + unat n" using checked_addD by (cases "checked_add g n") auto
    have "\<not> st > b + pages * PAGE_SIZE" using le st(2) ce by (simp add: word_less_nat_alt)
    then have r: "p = g" "s' = s1" and h': "h' = h\<lparr>bump_base := (if bump_base h = 0 then b else bump_base h), bump_next := st,
        bump_end := b + pages * PAGE_SIZE, bump_allocated := bump_allocated h + pages * PAGE_SIZE\<rparr>"
      using e c(1) tk Some st(1) by (simp_all add: alloc_chunk_def pages_def [symmetric] g_def [symmetric] Let_def)
    have us: "usable s1 x" if "unat b \<le> unat x" "unat x < unat b + unat pages * 4096" for x using t that by blast
    have "p \<noteq> 0" using r(1) g(2) t by (metis le_zero_eq unat_eq_zero unsigned_0)
    moreover have "bump_ok h' s'"
      using k le st(2) ce t n(1) us g(2) unfolding bump_ok_def r h'
      by (auto simp: word_le_nat_alt word_less_nat_alt unat_eq_zero intro!: us)
    moreover have "block s' (n, al) p" using g le us by (auto simp: block_def r ua)
    moreover have "bump_next h \<le> p" using ok t g(2) by (simp add: bump_ok_def r word_le_nat_alt)
    ultimately show ?thesis using k by (simp add: r h' st(2))
  qed
qed

lemma alloc_step:
  assumes ok: "bump_ok h s" and l: "layout_ok (n, al)" and e: "bump_alloc take_pages n al h s = (p, h', s')"
  shows "bump_ok h' s' \<and> (\<forall>a. usable s a \<longrightarrow> usable s' a) \<and>
    (if p = 0 then h' = h \<and> ((\<exists>c. take_pages c s = (None, s')) \<or> s' = s \<and> 2 ^ 64 \<le> unat (align_up_u64 (bump_next h) al) + unat n)
     else block s' (n, al) p \<and> bump_next h \<le> p \<and> unat p + unat n = unat (bump_next h'))"
proof -
  obtain a where a: "al = 2 ^ a" "a < 64" and ua: "unat al = 2 ^ a" and al32: "(2 :: nat) ^ a \<le> 2 ^ 32"
    and n: "0 < unat n" "unat n + unat al \<le> 2 ^ 63" using layout_okE [OF l] .
  have mb: "mark s + 2 ^ 32 \<le> 2 ^ 64" using ok mark_bound by (simp add: bump_ok_def)
  have nx: "unat (bump_next h) \<le> unat (bump_end h)" "unat (bump_end h) \<le> mark s" using ok by (simp_all add: bump_ok_def word_le_nat_alt)
  define g where "g = align_up_u64 (bump_next h) al"
  have g: "2 ^ a dvd unat g" "unat (bump_next h) \<le> unat g"
    unfolding g_def a(1) using a(2) nx mb al32 by (intro align_up_bounds; simp)+
  show ?thesis
  proof (cases "\<exists>st. checked_add g n = Some st \<and> st \<le> bump_end h")
    case True
    then obtain st where st: "checked_add g n = Some st" "st \<le> bump_end h" "unat st = unat g + unat n" using checked_addD by blast
    have r: "p = g" "h' = h\<lparr>bump_next := st\<rparr>" "s' = s" using e st(1,2) by (simp_all add: bump_alloc_def g_def [symmetric])
    have "g \<noteq> 0"
    proof
      assume "g = 0"
      then have "bump_next h = 0" using g(2) by (simp add: unat_eq_zero)
      with ok st(2,3) n(1) show False by (auto simp: bump_ok_def word_le_nat_alt)
    qed
    moreover have "bump_ok h' s'" using ok st n(1) g(2) unfolding bump_ok_def r by (auto simp: word_le_nat_alt unat_eq_zero)
    moreover have "block s' (n, al) p"
      using ok g st by (auto simp: block_def r ua bump_ok_def word_le_nat_alt word_less_nat_alt)
    ultimately show ?thesis using g(2) by (simp add: r st(3) word_le_nat_alt)
  next
    case False
    show ?thesis
    proof (cases "checked_add g n")
      case None
      then have "p = 0" "h' = h" "s' = s" using e by (simp_all add: bump_alloc_def g_def [symmetric])
      with ok None show ?thesis by (simp add: checked_add_None g_def)
    next
      case (Some st)
      with False e have "alloc_chunk take_pages n al h s = (p, h', s')" by (auto simp: bump_alloc_def g_def [symmetric])
      from chunk_step [OF ok l this] show ?thesis by auto
    qed
  qed
qed

text \<open>The blocks of a run lie one behind the other, and stay usable.\<close>

definition blocks_ok :: "'s \<Rightarrow> nat \<Rightarrow> (u64 \<times> u64) list \<Rightarrow> u64 list \<Rightarrow> bool" where
  "blocks_ok s lo ls ps \<longleftrightarrow> length ps = length ls \<and> list_all2 (\<lambda>l p. p = 0 \<or> lo \<le> unat p \<and> block s l p) ls ps \<and>
     sorted_wrt (\<lambda>(l, p) (l', q). unat p + unat (fst l) \<le> unat q) (filter (\<lambda>(l, p). p \<noteq> 0) (zip ls ps))"

lemma block_mono: "block s l p \<Longrightarrow> (\<And>a. usable s a \<Longrightarrow> usable s' a) \<Longrightarrow> block s' l p"
  by (simp add: block_def)

lemma run_ok:
  assumes "bump_ok h s" "list_all layout_ok ls" "bump_run take_pages ls h s = (ps, h', s')"
  shows "bump_ok h' s' \<and> (\<forall>a. usable s a \<longrightarrow> usable s' a) \<and> bump_next h \<le> bump_next h' \<and> blocks_ok s' (unat (bump_next h)) ls ps"
  using assms
proof (induction ls arbitrary: h s ps)
  case Nil
  then show ?case by (simp add: blocks_ok_def)
next
  case (Cons l ls)
  obtain n al where l: "l = (n, al)" by force
  obtain p h1 s1 where a: "bump_alloc take_pages n al h s = (p, h1, s1)" by (metis surj_pair)
  obtain qs h2 s2 where b: "bump_run take_pages ls h1 s1 = (qs, h2, s2)" by (metis surj_pair)
  have r: "ps = p # qs" "h' = h2" "s' = s2" using Cons.prems(3) a b by (simp_all add: l)
  have st: "bump_ok h1 s1" "\<And>a. usable s a \<Longrightarrow> usable s1 a"
    "p = 0 \<Longrightarrow> h1 = h" "p \<noteq> 0 \<Longrightarrow> block s1 (n, al) p \<and> bump_next h \<le> p \<and> unat p + unat n = unat (bump_next h1)"
    using alloc_step [OF Cons.prems(1) _ a] Cons.prems(2) by (auto simp: l split: if_splits)
  have ih: "bump_ok h2 s2" "\<And>a. usable s1 a \<Longrightarrow> usable s2 a" "unat (bump_next h1) \<le> unat (bump_next h2)"
    "blocks_ok s2 (unat (bump_next h1)) ls qs"
    using Cons.IH [OF st(1) _ b [folded r(2,3)]] Cons.prems(2) by (simp_all add: word_le_nat_alt r)
  have nx: "unat (bump_next h) \<le> unat (bump_next h1)" using st(3,4) by (cases "p = 0") (auto simp: word_le_nat_alt)
  have low: "unat (bump_next h1) \<le> unat q" if "(m, q) \<in> set (zip ls qs)" "q \<noteq> 0" for m q
    using ih(4) that by (auto simp: blocks_ok_def list_all2_iff)
  have "list_all2 (\<lambda>l p. p = 0 \<or> unat (bump_next h) \<le> unat p \<and> block s2 l p) ls qs"
    using ih(4) nx by (auto simp: blocks_ok_def elim!: list_all2_mono)
  moreover have "p = 0 \<or> unat (bump_next h) \<le> unat p \<and> block s2 l p"
    using st(4) block_mono [OF _ ih(2)] by (auto simp: l word_le_nat_alt)
  moreover have "sorted_wrt (\<lambda>(l, p) (l', q). unat p + unat (fst l) \<le> unat q) (filter (\<lambda>(l, p). p \<noteq> 0) (zip (l # ls) (p # qs)))"
    using ih(4) st(4) low by (auto simp: blocks_ok_def l)
  ultimately have "blocks_ok s2 (unat (bump_next h)) (l # ls) ps" using ih(4) by (simp add: blocks_ok_def r)
  with ih st(2) nx show ?case by (simp add: r word_le_nat_alt)
qed

end

section \<open>The kernel's call as page source\<close>

lemma same_page_div: "unat v div 4096 = unat w div 4096 \<Longrightarrow> same_page v w"
proof -
  assume e: "unat v div 4096 = unat w div 4096"
  have d: "unat v div 2 ^ b = unat w div 2 ^ b" if "12 \<le> b" for b
  proof -
    have "(2 :: nat) ^ b = 4096 * 2 ^ (b - 12)" using power_add [of "2 :: nat" 12 "b - 12"] that by simp
    then show ?thesis by (simp only: div_mult2_eq e)
  qed
  show ?thesis
    using d [of 39] d [of 30] d [of 21] d [of 12] by (simp add: same_page_def vpath_def pml4_index_def pdpt_index_def pd_index_def pt_index_def drop_mod)
qed

text \<open>What a memory call leaves alone in the caller's slot: the heap window and its mark.\<close>

definition same_heap :: "process \<Rightarrow> process \<Rightarrow> bool" where
  "same_heap p q \<longleftrightarrow> p_heap_base p = p_heap_base q \<and> p_heap_next p = p_heap_next q \<and> p_heap_limit p = p_heap_limit q"

lemma track_and_map_frame:
  assumes ok: "paging_ok root k" "root \<noteq> 0" and t: "table_ok k"
    and b: "page_aligned base" "n \<le> 2 ^ 36" and e: "track_and_map root base n k = (r, k')"
  shows "kernel_pml4_phys k' = kernel_pml4_phys k \<and> same_heap (proc k' (current_process_index k)) (proc k (current_process_index k))"
proof -
  let ?i = "current_process_index k"
  have i: "?i < length (process_table k)" using t by (simp add: table_ok_def)
  obtain ok1 k1 where tr: "process_track_mapping ?i base n k = (ok1, k1)" by force
  from tr i show ?thesis
  proof (cases rule: track_mapping_cases)
    case full
    with e tr show ?thesis by (simp add: track_and_map_def Let_def same_heap_def)
  next
    case (tracked m)
    have ok1: "paging_ok root k1" using ok by (simp add: tracked(3) phys_set_proc)
    obtain dn k2 where mp: "map_user_pages root base n k1 = (dn, k2)" by force
    have f: "kernel_pml4_phys k2 = kernel_pml4_phys k1" "paging.more k2 = paging.more k1"
      using map_user_pages_run [OF ok1 ok(2) b mp] by (cases dn; auto simp: run_frame_def)+
    have k2: "kernel_pml4_phys k2 = kernel_pml4_phys k" "same_heap (proc k2 ?i) (proc k ?i)" "?i < length (process_table k2)"
      using f(1) more_fields [OF f(2)] i by (simp_all add: tracked(3) same_heap_def)
    have "k' = k2 \<or> process_untrack_mapping ?i base n k2 = (fst (process_untrack_mapping ?i base n k2), k')"
      using e tr tracked(1) mp by (auto simp: track_and_map_def Let_def split: bool.splits prod.splits)
    then show ?thesis
    proof
      assume "process_untrack_mapping ?i base n k2 = (fst (process_untrack_mapping ?i base n k2), k')"
      then show ?thesis by (cases rule: untrack_mapping_cases) (use k2 in \<open>auto simp: same_heap_def\<close>)
    qed (use k2 in simp)
  qed
qed

text \<open>The state of the page source: sound tables, and a heap window below the end of the address space.\<close>

definition heap_source_ok :: "kernel \<Rightarrow> bool" where
  "heap_source_ok k \<longleftrightarrow> kernel_pml4_phys k \<noteq> 0 \<and> paging_ok (kernel_pml4_phys k) k \<and> table_ok k \<and>
     (let p = proc k (current_process_index k) in
      page_aligned (p_heap_next p) \<and> p_heap_next p \<le> p_heap_limit p \<and> unat (p_heap_limit p) + 2 ^ 32 \<le> 2 ^ 64)"

definition heap_mark :: "kernel \<Rightarrow> nat" where
  "heap_mark k = unat (p_heap_next (proc k (current_process_index k)))"

definition mapped :: "kernel \<Rightarrow> u64 \<Rightarrow> bool" where
  "mapped k a \<longleftrightarrow> translate (phys_mem k) (kernel_pml4_phys k) a \<noteq> None"

lemma mem_alloc_unfold:
  assumes K: "kernel_pml4_phys k \<noteq> 0" and i: "i = current_process_index k" and nxt: "nxt = p_heap_next (proc k i)"
  shows "abi_mem_alloc_pages n k =
    (if n = 0 \<or> n > 4096 then (0, k)
     else if p_heap_base (proc k i) = 0 \<or> nxt = 0 \<or> p_heap_limit (proc k i) = 0 then (0, k)
     else case checked_mul (of_nat n) PAGE_SIZE of None \<Rightarrow> (0, k)
       | Some b \<Rightarrow> (case checked_add nxt b of None \<Rightarrow> (0, k)
         | Some c \<Rightarrow> if c > p_heap_limit (proc k i) then (0, k)
             else track_and_map (kernel_pml4_phys k) nxt n (set_proc i ((proc k i)\<lparr>p_heap_next := c\<rparr>) k)))"
  using K unfolding abi_mem_alloc_pages_def ensure_kernel_pml4_def Let_def i [symmetric] nxt [symmetric] USER_HEAP_MAX_PAGES_PER_CALL_def
  by (simp only: if_True if_False option.case prod.case i [symmetric] nxt [symmetric] not_False_eq_True simp_thms)

lemma page_aligned_step: "page_aligned a \<Longrightarrow> unat c = unat a + n * 4096 \<Longrightarrow> page_aligned c"
  by (simp add: page_aligned_dvd)

lemma fresh_run_mapped:
  assumes "fresh_run root k k' b n" "page_aligned b" "unat b + n * 4096 \<le> 2 ^ 64"
  shows "unat b \<le> unat a \<and> unat a < unat b + n * 4096 \<Longrightarrow> translate (phys_mem k') root a \<noteq> None"
    and "translate (phys_mem k) root v \<noteq> None \<Longrightarrow> translate (phys_mem k') root v \<noteq> None"
proof -
  obtain gs where g: "length gs = n" "run_trans root (phys_mem k) (phys_mem k') b gs" using assms(1) by (auto simp: fresh_run_def)
  show "translate (phys_mem k') root v \<noteq> None" if "translate (phys_mem k) root v \<noteq> None"
  proof (cases "\<exists>j<length gs. same_page v (page_at b j)")
    case True
    then obtain j where "j < length gs" "same_page v (page_at b j)" by blast
    with g(2) translate_same [of v "page_at b j"] show ?thesis by (simp add: run_trans_def)
  next
    case False
    with g(2) that show ?thesis by (simp add: run_trans_def)
  qed
  assume a: "unat b \<le> unat a \<and> unat a < unat b + n * 4096"
  define j where "j = (unat a - unat b) div 4096"
  obtain q where q: "unat b = 4096 * q" using assms(2) by (auto simp: page_aligned_dvd dvd_def)
  have "unat a - unat b < n * 4096" using a by linarith
  then have j: "j < n" by (simp add: j_def div_less_iff_less_mult)
  have "unat (of_nat j * PAGE_SIZE) = j * 4096" using assms(3) j by (simp add: unat_word_ariths unat_of_nat PAGE_SIZE_def)
  then have "unat (page_at b j) = unat b + j * 4096" using assms(3) j by (subst unat_add_no_wrap) simp_all
  moreover have "unat a div 4096 = q + j"
  proof -
    have "unat a = (unat a - unat b) + q * 4096" using a q by simp
    then have "unat a div 4096 = ((unat a - unat b) + q * 4096) div 4096" by (rule arg_cong)
    also have "\<dots> = q + j" by (simp add: j_def)
    finally show ?thesis .
  qed
  ultimately have "same_page a (page_at b j)" by (intro same_page_div) (simp add: q)
  with g j translate_same [of a "page_at b j"] show "translate (phys_mem k') root a \<noteq> None" by (simp add: run_trans_def)
qed

lemma mem_alloc_spec:
  assumes ok: "heap_source_ok k" and e: "abi_mem_alloc_pages n k = (r, k')"
  shows "heap_source_ok k' \<and> heap_mark k \<le> heap_mark k' \<and> (\<forall>a. mapped k a \<longrightarrow> mapped k' a) \<and>
    (r \<noteq> 0 \<longrightarrow> unat r = heap_mark k \<and> heap_mark k' = heap_mark k + n * 4096 \<and>
      (\<forall>a. unat r \<le> unat a \<and> unat a < unat r + n * 4096 \<longrightarrow> mapped k' a))"
proof -
  define i root where "i = current_process_index k" and "root = kernel_pml4_phys k"
  define nxt where "nxt = p_heap_next (proc k i)"
  have pg: "root \<noteq> 0" "paging_ok root k" and t: "table_ok k" and al: "page_aligned nxt"
    and lim: "nxt \<le> p_heap_limit (proc k i)" "unat (p_heap_limit (proc k i)) + 2 ^ 32 \<le> 2 ^ 64"
    using ok by (simp_all add: heap_source_ok_def root_def i_def nxt_def Let_def)
  have il: "i < length (process_table k)" "i \<le> 16" using t by (simp_all add: i_def table_ok_def)
  note unf = mem_alloc_unfold [OF pg(1) [unfolded root_def] i_def nxt_def, of n, unfolded e, folded root_def]
  show ?thesis
  proof (cases "r = 0 \<and> k' = k")
    case True
    with ok show ?thesis by simp
  next
    case False
    with unf [symmetric] obtain b c where bc: "checked_mul (of_nat n) PAGE_SIZE = Some b" "checked_add nxt b = Some c"
      "\<not> p_heap_limit (proc k i) < c" and n: "n \<le> 4096" "nxt \<noteq> 0"
      and tm: "track_and_map root nxt n (set_proc i ((proc k i)\<lparr>p_heap_next := c\<rparr>) k) = (r, k')"
      by (auto split: if_splits option.splits)
    let ?k = "set_proc i ((proc k i)\<lparr>p_heap_next := c\<rparr>) k"
    have c: "unat c = unat nxt + n * 4096" by (rule window_step [OF _ bc(1,2)]) (use n(1) in simp)
    have t1: "table_ok ?k" using table_ok_proc [OF t il(2)] by (intro table_ok_set_proc [OF t]) (simp add: process_ok_def)
    have pk: "paging_ok root ?k" "n \<le> 2 ^ 36" using pg(2) n(1) by (simp_all add: phys_set_proc)
    have cur: "current_process_index ?k = i" "proc ?k i = (proc k i)\<lparr>p_heap_next := c\<rparr>" "kernel_pml4_phys ?k = root"
      using il(1) by (simp_all add: i_def root_def)
    have sp: "paging_ok root k'" "table_ok k'" "current_process_index k' = i"
      "r = 0 \<Longrightarrow> translate (phys_mem k') root = translate (phys_mem k) root" "r \<noteq> 0 \<Longrightarrow> r = nxt \<and> fresh_run root ?k k' nxt n"
      using track_and_map_spec [OF pk(1) pg(1) t1 al n(2) pk(2) tm] unfolding cur by (auto split: if_splits)
    have fr: "kernel_pml4_phys k' = root" "p_heap_next (proc k' i) = c" "p_heap_limit (proc k' i) = p_heap_limit (proc k i)"
      using track_and_map_frame [OF pk(1) pg(1) t1 al pk(2) tm] unfolding cur same_heap_def by simp_all
    have bound: "unat nxt + n * 4096 \<le> 2 ^ 64" using c bc(3) lim(2) by (simp add: word_less_nat_alt)
    have "heap_source_ok k'"
      using sp(1-3) fr pg(1) page_aligned_step [OF al c] bc(3) lim(2) by (simp add: heap_source_ok_def Let_def)
    moreover have "heap_mark k = unat nxt" "heap_mark k' = unat nxt + n * 4096"
      by (simp_all add: heap_mark_def sp(3) fr c) (simp add: nxt_def i_def)
    moreover have "mapped k' a" if "mapped k a" for a
      using that sp(4) fresh_run_mapped(2) [of root ?k k' nxt n a] sp(5) al bound
      by (cases "r = 0") (simp_all add: mapped_def fr root_def [symmetric])
    moreover have "mapped k' a" if "r \<noteq> 0" "unat r \<le> unat a \<and> unat a < unat r + n * 4096" for a
      using sp(5) [OF that(1)] that(2) fresh_run_mapped(1) [of root ?k k' nxt n a] al bound by (simp add: mapped_def fr)
    ultimately show ?thesis using sp(5) by auto
  qed
qed

interpretation kheap: page_source user_mem_alloc_pages heap_source_ok heap_mark mapped
proof
  fix s n r s' assume "heap_source_ok s" "user_mem_alloc_pages n s = (r, s')"
  then show "heap_source_ok s' \<and> heap_mark s \<le> heap_mark s' \<and> (\<forall>a. mapped s a \<longrightarrow> mapped s' a)"
    using mem_alloc_spec [of s n] by (auto simp: user_mem_alloc_pages_def split: prod.splits)
next
  fix s n b s' assume "heap_source_ok s" "user_mem_alloc_pages n s = (Some b, s')"
  then show "b \<noteq> 0 \<and> heap_mark s \<le> unat b \<and> unat b + n * 4096 \<le> heap_mark s' \<and>
      (\<forall>a. unat b \<le> unat a \<and> unat a < unat b + n * 4096 \<longrightarrow> mapped s' a)"
    using mem_alloc_spec [of s n b s'] by (auto simp: user_mem_alloc_pages_def split: prod.splits if_splits)
next
  fix s assume "heap_source_ok s"
  then show "heap_mark s + 2 ^ 32 \<le> 2 ^ 64" by (simp add: heap_source_ok_def heap_mark_def Let_def word_le_nat_alt)
qed

section \<open>Properties\<close>

text \<open>
  C28. The heap of a program.  Over any sequence of allocations with proper layouts from a fresh allocator, every
  pointer returned is aligned and its bytes are mapped at the end, and the blocks lie one behind the other,
  so that no two of them overlap.
\<close>

theorem user_heap_blocks:
  assumes "heap_source_ok k" "list_all layout_ok ls" "bump_run user_mem_alloc_pages ls bump_new k = (ps, h, k')"
  shows "list_all2 (\<lambda>(n, align) p. p = 0 \<or> unat align dvd unat p \<and>
      {a. unat p \<le> unat a \<and> unat a < unat p + unat n} \<subseteq> {a. mapped k' a}) ls ps \<and>
    sorted_wrt (\<lambda>((n, align), p) (l, q). unat p + unat n \<le> unat q) (filter (\<lambda>(l, p). p \<noteq> 0) (zip ls ps))"
proof -
  have b: "kheap.blocks_ok k' 0 ls ps"
    using kheap.run_ok [OF kheap.bump_ok_new [OF assms(1)] assms(2,3)] by (simp add: bump_new_def)
  then have "list_all2 (\<lambda>(n, align) p. p = 0 \<or> unat align dvd unat p \<and>
      {a. unat p \<le> unat a \<and> unat a < unat p + unat n} \<subseteq> {a. mapped k' a}) ls ps"
    unfolding kheap.blocks_ok_def kheap.block_def by (auto elim!: list_all2_mono)
  moreover have "(\<lambda>(l :: u64 \<times> u64, p :: u64) (l' :: u64 \<times> u64, q :: u64). unat p + unat (fst l) \<le> unat q) =
    (\<lambda>((n, align), p) (l, q). unat p + unat n \<le> unat q)" by (auto simp: fun_eq_iff)
  ultimately show ?thesis using b by (simp add: kheap.blocks_ok_def)
qed

definition demo_heap :: kernel where
  "demo_heap = demo_mapper\<lparr>process_table := (replicate 17 process_empty)[0 := process_empty\<lparr>p_heap_base := heap_window 1,
     p_heap_next := heap_window 1, p_heap_limit := heap_window 1 + USER_HEAP_STRIDE\<rparr>]\<rparr>"

lemma demo_heap_ok: "heap_source_ok demo_heap"
proof -
  have w: "heap_window 1 = 0xFFFF900010000000" "heap_window 1 + USER_HEAP_STRIDE = 0xFFFF900020000000"
    by (simp_all add: heap_window_def USER_HEAP_BASE_def USER_HEAP_STRIDE_def)
  have "table_ok demo_heap"
    using process_ok_empty by (auto simp: demo_heap_def demo_mapper_def demo_state_def table_ok_def list_all_length nth_list_update process_ok_def)
  moreover have "paging_ok 0x1000 demo_heap" using demo_mapper_ok(1) by (simp add: paging_ok_def demo_heap_def)
  moreover have "proc demo_heap 0 = process_empty\<lparr>p_heap_base := 0xFFFF900010000000, p_heap_next := 0xFFFF900010000000, p_heap_limit := 0xFFFF900020000000\<rparr>"
    by (simp add: demo_heap_def w(2)) (simp add: w(1))
  moreover have "current_process_index demo_heap = 0" "kernel_pml4_phys demo_heap = 0x1000" by (simp_all add: demo_heap_def demo_mapper_def)
  ultimately show ?thesis by (simp add: heap_source_ok_def Let_def page_aligned_def PAGE_SIZE_def)
qed

theorem user_heap_blocks_witness:
  "\<exists>p q h k'. bump_run user_mem_alloc_pages [(24, 8), (100, 16)] bump_new demo_heap = ([p, q], h, k') \<and>
     (p = 0 \<or> 8 dvd unat p) \<and> (q = 0 \<or> 16 dvd unat q) \<and> (p = 0 \<or> q = 0 \<or> unat p + 24 \<le> unat q)"
proof -
  obtain ps h k' where e: "bump_run user_mem_alloc_pages [(24, 8), (100, 16)] bump_new demo_heap = (ps, h, k')" by (metis surj_pair)
  have l: "list_all layout_ok [(24, 8), (100, 16)]"
    by (auto simp: layout_ok_def intro: exI [of _ 3] exI [of _ 4])
  from user_heap_blocks [OF demo_heap_ok l e] obtain p q where "ps = [p, q]"
    by (auto simp: list_all2_Cons1)
  with user_heap_blocks [OF demo_heap_ok l e] e show ?thesis by (auto split: if_splits)
qed

text \<open>
  A null pointer leaves the allocator as it was, and is returned only when the kernel refuses pages or the
  block would reach past the end of the address space.
\<close>

lemma user_alloc_null:
  assumes "kheap.bump_ok h k" "layout_ok (n, align)" "user_alloc n align h k = (0, h', k')"
  shows "h' = h \<and> ((\<exists>c. user_mem_alloc_pages c k = (None, k')) \<or> k' = k \<and> 2 ^ 64 \<le> unat (align_up_u64 (bump_next h) align) + unat n)"
  using kheap.alloc_step [OF assms(1,2) assms(3) [unfolded user_alloc_def]] by simp

end
