(* ===== verification/Elf_Loader.thy ===== *)
theory Elf_Loader
  imports Address_Spaces Console
begin

text \<open>
  The program loader, \<^verbatim>\<open>load_program_elf_isolated\<close> of \<^verbatim>\<open>kernel/src/main.rs\<close>: it checks the ELF headers,
  maps zeroed pages for every loadable segment in the private tables of a process and stores the bytes
  of the segment through those tables, which are active while it runs.

  Stores go through the translation of \<^verbatim>\<open>Page_Tables\<close> into the 64-bit words of physical memory.  The
  casts to header structs read the image byte by byte, little endian.  The sums of the bounds checks
  wrap, so the image pointer can be left: what lies around the image is the argument \<open>beyond\<close>.
  The section on loaded bytes shows that what a program finds in its window is what a reader of the
  ELF file expects.
\<close>

section \<open>Model\<close>

definition PT_LOAD :: u32 where "PT_LOAD = 1"
definition ELF_MAGIC :: bytes where "ELF_MAGIC = [0x7F, 0x45, 0x4C, 0x46]"

text \<open>Byte number \<open>i\<close> of a 64-bit word.\<close>

definition get_lane :: "nat \<Rightarrow> u64 \<Rightarrow> u8" where
  "get_lane i w = ucast (drop_bit (8 * i) w)"

definition set_lane :: "nat \<Rightarrow> u8 \<Rightarrow> u64 \<Rightarrow> u64" where
  "set_lane i b w = (w AND NOT (push_bit (8 * i) 0xFF)) OR push_bit (8 * i) (ucast b)"

definition word_addr :: "u64 \<Rightarrow> u64 \<Rightarrow> u64" where
  "word_addr page virt = page + (virt AND 0xFF8)"

definition lane_of :: "u64 \<Rightarrow> nat" where
  "lane_of virt = unat (virt AND 7)"

text \<open>
  A byte store at a virtual address under the active tables.  The loader stores only to pages it has
  just seen mapped; elsewhere the model leaves memory alone.
\<close>

definition store_byte :: "u64 \<Rightarrow> u8 \<Rightarrow> 'a paging_scheme \<Rightarrow> 'a paging_scheme" where
  "store_byte virt b s =
     (case translate (phys_mem s) (cr3 s) virt of
        None \<Rightarrow> s
      | Some page \<Rightarrow>
          s\<lparr>phys_mem := (phys_mem s)(word_addr page virt :=
             set_lane (lane_of virt) b (phys_mem s (word_addr page virt)))\<rparr>)"

definition load_byte :: "(u64 \<Rightarrow> u64) \<Rightarrow> u64 \<Rightarrow> u64 \<Rightarrow> u8 option" where
  "load_byte m root virt = map_option (\<lambda>page. get_lane (lane_of virt) (m (word_addr page virt))) (translate m root virt)"

definition zero_bytes :: "u64 \<Rightarrow> nat \<Rightarrow> 'a paging_scheme \<Rightarrow> 'a paging_scheme" where
  "zero_bytes destination n s = fold (\<lambda>index. store_byte (destination + of_nat index) 0) [0..<n] s"

text \<open>The byte at \<^verbatim>\<open>elf.as_ptr().add(off)\<close>.\<close>

definition image_at :: "(u64 \<Rightarrow> u8) \<Rightarrow> bytes \<Rightarrow> u64 \<Rightarrow> u8" where
  "image_at beyond elf off = (if unat off < length elf then elf ! unat off else beyond off)"

definition copy_bytes :: "(u64 \<Rightarrow> u8) \<Rightarrow> bytes \<Rightarrow> u64 \<Rightarrow> u64 \<Rightarrow> nat \<Rightarrow> 'a paging_scheme \<Rightarrow> 'a paging_scheme" where
  "copy_bytes beyond elf off destination n s =
     fold (\<lambda>index. store_byte (destination + of_nat index) (image_at beyond elf (off + of_nat index))) [0..<n] s"

record elf_header =
  eh_ident :: bytes
  eh_machine :: u16
  eh_entry :: u64
  eh_phoff :: u64
  eh_phentsize :: u16
  eh_phnum :: u16

record elf_program_header =
  ph_typ :: u32
  ph_offset :: u64
  ph_paddr :: u64
  ph_filesz :: u64
  ph_memsz :: u64

definition read_le16 :: "bytes \<Rightarrow> u16" where
  "read_le16 bs = ucast (bs ! 0) OR push_bit 8 (ucast (bs ! 1))"

definition elf64_header :: "bytes \<Rightarrow> elf_header" where
  "elf64_header elf =
     \<lparr>eh_ident = take 16 elf, eh_machine = read_le16 (drop 18 elf), eh_entry = read_le64_from_slice (drop 24 elf),
      eh_phoff = read_le64_from_slice (drop 32 elf), eh_phentsize = read_le16 (drop 54 elf),
      eh_phnum = read_le16 (drop 56 elf)\<rparr>"

definition elf64_program_header :: "bytes \<Rightarrow> elf_program_header" where
  "elf64_program_header raw =
     \<lparr>ph_typ = read_le32_from_slice raw, ph_offset = read_le64_from_slice (drop 8 raw),
      ph_paddr = read_le64_from_slice (drop 24 raw), ph_filesz = read_le64_from_slice (drop 32 raw),
      ph_memsz = read_le64_from_slice (drop 40 raw)\<rparr>"

definition program_header_at :: "(u64 \<Rightarrow> u8) \<Rightarrow> bytes \<Rightarrow> u64 \<Rightarrow> elf_program_header" where
  "program_header_at beyond elf off =
     elf64_program_header (map (\<lambda>i. image_at beyond elf (off + of_nat i)) [0..<56])"

text \<open>The checks on one segment and the run of pages it touches.\<close>

definition segment_error :: "nat \<Rightarrow> elf_program_header \<Rightarrow> string option" where
  "segment_error elf_len ph =
     (if unat (ph_offset ph + ph_filesz ph) > elf_len \<or> ph_filesz ph > ph_memsz ph then Some ''run: bad load segment''
      else if ph_paddr ph < APP_LOAD_MIN \<or> ph_paddr ph + ph_memsz ph > APP_LOAD_MAX then Some ''run: segment outside app area''
      else None)"

definition page_start :: "elf_program_header \<Rightarrow> u64" where
  "page_start ph = ph_paddr ph AND NOT (PAGE_SIZE - 1)"

definition page_end :: "elf_program_header \<Rightarrow> u64" where
  "page_end ph = (ph_paddr ph + ph_memsz ph + PAGE_SIZE - 1) AND NOT (PAGE_SIZE - 1)"

definition page_count :: "elf_program_header \<Rightarrow> nat" where
  "page_count ph = unat ((page_end ph - page_start ph) div PAGE_SIZE)"

definition load_segment ::
  "(u64 \<Rightarrow> u8) \<Rightarrow> bytes \<Rightarrow> u64 \<Rightarrow> elf_program_header \<Rightarrow> 'a paging_scheme \<Rightarrow> string option \<times> 'a paging_scheme" where
  "load_segment beyond elf pml4_phys ph s =
     (if ph_typ ph \<noteq> PT_LOAD \<or> ph_memsz ph = 0 then (None, s)
      else case segment_error (length elf) ph of
        Some e \<Rightarrow> (Some e, s)
      | None \<Rightarrow>
          (case map_image_pages pml4_phys (page_start ph) (page_count ph) s of
             (False, s) \<Rightarrow> (Some ''run: segment map failed'', s)
           | (True, s) \<Rightarrow>
               (None, copy_bytes beyond elf (ph_offset ph) (ph_paddr ph) (unat (ph_filesz ph))
                  (zero_bytes (ph_paddr ph) (unat (ph_memsz ph)) s))))"

fun load_segments ::
  "(u64 \<Rightarrow> u8) \<Rightarrow> bytes \<Rightarrow> u64 \<Rightarrow> elf_program_header list \<Rightarrow> 'a paging_scheme \<Rightarrow> string option \<times> 'a paging_scheme" where
  "load_segments beyond elf pml4_phys [] s = (None, s)"
| "load_segments beyond elf pml4_phys (ph # phs) s =
     (case load_segment beyond elf pml4_phys ph s of
        (Some e, s) \<Rightarrow> (Some e, s)
      | (None, s) \<Rightarrow> load_segments beyond elf pml4_phys phs s)"

definition header_error :: "bytes \<Rightarrow> string option" where
  "header_error elf =
     (if length elf < 64 then Some ''run: bad elf header''
      else let h = elf64_header elf in
        if take 4 (eh_ident h) \<noteq> ELF_MAGIC \<or> eh_ident h ! 4 \<noteq> 2 \<or> eh_machine h \<noteq> 0x3E then Some ''run: unsupported elf''
        else if unat (eh_phentsize h) < 56 \<or> unat (eh_phoff h + ucast (eh_phentsize h) * ucast (eh_phnum h)) > length elf
        then Some ''run: bad program headers'' else None)"

definition program_headers :: "(u64 \<Rightarrow> u8) \<Rightarrow> bytes \<Rightarrow> elf_program_header list" where
  "program_headers beyond elf =
     (let h = elf64_header elf in
      map (\<lambda>index. program_header_at beyond elf (eh_phoff h + of_nat index * ucast (eh_phentsize h))) [0..<unat (eh_phnum h)])"

definition load_program_elf_isolated ::
  "(u64 \<Rightarrow> u8) \<Rightarrow> console \<Rightarrow> bytes \<Rightarrow> u64 \<Rightarrow> 'a paging_scheme \<Rightarrow> u64 option \<times> console \<times> 'a paging_scheme" where
  "load_program_elf_isolated beyond con elf pml4_phys s =
     (case header_error elf of
        Some e \<Rightarrow> (None, write_line e con, s)
      | None \<Rightarrow>
          (case load_segments beyond elf pml4_phys (program_headers beyond elf) s of
             (Some e, s) \<Rightarrow> (None, write_line e con, s)
           | (None, s) \<Rightarrow> (Some (eh_entry (elf64_header elf)), con, s)))"

section \<open>Bytes of words\<close>

lemma get_set_lane: "i < 8 \<Longrightarrow> j < 8 \<Longrightarrow> get_lane i (set_lane j b w) = (if i = j then b else get_lane i w)"
proof (rule bit_word_eqI)
  fix n
  assume i: "i < 8" and j: "j < 8" and "n < LENGTH(8)"
  then have n: "n < 8" "8 * i + n < 64" by auto
  have F: "bit (0xFF :: u64) k \<longleftrightarrow> k < 8" for k
  proof -
    have "(0xFF :: u64) = mask 8" by (simp add: mask_eq_exp_minus_1)
    then show ?thesis by (simp only: bit_mask_iff) auto
  qed
  have "bit (set_lane j b w) (8 * i + n) = (if i = j then bit b n else bit w (8 * i + n))"
  proof (cases "i = j")
    case True
    have "bit (0xFF :: u64) n" using F n by blast
    then show ?thesis using True n by (simp add: set_lane_def bit_or_iff bit_and_iff bit_not_iff bit_push_bit_iff bit_ucast_iff)
  next
    case False
    then have "8 * j \<le> 8 * i + n \<Longrightarrow> \<not> 8 * i + n - 8 * j < 8" using n by auto
    moreover have "\<not> bit b k" if "\<not> k < 8" for k using that bit_imp_le_length [of b k] by auto
    moreover have "\<not> bit (0xFF :: u64) k" if "\<not> k < 8" for k using F that by blast
    ultimately show ?thesis using False n
      by (auto simp: set_lane_def bit_or_iff bit_and_iff bit_not_iff bit_push_bit_iff bit_ucast_iff)
  qed
  with n show "bit (get_lane i (set_lane j b w)) n \<longleftrightarrow> bit (if i = j then b else get_lane i w) n"
    by (simp add: get_lane_def bit_ucast_iff bit_drop_bit_eq add.commute)
qed

lemma lane_of_less [simp]: "lane_of v < 8"
proof -
  have "v AND 7 \<le> 7" by (rule word_and_le1)
  then show ?thesis by (simp add: lane_of_def word_le_nat_alt)
qed

lemma get_lane_0 [simp]: "get_lane i 0 = 0"
  by (simp add: get_lane_def)

text \<open>An address is its page number, its word in the page and its byte in the word.\<close>

lemma offset_bits: "unat (v AND 0xFF8 :: u64) = unat v mod 4096 - unat v mod 8" "lane_of v = unat v mod 8"
proof -
  have 7: "(7 :: u64) = mask 3" and F: "(0xFFF :: u64) = mask 12" by (simp_all add: mask_eq_exp_minus_1)
  show l: "lane_of v = unat v mod 8"
    unfolding lane_of_def 7 by (simp only: take_bit_eq_mask [symmetric] unsigned_take_bit_eq) (simp only: take_bit_eq_mod, simp)
  have f: "unat (v AND 0xFFF) = unat v mod 4096"
    unfolding F by (simp only: take_bit_eq_mask [symmetric] unsigned_take_bit_eq) (simp only: take_bit_eq_mod, simp)
  have "v AND 0xFFF = (v AND 0xFF8) + (v AND 7)"
  proof -
    have "(v AND 0xFF8) OR (v AND 7) = v AND (0xFF8 OR 7)" by (simp only: bit.conj_disj_distrib)
    then have "v AND 0xFFF = (v AND 0xFF8) OR (v AND 7)" by simp
    moreover have "(v AND 0xFF8) AND (v AND 7) = 0" by (simp add: and.left_commute and.assoc)
    ultimately show ?thesis using word_plus_and_or [of "v AND 0xFF8" "v AND 7"] by simp
  qed
  then have e: "(v AND 0xFF8) = (v AND 0xFFF) - (v AND 7)" by simp
  have "unat v mod 4096 mod 8 = unat v mod 8" by (rule mod_mod_cancel) simp
  then have "unat v mod 8 \<le> unat v mod 4096" using mod_less_eq_dividend [of "unat v mod 4096" 8] by simp
  then have "v AND 7 \<le> v AND 0xFFF" using l by (simp add: word_le_nat_alt f lane_of_def)
  then have "unat (v AND 0xFF8) = unat (v AND 0xFFF) - unat (v AND 7)" unfolding e by (rule unat_sub)
  then show "unat (v AND 0xFF8) = unat v mod 4096 - unat v mod 8" using f l by (simp add: lane_of_def)
qed

lemma word_index_less: "unat (v :: u64) mod 4096 div 8 < 512"
  by (simp add: less_mult_imp_div_less)

lemma word_addr_entry: "word_addr page v = entry_addr page (unat v mod 4096 div 8)"
proof -
  have "unat v mod 4096 mod 8 = unat v mod 8" by (rule mod_mod_cancel) simp
  then have "unat (v AND 0xFF8) = 8 * (unat v mod 4096 div 8)"
    using offset_bits(1) [of v] by (simp add: minus_mod_eq_mult_div [symmetric])
  moreover have "unat (8 * of_nat (unat v mod 4096 div 8) :: u64) = 8 * (unat v mod 4096 div 8)"
    using word_index_less [of v] by (simp add: unat_word_ariths unat_of_nat)
  ultimately have "v AND 0xFF8 = 8 * of_nat (unat v mod 4096 div 8)" unfolding word_unat_eq_iff by simp
  then show ?thesis by (simp add: word_addr_def entry_addr_def)
qed

lemma word_addr_page: "page_aligned page \<Longrightarrow> align_down_u64 (word_addr page v) PAGE_SIZE = page"
  unfolding word_addr_entry by (rule entry_addr_page [OF _ word_index_less])

lemma word_addr_inj:
  assumes "page_aligned page" "word_addr page v = word_addr page w" "lane_of v = lane_of w"
  shows "unat v mod 4096 = unat w mod 4096"
proof -
  have i: "unat v mod 4096 div 8 = unat w mod 4096 div 8"
    using entry_addr_inj [OF assms(1,1) word_index_less word_index_less] assms(2) unfolding word_addr_entry by blast
  have "x mod 4096 mod 8 = x mod 8" for x :: nat by (rule mod_mod_cancel) simp
  then have "unat v mod 4096 mod 8 = unat w mod 4096 mod 8" using assms(3) by (simp add: offset_bits(2))
  with i show ?thesis by (metis mult_div_mod_eq)
qed

lemma same_page_iff:
  assumes "unat v < 2 ^ 48" "unat w < 2 ^ 48"
  shows "same_page v w \<longleftrightarrow> unat v div 4096 = unat w div 4096"
proof
  assume "same_page v w"
  moreover have "unat v div 4096 < 2 ^ 36" "unat w div 4096 < 2 ^ 36"
    using assms by (simp_all add: less_mult_imp_div_less)
  ultimately show "unat v div 4096 = unat w div 4096" using same_page_nat [of v w] by simp
next
  assume e: "unat v div 4096 = unat w div 4096"
  have d: "unat u div 2 ^ 21 = unat u div 4096 div 512" "unat u div 2 ^ 30 = unat u div 4096 div 262144"
    "unat u div 2 ^ 39 = unat u div 4096 div 134217728" "unat u div 2 ^ 12 = unat u div 4096" for u :: u64
    by (simp_all add: div_mult2_eq [symmetric])
  show "same_page v w"
    unfolding same_page_def vpath_def pml4_index_def pdpt_index_def pd_index_def pt_index_def drop_mod d e by simp
qed

section \<open>The loader's invariant\<close>

definition in_area :: "u64 \<Rightarrow> bool" where
  "in_area v \<longleftrightarrow> APP_LOAD_MIN \<le> v \<and> v < APP_LOAD_MAX"

lemma in_area_nat: "in_area v \<longleftrightarrow> 0x200000 \<le> unat v \<and> unat v < 0x9000000"
  by (simp add: in_area_def word_le_nat_alt word_less_nat_alt APP_LOAD_MIN_def APP_LOAD_MAX_def)

lemma in_area_same_page: "in_area v \<Longrightarrow> in_area w \<Longrightarrow> same_page v w \<longleftrightarrow> unat v div 4096 = unat w div 4096"
  by (rule same_page_iff) (simp_all add: in_area_nat)

lemma in_area_window: "in_area v \<Longrightarrow> in_image_window v"
  using in_image_window_range [of v] by (simp add: in_area_nat in_area_def [symmetric])

lemma window_same_page: "same_page v w \<Longrightarrow> in_image_window v \<longleftrightarrow> in_image_window w"
  by (simp add: same_page_def vpath_def in_image_window_def)

text \<open>
  While a program is loaded: the pages of its window came from the allocator, are not tables, and belong to
  one page of the window each; their bytes are the image \<open>img\<close>.  No other translation and no other
  page has changed.
\<close>

definition loading :: "u64 \<Rightarrow> 'a paging_scheme \<Rightarrow> 'a paging_scheme \<Rightarrow> (u64 \<Rightarrow> u8 option) \<Rightarrow> bool" where
  "loading root s0 s img \<longleftrightarrow>
     paging_ok root s \<and> cr3 s = root \<and> avail s \<subseteq> avail s0 \<and>
     tables (phys_mem s0) root \<subseteq> tables (phys_mem s) root \<and>
     tables (phys_mem s) root \<subseteq> tables (phys_mem s0) root \<union> avail s0 \<and>
     (\<forall>v x. in_area v \<longrightarrow> translate (phys_mem s) root v = Some x \<longrightarrow>
        x \<in> avail s0 \<and> x \<notin> avail s \<and> x \<notin> tables (phys_mem s) root) \<and>
     (\<forall>v w x. in_area v \<longrightarrow> in_area w \<longrightarrow> translate (phys_mem s) root v = Some x \<longrightarrow>
        translate (phys_mem s) root w = Some x \<longrightarrow> same_page v w) \<and>
     (\<forall>v. \<not> in_image_window v \<longrightarrow> translate (phys_mem s) root v = translate (phys_mem s0) root v) \<and>
     (\<forall>a. align_down_u64 a PAGE_SIZE \<notin> avail s0 \<union> tables (phys_mem s0) root \<longrightarrow> phys_mem s a = phys_mem s0 a) \<and>
     (\<forall>v. in_area v \<longrightarrow> load_byte (phys_mem s) root v = img v) \<and>
     kernel_pml4_phys s = kernel_pml4_phys s0 \<and> paging.more s = paging.more s0"

lemma loadingD:
  assumes "loading root s0 s img"
  shows "paging_ok root s" "cr3 s = root" "avail s \<subseteq> avail s0" "tables (phys_mem s0) root \<subseteq> tables (phys_mem s) root"
    "tables (phys_mem s) root \<subseteq> tables (phys_mem s0) root \<union> avail s0"
    "\<And>v x. in_area v \<Longrightarrow> translate (phys_mem s) root v = Some x \<Longrightarrow> x \<in> avail s0"
    "\<And>v x. in_area v \<Longrightarrow> translate (phys_mem s) root v = Some x \<Longrightarrow> x \<notin> avail s"
    "\<And>v x. in_area v \<Longrightarrow> translate (phys_mem s) root v = Some x \<Longrightarrow> x \<notin> tables (phys_mem s) root"
    "\<And>v w x. in_area v \<Longrightarrow> in_area w \<Longrightarrow> translate (phys_mem s) root v = Some x \<Longrightarrow>
       translate (phys_mem s) root w = Some x \<Longrightarrow> same_page v w"
    "\<And>v. \<not> in_image_window v \<Longrightarrow> translate (phys_mem s) root v = translate (phys_mem s0) root v"
    "\<And>a. align_down_u64 a PAGE_SIZE \<notin> avail s0 \<Longrightarrow> align_down_u64 a PAGE_SIZE \<notin> tables (phys_mem s0) root \<Longrightarrow>
       phys_mem s a = phys_mem s0 a"
    "\<And>v. in_area v \<Longrightarrow> load_byte (phys_mem s) root v = img v"
    "kernel_pml4_phys s = kernel_pml4_phys s0" "paging.more s = paging.more s0"
  using assms by (simp_all add: loading_def)

lemma loading_start:
  assumes "paging_ok root s" "cr3 s = root" "\<And>v. in_area v \<Longrightarrow> translate (phys_mem s) root v = None"
  shows "loading root s s (\<lambda>v. None)"
  using assms by (simp add: loading_def load_byte_def)

lemma loading_cong: "loading root s0 s img \<Longrightarrow> (\<And>v. in_area v \<Longrightarrow> img v = img' v) \<Longrightarrow> loading root s0 s img'"
  by (simp add: loading_def)

lemma loading_mapped: "loading root s0 s img \<Longrightarrow> in_area v \<Longrightarrow> img v = None \<longleftrightarrow> translate (phys_mem s) root v = None"
  using loadingD(12) [of root s0 s img v] by (metis load_byte_def map_option_is_None)

text \<open>A write to a page that is neither available nor a table moves no translation.\<close>

lemma data_write:
  assumes ok: "paging_ok root s" and x: "x \<notin> avail s" "x \<notin> tables (phys_mem s) root" "x AND PAGE_ADDR_MASK = x"
    and eq: "\<And>a. align_down_u64 a PAGE_SIZE \<noteq> x \<Longrightarrow> m a = phys_mem s a"
  shows "paging_ok root (s\<lparr>phys_mem := m\<rparr>)" "translate m root = translate (phys_mem s) root" "tables m root = tables (phys_mem s) root"
proof -
  have tr: "tree_ok (phys_mem s) root (avail s)" using ok by (simp add: paging_ok_def)
  have "page_aligned x" using mask_aligned [of x] x(3) by simp
  then have "tree_ok (phys_mem s) root (insert x (avail s))" using tr x by (auto simp: tree_ok_def tables_def)
  note f = foreign_frame [OF this, of m]
  have w: "walk m root q = walk (phys_mem s) root q" if "length q \<le> 3" "idx q" for q using f(1) [OF _ that] eq by simp
  show "tables m root = tables (phys_mem s) root" using w by (rule tables_same_walk)
  show "translate m root = translate (phys_mem s) root" using f(2) eq by (simp add: translate_def fun_eq_iff)
  have "tree_ok m root (avail s)" by (rule tree_ok_cong [OF tr w]) simp_all
  with ok show "paging_ok root (s\<lparr>phys_mem := m\<rparr>)" by (simp add: paging_ok_def)
qed

lemma store_byte_loading:
  assumes ld: "loading root s0 s img" and v: "in_area v" "img v \<noteq> None"
  shows "loading root s0 (store_byte v b s) (img(v := Some b))"
proof -
  note d = loadingD [OF ld]
  obtain x where x: "translate (phys_mem s) root v = Some x" using loading_mapped [OF ld v(1)] v(2) by auto
  let ?m = "(phys_mem s)(word_addr x v := set_lane (lane_of v) b (phys_mem s (word_addr x v)))"
  have s': "store_byte v b s = s\<lparr>phys_mem := ?m\<rparr>" using x d(2) by (simp add: store_byte_def)
  have al: "page_aligned x" using mask_aligned [of x] translate_masked [OF x] by simp
  have w: "align_down_u64 (word_addr x v) PAGE_SIZE = x" by (rule word_addr_page [OF al])
  note f = data_write [OF d(1) d(7) [OF v(1) x] d(8) [OF v(1) x] translate_masked [OF x], of ?m]
  have eq: "?m a = phys_mem s a" if "align_down_u64 a PAGE_SIZE \<noteq> x" for a using that w by auto
  note f = f [OF eq]
  have byte: "load_byte ?m root u = (img(v := Some b)) u" if u: "in_area u" for u
  proof (cases "translate (phys_mem s) root u = Some x")
    case False
    have "?m (word_addr y u) = phys_mem s (word_addr y u)" if "translate (phys_mem s) root u = Some y" for y
      using that False word_addr_page [of y u] mask_aligned [of y] translate_masked [OF that] by (intro eq) auto
    moreover have "u \<noteq> v" using False x by auto
    ultimately show ?thesis
      using d(12) [OF u] f(2) by (cases "translate (phys_mem s) root u") (auto simp: load_byte_def)
  next
    case True
    have pg: "unat u div 4096 = unat v div 4096" using d(9) [OF u v(1) True x] in_area_same_page [OF u v(1)] by simp
    have ne: "\<not> (word_addr x u = word_addr x v \<and> lane_of u = lane_of v)" if "u \<noteq> v"
      using word_addr_inj [OF al, of u v] pg that by (metis div_mult_mod_eq unsigned_word_eqI)
    have "load_byte ?m root u = Some (if u = v then b else get_lane (lane_of u) (phys_mem s (word_addr x u)))"
      using ne by (auto simp: load_byte_def f(2) True get_set_lane)
    then show ?thesis using d(12) [OF u] True by (auto simp: load_byte_def)
  qed
  have fr: "?m a = phys_mem s0 a" if "align_down_u64 a PAGE_SIZE \<notin> avail s0" "align_down_u64 a PAGE_SIZE \<notin> tables (phys_mem s0) root" for a
    using eq [of a] d(11) [OF that] d(6) [OF v(1) x] that(1) w by (cases "align_down_u64 a PAGE_SIZE = x") auto
  show ?thesis unfolding s' loading_def
    using f d(2-5,13,14) byte fr d(6-10) by simp
qed

section \<open>Mapping the pages of a segment\<close>

text \<open>What touching pages does to an image: bytes not there before become zero.\<close>

definition touch :: "(u64 \<Rightarrow> bool) \<Rightarrow> (u64 \<Rightarrow> u8 option) \<Rightarrow> u64 \<Rightarrow> u8 option" where
  "touch P img v = (if P v \<and> img v = None then Some 0 else img v)"

lemma page_mapped_translate:
  assumes "page_mapped root virt s"
  shows "translate (phys_mem s) root virt \<noteq> None"
proof -
  obtain pdpt pd pt x where w: "table_entry_address (phys_mem s) root (pml4_index virt) = Some pdpt"
    "table_entry_address (phys_mem s) pdpt (pdpt_index virt) = Some pd"
    "table_entry_address (phys_mem s) pd (pd_index virt) = Some pt"
    "table_entry_address (phys_mem s) pt (pt_index virt) = Some x"
    using assms by (auto simp: page_mapped_def split: if_splits option.splits)
  then have "walk (phys_mem s) root (vpath virt) = Some pt" by (simp add: vpath_def)
  from translate_leaf [OF this] w(4) show ?thesis
    by (auto simp: leaf_def table_entry_address_def Let_def split: if_splits)
qed

lemma map_fresh_page:
  assumes ld: "loading root s0 s img" and v: "in_area virt"
    and a: "alloc_zeroed_page s = (Some n, s1)"
    and m: "map_page root virt n (PAGE_PRESENT OR PAGE_WRITABLE) s1 = (True, s2)"
  shows "loading root s0 s2 (touch (same_page virt) img)"
proof -
  note d = loadingD [OF ld]
  note fa = run_frame_alloc [OF run_frame_start [OF d(1)] a]
  have ok1: "paging_ok root s1" using fa(1) by (simp add: run_frame_def)
  note ms = map_page_spec [OF ok1 m leaf_flags fa(3)]
  have rf: "run_frame root s s2 [n]" using run_frame_grown [OF fa(1) ms(1)] by simp
  then have r: "paging_ok root s2" "avail s2 \<subseteq> avail s" "n \<in> avail s" "n \<notin> avail s2" "n \<notin> tables (phys_mem s2) root"
    "\<And>a. align_down_u64 a PAGE_SIZE = n \<Longrightarrow> phys_mem s2 a = 0"
    "tables (phys_mem s) root \<subseteq> tables (phys_mem s2) root" "tables (phys_mem s2) root \<subseteq> tables (phys_mem s) root \<union> avail s"
    "\<And>a. align_down_u64 a PAGE_SIZE \<notin> avail s \<union> tables (phys_mem s) root \<Longrightarrow> phys_mem s2 a = phys_mem s a"
    "kernel_pml4_phys s2 = kernel_pml4_phys s" "cr3 s2 = cr3 s" "paging.more s2 = paging.more s"
    by (simp_all add: run_frame_def)
  have t: "translate (phys_mem s) root virt = None"
    "translate (phys_mem s2) root w = (if same_page w virt then Some n else translate (phys_mem s) root w)" for w
    using ms(2) fa(2) by simp_all
  have old: "x \<notin> avail s \<union> tables (phys_mem s) root" if "in_area w" "translate (phys_mem s) root w = Some x" for w x
    using d(7,8) that by blast
  have frame: "x \<in> avail s0 \<and> x \<notin> avail s2 \<and> x \<notin> tables (phys_mem s2) root"
    if w: "in_area w" "translate (phys_mem s2) root w = Some x" for w x
  proof (cases "same_page w virt")
    case True
    with w t have "x = n" by simp
    with r(3-5) d(3) show ?thesis by blast
  next
    case False
    with w t have x: "translate (phys_mem s) root w = Some x" by simp
    with old [OF w(1) x] d(6) [OF w(1) x] r(2,8) show ?thesis by blast
  qed
  have single: "same_page w u"
    if "in_area w" "in_area u" "translate (phys_mem s2) root w = Some x" "translate (phys_mem s2) root u = Some x" for w u x
  proof -
    have "n \<noteq> y" if "in_area z" "translate (phys_mem s) root z = Some y" for z y using old [OF that] r(3) by auto
    then show ?thesis using that d(9) [of w u x] t(2) [of w] t(2) [of u] same_page_trans [of w virt u] same_page_sym [of u virt]
      by (auto split: if_splits)
  qed
  have byte: "load_byte (phys_mem s2) root w = touch (same_page virt) img w" if w: "in_area w" for w
  proof (cases "same_page w virt")
    case True
    have "page_aligned n" using mask_aligned [of n] fa(3) by simp
    then have "phys_mem s2 (word_addr n w) = 0" by (intro r(6) word_addr_page)
    moreover have "img w = None" using loading_mapped [OF ld w] translate_same [OF True] t(1) by simp
    ultimately show ?thesis using True t(2) [of w] same_page_sym [OF True] by (simp add: load_byte_def touch_def)
  next
    case False
    have "phys_mem s2 (word_addr x w) = phys_mem s (word_addr x w)" if x: "translate (phys_mem s) root w = Some x" for x
      using old [OF w x] word_addr_page [of x w] mask_aligned [of x] translate_masked [OF x] by (intro r(9)) simp
    then have "load_byte (phys_mem s2) root w = load_byte (phys_mem s) root w"
      using False t(2) [of w] by (cases "translate (phys_mem s) root w") (simp_all add: load_byte_def)
    with False d(12) [OF w] same_page_sym show ?thesis by (auto simp: touch_def)
  qed
  have win: "translate (phys_mem s2) root w = translate (phys_mem s0) root w" if "\<not> in_image_window w" for w
    using that t(2) [of w] d(10) [OF that] window_same_page [of w virt] in_area_window [OF v] by auto
  have kept: "phys_mem s2 a = phys_mem s0 a"
    if "align_down_u64 a PAGE_SIZE \<notin> avail s0" "align_down_u64 a PAGE_SIZE \<notin> tables (phys_mem s0) root" for a
    using that d(3,5) d(11) [OF that] by (subst r(9)) auto
  show ?thesis unfolding loading_def
    using r(1,10-12) d(2,13,14) frame single byte win kept r(2,7,8) d(3-5) by (intro conjI allI impI) (blast | simp)+
qed

lemma map_image_loop_loading:
  assumes "loading root s0 s img" "\<And>j. j \<in> set js \<Longrightarrow> in_area (page_at base j)"
    and "map_image_loop root base js s = (True, s')"
  shows "loading root s0 s' (touch (\<lambda>v. \<exists>j \<in> set js. same_page (page_at base j) v) img)"
  using assms
proof (induction js arbitrary: s img)
  case Nil
  then show ?case by (auto elim: loading_cong simp: touch_def)
next
  case (Cons j js)
  let ?v = "page_at base j"
  have v: "in_area ?v" using Cons.prems(2) by simp
  have step: "\<exists>s1. loading root s0 s1 (touch (same_page ?v) img) \<and> map_image_loop root base js s1 = (True, s')"
  proof (cases "page_mapped root ?v s")
    case True
    have "touch (same_page ?v) img w = img w" if "in_area w" for w
      using page_mapped_translate [OF True] loading_mapped [OF Cons.prems(1) that]
        translate_same [of ?v w "phys_mem s" root] by (auto simp: touch_def)
    then have "loading root s0 s (touch (same_page ?v) img)" by (intro loading_cong [OF Cons.prems(1)]) simp
    moreover have "map_image_loop root base js s = (True, s')" using Cons.prems(3) True by simp
    ultimately show ?thesis by blast
  next
    case False
    then obtain n s1 s2 where "alloc_zeroed_page s = (Some n, s1)"
      "map_page root ?v n (PAGE_PRESENT OR PAGE_WRITABLE) s1 = (True, s2)" "map_image_loop root base js s2 = (True, s')"
      using Cons.prems(3) by (auto simp: Let_def split: prod.splits option.splits bool.splits)
    with map_fresh_page [OF Cons.prems(1) v] show ?thesis by blast
  qed
  then obtain s1 where s1: "loading root s0 s1 (touch (same_page ?v) img)" "map_image_loop root base js s1 = (True, s')" by blast
  from Cons.IH [OF s1(1) _ s1(2)] Cons.prems(2)
  have "loading root s0 s' (touch (\<lambda>v. \<exists>j \<in> set js. same_page (page_at base j) v) (touch (same_page ?v) img))" by simp
  then show ?case by (rule loading_cong) (auto simp: touch_def)
qed

section \<open>Storing the bytes of a segment\<close>

lemma fold_store_loading:
  assumes "loading root s0 s img" "\<And>v. v \<in> set (map fst xs) \<Longrightarrow> in_area v \<and> img v \<noteq> None"
  shows "loading root s0 (fold (\<lambda>(v, b). store_byte v b) xs s) (fold (\<lambda>(v, b) img. img(v := Some b)) xs img)"
  using assms
proof (induction xs arbitrary: s img)
  case (Cons x xs)
  obtain v b where x: "x = (v, b)" by force
  have "loading root s0 (store_byte v b s) (img(v := Some b))"
    by (rule store_byte_loading [OF Cons.prems(1)]) (use Cons.prems(2) x in auto)
  from Cons.IH [OF this] Cons.prems(2) show ?case by (auto simp: x)
qed simp

lemma fold_run_image:
  fixes d :: u64
  assumes "unat d + n \<le> 2 ^ 64"
  shows "fold (\<lambda>(v, b) img. img(v := Some b)) (map (\<lambda>i. (d + of_nat i, f i)) [0..<n]) img =
    (\<lambda>v. if unat d \<le> unat v \<and> unat v < unat d + n then Some (f (unat v - unat d)) else img v)"
  using assms
proof (induction n)
  case (Suc n)
  have u: "unat (d + of_nat n) = unat d + n" using Suc.prems by (simp add: unat_word_ariths unat_of_nat)
  then have "v = d + of_nat n \<longleftrightarrow> unat v = unat d + n" for v by (simp add: word_unat_eq_iff)
  with Suc show ?case by (auto simp: fun_eq_iff)
qed (auto simp: fun_eq_iff)

lemma zero_bytes_fold: "zero_bytes d n s = fold (\<lambda>(v, b). store_byte v b) (map (\<lambda>i. (d + of_nat i, 0)) [0..<n]) s"
  by (simp add: zero_bytes_def fold_map comp_def)

lemma copy_bytes_fold: "copy_bytes beyond elf off d n s =
    fold (\<lambda>(v, b). store_byte v b) (map (\<lambda>i. (d + of_nat i, image_at beyond elf (off + of_nat i))) [0..<n]) s"
  by (simp add: copy_bytes_def fold_map comp_def)

section \<open>The image a program should find\<close>

definition loadable :: "elf_program_header \<Rightarrow> bool" where
  "loadable ph \<longleftrightarrow> ph_typ ph = PT_LOAD \<and> ph_memsz ph \<noteq> 0"

text \<open>
  A segment puts the bytes of the file at its address, zeros behind them up to its size in memory, and
  zeros on the rest of its pages where no earlier segment has put anything.
\<close>

definition seg_pages :: "elf_program_header \<Rightarrow> u64 \<Rightarrow> bool" where
  "seg_pages ph v \<longleftrightarrow> unat (ph_paddr ph) div 4096 \<le> unat v div 4096 \<and>
     unat v div 4096 < (unat (ph_paddr ph) + unat (ph_memsz ph) + 4095) div 4096"

definition place :: "bytes \<Rightarrow> elf_program_header \<Rightarrow> (u64 \<Rightarrow> u8 option) \<Rightarrow> u64 \<Rightarrow> u8 option" where
  "place elf ph img v =
     (if \<not> loadable ph then img v
      else if unat (ph_paddr ph) \<le> unat v \<and> unat v < unat (ph_paddr ph) + unat (ph_memsz ph) then
        let k = unat v - unat (ph_paddr ph) in
        Some (if k < unat (ph_filesz ph) then elf ! (unat (ph_offset ph) + k) else 0)
      else touch (seg_pages ph) img v)"

text \<open>The sums of the bounds checks do not wrap.\<close>

definition no_wrap :: "elf_program_header \<Rightarrow> bool" where
  "no_wrap ph \<longleftrightarrow> \<not> loadable ph \<or>
     (unat (ph_offset ph) + unat (ph_filesz ph) < 2 ^ 64 \<and> unat (ph_paddr ph) + unat (ph_memsz ph) < 2 ^ 64)"

lemma segment_bounds:
  assumes "segment_error n ph = None" "loadable ph" "no_wrap ph"
  shows "0x200000 \<le> unat (ph_paddr ph)" "unat (ph_paddr ph) + unat (ph_memsz ph) \<le> 0x9000000"
    "unat (ph_offset ph) + unat (ph_filesz ph) \<le> n" "unat (ph_filesz ph) \<le> unat (ph_memsz ph)"
proof -
  have w: "unat (ph_offset ph + ph_filesz ph) = unat (ph_offset ph) + unat (ph_filesz ph)"
    "unat (ph_paddr ph + ph_memsz ph) = unat (ph_paddr ph) + unat (ph_memsz ph)"
    using assms(2,3) by (simp_all add: no_wrap_def unat_word_ariths)
  show "0x200000 \<le> unat (ph_paddr ph)" "unat (ph_paddr ph) + unat (ph_memsz ph) \<le> 0x9000000"
    "unat (ph_offset ph) + unat (ph_filesz ph) \<le> n" "unat (ph_filesz ph) \<le> unat (ph_memsz ph)"
    using assms(1) w by (auto simp: segment_error_def word_le_nat_alt word_less_nat_alt APP_LOAD_MIN_def APP_LOAD_MAX_def
      split: if_splits)
qed

lemma segment_pages:
  assumes b: "0x200000 \<le> unat (ph_paddr ph)" "unat (ph_paddr ph) + unat (ph_memsz ph) \<le> 0x9000000"
  shows "page_count ph = (unat (ph_paddr ph) + unat (ph_memsz ph) + 4095) div 4096 - unat (ph_paddr ph) div 4096"
    "j < page_count ph \<Longrightarrow> unat (page_at (page_start ph) j) = 4096 * (unat (ph_paddr ph) div 4096 + j)"
    "j < page_count ph \<Longrightarrow> in_area (page_at (page_start ph) j)"
proof -
  let ?p = "unat (ph_paddr ph)" and ?m = "unat (ph_memsz ph)"
  have ps: "unat (page_start ph) = 4096 * (?p div 4096)"
    using align_down_nat [of "ph_paddr ph"] by (simp add: page_start_def align_down_u64_def)
  have "unat (ph_paddr ph + ph_memsz ph + PAGE_SIZE - 1) = ?p + ?m + 4095"
  proof -
    have "unat (ph_paddr ph + ph_memsz ph + 4095) = ?p + ?m + 4095" using b(2) by (simp add: unat_word_ariths)
    moreover have "ph_paddr ph + ph_memsz ph + PAGE_SIZE - 1 = ph_paddr ph + ph_memsz ph + 4095" by (simp add: PAGE_SIZE_def)
    ultimately show ?thesis by (simp only:)
  qed
  then have pe: "unat (page_end ph) = 4096 * ((?p + ?m + 4095) div 4096)"
    using align_down_nat [of "ph_paddr ph + ph_memsz ph + PAGE_SIZE - 1"] by (simp add: page_end_def align_down_u64_def)
  have le: "?p div 4096 \<le> (?p + ?m + 4095) div 4096" by (rule div_le_mono) simp
  then have "page_start ph \<le> page_end ph" by (simp add: word_le_nat_alt ps pe)
  then have "unat (page_end ph - page_start ph) = 4096 * ((?p + ?m + 4095) div 4096 - ?p div 4096)"
    by (simp add: unat_sub ps pe diff_mult_distrib2)
  then show c: "page_count ph = (?p + ?m + 4095) div 4096 - ?p div 4096"
    by (simp add: page_count_def unat_div unat_page_size)
  have "(?p + ?m + 4095) div 4096 \<le> (0x9000000 + 4095) div 4096" using b(2) by (intro div_le_mono) simp
  then have hi: "?p div 4096 + j < 0x9000" if "j < page_count ph" using that c by simp
  show a: "unat (page_at (page_start ph) j) = 4096 * (?p div 4096 + j)" if "j < page_count ph"
  proof -
    have "unat (of_nat j * PAGE_SIZE) = j * 4096" using hi [OF that] by (simp add: PAGE_SIZE_def unat_word_ariths unat_of_nat)
    then show ?thesis using hi [OF that] ps by (simp add: unat_word_ariths)
  qed
  have "512 \<le> ?p div 4096" using div_le_mono [OF b(1), of 4096] by simp
  then show "in_area (page_at (page_start ph) j)" if "j < page_count ph"
    using a [OF that] hi [OF that] by (simp add: in_area_nat)
qed

lemma load_segment_loading:
  assumes ld: "loading root s0 s img" and nw: "no_wrap ph" and e: "load_segment beyond elf root ph s = (None, s')"
  shows "loading root s0 s' (place elf ph img)"
proof (cases "loadable ph")
  case False
  with e ld show ?thesis by (auto simp: load_segment_def loadable_def place_def elim: loading_cong)
next
  case True
  let ?p = "unat (ph_paddr ph)" and ?m = "unat (ph_memsz ph)" and ?f = "unat (ph_filesz ph)" and ?o = "unat (ph_offset ph)"
  from True e have se: "segment_error (length elf) ph = None"
    by (auto simp: load_segment_def loadable_def split: option.splits)
  note b = segment_bounds [OF se True nw]
  note sp = segment_pages [OF b(1,2)]
  from True e se obtain s1 where m: "map_image_loop root (page_start ph) [0..<page_count ph] s = (True, s1)"
    and s': "s' = copy_bytes beyond elf (ph_offset ph) (ph_paddr ph) ?f (zero_bytes (ph_paddr ph) ?m s1)"
    by (auto simp: load_segment_def loadable_def map_image_pages_def split: prod.splits bool.splits)
  let ?img1 = "touch (seg_pages ph) img"
  have "loading root s0 s1 (touch (\<lambda>v. \<exists>j \<in> set [0..<page_count ph]. same_page (page_at (page_start ph) j) v) img)"
    by (rule map_image_loop_loading [OF ld _ m]) (use sp(3) in simp)
  moreover have pg: "(\<exists>j \<in> set [0..<page_count ph]. same_page (page_at (page_start ph) j) v) \<longleftrightarrow> seg_pages ph v" if v: "in_area v" for v
  proof -
    have "same_page (page_at (page_start ph) j) v \<longleftrightarrow> ?p div 4096 + j = unat v div 4096" if "j < page_count ph" for j
      using in_area_same_page [OF sp(3) [OF that] v] sp(2) [OF that] by simp
    then have "(\<exists>j \<in> set [0..<page_count ph]. same_page (page_at (page_start ph) j) v) \<longleftrightarrow>
        (\<exists>j<page_count ph. ?p div 4096 + j = unat v div 4096)" by auto
    also have "\<dots> \<longleftrightarrow> seg_pages ph v"
      unfolding seg_pages_def sp(1) by (auto intro!: exI [of _ "unat v div 4096 - ?p div 4096"] diff_less_mono)
    finally show ?thesis .
  qed
  ultimately have l1: "loading root s0 s1 ?img1" by - (rule loading_cong, assumption, simp add: touch_def pg)
  have inp: "in_area v \<and> ?img1 v \<noteq> None" if "?p \<le> unat v" "unat v < ?p + ?m" for v
  proof -
    have "?p div 4096 \<le> unat v div 4096" using that(1) by (rule div_le_mono)
    moreover have "unat v div 4096 < (?p + ?m + 4095) div 4096"
    proof -
      have "unat v + 4096 \<le> ?p + ?m + 4095" using that(2) by simp
      from div_le_mono [OF this, of 4096] show ?thesis by simp
    qed
    ultimately show ?thesis using that b(1,2) by (auto simp: touch_def seg_pages_def in_area_nat)
  qed
  have u: "unat (ph_paddr ph + of_nat i) = ?p + i" if "i < ?m" for i
    using that b(2) by (simp add: unat_word_ariths unat_of_nat)
  define img2 where "img2 = (\<lambda>v. if ?p \<le> unat v \<and> unat v < ?p + ?m then Some 0 else ?img1 v)"
  have l2: "loading root s0 (zero_bytes (ph_paddr ph) ?m s1) img2"
  proof -
    have "loading root s0 (zero_bytes (ph_paddr ph) ?m s1)
        (fold (\<lambda>(v, b) img. img(v := Some b)) (map (\<lambda>i. (ph_paddr ph + of_nat i, 0)) [0..<?m]) ?img1)"
      unfolding zero_bytes_fold by (rule fold_store_loading [OF l1]) (use inp u in auto)
    then show ?thesis unfolding img2_def by (subst (asm) fold_run_image) (use b(2) in simp_all)
  qed
  define img3 where "img3 = (\<lambda>v. if ?p \<le> unat v \<and> unat v < ?p + ?f
    then Some (image_at beyond elf (ph_offset ph + of_nat (unat v - ?p))) else img2 v)"
  have "loading root s0 s' img3"
  proof -
    have "loading root s0 s' (fold (\<lambda>(v, b) img. img(v := Some b))
        (map (\<lambda>i. (ph_paddr ph + of_nat i, image_at beyond elf (ph_offset ph + of_nat i))) [0..<?f]) img2)"
      unfolding s' copy_bytes_fold by (rule fold_store_loading [OF l2]) (use inp u b(4) in \<open>auto simp: img2_def\<close>)
    then show ?thesis unfolding img3_def by (subst (asm) fold_run_image) (use b(2,4) in simp_all)
  qed
  moreover have "img3 v = place elf ph img v" for v
  proof -
    define k where "k = unat v - ?p"
    have "image_at beyond elf (ph_offset ph + of_nat k) = elf ! (?o + k)" if "k < ?f"
    proof -
      have "?o + ?f < 2 ^ 64" using nw True by (simp add: no_wrap_def)
      then have "unat (ph_offset ph + of_nat k) = ?o + k" using that by (simp add: unat_word_ariths unat_of_nat)
      then show ?thesis using that b(3) by (simp add: image_at_def)
    qed
    moreover have "?p \<le> unat v \<Longrightarrow> unat v < ?p + n \<longleftrightarrow> k < n" for n by (auto simp: k_def)
    ultimately show ?thesis using True b(4) unfolding img3_def img2_def place_def Let_def k_def [symmetric]
      by (cases "?p \<le> unat v"; cases "k < ?f"; cases "k < ?m") simp_all
  qed
  ultimately show ?thesis by (rule loading_cong)
qed

lemma load_segments_loading:
  assumes "loading root s0 s img" "list_all no_wrap phs" "load_segments beyond elf root phs s = (None, s')"
  shows "loading root s0 s' (fold (place elf) phs img)"
  using assms
proof (induction phs arbitrary: s img)
  case (Cons ph phs)
  from Cons.prems(3) obtain s1 where "load_segment beyond elf root ph s = (None, s1)" "load_segments beyond elf root phs s1 = (None, s')"
    by (auto split: prod.splits option.splits)
  with Cons.IH [OF load_segment_loading [OF Cons.prems(1), of ph beyond elf s1]] Cons.prems(2) show ?case by simp
qed simp

section \<open>Properties\<close>

text \<open>
  C24. A loaded program finds its image.  When the loader accepts an ELF file whose segments do not
  wrap around, every byte of the program window reads, through the page tables of the process,
  as the segments of the file say, later segments over earlier ones, and is unmapped where no segment
  has a page.  Translations outside the window and all memory that was neither free nor a table of
  this process are unchanged, and the entry point is the file's.
\<close>

theorem elf_image_loaded:
  assumes "paging_ok root s" "cr3 s = root" "\<And>v. in_area v \<Longrightarrow> translate (phys_mem s) root v = None"
    "list_all no_wrap (program_headers beyond elf)"
    "load_program_elf_isolated beyond con elf root s = (Some entry, con', s')"
  shows "entry = eh_entry (elf64_header elf) \<and> con' = con \<and> paging_ok root s' \<and>
    (\<forall>v. in_area v \<longrightarrow> load_byte (phys_mem s') root v = fold (place elf) (program_headers beyond elf) (\<lambda>v. None) v) \<and>
    (\<forall>v. \<not> in_image_window v \<longrightarrow> translate (phys_mem s') root v = translate (phys_mem s) root v) \<and>
    (\<forall>a. align_down_u64 a PAGE_SIZE \<notin> avail s \<union> tables (phys_mem s) root \<longrightarrow> phys_mem s' a = phys_mem s a)"
proof -
  from assms(5) have "load_segments beyond elf root (program_headers beyond elf) s = (None, s')"
    "entry = eh_entry (elf64_header elf)" "con' = con"
    by (auto simp: load_program_elf_isolated_def split: option.splits prod.splits)
  with loadingD [OF load_segments_loading [OF loading_start [OF assms(1-3)] assms(4), where s' = s']] show ?thesis by simp
qed

text \<open>A program of one byte of code and one byte of zeroed data.\<close>

definition demo_elf :: bytes where
  "demo_elf = ELF_MAGIC @ [2] @ replicate 13 0 @ [0x3E, 0] @ replicate 4 0 @ to_le_bytes64 0x200000 @ to_le_bytes64 64 @
     replicate 14 0 @ [56, 0, 1, 0] @ replicate 6 0 @ to_le_bytes32 1 @ replicate 4 0 @ to_le_bytes64 120 @
     to_le_bytes64 0x200000 @ to_le_bytes64 0x200000 @ to_le_bytes64 1 @ to_le_bytes64 2 @ replicate 8 0 @ [0x90]"

lemma demo_elf_header: "header_error demo_elf = None" "eh_entry (elf64_header demo_elf) = 0x200000"
  by code_simp+

lemma demo_elf_segments:
  "program_headers beyond demo_elf = [\<lparr>ph_typ = 1, ph_offset = 120, ph_paddr = 0x200000, ph_filesz = 1, ph_memsz = 2\<rparr>]"
  by code_simp

lemma demo_no_wrap: "list_all no_wrap (program_headers beyond demo_elf)"
  by (simp add: demo_elf_segments no_wrap_def)

lemma demo_map_image: "fst (map_image_pages 0x1000 0x200000 1 demo_paging)"
  by (simp add: map_image_pages_def page_mapped_def table_entry_address_def demo_paging_def alloc_zeroed_page_def demo_pool_eq
      alloc_page_def allocator_empty_def map_page_def ensure_next_table_def write_entry_def zero_page_def align_down_u64_def
      pml4_index_def pdpt_index_def pd_index_def pt_index_def entry_addr_def paging_consts alloc_consts Let_def)

lemma demo_load: "\<exists>s'. load_program_elf_isolated beyond con demo_elf 0x1000 demo_paging = (Some 0x200000, con, s')"
proof -
  obtain s1 where m: "map_image_pages 0x1000 0x200000 1 demo_paging = (True, s1)"
    using demo_map_image by (cases "map_image_pages 0x1000 0x200000 1 demo_paging") auto
  have "length demo_elf = 121" by code_simp
  with m show ?thesis
    by (simp add: load_program_elf_isolated_def demo_elf_header demo_elf_segments load_segment_def PT_LOAD_def segment_error_def
        page_start_def page_end_def page_count_def PAGE_SIZE_def APP_LOAD_MIN_def APP_LOAD_MAX_def)
qed

theorem elf_image_loaded_witness:
  "\<exists>con s'. load_program_elf_isolated (\<lambda>_. 0) con demo_elf 0x1000 demo_paging = (Some 0x200000, con, s') \<and>
     load_byte (phys_mem s') 0x1000 0x200000 = Some 0x90 \<and> load_byte (phys_mem s') 0x1000 0x200001 = Some 0 \<and>
     load_byte (phys_mem s') 0x1000 0x201000 = None"
proof -
  fix con
  obtain s' where e: "load_program_elf_isolated (\<lambda>_. 0) con demo_elf 0x1000 demo_paging = (Some 0x200000, con, s')"
    using demo_load by blast
  have "cr3 demo_paging = 0x1000" "translate (phys_mem demo_paging) 0x1000 v = None" for v
    by (simp_all add: demo_paging_def translate_def ent_def walk_zero vpath_def split: option.splits)
  note l = elf_image_loaded [OF demo_paging_ok this demo_no_wrap e]
  have "demo_elf ! 120 = 0x90" by code_simp
  with l e show ?thesis
    by (intro exI [of _ con] exI [of _ s']) (simp add: demo_elf_segments in_area_nat place_def loadable_def PT_LOAD_def touch_def seg_pages_def)
qed

text \<open>
  Where the sums wrap, the check of the program window accepts a segment far outside it: one page at the
  top of the address space.
\<close>

lemma segment_check_wraps:
  "segment_error 0 \<lparr>ph_typ = 1, ph_offset = 0, ph_paddr = 0xFFFFFFFFFFFFF000, ph_filesz = 0, ph_memsz = 0x1000\<rparr> = None"
  "page_count \<lparr>ph_typ = 1, ph_offset = 0, ph_paddr = 0xFFFFFFFFFFFFF000, ph_filesz = 0, ph_memsz = 0x1000\<rparr> = 1"
  by (simp_all add: segment_error_def page_count_def page_end_def page_start_def PAGE_SIZE_def APP_LOAD_MIN_def APP_LOAD_MAX_def)

end
