(* ===== verification/Slot_Table.thy ===== *)
theory Slot_Table
  imports Rymos_Prelude
begin

text \<open>
  The kernel keeps its directories in fixed tables of slots: the RYMFS header, the RAMFS
  entries and a process's environment overlay are all searched by the same two loops, "the
  first used slot with this key" and "the first unused slot".  The locale \<open>slot_table\<close>
  is that interface: what storing and erasing a slot change, from which the tables refine a
  dictionary from keys to slot numbers.
\<close>

locale slot_table =
  fixes count :: nat
    and tab_ok :: "'h \<Rightarrow> bool"
    and used :: "'h \<Rightarrow> nat \<Rightarrow> bool"
    and key :: "'h \<Rightarrow> nat \<Rightarrow> 'k"
    and put :: "nat \<Rightarrow> 'k \<Rightarrow> 'v \<Rightarrow> 'h \<Rightarrow> 'h"
    and erase :: "nat \<Rightarrow> 'h \<Rightarrow> 'h"
    and entry_ok :: "'k \<Rightarrow> 'v \<Rightarrow> bool"
  assumes put_ok: "tab_ok h \<Longrightarrow> i < count \<Longrightarrow> entry_ok k v \<Longrightarrow> tab_ok (put i k v h)"
    and used_put: "tab_ok h \<Longrightarrow> i < count \<Longrightarrow> entry_ok k v \<Longrightarrow> j < count \<Longrightarrow>
      used (put i k v h) j \<longleftrightarrow> j = i \<or> used h j"
    and key_put: "tab_ok h \<Longrightarrow> i < count \<Longrightarrow> entry_ok k v \<Longrightarrow> j < count \<Longrightarrow>
      key (put i k v h) j = (if j = i then k else key h j)"
    and erase_ok: "tab_ok h \<Longrightarrow> i < count \<Longrightarrow> tab_ok (erase i h)"
    and used_erase: "tab_ok h \<Longrightarrow> i < count \<Longrightarrow> j < count \<Longrightarrow>
      used (erase i h) j \<longleftrightarrow> j \<noteq> i \<and> used h j"
    and key_erase: "tab_ok h \<Longrightarrow> i < count \<Longrightarrow> j < count \<Longrightarrow> j \<noteq> i \<Longrightarrow> key (erase i h) j = key h j"
begin

definition lookup :: "'h \<Rightarrow> 'k \<Rightarrow> nat option" where
  "lookup h k = find (\<lambda>i. used h i \<and> key h i = k) [0..<count]"

definition free_slot :: "'h \<Rightarrow> nat option" where
  "free_slot h = find (\<lambda>i. \<not> used h i) [0..<count]"

definition uniq :: "'h \<Rightarrow> bool" where
  "uniq h \<longleftrightarrow> (\<forall>i<count. \<forall>j<count. used h i \<longrightarrow> used h j \<longrightarrow> key h i = key h j \<longrightarrow> i = j)"

lemma lookup_SomeD:
  assumes "lookup h k = Some i"
  shows "i < count" "used h i" "key h i = k"
  using find_upt_SomeD(1,2) [OF assms [unfolded lookup_def]] by auto

lemma lookup_NoneD: "lookup h k = None \<Longrightarrow> i < count \<Longrightarrow> used h i \<Longrightarrow> key h i \<noteq> k"
  unfolding lookup_def by (auto dest: find_upt_NoneD)

lemma lookup_NoneI: "(\<And>i. i < count \<Longrightarrow> used h i \<Longrightarrow> key h i \<noteq> k) \<Longrightarrow> lookup h k = None"
  by (auto simp: lookup_def find_upt_None)

lemma free_slot_SomeD:
  assumes "free_slot h = Some i"
  shows "i < count" "\<not> used h i"
  using find_upt_SomeD(1,2) [OF assms [unfolded free_slot_def]] by auto

lemma free_slot_NoneD: "free_slot h = None \<Longrightarrow> i < count \<Longrightarrow> used h i"
  unfolding free_slot_def by (auto dest: find_upt_NoneD)

lemma uniqD: "uniq h \<Longrightarrow> i < count \<Longrightarrow> j < count \<Longrightarrow> used h i \<Longrightarrow> used h j \<Longrightarrow> key h i = key h j \<Longrightarrow> i = j"
  by (auto simp: uniq_def)

lemma lookup_uniq:
  assumes "uniq h" "i < count" "used h i" "key h i = k"
  shows "lookup h k = Some i"
  unfolding lookup_def using assms by (intro find_upt_unique) (auto dest: uniqD)

lemma uniq_put:
  assumes "tab_ok h" "i < count" "entry_ok k v" "uniq h"
    and "\<And>j. j < count \<Longrightarrow> j \<noteq> i \<Longrightarrow> used h j \<Longrightarrow> key h j \<noteq> k"
  shows "uniq (put i k v h)"
  using assms(4,5) by (auto simp: uniq_def used_put [OF assms(1-3)] key_put [OF assms(1-3)])

lemma uniq_erase:
  assumes "tab_ok h" "i < count" "uniq h"
  shows "uniq (erase i h)"
  unfolding uniq_def
proof (intro allI impI)
  fix j l
  assume h: "j < count" "l < count" "used (erase i h) j" "used (erase i h) l"
    "key (erase i h) j = key (erase i h) l"
  then show "j = l"
    using used_erase [OF assms(1,2)] key_erase [OF assms(1,2)] uniqD [OF assms(3), of j l] by auto
qed

lemma lookup_eqI:
  assumes "uniq h'" "\<And>k i. i < count \<Longrightarrow> used h' i \<Longrightarrow> key h' i = k \<Longrightarrow> m k = Some i"
    and "\<And>k i. m k = Some i \<Longrightarrow> i < count \<and> used h' i \<and> key h' i = k"
  shows "lookup h' = m"
proof
  fix k
  show "lookup h' k = m k"
  proof (cases "lookup h' k")
    case None
    then show ?thesis using assms(3) lookup_NoneD [OF None] by (cases "m k") auto
  next
    case (Some i)
    with assms(2) [of i k] lookup_SomeD [OF Some] show ?thesis by auto
  qed
qed

text \<open>Storing a fresh key in a slot extends the dictionary; a used slot is renamed.\<close>

lemma lookup_put:
  assumes t: "tab_ok h" "i < count" "entry_ok k v" and u: "uniq h"
    and fresh: "\<And>j. j < count \<Longrightarrow> j \<noteq> i \<Longrightarrow> used h j \<Longrightarrow> key h j \<noteq> k"
  shows "lookup (put i k v h) =
    (if used h i then (lookup h)(key h i := None, k \<mapsto> i) else (lookup h)(k \<mapsto> i))"
proof (rule lookup_eqI)
  show "uniq (put i k v h)" by (rule uniq_put [OF t u fresh])
next
  fix k' j
  assume j: "j < count" "used (put i k v h) j" "key (put i k v h) j = k'"
  then have c: "j = i \<or> used h j" "k' = (if j = i then k else key h j)"
    using used_put [OF t] key_put [OF t] by auto
  have "lookup h (key h j) = Some j" if "j \<noteq> i" "used h j"
    using that j u by (intro lookup_uniq) auto
  moreover have "key h j \<noteq> key h i" if "j \<noteq> i" "used h i" "used h j"
    using that j t u by (auto dest: uniqD)
  ultimately show "(if used h i then (lookup h)(key h i := None, k \<mapsto> i) else (lookup h)(k \<mapsto> i)) k' = Some j"
    using c fresh [of j] j(1) by auto
next
  fix k' j
  assume a: "(if used h i then (lookup h)(key h i := None, k \<mapsto> i) else (lookup h)(k \<mapsto> i)) k' = Some j"
  show "j < count \<and> used (put i k v h) j \<and> key (put i k v h) j = k'"
  proof (cases "k' = k")
    case True
    with a have "j = i" by (auto split: if_splits)
    with True t used_put [OF t] key_put [OF t] show ?thesis by auto
  next
    case False
    with a have l: "lookup h k' = Some j" and ne: "used h i \<longrightarrow> k' \<noteq> key h i"
      by (auto split: if_splits)
    from lookup_SomeD [OF l] ne have "j \<noteq> i" by auto
    with lookup_SomeD [OF l] used_put [OF t] key_put [OF t] show ?thesis by auto
  qed
qed

lemma lookup_erase:
  assumes t: "tab_ok h" "i < count" and u: "uniq h" and i: "used h i"
  shows "lookup (erase i h) = (lookup h)(key h i := None)"
proof (rule lookup_eqI)
  show "uniq (erase i h)" by (rule uniq_erase [OF t u])
next
  fix k j
  assume j: "j < count" "used (erase i h) j" "key (erase i h) j = k"
  then have c: "j \<noteq> i" "used h j" "key h j = k" using used_erase [OF t] key_erase [OF t] by auto
  with u j t i have "k \<noteq> key h i" by (auto dest: uniqD)
  with lookup_uniq [OF u j(1) c(2,3)] show "((lookup h)(key h i := None)) k = Some j" by simp
next
  fix k j
  assume "((lookup h)(key h i := None)) k = Some j"
  then have l: "lookup h k = Some j" "k \<noteq> key h i" by (auto split: if_splits)
  with lookup_SomeD [OF l(1)] have "j \<noteq> i" by auto
  with lookup_SomeD [OF l(1)] used_erase [OF t] key_erase [OF t]
  show "j < count \<and> used (erase i h) j \<and> key (erase i h) j = k" by auto
qed

end

end
