(* ===== verification/App_Env.thy ===== *)
theory App_Env
  imports Process_Table Slot_Table
begin

text \<open>
  The error code and the environment of the running process, \<^verbatim>\<open>kernel/src/main.rs\<close>: the
  kernel's built-in variables and the per-process overlay of at most 64 overrides, where a removed
  variable is an override marked deleted.  A pointer argument with its length is \<^term>\<open>None\<close>
  when null; for an output buffer only the length matters, and the operations return the bytes they
  store there.
\<close>

section \<open>Model\<close>

definition INPUT_MAX :: nat where "INPUT_MAX = 128"

definition checked_app_slice :: "bytes option \<Rightarrow> bytes option" where
  "checked_app_slice ptr =
     (case ptr of None \<Rightarrow> None | Some bs \<Rightarrow> if bs = [] \<or> length bs > INPUT_MAX then None else Some bs)"

abbreviation cur_proc :: "kernel \<Rightarrow> process" where
  "cur_proc k \<equiv> proc k (current_process_index k)"

abbreviation set_cur :: "process \<Rightarrow> kernel \<Rightarrow> kernel" where
  "set_cur p k \<equiv> set_proc (current_process_index k) p k"

definition set_app_error :: "int \<Rightarrow> kernel \<Rightarrow> int \<times> kernel" where
  "set_app_error error k = (- 1, set_cur ((cur_proc k)\<lparr>p_last_error := error\<rparr>) k)"

definition clear_app_error :: "kernel \<Rightarrow> kernel" where
  "clear_app_error k = set_cur ((cur_proc k)\<lparr>p_last_error := ERR_OK\<rparr>) k"

definition abi_last_error :: "kernel \<Rightarrow> int" where
  "abi_last_error k = p_last_error (cur_proc k)"

definition ENV :: "(bytes \<times> bytes) list" where
  "ENV = [(lit ''PATH'', lit ''programs''), (lit ''HOME'', lit ''/''), (lit ''SHELL'', lit ''rysh''),
     (lit ''USER'', lit ''root''), (lit ''RYMOS_TARGET'', lit ''x86_64-rymos''), (lit ''TMPDIR'', lit ''pfs:tmp'')]"

definition env_key :: "app_env_var \<Rightarrow> bytes" where
  "env_key e = take (ev_key_len e) (ev_key e)"

definition env_value :: "app_env_var \<Rightarrow> bytes" where
  "env_value e = take (ev_value_len e) (ev_value e)"

definition env_matches :: "bytes \<Rightarrow> app_env_var \<Rightarrow> bool" where
  "env_matches key e \<longleftrightarrow> ev_used e \<and> env_key e = key"

definition env_lookup :: "bytes \<Rightarrow> kernel \<Rightarrow> bytes option" where
  "env_lookup key k =
     (case find (env_matches key) (p_env (cur_proc k)) of
        Some e \<Rightarrow> if ev_deleted e then None else Some (env_value e)
      | None \<Rightarrow> map_option snd (find (\<lambda>(env_key, env_value). env_key = key) ENV))"

definition env_overlay_has_key :: "bytes \<Rightarrow> kernel \<Rightarrow> bool" where
  "env_overlay_has_key key k \<longleftrightarrow> list_ex (env_matches key) (p_env (cur_proc k))"

text \<open>The two loops of \<^verbatim>\<open>env_list_entry\<close>; the first returns the count reached when it finds nothing.\<close>

fun list_overlay :: "nat \<Rightarrow> app_env_var list \<Rightarrow> nat \<Rightarrow> nat + bytes \<times> bytes" where
  "list_overlay wanted [] seen = Inl seen"
| "list_overlay wanted (e # es) seen =
     (if ev_used e \<and> \<not> ev_deleted e then
        if seen = wanted then Inr (env_key e, env_value e) else list_overlay wanted es (seen + 1)
      else list_overlay wanted es seen)"

fun list_defaults :: "kernel \<Rightarrow> nat \<Rightarrow> (bytes \<times> bytes) list \<Rightarrow> nat \<Rightarrow> (bytes \<times> bytes) option" where
  "list_defaults k wanted [] seen = None"
| "list_defaults k wanted ((key, value) # rest) seen =
     (if env_overlay_has_key key k then list_defaults k wanted rest seen
      else if seen = wanted then Some (key, value) else list_defaults k wanted rest (seen + 1))"

definition env_list_entry :: "nat \<Rightarrow> kernel \<Rightarrow> (bytes \<times> bytes) option" where
  "env_list_entry wanted k =
     (case list_overlay wanted (p_env (cur_proc k)) 0 of
        Inr found \<Rightarrow> Some found
      | Inl seen \<Rightarrow> list_defaults k wanted ENV seen)"

text \<open>The slot search: the entry with the key, else the first unused one seen, else 64.\<close>

fun env_slot_loop :: "bytes \<Rightarrow> app_env_var list \<Rightarrow> nat list \<Rightarrow> nat \<Rightarrow> nat" where
  "env_slot_loop key env [] slot = slot"
| "env_slot_loop key env (index # rest) slot =
     (if env_matches key (env ! index) then index
      else env_slot_loop key env rest (if slot = APP_ENV_COUNT \<and> \<not> ev_used (env ! index) then index else slot))"

definition env_entry :: "bytes \<Rightarrow> bytes \<Rightarrow> bool \<Rightarrow> app_env_var" where
  "env_entry key val deleted =
     app_env_var_empty\<lparr>ev_used := True, ev_deleted := deleted,
       ev_key_len := length key, ev_key := copy_at (ev_key app_env_var_empty) 0 key,
       ev_value_len := length val, ev_value := copy_at (ev_value app_env_var_empty) 0 val\<rparr>"

definition env_args_ok :: "bytes \<Rightarrow> bytes \<Rightarrow> bool" where
  "env_args_ok key val \<longleftrightarrow> \<not> (key = [] \<or> length key > APP_ENV_KEY_MAX \<or> length val > APP_ENV_VALUE_MAX \<or>
     list_ex (\<lambda>byte. byte = 61 \<or> byte = 0) key)"

definition env_set_overlay :: "bytes \<Rightarrow> bytes \<Rightarrow> bool \<Rightarrow> kernel \<Rightarrow> int \<times> kernel" where
  "env_set_overlay key val deleted k =
     (if \<not> env_args_ok key val then set_app_error ERR_INVAL k
      else
        let env = p_env (cur_proc k); slot = env_slot_loop key env [0..<APP_ENV_COUNT] APP_ENV_COUNT in
        if slot = APP_ENV_COUNT then set_app_error ERR_NOSPC k
        else (0, clear_app_error (set_cur ((cur_proc k)\<lparr>p_env := env[slot := env_entry key val deleted]\<rparr>) k)))"

definition abi_env_get :: "bytes option \<Rightarrow> nat option \<Rightarrow> kernel \<Rightarrow> int \<times> bytes \<times> kernel" where
  "abi_env_get key_ptr value_buf k =
     (case checked_app_slice key_ptr of
        None \<Rightarrow> (case set_app_error ERR_INVAL k of (r, k) \<Rightarrow> (r, [], k))
      | Some key \<Rightarrow>
          (case env_lookup key k of
             None \<Rightarrow> (case set_app_error ERR_NOENT k of (r, k) \<Rightarrow> (r, [], k))
           | Some val \<Rightarrow>
               (case value_buf of
                  None \<Rightarrow> (int (length val), [], clear_app_error k)
                | Some value_len \<Rightarrow>
                    if value_len = 0 then (int (length val), [], clear_app_error k)
                    else
                      let copy_len = min value_len (length val)
                      in (int copy_len, take copy_len val, clear_app_error k))))"

text \<open>The result packs the two lengths: the key's in the upper half, the value's in the lower.\<close>

definition abi_env_list :: "nat \<Rightarrow> nat option \<Rightarrow> nat option \<Rightarrow> kernel \<Rightarrow> int \<times> bytes \<times> bytes \<times> kernel" where
  "abi_env_list index key_buf value_buf k =
     (case (key_buf, value_buf) of
        (Some key_len, Some value_len) \<Rightarrow>
          (case env_list_entry index k of
             None \<Rightarrow> (case set_app_error ERR_NOENT k of (r, k) \<Rightarrow> (r, [], [], k))
           | Some (key, val) \<Rightarrow>
               let key_copy = min key_len (length key); value_copy = min value_len (length val)
               in (or (push_bit 32 (int key_copy)) (int value_copy), take key_copy key, take value_copy val, clear_app_error k))
      | _ \<Rightarrow> (case set_app_error ERR_INVAL k of (r, k) \<Rightarrow> (r, [], [], k)))"

definition abi_env_set :: "bytes option \<Rightarrow> bytes option \<Rightarrow> kernel \<Rightarrow> int \<times> kernel" where
  "abi_env_set key_ptr value_ptr k =
     (case checked_app_slice key_ptr of
        None \<Rightarrow> set_app_error ERR_INVAL k
      | Some key \<Rightarrow>
          (case checked_app_slice value_ptr of
             None \<Rightarrow> set_app_error ERR_INVAL k
           | Some val \<Rightarrow> env_set_overlay key val False k))"

definition abi_env_remove :: "bytes option \<Rightarrow> kernel \<Rightarrow> int \<times> kernel" where
  "abi_env_remove key_ptr k =
     (case checked_app_slice key_ptr of
        None \<Rightarrow> set_app_error ERR_INVAL k
      | Some key \<Rightarrow> env_set_overlay key [] True k)"

section \<open>The overlay as a slot table\<close>

definition env_tab_ok :: "app_env_var list \<Rightarrow> bool" where
  "env_tab_ok env \<longleftrightarrow> length env = 64 \<and>
     list_all (\<lambda>e. length (ev_key e) = 24 \<and> ev_key_len e \<le> 24 \<and> length (ev_value e) = 96 \<and> ev_value_len e \<le> 96) env"

interpretation env: slot_table 64 env_tab_ok "\<lambda>env i. ev_used (env ! i)" "\<lambda>env i. env_key (env ! i)"
  "\<lambda>i key v env. env[i := env_entry key (fst v) (snd v)]" "\<lambda>i env. env[i := app_env_var_empty]"
  "\<lambda>key v. env_args_ok key (fst v)"
proof unfold_locales
  fix h :: "app_env_var list" and i j :: nat and k :: bytes and v :: "bytes \<times> bool"
  assume h: "env_tab_ok h" "i < 64" and a: "env_args_ok k (fst v)"
  have len: "length h = 64" using h(1) by (simp add: env_tab_ok_def)
  have l: "length k \<le> 24" "length (fst v) \<le> 96" using a by (auto simp: env_args_ok_def)
  show "env_tab_ok (h[i := env_entry k (fst v) (snd v)])"
    using h l by (auto simp: env_tab_ok_def env_entry_def app_env_var_empty_def list_all_length nth_list_update)
  assume j: "j < 64"
  show "ev_used (h[i := env_entry k (fst v) (snd v)] ! j) = (j = i \<or> ev_used (h ! j))"
    using h j len by (auto simp: nth_list_update env_entry_def)
  show "env_key (h[i := env_entry k (fst v) (snd v)] ! j) = (if j = i then k else env_key (h ! j))"
    using h j l len by (auto simp: nth_list_update env_entry_def env_key_def app_env_var_empty_def copy_at_prefix)
qed (auto simp: env_tab_ok_def list_all_length nth_list_update app_env_var_empty_def)

section \<open>The environment as a dictionary\<close>

definition env_of :: "kernel \<Rightarrow> app_env_var list" where
  "env_of k = p_env (cur_proc k)"

definition env_ok :: "kernel \<Rightarrow> bool" where
  "env_ok k \<longleftrightarrow> table_ok k \<and> env_tab_ok (env_of k) \<and> env.uniq (env_of k)"

lemma find_nth: "find P xs = map_option ((!) xs) (find (\<lambda>i. P (xs ! i)) [0..<length xs])"
proof (cases "find (\<lambda>i. P (xs ! i)) [0..<length xs]")
  case None
  then have "find P xs = None" by (auto simp: find_None_iff in_set_conv_nth)
  with None show ?thesis by simp
next
  case (Some i)
  with find_upt_SomeD [OF Some] have "find P xs = Some (xs ! i)" by (auto simp: find_Some_iff)
  with Some show ?thesis by simp
qed

lemma env_find:
  assumes "env_tab_ok env"
  shows "find (env_matches key) env = map_option ((!) env) (env.lookup env key)"
  using assms by (subst find_nth) (simp add: env.lookup_def env_matches_def env_tab_ok_def)

lemma env_lookup_eq:
  assumes "env_tab_ok (env_of k)"
  shows "env_lookup key k =
    (case env.lookup (env_of k) key of
       Some i \<Rightarrow> if ev_deleted (env_of k ! i) then None else Some (env_value (env_of k ! i))
     | None \<Rightarrow> map_of ENV key)"
proof -
  have "map_option snd (find (\<lambda>(env_key, env_value). env_key = key) l) = map_of l key" for l :: "(bytes \<times> bytes) list"
    by (induction l) auto
  then show ?thesis using env_find [OF assms] by (auto simp: env_lookup_def env_of_def split: option.splits)
qed

lemma overlay_lookup:
  assumes "env_tab_ok (env_of k)"
  shows "env_overlay_has_key key k \<longleftrightarrow> env.lookup (env_of k) key \<noteq> None"
proof -
  have "env_overlay_has_key key k \<longleftrightarrow> find (env_matches key) (env_of k) \<noteq> None"
    unfolding find_None_iff by (auto simp: env_overlay_has_key_def env_of_def list_ex_iff)
  with env_find [OF assms, of key] show ?thesis by simp
qed

lemma slot_loop_eq:
  "env_slot_loop key env is slot =
    (case find (\<lambda>i. env_matches key (env ! i)) is of
       Some i \<Rightarrow> i
     | None \<Rightarrow> if slot = 64 then (case find (\<lambda>i. \<not> ev_used (env ! i)) is of Some i \<Rightarrow> i | None \<Rightarrow> 64) else slot)"
  if "64 \<notin> set is"
  using that by (induction "is" arbitrary: slot) (auto split: option.splits)

lemma env_slot_cases [consumes 1, case_names found fresh full]:
  assumes "slot = env_slot_loop key env [0..<64] 64"
  obtains "env.lookup env key = Some slot" "slot < 64"
  | "env.lookup env key = None" "env.free_slot env = Some slot" "slot < 64"
  | "env.lookup env key = None" "env.free_slot env = None" "slot = 64"
proof -
  have s: "slot = (case env.lookup env key of Some i \<Rightarrow> i
      | None \<Rightarrow> (case env.free_slot env of Some i \<Rightarrow> i | None \<Rightarrow> 64))"
    unfolding assms env.lookup_def env.free_slot_def by (subst slot_loop_eq) (simp_all add: env_matches_def)
  show ?thesis
  proof (cases "env.lookup env key")
    case None
    show ?thesis
    proof (cases "env.free_slot env")
      case None2: None
      with s None show ?thesis by (intro that(3)) auto
    next
      case (Some i)
      with s None env.free_slot_SomeD(1) [OF Some] show ?thesis by (intro that(2)) auto
    qed
  next
    case (Some i)
    with s env.lookup_SomeD(1) [OF Some] show ?thesis by (intro that(1)) auto
  qed
qed

lemma env_entry_sel [simp]:
  "ev_used (env_entry key val del)" "ev_deleted (env_entry key val del) = del"
  "env_args_ok key val \<Longrightarrow> env_value (env_entry key val del) = val"
  by (auto simp: env_entry_def env_value_def env_args_ok_def app_env_var_empty_def copy_at_prefix)

lemma env_put:
  assumes ok: "env_tab_ok env" "env.uniq env" and a: "env_args_ok key val"
    and s: "slot = env_slot_loop key env [0..<64] 64" "slot < 64"
  shows "env_tab_ok (env[slot := env_entry key val del])" "env.uniq (env[slot := env_entry key val del])"
    "env.lookup (env[slot := env_entry key val del]) = (env.lookup env)(key \<mapsto> slot)"
proof -
  let ?e = "env[slot := env_entry key val del]"
  have fresh: "env_key (env ! j) \<noteq> key" if "j < 64" "j \<noteq> slot" "ev_used (env ! j)" for j
    using s(1)
  proof (cases rule: env_slot_cases)
    case found
    with that env.lookup_uniq [OF ok(2) that(1,3)] show ?thesis by auto
  next
    case fresh
    with that env.lookup_NoneD show ?thesis by auto
  next
    case full
    with s(2) show ?thesis by simp
  qed
  note e = env.put_ok [OF ok(1) s(2), of key "(val, del)"] env.uniq_put [OF ok(1) s(2) _ ok(2), of key "(val, del)"]
    env.lookup_put [OF ok(1) s(2) _ ok(2), of key "(val, del)"]
  show "env_tab_ok ?e" using e(1) a by simp
  show "env.uniq ?e" using e(2) a fresh by simp
  have l: "env.lookup ?e = (if ev_used (env ! slot) then (env.lookup env)(env_key (env ! slot) := None, key \<mapsto> slot)
      else (env.lookup env)(key \<mapsto> slot))"
    using e(3) a fresh by simp
  have "env_key (env ! slot) = key" if "ev_used (env ! slot)"
    using s(1)
  proof (cases rule: env_slot_cases)
    case found
    then show ?thesis using env.lookup_SomeD(3) by auto
  next
    case fresh
    then show ?thesis using env.free_slot_SomeD(2) that by auto
  next
    case full
    with s(2) show ?thesis by simp
  qed
  with l show "env.lookup ?e = (env.lookup env)(key \<mapsto> slot)" by auto
qed

lemma env_lookup_put:
  assumes ok: "env_tab_ok (env_of k)" "env.uniq (env_of k)" and a: "env_args_ok key val"
    and s: "slot = env_slot_loop key (env_of k) [0..<64] 64" "slot < 64"
    and e': "env_of k' = (env_of k)[slot := env_entry key val del]"
  shows "env_lookup q k' = (if q = key then if del then None else Some val else env_lookup q k)"
proof -
  note p = env_put [OF ok a s, of del, folded e']
  show ?thesis
  proof (cases "q = key")
    case True
    then show ?thesis using s(2) a ok(1) by (simp add: env_lookup_eq [OF p(1)] p(3)) (simp add: e' env_tab_ok_def)
  next
    case False
    have "j \<noteq> slot" if "env.lookup (env_of k) q = Some j" for j
    proof
      assume "j = slot"
      with env.lookup_SomeD [OF that] have "ev_used (env_of k ! slot)" "env_key (env_of k ! slot) = q" by auto
      with s(1) False show False
        by (cases rule: env_slot_cases) (use env.lookup_SomeD(3) env.free_slot_SomeD(2) s(2) in auto)
    qed
    with False show ?thesis unfolding env_lookup_eq [OF p(1)] env_lookup_eq [OF ok(1)] p(3)
      by (auto simp: e' split: option.splits)
  qed
qed

lemma process_ok_error [simp]: "process_ok (p\<lparr>p_last_error := e\<rparr>) = process_ok p"
  by (simp add: process_ok_def)

lemma process_ok_env: "process_ok p \<Longrightarrow> length env = 64 \<Longrightarrow> process_ok (p\<lparr>p_env := env\<rparr>)"
  by (simp add: process_ok_def)

lemma set_app_error_facts:
  assumes "table_ok k" "set_app_error e k = (r, k')"
  shows "table_ok k'" "r = - 1" "abi_last_error k' = e" "current_process_index k' = current_process_index k"
    "proc k' i = (if i = current_process_index k then (proc k i)\<lparr>p_last_error := e\<rparr> else proc k i)"
proof -
  have i: "current_process_index k < length (process_table k)" "current_process_index k \<le> 16" using assms(1) by (simp_all add: table_ok_def)
  have k': "r = - 1" "k' = set_cur ((cur_proc k)\<lparr>p_last_error := e\<rparr>) k" using assms(2) by (auto simp: set_app_error_def)
  show "table_ok k'" unfolding k' by (rule table_ok_set_proc [OF assms(1)]) (simp add: table_ok_proc [OF assms(1) i(2)])
  show "r = - 1" by (rule k')
  show "abi_last_error k' = e" "current_process_index k' = current_process_index k"
    "proc k' i = (if i = current_process_index k then (proc k i)\<lparr>p_last_error := e\<rparr> else proc k i)"
    using i by (simp_all add: k' abi_last_error_def proc_set_proc)
qed

lemma clear_app_error_facts:
  assumes "table_ok k"
  shows "table_ok (clear_app_error k)" "abi_last_error (clear_app_error k) = 0"
    "current_process_index (clear_app_error k) = current_process_index k"
    "proc (clear_app_error k) i = (if i = current_process_index k then (proc k i)\<lparr>p_last_error := 0\<rparr> else proc k i)"
proof -
  have "set_app_error 0 k = (- 1, clear_app_error k)" by (simp add: set_app_error_def clear_app_error_def)
  note set_app_error_facts [OF assms this]
  then show "table_ok (clear_app_error k)" "abi_last_error (clear_app_error k) = 0"
    "current_process_index (clear_app_error k) = current_process_index k"
    "proc (clear_app_error k) i = (if i = current_process_index k then (proc k i)\<lparr>p_last_error := 0\<rparr> else proc k i)"
    by auto
qed

lemma env_ok_cong:
  assumes "env_ok k" "table_ok k'" "env_of k' = env_of k"
  shows "env_ok k'" "env_lookup q k' = env_lookup q k"
  using assms by (auto simp: env_ok_def env_lookup_def env_of_def)

section \<open>Properties\<close>

lemma env_set_overlay_spec:
  assumes "env_ok k" "env_set_overlay key val del k = (r, k')"
  shows "env_ok k' \<and> (\<forall>i. i \<noteq> current_process_index k \<longrightarrow> proc k' i = proc k i) \<and>
    (if \<not> env_args_ok key val then r = - 1 \<and> abi_last_error k' = 22 \<and> (\<forall>q. env_lookup q k' = env_lookup q k)
     else if \<not> env_overlay_has_key key k \<and> list_all ev_used (env_of k)
     then r = - 1 \<and> abi_last_error k' = 28 \<and> (\<forall>q. env_lookup q k' = env_lookup q k)
     else r = 0 \<and> abi_last_error k' = 0 \<and>
       (\<lambda>q. env_lookup q k') = (\<lambda>q. env_lookup q k)(key := if del then None else Some val))"
proof -
  have tab: "table_ok k" and eok: "env_tab_ok (env_of k)" and uniq: "env.uniq (env_of k)" using assms(1) by (simp_all add: env_ok_def)
  have i: "current_process_index k < length (process_table k)" "current_process_index k \<le> 16" using tab by (simp_all add: table_ok_def)
  let ?c = "current_process_index k"
  define slot where "slot = env_slot_loop key (env_of k) [0..<64] 64"
  have len: "length (env_of k) = 64" using eok by (simp add: env_tab_ok_def)
  have full: "\<not> env_overlay_has_key key k \<and> list_all ev_used (env_of k) \<longleftrightarrow> slot = 64"
  proof -
    note h = overlay_lookup [OF eok, of key]
    have u: "list_all ev_used (env_of k) \<longleftrightarrow> env.free_slot (env_of k) = None"
      by (simp add: env.free_slot_def find_upt_None list_all_length len)
    show ?thesis unfolding h u by (rule env_slot_cases [OF slot_def]) auto
  qed
  have err: "env_ok k1 \<and> (\<forall>i. i \<noteq> ?c \<longrightarrow> proc k1 i = proc k i) \<and> r1 = - 1 \<and> abi_last_error k1 = e \<and> (\<forall>q. env_lookup q k1 = env_lookup q k)"
    if "set_app_error e k = (r1, k1)" for e r1 k1
    using set_app_error_facts [OF tab that] env_ok_cong [OF assms(1), of k1] by (auto simp: env_of_def)
  consider "\<not> env_args_ok key val" | "env_args_ok key val" "slot = 64" | "env_args_ok key val" "slot < 64"
    using env_slot_cases [OF slot_def, of thesis] by blast
  then show ?thesis
  proof cases
    case 1
    with assms(2) have "set_app_error 22 k = (r, k')" by (simp add: env_set_overlay_def)
    from err [OF this] 1 show ?thesis by simp
  next
    case 2
    with assms(2) have "set_app_error 28 k = (r, k')" by (simp add: env_set_overlay_def Let_def slot_def env_of_def)
    from err [OF this] 2 full show ?thesis by simp
  next
    case 3
    let ?k1 = "set_cur ((cur_proc k)\<lparr>p_env := (env_of k)[slot := env_entry key val del]\<rparr>) k"
    have k': "r = 0" "k' = clear_app_error ?k1" using assms(2) 3 by (auto simp: env_set_overlay_def Let_def slot_def env_of_def)
    have t1: "table_ok ?k1"
      by (rule table_ok_set_proc [OF tab process_ok_env [OF table_ok_proc [OF tab i(2)]]]) (simp add: len)
    note f = clear_app_error_facts [OF t1]
    have e': "env_of k' = (env_of k)[slot := env_entry key val del]" using i f(3) f(4) [of ?c] by (simp add: env_of_def [of "clear_app_error ?k1"] k'(2))
    note p = env_put [OF eok uniq 3(1) slot_def 3(2), of del, folded e']
    note look = env_lookup_put [OF eok uniq 3(1) slot_def 3(2) e']
    have "env_ok k'" using p(1,2) f(1) by (simp add: env_ok_def k')
    moreover have "proc k' j = proc k j" if "j \<noteq> ?c" for j using that by (simp add: k' f(4))
    ultimately show ?thesis using 3 full f(2) look by (auto simp: k' fun_eq_iff)
  qed
qed

text \<open>
  The environment behaves as a dictionary: a successful set or removal changes the value of that
  key only, for that process only; an invalid key or value, or a full overlay, is refused with the
  matching error code and changes nothing.
\<close>

theorem env_set_overlay_correct:
  assumes "env_ok k" "env_set_overlay key val del k = (r, k')"
  shows "env_ok k' \<and> (\<forall>i. i \<noteq> current_process_index k \<longrightarrow> proc k' i = proc k i) \<and>
    (if \<not> env_args_ok key val then r = - 1 \<and> abi_last_error k' = 22 \<and> (\<forall>q. env_lookup q k' = env_lookup q k)
     else if \<not> env_overlay_has_key key k \<and> list_all ev_used (env_of k)
     then r = - 1 \<and> abi_last_error k' = 28 \<and> (\<forall>q. env_lookup q k' = env_lookup q k)
     else r = 0 \<and> abi_last_error k' = 0 \<and>
       (\<lambda>q. env_lookup q k') = (\<lambda>q. env_lookup q k)(key := if del then None else Some val))"
  by (rule env_set_overlay_spec [OF assms])

text \<open>The two listing loops as indexing into one list.\<close>

definition env_listing :: "kernel \<Rightarrow> (bytes \<times> bytes) list" where
  "env_listing k = map (\<lambda>e. (env_key e, env_value e)) (filter (\<lambda>e. ev_used e \<and> \<not> ev_deleted e) (env_of k)) @
     filter (\<lambda>(key, val). \<not> env_overlay_has_key key k) ENV"

lemma list_overlay_nth:
  "seen \<le> wanted \<Longrightarrow> list_overlay wanted es seen =
    (let xs = map (\<lambda>e. (env_key e, env_value e)) (filter (\<lambda>e. ev_used e \<and> \<not> ev_deleted e) es) in
     if wanted - seen < length xs then Inr (xs ! (wanted - seen)) else Inl (seen + length xs))"
  by (induction es arbitrary: seen) (auto simp: Let_def nth_Cons' Suc_diff_Suc)

lemma list_defaults_nth:
  "seen \<le> wanted \<Longrightarrow> list_defaults k wanted l seen =
    (let xs = filter (\<lambda>(key, val). \<not> env_overlay_has_key key k) l in
     if wanted - seen < length xs then Some (xs ! (wanted - seen)) else None)"
  by (induction l arbitrary: seen) (auto simp: Let_def nth_Cons' Suc_diff_Suc)

lemma env_list_entry_nth:
  "env_list_entry wanted k = (if wanted < length (env_listing k) then Some (env_listing k ! wanted) else None)"
  by (auto simp: env_list_entry_def list_overlay_nth list_defaults_nth env_listing_def env_of_def Let_def nth_append)

lemma ENV_keys: "distinct (map fst ENV)"
  by (simp add: ENV_def lit_def)

lemma env_listing_lookup:
  assumes ok: "env_ok k"
  shows "(key, val) \<in> set (env_listing k) \<longleftrightarrow> env_lookup key k = Some val"
proof -
  have eok: "env_tab_ok (env_of k)" and uniq: "env.uniq (env_of k)" using ok by (simp_all add: env_ok_def)
  have len: "length (env_of k) = 64" using eok by (simp add: env_tab_ok_def)
  have look: "env.lookup (env_of k) key = Some i \<longleftrightarrow> i < 64 \<and> env_matches key (env_of k ! i)" for i
    using env.lookup_uniq [OF uniq, of i key] env.lookup_SomeD [of "env_of k" key i] by (auto simp: env_matches_def)
  have 1: "(key, val) \<in> (\<lambda>e. (env_key e, env_value e)) ` {e \<in> set (env_of k). ev_used e \<and> \<not> ev_deleted e} \<longleftrightarrow>
      (\<exists>i. env.lookup (env_of k) key = Some i \<and> \<not> ev_deleted (env_of k ! i) \<and> env_value (env_of k ! i) = val)"
    unfolding look by (force simp: in_set_conv_nth len env_matches_def)
  have 2: "(key, val) \<in> set ENV \<longleftrightarrow> map_of ENV key = Some val" using ENV_keys by simp
  show ?thesis
    by (cases "env.lookup (env_of k) key")
      (auto simp: env_listing_def 1 2 env_lookup_eq [OF eok] overlay_lookup [OF eok] simp del: image_iff)
qed

lemma distinct_map_filter:
  assumes "\<And>i j. i < length l \<Longrightarrow> j < length l \<Longrightarrow> P (l ! i) \<Longrightarrow> P (l ! j) \<Longrightarrow> f (l ! i) = f (l ! j) \<Longrightarrow> i = j"
  shows "distinct (map f (filter P l))"
  using assms
proof (induction l)
  case (Cons a l)
  have "f a \<noteq> f e" if "P a" "P e" "e \<in> set l" for e
    using that Cons.prems [of 0] by (fastforce simp: in_set_conv_nth)
  moreover have "distinct (map f (filter P l))"
    by (rule Cons.IH) (use Cons.prems [of "Suc _" "Suc _"] in auto)
  ultimately show ?case by auto
qed simp

lemma env_listing_keys:
  assumes ok: "env_ok k"
  shows "distinct (map fst (env_listing k))"
proof -
  have eok: "env_tab_ok (env_of k)" and uniq: "env.uniq (env_of k)" using ok by (simp_all add: env_ok_def)
  have len: "length (env_of k) = 64" using eok by (simp add: env_tab_ok_def)
  have 1: "distinct (map env_key (filter (\<lambda>e. ev_used e \<and> \<not> ev_deleted e) (env_of k)))"
    by (rule distinct_map_filter) (use env.uniqD [OF uniq] len in auto)
  have 2: "distinct (map fst (filter (\<lambda>(key, val). \<not> env_overlay_has_key key k) ENV))"
    using ENV_keys by (intro distinct_map_filter) (auto simp: distinct_conv_nth)
  have "env_overlay_has_key (env_key e) k" if "e \<in> set (env_of k)" "ev_used e" for e
    using that by (auto simp: env_overlay_has_key_def list_ex_iff env_of_def env_matches_def)
  then show ?thesis using 1 2 by (auto simp: env_listing_def comp_def)
qed

text \<open>
  Listing the environment by position enumerates it: the entries returned for positions 0, 1,
  2, ... are exactly the variables a lookup finds, with their values, each name once, with no gap
  before the end.
\<close>

theorem env_list_complete:
  assumes "env_ok k"
  shows "{(key, val). \<exists>w. env_list_entry w k = Some (key, val)} = {(key, val). env_lookup key k = Some val} \<and>
    (\<exists>n. (\<forall>w. env_list_entry w k \<noteq> None \<longleftrightarrow> w < n) \<and> inj_on (\<lambda>w. fst (the (env_list_entry w k))) {..<n})"
proof -
  have "(\<exists>w. env_list_entry w k = Some (key, val)) \<longleftrightarrow> (key, val) \<in> set (env_listing k)" for key val
    by (auto simp: env_list_entry_nth in_set_conv_nth)
  moreover have "inj_on (\<lambda>w. fst (the (env_list_entry w k))) {..<length (env_listing k)}"
    using env_listing_keys [OF assms] by (auto simp: env_list_entry_nth inj_on_def distinct_conv_nth)
  ultimately show ?thesis
    using env_listing_lookup [OF assms] by (auto intro!: exI [of _ "length (env_listing k)"] simp: env_list_entry_nth)
qed

text \<open>The idle context right after start-up.\<close>

lemma demo_env_ok: "env_ok demo_state"
proof -
  have "env_of demo_state = replicate 64 app_env_var_empty" by (simp add: env_of_def demo_state_def process_empty_def)
  moreover have "\<not> ev_used app_env_var_empty" by (simp add: app_env_var_empty_def)
  ultimately show ?thesis using demo_state_ok(1)
    by (auto simp: env_ok_def env_tab_ok_def env.uniq_def list_all_iff app_env_var_empty_def)
qed

theorem env_set_overlay_correct_witness:
  "\<exists>k'. env_set_overlay (lit ''HOME'') (lit ''pfs:tmp'') False demo_state = (0, k') \<and>
     env_lookup (lit ''HOME'') k' = Some (lit ''pfs:tmp'') \<and> env_lookup (lit ''USER'') k' = env_lookup (lit ''USER'') demo_state"
proof -
  obtain r k' where e: "env_set_overlay (lit ''HOME'') (lit ''pfs:tmp'') False demo_state = (r, k')" by force
  have a: "env_args_ok (lit ''HOME'') (lit ''pfs:tmp'')" by (simp add: env_args_ok_def lit_def)
  have "\<not> list_all ev_used (env_of demo_state)"
    by (simp add: env_of_def demo_state_def process_empty_def list_all_iff app_env_var_empty_def)
  with env_set_overlay_correct [OF demo_env_ok e] a
  have r: "r = 0" and l: "(\<lambda>q. env_lookup q k') = (\<lambda>q. env_lookup q demo_state)(lit ''HOME'' := Some (lit ''pfs:tmp''))" by auto
  have "lit ''USER'' \<noteq> lit ''HOME''" by (simp add: lit_def)
  with fun_cong [OF l, of "lit ''HOME''"] fun_cong [OF l, of "lit ''USER''"]
  have "env_lookup (lit ''HOME'') k' = Some (lit ''pfs:tmp'')" "env_lookup (lit ''USER'') k' = env_lookup (lit ''USER'') demo_state"
    by (simp_all only: fun_upd_apply if_True if_False simp_thms)
  with e r show ?thesis by blast
qed

theorem env_list_complete_witness:
  "{(key, val). \<exists>w. env_list_entry w demo_state = Some (key, val)} = {(key, val). env_lookup key demo_state = Some val}"
  using env_list_complete [OF demo_env_ok] by blast

end
