(* ===== verification/Pfs_Layout.thy ===== *)
theory Pfs_Layout
  imports Byte_Strings Slot_Table
begin

text \<open>
  The on-disk directory of RYMFS (format RYMFS5), \<^verbatim>\<open>kernel/src/main.rs\<close>: the header
  is one byte array of 77 sectors holding 256 entries of 152 bytes, and every field is read and
  written by byte offset.  The main lemma is \<open>pfs_set_entry_layout\<close>: writing an entry
  replaces exactly its 152-byte record, from which each accessor's value after a write follows.
  The header interprets \<open>slot_table\<close> with entry names as keys.
\<close>

section \<open>Constants\<close>

definition PFS_KIND_FILE :: u8 where "PFS_KIND_FILE = 1"
definition PFS_KIND_DIR :: u8 where "PFS_KIND_DIR = 2"
definition PFS_MAX_EXTENTS :: nat where "PFS_MAX_EXTENTS = 4"
definition PFS_EXTENT_ENTRY_SIZE :: nat where "PFS_EXTENT_ENTRY_SIZE = 8"
definition PFS_EXTENT_COUNT_OFFSET :: nat where "PFS_EXTENT_COUNT_OFFSET = 6"
definition PFS_EXTENTS_OFFSET :: nat where "PFS_EXTENTS_OFFSET = 7"
definition PFS_EXTENTS_BYTES :: nat where "PFS_EXTENTS_BYTES = PFS_MAX_EXTENTS * PFS_EXTENT_ENTRY_SIZE"
definition PFS_CREATED_OFFSET :: nat where "PFS_CREATED_OFFSET = PFS_EXTENTS_OFFSET + PFS_EXTENTS_BYTES"
definition PFS_MODIFIED_OFFSET :: nat where "PFS_MODIFIED_OFFSET = PFS_CREATED_OFFSET + 8"
definition PFS_MODE_OFFSET :: nat where "PFS_MODE_OFFSET = PFS_MODIFIED_OFFSET + 8"
definition PFS_NAME_OFFSET :: nat where "PFS_NAME_OFFSET = PFS_MODE_OFFSET + 1"
definition PFS_NAME_MAX :: nat where "PFS_NAME_MAX = 96"
definition PFS_ENTRY_SIZE :: nat where "PFS_ENTRY_SIZE = PFS_NAME_OFFSET + PFS_NAME_MAX"
definition PFS_ENTRY_COUNT :: nat where "PFS_ENTRY_COUNT = 256"
definition PFS_HEADER_SECTORS :: nat where
  "PFS_HEADER_SECTORS = (16 + PFS_ENTRY_COUNT * PFS_ENTRY_SIZE + 511) div 512"
definition PFS_HEADER_BYTES :: nat where "PFS_HEADER_BYTES = PFS_HEADER_SECTORS * 512"
definition PFS_MODE_DEFAULT_FILE :: u8 where "PFS_MODE_DEFAULT_FILE = 0b001 OR 0b010"
definition PFS_MODE_DEFAULT_DIR :: u8 where "PFS_MODE_DEFAULT_DIR = 0b001 OR 0b010 OR 0b100"

lemma pfs_consts [simp]:
  "PFS_MAX_EXTENTS = 4" "PFS_EXTENT_ENTRY_SIZE = 8" "PFS_EXTENT_COUNT_OFFSET = 6"
  "PFS_EXTENTS_OFFSET = 7" "PFS_CREATED_OFFSET = 39" "PFS_MODIFIED_OFFSET = 47"
  "PFS_MODE_OFFSET = 55" "PFS_NAME_OFFSET = 56" "PFS_NAME_MAX = 96" "PFS_ENTRY_SIZE = 152"
  "PFS_ENTRY_COUNT = 256" "PFS_HEADER_SECTORS = 77" "PFS_HEADER_BYTES = 39424"
  by (simp_all add: PFS_MAX_EXTENTS_def PFS_EXTENT_ENTRY_SIZE_def PFS_EXTENT_COUNT_OFFSET_def
      PFS_EXTENTS_OFFSET_def PFS_EXTENTS_BYTES_def PFS_CREATED_OFFSET_def PFS_MODIFIED_OFFSET_def
      PFS_MODE_OFFSET_def PFS_NAME_OFFSET_def PFS_NAME_MAX_def PFS_ENTRY_SIZE_def
      PFS_ENTRY_COUNT_def PFS_HEADER_SECTORS_def PFS_HEADER_BYTES_def)

section \<open>Accessors\<close>

record pfs_extent =
  ext_start :: u32
  ext_sectors :: u32

definition pfs_entry_offset :: "nat \<Rightarrow> nat" where
  "pfs_entry_offset index = 16 + index * PFS_ENTRY_SIZE"

definition pfs_entry_used :: "bytes \<Rightarrow> nat \<Rightarrow> bool" where
  "pfs_entry_used header index \<longleftrightarrow> header ! pfs_entry_offset index \<noteq> 0"

definition pfs_entry_is_dir :: "bytes \<Rightarrow> nat \<Rightarrow> bool" where
  "pfs_entry_is_dir header index \<longleftrightarrow> header ! pfs_entry_offset index = PFS_KIND_DIR"

definition pfs_entry_kind :: "bytes \<Rightarrow> nat \<Rightarrow> u8" where
  "pfs_entry_kind header index = header ! pfs_entry_offset index"

definition pfs_entry_name :: "bytes \<Rightarrow> nat \<Rightarrow> bytes" where
  "pfs_entry_name header index =
     (let offset = pfs_entry_offset index; len = unat (header ! (offset + 1)) in
      subslice header (offset + PFS_NAME_OFFSET) (offset + PFS_NAME_OFFSET + len))"

definition pfs_entry_size :: "bytes \<Rightarrow> nat \<Rightarrow> nat" where
  "pfs_entry_size header index =
     (let offset = pfs_entry_offset index in
      unat (read_le32_from_slice (subslice header (offset + 2) (offset + 6))))"

definition pfs_entry_extent_count :: "bytes \<Rightarrow> nat \<Rightarrow> nat" where
  "pfs_entry_extent_count header index =
     min (unat (header ! (pfs_entry_offset index + PFS_EXTENT_COUNT_OFFSET))) PFS_MAX_EXTENTS"

definition pfs_entry_extent :: "bytes \<Rightarrow> nat \<Rightarrow> nat \<Rightarrow> pfs_extent" where
  "pfs_entry_extent header index slot =
     (let offset = pfs_entry_offset index + PFS_EXTENTS_OFFSET + slot * PFS_EXTENT_ENTRY_SIZE in
      \<lparr>ext_start = read_le32_from_slice (subslice header offset (offset + 4)),
       ext_sectors = read_le32_from_slice (subslice header (offset + 4) (offset + 8))\<rparr>)"

definition pfs_entry_created :: "bytes \<Rightarrow> nat \<Rightarrow> u64" where
  "pfs_entry_created header index =
     (let offset = pfs_entry_offset index + PFS_CREATED_OFFSET in
      read_le64_from_slice (subslice header offset (offset + 8)))"

definition pfs_entry_modified :: "bytes \<Rightarrow> nat \<Rightarrow> u64" where
  "pfs_entry_modified header index =
     (let offset = pfs_entry_offset index + PFS_MODIFIED_OFFSET in
      read_le64_from_slice (subslice header offset (offset + 8)))"

definition pfs_entry_mode :: "bytes \<Rightarrow> nat \<Rightarrow> u8" where
  "pfs_entry_mode header index = header ! (pfs_entry_offset index + PFS_MODE_OFFSET)"

section \<open>Writers\<close>

text \<open>\<open>now\<close> stands for the value of \<^verbatim>\<open>ns_since_boot()\<close> read by the function.\<close>

definition pfs_touch_modified :: "u64 \<Rightarrow> nat \<Rightarrow> bytes \<Rightarrow> bytes" where
  "pfs_touch_modified now index header =
     copy_at header (pfs_entry_offset index + PFS_MODIFIED_OFFSET) (to_le_bytes64 now)"

fun write_extents :: "bytes \<Rightarrow> nat \<Rightarrow> nat \<Rightarrow> pfs_extent list \<Rightarrow> bytes" where
  "write_extents header offset slot [] = header"
| "write_extents header offset slot (e # es) =
     (let extent_offset = offset + PFS_EXTENTS_OFFSET + slot * PFS_EXTENT_ENTRY_SIZE in
      write_extents
        (copy_at (copy_at header extent_offset (to_le_bytes32 (ext_start e)))
           (extent_offset + 4) (to_le_bytes32 (ext_sectors e)))
        offset (slot + 1) es)"

definition pfs_set_entry ::
  "u64 \<Rightarrow> bytes \<Rightarrow> nat \<Rightarrow> bytes \<Rightarrow> nat \<Rightarrow> u8 \<Rightarrow> pfs_extent list \<Rightarrow> u64 \<Rightarrow> u8 \<Rightarrow> bytes" where
  "pfs_set_entry now header index name fsize kind extents created_ticks mode =
     (let offset = pfs_entry_offset index;
          h0 = copy_at header offset (replicate PFS_ENTRY_SIZE 0);
          h1 = h0[offset := kind];
          h2 = h1[offset + 1 := of_nat (length name)];
          h3 = copy_at h2 (offset + 2) (to_le_bytes32 (of_nat fsize));
          h4 = h3[offset + PFS_EXTENT_COUNT_OFFSET := of_nat (min (length extents) PFS_MAX_EXTENTS)];
          h5 = write_extents h4 offset 0 (take PFS_MAX_EXTENTS extents);
          h6 = copy_at h5 (offset + PFS_CREATED_OFFSET) (to_le_bytes64 created_ticks);
          h7 = copy_at h6 (offset + PFS_MODIFIED_OFFSET) (to_le_bytes64 now);
          h8 = h7[offset + PFS_MODE_OFFSET := mode]
      in copy_at h8 (offset + PFS_NAME_OFFSET) name)"

definition pfs_clear_entry :: "nat \<Rightarrow> bytes \<Rightarrow> bytes" where
  "pfs_clear_entry index header =
     copy_at header (pfs_entry_offset index) (replicate PFS_ENTRY_SIZE 0)"

definition pfs_format_header :: bytes where
  "pfs_format_header =
     (let h0 = replicate PFS_HEADER_BYTES 0;
          h1 = copy_at h0 0 (lit ''RYMFS5'' @ [0, 0]);
          h2 = h1[8 := 5]
      in h2[9 := of_nat PFS_ENTRY_COUNT])"

definition header_ok :: "bytes \<Rightarrow> bool" where
  "header_ok header \<longleftrightarrow> length header = PFS_HEADER_BYTES"

section \<open>Nested writes\<close>

lemma list_update_copy_at: "i < length xs \<Longrightarrow> xs[i := x] = copy_at xs i [x]"
  by (simp add: copy_at_def upd_conv_take_nth_drop)

lemma copy_at_nested:
  assumes "a + length ys \<le> length xs" "b + length zs \<le> length ys"
  shows "copy_at (copy_at xs a ys) (a + b) zs = copy_at xs a (copy_at ys b zs)"
  using assms by (simp add: copy_at_def)

lemma copy_at_copy_at_same:
  "a + length ys \<le> length xs \<Longrightarrow> length zs = length ys \<Longrightarrow> copy_at (copy_at xs a ys) a zs = copy_at xs a zs"
  by (simp add: copy_at_def)

lemma write_extents_length:
  "offset + 7 + (slot + length es) * 8 \<le> length h \<Longrightarrow> length (write_extents h offset slot es) = length h"
  by (induction es arbitrary: h slot) (auto simp: Let_def algebra_simps)

lemma write_extents_nested:
  assumes "a + length E \<le> length h" "7 + (slot + length es) * 8 \<le> length E"
  shows "write_extents (copy_at h a E) a slot es = copy_at h a (write_extents E 0 slot es)"
  using assms
proof (induction es arbitrary: E slot)
  case Nil
  then show ?case by simp
next
  case (Cons e es)
  let ?o = "7 + slot * 8"
  let ?E = "copy_at (copy_at E ?o (to_le_bytes32 (ext_start e))) (?o + 4) (to_le_bytes32 (ext_sectors e))"
  have "copy_at (copy_at (copy_at h a E) (a + ?o) (to_le_bytes32 (ext_start e))) (a + (?o + 4)) (to_le_bytes32 (ext_sectors e))
      = copy_at h a ?E"
    using Cons.prems by (subst copy_at_nested, simp, simp, subst copy_at_nested) simp_all
  moreover have "write_extents (copy_at h a ?E) a (slot + 1) es = copy_at h a (write_extents ?E 0 (slot + 1) es)"
    using Cons.prems by (intro Cons.IH) simp_all
  ultimately show ?case by (simp add: Let_def add.assoc)
qed

lemma write_extents_out:
  assumes "7 + (slot + length es) * 8 \<le> length E" "i < 7 + slot * 8 \<or> 7 + (slot + length es) * 8 \<le> i"
  shows "write_extents E 0 slot es ! i = E ! i"
  using assms
proof (induction es arbitrary: E slot)
  case Nil
  then show ?case by simp
next
  case (Cons e es)
  let ?o = "7 + slot * 8"
  let ?E = "copy_at (copy_at E ?o (to_le_bytes32 (ext_start e))) (?o + 4) (to_le_bytes32 (ext_sectors e))"
  have "write_extents ?E 0 (slot + 1) es ! i = ?E ! i"
    using Cons.prems by (intro Cons.IH) auto
  also have "?E ! i = E ! i" using Cons.prems by (auto simp: nth_copy_at)
  finally show ?case by (simp add: Let_def)
qed

definition extent_at :: "bytes \<Rightarrow> nat \<Rightarrow> pfs_extent" where
  "extent_at E at = \<lparr>ext_start = read_le32_from_slice (subslice E at (at + 4)),
     ext_sectors = read_le32_from_slice (subslice E (at + 4) (at + 8))\<rparr>"

lemma write_extents_in:
  assumes "7 + (slot + length es) * 8 \<le> length E" "slot \<le> k" "k < slot + length es"
  shows "extent_at (write_extents E 0 slot es) (7 + k * 8) = es ! (k - slot)"
  using assms
proof (induction es arbitrary: E slot)
  case Nil
  then show ?case by simp
next
  case (Cons e es)
  let ?o = "7 + slot * 8"
  let ?E = "copy_at (copy_at E ?o (to_le_bytes32 (ext_start e))) (?o + 4) (to_le_bytes32 (ext_sectors e))"
  let ?W = "write_extents ?E 0 (slot + 1) es"
  show ?case
  proof (cases "k = slot")
    case False
    then have "extent_at ?W (7 + k * 8) = es ! (k - (slot + 1))"
      using Cons.prems by (intro Cons.IH) simp_all
    with False Cons.prems show ?thesis by (simp add: Let_def nth_Cons')
  next
    case True
    have len: "length ?E = length E" "length ?W = length E"
      using Cons.prems by (simp_all add: write_extents_length)
    have W: "?W ! i = ?E ! i" if "i < 7 + (slot + 1) * 8" for i
      using that Cons.prems by (intro write_extents_out) simp_all
    have "subslice ?W b c = subslice ?E b c" if "c \<le> 15 + slot * 8" for b c
      using that len W Cons.prems by (auto simp: list_eq_iff_nth_eq subslice_def)
    moreover have "subslice ?E ?o (?o + 4) = to_le_bytes32 (ext_start e)"
      using Cons.prems slice_copy_at_in [of ?o "to_le_bytes32 (ext_start e)" E] by (simp add: slice_simps)
    moreover have "subslice ?E (?o + 4) (?o + 8) = to_le_bytes32 (ext_sectors e)"
      using Cons.prems
        slice_copy_at_in [of "?o + 4" "to_le_bytes32 (ext_sectors e)" "copy_at E ?o (to_le_bytes32 (ext_start e))"]
      by simp
    ultimately have "extent_at ?W ?o = e" by (simp add: extent_at_def)
    with True show ?thesis by (simp add: Let_def)
  qed
qed

section \<open>One write replaces one record\<close>

lemma copy_at_update:
  "a + length E \<le> length xs \<Longrightarrow> k < length E \<Longrightarrow> (copy_at xs a E)[a + k := x] = copy_at xs a (E[k := x])"
  using copy_at_nested [of a E xs k "[x]"] by (simp add: list_update_copy_at)

definition entry_record ::
  "u64 \<Rightarrow> bytes \<Rightarrow> nat \<Rightarrow> u8 \<Rightarrow> pfs_extent list \<Rightarrow> u64 \<Rightarrow> u8 \<Rightarrow> bytes" where
  "entry_record now name fsize kind extents created_ticks mode =
     (let e0 = replicate 152 0;
          e1 = e0[0 := kind];
          e2 = e1[1 := of_nat (length name)];
          e3 = copy_at e2 2 (to_le_bytes32 (of_nat fsize));
          e4 = e3[6 := of_nat (min (length extents) 4)];
          e5 = write_extents e4 0 0 (take 4 extents);
          e6 = copy_at e5 39 (to_le_bytes64 created_ticks);
          e7 = copy_at e6 47 (to_le_bytes64 now);
          e8 = e7[55 := mode]
      in copy_at e8 56 name)"

lemma entry_offset_bound: "index < 256 \<Longrightarrow> pfs_entry_offset index + 152 \<le> 39424"
  by (simp add: pfs_entry_offset_def)

lemma length_entry_record [simp]:
  "length name \<le> 96 \<Longrightarrow> length (entry_record now name fsize kind extents created mode) = 152"
  by (simp add: entry_record_def Let_def write_extents_length)

lemma pfs_set_entry_layout:
  assumes "header_ok h" "index < 256" "length name \<le> 96"
  shows "pfs_set_entry now h index name fsize kind extents created mode =
    copy_at h (pfs_entry_offset index) (entry_record now name fsize kind extents created mode)"
proof -
  let ?o = "pfs_entry_offset index"
  have len: "?o + 152 \<le> length h" using assms entry_offset_bound by (simp add: header_ok_def)
  have upd: "(copy_at h ?o E)[?o + k := x] = copy_at h ?o (E[k := x])" if "length E = 152" "k < 152" for E k x
    using that len by (intro copy_at_update) simp_all
  have nest: "copy_at (copy_at h ?o E) (?o + k) zs = copy_at h ?o (copy_at E k zs)"
    if "length E = 152" "k + length zs \<le> 152" for E k zs
    using that len by (intro copy_at_nested) simp_all
  have ext: "write_extents (copy_at h ?o E) ?o 0 (take 4 extents) = copy_at h ?o (write_extents E 0 0 (take 4 extents))"
    if "length E = 152" for E
    using that len by (intro write_extents_nested) simp_all
  have upd0: "(copy_at h ?o E)[?o := x] = copy_at h ?o (E[0 := x])" if "length E = 152" for E x
    using upd [OF that, of 0 x] by simp
  have upd1: "(copy_at h ?o E)[Suc ?o := x] = copy_at h ?o (E[Suc 0 := x])" if "length E = 152" for E x
    using upd [OF that, of 1 x] by simp
  have nest2: "copy_at (copy_at h ?o E) (Suc (Suc ?o)) zs = copy_at h ?o (copy_at E 2 zs)"
    if "length E = 152" "length zs \<le> 150" for E zs
    using nest [OF that(1), of 2 zs] that(2) by simp
  show ?thesis
    using assms(3)
    by (simp add: pfs_set_entry_def entry_record_def Let_def upd0 upd1 upd nest2 nest ext write_extents_length)
qed

text \<open>The fields of a record.\<close>

lemma nth_write_extents_low:
  "length E = 152 \<Longrightarrow> i < 7 \<or> 39 \<le> i \<Longrightarrow> write_extents E 0 0 (take 4 es) ! i = E ! i"
  by (rule write_extents_out) auto

lemma entry_record_nth:
  assumes "length name \<le> 96"
  shows "entry_record now name fsize kind extents created mode ! 0 = kind"
    "entry_record now name fsize kind extents created mode ! Suc 0 = of_nat (length name)"
    "entry_record now name fsize kind extents created mode ! 6 = of_nat (min (length extents) 4)"
    "entry_record now name fsize kind extents created mode ! 55 = mode"
  using assms
  by (simp_all add: entry_record_def Let_def nth_copy_at_out nth_write_extents_low write_extents_length nth_list_update)

lemma subslice_update_out:
  "i < b \<or> c \<le> i \<Longrightarrow> subslice (xs[i := x]) b c = subslice xs b c"
  by (auto simp: list_eq_iff_nth_eq subslice_def)

lemma subslice_write_extents_low:
  "length E = 152 \<Longrightarrow> c \<le> 7 \<Longrightarrow> subslice (write_extents E 0 0 (take 4 es)) b c = subslice E b c"
  by (auto simp: list_eq_iff_nth_eq subslice_def write_extents_length intro!: nth_write_extents_low)

lemma entry_record_slices:
  assumes "length name \<le> 96"
  shows "subslice (entry_record now name fsize kind extents created mode) 2 6 = to_le_bytes32 (of_nat fsize)"
    "subslice (entry_record now name fsize kind extents created mode) 39 47 = to_le_bytes64 created"
    "subslice (entry_record now name fsize kind extents created mode) 47 55 = to_le_bytes64 now"
    "subslice (entry_record now name fsize kind extents created mode) 56 (56 + length name) = name"
proof -
  have in4: "length xs = 152 \<Longrightarrow> length ys = 4 \<Longrightarrow> a + 4 \<le> 152 \<Longrightarrow> subslice (copy_at xs a ys) a (a + 4) = ys"
    and in8: "length xs = 152 \<Longrightarrow> length ys = 8 \<Longrightarrow> a + 8 \<le> 152 \<Longrightarrow> subslice (copy_at xs a ys) a (a + 8) = ys"
    for xs ys :: bytes and a
    using slice_copy_at_in [of a ys xs] by auto
  show "subslice (entry_record now name fsize kind extents created mode) 2 6 = to_le_bytes32 (of_nat fsize)"
    using assms in4 [of _ _ 2]
    by (simp add: entry_record_def Let_def slice_copy_at_out subslice_update_out subslice_write_extents_low write_extents_length)
  show "subslice (entry_record now name fsize kind extents created mode) 39 47 = to_le_bytes64 created"
    using assms in8 [of _ _ 39]
    by (simp add: entry_record_def Let_def slice_copy_at_out subslice_update_out write_extents_length)
  show "subslice (entry_record now name fsize kind extents created mode) 47 55 = to_le_bytes64 now"
    using assms in8 [of _ _ 47]
    by (simp add: entry_record_def Let_def slice_copy_at_out subslice_update_out write_extents_length)
  show "subslice (entry_record now name fsize kind extents created mode) 56 (56 + length name) = name"
    using assms by (simp add: entry_record_def Let_def slice_copy_at_in write_extents_length)
qed

lemma entry_record_extent:
  assumes "length name \<le> 96" "length extents \<le> 4" "k < length extents"
  shows "extent_at (entry_record now name fsize kind extents created mode) (7 + k * 8) = extents ! k"
proof -
  let ?R = "entry_record now name fsize kind extents created mode"
  define E where "E = (copy_at ((replicate 152 0)[0 := kind, 1 := of_nat (length name)]) 2 (to_le_bytes32 (of_nat fsize)))
    [6 := of_nat (min (length extents) 4) :: u8]"
  have E: "length E = 152" by (simp add: E_def)
  have sl: "subslice ?R b c = subslice (write_extents E 0 0 extents) b c" if "c \<le> 39" for b c
    using that assms
    by (simp add: entry_record_def Let_def slice_copy_at_out subslice_update_out write_extents_length E_def)
  have "extent_at ?R (7 + k * 8) = extent_at (write_extents E 0 0 extents) (7 + k * 8)"
    unfolding extent_at_def using assms by (simp add: sl)
  also have "\<dots> = extents ! k"
    using write_extents_in [of 0 extents E k] E assms by simp
  finally show ?thesis .
qed

section \<open>Accessors after a write\<close>

definition entry_slice :: "bytes \<Rightarrow> nat \<Rightarrow> bytes" where
  "entry_slice h i = subslice h (pfs_entry_offset i) (pfs_entry_offset i + 152)"

lemma length_entry_slice [simp]: "header_ok h \<Longrightarrow> i < 256 \<Longrightarrow> length (entry_slice h i) = 152"
  using entry_offset_bound [of i] by (simp add: entry_slice_def header_ok_def)

lemma entry_slice_nth: "header_ok h \<Longrightarrow> i < 256 \<Longrightarrow> k < 152 \<Longrightarrow> h ! (pfs_entry_offset i + k) = entry_slice h i ! k"
  using entry_offset_bound [of i] by (simp add: entry_slice_def header_ok_def)

lemma entry_slice_sub:
  "c \<le> 152 \<Longrightarrow> subslice h (pfs_entry_offset i + b) (pfs_entry_offset i + c) = subslice (entry_slice h i) b c"
  by (simp add: entry_slice_def slice_slice)

lemma entry_slice_same:
  assumes "header_ok h" "i < 256" "length E = 152"
  shows "entry_slice (copy_at h (pfs_entry_offset i) E) i = E"
  using assms entry_offset_bound [of i] slice_copy_at_in [of "pfs_entry_offset i" E h]
  by (simp add: entry_slice_def header_ok_def)

lemma entry_slice_other:
  assumes "header_ok h" "i < 256" "j < 256" "j \<noteq> i" "pfs_entry_offset i \<le> a"
    "a + length E \<le> pfs_entry_offset i + 152"
  shows "entry_slice (copy_at h a E) j = entry_slice h j"
proof -
  have "pfs_entry_offset j + 152 \<le> pfs_entry_offset i \<or> pfs_entry_offset i + 152 \<le> pfs_entry_offset j"
    using assms(4) by (cases "j < i") (auto simp: pfs_entry_offset_def)
  with assms entry_offset_bound [of i] entry_offset_bound [of j] show ?thesis
    by (auto simp: entry_slice_def header_ok_def intro!: slice_copy_at_out)
qed

lemma header_ok_copy_at: "header_ok h \<Longrightarrow> i < 256 \<Longrightarrow> a + length E \<le> pfs_entry_offset i + 152 \<Longrightarrow> header_ok (copy_at h a E)"
  using entry_offset_bound [of i] by (simp add: header_ok_def)

text \<open>Every accessor reads its entry's record only (a name as long as its length byte allows).\<close>

definition name_len :: "bytes \<Rightarrow> nat \<Rightarrow> nat" where
  "name_len h i = unat (entry_slice h i ! 1)"

lemma accessors_of_record:
  assumes "header_ok h" "i < 256"
  shows "pfs_entry_kind h i = entry_slice h i ! 0"
    "pfs_entry_size h i = unat (read_le32_from_slice (subslice (entry_slice h i) 2 6))"
    "pfs_entry_extent_count h i = min (unat (entry_slice h i ! 6)) 4"
    "k < 4 \<Longrightarrow> pfs_entry_extent h i k = extent_at (entry_slice h i) (7 + k * 8)"
    "pfs_entry_created h i = read_le64_from_slice (subslice (entry_slice h i) 39 47)"
    "pfs_entry_modified h i = read_le64_from_slice (subslice (entry_slice h i) 47 55)"
    "pfs_entry_mode h i = entry_slice h i ! 55"
    "name_len h i \<le> 96 \<Longrightarrow> pfs_entry_name h i = subslice (entry_slice h i) 56 (56 + name_len h i)"
  using entry_slice_nth [OF assms, of 0] entry_slice_nth [OF assms, of 1] entry_slice_nth [OF assms, of 6]
    entry_slice_nth [OF assms, of 55] entry_slice_sub [of 6 h i 2] entry_slice_sub [of 47 h i 39]
    entry_slice_sub [of 55 h i 47] entry_slice_sub [of "11 + k * 8" h i "7 + k * 8"]
    entry_slice_sub [of "15 + k * 8" h i "11 + k * 8"] entry_slice_sub [of "56 + name_len h i" h i 56]
  by (simp_all add: pfs_entry_kind_def pfs_entry_size_def pfs_entry_extent_count_def pfs_entry_extent_def
      pfs_entry_created_def pfs_entry_modified_def pfs_entry_mode_def pfs_entry_name_def Let_def
      extent_at_def name_len_def add.assoc)

text \<open>The value an entry denotes.\<close>

record pfs_entry =
  e_kind :: u8
  e_name :: bytes
  e_size :: nat
  e_extents :: "pfs_extent list"
  e_created :: u64
  e_modified :: u64
  e_mode :: u8

definition pfs_entry_at :: "bytes \<Rightarrow> nat \<Rightarrow> pfs_entry" where
  "pfs_entry_at h i = \<lparr>e_kind = pfs_entry_kind h i, e_name = pfs_entry_name h i, e_size = pfs_entry_size h i,
     e_extents = map (pfs_entry_extent h i) [0..<pfs_entry_extent_count h i],
     e_created = pfs_entry_created h i, e_modified = pfs_entry_modified h i, e_mode = pfs_entry_mode h i\<rparr>"

lemma entry_at_cong:
  assumes "header_ok h" "header_ok h'" "i < 256" "name_len h i \<le> 96" "entry_slice h' i = entry_slice h i"
  shows "pfs_entry_at h' i = pfs_entry_at h i" "name_len h' i = name_len h i"
  using assms by (simp_all add: pfs_entry_at_def accessors_of_record name_len_def)

lemma pfs_set_entry_facts:
  fixes now fsize kind extents created mode
  assumes "header_ok h" "i < 256" "length name \<le> 96"
  defines "h' \<equiv> pfs_set_entry now h i name fsize kind extents created mode"
  shows "header_ok h'" "entry_slice h' i = entry_record now name fsize kind extents created mode"
    "j < 256 \<Longrightarrow> j \<noteq> i \<Longrightarrow> entry_slice h' j = entry_slice h j"
  unfolding h'_def pfs_set_entry_layout [OF assms(1-3)]
  using assms(1-3) header_ok_copy_at entry_slice_same entry_slice_other [of h i j "pfs_entry_offset i"]
  by simp_all

lemma pfs_clear_entry_facts:
  assumes "header_ok h" "i < 256"
  shows "header_ok (pfs_clear_entry i h)" "entry_slice (pfs_clear_entry i h) i = replicate 152 0"
    "j < 256 \<Longrightarrow> j \<noteq> i \<Longrightarrow> entry_slice (pfs_clear_entry i h) j = entry_slice h j"
  unfolding pfs_clear_entry_def
  using assms header_ok_copy_at entry_slice_same entry_slice_other [of h i j "pfs_entry_offset i"]
  by simp_all

lemma pfs_entry_at_set_same:
  assumes "header_ok h" "i < 256" "length name \<le> 96" "length extents \<le> 4" "fsize < 2 ^ 32"
  shows "pfs_entry_at (pfs_set_entry now h i name fsize kind extents created mode) i =
    \<lparr>e_kind = kind, e_name = name, e_size = fsize, e_extents = extents, e_created = created,
     e_modified = now, e_mode = mode\<rparr>"
proof -
  let ?h = "pfs_set_entry now h i name fsize kind extents created mode"
  note f = pfs_set_entry_facts [OF assms(1-3), where now = now and fsize = fsize and kind = kind and
      extents = extents and created = created and mode = mode]
  have small: "unat (of_nat (length name) :: u8) = length name" "unat (of_nat (length extents) :: u8) = length extents"
    "unat (of_nat fsize :: u32) = fsize"
    using assms by (simp_all add: unat_of_nat_small)
  have n: "name_len ?h i = length name"
    using small f(2) entry_record_nth [OF assms(3)] by (simp add: name_len_def)
  have ext: "pfs_entry_extent ?h i k = extents ! k" if "k < length extents" for k
    using that f assms accessors_of_record(4) [OF f(1) assms(2), of k] entry_record_extent [OF assms(3,4)] by simp
  have cnt: "pfs_entry_extent_count ?h i = length extents"
    using f(2) assms small accessors_of_record(3) [OF f(1) assms(2)] entry_record_nth [OF assms(3)] by simp
  have "map (pfs_entry_extent ?h i) [0..<length extents] = extents"
    using ext by (intro nth_equalityI) simp_all
  moreover have "pfs_entry_kind ?h i = kind" "pfs_entry_mode ?h i = mode"
    by (simp_all only: accessors_of_record [OF f(1) assms(2)] f(2) entry_record_nth [OF assms(3)])
  moreover have "pfs_entry_size ?h i = fsize" "pfs_entry_created ?h i = created" "pfs_entry_modified ?h i = now"
    by (simp_all only: accessors_of_record [OF f(1) assms(2)] f(2) entry_record_slices [OF assms(3)]
        read_le32_to_le_bytes read_le64_to_le_bytes small)
  moreover have "pfs_entry_name ?h i = name"
    using n accessors_of_record(8) [OF f(1) assms(2)] f(2) entry_record_slices(4) [OF assms(3)] assms(3) by simp
  ultimately show ?thesis by (simp add: pfs_entry_at_def cnt)
qed

definition header_wf :: "bytes \<Rightarrow> bool" where
  "header_wf h \<longleftrightarrow> header_ok h \<and> (\<forall>i<256. name_len h i \<le> 96)"

lemma header_wfD: "header_wf h \<Longrightarrow> header_ok h" "header_wf h \<Longrightarrow> i < 256 \<Longrightarrow> name_len h i \<le> 96"
  by (simp_all add: header_wf_def)

lemma header_wf_replace:
  assumes "header_wf h" "i < 256" "header_ok h'" "name_len h' i \<le> 96"
    "\<And>j. j < 256 \<Longrightarrow> j \<noteq> i \<Longrightarrow> entry_slice h' j = entry_slice h j"
  shows "header_wf h'" "j < 256 \<Longrightarrow> j \<noteq> i \<Longrightarrow> pfs_entry_at h' j = pfs_entry_at h j"
proof -
  have "name_len h' j \<le> 96" if "j < 256" for j
    using that assms entry_at_cong(2) [of h h' j] header_wfD [OF assms(1)] by (cases "j = i") simp_all
  with assms(3) show "header_wf h'" by (simp add: header_wf_def)
  show "pfs_entry_at h' j = pfs_entry_at h j" if "j < 256" "j \<noteq> i"
    using that assms(3,5) header_wfD [OF assms(1)] by (intro entry_at_cong(1)) simp_all
qed

lemma pfs_set_entry_wf:
  fixes now fsize kind extents created mode
  assumes "header_wf h" "i < 256" "length name \<le> 96"
  defines "h' \<equiv> pfs_set_entry now h i name fsize kind extents created mode"
  shows "header_wf h'" "j < 256 \<Longrightarrow> j \<noteq> i \<Longrightarrow> pfs_entry_at h' j = pfs_entry_at h j"
proof -
  note f = pfs_set_entry_facts [OF header_wfD(1) [OF assms(1)] assms(2,3), where now = now and fsize = fsize
      and kind = kind and extents = extents and created = created and mode = mode, folded h'_def]
  have "name_len h' i = length name"
    using assms(3) f(2) entry_record_nth [OF assms(3)] by (simp add: name_len_def unat_of_nat_small)
  with assms(3) header_wf_replace [OF assms(1,2) f(1)] f(3)
  show "header_wf h'" "j < 256 \<Longrightarrow> j \<noteq> i \<Longrightarrow> pfs_entry_at h' j = pfs_entry_at h j" by simp_all
qed

lemma pfs_clear_entry_wf:
  assumes "header_wf h" "i < 256"
  shows "header_wf (pfs_clear_entry i h)"
    "j < 256 \<Longrightarrow> j \<noteq> i \<Longrightarrow> pfs_entry_at (pfs_clear_entry i h) j = pfs_entry_at h j"
    "pfs_entry_kind (pfs_clear_entry i h) i = 0"
proof -
  note f = pfs_clear_entry_facts [OF header_wfD(1) [OF assms(1)] assms(2)]
  have "name_len (pfs_clear_entry i h) i = 0" using f(2) by (simp add: name_len_def)
  with header_wf_replace [OF assms(1,2) f(1)] f(3)
  show "header_wf (pfs_clear_entry i h)"
    "j < 256 \<Longrightarrow> j \<noteq> i \<Longrightarrow> pfs_entry_at (pfs_clear_entry i h) j = pfs_entry_at h j" by simp_all
  show "pfs_entry_kind (pfs_clear_entry i h) i = 0"
    using f assms accessors_of_record(1) [OF f(1) assms(2)] by simp
qed

lemma pfs_touch_modified_wf:
  assumes "header_wf h" "i < 256"
  shows "header_wf (pfs_touch_modified now i h)"
    "j < 256 \<Longrightarrow> pfs_entry_at (pfs_touch_modified now i h) j =
       (if j = i then (pfs_entry_at h i)\<lparr>e_modified := now\<rparr> else pfs_entry_at h j)"
proof -
  let ?h = "pfs_touch_modified now i h"
  let ?o = "pfs_entry_offset i"
  have ok: "header_ok h" and b: "?o + 152 \<le> length h"
    using assms header_wfD entry_offset_bound [of i] by (auto simp: header_ok_def)
  have same: "entry_slice ?h i = copy_at (entry_slice h i) 47 (to_le_bytes64 now)"
    using ok b assms(2) by (simp add: list_eq_iff_nth_eq pfs_touch_modified_def entry_slice_def nth_copy_at)
  have other: "entry_slice ?h j = entry_slice h j" if "j < 256" "j \<noteq> i" for j
    using that assms ok unfolding pfs_touch_modified_def by (intro entry_slice_other [of h i j]) simp_all
  have ok': "header_ok ?h"
    unfolding pfs_touch_modified_def by (rule header_ok_copy_at [OF ok assms(2)]) simp
  have len: "length (entry_slice h i) = 152" using ok assms(2) by simp
  have n: "name_len ?h i = name_len h i" using len by (simp add: same name_len_def nth_copy_at)
  have n96: "name_len h i \<le> 96" using header_wfD(2) [OF assms] .
  have w: "entry_slice ?h i ! k = entry_slice h i ! k" if "k < 47 \<or> 55 \<le> k" for k
    using that len by (auto simp: same nth_copy_at)
  have v: "subslice (entry_slice ?h i) k l = subslice (entry_slice h i) k l" if "l \<le> 47 \<or> 55 \<le> k" "l \<le> 152" for k l
    using that len by (auto simp: same intro!: slice_copy_at_out)
  have m: "subslice (entry_slice ?h i) 47 55 = to_le_bytes64 now"
    using len slice_copy_at_in [of 47 "to_le_bytes64 now" "entry_slice h i"] by (simp add: same)
  have ext: "map (pfs_entry_extent ?h i) [0..<min (unat (entry_slice h i ! 6)) 4] =
      map (pfs_entry_extent h i) [0..<min (unat (entry_slice h i ! 6)) 4]"
    using accessors_of_record(4) [OF ok assms(2)] accessors_of_record(4) [OF ok' assms(2)]
    by (intro map_cong refl) (auto simp: extent_at_def v)
  show "header_wf ?h" using header_wf_replace(1) [OF assms ok'] n n96 other by simp
  have "pfs_entry_at ?h i = (pfs_entry_at h i)\<lparr>e_modified := now\<rparr>"
    using n96 n ext accessors_of_record(3) [OF ok assms(2)] accessors_of_record(3) [OF ok' assms(2)]
    by (simp add: pfs_entry_at_def accessors_of_record(1,2,5,6,7,8) [OF ok assms(2)]
        accessors_of_record(1,2,5,6,7,8) [OF ok' assms(2)] v w m)
  then show "j < 256 \<Longrightarrow> pfs_entry_at ?h j =
      (if j = i then (pfs_entry_at h i)\<lparr>e_modified := now\<rparr> else pfs_entry_at h j)"
    using header_wf_replace(2) [OF assms ok'] n n96 other by simp
qed

text \<open>Everything the directory code asks of an entry is a field of its value.\<close>

lemma accessors_of_entry:
  "pfs_entry_used h i \<longleftrightarrow> e_kind (pfs_entry_at h i) \<noteq> 0"
  "pfs_entry_is_dir h i \<longleftrightarrow> e_kind (pfs_entry_at h i) = PFS_KIND_DIR"
  "pfs_entry_kind h i = e_kind (pfs_entry_at h i)"
  "pfs_entry_name h i = e_name (pfs_entry_at h i)"
  "pfs_entry_size h i = e_size (pfs_entry_at h i)"
  "pfs_entry_extent_count h i = length (e_extents (pfs_entry_at h i))"
  "k < pfs_entry_extent_count h i \<Longrightarrow> pfs_entry_extent h i k = e_extents (pfs_entry_at h i) ! k"
  "pfs_entry_created h i = e_created (pfs_entry_at h i)"
  "pfs_entry_modified h i = e_modified (pfs_entry_at h i)"
  "pfs_entry_mode h i = e_mode (pfs_entry_at h i)"
  by (simp_all add: pfs_entry_at_def pfs_entry_used_def pfs_entry_is_dir_def pfs_entry_kind_def)

lemma length_e_extents: "length (e_extents (pfs_entry_at h i)) \<le> 4"
  by (simp add: pfs_entry_at_def pfs_entry_extent_count_def)

lemma name_len_name: "header_wf h \<Longrightarrow> i < 256 \<Longrightarrow> length (pfs_entry_name h i) \<le> 96"
  using header_wfD(1) [of h] header_wfD(2) [of h i] accessors_of_record(8) [of h i] by (simp add: header_ok_def)

section \<open>The header as a slot table\<close>

type_synonym entry_rest = "u64 \<times> nat \<times> u8 \<times> pfs_extent list \<times> u64 \<times> u8"

definition put_entry :: "nat \<Rightarrow> bytes \<Rightarrow> entry_rest \<Rightarrow> bytes \<Rightarrow> bytes" where
  "put_entry i name = (\<lambda>(now, fsize, kind, extents, created, mode) h.
     pfs_set_entry now h i name fsize kind extents created mode)"

definition entry_args_ok :: "bytes \<Rightarrow> entry_rest \<Rightarrow> bool" where
  "entry_args_ok name = (\<lambda>(now, fsize, kind, extents, created, mode).
     length name \<le> 96 \<and> kind \<noteq> 0 \<and> length extents \<le> 4 \<and> fsize < 2 ^ 32)"

interpretation pfs: slot_table 256 header_wf pfs_entry_used pfs_entry_name put_entry pfs_clear_entry entry_args_ok
proof
  fix h k and i :: nat and v :: entry_rest
  assume a: "header_wf h" "i < 256" "entry_args_ok k v"
  obtain now fsize kind extents created mode where v: "v = (now, fsize, kind, extents, created, mode)"
    by (cases v)
  have k: "length k \<le> 96" "kind \<noteq> 0" "length extents \<le> 4" "fsize < 2 ^ 32"
    using a(3) by (simp_all add: v entry_args_ok_def)
  note w = pfs_set_entry_wf [OF a(1,2) k(1)]
  note s = pfs_entry_at_set_same [OF header_wfD(1) [OF a(1)] a(2) k(1,3,4)]
  show "header_wf (put_entry i k v h)" using w by (simp add: v put_entry_def)
  show "pfs_entry_used (put_entry i k v h) j \<longleftrightarrow> j = i \<or> pfs_entry_used h j"
    "pfs_entry_name (put_entry i k v h) j = (if j = i then k else pfs_entry_name h j)" if "j < 256" for j
    using that w(2) [of j] s k(2) by (cases "j = i"; simp add: v put_entry_def accessors_of_entry)+
next
  fix h and i j :: nat
  assume a: "header_wf h" "i < 256"
  note w = pfs_clear_entry_wf [OF a]
  show "header_wf (pfs_clear_entry i h)" by (rule w(1))
  show "pfs_entry_used (pfs_clear_entry i h) j \<longleftrightarrow> j \<noteq> i \<and> pfs_entry_used h j" if "j < 256"
    using that w(2) [of j] w(3) by (cases "j = i") (simp_all add: accessors_of_entry)
  show "pfs_entry_name (pfs_clear_entry i h) j = pfs_entry_name h j" if "j < 256" "j \<noteq> i"
    using that w(2) [of j] by (simp add: accessors_of_entry)
qed

lemma format_header_facts:
  "header_wf pfs_format_header" "i < 256 \<Longrightarrow> \<not> pfs_entry_used pfs_format_header i"
proof -
  have n: "pfs_format_header ! k = 0" if "16 \<le> k" "k < 39424" for k
    using that by (simp add: pfs_format_header_def Let_def nth_list_update nth_copy_at)
  have ok: "header_ok pfs_format_header" by (simp add: header_ok_def pfs_format_header_def Let_def)
  have o: "16 \<le> pfs_entry_offset i" for i by (simp add: pfs_entry_offset_def)
  have "name_len pfs_format_header i = 0" if "i < 256" for i
    using that n [of "pfs_entry_offset i + 1"] o [of i] entry_offset_bound [OF that] entry_slice_nth [OF ok that, of 1]
    by (simp add: name_len_def)
  with ok show "header_wf pfs_format_header" by (simp add: header_wf_def)
  show "\<not> pfs_entry_used pfs_format_header i" if "i < 256"
    using n [of "pfs_entry_offset i"] o [of i] entry_offset_bound [OF that] by (simp add: pfs_entry_used_def)
qed

end
