(* ===== verification/Pfs_Path.thy ===== *)
theory Pfs_Path
  imports Pfs_Layout
begin

text \<open>
  RYMFS path names, \<^verbatim>\<open>kernel/src/main.rs\<close>: validation, the component iterator, the
  in-place push and pop of components in the 96-byte output buffer, and
  \<open>normalize_pfs_path\<close>, which joins a path to the working directory and removes dot
  components.  The buffer code is shown to refine a stack of components
  (\<open>normalize_spec\<close>), so a resolved path never leaves the volume root and has no dot
  component.
\<close>

section \<open>Validation\<close>

fun valid_path_loop :: "bool \<Rightarrow> bytes \<Rightarrow> bool" where
  "valid_path_loop last_was_slash [] = (\<not> last_was_slash)"
| "valid_path_loop last_was_slash (b # bs) =
     (if b = 47 then (if last_was_slash then False else valid_path_loop True bs)
      else if \<not> is_name_byte b then False else valid_path_loop False bs)"

definition valid_pfs_path :: "bytes \<Rightarrow> bool" where
  "valid_pfs_path name \<longleftrightarrow>
     (if name = [] \<or> length name > PFS_NAME_MAX then False else valid_path_loop False name)"

definition valid_pfs_component :: "bytes \<Rightarrow> bool" where
  "valid_pfs_component component \<longleftrightarrow> component \<noteq> [] \<and> list_all is_name_byte component"

section \<open>Components\<close>

definition components_next :: "bytes \<Rightarrow> nat \<Rightarrow> (bytes \<times> nat) option" where
  "components_next bs index = scan_token (\<lambda>b. b = 47) bs index"

lemma components_next_progress:
  "components_next bs index = Some (c, after) \<Longrightarrow> index < after \<and> after \<le> length bs"
proof -
  let ?s = "skip_while (\<lambda>b. b = 47) bs index"
  assume "components_next bs index = Some (c, after)"
  then have s: "?s < length bs" and a: "after = skip_while (\<lambda>b. b \<noteq> 47) bs ?s"
    by (auto simp: components_next_def scan_token_def Let_def split: if_splits)
  then have i: "index \<le> length bs" by (rule_tac ccontr) (simp add: skip_while.simps)
  have "dropWhile (\<lambda>b. b = 47) (drop index bs) \<noteq> []"
    unfolding drop_skip_while [OF i, symmetric] using s by simp
  then have "hd (drop ?s bs) \<noteq> 47"
    using drop_skip_while [OF i, of "\<lambda>b. b = 47"] hd_dropWhile [of "\<lambda>b. b = 47" "drop index bs"] by simp
  then have "bs ! ?s \<noteq> 47" using s by (simp add: hd_drop_conv_nth)
  then have "after = skip_while (\<lambda>b. b \<noteq> 47) bs (Suc ?s)"
    unfolding a using s by (subst skip_while.simps) simp
  then show ?thesis
    using skip_while_bounds [OF i, of "\<lambda>b. b = 47"] skip_while_bounds [of "Suc ?s" bs "\<lambda>b. b \<noteq> 47"] s by auto
qed

text \<open>The values a \<^verbatim>\<open>for\<close> loop over the iterator sees.\<close>

function pfs_components :: "bytes \<Rightarrow> nat \<Rightarrow> bytes list" where
  "pfs_components bs index =
     (case components_next bs index of
        None \<Rightarrow> []
      | Some (component, after) \<Rightarrow> component # pfs_components bs after)"
  by pat_completeness auto
termination
  by (relation "measure (\<lambda>(bs, i). length bs - i)") (auto dest: components_next_progress)

declare pfs_components.simps [simp del]

section \<open>The output buffer\<close>

definition pfs_push_component :: "bytes \<Rightarrow> nat \<Rightarrow> bytes \<Rightarrow> (bytes \<times> nat) option" where
  "pfs_push_component output len component =
     (if component = [] \<or> \<not> valid_pfs_component component then None
      else if len \<noteq> 0 \<and> len \<ge> PFS_NAME_MAX then None
      else
        let (output, len) = (if len \<noteq> 0 then (output[len := 47], len + 1) else (output, len)) in
        if len + length component > PFS_NAME_MAX then None
        else Some (copy_at output len component, len + length component))"

definition pfs_pop_component :: "bytes \<Rightarrow> nat \<Rightarrow> bytes \<times> nat" where
  "pfs_pop_component output len =
     (case find_last_from output 47 len of
        Some index \<Rightarrow> (copy_at output index (replicate (len - index) 0), index)
      | None \<Rightarrow> (copy_at output 0 (replicate len 0), 0))"

fun push_all :: "bytes list \<Rightarrow> bytes \<times> nat \<Rightarrow> (bytes \<times> nat) option" where
  "push_all [] st = Some st"
| "push_all (c # cs) (output, len) =
     (case pfs_push_component output len c of None \<Rightarrow> None | Some st \<Rightarrow> push_all cs st)"

fun walk_components :: "bytes list \<Rightarrow> bytes \<times> nat \<Rightarrow> (bytes \<times> nat) option" where
  "walk_components [] st = Some st"
| "walk_components (c # cs) (output, len) =
     (if eq c (lit ''.'') then walk_components cs (output, len)
      else if eq c (lit ''..'') then walk_components cs (pfs_pop_component output len)
      else case pfs_push_component output len c of None \<Rightarrow> None | Some st \<Rightarrow> walk_components cs st)"

definition normalize_pfs_path :: "bytes \<Rightarrow> bytes \<Rightarrow> bytes \<Rightarrow> (bytes \<times> nat) option" where
  "normalize_pfs_path base path output =
     (let absolute = starts_with path (lit ''/'');
          relative = (if absolute then drop 1 path else path) in
      case (if absolute then Some (output, 0) else push_all (pfs_components base 0) (output, 0)) of
        None \<Rightarrow> None
      | Some st \<Rightarrow>
          (case walk_components (pfs_components relative 0) st of
             None \<Rightarrow> None
           | Some (output, len) \<Rightarrow>
               if len = 0 \<or> \<not> valid_pfs_path (take len output) then None else Some (output, len)))"

section \<open>Directory listing\<close>

definition pfs_list_match :: "bytes \<Rightarrow> bytes \<Rightarrow> bytes option" where
  "pfs_list_match namespace name =
     (if namespace = [] \<or> eq namespace (lit ''pfs:'') then
        (if contains name 47 then None else Some name)
      else
        let prefix = (if starts_with namespace (lit ''pfs:'') then drop 4 namespace else namespace) in
        if prefix = [] then None
        else if \<not> starts_with name prefix \<or> length name \<le> length prefix \<or> name ! length prefix \<noteq> 47 then None
        else
          let child = drop (length prefix + 1) name in
          if child = [] \<or> contains child 47 then None else Some child)"

section \<open>Reference: a stack of components\<close>

fun join :: "bytes list \<Rightarrow> bytes" where
  "join [] = []"
| "join [c] = c"
| "join (c # d # cs) = c @ 47 # join (d # cs)"

definition fits :: "bytes list \<Rightarrow> bool" where
  "fits st \<longleftrightarrow> length (join st) \<le> 96"

fun push_spec :: "bytes list \<Rightarrow> bytes list \<Rightarrow> bytes list option" where
  "push_spec [] st = Some st"
| "push_spec (c # cs) st =
     (if valid_pfs_component c \<and> fits (st @ [c]) then push_spec cs (st @ [c]) else None)"

fun walk_spec :: "bytes list \<Rightarrow> bytes list \<Rightarrow> bytes list option" where
  "walk_spec [] st = Some st"
| "walk_spec (c # cs) st =
     (if c = lit ''.'' then walk_spec cs st
      else if c = lit ''..'' then walk_spec cs (butlast st)
      else if valid_pfs_component c \<and> fits (st @ [c]) then walk_spec cs (st @ [c]) else None)"

definition normalize_spec :: "bytes \<Rightarrow> bytes \<Rightarrow> bytes list option" where
  "normalize_spec base path =
     (case (if path \<noteq> [] \<and> hd path = 47 then Some [] else push_spec (tokens (\<lambda>b. b = 47) base) []) of
        None \<Rightarrow> None
      | Some st \<Rightarrow>
          (case walk_spec (tokens (\<lambda>b. b = 47) path) st of
             None \<Rightarrow> None
           | Some st' \<Rightarrow> if st' = [] then None else Some st'))"

section \<open>Lemmas\<close>

lemma name_byte_not_slash: "is_name_byte b \<Longrightarrow> b \<noteq> 47"
  by (auto simp: is_name_byte_def is_ascii_alphanumeric_def)

lemma component_no_slash: "valid_pfs_component c \<Longrightarrow> c \<noteq> [] \<and> 47 \<notin> set c"
  by (auto simp: valid_pfs_component_def list_all_iff dest: name_byte_not_slash)

lemma pfs_components_tokens:
  "index \<le> length bs \<Longrightarrow> pfs_components bs index = tokens (\<lambda>b. b = 47) (drop index bs)"
proof (induction bs index rule: pfs_components.induct)
  case (1 bs index)
  from scan_token_tokens [OF 1(2), of "\<lambda>b. b = 47"] 1(1) show ?case
    by (subst pfs_components.simps) (auto simp: components_next_def split: option.splits prod.splits)
qed

lemma tokens_skip: "P b \<Longrightarrow> tokens P (b # bs) = tokens P bs"
  by (subst (1 2) tokens.simps) simp

lemma join_snoc: "join (st @ [c]) = (if st = [] then c else join st @ 47 # c)"
  by (induction st rule: join.induct) auto

lemma join_nonempty: "(\<And>c. c \<in> set st \<Longrightarrow> c \<noteq> []) \<Longrightarrow> join st = [] \<longleftrightarrow> st = []"
  by (induction st rule: join.induct) auto

definition stack_ok :: "bytes list \<Rightarrow> bool" where
  "stack_ok st \<longleftrightarrow> list_all valid_pfs_component st \<and> fits st"

definition buf_rel :: "bytes \<times> nat \<Rightarrow> bytes list \<Rightarrow> bool" where
  "buf_rel b st \<longleftrightarrow> length (fst b) = 96 \<and> snd b \<le> 96 \<and> take (snd b) (fst b) = join st \<and> stack_ok st"

lemma stack_ok_snoc: "stack_ok (st @ [c]) \<longleftrightarrow> stack_ok st \<and> valid_pfs_component c \<and> fits (st @ [c])"
  by (auto simp: stack_ok_def fits_def join_snoc)

lemma buf_rel_len: "buf_rel (out, len) st \<Longrightarrow> len = length (join st) \<and> (len = 0 \<longleftrightarrow> st = [])"
proof -
  assume b: "buf_rel (out, len) st"
  then have "len = length (join st)" unfolding buf_rel_def by (metis fst_conv snd_conv length_take min.absorb2)
  moreover have "join st = [] \<longleftrightarrow> st = []"
    using b by (intro join_nonempty) (auto simp: buf_rel_def stack_ok_def list_all_iff dest: component_no_slash)
  ultimately show ?thesis by simp
qed

lemma push_refines:
  assumes "buf_rel (out, len) st"
  shows "case pfs_push_component out len c of
      None \<Rightarrow> \<not> (valid_pfs_component c \<and> fits (st @ [c]))
    | Some b \<Rightarrow> buf_rel b (st @ [c])"
proof (cases "valid_pfs_component c")
  case False
  then show ?thesis by (simp add: pfs_push_component_def)
next
  case True
  note l = buf_rel_len [OF assms]
  have o: "length out = 96" "take len out = join st" "len \<le> 96" "stack_ok st"
    using assms by (simp_all add: buf_rel_def)
  have c: "c \<noteq> []" using True component_no_slash by blast
  show ?thesis
  proof (cases "fits (st @ [c])")
    case f: False
    with l c show ?thesis
      by (auto simp: pfs_push_component_def fits_def join_snoc Let_def split: if_splits)
  next
    case f: True
    define o' where "o' = (if len \<noteq> 0 then out[len := 47] else out)"
    define l' where "l' = (if len \<noteq> 0 then len + 1 else len)"
    have l': "l' + length c = length (join (st @ [c]))" "l' + length c \<le> 96"
      using f l by (auto simp: l'_def fits_def join_snoc)
    have e: "pfs_push_component out len c = Some (copy_at o' l' c, l' + length c)"
      using l' True c l by (auto simp: pfs_push_component_def o'_def l'_def Let_def)
    have t: "take l' o' = (if st = [] then [] else join st @ [47])"
      using o l l' c by (auto simp: o'_def l'_def take_Suc_conv_app_nth)
    have "length o' = 96" using o by (simp add: o'_def)
    moreover have "take (l' + length c) (copy_at o' l' c) = take l' o' @ c"
      using l' \<open>length o' = 96\<close> by (simp add: copy_at_def)
    ultimately show ?thesis
      using t l' o True f by (simp add: e buf_rel_def stack_ok_snoc join_snoc)
  qed
qed

lemma find_last_from_take: "n \<le> length bs \<Longrightarrow> find_last_from bs b n = find_last_byte (take n bs) b"
proof -
  assume n: "n \<le> length bs"
  have "find_last_from bs b k = find_last_from (take n bs) b k" if "k \<le> n" for k
    using that by (induction k) auto
  with n show ?thesis by (simp add: find_last_byte_def)
qed

lemma pop_refines:
  assumes "buf_rel (out, len) st"
  shows "buf_rel (pfs_pop_component out len) (butlast st)"
proof -
  have o: "length out = 96" "take len out = join st" "len \<le> 96" "stack_ok st"
    using assms by (simp_all add: buf_rel_def)
  have f: "find_last_from out 47 len = find_last_byte (join st) 47"
    using o find_last_from_take [of len out 47] by simp
  show ?thesis
  proof (cases st rule: rev_cases)
    case Nil
    then have "len = 0" using buf_rel_len [OF assms] by simp
    with Nil f o show ?thesis
      by (simp add: pfs_pop_component_def buf_rel_def find_last_byte_def copy_at_def)
  next
    case (snoc st' c)
    then have c: "47 \<notin> set c" and ok: "stack_ok st'" using o(4) component_no_slash by (auto simp: stack_ok_snoc)
    show ?thesis
    proof (cases "st' = []")
      case True
      then have "find_last_from out 47 len = None" using f snoc c by (simp add: find_last_byte_None)
      with True snoc o ok show ?thesis by (simp add: pfs_pop_component_def buf_rel_def)
    next
      case False
      then have j: "join st = join st' @ 47 # c" using snoc by (simp add: join_snoc)
      with f c have i: "find_last_from out 47 len = Some (length (join st'))"
        by (simp add: find_last_byte_append)
      have le: "length (join st') \<le> len" using j buf_rel_len [OF assms] by simp
      have "take (length (join st')) out = join st'"
        using o(2) j le by (metis append_eq_conv_conj min.absorb1 take_take)
      with i le o snoc ok show ?thesis by (simp add: pfs_pop_component_def buf_rel_def copy_at_def)
    qed
  qed
qed

lemma buf_rel_snocD: "buf_rel b (st @ [c]) \<Longrightarrow> valid_pfs_component c \<and> fits (st @ [c])"
  by (simp add: buf_rel_def stack_ok_snoc)

lemma push_all_refines:
  "buf_rel b st \<Longrightarrow> rel_option buf_rel (push_all cs b) (push_spec cs st)"
proof (induction cs arbitrary: b st)
  case Nil
  then show ?case by simp
next
  case (Cons c cs)
  obtain out len where b: "b = (out, len)" by (cases b)
  from push_refines [OF Cons.prems [unfolded b], of c] show ?case
    by (cases "pfs_push_component out len c")
      (auto simp: b dest: buf_rel_snocD intro!: Cons.IH)
qed

lemma walk_refines:
  "buf_rel b st \<Longrightarrow> rel_option buf_rel (walk_components cs b) (walk_spec cs st)"
proof (induction cs arbitrary: b st)
  case Nil
  then show ?case by simp
next
  case (Cons c cs)
  obtain out len where b: "b = (out, len)" by (cases b)
  have pop: "rel_option buf_rel (walk_components cs (pfs_pop_component out len)) (walk_spec cs (butlast st))"
    using Cons.prems by (intro Cons.IH pop_refines) (simp add: b)
  have stay: "rel_option buf_rel (walk_components cs (out, len)) (walk_spec cs st)"
    using Cons by (simp add: b)
  from push_refines [OF Cons.prems [unfolded b], of c] pop stay show ?case
    by (cases "pfs_push_component out len c")
      (auto simp: b eq_def simp del: lit_simps dest: buf_rel_snocD intro!: Cons.IH)
qed

lemma valid_path_loop_append:
  "list_all is_name_byte c \<Longrightarrow> c \<noteq> [] \<Longrightarrow>
     valid_path_loop f (c @ r) = valid_path_loop False r"
proof (induction c arbitrary: f)
  case (Cons b c)
  then show ?case using name_byte_not_slash by (cases c) auto
qed simp

lemma valid_path_join: "stack_ok st \<Longrightarrow> st \<noteq> [] \<Longrightarrow> valid_pfs_path (join st)"
proof -
  assume s: "stack_ok st" "st \<noteq> []"
  have "list_all valid_pfs_component st \<Longrightarrow> st \<noteq> [] \<Longrightarrow> valid_path_loop f (join st)" for f
  proof (induction st arbitrary: f rule: join.induct)
    case (2 c)
    then show ?case using valid_path_loop_append [of c f "[]"] by (simp add: valid_pfs_component_def)
  next
    case (3 c d cs)
    then show ?case by (simp add: valid_path_loop_append valid_pfs_component_def)
  qed simp
  moreover have "join st \<noteq> []"
    using s join_nonempty [of st] by (auto simp: stack_ok_def list_all_iff dest: component_no_slash)
  ultimately show ?thesis using s by (simp add: valid_pfs_path_def stack_ok_def fits_def)
qed

lemma tokens_component:
  "c \<noteq> [] \<Longrightarrow> 47 \<notin> set c \<Longrightarrow> tokens (\<lambda>b. b = 47) (c @ r) =
     (if r = [] \<or> hd r = 47 then c # tokens (\<lambda>b. b = 47) r else tokens (\<lambda>b. b = 47) (c @ r))"
proof (cases "r = [] \<or> hd r = 47")
  case True
  assume c: "c \<noteq> []" "47 \<notin> set c"
  let ?P = "\<lambda>b::u8. b = 47"
  obtain b c' where bc: "c @ r = b # c'" "b \<noteq> 47" using c by (cases c) auto
  then have d: "dropWhile ?P (c @ r) = b # c'" by simp
  have "takeWhile (\<lambda>b. \<not> ?P b) (c @ r) = c" "dropWhile (\<lambda>b. \<not> ?P b) (c @ r) = r"
    using c True by (cases r; auto simp: takeWhile_append dropWhile_append)+
  with True show ?thesis unfolding tokens_some [OF d] bc(1) [symmetric] by simp
qed simp

lemma tokens_join: "stack_ok st \<Longrightarrow> tokens (\<lambda>b. b = 47) (join st) = st"
proof -
  have nil: "tokens (\<lambda>b. b = 47) [] = []" by (simp add: tokens.simps)
  have "list_all valid_pfs_component st \<Longrightarrow> tokens (\<lambda>b. b = 47) (join st) = st"
  proof (induction st rule: join.induct)
    case (2 c)
    then show ?case using tokens_component [of c "[]"] component_no_slash [of c] by (simp add: nil)
  next
    case (3 c d cs)
    then show ?case
      using tokens_component [of c "47 # join (d # cs)"] component_no_slash [of c] by (simp add: tokens_skip)
  qed (simp add: nil)
  then show "stack_ok st \<Longrightarrow> ?thesis" by (simp add: stack_ok_def)
qed

lemma normalize_rel:
  assumes "length out = 96"
  shows "rel_option (\<lambda>b st. buf_rel b st \<and> st \<noteq> []) (normalize_pfs_path base path out) (normalize_spec base path)"
proof -
  have b0: "buf_rel (out, 0) []" using assms by (simp add: buf_rel_def stack_ok_def fits_def)
  define abs where "abs = starts_with path (lit ''/'')"
  have abs: "abs \<longleftrightarrow> path \<noteq> [] \<and> hd path = 47"
    by (cases path) (auto simp: abs_def starts_with_def)
  have rel: "tokens (\<lambda>b. b = 47) (if abs then drop 1 path else path) = tokens (\<lambda>b. b = 47) path"
    using abs by (cases path) (auto simp: tokens_skip)
  have 1: "rel_option buf_rel (if abs then Some (out, 0) else push_all (pfs_components base 0) (out, 0))
      (if path \<noteq> [] \<and> hd path = 47 then Some [] else push_spec (tokens (\<lambda>b. b = 47) base) [])" (is "rel_option _ ?a ?s")
    using b0 push_all_refines [OF b0] by (simp add: abs pfs_components_tokens)
  show ?thesis
  proof (cases ?a)
    case None
    with 1 have "?s = None" by simp
    then show ?thesis unfolding normalize_pfs_path_def normalize_spec_def Let_def abs_def [symmetric] None by simp
  next
    case (Some st)
    with 1 obtain sp where sp: "?s = Some sp" and r: "buf_rel st sp" by (auto simp: option_rel_Some1)
    have 2: "rel_option buf_rel (walk_components (tokens (\<lambda>b. b = 47) path) st) (walk_spec (tokens (\<lambda>b. b = 47) path) sp)"
      by (rule walk_refines [OF r])
    have n: "normalize_pfs_path base path out = (case walk_components (tokens (\<lambda>b. b = 47) path) st of
             None \<Rightarrow> None
           | Some (output, len) \<Rightarrow>
               if len = 0 \<or> \<not> valid_pfs_path (take len output) then None else Some (output, len))"
      unfolding normalize_pfs_path_def Let_def abs_def [symmetric] Some
      using pfs_components_tokens [of 0 "if abs then drop 1 path else path"] rel by simp
    have "normalize_spec base path = (case walk_spec (tokens (\<lambda>b. b = 47) path) sp of
             None \<Rightarrow> None | Some st' \<Rightarrow> if st' = [] then None else Some st')"
      unfolding normalize_spec_def sp by simp
    with 2 n show ?thesis
      using valid_path_join buf_rel_len
      by (cases "walk_components (tokens (\<lambda>b. b = 47) path) st")
        (auto simp: option_rel_Some1 buf_rel_def)
  qed
qed

lemma push_spec_dots:
  "push_spec cs st = Some st' \<Longrightarrow> set st' \<subseteq> set st \<union> set cs"
  by (induction cs arbitrary: st) (fastforce split: if_splits)+

lemma walk_spec_dots:
  "walk_spec cs st = Some st' \<Longrightarrow> lit ''.'' \<notin> set st \<Longrightarrow> lit ''..'' \<notin> set st \<Longrightarrow>
     lit ''.'' \<notin> set st' \<and> lit ''..'' \<notin> set st'"
  by (induction cs arbitrary: st) (auto split: if_splits simp del: lit_simps dest: in_set_butlastD)

lemma normalize_spec_dots:
  assumes "normalize_spec base path = Some st"
    and "lit ''.'' \<notin> set (tokens (\<lambda>b. b = 47) base)" "lit ''..'' \<notin> set (tokens (\<lambda>b. b = 47) base)"
  shows "lit ''.'' \<notin> set st \<and> lit ''..'' \<notin> set st"
proof -
  obtain s0 where s0: "(if path \<noteq> [] \<and> hd path = 47 then Some [] else push_spec (tokens (\<lambda>b. b = 47) base) []) = Some s0"
      and w: "walk_spec (tokens (\<lambda>b. b = 47) path) s0 = Some st"
    using assms(1) unfolding normalize_spec_def by (auto split: option.splits if_splits)
  have "set s0 \<subseteq> set (tokens (\<lambda>b. b = 47) base)"
    using s0 push_spec_dots [of _ "[]" s0] by (auto split: if_splits)
  with assms(2,3) show ?thesis by (intro walk_spec_dots [OF w]) auto
qed

lemma join_head: "stack_ok st \<Longrightarrow> st \<noteq> [] \<Longrightarrow> join st \<noteq> [] \<and> hd (join st) \<noteq> 47"
  by (cases st rule: join.cases)
    (auto simp: stack_ok_def valid_pfs_component_def list_all_iff hd_append dest: name_byte_not_slash list.set_sel(1))

section \<open>Properties\<close>

text \<open>
  C3.  Path resolution in the 96-byte buffer computes exactly the reference: the components of
  the working directory (unless the path is absolute) and of the path, processed on a stack
  where \<^verbatim>\<open>..\<close> pops and \<^verbatim>\<open>.\<close> is skipped, failing on an invalid
  component, on overflow of the buffer and on the empty result; the bytes produced are the
  stack joined with slashes.  In particular the final validity check of the code never fails.
\<close>

theorem normalize_pfs_path_refines:
  assumes "length out = PFS_NAME_MAX"
  shows "map_option (\<lambda>(output, len). take len output) (normalize_pfs_path base path out) =
    map_option join (normalize_spec base path)"
  using normalize_rel [of out base path] assms
  by (cases "normalize_pfs_path base path out") (auto simp: option_rel_Some1 buf_rel_def)

theorem normalize_pfs_path_refines_witness:
  "length (replicate 96 0 :: bytes) = PFS_NAME_MAX \<and>
   map_option (\<lambda>(output, len). take len output)
     (normalize_pfs_path (lit ''bin'') (lit ''../etc/./x'') (replicate 96 0)) =
   map_option join (normalize_spec (lit ''bin'') (lit ''../etc/./x''))"
  using normalize_pfs_path_refines [of "replicate 96 0" "lit ''bin''" "lit ''../etc/./x''"] by simp

text \<open>
   Whatever a program passes as a path, a successful resolution yields a valid RYMFS name of
  at most 96 bytes that does not start with a slash and has no dot or dot-dot component, as
  long as the working directory has none: paths cannot escape the volume root.
\<close>

theorem normalize_pfs_path_confined:
  assumes "length out = PFS_NAME_MAX" "normalize_pfs_path base path out = Some (out', len)"
    and "lit ''.'' \<notin> set (tokens (\<lambda>b. b = 47) base)" "lit ''..'' \<notin> set (tokens (\<lambda>b. b = 47) base)"
  shows "valid_pfs_path (take len out') \<and> 0 < len \<and> len \<le> 96 \<and> out' ! 0 \<noteq> 47 \<and>
    lit ''.'' \<notin> set (tokens (\<lambda>b. b = 47) (take len out')) \<and>
    lit ''..'' \<notin> set (tokens (\<lambda>b. b = 47) (take len out'))"
proof -
  obtain st where st: "normalize_spec base path = Some st" "buf_rel (out', len) st" "st \<noteq> []"
    using normalize_rel [of out base path] assms(1,2) by (auto simp: option_rel_Some1)
  then have ok: "stack_ok st" and t: "take len out' = join st" and l: "len \<le> 96" "length out' = 96"
    by (simp_all add: buf_rel_def)
  have len: "0 < len" using buf_rel_len [OF st(2)] st(3) by (cases len) auto
  then have "hd (take len out') = out' ! 0" using l by (cases out') simp_all
  then have "out' ! 0 \<noteq> 47" using t join_head [OF ok st(3)] by simp
  with len l show ?thesis
    using tokens_join [OF ok] normalize_spec_dots [OF st(1) assms(3,4)] valid_path_join [OF ok st(3)]
    by (simp add: t del: lit_simps)
qed

theorem normalize_pfs_path_confined_witness:
  "(\<exists>out' len. normalize_pfs_path (lit ''a'') (lit ''../../b'') (replicate 96 0) = Some (out', len) \<and>
     take len out' = lit ''b'' \<and> valid_pfs_path (take len out') \<and> out' ! 0 \<noteq> 47)"
proof -
  have spec: "normalize_spec (lit ''a'') (lit ''../../b'') = Some [lit ''b'']" by code_simp
  obtain out' len where r: "normalize_pfs_path (lit ''a'') (lit ''../../b'') (replicate 96 0) = Some (out', len)"
      and b: "buf_rel (out', len) [lit ''b'']"
    using normalize_rel [of "replicate 96 0" "lit ''a''" "lit ''../../b''"] spec by (auto simp: option_rel_Some2)
  have "lit ''.'' \<notin> set (tokens (\<lambda>b. b = 47) (lit ''a''))" "lit ''..'' \<notin> set (tokens (\<lambda>b. b = 47) (lit ''a''))"
    by code_simp+
  from normalize_pfs_path_confined [OF _ r this] r b show ?thesis by (auto simp: buf_rel_def)
qed

text \<open>The component a directory listing shows is the last one of a direct child.\<close>

lemma pfs_list_match_child:
  assumes "dir \<noteq> []" "dir \<noteq> lit ''pfs:''" "\<not> starts_with dir (lit ''pfs:'')"
  shows "pfs_list_match dir name = Some child \<longleftrightarrow> name = dir @ 47 # child \<and> child \<noteq> [] \<and> 47 \<notin> set child"
proof
  assume "pfs_list_match dir name = Some child"
  then have *: "starts_with name dir" "length dir < length name" "name ! length dir = 47"
      "child = drop (length dir + 1) name" "child \<noteq> []" "47 \<notin> set child"
    using assms by (auto simp: pfs_list_match_def Let_def eq_def not_le split: if_splits)
  then obtain r where "name = dir @ r" by (auto simp: starts_with_iff)
  with * show "name = dir @ 47 # child \<and> child \<noteq> [] \<and> 47 \<notin> set child" by (cases r) auto
next
  assume "name = dir @ 47 # child \<and> child \<noteq> [] \<and> 47 \<notin> set child"
  then show "pfs_list_match dir name = Some child"
    using assms by (auto simp: pfs_list_match_def Let_def eq_def starts_with_iff)
qed

end
