(* ===== verification/Pfs_Dir.thy ===== *)
theory Pfs_Dir
  imports Pfs_Path
begin

text \<open>
  The directory operations on the RYMFS header, \<^verbatim>\<open>kernel/src/main.rs\<close>: lookup, the
  parent check, the empty-directory check, unlink and rename.  Their invariant is
  \<open>pfs_tree\<close>: names are unique and valid and every entry's parent is a directory of the
  header.  Lookup, unlink and rename refine the dictionary of the \<open>slot_table\<close>
  interface.
\<close>

definition pfs_find_entry :: "bytes \<Rightarrow> bytes \<Rightarrow> nat option" where
  "pfs_find_entry header name =
     find (\<lambda>index. pfs_entry_used header index \<and> pfs_entry_name header index = name) [0..<PFS_ENTRY_COUNT]"

definition pfs_parent_exists :: "bytes \<Rightarrow> bytes \<Rightarrow> bool" where
  "pfs_parent_exists header name =
     (case find_last_byte name 47 of
        None \<Rightarrow> True
      | Some slash \<Rightarrow>
          if slash = 0 \<or> slash + 1 \<ge> length name then False
          else case pfs_find_entry header (take slash name) of
              None \<Rightarrow> False
            | Some index \<Rightarrow> pfs_entry_is_dir header index)"

definition pfs_dir_empty :: "bytes \<Rightarrow> bytes \<Rightarrow> bool" where
  "pfs_dir_empty header dir =
     list_all (\<lambda>index. \<not> (pfs_entry_used header index \<and>
       (let name = pfs_entry_name header index in
        length name > length dir \<and> starts_with name dir \<and> name ! length dir = 47)))
       [0..<PFS_ENTRY_COUNT]"

definition pfs_free_entry :: "bytes \<Rightarrow> nat option" where
  "pfs_free_entry header = find (\<lambda>index. \<not> pfs_entry_used header index) [0..<PFS_ENTRY_COUNT]"

definition pfs_unlink_header :: "bytes \<Rightarrow> bytes \<Rightarrow> int + bytes" where
  "pfs_unlink_header header name =
     (case pfs_find_entry header name of
        None \<Rightarrow> Inl (- 1)
      | Some index \<Rightarrow>
          if pfs_entry_is_dir header index \<and> \<not> pfs_dir_empty header name then Inl (- 2)
          else Inr (pfs_clear_entry index header))"

definition pfs_rename_header :: "u64 \<Rightarrow> bytes \<Rightarrow> bytes \<Rightarrow> bytes \<Rightarrow> int + bytes" where
  "pfs_rename_header now header old_name new_name =
     (if \<not> valid_pfs_path old_name \<or> \<not> valid_pfs_path new_name then Inl (- 1)
      else case pfs_find_entry header old_name of
        None \<Rightarrow> Inl (- 2)
      | Some index \<Rightarrow>
          if pfs_find_entry header new_name \<noteq> None then Inl (- 3)
          else if \<not> pfs_parent_exists header new_name then Inl (- 4)
          else if pfs_entry_is_dir header index \<and> \<not> pfs_dir_empty header old_name then Inl (- 5)
          else
            let kind = pfs_entry_kind header index;
                fsize = pfs_entry_size header index;
                extent_count = pfs_entry_extent_count header index;
                extents = map (pfs_entry_extent header index) [0..<extent_count];
                created = pfs_entry_created header index;
                mode = pfs_entry_mode header index
            in Inr (pfs_set_entry now header index new_name fsize kind extents created mode))"

section \<open>The dictionary\<close>

lemma pfs_find_entry_lookup: "pfs_find_entry h = pfs.lookup h"
  by (simp add: pfs_find_entry_def pfs.lookup_def fun_eq_iff)

lemma pfs_free_entry_slot: "pfs_free_entry h = pfs.free_slot h"
  by (simp add: pfs_free_entry_def pfs.free_slot_def)

lemmas find_entry_SomeD = pfs.lookup_SomeD [folded pfs_find_entry_lookup]
lemmas find_entry_NoneD = pfs.lookup_NoneD [folded pfs_find_entry_lookup]
lemmas find_entry_uniq = pfs.lookup_uniq [folded pfs_find_entry_lookup]
lemmas free_entry_SomeD = pfs.free_slot_SomeD [folded pfs_free_entry_slot]

text \<open>The last component and the directory part of a name.\<close>

definition parent_of :: "bytes \<Rightarrow> bytes option" where
  "parent_of name = map_option (\<lambda>slash. take slash name) (find_last_byte name 47)"

definition dir_named :: "bytes \<Rightarrow> bytes \<Rightarrow> bool" where
  "dir_named h name \<longleftrightarrow> (\<exists>i. pfs_find_entry h name = Some i \<and> pfs_entry_is_dir h i)"

lemma parent_of_Some: "parent_of name = Some p \<Longrightarrow> \<exists>c. name = p @ 47 # c \<and> 47 \<notin> set c"
  unfolding parent_of_def using find_last_byte_Some [of name 47] by fastforce

lemma parent_of_append: "47 \<notin> set c \<Longrightarrow> parent_of (p @ 47 # c) = Some p"
  by (simp add: parent_of_def find_last_byte_append)

lemma parent_exists_iff:
  "pfs_parent_exists h name \<longleftrightarrow>
     (case parent_of name of None \<Rightarrow> True | Some p \<Rightarrow> p \<noteq> [] \<and> last name \<noteq> 47 \<and> dir_named h p)"
proof (cases "find_last_byte name 47")
  case None
  then show ?thesis by (simp add: pfs_parent_exists_def parent_of_def)
next
  case (Some s)
  note f = find_last_byte_Some [OF Some]
  have "s + 1 \<ge> length name \<longleftrightarrow> last name = 47"
  proof
    assume "s + 1 \<ge> length name"
    with f have "drop (Suc s) name = []" by simp
    with f(1) show "last name = 47" by (metis last_snoc)
  next
    assume l: "last name = 47"
    show "s + 1 \<ge> length name"
    proof (rule ccontr)
      assume "\<not> s + 1 \<ge> length name"
      then have "drop (Suc s) name \<noteq> []" by simp
      then have "last name \<in> set (drop (Suc s) name)" by (metis last_drop last_in_set drop_eq_Nil not_le)
      with f(2) l show False by simp
    qed
  qed
  moreover have "take s name = [] \<longleftrightarrow> s = 0" using f(3) by auto
  ultimately show ?thesis
    by (auto simp: pfs_parent_exists_def parent_of_def dir_named_def Some split: option.splits)
qed

lemma dir_empty_iff:
  "pfs_dir_empty h dir \<longleftrightarrow> (\<forall>i<256. \<forall>r. pfs_entry_used h i \<longrightarrow> pfs_entry_name h i \<noteq> dir @ 47 # r)"
proof -
  have "(length dir < length n \<and> starts_with n dir \<and> n ! length dir = 47) \<longleftrightarrow> (\<exists>r. n = dir @ 47 # r)" for n
  proof
    assume a: "length dir < length n \<and> starts_with n dir \<and> n ! length dir = 47"
    then obtain r where "n = dir @ r" by (auto simp: starts_with_iff)
    with a show "\<exists>r. n = dir @ 47 # r" by (cases r) auto
  qed (auto simp: starts_with_iff)
  then show ?thesis by (auto simp: pfs_dir_empty_def list_all_iff Let_def)
qed

section \<open>The directory tree\<close>

definition pfs_tree :: "bytes \<Rightarrow> bool" where
  "pfs_tree h \<longleftrightarrow> header_wf h \<and> pfs.uniq h \<and>
     (\<forall>i<256. pfs_entry_used h i \<longrightarrow> valid_pfs_path (pfs_entry_name h i) \<and> pfs_parent_exists h (pfs_entry_name h i))"

lemma pfs_treeD:
  assumes "pfs_tree h"
  shows "header_wf h" "pfs.uniq h"
    "i < 256 \<Longrightarrow> pfs_entry_used h i \<Longrightarrow> valid_pfs_path (pfs_entry_name h i)"
    "i < 256 \<Longrightarrow> pfs_entry_used h i \<Longrightarrow> pfs_parent_exists h (pfs_entry_name h i)"
  using assms by (simp_all add: pfs_tree_def)

lemma pfs_tree_format: "pfs_tree pfs_format_header"
  using format_header_facts by (simp add: pfs_tree_def pfs.uniq_def)

lemma parent_exists_mono:
  "pfs_parent_exists h name \<Longrightarrow> (\<And>p. parent_of name = Some p \<Longrightarrow> dir_named h p \<Longrightarrow> dir_named h' p) \<Longrightarrow>
     pfs_parent_exists h' name"
  by (auto simp: parent_exists_iff split: option.splits)

text \<open>Every proper prefix of a name that ends before a slash is a directory.\<close>

lemma tree_ancestors:
  assumes "pfs_tree h" "i < 256" "pfs_entry_used h i" "pfs_entry_name h i = p @ 47 # r"
  shows "dir_named h p"
  using assms(2-)
proof (induction "length r" arbitrary: i r rule: less_induct)
  case less
  have "pfs_parent_exists h (p @ 47 # r)" using pfs_treeD(4) [OF assms(1)] less.prems by metis
  show ?case
  proof (cases "47 \<in> set r")
    case False
    with \<open>pfs_parent_exists h _\<close> show ?thesis by (simp add: parent_exists_iff parent_of_append)
  next
    case True
    then obtain q c where r: "r = q @ 47 # c" "47 \<notin> set c" by (meson split_list_last)
    then have "parent_of (p @ 47 # r) = Some (p @ 47 # q)"
      using parent_of_append [of c "p @ 47 # q"] by simp
    with \<open>pfs_parent_exists h _\<close> obtain j where j: "pfs_find_entry h (p @ 47 # q) = Some j"
      by (auto simp: parent_exists_iff dir_named_def)
    show ?thesis
      by (rule less.hyps [of q j]) (use r find_entry_SomeD [OF j] in auto)
  qed
qed

text \<open>
  A change of one slot that keeps the tree: the slot's new name is fresh and its parent is a
  directory afterwards, and no other entry depended on the old one.
\<close>

lemma pfs_tree_replace:
  assumes "pfs_tree h" "i < 256" "header_wf h'" "pfs.uniq h'"
    and other: "\<And>j. j < 256 \<Longrightarrow> j \<noteq> i \<Longrightarrow> pfs_entry_at h' j = pfs_entry_at h j"
    and self: "pfs_entry_used h' i \<Longrightarrow> valid_pfs_path (pfs_entry_name h' i) \<and> pfs_parent_exists h' (pfs_entry_name h' i)"
    and keep: "\<And>j r. j < 256 \<Longrightarrow> j \<noteq> i \<Longrightarrow> pfs_entry_used h j \<Longrightarrow> pfs_entry_used h i \<Longrightarrow> pfs_entry_is_dir h i \<Longrightarrow>
      pfs_entry_name h j = pfs_entry_name h i @ 47 # r \<Longrightarrow>
      pfs_entry_is_dir h' i \<and> pfs_entry_name h' i = pfs_entry_name h i"
  shows "pfs_tree h'"
  unfolding pfs_tree_def
proof (intro conjI allI impI assms(3,4))
  fix j
  assume j: "j < 256" "pfs_entry_used h' j"
  have "valid_pfs_path (pfs_entry_name h' j) \<and> pfs_parent_exists h' (pfs_entry_name h' j)" if "j \<noteq> i"
  proof -
    have u: "pfs_entry_used h j" and n: "pfs_entry_name h' j = pfs_entry_name h j"
      using j that other [of j] by (simp_all add: accessors_of_entry)
    have "dir_named h' p" if p: "parent_of (pfs_entry_name h j) = Some p" "dir_named h p" for p
    proof -
      obtain k where k: "pfs_find_entry h p = Some k" "pfs_entry_is_dir h k" using p by (auto simp: dir_named_def)
      note kd = find_entry_SomeD [OF k(1)]
      obtain r where r: "pfs_entry_name h j = p @ 47 # r" using parent_of_Some [OF p(1)] by auto
      have "pfs_entry_used h' k \<and> pfs_entry_is_dir h' k \<and> pfs_entry_name h' k = p"
      proof (cases "k = i")
        case True
        then show ?thesis using keep [OF j(1) \<open>j \<noteq> i\<close> u, of r] k kd r
          by (auto simp: accessors_of_entry PFS_KIND_DIR_def)
      next
        case False
        then show ?thesis using other [of k] k kd by (simp add: accessors_of_entry)
      qed
      with kd show ?thesis using find_entry_uniq [OF assms(4), of k p] by (auto simp: dir_named_def)
    qed
    then show ?thesis
      using pfs_treeD(3,4) [OF assms(1) j(1) u] n parent_exists_mono by auto
  qed
  with self j show "valid_pfs_path (pfs_entry_name h' j)" "pfs_parent_exists h' (pfs_entry_name h' j)"
    by (cases "j = i"; simp)+
qed

lemma dir_named_frame:
  assumes "pfs.uniq h'" "pfs_find_entry h p = Some k" "pfs_entry_is_dir h k" "pfs_entry_at h' k = pfs_entry_at h k"
  shows "dir_named h' p"
proof -
  have "k < 256" "pfs_entry_used h' k" "pfs_entry_name h' k = p" "pfs_entry_is_dir h' k"
    using find_entry_SomeD [OF assms(2)] assms(3,4) by (simp_all add: accessors_of_entry)
  with find_entry_uniq [OF assms(1)] show ?thesis by (auto simp: dir_named_def)
qed

lemma put_entry_at:
  assumes "header_wf h" "i < 256" "entry_args_ok name (now, fsize, kind, extents, created, mode)"
  shows "pfs_entry_at (put_entry i name (now, fsize, kind, extents, created, mode) h) i =
      \<lparr>e_kind = kind, e_name = name, e_size = fsize, e_extents = extents, e_created = created,
       e_modified = now, e_mode = mode\<rparr>"
    "j < 256 \<Longrightarrow> j \<noteq> i \<Longrightarrow>
      pfs_entry_at (put_entry i name (now, fsize, kind, extents, created, mode) h) j = pfs_entry_at h j"
proof -
  have a: "length name \<le> 96" "length extents \<le> 4" "fsize < 2 ^ 32" using assms(3) by (simp_all add: entry_args_ok_def)
  show "pfs_entry_at (put_entry i name (now, fsize, kind, extents, created, mode) h) i =
      \<lparr>e_kind = kind, e_name = name, e_size = fsize, e_extents = extents, e_created = created,
       e_modified = now, e_mode = mode\<rparr>"
    using pfs_entry_at_set_same [OF header_wfD(1) [OF assms(1)] assms(2) a] by (simp add: put_entry_def)
  show "j < 256 \<Longrightarrow> j \<noteq> i \<Longrightarrow>
      pfs_entry_at (put_entry i name (now, fsize, kind, extents, created, mode) h) j = pfs_entry_at h j"
    using pfs_set_entry_wf(2) [OF assms(1,2) a(1)] by (simp add: put_entry_def)
qed

text \<open>
  Storing an entry under a name that no other slot has: a new slot, the same name again
  (with the same kind), or a rename of an entry nothing depends on.
\<close>

lemma pfs_tree_put:
  fixes v :: entry_rest
  assumes t: "pfs_tree h" and i: "i < 256" and ok: "entry_args_ok name v"
    and fresh: "\<And>j. j < 256 \<Longrightarrow> j \<noteq> i \<Longrightarrow> pfs_entry_used h j \<Longrightarrow> pfs_entry_name h j \<noteq> name"
    and name: "valid_pfs_path name" "pfs_parent_exists h name"
    and outside: "pfs_entry_used h i \<Longrightarrow> parent_of name \<noteq> Some (pfs_entry_name h i)"
    and keep: "\<And>r j. pfs_entry_used h i \<Longrightarrow> pfs_entry_is_dir h i \<Longrightarrow> j < 256 \<Longrightarrow> pfs_entry_used h j \<Longrightarrow>
      pfs_entry_name h j = pfs_entry_name h i @ 47 # r \<Longrightarrow>
      name = pfs_entry_name h i \<and> fst (snd (snd v)) = PFS_KIND_DIR"
  shows "pfs_tree (put_entry i name v h)"
proof -
  let ?h = "put_entry i name v h"
  obtain now fsize kind extents created mode where v: "v = (now, fsize, kind, extents, created, mode)"
    by (cases v)
  note at = put_entry_at [OF pfs_treeD(1) [OF t] i ok [unfolded v], folded v]
  have u: "pfs.uniq ?h" by (rule pfs.uniq_put [OF pfs_treeD(1) [OF t] i ok pfs_treeD(2) [OF t] fresh])
  have "pfs_parent_exists ?h name"
  proof (rule parent_exists_mono [OF name(2)])
    fix p
    assume p: "parent_of name = Some p" "dir_named h p"
    then obtain k where k: "pfs_find_entry h p = Some k" "pfs_entry_is_dir h k" by (auto simp: dir_named_def)
    with p outside find_entry_SomeD [OF k(1)] have "k \<noteq> i" by auto
    with k at(2) [of k] find_entry_SomeD [OF k(1)] show "dir_named ?h p" by (intro dir_named_frame [OF u k]) simp
  qed
  with at(1) name(1) have self: "valid_pfs_path (pfs_entry_name ?h i) \<and> pfs_parent_exists ?h (pfs_entry_name ?h i)"
    by (simp add: accessors_of_entry)
  show ?thesis
  proof (rule pfs_tree_replace [OF t i pfs.put_ok [OF pfs_treeD(1) [OF t] i ok] u at(2) self])
    fix j r
    assume "j < 256" "pfs_entry_used h j" "pfs_entry_used h i" "pfs_entry_is_dir h i"
      "pfs_entry_name h j = pfs_entry_name h i @ 47 # r"
    from keep [OF this(3,4,1,2,5)] at(1)
    show "pfs_entry_is_dir ?h i \<and> pfs_entry_name ?h i = pfs_entry_name h i"
      by (simp add: accessors_of_entry v)
  qed
qed

lemma pfs_tree_clear:
  assumes t: "pfs_tree h" and i: "i < 256" "pfs_entry_used h i"
    and e: "pfs_entry_is_dir h i \<Longrightarrow> pfs_dir_empty h (pfs_entry_name h i)"
  shows "pfs_tree (pfs_clear_entry i h)"
proof (rule pfs_tree_replace [OF t i(1)])
  show "header_wf (pfs_clear_entry i h)" "pfs.uniq (pfs_clear_entry i h)"
    using pfs.erase_ok pfs.uniq_erase pfs_treeD [OF t] i by blast+
  show "valid_pfs_path (pfs_entry_name (pfs_clear_entry i h) i) \<and>
      pfs_parent_exists (pfs_clear_entry i h) (pfs_entry_name (pfs_clear_entry i h) i)"
    if "pfs_entry_used (pfs_clear_entry i h) i"
    using that pfs_clear_entry_wf(3) [OF pfs_treeD(1) [OF t] i(1)] by (simp add: accessors_of_entry)
  show "pfs_entry_is_dir (pfs_clear_entry i h) i \<and> pfs_entry_name (pfs_clear_entry i h) i = pfs_entry_name h i"
    if "j < 256" "pfs_entry_used h j" "pfs_entry_is_dir h i" "pfs_entry_name h j = pfs_entry_name h i @ 47 # r" for j r
    using that e by (auto simp: dir_empty_iff)
qed (use pfs_clear_entry_wf(2) pfs_treeD(1) [OF t] i in blast)

text \<open>A concrete tree: the directory \<^verbatim>\<open>a\<close> on a freshly formatted volume.\<close>

definition demo_dir :: bytes where
  "demo_dir = pfs_set_entry 7 pfs_format_header 0 (lit ''a'') 0 PFS_KIND_DIR [] 7 PFS_MODE_DEFAULT_DIR"

lemma demo_dir_put:
  "demo_dir = put_entry 0 (lit ''a'') (7, 0, PFS_KIND_DIR, [], 7, PFS_MODE_DEFAULT_DIR) pfs_format_header"
  by (simp add: demo_dir_def put_entry_def)

lemma demo_args_ok: "entry_args_ok (lit ''a'') (7, 0, PFS_KIND_DIR, [], 7, PFS_MODE_DEFAULT_DIR)"
  by (simp add: entry_args_ok_def PFS_KIND_DIR_def)

lemma demo_path: "valid_pfs_path (lit ''a'')" "find_last_byte (lit ''a'') 47 = None" "parent_of (lit ''b'') = None"
  by code_simp+

lemma demo_dir_facts:
  "pfs_tree demo_dir" "pfs_find_entry demo_dir = [lit ''a'' \<mapsto> 0]"
  "pfs_entry_at demo_dir 0 = \<lparr>e_kind = PFS_KIND_DIR, e_name = lit ''a'', e_size = 0, e_extents = [],
     e_created = 7, e_modified = 7, e_mode = PFS_MODE_DEFAULT_DIR\<rparr>"
  "i < 256 \<Longrightarrow> pfs_entry_used demo_dir i \<longleftrightarrow> i = 0"
proof -
  note wf = pfs_treeD [OF pfs_tree_format]
  have none: "\<not> pfs_entry_used pfs_format_header j" if "j < 256" for j using that format_header_facts(2) by blast
  show "pfs_tree demo_dir"
    unfolding demo_dir_put using none demo_path
    by (intro pfs_tree_put [OF pfs_tree_format _ demo_args_ok]) (auto simp: parent_exists_iff parent_of_def)
  have "pfs_find_entry pfs_format_header = Map.empty"
    using none by (auto simp: pfs_find_entry_def fun_eq_iff find_upt_None)
  then show "pfs_find_entry demo_dir = [lit ''a'' \<mapsto> 0]"
    using pfs.lookup_put [OF wf(1) _ demo_args_ok wf(2), of 0] none
    by (simp add: pfs_find_entry_lookup demo_dir_put del: lit_simps)
  show "pfs_entry_at demo_dir 0 = \<lparr>e_kind = PFS_KIND_DIR, e_name = lit ''a'', e_size = 0, e_extents = [],
     e_created = 7, e_modified = 7, e_mode = PFS_MODE_DEFAULT_DIR\<rparr>"
    unfolding demo_dir_put by (rule put_entry_at(1) [OF wf(1) _ demo_args_ok]) simp
  show "pfs_entry_used demo_dir i \<longleftrightarrow> i = 0" if "i < 256"
    unfolding demo_dir_put using pfs.used_put [OF wf(1) _ demo_args_ok that, of 0] none that by simp
qed

section \<open>Properties\<close>

text \<open>A directory with an entry below it.\<close>

definition has_entries :: "bytes \<Rightarrow> bytes \<Rightarrow> bool" where
  "has_entries h name \<longleftrightarrow> dir_named h name \<and> (\<exists>j<256. \<exists>r. pfs_entry_used h j \<and> pfs_entry_name h j = name @ 47 # r)"

text \<open>
  C4.  Unlinking on a well-formed directory tree refuses exactly a name that has no entry and a directory that still has
  an entry below it, each with its own error.  Any other name exists and is removed: the dictionary loses exactly
  that name, every other entry is as it was and the tree stays well formed.
\<close>

theorem pfs_unlink_header_correct:
  assumes "pfs_tree h"
  shows "case pfs_unlink_header h name of
      Inl e \<Rightarrow> (e = - 1 \<and> pfs_find_entry h name = None) \<or> (e = - 2 \<and> has_entries h name)
    | Inr h' \<Rightarrow> pfs_find_entry h name \<noteq> None \<and> \<not> has_entries h name \<and> pfs_tree h' \<and>
        pfs_find_entry h' = (pfs_find_entry h)(name := None) \<and>
        (\<forall>j<256. pfs_find_entry h name \<noteq> Some j \<longrightarrow> pfs_entry_at h' j = pfs_entry_at h j)"
proof (cases "pfs_find_entry h name")
  case None
  then show ?thesis by (simp add: pfs_unlink_header_def)
next
  case (Some i)
  note d = find_entry_SomeD [OF Some]
  have n: "has_entries h name \<longleftrightarrow> pfs_entry_is_dir h i \<and> \<not> pfs_dir_empty h name"
    using Some by (auto simp: has_entries_def dir_named_def dir_empty_iff)
  show ?thesis
  proof (cases "has_entries h name")
    case True
    with Some n show ?thesis by (simp add: pfs_unlink_header_def)
  next
    case False
    with d n assms have "pfs_tree (pfs_clear_entry i h)" by (intro pfs_tree_clear) auto
    moreover have "pfs_find_entry (pfs_clear_entry i h) = (pfs_find_entry h)(name := None)"
      using pfs.lookup_erase [OF pfs_treeD(1) [OF assms] d(1) pfs_treeD(2) [OF assms] d(2)] d(3)
      by (simp add: pfs_find_entry_lookup)
    moreover have "\<forall>j<256. i \<noteq> j \<longrightarrow> pfs_entry_at (pfs_clear_entry i h) j = pfs_entry_at h j"
      using pfs_clear_entry_wf(2) [OF pfs_treeD(1) [OF assms] d(1)] by auto
    ultimately show ?thesis using False n Some by (auto simp: pfs_unlink_header_def)
  qed
qed

theorem pfs_unlink_header_correct_witness:
  "pfs_tree demo_dir \<and> (\<exists>h'. pfs_unlink_header demo_dir (lit ''a'') = Inr h' \<and> pfs_tree h' \<and>
     pfs_find_entry h' (lit ''a'') = None) \<and> pfs_unlink_header demo_dir (lit ''b'') = Inl (- 1)"
proof -
  have "pfs_dir_empty demo_dir (lit ''a'')"
    using demo_dir_facts(3,4) by (auto simp: dir_empty_iff accessors_of_entry)
  then have "\<exists>h'. pfs_unlink_header demo_dir (lit ''a'') = Inr h'"
    using demo_dir_facts(2) by (simp add: pfs_unlink_header_def)
  moreover have "lit ''b'' \<noteq> lit ''a''" by code_simp
  then have "pfs_find_entry demo_dir (lit ''b'') = None" using demo_dir_facts(2) by (simp del: lit_simps)
  then have "pfs_unlink_header demo_dir (lit ''b'') = Inl (- 1)" by (simp add: pfs_unlink_header_def del: lit_simps)
  ultimately show ?thesis
    using pfs_unlink_header_correct [OF demo_dir_facts(1), of "lit ''a''"] demo_dir_facts(1)
    by (auto simp del: lit_simps)
qed

lemma rename_put:
  "pfs_rename_header now h old new =
     (if \<not> valid_pfs_path old \<or> \<not> valid_pfs_path new then Inl (- 1)
      else case pfs_find_entry h old of
        None \<Rightarrow> Inl (- 2)
      | Some i \<Rightarrow>
          if pfs_find_entry h new \<noteq> None then Inl (- 3)
          else if \<not> pfs_parent_exists h new then Inl (- 4)
          else if pfs_entry_is_dir h i \<and> \<not> pfs_dir_empty h old then Inl (- 5)
          else let e = pfs_entry_at h i in
            Inr (put_entry i new (now, e_size e, e_kind e, e_extents e, e_created e, e_mode e) h))"
  by (simp add: pfs_rename_header_def pfs_entry_at_def put_entry_def Let_def split: option.split)

lemma entry_size_bound: "e_size (pfs_entry_at h i) < 2 ^ 32"
  using unat_bound [where 'l = 32] by (simp add: pfs_entry_at_def pfs_entry_size_def Let_def)

lemma rename_args_ok:
  assumes "pfs_find_entry h old = Some i" "valid_pfs_path new"
  shows "entry_args_ok new (now, e_size (pfs_entry_at h i), e_kind (pfs_entry_at h i),
    e_extents (pfs_entry_at h i), e_created (pfs_entry_at h i), e_mode (pfs_entry_at h i))"
  using find_entry_SomeD [OF assms(1)] assms(2) length_e_extents [of h i] entry_size_bound [of h i]
  by (auto simp: entry_args_ok_def accessors_of_entry valid_pfs_path_def split: if_splits)

text \<open>The reference for the refusals of a rename, in the order of the checks.\<close>

definition rename_refusal :: "bytes \<Rightarrow> bytes \<Rightarrow> bytes \<Rightarrow> int option" where
  "rename_refusal h old new =
     (if \<not> valid_pfs_path old \<or> \<not> valid_pfs_path new then Some (- 1)
      else if pfs_find_entry h old = None then Some (- 2)
      else if pfs_find_entry h new \<noteq> None then Some (- 3)
      else if (case parent_of new of None \<Rightarrow> False | Some p \<Rightarrow> p = [] \<or> last new = 47 \<or> \<not> dir_named h p) then Some (- 4)
      else if has_entries h old then Some (- 5) else None)"

lemma rename_refusal_code:
  "rename_refusal h old new = (case pfs_rename_header now h old new of Inl e \<Rightarrow> Some e | Inr h' \<Rightarrow> None)"
proof -
  have p: "pfs_parent_exists h new \<longleftrightarrow> \<not> (case parent_of new of None \<Rightarrow> False | Some p \<Rightarrow> p = [] \<or> last new = 47 \<or> \<not> dir_named h p)"
    by (auto simp: parent_exists_iff split: option.split)
  have n: "has_entries h old \<longleftrightarrow> pfs_entry_is_dir h i \<and> \<not> pfs_dir_empty h old" if "pfs_find_entry h old = Some i" for i
    using that by (auto simp: has_entries_def dir_named_def dir_empty_iff)
  show ?thesis
    by (cases "pfs_find_entry h old") (simp_all add: rename_refusal_def rename_put p n Let_def)
qed

text \<open>
  C5.  Renaming on a well-formed tree, to a name whose parent is not the renamed entry itself.  It is refused exactly when one of the
  checks fails, with the error of the first of them: a bad name, no such entry, a name that is taken, a parent
  that is no directory, a directory with entries below it.  Otherwise the dictionary moves the entry from the old to the
  new name, the entry keeps its kind, size, extents, creation time and mode, every other entry is unchanged and
  the tree stays well formed.
\<close>

theorem pfs_rename_header_correct:
  assumes "pfs_tree h" "parent_of new \<noteq> Some old"
  shows "case pfs_rename_header now h old new of
      Inl e \<Rightarrow> rename_refusal h old new = Some e
    | Inr h' \<Rightarrow> rename_refusal h old new = None \<and> pfs_tree h' \<and> (\<exists>i. pfs_find_entry h old = Some i \<and>
        pfs_find_entry h' = (pfs_find_entry h)(old := None, new \<mapsto> i) \<and>
        pfs_entry_at h' i = (pfs_entry_at h i)\<lparr>e_name := new, e_modified := now\<rparr> \<and>
        (\<forall>j<256. j \<noteq> i \<longrightarrow> pfs_entry_at h' j = pfs_entry_at h j))"
proof (cases "pfs_rename_header now h old new")
  case (Inl e)
  then show ?thesis by (simp add: rename_refusal_code [where now = now])
next
  case (Inr h')
  define i where "i = the (pfs_find_entry h old)"
  let ?e = "pfs_entry_at h i"
  have i: "pfs_find_entry h old = Some i" and new: "pfs_find_entry h new = None" "pfs_parent_exists h new"
      "valid_pfs_path new" and empty: "pfs_entry_is_dir h i \<Longrightarrow> pfs_dir_empty h old"
    using Inr by (auto simp: rename_put Let_def i_def split: option.splits if_splits)
  let ?v = "(now, e_size ?e, e_kind ?e, e_extents ?e, e_created ?e, e_mode ?e)"
  have h': "h' = put_entry i new ?v h"
    using Inr i new empty by (auto simp: rename_put Let_def split: if_splits)
  note d = find_entry_SomeD [OF i]
  note ok = rename_args_ok [OF i new(3), of now]
  note fresh = find_entry_NoneD [OF new(1)]
  have "pfs_tree h'"
    unfolding h' using assms d new empty
    by (intro pfs_tree_put [OF assms(1) d(1) ok]) (auto simp: fresh dir_empty_iff)
  moreover have "pfs_find_entry h' = (pfs_find_entry h)(old := None, new \<mapsto> i)"
    using pfs.lookup_put [OF pfs_treeD(1) [OF assms(1)] d(1) ok pfs_treeD(2) [OF assms(1)]] d fresh
    by (simp add: pfs_find_entry_lookup h')
  moreover have "rename_refusal h old new = None" using Inr by (simp add: rename_refusal_code [where now = now])
  ultimately show ?thesis
    using Inr i put_entry_at [OF pfs_treeD(1) [OF assms(1)] d(1) ok] by (simp add: h')
qed

theorem pfs_rename_header_correct_witness:
  "pfs_tree demo_dir \<and> parent_of (lit ''b'') \<noteq> Some (lit ''a'') \<and>
   (\<exists>h'. pfs_rename_header 9 demo_dir (lit ''a'') (lit ''b'') = Inr h' \<and> pfs_tree h' \<and>
      pfs_find_entry h' (lit ''b'') = Some 0 \<and> pfs_find_entry h' (lit ''a'') = None)"
proof -
  have v: "valid_pfs_path (lit ''b'')" "lit ''a'' \<noteq> lit ''b''" by code_simp+
  have "pfs_dir_empty demo_dir (lit ''a'')"
    using demo_dir_facts(3,4) by (auto simp: dir_empty_iff accessors_of_entry)
  moreover have "pfs_parent_exists demo_dir (lit ''b'')" using demo_path by (simp add: parent_exists_iff del: lit_simps)
  ultimately have "\<exists>h'. pfs_rename_header 9 demo_dir (lit ''a'') (lit ''b'') = Inr h'"
    using demo_dir_facts(2) v demo_path by (simp add: rename_put Let_def del: lit_simps)
  then obtain h' where h: "pfs_rename_header 9 demo_dir (lit ''a'') (lit ''b'') = Inr h'" by blast
  have o: "parent_of (lit ''b'') \<noteq> Some (lit ''a'')" using demo_path by (simp del: lit_simps)
  from pfs_rename_header_correct [OF demo_dir_facts(1) o, of 9] h demo_dir_facts(1,2) o v show ?thesis
    by (auto simp del: lit_simps)
qed

lemma valid_path_append_component:
  "valid_path_loop f old \<Longrightarrow> old \<noteq> [] \<Longrightarrow> valid_path_loop f (old @ 47 # c) = valid_path_loop True c"
proof (induction old arbitrary: f)
  case (Cons b old)
  show ?case
  proof (cases "old = []")
    case True
    with Cons show ?thesis by (auto split: if_splits)
  next
    case False
    with Cons show ?thesis by (auto split: if_splits)
  qed
qed simp

text \<open>
  The exception to the previous property is real: the rename of an empty directory to a name
  directly below itself passes every check of the code, and the entry ends up below a directory
  that no longer exists, so the tree is no longer well formed.
\<close>

theorem pfs_rename_into_itself:
  assumes "pfs_tree h" "dir_named h old" "pfs_dir_empty h old" "valid_pfs_component c"
    "length old + 1 + length c \<le> PFS_NAME_MAX"
  shows "\<exists>h'. pfs_rename_header now h old (old @ 47 # c) = Inr h' \<and>
    pfs_find_entry h' (old @ 47 # c) \<noteq> None \<and> pfs_find_entry h' old = None \<and> \<not> pfs_tree h'"
proof -
  let ?new = "old @ 47 # c"
  obtain i where i: "pfs_find_entry h old = Some i" "pfs_entry_is_dir h i" using assms(2) by (auto simp: dir_named_def)
  note d = find_entry_SomeD [OF i(1)]
  have old: "valid_pfs_path old" using pfs_treeD(3) [OF assms(1) d(1,2)] d(3) by simp
  have c: "c \<noteq> []" "47 \<notin> set c" "last c \<noteq> 47"
    using component_no_slash [OF assms(4)] last_in_set [of c] by metis+
  have new: "valid_pfs_path ?new"
    using old assms(4,5) valid_path_append_component [of False old c] valid_path_loop_append [of c True "[]"]
    by (auto simp: valid_pfs_path_def valid_pfs_component_def split: if_splits)
  have none: "pfs_find_entry h ?new = None"
  proof (rule ccontr)
    assume "pfs_find_entry h ?new \<noteq> None"
    then obtain j where "pfs_find_entry h ?new = Some j" by blast
    from find_entry_SomeD [OF this] assms(3) show False by (auto simp: dir_empty_iff)
  qed
  have parent: "parent_of ?new = Some old" using c by (simp add: parent_of_append)
  have pe: "pfs_parent_exists h ?new"
    using parent c assms(2) old by (auto simp: parent_exists_iff valid_pfs_path_def)
  note ok = rename_args_ok [OF i(1) new, of now]
  let ?h = "put_entry i ?new (now, e_size (pfs_entry_at h i), e_kind (pfs_entry_at h i),
    e_extents (pfs_entry_at h i), e_created (pfs_entry_at h i), e_mode (pfs_entry_at h i)) h"
  have r: "pfs_rename_header now h old ?new = Inr ?h"
    using old new i none pe assms(3) by (simp add: rename_put Let_def)
  have look: "pfs_find_entry ?h = (pfs_find_entry h)(old := None, ?new \<mapsto> i)"
    using pfs.lookup_put [OF pfs_treeD(1) [OF assms(1)] d(1) ok pfs_treeD(2) [OF assms(1)]] d find_entry_NoneD [OF none]
    by (simp add: pfs_find_entry_lookup)
  have "\<not> pfs_parent_exists ?h ?new" using look parent by (simp add: parent_exists_iff dir_named_def)
  moreover have "pfs_entry_used ?h i" "pfs_entry_name ?h i = ?new"
    using pfs.used_put [OF pfs_treeD(1) [OF assms(1)] d(1) ok d(1)] pfs.key_put [OF pfs_treeD(1) [OF assms(1)] d(1) ok d(1)]
    by simp_all
  ultimately have "\<not> pfs_tree ?h" using d(1) pfs_treeD(4) [of ?h i] by auto
  with r look show ?thesis by simp
qed

theorem pfs_rename_into_itself_witness:
  "\<exists>h'. pfs_rename_header 9 demo_dir (lit ''a'') (lit ''a/b'') = Inr h' \<and>
    pfs_find_entry h' (lit ''a/b'') \<noteq> None \<and> pfs_find_entry h' (lit ''a'') = None \<and> \<not> pfs_tree h'"
proof -
  have "dir_named demo_dir (lit ''a'')" "pfs_dir_empty demo_dir (lit ''a'')" "valid_pfs_component (lit ''b'')"
    "length (lit ''a'') + 1 + length (lit ''b'') \<le> PFS_NAME_MAX"
    using demo_dir_facts by (auto simp: dir_named_def dir_empty_iff accessors_of_entry
        valid_pfs_component_def is_name_byte_def is_ascii_alphanumeric_def)
  from pfs_rename_into_itself [OF demo_dir_facts(1) this, of 9] show ?thesis by simp
qed

end
