(* ===== verification/Pfs_Alloc.thy ===== *)
theory Pfs_Alloc
  imports Pfs_Dir
begin

text \<open>
  Sector allocation of RYMFS, \<^verbatim>\<open>kernel/src/main.rs\<close>: there is no free-space bitmap,
  the free sectors are those no file's extent covers.  \<open>pfs_find_free_run\<close> is shown to
  return the first free run at or after its start, \<open>pfs_grow_extents\<close> to append
  sectors without moving the old ones, and \<open>pfs_entry_lba_for_sector\<close> to index the
  list of sectors of a file.  Sector numbers are 32-bit words, as in the code; extents read from
  the header are arbitrary words, so a corrupt header is covered by the definitions.
\<close>

definition PFS_SECTORS_PER_FILE :: nat where "PFS_SECTORS_PER_FILE = 524288"
definition PFS_FILE_MAX :: nat where "PFS_FILE_MAX = PFS_SECTORS_PER_FILE * 512"
definition PFS_DATA_START :: u32 where "PFS_DATA_START = 77"
definition PFS_DISK_SECTORS :: u32 where "PFS_DISK_SECTORS = 8388608"

definition sectors_for_len :: "nat \<Rightarrow> u32" where
  "sectors_for_len len = (if len = 0 then 0 else of_nat ((len + 511) div 512))"

definition pfs_entry_total_sectors :: "bytes \<Rightarrow> nat \<Rightarrow> u32" where
  "pfs_entry_total_sectors header index =
     foldl (\<lambda>total slot. total + ext_sectors (pfs_entry_extent header index slot)) 0
       [0..<pfs_entry_extent_count header index]"

fun lba_in_extents :: "pfs_extent list \<Rightarrow> u32 \<Rightarrow> u32 option" where
  "lba_in_extents [] remaining = None"
| "lba_in_extents (e # es) remaining =
     (if ext_sectors e = 0 then lba_in_extents es remaining
      else if remaining < ext_sectors e then Some (ext_start e + remaining)
      else lba_in_extents es (remaining - ext_sectors e))"

definition pfs_entry_lba_for_sector :: "bytes \<Rightarrow> nat \<Rightarrow> u32 \<Rightarrow> u32 option" where
  "pfs_entry_lba_for_sector header index logical_sector =
     lba_in_extents (map (pfs_entry_extent header index) [0..<pfs_entry_extent_count header index]) logical_sector"

section \<open>The first free run\<close>

text \<open>
  The two nested loops over the entries: \<open>Inl c\<close> when an extent covers the candidate (the
  \<^verbatim>\<open>blocked\<close> exit, with the new candidate), \<open>Inr o\<close> with the nearest obstacle
  above the candidate otherwise.
\<close>

fun scan_extents :: "u32 \<Rightarrow> u32 option \<Rightarrow> pfs_extent list \<Rightarrow> u32 + u32 option" where
  "scan_extents candidate next_obstacle [] = Inr next_obstacle"
| "scan_extents candidate next_obstacle (e # es) =
     (if ext_sectors e = 0 then scan_extents candidate next_obstacle es
      else
        let used_end = ext_start e + ext_sectors e in
        if ext_start e \<le> candidate \<and> candidate < used_end then Inl used_end
        else if ext_start e > candidate \<and> (case next_obstacle of None \<Rightarrow> True | Some current \<Rightarrow> ext_start e < current)
        then scan_extents candidate (Some (ext_start e)) es
        else scan_extents candidate next_obstacle es)"

fun scan_entries :: "bytes \<Rightarrow> nat option \<Rightarrow> u32 \<Rightarrow> u32 option \<Rightarrow> nat list \<Rightarrow> u32 + u32 option" where
  "scan_entries header skip_index candidate next_obstacle [] = Inr next_obstacle"
| "scan_entries header skip_index candidate next_obstacle (index # rest) =
     (if Some index = skip_index \<or> \<not> pfs_entry_used header index \<or> pfs_entry_is_dir header index
      then scan_entries header skip_index candidate next_obstacle rest
      else
        case scan_extents candidate next_obstacle
            (map (pfs_entry_extent header index) [0..<pfs_entry_extent_count header index]) of
          Inl c \<Rightarrow> Inl c
        | Inr next_obstacle \<Rightarrow> scan_entries header skip_index candidate next_obstacle rest)"

lemma scan_extents_advances: "scan_extents candidate ob es = Inl c \<Longrightarrow> candidate < c"
  by (induction candidate ob es rule: scan_extents.induct) (auto simp: Let_def split: if_splits)

lemma scan_entries_advances: "scan_entries h skip candidate ob is = Inl c \<Longrightarrow> candidate < c"
  by (induction h skip candidate ob "is" rule: scan_entries.induct)
    (auto split: if_splits sum.splits dest: scan_extents_advances)

function pfs_find_free_run :: "bytes \<Rightarrow> u32 \<Rightarrow> u32 \<Rightarrow> nat option \<Rightarrow> (u32 \<times> u32) option" where
  "pfs_find_free_run header candidate max_len skip_index =
     (if candidate \<ge> PFS_DISK_SECTORS then None
      else
        case scan_entries header skip_index candidate None [0..<PFS_ENTRY_COUNT] of
          Inl used_end \<Rightarrow> pfs_find_free_run header used_end max_len skip_index
        | Inr next_obstacle \<Rightarrow>
            let end_bound = min (case next_obstacle of None \<Rightarrow> PFS_DISK_SECTORS | Some o' \<Rightarrow> o') PFS_DISK_SECTORS in
            if end_bound \<le> candidate then None
            else
              let n = min (end_bound - candidate) max_len in
              if n = 0 then None else Some (candidate, n))"
  by pat_completeness auto
termination
proof (relation "measure (\<lambda>(header, candidate, max_len, skip_index). 2 ^ 32 - unat candidate)", simp)
  fix header :: bytes and candidate max_len :: u32 and skip_index used_end
  assume "scan_entries header skip_index candidate None [0..<PFS_ENTRY_COUNT] = Inl used_end"
  then have "candidate < used_end" by (rule scan_entries_advances)
  then show "((header, used_end, max_len, skip_index), header, candidate, max_len, skip_index)
      \<in> measure (\<lambda>(header, candidate, max_len, skip_index). 2 ^ 32 - unat candidate)"
    using unat_bound [of used_end] by (simp add: word_less_nat_alt)
qed

declare pfs_find_free_run.simps [simp del]

lemma find_free_run_bounds:
  "pfs_find_free_run h candidate max_len skip = Some (s, n) \<Longrightarrow> 0 < n \<and> n \<le> max_len \<and> candidate \<le> s"
proof (induction h candidate max_len skip rule: pfs_find_free_run.induct)
  case (1 h candidate max_len skip)
  show ?case
  proof (cases "scan_entries h skip candidate None [0..<PFS_ENTRY_COUNT]")
    case (Inl c)
    with 1 have "0 < n \<and> n \<le> max_len \<and> c \<le> s"
      by (subst (asm) (2) pfs_find_free_run.simps) (auto split: if_splits)
    with scan_entries_advances [OF Inl] show ?thesis by auto
  next
    case (Inr ob)
    with 1(2) show ?thesis
      by (subst (asm) pfs_find_free_run.simps) (auto simp: Let_def word_neq_0_conv split: if_splits)
  qed
qed

section \<open>Growing a file\<close>

text \<open>
  \<^verbatim>\<open>extents[..*count]\<close> is the list; \<open>None\<close> is the return value \<^verbatim>\<open>false\<close>,
  after which the caller drops the array.
\<close>

function grow_loop ::
  "bytes \<Rightarrow> pfs_extent list \<Rightarrow> u32 \<Rightarrow> u32 \<Rightarrow> nat option \<Rightarrow> pfs_extent list option" where
  "grow_loop header extents remaining search_from skip_index =
     (if remaining > 0 then
        (case pfs_find_free_run header search_from remaining skip_index of
           None \<Rightarrow> None
         | Some (run_start, run_len) \<Rightarrow>
             if extents \<noteq> [] \<and> run_start = ext_start (last extents) + ext_sectors (last extents) then
               grow_loop header
                 (butlast extents @ [(last extents)\<lparr>ext_sectors := ext_sectors (last extents) + run_len\<rparr>])
                 (remaining - run_len) (run_start + run_len) skip_index
             else if length extents \<ge> PFS_MAX_EXTENTS then None
             else grow_loop header (extents @ [\<lparr>ext_start = run_start, ext_sectors = run_len\<rparr>])
                 (remaining - run_len) (run_start + run_len) skip_index)
      else Some extents)"
  by pat_completeness auto
termination
proof (relation "measure (\<lambda>(header, extents, remaining, search_from, skip_index). unat remaining)", simp)
  show "((header, butlast extents @ [(last extents)\<lparr>ext_sectors := ext_sectors (last extents) + y\<rparr>],
      remaining - y, x + y, skip_index), header, extents, remaining, search_from, skip_index)
      \<in> measure (\<lambda>(header, extents, remaining, search_from, skip_index). unat remaining)"
    if "pfs_find_free_run header search_from remaining skip_index = Some z" "(x, y) = z"
    for header extents search_from skip_index z x y and remaining :: u32
    using find_free_run_bounds [of header search_from remaining skip_index x y] that
    by (auto simp: unat_sub word_less_nat_alt word_le_nat_alt)
  show "((header, extents @ [\<lparr>ext_start = x, ext_sectors = y\<rparr>],
      remaining - y, x + y, skip_index), header, extents, remaining, search_from, skip_index)
      \<in> measure (\<lambda>(header, extents, remaining, search_from, skip_index). unat remaining)"
    if "pfs_find_free_run header search_from remaining skip_index = Some z" "(x, y) = z"
    for header extents search_from skip_index z x y and remaining :: u32
    using find_free_run_bounds [of header search_from remaining skip_index x y] that
    by (auto simp: unat_sub word_less_nat_alt word_le_nat_alt)
qed

declare grow_loop.simps [simp del]

definition pfs_grow_extents :: "bytes \<Rightarrow> pfs_extent list \<Rightarrow> u32 \<Rightarrow> nat option \<Rightarrow> pfs_extent list option" where
  "pfs_grow_extents header extents additional_sectors skip_index =
     (let search_from = (if extents \<noteq> [] then ext_start (last extents) + ext_sectors (last extents)
                         else PFS_DATA_START) in
      grow_loop header extents additional_sectors search_from skip_index)"

section \<open>Extents as sets and lists of sectors\<close>

definition ext_end :: "pfs_extent \<Rightarrow> nat" where
  "ext_end e = unat (ext_start e) + unat (ext_sectors e)"

definition ext_set :: "pfs_extent \<Rightarrow> nat set" where
  "ext_set e = {unat (ext_start e)..<ext_end e}"

definition ext_ok :: "pfs_extent \<Rightarrow> bool" where
  "ext_ok e \<longleftrightarrow> unat PFS_DATA_START \<le> unat (ext_start e) \<and> ext_end e \<le> unat PFS_DISK_SECTORS"

definition sectors_of :: "pfs_extent list \<Rightarrow> nat list" where
  "sectors_of es = concat (map (\<lambda>e. [unat (ext_start e)..<ext_end e]) es)"

definition is_file :: "bytes \<Rightarrow> nat \<Rightarrow> bool" where
  "is_file h i \<longleftrightarrow> pfs_entry_used h i \<and> \<not> pfs_entry_is_dir h i"

definition entry_extents :: "bytes \<Rightarrow> nat \<Rightarrow> pfs_extent list" where
  "entry_extents h i = e_extents (pfs_entry_at h i)"

definition in_use :: "bytes \<Rightarrow> nat option \<Rightarrow> nat set" where
  "in_use h skip = (\<Union>i \<in> {i. i < 256 \<and> is_file h i \<and> Some i \<noteq> skip}. \<Union>e \<in> set (entry_extents h i). ext_set e)"

definition extents_ok :: "bytes \<Rightarrow> bool" where
  "extents_ok h \<longleftrightarrow> (\<forall>i<256. is_file h i \<longrightarrow> (\<forall>e\<in>set (entry_extents h i). ext_ok e))"

lemma disk_consts [simp]: "unat PFS_DISK_SECTORS = 8388608" "unat PFS_DATA_START = 77"
  by (simp_all add: PFS_DISK_SECTORS_def PFS_DATA_START_def)

lemma ext_end_word: "ext_ok e \<Longrightarrow> unat (ext_start e + ext_sectors e) = ext_end e"
  by (simp add: ext_ok_def ext_end_def unat_add_no_wrap)

lemma entry_extents_map:
  "map (pfs_entry_extent h i) [0..<pfs_entry_extent_count h i] = entry_extents h i"
  by (simp add: entry_extents_def pfs_entry_at_def)

lemma scan_extents_spec:
  assumes "\<forall>e\<in>set es. ext_ok e" "\<And>x. ob = Some x \<Longrightarrow> candidate < x"
  shows "case scan_extents candidate ob es of
      Inl c \<Rightarrow> \<exists>e\<in>set es. unat candidate \<in> ext_set e \<and> unat c = ext_end e
    | Inr ob' \<Rightarrow> (\<forall>e\<in>set es. unat candidate \<notin> ext_set e) \<and> (\<forall>x. ob' = Some x \<longrightarrow> candidate < x) \<and>
        (\<forall>e\<in>set es. ext_sectors e \<noteq> 0 \<longrightarrow> candidate < ext_start e \<longrightarrow> (\<exists>x. ob' = Some x \<and> x \<le> ext_start e)) \<and>
        (\<forall>x. ob = Some x \<longrightarrow> (\<exists>y. ob' = Some y \<and> y \<le> x))"
  using assms
proof (induction es arbitrary: ob)
  case Nil
  then show ?case by auto
next
  case (Cons e es)
  have w: "unat (ext_start e + ext_sectors e) = ext_end e" using Cons.prems(1) by (simp add: ext_end_word)
  have in_e: "(ext_start e \<le> candidate \<and> candidate < ext_start e + ext_sectors e) \<longleftrightarrow> unat candidate \<in> ext_set e"
    by (simp add: word_le_nat_alt word_less_nat_alt w ext_set_def)
  consider (zero) "ext_sectors e = 0" | (blocked) "ext_sectors e \<noteq> 0" "unat candidate \<in> ext_set e"
    | (closer) "ext_sectors e \<noteq> 0" "unat candidate \<notin> ext_set e" "ext_start e > candidate"
        "(case ob of None \<Rightarrow> True | Some current \<Rightarrow> ext_start e < current)"
    | (far) "ext_sectors e \<noteq> 0" "unat candidate \<notin> ext_set e"
        "\<not> (ext_start e > candidate \<and> (case ob of None \<Rightarrow> True | Some current \<Rightarrow> ext_start e < current))"
    by blast
  then show ?case
  proof cases
    case zero
    then have "unat candidate \<notin> ext_set e" by (simp add: ext_set_def ext_end_def)
    with zero Cons.prems Cons.IH [of ob] show ?thesis by (auto split: sum.splits)
  next
    case blocked
    with in_e w show ?thesis by (simp add: Let_def)
  next
    case closer
    have s: "scan_extents candidate ob (e # es) = scan_extents candidate (Some (ext_start e)) es"
      using closer in_e by (auto simp: Let_def)
    have "case scan_extents candidate (Some (ext_start e)) es of
        Inl c \<Rightarrow> \<exists>e\<in>set es. unat candidate \<in> ext_set e \<and> unat c = ext_end e
      | Inr ob' \<Rightarrow> (\<forall>e\<in>set es. unat candidate \<notin> ext_set e) \<and> (\<forall>x. ob' = Some x \<longrightarrow> candidate < x) \<and>
          (\<forall>e\<in>set es. ext_sectors e \<noteq> 0 \<longrightarrow> candidate < ext_start e \<longrightarrow> (\<exists>x. ob' = Some x \<and> x \<le> ext_start e)) \<and>
          (\<exists>y. ob' = Some y \<and> y \<le> ext_start e)"
      using closer Cons.prems Cons.IH [of "Some (ext_start e)"] by (auto split: sum.splits)
    with closer show ?thesis unfolding s by (fastforce split: sum.splits option.splits)
  next
    case far
    have s: "scan_extents candidate ob (e # es) = scan_extents candidate ob es"
      using far in_e by (auto simp: Let_def)
    from far Cons.prems Cons.IH [of ob] show ?thesis
      unfolding s by (cases ob) (auto split: sum.splits intro: order_trans simp: not_less)
  qed
qed

text \<open>The two loops are one scan of all the extents of the other files.\<close>

lemma scan_extents_append:
  "scan_extents c ob (xs @ ys) =
     (case scan_extents c ob xs of Inl c \<Rightarrow> Inl c | Inr ob \<Rightarrow> scan_extents c ob ys)"
  by (induction c ob xs rule: scan_extents.induct) (auto simp: Let_def)

definition obstacles :: "bytes \<Rightarrow> nat option \<Rightarrow> nat list \<Rightarrow> pfs_extent list" where
  "obstacles h skip is = concat (map (entry_extents h) (filter (\<lambda>i. is_file h i \<and> Some i \<noteq> skip) is))"

lemma scan_entries_flat: "scan_entries h skip c ob is = scan_extents c ob (obstacles h skip is)"
  by (induction h skip c ob "is" rule: scan_entries.induct)
    (auto simp: obstacles_def scan_extents_append is_file_def entry_extents_map split: sum.split)

lemma in_use_obstacles: "in_use h skip = (\<Union>e \<in> set (obstacles h skip [0..<256]). ext_set e)"
  by (auto simp: in_use_def obstacles_def)

lemma obstacles_ok: "extents_ok h \<Longrightarrow> \<forall>e\<in>set (obstacles h skip [0..<256]). ext_ok e"
  by (auto simp: obstacles_def extents_ok_def)

text \<open>The run found starts at the first free sector, is free and lies on the disk.\<close>

lemma find_free_run_spec:
  assumes "extents_ok h"
  shows "case pfs_find_free_run h candidate max_len skip of
      None \<Rightarrow> max_len = 0 \<or> {unat candidate..<8388608} \<subseteq> in_use h skip
    | Some (s, n) \<Rightarrow> {unat candidate..<unat s} \<subseteq> in_use h skip \<and> unat s + unat n \<le> 8388608 \<and>
        {unat s..<unat s + unat n} \<inter> in_use h skip = {}"
  using assms
proof (induction h candidate max_len skip rule: pfs_find_free_run.induct)
  case (1 h candidate max_len skip)
  let ?obs = "obstacles h skip [0..<256]"
  note sc = scan_extents_spec [OF obstacles_ok [OF 1(2), of skip], of None candidate]
  show ?case
  proof (cases "candidate \<ge> PFS_DISK_SECTORS")
    case True
    then have "unat PFS_DISK_SECTORS \<le> unat candidate" by (simp only: word_le_nat_alt)
    with True show ?thesis by (subst pfs_find_free_run.simps) simp
  next
    case False
    then have c: "unat candidate < 8388608" by (simp add: word_le_nat_alt not_le)
    show ?thesis
    proof (cases "scan_extents candidate None ?obs")
      case (Inl e)
      then have ih: "case pfs_find_free_run h e max_len skip of
          None \<Rightarrow> max_len = 0 \<or> {unat e..<8388608} \<subseteq> in_use h skip
        | Some (s, n) \<Rightarrow> {unat e..<unat s} \<subseteq> in_use h skip \<and> unat s + unat n \<le> 8388608 \<and>
            {unat s..<unat s + unat n} \<inter> in_use h skip = {}"
        using 1 False by (simp add: scan_entries_flat)
      obtain x where x: "x \<in> set ?obs" "unat candidate \<in> ext_set x" "unat e = ext_end x" using sc Inl by auto
      then have "{unat candidate..<unat e} \<subseteq> ext_set x" by (auto simp: ext_set_def)
      with x have "{unat candidate..<unat e} \<subseteq> in_use h skip" by (auto simp: in_use_obstacles)
      then have cover: "{unat e..<m} \<subseteq> in_use h skip \<Longrightarrow> {unat candidate..<m} \<subseteq> in_use h skip" for m
        by (auto simp: subset_iff) (meson atLeastLessThan_iff not_le)
      have "pfs_find_free_run h candidate max_len skip = pfs_find_free_run h e max_len skip"
        using Inl False by (subst pfs_find_free_run.simps) (simp add: scan_entries_flat)
      with ih cover show ?thesis by (auto split: option.splits)
    next
      case (Inr ob)
      define b where "b = min (case ob of None \<Rightarrow> PFS_DISK_SECTORS | Some x \<Rightarrow> x) PFS_DISK_SECTORS"
      have b: "unat b \<le> 8388608" "unat candidate < unat b"
        using sc Inr c by (auto simp: b_def min_def word_le_nat_alt word_less_nat_alt split: option.splits)
      have free: "k \<notin> in_use h skip" if k: "unat candidate \<le> k" "k < unat b" for k
      proof
        assume "k \<in> in_use h skip"
        then obtain e where e: "e \<in> set ?obs" "k \<in> ext_set e" by (auto simp: in_use_obstacles)
        then have z: "ext_sectors e \<noteq> 0" by (auto simp: ext_set_def ext_end_def)
        show False
        proof (cases "candidate < ext_start e")
          case True
          then obtain x where "ob = Some x" "x \<le> ext_start e" using sc Inr e z by auto
          then have "unat b \<le> unat (ext_start e)" by (auto simp: b_def min_def word_le_nat_alt)
          with e k show False by (simp add: ext_set_def)
        next
          case False
          then have "unat candidate \<in> ext_set e" using e k by (simp add: ext_set_def not_less word_le_nat_alt)
          with sc Inr e show False by auto
        qed
      qed
      let ?n = "min (b - candidate) max_len"
      have r: "pfs_find_free_run h candidate max_len skip = (if ?n = 0 then None else Some (candidate, ?n))"
        using Inr False b by (subst pfs_find_free_run.simps)
          (simp add: scan_entries_flat Let_def b_def [symmetric] word_le_nat_alt)
      have bc: "unat (b - candidate) = unat b - unat candidate" using b by (simp add: unat_sub word_le_nat_alt)
      have n: "unat ?n \<le> unat b - unat candidate" "?n = 0 \<longleftrightarrow> max_len = 0"
        using b bc by (auto simp: min_def word_le_nat_alt unat_eq_zero [symmetric])
      show ?thesis using r n free b by auto
    qed
  qed
qed

section \<open>Growing keeps the old sectors in place\<close>

definition ext_sorted :: "pfs_extent list \<Rightarrow> bool" where
  "ext_sorted es \<longleftrightarrow> (\<forall>e\<in>set es. ext_ok e) \<and> sorted_wrt (\<lambda>a b. ext_end a \<le> unat (ext_start b)) es"

lemma sectors_of_append [simp]: "sectors_of (xs @ ys) = sectors_of xs @ sectors_of ys"
  by (simp add: sectors_of_def)

lemma sectors_of_Cons: "sectors_of (e # es) = [unat (ext_start e)..<ext_end e] @ sectors_of es"
  by (simp add: sectors_of_def)

lemma set_sectors_of: "set (sectors_of es) = (\<Union>e\<in>set es. ext_set e)"
  by (auto simp: sectors_of_def ext_set_def)

lemma sectors_of_Nil [simp]: "sectors_of [] = []"
  by (simp add: sectors_of_def)

text \<open>One turn of the loop: the run is merged into the last extent or takes a new slot.\<close>

definition extended :: "pfs_extent list \<Rightarrow> nat \<Rightarrow> nat \<Rightarrow> pfs_extent list \<Rightarrow> bool" where
  "extended es s n es2 \<longleftrightarrow> ext_sorted es2 \<and> length es2 \<le> 4 \<and> es2 \<noteq> [] \<and> ext_end (last es2) = s + n \<and>
     sectors_of es2 = sectors_of es @ [s..<s + n]"

lemma grow_in_place:
  assumes "ext_sorted es" "length es \<le> 4" "es \<noteq> []" "s = ext_start (last es) + ext_sectors (last es)"
    "unat s + unat n \<le> 8388608"
  shows "extended es (unat s) (unat n)
    (butlast es @ [(last es)\<lparr>ext_sectors := ext_sectors (last es) + n\<rparr>])"
proof -
  define l where "l = last es"
  define es2 where "es2 = butlast es @ [l\<lparr>ext_sectors := ext_sectors l + n\<rparr>]"
  have es: "es = butlast es @ [l]" using assms(3) by (simp add: l_def)
  have l: "ext_ok l" using assms(1,3) by (simp add: ext_sorted_def l_def)
  have s: "unat s = ext_end l" using assms(4) l ext_end_word by (simp add: l_def)
  have ln: "unat (ext_sectors l + n) = unat (ext_sectors l) + unat n"
    using assms(5) s by (intro unat_add_no_wrap) (simp add: ext_end_def)
  have e: "ext_end (l\<lparr>ext_sectors := ext_sectors l + n\<rparr>) = unat s + unat n"
    using s ln by (simp add: ext_end_def)
  have "sorted_wrt (\<lambda>a b. ext_end a \<le> unat (ext_start b)) (butlast es @ [l])" "\<forall>x\<in>set (butlast es @ [l]). ext_ok x"
    using assms(1) es unfolding ext_sorted_def by metis+
  then have "ext_sorted es2" using assms(5) e l by (auto simp: es2_def ext_sorted_def ext_ok_def sorted_wrt_append)
  moreover have "sectors_of es2 = sectors_of (butlast es @ [l]) @ [unat s..<unat s + unat n]"
    using s e upt_add_eq_append [of "unat (ext_start l)" "ext_end l" "unat n"]
    by (simp add: es2_def sectors_of_Cons ext_end_def add.assoc)
  ultimately show ?thesis
    using assms(2,3) e unfolding extended_def es [symmetric] l_def [symmetric] es2_def [symmetric]
    by (simp add: es2_def)
qed

lemma sorted_below_last:
  assumes "ext_sorted es" "e \<in> set es"
  shows "ext_end e \<le> ext_end (last es)"
proof (cases es rule: rev_cases)
  case (snoc xs x)
  with assms show ?thesis by (auto simp: ext_sorted_def sorted_wrt_append ext_end_def intro: le_add1 order_trans)
qed (use assms in simp)

lemma grow_new_slot:
  assumes "ext_sorted es" "length es < 4" "77 \<le> unat s" "es \<noteq> [] \<Longrightarrow> ext_end (last es) \<le> unat s"
    "unat s + unat n \<le> 8388608"
  shows "extended es (unat s) (unat n) (es @ [\<lparr>ext_start = s, ext_sectors = n\<rparr>])"
proof -
  have "\<forall>e\<in>set es. ext_end e \<le> unat s" using assms(4) sorted_below_last [OF assms(1)] by fastforce
  with assms show ?thesis
    by (auto simp: extended_def ext_sorted_def ext_ok_def ext_end_def sorted_wrt_append sectors_of_Cons)
qed

definition grown :: "bytes \<Rightarrow> nat option \<Rightarrow> pfs_extent list \<Rightarrow> nat \<Rightarrow> nat \<Rightarrow> pfs_extent list \<Rightarrow> bool" where
  "grown h skip es remaining from es' \<longleftrightarrow> ext_sorted es' \<and> length es' \<le> 4 \<and>
     (\<exists>new. sectors_of es' = sectors_of es @ new \<and> length new = remaining \<and> set new \<inter> in_use h skip = {} \<and>
       (\<forall>s\<in>set new. from \<le> s))"

lemma grown_step:
  assumes "extended es s n es2" "grown h skip es2 (remaining - n) (s + n) es'" "n \<le> remaining"
    "{s..<s + n} \<inter> in_use h skip = {}" "from \<le> s"
  shows "grown h skip es remaining from es'"
proof -
  obtain new where "sectors_of es' = sectors_of es2 @ new" "length new = remaining - n"
      "set new \<inter> in_use h skip = {}" "\<forall>x\<in>set new. s + n \<le> x"
    using assms(2) by (auto simp: grown_def)
  with assms show ?thesis
    unfolding grown_def extended_def by (intro conjI exI [of _ "[s..<s + n] @ new"]) auto
qed

lemma grow_loop_spec:
  assumes "extents_ok h" "ext_sorted es" "length es \<le> 4"
    "es \<noteq> [] \<Longrightarrow> unat from = ext_end (last es)" "es = [] \<Longrightarrow> 77 \<le> unat from"
    "grow_loop h es remaining from skip = Some es'"
  shows "grown h skip es (unat remaining) (unat from) es'"
  using assms
proof (induction h es remaining "from" skip rule: grow_loop.induct)
  case (1 h es remaining "from" skip)
  show ?case
  proof (cases "remaining > 0")
    case False
    then have "remaining = 0" using word_neq_0_conv by blast
    with "1.prems" show ?thesis by (simp add: grow_loop.simps grown_def)
  next
    case rem: True
    obtain s n where run: "pfs_find_free_run h from remaining skip = Some (s, n)"
      using "1.prems"(6) rem by (subst (asm) grow_loop.simps) (auto split: option.splits)
    have sp: "unat s + unat n \<le> 8388608" "{unat s..<unat s + unat n} \<inter> in_use h skip = {}"
      using find_free_run_spec [OF "1.prems"(1), of remaining "from" skip] run by auto
    have nat: "unat n \<le> unat remaining" "unat from \<le> unat s" "unat (remaining - n) = unat remaining - unat n"
      using find_free_run_bounds [OF run] by (auto simp: word_less_nat_alt word_le_nat_alt unat_sub)
    have sn: "unat (s + n) = unat s + unat n" using sp by (intro unat_add_no_wrap) simp
    let ?same = "es \<noteq> [] \<and> s = ext_start (last es) + ext_sectors (last es)"
    have "ext_ok (last es)" if "es \<noteq> []" using that "1.prems"(2) by (simp add: ext_sorted_def)
    with "1.prems"(4,5) nat(2) have low: "77 \<le> unat s"
      by (cases "es = []") (auto simp: ext_ok_def ext_end_def)
    show ?thesis
    proof (cases ?same)
      case True
      let ?es2 = "butlast es @ [(last es)\<lparr>ext_sectors := ext_sectors (last es) + n\<rparr>]"
      have x: "extended es (unat s) (unat n) ?es2" using True "1.prems"(2,3) sp by (intro grow_in_place) auto
      have g: "grow_loop h ?es2 (remaining - n) (s + n) skip = Some es'"
        using "1.prems"(6) rem run True by (subst (asm) grow_loop.simps) simp
      have "grown h skip ?es2 (unat (remaining - n)) (unat (s + n)) es'"
        by (rule "1.IH"(1) [OF rem run refl True "1.prems"(1)]) (use x sn g in \<open>simp_all add: extended_def\<close>)
      with grown_step [OF x _ nat(1) sp(2) nat(2)] sn nat(3) show ?thesis by simp
    next
      case False
      let ?es2 = "es @ [\<lparr>ext_start = s, ext_sectors = n\<rparr>]"
      have room: "\<not> PFS_MAX_EXTENTS \<le> length es"
        using "1.prems"(6) rem run False by (subst (asm) grow_loop.simps) (auto split: if_splits)
      have x: "extended es (unat s) (unat n) ?es2"
        using room "1.prems"(2,4) sp nat(2) low by (intro grow_new_slot) auto
      have g: "grow_loop h ?es2 (remaining - n) (s + n) skip = Some es'"
        using "1.prems"(6) rem run False room by (subst (asm) grow_loop.simps) auto
      have "grown h skip ?es2 (unat (remaining - n)) (unat (s + n)) es'"
        by (rule "1.IH"(2) [OF rem run refl False room "1.prems"(1)]) (use x sn g in \<open>simp_all add: extended_def\<close>)
      with grown_step [OF x _ nat(1) sp(2) nat(2)] sn nat(3) show ?thesis by simp
    qed
  qed
qed

text \<open>Logical sectors index the list of sectors.\<close>

lemma lba_in_extents_nth:
  assumes "\<forall>e\<in>set es. ext_ok e"
  shows "lba_in_extents es k =
    (if unat k < length (sectors_of es) then Some (of_nat (sectors_of es ! unat k)) else None)"
  using assms
proof (induction es k rule: lba_in_extents.induct)
  case (1 k)
  then show ?case by simp
next
  case (2 e es k)
  let ?n = "unat (ext_sectors e)"
  have len: "length (sectors_of (e # es)) = ?n + length (sectors_of es)" by (simp add: sectors_of_Cons ext_end_def)
  consider (zero) "ext_sectors e = 0" | (here) "ext_sectors e \<noteq> 0" "k < ext_sectors e"
    | (later) "ext_sectors e \<noteq> 0" "\<not> k < ext_sectors e" by blast
  then show ?case
  proof cases
    case zero
    with 2 show ?thesis by (simp add: sectors_of_Cons ext_end_def)
  next
    case here
    then have k: "unat k < ?n" by (simp add: word_less_nat_alt)
    then have "sectors_of (e # es) ! unat k = unat (ext_start e) + unat k"
      by (simp add: sectors_of_Cons nth_append ext_end_def)
    then have "of_nat (sectors_of (e # es) ! unat k) = ext_start e + k" by (simp only: word_add_of_nat)
    with here k show ?thesis by (simp add: len)
  next
    case later
    then have k: "?n \<le> unat k" by (simp add: not_less word_le_nat_alt)
    then have "unat (k - ext_sectors e) = unat k - ?n" by (simp add: unat_sub word_le_nat_alt)
    moreover have "sectors_of (e # es) ! unat k = sectors_of es ! (unat k - ?n)"
      using k by (simp add: sectors_of_Cons nth_append ext_end_def)
    moreover have "lba_in_extents es (k - ext_sectors e) = (if unat (k - ext_sectors e) < length (sectors_of es)
        then Some (of_nat (sectors_of es ! unat (k - ext_sectors e))) else None)"
      using 2 later by simp
    ultimately show ?thesis using later k by (simp add: len less_diff_conv2 add.commute)
  qed
qed

lemma total_sectors_length:
  assumes "length (sectors_of (entry_extents h i)) < 2 ^ 32"
  shows "unat (pfs_entry_total_sectors h i) = length (sectors_of (entry_extents h i))"
proof -
  have "foldl (\<lambda>t e. t + ext_sectors e) a es = a + of_nat (length (sectors_of es))" for a es
    by (induction es arbitrary: a) (auto simp: sectors_of_Cons ext_end_def)
  moreover have "pfs_entry_total_sectors h i = foldl (\<lambda>t e. t + ext_sectors e) 0 (entry_extents h i)"
    by (simp add: pfs_entry_total_sectors_def entry_extents_map [symmetric] foldl_map)
  ultimately show ?thesis using assms by (simp add: unat_of_nat_small)
qed

lemma ext_sorted_distinct:
  assumes "ext_sorted es"
  shows "distinct (sectors_of es)" "set (sectors_of es) \<subseteq> {77..<8388608}"
proof -
  have "ext_sorted es \<Longrightarrow> distinct (sectors_of es)" for es
  proof (induction es)
    case (Cons e es)
    then have "ext_sorted es" "\<forall>x\<in>set es. ext_end e \<le> unat (ext_start x)" by (auto simp: ext_sorted_def)
    with Cons show ?case by (fastforce simp: sectors_of_Cons set_sectors_of ext_set_def)
  qed simp
  from this [OF assms] show "distinct (sectors_of es)" .
  show "set (sectors_of es) \<subseteq> {77..<8388608}"
    using assms by (fastforce simp: ext_sorted_def ext_ok_def set_sectors_of ext_set_def)
qed

lemma length_sectors_bound: "ext_sorted es \<Longrightarrow> length (sectors_of es) \<le> 8388608"
  using ext_sorted_distinct [of es] distinct_card [of "sectors_of es"]
    card_mono [of "{77..<8388608::nat}" "set (sectors_of es)"] by simp

section \<open>The allocation invariant\<close>

text \<open>
  Every file's extents are ascending, lie in the data area, and no two files share a sector.
\<close>

definition alloc_wf :: "bytes \<Rightarrow> bool" where
  "alloc_wf h \<longleftrightarrow> (\<forall>i<256. is_file h i \<longrightarrow> ext_sorted (entry_extents h i) \<and>
     set (sectors_of (entry_extents h i)) \<inter> in_use h (Some i) = {})"

lemma alloc_wf_extents_ok: "alloc_wf h \<Longrightarrow> extents_ok h"
  by (auto simp: alloc_wf_def extents_ok_def ext_sorted_def)

lemma pfs_grow_extents_spec:
  assumes "extents_ok h" "ext_sorted es" "length es \<le> 4" "pfs_grow_extents h es additional skip = Some es'"
  shows "\<exists>lo. grown h skip es (unat additional) lo es' \<and> (\<forall>e\<in>set es. ext_end e \<le> lo)"
proof (cases "es = []")
  case True
  with assms have "grown h skip es (unat additional) 77 es'"
    using grow_loop_spec [of h es PFS_DATA_START additional skip es'] by (simp add: pfs_grow_extents_def)
  with True show ?thesis by auto
next
  case False
  let ?from = "ext_start (last es) + ext_sectors (last es)"
  have "unat ?from = ext_end (last es)" using assms(2) False by (intro ext_end_word) (simp add: ext_sorted_def)
  with assms False have "grown h skip es (unat additional) (ext_end (last es)) es'"
    using grow_loop_spec [of h es ?from additional skip es'] by (simp add: pfs_grow_extents_def)
  with sorted_below_last [OF assms(2)] show ?thesis by blast
qed

lemma pfs_grow_extents_correct_aux:
  assumes "alloc_wf h" "i < 256" "is_file h i" "pfs_grow_extents h (entry_extents h i) additional (Some i) = Some es'"
  shows "ext_sorted es' \<and> length es' \<le> 4 \<and> (\<exists>new. sectors_of es' = sectors_of (entry_extents h i) @ new \<and>
    length new = unat additional \<and> set new \<inter> in_use h None = {})"
proof -
  let ?es = "entry_extents h i"
  have es: "ext_sorted ?es" "length ?es \<le> 4"
    using assms(1-3) length_e_extents [of h i] by (auto simp: alloc_wf_def entry_extents_def)
  from pfs_grow_extents_spec [OF alloc_wf_extents_ok [OF assms(1)] es assms(4)]
  obtain lo new where g: "ext_sorted es'" "length es' \<le> 4" "sectors_of es' = sectors_of ?es @ new"
      "length new = unat additional" "set new \<inter> in_use h (Some i) = {}" "\<forall>s\<in>set new. lo \<le> s"
      and lo: "\<forall>e\<in>set ?es. ext_end e \<le> lo"
    by (auto simp: grown_def)
  have "s \<notin> in_use h None" if s: "s \<in> set new" for s
  proof
    assume "s \<in> in_use h None"
    then obtain j e where j: "j < 256" "is_file h j" "e \<in> set (entry_extents h j)" "s \<in> ext_set e"
      by (auto simp: in_use_def)
    show False
    proof (cases "j = i")
      case True
      with j lo have "s < lo" by (auto simp: ext_set_def intro: less_le_trans)
      with g(6) s show False by auto
    next
      case False
      with j have "s \<in> in_use h (Some i)" by (auto simp: in_use_def)
      with g(5) s show False by blast
    qed
  qed
  with g show ?thesis by blast
qed

text \<open>Replacing a file's extents, all other entries unchanged.\<close>

lemma in_use_replace:
  assumes "\<And>j. j < 256 \<Longrightarrow> j \<noteq> i \<Longrightarrow> pfs_entry_at h' j = pfs_entry_at h j"
  shows "in_use h' (Some i) = in_use h (Some i)"
    "j < 256 \<Longrightarrow> j \<noteq> i \<Longrightarrow> i < 256 \<Longrightarrow> in_use h' (Some j) =
      (\<Union>k\<in>{k. k < 256 \<and> k \<noteq> i \<and> k \<noteq> j \<and> is_file h k}. set (sectors_of (entry_extents h k))) \<union>
      (if is_file h' i then set (sectors_of (entry_extents h' i)) else {})"
proof -
  have f: "is_file h' j = is_file h j" "entry_extents h' j = entry_extents h j" if "j < 256" "j \<noteq> i" for j
    using assms [OF that] by (simp_all add: is_file_def entry_extents_def accessors_of_entry)
  show "in_use h' (Some i) = in_use h (Some i)" by (auto simp: in_use_def f)
  show "in_use h' (Some j) =
      (\<Union>k\<in>{k. k < 256 \<and> k \<noteq> i \<and> k \<noteq> j \<and> is_file h k}. set (sectors_of (entry_extents h k))) \<union>
      (if is_file h' i then set (sectors_of (entry_extents h' i)) else {})" if "j < 256" "j \<noteq> i" "i < 256"
  proof -
    have m: "(k < 256 \<and> is_file h' k \<and> Some k \<noteq> Some j \<and> x \<in> set (sectors_of (entry_extents h' k))) \<longleftrightarrow>
        (k < 256 \<and> k \<noteq> i \<and> k \<noteq> j \<and> is_file h k \<and> x \<in> set (sectors_of (entry_extents h k))) \<or>
        (k = i \<and> is_file h' i \<and> x \<in> set (sectors_of (entry_extents h' i)))" for k x
      using that f [of k] by (cases "k = i") auto
    show ?thesis unfolding in_use_def set_sectors_of [symmetric] using m by auto
  qed
qed

lemma alloc_wf_replace:
  assumes "alloc_wf h" "i < 256"
    and other: "\<And>j. j < 256 \<Longrightarrow> j \<noteq> i \<Longrightarrow> pfs_entry_at h' j = pfs_entry_at h j"
    and self: "is_file h' i \<Longrightarrow> ext_sorted (entry_extents h' i) \<and>
      set (sectors_of (entry_extents h' i)) \<inter> in_use h (Some i) = {}"
  shows "alloc_wf h'"
  unfolding alloc_wf_def
proof (intro allI impI)
  fix j assume j: "j < 256" "is_file h' j"
  show "ext_sorted (entry_extents h' j) \<and> set (sectors_of (entry_extents h' j)) \<inter> in_use h' (Some j) = {}"
  proof (cases "j = i")
    case True
    with self j in_use_replace(1) [of i h' h] other show ?thesis by simp
  next
    case False
    have f: "is_file h j" "entry_extents h' j = entry_extents h j"
      using other [OF j(1) False] j(2) by (simp_all add: is_file_def entry_extents_def accessors_of_entry)
    then have w: "ext_sorted (entry_extents h j)" "set (sectors_of (entry_extents h j)) \<inter> in_use h (Some j) = {}"
      using assms(1) j by (auto simp: alloc_wf_def)
    have "set (sectors_of (entry_extents h j)) \<inter> set (sectors_of (entry_extents h' i)) = {}" if "is_file h' i"
      using self [OF that] j(1) f(1) False by (fastforce simp: in_use_def set_sectors_of)
    moreover have "(\<Union>k\<in>{k. k < 256 \<and> k \<noteq> i \<and> k \<noteq> j \<and> is_file h k}. set (sectors_of (entry_extents h k))) \<subseteq> in_use h (Some j)"
      by (auto simp: in_use_def set_sectors_of)
    moreover have "in_use h' (Some j) = (\<Union>k\<in>{k. k < 256 \<and> k \<noteq> i \<and> k \<noteq> j \<and> is_file h k}. set (sectors_of (entry_extents h k))) \<union>
      (if is_file h' i then set (sectors_of (entry_extents h' i)) else {})"
      by (rule in_use_replace(2) [OF other j(1) False assms(2)])
    ultimately show ?thesis using w f by (auto split: if_splits)
  qed
qed

lemma alloc_wf_format: "alloc_wf pfs_format_header"
  using format_header_facts(2) by (simp add: alloc_wf_def is_file_def)

text \<open>Growth succeeds when the sectors right after the file are free.\<close>

lemma grow_loop_contiguous:
  assumes "extents_ok h" "unat from + unat remaining \<le> 8388608"
    "{unat from..<unat from + unat remaining} \<inter> in_use h skip = {}"
    "length es < 4 \<or> es \<noteq> [] \<and> from = ext_start (last es) + ext_sectors (last es)"
  shows "\<exists>es'. grow_loop h es remaining from skip = Some es'"
  using assms
proof (induction h es remaining "from" skip rule: grow_loop.induct)
  case (1 h es remaining "from" skip)
  show ?case
  proof (cases "remaining > 0")
    case False
    then show ?thesis by (simp add: grow_loop.simps)
  next
    case rem: True
    then have r: "remaining \<noteq> 0" "0 < unat remaining" by (auto simp: word_less_nat_alt)
    then have "unat from \<in> {unat from..<unat from + unat remaining}" by simp
    with "1.prems"(3) have free: "unat from \<notin> in_use h skip" by blast
    have small: "unat from < 8388608" using "1.prems"(2) r(2) by linarith
    note sp = find_free_run_spec [OF "1.prems"(1), of remaining "from" skip]
    have "pfs_find_free_run h from remaining skip \<noteq> None"
    proof
      assume "pfs_find_free_run h from remaining skip = None"
      with sp r(1) have "{unat from..<8388608} \<subseteq> in_use h skip" by simp
      with free small show False by auto
    qed
    then obtain s n where run: "pfs_find_free_run h from remaining skip = Some (s, n)" by auto
    note bd = find_free_run_bounds [OF run]
    have cover: "{unat from..<unat s} \<subseteq> in_use h skip" using sp run by simp
    have "\<not> unat from < unat s" using cover free by auto
    with bd have s: "s = from" by (simp add: word_le_nat_alt word_unat_eq_iff)
    have nat: "unat n \<le> unat remaining" "unat (remaining - n) = unat remaining - unat n"
      using bd by (simp_all add: word_le_nat_alt unat_sub)
    have sn: "unat (s + n) = unat from + unat n" using nat "1.prems"(2) s by (simp add: unat_add_no_wrap)
    let ?same = "es \<noteq> [] \<and> s = ext_start (last es) + ext_sectors (last es)"
    have rest: "unat (s + n) + unat (remaining - n) \<le> 8388608"
      "{unat (s + n)..<unat (s + n) + unat (remaining - n)} \<inter> in_use h skip = {}"
    proof -
      have "{unat (s + n)..<unat (s + n) + unat (remaining - n)} \<subseteq> {unat from..<unat from + unat remaining}"
        using sn nat by auto
      with "1.prems"(3) show "{unat (s + n)..<unat (s + n) + unat (remaining - n)} \<inter> in_use h skip = {}" by blast
    qed (use "1.prems"(2) sn nat in simp)
    show ?thesis
    proof (cases ?same)
      case True
      from "1.IH"(1) [OF rem run refl True "1.prems"(1) rest] True rem run show ?thesis
        by (subst grow_loop.simps) (simp add: add.assoc)
    next
      case False
      then have room: "\<not> PFS_MAX_EXTENTS \<le> length es" using "1.prems"(4) s by auto
      from "1.IH"(2) [OF rem run refl False room "1.prems"(1) rest] False room rem run show ?thesis
        by (subst grow_loop.simps) auto
    qed
  qed
qed

section \<open>Room for growing\<close>

text \<open>
  Room for \<open>n\<close> more sectors: the first gap above the file's last sector holds them, and the file can take another extent
  or the gap begins right behind it.
\<close>

definition file_end :: "bytes \<Rightarrow> nat \<Rightarrow> nat" where
  "file_end h i = (let es = entry_extents h i in if es = [] then unat PFS_DATA_START else ext_end (last es))"

definition has_room :: "bytes \<Rightarrow> nat \<Rightarrow> nat \<Rightarrow> bool" where
  "has_room h i n \<longleftrightarrow> (\<exists>s \<ge> file_end h i. {file_end h i..<s} \<subseteq> in_use h (Some i) \<and>
     {s..<s + n} \<inter> in_use h (Some i) = {} \<and> s + n \<le> unat PFS_DISK_SECTORS \<and>
     (length (entry_extents h i) < PFS_MAX_EXTENTS \<or> entry_extents h i \<noteq> [] \<and> s = file_end h i))"

lemma grow_loop_gap:
  assumes "extents_ok h" "unat from \<le> s" "{unat from..<s} \<subseteq> in_use h skip" "{s..<s + unat remaining} \<inter> in_use h skip = {}"
    "s + unat remaining \<le> 8388608"
    "length es < 4 \<or> es \<noteq> [] \<and> s = unat from \<and> from = ext_start (last es) + ext_sectors (last es)"
  shows "\<exists>es'. grow_loop h es remaining from skip = Some es'"
proof (cases "s = unat from \<or> remaining = 0")
  case True
  then show ?thesis
  proof
    assume "s = unat from"
    with assms show ?thesis by (intro grow_loop_contiguous) auto
  qed (simp add: grow_loop.simps)
next
  case False
  then have rem: "0 < remaining" "remaining \<noteq> 0" "0 < unat remaining" by (auto simp: word_neq_0_conv word_less_nat_alt unat_eq_0)
  have es: "length es < 4" using assms(6) False by auto
  have free: "s \<notin> in_use h skip" using assms(4) rem(3) by (simp add: disjoint_iff)
  note sp = find_free_run_spec [OF assms(1), of remaining "from" skip]
  have "pfs_find_free_run h from remaining skip \<noteq> None"
  proof
    assume "pfs_find_free_run h from remaining skip = None"
    with sp rem(2) have "{unat from..<8388608} \<subseteq> in_use h skip" by simp
    moreover have "s \<in> {unat from..<8388608}" using assms(2,5) rem(3) by simp
    ultimately show False using free by blast
  qed
  then obtain s' n where run: "pfs_find_free_run h from remaining skip = Some (s', n)" by auto
  note bd = find_free_run_bounds [OF run]
  from sp run have cover: "{unat from..<unat s'} \<subseteq> in_use h skip" and dis: "{unat s'..<unat s' + unat n} \<inter> in_use h skip = {}" by simp_all
  have "0 < unat n" using bd by (simp add: word_less_nat_alt)
  then have "unat s' \<in> {unat s'..<unat s' + unat n}" by simp
  then have "unat s' \<notin> in_use h skip" using dis by blast
  moreover have "unat from \<le> unat s'" using bd by (simp add: word_le_nat_alt)
  ultimately have "s \<le> unat s'" using assms(3) by (meson atLeastLessThan_iff not_le subsetD)
  moreover have "unat s' \<le> s" using cover free assms(2) by (meson atLeastLessThan_iff not_le subsetD)
  ultimately have s: "unat s' = s" by simp
  have nat: "unat n \<le> unat remaining" "unat (remaining - n) = unat remaining - unat n"
    using bd by (simp_all add: word_le_nat_alt unat_sub)
  have sn: "unat (s' + n) = s + unat n" using nat assms(5) s by (simp add: unat_add_no_wrap)
  have go: "\<exists>es'. grow_loop h es1 (remaining - n) (s' + n) skip = Some es'"
    if "length es1 < 4 \<or> es1 \<noteq> [] \<and> s' + n = ext_start (last es1) + ext_sectors (last es1)" for es1
  proof (rule grow_loop_contiguous [OF assms(1) _ _ that])
    have "{s + unat n..<s + unat n + (unat remaining - unat n)} \<subseteq> {s..<s + unat remaining}" using nat(1) by auto
    then show "{unat (s' + n)..<unat (s' + n) + unat (remaining - n)} \<inter> in_use h skip = {}"
      using assms(4) unfolding sn nat(2) by blast
  qed (use sn nat assms(5) in simp)
  show ?thesis
  proof (cases "es \<noteq> [] \<and> ext_start (last es) + ext_sectors (last es) = s'")
    case True
    then have "\<exists>es'. grow_loop h (butlast es @ [(last es)\<lparr>ext_sectors := ext_sectors (last es) + n\<rparr>]) (remaining - n) (s' + n) skip = Some es'"
      by (intro go) (auto simp: add.assoc)
    with True rem(1) run show ?thesis by (subst grow_loop.simps) simp
  next
    case False
    with rem(1) run es go [of "es @ [\<lparr>ext_start = s', ext_sectors = n\<rparr>]"] show ?thesis
      by (subst grow_loop.simps) (auto simp: PFS_MAX_EXTENTS_def)
  qed
qed

lemma has_room_grows:
  assumes "alloc_wf h" "i < 256" "is_file h i" "has_room h i (unat additional)"
  shows "pfs_grow_extents h (entry_extents h i) additional (Some i) \<noteq> None"
proof -
  let ?es = "entry_extents h i"
  have ok: "extents_ok h" using alloc_wf_extents_ok [OF assms(1)] .
  define start where "start = (if ?es \<noteq> [] then ext_start (last ?es) + ext_sectors (last ?es) else PFS_DATA_START)"
  have "unat start = file_end h i"
  proof (cases "?es = []")
    case False
    then have "ext_ok (last ?es)" using ok assms(2,3) by (simp add: extents_ok_def)
    from ext_end_word [OF this] False show ?thesis by (simp add: start_def file_end_def Let_def)
  qed (simp add: start_def file_end_def)
  moreover have "start = ext_start (last ?es) + ext_sectors (last ?es)" if "?es \<noteq> []" using that by (simp add: start_def)
  moreover obtain s where "file_end h i \<le> s" "{file_end h i..<s} \<subseteq> in_use h (Some i)"
      "{s..<s + unat additional} \<inter> in_use h (Some i) = {}" "s + unat additional \<le> 8388608"
      "length ?es < 4 \<or> ?es \<noteq> [] \<and> s = file_end h i"
    using assms(4) by (auto simp: has_room_def PFS_MAX_EXTENTS_def)
  ultimately have "\<exists>es'. grow_loop h ?es additional start (Some i) = Some es'"
    by (intro grow_loop_gap [OF ok, where s = s]) auto
  then show ?thesis by (auto simp: pfs_grow_extents_def start_def Let_def)
qed

section \<open>Properties\<close>

text \<open>
  C6.  The allocator's search is first fit over the sectors no other file uses: a run it returns
  starts at the first free sector at or after the starting point, is not empty, is no longer than
  asked, lies on the disk and touches no sector of another file; it reports failure only when
  every sector from the starting point to the end of the disk is in use.
\<close>

theorem pfs_find_free_run_first_fit:
  assumes "extents_ok h" "0 < max_len"
  shows "case pfs_find_free_run h start_from max_len skip of
      None \<Rightarrow> {unat start_from..<unat PFS_DISK_SECTORS} \<subseteq> in_use h skip
    | Some (s, n) \<Rightarrow> {unat start_from..<unat s} \<subseteq> in_use h skip \<and> start_from \<le> s \<and> 0 < n \<and> n \<le> max_len \<and>
        unat s + unat n \<le> unat PFS_DISK_SECTORS \<and> {unat s..<unat s + unat n} \<inter> in_use h skip = {}"
  using find_free_run_spec [OF assms(1), of max_len start_from skip] assms(2)
    find_free_run_bounds [of h start_from max_len skip]
  by (cases "pfs_find_free_run h start_from max_len skip") auto

theorem pfs_find_free_run_first_fit_witness:
  "extents_ok pfs_format_header \<and> (\<exists>s n. pfs_find_free_run pfs_format_header 77 8 None = Some (s, n) \<and>
     unat s + unat n \<le> 8388608 \<and> 77 \<le> s)"
proof -
  have ok: "extents_ok pfs_format_header" using alloc_wf_extents_ok [OF alloc_wf_format] .
  have "in_use pfs_format_header None = {}" using format_header_facts(2) by (auto simp: in_use_def is_file_def)
  with pfs_find_free_run_first_fit [OF ok, of 8 77 None] ok show ?thesis
    by (auto split: option.splits)
qed

text \<open>
  C7.  Growing a file's extents never moves data: the old sectors stay a prefix of the new sector
  list, so every logical sector keeps its disk address; exactly the requested number of
  sectors is added, none of which any file (this one included) was using; and the extents stay
  ascending, inside the data area and at most four.
\<close>

theorem pfs_grow_extents_correct:
  assumes "alloc_wf h" "i < 256" "is_file h i"
    "pfs_grow_extents h (entry_extents h i) additional (Some i) = Some es'"
  shows "ext_sorted es' \<and> length es' \<le> PFS_MAX_EXTENTS \<and>
    (\<exists>new. sectors_of es' = sectors_of (entry_extents h i) @ new \<and>
       length new = unat additional \<and> set new \<inter> in_use h None = {}) \<and>
    (\<forall>k lba. pfs_entry_lba_for_sector h i k = Some lba \<longrightarrow> lba_in_extents es' k = Some lba)"
proof -
  have es: "ext_sorted (entry_extents h i)" using assms(1-3) by (simp add: alloc_wf_def)
  from pfs_grow_extents_correct_aux [OF assms] obtain new where
    g: "ext_sorted es'" "length es' \<le> 4" "sectors_of es' = sectors_of (entry_extents h i) @ new"
      "length new = unat additional" "set new \<inter> in_use h None = {}" by blast
  have "lba_in_extents es' k = Some lba" if "pfs_entry_lba_for_sector h i k = Some lba" for k lba
    using that g(1,3) es
    by (auto simp: pfs_entry_lba_for_sector_def entry_extents_map lba_in_extents_nth ext_sorted_def nth_append
        split: if_splits)
  with g show ?thesis by auto
qed

text \<open>A concrete volume with one empty file in slot 0.\<close>

definition demo_file :: bytes where
  "demo_file = put_entry 0 (lit ''f'') (7, 0, PFS_KIND_FILE, [], 7, PFS_MODE_DEFAULT_FILE) pfs_format_header"

lemma demo_file_args: "entry_args_ok (lit ''f'') (7, 0, PFS_KIND_FILE, [], 7, PFS_MODE_DEFAULT_FILE)"
  by (simp add: entry_args_ok_def PFS_KIND_FILE_def)

lemma demo_file_facts:
  "header_wf demo_file" "i < 256 \<Longrightarrow> is_file demo_file i \<longleftrightarrow> i = 0"
  "entry_extents demo_file 0 = []" "in_use demo_file (Some 0) = {}" "alloc_wf demo_file"
proof -
  note wf = format_header_facts
  have at: "pfs_entry_at demo_file 0 = \<lparr>e_kind = PFS_KIND_FILE, e_name = lit ''f'', e_size = 0, e_extents = [],
     e_created = 7, e_modified = 7, e_mode = PFS_MODE_DEFAULT_FILE\<rparr>"
    "\<And>j. j < 256 \<Longrightarrow> j \<noteq> 0 \<Longrightarrow> pfs_entry_at demo_file j = pfs_entry_at pfs_format_header j"
    unfolding demo_file_def using put_entry_at [OF wf(1) _ demo_file_args, of 0] by simp_all
  show "header_wf demo_file" unfolding demo_file_def by (rule pfs.put_ok [OF wf(1) _ demo_file_args]) simp
  have f0: "is_file demo_file j \<longleftrightarrow> j = 0" if "j < 256" for j
    using that at wf(2) [OF that]
    by (cases "j = 0") (simp_all add: is_file_def accessors_of_entry PFS_KIND_FILE_def PFS_KIND_DIR_def)
  show "is_file demo_file i \<longleftrightarrow> i = 0" if "i < 256" using f0 that .
  show e: "entry_extents demo_file 0 = []" by (simp add: entry_extents_def at)
  show "in_use demo_file (Some 0) = {}" using f0 by (auto simp: in_use_def)
  show "alloc_wf demo_file" using f0 e by (auto simp: alloc_wf_def ext_sorted_def)
qed

theorem pfs_grow_extents_correct_witness:
  "alloc_wf demo_file \<and> is_file demo_file 0 \<and>
   (\<exists>es'. pfs_grow_extents demo_file (entry_extents demo_file 0) 3 (Some 0) = Some es' \<and> length (sectors_of es') = 3)"
proof -
  have f: "is_file demo_file 0" using demo_file_facts(2) [of 0] by simp
  have "\<exists>es'. grow_loop demo_file [] 3 PFS_DATA_START (Some 0) = Some es'"
    using demo_file_facts(4,5)
    by (intro grow_loop_contiguous alloc_wf_extents_ok) simp_all
  then obtain es' where g: "pfs_grow_extents demo_file (entry_extents demo_file 0) 3 (Some 0) = Some es'"
    using demo_file_facts(3) by (auto simp: pfs_grow_extents_def)
  from pfs_grow_extents_correct [OF demo_file_facts(5) _ f g] g f demo_file_facts(3,5) show ?thesis by auto
qed

text \<open>
  Growth looks for free sectors only above the file's last extent: a file whose last extent
  ends at the end of the disk cannot grow by even one sector, whatever is free below it.
\<close>

theorem pfs_grow_extents_spurious_full:
  assumes "es \<noteq> []" "ext_ok (last es)" "ext_end (last es) = unat PFS_DISK_SECTORS" "0 < additional"
  shows "pfs_grow_extents h es additional skip = None"
proof -
  have "unat (ext_start (last es) + ext_sectors (last es)) = unat PFS_DISK_SECTORS"
    using ext_end_word [OF assms(2)] assms(3) by simp
  then have "ext_start (last es) + ext_sectors (last es) = PFS_DISK_SECTORS" by (simp only: word_unat_eq_iff)
  with assms show ?thesis
    by (simp add: pfs_grow_extents_def grow_loop.simps [of _ _ additional] pfs_find_free_run.simps [of _ PFS_DISK_SECTORS])
qed

theorem pfs_grow_extents_spurious_full_witness:
  "pfs_grow_extents demo_file [\<lparr>ext_start = 8388607, ext_sectors = 1\<rparr>] 1 (Some 0) = None \<and>
   in_use demo_file (Some 0) = {}"
  using pfs_grow_extents_spurious_full [of "[\<lparr>ext_start = 8388607, ext_sectors = 1\<rparr>]" 1 demo_file "Some 0"]
    demo_file_facts(4)
  by (simp add: ext_ok_def ext_end_def)

end
