(* ===== verification/Pfs_File.thy ===== *)
theory Pfs_File
  imports Pfs_Alloc
begin

text \<open>
  File contents of RYMFS, \<^verbatim>\<open>kernel/src/main.rs\<close>: reading and writing the header
  sectors, \<open>pfs_read_at\<close>, \<open>pfs_write_at\<close> with its zeroing of sparse gaps,
  \<open>pfs_update_size\<close> and \<open>pfs_ensure_file_capacity\<close>.  The functions run on a disk
  given by its two sector operations; the locale \<open>block_device\<close> is what they rely on
  (\<open>Ata_Disk\<close> provides it with the kernel's ATA driver), and a failing transfer is an
  ordinary outcome of the operations.
\<close>

record 'd disk =
  rd :: "u32 \<Rightarrow> 'd \<Rightarrow> bytes option \<times> 'd"
  wr :: "u32 \<Rightarrow> bytes \<Rightarrow> 'd \<Rightarrow> bool \<times> 'd"

section \<open>The header sectors\<close>

fun read_header_loop :: "'d disk \<Rightarrow> nat list \<Rightarrow> bytes \<Rightarrow> 'd \<Rightarrow> bytes option \<times> 'd" where
  "read_header_loop disk [] header d = (Some header, d)"
| "read_header_loop disk (sector_index # rest) header d =
     (case rd disk (of_nat sector_index) d of
        (None, d) \<Rightarrow> (None, d)
      | (Some sector, d) \<Rightarrow> read_header_loop disk rest (copy_at header (sector_index * 512) sector) d)"

definition read_header_silent :: "'d disk \<Rightarrow> 'd \<Rightarrow> bytes option \<times> 'd" where
  "read_header_silent disk d =
     (case read_header_loop disk [0..<PFS_HEADER_SECTORS] (replicate PFS_HEADER_BYTES 0) d of
        (None, d) \<Rightarrow> (None, d)
      | (Some header, d) \<Rightarrow>
          if subslice header 0 8 \<noteq> lit ''RYMFS5'' @ [0, 0] then (None, d) else (Some header, d))"

fun write_header_loop :: "'d disk \<Rightarrow> nat list \<Rightarrow> bytes \<Rightarrow> 'd \<Rightarrow> bool \<times> 'd" where
  "write_header_loop disk [] header d = (True, d)"
| "write_header_loop disk (sector_index # rest) header d =
     (let start = sector_index * 512; sector = subslice header start (start + 512) in
      case wr disk (of_nat sector_index) sector d of
        (False, d) \<Rightarrow> (False, d)
      | (True, d) \<Rightarrow> write_header_loop disk rest header d)"

definition write_header :: "'d disk \<Rightarrow> bytes \<Rightarrow> 'd \<Rightarrow> bool \<times> 'd" where
  "write_header disk header d = write_header_loop disk [0..<PFS_HEADER_SECTORS] header d"

section \<open>Reading\<close>

text \<open>
  The result is the return value, the bytes stored at \<^verbatim>\<open>dest\<close> (a prefix when the
  read stops early) and the disk.
\<close>

function read_loop :: "'d disk \<Rightarrow> bytes \<Rightarrow> nat \<Rightarrow> nat \<Rightarrow> nat \<Rightarrow> nat \<Rightarrow> bytes \<Rightarrow> 'd \<Rightarrow> bool \<times> bytes \<times> 'd" where
  "read_loop disk header index offset len copied dest d =
     (if copied < len then
        let absolute = usize_add offset copied;
            logical_sector = of_nat (absolute div 512);
            sector_offset = absolute mod 512;
            count = min (len - copied) (512 - sector_offset) in
        case pfs_entry_lba_for_sector header index logical_sector of
          None \<Rightarrow> (False, dest, d)
        | Some lba \<Rightarrow>
            (case rd disk lba d of
               (None, d) \<Rightarrow> (False, dest, d)
             | (Some sector, d) \<Rightarrow>
                 read_loop disk header index offset len (copied + count)
                   (dest @ subslice sector sector_offset (sector_offset + count)) d)
      else (True, dest, d))"
  by pat_completeness auto
termination
  by (relation "measure (\<lambda>(disk, header, index, offset, len, copied, dest, d). len - copied)") auto

declare read_loop.simps [simp del]

definition pfs_read_at :: "'d disk \<Rightarrow> nat \<Rightarrow> nat \<Rightarrow> nat \<Rightarrow> 'd \<Rightarrow> bool \<times> bytes \<times> 'd" where
  "pfs_read_at disk index offset len d =
     (case read_header_silent disk d of
        (None, d) \<Rightarrow> (False, [], d)
      | (Some header, d) \<Rightarrow>
          if usize_add offset len > PFS_FILE_MAX \<or> \<not> pfs_entry_used header index then (False, [], d)
          else read_loop disk header index offset len 0 [] d)"

section \<open>Writing\<close>

function zero_loop :: "'d disk \<Rightarrow> bytes \<Rightarrow> nat \<Rightarrow> nat \<Rightarrow> nat \<Rightarrow> nat \<Rightarrow> 'd \<Rightarrow> bool \<times> 'd" where
  "zero_loop disk header index start len written d =
     (if written < len then
        let absolute = usize_add start written;
            logical_sector = of_nat (absolute div 512);
            sector_offset = absolute mod 512;
            count = min (len - written) (512 - sector_offset) in
        case pfs_entry_lba_for_sector header index logical_sector of
          None \<Rightarrow> (False, d)
        | Some lba \<Rightarrow>
            (case (if count = 512 then (Some (replicate 512 0), d)
                   else
                     case rd disk lba d of
                       (None, d) \<Rightarrow> (None, d)
                     | (Some sector, d) \<Rightarrow> (Some (copy_at sector sector_offset (replicate count 0)), d)) of
               (None, d) \<Rightarrow> (False, d)
             | (Some sector, d) \<Rightarrow>
                 (case wr disk lba sector d of
                    (False, d) \<Rightarrow> (False, d)
                  | (True, d) \<Rightarrow> zero_loop disk header index start len (written + count) d))
      else (True, d))"
  by pat_completeness auto
termination
  by (relation "measure (\<lambda>(disk, header, index, start, len, written, d). len - written)") auto

declare zero_loop.simps [simp del]

definition pfs_zero_range :: "'d disk \<Rightarrow> bytes \<Rightarrow> nat \<Rightarrow> nat \<Rightarrow> nat \<Rightarrow> 'd \<Rightarrow> bool \<times> 'd" where
  "pfs_zero_range disk header index start len d = zero_loop disk header index start len 0 d"

definition pfs_update_size :: "'d disk \<Rightarrow> u64 \<Rightarrow> nat \<Rightarrow> nat \<Rightarrow> 'd \<Rightarrow> bool \<times> 'd" where
  "pfs_update_size disk now index fsize d =
     (case read_header_silent disk d of
        (None, d) \<Rightarrow> (False, d)
      | (Some header, d) \<Rightarrow>
          if \<not> pfs_entry_used header index then (False, d)
          else
            let offset = pfs_entry_offset index;
                header = copy_at header (offset + 2) (to_le_bytes32 (of_nat fsize));
                header = pfs_touch_modified now index header
            in write_header disk header d)"

definition pfs_ensure_file_capacity :: "'d disk \<Rightarrow> u64 \<Rightarrow> nat \<Rightarrow> nat \<Rightarrow> 'd \<Rightarrow> bool \<times> 'd" where
  "pfs_ensure_file_capacity disk now index fsize d =
     (case read_header_silent disk d of
        (None, d) \<Rightarrow> (False, d)
      | (Some header, d) \<Rightarrow>
          if \<not> pfs_entry_used header index \<or> pfs_entry_is_dir header index then (False, d)
          else
            let old_size = pfs_entry_size header index;
                old_sectors = pfs_entry_total_sectors header index;
                new_sectors = sectors_for_len fsize in
            if new_sectors \<le> old_sectors then (True, d)
            else
              let extents = map (pfs_entry_extent header index) [0..<pfs_entry_extent_count header index];
                  additional = new_sectors - old_sectors in
              case pfs_grow_extents header extents additional (Some index) of
                None \<Rightarrow> (False, d)
              | Some extents \<Rightarrow>
                  write_header disk
                    (pfs_set_entry now header index (pfs_entry_name header index) old_size
                       (pfs_entry_kind header index) extents (pfs_entry_created header index)
                       (pfs_entry_mode header index)) d)"

function write_loop :: "'d disk \<Rightarrow> bytes \<Rightarrow> nat \<Rightarrow> nat \<Rightarrow> bytes \<Rightarrow> nat \<Rightarrow> 'd \<Rightarrow> bool \<times> 'd" where
  "write_loop disk header index offset data copied d =
     (if copied < length data then
        let absolute = usize_add offset copied;
            logical_sector = of_nat (absolute div 512);
            sector_offset = absolute mod 512;
            count = min (length data - copied) (512 - sector_offset) in
        case pfs_entry_lba_for_sector header index logical_sector of
          None \<Rightarrow> (False, d)
        | Some lba \<Rightarrow>
            (case rd disk lba d of
               (None, d) \<Rightarrow> (False, d)
             | (Some sector, d) \<Rightarrow>
                 (case wr disk lba (copy_at sector sector_offset (subslice data copied (copied + count))) d of
                    (False, d) \<Rightarrow> (False, d)
                  | (True, d) \<Rightarrow> write_loop disk header index offset data (copied + count) d))
      else (True, d))"
  by pat_completeness auto
termination
  by (relation "measure (\<lambda>(disk, header, index, offset, data, copied, d). length data - copied)") auto

declare write_loop.simps [simp del]

definition pfs_write_at :: "'d disk \<Rightarrow> u64 \<Rightarrow> nat \<Rightarrow> nat \<Rightarrow> bytes \<Rightarrow> 'd \<Rightarrow> bool \<times> 'd" where
  "pfs_write_at disk now index offset data d =
     (let new_size = usize_add offset (length data) in
      if new_size > PFS_FILE_MAX then (False, d)
      else
        case read_header_silent disk d of
          (None, d) \<Rightarrow> (False, d)
        | (Some header, d) \<Rightarrow>
            if \<not> pfs_entry_used header index then (False, d)
            else
              let old_size = pfs_entry_size header index in
              case pfs_ensure_file_capacity disk now index new_size d of
                (False, d) \<Rightarrow> (False, d)
              | (True, d) \<Rightarrow>
                  (case read_header_silent disk d of
                     (None, d) \<Rightarrow> (False, d)
                   | (Some header, d) \<Rightarrow>
                       (case (if offset > old_size then pfs_zero_range disk header index old_size (offset - old_size) d
                              else (True, d)) of
                          (False, d) \<Rightarrow> (False, d)
                        | (True, d) \<Rightarrow> write_loop disk header index offset data 0 d)))"

section \<open>Contents as bytes\<close>

definition blocks :: "(nat \<Rightarrow> bytes) \<Rightarrow> nat list \<Rightarrow> bytes" where
  "blocks v ss = concat (map v ss)"

lemma blocks_Nil [simp]: "blocks v [] = []" and blocks_append: "blocks v (xs @ ys) = blocks v xs @ blocks v ys"
  and blocks_Cons: "blocks v (x # xs) = v x @ blocks v xs"
  by (simp_all add: blocks_def)

lemma length_blocks: "(\<And>k. k \<in> set ss \<Longrightarrow> length (v k) = 512) \<Longrightarrow> length (blocks v ss) = 512 * length ss"
  by (induction ss) (simp_all add: blocks_Cons)

lemma blocks_cong: "(\<And>k. k \<in> set ss \<Longrightarrow> v k = v' k) \<Longrightarrow> blocks v ss = blocks v' ss"
  unfolding blocks_def by (metis map_cong)

lemma blocks_split:
  assumes "k < length ss"
  shows "blocks v ss = blocks v (take k ss) @ v (ss ! k) @ blocks v (drop (Suc k) ss)"
  by (subst id_take_nth_drop [OF assms]) (simp add: blocks_append blocks_Cons)

lemma copy_at_middle:
  "a + length ys \<le> length B \<Longrightarrow> copy_at (A @ B @ C) (length A + a) ys = A @ copy_at B a ys @ C"
  by (simp add: copy_at_def)

lemma subslice_middle:
  "a \<le> b \<Longrightarrow> b \<le> length B \<Longrightarrow> subslice (A @ B @ C) (length A + a) (length A + b) = subslice B a b"
  by (simp add: subslice_def)

lemma blocks_read:
  assumes "k < length ss" "\<And>x. x \<in> set ss \<Longrightarrow> length (v x) = 512" "a + c \<le> 512"
  shows "subslice (v (ss ! k)) a (a + c) = subslice (blocks v ss) (k * 512 + a) (k * 512 + a + c)"
proof -
  have "length (blocks v (take k ss)) = 512 * length (take k ss)"
    by (rule length_blocks) (auto dest: in_set_takeD intro: assms(2))
  then have "length (blocks v (take k ss)) = k * 512" using assms(1) by simp
  then show ?thesis
    using assms subslice_middle [of a "a + c" "v (ss ! k)" "blocks v (take k ss)" "blocks v (drop (Suc k) ss)"]
    by (simp add: blocks_split [OF assms(1)] add.assoc)
qed

lemma blocks_update:
  assumes "k < length ss" "distinct ss" "\<And>x. x \<in> set ss \<Longrightarrow> length (v x) = 512" "a + length ys \<le> 512"
    and v': "v' (ss ! k) = copy_at (v (ss ! k)) a ys" "\<And>x. x \<noteq> ss ! k \<Longrightarrow> v' x = v x"
  shows "blocks v' ss = copy_at (blocks v ss) (k * 512 + a) ys"
proof -
  have "length (blocks v (take k ss)) = 512 * length (take k ss)"
    by (rule length_blocks) (auto dest: in_set_takeD intro: assms(3))
  then have l: "length (blocks v (take k ss)) = k * 512" using assms(1) by simp
  have "ss ! k \<notin> set (take k ss)" "ss ! k \<notin> set (drop (Suc k) ss)"
    using assms(1,2) by (auto simp: in_set_conv_nth nth_eq_iff_index_eq)
  then have "blocks v' (take k ss) = blocks v (take k ss)" "blocks v' (drop (Suc k) ss) = blocks v (drop (Suc k) ss)"
    by (metis blocks_cong v'(2))+
  then show ?thesis
    using assms(1,3,4) l copy_at_middle [of a ys "v (ss ! k)" "blocks v (take k ss)" "blocks v (drop (Suc k) ss)"]
    by (simp add: blocks_split [OF assms(1), of v] blocks_split [OF assms(1), of v'] v'(1))
qed

lemma copy_at_split:
  assumes "a + length xs + length ys \<le> length zs"
  shows "copy_at (copy_at zs a xs) (a + length xs) ys = copy_at zs a (xs @ ys)"
  using assms by (simp add: copy_at_def ac_simps)

lemma copy_at_nil [simp]: "copy_at zs a [] = zs"
  by (simp add: copy_at_def)

lemma lba_lookup:
  assumes "ext_sorted (entry_extents h i)" "pfs_entry_lba_for_sector h i k = Some lba"
  defines "ss \<equiv> sectors_of (entry_extents h i)"
  shows "unat k < length ss" "unat lba = ss ! unat k" "unat lba < 8388608" "unat lba \<in> set ss"
proof -
  have k: "unat k < length ss" and lba: "lba = of_nat (ss ! unat k)"
    using assms by (auto simp: pfs_entry_lba_for_sector_def entry_extents_map lba_in_extents_nth ext_sorted_def split: if_splits)
  have "ss ! unat k \<in> set ss" using k by simp
  moreover from this have "ss ! unat k < 8388608" using ext_sorted_distinct(2) [OF assms(1)] by (auto simp: ss_def)
  ultimately show "unat k < length ss" "unat lba = ss ! unat k" "unat lba < 8388608" "unat lba \<in> set ss"
    using k by (simp_all add: lba unat_of_nat_small)
qed

lemma small_sector: "n \<le> PFS_FILE_MAX \<Longrightarrow> unat (of_nat (n div 512) :: u32) = n div 512"
  by (intro unat_of_nat_small) (simp add: PFS_FILE_MAX_def PFS_SECTORS_PER_FILE_def)

lemma blocks_subslices:
  "length h = 512 * n \<Longrightarrow> (\<And>k. k < n \<Longrightarrow> v k = subslice h (k * 512) (k * 512 + 512)) \<Longrightarrow> blocks v [0..<n] = h"
proof (induction n arbitrary: h)
  case (Suc n)
  let ?t = "take (512 * n) h"
  have "blocks v [0..<n] = ?t"
    using Suc.prems by (intro Suc.IH) (auto simp: subslice_def drop_take min_def)
  moreover have "v n = drop (512 * n) h" using Suc.prems by (simp add: subslice_def mult.commute)
  ultimately show ?case by (simp add: blocks_append blocks_Cons)
qed simp

definition disk_header :: "(nat \<Rightarrow> bytes) \<Rightarrow> bytes" where
  "disk_header v = blocks v [0..<77]"

definition file_sectors :: "(nat \<Rightarrow> bytes) \<Rightarrow> nat \<Rightarrow> nat list" where
  "file_sectors v i = sectors_of (entry_extents (disk_header v) i)"

definition file_bytes :: "(nat \<Rightarrow> bytes) \<Rightarrow> nat \<Rightarrow> bytes" where
  "file_bytes v i = blocks v (file_sectors v i)"

definition volume_ok :: "(nat \<Rightarrow> bytes) \<Rightarrow> bool" where
  "volume_ok v \<longleftrightarrow> header_wf (disk_header v) \<and> alloc_wf (disk_header v)"

lemma file_sectors_ok:
  assumes "volume_ok v" "i < 256" "is_file (disk_header v) i"
  shows "ext_sorted (entry_extents (disk_header v) i)" "set (file_sectors v i) \<subseteq> {77..<8388608}"
    "set (file_sectors v i) \<inter> in_use (disk_header v) (Some i) = {}"
  using assms ext_sorted_distinct(2) by (auto simp: volume_ok_def alloc_wf_def file_sectors_def)

lemma disk_header_cong: "(\<And>k. k < 77 \<Longrightarrow> v k = v' k) \<Longrightarrow> disk_header v = disk_header v'"
  unfolding disk_header_def by (rule blocks_cong) simp

lemma sectors_for_len_covers:
  assumes "fsize \<le> PFS_FILE_MAX"
  shows "fsize \<le> 512 * unat (sectors_for_len fsize)"
proof -
  have "unat (sectors_for_len fsize) = (fsize + 511) div 512"
    using assms by (simp add: sectors_for_len_def unat_of_nat_small PFS_FILE_MAX_def PFS_SECTORS_PER_FILE_def)
  moreover have "fsize \<le> 512 * ((fsize + 511) div 512)" by simp
  ultimately show ?thesis by simp
qed

text \<open>What growing a file to hold \<open>fsize\<close> bytes does to the header.\<close>

definition capacity_grown :: "nat \<Rightarrow> nat \<Rightarrow> bytes \<Rightarrow> bytes \<Rightarrow> bool" where
  "capacity_grown i fsize h h' \<longleftrightarrow> header_wf h' \<and> alloc_wf h' \<and> is_file h i \<and> is_file h' i \<and>
     (\<forall>j<256. j \<noteq> i \<longrightarrow> pfs_entry_at h' j = pfs_entry_at h j) \<and>
     e_size (pfs_entry_at h' i) = e_size (pfs_entry_at h i) \<and> e_name (pfs_entry_at h' i) = e_name (pfs_entry_at h i) \<and>
     fsize \<le> 512 * length (sectors_of (entry_extents h' i)) \<and>
     (\<exists>new. sectors_of (entry_extents h' i) = sectors_of (entry_extents h i) @ new)"

definition grown_entry :: "u64 \<Rightarrow> nat \<Rightarrow> pfs_extent list \<Rightarrow> bytes \<Rightarrow> bytes" where
  "grown_entry now i es h = pfs_set_entry now h i (pfs_entry_name h i) (pfs_entry_size h i)
     (pfs_entry_kind h i) es (pfs_entry_created h i) (pfs_entry_mode h i)"

lemma grown_entry_put:
  "grown_entry now i es h = put_entry i (e_name (pfs_entry_at h i)) (now, e_size (pfs_entry_at h i),
     e_kind (pfs_entry_at h i), es, e_created (pfs_entry_at h i), e_mode (pfs_entry_at h i)) h"
  by (simp add: grown_entry_def put_entry_def accessors_of_entry)

lemma grow_header:
  assumes "header_wf h" "alloc_wf h" "i < 256" "is_file h i"
    "pfs_grow_extents h (entry_extents h i) additional (Some i) = Some es"
    "fsize \<le> 512 * (length (sectors_of (entry_extents h i)) + unat additional)"
  shows "capacity_grown i fsize h (grown_entry now i es h)"
proof -
  let ?e = "pfs_entry_at h i" and ?h = "grown_entry now i es h"
  from pfs_grow_extents_correct_aux [OF assms(2-5)] obtain new where
    g: "ext_sorted es" "length es \<le> 4" "sectors_of es = sectors_of (entry_extents h i) @ new"
      "length new = unat additional" "set new \<inter> in_use h None = {}" by blast
  have ok: "entry_args_ok (e_name ?e) (now, e_size ?e, e_kind ?e, es, e_created ?e, e_mode ?e)"
    using name_len_name [OF assms(1,3)] g(2) assms(4) entry_size_bound [of h i]
    by (simp add: entry_args_ok_def is_file_def accessors_of_entry)
  note at = put_entry_at [OF assms(1,3) ok, folded grown_entry_put]
  have ext: "entry_extents ?h i = es" using at(1) by (simp add: entry_extents_def)
  have wf: "header_wf ?h" using pfs.put_ok [OF assms(1,3) ok] by (simp add: grown_entry_put)
  have kind: "is_file ?h i" using at(1) assms(4) by (simp add: is_file_def accessors_of_entry)
  have "set (sectors_of es) \<inter> in_use h (Some i) = {}"
  proof -
    have "in_use h (Some i) \<subseteq> in_use h None" by (auto simp: in_use_def)
    moreover have "set (sectors_of (entry_extents h i)) \<inter> in_use h (Some i) = {}"
      using assms(2-4) by (simp add: alloc_wf_def)
    ultimately show ?thesis using g(3,5) by auto
  qed
  then have "alloc_wf ?h" using g(1) ext at(2) by (intro alloc_wf_replace [OF assms(2,3)]) simp_all
  with wf kind at ext g(3,4) assms(4,6) show ?thesis by (auto simp: capacity_grown_def)
qed

lemma grown_others:
  assumes "capacity_grown i fsize h h'"
  shows "in_use h' (Some i) = in_use h (Some i)"
    "i < 256 \<Longrightarrow> set (sectors_of (entry_extents h' i)) \<inter> in_use h (Some i) = {}"
    "j < 256 \<Longrightarrow> j \<noteq> i \<Longrightarrow> is_file h j \<Longrightarrow> set (sectors_of (entry_extents h j)) \<subseteq> in_use h (Some i)"
proof -
  show u: "in_use h' (Some i) = in_use h (Some i)"
    using assms by (intro in_use_replace(1)) (auto simp: capacity_grown_def)
  show "i < 256 \<Longrightarrow> set (sectors_of (entry_extents h' i)) \<inter> in_use h (Some i) = {}"
    using assms unfolding u [symmetric] capacity_grown_def alloc_wf_def by blast
  show "j < 256 \<Longrightarrow> j \<noteq> i \<Longrightarrow> is_file h j \<Longrightarrow> set (sectors_of (entry_extents h j)) \<subseteq> in_use h (Some i)"
    by (auto simp: in_use_def set_sectors_of)
qed

lemma in_use_data: "volume_ok v \<Longrightarrow> k \<in> in_use (disk_header v) skip \<Longrightarrow> 77 \<le> k"
  using ext_sorted_distinct(2) by (fastforce simp: volume_ok_def alloc_wf_def in_use_def set_sectors_of)

lemma nth_copy_gap:
  fixes B data :: bytes and old offset :: nat
  assumes "offset + length data \<le> length B"
  defines "B' \<equiv> copy_at (copy_at B old (replicate (offset - old) 0)) offset data"
  shows "length B' = length B" "subslice B' offset (offset + length data) = data"
    "old \<le> k \<Longrightarrow> k < offset \<Longrightarrow> B' ! k = (0 :: u8)"
    "k < old \<Longrightarrow> \<not> (offset \<le> k \<and> k < offset + length data) \<Longrightarrow> B' ! k = B ! k"
proof -
  have l: "length (copy_at B old (replicate (offset - old) 0)) = length B"
    using assms(1) by (cases "old \<le> offset") simp_all
  show "length B' = length B" "subslice B' offset (offset + length data) = data"
    using assms(1) l by (simp_all add: B'_def slice_copy_at_in)
  show "old \<le> k \<Longrightarrow> k < offset \<Longrightarrow> B' ! k = 0"
    "k < old \<Longrightarrow> \<not> (offset \<le> k \<and> k < offset + length data) \<Longrightarrow> B' ! k = B ! k"
    using assms(1) l by (cases "old \<le> offset"; auto simp: B'_def nth_copy_at)+
qed

text \<open>What a successful write of \<open>data\<close> at \<open>offset\<close> means for the volume.\<close>

definition write_done :: "nat \<Rightarrow> nat \<Rightarrow> bytes \<Rightarrow> (nat \<Rightarrow> bytes) \<Rightarrow> (nat \<Rightarrow> bytes) \<Rightarrow> bool" where
  "write_done i offset data v v' \<longleftrightarrow>
     (let old_size = pfs_entry_size (disk_header v) i; B = file_bytes v i; B' = file_bytes v' i in
      offset + length data \<le> length B' \<and> subslice B' offset (offset + length data) = data \<and>
      (\<forall>k. old_size \<le> k \<and> k < offset \<longrightarrow> B' ! k = 0) \<and>
      (\<forall>k < length B. k < old_size \<and> \<not> (offset \<le> k \<and> k < offset + length data) \<longrightarrow> B' ! k = B ! k) \<and>
      pfs_entry_size (disk_header v') i = old_size \<and> is_file (disk_header v') i)"

definition others_kept :: "nat \<Rightarrow> (nat \<Rightarrow> bytes) \<Rightarrow> (nat \<Rightarrow> bytes) \<Rightarrow> bool" where
  "others_kept i v v' \<longleftrightarrow> (\<forall>j<256. j \<noteq> i \<longrightarrow> pfs_entry_at (disk_header v') j = pfs_entry_at (disk_header v) j \<and>
     (is_file (disk_header v) j \<longrightarrow> file_bytes v' j = file_bytes v j))"

section \<open>The device contract\<close>

locale block_device =
  fixes disk :: "'d disk" and view :: "'d \<Rightarrow> nat \<Rightarrow> bytes" and dev_ok :: "'d \<Rightarrow> bool"
  assumes rd_law: "dev_ok d \<Longrightarrow> unat lba < 8388608 \<Longrightarrow> rd disk lba d = (r, d') \<Longrightarrow>
      dev_ok d' \<and> view d' = view d \<and> (\<forall>b. r = Some b \<longrightarrow> b = view d (unat lba))"
    and wr_law: "dev_ok d \<Longrightarrow> unat lba < 8388608 \<Longrightarrow> length b = 512 \<Longrightarrow> wr disk lba b d = (ok, d') \<Longrightarrow>
      dev_ok d' \<and> (\<forall>k. k \<noteq> unat lba \<longrightarrow> view d' k = view d k) \<and> (ok \<longrightarrow> view d' (unat lba) = b)"
    and view_len: "dev_ok d \<Longrightarrow> k < 8388608 \<Longrightarrow> length (view d k) = 512"
begin

lemma read_header_loop_law:
  assumes "dev_ok d" "m \<le> n" "n \<le> 77" "length header = 39424"
    "read_header_loop disk [m..<n] header d = (r, d')"
  shows "dev_ok d' \<and> view d' = view d \<and> (\<forall>h. r = Some h \<longrightarrow> h = copy_at header (m * 512) (blocks (view d) [m..<n]))"
  using assms
proof (induction "n - m" arbitrary: m header d)
  case 0
  then show ?case by (auto simp: copy_at_def)
next
  case (Suc x)
  then have mn: "m < n" "[m..<n] = m # [Suc m..<n]" by (simp_all add: upt_conv_Cons)
  have u: "unat (of_nat m :: u32) = m" using mn Suc.prems by (intro unat_of_nat_small) simp
  obtain r1 d1 where r1: "rd disk (of_nat m) d = (r1, d1)" by fastforce
  have law: "dev_ok d1" "view d1 = view d" "\<And>b. r1 = Some b \<Longrightarrow> b = view d m"
    using rd_law [OF Suc.prems(1) _ r1] u mn Suc.prems by auto
  show ?case
  proof (cases r1)
    case None
    with Suc.prems r1 mn law show ?thesis by auto
  next
    case (Some b)
    then have b: "b = view d m" "length b = 512" using law view_len Suc.prems mn by auto
    have rest: "read_header_loop disk [Suc m..<n] (copy_at header (m * 512) b) d1 = (r, d')"
      using Suc.prems(5) r1 Some mn by simp
    have "dev_ok d' \<and> view d' = view d1 \<and> (\<forall>h. r = Some h \<longrightarrow>
        h = copy_at (copy_at header (m * 512) b) (Suc m * 512) (blocks (view d1) [Suc m..<n]))"
      using Suc.prems Suc.hyps(2) b mn law by (intro Suc.hyps(1) [OF _ law(1) _ _ _ rest]) auto
    moreover have "length (blocks (view d) [Suc m..<n]) = 512 * length [Suc m..<n]"
      by (rule length_blocks) (use Suc.prems view_len in auto)
    ultimately show ?thesis
      using copy_at_split [of "m * 512" b "blocks (view d) [Suc m..<n]" header] b Suc.prems mn law
      by (auto simp: blocks_Cons add.commute)
  qed
qed

lemma length_disk_header: "dev_ok d \<Longrightarrow> length (disk_header (view d)) = 39424"
  unfolding disk_header_def by (subst length_blocks) (auto intro: view_len)

lemma read_header_silent_law:
  assumes "dev_ok d" "read_header_silent disk d = (r, d')"
  shows "dev_ok d'" "view d' = view d" "r = Some h \<Longrightarrow> h = disk_header (view d)"
proof -
  obtain r1 d1 where l: "read_header_loop disk [0..<77] (replicate 39424 0) d = (r1, d1)" by fastforce
  then have law: "dev_ok d1" "view d1 = view d" "\<And>h. r1 = Some h \<Longrightarrow> h = disk_header (view d)"
    using read_header_loop_law [OF assms(1), of 0 77 "replicate 39424 0" r1 d1] length_disk_header [OF assms(1)]
    by (auto simp: disk_header_def copy_at_def)
  have "d' = d1" "r = Some h \<Longrightarrow> r1 = Some h"
    using assms(2) l by (auto simp: read_header_silent_def split: option.splits if_splits)
  with law show "dev_ok d'" "view d' = view d" "r = Some h \<Longrightarrow> h = disk_header (view d)" by auto
qed

lemma write_header_loop_law:
  assumes "dev_ok d" "m \<le> n" "n \<le> 77" "length header = 39424" "write_header_loop disk [m..<n] header d = (ok, d')"
  shows "dev_ok d' \<and> (\<forall>k. k < m \<or> n \<le> k \<longrightarrow> view d' k = view d k) \<and>
    (ok \<longrightarrow> (\<forall>k\<in>{m..<n}. view d' k = subslice header (k * 512) (k * 512 + 512)))"
  using assms
proof (induction "n - m" arbitrary: m d)
  case 0
  then show ?case by auto
next
  case (Suc x)
  then have mn: "m < n" "[m..<n] = m # [Suc m..<n]" by (simp_all add: upt_conv_Cons)
  have u: "unat (of_nat m :: u32) = m" using mn Suc.prems by (intro unat_of_nat_small) simp
  let ?s = "subslice header (m * 512) (m * 512 + 512)"
  have len: "length ?s = 512" using Suc.prems mn by simp
  obtain ok1 d1 where w: "wr disk (of_nat m) ?s d = (ok1, d1)" by fastforce
  have law: "dev_ok d1" "\<And>k. k \<noteq> m \<Longrightarrow> view d1 k = view d k" "ok1 \<Longrightarrow> view d1 m = ?s"
    using wr_law [OF Suc.prems(1) _ len w] u mn Suc.prems by auto
  show ?case
  proof (cases ok1)
    case False
    with Suc.prems w mn law show ?thesis by (auto simp: Let_def)
  next
    case True
    have rest: "write_header_loop disk [Suc m..<n] header d1 = (ok, d')"
      using Suc.prems(5) w True mn by (simp add: Let_def)
    have ih: "dev_ok d' \<and> (\<forall>k. k < Suc m \<or> n \<le> k \<longrightarrow> view d' k = view d1 k) \<and>
        (ok \<longrightarrow> (\<forall>k\<in>{Suc m..<n}. view d' k = subslice header (k * 512) (k * 512 + 512)))"
      using Suc.prems Suc.hyps(2) mn by (intro Suc.hyps(1) [OF _ law(1) _ _ _ rest]) auto
    have "view d' k = subslice header (k * 512) (k * 512 + 512)" if "ok" "k \<in> {m..<n}" for k
      using ih that law True by (cases "k = m") auto
    with ih law(2) mn show ?thesis by auto
  qed
qed

lemma write_header_law:
  assumes "dev_ok d" "length h = 39424" "write_header disk h d = (ok, d')"
  shows "dev_ok d'" "k \<ge> 77 \<Longrightarrow> view d' k = view d k" "ok \<Longrightarrow> disk_header (view d') = h"
  using write_header_loop_law [OF assms(1), of 0 77 h ok d'] assms(2,3) blocks_subslices [of h 77 "view d'"]
  by (auto simp: write_header_def disk_header_def)

text \<open>One turn of a data loop touches one sector of the file, at the right byte offset.\<close>

lemma chunk_read:
  assumes "dev_ok d" "ext_sorted (entry_extents h i)" "n \<le> PFS_FILE_MAX" "n mod 512 + c \<le> 512"
    "pfs_entry_lba_for_sector h i (of_nat (n div 512)) = Some lba"
  defines "ss \<equiv> sectors_of (entry_extents h i)"
  shows "subslice (view d (unat lba)) (n mod 512) (n mod 512 + c) = subslice (blocks (view d) ss) n (n + c)"
    "n + c \<le> length (blocks (view d) ss)"
proof -
  note l = lba_lookup [OF assms(2,5), folded ss_def, unfolded small_sector [OF assms(3)]]
  have len: "x \<in> set ss \<Longrightarrow> length (view d x) = 512" for x
    using ext_sorted_distinct(2) [OF assms(2)] view_len [OF assms(1)] by (auto simp: ss_def)
  show "subslice (view d (unat lba)) (n mod 512) (n mod 512 + c) = subslice (blocks (view d) ss) n (n + c)"
    using blocks_read [of "n div 512" ss "view d" "n mod 512" c] l len assms(4) by simp
  have "n + c \<le> 512 * length ss" if "q < length ss" "q * 512 + r = n" "r + c \<le> 512" for q r
  proof -
    have "Suc q * 512 \<le> length ss * 512" using that(1) by (intro mult_right_mono) simp_all
    with that(2,3) show ?thesis by simp
  qed
  from this [OF l(1) _ assms(4)] have "n + c \<le> 512 * length ss" by simp
  moreover have "length (blocks (view d) ss) = 512 * length ss" by (rule length_blocks) (rule len)
  ultimately show "n + c \<le> length (blocks (view d) ss)" by simp
qed

lemma chunk_write:
  assumes "dev_ok d" "ext_sorted (entry_extents h i)" "n \<le> PFS_FILE_MAX" "n mod 512 + length ys \<le> 512"
    "pfs_entry_lba_for_sector h i (of_nat (n div 512)) = Some lba"
    "view d' (unat lba) = copy_at (view d (unat lba)) (n mod 512) ys" "\<And>k. k \<noteq> unat lba \<Longrightarrow> view d' k = view d k"
  defines "ss \<equiv> sectors_of (entry_extents h i)"
  shows "blocks (view d') ss = copy_at (blocks (view d) ss) n ys"
proof -
  note l = lba_lookup [OF assms(2,5), folded ss_def, unfolded small_sector [OF assms(3)]]
  have len: "x \<in> set ss \<Longrightarrow> length (view d x) = 512" for x
    using ext_sorted_distinct(2) [OF assms(2)] view_len [OF assms(1)] by (auto simp: ss_def)
  show ?thesis
    using blocks_update [of "n div 512" ss "view d" "n mod 512" ys "view d'"] l len assms(4,6,7)
      ext_sorted_distinct(1) [OF assms(2)] by (simp add: ss_def)
qed

lemma read_loop_law:
  assumes "dev_ok d" "ext_sorted (entry_extents h i)" "read_loop disk h i offset len copied dest d = (ok, out, d')"
  shows "dev_ok d' \<and> view d' = view d \<and>
    (ok \<longrightarrow> offset + len \<le> PFS_FILE_MAX \<longrightarrow> copied \<le> len \<longrightarrow>
      out = dest @ subslice (blocks (view d) (sectors_of (entry_extents h i))) (offset + copied) (offset + len))"
  using assms
proof (induction "len - copied" arbitrary: copied dest d rule: less_induct)
  case less
  show ?case
  proof (cases "copied < len")
    case False
    with less.prems show ?thesis by (auto simp: read_loop.simps)
  next
    case True
    define n where "n = usize_add offset copied"
    define c where "c = min (len - copied) (512 - n mod 512)"
    have c: "0 < c" "c \<le> len - copied" "n mod 512 + c \<le> 512" using True by (auto simp: c_def)
    have e: "read_loop disk h i offset len copied dest d =
        (case pfs_entry_lba_for_sector h i (of_nat (n div 512)) of
          None \<Rightarrow> (False, dest, d)
        | Some lba \<Rightarrow>
            (case rd disk lba d of
               (None, d) \<Rightarrow> (False, dest, d)
             | (Some sector, d) \<Rightarrow> read_loop disk h i offset len (copied + c)
                 (dest @ subslice sector (n mod 512) (n mod 512 + c)) d))"
      unfolding n_def c_def using True by (subst read_loop.simps) (simp add: Let_def)
    show ?thesis
    proof (cases "pfs_entry_lba_for_sector h i (of_nat (n div 512))")
      case None
      with e less.prems show ?thesis by simp
    next
      case (Some lba)
      obtain r d1 where r: "rd disk lba d = (r, d1)" by fastforce
      have law: "dev_ok d1" "view d1 = view d" "\<And>b. r = Some b \<Longrightarrow> b = view d (unat lba)"
        using rd_law [OF less.prems(1) lba_lookup(3) [OF less.prems(2) Some] r] by auto
      show ?thesis
      proof (cases r)
        case None
        with e Some r law less.prems show ?thesis by simp
      next
        case sector: (Some b)
        have rest: "read_loop disk h i offset len (copied + c) (dest @ subslice b (n mod 512) (n mod 512 + c)) d1 = (ok, out, d')"
          using e Some r sector less.prems(3) by simp
        have "len - (copied + c) < len - copied" using c True by simp
        note ih = less.hyps [OF this law(1) less.prems(2) rest]
        have "out = dest @ subslice (blocks (view d) (sectors_of (entry_extents h i))) (offset + copied) (offset + len)"
          if ok: "ok" "offset + len \<le> PFS_FILE_MAX" "copied \<le> len"
        proof -
          have n: "n = offset + copied" "n \<le> PFS_FILE_MAX"
            using ok True by (simp_all add: n_def PFS_FILE_MAX_def PFS_SECTORS_PER_FILE_def)
          have "subslice b (n mod 512) (n mod 512 + c) = subslice (blocks (view d) (sectors_of (entry_extents h i))) n (n + c)"
            using chunk_read(1) [OF less.prems(1,2) n(2) c(3) Some] law(3) [OF sector] by simp
          with ih ok c n(1) law(2) show ?thesis
            using slice_append_split [of n "n + c" "offset + len" "blocks (view d) (sectors_of (entry_extents h i))"]
            by (simp add: add.assoc)
        qed
        with ih law(2) show ?thesis by auto
      qed
    qed
  qed
qed

text \<open>
  The outcome of a loop that stores \<open>data\<close> from byte \<open>n\<close> of the file: only sectors
  of the file change, and on success the bytes are there.
\<close>

definition stored :: "bytes \<Rightarrow> nat \<Rightarrow> nat \<Rightarrow> bytes \<Rightarrow> 'd \<Rightarrow> bool \<Rightarrow> 'd \<Rightarrow> bool" where
  "stored h i n data d ok d' \<longleftrightarrow> dev_ok d' \<and>
     (\<forall>k. k \<notin> set (sectors_of (entry_extents h i)) \<longrightarrow> view d' k = view d k) \<and>
     (ok \<longrightarrow> n + length data \<le> PFS_FILE_MAX \<longrightarrow>
       blocks (view d') (sectors_of (entry_extents h i)) =
         copy_at (blocks (view d) (sectors_of (entry_extents h i))) n data \<and>
       (data \<noteq> [] \<longrightarrow> n + length data \<le> length (blocks (view d) (sectors_of (entry_extents h i)))))"

lemma stored_refl: "dev_ok d \<Longrightarrow> stored h i n data d False d"
  by (simp add: stored_def)

lemma stored_step:
  assumes "dev_ok d" "ext_sorted (entry_extents h i)" "ys \<noteq> []"
    "m + length (ys @ zs) \<le> PFS_FILE_MAX \<Longrightarrow> n = m" "n mod 512 + length ys \<le> 512"
    "pfs_entry_lba_for_sector h i (of_nat (n div 512)) = Some lba"
    and s: "s = copy_at (view d (unat lba)) (n mod 512) ys"
    and w: "wr disk lba s d = (ok1, d1)"
    and rest: "ok1 \<Longrightarrow> dev_ok d1 \<Longrightarrow> stored h i (m + length ys) zs d1 ok d'" "\<not> ok1 \<Longrightarrow> d' = d1 \<and> \<not> ok"
  shows "stored h i m (ys @ zs) d ok d'"
proof -
  let ?ss = "sectors_of (entry_extents h i)"
  note l = lba_lookup [OF assms(2,6)]
  have "length s = 512" using assms(5) view_len [OF assms(1) l(3)] by (simp add: s)
  from wr_law [OF assms(1) l(3) this w]
  have law: "dev_ok d1" "\<And>k. k \<noteq> unat lba \<Longrightarrow> view d1 k = view d k" "ok1 \<Longrightarrow> view d1 (unat lba) = s" by auto
  have own: "view d1 k = view d k" if "k \<notin> set ?ss" for k using that l(4) law(2) by metis
  show ?thesis
  proof (cases ok1)
    case False
    with rest(2) own law(1) show ?thesis by (simp add: stored_def)
  next
    case True
    note r = rest(1) [OF True law(1), unfolded stored_def]
    have "blocks (view d') ?ss = copy_at (blocks (view d) ?ss) m (ys @ zs) \<and>
        m + length (ys @ zs) \<le> length (blocks (view d) ?ss)"
      if ok: "ok" "m + length (ys @ zs) \<le> PFS_FILE_MAX"
    proof -
      have n: "n = m" "m \<le> PFS_FILE_MAX" using assms(4) [OF ok(2)] ok(2) by simp_all
      have b: "blocks (view d1) ?ss = copy_at (blocks (view d) ?ss) m ys"
        using chunk_write [OF assms(1,2) _ assms(5,6), of d1] n law(2) law(3) [OF True] s by simp
      have len: "m + length ys \<le> length (blocks (view d) ?ss)"
        using chunk_read(2) [OF assms(1,2) _ assms(5,6)] n by simp
      then have len1: "length (blocks (view d1) ?ss) = length (blocks (view d) ?ss)" by (simp add: b)
      have fit: "m + length ys + length zs \<le> length (blocks (view d) ?ss)"
        using r ok len len1 by (cases "zs = []") (auto simp: add.assoc)
      have "blocks (view d') ?ss = copy_at (blocks (view d1) ?ss) (m + length ys) zs"
        using r ok by (simp add: add.assoc)
      with b copy_at_split [OF fit] fit show ?thesis by simp
    qed
    with r own show ?thesis by (simp add: stored_def)
  qed
qed

lemma write_loop_law:
  assumes "dev_ok d" "ext_sorted (entry_extents h i)" "copied \<le> length data"
    "write_loop disk h i offset data copied d = (ok, d')"
  shows "stored h i (offset + copied) (drop copied data) d ok d'"
  using assms
proof (induction "length data - copied" arbitrary: copied d rule: less_induct)
  case less
  show ?case
  proof (cases "copied < length data")
    case False
    with less.prems show ?thesis by (auto simp: write_loop.simps stored_def)
  next
    case True
    define n where "n = usize_add offset copied"
    define c where "c = min (length data - copied) (512 - n mod 512)"
    let ?ys = "subslice data copied (copied + c)"
    have c: "0 < c" "copied + c \<le> length data" "n mod 512 + c \<le> 512" using True by (auto simp: c_def)
    have e: "write_loop disk h i offset data copied d =
        (case pfs_entry_lba_for_sector h i (of_nat (n div 512)) of
          None \<Rightarrow> (False, d)
        | Some lba \<Rightarrow>
            (case rd disk lba d of
               (None, d) \<Rightarrow> (False, d)
             | (Some sector, d) \<Rightarrow>
                 (case wr disk lba (copy_at sector (n mod 512) (subslice data copied (copied + c))) d of
                    (False, d) \<Rightarrow> (False, d)
                  | (True, d) \<Rightarrow> write_loop disk h i offset data (copied + c) d)))"
      unfolding n_def c_def using True by (subst write_loop.simps) (simp add: Let_def)
    show ?thesis
    proof (cases "pfs_entry_lba_for_sector h i (of_nat (n div 512))")
      case None
      with e less.prems stored_refl show ?thesis by simp
    next
      case (Some lba)
      obtain r d1 where r: "rd disk lba d = (r, d1)" by fastforce
      have law: "dev_ok d1" "view d1 = view d" "\<And>b. r = Some b \<Longrightarrow> b = view d (unat lba)"
        using rd_law [OF less.prems(1) lba_lookup(3) [OF less.prems(2) Some] r] by auto
      show ?thesis
      proof (cases r)
        case None
        with e Some r law less.prems show ?thesis by (simp add: stored_def)
      next
        case sector: (Some b)
        obtain ok1 d2 where w: "wr disk lba (copy_at b (n mod 512) ?ys) d1 = (ok1, d2)" by fastforce
        have dr: "drop copied data = ?ys @ drop (copied + c) data" "length ?ys = c"
          using c by (simp_all add: subslice_def) (metis append_take_drop_id drop_drop add.commute)
        have "stored h i (offset + copied) (?ys @ drop (copied + c) data) d1 ok d'"
        proof (rule stored_step [OF law(1) less.prems(2) _ _ _ Some _ w])
          show "?ys \<noteq> []" using dr(2) c(1) by auto
          show "stored h i (offset + copied + length ?ys) (drop (copied + c) data) d2 ok d'" if "ok1" "dev_ok d2"
            using less.hyps [of "copied + c" d2] that c dr less.prems e Some r sector w by (simp add: add.assoc)
        qed (use c dr less.prems e Some r sector w law(3) law(2) in
            \<open>auto simp: n_def PFS_FILE_MAX_def PFS_SECTORS_PER_FILE_def\<close>)
        with dr(1) law(2) show ?thesis by (simp add: stored_def)
      qed
    qed
  qed
qed

lemma zero_loop_law:
  assumes "dev_ok d" "ext_sorted (entry_extents h i)" "written \<le> len"
    "zero_loop disk h i start len written d = (ok, d')"
  shows "stored h i (start + written) (replicate (len - written) 0) d ok d'"
  using assms
proof (induction "len - written" arbitrary: written d rule: less_induct)
  case less
  show ?case
  proof (cases "written < len")
    case False
    with less.prems show ?thesis by (auto simp: zero_loop.simps stored_def)
  next
    case True
    define n where "n = usize_add start written"
    define c where "c = min (len - written) (512 - n mod 512)"
    have c: "0 < c" "written + c \<le> len" "n mod 512 + c \<le> 512" using True by (auto simp: c_def)
    define fetch where "fetch = (\<lambda>lba d. if c = 512 then (Some (replicate 512 0), d)
      else case rd disk lba d of (None, d) \<Rightarrow> (None, d)
        | (Some sector, d) \<Rightarrow> (Some (copy_at sector (n mod 512) (replicate c 0)), d))"
    have e: "zero_loop disk h i start len written d =
        (case pfs_entry_lba_for_sector h i (of_nat (n div 512)) of
          None \<Rightarrow> (False, d)
        | Some lba \<Rightarrow>
            (case fetch lba d of
               (None, d) \<Rightarrow> (False, d)
             | (Some sector, d) \<Rightarrow>
                 (case wr disk lba sector d of
                    (False, d) \<Rightarrow> (False, d)
                  | (True, d) \<Rightarrow> zero_loop disk h i start len (written + c) d)))"
      unfolding fetch_def n_def c_def using True by (subst zero_loop.simps) (simp add: Let_def)
    show ?thesis
    proof (cases "pfs_entry_lba_for_sector h i (of_nat (n div 512))")
      case None
      with e less.prems stored_refl show ?thesis by simp
    next
      case (Some lba)
      note l = lba_lookup(3) [OF less.prems(2) Some]
      obtain r d1 where r: "fetch lba d = (r, d1)" by fastforce
      have full: "copy_at (view d (unat lba)) (n mod 512) (replicate c 0) = replicate 512 0" if "c = 512"
        using that c(3) view_len [OF less.prems(1) l] by (simp add: copy_at_def)
      have law: "dev_ok d1" "view d1 = view d"
          "\<And>b. r = Some b \<Longrightarrow> b = copy_at (view d (unat lba)) (n mod 512) (replicate c 0)"
        using rd_law [OF less.prems(1) l] r full less.prems(1)
        by (auto simp: fetch_def split: if_splits prod.splits option.splits)
      show ?thesis
      proof (cases r)
        case None
        with e Some r law less.prems show ?thesis by (simp add: stored_def)
      next
        case sector: (Some b)
        obtain ok1 d2 where w: "wr disk lba b d1 = (ok1, d2)" by fastforce
        have dr: "replicate (len - written) 0 = replicate c 0 @ replicate (len - (written + c)) (0::u8)"
          using c by (simp add: replicate_add [symmetric])
        have "stored h i (start + written) (replicate c 0 @ replicate (len - (written + c)) 0) d1 ok d'"
        proof (rule stored_step [OF law(1) less.prems(2) _ _ _ Some _ w])
          show "b = copy_at (view d1 (unat lba)) (n mod 512) (replicate c 0)" using law(2,3) sector by simp
          show "stored h i (start + written + length (replicate c (0::u8))) (replicate (len - (written + c)) 0) d2 ok d'"
            if "ok1" "dev_ok d2"
            using less.hyps [of "written + c" d2] that c less.prems e Some r sector w by (simp add: add.assoc)
        qed (use c less.prems e Some r sector w in \<open>auto simp: n_def PFS_FILE_MAX_def PFS_SECTORS_PER_FILE_def\<close>)
        with dr law(2) show ?thesis by (simp add: stored_def)
      qed
    qed
  qed
qed

lemma pfs_ensure_file_capacity_law:
  assumes "dev_ok d" "volume_ok (view d)" "i < 256" "fsize \<le> PFS_FILE_MAX"
    "pfs_ensure_file_capacity disk now i fsize d = (ok, d')"
  shows "dev_ok d' \<and> (\<forall>k\<ge>77. view d' k = view d k) \<and>
    (ok \<longrightarrow> capacity_grown i fsize (disk_header (view d)) (disk_header (view d')))"
proof -
  define h where "h = disk_header (view d)"
  obtain r d1 where r: "read_header_silent disk d = (r, d1)" by fastforce
  note l1 = read_header_silent_law [OF assms(1) r]
  have wf: "header_wf h" "alloc_wf h" using assms(2) by (simp_all add: h_def volume_ok_def)
  show ?thesis
  proof (cases "r = None \<or> \<not> is_file h i")
    case True
    then have "d' = d1 \<and> \<not> ok"
      using assms(5) r l1(3) by (auto simp: pfs_ensure_file_capacity_def is_file_def h_def split: option.splits)
    with l1 show ?thesis by simp
  next
    case False
    then have rh: "r = Some h" and f: "is_file h i" using l1(3) by (auto simp: h_def)
    let ?old = "pfs_entry_total_sectors h i" and ?new = "sectors_for_len fsize"
    have srt: "ext_sorted (entry_extents h i)" using wf f assms(3) by (simp add: alloc_wf_def)
    have tot: "unat ?old = length (sectors_of (entry_extents h i))"
      using length_sectors_bound [OF srt] by (intro total_sectors_length) simp
    have e: "pfs_ensure_file_capacity disk now i fsize d = (if ?new \<le> ?old then (True, d1)
        else case pfs_grow_extents h (entry_extents h i) (?new - ?old) (Some i) of None \<Rightarrow> (False, d1)
          | Some es \<Rightarrow> write_header disk (grown_entry now i es h) d1)"
      unfolding grown_entry_def
      using r rh f by (simp add: pfs_ensure_file_capacity_def is_file_def Let_def entry_extents_map)
    show ?thesis
    proof (cases "?new \<le> ?old")
      case True
      then have "fsize \<le> 512 * length (sectors_of (entry_extents h i))"
        using sectors_for_len_covers [OF assms(4)] by (simp add: word_le_nat_alt tot)
      with True e assms(5) l1 wf f show ?thesis by (simp add: capacity_grown_def h_def [symmetric])
    next
      case more: False
      then have "unat (?new - ?old) = unat ?new - unat ?old" "unat ?old \<le> unat ?new"
        by (simp_all add: unat_sub word_le_nat_alt)
      then have cap: "fsize \<le> 512 * (length (sectors_of (entry_extents h i)) + unat (?new - ?old))"
        using sectors_for_len_covers [OF assms(4)] tot by simp
      show ?thesis
      proof (cases "pfs_grow_extents h (entry_extents h i) (?new - ?old) (Some i)")
        case None
        with e more assms(5) l1 show ?thesis by simp
      next
        case (Some es)
        note g = grow_header [OF wf assms(3) f Some cap, of now]
        have "length (grown_entry now i es h) = 39424"
          using g by (simp add: capacity_grown_def header_wf_def header_ok_def)
        moreover have "write_header disk (grown_entry now i es h) d1 = (ok, d')" using e more Some assms(5) by simp
        ultimately show ?thesis
          using write_header_law [OF l1(1)] l1(2) g by (simp add: h_def [symmetric])
      qed
    qed
  qed
qed

lemma pfs_zero_step:
  assumes "dev_ok d" "ext_sorted (entry_extents h i)" "z = (if offset > old_size then pfs_zero_range disk h i old_size (offset - old_size) d else (True, d))"
  shows "stored h i old_size (replicate (offset - old_size) 0) d (fst z) (snd z)"
proof (cases "offset > old_size")
  case True
  obtain ok d' where "zero_loop disk h i old_size (offset - old_size) 0 d = (ok, d')" by fastforce
  with True assms(3) zero_loop_law [OF assms(1,2) _ this] show ?thesis by (simp add: pfs_zero_range_def)
qed (use assms in \<open>simp add: stored_def\<close>)

text \<open>The stages of a write: grow, read the header again, zero the gap, store.\<close>

lemma pfs_write_at_stages:
  assumes "dev_ok d" "volume_ok (view d)" "i < 256" "pfs_write_at disk now i offset data d = (ok, d')"
  obtains (stop) "dev_ok d'" "\<not> ok" "\<And>k. k \<ge> 77 \<Longrightarrow> view d' k = view d k"
  | (go) d2 z where "usize_add offset (length data) \<le> PFS_FILE_MAX" "dev_ok d2" "\<And>k. k \<ge> 77 \<Longrightarrow> view d2 k = view d k"
      "capacity_grown i (usize_add offset (length data)) (disk_header (view d)) (disk_header (view d2))"
      "stored (disk_header (view d2)) i (pfs_entry_size (disk_header (view d)) i)
         (replicate (offset - pfs_entry_size (disk_header (view d)) i) 0) d2 (fst z) (snd z)"
      "\<not> fst z \<Longrightarrow> \<not> ok \<and> d' = snd z"
      "fst z \<Longrightarrow> stored (disk_header (view d2)) i offset data (snd z) ok d'"
      "offset \<le> pfs_entry_size (disk_header (view d)) i \<Longrightarrow> z = (True, d2)"
      "subslice (disk_header (view d2)) 0 8 = lit ''RYMFS5'' @ [0, 0]"
proof -
  let ?n = "usize_add offset (length data)"
  define h where "h = disk_header (view d)"
  obtain r d1 where r: "read_header_silent disk d = (r, d1)" by fastforce
  note l1 = read_header_silent_law [OF assms(1) r]
  show thesis
  proof (cases "?n > PFS_FILE_MAX \<or> r = None \<or> \<not> pfs_entry_used h i")
    case True
    then have "(d' = d1 \<or> d' = d) \<and> \<not> ok"
      using assms(4) r l1(3) by (auto simp: pfs_write_at_def Let_def h_def split: option.splits if_splits)
    with l1 assms(1) show thesis by (intro stop) auto
  next
    case False
    then have rh: "r = Some h" and n: "?n \<le> PFS_FILE_MAX" and u: "pfs_entry_used h i" using l1(3) by (auto simp: h_def)
    obtain okc d2 where c: "pfs_ensure_file_capacity disk now i ?n d1 = (okc, d2)" by fastforce
    have lc: "dev_ok d2" "\<And>k. k \<ge> 77 \<Longrightarrow> view d2 k = view d k"
        "okc \<Longrightarrow> capacity_grown i ?n h (disk_header (view d2))"
      using pfs_ensure_file_capacity_law [OF l1(1) _ assms(3) n c] assms(2) l1(2) by (auto simp: h_def)
    obtain r3 d3 where r3: "read_header_silent disk d2 = (r3, d3)" by fastforce
    note l3 = read_header_silent_law [OF lc(1) r3]
    show thesis
    proof (cases "okc \<and> r3 \<noteq> None")
      case False
      then have "(d' = d2 \<or> d' = d3) \<and> \<not> ok"
        using assms(4) r rh n u c r3 by (cases okc; cases r3) (simp_all add: pfs_write_at_def Let_def)
      with l3 lc show thesis by (intro stop) auto
    next
      case True
      then obtain h3 where h3a: "r3 = Some h3" by blast
      with l3(2) l3(3) [OF h3a] have h3: "r3 = Some h3" "h3 = disk_header (view d3)" by simp_all
      have g: "capacity_grown i ?n h h3" using True lc(3) h3 l3(2) by simp
      have srt: "ext_sorted (entry_extents h3 i)" using g assms(3) by (simp add: capacity_grown_def alloc_wf_def)
      define z where "z = (if offset > pfs_entry_size h i
        then pfs_zero_range disk h3 i (pfs_entry_size h i) (offset - pfs_entry_size h i) d3 else (True, d3))"
      have w: "(ok, d') = (case z of (False, d) \<Rightarrow> (False, d) | (True, d) \<Rightarrow> write_loop disk h3 i offset data 0 d)"
        using assms(4) r rh n u c r3 True h3(1) by (simp add: pfs_write_at_def Let_def z_def)
      note zs = pfs_zero_step [OF l3(1) srt z_def]
      have zo: "dev_ok (snd z)" using zs by (simp add: stored_def)
      have fin: "fst z \<Longrightarrow> stored h3 i offset data (snd z) ok d'"
        using write_loop_law [OF zo srt, of 0 data offset ok d'] w by (cases z) simp
      have same: "offset \<le> pfs_entry_size h i \<Longrightarrow> z = (True, d3)" by (simp add: z_def)
      have stp: "\<not> fst z \<Longrightarrow> \<not> ok \<and> d' = snd z" using w by (cases z) simp
      have "subslice h3 0 8 = lit ''RYMFS5'' @ [0, 0]"
        using r3 h3(1) by (auto simp: read_header_silent_def simp del: lit_simps split: option.splits prod.splits if_splits)
      then have mg: "subslice (disk_header (view d3)) 0 8 = lit ''RYMFS5'' @ [0, 0]" unfolding h3(2) .
      show thesis
      proof (rule go [of d3 z])
        show "subslice (disk_header (view d3)) 0 8 = lit ''RYMFS5'' @ [0, 0]" by (rule mg)
      qed (use n l3 lc(2) g zs fin stp same h3(2) in \<open>auto simp: h_def\<close>)
    qed
  qed
qed

lemma pfs_write_at_isolated:
  assumes "dev_ok d" "volume_ok (view d)" "i < 256" "pfs_write_at disk now i offset data d = (ok, d')"
  shows "dev_ok d' \<and> (\<forall>k \<in> in_use (disk_header (view d)) (Some i). view d' k = view d k)"
  using assms
proof (cases rule: pfs_write_at_stages)
  case stop
  with in_use_data [OF assms(2)] show ?thesis by blast
next
  case (go d2 z)
  have own: "k \<notin> set (sectors_of (entry_extents (disk_header (view d2)) i))" "77 \<le> k"
    if "k \<in> in_use (disk_header (view d)) (Some i)" for k
    using that grown_others(2) [OF go(4) assms(3)] in_use_data [OF assms(2)] by auto
  show ?thesis
  proof (cases "fst z")
    case True
    from go(3,5) go(7) [OF True] own show ?thesis by (auto simp: stored_def)
  next
    case False
    from go(3,5) go(6) [OF False] own show ?thesis by (auto simp: stored_def)
  qed
qed

lemma pfs_write_at_magic:
  assumes "dev_ok d" "volume_ok (view d)" "i < 256" "pfs_write_at disk now i offset data d = (True, d')"
  shows "subslice (disk_header (view d')) 0 8 = lit ''RYMFS5'' @ [0, 0]"
  using assms
proof (cases rule: pfs_write_at_stages)
  case (go d2 z)
  let ?ss = "sectors_of (entry_extents (disk_header (view d2)) i)"
  have srt: "ext_sorted (entry_extents (disk_header (view d2)) i)" using go(4) assms(3) by (simp add: capacity_grown_def alloc_wf_def)
  have "fst z" using go(6) by blast
  then have "k \<notin> set ?ss \<Longrightarrow> view d' k = view d2 k" for k using go(5,7) by (auto simp: stored_def)
  moreover have "k \<notin> set ?ss" if "k < 77" for k using that ext_sorted_distinct(2) [OF srt] by auto
  ultimately have "disk_header (view d') = disk_header (view d2)" by (intro disk_header_cong) auto
  with go(9) show ?thesis by metis
qed blast

lemma pfs_write_at_done:
  assumes "dev_ok d" "volume_ok (view d)" "i < 256" "offset + length data < 2 ^ 64"
    "pfs_write_at disk now i offset data d = (True, d')"
  shows "volume_ok (view d') \<and> write_done i offset data (view d) (view d') \<and> others_kept i (view d) (view d')"
  using assms(1-3,5)
proof (cases rule: pfs_write_at_stages)
  case (go d2 z)
  define h h2 old where "h = disk_header (view d)" and "h2 = disk_header (view d2)"
    and "old = pfs_entry_size (disk_header (view d)) i"
  define ss where "ss = sectors_of (entry_extents h2 i)"
  have z: "fst z" using go(6) by blast
  have n: "offset + length data \<le> PFS_FILE_MAX" using go(1) assms(4) by simp
  have g: "capacity_grown i (offset + length data) h h2" using go(4) assms(4) by (simp add: h_def h2_def)
  have srt: "ext_sorted (entry_extents h2 i)" using g assms(3) by (simp add: capacity_grown_def alloc_wf_def)
  have low: "k \<notin> set ss" if "k < 77" for k using that ext_sorted_distinct(2) [OF srt] by (auto simp: ss_def)
  have st: "\<And>k. k \<notin> set ss \<Longrightarrow> view d' k = view d2 k"
    using go(5) go(7) [OF z] by (auto simp: stored_def ss_def h2_def)
  have hd: "disk_header (view d') = h2" unfolding h2_def by (rule disk_header_cong) (use st low in auto)
  have len2: "length (blocks (view d2) ss) = 512 * length ss"
    by (rule length_blocks) (use ext_sorted_distinct(2) [OF srt] view_len [OF go(2)] in \<open>auto simp: ss_def\<close>)
  have cap: "offset + length data \<le> length (blocks (view d2) ss)"
    using g len2 by (simp add: capacity_grown_def ss_def)
  have b3: "blocks (view (snd z)) ss = copy_at (blocks (view d2) ss) old (replicate (offset - old) 0)"
  proof (cases "offset \<le> old")
    case True
    with go(8) show ?thesis by (simp add: old_def)
  next
    case False
    with go(5) z n show ?thesis by (simp add: stored_def ss_def h2_def old_def)
  qed
  have b: "blocks (view d') ss = copy_at (copy_at (blocks (view d2) ss) old (replicate (offset - old) 0)) offset data"
    using go(7) [OF z] n b3 by (simp add: stored_def ss_def h2_def)
  obtain new where new: "ss = file_sectors (view d) i @ new"
    using g by (auto simp: capacity_grown_def ss_def file_sectors_def h_def)
  have "blocks (view d2) (file_sectors (view d) i) = file_bytes (view d) i"
    unfolding file_bytes_def
    by (rule blocks_cong) (use file_sectors_ok(2) [OF assms(2,3)] g go(3) in \<open>auto simp: capacity_grown_def h_def\<close>)
  then have pre: "blocks (view d2) ss ! k = file_bytes (view d) i ! k" if "k < length (file_bytes (view d) i)" for k
    using that by (simp add: new blocks_append nth_append)
  have fb: "file_bytes (view d') i = blocks (view d') ss" by (simp add: file_bytes_def file_sectors_def hd ss_def)
  note gap = nth_copy_gap [OF cap, where old = old, folded b]
  have "write_done i offset data (view d) (view d')"
    using gap cap pre g by (auto simp: write_done_def Let_def fb hd old_def [symmetric] capacity_grown_def
        accessors_of_entry h_def [symmetric] simp: old_def)
  moreover have "volume_ok (view d')" using g by (simp add: volume_ok_def hd capacity_grown_def)
  moreover have "others_kept i (view d) (view d')"
    unfolding others_kept_def
  proof (intro allI impI conjI)
    fix j assume j: "j < 256" "j \<noteq> i"
    show e: "pfs_entry_at (disk_header (view d')) j = pfs_entry_at (disk_header (view d)) j"
      using g j by (simp add: hd capacity_grown_def h_def)
    assume f: "is_file (disk_header (view d)) j"
    have "k \<notin> set ss \<and> 77 \<le> k" if "k \<in> set (file_sectors (view d) j)" for k
    proof -
      have "k \<in> in_use h (Some i)"
        using that grown_others(3) [OF g j] f by (auto simp: file_sectors_def h_def)
      with grown_others(2) [OF g assms(3)] in_use_data [OF assms(2)] show ?thesis by (auto simp: h_def ss_def)
    qed
    with st go(3) show "file_bytes (view d') j = file_bytes (view d) j"
      using e by (auto simp: file_bytes_def file_sectors_def entry_extents_def intro!: blocks_cong)
  qed
  ultimately show ?thesis by blast
qed simp

lemma pfs_read_at_done:
  assumes "dev_ok d" "volume_ok (view d)" "i < 256" "is_file (disk_header (view d)) i" "offset + len < 2 ^ 64"
    "pfs_read_at disk i offset len d = (ok, out, d')"
  shows "dev_ok d' \<and> view d' = view d \<and> (ok \<longrightarrow> out = subslice (file_bytes (view d) i) offset (offset + len))"
proof -
  obtain r d1 where r: "read_header_silent disk d = (r, d1)" by fastforce
  note l1 = read_header_silent_law [OF assms(1) r]
  show ?thesis
  proof (cases "r = None \<or> usize_add offset len > PFS_FILE_MAX")
    case True
    with assms(6) r l1 show ?thesis by (auto simp: pfs_read_at_def split: option.splits)
  next
    case False
    then have h: "r = Some (disk_header (view d))" and n: "offset + len \<le> PFS_FILE_MAX" using l1(3) assms(5) by auto
    have "read_loop disk (disk_header (view d)) i offset len 0 [] d1 = (ok, out, d')"
      using assms(4,5,6) r h n by (simp add: pfs_read_at_def is_file_def not_less [symmetric])
    from read_loop_law [OF l1(1) file_sectors_ok(1) [OF assms(2-4)] this] n l1(2) show ?thesis
      by (simp add: file_bytes_def file_sectors_def)
  qed
qed

end

definition can_hold :: "bytes \<Rightarrow> nat \<Rightarrow> nat \<Rightarrow> bool" where
  "can_hold h i fsize \<longleftrightarrow> sectors_for_len fsize \<le> pfs_entry_total_sectors h i \<or>
     pfs_grow_extents h (entry_extents h i) (sectors_for_len fsize - pfs_entry_total_sectors h i) (Some i) \<noteq> None"

definition magic_ok :: "bytes \<Rightarrow> bool" where
  "magic_ok h \<longleftrightarrow> subslice h 0 8 = lit ''RYMFS5'' @ [0, 0]"

lemma magic_grown_entry:
  assumes "header_wf h" "i < 256" "magic_ok h"
  shows "magic_ok (grown_entry now i es h)"
proof -
  have "subslice (grown_entry now i es h) 0 8 = subslice h 0 8"
    using assms(1,2) name_len_name [OF assms(1,2)] entry_offset_bound [of i] header_wfD(1) [OF assms(1)]
    unfolding grown_entry_def
    by (subst pfs_set_entry_layout) (auto simp: header_ok_def pfs_entry_offset_def intro!: slice_copy_at_out)
  with assms(3) show ?thesis by (simp add: magic_ok_def)
qed

lemma has_room_can_hold:
  assumes "alloc_wf h" "i < 256" "is_file h i" "fsize \<le> PFS_FILE_MAX"
    "has_room h i ((fsize + 511) div 512 - length (sectors_of (entry_extents h i)))"
  shows "can_hold h i fsize"
proof (cases "sectors_for_len fsize \<le> pfs_entry_total_sectors h i")
  case False
  have srt: "ext_sorted (entry_extents h i)" using assms(1-3) by (simp add: alloc_wf_def)
  have tot: "unat (pfs_entry_total_sectors h i) = length (sectors_of (entry_extents h i))"
    using length_sectors_bound [OF srt] by (intro total_sectors_length) simp
  have "unat (sectors_for_len fsize) = (fsize + 511) div 512"
    using assms(4) by (auto simp: sectors_for_len_def PFS_FILE_MAX_def PFS_SECTORS_PER_FILE_def intro!: unat_of_nat_small)
  with False tot have "unat (sectors_for_len fsize - pfs_entry_total_sectors h i) = (fsize + 511) div 512 - length (sectors_of (entry_extents h i))"
    by (simp add: unat_sub word_le_nat_alt)
  with has_room_grows [OF assms(1-3), of "sectors_for_len fsize - pfs_entry_total_sectors h i"] assms(5) show ?thesis
    by (simp add: can_hold_def)
qed (simp add: can_hold_def)

section \<open>Sectors are written whole\<close>

text \<open>A device that never leaves a sector half written.\<close>

locale sector_device = block_device +
  assumes wr_whole: "dev_ok d \<Longrightarrow> unat lba < 8388608 \<Longrightarrow> length b = 512 \<Longrightarrow> wr disk lba b d = (ok, d') \<Longrightarrow>
      view d' (unat lba) = view d (unat lba) \<or> view d' (unat lba) = b"
begin

lemma write_header_loop_mix:
  assumes "dev_ok d" "m \<le> n" "n \<le> 77" "length header = 39424" "write_header_loop disk [m..<n] header d = (ok, d')"
  shows "view d' k = view d k \<or> view d' k = subslice header (k * 512) (k * 512 + 512)"
  using assms
proof (induction "n - m" arbitrary: m d)
  case 0
  then show ?case by auto
next
  case (Suc x)
  then have mn: "m < n" "[m..<n] = m # [Suc m..<n]" by (simp_all add: upt_conv_Cons)
  have u: "unat (of_nat m :: u32) = m" using mn Suc.prems by (intro unat_of_nat_small) simp
  let ?s = "subslice header (m * 512) (m * 512 + 512)"
  have len: "length ?s = 512" using Suc.prems mn by simp
  obtain ok1 d1 where w: "wr disk (of_nat m) ?s d = (ok1, d1)" by fastforce
  have law: "dev_ok d1" "\<And>k. k \<noteq> m \<Longrightarrow> view d1 k = view d k"
    using wr_law [OF Suc.prems(1) _ len w] u mn Suc.prems by auto
  have here: "view d1 m = view d m \<or> view d1 m = ?s" using wr_whole [OF Suc.prems(1) _ len w] u mn Suc.prems by auto
  show ?case
  proof (cases ok1)
    case False
    then have "d' = d1" using Suc.prems w mn by (simp add: Let_def)
    with law(2) here show ?thesis by (cases "k = m") auto
  next
    case True
    have rest: "write_header_loop disk [Suc m..<n] header d1 = (ok, d')"
      using Suc.prems(5) w True mn by (simp add: Let_def)
    have ih: "view d' k = view d1 k \<or> view d' k = subslice header (k * 512) (k * 512 + 512)"
      using Suc.prems Suc.hyps(2) mn by (intro Suc.hyps(1) [OF _ law(1) _ _ _ rest]) auto
    with law(2) here show ?thesis by (cases "k = m") auto
  qed
qed

lemma disk_header_nth:
  assumes "dev_ok d" "p < 39424"
  shows "disk_header (view d) ! p = view d (p div 512) ! (p mod 512)"
proof -
  have "blocks (view d) [0..<n] ! p = view d (p div 512) ! (p mod 512)" if "p < 512 * n" "n \<le> 77" for n
    using that
  proof (induction n)
    case (Suc n)
    have l: "length (blocks (view d) [0..<n]) = 512 * n" using view_len [OF assms(1)] Suc.prems by (subst length_blocks) auto
    show ?case
    proof (cases "p < 512 * n")
      case True
      with Suc l show ?thesis by (simp add: blocks_append nth_append)
    next
      case False
      then have q: "p div 512 = n" using Suc.prems(1) by (intro div_nat_eqI) auto
      then have "p - 512 * n = p mod 512" using minus_mult_div_eq_mod [of p 512] by simp
      with q False l show ?thesis by (simp add: blocks_append blocks_Cons nth_append)
    qed
  qed simp
  from this [of 77] assms(2) show ?thesis by (simp add: disk_header_def)
qed

lemma write_header_entries:
  assumes "dev_ok d" "header_wf (disk_header (view d))" "header_ok h" "write_header disk h d = (ok, d')"
    "j < 256" "entry_slice h j = entry_slice (disk_header (view d)) j"
  shows "pfs_entry_at (disk_header (view d')) j = pfs_entry_at (disk_header (view d)) j"
proof -
  have lh: "length h = 39424" using assms(3) by (simp add: header_ok_def)
  have d': "dev_ok d'" using write_header_law(1) [OF assms(1) lh assms(4)] .
  have ok: "header_ok (disk_header (view d))" "header_ok (disk_header (view d'))"
    using length_disk_header [OF assms(1)] length_disk_header [OF d'] by (simp_all add: header_ok_def)
  have "entry_slice (disk_header (view d')) j = entry_slice (disk_header (view d)) j"
  proof (rule nth_equalityI)
    fix k
    assume "k < length (entry_slice (disk_header (view d')) j)"
    then have k: "k < 152" using ok assms(5) by simp
    define p where "p = pfs_entry_offset j + k"
    have p: "p < 39424" using k entry_offset_bound [OF assms(5)] by (simp add: p_def)
    note at = entry_slice_nth [OF _ assms(5) k, folded p_def]
    have old: "disk_header (view d) ! p = h ! p" using at [OF ok(1)] at [OF assms(3)] assms(6) by simp
    have "view d' (p div 512) = view d (p div 512) \<or> view d' (p div 512) = subslice h (p div 512 * 512) (p div 512 * 512 + 512)"
      using write_header_loop_mix [OF assms(1) _ _ lh, of 0 77] assms(4) by (simp add: write_header_def)
    moreover have "subslice h (p div 512 * 512) (p div 512 * 512 + 512) ! (p mod 512) = h ! p"
    proof -
      have "p div 512 * 512 + 512 \<le> length h" using p lh by (auto simp: dest!: less_mult_imp_div_less [of _ 77 512, simplified])
      then show ?thesis by simp
    qed
    ultimately have "disk_header (view d') ! p = disk_header (view d) ! p"
      using disk_header_nth [OF assms(1) p] disk_header_nth [OF d' p] old by auto
    then show "entry_slice (disk_header (view d')) j ! k = entry_slice (disk_header (view d)) j ! k"
      using at [OF ok(1)] at [OF ok(2)] by simp
  qed (use ok assms(5) in simp)
  with entry_at_cong(1) [OF ok assms(5)] header_wfD(2) [OF assms(2,5)] show ?thesis by blast
qed

lemma pfs_ensure_file_capacity_entries:
  assumes "dev_ok d" "volume_ok (view d)" "i < 256" "pfs_ensure_file_capacity disk now i fsize d = (ok, d')" "j < 256" "j \<noteq> i"
  shows "pfs_entry_at (disk_header (view d')) j = pfs_entry_at (disk_header (view d)) j"
proof -
  define h where "h = disk_header (view d)"
  obtain r d1 where r: "read_header_silent disk d = (r, d1)" by fastforce
  note l1 = read_header_silent_law [OF assms(1) r]
  have wf: "header_wf h" using assms(2) by (simp add: h_def volume_ok_def)
  have nl: "length (pfs_entry_name h i) \<le> 96" using name_len_name [OF wf assms(3)] header_wfD(2) [OF wf assms(3)] by simp
  show ?thesis
  proof (cases "view d' = view d1")
    case True
    with l1 show ?thesis by simp
  next
    case False
    then have "r \<noteq> None" using assms(4) r by (auto simp: pfs_ensure_file_capacity_def)
    then have "r = Some h" using l1(3) by (auto simp: h_def)
    with False assms(4) r obtain es where w: "write_header disk (grown_entry now i es h) d1 = (ok, d')"
      unfolding pfs_ensure_file_capacity_def grown_entry_def Let_def
      by (cases "pfs_grow_extents h (map (pfs_entry_extent h i) [0..<pfs_entry_extent_count h i])
          (sectors_for_len fsize - pfs_entry_total_sectors h i) (Some i)") (simp_all split: if_splits)
    note s = pfs_set_entry_facts [OF header_wfD(1) [OF wf] assms(3) nl]
    have "header_ok (grown_entry now i es h)" "entry_slice (grown_entry now i es h) j = entry_slice h j"
      unfolding grown_entry_def using s(1) s(3) [OF assms(5,6)] by simp_all
    with write_header_entries [OF l1(1) _ _ w assms(5)] wf l1(2) show ?thesis by (simp add: h_def)
  qed
qed

text \<open>A write changes the directory table in one place only: where it makes the file larger.\<close>

lemma pfs_write_at_entries:
  assumes "dev_ok d" "volume_ok (view d)" "i < 256" "pfs_write_at disk now i offset data d = (ok, d')" "j < 256" "j \<noteq> i"
  shows "pfs_entry_at (disk_header (view d')) j = pfs_entry_at (disk_header (view d)) j"
proof -
  let ?n = "usize_add offset (length data)"
  define h where "h = disk_header (view d)"
  obtain r d1 where r: "read_header_silent disk d = (r, d1)" by fastforce
  note l1 = read_header_silent_law [OF assms(1) r]
  obtain okc d2 where c: "pfs_ensure_file_capacity disk now i ?n d1 = (okc, d2)" by fastforce
  have e2: "pfs_entry_at (disk_header (view d2)) j = pfs_entry_at h j"
    using pfs_ensure_file_capacity_entries [OF l1(1) _ assms(3) c assms(5,6)] assms(2) l1(2) by (simp add: h_def)
  obtain r3 d3 where r3: "read_header_silent disk d2 = (r3, d3)" by fastforce
  show ?thesis
  proof (cases "?n > PFS_FILE_MAX \<or> r = None \<or> \<not> pfs_entry_used h i")
    case True
    moreover have "r = None \<or> r = Some h" using l1(3) by (cases r) (auto simp: h_def)
    ultimately consider "?n > PFS_FILE_MAX" | "r = None" | "r = Some h" "\<not> pfs_entry_used h i" by blast
    then have "d' = d1 \<or> d' = d"
    proof cases
      case 1
      with assms(4) show ?thesis by (simp add: pfs_write_at_def Let_def)
    next
      case 2
      with assms(4) r show ?thesis by (simp add: pfs_write_at_def Let_def split: if_splits)
    next
      case 3
      with assms(4) r show ?thesis by (simp add: pfs_write_at_def Let_def split: if_splits)
    qed
    with l1 show ?thesis by auto
  next
    case False
    then have rh: "r = Some h" and n: "?n \<le> PFS_FILE_MAX" and u: "pfs_entry_used h i" using l1(3) by (auto simp: h_def)
    have lc: "dev_ok d2" "okc \<Longrightarrow> capacity_grown i ?n h (disk_header (view d2))"
      using pfs_ensure_file_capacity_law [OF l1(1) _ assms(3) n c] assms(2) l1(2) by (auto simp: h_def)
    note l3 = read_header_silent_law [OF lc(1) r3]
    show ?thesis
    proof (cases "okc \<and> r3 \<noteq> None")
      case False
      then have "d' = d2 \<or> d' = d3"
        using assms(4) r rh n u c r3 by (cases okc; cases r3) (simp_all add: pfs_write_at_def Let_def)
      with l3(2) e2 show ?thesis by (auto simp: h_def)
    next
      case True
      then obtain h3 where h3a: "r3 = Some h3" by blast
      with l3(2) l3(3) [OF h3a] have h3: "r3 = Some h3" "h3 = disk_header (view d2)" by simp_all
      have srt: "ext_sorted (entry_extents h3 i)" using True lc(2) h3(2) assms(3) by (simp add: capacity_grown_def alloc_wf_def)
      have low: "k \<notin> set (sectors_of (entry_extents h3 i))" if "k < 77" for k using that ext_sorted_distinct(2) [OF srt] by auto
      define z where "z = (if offset > pfs_entry_size h i
        then pfs_zero_range disk h3 i (pfs_entry_size h i) (offset - pfs_entry_size h i) d3 else (True, d3))"
      have w: "(ok, d') = (case z of (False, d) \<Rightarrow> (False, d) | (True, d) \<Rightarrow> write_loop disk h3 i offset data 0 d)"
        using assms(4) r rh n u c r3 True h3(1) by (simp add: pfs_write_at_def Let_def z_def)
      have zs: "stored h3 i (pfs_entry_size h i) (replicate (offset - pfs_entry_size h i) 0) d3 (fst z) (snd z)"
        by (rule pfs_zero_step [OF l3(1) srt z_def])
      have fin: "fst z \<Longrightarrow> stored h3 i offset data (snd z) ok d'"
        using write_loop_law [OF _ srt, of "snd z" 0 data offset ok d'] zs w by (cases z) (simp add: stored_def)
      have "view d' k = view d3 k" if "k < 77" for k
        using zs fin w low [OF that] by (cases z; cases "fst z") (auto simp: stored_def)
      then have "disk_header (view d') = disk_header (view d3)" by (intro disk_header_cong) auto
      with l3(2) e2 show ?thesis by (simp add: h_def)
    qed
  qed
qed

end

section \<open>On a device without errors\<close>

locale reliable_device = block_device +
  assumes rd_works: "dev_ok d \<Longrightarrow> unat lba < 8388608 \<Longrightarrow> fst (rd disk lba d) \<noteq> None"
    and wr_works: "dev_ok d \<Longrightarrow> unat lba < 8388608 \<Longrightarrow> length b = 512 \<Longrightarrow> fst (wr disk lba b d)"
begin

lemma rd_some:
  assumes "dev_ok d" "unat lba < 8388608"
  obtains d' where "rd disk lba d = (Some (view d (unat lba)), d')" "dev_ok d'" "view d' = view d"
proof -
  obtain r d' where r: "rd disk lba d = (r, d')" by fastforce
  moreover have "r \<noteq> None" using rd_works [OF assms] r by simp
  then obtain b where b: "r = Some b" by blast
  moreover have "b = view d (unat lba)" "dev_ok d'" "view d' = view d" using rd_law [OF assms r] b by simp_all
  ultimately show thesis using that [of d'] by simp
qed

lemma wr_true:
  assumes "dev_ok d" "unat lba < 8388608" "length b = 512"
  obtains d' where "wr disk lba b d = (True, d')" "dev_ok d'"
  using wr_works [OF assms] wr_law [OF assms, of "fst (wr disk lba b d)" "snd (wr disk lba b d)"]
    that [of "snd (wr disk lba b d)"] by (cases "wr disk lba b d") simp

lemma read_header_loop_works:
  "dev_ok d \<Longrightarrow> m \<le> n \<Longrightarrow> n \<le> 77 \<Longrightarrow> fst (read_header_loop disk [m..<n] header d) \<noteq> None"
proof (induction "n - m" arbitrary: m header d)
  case (Suc x)
  then have mn: "m < n" "[m..<n] = m # [Suc m..<n]" by (simp_all add: upt_conv_Cons)
  have u: "unat (of_nat m :: u32) = m" using mn Suc.prems by (intro unat_of_nat_small) simp
  have "unat (of_nat m :: u32) < 8388608" using u mn Suc.prems by simp
  from rd_some [OF Suc.prems(1) this] obtain d1 where d1: "rd disk (of_nat m) d = (Some (view d m), d1)" "dev_ok d1"
    using u by metis
  show ?case
    using Suc.hyps(1) [of "Suc m" d1] Suc.hyps(2) Suc.prems d1 mn by simp
qed simp

lemma read_header_silent_works:
  assumes "dev_ok d" "subslice (disk_header (view d)) 0 8 = lit ''RYMFS5'' @ [0, 0]"
  obtains d' where "read_header_silent disk d = (Some (disk_header (view d)), d')" "dev_ok d'" "view d' = view d"
proof -
  obtain r1 d1 where l: "read_header_loop disk [0..<77] (replicate 39424 0) d = (r1, d1)" by fastforce
  obtain h where h: "r1 = Some h" using read_header_loop_works [OF assms(1), of 0 77 "replicate 39424 0"] l by auto
  have "h = disk_header (view d)"
    using read_header_loop_law [OF assms(1) _ _ _ l] h length_disk_header [OF assms(1)]
    by (simp add: disk_header_def copy_at_def)
  then have "read_header_silent disk d = (Some (disk_header (view d)), d1)"
    using l h assms(2) by (simp add: read_header_silent_def del: lit_simps)
  with read_header_silent_law(1,2) [OF assms(1) this] show thesis using that [of d1] by simp
qed

lemma write_header_loop_works:
  "dev_ok d \<Longrightarrow> m \<le> n \<Longrightarrow> n \<le> 77 \<Longrightarrow> length header = 39424 \<Longrightarrow> fst (write_header_loop disk [m..<n] header d)"
proof (induction "n - m" arbitrary: m d)
  case (Suc x)
  then have mn: "m < n" "[m..<n] = m # [Suc m..<n]" by (simp_all add: upt_conv_Cons)
  let ?s = "subslice header (m * 512) (m * 512 + 512)"
  have u: "unat (of_nat m :: u32) < 8388608" using mn Suc.prems by (simp add: unat_of_nat_small)
  have "length ?s = 512" using Suc.prems mn by simp
  from wr_true [OF Suc.prems(1) u this] obtain d1 where d1: "wr disk (of_nat m) ?s d = (True, d1)" "dev_ok d1" by blast
  show ?case
    using Suc.hyps(1) [of "Suc m" d1] Suc.hyps(2) Suc.prems d1 mn by (simp add: Let_def)
qed simp

lemma lba_exists:
  assumes "ext_sorted (entry_extents h i)" "n < 512 * length (sectors_of (entry_extents h i))" "n \<le> PFS_FILE_MAX"
  obtains lba where "pfs_entry_lba_for_sector h i (of_nat (n div 512)) = Some lba" "unat lba < 8388608"
proof -
  have "n div 512 < length (sectors_of (entry_extents h i))" using assms(2) by (simp add: less_mult_imp_div_less mult.commute)
  then obtain lba where "pfs_entry_lba_for_sector h i (of_nat (n div 512)) = Some lba"
    using assms(1) small_sector [OF assms(3)]
    by (auto simp: pfs_entry_lba_for_sector_def entry_extents_map lba_in_extents_nth ext_sorted_def)
  from that [OF this lba_lookup(3) [OF assms(1) this]] show thesis .
qed

lemma write_loop_works:
  assumes "dev_ok d" "ext_sorted (entry_extents h i)" "copied \<le> length data" "offset + length data \<le> PFS_FILE_MAX"
    "offset + length data \<le> 512 * length (sectors_of (entry_extents h i))"
  shows "fst (write_loop disk h i offset data copied d)"
  using assms
proof (induction "length data - copied" arbitrary: copied d rule: less_induct)
  case less
  show ?case
  proof (cases "copied < length data")
    case False
    then show ?thesis by (simp add: write_loop.simps)
  next
    case True
    let ?n = "offset + copied"
    have n: "usize_add offset copied = ?n" "?n \<le> PFS_FILE_MAX" "?n < 512 * length (sectors_of (entry_extents h i))"
      using True less.prems(4,5) by (simp_all add: PFS_FILE_MAX_def PFS_SECTORS_PER_FILE_def)
    define c where "c = min (length data - copied) (512 - ?n mod 512)"
    have c: "0 < c" "copied + c \<le> length data" "?n mod 512 + c \<le> 512" using True by (auto simp: c_def)
    obtain lba where l: "pfs_entry_lba_for_sector h i (of_nat (?n div 512)) = Some lba" "unat lba < 8388608"
      using lba_exists [OF less.prems(2) n(3,2)] by blast
    obtain d1 where d1: "rd disk lba d = (Some (view d (unat lba)), d1)" "dev_ok d1" "view d1 = view d"
      using rd_some [OF less.prems(1) l(2)] by blast
    let ?s = "copy_at (view d (unat lba)) (?n mod 512) (subslice data copied (copied + c))"
    have "length ?s = 512" using c view_len [OF less.prems(1) l(2)] by simp
    from wr_true [OF d1(2) l(2) this] obtain d2 where d2: "wr disk lba ?s d1 = (True, d2)" "dev_ok d2" by blast
    have "write_loop disk h i offset data copied d = write_loop disk h i offset data (copied + c) d2"
      using True n(1) l(1) d1(1) d2(1) by (subst write_loop.simps) (simp add: Let_def c_def)
    with less.hyps [of "copied + c" d2] c d2(2) less.prems True show ?thesis by simp
  qed
qed

lemma zero_loop_works:
  assumes "dev_ok d" "ext_sorted (entry_extents h i)" "written \<le> len" "start + len \<le> PFS_FILE_MAX"
    "start + len \<le> 512 * length (sectors_of (entry_extents h i))"
  shows "fst (zero_loop disk h i start len written d)"
  using assms
proof (induction "len - written" arbitrary: written d rule: less_induct)
  case less
  show ?case
  proof (cases "written < len")
    case False
    then show ?thesis by (simp add: zero_loop.simps)
  next
    case True
    let ?n = "start + written"
    have n: "usize_add start written = ?n" "?n \<le> PFS_FILE_MAX" "?n < 512 * length (sectors_of (entry_extents h i))"
      using True less.prems(4,5) by (simp_all add: PFS_FILE_MAX_def PFS_SECTORS_PER_FILE_def)
    define c where "c = min (len - written) (512 - ?n mod 512)"
    have c: "0 < c" "written + c \<le> len" "?n mod 512 + c \<le> 512" using True by (auto simp: c_def)
    obtain lba where l: "pfs_entry_lba_for_sector h i (of_nat (?n div 512)) = Some lba" "unat lba < 8388608"
      using lba_exists [OF less.prems(2) n(3,2)] by blast
    obtain d1 where d1: "rd disk lba d = (Some (view d (unat lba)), d1)" "dev_ok d1" "view d1 = view d"
      using rd_some [OF less.prems(1) l(2)] by blast
    define s0 where "s0 = (if c = 512 then replicate 512 0
      else copy_at (view d (unat lba)) (?n mod 512) (replicate c 0) :: bytes)"
    define d0 where "d0 = (if c = 512 then d else d1)"
    have "length s0 = 512" "dev_ok d0"
      using c view_len [OF less.prems(1) l(2)] d1(2) less.prems(1) by (simp_all add: s0_def d0_def)
    from wr_true [OF this(2) l(2) this(1)] obtain d2 where d2: "wr disk lba s0 d0 = (True, d2)" "dev_ok d2" by blast
    have "zero_loop disk h i start len written d = zero_loop disk h i start len (written + c) d2"
      using True n(1) l(1) d1(1) d2(1) by (subst zero_loop.simps) (auto simp: Let_def c_def s0_def d0_def)
    with less.hyps [of "written + c" d2] c d2(2) less.prems True show ?thesis by simp
  qed
qed

lemma pfs_ensure_file_capacity_works:
  assumes "dev_ok d" "volume_ok (view d)" "magic_ok (disk_header (view d))" "i < 256" "is_file (disk_header (view d)) i"
    "can_hold (disk_header (view d)) i fsize"
  obtains d' where "pfs_ensure_file_capacity disk now i fsize d = (True, d')" "magic_ok (disk_header (view d'))"
proof -
  let ?h = "disk_header (view d)"
  obtain d1 where r: "read_header_silent disk d = (Some ?h, d1)" "dev_ok d1" "view d1 = view d"
    using read_header_silent_works [OF assms(1)] assms(3) unfolding magic_ok_def by blast
  let ?old = "pfs_entry_total_sectors ?h i" and ?new = "sectors_for_len fsize"
  have e: "pfs_ensure_file_capacity disk now i fsize d = (if ?new \<le> ?old then (True, d1)
      else case pfs_grow_extents ?h (entry_extents ?h i) (?new - ?old) (Some i) of None \<Rightarrow> (False, d1)
        | Some es \<Rightarrow> write_header disk (grown_entry now i es ?h) d1)"
    unfolding grown_entry_def
    using r assms(5) by (simp add: pfs_ensure_file_capacity_def is_file_def Let_def entry_extents_map)
  show thesis
  proof (cases "?new \<le> ?old")
    case True
    with e r assms(3) show thesis using that [of d1] by simp
  next
    case False
    then obtain es where es: "pfs_grow_extents ?h (entry_extents ?h i) (?new - ?old) (Some i) = Some es"
      using assms(6) by (auto simp: can_hold_def)
    have wf: "header_wf ?h" "alloc_wf ?h" using assms(2) by (simp_all add: volume_ok_def)
    have "length (grown_entry now i es ?h) = 39424"
      using grow_header [OF wf assms(4,5) es le_refl, of now] by (simp add: capacity_grown_def header_wf_def header_ok_def)
    moreover from this obtain d' where w: "write_header disk (grown_entry now i es ?h) d1 = (True, d')"
      using write_header_loop_works [OF r(2), of 0 77 "grown_entry now i es ?h"]
      by (cases "write_header disk (grown_entry now i es ?h) d1") (auto simp: write_header_def)
    ultimately have "disk_header (view d') = grown_entry now i es ?h" using write_header_law(3) [OF r(2) _ w] by simp
    then show thesis using that [of d'] e False es w magic_grown_entry [OF wf(1) assms(4,3)] by simp
  qed
qed

lemma pfs_write_at_works:
  assumes "dev_ok d" "volume_ok (view d)" "magic_ok (disk_header (view d))" "i < 256" "is_file (disk_header (view d)) i"
    "offset + length data \<le> PFS_FILE_MAX" "can_hold (disk_header (view d)) i (offset + length data)"
  shows "fst (pfs_write_at disk now i offset data d)"
proof -
  let ?h = "disk_header (view d)" and ?n = "offset + length data"
  have n: "usize_add offset (length data) = ?n" using assms(6) by (simp add: PFS_FILE_MAX_def PFS_SECTORS_PER_FILE_def)
  obtain d1 where r: "read_header_silent disk d = (Some ?h, d1)" "dev_ok d1" "view d1 = view d"
    using read_header_silent_works [OF assms(1)] assms(3) unfolding magic_ok_def by blast
  obtain d2 where c: "pfs_ensure_file_capacity disk now i ?n d1 = (True, d2)" "magic_ok (disk_header (view d2))"
    using pfs_ensure_file_capacity_works [OF r(2), of i ?n now] assms r(3) by auto
  have l: "dev_ok d2" "capacity_grown i ?n ?h (disk_header (view d2))"
    using pfs_ensure_file_capacity_law [OF r(2) _ assms(4,6) c(1)] assms(2) r(3) by auto
  obtain d3 where r3: "read_header_silent disk d2 = (Some (disk_header (view d2)), d3)" "dev_ok d3" "view d3 = view d2"
    using read_header_silent_works [OF l(1)] c(2) unfolding magic_ok_def by blast
  let ?h2 = "disk_header (view d2)" and ?old = "pfs_entry_size ?h i"
  have srt: "ext_sorted (entry_extents ?h2 i)" and cap: "?n \<le> 512 * length (sectors_of (entry_extents ?h2 i))"
    using l(2) assms(4) by (auto simp: capacity_grown_def alloc_wf_def)
  define z where "z = (if offset > ?old then pfs_zero_range disk ?h2 i ?old (offset - ?old) d3 else (True, d3))"
  have z: "fst z" using zero_loop_works [OF r3(2) srt, of 0 "offset - ?old" ?old] cap assms(6)
    by (simp add: z_def pfs_zero_range_def)
  have "dev_ok (snd z)" using pfs_zero_step [OF r3(2) srt z_def] by (simp add: stored_def)
  then have "fst (write_loop disk ?h2 i offset data 0 (snd z))" using srt assms(6) cap by (intro write_loop_works) simp_all
  moreover have "pfs_write_at disk now i offset data d = (case z of (False, d) \<Rightarrow> (False, d)
      | (True, d) \<Rightarrow> write_loop disk ?h2 i offset data 0 d)"
    using r(1) c(1) r3(1) assms(5,6) n by (simp add: pfs_write_at_def is_file_def z_def Let_def)
  ultimately show ?thesis using z by (cases z) simp
qed

lemma read_loop_works:
  assumes "dev_ok d" "ext_sorted (entry_extents h i)" "copied \<le> len" "offset + len \<le> PFS_FILE_MAX"
    "offset + len \<le> 512 * length (sectors_of (entry_extents h i))"
  shows "fst (read_loop disk h i offset len copied dest d)"
  using assms
proof (induction "len - copied" arbitrary: copied dest d rule: less_induct)
  case less
  show ?case
  proof (cases "copied < len")
    case False
    then show ?thesis by (simp add: read_loop.simps)
  next
    case True
    let ?n = "offset + copied"
    have n: "usize_add offset copied = ?n" "?n \<le> PFS_FILE_MAX" "?n < 512 * length (sectors_of (entry_extents h i))"
      using True less.prems(4,5) by (simp_all add: PFS_FILE_MAX_def PFS_SECTORS_PER_FILE_def)
    define c where "c = min (len - copied) (512 - ?n mod 512)"
    have c: "0 < c" "copied + c \<le> len" using True by (auto simp: c_def)
    obtain lba where l: "pfs_entry_lba_for_sector h i (of_nat (?n div 512)) = Some lba" "unat lba < 8388608"
      using lba_exists [OF less.prems(2) n(3,2)] by blast
    obtain d1 where d1: "rd disk lba d = (Some (view d (unat lba)), d1)" "dev_ok d1"
      using rd_some [OF less.prems(1) l(2)] by blast
    have "read_loop disk h i offset len copied dest d =
        read_loop disk h i offset len (copied + c) (dest @ subslice (view d (unat lba)) (?n mod 512) (?n mod 512 + c)) d1"
      using True n(1) l(1) d1(1) by (subst read_loop.simps) (simp add: Let_def c_def)
    with less.hyps [of "copied + c" d1] c d1(2) less.prems True show ?thesis by simp
  qed
qed

lemma pfs_read_at_works:
  assumes "dev_ok d" "volume_ok (view d)" "magic_ok (disk_header (view d))" "i < 256" "is_file (disk_header (view d)) i"
    "offset + len \<le> PFS_FILE_MAX" "offset + len \<le> length (file_bytes (view d) i)"
  shows "fst (pfs_read_at disk i offset len d)"
proof -
  let ?h = "disk_header (view d)"
  obtain d1 where r: "read_header_silent disk d = (Some ?h, d1)" "dev_ok d1" "view d1 = view d"
    using read_header_silent_works [OF assms(1)] assms(3) unfolding magic_ok_def by blast
  have n: "usize_add offset len = offset + len" using assms(6) by (simp add: PFS_FILE_MAX_def PFS_SECTORS_PER_FILE_def)
  note fs = file_sectors_ok [OF assms(2,4,5)]
  have "length (file_bytes (view d) i) = 512 * length (sectors_of (entry_extents ?h i))"
    using fs(2) view_len [OF assms(1)] unfolding file_bytes_def file_sectors_def by (intro length_blocks) auto
  then have "fst (read_loop disk ?h i offset len 0 [] d1)" using r(2) fs(1) assms(6,7) by (intro read_loop_works) simp_all
  then show ?thesis using r(1) n assms(5,6) by (simp add: pfs_read_at_def is_file_def)
qed

end

end
