(* ===== verification/Ata_Disk.thy ===== *)
theory Ata_Disk
  imports Pfs_File
begin

text \<open>
  The ATA PIO driver of \<^verbatim>\<open>kernel/src/main.rs\<close> (\<open>ata_present\<close>,
  \<open>ata_select_drive\<close>, \<open>ata_read_sector\<close>, \<open>ata_write_sector\<close> and the two status
  waits), over the port instructions.  The ports are hardware: a parameter of the driver.  The
  register-level reference device \<open>ata_dev\<close> (command and status registers, a data port,
  any latency, errors at any command) stands for it, and the driver over that device is shown
  to be a \<open>block_device\<close>: a read returns the addressed sector or fails, a write
  changes no other sector, and reports success only when the sector holds the data.
\<close>

section \<open>The driver\<close>

record 'd port_bus =
  p_inb :: "u16 \<Rightarrow> 'd \<Rightarrow> u8 \<times> 'd"
  p_inw :: "u16 \<Rightarrow> 'd \<Rightarrow> u16 \<times> 'd"
  p_outb :: "u16 \<Rightarrow> u8 \<Rightarrow> 'd \<Rightarrow> 'd"
  p_outw :: "u16 \<Rightarrow> u16 \<Rightarrow> 'd \<Rightarrow> 'd"

definition ATA_PRIMARY_IO :: u16 where "ATA_PRIMARY_IO = 0x1F0"
definition ATA_PRIMARY_CTRL :: u16 where "ATA_PRIMARY_CTRL = 0x3F6"
definition ATA_DATA_DRIVE :: u8 where "ATA_DATA_DRIVE = 1"

definition ata_select_drive :: "'d port_bus \<Rightarrow> u8 \<Rightarrow> u32 \<Rightarrow> 'd \<Rightarrow> 'd" where
  "ata_select_drive bus drive lba d =
     (let d = p_outb bus (ATA_PRIMARY_IO + 6)
          (0xE0 OR push_bit 4 (drive AND 1) OR (ucast (drop_bit 24 lba) AND 0x0F)) d
      in ((\<lambda>d. snd (p_inb bus ATA_PRIMARY_CTRL d)) ^^ 4) d)"

fun wait_drq_loop :: "'d port_bus \<Rightarrow> nat \<Rightarrow> 'd \<Rightarrow> bool \<times> 'd" where
  "wait_drq_loop bus 0 d = (False, d)"
| "wait_drq_loop bus (Suc n) d =
     (let (status, d) = p_inb bus (ATA_PRIMARY_IO + 7) d in
      if status AND 0x01 \<noteq> 0 then (False, d)
      else if status AND 0x80 = 0 \<and> status AND 0x08 \<noteq> 0 then (True, d)
      else wait_drq_loop bus n d)"

definition ata_wait_drq :: "'d port_bus \<Rightarrow> 'd \<Rightarrow> bool \<times> 'd" where
  "ata_wait_drq bus d = wait_drq_loop bus 1000000 d"

fun wait_not_busy_loop :: "'d port_bus \<Rightarrow> nat \<Rightarrow> 'd \<Rightarrow> bool \<times> 'd" where
  "wait_not_busy_loop bus 0 d = (False, d)"
| "wait_not_busy_loop bus (Suc n) d =
     (let (status, d) = p_inb bus (ATA_PRIMARY_IO + 7) d in
      if status AND 0x80 = 0 then (status AND 0x01 = 0, d)
      else wait_not_busy_loop bus n d)"

definition ata_wait_not_busy :: "'d port_bus \<Rightarrow> 'd \<Rightarrow> bool \<times> 'd" where
  "ata_wait_not_busy bus d = wait_not_busy_loop bus 1000000 d"

definition ata_present :: "'d port_bus \<Rightarrow> 'd \<Rightarrow> bool \<times> 'd" where
  "ata_present bus d =
     (let d = ata_select_drive bus ATA_DATA_DRIVE 0 d;
          (status, d) = p_inb bus (ATA_PRIMARY_IO + 7) d
      in (status \<noteq> 0x00 \<and> status \<noteq> 0xFF, d))"

text \<open>The register writes shared by the two transfer functions, with the command byte.\<close>

definition ata_command :: "'d port_bus \<Rightarrow> u8 \<Rightarrow> u32 \<Rightarrow> u8 \<Rightarrow> 'd \<Rightarrow> 'd" where
  "ata_command bus drive lba command d =
     (let d = ata_select_drive bus drive lba d;
          d = p_outb bus (ATA_PRIMARY_IO + 2) 1 d;
          d = p_outb bus (ATA_PRIMARY_IO + 3) (ucast lba) d;
          d = p_outb bus (ATA_PRIMARY_IO + 4) (ucast (drop_bit 8 lba)) d;
          d = p_outb bus (ATA_PRIMARY_IO + 5) (ucast (drop_bit 16 lba)) d
      in p_outb bus (ATA_PRIMARY_IO + 7) command d)"

fun read_words :: "'d port_bus \<Rightarrow> nat list \<Rightarrow> bytes \<Rightarrow> 'd \<Rightarrow> bytes \<times> 'd" where
  "read_words bus [] buffer d = (buffer, d)"
| "read_words bus (index # rest) buffer d =
     (let (word, d) = p_inw bus ATA_PRIMARY_IO d;
          buffer = buffer[index * 2 := ucast word];
          buffer = buffer[index * 2 + 1 := ucast (drop_bit 8 word)]
      in read_words bus rest buffer d)"

definition ata_read_sector :: "'d port_bus \<Rightarrow> u8 \<Rightarrow> u32 \<Rightarrow> 'd \<Rightarrow> bytes option \<times> 'd" where
  "ata_read_sector bus drive lba d =
     (let d = ata_command bus drive lba 0x20 d in
      case ata_wait_drq bus d of
        (False, d) \<Rightarrow> (None, d)
      | (True, d) \<Rightarrow>
          (case read_words bus [0..<256] (replicate 512 0) d of (buffer, d) \<Rightarrow> (Some buffer, d)))"

fun write_words :: "'d port_bus \<Rightarrow> nat list \<Rightarrow> bytes \<Rightarrow> 'd \<Rightarrow> 'd" where
  "write_words bus [] buffer d = d"
| "write_words bus (index # rest) buffer d =
     (let word = ucast (buffer ! (index * 2)) OR push_bit 8 (ucast (buffer ! (index * 2 + 1)))
      in write_words bus rest buffer (p_outw bus ATA_PRIMARY_IO word d))"

definition ata_write_sector :: "'d port_bus \<Rightarrow> u8 \<Rightarrow> u32 \<Rightarrow> bytes \<Rightarrow> 'd \<Rightarrow> bool \<times> 'd" where
  "ata_write_sector bus drive lba buffer d =
     (let d = ata_command bus drive lba 0x30 d in
      case ata_wait_drq bus d of
        (False, d) \<Rightarrow> (False, d)
      | (True, d) \<Rightarrow>
          let d = write_words bus [0..<256] buffer d;
              d = p_outb bus (ATA_PRIMARY_IO + 7) 0xE7 d
          in ata_wait_not_busy bus d)"

definition ata_disk :: "'d port_bus \<Rightarrow> 'd disk" where
  "ata_disk bus = \<lparr>rd = ata_read_sector bus ATA_DATA_DRIVE, wr = ata_write_sector bus ATA_DATA_DRIVE\<rparr>"

section \<open>The reference device\<close>

datatype ata_phase = Idle | DevFailed | DataIn "u16 list" | DataOut u32 "u16 list"

record ata_dev =
  r_lba0 :: u8
  r_lba1 :: u8
  r_lba2 :: u8
  r_drive :: u8
  ph :: ata_phase
  busy :: nat
  plan :: "(nat \<times> bool) list"
  store :: "bool \<Rightarrow> u32 \<Rightarrow> bytes"

definition dev_lba :: "ata_dev \<Rightarrow> u32" where
  "dev_lba d = ucast (r_lba0 d) OR push_bit 8 (ucast (r_lba1 d)) OR push_bit 16 (ucast (r_lba2 d))
     OR push_bit 24 (ucast (r_drive d AND 0x0F))"

definition dev_drive :: "ata_dev \<Rightarrow> bool" where
  "dev_drive d \<longleftrightarrow> r_drive d AND 0x10 \<noteq> 0"

definition words_of :: "bytes \<Rightarrow> u16 list" where
  "words_of b = map (\<lambda>i. ucast (b ! (i * 2)) OR push_bit 8 (ucast (b ! (i * 2 + 1)))) [0..<256]"

definition bytes_of :: "u16 list \<Rightarrow> bytes" where
  "bytes_of ws = concat (map (\<lambda>w. [ucast w, ucast (drop_bit 8 w)]) ws)"

text \<open>A command runs for its planned latency and succeeds or fails as planned.\<close>

definition dev_start :: "ata_phase \<Rightarrow> ata_dev \<Rightarrow> ata_dev" where
  "dev_start p d =
     (case plan d of
        [] \<Rightarrow> d\<lparr>ph := p, busy := 0\<rparr>
      | (latency, err) # rest \<Rightarrow> d\<lparr>ph := (if err then DevFailed else p), busy := latency, plan := rest\<rparr>)"

definition dev_outb :: "u16 \<Rightarrow> u8 \<Rightarrow> ata_dev \<Rightarrow> ata_dev" where
  "dev_outb port b d =
     (if port = 0x1F3 then d\<lparr>r_lba0 := b\<rparr>
      else if port = 0x1F4 then d\<lparr>r_lba1 := b\<rparr>
      else if port = 0x1F5 then d\<lparr>r_lba2 := b\<rparr>
      else if port = 0x1F6 then d\<lparr>r_drive := b\<rparr>
      else if port = 0x1F7 then
        (if b = 0x20 then dev_start (DataIn (words_of (store d (dev_drive d) (dev_lba d)))) d
         else if b = 0x30 then dev_start (DataOut (dev_lba d) []) d
         else if b = 0xE7 then dev_start Idle d
         else d)
      else d)"

definition dev_inb :: "u16 \<Rightarrow> ata_dev \<Rightarrow> u8 \<times> ata_dev" where
  "dev_inb port d =
     (if port = 0x1F7 then
        (if busy d > 0 then (0x80, d\<lparr>busy := busy d - 1\<rparr>)
         else case ph d of Idle \<Rightarrow> (0x50, d) | DevFailed \<Rightarrow> (0x51, d) | _ \<Rightarrow> (0x58, d))
      else (0, d))"

definition dev_inw :: "u16 \<Rightarrow> ata_dev \<Rightarrow> u16 \<times> ata_dev" where
  "dev_inw port d =
     (case ph d of DataIn (w # ws) \<Rightarrow> (w, d\<lparr>ph := DataIn ws\<rparr>) | _ \<Rightarrow> (0, d))"

definition dev_outw :: "u16 \<Rightarrow> u16 \<Rightarrow> ata_dev \<Rightarrow> ata_dev" where
  "dev_outw port w d =
     (case ph d of
        DataOut lba ws \<Rightarrow>
          if length ws = 255
          then d\<lparr>ph := Idle, store := (store d)(dev_drive d := (store d (dev_drive d))(lba := bytes_of (ws @ [w])))\<rparr>
          else d\<lparr>ph := DataOut lba (ws @ [w])\<rparr>
      | _ \<Rightarrow> d)"

definition dev_bus :: "ata_dev port_bus" where
  "dev_bus = \<lparr>p_inb = dev_inb, p_inw = dev_inw, p_outb = dev_outb, p_outw = dev_outw\<rparr>"

definition dev_view :: "ata_dev \<Rightarrow> nat \<Rightarrow> bytes" where
  "dev_view d k = (if k < 2 ^ 32 then store d True (of_nat k) else [])"

definition dev_sane :: "ata_dev \<Rightarrow> bool" where
  "dev_sane d \<longleftrightarrow> (\<forall>k. unat k < 8388608 \<longrightarrow> length (store d True k) = 512)"

section \<open>The driver on the reference device\<close>

lemmas io_ports = ATA_PRIMARY_IO_def ATA_PRIMARY_CTRL_def ATA_DATA_DRIVE_def

lemma select_drive_dev:
  "ata_select_drive dev_bus drive lba d =
     d\<lparr>r_drive := 0xE0 OR push_bit 4 (drive AND 1) OR (ucast (drop_bit 24 lba) AND 0x0F)\<rparr>"
proof -
  have "(\<lambda>d. snd (dev_inb 0x3F6 d)) = id" by (simp add: fun_eq_iff dev_inb_def)
  then show ?thesis by (simp add: ata_select_drive_def dev_bus_def io_ports dev_outb_def)
qed

definition addressed :: "u8 \<Rightarrow> u32 \<Rightarrow> ata_dev \<Rightarrow> ata_dev" where
  "addressed drive lba d =
     d\<lparr>r_drive := 0xE0 OR push_bit 4 (drive AND 1) OR (ucast (drop_bit 24 lba) AND 0x0F),
       r_lba0 := ucast lba, r_lba1 := ucast (drop_bit 8 lba), r_lba2 := ucast (drop_bit 16 lba)\<rparr>"

lemma command_dev: "ata_command dev_bus drive lba c d = dev_outb 0x1F7 c (addressed drive lba d)"
  unfolding ata_command_def select_drive_dev by (simp add: dev_bus_def io_ports dev_outb_def addressed_def Let_def)

text \<open>The four address registers hold the whole 28-bit address, and the drive bit is set.\<close>

lemma addressed_lba:
  assumes "unat lba < 2 ^ 28"
  shows "dev_lba (addressed 1 lba d) = lba" "dev_drive (addressed 1 lba d)"
proof -
  have high: "\<not> bit lba n" if "28 \<le> n" for n
  proof -
    have "unat lba < 2 ^ n" using assms that by (meson less_le_trans power_increasing one_le_numeral)
    then have "\<not> bit (unat lba) n" by (simp add: bit_iff_odd)
    then show ?thesis by (auto simp: bit_unsigned_iff dest: bit_imp_le_length)
  qed
  have f: "bit (0x0F :: u8) k \<longleftrightarrow> k < 4" "bit (0xE0 :: u8) k \<longleftrightarrow> 5 \<le> k \<and> k < 8" "bit (0x10 :: u8) k \<longleftrightarrow> k = 4" for k
  proof -
    have e: "(0x0F :: u8) = mask 4" "(0xE0 :: u8) = push_bit 5 (mask 3)" "(0x10 :: u8) = push_bit 4 1"
      by (simp_all add: mask_eq_exp_minus_1 push_bit_eq_mult)
    show "bit (0x0F :: u8) k \<longleftrightarrow> k < 4" "bit (0xE0 :: u8) k \<longleftrightarrow> 5 \<le> k \<and> k < 8" "bit (0x10 :: u8) k \<longleftrightarrow> k = 4"
      unfolding e by (simp_all only: bit_mask_iff bit_push_bit_iff bit_1_iff) auto
  qed
  show "dev_lba (addressed 1 lba d) = lba"
  proof (rule bit_word_eqI)
    fix n assume n: "n < LENGTH(32)"
    have "dev_lba (addressed 1 lba d) = ucast (ucast lba :: u8) OR push_bit 8 (ucast (ucast (drop_bit 8 lba) :: u8))
        OR push_bit 16 (ucast (ucast (drop_bit 16 lba) :: u8))
        OR push_bit 24 (ucast ((0xE0 OR push_bit 4 (1 AND 1) OR (ucast (drop_bit 24 lba) AND 0x0F)) AND 0x0F :: u8))"
      by (simp add: dev_lba_def addressed_def)
    then show "bit (dev_lba (addressed 1 lba d)) n = bit lba n"
      using n high [of n]
      by (simp only: bit_or_iff bit_and_iff bit_push_bit_iff bit_ucast_iff bit_drop_bit_eq bit_1_iff f)
        (cases "n < 8"; cases "n < 16"; cases "n < 24"; cases "n < 28"; auto)
  qed
  have "bit (r_drive (addressed 1 lba d) AND 0x10) 4"
    by (simp add: addressed_def bit_or_iff bit_and_iff f)
  then show "dev_drive (addressed 1 lba d)" by (auto simp: dev_drive_def)
qed

lemma wait_drq_dev:
  "wait_drq_loop dev_bus n d = (ok, d') \<Longrightarrow>
     (\<exists>b. d' = d\<lparr>busy := b\<rparr>) \<and> (ok \<longrightarrow> ph d \<noteq> Idle \<and> ph d \<noteq> DevFailed)"
proof (induction n arbitrary: d)
  case 0
  then show ?case by (auto intro: exI [of _ "busy d"])
next
  case (Suc n)
  show ?case
  proof (cases "busy d > 0")
    case True
    then have "wait_drq_loop dev_bus n (d\<lparr>busy := busy d - 1\<rparr>) = (ok, d')"
      using Suc.prems by (simp add: dev_bus_def io_ports dev_inb_def)
    from Suc.IH [OF this] show ?thesis by auto
  next
    case False
    have same: "\<exists>b. d = d\<lparr>busy := b\<rparr>" by (rule exI [of _ "busy d"]) simp
    show ?thesis
    proof (cases "ph d = Idle")
      case True
      have "wait_drq_loop dev_bus n d = (ok, d')"
        using Suc.prems False True by (simp add: dev_bus_def io_ports dev_inb_def)
      from Suc.IH [OF this] show ?thesis .
    next
      case busy: False
      with Suc.prems False same show ?thesis
        by (cases "ph d") (auto simp: dev_bus_def io_ports dev_inb_def)
    qed
  qed
qed

lemma wait_not_busy_dev: "wait_not_busy_loop dev_bus n d = (ok, d') \<Longrightarrow> \<exists>b. d' = d\<lparr>busy := b\<rparr>"
proof (induction n arbitrary: d)
  case 0
  then show ?case by (auto intro: exI [of _ "busy d"])
next
  case (Suc n)
  have same: "\<exists>b. d = d\<lparr>busy := b\<rparr>" by (rule exI [of _ "busy d"]) simp
  show ?case
  proof (cases "busy d > 0")
    case True
    then have "wait_not_busy_loop dev_bus n (d\<lparr>busy := busy d - 1\<rparr>) = (ok, d')"
      using Suc.prems by (simp add: dev_bus_def io_ports dev_inb_def)
    from Suc.IH [OF this] show ?thesis by auto
  next
    case False
    with Suc.prems same show ?thesis
      by (cases "ph d") (auto simp: dev_bus_def io_ports dev_inb_def)
  qed
qed

lemma pack_word:
  "ucast (ucast a OR push_bit 8 (ucast b) :: u16) = (a :: u8)"
  "ucast (drop_bit 8 (ucast a OR push_bit 8 (ucast b) :: u16)) = (b :: u8)"
  by (rule bit_word_eqI, auto simp: bit_or_iff bit_push_bit_iff bit_ucast_iff bit_drop_bit_eq dest: bit_imp_le_length)+

lemma bytes_of_words_of:
  assumes "length b = 512"
  shows "bytes_of (words_of b) = b"
proof -
  have "bytes_of (map (\<lambda>i. ucast (b ! (i * 2)) OR push_bit 8 (ucast (b ! (i * 2 + 1)))) [0..<n]) = take (2 * n) b"
    if "2 * n \<le> length b" for n
    using that
  proof (induction n)
    case (Suc n)
    then have "take (2 * Suc n) b = take (2 * n) b @ [b ! (n * 2), b ! (n * 2 + 1)]"
      by (simp add: take_Suc_conv_app_nth mult.commute)
    with Suc show ?case by (simp add: bytes_of_def pack_word del: drop_bit_or)
  qed (simp add: bytes_of_def)
  from this [of 256] assms show ?thesis by (simp add: words_of_def)
qed

lemma read_words_dev:
  assumes "m \<le> 256" "length buffer = 512" "ph d = DataIn ws" "length ws = 256 - m"
    "read_words dev_bus [m..<256] buffer d = (out, d')"
  shows "out = take (2 * m) buffer @ bytes_of ws \<and> (\<exists>p. d' = d\<lparr>ph := p\<rparr>)"
  using assms
proof (induction "256 - m" arbitrary: m buffer d ws)
  case 0
  then show ?case by (auto simp: bytes_of_def intro: exI [of _ "ph d"])
next
  case (Suc x)
  then obtain w ws' where ws: "ws = w # ws'" by (cases ws) auto
  have m: "m < 256" "[m..<256] = m # [Suc m..<256]" using Suc.hyps(2) by (simp_all add: upt_conv_Cons)
  let ?b = "buffer[m * 2 := ucast w, m * 2 + 1 := ucast (drop_bit 8 w)]"
  have rest: "read_words dev_bus [Suc m..<256] ?b (d\<lparr>ph := DataIn ws'\<rparr>) = (out, d')"
    using Suc.prems ws m by (simp add: dev_bus_def dev_inw_def)
  have ih: "out = take (2 * Suc m) ?b @ bytes_of ws' \<and> (\<exists>p. d' = d\<lparr>ph := DataIn ws', ph := p\<rparr>)"
    by (rule Suc.hyps(1) [OF _ _ _ _ _ rest]) (use Suc ws m in auto)
  have "take (2 * Suc m) ?b = take (2 * m) buffer @ [ucast w, ucast (drop_bit 8 w)]"
    using m Suc.prems(2) by (simp add: take_Suc_conv_app_nth mult.commute nth_list_update)
  with ih ws show ?case by (auto simp: bytes_of_def)
qed

lemma write_words_dev:
  assumes "m < 256" "ph d = DataOut lba ws" "length ws = m"
  shows "write_words dev_bus [m..<256] buffer d =
    d\<lparr>ph := Idle, store := (store d)(dev_drive d := (store d (dev_drive d))(lba :=
      bytes_of (ws @ map (\<lambda>i. ucast (buffer ! (i * 2)) OR push_bit 8 (ucast (buffer ! (i * 2 + 1)))) [m..<256])))\<rparr>"
  using assms
proof (induction "255 - m" arbitrary: m d ws)
  case 0
  then have "m = 255" by simp
  moreover have "[255..<256::nat] = [255]" by (subst upt_conv_Cons) simp_all
  ultimately have m: "m = 255" "[255..<256::nat] = [255]" .
  let ?w = "ucast (buffer ! (255 * 2)) OR push_bit 8 (ucast (buffer ! (255 * 2 + 1))) :: u16"
  have "write_words dev_bus [m..<256] buffer d = dev_outw ATA_PRIMARY_IO ?w d"
    unfolding m by (simp only: write_words.simps Let_def dev_bus_def port_bus.simps)
  moreover have "length ws = 255" using 0 m by simp
  ultimately show ?case unfolding m using 0(3) by (simp only: dev_outw_def ata_phase.case list.map refl if_True)
next
  case (Suc x)
  let ?w = "ucast (buffer ! (m * 2)) OR push_bit 8 (ucast (buffer ! (m * 2 + 1))) :: u16"
  have m: "Suc m < 256" "[m..<256] = m # [Suc m..<256]" using Suc.hyps(2) by (simp_all add: upt_conv_Cons)
  let ?d = "d\<lparr>ph := DataOut lba (ws @ [?w])\<rparr>"
  have e: "write_words dev_bus [m..<256] buffer d = write_words dev_bus [Suc m..<256] buffer ?d"
    using Suc.prems m by (simp add: dev_bus_def dev_outw_def Let_def)
  have "dev_drive ?d = dev_drive d" by (simp add: dev_drive_def)
  with Suc.hyps(1) [of "Suc m" ?d "ws @ [?w]"] Suc.hyps(2) Suc.prems m show ?case unfolding e by simp
qed

lemma dev_start_cases:
  "\<exists>b pl. dev_start p d = d\<lparr>ph := p, busy := b, plan := pl\<rparr> \<or> dev_start p d = d\<lparr>ph := DevFailed, busy := b, plan := pl\<rparr>"
proof (cases "plan d")
  case Nil
  then have "dev_start p d = d\<lparr>ph := p, busy := 0, plan := []\<rparr>" by (simp add: dev_start_def)
  then show ?thesis by blast
qed (auto simp: dev_start_def split: prod.splits)

lemma addressed_store [simp]: "store (addressed drive lba d) = store d"
  by (simp add: addressed_def)

lemma dev_view_word: "dev_view d (unat k) = store d True k"
  using unat_bound [of k] by (simp add: dev_view_def)

lemma ata_read_dev:
  assumes "unat lba < 2 ^ 28" "length (store d True lba) = 512" "ata_read_sector dev_bus 1 lba d = (r, d')"
  shows "store d' = store d \<and> (\<forall>b. r = Some b \<longrightarrow> b = store d True lba)"
proof -
  let ?d1 = "ata_command dev_bus 1 lba 0x20 d"
  let ?ws = "words_of (store d True lba)"
  have c: "?d1 = dev_start (DataIn ?ws) (addressed 1 lba d)"
    using addressed_lba [OF assms(1), of d] by (simp add: command_dev dev_outb_def)
  obtain ok d2 where w: "ata_wait_drq dev_bus ?d1 = (ok, d2)" by fastforce
  obtain b where b: "d2 = ?d1\<lparr>busy := b\<rparr>" and ok: "ok \<Longrightarrow> ph ?d1 \<noteq> DevFailed"
    using wait_drq_dev w unfolding ata_wait_drq_def by blast
  have st: "store d2 = store d" using dev_start_cases [of "DataIn ?ws" "addressed 1 lba d"] by (auto simp: b c)
  show ?thesis
  proof (cases ok)
    case False
    with assms(3) w st show ?thesis by (auto simp: ata_read_sector_def Let_def)
  next
    case True
    then have ph: "ph d2 = DataIn ?ws"
      using ok dev_start_cases [of "DataIn ?ws" "addressed 1 lba d"] by (auto simp: b c)
    obtain out d3 where o: "read_words dev_bus [0..<256] (replicate 512 0) d2 = (out, d3)" by fastforce
    have "out = take (2 * 0) (replicate 512 0) @ bytes_of ?ws \<and> (\<exists>p. d3 = d2\<lparr>ph := p\<rparr>)"
      by (rule read_words_dev [OF _ _ ph _ o]) (simp_all add: words_of_def)
    then have "out = store d True lba" "store d3 = store d"
      using bytes_of_words_of [OF assms(2)] st by auto
    moreover have "r = Some out" "d' = d3" using assms(3) w True o by (simp_all add: ata_read_sector_def Let_def)
    ultimately show ?thesis by simp
  qed
qed

lemma ata_write_dev:
  assumes "unat lba < 2 ^ 28" "length buffer = 512" "ata_write_sector dev_bus 1 lba buffer d = (ok, d')"
  shows "(\<not> ok \<and> store d' = store d) \<or> store d' = (store d)(True := (store d True)(lba := buffer))"
proof -
  let ?d1 = "ata_command dev_bus 1 lba 0x30 d"
  have c: "?d1 = dev_start (DataOut lba []) (addressed 1 lba d)"
    using addressed_lba [OF assms(1), of d] by (simp add: command_dev dev_outb_def)
  obtain ok1 d2 where w: "ata_wait_drq dev_bus ?d1 = (ok1, d2)" by fastforce
  obtain b where b: "d2 = ?d1\<lparr>busy := b\<rparr>" and ok1: "ok1 \<Longrightarrow> ph ?d1 \<noteq> DevFailed"
    using wait_drq_dev w unfolding ata_wait_drq_def by blast
  have st: "store d2 = store d" "dev_drive d2"
    using dev_start_cases [of "DataOut lba []" "addressed 1 lba d"] addressed_lba(2) [OF assms(1), of d]
    by (auto simp: b c dev_drive_def)
  show ?thesis
  proof (cases ok1)
    case False
    with assms(3) w st show ?thesis by (auto simp: ata_write_sector_def Let_def)
  next
    case True
    then have ph: "ph d2 = DataOut lba []"
      using ok1 dev_start_cases [of "DataOut lba []" "addressed 1 lba d"] by (auto simp: b c)
    let ?d3 = "write_words dev_bus [0..<256] buffer d2"
    have "store ?d3 = (store d)(True := (store d True)(lba := buffer))"
      using write_words_dev [of 0 d2 lba "[]" buffer] ph st bytes_of_words_of [OF assms(2)]
      by (simp add: words_of_def)
    moreover have "(ok, d') = ata_wait_not_busy dev_bus (dev_outb 0x1F7 0xE7 ?d3)"
      using assms(3) w True by (simp add: ata_write_sector_def Let_def dev_bus_def io_ports)
    then obtain b3 where "d' = (dev_start Idle ?d3)\<lparr>busy := b3\<rparr>"
      using wait_not_busy_dev [of 1000000 "dev_outb 0x1F7 0xE7 ?d3" ok d']
      by (auto simp: ata_wait_not_busy_def dev_outb_def)
    then have "store d' = store ?d3" using dev_start_cases [of Idle ?d3] by auto
    ultimately show ?thesis by simp
  qed
qed

interpretation ata: sector_device "ata_disk dev_bus" dev_view dev_sane
proof
  fix d d' :: ata_dev and lba r
  assume d: "dev_sane d" and lba: "unat (lba :: u32) < 8388608" and e: "rd (ata_disk dev_bus) lba d = (r, d')"
  have "store d' = store d \<and> (\<forall>b. r = Some b \<longrightarrow> b = store d True lba)"
    by (rule ata_read_dev) (use d lba e in \<open>auto simp: dev_sane_def ata_disk_def ATA_DATA_DRIVE_def\<close>)
  then show "dev_sane d' \<and> dev_view d' = dev_view d \<and> (\<forall>b. r = Some b \<longrightarrow> b = dev_view d (unat lba))"
    using d by (auto simp: dev_sane_def dev_view_word) (simp add: dev_view_def fun_eq_iff)
next
  fix d d' :: ata_dev and lba b ok
  assume d: "dev_sane d" and lba: "unat (lba :: u32) < 8388608" and b: "length b = 512"
    and e: "wr (ata_disk dev_bus) lba b d = (ok, d')"
  have s: "(\<not> ok \<and> store d' = store d) \<or> store d' = (store d)(True := (store d True)(lba := b))"
    by (rule ata_write_dev) (use lba b e in \<open>auto simp: ata_disk_def ATA_DATA_DRIVE_def\<close>)
  have "dev_view d' k = dev_view d k" if "k \<noteq> unat lba" for k
  proof (cases "k < 2 ^ 32")
    case True
    then have "of_nat k \<noteq> lba" using that unat_of_nat_small [where 'l = 32, of k] by auto
    with s show ?thesis by (auto simp: dev_view_def)
  qed (simp add: dev_view_def)
  with s d b show "dev_sane d' \<and> (\<forall>k. k \<noteq> unat lba \<longrightarrow> dev_view d' k = dev_view d k) \<and> (ok \<longrightarrow> dev_view d' (unat lba) = b)"
    by (auto simp: dev_sane_def dev_view_word)
next
  fix d :: ata_dev and k :: nat
  assume "dev_sane d" "k < 8388608"
  then show "length (dev_view d k) = 512" by (simp add: dev_sane_def dev_view_def unat_of_nat_small)
next
  fix d d' :: ata_dev and lba :: u32 and b ok
  assume d: "dev_sane d" and lba: "unat lba < 8388608" and b: "length b = 512"
    and e: "wr (ata_disk dev_bus) lba b d = (ok, d')"
  have "(\<not> ok \<and> store d' = store d) \<or> store d' = (store d)(True := (store d True)(lba := b))"
    by (rule ata_write_dev) (use lba b e in \<open>auto simp: ata_disk_def ATA_DATA_DRIVE_def\<close>)
  then show "dev_view d' (unat lba) = dev_view d (unat lba) \<or> dev_view d' (unat lba) = b"
    by (auto simp: dev_view_word)
qed

section \<open>Without errors or timeouts the driver always succeeds\<close>

lemma wait_ready:
  assumes "busy d = 0"
  shows "ph d \<noteq> Idle \<Longrightarrow> ph d \<noteq> DevFailed \<Longrightarrow> ata_wait_drq dev_bus d = (True, d)"
    "ph d \<noteq> DevFailed \<Longrightarrow> ata_wait_not_busy dev_bus d = (True, d)"
proof -
  have "ph d \<noteq> Idle \<Longrightarrow> ph d \<noteq> DevFailed \<Longrightarrow> 0 < n \<Longrightarrow> wait_drq_loop dev_bus n d = (True, d)" for n
    using assms by (cases n; cases "ph d") (simp_all add: dev_bus_def io_ports dev_inb_def)
  then show "ph d \<noteq> Idle \<Longrightarrow> ph d \<noteq> DevFailed \<Longrightarrow> ata_wait_drq dev_bus d = (True, d)"
    by (simp add: ata_wait_drq_def)
  have "ph d \<noteq> DevFailed \<Longrightarrow> 0 < n \<Longrightarrow> wait_not_busy_loop dev_bus n d = (True, d)" for n
    using assms by (cases n; cases "ph d") (simp_all add: dev_bus_def io_ports dev_inb_def)
  then show "ph d \<noteq> DevFailed \<Longrightarrow> ata_wait_not_busy dev_bus d = (True, d)"
    by (simp add: ata_wait_not_busy_def)
qed

lemma start_unplanned: "plan d = [] \<Longrightarrow> dev_start p d = d\<lparr>ph := p, busy := 0\<rparr>"
  by (simp add: dev_start_def)

lemma addressed_plan [simp]: "plan (addressed drive lba d) = plan d"
  by (simp add: addressed_def)

lemma ata_read_unplanned:
  assumes "plan d = []"
  shows "fst (ata_read_sector dev_bus 1 lba d) \<noteq> None \<and> plan (snd (ata_read_sector dev_bus 1 lba d)) = []"
proof -
  define ws where "ws = words_of (store d (dev_drive (addressed 1 lba d)) (dev_lba (addressed 1 lba d)))"
  let ?d1 = "(addressed 1 lba d)\<lparr>ph := DataIn ws, busy := 0\<rparr>"
  have c: "ata_command dev_bus 1 lba 0x20 d = ?d1"
    using assms by (simp add: command_dev dev_outb_def start_unplanned ws_def)
  have w: "ata_wait_drq dev_bus ?d1 = (True, ?d1)" by (rule wait_ready) simp_all
  obtain out d3 where o: "read_words dev_bus [0..<256] (replicate 512 0) ?d1 = (out, d3)" by fastforce
  have "\<exists>p. d3 = ?d1\<lparr>ph := p\<rparr>"
    using read_words_dev [of 0 "replicate 512 0" ?d1 ws out d3] o by (simp add: ws_def words_of_def)
  with assms show ?thesis by (auto simp: ata_read_sector_def Let_def c w o)
qed

lemma ata_write_unplanned:
  assumes "plan d = []"
  shows "fst (ata_write_sector dev_bus 1 lba b d) \<and> plan (snd (ata_write_sector dev_bus 1 lba b d)) = []"
proof -
  define l where "l = dev_lba (addressed 1 lba d)"
  let ?d1 = "(addressed 1 lba d)\<lparr>ph := DataOut l [], busy := 0\<rparr>"
  have c: "ata_command dev_bus 1 lba 0x30 d = ?d1"
    using assms by (simp add: command_dev dev_outb_def start_unplanned l_def)
  have w: "ata_wait_drq dev_bus ?d1 = (True, ?d1)" by (rule wait_ready) simp_all
  define d3 where "d3 = write_words dev_bus [0..<256] b ?d1"
  have p3: "plan d3 = []" using write_words_dev [of 0 ?d1 l "[]" b] assms by (simp add: d3_def)
  let ?d4 = "d3\<lparr>ph := Idle, busy := 0\<rparr>"
  have "p_outb dev_bus (ATA_PRIMARY_IO + 7) 0xE7 d3 = ?d4"
    using p3 by (simp add: dev_bus_def io_ports dev_outb_def start_unplanned)
  moreover have "ata_wait_not_busy dev_bus ?d4 = (True, ?d4)" by (rule wait_ready) simp_all
  ultimately show ?thesis using p3 by (simp add: ata_write_sector_def Let_def c w d3_def [symmetric])
qed

definition dev_steady :: "ata_dev \<Rightarrow> bool" where
  "dev_steady d \<longleftrightarrow> dev_sane d \<and> plan d = []"

interpretation ata_steady: reliable_device "ata_disk dev_bus" dev_view dev_steady
proof
  fix d d' :: ata_dev and lba :: u32 and r
  assume a: "dev_steady d" "unat lba < 8388608" "rd (ata_disk dev_bus) lba d = (r, d')"
  then show "dev_steady d' \<and> dev_view d' = dev_view d \<and> (\<forall>b. r = Some b \<longrightarrow> b = dev_view d (unat lba))"
    using ata.rd_law [OF _ a(2,3)] ata_read_unplanned [of d lba]
    by (auto simp: dev_steady_def ata_disk_def ATA_DATA_DRIVE_def)
next
  fix d d' :: ata_dev and lba :: u32 and b ok
  assume a: "dev_steady d" "unat lba < 8388608" "length b = 512" "wr (ata_disk dev_bus) lba b d = (ok, d')"
  then show "dev_steady d' \<and> (\<forall>k. k \<noteq> unat lba \<longrightarrow> dev_view d' k = dev_view d k) \<and> (ok \<longrightarrow> dev_view d' (unat lba) = b)"
    using ata.wr_law [OF _ a(2-4)] ata_write_unplanned [of d lba b]
    by (auto simp: dev_steady_def ata_disk_def ATA_DATA_DRIVE_def)
next
  fix d :: ata_dev and k :: nat
  assume "dev_steady d" "k < 8388608"
  then show "length (dev_view d k) = 512" using ata.view_len by (simp add: dev_steady_def)
next
  fix d :: ata_dev and lba :: u32
  assume "dev_steady d"
  then show "fst (rd (ata_disk dev_bus) lba d) \<noteq> None"
    using ata_read_unplanned [of d lba] by (simp add: dev_steady_def ata_disk_def ATA_DATA_DRIVE_def)
next
  fix d :: ata_dev and lba :: u32 and b
  assume "dev_steady d"
  then show "fst (wr (ata_disk dev_bus) lba b d)"
    using ata_write_unplanned [of d lba b] by (simp add: dev_steady_def ata_disk_def ATA_DATA_DRIVE_def)
qed

section \<open>Properties\<close>

text \<open>A device holding the demonstration volume.\<close>

definition demo_dev :: ata_dev where
  "demo_dev = \<lparr>r_lba0 = 0, r_lba1 = 0, r_lba2 = 0, r_drive = 0, ph = Idle, busy = 0, plan = [],
     store = (\<lambda>drive k. if unat k < 77 then subslice demo_file (unat k * 512) (unat k * 512 + 512) else replicate 512 0)\<rparr>"

lemma demo_dev_facts:
  "dev_steady demo_dev" "dev_sane demo_dev" "disk_header (dev_view demo_dev) = demo_file" "volume_ok (dev_view demo_dev)"
  "magic_ok demo_file"
proof -
  have len: "length demo_file = 39424" using demo_file_facts(1) by (simp add: header_wf_def header_ok_def)
  then show s: "dev_steady demo_dev" "dev_sane demo_dev" by (simp_all add: dev_steady_def dev_sane_def demo_dev_def)
  have "dev_view demo_dev k = subslice demo_file (k * 512) (k * 512 + 512)" if "k < 77" for k
    using that by (simp add: dev_view_def demo_dev_def unat_of_nat_small)
  then show h: "disk_header (dev_view demo_dev) = demo_file"
    unfolding disk_header_def using len by (intro blocks_subslices) simp_all
  show "volume_ok (dev_view demo_dev)" using demo_file_facts by (simp add: volume_ok_def h)
  have "subslice demo_file 0 8 = subslice pfs_format_header 0 8"
    using header_wfD(1) [OF format_header_facts(1)]
    by (simp add: demo_file_def put_entry_def pfs_set_entry_layout header_ok_def pfs_entry_offset_def slice_copy_at_out)
  also have "\<dots> = lit ''RYMFS5'' @ [0, 0]"
  proof -
    have "length (lit ''RYMFS5'' @ [0, 0]) = 8" by simp
    with slice_copy_at_in [of 0 "lit ''RYMFS5'' @ [0, 0]" "replicate 39424 0"]
    have "subslice (copy_at (replicate 39424 0) 0 (lit ''RYMFS5'' @ [0, 0])) 0 8 = lit ''RYMFS5'' @ [0, 0]"
      by (simp del: lit_simps)
    then show ?thesis by (simp add: pfs_format_header_def Let_def subslice_update_out)
  qed
  finally show "magic_ok demo_file" by (simp add: magic_ok_def)
qed

text \<open>
  C8.  A successful write at an offset, on any device that keeps the sector contract: afterwards
  the file holds the written bytes at that offset, a gap between the old end of file and the
  offset reads as zero, every other byte below the old size is as it was, the directory and
  the allocation stay well formed, and no other file's entry or contents changed.
\<close>

theorem pfs_write_at_correct:
  assumes "block_device disk view dev_ok" "dev_ok d" "volume_ok (view d)" "i < 256" "offset + length data < 2 ^ 64"
    "pfs_write_at disk now i offset data d = (True, d')"
  shows "volume_ok (view d') \<and> write_done i offset data (view d) (view d') \<and> others_kept i (view d) (view d')"
  using block_device.pfs_write_at_done [OF assms] .

lemma demo_can_hold: "can_hold demo_file 0 600"
proof -
  have "\<exists>es'. grow_loop demo_file [] (sectors_for_len 600 - pfs_entry_total_sectors demo_file 0) PFS_DATA_START (Some 0) = Some es'"
    using demo_file_facts(3,4,5) length_e_extents [of demo_file 0]
    by (intro grow_loop_contiguous alloc_wf_extents_ok)
      (simp_all add: sectors_for_len_def pfs_entry_total_sectors_def accessors_of_entry entry_extents_def)
  with demo_file_facts(3) show ?thesis by (auto simp: can_hold_def pfs_grow_extents_def)
qed

lemma demo_has_room: "has_room demo_file 0 (2 - length (sectors_of (entry_extents demo_file 0)))"
  using demo_file_facts(3,4) by (auto simp: has_room_def file_end_def PFS_MAX_EXTENTS_def)

lemma demo_is_file: "is_file (disk_header (dev_view demo_dev)) 0"
  using demo_file_facts(2) [of 0] by (simp add: demo_dev_facts(3))

lemma demo_write:
  obtains d' where "pfs_write_at (ata_disk dev_bus) 9 0 100 (replicate 500 65) demo_dev = (True, d')"
  using ata_steady.pfs_write_at_works [OF demo_dev_facts(1,4), of 0 100 "replicate 500 65" 9]
    demo_dev_facts(3,5) demo_is_file demo_can_hold
  by (cases "pfs_write_at (ata_disk dev_bus) 9 0 100 (replicate 500 65) demo_dev")
    (auto simp: PFS_FILE_MAX_def PFS_SECTORS_PER_FILE_def)

theorem pfs_write_at_correct_witness:
  "\<exists>d'. pfs_write_at (ata_disk dev_bus) 9 0 100 (replicate 500 65) demo_dev = (True, d') \<and>
     write_done 0 100 (replicate 500 65) (dev_view demo_dev) (dev_view d')"
proof -
  obtain d' where w: "pfs_write_at (ata_disk dev_bus) 9 0 100 (replicate 500 65) demo_dev = (True, d')"
    using demo_write by blast
  with pfs_write_at_correct [OF ata.block_device_axioms demo_dev_facts(2,4) _ _ w] show ?thesis by auto
qed

text \<open>
  C9.  Whatever a write does (it may fail in the middle, the disk may report errors, and the
  offset may wrap around), it never changes a sector of another file, and it leaves every other
  entry of the directory as it was.  The device may refuse a sector, but does not leave one half
  written: afterwards the sector has its old or its new content.
\<close>

theorem pfs_write_at_isolation:
  assumes "sector_device disk view dev_ok" "dev_ok d" "volume_ok (view d)" "i < 256"
    "pfs_write_at disk now i offset data d = (ok, d')"
  shows "(\<forall>k \<in> in_use (disk_header (view d)) (Some i). view d' k = view d k) \<and>
    (\<forall>j < 256. j \<noteq> i \<longrightarrow> pfs_entry_at (disk_header (view d')) j = pfs_entry_at (disk_header (view d)) j)"
proof -
  have "block_device disk view dev_ok" using assms(1) by (simp add: sector_device_def)
  from block_device.pfs_write_at_isolated [OF this assms(2-5)]
    sector_device.pfs_write_at_entries [OF assms(1-5)]
  show ?thesis by blast
qed

theorem pfs_write_at_isolation_witness:
  "\<exists>d1 ok d'. pfs_write_at (ata_disk dev_bus) 9 0 100 (replicate 500 65) demo_dev = (True, d1) \<and>
     pfs_write_at (ata_disk dev_bus) 9 1 (2 ^ 64 - 1) [65, 65] d1 = (ok, d') \<and>
     (\<forall>k \<in> in_use (disk_header (dev_view d1)) (Some 1). dev_view d' k = dev_view d1 k) \<and>
     pfs_entry_at (disk_header (dev_view d')) 0 = pfs_entry_at (disk_header (dev_view d1)) 0"
proof -
  obtain d1 where w: "pfs_write_at (ata_disk dev_bus) 9 0 100 (replicate 500 65) demo_dev = (True, d1)"
    using demo_write by blast
  have d1: "dev_sane d1" using ata.pfs_write_at_isolated [OF demo_dev_facts(2,4) _ w] by simp
  have v1: "volume_ok (dev_view d1)" using ata.pfs_write_at_done [OF demo_dev_facts(2,4) _ _ w] by simp
  obtain ok d' where w': "pfs_write_at (ata_disk dev_bus) 9 1 (2 ^ 64 - 1) [65, 65] d1 = (ok, d')" by fastforce
  from w w' pfs_write_at_isolation [OF ata.sector_device_axioms d1 v1 _ w'] show ?thesis by auto
qed

text \<open>
  C10.  A read returns what was written: after a successful write, a read of the same range of the
  same file changes nothing on the disk, returns the data when it succeeds, and does succeed on a
  device whose transfers do not fail.
\<close>

theorem pfs_read_after_write:
  assumes "block_device disk view dev_ok" "dev_ok d" "volume_ok (view d)" "i < 256" "offset + length data < 2 ^ 64"
    "pfs_write_at disk now i offset data d = (True, d1)"
    "pfs_read_at disk i offset (length data) d1 = (ok, out, d2)"
  shows "view d2 = view d1 \<and> (ok \<longrightarrow> out = data) \<and> (reliable_device disk view steady \<and> steady d1 \<longrightarrow> ok)"
proof (intro conjI impI)
  note w = block_device.pfs_write_at_done [OF assms(1-6)]
  have d1: "dev_ok d1" using block_device.pfs_write_at_isolated [OF assms(1-4,6)] by blast
  have f: "is_file (disk_header (view d1)) i" "volume_ok (view d1)" "offset + length data \<le> length (file_bytes (view d1) i)"
    and b: "subslice (file_bytes (view d1) i) offset (offset + length data) = data"
    using w by (simp_all add: write_done_def Let_def)
  note r = block_device.pfs_read_at_done [OF assms(1) d1 f(2) assms(4) f(1) assms(5,7)]
  from r show "view d2 = view d1" by simp
  show "out = data" if "ok" using r b that by simp
  show "ok" if st: "reliable_device disk view steady \<and> steady d1"
  proof -
    have "offset + length data \<le> PFS_FILE_MAX"
      using assms(5,6) by (simp add: pfs_write_at_def Let_def split: if_splits)
    then have "fst (pfs_read_at disk i offset (length data) d1)"
      using st f assms(4) block_device.pfs_write_at_magic [OF assms(1-4,6)]
      by (intro reliable_device.pfs_read_at_works [where dev_ok = steady]) (simp_all add: magic_ok_def)
    with assms(7) show ?thesis by simp
  qed
qed

theorem pfs_read_after_write_witness:
  "\<exists>d1 d2. pfs_write_at (ata_disk dev_bus) 9 0 100 (replicate 500 65) demo_dev = (True, d1) \<and>
     pfs_read_at (ata_disk dev_bus) 0 100 500 d1 = (True, replicate 500 65, d2)"
proof -
  obtain d1 where w: "pfs_write_at (ata_disk dev_bus) 9 0 100 (replicate 500 65) demo_dev = (True, d1)"
    using demo_write by blast
  have s: "dev_steady d1" using ata_steady.pfs_write_at_isolated [OF demo_dev_facts(1,4) _ w] by simp
  obtain ok out d2 where r: "pfs_read_at (ata_disk dev_bus) 0 100 (length (replicate 500 (65::u8))) d1 = (ok, out, d2)"
    by (cases "pfs_read_at (ata_disk dev_bus) 0 100 (length (replicate 500 (65::u8))) d1")
  from pfs_read_after_write [OF ata.block_device_axioms demo_dev_facts(2,4) _ _ w r, where steady = dev_steady]
    ata_steady.reliable_device_axioms s w r show ?thesis by auto
qed

text \<open>
  C11.  On a device without errors a write within the file size limit succeeds whenever the first
  gap between allocated sectors above the end of the file holds all the sectors the file lacks,
  and the file has an extent to spare or that gap begins right behind its last sector.
\<close>

theorem pfs_write_at_succeeds:
  assumes "reliable_device disk view dev_ok" "dev_ok d" "volume_ok (view d)" "magic_ok (disk_header (view d))"
    "i < 256" "is_file (disk_header (view d)) i" "offset + length data \<le> PFS_FILE_MAX"
    "has_room (disk_header (view d)) i
       ((offset + length data + 511) div 512 - length (sectors_of (entry_extents (disk_header (view d)) i)))"
  shows "fst (pfs_write_at disk now i offset data d)"
proof (rule reliable_device.pfs_write_at_works [OF assms(1-7)])
  have "alloc_wf (disk_header (view d))" using assms(3) by (simp add: volume_ok_def)
  from has_room_can_hold [OF this assms(5-8)]
  show "can_hold (disk_header (view d)) i (offset + length data)" .
qed

theorem pfs_write_at_succeeds_witness:
  "fst (pfs_write_at (ata_disk dev_bus) 9 0 100 (replicate 500 65) demo_dev)"
  by (rule pfs_write_at_succeeds [OF ata_steady.reliable_device_axioms demo_dev_facts(1,4)])
    (use demo_dev_facts(3,5) demo_is_file demo_has_room in \<open>simp_all add: PFS_FILE_MAX_def PFS_SECTORS_PER_FILE_def\<close>)

end
