(* ===== verification/Line_Input.thy ===== *)
theory Line_Input
  imports Ata_Disk Console
begin

text \<open>
  Input, \<^verbatim>\<open>kernel/src/main.rs\<close>: polling the serial port and the keyboard, the scancode
  table, and the line editor of \<^verbatim>\<open>abi_read_line\<close> and of the shell.  The loop polls until a
  line ends, so it is a partial function: not returning is the value \<^term>\<open>None\<close>.  The bytes
  stored through the caller's pointer are returned; what an erased character leaves behind beyond
  the returned length is not.
\<close>

section \<open>Model\<close>

definition COM1 :: u16 where "COM1 = 0x3F8"
definition KEYBOARD_DATA :: u16 where "KEYBOARD_DATA = 0x60"
definition KEYBOARD_STATUS :: u16 where "KEYBOARD_STATUS = 0x64"

definition serial_received :: "'d port_bus \<Rightarrow> 'd \<Rightarrow> bool \<times> 'd" where
  "serial_received bus d = (case p_inb bus (COM1 + 5) d of (status, d) \<Rightarrow> (status AND 1 \<noteq> 0, d))"

definition keyboard_has_data :: "'d port_bus \<Rightarrow> 'd \<Rightarrow> bool \<times> 'd" where
  "keyboard_has_data bus d = (case p_inb bus KEYBOARD_STATUS d of (status, d) \<Rightarrow> (status AND 1 \<noteq> 0, d))"

text \<open>The arms of the match in \<^verbatim>\<open>scancode_to_ascii\<close>.\<close>

definition scancode_table :: "(u8 \<times> u8) list" where
  "scancode_table =
    [(0x02, 49), (0x03, 50), (0x04, 51), (0x05, 52), (0x06, 53), (0x07, 54), (0x08, 55), (0x09, 56), (0x0A, 57),
     (0x0B, 48), (0x0C, 45), (0x0D, 61), (0x0E, 8), (0x0F, 32), (0x10, 113), (0x11, 119), (0x12, 101), (0x13, 114),
     (0x14, 116), (0x15, 121), (0x16, 117), (0x17, 105), (0x18, 111), (0x19, 112), (0x1A, 91), (0x1B, 93), (0x1C,
     10), (0x1E, 97), (0x1F, 115), (0x20, 100), (0x21, 102), (0x22, 103), (0x23, 104), (0x24, 106), (0x25, 107),
     (0x26, 108), (0x27, 59), (0x28, 39), (0x29, 96), (0x2B, 92), (0x2C, 122), (0x2D, 120), (0x2E, 99), (0x2F,
     118), (0x30, 98), (0x31, 110), (0x32, 109), (0x33, 44), (0x34, 46), (0x35, 47), (0x39, 32)]"

definition scancode_to_ascii :: "u8 \<Rightarrow> u8 option" where
  "scancode_to_ascii scancode =
     (if scancode AND 0x80 \<noteq> 0 then None else map_of scancode_table scancode)"

definition read_input_byte :: "'d port_bus \<Rightarrow> 'd \<Rightarrow> u8 option \<times> 'd" where
  "read_input_byte bus d =
     (case serial_received bus d of
        (True, d) \<Rightarrow> (case p_inb bus COM1 d of (byte, d) \<Rightarrow> (Some byte, d))
      | (False, d) \<Rightarrow>
          (case keyboard_has_data bus d of
             (True, d) \<Rightarrow> (case p_inb bus KEYBOARD_DATA d of (scancode, d) \<Rightarrow> (scancode_to_ascii scancode, d))
           | (False, d) \<Rightarrow> (None, d)))"

text \<open>A key other than the end of the line, on the line typed so far and its echo.\<close>

definition line_key :: "nat \<Rightarrow> u8 \<Rightarrow> bytes \<Rightarrow> console \<Rightarrow> bytes \<times> console" where
  "line_key cap byte input con =
     (if byte = 8 \<or> byte = 127 then
        if length input > 0 then (butlast input, backspace con) else (input, con)
      else if is_ascii_graphic byte \<or> byte = 32 then
        if length input + 1 < cap then (input @ [byte], write_byte byte con) else (input, con)
      else (input, con))"

partial_function (option) read_line_loop ::
  "'d port_bus \<Rightarrow> nat \<Rightarrow> bytes \<Rightarrow> console \<Rightarrow> 'd \<Rightarrow> (bytes \<times> console \<times> 'd) option" where
  "read_line_loop bus cap input con d =
     (case read_input_byte bus d of
        (None, d) \<Rightarrow> read_line_loop bus cap input con d
      | (Some byte, d) \<Rightarrow>
          if byte = 13 \<or> byte = 10 then Some (input, new_line con, d)
          else (case line_key cap byte input con of (input, con) \<Rightarrow> read_line_loop bus cap input con d))"

text \<open>
  \<^verbatim>\<open>abi_read_line\<close>: the line, and whether there is a console.  A null or empty buffer, or no console,
  gives length 0 at once.
\<close>

definition abi_read_line :: "'d port_bus \<Rightarrow> nat option \<Rightarrow> console option \<Rightarrow> 'd \<Rightarrow> (bytes \<times> console option \<times> 'd) option" where
  "abi_read_line bus buf con d =
     (case (buf, con) of
        (Some len, Some con) \<Rightarrow>
          if len = 0 then Some ([], Some con, d)
          else map_option (\<lambda>(line, con, d). (line, Some con, d)) (read_line_loop bus len [] con d)
      | _ \<Rightarrow> Some ([], con, d))"

section \<open>Specification\<close>

definition edit_key :: "nat \<Rightarrow> bytes \<Rightarrow> u8 \<Rightarrow> bytes" where
  "edit_key cap line byte =
     (if byte = 8 \<or> byte = 127 then butlast line
      else if (is_ascii_graphic byte \<or> byte = 32) \<and> length line + 1 < cap then line @ [byte] else line)"

text \<open>The devices answer the polls with these bytes, with any number of idle polls in between.\<close>

inductive delivers :: "'d port_bus \<Rightarrow> 'd \<Rightarrow> bytes \<Rightarrow> 'd \<Rightarrow> bool" where
  quiet: "delivers bus d [] d"
| idle: "read_input_byte bus d = (None, d1) \<Longrightarrow> delivers bus d1 bs d2 \<Longrightarrow> delivers bus d bs d2"
| byte: "read_input_byte bus d = (Some b, d1) \<Longrightarrow> delivers bus d1 bs d2 \<Longrightarrow> delivers bus d (b # bs) d2"

lemma fst_line_key [simp]: "fst (line_key cap b line con) = edit_key cap line b"
  by (simp add: line_key_def edit_key_def)

lemma edit_key_bound: "length line < cap \<Longrightarrow> length (edit_key cap line b) < cap"
  by (auto simp: edit_key_def)

lemma edit_line_bound: "length line < cap \<Longrightarrow> length (foldl (edit_key cap) line bs) < cap"
  by (induction bs arbitrary: line) (simp_all add: edit_key_bound)

lemma edit_key_graphic:
  "list_all (\<lambda>b. is_ascii_graphic b \<or> b = 32) line \<Longrightarrow> list_all (\<lambda>b. is_ascii_graphic b \<or> b = 32) (edit_key cap line b)"
  by (auto simp: edit_key_def list_all_iff dest: in_set_butlastD)

lemma edit_line_graphic:
  "list_all (\<lambda>b. is_ascii_graphic b \<or> b = 32) line \<Longrightarrow>
    list_all (\<lambda>b. is_ascii_graphic b \<or> b = 32) (foldl (edit_key cap) line bs)"
  by (induction bs arbitrary: line) (simp_all add: edit_key_graphic)

lemma read_line_loop_delivers:
  assumes "delivers bus d bytes d'" "bytes = bs @ [nl]" "nl = 13 \<or> nl = 10" "list_all (\<lambda>b. b \<noteq> 13 \<and> b \<noteq> 10) bs"
  shows "\<exists>con' d''. read_line_loop bus cap line con d = Some (foldl (edit_key cap) line bs, con', d'')"
  using assms
proof (induction arbitrary: line con bs rule: delivers.induct)
  case (quiet bus d)
  then show ?case by simp
next
  case (idle bus d d1 bytes d2)
  then show ?case by (subst read_line_loop.simps) simp
next
  case (byte bus d b d1 bytes d2)
  show ?case
  proof (cases bs)
    case Nil
    with byte show ?thesis by (subst read_line_loop.simps) auto
  next
    case (Cons c cs)
    with byte.prems have c: "b = c" "bytes = cs @ [nl]" "b \<noteq> 13" "b \<noteq> 10" "list_all (\<lambda>b. b \<noteq> 13 \<and> b \<noteq> 10) cs" by auto
    obtain con1 where k: "line_key cap b line con = (edit_key cap line b, con1)"
      by (metis fst_line_key prod.collapse)
    from byte.IH [OF c(2) byte.prems(2) c(5), of "edit_key cap line b" con1] byte.hyps(1) c k Cons
    show ?thesis by (subst read_line_loop.simps) simp
  qed
qed

text \<open>
  C22. Reading a line ends as soon as the devices have delivered an end-of-line byte, and returns the
  edited line: printable characters in order, each erase removing the last one, characters beyond
  the buffer dropped.  The line has no control characters and leaves room in the buffer.
\<close>

theorem read_line_returns:
  assumes "delivers bus d (bs @ [nl]) d'" "nl = 13 \<or> nl = 10" "list_all (\<lambda>b. b \<noteq> 13 \<and> b \<noteq> 10) bs" "0 < cap"
  shows "\<exists>con' d''. abi_read_line bus (Some cap) (Some con) d = Some (foldl (edit_key cap) [] bs, Some con', d'') \<and>
    length (foldl (edit_key cap) [] bs) < cap \<and>
    list_all (\<lambda>b. is_ascii_graphic b \<or> b = 32) (foldl (edit_key cap) [] bs)"
proof -
  obtain con' d'' where "read_line_loop bus cap [] con d = Some (foldl (edit_key cap) [] bs, con', d'')"
    using read_line_loop_delivers [OF assms(1) refl assms(2,3)] by blast
  with assms(4) edit_line_bound [of "[]" cap bs] edit_line_graphic [of "[]" cap bs] show ?thesis
    by (simp add: abi_read_line_def)
qed

text \<open>A serial port with the keys \<^verbatim>\<open>ab\<close>, erase, \<^verbatim>\<open>c\<close>, return waiting.\<close>

definition demo_serial :: "bytes port_bus" where
  "demo_serial = \<lparr>p_inb = (\<lambda>port q. if port = COM1 + 5 then (if q = [] then 0 else 1, q)
       else if port = COM1 then (hd q, tl q) else (0, q)),
     p_inw = (\<lambda>port q. (0, q)), p_outb = (\<lambda>port v q. q), p_outw = (\<lambda>port v q. q)\<rparr>"

lemma demo_serial_read: "read_input_byte demo_serial (b # q) = (Some b, q)"
  by (simp add: read_input_byte_def serial_received_def demo_serial_def COM1_def)

theorem read_line_returns_witness:
  "\<exists>con' d. abi_read_line demo_serial (Some 16) (Some (without_framebuffer (\<lambda>_. 0) (\<lambda>_. 0))) [97, 98, 8, 99, 13] =
     Some ([97, 99], Some con', d)"
proof -
  have "delivers demo_serial [97, 98, 8, 99, 13] ([97, 98, 8, 99] @ [13]) []"
    by (simp add: delivers.intros demo_serial_read)
  from read_line_returns [OF this, of 16] show ?thesis
    by (simp add: edit_key_def is_ascii_graphic_def)
qed

end
