(* ===== verification/App_Fds.thy ===== *)
theory App_Fds
  imports App_Env Line_Input
begin

text \<open>
  The descriptor table and the pipes, \<^verbatim>\<open>kernel/src/main.rs\<close>: \<^verbatim>\<open>open\<close>, \<^verbatim>\<open>read\<close>,
  \<^verbatim>\<open>write_fd\<close>, \<^verbatim>\<open>seek\<close>, \<^verbatim>\<open>close\<close>, \<^verbatim>\<open>pipe\<close>, \<^verbatim>\<open>dup2\<close> and the standard
  descriptors of a process.  The operations run on the kernel state and the state of the devices
  behind the I/O ports.  The file part rests on \<^verbatim>\<open>Pfs_File\<close>, the console part on
  \<^verbatim>\<open>Console\<close> and \<^verbatim>\<open>Line_Input\<close>.
\<close>

section \<open>Pipes\<close>

text \<open>Taking bytes out of a pipe and putting bytes in, once the descriptor is checked.\<close>

definition pipe_read :: "nat \<Rightarrow> app_pipe \<Rightarrow> bytes \<times> app_pipe" where
  "pipe_read buffer_len pipe =
     (let available = pp_len pipe - pp_read_offset pipe;
          pipe_copy = min buffer_len available in
      if pipe_copy = 0 then ([], pipe)
      else
        let data = subslice (pp_buffer pipe) (pp_read_offset pipe) (pp_read_offset pipe + pipe_copy);
            pipe = pipe\<lparr>pp_read_offset := pp_read_offset pipe + pipe_copy\<rparr>
        in (data, if pp_read_offset pipe = pp_len pipe then pipe\<lparr>pp_read_offset := 0, pp_len := 0\<rparr> else pipe))"

text \<open>\<^term>\<open>None\<close> when there is no room at all for a non-empty write.\<close>

definition pipe_write :: "bytes \<Rightarrow> app_pipe \<Rightarrow> (nat \<times> app_pipe) option" where
  "pipe_write data pipe =
     (let available = APP_PIPE_BUFFER_SIZE - pp_len pipe;
          write_len = min (length data) available in
      if write_len = 0 \<and> length data \<noteq> 0 then None
      else Some (write_len, pipe\<lparr>pp_buffer := copy_at (pp_buffer pipe) (pp_len pipe) (take write_len data),
                                pp_len := pp_len pipe + write_len\<rparr>))"

section \<open>Descriptors\<close>

definition FD_READ :: u32 where "FD_READ = 1"
definition FD_WRITE :: u32 where "FD_WRITE = 2"
definition FD_CREATE :: u32 where "FD_CREATE = 4"
definition FD_TRUNCATE :: u32 where "FD_TRUNCATE = 8"
definition FD_APPEND :: u32 where "FD_APPEND = 16"
definition FD_CREATE_NEW :: u32 where "FD_CREATE_NEW = 32"

definition app_resolve_fd :: "int \<Rightarrow> kernel \<Rightarrow> int" where
  "app_resolve_fd fd k = (if STDIN_FD \<le> fd \<and> fd \<le> STDERR_FD then p_std_fds (cur_proc k) ! nat fd else fd)"

definition app_fd_index :: "int \<Rightarrow> nat option" where
  "app_fd_index fd =
     (if fd < APP_FD_BASE then None
      else let index = nat (fd - APP_FD_BASE) in if index < APP_FD_COUNT then Some index else None)"

definition app_fd_open :: "int \<Rightarrow> kernel \<Rightarrow> bool" where
  "app_fd_open fd k =
     (if STDIN_FD \<le> fd \<and> fd \<le> STDERR_FD then True
      else case app_fd_index fd of None \<Rightarrow> False | Some index \<Rightarrow> fd_is_open (app_fds k ! index))"

definition set_fd :: "nat \<Rightarrow> app_fd \<Rightarrow> kernel \<Rightarrow> kernel" where
  "set_fd index handle k = k\<lparr>app_fds := (app_fds k)[index := handle]\<rparr>"

definition set_pipe :: "nat \<Rightarrow> app_pipe \<Rightarrow> kernel \<Rightarrow> kernel" where
  "set_pipe index pipe k = k\<lparr>app_pipes := (app_pipes k)[index := pipe]\<rparr>"

definition set_std_fd :: "int \<Rightarrow> int \<Rightarrow> kernel \<Rightarrow> kernel" where
  "set_std_fd which fd k = set_cur ((cur_proc k)\<lparr>p_std_fds := (p_std_fds (cur_proc k))[nat which := fd]\<rparr>) k"

definition free_fd :: "kernel \<Rightarrow> nat option" where
  "free_fd k = find (\<lambda>index. \<not> fd_is_open (app_fds k ! index)) [0..<APP_FD_COUNT]"

text \<open>\<^verbatim>\<open>usize as isize\<close>.\<close>

definition usize_as_isize :: "nat \<Rightarrow> int" where
  "usize_as_isize n = (if n < 2 ^ 63 then int n else int n - 2 ^ 64)"

definition abi_seek :: "int \<Rightarrow> nat \<Rightarrow> kernel \<Rightarrow> int \<times> kernel" where
  "abi_seek fd offset k =
     (if fd < 0 then (- 1, k)
      else case app_fd_index fd of
        None \<Rightarrow> (- 1, k)
      | Some index \<Rightarrow>
          let handle = app_fds k ! index in
          if \<not> fd_is_open handle then (- 1, k)
          else if fd_kind handle = KindBootFs \<and> offset > fd_len handle then (- 1, k)
          else (usize_as_isize offset, set_fd index (handle\<lparr>fd_offset := offset\<rparr>) k))"

text \<open>Closing one end of a pipe; the pipe is freed with its last end.\<close>

definition close_read_end :: "app_pipe \<Rightarrow> app_pipe" where
  "close_read_end pipe = (let pipe = pipe\<lparr>pp_read_open := False\<rparr> in if \<not> pp_write_open pipe then app_pipe_empty else pipe)"

definition close_write_end :: "app_pipe \<Rightarrow> app_pipe" where
  "close_write_end pipe = (let pipe = pipe\<lparr>pp_write_open := False\<rparr> in if \<not> pp_read_open pipe then app_pipe_empty else pipe)"

definition abi_close :: "int \<Rightarrow> kernel \<Rightarrow> int \<times> kernel" where
  "abi_close fd k =
     (if fd < 0 then (- 1, k)
      else if fd = STDIN_FD \<or> fd = STDOUT_FD \<or> fd = STDERR_FD then (0, set_std_fd fd fd k)
      else case app_fd_index fd of
        None \<Rightarrow> (- 1, k)
      | Some index \<Rightarrow>
          let handle = app_fds k ! index in
          if \<not> fd_is_open handle then (- 1, k)
          else
            let k = (case fd_kind handle of
                KindPipeRead \<Rightarrow> set_pipe (fd_pfs_index handle) (close_read_end (app_pipes k ! fd_pfs_index handle)) k
              | KindPipeWrite \<Rightarrow> set_pipe (fd_pfs_index handle) (close_write_end (app_pipes k ! fd_pfs_index handle)) k
              | _ \<Rightarrow> k)
            in (0, set_fd index app_fd_empty k))"

text \<open>The scan for two closed slots of \<^verbatim>\<open>abi_pipe\<close>.\<close>

fun two_free_fds :: "kernel \<Rightarrow> nat list \<Rightarrow> nat \<Rightarrow> nat \<times> nat" where
  "two_free_fds k [] read_slot = (read_slot, APP_FD_COUNT)"
| "two_free_fds k (index # rest) read_slot =
     (if \<not> fd_is_open (app_fds k ! index) then
        if read_slot = APP_FD_COUNT then two_free_fds k rest index else (read_slot, index)
      else two_free_fds k rest read_slot)"

definition pipe_fd :: "app_fd_kind \<Rightarrow> u32 \<Rightarrow> nat \<Rightarrow> app_fd" where
  "pipe_fd kind flags pipe_index =
     \<lparr>fd_is_open = True, fd_kind = kind, fd_flags = flags, fd_data = [], fd_len = 0, fd_offset = 0, fd_pfs_index = pipe_index\<rparr>"

text \<open>The two descriptors stored through the pointers are returned; \<open>ptrs\<close> tells that both are not null.\<close>

definition abi_pipe :: "bool \<Rightarrow> kernel \<Rightarrow> int \<times> (int \<times> int) option \<times> kernel" where
  "abi_pipe ptrs k =
     (let fail = (\<lambda>e. case set_app_error e k of (r, k) \<Rightarrow> (r, None, k)) in
      if \<not> ptrs then fail ERR_INVAL
      else case find (\<lambda>index. \<not> pp_used (app_pipes k ! index)) [0..<APP_PIPE_COUNT] of
        None \<Rightarrow> fail ERR_NOSPC
      | Some pipe_index \<Rightarrow>
          (case two_free_fds k [0..<APP_FD_COUNT] APP_FD_COUNT of
             (read_slot, write_slot) \<Rightarrow>
               if write_slot = APP_FD_COUNT then fail ERR_NOSPC
               else
                 let k = set_pipe pipe_index \<lparr>pp_used = True, pp_read_open = True, pp_write_open = True,
                        pp_buffer = replicate APP_PIPE_BUFFER_SIZE 0, pp_read_offset = 0, pp_len = 0\<rparr> k;
                     k = set_fd read_slot (pipe_fd KindPipeRead FD_READ pipe_index) k;
                     k = set_fd write_slot (pipe_fd KindPipeWrite FD_WRITE pipe_index) k
                 in (0, Some (int read_slot + APP_FD_BASE, int write_slot + APP_FD_BASE), clear_app_error k)))"

definition abi_dup2 :: "int \<Rightarrow> int \<Rightarrow> kernel \<Rightarrow> int \<times> kernel" where
  "abi_dup2 old_fd new_fd k =
     (if \<not> (STDIN_FD \<le> new_fd \<and> new_fd \<le> STDERR_FD) then set_app_error ERR_INVAL k
      else if old_fd = new_fd then (new_fd, clear_app_error (set_std_fd new_fd new_fd k))
      else if \<not> app_fd_open old_fd k then set_app_error ERR_INVAL k
      else (new_fd, clear_app_error (set_std_fd new_fd old_fd k)))"

definition abi_std_fd :: "int \<Rightarrow> kernel \<Rightarrow> int" where
  "abi_std_fd which k =
     (if \<not> (STDIN_FD \<le> which \<and> which \<le> STDERR_FD) then - 1 else p_std_fds (cur_proc k) ! nat which)"

definition app_close_all_fds :: "kernel \<Rightarrow> kernel" where
  "app_close_all_fds k = k\<lparr>app_fds := replicate (length (app_fds k)) app_fd_empty,
     app_pipes := replicate (length (app_pipes k)) app_pipe_empty\<rparr>"

definition abi_write :: "bytes option \<Rightarrow> kernel \<Rightarrow> kernel" where
  "abi_write ptr k =
     (case ptr of None \<Rightarrow> k
      | Some data \<Rightarrow> if data = [] then k else k\<lparr>app_console := map_option (write_bytes data) (app_console k)\<rparr>)"

section \<open>Reading and writing\<close>

text \<open>
  \<^verbatim>\<open>abi_read\<close>: the result, the bytes stored in the buffer, the kernel and the devices; \<^term>\<open>None\<close>
  when it waits for console input that never ends a line.
\<close>

definition read_handle :: "'d port_bus \<Rightarrow> nat \<Rightarrow> nat \<Rightarrow> kernel \<Rightarrow> 'd \<Rightarrow> int \<times> bytes \<times> kernel \<times> 'd" where
  "read_handle bus index buffer_len k d =
     (let handle = app_fds k ! index in
      if \<not> fd_is_open handle then (- 1, [], k, d)
      else if fd_flags handle AND FD_READ = 0 then (- 1, [], k, d)
      else if fd_kind handle = KindPipeRead then
        let pipe = app_pipes k ! fd_pfs_index handle in
        if \<not> pp_used pipe \<or> \<not> pp_read_open pipe then (- 1, [], k, d)
        else case pipe_read buffer_len pipe of
               (data, pipe) \<Rightarrow> (int (length data), data, set_pipe (fd_pfs_index handle) pipe k, d)
      else
        let remaining = fd_len handle - fd_offset handle; copy_len = min buffer_len remaining in
        if copy_len = 0 then (0, [], k, d)
        else
          let advanced = set_fd index (handle\<lparr>fd_offset := fd_offset handle + copy_len\<rparr>) k in
          case fd_kind handle of
            KindBootFs \<Rightarrow>
              (int copy_len, subslice (fd_data handle) (fd_offset handle) (fd_offset handle + copy_len), advanced, d)
          | KindPfs \<Rightarrow>
              (case pfs_read_at (ata_disk bus) (fd_pfs_index handle) (fd_offset handle) copy_len d of
                 (False, data, d) \<Rightarrow> (- 1, data, k, d)
               | (True, data, d) \<Rightarrow> (int copy_len, data, advanced, d))
          | _ \<Rightarrow> (- 1, [], k, d))"

definition abi_read :: "'d port_bus \<Rightarrow> int \<Rightarrow> nat option \<Rightarrow> kernel \<Rightarrow> 'd \<Rightarrow> (int \<times> bytes \<times> kernel \<times> 'd) option" where
  "abi_read bus fd buf k d =
     (let fd = app_resolve_fd fd k in
      case buf of
        None \<Rightarrow> Some (- 1, [], k, d)
      | Some buffer_len \<Rightarrow>
          if fd < 0 then Some (- 1, [], k, d)
          else if fd = STDIN_FD then
            map_option (\<lambda>(line, con, d). (int (length line), line, k\<lparr>app_console := con\<rparr>, d))
              (abi_read_line bus (Some buffer_len) (app_console k) d)
          else case app_fd_index fd of
            None \<Rightarrow> Some (- 1, [], k, d)
          | Some index \<Rightarrow> Some (read_handle bus index buffer_len k d))"

definition write_handle :: "'d port_bus \<Rightarrow> u64 \<Rightarrow> nat \<Rightarrow> bytes \<Rightarrow> kernel \<Rightarrow> 'd \<Rightarrow> int \<times> kernel \<times> 'd" where
  "write_handle bus now index data k d =
     (let handle = app_fds k ! index; buffer_len = length data in
      if \<not> fd_is_open handle \<or> fd_flags handle AND FD_WRITE = 0 then (- 1, k, d)
      else if fd_kind handle = KindPipeWrite then
        let pipe = app_pipes k ! fd_pfs_index handle in
        if \<not> pp_used pipe \<or> \<not> pp_write_open pipe \<or> \<not> pp_read_open pipe then (- 1, k, d)
        else case pipe_write data pipe of
               None \<Rightarrow> (- 1, k, d)
             | Some (write_len, pipe) \<Rightarrow> (int write_len, set_pipe (fd_pfs_index handle) pipe k, d)
      else if fd_kind handle \<noteq> KindPfs then (- 1, k, d)
      else
        let handle = (if fd_flags handle AND FD_APPEND \<noteq> 0 then handle\<lparr>fd_offset := fd_len handle\<rparr> else handle);
            k = set_fd index handle k in
        if usize_add (fd_offset handle) buffer_len > PFS_FILE_MAX then (- 1, k, d)
        else case pfs_write_at (ata_disk bus) now (fd_pfs_index handle) (fd_offset handle) data d of
          (False, d) \<Rightarrow> (- 1, k, d)
        | (True, d) \<Rightarrow>
            let handle = handle\<lparr>fd_offset := usize_add (fd_offset handle) buffer_len\<rparr> in
            if fd_offset handle > fd_len handle then
              let handle = handle\<lparr>fd_len := fd_offset handle\<rparr>; k = set_fd index handle k in
              case pfs_update_size (ata_disk bus) now (fd_pfs_index handle) (fd_len handle) d of
                (ok, d) \<Rightarrow> (if ok then usize_as_isize buffer_len else - 1, k, d)
            else (usize_as_isize buffer_len, set_fd index handle k, d))"

definition abi_write_fd :: "'d port_bus \<Rightarrow> u64 \<Rightarrow> int \<Rightarrow> bytes option \<Rightarrow> kernel \<Rightarrow> 'd \<Rightarrow> int \<times> kernel \<times> 'd" where
  "abi_write_fd bus now fd buf k d =
     (let fd = app_resolve_fd fd k in
      case buf of
        None \<Rightarrow> (- 1, k, d)
      | Some data \<Rightarrow>
          if fd < 0 then (- 1, k, d)
          else if fd = STDOUT_FD \<or> fd = STDERR_FD then (usize_as_isize (length data), abi_write (Some data) k, d)
          else case app_fd_index fd of
            None \<Rightarrow> (- 1, k, d)
          | Some index \<Rightarrow> write_handle bus now index data k d)"

section \<open>A pipe is a byte stream\<close>

text \<open>
  The contract of a bounded byte queue: taking returns a prefix of the contents, putting appends a
  prefix of the data.  Whatever the interleaving, the bytes taken so far followed by the bytes still
  queued are the bytes put so far.
\<close>

locale byte_stream =
  fixes queue_ok :: "'q \<Rightarrow> bool" and contents :: "'q \<Rightarrow> bytes"
    and put :: "bytes \<Rightarrow> 'q \<Rightarrow> (nat \<times> 'q) option" and get :: "nat \<Rightarrow> 'q \<Rightarrow> bytes \<times> 'q"
  assumes get_law: "queue_ok q \<Longrightarrow> get n q = (bs, q') \<Longrightarrow>
      queue_ok q' \<and> bs = take n (contents q) \<and> contents q' = drop n (contents q)"
    and put_law: "queue_ok q \<Longrightarrow> put bs q = Some (m, q') \<Longrightarrow>
      queue_ok q' \<and> m \<le> length bs \<and> contents q' = contents q @ take m bs"
begin

fun run :: "(bytes + nat) list \<Rightarrow> 'q \<Rightarrow> bytes \<times> bytes \<times> 'q" where
  "run [] q = ([], [], q)"
| "run (Inl bs # ops) q =
     (case put bs q of
        None \<Rightarrow> run ops q
      | Some (m, q) \<Rightarrow> (case run ops q of (accepted, taken, q) \<Rightarrow> (take m bs @ accepted, taken, q)))"
| "run (Inr n # ops) q =
     (case get n q of (bs, q) \<Rightarrow> (case run ops q of (accepted, taken, q) \<Rightarrow> (accepted, bs @ taken, q)))"

lemma stream:
  assumes "queue_ok q" "run ops q = (accepted, taken, q')"
  shows "queue_ok q' \<and> contents q @ accepted = taken @ contents q'"
  using assms
proof (induction ops arbitrary: q accepted taken)
  case (Cons x ops)
  show ?case
  proof (cases x)
    case (Inl bs)
    show ?thesis
    proof (cases "put bs q")
      case None
      with Cons Inl show ?thesis by simp
    next
      case (Some mq)
      obtain m q1 where mq: "mq = (m, q1)" by force
      obtain a1 t1 where r: "run ops q1 = (a1, t1, q')" and e: "accepted = take m bs @ a1" "taken = t1"
        using Cons.prems(2) Inl Some mq by (auto split: prod.splits)
      from put_law [OF Cons.prems(1)] Some mq Cons.IH [OF _ r] e show ?thesis by auto
    qed
  next
    case (Inr n)
    obtain bs q1 where g: "get n q = (bs, q1)" by force
    obtain a1 t1 where r: "run ops q1 = (a1, t1, q')" and e: "accepted = a1" "taken = bs @ t1"
      using Cons.prems(2) Inr g by (auto split: prod.splits)
    note l = get_law [OF Cons.prems(1) g]
    then have "contents q = bs @ contents q1" by simp
    with l Cons.IH [OF _ r] e show ?thesis by simp
  qed
qed simp

end

definition pipe_ok :: "app_pipe \<Rightarrow> bool" where
  "pipe_ok p \<longleftrightarrow> length (pp_buffer p) = 8192 \<and> pp_len p \<le> 8192 \<and> (pp_read_offset p < pp_len p \<or> pp_read_offset p = 0 \<and> pp_len p = 0) \<and>
     (pp_used p \<longleftrightarrow> pp_read_open p \<or> pp_write_open p)"

definition pipe_contents :: "app_pipe \<Rightarrow> bytes" where
  "pipe_contents p = subslice (pp_buffer p) (pp_read_offset p) (pp_len p)"

lemma length_pipe_contents: "pipe_ok p \<Longrightarrow> length (pipe_contents p) = pp_len p - pp_read_offset p"
  by (simp add: pipe_ok_def pipe_contents_def)

lemma pipe_read_law:
  assumes ok: "pipe_ok p" and r: "pipe_read n p = (bs, p')"
  shows "pipe_ok p' \<and> bs = take n (pipe_contents p) \<and> pipe_contents p' = drop n (pipe_contents p)"
proof (cases "min n (pp_len p - pp_read_offset p) = 0")
  case True
  with r have e: "bs = []" "p' = p" by (auto simp: pipe_read_def Let_def)
  have "n = 0 \<or> length (pipe_contents p) = 0" using True length_pipe_contents [OF ok] by (auto simp: min_def split: if_splits)
  then show ?thesis using ok by (auto simp: e)
next
  case False
  define c where "c = min n (pp_len p - pp_read_offset p)"
  have c: "0 < c" "pp_read_offset p + c \<le> pp_len p" "pp_len p \<le> length (pp_buffer p)" using False ok by (auto simp: c_def pipe_ok_def)
  have bs: "bs = subslice (pp_buffer p) (pp_read_offset p) (pp_read_offset p + c)"
    and p': "p' = (if pp_read_offset p + c = pp_len p then p\<lparr>pp_read_offset := 0, pp_len := 0\<rparr> else p\<lparr>pp_read_offset := pp_read_offset p + c\<rparr>)"
    using r False by (auto simp: pipe_read_def Let_def c_def split: if_splits)
  have t: "take c (pipe_contents p) = take n (pipe_contents p)" "drop c (pipe_contents p) = drop n (pipe_contents p)"
    using c length_pipe_contents [OF ok] by (auto simp: c_def min_def)
  have "bs = take c (pipe_contents p)" using c by (simp add: bs pipe_contents_def subslice_def min_def)
  moreover have "pipe_contents p' = drop c (pipe_contents p)"
    using c by (auto simp: p' pipe_contents_def subslice_def drop_take add.commute)
  moreover have "pipe_ok p'" using ok c by (auto simp: p' pipe_ok_def)
  ultimately show ?thesis using t by simp
qed

lemma pipe_write_law:
  assumes ok: "pipe_ok p" and w: "pipe_write bs p = Some (m, p')"
  shows "pipe_ok p' \<and> m \<le> length bs \<and> pipe_contents p' = pipe_contents p @ take m bs"
proof -
  have m: "m = min (length bs) (8192 - pp_len p)"
    and p': "p' = p\<lparr>pp_buffer := copy_at (pp_buffer p) (pp_len p) (take m bs), pp_len := pp_len p + m\<rparr>"
    using w by (auto simp: pipe_write_def Let_def split: if_splits)
  have l: "length (take m bs) = m" "pp_len p + m \<le> 8192" "length (pp_buffer p) = 8192" "pp_read_offset p \<le> pp_len p"
    using ok by (auto simp: m pipe_ok_def)
  have "pipe_contents p' = subslice (copy_at (pp_buffer p) (pp_len p) (take m bs)) (pp_read_offset p) (pp_len p) @
      subslice (copy_at (pp_buffer p) (pp_len p) (take m bs)) (pp_len p) (pp_len p + m)"
    using l by (simp add: p' pipe_contents_def slice_append_split [of "pp_read_offset p" "pp_len p" "pp_len p + m"])
  also have "\<dots> = pipe_contents p @ take m bs"
    using l slice_copy_at_in [of "pp_len p" "take m bs" "pp_buffer p"] slice_copy_at_out [of "pp_len p" "take m bs" "pp_buffer p"]
    by (simp add: pipe_contents_def)
  finally show ?thesis using ok l by (auto simp: p' pipe_ok_def m)
qed

interpretation pipe: byte_stream pipe_ok pipe_contents pipe_write pipe_read
  by unfold_locales (use pipe_read_law pipe_write_law in blast)+

section \<open>The table invariant\<close>

fun handle_ok :: "app_pipe list \<Rightarrow> app_fd_kind \<Rightarrow> app_fd \<Rightarrow> bool" where
  "handle_ok pipes KindEmpty h = False"
| "handle_ok pipes KindBootFs h = (fd_len h = length (fd_data h) \<and> fd_offset h \<le> fd_len h \<and> fd_flags h = 1)"
| "handle_ok pipes KindPfs h = (fd_pfs_index h < 256)"
| "handle_ok pipes KindPipeRead h = (fd_pfs_index h < 12 \<and> pp_read_open (pipes ! fd_pfs_index h) \<and> fd_flags h = 1)"
| "handle_ok pipes KindPipeWrite h = (fd_pfs_index h < 12 \<and> pp_write_open (pipes ! fd_pfs_index h) \<and> fd_flags h = 2)"

definition end_of :: "app_fd_kind \<Rightarrow> nat \<Rightarrow> app_fd \<Rightarrow> bool" where
  "end_of kind p h \<longleftrightarrow> fd_is_open h \<and> fd_kind h = kind \<and> fd_pfs_index h = p"

text \<open>Every open end of a pipe has exactly one descriptor, and a descriptor's pipe end is open.\<close>

definition fds_ok :: "app_fd list \<Rightarrow> app_pipe list \<Rightarrow> bool" where
  "fds_ok fds pipes \<longleftrightarrow> length fds = 32 \<and> length pipes = 12 \<and>
     (\<forall>i<32. fd_is_open (fds ! i) \<longrightarrow> handle_ok pipes (fd_kind (fds ! i)) (fds ! i)) \<and>
     (\<forall>p<12. pipe_ok (pipes ! p) \<and>
        (pp_read_open (pipes ! p) \<longrightarrow> (\<exists>i<32. end_of KindPipeRead p (fds ! i))) \<and>
        (pp_write_open (pipes ! p) \<longrightarrow> (\<exists>i<32. end_of KindPipeWrite p (fds ! i)))) \<and>
     (\<forall>i<32. \<forall>j<32. \<forall>p. \<forall>kind \<in> {KindPipeRead, KindPipeWrite}.
        end_of kind p (fds ! i) \<longrightarrow> end_of kind p (fds ! j) \<longrightarrow> i = j)"

lemma fds_okI:
  assumes "length fds = 32" "length pipes = 12"
    "\<And>i. i < 32 \<Longrightarrow> fd_is_open (fds ! i) \<Longrightarrow> handle_ok pipes (fd_kind (fds ! i)) (fds ! i)"
    "\<And>p. p < 12 \<Longrightarrow> pipe_ok (pipes ! p)"
    "\<And>p. p < 12 \<Longrightarrow> pp_read_open (pipes ! p) \<Longrightarrow> \<exists>i<32. end_of KindPipeRead p (fds ! i)"
    "\<And>p. p < 12 \<Longrightarrow> pp_write_open (pipes ! p) \<Longrightarrow> \<exists>i<32. end_of KindPipeWrite p (fds ! i)"
    "\<And>i j p kind. i < 32 \<Longrightarrow> j < 32 \<Longrightarrow> kind \<in> {KindPipeRead, KindPipeWrite} \<Longrightarrow>
       end_of kind p (fds ! i) \<Longrightarrow> end_of kind p (fds ! j) \<Longrightarrow> i = j"
  shows "fds_ok fds pipes"
  using assms unfolding fds_ok_def by blast

lemma fds_okD:
  assumes "fds_ok fds pipes"
  shows "length fds = 32" "length pipes = 12"
    "\<And>i. i < 32 \<Longrightarrow> fd_is_open (fds ! i) \<Longrightarrow> handle_ok pipes (fd_kind (fds ! i)) (fds ! i)"
    "\<And>p. p < 12 \<Longrightarrow> pipe_ok (pipes ! p)"
    "\<And>p. p < 12 \<Longrightarrow> pp_read_open (pipes ! p) \<Longrightarrow> \<exists>i<32. end_of KindPipeRead p (fds ! i)"
    "\<And>p. p < 12 \<Longrightarrow> pp_write_open (pipes ! p) \<Longrightarrow> \<exists>i<32. end_of KindPipeWrite p (fds ! i)"
    "\<And>i j p kind. i < 32 \<Longrightarrow> j < 32 \<Longrightarrow> kind \<in> {KindPipeRead, KindPipeWrite} \<Longrightarrow>
       end_of kind p (fds ! i) \<Longrightarrow> end_of kind p (fds ! j) \<Longrightarrow> i = j"
  using assms unfolding fds_ok_def by blast+

text \<open>A descriptor keeps its role: kind, pipe or file, and open flag.\<close>

lemma fds_ok_same_end:
  assumes ok: "fds_ok fds pipes" and i: "i < 32" and h: "fd_is_open h \<Longrightarrow> handle_ok pipes (fd_kind h) h"
    and same: "\<And>kind p. kind \<in> {KindPipeRead, KindPipeWrite} \<Longrightarrow> end_of kind p h = end_of kind p (fds ! i)"
  shows "fds_ok (fds[i := h]) pipes"
proof -
  note d = fds_okD [OF ok]
  have e: "end_of kind p (fds[i := h] ! j) = end_of kind p (fds ! j)" if "kind \<in> {KindPipeRead, KindPipeWrite}" "j < 32" for kind p j
    using same [OF that(1)] d(1) i that by (simp add: nth_list_update)
  show ?thesis
  proof (rule fds_okI)
    show "\<exists>j<32. end_of KindPipeRead p (fds[i := h] ! j)" if "p < 12" "pp_read_open (pipes ! p)" for p
      using d(5) [OF that] e by blast
    show "\<exists>j<32. end_of KindPipeWrite p (fds[i := h] ! j)" if "p < 12" "pp_write_open (pipes ! p)" for p
      using d(6) [OF that] e by blast
    show "a = b" if "a < 32" "b < 32" "kind \<in> {KindPipeRead, KindPipeWrite}" "end_of kind p (fds[i := h] ! a)" "end_of kind p (fds[i := h] ! b)"
      for a b p kind
      using d(7) [OF that(1-3)] e that by blast
  qed (use d h i in \<open>auto simp: nth_list_update\<close>)
qed

text \<open>A pipe keeps its ends.\<close>

lemma fds_ok_same_pipe:
  assumes ok: "fds_ok fds pipes" and p: "p < 12" and q: "pipe_ok q"
    "pp_read_open q = pp_read_open (pipes ! p)" "pp_write_open q = pp_write_open (pipes ! p)"
  shows "fds_ok fds (pipes[p := q])"
proof -
  note d = fds_okD [OF ok]
  have r: "pp_read_open (pipes[p := q] ! j) = pp_read_open (pipes ! j)" "pp_write_open (pipes[p := q] ! j) = pp_write_open (pipes ! j)" for j
    using q d(2) p by (simp_all add: nth_list_update)
  have h: "handle_ok (pipes[p := q]) kind h = handle_ok pipes kind h" for kind h
    by (cases kind) (simp_all add: r)
  show ?thesis
  proof (rule fds_okI)
    show "pipe_ok (pipes[p := q] ! j)" if "j < 12" for j
      using that p d(2) d(4) [OF that] q(1) by (cases "j = p") simp_all
  qed (use d in \<open>simp_all add: h r\<close>)
qed

lemma end_of_unique_kind: "end_of kind p h \<Longrightarrow> end_of kind' p' h \<Longrightarrow> kind' = kind \<and> p' = p"
  by (auto simp: end_of_def)

lemma app_fd_empty_sel [simp]: "fd_is_open app_fd_empty = False"
  by (simp add: app_fd_empty_def)

lemma pipe_fd_sel [simp]:
  "fd_is_open (pipe_fd kind fl p)" "fd_kind (pipe_fd kind fl p) = kind" "fd_flags (pipe_fd kind fl p) = fl"
  "fd_pfs_index (pipe_fd kind fl p) = p"
  by (simp_all add: pipe_fd_def)

lemma end_of_empty [simp]: "\<not> end_of kind p app_fd_empty"
  by (simp add: end_of_def app_fd_empty_def)

text \<open>Closing the descriptor of one end together with that end.\<close>

lemma fds_ok_drop_end:
  assumes ok: "fds_ok fds pipes" and i: "i < 32" and e: "end_of kind p (fds ! i)" and kind: "kind \<in> {KindPipeRead, KindPipeWrite}"
    and p: "p < 12" and q: "pipe_ok q" "pp_read_open q = (kind \<noteq> KindPipeRead \<and> pp_read_open (pipes ! p))"
      "pp_write_open q = (kind \<noteq> KindPipeWrite \<and> pp_write_open (pipes ! p))"
  shows "fds_ok (fds[i := app_fd_empty]) (pipes[p := q])"
proof -
  note d = fds_okD [OF ok]
  have f: "fds[i := app_fd_empty] ! j = (if j = i then app_fd_empty else fds ! j)" if "j < 32" for j
    using that d(1) by (simp add: nth_list_update)
  have g: "pipes[p := q] ! j = (if j = p then q else pipes ! j)" if "j < 12" for j
    using that d(2) by (simp add: nth_list_update)
  have other: "\<not> end_of kind p (fds ! j)" if "j < 32" "j \<noteq> i" for j using d(7) [OF that(1) i kind] e that by blast
  show ?thesis
  proof (rule fds_okI)
    show "handle_ok (pipes[p := q]) (fd_kind (fds[i := app_fd_empty] ! j)) (fds[i := app_fd_empty] ! j)"
      if "j < 32" "fd_is_open (fds[i := app_fd_empty] ! j)" for j
    proof -
      have j: "j \<noteq> i" "fd_is_open (fds ! j)" using that by (auto simp: f split: if_splits)
      with d(3) [OF that(1)] other [OF that(1) j(1)] q show ?thesis
        by (cases "fd_kind (fds ! j)") (auto simp: f that g end_of_def)
    qed
    show "\<exists>j<32. end_of KindPipeRead a (fds[i := app_fd_empty] ! j)" if "a < 12" "pp_read_open (pipes[p := q] ! a)" for a
    proof -
      from that q have "pp_read_open (pipes ! a)" "a \<noteq> p \<or> kind \<noteq> KindPipeRead" by (auto simp: g split: if_splits)
      with d(5) [OF that(1)] obtain j where "j < 32" "end_of KindPipeRead a (fds ! j)" "j \<noteq> i"
        using end_of_unique_kind [OF e] by blast
      then show ?thesis by (intro exI [of _ j]) (simp add: f)
    qed
    show "\<exists>j<32. end_of KindPipeWrite a (fds[i := app_fd_empty] ! j)" if "a < 12" "pp_write_open (pipes[p := q] ! a)" for a
    proof -
      from that q have "pp_write_open (pipes ! a)" "a \<noteq> p \<or> kind \<noteq> KindPipeWrite" by (auto simp: g split: if_splits)
      with d(6) [OF that(1)] obtain j where "j < 32" "end_of KindPipeWrite a (fds ! j)" "j \<noteq> i"
        using end_of_unique_kind [OF e] by blast
      then show ?thesis by (intro exI [of _ j]) (simp add: f)
    qed
    show "a = b" if "a < 32" "b < 32" "k \<in> {KindPipeRead, KindPipeWrite}"
      "end_of k c (fds[i := app_fd_empty] ! a)" "end_of k c (fds[i := app_fd_empty] ! b)" for a b c k
      using d(7) [OF that(1-3), of c] that by (auto simp: f split: if_splits)
  qed (use d q in \<open>auto simp: g\<close>)
qed

definition new_pipe :: app_pipe where
  "new_pipe = \<lparr>pp_used = True, pp_read_open = True, pp_write_open = True, pp_buffer = replicate 8192 0, pp_read_offset = 0, pp_len = 0\<rparr>"

lemma new_pipe_sel [simp]: "pp_read_open new_pipe" "pp_write_open new_pipe" "pipe_ok new_pipe"
  by (simp_all add: new_pipe_def pipe_ok_def)

text \<open>A new pipe with its two descriptors.\<close>

lemma fds_ok_new_pipe:
  assumes ok: "fds_ok fds pipes" and p: "p < 12" "\<not> pp_used (pipes ! p)"
    and rw: "r < 32" "w < 32" "r \<noteq> w" "\<not> fd_is_open (fds ! r)" "\<not> fd_is_open (fds ! w)"
  shows "fds_ok (fds[r := pipe_fd KindPipeRead 1 p, w := pipe_fd KindPipeWrite 2 p]) (pipes[p := new_pipe])" (is "fds_ok ?f ?g")
proof -
  note d = fds_okD [OF ok]
  have f: "?f ! j = (if j = w then pipe_fd KindPipeWrite 2 p else if j = r then pipe_fd KindPipeRead 1 p else fds ! j)" if "j < 32" for j
    using that d(1) rw by (simp add: nth_list_update)
  have g: "?g ! j = (if j = p then new_pipe else pipes ! j)" if "j < 12" for j using that d(2) by (simp add: nth_list_update)
  have closed: "\<not> pp_read_open (pipes ! p)" "\<not> pp_write_open (pipes ! p)" using d(4) [OF p(1)] p(2) by (auto simp: pipe_ok_def)
  have ends: "end_of k p (pipe_fd k' fl p') \<longleftrightarrow> k = k' \<and> p = p'" for k k' fl p p' by (auto simp: end_of_def)
  have old: "p' \<noteq> p" if "j < 32" "k \<in> {KindPipeRead, KindPipeWrite}" "end_of k p' (fds ! j)" for j k p'
    using d(3) [OF that(1)] that closed by (auto simp: end_of_def)
  have keep: "\<exists>j<32. end_of k a (?f ! j)" if "j < 32" "end_of k a (fds ! j)" for j k a
    using that rw by (intro exI [of _ j]) (auto simp: f end_of_def)
  show ?thesis
  proof (rule fds_okI)
    show "handle_ok ?g (fd_kind (?f ! j)) (?f ! j)" if "j < 32" "fd_is_open (?f ! j)" for j
    proof (cases "j = r \<or> j = w")
      case True
      then show ?thesis using p rw that by (auto simp: f g)
    next
      case False
      with that d(3) [OF that(1)] closed show ?thesis by (cases "fd_kind (fds ! j)") (auto simp: f g)
    qed
    show "\<exists>j<32. end_of KindPipeRead a (?f ! j)" if "a < 12" "pp_read_open (?g ! a)" for a
    proof (cases "a = p")
      case True
      then show ?thesis using rw d(1) by (intro exI [of _ r]) (simp add: ends)
    next
      case False
      with that d(5) [of a] keep show ?thesis by (auto simp: g)
    qed
    show "\<exists>j<32. end_of KindPipeWrite a (?f ! j)" if "a < 12" "pp_write_open (?g ! a)" for a
    proof (cases "a = p")
      case True
      then show ?thesis using rw d(1) by (intro exI [of _ w]) (simp add: ends)
    next
      case False
      with that d(6) [of a] keep show ?thesis by (auto simp: g)
    qed
    show "a = b" if "a < 32" "b < 32" "k \<in> {KindPipeRead, KindPipeWrite}" "end_of k c (?f ! a)" "end_of k c (?f ! b)" for a b c k
      using that d(7) [OF that(1-3), of c] old by (auto simp: f ends split: if_splits)
  qed (use d in \<open>auto simp: g\<close>)
qed

lemma two_free_fds_spec:
  assumes "two_free_fds k xs rs = (r, w)" "w \<noteq> 32" "32 \<notin> set xs" "distinct xs" "rs \<notin> set xs"
    "rs \<noteq> 32 \<Longrightarrow> \<not> fd_is_open (app_fds k ! rs)"
  shows "w \<in> set xs" "\<not> fd_is_open (app_fds k ! w)" "r = rs \<and> rs \<noteq> 32 \<or> r \<in> set xs" "\<not> fd_is_open (app_fds k ! r)" "r \<noteq> w"
  using assms
  by (induction k xs rs rule: two_free_fds.induct) (auto split: if_splits)

lemma set_fd_simps [simp]:
  "app_fds (set_fd i h k) = (app_fds k)[i := h]" "app_pipes (set_fd i h k) = app_pipes k"
  "process_table (set_fd i h k) = process_table k" "current_process_index (set_fd i h k) = current_process_index k"
  "app_fds (set_pipe i p k) = app_fds k" "app_pipes (set_pipe i p k) = (app_pipes k)[i := p]"
  "process_table (set_pipe i p k) = process_table k" "current_process_index (set_pipe i p k) = current_process_index k"
  by (simp_all add: set_fd_def set_pipe_def)

lemma app_error_fds [simp]:
  "app_fds (clear_app_error k) = app_fds k" "app_pipes (clear_app_error k) = app_pipes k"
  "app_fds (snd (set_app_error e k)) = app_fds k" "app_pipes (snd (set_app_error e k)) = app_pipes k"
  "app_fds (set_std_fd a b k) = app_fds k" "app_pipes (set_std_fd a b k) = app_pipes k"
  by (simp_all add: clear_app_error_def set_app_error_def set_std_fd_def)

abbreviation fd_tables_ok :: "kernel \<Rightarrow> bool" where
  "fd_tables_ok k \<equiv> fds_ok (app_fds k) (app_pipes k)"

lemma app_fd_index_Some: "app_fd_index fd = Some i \<longleftrightarrow> fd = int i + 3 \<and> i < 32"
  by (auto simp: app_fd_index_def Let_def)

lemma abi_seek_ok:
  assumes "fd_tables_ok k"
  shows "fd_tables_ok (snd (abi_seek fd offset k))"
proof -
  have "fds_ok ((app_fds k)[i := (app_fds k ! i)\<lparr>fd_offset := offset\<rparr>]) (app_pipes k)"
    if "i < 32" "fd_is_open (app_fds k ! i)" "fd_kind (app_fds k ! i) = KindBootFs \<longrightarrow> offset \<le> fd_len (app_fds k ! i)" for i
  proof (rule fds_ok_same_end [OF assms that(1)])
    show "handle_ok (app_pipes k) (fd_kind ((app_fds k ! i)\<lparr>fd_offset := offset\<rparr>)) ((app_fds k ! i)\<lparr>fd_offset := offset\<rparr>)"
      using fds_okD(3) [OF assms that(1,2)] that(3) by (cases "fd_kind (app_fds k ! i)") simp_all
  qed (simp add: end_of_def)
  then show ?thesis using assms by (auto simp: abi_seek_def Let_def app_fd_index_Some split: option.splits)
qed

lemma close_end_facts:
  assumes "pipe_ok p"
  shows "pipe_ok (close_read_end p)" "\<not> pp_read_open (close_read_end p)" "pp_write_open (close_read_end p) = pp_write_open p"
    "pipe_ok (close_write_end p)" "\<not> pp_write_open (close_write_end p)" "pp_read_open (close_write_end p) = pp_read_open p"
  using assms by (auto simp: close_read_end_def close_write_end_def Let_def app_pipe_empty_def pipe_ok_def)

lemma abi_close_ok:
  assumes ok: "fd_tables_ok k"
  shows "fd_tables_ok (snd (abi_close fd k))"
proof -
  note d = fds_okD [OF ok]
  have plain: "fds_ok ((app_fds k)[i := app_fd_empty]) (app_pipes k)"
    if "i < 32" "fd_kind (app_fds k ! i) \<notin> {KindPipeRead, KindPipeWrite}" for i
    by (rule fds_ok_same_end [OF ok that(1)]) (use that in \<open>auto simp: end_of_def\<close>)
  have pipe: "fds_ok ((app_fds k)[i := app_fd_empty]) ((app_pipes k)[fd_pfs_index (app_fds k ! i) := q])"
    if "i < 32" "fd_is_open (app_fds k ! i)" "fd_kind (app_fds k ! i) = kind" "kind = KindPipeRead \<and> q = close_read_end (app_pipes k ! fd_pfs_index (app_fds k ! i)) \<or>
      kind = KindPipeWrite \<and> q = close_write_end (app_pipes k ! fd_pfs_index (app_fds k ! i))" for i kind q
  proof -
    have p: "fd_pfs_index (app_fds k ! i) < 12" using d(3) [OF that(1,2)] that(3,4) by auto
    note c = close_end_facts [OF d(4) [OF p]]
    show ?thesis by (rule fds_ok_drop_end [OF ok that(1) _ _ p, of kind]) (use that c in \<open>auto simp: end_of_def\<close>)
  qed
  have "fd_tables_ok (snd (abi_close fd k))" if "app_fd_index fd = Some i" "fd_is_open (app_fds k ! i)" for i
  proof -
    have i: "i < 32" "3 \<le> fd" using that(1) by (simp_all add: app_fd_index_Some)
    from pipe [OF i(1) that(2), of KindPipeRead] pipe [OF i(1) that(2), of KindPipeWrite] plain [OF i(1)] that i
    show ?thesis by (cases "fd_kind (app_fds k ! i)") (simp_all add: abi_close_def Let_def)
  qed
  then show ?thesis using ok by (auto simp: abi_close_def Let_def split: option.splits)
qed

lemma abi_pipe_ok:
  assumes ok: "fd_tables_ok k"
  shows "fd_tables_ok (snd (snd (abi_pipe ptrs k)))"
proof -
  have "fd_tables_ok (snd (snd (abi_pipe ptrs k)))" if "ptrs" "find (\<lambda>index. \<not> pp_used (app_pipes k ! index)) [0..<12] = Some p"
    "two_free_fds k [0..<32] 32 = (r, w)" "w \<noteq> 32" for p r w
  proof -
    note s = two_free_fds_spec [OF that(3,4)]
    have "p < 12" "\<not> pp_used (app_pipes k ! p)" "r < 32" "w < 32" "r \<noteq> w" "\<not> fd_is_open (app_fds k ! r)" "\<not> fd_is_open (app_fds k ! w)"
      using s find_upt_SomeD(1,2) [OF that(2)] by auto
    from fds_ok_new_pipe [OF ok this] show ?thesis
      using that by (simp add: abi_pipe_def Let_def FD_READ_def FD_WRITE_def new_pipe_def)
  qed
  with ok show ?thesis by (auto simp: abi_pipe_def Let_def set_app_error_def split: option.splits prod.splits)
qed

lemma read_handle_ok:
  assumes ok: "fd_tables_ok k" and i: "i < 32" and r: "read_handle bus i n k d = (ret, data, k', d')"
  shows "fd_tables_ok k'"
proof -
  let ?h = "app_fds k ! i"
  note h = fds_okD(3) [OF ok i] and p = fds_okD(4) [OF ok]
  have adv: "fds_ok ((app_fds k)[i := ?h\<lparr>fd_offset := fd_offset ?h + m\<rparr>]) (app_pipes k)"
    if "fd_is_open ?h" "m \<le> fd_len ?h - fd_offset ?h" "fd_kind ?h \<noteq> KindPipeRead" for m
  proof (rule fds_ok_same_end [OF ok i])
    show "handle_ok (app_pipes k) (fd_kind (?h\<lparr>fd_offset := fd_offset ?h + m\<rparr>)) (?h\<lparr>fd_offset := fd_offset ?h + m\<rparr>)"
      using h that by (cases "fd_kind ?h") auto
  qed (simp add: end_of_def)
  have pipe: "fds_ok (app_fds k) ((app_pipes k)[fd_pfs_index ?h := snd (pipe_read n (app_pipes k ! fd_pfs_index ?h))])"
    if "fd_is_open ?h" "fd_kind ?h = KindPipeRead"
  proof -
    have q: "fd_pfs_index ?h < 12" using h that by simp
    obtain bs q' where e: "pipe_read n (app_pipes k ! fd_pfs_index ?h) = (bs, q')" by force
    have "pipe_ok q'" using pipe_read_law [OF p [OF q] e] by simp
    moreover have "pp_read_open q' = pp_read_open (app_pipes k ! fd_pfs_index ?h)" "pp_write_open q' = pp_write_open (app_pipes k ! fd_pfs_index ?h)"
      using e by (auto simp: pipe_read_def Let_def split: if_splits)
    ultimately show ?thesis using fds_ok_same_pipe [OF ok q] e by simp
  qed
  show ?thesis using r ok adv pipe
    by (auto simp: read_handle_def Let_def split: if_splits prod.splits bool.splits app_fd_kind.splits)
qed

lemma pipe_write_ends:
  assumes "pipe_write data p = Some (m, q)"
  shows "pp_read_open q = pp_read_open p" "pp_write_open q = pp_write_open p" "pp_used q = pp_used p"
  using assms by (auto simp: pipe_write_def Let_def split: if_splits)

lemma write_handle_ok:
  assumes ok: "fd_tables_ok k" and i: "i < 32" and w: "write_handle bus now i data k d = (ret, k', d')"
  shows "fd_tables_ok k'"
proof -
  let ?h = "app_fds k ! i"
  note h = fds_okD(3) [OF ok i] and p = fds_okD(4) [OF ok]
  have pipe: "fds_ok (app_fds k) ((app_pipes k)[fd_pfs_index ?h := q])"
    if "fd_is_open ?h" "fd_kind ?h = KindPipeWrite" "pipe_write data (app_pipes k ! fd_pfs_index ?h) = Some (m, q)" for m q
  proof -
    have j: "fd_pfs_index ?h < 12" using h that by simp
    show ?thesis using pipe_write_law [OF p [OF j] that(3)] pipe_write_ends [OF that(3)] by (intro fds_ok_same_pipe [OF ok j]) auto
  qed
  have regular: "fds_ok ((app_fds k)[i := h']) (app_pipes k)"
    if "fd_is_open ?h" "fd_kind ?h = KindPfs" "fd_kind h' = KindPfs" "fd_pfs_index h' = fd_pfs_index ?h" for h'
    by (rule fds_ok_same_end [OF ok i]) (use h that in \<open>auto simp: end_of_def\<close>)
  show ?thesis
  proof (cases "fd_kind ?h = KindPfs")
    case True
    with w ok regular show ?thesis
      by (auto simp: write_handle_def Let_def split: if_splits prod.splits bool.splits)
  next
    case False
    with w ok pipe show ?thesis
      by (auto simp: write_handle_def Let_def split: if_splits prod.splits option.splits)
  qed
qed

lemma app_close_all_fds_ok:
  assumes "fd_tables_ok k"
  shows "fd_tables_ok (app_close_all_fds k)"
  by (rule fds_okI) (use fds_okD(1,2) [OF assms] in \<open>auto simp: app_close_all_fds_def app_pipe_empty_def pipe_ok_def\<close>)

section \<open>The stream between two descriptors\<close>

text \<open>
  A sequence of writes to one descriptor and reads from another: the bytes the writes accepted, the
  bytes the reads returned, and the final state.
\<close>

fun pipe_calls ::
  "'d port_bus \<Rightarrow> u64 \<Rightarrow> nat \<Rightarrow> nat \<Rightarrow> (bytes + nat) list \<Rightarrow> kernel \<Rightarrow> 'd \<Rightarrow> bytes \<times> bytes \<times> kernel \<times> 'd" where
  "pipe_calls bus now w r [] k d = ([], [], k, d)"
| "pipe_calls bus now w r (Inl data # calls) k d =
     (case write_handle bus now w data k d of
        (ret, k, d) \<Rightarrow>
          (case pipe_calls bus now w r calls k d of
             (accepted, taken, k, d) \<Rightarrow> (take (nat ret) data @ accepted, taken, k, d)))"
| "pipe_calls bus now w r (Inr n # calls) k d =
     (case read_handle bus r n k d of
        (ret, data, k, d) \<Rightarrow>
          (case pipe_calls bus now w r calls k d of
             (accepted, taken, k, d) \<Rightarrow> (accepted, data @ taken, k, d)))"

definition joined :: "nat \<Rightarrow> nat \<Rightarrow> nat \<Rightarrow> kernel \<Rightarrow> bool" where
  "joined p w r k \<longleftrightarrow> p < 12 \<and> r < 32 \<and> w < 32 \<and> end_of KindPipeRead p (app_fds k ! r) \<and> end_of KindPipeWrite p (app_fds k ! w)"

lemma joined_write:
  assumes ok: "fd_tables_ok k" and j: "joined p w r k" and e: "write_handle bus now w data k d = (ret, k', d')"
  shows "joined p w r k' \<and> pipe_contents (app_pipes k' ! p) = pipe_contents (app_pipes k ! p) @ take (nat ret) data"
proof -
  let ?h = "app_fds k ! w" and ?p = "app_pipes k ! p"
  have p: "p < 12" "w < 32" "r < 32" "fd_is_open ?h" "fd_kind ?h = KindPipeWrite" "fd_pfs_index ?h = p"
    "end_of KindPipeRead p (app_fds k ! r)" using j by (auto simp: joined_def end_of_def)
  note d = fds_okD [OF ok]
  have w: "pp_write_open ?p" "fd_flags ?h = 2" using d(3) [OF p(2,4)] p(5,6) by auto
  have r: "pp_read_open ?p" using d(3) [OF p(3)] p(7) by (auto simp: end_of_def)
  have u: "pp_used ?p" using d(4) [OF p(1)] w by (auto simp: pipe_ok_def)
  have "(ret, k', d') = (case pipe_write data ?p of None \<Rightarrow> (- 1, k, d) | Some (m, q) \<Rightarrow> (int m, set_pipe p q k, d))"
    using e p w r u by (cases "pipe_write data ?p") (auto simp: write_handle_def Let_def FD_WRITE_def)
  then show ?thesis using j pipe.put_law [OF d(4) [OF p(1)]] p(1) d(2)
    by (auto simp: joined_def split: option.splits)
qed

lemma joined_read:
  assumes ok: "fd_tables_ok k" and j: "joined p w r k" and e: "read_handle bus r n k d = (ret, data, k', d')"
  shows "joined p w r k' \<and> data = take n (pipe_contents (app_pipes k ! p)) \<and>
    pipe_contents (app_pipes k' ! p) = drop n (pipe_contents (app_pipes k ! p)) \<and> ret = int (length data)"
proof -
  let ?h = "app_fds k ! r" and ?p = "app_pipes k ! p"
  have p: "p < 12" "r < 32" "fd_is_open ?h" "fd_kind ?h = KindPipeRead" "fd_pfs_index ?h = p" using j by (auto simp: joined_def end_of_def)
  note d = fds_okD [OF ok]
  have r: "pp_read_open ?p" "fd_flags ?h = 1" using d(3) [OF p(2,3)] p(4,5) by auto
  have u: "pp_used ?p" using d(4) [OF p(1)] r by (auto simp: pipe_ok_def)
  obtain bs q where g: "pipe_read n ?p = (bs, q)" by force
  have "(ret, data, k', d') = (int (length bs), bs, set_pipe p q k, d)"
    using e p r u g by (auto simp: read_handle_def Let_def FD_READ_def)
  then show ?thesis using j pipe.get_law [OF d(4) [OF p(1)] g] p(1) d(2) by (auto simp: joined_def)
qed

lemma pipe_calls_stream:
  assumes "fd_tables_ok k" "joined p w r k" "pipe_calls bus now w r calls k d = (accepted, taken, k', d')"
  shows "fd_tables_ok k' \<and> joined p w r k' \<and>
    pipe_contents (app_pipes k ! p) @ accepted = taken @ pipe_contents (app_pipes k' ! p)"
  using assms
proof (induction calls arbitrary: k d accepted taken)
  case (Cons c calls)
  note ok = Cons.prems(1) and j = Cons.prems(2)
  have rw: "r < 32" "w < 32" using j by (simp_all add: joined_def)
  show ?case
  proof (cases c)
    case (Inl data)
    obtain ret k1 d1 where e: "write_handle bus now w data k d = (ret, k1, d1)" by (metis prod_cases3)
    obtain a1 where r: "pipe_calls bus now w r calls k1 d1 = (a1, taken, k', d')" "accepted = take (nat ret) data @ a1"
      using Cons.prems(3) Inl e by (auto split: prod.splits)
    from joined_write [OF ok j e] write_handle_ok [OF ok rw(2) e] Cons.IH [OF _ _ r(1)] r(2) show ?thesis by auto
  next
    case (Inr n)
    obtain ret data k1 d1 where e: "read_handle bus r n k d = (ret, data, k1, d1)" by (metis prod_cases4)
    obtain t1 where r: "pipe_calls bus now w r calls k1 d1 = (accepted, t1, k', d')" "taken = data @ t1"
      using Cons.prems(3) Inr e by (auto split: prod.splits)
    note l = joined_read [OF ok j e]
    then have "pipe_contents (app_pipes k ! p) = data @ pipe_contents (app_pipes k1 ! p)" by simp
    with l read_handle_ok [OF ok rw(1) e] Cons.IH [OF _ _ r(1)] r(2) show ?thesis by simp
  qed
qed simp

lemma abi_pipe_joined:
  assumes ok: "fd_tables_ok k" and e: "abi_pipe True k = (ret, Some (rfd, wfd), k')"
  obtains p where "joined p (nat (wfd - 3)) (nat (rfd - 3)) k'" "app_pipes k' ! p = new_pipe" "ret = 0" "3 \<le> rfd" "3 \<le> wfd"
proof -
  obtain p where p: "find (\<lambda>index. \<not> pp_used (app_pipes k ! index)) [0..<12] = Some p"
    using e by (auto simp: abi_pipe_def Let_def set_app_error_def split: option.splits)
  obtain r w where rw: "two_free_fds k [0..<32] 32 = (r, w)" by force
  have w: "w \<noteq> 32" using e p rw by (auto simp: abi_pipe_def Let_def set_app_error_def)
  note s = two_free_fds_spec [OF rw w]
  have b: "p < 12" "r < 32" "w < 32" "r \<noteq> w" using s find_upt_SomeD(1) [OF p] by auto
  have f: "ret = 0" "rfd = int r + 3" "wfd = int w + 3" "app_pipes k' = (app_pipes k)[p := new_pipe]"
    "app_fds k' = (app_fds k)[r := pipe_fd KindPipeRead FD_READ p, w := pipe_fd KindPipeWrite FD_WRITE p]"
    using e p rw w by (auto simp: abi_pipe_def Let_def new_pipe_def)
  have "joined p (nat (wfd - 3)) (nat (rfd - 3)) k'"
    using b fds_okD(1) [OF ok] by (auto simp: f joined_def end_of_def nth_list_update)
  moreover have "app_pipes k' ! p = new_pipe" using b fds_okD(2) [OF ok] by (simp add: f)
  ultimately show ?thesis using that f(1,2,3) by simp
qed


lemma demo_fds_ok: "fd_tables_ok demo_state"
  by (rule fds_okI) (auto simp: demo_state_def app_pipe_empty_def pipe_ok_def)


end
