(* ===== verification/Program_Spawn.thy ===== *)
theory Program_Spawn
  imports Elf_Loader Program_Memory App_Fds
begin

text \<open>
  Starting programs, \<^verbatim>\<open>kernel/src/main.rs\<close>: \<^verbatim>\<open>spawn_prepared\<close> and \<^verbatim>\<open>prepare_process\<close>, which build a process
  from its slot, its address space, its image and its stack; the calls \<^verbatim>\<open>spawn\<close> and \<^verbatim>\<open>spawn_argv\<close>; the
  shell's \<^verbatim>\<open>run\<close> up to and after its blocking wait; and the calls by which a program reads its arguments.

  The address of \<^verbatim>\<open>process_trampoline\<close> and the memory around the boot image are arguments.  The path buffer
  of 32 bytes overflows for long names: that is the outcome \<^term>\<open>Panic\<close>.
\<close>

section \<open>Model\<close>

definition program_path :: "bytes \<Rightarrow> bytes outcome" where
  "program_path name =
     (if contains name 47 then if length name > 32 then Panic else Ret name
      else
        let path = lit ''programs/'' @ name in
        if length path > 32 then Panic
        else if ends_with name (lit ''.elf'') then Ret path
        else if length path + 4 > 32 then Panic else Ret (path @ lit ''.elf''))"

text \<open>A 64-bit store at an aligned virtual address under the active tables.\<close>

definition store_word :: "u64 \<Rightarrow> u64 \<Rightarrow> 'a paging_scheme \<Rightarrow> 'a paging_scheme" where
  "store_word virt v s =
     (case translate (phys_mem s) (cr3 s) virt of
        None \<Rightarrow> s
      | Some page \<Rightarrow> s\<lparr>phys_mem := (phys_mem s)(word_addr page virt := v)\<rparr>)"

definition build_initial_stack_frame :: "u64 \<Rightarrow> u64 \<Rightarrow> 'a paging_scheme \<Rightarrow> u64 \<times> 'a paging_scheme" where
  "build_initial_stack_frame stack_top entry_point s =
     (let initial_rsp = stack_top - 64 in
      (initial_rsp, store_word (initial_rsp + 6 * 8) entry_point
         (fold (\<lambda>i. store_word (initial_rsp + of_nat i * 8) 0) [0..<6] s)))"

definition prepare_process ::
  "(u64 \<Rightarrow> u8) \<Rightarrow> u64 \<Rightarrow> nat \<Rightarrow> console \<Rightarrow> bytes \<Rightarrow> kernel \<Rightarrow> bool \<times> console \<times> kernel" where
  "prepare_process beyond trampoline index con image_bytes k =
     (let pid = process_pid k index in
      case current_pml4_or_kernel k of
        (None, k) \<Rightarrow> (False, con, process_set_state index Failed (- 1) k)
      | (Some parent_pml4, k) \<Rightarrow>
      case create_process_address_space pid k of
        (None, k) \<Rightarrow> (False, con, process_set_state index Failed (- 1) k)
      | (Some child_pml4, k) \<Rightarrow>
      case load_program_elf_isolated beyond con image_bytes child_pml4 (k\<lparr>cr3 := child_pml4\<rparr>) of
        (None, con, k) \<Rightarrow>
          (False, con, process_set_state index Failed (- 1) (destroy_process_address_space child_pml4 (k\<lparr>cr3 := parent_pml4\<rparr>)))
      | (Some entry, con, k) \<Rightarrow>
      case create_process_stack pid (k\<lparr>cr3 := parent_pml4\<rparr>) of
        (None, k) \<Rightarrow> (False, con, process_set_state index Failed (- 1) (destroy_process_address_space child_pml4 k))
      | (Some stack_top, k) \<Rightarrow>
      case build_initial_stack_frame stack_top trampoline k of
        (initial_rsp, k) \<Rightarrow> (True, con, mark_ready index child_pml4 entry initial_rsp (app_set_heap_window index pid k)))"

text \<open>The child starts with copies of the caller's redirections, directory and environment.\<close>

definition inherit :: "nat \<Rightarrow> nat \<Rightarrow> kernel \<Rightarrow> kernel" where
  "inherit parent child k =
     set_proc child ((proc k child)\<lparr>p_std_fds := p_std_fds (proc k parent), p_cwd := p_cwd (proc k parent),
       p_cwd_len := p_cwd_len (proc k parent), p_env := p_env (proc k parent)\<rparr>) k"

definition spawn_prepared ::
  "(u64 \<Rightarrow> u8) \<Rightarrow> u64 \<Rightarrow> bytes \<Rightarrow> bytes \<Rightarrow> bytes list option \<Rightarrow> kernel \<Rightarrow> (int \<times> kernel) outcome" where
  "spawn_prepared beyond trampoline name args argv k =
     (let parent = current_process_index k in
      if parent \<ge> PROCESS_COUNT then Ret (set_app_error ERR_INVAL k)
      else bind_outcome (program_path name) (\<lambda>path. Ret
        (case bootfs_find_data (app_bootfs k) path of
           None \<Rightarrow> set_app_error ERR_NOENT k
         | Some child_image \<Rightarrow>
             (case (case argv of Some argv \<Rightarrow> process_spawn_with_argv name args argv (current_pid k) k
                               | None \<Rightarrow> process_spawn name args k) of
                (None, k) \<Rightarrow> set_app_error ERR_NOSPC k
              | (Some child, k) \<Rightarrow>
                  let k = inherit parent child k in
                  (case app_console k of
                     None \<Rightarrow> set_app_error ERR_INVAL (process_set_state child Failed (- 1) k)
                   | Some con \<Rightarrow>
                       (case prepare_process beyond trampoline child con child_image k of
                          (False, con, k) \<Rightarrow> set_app_error ERR_IO (k\<lparr>app_console := Some con\<rparr>)
                        | (True, con, k) \<Rightarrow>
                            let k = clear_app_error (k\<lparr>app_console := Some con\<rparr>) in (sint (process_pid k child), k)))))))"

text \<open>For the argument string an empty slice stands for length zero, whatever the pointer.\<close>

definition abi_spawn :: "(u64 \<Rightarrow> u8) \<Rightarrow> u64 \<Rightarrow> bytes option \<Rightarrow> bytes option \<Rightarrow> kernel \<Rightarrow> (int \<times> kernel) outcome" where
  "abi_spawn beyond trampoline name_ptr args_ptr k =
     (case checked_app_slice name_ptr of
        None \<Rightarrow> Ret (set_app_error ERR_INVAL k)
      | Some name \<Rightarrow>
          if name = [] \<or> length name > PROCESS_NAME_MAX then Ret (set_app_error ERR_INVAL k)
          else case (if args_ptr = Some [] then Some [] else checked_app_slice args_ptr) of
            None \<Rightarrow> Ret (set_app_error ERR_INVAL k)
          | Some args \<Rightarrow>
              if length args > PROCESS_ARGS_MAX then Ret (set_app_error ERR_INVAL k)
              else spawn_prepared beyond trampoline name args None k)"

text \<open>The loop of \<^verbatim>\<open>abi_spawn_argv\<close>: the arguments seen so far and their text separated by spaces.\<close>

fun argv_loop :: "bytes option list \<Rightarrow> bytes list \<Rightarrow> bytes \<Rightarrow> int + bytes list \<times> bytes" where
  "argv_loop [] argv raw = Inr (argv, raw)"
| "argv_loop (arg # rest) argv raw =
     (case arg of
        None \<Rightarrow> Inl ERR_INVAL
      | Some bs \<Rightarrow>
          if length bs > PROCESS_ARGV_VALUE_MAX then Inl ERR_INVAL
          else case checked_app_slice arg of
            None \<Rightarrow> Inl ERR_INVAL
          | Some bs \<Rightarrow>
              let separator = (if length raw > 0 then 1 else 0) in
              if length raw + separator + length bs > PROCESS_ARGS_MAX then Inl ERR_NOSPC
              else argv_loop rest (argv @ [bs]) (raw @ (if separator = 1 then [32] else []) @ bs))"

definition abi_spawn_argv ::
  "(u64 \<Rightarrow> u8) \<Rightarrow> u64 \<Rightarrow> bytes option \<Rightarrow> bytes option list option \<Rightarrow> kernel \<Rightarrow> (int \<times> kernel) outcome" where
  "abi_spawn_argv beyond trampoline name_ptr argv_ptr k =
     (case checked_app_slice name_ptr of
        None \<Rightarrow> Ret (set_app_error ERR_INVAL k)
      | Some name \<Rightarrow>
          (case argv_ptr of
             None \<Rightarrow> Ret (set_app_error ERR_INVAL k)
           | Some args \<Rightarrow>
               if name = [] \<or> length name > PROCESS_NAME_MAX \<or> length args > PROCESS_ARGV_COUNT_MAX
               then Ret (set_app_error ERR_INVAL k)
               else case argv_loop args [] [] of
                 Inl e \<Rightarrow> Ret (set_app_error e k)
               | Inr (argv, raw) \<Rightarrow> spawn_prepared beyond trampoline name raw (Some argv) k))"

text \<open>The shell's \<^verbatim>\<open>run\<close>: until the process is ready, and after its exit.\<close>

definition run_program_start ::
  "(u64 \<Rightarrow> u8) \<Rightarrow> u64 \<Rightarrow> bytes \<Rightarrow> bytes \<Rightarrow> console \<Rightarrow> bootfs \<Rightarrow> kernel \<Rightarrow> (nat option \<times> console \<times> kernel) outcome" where
  "run_program_start beyond trampoline name args con bootfs k =
     (case process_spawn name args k of
        (None, k) \<Rightarrow> Ret (None, write_line ''run: process table full'' con, k)
      | (Some index, k) \<Rightarrow>
          bind_outcome (program_path name) (\<lambda>path. Ret
            (case bootfs_find_data bootfs path of
               None \<Rightarrow> (None, write_line ''run: program not found'' con, process_fail_unwaited index k)
             | Some image_bytes \<Rightarrow>
                 let con = new_line (write_usize (unat (process_pid k index))
                       (console_write '' pid '' (write_bytes path (console_write ''run: '' con))));
                     k = app_close_all_fds (k\<lparr>app_console := Some con, app_bootfs := bootfs\<rparr>);
                     k = set_proc index ((proc k index)\<lparr>p_std_fds := [STDIN_FD, STDOUT_FD, STDERR_FD],
                           p_cwd := (replicate (length (p_cwd (proc k index))) 0)[0 := 47], p_cwd_len := 1, p_last_error := ERR_OK\<rparr>) k
                 in (case prepare_process beyond trampoline index con image_bytes k of
                       (False, con, k) \<Rightarrow> (None, write_line ''run: failed to prepare process'' con, k)
                     | (True, con, k) \<Rightarrow> (Some index, con, k\<lparr>app_console := Some con\<rparr>)))))"

definition run_program_finish :: "nat \<Rightarrow> process_status option \<Rightarrow> console \<Rightarrow> kernel \<Rightarrow> console \<times> kernel" where
  "run_program_finish index status con k =
     (let code = (case status of Some st \<Rightarrow> st_exit_code st | None \<Rightarrow> - 1);
          k = set_proc index ((proc k index)\<lparr>p_waited := True\<rparr>) k
      in (new_line (write_i32 code (console_write ''exit '' con)), k))"

definition process_config_sys :: "console \<Rightarrow> bootfs \<Rightarrow> console" where
  "process_config_sys con bootfs =
     write_line (if bootfs_find_data bootfs (lit ''config.sys'') \<noteq> None then ''config.sys loaded'' else ''config.sys missing'') con"

text \<open>Reading arguments: the result and the bytes stored at the program's pointer.\<close>

definition abi_args :: "nat option \<Rightarrow> kernel \<Rightarrow> nat \<times> bytes" where
  "abi_args ptr k =
     (let args_len = p_args_len (cur_proc k) in
      case ptr of None \<Rightarrow> (args_len, [])
      | Some len \<Rightarrow>
          if len = 0 then (args_len, [])
          else let copy_len = min len args_len in (copy_len, take copy_len (p_args (cur_proc k))))"

definition abi_argv_count :: "kernel \<Rightarrow> nat" where
  "abi_argv_count k = (if current_process_index k \<ge> PROCESS_COUNT then 0 else 1 + p_argv_count (cur_proc k))"

definition argv_value :: "nat \<Rightarrow> kernel \<Rightarrow> bytes option" where
  "argv_value index k =
     (if current_process_index k \<ge> PROCESS_COUNT then None
      else if index = 0 then Some (take (p_name_len (cur_proc k)) (p_name (cur_proc k)))
      else let arg_index = index - 1 in
        if arg_index \<ge> p_argv_count (cur_proc k) then None
        else Some (take (p_argv_lens (cur_proc k) ! arg_index) (p_argv (cur_proc k) ! arg_index)))"

definition copy_argv_value :: "nat \<Rightarrow> nat option \<Rightarrow> kernel \<Rightarrow> (nat \<times> bytes) option" where
  "copy_argv_value index ptr k =
     map_option (\<lambda>v. (length v, case ptr of None \<Rightarrow> [] | Some len \<Rightarrow> take (min len (length v)) v)) (argv_value index k)"

definition abi_argv_get :: "nat \<Rightarrow> nat option \<Rightarrow> kernel \<Rightarrow> int \<times> bytes \<times> kernel" where
  "abi_argv_get index ptr k =
     (case copy_argv_value index ptr k of
        None \<Rightarrow> (case set_app_error ERR_NOENT k of (r, k) \<Rightarrow> (r, [], k))
      | Some (value_len, out) \<Rightarrow> (usize_as_isize value_len, out, clear_app_error k))"

definition abi_term_size :: "bool \<Rightarrow> kernel \<Rightarrow> int \<times> (nat \<times> nat) option \<times> kernel" where
  "abi_term_size ptrs_ok k =
     (case (if ptrs_ok then app_console k else None) of
        None \<Rightarrow> (case set_app_error ERR_INVAL k of (r, k) \<Rightarrow> (r, None, k))
      | Some con \<Rightarrow> (0, Some (rows con, cols con), clear_app_error k))"

section \<open>Only the process table of the kernel changes\<close>

lemma alloc_moreD: "alloc_zeroed_page s = (r, s') \<Longrightarrow> paging.more s' = paging.more s"
  using alloc_zeroed_page_more [of s] by simp

lemma clone_moreD: "clone_table t s = (r, s') \<Longrightarrow> paging.more s' = paging.more s"
  using clone_table_more [of t s] by simp

lemma kernel_pml4_moreD: "ensure_kernel_pml4 s = (r, s') \<Longrightarrow> paging.more s' = paging.more s"
  using ensure_kernel_pml4_more [of s] by simp

lemma free_moreD: "free_phys_page p s = (r, s') \<Longrightarrow> paging.more s' = paging.more s"
  using free_phys_page_more [of p s] by simp

lemma ensure_next_moreD: "ensure_next_table t i s = (r, s') \<Longrightarrow> paging.more s' = paging.more s"
  by (auto simp: ensure_next_table_def Let_def split: if_splits prod.splits option.splits dest: alloc_moreD)

lemmas paging_moreD = alloc_moreD clone_moreD kernel_pml4_moreD free_moreD ensure_next_moreD

lemma map_page_moreD: "map_page r v p f s = (ok, s') \<Longrightarrow> paging.more s' = paging.more s"
  by (auto simp: map_page_def split: if_splits prod.splits option.splits dest!: ensure_next_moreD)

lemma private_tables_moreD: "private_tables q s = (r, s') \<Longrightarrow> paging.more s' = paging.more s"
  by (auto simp: private_tables_def Let_def fold_more split: prod.splits option.splits dest!: clone_moreD)

lemma create_space_moreD: "create_process_address_space pid s = (r, s') \<Longrightarrow> paging.more s' = paging.more s"
  by (auto simp: create_process_address_space_def split: prod.splits option.splits
      dest!: kernel_pml4_moreD ensure_next_moreD private_tables_moreD)

lemma map_user_loop_moreD: "map_user_loop r b js s = (ok, s') \<Longrightarrow> paging.more s' = paging.more s"
proof (induction js arbitrary: s)
  case (Cons j js)
  from Cons.prems show ?case
    by (auto split: prod.splits option.splits bool.splits dest!: Cons.IH map_page_moreD alloc_moreD free_moreD)
qed simp

lemma map_image_loop_moreD: "map_image_loop r b js s = (ok, s') \<Longrightarrow> paging.more s' = paging.more s"
proof (induction js arbitrary: s)
  case (Cons j js)
  from Cons.prems show ?case
    by (auto simp: Let_def split: if_splits prod.splits option.splits bool.splits dest!: Cons.IH map_page_moreD alloc_moreD)
qed simp

lemma store_more [simp]: "paging.more (store_byte v b s) = paging.more s" "paging.more (store_word v w s) = paging.more s"
  by (simp_all add: store_byte_def store_word_def split: option.splits)

lemma load_segments_moreD: "load_segments beyond elf r phs s = (e, s') \<Longrightarrow> paging.more s' = paging.more s"
proof (induction phs arbitrary: s)
  case (Cons ph phs)
  have "paging.more s1 = paging.more s" if "load_segment beyond elf r ph s = (e1, s1)" for e1 s1
    using that by (auto simp: load_segment_def map_image_pages_def zero_bytes_def copy_bytes_def fold_more
        split: if_splits option.splits prod.splits bool.splits dest!: map_image_loop_moreD)
  with Cons show ?case by (auto split: prod.splits option.splits)
qed simp

lemma load_elf_moreD: "load_program_elf_isolated beyond con elf r s = (e, con', s') \<Longrightarrow> paging.more s' = paging.more s"
  by (auto simp: load_program_elf_isolated_def split: option.splits prod.splits dest!: load_segments_moreD)

lemma create_stack_moreD: "create_process_stack pid s = (r, s') \<Longrightarrow> paging.more s' = paging.more s"
  by (auto simp: create_process_stack_def map_user_pages_def Let_def split: option.splits prod.splits bool.splits
      dest!: kernel_pml4_moreD map_user_loop_moreD)

lemma stack_frame_moreD: "build_initial_stack_frame t e s = (r, s') \<Longrightarrow> r = t - 64 \<and> paging.more s' = paging.more s"
  by (auto simp: build_initial_stack_frame_def Let_def fold_more simp del: upt.simps)

lemma current_pml4_moreD: "current_pml4_or_kernel k = (r, k') \<Longrightarrow> paging.more k' = paging.more k"
  by (auto simp: current_pml4_or_kernel_def Let_def split: if_splits dest!: kernel_pml4_moreD)

lemma create_stack_top: "create_process_stack pid s = (Some t, s') \<Longrightarrow> t - 64 \<noteq> 0"
proof
  assume "create_process_stack pid s = (Some t, s')" "t - 64 = 0"
  then have "stack_window pid + KERNEL_STACK_STRIDE = 64"
    by (auto simp: create_process_stack_def Let_def split: option.splits prod.splits bool.splits)
  then have "push_bit 21 (0x7FFFD800001 + ucast pid) = (64 :: u64)"
    by (simp add: stack_window_def KERNEL_STACK_BASE_def KERNEL_STACK_STRIDE_def push_bit_eq_mult algebra_simps)
  then have "bit (push_bit 21 (0x7FFFD800001 + ucast pid) :: u64) 6 = bit (64 :: u64) 6" by (simp only:)
  then show False by (simp add: bit_push_bit_iff)
qed

text \<open>What preparing a process makes of its slot.\<close>

definition same_owner :: "process \<Rightarrow> process \<Rightarrow> bool" where
  "same_owner p q \<longleftrightarrow> p_pid q = p_pid p \<and> p_parent_pid q = p_parent_pid p \<and> p_waited q = p_waited p \<and>
     p_std_fds q = p_std_fds p \<and> p_cwd q = p_cwd p \<and> p_cwd_len q = p_cwd_len p \<and> p_env q = p_env p \<and>
     p_name q = p_name p \<and> p_name_len q = p_name_len p \<and> (process_ok p \<longrightarrow> process_ok q)"

lemma prepare_process_slot:
  assumes e: "prepare_process beyond trampoline i con image_bytes k = (ok, con', k')" and i: "i < length (process_table k)"
  obtains p where "process_table k' = (process_table k)[i := p]" "current_process_index k' = current_process_index k"
    "pending_stack_reclaims k' = pending_stack_reclaims k"
    "same_owner (proc k i) p" "p_state p = (if ok then Ready else Failed)" "ok \<Longrightarrow> p_context_rsp p \<noteq> 0"
    "app_fds k' = app_fds k" "app_pipes k' = app_pipes k"
proof -
  consider (failed) k1 where "\<not> ok" "paging.more k1 = paging.more k" "k' = process_set_state i Failed (- 1) k1"
    | (ready) pml4 entry rsp k1 where "ok" "paging.more k1 = paging.more k" "rsp \<noteq> 0"
        "k' = mark_ready i pml4 entry rsp (app_set_heap_window i (process_pid k i) k1)"
  proof -
    let ?pid = "process_pid k i"
    obtain r1 k1 where a1: "current_pml4_or_kernel k = (r1, k1)" by force
    obtain r2 k2 where a2: "create_process_address_space ?pid k1 = (r2, k2)" by force
    obtain r3 c3 k3 where a3: "load_program_elf_isolated beyond con image_bytes (the r2) (k2\<lparr>cr3 := the r2\<rparr>) = (r3, c3, k3)"
      by (metis prod_cases3)
    obtain r4 k4 where a4: "create_process_stack ?pid (k3\<lparr>cr3 := the r1\<rparr>) = (r4, k4)" by force
    obtain rsp k5 where a5: "build_initial_stack_frame (the r4) trampoline k4 = (rsp, k5)" by force
    have m1: "paging.more k1 = paging.more k" by (rule current_pml4_moreD [OF a1])
    have m2: "paging.more k2 = paging.more k" using create_space_moreD [OF a2] m1 by simp
    have m3: "paging.more k3 = paging.more k" using load_elf_moreD [OF a3] m2 by simp
    have m4: "paging.more k4 = paging.more k" using create_stack_moreD [OF a4] m3 by simp
    have m5: "paging.more k5 = paging.more k" "rsp = the r4 - 64" using stack_frame_moreD [OF a5] m4 by simp_all
    note run = e [unfolded prepare_process_def Let_def a1 prod.case]
    show thesis
    proof (cases "r1 = None \<or> r2 = None \<or> r3 = None \<or> r4 = None")
      case True
      then have "\<not> ok \<and> (\<exists>u. k' = process_set_state i Failed (- 1) u \<and>
          u \<in> {k1, k2, destroy_process_address_space (the r2) (k3\<lparr>cr3 := the r1\<rparr>), destroy_process_address_space (the r2) k4})"
        using run a2 a3 a4 by (cases r1; cases r2; cases r3; cases r4) auto
      then obtain u where u: "\<not> ok" "k' = process_set_state i Failed (- 1) u"
          "u \<in> {k1, k2, destroy_process_address_space (the r2) (k3\<lparr>cr3 := the r1\<rparr>), destroy_process_address_space (the r2) k4}" by blast
      have "paging.more u = paging.more k" using u(3) m1 m2 m3 m4 by auto
      with failed u(1,2) show ?thesis by blast
    next
      case False
      then obtain x1 x2 x3 x4 where r: "r1 = Some x1" "r2 = Some x2" "r3 = Some x3" "r4 = Some x4" by auto
      have "ok" "k' = mark_ready i x2 x3 rsp (app_set_heap_window i ?pid k5)"
        using run a2 a3 a4 a5 by (simp_all add: r)
      moreover have "rsp \<noteq> 0" using create_stack_top a4 m5(2) by (simp add: r)
      ultimately show ?thesis using ready m5(1) by blast
    qed
  qed
  then show ?thesis
  proof cases
    case failed
    note m = more_fields [OF failed(2)]
    show ?thesis
      by (rule that [of "(proc k i)\<lparr>p_state := Failed, p_exit_code := - 1\<rparr>"])
        (use failed m in \<open>simp_all add: process_set_state_def set_proc_def same_owner_def process_ok_def\<close>)
  next
    case ready
    note m = more_fields [OF ready(2)]
    define q where "q = proc (app_set_heap_window i (process_pid k i) k1) i"
    have q: "process_table (app_set_heap_window i (process_pid k i) k1) = (process_table k)[i := q]"
      "current_process_index (app_set_heap_window i (process_pid k i) k1) = current_process_index k"
      "pending_stack_reclaims (app_set_heap_window i (process_pid k i) k1) = pending_stack_reclaims k" "same_owner (proc k i) q"
      "app_fds (app_set_heap_window i (process_pid k i) k1) = app_fds k" "app_pipes (app_set_heap_window i (process_pid k i) k1) = app_pipes k"
      using m i by (auto simp: q_def app_set_heap_window_def Let_def same_owner_def process_ok_def set_proc_def)
    show ?thesis
      by (rule that [of "q\<lparr>p_pml4_phys := pml4, p_entry_point := entry, p_context_rsp := rsp, p_state := Ready, p_exit_code := 0\<rparr>"])
        (use ready q i in \<open>simp_all add: mark_ready_def process_set_state_def set_proc_def same_owner_def process_ok_def\<close>)
  qed
qed

section \<open>Properties\<close>

lemma sched_inv_cong:
  "process_table k' = process_table k \<Longrightarrow> current_process_index k' = current_process_index k \<Longrightarrow>
    pending_stack_reclaims k' = pending_stack_reclaims k \<Longrightarrow> sched_inv k' = sched_inv k"
  by (simp add: sched_inv_def table_ok_def)

lemma sched_inv_error:
  assumes "sched_inv k"
  shows "sched_inv (set_cur ((cur_proc k)\<lparr>p_last_error := e\<rparr>) k)"
proof (rule sched_inv_same_role [OF assms])
  note d = sched_invD [OF assms]
  have "process_ok (cur_proc k)" using d(6) by (intro table_ok_proc [OF d(1)]) simp
  then show "table_ok (set_cur ((cur_proc k)\<lparr>p_last_error := e\<rparr>) k)" by (intro table_ok_set_proc [OF d(1)]) (simp add: process_ok_def)
qed (use sched_invD(5,6) [OF assms] in \<open>auto simp: proc_set_proc\<close>)

text \<open>How a spawn ends: an error reported to the caller, with at most one slot turned into a failed process, or a new ready child.\<close>

definition spawn_failed :: "kernel \<Rightarrow> kernel \<Rightarrow> bool" where
  "spawn_failed k k' \<longleftrightarrow> (\<exists>i p. (reusable (proc k i) \<and> i < 16 \<and> p_state p = Failed \<or> p = proc k i) \<and>
     (\<forall>j. j \<noteq> current_process_index k \<longrightarrow> proc k' j = (if j = i then p else proc k j)))"

definition spawned :: "kernel \<Rightarrow> kernel \<Rightarrow> bool" where
  "spawned k k' \<longleftrightarrow> (\<exists>i<16. reusable (proc k i) \<and> i \<noteq> current_process_index k \<and> p_state (proc k' i) = Ready \<and>
     p_context_rsp (proc k' i) \<noteq> 0 \<and> p_pid (proc k' i) = next_pid k \<and> p_parent_pid (proc k' i) = current_pid k \<and>
     p_std_fds (proc k' i) = p_std_fds (cur_proc k) \<and> p_cwd (proc k' i) = p_cwd (cur_proc k) \<and>
     p_cwd_len (proc k' i) = p_cwd_len (cur_proc k) \<and> p_env (proc k' i) = p_env (cur_proc k) \<and>
     (\<forall>j. j \<noteq> i \<longrightarrow> j \<noteq> current_process_index k \<longrightarrow> proc k' j = proc k j))"

lemma spawn_slot:
  assumes inv: "sched_inv k" and act: "p_state (cur_proc k) = Running" and c: "current_process_index k < 16"
    and i: "i < 16" "reusable (proc k i)"
    and t: "process_table k' = (process_table k)[i := p]" "current_process_index k' = current_process_index k"
      "pending_stack_reclaims k' = pending_stack_reclaims k"
    and p: "process_ok p" "p_state p \<noteq> Running" "runnable p \<Longrightarrow> p_context_rsp p \<noteq> 0"
  shows "sched_inv k'" "i \<noteq> current_process_index k"
proof -
  show ne: "i \<noteq> current_process_index k" using i(2) act by (auto simp: reusable_def zombie_def)
  have "sched_inv (set_proc i p k)" by (rule sched_inv_update [OF inv i(1) p(1,2)]) (use ne p(3) in auto)
  then show "sched_inv k'" by (subst sched_inv_cong [of _ "set_proc i p k"]) (use t in \<open>simp_all add: set_proc_def\<close>)
qed

lemma sint_small:
  fixes w :: u32
  assumes "unat w < 2 ^ 31"
  shows "sint w = uint w"
proof -
  have "int (unat w) < int (2 ^ 31)" using assms by (simp only: of_nat_less_iff)
  then have "uint w < 2 ^ 31" by simp
  moreover have "0 \<le> uint w" by simp
  ultimately have "signed_take_bit 31 (uint w) = uint w" by (intro signed_take_bit_int_eq_self) linarith+
  then show ?thesis by (simp add: sint_uint)
qed

text \<open>
  C25. Spawning a program.  When \<^verbatim>\<open>spawn_prepared\<close> returns, the scheduler's invariant holds again.  Either the
  call failed and at most one free slot has become a failed process, or it returns the number of a new child that is
  ready to run on a stack of its own, with the caller's redirections, directory and environment; no other
  process has changed besides the caller's error number.
\<close>

theorem spawn_prepared_correct:
  assumes "sched_inv k" "active k" "unat (next_pid k) < 2 ^ 31" "spawn_prepared beyond trampoline name args argv k = Ret (r, k')"
  shows "sched_inv k' \<and> current_process_index k' = current_process_index k \<and>
    (if r = - 1 then spawn_failed k k' else r = uint (next_pid k) \<and> spawned k k')"
proof -
  let ?c = "current_process_index k"
  let ?g = "\<lambda>r k'. sched_inv k' \<and> current_process_index k' = ?c \<and>
    (if r = - 1 then spawn_failed k k' else r = uint (next_pid k) \<and> spawned k k')"
  note d = sched_invD [OF assms(1)]
  have fail: "?g r k'" if "set_app_error e u = (r, k')" "sched_inv u" "current_process_index u = ?c"
    "reusable (proc k i) \<and> i < 16 \<and> p_state p = Failed \<or> p = proc k i"
    "\<And>j. j \<noteq> ?c \<Longrightarrow> proc u j = (if j = i then p else proc k j)" for e u i p
  proof -
    have k': "r = - 1" "k' = set_cur ((cur_proc u)\<lparr>p_last_error := e\<rparr>) u" using that(1) by (auto simp: set_app_error_def)
    have "spawn_failed k k'" unfolding spawn_failed_def
      using that(3-5) by (intro exI [of _ i] exI [of _ p]) (auto simp: k'(2))
    with sched_inv_error [OF that(2), of e] that(3) show ?thesis by (simp add: k')
  qed
  have same: "?g r k'" if "set_app_error e u = (r, k')" "sched_inv u" "current_process_index u = ?c" "process_table u = process_table k" for e u
    by (rule fail [OF that(1-3), where p = "proc k 0" and i = 0]) (use that(4) in auto)
  show ?thesis
  proof (cases "?c < 16")
    case False
    with assms(4) same [of ERR_INVAL k] assms(1) show ?thesis by (simp add: spawn_prepared_def Let_def)
  next
    case c: True
    with assms(2) have act: "p_state (cur_proc k) = Running" by (simp add: active_def)
    from assms(4) c obtain path where path: "program_path name = Ret path"
      by (cases "program_path name") (simp_all add: spawn_prepared_def Let_def)
    obtain av where av: "(case argv of Some argv \<Rightarrow> process_spawn_with_argv name args argv (current_pid k) k | None \<Rightarrow> process_spawn name args k)
        = process_spawn_with_argv name args av (current_pid k) k" by (cases argv) (auto simp: process_spawn_def)
    note run = assms(4) [unfolded spawn_prepared_def Let_def path bind_outcome.simps av]
    show ?thesis
    proof (cases "bootfs_find_data (app_bootfs k) path")
      case None
      with run c same [of ERR_NOENT k] assms(1) show ?thesis by simp
    next
      case (Some child_image)
      obtain s0 k1 where sp: "process_spawn_with_argv name args av (current_pid k) k = (s0, k1)" by force
      from sp show ?thesis
      proof (cases rule: spawn_cases)
        case full
        have "sched_inv k1" using assms(1) by (subst sched_inv_cong [of _ k]) (simp_all add: full(2))
        with run c Some sp full(1,2) same [of ERR_NOSPC k1] show ?thesis by simp
      next
        case (claimed i)
        define q where "q = (new_process (next_pid k) (current_pid k) name args av)\<lparr>p_std_fds := p_std_fds (cur_proc k),
          p_cwd := p_cwd (cur_proc k), p_cwd_len := p_cwd_len (cur_proc k), p_env := p_env (cur_proc k)\<rparr>"
        let ?k2 = "inherit ?c i k1"
        have ne: "i \<noteq> ?c" using claimed(3) act by (auto simp: reusable_def zombie_def)
        have k2: "process_table ?k2 = (process_table k)[i := q]" "current_process_index ?k2 = ?c"
          "pending_stack_reclaims ?k2 = pending_stack_reclaims k" "app_console ?k2 = app_console k"
          using ne d(5) claimed(2) by (simp_all add: inherit_def claimed(4) q_def set_proc_def)
        have "process_ok (cur_proc k)" using d(6) by (intro table_ok_proc [OF d(1)]) simp
        then have q: "process_ok q" "p_pid q = next_pid k" "p_parent_pid q = current_pid k" "p_state q = Loading"
          using new_process_ok [of "next_pid k" "current_pid k" name args av] by (simp_all add: q_def process_ok_def)
        have i: "i < length (process_table k)" "i < length (process_table ?k2)" using claimed(2) d(5) k2(1) by simp_all
        have slot: "sched_inv u" "j \<noteq> ?c \<Longrightarrow> proc u j = (if j = i then p else proc k j)"
          if "process_table u = (process_table k)[i := p]" "current_process_index u = ?c" "pending_stack_reclaims u = pending_stack_reclaims k"
            "process_ok p" "p_state p \<noteq> Running" "runnable p \<Longrightarrow> p_context_rsp p \<noteq> 0" for u p j
          using spawn_slot(1) [OF assms(1) act c claimed(2,3) that] that(1) i(1) by simp_all
        show ?thesis
        proof (cases "app_console ?k2")
          case None
          let ?u = "process_set_state i Failed (- 1) ?k2" and ?p = "q\<lparr>p_state := Failed, p_exit_code := - 1\<rparr>"
          have u: "process_table ?u = (process_table k)[i := ?p]" "current_process_index ?u = ?c" "pending_stack_reclaims ?u = pending_stack_reclaims k"
            using i k2 by (simp_all add: process_set_state_def set_proc_def)
          have "process_ok ?p" using q(1) by (simp add: process_ok_def)
          note sl = slot [OF u this]
          have "set_app_error ERR_INVAL ?u = (r, k')" using run c Some sp claimed(1) None by simp
          from fail [OF this, where p = ?p and i = i] sl u(2) claimed(2,3) show ?thesis by (simp add: runnable_def)
        next
          case con: (Some con)
          obtain ok con' k3 where pr: "prepare_process beyond trampoline i con child_image ?k2 = (ok, con', k3)" by (metis prod_cases3)
          from pr i(2) obtain p where p: "process_table k3 = (process_table ?k2)[i := p]" "current_process_index k3 = current_process_index ?k2"
            "pending_stack_reclaims k3 = pending_stack_reclaims ?k2" "same_owner (proc ?k2 i) p"
            "p_state p = (if ok then Ready else Failed)" "ok \<Longrightarrow> p_context_rsp p \<noteq> 0"
            by (rule prepare_process_slot) blast
          let ?u = "k3\<lparr>app_console := Some con'\<rparr>"
          have own: "same_owner q p" using p(4) k2(1) i(1) by simp
          have u: "process_table ?u = (process_table k)[i := p]" "current_process_index ?u = ?c" "pending_stack_reclaims ?u = pending_stack_reclaims k"
            using p k2 by simp_all
          have "process_ok p" using own q(1) by (simp add: same_owner_def)
          note sl = slot [OF u this]
          show ?thesis
          proof (cases ok)
            case False
            have "set_app_error ERR_IO ?u = (r, k')" using run c Some sp claimed(1) con pr False by simp
            from fail [OF this, where p = p and i = i] sl u(2) claimed(2,3) p(5) False show ?thesis by (simp add: runnable_def)
          next
            case True
            have inv: "sched_inv ?u" using sl(1) p(5,6) True by simp
            have k': "k' = set_cur ((cur_proc ?u)\<lparr>p_last_error := ERR_OK\<rparr>) ?u" "r = sint (process_pid k' i)"
              using run c Some sp claimed(1) con pr True by (auto simp: clear_app_error_def)
            have pj: "proc k' j = (if j = i then p else proc k j)" if "j \<noteq> ?c" for j
              using that sl(2) [OF _ _ that] p(5,6) True u(2) by (simp add: k'(1))
            have "r = uint (next_pid k)"
              using pj [OF ne] own q(2) assms(3) by (simp add: k'(2) process_pid_def same_owner_def sint_small)
            moreover have "spawned k k'" unfolding spawned_def
              using claimed(2,3) ne pj own q(2,3) p(5,6) True by (intro exI [of _ i]) (simp add: same_owner_def q_def)
            moreover have "0 \<le> uint (next_pid k)" by simp
            then have "uint (next_pid k) \<noteq> - 1" by linarith
            ultimately show ?thesis using sched_inv_error [OF inv, of ERR_OK] u(2) by (simp add: k'(1))
          qed
        qed
      qed
    qed
  qed
qed

text \<open>A boot image that holds the one-byte program of the loader as \<^verbatim>\<open>programs/a.elf\<close>.\<close>

definition demo_boot :: bytes where
  "demo_boot = lit ''RYFS1'' @ [0, 0, 0] @ [1, 0, 42, 0] @ [1, 14] @ to_le_bytes32 54 @ to_le_bytes32 121 @
     lit ''programs/a.elf'' @ replicate 18 0 @ demo_elf"

definition demo_spawner :: kernel where
  "demo_spawner = demo_family\<lparr>app_bootfs := Some demo_boot, app_console := Some (without_framebuffer (\<lambda>_. 0) (\<lambda>_. 0))\<rparr>"

lemma demo_boot_found: "bootfs_find_data (Some demo_boot) (lit ''programs/a.elf'') = Some demo_elf"
  by code_simp

lemma demo_program_path: "program_path (lit ''a'') = Ret (lit ''programs/a.elf'')"
  by code_simp

lemma demo_spawner_ok: "sched_inv demo_spawner" "active demo_spawner"
proof -
  show "sched_inv demo_spawner" using demo_family_inv by (subst sched_inv_cong [of _ demo_family]) (simp_all add: demo_spawner_def)
  show "active demo_spawner" by (simp add: active_def demo_spawner_def demo_family_facts)
qed

theorem spawn_prepared_correct_witness:
  "\<exists>r k'. spawn_prepared (\<lambda>_. 0) 0x100000 (lit ''a'') [] None demo_spawner = Ret (r, k') \<and> sched_inv k' \<and>
     (r = - 1 \<and> spawn_failed demo_spawner k' \<or> r = 3 \<and> spawned demo_spawner k')"
proof -
  have "\<exists>x. spawn_prepared (\<lambda>_. 0) 0x100000 (lit ''a'') [] None demo_spawner = Ret x"
    unfolding spawn_prepared_def demo_program_path Let_def bind_outcome.simps by simp
  then obtain r k' where e: "spawn_prepared (\<lambda>_. 0) 0x100000 (lit ''a'') [] None demo_spawner = Ret (r, k')" by force
  have "next_pid demo_spawner = 3" by (simp add: demo_spawner_def demo_family_facts)
  with spawn_prepared_correct [OF demo_spawner_ok _ e] have "sched_inv k' \<and>
     (if r = - 1 then spawn_failed demo_spawner k' else r = 3 \<and> spawned demo_spawner k')" by (auto split: if_splits)
  with e show ?thesis by (auto split: if_splits)
qed

end
