(* ===== verification/Pfs_Commands.thy ===== *)
theory Pfs_Commands
  imports Ata_Disk Console
begin

text \<open>
  The shell's volume commands, \<^verbatim>\<open>impl PersistentFs\<close> in
  \<^verbatim>\<open>kernel/src/main.rs\<close>: format, list, read, write, make directory, delete and the
  free-space summary, each with the messages it prints.  They compose the directory
  operations, the file operations and the ATA driver; the directory tree is kept by
  every one of them on a device without errors.
\<close>

type_synonym 'd io = "console \<times> 'd"

definition pfs_format :: "'d port_bus \<Rightarrow> console \<Rightarrow> 'd \<Rightarrow> 'd io" where
  "pfs_format bus con d =
     (case ata_present bus d of
        (False, d) \<Rightarrow> (write_line ''pfs: ATA data disk not found'' con, d)
      | (True, d) \<Rightarrow>
          (case write_header (ata_disk bus) pfs_format_header d of
             (True, d) \<Rightarrow> (write_line ''pfs: formatted'' con, d)
           | (False, d) \<Rightarrow> (write_line ''pfs: format failed'' con, d)))"

definition read_header :: "'d port_bus \<Rightarrow> console \<Rightarrow> 'd \<Rightarrow> bytes option \<times> 'd io" where
  "read_header bus con d =
     (case ata_present bus d of
        (False, d) \<Rightarrow> (None, write_line ''pfs: ATA data disk not found'' con, d)
      | (True, d) \<Rightarrow>
          (case read_header_silent (ata_disk bus) d of
             (None, d) \<Rightarrow> (None, write_line ''pfs: unformatted; run fsformat'' con, d)
           | (Some header, d) \<Rightarrow> (Some header, con, d)))"

definition pfs_ls_entry :: "bytes \<Rightarrow> nat \<Rightarrow> bool \<times> console \<Rightarrow> bool \<times> console" where
  "pfs_ls_entry header index = (\<lambda>(found, con).
     if pfs_entry_used header index then
       let con = (if pfs_entry_is_dir header index then console_write ''[pdir]  '' con else console_write ''[pfile] '' con);
           con = write_bytes (pfs_entry_name header index) con;
           con = console_write ''  '' con;
           con = write_usize (pfs_entry_size header index) con
       in (True, write_line '' B'' con)
     else (found, con))"

definition pfs_ls :: "'d port_bus \<Rightarrow> console \<Rightarrow> 'd \<Rightarrow> 'd io" where
  "pfs_ls bus con d =
     (case read_header bus con d of
        (None, con, d) \<Rightarrow> (con, d)
      | (Some header, con, d) \<Rightarrow>
          let (found, con) = fold (pfs_ls_entry header) [0..<PFS_ENTRY_COUNT] (False, con) in
          if \<not> found then (write_line ''pfs: empty'' con, d) else (con, d))"

text \<open>The loop of \<^verbatim>\<open>read\<close> over the file's sectors; the flag tells whether it ran to its end.\<close>

fun pread_loop :: "'d port_bus \<Rightarrow> bytes \<Rightarrow> nat \<Rightarrow> nat list \<Rightarrow> nat \<Rightarrow> console \<Rightarrow> 'd \<Rightarrow> bool \<times> 'd io" where
  "pread_loop bus header index [] remaining con d = (True, con, d)"
| "pread_loop bus header index (logical_sector # rest) remaining con d =
     (if remaining = 0 then (True, con, d)
      else
        case pfs_entry_lba_for_sector header index (of_nat logical_sector) of
          None \<Rightarrow> (False, write_line ''pread: corrupt extents'' con, d)
        | Some lba \<Rightarrow>
            (case ata_read_sector bus ATA_DATA_DRIVE lba d of
               (None, d) \<Rightarrow> (False, write_line ''pread: disk read failed'' con, d)
             | (Some sector, d) \<Rightarrow>
                 let count = min remaining 512 in
                 pread_loop bus header index rest (remaining - count) (write_bytes (take count sector) con) d))"

definition pfs_read :: "'d port_bus \<Rightarrow> bytes \<Rightarrow> console \<Rightarrow> 'd \<Rightarrow> 'd io" where
  "pfs_read bus name con d =
     (case read_header bus con d of
        (None, con, d) \<Rightarrow> (con, d)
      | (Some header, con, d) \<Rightarrow>
          (case pfs_find_entry header name of
             None \<Rightarrow> (write_line ''pread: not found'' con, d)
           | Some index \<Rightarrow>
               if pfs_entry_is_dir header index then (write_line ''pread: is a directory'' con, d)
               else
                 let fsize = pfs_entry_size header index in
                 case pread_loop bus header index [0..<unat (sectors_for_len fsize)] fsize con d of
                   (True, con, d) \<Rightarrow> (new_line con, d)
                 | (False, con, d) \<Rightarrow> (con, d)))"

definition pfs_write :: "'d port_bus \<Rightarrow> u64 \<Rightarrow> bytes \<Rightarrow> bytes \<Rightarrow> console \<Rightarrow> 'd \<Rightarrow> 'd io" where
  "pfs_write bus now name data con d =
     (if \<not> valid_pfs_path name then (write_line ''pwrite: invalid name'' con, d)
      else if length data > PFS_FILE_MAX then (write_line ''pwrite: file too large'' con, d)
      else
        case read_header bus con d of
          (None, con, d) \<Rightarrow> (con, d)
        | (Some header, con, d) \<Rightarrow>
            if \<not> pfs_parent_exists header name then (write_line ''pwrite: parent directory missing'' con, d)
            else
              case (case pfs_find_entry header name of
                      Some index \<Rightarrow>
                        if pfs_entry_is_dir header index then Inl ''pwrite: is a directory'' else Inr index
                    | None \<Rightarrow>
                        (case pfs_free_entry header of
                           Some index \<Rightarrow> Inr index
                         | None \<Rightarrow> Inl ''pwrite: filesystem full'')) of
                Inl message \<Rightarrow> (write_line message con, d)
              | Inr index \<Rightarrow>
                  (case (if \<not> pfs_entry_used header index then
                           write_header (ata_disk bus)
                             (pfs_set_entry now header index name 0 PFS_KIND_FILE [] now PFS_MODE_DEFAULT_FILE) d
                         else (True, d)) of
                     (False, d) \<Rightarrow> (write_line ''pwrite: header write failed'' con, d)
                   | (True, d) \<Rightarrow>
                       (case pfs_write_at (ata_disk bus) now index 0 data d of
                          (False, d) \<Rightarrow> (write_line ''pwrite: disk full'' con, d)
                        | (True, d) \<Rightarrow>
                            (case pfs_update_size (ata_disk bus) now index (length data) d of
                               (True, d) \<Rightarrow> (write_line ''ok'' con, d)
                             | (False, d) \<Rightarrow> (write_line ''pwrite: header write failed'' con, d)))))"

definition pfs_mkdir :: "'d port_bus \<Rightarrow> u64 \<Rightarrow> bytes \<Rightarrow> console \<Rightarrow> 'd \<Rightarrow> 'd io" where
  "pfs_mkdir bus now name con d =
     (case read_header bus con d of
        (None, con, d) \<Rightarrow> (con, d)
      | (Some header, con, d) \<Rightarrow>
          if \<not> valid_pfs_path name then (write_line ''pmkdir: invalid directory'' con, d)
          else if \<not> pfs_parent_exists header name then (write_line ''pmkdir: parent directory missing'' con, d)
          else if pfs_find_entry header name \<noteq> None then (write_line ''pmkdir: exists'' con, d)
          else
            case pfs_free_entry header of
              None \<Rightarrow> (write_line ''pmkdir: filesystem full'' con, d)
            | Some index \<Rightarrow>
                (case write_header (ata_disk bus)
                     (pfs_set_entry now header index name 0 PFS_KIND_DIR [] now PFS_MODE_DEFAULT_DIR) d of
                   (True, d) \<Rightarrow> (write_line ''ok'' con, d)
                 | (False, d) \<Rightarrow> (write_line ''pmkdir: header write failed'' con, d)))"

definition pfs_delete :: "'d port_bus \<Rightarrow> bytes \<Rightarrow> console \<Rightarrow> 'd \<Rightarrow> 'd io" where
  "pfs_delete bus name con d =
     (case read_header bus con d of
        (None, con, d) \<Rightarrow> (con, d)
      | (Some header, con, d) \<Rightarrow>
          (case pfs_unlink_header header name of
             Inr header \<Rightarrow>
               (case write_header (ata_disk bus) header d of
                  (True, d) \<Rightarrow> (write_line ''ok'' con, d)
                | (False, d) \<Rightarrow> (write_line ''pdelete: header write failed'' con, d))
           | Inl e \<Rightarrow>
               if e = - 2 then (write_line ''pdelete: directory not empty'' con, d)
               else (write_line ''pdelete: not found'' con, d)))"

definition pfs_usage :: "bytes \<Rightarrow> nat \<times> nat" where
  "pfs_usage header =
     fold (\<lambda>index (files, total).
         if pfs_entry_used header index \<and> \<not> pfs_entry_is_dir header index
         then (files + 1, total + pfs_entry_size header index) else (files, total))
       [0..<PFS_ENTRY_COUNT] (0, 0)"

definition pfs_df :: "'d port_bus \<Rightarrow> console \<Rightarrow> 'd \<Rightarrow> 'd io" where
  "pfs_df bus con d =
     (case ata_present bus d of
        (False, d) \<Rightarrow> (write_line ''pfs          no ATA data disk'' con, d)
      | (True, d) \<Rightarrow>
          (case read_header_silent (ata_disk bus) d of
             (None, d) \<Rightarrow> (write_line ''pfs          unformatted'' con, d)
           | (Some header, d) \<Rightarrow>
               let (files, total) = pfs_usage header;
                   con = console_write ''pfs          '' con;
                   con = write_usize files con;
                   con = console_write ''/'' con;
                   con = write_usize PFS_ENTRY_COUNT con;
                   con = console_write ''          '' con;
                   con = write_usize total con;
                   con = console_write ''/'' con;
                   con = write_usize (unat (PFS_DISK_SECTORS - PFS_DATA_START) * 512) con
               in (new_line con, d)))"

section \<open>The tree on disk\<close>

definition tree_on :: "ata_dev \<Rightarrow> bool" where
  "tree_on d \<longleftrightarrow> dev_steady d \<and> pfs_tree (disk_header (dev_view d)) \<and> alloc_wf (disk_header (dev_view d)) \<and>
     magic_ok (disk_header (dev_view d))"

lemma ata_present_dev:
  "\<exists>b. ata_present dev_bus d = (True, d\<lparr>r_drive := 0xF0, busy := b\<rparr>)"
proof -
  have s: "ata_select_drive dev_bus ATA_DATA_DRIVE 0 d = d\<lparr>r_drive := 0xF0\<rparr>"
    by (simp add: select_drive_dev ATA_DATA_DRIVE_def)
  have e: "ata_present dev_bus d = (let (status, d) = dev_inb 0x1F7 (d\<lparr>r_drive := 0xF0\<rparr>) in (status \<noteq> 0x00 \<and> status \<noteq> 0xFF, d))"
    unfolding ata_present_def s Let_def by (simp add: dev_bus_def ATA_PRIMARY_IO_def)
  show ?thesis
  proof (cases "busy d > 0")
    case True
    then show ?thesis unfolding e by (auto simp: dev_inb_def)
  next
    case False
    then have "ata_present dev_bus d = (True, d\<lparr>r_drive := 0xF0, busy := busy d\<rparr>)"
      unfolding e by (cases "ph d") (auto simp: dev_inb_def)
    then show ?thesis by blast
  qed
qed

lemma dev_view_regs [simp]: "dev_view (d\<lparr>r_drive := a, busy := b\<rparr>) = dev_view d"
  by (simp add: dev_view_def fun_eq_iff)

lemma read_header_dev:
  assumes "dev_steady d" "magic_ok (disk_header (dev_view d))"
  obtains d' where "read_header dev_bus con d = (Some (disk_header (dev_view d)), con, d')" "dev_steady d'"
    "dev_view d' = dev_view d"
proof -
  obtain b where p: "ata_present dev_bus d = (True, d\<lparr>r_drive := 0xF0, busy := b\<rparr>)" using ata_present_dev by blast
  let ?d = "d\<lparr>r_drive := 0xF0, busy := b\<rparr>"
  have "dev_steady ?d" using assms(1) by (simp add: dev_steady_def dev_sane_def)
  then obtain d' where "read_header_silent (ata_disk dev_bus) ?d = (Some (disk_header (dev_view ?d)), d')" "dev_steady d'"
      "dev_view d' = dev_view ?d"
    using ata_steady.read_header_silent_works assms(2) unfolding magic_ok_def by (metis dev_view_regs)
  with p that show thesis by (simp add: read_header_def)
qed

lemma write_header_dev:
  assumes "dev_steady d" "header_wf h"
  obtains d' where "write_header (ata_disk dev_bus) h d = (True, d')" "dev_steady d'" "disk_header (dev_view d') = h"
    "\<And>k. 77 \<le> k \<Longrightarrow> dev_view d' k = dev_view d k"
proof -
  have len: "length h = 39424" using assms(2) by (simp add: header_wf_def header_ok_def)
  obtain ok d' where w: "write_header (ata_disk dev_bus) h d = (ok, d')" by fastforce
  then have "ok" using ata_steady.write_header_loop_works [OF assms(1), of 0 77 h] len by (simp add: write_header_def)
  with w ata_steady.write_header_law [OF assms(1) len w] that show thesis by simp
qed

lemma alloc_wf_no_extents:
  assumes "alloc_wf h" "i < 256" "header_wf h" "entry_args_ok name (now, 0, kind, [], created, mode)"
  shows "alloc_wf (put_entry i name (now, 0, kind, [], created, mode) h)"
  using put_entry_at [OF assms(3,2,4)]
  by (intro alloc_wf_replace [OF assms(1,2)]) (auto simp: entry_extents_def ext_sorted_def)

lemma alloc_wf_clear:
  assumes "alloc_wf h" "i < 256" "header_wf h"
  shows "alloc_wf (pfs_clear_entry i h)"
  using pfs_clear_entry_wf [OF assms(3,2)]
  by (intro alloc_wf_replace [OF assms(1,2)]) (auto simp: is_file_def accessors_of_entry)

lemma magic_far:
  assumes "header_ok h" "16 \<le> a" "a + length ys \<le> 39424" "magic_ok h"
  shows "magic_ok (copy_at h a ys)"
  using assms by (simp add: magic_ok_def header_ok_def slice_copy_at_out)

lemma magic_put:
  assumes "header_wf h" "i < 256" "entry_args_ok name v" "magic_ok h"
  shows "magic_ok (put_entry i name v h)" "magic_ok (pfs_clear_entry i h)"
proof -
  have o: "16 \<le> pfs_entry_offset i" "pfs_entry_offset i + 152 \<le> 39424"
    using entry_offset_bound [OF assms(2)] by (simp_all add: pfs_entry_offset_def)
  show "magic_ok (pfs_clear_entry i h)"
    unfolding pfs_clear_entry_def using o header_wfD(1) [OF assms(1)] assms(4) by (intro magic_far) simp_all
  show "magic_ok (put_entry i name v h)"
    using o header_wfD(1) [OF assms(1)] assms(2-4)
    by (cases v) (auto simp: put_entry_def entry_args_ok_def pfs_set_entry_layout intro!: magic_far)
qed

section \<open>Properties\<close>

lemma tree_onD:
  assumes "tree_on d"
  shows "dev_steady d" "pfs_tree (disk_header (dev_view d))" "alloc_wf (disk_header (dev_view d))"
    "magic_ok (disk_header (dev_view d))" "header_wf (disk_header (dev_view d))"
  using assms pfs_treeD(1) by (auto simp: tree_on_def)

lemma tree_on_view: "tree_on d \<Longrightarrow> dev_steady d' \<Longrightarrow> dev_view d' = dev_view d \<Longrightarrow> tree_on d'"
  by (simp add: tree_on_def)

text \<open>Creating an entry without sectors, as both the directory and the file commands do.\<close>

lemma create_entry:
  fixes now :: u64 and mode :: u8
  assumes "pfs_tree h" "alloc_wf h" "magic_ok h" "valid_pfs_path name" "pfs_parent_exists h name"
    "pfs_find_entry h name = None" "pfs_free_entry h = Some i" "kind \<noteq> 0"
  defines "h' \<equiv> pfs_set_entry now h i name 0 kind [] now mode"
  shows "pfs_tree h' \<and> alloc_wf h' \<and> magic_ok h' \<and> pfs_find_entry h' = (pfs_find_entry h)(name \<mapsto> i) \<and>
    pfs_entry_at h' i = \<lparr>e_kind = kind, e_name = name, e_size = 0, e_extents = [], e_created = now, e_modified = now, e_mode = mode\<rparr>"
proof -
  let ?v = "(now, 0, kind, [], now, mode)"
  have h': "h' = put_entry i name ?v h" by (simp add: h'_def put_entry_def)
  note f = free_entry_SomeD [OF assms(7)]
  note none = find_entry_NoneD [OF assms(6)]
  have ok: "entry_args_ok name ?v" using assms(4,8) by (auto simp: entry_args_ok_def valid_pfs_path_def split: if_splits)
  note wf = pfs_treeD(1,2) [OF assms(1)]
  have "pfs_tree h'" unfolding h' using f none assms(4,5) by (intro pfs_tree_put [OF assms(1) f(1) ok]) auto
  moreover have "alloc_wf h'" unfolding h' by (rule alloc_wf_no_extents [OF assms(2) f(1) wf(1) ok])
  moreover have "magic_ok h'" unfolding h' by (rule magic_put(1) [OF wf(1) f(1) ok assms(3)])
  moreover have "pfs_find_entry h' = (pfs_find_entry h)(name \<mapsto> i)"
    using pfs.lookup_put [OF wf(1) f(1) ok wf(2)] none f(2) by (simp add: h' pfs_find_entry_lookup)
  ultimately show ?thesis using put_entry_at(1) [OF wf(1) f(1) ok] by (simp add: h')
qed

lemma demo_tree_on: "tree_on demo_dev"
proof -
  have none: "\<not> pfs_entry_used pfs_format_header j" if "j < 256" for j using that format_header_facts(2) by blast
  have "valid_pfs_path (lit ''f'')" "parent_of (lit ''f'') = None" by code_simp+
  then have "pfs_tree demo_file"
    unfolding demo_file_def using none
    by (intro pfs_tree_put [OF pfs_tree_format _ demo_file_args]) (auto simp: parent_exists_iff)
  then show ?thesis using demo_dev_facts demo_file_facts(5) by (simp add: tree_on_def)
qed

text \<open>
  On a disk without errors the directory command keeps the tree on the disk well formed, and
  it adds exactly the requested directory when the name is valid and new, its parent is a
  directory and a slot is free; otherwise the directory on the disk is unchanged.
\<close>

theorem pfs_mkdir_correct:
  assumes "tree_on d" "pfs_mkdir dev_bus now name con d = (con', d')"
  shows "tree_on d' \<and> (let h = disk_header (dev_view d); h' = disk_header (dev_view d') in
    if valid_pfs_path name \<and> pfs_parent_exists h name \<and> pfs_find_entry h name = None \<and> pfs_free_entry h \<noteq> None
    then pfs_find_entry h' = (pfs_find_entry h)(name := pfs_free_entry h) \<and> dir_named h' name \<and> con' = write_line ''ok'' con
    else h' = h)"
proof -
  let ?h = "disk_header (dev_view d)"
  note t = tree_onD [OF assms(1)]
  obtain d1 where r: "read_header dev_bus con d = (Some ?h, con, d1)" "dev_steady d1" "dev_view d1 = dev_view d"
    using read_header_dev [OF t(1,4)] by blast
  show ?thesis
  proof (cases "valid_pfs_path name \<and> pfs_parent_exists ?h name \<and> pfs_find_entry ?h name = None \<and> pfs_free_entry ?h \<noteq> None")
    case False
    then have "d' = d1"
      using assms(2) r(1) by (auto simp: pfs_mkdir_def split: if_splits option.splits)
    with r False tree_on_view [OF assms(1) r(2,3)] show ?thesis by (auto simp: Let_def)
  next
    case True
    then obtain i where i: "pfs_free_entry ?h = Some i" by blast
    let ?h' = "pfs_set_entry now ?h i name 0 PFS_KIND_DIR [] now PFS_MODE_DEFAULT_DIR"
    have c: "pfs_tree ?h' \<and> alloc_wf ?h' \<and> magic_ok ?h' \<and> pfs_find_entry ?h' = (pfs_find_entry ?h)(name \<mapsto> i) \<and>
        pfs_entry_at ?h' i = \<lparr>e_kind = PFS_KIND_DIR, e_name = name, e_size = 0, e_extents = [], e_created = now,
          e_modified = now, e_mode = PFS_MODE_DEFAULT_DIR\<rparr>"
      using True i t by (intro create_entry) (auto simp: PFS_KIND_DIR_def)
    obtain d2 where w: "write_header (ata_disk dev_bus) ?h' d1 = (True, d2)" "dev_steady d2" "disk_header (dev_view d2) = ?h'"
      using write_header_dev [OF r(2), of ?h'] c pfs_treeD(1) by metis
    have "d' = d2" "con' = write_line ''ok'' con" using assms(2) r(1) True i w(1) by (simp_all add: pfs_mkdir_def)
    moreover have "tree_on d2" using w c by (simp add: tree_on_def)
    ultimately show ?thesis
      using True i w(3) c by (simp add: Let_def dir_named_def accessors_of_entry)
  qed
qed

theorem pfs_mkdir_correct_witness:
  "tree_on demo_dev \<and>
   tree_on (snd (pfs_mkdir dev_bus 9 (lit ''sub'') (console_new (\<lambda>_. 0) (\<lambda>_. 0) None) demo_dev))"
  using pfs_mkdir_correct [OF demo_tree_on, of 9 "lit ''sub''" "console_new (\<lambda>_. 0) (\<lambda>_. 0) None"] demo_tree_on
  by (cases "pfs_mkdir dev_bus 9 (lit ''sub'') (console_new (\<lambda>_. 0) (\<lambda>_. 0) None) demo_dev") auto

text \<open>
  On a disk without errors the delete command keeps the tree well formed and removes exactly
  the named entry, or prints why not and leaves the directory unchanged.
\<close>

theorem pfs_delete_correct:
  assumes "tree_on d" "pfs_delete dev_bus name con d = (con', d')"
  shows "tree_on d' \<and> (let h = disk_header (dev_view d); h' = disk_header (dev_view d') in
    if pfs_find_entry h name = None then h' = h \<and> con' = write_line ''pdelete: not found'' con
    else if dir_named h name \<and> \<not> pfs_dir_empty h name then h' = h \<and> con' = write_line ''pdelete: directory not empty'' con
    else pfs_find_entry h' = (pfs_find_entry h)(name := None) \<and> con' = write_line ''ok'' con)"
proof -
  let ?h = "disk_header (dev_view d)"
  note t = tree_onD [OF assms(1)]
  obtain d1 where r: "read_header dev_bus con d = (Some ?h, con, d1)" "dev_steady d1" "dev_view d1 = dev_view d"
    using read_header_dev [OF t(1,4)] by blast
  note v = tree_on_view [OF assms(1) r(2,3)]
  show ?thesis
  proof (cases "pfs_find_entry ?h name")
    case None
    then show ?thesis using assms(2) r v by (simp add: pfs_delete_def pfs_unlink_header_def Let_def)
  next
    case (Some i)
    note f = find_entry_SomeD [OF Some]
    show ?thesis
    proof (cases "pfs_entry_is_dir ?h i \<and> \<not> pfs_dir_empty ?h name")
      case True
      then show ?thesis
        using assms(2) r v Some by (simp add: pfs_delete_def pfs_unlink_header_def Let_def dir_named_def)
    next
      case False
      let ?h' = "pfs_clear_entry i ?h"
      have c: "pfs_tree ?h'" "alloc_wf ?h'" "magic_ok ?h'"
        using pfs_tree_clear [OF t(2) f(1,2)] False f(3) alloc_wf_clear [OF t(3) f(1) t(5)]
          magic_far [OF header_wfD(1) [OF t(5)], of "pfs_entry_offset i" "replicate 152 0"] t(4) entry_offset_bound [OF f(1)]
        by (auto simp: pfs_clear_entry_def pfs_entry_offset_def)
      obtain d2 where w: "write_header (ata_disk dev_bus) ?h' d1 = (True, d2)" "dev_steady d2" "disk_header (dev_view d2) = ?h'"
        using write_header_dev [OF r(2) pfs_treeD(1) [OF c(1)]] by metis
      have "d' = d2" "con' = write_line ''ok'' con"
        using assms(2) r(1) Some False w(1) by (auto simp: pfs_delete_def pfs_unlink_header_def)
      moreover have "pfs_find_entry ?h' = (pfs_find_entry ?h)(name := None)"
        using pfs.lookup_erase [OF t(5) f(1) pfs_treeD(2) [OF t(2)] f(2)] f(3) by (simp add: pfs_find_entry_lookup)
      moreover have "tree_on d2" using w c by (simp add: tree_on_def)
      ultimately show ?thesis using w(3) Some False by (auto simp: Let_def dir_named_def)
    qed
  qed
qed

theorem pfs_delete_correct_witness:
  "tree_on demo_dev \<and> tree_on (snd (pfs_delete dev_bus (lit ''f'') (console_new (\<lambda>_. 0) (\<lambda>_. 0) None) demo_dev))"
  using pfs_delete_correct [OF demo_tree_on, of "lit ''f''" "console_new (\<lambda>_. 0) (\<lambda>_. 0) None"] demo_tree_on
  by (cases "pfs_delete dev_bus (lit ''f'') (console_new (\<lambda>_. 0) (\<lambda>_. 0) None) demo_dev") auto

text \<open>
  Formatting a disk without errors leaves an empty, well-formed volume, whatever was on the
  disk before.
\<close>

theorem pfs_format_correct:
  assumes "dev_steady d"
  shows "tree_on (snd (pfs_format dev_bus con d)) \<and>
    pfs_find_entry (disk_header (dev_view (snd (pfs_format dev_bus con d)))) = Map.empty \<and>
    fst (pfs_format dev_bus con d) = write_line ''pfs: formatted'' con"
proof -
  obtain b where p: "ata_present dev_bus d = (True, d\<lparr>r_drive := 0xF0, busy := b\<rparr>)" using ata_present_dev by blast
  let ?d = "d\<lparr>r_drive := 0xF0, busy := b\<rparr>"
  have s: "dev_steady ?d" using assms by (simp add: dev_steady_def dev_sane_def)
  obtain d2 where w: "write_header (ata_disk dev_bus) pfs_format_header ?d = (True, d2)" "dev_steady d2"
      "disk_header (dev_view d2) = pfs_format_header"
    using write_header_dev [OF s format_header_facts(1)] by metis
  have "length (lit ''RYMFS5'' @ [0, 0]) = 8" by simp
  with slice_copy_at_in [of 0 "lit ''RYMFS5'' @ [0, 0]" "replicate 39424 0"]
  have "magic_ok pfs_format_header"
    by (simp add: magic_ok_def pfs_format_header_def Let_def subslice_update_out del: lit_simps)
  moreover have "pfs_find_entry pfs_format_header = Map.empty"
    using format_header_facts(2) by (auto simp: pfs_find_entry_def fun_eq_iff find_upt_None)
  ultimately show ?thesis
    using p w pfs_tree_format alloc_wf_format by (simp add: pfs_format_def tree_on_def)
qed

theorem pfs_format_correct_witness:
  "dev_steady demo_dev \<and> tree_on (snd (pfs_format dev_bus (console_new (\<lambda>_. 0) (\<lambda>_. 0) None) demo_dev))"
  using pfs_format_correct [OF demo_dev_facts(1), of "console_new (\<lambda>_. 0) (\<lambda>_. 0) None"] demo_dev_facts(1) by simp

end
