(* ===== verification/App_Files.thy ===== *)
theory App_Files
  imports App_Fds Pfs_Commands
begin

text \<open>
  The file-system calls of a program, \<^verbatim>\<open>kernel/src/main.rs\<close>: paths against the working
  directory, \<^verbatim>\<open>open\<close>, \<^verbatim>\<open>stat\<close>, \<^verbatim>\<open>list\<close>, \<^verbatim>\<open>mkdir\<close>, \<^verbatim>\<open>unlink\<close>,
  \<^verbatim>\<open>rename\<close>, \<^verbatim>\<open>cwd\<close>, \<^verbatim>\<open>chdir\<close> and the initrd reads.  \<^verbatim>\<open>chdir\<close> may panic,
  so it returns an \<open>outcome\<close>.
\<close>

section \<open>Model\<close>

definition app_cwd_is_pfs :: "kernel \<Rightarrow> bool" where
  "app_cwd_is_pfs k \<longleftrightarrow> p_cwd_len (cur_proc k) \<ge> 4 \<and> take 4 (p_cwd (cur_proc k)) = lit ''pfs:''"

definition app_cwd_pfs_name :: "kernel \<Rightarrow> bytes" where
  "app_cwd_pfs_name k =
     (if p_cwd_len (cur_proc k) \<le> 4 then []
      else let len = min (p_cwd_len (cur_proc k) - 4) PFS_NAME_MAX in subslice (p_cwd (cur_proc k)) 4 (4 + len))"

text \<open>The resolved name is the prefix of the 96-byte output buffer of the returned length.\<close>

definition pfs_resolve_path :: "bytes \<Rightarrow> kernel \<Rightarrow> bytes option" where
  "pfs_resolve_path path k =
     (let out = replicate PFS_NAME_MAX 0;
          name = map_option (\<lambda>(buf, len). take len buf) in
      if starts_with path (lit ''pfs:'') then name (normalize_pfs_path [] (drop 4 path) out)
      else if app_cwd_is_pfs k then name (normalize_pfs_path (app_cwd_pfs_name k) path out)
      else None)"

definition abi_file_size :: "bytes option \<Rightarrow> kernel \<Rightarrow> int" where
  "abi_file_size path_ptr k =
     (case checked_app_slice path_ptr of
        None \<Rightarrow> - 1
      | Some path \<Rightarrow> (case bootfs_find_data (app_bootfs k) path of None \<Rightarrow> - 1 | Some data \<Rightarrow> int (length data)))"

definition abi_file_read :: "bytes option \<Rightarrow> nat option \<Rightarrow> kernel \<Rightarrow> int \<times> bytes" where
  "abi_file_read path_ptr buf k =
     (case buf of
        None \<Rightarrow> (- 1, [])
      | Some buffer_len \<Rightarrow>
          (case checked_app_slice path_ptr of
             None \<Rightarrow> (- 1, [])
           | Some path \<Rightarrow>
               (case bootfs_find_data (app_bootfs k) path of
                  None \<Rightarrow> (- 1, [])
                | Some data \<Rightarrow> let copy_len = min buffer_len (length data) in (int copy_len, take copy_len data))))"

text \<open>The two loops that claim a descriptor.\<close>

definition claim_fd :: "app_fd \<Rightarrow> kernel \<Rightarrow> int \<times> kernel" where
  "claim_fd handle k =
     (case free_fd k of
        Some index \<Rightarrow> (int index + APP_FD_BASE, clear_app_error (set_fd index handle k))
      | None \<Rightarrow> set_app_error ERR_NOSPC k)"

definition bootfs_fd :: "bytes \<Rightarrow> app_fd" where
  "bootfs_fd data = \<lparr>fd_is_open = True, fd_kind = KindBootFs, fd_flags = FD_READ, fd_data = data, fd_len = length data,
     fd_offset = 0, fd_pfs_index = 0\<rparr>"

definition pfs_fd :: "u32 \<Rightarrow> nat \<Rightarrow> nat \<Rightarrow> app_fd" where
  "pfs_fd flags len index = \<lparr>fd_is_open = True, fd_kind = KindPfs, fd_flags = flags, fd_data = [], fd_len = len,
     fd_offset = (if flags AND FD_APPEND \<noteq> 0 then len else 0), fd_pfs_index = index\<rparr>"

text \<open>Finding or creating the entry: an error, or the entry with the header.\<close>

definition open_entry :: "'d port_bus \<Rightarrow> u64 \<Rightarrow> bytes \<Rightarrow> u32 \<Rightarrow> bytes \<Rightarrow> 'd \<Rightarrow> (int + nat \<times> bytes) \<times> 'd" where
  "open_entry bus now name flags header d =
     (case pfs_find_entry header name of
        Some index \<Rightarrow>
          if pfs_entry_is_dir header index then (Inl ERR_ISDIR, d)
          else if flags AND FD_CREATE_NEW \<noteq> 0 then (Inl ERR_EXIST, d)
          else (Inr (index, header), d)
      | None \<Rightarrow>
          if flags AND FD_CREATE \<noteq> 0 then
            case pfs_free_entry header of
              None \<Rightarrow> (Inl ERR_NOSPC, d)
            | Some index \<Rightarrow>
                let header = pfs_set_entry now header index name 0 PFS_KIND_FILE [] now PFS_MODE_DEFAULT_FILE in
                case write_header (ata_disk bus) header d of
                  (False, d) \<Rightarrow> (Inl ERR_IO, d)
                | (True, d) \<Rightarrow> (Inr (index, header), d)
          else (Inl ERR_NOENT, d))"

definition open_truncate :: "'d port_bus \<Rightarrow> u64 \<Rightarrow> bytes \<Rightarrow> u32 \<Rightarrow> nat \<Rightarrow> bytes \<Rightarrow> 'd \<Rightarrow> bytes option \<times> 'd" where
  "open_truncate bus now name flags index header d =
     (if flags AND FD_TRUNCATE \<noteq> 0 then
        let header = pfs_set_entry now header index name 0 PFS_KIND_FILE [] (pfs_entry_created header index)
              (pfs_entry_mode header index) in
        case write_header (ata_disk bus) header d of
          (False, d) \<Rightarrow> (None, d)
        | (True, d) \<Rightarrow> (Some header, d)
      else (Some header, d))"

definition abi_open_pfs :: "'d port_bus \<Rightarrow> u64 \<Rightarrow> bytes \<Rightarrow> u32 \<Rightarrow> kernel \<Rightarrow> 'd \<Rightarrow> int \<times> kernel \<times> 'd" where
  "abi_open_pfs bus now name flags k d =
     (let fail = (\<lambda>e d. case set_app_error e k of (r, k) \<Rightarrow> (r, k, d)) in
      if \<not> valid_pfs_path name then fail ERR_INVAL d
      else if flags AND FD_CREATE_NEW \<noteq> 0 \<and> flags AND FD_CREATE = 0 then fail ERR_INVAL d
      else if flags AND FD_TRUNCATE \<noteq> 0 \<and> flags AND FD_WRITE = 0 then fail ERR_INVAL d
      else if flags AND FD_APPEND \<noteq> 0 \<and> flags AND FD_WRITE = 0 then fail ERR_INVAL d
      else case read_header_silent (ata_disk bus) d of
        (None, d) \<Rightarrow> fail ERR_IO d
      | (Some header, d) \<Rightarrow>
          if \<not> pfs_parent_exists header name then fail ERR_NOENT d
          else case open_entry bus now name flags header d of
            (Inl e, d) \<Rightarrow> fail e d
          | (Inr (index, header), d) \<Rightarrow>
              (case open_truncate bus now name flags index header d of
                 (None, d) \<Rightarrow> fail ERR_IO d
               | (Some header, d) \<Rightarrow>
                   (case claim_fd (pfs_fd flags (pfs_entry_size header index) index) k of (r, k) \<Rightarrow> (r, k, d))))"

definition abi_open :: "'d port_bus \<Rightarrow> u64 \<Rightarrow> bytes option \<Rightarrow> u32 \<Rightarrow> kernel \<Rightarrow> 'd \<Rightarrow> int \<times> kernel \<times> 'd" where
  "abi_open bus now path_ptr flags k d =
     (let fail = (\<lambda>e. case set_app_error e k of (r, k) \<Rightarrow> (r, k, d)) in
      case checked_app_slice path_ptr of
        None \<Rightarrow> fail ERR_INVAL
      | Some path \<Rightarrow>
          (case pfs_resolve_path path k of
             Some name \<Rightarrow> abi_open_pfs bus now name flags k d
           | None \<Rightarrow>
               if starts_with path (lit ''pfs:'') then fail ERR_INVAL
               else if flags AND FD_WRITE \<noteq> 0 then fail ERR_INVAL
               else case bootfs_find_data (app_bootfs k) path of
                 None \<Rightarrow> fail ERR_NOENT
               | Some data \<Rightarrow> (case claim_fd (bootfs_fd data) k of (r, k) \<Rightarrow> (r, k, d))))"

record rymos_stat =
  stat_kind :: u32
  stat_fs :: u32
  stat_size :: nat
  created_ticks :: u64
  modified_ticks :: u64
  stat_mode :: u32

definition STAT_KIND_FILE :: u32 where "STAT_KIND_FILE = 1"
definition STAT_KIND_DIR :: u32 where "STAT_KIND_DIR = 2"
definition STAT_FS_BOOTFS :: u32 where "STAT_FS_BOOTFS = 1"
definition STAT_FS_PFS :: u32 where "STAT_FS_PFS = 2"
definition BOOTFS_MODE :: u32 where "BOOTFS_MODE = ucast ((0b001 :: u8) OR 0b100)"

definition pfs_stat :: "bytes \<Rightarrow> nat \<Rightarrow> rymos_stat" where
  "pfs_stat header index =
     \<lparr>stat_kind = (if pfs_entry_is_dir header index then STAT_KIND_DIR else STAT_KIND_FILE), stat_fs = STAT_FS_PFS,
      stat_size = pfs_entry_size header index, created_ticks = pfs_entry_created header index,
      modified_ticks = pfs_entry_modified header index, stat_mode = ucast (pfs_entry_mode header index)\<rparr>"

definition bootfs_stat :: "boot_fs_entry \<Rightarrow> rymos_stat" where
  "bootfs_stat entry =
     \<lparr>stat_kind = (if be_kind entry = 2 then STAT_KIND_DIR else STAT_KIND_FILE), stat_fs = STAT_FS_BOOTFS,
      stat_size = be_data_len entry, created_ticks = 0, modified_ticks = 0, stat_mode = BOOTFS_MODE\<rparr>"

definition stat_path :: "'d port_bus \<Rightarrow> bytes \<Rightarrow> kernel \<Rightarrow> 'd \<Rightarrow> rymos_stat option \<times> 'd" where
  "stat_path bus path k d =
     (case pfs_resolve_path path k of
        Some name \<Rightarrow>
          (case read_header_silent (ata_disk bus) d of
             (None, d) \<Rightarrow> (None, d)
           | (Some header, d) \<Rightarrow> (map_option (pfs_stat header) (pfs_find_entry header name), d))
      | None \<Rightarrow> (map_option bootfs_stat (bootfs_find_entry (app_bootfs k) path), d))"

text \<open>The result, the structure stored through the pointer and the new state; \<open>stat_ptr\<close> tells that it is not null.\<close>

definition abi_stat :: "'d port_bus \<Rightarrow> bytes option \<Rightarrow> bool \<Rightarrow> kernel \<Rightarrow> 'd \<Rightarrow> int \<times> rymos_stat option \<times> kernel \<times> 'd" where
  "abi_stat bus path_ptr stat_ptr k d =
     (let fail = (\<lambda>e d. case set_app_error e k of (r, k) \<Rightarrow> (r, None, k, d)) in
      if \<not> stat_ptr then fail ERR_INVAL d
      else case checked_app_slice path_ptr of
        None \<Rightarrow> fail ERR_INVAL d
      | Some path \<Rightarrow>
          (case stat_path bus path k d of
             (None, d) \<Rightarrow> fail ERR_NOENT d
           | (Some stat, d) \<Rightarrow> (0, Some stat, clear_app_error k, d)))"

definition list_bootfs :: "nat \<Rightarrow> kernel \<Rightarrow> (bytes \<times> rymos_stat) option" where
  "list_bootfs wanted k =
     map_option (\<lambda>entry. (be_name_bytes (app_bootfs k) entry, bootfs_stat entry)) (bootfs_entry (app_bootfs k) wanted)"

text \<open>The loop over the directory table that counts the entries of one directory.\<close>

fun list_pfs_loop :: "bytes \<Rightarrow> bytes \<Rightarrow> nat \<Rightarrow> nat list \<Rightarrow> nat \<Rightarrow> (bytes \<times> rymos_stat) option" where
  "list_pfs_loop header namespace index [] seen = None"
| "list_pfs_loop header namespace index (entry_index # rest) seen =
     (if pfs_entry_used header entry_index then
        case pfs_list_match namespace (pfs_entry_name header entry_index) of
          None \<Rightarrow> list_pfs_loop header namespace index rest seen
        | Some name \<Rightarrow>
            if seen = index then Some (name, pfs_stat header entry_index)
            else list_pfs_loop header namespace index rest (seen + 1)
      else list_pfs_loop header namespace index rest seen)"

definition list_namespace :: "bytes \<Rightarrow> kernel \<Rightarrow> bytes option" where
  "list_namespace namespace k =
     (if namespace = [] \<and> app_cwd_is_pfs k then Some (app_cwd_pfs_name k)
      else if eq namespace (lit ''pfs:'') \<or> eq namespace (lit ''pfs:/'') then Some []
      else pfs_resolve_path namespace k)"

definition abi_list ::
  "'d port_bus \<Rightarrow> bytes option \<Rightarrow> nat \<Rightarrow> nat option \<Rightarrow> bool \<Rightarrow> kernel \<Rightarrow> 'd \<Rightarrow> int \<times> (bytes \<times> rymos_stat) option \<times> kernel \<times> 'd" where
  "abi_list bus namespace_ptr index name_buf stat_ptr k d =
     (let fail = (\<lambda>e d. case set_app_error e k of (r, k) \<Rightarrow> (r, None, k, d));
          answer = (\<lambda>name_cap found d. (case found of
              None \<Rightarrow> fail ERR_NOENT d
            | Some (name, stat) \<Rightarrow>
                (let copy_len = min name_cap (length name) in (int copy_len, Some (take copy_len name, stat), clear_app_error k, d))))
      in case name_buf of
           None \<Rightarrow> fail ERR_INVAL d
         | Some name_cap \<Rightarrow>
             if name_cap = 0 \<or> \<not> stat_ptr then fail ERR_INVAL d
             else
               let namespace = (case namespace_ptr of None \<Rightarrow> Some [] | Some ns \<Rightarrow> (if ns = [] then Some [] else checked_app_slice (Some ns))) in
               case namespace of
                 None \<Rightarrow> fail ERR_INVAL d
               | Some namespace \<Rightarrow>
                   (case list_namespace namespace k of
                      Some namespace \<Rightarrow>
                        (case read_header_silent (ata_disk bus) d of
                           (None, d) \<Rightarrow> fail ERR_IO d
                         | (Some header, d) \<Rightarrow> answer name_cap (list_pfs_loop header namespace index [0..<PFS_ENTRY_COUNT] 0) d)
                    | None \<Rightarrow> answer name_cap (list_bootfs index k) d))"

text \<open>The end shared by the calls that store a new header.\<close>

definition store_header :: "'d port_bus \<Rightarrow> bytes \<Rightarrow> kernel \<Rightarrow> 'd \<Rightarrow> int \<times> kernel \<times> 'd" where
  "store_header bus header k d =
     (case write_header (ata_disk bus) header d of
        (True, d) \<Rightarrow> (0, clear_app_error k, d)
      | (False, d) \<Rightarrow> (case set_app_error ERR_IO k of (r, k) \<Rightarrow> (r, k, d)))"

definition abi_mkdir :: "'d port_bus \<Rightarrow> u64 \<Rightarrow> bytes option \<Rightarrow> kernel \<Rightarrow> 'd \<Rightarrow> int \<times> kernel \<times> 'd" where
  "abi_mkdir bus now path_ptr k d =
     (let fail = (\<lambda>e d. case set_app_error e k of (r, k) \<Rightarrow> (r, k, d)) in
      case checked_app_slice path_ptr of
        None \<Rightarrow> fail ERR_INVAL d
      | Some path \<Rightarrow>
          (case pfs_resolve_path path k of
             None \<Rightarrow> fail ERR_INVAL d
           | Some name \<Rightarrow>
               (case read_header_silent (ata_disk bus) d of
                  (None, d) \<Rightarrow> fail ERR_IO d
                | (Some header, d) \<Rightarrow>
                    if \<not> pfs_parent_exists header name then fail ERR_NOENT d
                    else if pfs_find_entry header name \<noteq> None then fail ERR_EXIST d
                    else case pfs_free_entry header of
                      None \<Rightarrow> fail ERR_NOSPC d
                    | Some index \<Rightarrow>
                        store_header bus (pfs_set_entry now header index name 0 PFS_KIND_DIR [] now PFS_MODE_DEFAULT_DIR) k d)))"

definition abi_unlink :: "'d port_bus \<Rightarrow> bytes option \<Rightarrow> kernel \<Rightarrow> 'd \<Rightarrow> int \<times> kernel \<times> 'd" where
  "abi_unlink bus path_ptr k d =
     (let fail = (\<lambda>e d. case set_app_error e k of (r, k) \<Rightarrow> (r, k, d)) in
      case checked_app_slice path_ptr of
        None \<Rightarrow> fail ERR_INVAL d
      | Some path \<Rightarrow>
          (case pfs_resolve_path path k of
             None \<Rightarrow> fail ERR_INVAL d
           | Some name \<Rightarrow>
               (case read_header_silent (ata_disk bus) d of
                  (None, d) \<Rightarrow> fail ERR_IO d
                | (Some header, d) \<Rightarrow>
                    (case pfs_unlink_header header name of
                       Inl code \<Rightarrow> fail (if code = - 2 then ERR_INVAL else ERR_NOENT) d
                     | Inr header \<Rightarrow> store_header bus header k d))))"

definition abi_rename :: "'d port_bus \<Rightarrow> u64 \<Rightarrow> bytes option \<Rightarrow> bytes option \<Rightarrow> kernel \<Rightarrow> 'd \<Rightarrow> int \<times> kernel \<times> 'd" where
  "abi_rename bus now old_ptr new_ptr k d =
     (let fail = (\<lambda>e d. case set_app_error e k of (r, k) \<Rightarrow> (r, k, d)) in
      case (checked_app_slice old_ptr, checked_app_slice new_ptr) of
        (Some old_path, Some new_path) \<Rightarrow>
          (case (pfs_resolve_path old_path k, pfs_resolve_path new_path k) of
             (Some old_name, Some new_name) \<Rightarrow>
               (case read_header_silent (ata_disk bus) d of
                  (None, d) \<Rightarrow> fail ERR_IO d
                | (Some header, d) \<Rightarrow>
                    (case pfs_rename_header now header old_name new_name of
                       Inl code \<Rightarrow>
                         fail (if code = - 2 then ERR_NOENT else if code = - 3 then ERR_EXIST
                               else if code = - 4 then ERR_NOENT else ERR_INVAL) d
                     | Inr header \<Rightarrow> store_header bus header k d))
           | _ \<Rightarrow> fail ERR_INVAL d)
      | _ \<Rightarrow> fail ERR_INVAL d)"

definition abi_cwd :: "nat option \<Rightarrow> kernel \<Rightarrow> int \<times> bytes \<times> kernel" where
  "abi_cwd buf k =
     (let len = p_cwd_len (cur_proc k) in
      case buf of
        None \<Rightarrow> (int len, [], k)
      | Some buffer_len \<Rightarrow>
          if buffer_len = 0 then (int len, [], k)
          else let copy_len = min buffer_len len in (int copy_len, take copy_len (p_cwd (cur_proc k)), clear_app_error k))"

text \<open>
  Storing a working directory: the array is cleared and the text copied to its front; a text that does
  not fit is an out-of-range slice.
\<close>

definition set_cwd :: "bytes \<Rightarrow> kernel \<Rightarrow> (int \<times> kernel) outcome" where
  "set_cwd dir k =
     (if length dir > APP_CWD_MAX then Panic
      else Ret (0, clear_app_error (set_cur
        ((cur_proc k)\<lparr>p_cwd := copy_at (replicate APP_CWD_MAX 0) 0 dir, p_cwd_len := length dir\<rparr>) k)))"

definition abi_chdir :: "'d port_bus \<Rightarrow> bytes option \<Rightarrow> kernel \<Rightarrow> 'd \<Rightarrow> (int \<times> kernel) outcome \<times> 'd" where
  "abi_chdir bus path_ptr k d =
     (let fail = (\<lambda>e d. (Ret (set_app_error e k), d)) in
      case checked_app_slice path_ptr of
        None \<Rightarrow> fail ERR_INVAL d
      | Some path \<Rightarrow>
          if eq path (lit ''/'') then (set_cwd (lit ''/'') k, d)
          else if eq path (lit ''pfs:'') \<or> eq path (lit ''pfs:/'') then (set_cwd (lit ''pfs:'') k, d)
          else case pfs_resolve_path path k of
            None \<Rightarrow> fail ERR_INVAL d
          | Some name \<Rightarrow>
              (case read_header_silent (ata_disk bus) d of
                 (None, d) \<Rightarrow> fail ERR_IO d
               | (Some header, d) \<Rightarrow>
                   (case pfs_find_entry header name of
                      None \<Rightarrow> fail ERR_NOENT d
                    | Some index \<Rightarrow>
                        if \<not> pfs_entry_is_dir header index then fail ERR_NOTDIR d
                        else (set_cwd (lit ''pfs:'' @ name) k, d))))"

section \<open>The descriptor tables stay well-formed\<close>

lemma claim_fd_ok:
  assumes ok: "fd_tables_ok k" and h: "handle_ok (app_pipes k) (fd_kind h) h" "fd_kind h \<notin> {KindPipeRead, KindPipeWrite}"
  shows "fd_tables_ok (snd (claim_fd h k))"
proof (cases "free_fd k")
  case None
  with ok show ?thesis by (simp add: claim_fd_def)
next
  case (Some i)
  then have i: "i < 32" "\<not> fd_is_open (app_fds k ! i)" by (simp_all add: free_fd_def find_upt_Some)
  have "fds_ok ((app_fds k)[i := h]) (app_pipes k)"
    by (rule fds_ok_same_end [OF ok i(1) h(1)]) (use i h(2) in \<open>auto simp: end_of_def\<close>)
  with Some show ?thesis by (simp add: claim_fd_def)
qed

lemma open_entry_index:
  assumes "open_entry bus now name flags header d = (Inr (index, header'), d')"
  shows "index < 256"
  using assms find_upt_SomeD(1)
  by (auto simp: open_entry_def Let_def pfs_find_entry_def pfs_free_entry_def split: option.splits if_splits prod.splits bool.splits)

lemma abi_open_pfs_ok:
  assumes ok: "fd_tables_ok k" and e: "abi_open_pfs bus now name flags k d = (r, k', d')"
  shows "fd_tables_ok k'"
proof -
  have "fd_tables_ok (snd (claim_fd (pfs_fd flags len index) k))" if "index < 256" for len index
    by (rule claim_fd_ok [OF ok]) (use that in \<open>simp_all add: pfs_fd_def\<close>)
  then have claim: "fd_tables_ok k1" if "claim_fd (pfs_fd flags len index) k = (r1, k1)" "index < 256" for len index r1 k1
    using that by (metis snd_conv)
  have err: "fd_tables_ok k1" if "set_app_error c k = (r1, k1)" for c r1 k1
    using ok app_error_fds(3,4) [of c k] that by simp
  from e show ?thesis
    by (auto simp: abi_open_pfs_def Let_def split: if_splits option.splits prod.splits sum.splits
        dest!: open_entry_index elim: err claim)
qed

lemma abi_open_ok:
  assumes ok: "fd_tables_ok k" and e: "abi_open bus now path_ptr flags k d = (r, k', d')"
  shows "fd_tables_ok k'"
proof -
  have "fd_tables_ok (snd (claim_fd (bootfs_fd data) k))" for data
    by (rule claim_fd_ok [OF ok]) (simp_all add: bootfs_fd_def FD_READ_def)
  then have claim: "fd_tables_ok k1" if "claim_fd (bootfs_fd data) k = (r1, k1)" for data r1 k1 using that by (metis snd_conv)
  have err: "fd_tables_ok k1" if "set_app_error c k = (r1, k1)" for c r1 k1
    using ok app_error_fds(3,4) [of c k] that by simp
  from e show ?thesis
    by (auto simp: abi_open_def Let_def split: if_splits option.splits prod.splits elim: err claim abi_open_pfs_ok [OF ok])
qed

lemma abi_read_ok:
  assumes "fd_tables_ok k" "abi_read bus fd buf k d = Some (r, bs, k', d')"
  shows "fd_tables_ok k'"
  using assms read_handle_ok [OF assms(1)]
  by (auto simp: abi_read_def Let_def app_fd_index_Some split: if_splits option.splits prod.splits)

lemma abi_write_fd_ok:
  assumes "fd_tables_ok k" "abi_write_fd bus now fd buf k d = (r, k', d')"
  shows "fd_tables_ok k'"
  using assms write_handle_ok [OF assms(1)]
  by (auto simp: abi_write_fd_def abi_write_def Let_def app_fd_index_Some split: if_splits option.splits prod.splits)

lemma abi_dup2_ok: "fd_tables_ok k \<Longrightarrow> fd_tables_ok (snd (abi_dup2 a b k))"
  by (simp add: abi_dup2_def)

text \<open>
  The calls of all processes on the shared tables, in any order; everything else the kernel does leaves
  the two tables alone.
\<close>

inductive fd_call :: "'d port_bus \<Rightarrow> kernel \<times> 'd \<Rightarrow> kernel \<times> 'd \<Rightarrow> bool" for bus where
  call_open: "abi_open bus now path flags k d = (r, k', d') \<Longrightarrow> fd_call bus (k, d) (k', d')"
| call_read: "abi_read bus fd buf k d = Some (r, bs, k', d') \<Longrightarrow> fd_call bus (k, d) (k', d')"
| call_write: "abi_write_fd bus now fd data k d = (r, k', d') \<Longrightarrow> fd_call bus (k, d) (k', d')"
| call_seek: "fd_call bus (k, d) (snd (abi_seek fd offset k), d)"
| call_close: "fd_call bus (k, d) (snd (abi_close fd k), d)"
| call_pipe: "fd_call bus (k, d) (snd (snd (abi_pipe ptrs k)), d)"
| call_dup2: "fd_call bus (k, d) (snd (abi_dup2 old_fd new_fd k), d)"
| call_close_all: "fd_call bus (k, d) (app_close_all_fds k, d)"
| elsewhere: "app_fds k' = app_fds k \<Longrightarrow> app_pipes k' = app_pipes k \<Longrightarrow> fd_call bus (k, d) (k', d')"

lemma fd_call_ok: "fd_call bus s s' \<Longrightarrow> fd_tables_ok (fst s) \<Longrightarrow> fd_tables_ok (fst s')"
  by (induction rule: fd_call.induct)
    (auto intro: abi_open_ok abi_read_ok abi_write_fd_ok abi_seek_ok abi_close_ok abi_pipe_ok abi_dup2_ok app_close_all_fds_ok)

text \<open>
  C13. The shared descriptor and pipe tables stay well-formed through every sequence of calls of all
  processes: an open descriptor refers to a file slot, to data within its bounds or to an open end of
  a pipe; every open pipe end has exactly one descriptor; a pipe's buffer indices are in range and it
  is in use exactly while one of its ends is open.
\<close>

theorem fd_tables_invariant:
  assumes "fd_tables_ok k" "(fd_call bus)\<^sup>*\<^sup>* (k, d) (k', d')"
  shows "fd_tables_ok k'"
proof -
  have "fd_tables_ok (fst s')" if "(fd_call bus)\<^sup>*\<^sup>* s s'" "fd_tables_ok (fst s)" for s s'
    using that by (induction rule: rtranclp_induct) (auto intro: fd_call_ok)
  from this [OF assms(2)] assms(1) show ?thesis by simp
qed

theorem fd_tables_invariant_witness:
  "fd_tables_ok (snd (abi_close 3 (snd (snd (abi_pipe True demo_state)))))"
proof -
  have "(fd_call dev_bus)\<^sup>*\<^sup>* (demo_state, demo_dev) (snd (abi_close 3 (snd (snd (abi_pipe True demo_state)))), demo_dev)"
    by (meson call_close call_pipe converse_rtranclp_into_rtranclp rtranclp.rtrancl_refl)
  from fd_tables_invariant [OF demo_fds_ok this] show ?thesis .
qed

end
