(* ===== verification/File_Handles.thy ===== *)
theory File_Handles
  imports App_Files
begin

text \<open>
  Writing through a descriptor, composed of the descriptor layer, RYMFS and the block device: what a
  successful \<^verbatim>\<open>write_fd\<close> stores, and what happens when the descriptor's cached length is out
  of date.
\<close>

section \<open>Changing the size field\<close>

lemma size_field_wf:
  assumes "header_wf h" "i < 256" "n < 2 ^ 32"
  shows "header_wf (copy_at h (pfs_entry_offset i + 2) (to_le_bytes32 (of_nat n)))"
    "j < 256 \<Longrightarrow> pfs_entry_at (copy_at h (pfs_entry_offset i + 2) (to_le_bytes32 (of_nat n))) j =
       (if j = i then (pfs_entry_at h i)\<lparr>e_size := n\<rparr> else pfs_entry_at h j)"
proof -
  let ?o = "pfs_entry_offset i" and ?b = "to_le_bytes32 (of_nat n)"
  define g where "g = copy_at h (?o + 2) ?b"
  have ok: "header_ok h" and b: "?o + 152 \<le> length h"
    using assms header_wfD entry_offset_bound [of i] by (auto simp: header_ok_def)
  have same: "entry_slice g i = copy_at (entry_slice h i) 2 ?b"
    using ok b assms(2) by (simp add: list_eq_iff_nth_eq entry_slice_def nth_copy_at g_def)
  have other: "entry_slice g j = entry_slice h j" if "j < 256" "j \<noteq> i" for j
    unfolding g_def using that assms ok by (intro entry_slice_other [of h i j]) simp_all
  have ok': "header_ok g" unfolding g_def by (rule header_ok_copy_at [OF ok assms(2)]) simp
  have len: "length (entry_slice h i) = 152" using ok assms(2) by simp
  have n: "name_len g i = name_len h i" unfolding name_len_def same using len by (simp add: nth_copy_at)
  have n96: "name_len h i \<le> 96" using header_wfD(2) [OF assms(1,2)] .
  have w: "entry_slice g i ! k = entry_slice h i ! k" if "k < 2 \<or> 6 \<le> k" for k
    unfolding same using that len by (auto simp: nth_copy_at)
  have v: "subslice (entry_slice g i) k l = subslice (entry_slice h i) k l" if "6 \<le> k" "l \<le> 152" for k l
    unfolding same using that len by (auto intro!: slice_copy_at_out)
  have m: "subslice (entry_slice g i) 2 6 = ?b"
    unfolding same using len slice_copy_at_in [of 2 ?b "entry_slice h i"] by simp
  have u: "unat (of_nat n :: u32) = n" using assms(3) by (simp add: unat_of_nat take_bit_nat_eq_self)
  have ext: "map (pfs_entry_extent g i) [0..<min (unat (entry_slice h i ! 6)) 4] =
      map (pfs_entry_extent h i) [0..<min (unat (entry_slice h i ! 6)) 4]"
    using accessors_of_record(4) [OF ok assms(2)] accessors_of_record(4) [OF ok' assms(2)]
    by (intro map_cong refl) (auto simp: extent_at_def v)
  show "header_wf (copy_at h (?o + 2) ?b)" unfolding g_def [symmetric] using header_wf_replace(1) [OF assms(1,2) ok'] n n96 other by simp
  have "pfs_entry_at g i = (pfs_entry_at h i)\<lparr>e_size := n\<rparr>"
    using n96 n ext accessors_of_record(3) [OF ok assms(2)] accessors_of_record(3) [OF ok' assms(2)]
    by (simp add: pfs_entry_at_def accessors_of_record(1,2,5,6,7,8) [OF ok assms(2)]
        accessors_of_record(1,2,5,6,7,8) [OF ok' assms(2)] v w m u)
  then show "j < 256 \<Longrightarrow> pfs_entry_at (copy_at h (?o + 2) ?b) j = (if j = i then (pfs_entry_at h i)\<lparr>e_size := n\<rparr> else pfs_entry_at h j)"
    unfolding g_def [symmetric] using header_wf_replace(2) [OF assms(1,2) ok'] n n96 other by simp
qed

text \<open>The header with the size and the time stamp of one entry changed.\<close>

definition resized :: "u64 \<Rightarrow> nat \<Rightarrow> nat \<Rightarrow> bytes \<Rightarrow> bytes" where
  "resized now i n h = pfs_touch_modified now i (copy_at h (pfs_entry_offset i + 2) (to_le_bytes32 (of_nat n)))"

lemma resized_facts:
  assumes "header_wf h" "alloc_wf h" "i < 256" "n < 2 ^ 32"
  shows "header_wf (resized now i n h)" "alloc_wf (resized now i n h)" "length (resized now i n h) = 39424"
    "j < 256 \<Longrightarrow> pfs_entry_at (resized now i n h) j =
       (if j = i then (pfs_entry_at h i)\<lparr>e_size := n, e_modified := now\<rparr> else pfs_entry_at h j)"
proof -
  note s = size_field_wf [OF assms(1,3,4)]
  note t = pfs_touch_modified_wf [OF s(1) assms(3), where now = now, folded resized_def]
  show w: "header_wf (resized now i n h)" by (rule t)
  show e: "pfs_entry_at (resized now i n h) j =
       (if j = i then (pfs_entry_at h i)\<lparr>e_size := n, e_modified := now\<rparr> else pfs_entry_at h j)" if "j < 256" for j
    using t(2) [OF that] s(2) [OF that] s(2) [OF assms(3)] by simp
  show "alloc_wf (resized now i n h)"
  proof (rule alloc_wf_replace [OF assms(2,3)])
    show "ext_sorted (entry_extents (resized now i n h) i) \<and>
      set (sectors_of (entry_extents (resized now i n h) i)) \<inter> in_use h (Some i) = {}" if "is_file (resized now i n h) i"
      using that e [OF assms(3)] assms(2,3) by (simp add: alloc_wf_def is_file_def accessors_of_entry entry_extents_def)
  qed (use e in simp)
  show "length (resized now i n h) = 39424" using header_wfD(1) [OF w] by (simp add: header_ok_def)
qed

section \<open>On a block device\<close>

context block_device
begin

lemma pfs_update_size_law:
  assumes "dev_ok d" "volume_ok (view d)" "i < 256" "n < 2 ^ 32" "pfs_update_size disk now i n d = (True, d')"
  shows "dev_ok d'" "disk_header (view d') = resized now i n (disk_header (view d))" "\<And>k. k \<ge> 77 \<Longrightarrow> view d' k = view d k"
proof -
  let ?h = "disk_header (view d)"
  obtain r d1 where r: "read_header_silent disk d = (r, d1)" by fastforce
  note l = read_header_silent_law [OF assms(1) r]
  obtain h where h: "r = Some h" using assms(5) r by (auto simp: pfs_update_size_def split: option.splits)
  then have "h = ?h" using l(3) by simp
  then have w: "write_header disk (resized now i n ?h) d1 = (True, d')"
    using assms(5) r h by (auto simp: pfs_update_size_def resized_def Let_def split: if_splits)
  have "length (resized now i n ?h) = 39424" using resized_facts(3) assms(2,3,4) by (simp add: volume_ok_def)
  note wl = write_header_law [OF l(1) this w]
  show "dev_ok d'" "disk_header (view d') = resized now i n ?h" using wl by auto
  show "view d' k = view d k" if "k \<ge> 77" for k using wl(2) [OF that] l(2) by simp
qed

lemma update_size_keeps_files:
  assumes "dev_ok d" "volume_ok (view d)" "i < 256" "n < 2 ^ 32" "pfs_update_size disk now i n d = (True, d')"
  shows "volume_ok (view d')" "pfs_entry_size (disk_header (view d')) i = n"
    "j < 256 \<Longrightarrow> is_file (disk_header (view d)) j \<Longrightarrow> file_bytes (view d') j = file_bytes (view d) j"
    "others_kept i (view d) (view d')"
proof -
  note u = pfs_update_size_law [OF assms]
  note f = resized_facts [OF _ _ assms(3,4), where h = "disk_header (view d)" and now = now, folded u(2)]
  have wf: "header_wf (disk_header (view d))" "alloc_wf (disk_header (view d))" using assms(2) by (simp_all add: volume_ok_def)
  show "volume_ok (view d')" using f(1,2) [OF wf] by (simp add: volume_ok_def)
  show "pfs_entry_size (disk_header (view d')) i = n" using f(4) [OF wf assms(3)] by (simp add: accessors_of_entry)
  show fb: "file_bytes (view d') j = file_bytes (view d) j" if "j < 256" "is_file (disk_header (view d)) j" for j
  proof -
    have "file_sectors (view d') j = file_sectors (view d) j"
      using f(4) [OF wf that(1)] by (simp add: file_sectors_def entry_extents_def)
    moreover have "view d' k = view d k" if "k \<in> set (file_sectors (view d) j)" for k
      using file_sectors_ok(2) [OF assms(2) \<open>j < 256\<close> \<open>is_file (disk_header (view d)) j\<close>] that by (intro u(3)) auto
    ultimately show ?thesis by (auto simp: file_bytes_def intro!: blocks_cong)
  qed
  show "others_kept i (view d) (view d')" using f(4) [OF wf] fb by (simp add: others_kept_def)
qed

end

section \<open>Through a descriptor\<close>

text \<open>A descriptor open for writing on a file, at its own position.\<close>

definition writer :: "nat \<Rightarrow> kernel \<Rightarrow> bool" where
  "writer i k \<longleftrightarrow> i < 32 \<and> fd_is_open (app_fds k ! i) \<and> fd_kind (app_fds k ! i) = KindPfs \<and>
     fd_flags (app_fds k ! i) AND FD_WRITE \<noteq> 0 \<and> fd_flags (app_fds k ! i) AND FD_APPEND = 0"

text \<open>The stages of a successful write.\<close>

lemma write_handle_stages:
  assumes h: "writer i k" "length (app_fds k) = 32" and n: "fd_offset (app_fds k ! i) + length data \<le> PFS_FILE_MAX"
    and w: "write_handle bus now i data k d = (r, k', d')" "r \<noteq> - 1"
  obtains d1 where "pfs_write_at (ata_disk bus) now (fd_pfs_index (app_fds k ! i)) (fd_offset (app_fds k ! i)) data d = (True, d1)"
    "r = int (length data)"
    "fd_offset (app_fds k ! i) + length data > fd_len (app_fds k ! i) \<Longrightarrow>
       pfs_update_size (ata_disk bus) now (fd_pfs_index (app_fds k ! i)) (fd_offset (app_fds k ! i) + length data) d1 = (True, d')"
    "\<not> fd_offset (app_fds k ! i) + length data > fd_len (app_fds k ! i) \<Longrightarrow> d' = d1"
    "fd_offset (app_fds k' ! i) = fd_offset (app_fds k ! i) + length data"
    "fd_len (app_fds k' ! i) = max (fd_len (app_fds k ! i)) (fd_offset (app_fds k ! i) + length data)"
proof -
  let ?h = "app_fds k ! i"
  let ?e = "fd_offset ?h + length data"
  have u: "usize_add (fd_offset ?h) (length data) = ?e" using n by (simp add: usize_add_def PFS_FILE_MAX_def PFS_SECTORS_PER_FILE_def)
  have s: "usize_as_isize (length data) = int (length data)"
    using n by (simp add: usize_as_isize_def PFS_FILE_MAX_def PFS_SECTORS_PER_FILE_def)
  obtain ok d1 where p: "pfs_write_at (ata_disk bus) now (fd_pfs_index ?h) (fd_offset ?h) data d = (ok, d1)" by force
  obtain ok2 d2 where q: "pfs_update_size (ata_disk bus) now (fd_pfs_index ?h) ?e d1 = (ok2, d2)" by force
  have hd: "fd_is_open ?h" "fd_flags ?h AND FD_WRITE \<noteq> 0" "fd_flags ?h AND FD_APPEND = 0" "fd_kind ?h = KindPfs" "i < 32"
    using h by (simp_all add: writer_def)
  show ?thesis
    using w n p q h(2) by (intro that [of d1]) (auto simp: write_handle_def hd u s Let_def max_def split: if_splits bool.splits)
qed

lemma others_kept_trans:
  assumes "others_kept i u v" "others_kept i v w"
  shows "others_kept i u w"
  using assms by (auto simp: others_kept_def is_file_def accessors_of_entry)

text \<open>The effect of a successful write on the file: contents and size.\<close>

definition file_written :: "nat \<Rightarrow> nat \<Rightarrow> bytes \<Rightarrow> nat \<Rightarrow> (nat \<Rightarrow> bytes) \<Rightarrow> (nat \<Rightarrow> bytes) \<Rightarrow> bool" where
  "file_written f offset data new_size v v' \<longleftrightarrow>
     (let old_size = pfs_entry_size (disk_header v) f in
      subslice (file_bytes v' f) offset (offset + length data) = data \<and>
      (\<forall>k. old_size \<le> k \<and> k < offset \<longrightarrow> file_bytes v' f ! k = 0) \<and>
      (\<forall>k < length (file_bytes v f). k < old_size \<and> \<not> (offset \<le> k \<and> k < offset + length data) \<longrightarrow>
         file_bytes v' f ! k = file_bytes v f ! k) \<and>
      pfs_entry_size (disk_header v') f = new_size)"

lemma write_handle_file:
  assumes dev: "block_device (ata_disk bus) view dev_ok" "dev_ok d" "volume_ok (view d)"
    and ok: "fd_tables_ok k" and h: "writer i k" and n: "fd_offset (app_fds k ! i) + length data \<le> PFS_FILE_MAX"
    and w: "write_handle bus now i data k d = (r, k', d')" "r \<noteq> - 1"
  shows "volume_ok (view d') \<and> others_kept (fd_pfs_index (app_fds k ! i)) (view d) (view d') \<and>
    file_written (fd_pfs_index (app_fds k ! i)) (fd_offset (app_fds k ! i)) data
      (if fd_offset (app_fds k ! i) + length data > fd_len (app_fds k ! i) then fd_offset (app_fds k ! i) + length data
       else pfs_entry_size (disk_header (view d)) (fd_pfs_index (app_fds k ! i))) (view d) (view d') \<and>
    r = int (length data) \<and> fd_offset (app_fds k' ! i) = fd_offset (app_fds k ! i) + length data \<and>
    fd_len (app_fds k' ! i) = max (fd_len (app_fds k ! i)) (fd_offset (app_fds k ! i) + length data)"
proof -
  let ?h = "app_fds k ! i"
  let ?f = "fd_pfs_index ?h" and ?o = "fd_offset ?h" and ?e = "fd_offset ?h + length data"
  have f: "?f < 256" using fds_okD(3) [OF ok, of i] h by (auto simp: writer_def)
  from write_handle_stages [OF h fds_okD(1) [OF ok] n w] obtain d1 where
    s: "pfs_write_at (ata_disk bus) now ?f ?o data d = (True, d1)" "r = int (length data)"
      "?e > fd_len ?h \<Longrightarrow> pfs_update_size (ata_disk bus) now ?f ?e d1 = (True, d')" "\<not> ?e > fd_len ?h \<Longrightarrow> d' = d1"
      "fd_offset (app_fds k' ! i) = ?e" "fd_len (app_fds k' ! i) = max (fd_len ?h) ?e" by blast
  have b: "?e < 2 ^ 64" "?e < 2 ^ 32" using n by (simp_all add: PFS_FILE_MAX_def PFS_SECTORS_PER_FILE_def)
  note d1 = block_device.pfs_write_at_done [OF dev f b(1) s(1)]
  have ok1: "dev_ok d1" using block_device.pfs_write_at_isolated [OF dev f s(1)] by blast
  have w1: "file_written ?f ?o data (pfs_entry_size (disk_header (view d)) ?f) (view d) (view d1)" "is_file (disk_header (view d1)) ?f"
    using d1 by (simp_all add: write_done_def file_written_def Let_def)
  show ?thesis
  proof (cases "?e > fd_len ?h")
    case False
    with s d1 w1 show ?thesis by simp
  next
    case True
    note u = block_device.update_size_keeps_files [OF dev(1) ok1 _ f b(2) s(3) [OF True]]
    have v1: "volume_ok (view d1)" using d1 by blast
    have "file_written ?f ?o data ?e (view d) (view d')"
      using w1 u(2,3) [OF v1] f by (simp add: file_written_def Let_def)
    with True u(1,4) [OF v1] d1 s others_kept_trans show ?thesis by auto
  qed
qed


text \<open>
  A descriptor with an out-of-date cached length truncates the file: when another descriptor has
  extended the file in the meantime, a successful write that ends beyond the cached length sets
  the file's size to the end of this write, dropping everything behind it.
\<close>

theorem stale_length_truncates:
  assumes "block_device (ata_disk bus) view dev_ok" "dev_ok d" "volume_ok (view d)" "fd_tables_ok k" "writer i k"
    "fd_offset (app_fds k ! i) + length data \<le> PFS_FILE_MAX"
    "fd_len (app_fds k ! i) < fd_offset (app_fds k ! i) + length data"
    "fd_offset (app_fds k ! i) + length data < pfs_entry_size (disk_header (view d)) (fd_pfs_index (app_fds k ! i))"
    "write_handle bus now i data k d = (r, k', d')" "r \<noteq> - 1"
  shows "pfs_entry_size (disk_header (view d')) (fd_pfs_index (app_fds k ! i)) = fd_offset (app_fds k ! i) + length data \<and>
    pfs_entry_size (disk_header (view d')) (fd_pfs_index (app_fds k ! i)) <
      pfs_entry_size (disk_header (view d)) (fd_pfs_index (app_fds k ! i))"
  using write_handle_file [OF assms(1-6,9,10)] assms(7,8) by (simp add: file_written_def Let_def)

section \<open>Concrete writes\<close>

context reliable_device
begin

lemma pfs_update_size_works:
  assumes "dev_ok d" "volume_ok (view d)" "magic_ok (disk_header (view d))" "i < 256" "pfs_entry_used (disk_header (view d)) i" "n < 2 ^ 32"
  obtains d' where "pfs_update_size disk now i n d = (True, d')"
proof -
  let ?h = "disk_header (view d)"
  obtain d1 where r: "read_header_silent disk d = (Some ?h, d1)" "dev_ok d1"
    using read_header_silent_works [OF assms(1)] assms(3) unfolding magic_ok_def by blast
  have "length (resized now i n ?h) = 39424" using resized_facts(3) assms(2,4,6) by (simp add: volume_ok_def)
  then have "fst (write_header disk (resized now i n ?h) d1)"
    using write_header_loop_works [OF r(2), of 0 77] by (simp add: write_header_def)
  then obtain d' where "write_header disk (resized now i n ?h) d1 = (True, d')" by (cases "write_header disk (resized now i n ?h) d1") simp
  with r assms(5) show thesis by (intro that [of d']) (simp add: pfs_update_size_def resized_def Let_def)
qed

end

text \<open>A kernel whose first descriptor is open for writing on file 0, with cached length 0.\<close>

definition demo_open :: kernel where
  "demo_open = set_fd 0 (pfs_fd FD_WRITE 0 0) demo_state"

lemma demo_open_facts:
  "fd_tables_ok demo_open" "writer 0 demo_open" "fd_offset (app_fds demo_open ! 0) = 0" "fd_len (app_fds demo_open ! 0) = 0"
  "fd_pfs_index (app_fds demo_open ! 0) = 0"
proof -
  have "fds_ok ((app_fds demo_state)[0 := pfs_fd FD_WRITE 0 0]) (app_pipes demo_state)"
    by (rule fds_ok_same_end [OF demo_fds_ok]) (auto simp: pfs_fd_def end_of_def demo_state_def)
  then show "fd_tables_ok demo_open" by (simp add: demo_open_def)
  show "writer 0 demo_open" "fd_offset (app_fds demo_open ! 0) = 0" "fd_len (app_fds demo_open ! 0) = 0"
    "fd_pfs_index (app_fds demo_open ! 0) = 0"
    by (simp_all add: demo_open_def demo_state_def pfs_fd_def writer_def FD_WRITE_def FD_APPEND_def)
qed

lemma demo_file_size: "pfs_entry_size demo_file 0 = 0"
  using put_entry_at(1) [OF format_header_facts(1) _ demo_file_args, of 0] by (simp add: demo_file_def accessors_of_entry)

text \<open>A write through the descriptor to file 0 of a steady device succeeds when the file can hold the data.\<close>

lemma demo_write_handle:
  assumes "dev_steady d" "volume_ok (dev_view d)" "magic_ok (disk_header (dev_view d))" "is_file (disk_header (dev_view d)) 0"
    "can_hold (disk_header (dev_view d)) 0 (length data)" "length data \<le> PFS_FILE_MAX" "data \<noteq> []"
  obtains k' d' where "write_handle dev_bus 9 0 data demo_open d = (int (length data), k', d')"
proof -
  have w: "fst (pfs_write_at (ata_disk dev_bus) 9 0 0 data d)"
    by (rule ata_steady.pfs_write_at_works [OF assms(1-3) _ assms(4)]) (use assms(5,6) in simp_all)
  then obtain d1 where d1: "pfs_write_at (ata_disk dev_bus) 9 0 0 data d = (True, d1)"
    by (cases "pfs_write_at (ata_disk dev_bus) 9 0 0 data d") simp
  have b: "length data < 2 ^ 32" "length data < 2 ^ 64" using assms(6) by (simp_all add: PFS_FILE_MAX_def PFS_SECTORS_PER_FILE_def)
  have v: "volume_ok (dev_view d1)" "is_file (disk_header (dev_view d1)) 0"
    using ata_steady.pfs_write_at_done [OF assms(1,2) _ _ d1] b by (auto simp: write_done_def Let_def)
  have s: "dev_steady d1" "magic_ok (disk_header (dev_view d1))"
    using ata_steady.pfs_write_at_isolated [OF assms(1,2) _ d1] ata_steady.pfs_write_at_magic [OF assms(1,2) _ d1]
    unfolding magic_ok_def by auto
  obtain d2 where d2: "pfs_update_size (ata_disk dev_bus) 9 0 (length data) d1 = (True, d2)"
    using ata_steady.pfs_update_size_works [OF s(1) v(1) s(2), of 0 "length data" 9] v(2) b(1) by (auto simp: is_file_def)
  have "usize_as_isize (length data) = int (length data)" using b by (simp add: usize_as_isize_def)
  then show thesis
    using that d1 d2 assms(6,7) b demo_open_facts
    by (simp add: write_handle_def writer_def Let_def usize_add_def)
qed


text \<open>The same file after another descriptor has extended it to 1000 bytes.\<close>

lemma demo_extended:
  obtains d where "pfs_update_size (ata_disk dev_bus) 9 0 1000 demo_dev = (True, d)" "dev_steady d" "volume_ok (dev_view d)"
    "magic_ok (disk_header (dev_view d))" "is_file (disk_header (dev_view d)) 0" "can_hold (disk_header (dev_view d)) 0 5"
    "pfs_entry_size (disk_header (dev_view d)) 0 = 1000"
proof -
  have used: "pfs_entry_used (disk_header (dev_view demo_dev)) 0" using demo_is_file by (simp add: is_file_def)
  obtain d where d: "pfs_update_size (ata_disk dev_bus) 9 0 1000 demo_dev = (True, d)"
    using ata_steady.pfs_update_size_works [OF demo_dev_facts(1,4) _ _ used, of 1000 9] demo_dev_facts(3,5) by auto
  note l = ata_steady.pfs_update_size_law [OF demo_dev_facts(1,4) _ _ d]
  note k = ata_steady.update_size_keeps_files [OF demo_dev_facts(1,4) _ _ d]
  let ?h = "disk_header (dev_view d)"
  have h: "?h = resized 9 0 1000 demo_file" using l(2) by (simp add: demo_dev_facts(3))
  note r = resized_facts [OF demo_file_facts(1,5), of 0 1000, where now = 9, folded h, simplified]
  have at: "pfs_entry_at ?h j = (if j = 0 then (pfs_entry_at demo_file 0)\<lparr>e_size := 1000, e_modified := 9\<rparr> else pfs_entry_at demo_file j)"
    if "j < 256" for j using r(4) [OF that] .
  have f: "is_file ?h j \<longleftrightarrow> j = 0" if "j < 256" for j
    using that at [OF that] demo_file_facts(2) [OF that] by (auto simp: is_file_def accessors_of_entry split: if_splits)
  have x: "entry_extents ?h 0 = []" using at [of 0] demo_file_facts(3) by (simp add: entry_extents_def)
  have u: "in_use ?h (Some 0) = {}" using f by (auto simp: in_use_def)
  have "\<exists>es'. grow_loop ?h [] (sectors_for_len 5 - pfs_entry_total_sectors ?h 0) PFS_DATA_START (Some 0) = Some es'"
    using x u r(2) length_e_extents [of ?h 0]
    by (intro grow_loop_contiguous alloc_wf_extents_ok)
      (simp_all add: sectors_for_len_def pfs_entry_total_sectors_def accessors_of_entry entry_extents_def)
  then have hold: "can_hold ?h 0 5" using x by (auto simp: can_hold_def pfs_grow_extents_def)
  have "subslice ?h 0 8 = subslice demo_file 0 8"
    unfolding h resized_def pfs_touch_modified_def using header_wfD(1) [OF demo_file_facts(1)]
    by (simp add: header_ok_def pfs_entry_offset_def slice_copy_at_out)
  then have "magic_ok ?h" using demo_dev_facts(5) by (simp only: magic_ok_def)
  then show thesis using that d l(1) k(1,2) f hold by auto
qed

theorem stale_length_truncates_witness:
  "\<exists>d k' d'. pfs_entry_size (disk_header (dev_view d)) 0 = 1000 \<and>
     write_handle dev_bus 9 0 (replicate 5 65) demo_open d = (5, k', d') \<and>
     pfs_entry_size (disk_header (dev_view d')) 0 = 5"
proof -
  obtain d where d: "dev_steady d" "volume_ok (dev_view d)" "magic_ok (disk_header (dev_view d))" "is_file (disk_header (dev_view d)) 0"
    "can_hold (disk_header (dev_view d)) 0 5" "pfs_entry_size (disk_header (dev_view d)) 0 = 1000"
    by (rule demo_extended)
  obtain k' d' where w: "write_handle dev_bus 9 0 (replicate 5 65) demo_open d = (int (length (replicate 5 (65::u8))), k', d')"
    by (rule demo_write_handle [OF d(1-4), of "replicate 5 65"])
      (use d(5) in \<open>simp_all add: PFS_FILE_MAX_def PFS_SECTORS_PER_FILE_def\<close>)
  from stale_length_truncates [OF ata_steady.block_device_axioms d(1,2) demo_open_facts(1,2) _ _ _ w] w d(6)
  show ?thesis using demo_open_facts by (auto simp: PFS_FILE_MAX_def PFS_SECTORS_PER_FILE_def)
qed

end
