(* ===== verification/User_Runtime.thy ===== *)
theory User_Runtime
  imports User_Heap Program_Spawn File_Handles
begin

text \<open>
  The calls of the user runtime, \<^verbatim>\<open>runtime/rymos-user/src/lib.rs\<close>: each passes its slices to the kernel's table
  of calls and turns the integer result into an option or a truth value, with the helpers of \<^verbatim>\<open>stdish\<close> on top.
  \<^verbatim>\<open>_start\<close> stores the table before the program runs, so \<^verbatim>\<open>with_abi\<close> always finds it.  A slice is never a null
  pointer.  The kernel and the devices are threaded through; the value \<^term>\<open>None\<close> of an outer option is a
  call that does not return: it waits for input for ever, or the kernel panics.
\<close>

section \<open>Wrappers\<close>

definition user_write :: "'d port_bus \<Rightarrow> u64 \<Rightarrow> bytes \<Rightarrow> kernel \<Rightarrow> 'd \<Rightarrow> kernel \<times> 'd" where
  "user_write bus now data k d =
     (case abi_write_fd bus now STDOUT_FD (Some data) k d of
        (r, k, d) \<Rightarrow> (if r < 0 then abi_write (Some data) k else k, d))"

definition user_println :: "'d port_bus \<Rightarrow> u64 \<Rightarrow> bytes \<Rightarrow> kernel \<Rightarrow> 'd \<Rightarrow> kernel \<times> 'd" where
  "user_println bus now line k d = (case user_write bus now line k d of (k, d) \<Rightarrow> user_write bus now [10] k d)"

fun digit_loop :: "nat \<Rightarrow> bytes" where
  "digit_loop v = (if v > 0 then (48 + of_nat (v mod 10)) # digit_loop (v div 10) else [])"

declare digit_loop.simps [simp del]

fun write_each :: "'d port_bus \<Rightarrow> u64 \<Rightarrow> bytes \<Rightarrow> kernel \<Rightarrow> 'd \<Rightarrow> kernel \<times> 'd" where
  "write_each bus now [] k d = (k, d)"
| "write_each bus now (b # bs) k d = (case user_write bus now [b] k d of (k, d) \<Rightarrow> write_each bus now bs k d)"

definition user_print_usize :: "'d port_bus \<Rightarrow> u64 \<Rightarrow> nat \<Rightarrow> kernel \<Rightarrow> 'd \<Rightarrow> kernel \<times> 'd" where
  "user_print_usize bus now v k d =
     (if v = 0 then user_write bus now [48] k d else write_each bus now (rev (digit_loop v)) k d)"

definition hex_digits :: "u64 \<Rightarrow> bytes" where
  "hex_digits v =
     map (\<lambda>i. let digit = ucast (drop_bit (4 * i) v AND 0x0F) in if digit < 10 then 48 + digit else 65 + (digit - 10)) (rev [0..<16])"

definition user_print_hex_usize :: "'d port_bus \<Rightarrow> u64 \<Rightarrow> u64 \<Rightarrow> kernel \<Rightarrow> 'd \<Rightarrow> kernel \<times> 'd" where
  "user_print_hex_usize bus now v k d =
     (case user_write bus now (lit ''0x'') k d of (k, d) \<Rightarrow> write_each bus now (hex_digits v) k d)"

text \<open>
  A buffer argument is its length; the kernel returns the bytes it stored at the front of the buffer, and the
  slice handed back has the length the kernel reported, cut to the buffer.  Buffers start zeroed.
\<close>

definition user_slice :: "nat \<Rightarrow> bytes \<Rightarrow> int \<Rightarrow> bytes option" where
  "user_slice buffer_len stored len =
     (if len < 0 then None else Some (take (min (nat len) buffer_len) (stored @ replicate (buffer_len - length stored) 0)))"

definition user_args :: "nat \<Rightarrow> kernel \<Rightarrow> bytes" where
  "user_args buffer_len k =
     (case abi_args (Some buffer_len) k of
        (len, stored) \<Rightarrow> take (min len buffer_len) (stored @ replicate (buffer_len - length stored) 0))"

definition user_argv :: "nat \<Rightarrow> nat \<Rightarrow> kernel \<Rightarrow> bytes option \<times> kernel" where
  "user_argv index buffer_len k =
     (case abi_argv_get index (Some buffer_len) k of (len, stored, k) \<Rightarrow> (user_slice buffer_len stored len, k))"

definition user_file_size :: "bytes \<Rightarrow> kernel \<Rightarrow> nat option" where
  "user_file_size path k = (let n = abi_file_size (Some path) k in if n < 0 then None else Some (nat n))"

definition user_file_read :: "bytes \<Rightarrow> nat \<Rightarrow> kernel \<Rightarrow> bytes option" where
  "user_file_read path buffer_len k =
     (case abi_file_read (Some path) (Some buffer_len) k of (r, stored) \<Rightarrow> user_slice buffer_len stored r)"

definition user_stat :: "'d port_bus \<Rightarrow> bytes \<Rightarrow> kernel \<Rightarrow> 'd \<Rightarrow> rymos_stat option \<times> kernel \<times> 'd" where
  "user_stat bus path k d =
     (case abi_stat bus (Some path) True k d of (ok, st, k, d) \<Rightarrow> (if ok = 0 then st else None, k, d))"

definition user_list :: "'d port_bus \<Rightarrow> bytes \<Rightarrow> nat \<Rightarrow> nat \<Rightarrow> kernel \<Rightarrow> 'd \<Rightarrow> (bytes \<times> rymos_stat) option \<times> kernel \<times> 'd" where
  "user_list bus namespace index buffer_len k d =
     (case abi_list bus (Some namespace) index (Some buffer_len) True k d of
        (len, entry, k, d) \<Rightarrow>
          (if len < 0 then None
           else map_option (\<lambda>(stored, st). (take (min (nat len) buffer_len) (stored @ replicate (buffer_len - length stored) 0), st)) entry,
           k, d))"

definition user_mkdir :: "'d port_bus \<Rightarrow> u64 \<Rightarrow> bytes \<Rightarrow> kernel \<Rightarrow> 'd \<Rightarrow> bool \<times> kernel \<times> 'd" where
  "user_mkdir bus now path k d = (case abi_mkdir bus now (Some path) k d of (r, k, d) \<Rightarrow> (r = 0, k, d))"

definition user_env_get :: "bytes \<Rightarrow> nat \<Rightarrow> kernel \<Rightarrow> bytes option \<times> kernel" where
  "user_env_get key value_len k =
     (case abi_env_get (Some key) (Some value_len) k of (len, stored, k) \<Rightarrow> (user_slice value_len stored len, k))"

definition user_env_list :: "nat \<Rightarrow> nat \<Rightarrow> nat \<Rightarrow> kernel \<Rightarrow> (bytes \<times> bytes) option \<times> kernel" where
  "user_env_list index key_len value_len k =
     (case abi_env_list index (Some key_len) (Some value_len) k of
        (packed, key, val, k) \<Rightarrow>
          (if packed < 0 then None
           else
             let kl = nat (drop_bit 32 packed AND 0xFFFFFFFF); vl = nat (packed AND 0xFFFFFFFF) in
             Some (take (min kl key_len) (key @ replicate (key_len - length key) 0),
                   take (min vl value_len) (val @ replicate (value_len - length val) 0)), k))"

definition user_env_set :: "bytes \<Rightarrow> bytes \<Rightarrow> kernel \<Rightarrow> bool \<times> kernel" where
  "user_env_set key val k = (case abi_env_set (Some key) (Some val) k of (r, k) \<Rightarrow> (r = 0, k))"

definition user_env_remove :: "bytes \<Rightarrow> kernel \<Rightarrow> bool \<times> kernel" where
  "user_env_remove key k = (case abi_env_remove (Some key) k of (r, k) \<Rightarrow> (r = 0, k))"

text \<open>A process number is read back from the signed result; an error is the negative result itself.\<close>

definition spawn_result :: "(int \<times> kernel) outcome \<Rightarrow> ((int + u32) \<times> kernel) option" where
  "spawn_result r = (case r of Panic \<Rightarrow> None | Ret (pid, k) \<Rightarrow> Some (if pid < 0 then Inl pid else Inr (of_int pid), k))"

definition user_spawn :: "(u64 \<Rightarrow> u8) \<Rightarrow> u64 \<Rightarrow> bytes \<Rightarrow> bytes \<Rightarrow> kernel \<Rightarrow> ((int + u32) \<times> kernel) option" where
  "user_spawn beyond trampoline name args k = spawn_result (abi_spawn beyond trampoline (Some name) (Some args) k)"

definition user_spawn_argv :: "(u64 \<Rightarrow> u8) \<Rightarrow> u64 \<Rightarrow> bytes \<Rightarrow> bytes list \<Rightarrow> kernel \<Rightarrow> ((int + u32) \<times> kernel) option" where
  "user_spawn_argv beyond trampoline name argv k =
     spawn_result (abi_spawn_argv beyond trampoline (Some name) (Some (map Some argv)) k)"

definition user_mem_map_pages :: "nat \<Rightarrow> u32 \<Rightarrow> kernel \<Rightarrow> u64 option \<times> kernel" where
  "user_mem_map_pages pages flags k =
     (case abi_mem_map_pages pages flags k of (address, k) \<Rightarrow> (if address = 0 then None else Some address, k))"

definition user_mem_unmap_pages :: "u64 \<Rightarrow> nat \<Rightarrow> kernel \<Rightarrow> bool \<times> kernel" where
  "user_mem_unmap_pages address pages k = (case abi_mem_unmap_pages address pages k of (r, k) \<Rightarrow> (r = 0, k))"

definition user_term_size :: "kernel \<Rightarrow> (nat \<times> nat) option \<times> kernel" where
  "user_term_size k = (case abi_term_size True k of (r, dims, k) \<Rightarrow> (if r = 0 then dims else None, k))"

definition user_unlink :: "'d port_bus \<Rightarrow> bytes \<Rightarrow> kernel \<Rightarrow> 'd \<Rightarrow> bool \<times> kernel \<times> 'd" where
  "user_unlink bus path k d = (case abi_unlink bus (Some path) k d of (r, k, d) \<Rightarrow> (r = 0, k, d))"

definition user_rename :: "'d port_bus \<Rightarrow> u64 \<Rightarrow> bytes \<Rightarrow> bytes \<Rightarrow> kernel \<Rightarrow> 'd \<Rightarrow> bool \<times> kernel \<times> 'd" where
  "user_rename bus now old_path new_path k d =
     (case abi_rename bus now (Some old_path) (Some new_path) k d of (r, k, d) \<Rightarrow> (r = 0, k, d))"

definition user_cwd :: "nat \<Rightarrow> kernel \<Rightarrow> bytes option \<times> kernel" where
  "user_cwd buffer_len k = (case abi_cwd (Some buffer_len) k of (len, stored, k) \<Rightarrow> (user_slice buffer_len stored len, k))"

definition user_chdir :: "'d port_bus \<Rightarrow> bytes \<Rightarrow> kernel \<Rightarrow> 'd \<Rightarrow> (bool \<times> kernel \<times> 'd) option" where
  "user_chdir bus path k d =
     (case abi_chdir bus (Some path) k d of (Panic, d) \<Rightarrow> None | (Ret (r, k), d) \<Rightarrow> Some (r = 0, k, d))"

definition user_pipe :: "kernel \<Rightarrow> (int \<times> int) option \<times> kernel" where
  "user_pipe k = (case abi_pipe True k of (r, fds, k) \<Rightarrow> (if r = 0 then fds else None, k))"

definition user_dup2 :: "int \<Rightarrow> int \<Rightarrow> kernel \<Rightarrow> bool \<times> kernel" where
  "user_dup2 old_fd new_fd k = (case abi_dup2 old_fd new_fd k of (r, k) \<Rightarrow> (r = new_fd, k))"

definition user_fd_read :: "'d port_bus \<Rightarrow> int \<Rightarrow> nat \<Rightarrow> kernel \<Rightarrow> 'd \<Rightarrow> (bytes option \<times> kernel \<times> 'd) option" where
  "user_fd_read bus fd buffer_len k d =
     map_option (\<lambda>(r, stored, k, d). (user_slice buffer_len stored r, k, d)) (abi_read bus fd (Some buffer_len) k d)"

definition user_fd_write :: "'d port_bus \<Rightarrow> u64 \<Rightarrow> int \<Rightarrow> bytes \<Rightarrow> kernel \<Rightarrow> 'd \<Rightarrow> nat option \<times> kernel \<times> 'd" where
  "user_fd_write bus now fd data k d =
     (case abi_write_fd bus now fd (Some data) k d of (r, k, d) \<Rightarrow> (if r < 0 then None else Some (nat r), k, d))"

definition user_close_fd :: "int \<Rightarrow> kernel \<Rightarrow> bool \<times> kernel" where
  "user_close_fd fd k = (case abi_close fd k of (r, k) \<Rightarrow> (r = 0, k))"

definition user_read_line :: "'d port_bus \<Rightarrow> nat \<Rightarrow> kernel \<Rightarrow> 'd \<Rightarrow> (bytes \<times> kernel \<times> 'd) option" where
  "user_read_line bus buffer_len k d =
     map_option (\<lambda>(line, con, d). (take (min (length line) buffer_len) line, k\<lparr>app_console := con\<rparr>, d))
       (abi_read_line bus (Some buffer_len) (app_console k) d)"

definition stat_is_dir :: "rymos_stat \<Rightarrow> bool" where "stat_is_dir st \<longleftrightarrow> stat_kind st = STAT_KIND_DIR"
definition stat_is_file :: "rymos_stat \<Rightarrow> bool" where "stat_is_file st \<longleftrightarrow> stat_kind st = STAT_KIND_FILE"
definition stat_readonly :: "rymos_stat \<Rightarrow> bool" where "stat_readonly st \<longleftrightarrow> stat_mode st AND 2 = 0"

section \<open>Files\<close>

text \<open>A file is its descriptor; dropping it closes a descriptor that is not negative.\<close>

definition file_open_mode :: "'d port_bus \<Rightarrow> u64 \<Rightarrow> bytes \<Rightarrow> u32 \<Rightarrow> kernel \<Rightarrow> 'd \<Rightarrow> int option \<times> kernel \<times> 'd" where
  "file_open_mode bus now path flags k d =
     (case abi_open bus now (Some path) flags k d of (fd, k, d) \<Rightarrow> (if fd < 0 then None else Some fd, k, d))"

definition file_open :: "'d port_bus \<Rightarrow> u64 \<Rightarrow> bytes \<Rightarrow> kernel \<Rightarrow> 'd \<Rightarrow> int option \<times> kernel \<times> 'd" where
  "file_open bus now path = file_open_mode bus now path FD_READ"

definition file_create :: "'d port_bus \<Rightarrow> u64 \<Rightarrow> bytes \<Rightarrow> kernel \<Rightarrow> 'd \<Rightarrow> int option \<times> kernel \<times> 'd" where
  "file_create bus now path = file_open_mode bus now path (FD_READ OR FD_WRITE OR FD_CREATE OR FD_TRUNCATE)"

definition file_append :: "'d port_bus \<Rightarrow> u64 \<Rightarrow> bytes \<Rightarrow> kernel \<Rightarrow> 'd \<Rightarrow> int option \<times> kernel \<times> 'd" where
  "file_append bus now path = file_open_mode bus now path (FD_WRITE OR FD_CREATE OR FD_APPEND)"

definition user_seek :: "int \<Rightarrow> nat \<Rightarrow> kernel \<Rightarrow> nat option \<times> kernel" where
  "user_seek fd offset k = (case abi_seek fd offset k of (r, k) \<Rightarrow> (if r < 0 then None else Some (nat r), k))"

definition file_drop :: "int \<Rightarrow> kernel \<Rightarrow> kernel" where
  "file_drop fd k = (if fd \<ge> 0 then snd (user_close_fd fd k) else k)"

definition set_flag :: "u32 \<Rightarrow> bool \<Rightarrow> u32 \<Rightarrow> u32" where
  "set_flag flag enabled flags = (if enabled then flags OR flag else flags AND NOT flag)"

datatype open_option = OptRead bool | OptWrite bool | OptAppend bool | OptCreate bool | OptCreateNew bool | OptTruncate bool

text \<open>The methods of \<^verbatim>\<open>OpenOptions\<close>, one constructor each.\<close>

fun apply_option :: "open_option \<Rightarrow> u32 \<Rightarrow> u32" where
  "apply_option (OptRead b) flags = set_flag FD_READ b flags"
| "apply_option (OptWrite b) flags = set_flag FD_WRITE b flags"
| "apply_option (OptAppend b) flags = (let flags = set_flag FD_APPEND b flags in if b then set_flag FD_WRITE True flags else flags)"
| "apply_option (OptCreate b) flags = set_flag FD_CREATE b flags"
| "apply_option (OptCreateNew b) flags =
     (let flags = set_flag FD_CREATE_NEW b flags in if b then set_flag FD_CREATE True flags else flags)"
| "apply_option (OptTruncate b) flags = set_flag FD_TRUNCATE b flags"

definition options_open :: "'d port_bus \<Rightarrow> u64 \<Rightarrow> open_option list \<Rightarrow> bytes \<Rightarrow> kernel \<Rightarrow> 'd \<Rightarrow> int option \<times> kernel \<times> 'd" where
  "options_open bus now opts path = file_open_mode bus now path (fold apply_option opts 0)"

section \<open>The \<^verbatim>\<open>stdish\<close> helpers\<close>

text \<open>A result is an error code or a value; \<^verbatim>\<open>Error::last\<close> is the code the kernel recorded last.\<close>

definition ok_or_last :: "bool \<times> kernel \<times> 'd \<Rightarrow> (int + unit) \<times> kernel \<times> 'd" where
  "ok_or_last r = (case r of (ok, k, d) \<Rightarrow> (if ok then Inr () else Inl (abi_last_error k), k, d))"

definition fs_metadata :: "'d port_bus \<Rightarrow> bytes \<Rightarrow> kernel \<Rightarrow> 'd \<Rightarrow> (int + rymos_stat) \<times> kernel \<times> 'd" where
  "fs_metadata bus path k d =
     (case user_stat bus path k d of (Some st, k, d) \<Rightarrow> (Inr st, k, d) | (None, k, d) \<Rightarrow> (Inl (abi_last_error k), k, d))"

definition fs_exists :: "'d port_bus \<Rightarrow> bytes \<Rightarrow> kernel \<Rightarrow> 'd \<Rightarrow> bool \<times> kernel \<times> 'd" where
  "fs_exists bus path k d = (case user_stat bus path k d of (st, k, d) \<Rightarrow> (st \<noteq> None, k, d))"

definition create_dir :: "'d port_bus \<Rightarrow> u64 \<Rightarrow> bytes \<Rightarrow> kernel \<Rightarrow> 'd \<Rightarrow> (int + unit) \<times> kernel \<times> 'd" where
  "create_dir bus now path k d = ok_or_last (user_mkdir bus now path k d)"

definition user_components :: "bytes \<Rightarrow> bytes list" where
  "user_components bs = pfs_components bs 0"

text \<open>The loop of \<^verbatim>\<open>create_dir_all\<close> over the components, with the path built so far.\<close>

fun create_dirs :: "'d port_bus \<Rightarrow> u64 \<Rightarrow> bytes list \<Rightarrow> bytes \<Rightarrow> kernel \<Rightarrow> 'd \<Rightarrow> (int + unit) \<times> kernel \<times> 'd" where
  "create_dirs bus now [] current k d = (Inr (), k, d)"
| "create_dirs bus now (component # rest) current k d =
     (if component = lit ''.'' then create_dirs bus now rest current k d
      else if component = lit ''..'' then (Inl ERR_INVAL, k, d)
      else
        let current = (if current \<noteq> [] \<and> \<not> ends_with current (lit '':'') then current @ [47] else current) @ component in
        case user_stat bus current k d of
          (Some st, k, d) \<Rightarrow>
            if stat_kind st = STAT_KIND_DIR then create_dirs bus now rest current k d else (Inl ERR_NOTDIR, k, d)
        | (None, k, d) \<Rightarrow>
            (case user_mkdir bus now current k d of
               (True, k, d) \<Rightarrow> create_dirs bus now rest current k d
             | (False, k, d) \<Rightarrow> (Inl (abi_last_error k), k, d)))"

definition create_dir_all :: "'d port_bus \<Rightarrow> u64 \<Rightarrow> bytes \<Rightarrow> kernel \<Rightarrow> 'd \<Rightarrow> (int + unit) \<times> kernel \<times> 'd" where
  "create_dir_all bus now path k d =
     (if starts_with path (lit ''pfs:'')
      then create_dirs bus now (user_components (dropWhile (\<lambda>b. b = 47) (drop 4 path))) (lit ''pfs:'') k d
      else create_dirs bus now (user_components path) [] k d)"

partial_function (option) read_to_end ::
  "'d port_bus \<Rightarrow> int \<Rightarrow> bytes \<Rightarrow> kernel \<Rightarrow> 'd \<Rightarrow> ((int + bytes) \<times> kernel \<times> 'd) option" where
  "read_to_end bus fd data k d =
     Option.bind (user_fd_read bus fd 256 k d) (\<lambda>(chunk, k, d).
       case chunk of
         None \<Rightarrow> Some (Inl (abi_last_error k), k, d)
       | Some chunk \<Rightarrow> if chunk = [] then Some (Inr data, k, d) else read_to_end bus fd (data @ chunk) k d)"

text \<open>\<^verbatim>\<open>write_all\<close> of a file and \<^verbatim>\<open>fd_write_all\<close> of a descriptor have the same loop; the data shrinks.\<close>

function fd_write_all :: "'d port_bus \<Rightarrow> u64 \<Rightarrow> int \<Rightarrow> bytes \<Rightarrow> kernel \<Rightarrow> 'd \<Rightarrow> (int + unit) \<times> kernel \<times> 'd" where
  "fd_write_all bus now fd data k d =
     (if data = [] then (Inr (), k, d)
      else case user_fd_write bus now fd data k d of
        (None, k, d) \<Rightarrow> (Inl (abi_last_error k), k, d)
      | (Some written, k, d) \<Rightarrow>
          if written = 0 \<or> written > length data then (Inl ERR_IO, k, d)
          else fd_write_all bus now fd (drop written data) k d)"
  by pat_completeness auto
termination by (relation "measure (\<lambda>(bus, now, fd, data, k, d). length data)") auto

declare fd_write_all.simps [simp del]

definition io_stdin_read :: "'d port_bus \<Rightarrow> nat \<Rightarrow> kernel \<Rightarrow> 'd \<Rightarrow> ((int + bytes) \<times> kernel \<times> 'd) option" where
  "io_stdin_read bus buffer_len k d =
     map_option (\<lambda>(r, k, d). (case r of Some data \<Rightarrow> Inr data | None \<Rightarrow> Inl (abi_last_error k), k, d)) (user_fd_read bus STDIN_FD buffer_len k d)"

definition io_stdout_write_all :: "'d port_bus \<Rightarrow> u64 \<Rightarrow> bytes \<Rightarrow> kernel \<Rightarrow> 'd \<Rightarrow> (int + unit) \<times> kernel \<times> 'd" where
  "io_stdout_write_all bus now data = fd_write_all bus now STDOUT_FD data"

definition io_stderr_write_all :: "'d port_bus \<Rightarrow> u64 \<Rightarrow> bytes \<Rightarrow> kernel \<Rightarrow> 'd \<Rightarrow> (int + unit) \<times> kernel \<times> 'd" where
  "io_stderr_write_all bus now data = fd_write_all bus now STDERR_FD data"

definition fs_read :: "'d port_bus \<Rightarrow> u64 \<Rightarrow> bytes \<Rightarrow> kernel \<Rightarrow> 'd \<Rightarrow> ((int + bytes) \<times> kernel \<times> 'd) option" where
  "fs_read bus now path k d =
     (case file_open bus now path k d of
        (None, k, d) \<Rightarrow> Some (Inl (abi_last_error k), k, d)
      | (Some fd, k, d) \<Rightarrow> map_option (\<lambda>(r, k, d). (r, file_drop fd k, d)) (read_to_end bus fd [] k d))"

definition write_opened :: "'d port_bus \<Rightarrow> u64 \<Rightarrow> bytes \<Rightarrow> int option \<times> kernel \<times> 'd \<Rightarrow> (int + unit) \<times> kernel \<times> 'd" where
  "write_opened bus now data opened =
     (case opened of
        (None, k, d) \<Rightarrow> (Inl (abi_last_error k), k, d)
      | (Some fd, k, d) \<Rightarrow> (case fd_write_all bus now fd data k d of (r, k, d) \<Rightarrow> (r, file_drop fd k, d)))"

definition fs_write :: "'d port_bus \<Rightarrow> u64 \<Rightarrow> bytes \<Rightarrow> bytes \<Rightarrow> kernel \<Rightarrow> 'd \<Rightarrow> (int + unit) \<times> kernel \<times> 'd" where
  "fs_write bus now path data k d = write_opened bus now data (file_create bus now path k d)"

definition fs_append :: "'d port_bus \<Rightarrow> u64 \<Rightarrow> bytes \<Rightarrow> bytes \<Rightarrow> kernel \<Rightarrow> 'd \<Rightarrow> (int + unit) \<times> kernel \<times> 'd" where
  "fs_append bus now path data k d = write_opened bus now data (file_append bus now path k d)"

definition remove_file :: "'d port_bus \<Rightarrow> bytes \<Rightarrow> kernel \<Rightarrow> 'd \<Rightarrow> (int + unit) \<times> kernel \<times> 'd" where
  "remove_file bus path k d = ok_or_last (user_unlink bus path k d)"

definition fs_rename :: "'d port_bus \<Rightarrow> u64 \<Rightarrow> bytes \<Rightarrow> bytes \<Rightarrow> kernel \<Rightarrow> 'd \<Rightarrow> (int + unit) \<times> kernel \<times> 'd" where
  "fs_rename bus now old_path new_path k d = ok_or_last (user_rename bus now old_path new_path k d)"

text \<open>The iterators step an index: the entry and the next index.\<close>

definition read_dir_next ::
  "'d port_bus \<Rightarrow> bytes \<Rightarrow> nat \<Rightarrow> kernel \<Rightarrow> 'd \<Rightarrow> ((bytes \<times> rymos_stat) \<times> nat) option \<times> kernel \<times> 'd" where
  "read_dir_next bus path index k d =
     (case user_list bus path index 64 k d of (entry, k, d) \<Rightarrow> (map_option (\<lambda>e. (e, index + 1)) entry, k, d))"

definition env_vars_next :: "nat \<Rightarrow> kernel \<Rightarrow> ((bytes \<times> bytes) \<times> nat) option \<times> kernel" where
  "env_vars_next index k =
     (case user_env_list index 32 128 k of (entry, k) \<Rightarrow> (map_option (\<lambda>e. (e, index + 1)) entry, k))"

definition env_var :: "bytes \<Rightarrow> kernel \<Rightarrow> (int + bytes) \<times> kernel" where
  "env_var key k =
     (case user_env_get key 128 k of (Some v, k) \<Rightarrow> (Inr v, k) | (None, k) \<Rightarrow> (Inl (abi_last_error k), k))"

definition env_set_var :: "bytes \<Rightarrow> bytes \<Rightarrow> kernel \<Rightarrow> (int + unit) \<times> kernel" where
  "env_set_var key val k = (case user_env_set key val k of (ok, k) \<Rightarrow> (if ok then Inr () else Inl (abi_last_error k), k))"

definition env_remove_var :: "bytes \<Rightarrow> kernel \<Rightarrow> (int + unit) \<times> kernel" where
  "env_remove_var key k = (case user_env_remove key k of (ok, k) \<Rightarrow> (if ok then Inr () else Inl (abi_last_error k), k))"

definition current_dir :: "kernel \<Rightarrow> (int + bytes) \<times> kernel" where
  "current_dir k = (case user_cwd 96 k of (Some dir, k) \<Rightarrow> (Inr dir, k) | (None, k) \<Rightarrow> (Inl (abi_last_error k), k))"

definition set_current_dir :: "'d port_bus \<Rightarrow> bytes \<Rightarrow> kernel \<Rightarrow> 'd \<Rightarrow> ((int + unit) \<times> kernel \<times> 'd) option" where
  "set_current_dir bus path k d = map_option ok_or_last (user_chdir bus path k d)"

definition temp_dir :: "kernel \<Rightarrow> bytes \<times> kernel" where
  "temp_dir k = (case env_var (lit ''TMPDIR'') k of (Inr dir, k) \<Rightarrow> (dir, k) | (Inl _, k) \<Rightarrow> (lit ''pfs:tmp'', k))"

definition path_join :: "bytes \<Rightarrow> bytes \<Rightarrow> bytes" where
  "path_join base child =
     (if starts_with child (lit ''pfs:'') \<or> starts_with child (lit ''/'') then child
      else (if base \<noteq> [] \<and> \<not> ends_with base (lit '':'') \<and> \<not> ends_with base (lit ''/'') then base @ [47] else base) @ child)"

definition path_file_name :: "bytes \<Rightarrow> bytes" where
  "path_file_name path =
     (case find_last_byte path 47 of
        Some index \<Rightarrow> drop (index + 1) path
      | None \<Rightarrow> if starts_with path (lit ''pfs:'') then drop 4 path else path)"

definition display_lossy :: "bytes \<Rightarrow> bytes" where
  "display_lossy path = map (\<lambda>b. if is_ascii_graphic b \<or> b = 32 then b else 63) path"

definition elapsed_ticks :: "u64 \<Rightarrow> u64 \<Rightarrow> u64" where
  "elapsed_ticks started now = saturating_sub now started"

partial_function (option) read_all_available ::
  "'d port_bus \<Rightarrow> int \<Rightarrow> bytes \<Rightarrow> kernel \<Rightarrow> 'd \<Rightarrow> (bytes \<times> kernel \<times> 'd) option" where
  "read_all_available bus fd data k d =
     Option.bind (user_fd_read bus fd 128 k d) (\<lambda>(chunk, k, d).
       case chunk of
         None \<Rightarrow> Some (data, k, d)
       | Some chunk \<Rightarrow>
           if chunk = [] then Some (data, k, d)
           else if length chunk < 128 then Some (data @ chunk, k, d)
           else read_all_available bus fd (data @ chunk) k d)"

section \<open>Paths\<close>

lemma user_components_tokens: "user_components bs = tokens (\<lambda>b. b = 47) bs"
  by (simp add: user_components_def pfs_components_tokens)

lemma ends_with_single: "ends_with v [b] \<longleftrightarrow> v \<noteq> [] \<and> last v = b"
  by (cases v rule: rev_cases) (auto simp: ends_with_def)

text \<open>
  The last component of a joined path is the child, when the child is a plain name and the base does not end in a
  colon other than the one of the namespace.
\<close>

lemma path_join_file_name:
  assumes c: "47 \<notin> set child" "\<not> starts_with child (lit ''pfs:'')"
    and b: "base = lit ''pfs:'' \<or> base = [] \<or> last base \<noteq> 58"
  shows "path_file_name (path_join base child) = child"
proof -
  have ns: "\<not> starts_with child (lit ''/'')" using c(1) by (auto simp: starts_with_iff)
  consider "base = lit ''pfs:''" | "base = []" | pre where "base = pre @ [47]"
    | "base \<noteq> []" "last base \<noteq> 58" "last base \<noteq> 47"
    using b by (metis append_butlast_last_id)
  then show ?thesis
  proof cases
    case 1
    have "path_join base child = lit ''pfs:'' @ child" using ns c(2) by (simp add: path_join_def 1 ends_with_def)
    moreover have "find_last_byte (lit ''pfs:'' @ child) 47 = None" using c(1) by (simp add: find_last_byte_None)
    ultimately show ?thesis by (simp add: path_file_name_def starts_with_def)
  next
    case 2
    then have "path_join base child = child" using ns c(2) by (simp add: path_join_def)
    then show ?thesis using c find_last_byte_None [of child 47] by (simp add: path_file_name_def)
  next
    case (3 pre)
    then have "path_join base child = pre @ 47 # child" using ns c(2) by (simp add: path_join_def ends_with_def)
    then show ?thesis using c(1) by (simp add: path_file_name_def find_last_byte_append)
  next
    case 4
    then have "path_join base child = base @ 47 # child" using ns c(2) by (simp add: path_join_def ends_with_single)
    then show ?thesis using c(1) by (simp add: path_file_name_def find_last_byte_append)
  qed
qed

section \<open>Reading and writing whole pipes\<close>

lemma resolve_high: "3 \<le> fd \<Longrightarrow> app_resolve_fd fd k = fd"
  by (simp add: app_resolve_fd_def STDERR_FD_def)

lemma fd_index_high: "r < 32 \<Longrightarrow> app_fd_index (int r + 3) = Some r"
  by (simp add: app_fd_index_def APP_FD_BASE_def APP_FD_COUNT_def)

lemma pipe_read_call:
  assumes ok: "fd_tables_ok k" and j: "joined p w r k"
  obtains k' where "user_fd_read bus (int r + 3) n k d = Some (Some (take n (pipe_contents (app_pipes k ! p))), k', d)"
    "fd_tables_ok k'" "joined p w r k'" "pipe_contents (app_pipes k' ! p) = drop n (pipe_contents (app_pipes k ! p))"
    "process_table k' = process_table k" "current_process_index k' = current_process_index k"
proof -
  have r: "r < 32" using j by (simp add: joined_def)
  obtain ret data k' d' where e: "read_handle bus r n k d = (ret, data, k', d')" by (metis prod_cases4)
  note l = joined_read [OF ok j e]
  have f: "fd_is_open (app_fds k ! r)" "fd_kind (app_fds k ! r) = KindPipeRead" using j by (simp_all add: joined_def end_of_def)
  have same: "d' = d" "process_table k' = process_table k" "current_process_index k' = current_process_index k"
    using e f by (auto simp: read_handle_def Let_def set_pipe_def split: if_splits prod.splits)
  have u: "user_slice n data ret = Some data" using l by (auto simp: user_slice_def min_def)
  have "user_fd_read bus (int r + 3) n k d = Some (Some data, k', d)"
    using e u same(1) by (simp add: user_fd_read_def abi_read_def Let_def resolve_high STDIN_FD_def fd_index_high [OF r])
  with that [of k'] l same read_handle_ok [OF ok r e] show ?thesis by simp
qed

lemma read_all_available_drains:
  assumes "fd_tables_ok k" "joined p w r k"
  shows "\<exists>k'. read_all_available bus (int r + 3) acc k d = Some (acc @ pipe_contents (app_pipes k ! p), k', d) \<and>
    fd_tables_ok k' \<and> joined p w r k' \<and> pipe_contents (app_pipes k' ! p) = [] \<and>
    process_table k' = process_table k \<and> current_process_index k' = current_process_index k"
  using assms
proof (induction "length (pipe_contents (app_pipes k ! p))" arbitrary: k acc rule: less_induct)
  case less
  let ?c = "pipe_contents (app_pipes k ! p)"
  obtain k1 where k1: "user_fd_read bus (int r + 3) 128 k d = Some (Some (take 128 ?c), k1, d)"
    "fd_tables_ok k1" "joined p w r k1" "pipe_contents (app_pipes k1 ! p) = drop 128 ?c"
    "process_table k1 = process_table k" "current_process_index k1 = current_process_index k"
    by (rule pipe_read_call [OF less.prems])
  have step: "read_all_available bus (int r + 3) acc k d =
    (if take 128 ?c = [] then Some (acc, k1, d) else if length (take 128 ?c) < 128 then Some (acc @ take 128 ?c, k1, d)
     else read_all_available bus (int r + 3) (acc @ take 128 ?c) k1 d)"
    by (rule trans [OF read_all_available.simps]) (simp add: k1(1) del: take_eq_Nil length_take)
  show ?case
  proof (cases "128 \<le> length ?c")
    case True
    then have "length (pipe_contents (app_pipes k1 ! p)) < length ?c" by (simp add: k1(4))
    from less.hyps [OF this k1(2,3), of "acc @ take 128 ?c"] obtain k2 where
      "read_all_available bus (int r + 3) (acc @ take 128 ?c) k1 d = Some (acc @ ?c, k2, d)" and
      "fd_tables_ok k2 \<and> joined p w r k2 \<and> pipe_contents (app_pipes k2 ! p) = [] \<and>
        process_table k2 = process_table k \<and> current_process_index k2 = current_process_index k"
      by (auto simp: k1(4-6))
    with True step show ?thesis by auto
  next
    case False
    with step k1 show ?thesis by (auto intro!: exI [of _ k1])
  qed
qed

lemma pipe_write_call:
  assumes ok: "fd_tables_ok k" and j: "joined p w r k"
  obtains (room) m k' where "user_fd_write bus now (int w + 3) data k d = (Some m, k', d)" "pipe_write data (app_pipes k ! p) = Some (m, app_pipes k' ! p)"
      "fd_tables_ok k'" "joined p w r k'" "pipe_contents (app_pipes k' ! p) = pipe_contents (app_pipes k ! p) @ take m data"
      "process_table k' = process_table k" "current_process_index k' = current_process_index k"
  | (full) "user_fd_write bus now (int w + 3) data k d = (None, k, d)" "pipe_write data (app_pipes k ! p) = None"
proof -
  have w: "w < 32" "p < 12" "r < 32" using j by (simp_all add: joined_def)
  obtain ret k' d' where e: "write_handle bus now w data k d = (ret, k', d')" by (metis prod_cases3)
  note l = joined_write [OF ok j e]
  note t = fds_okD [OF ok]
  let ?p = "app_pipes k ! p"
  have f: "fd_is_open (app_fds k ! w)" "fd_kind (app_fds k ! w) = KindPipeWrite" "fd_pfs_index (app_fds k ! w) = p"
    "end_of KindPipeRead p (app_fds k ! r)"
    using j by (simp_all add: joined_def end_of_def)
  have g: "fd_flags (app_fds k ! w) = 2" "pp_write_open ?p" using t(3) [OF w(1) f(1)] f(2,3) by auto
  have h: "pp_read_open ?p" using t(3) [OF w(3)] f(4) by (auto simp: end_of_def)
  have u: "pp_used ?p" using t(4) [OF w(2)] g by (auto simp: pipe_ok_def)
  have eq: "(ret, k', d') = (case pipe_write data ?p of None \<Rightarrow> (- 1, k, d) | Some (m, q) \<Rightarrow> (int m, set_pipe p q k, d))"
    using e f g h u by (cases "pipe_write data ?p") (auto simp: write_handle_def Let_def FD_WRITE_def)
  have c: "user_fd_write bus now (int w + 3) data k d = (if ret < 0 then None else Some (nat ret), k', d')"
    using e by (simp add: user_fd_write_def abi_write_fd_def Let_def resolve_high STDOUT_FD_def STDERR_FD_def fd_index_high [OF w(1)])
  show ?thesis
  proof (cases "pipe_write data ?p")
    case None
    with eq c full show ?thesis by simp
  next
    case (Some mq)
    obtain m q where mq: "mq = (m, q)" by force
    have k': "ret = int m" "k' = set_pipe p q k" "d' = d" using eq Some mq by simp_all
    have "app_pipes k' ! p = q" using w(2) t(2) by (simp add: k')
    with room [of m k'] c l k' write_handle_ok [OF ok w(1) e] Some mq show ?thesis by (simp add: set_pipe_def)
  qed
qed

lemma write_all_pipe:
  assumes ok: "fd_tables_ok k" "joined p w r k" and e: "app_pipes k ! p = new_pipe"
    and x: "fd_write_all bus now (int w + 3) data k d = (res, k', d')"
  shows "res = (if length data \<le> 8192 then Inr () else Inl (abi_last_error k)) \<and> fd_tables_ok k' \<and> joined p w r k' \<and>
    pipe_contents (app_pipes k' ! p) = take 8192 data \<and> d' = d \<and> process_table k' = process_table k \<and> current_process_index k' = current_process_index k"
proof (cases "data = []")
  case True
  with x ok e show ?thesis by (subst (asm) fd_write_all.simps) (auto simp: pipe_contents_def new_pipe_def)
next
  case False
  let ?m = "min (length data) 8192"
  have pw: "\<exists>q. pipe_write data new_pipe = Some (?m, q) \<and> pp_len q = ?m" using False by (auto simp: pipe_write_def new_pipe_def Let_def)
  from ok obtain k1 where k1: "user_fd_write bus now (int w + 3) data k d = (Some ?m, k1, d)" "fd_tables_ok k1" "joined p w r k1"
    "pipe_contents (app_pipes k1 ! p) = take 8192 data" "pp_len (app_pipes k1 ! p) = ?m"
    "process_table k1 = process_table k" "current_process_index k1 = current_process_index k"
  proof (cases rule: pipe_write_call [where bus = bus and now = now and data = data and d = d])
    case (room m k1)
    then have "m = ?m" "pp_len (app_pipes k1 ! p) = ?m" using pw by (auto simp: e)
    with that [of k1] room show ?thesis by (simp add: e pipe_contents_def new_pipe_def min_def split: if_splits)
  qed (use pw e in auto)
  have step: "fd_write_all bus now (int w + 3) data k d = fd_write_all bus now (int w + 3) (drop 8192 data) k1 d"
    using False by (subst fd_write_all.simps) (auto simp: k1(1) min_def)
  show ?thesis
  proof (cases "length data \<le> 8192")
    case True
    then have "(res, k', d') = (Inr (), k1, d)" using x step by (simp add: fd_write_all.simps)
    with True k1 show ?thesis by simp
  next
    case False
    from k1(2,3) have fl: "user_fd_write bus now (int w + 3) (drop 8192 data) k1 d = (None, k1, d)"
    proof (cases rule: pipe_write_call [where bus = bus and now = now and data = "drop 8192 data" and d = d])
      case (room m k2)
      then show ?thesis using False k1(5) by (auto simp: pipe_write_def Let_def)
    qed
    have "(res, k', d') = (Inl (abi_last_error k1), k1, d)"
      using x False unfolding step by (subst (asm) fd_write_all.simps) (auto simp: fl)
    with False k1 show ?thesis by (auto simp: abi_last_error_def)
  qed
qed

text \<open>
  C29. Sending bytes through a new pipe with the runtime's helpers.  Everything up to the pipe's 8 KiB is written and
  read back unchanged; with more data the write reports an error after the first 8192 bytes are in, and the
  error it reports is \<^verbatim>\<open>ERR_OK\<close>, because the kernel records no error for a write that finds no room.
\<close>

theorem pipe_write_read_all:
  assumes "fd_tables_ok k" "table_ok k" "user_pipe k = (Some (rfd, wfd), k1)" "fd_write_all bus now wfd data k1 d = (res, k2, d')"
  shows "res = (if length data \<le> 8192 then Inr () else Inl ERR_OK) \<and>
    (\<exists>k3. read_all_available bus rfd [] k2 d' = Some (take 8192 data, k3, d))"
proof -
  have e: "abi_pipe True k = (0, Some (rfd, wfd), k1)"
    using assms(3) by (auto simp: user_pipe_def split: prod.splits if_splits)
  obtain p where p: "joined p (nat (wfd - 3)) (nat (rfd - 3)) k1" "app_pipes k1 ! p = new_pipe" "3 \<le> rfd" "3 \<le> wfd"
    using abi_pipe_joined [OF assms(1) e] by metis
  have ok: "fd_tables_ok k1" using abi_pipe_ok [OF assms(1), of True] e by simp
  have i: "current_process_index k < length (process_table k)" using assms(2) by (simp add: table_ok_def)
  have z: "abi_last_error k1 = ERR_OK"
    using e i by (auto simp: abi_pipe_def abi_last_error_def Let_def set_app_error_def clear_app_error_def split: option.splits prod.splits if_splits)
  have fd: "int (nat (wfd - 3)) + 3 = wfd" "int (nat (rfd - 3)) + 3 = rfd" using p(3,4) by simp_all
  note w = write_all_pipe [OF ok p(1,2), unfolded fd, OF assms(4)]
  note r = read_all_available_drains [of k2 p "nat (wfd - 3)" "nat (rfd - 3)" bus "[]" d', unfolded fd]
  from r w z show ?thesis by auto
qed

theorem pipe_write_read_all_witness:
  "\<exists>k1 k2 d' k3. user_pipe demo_state = (Some (3, 4), k1) \<and> fd_write_all dev_bus 0 4 (replicate 9000 65) k1 demo_dev = (Inl ERR_OK, k2, d') \<and>
     read_all_available dev_bus 3 [] k2 d' = Some (replicate 8192 65, k3, demo_dev)"
proof -
  have "find (\<lambda>index. \<not> pp_used (app_pipes demo_state ! index)) [0..<12] = Some 0"
    by (rule find_upt_first) (simp_all add: demo_state_def app_pipe_empty_def)
  moreover have "two_free_fds demo_state [0..<32] 32 = (0, 1)" by (simp add: upt_rec demo_state_def)
  ultimately obtain k1 where k1: "user_pipe demo_state = (Some (3, 4), k1)" by (simp add: user_pipe_def abi_pipe_def Let_def)
  obtain res k2 d' where w: "fd_write_all dev_bus 0 4 (replicate 9000 65) k1 demo_dev = (res, k2, d')" by (metis prod_cases3)
  have "res = Inl ERR_OK \<and> (\<exists>k3. read_all_available dev_bus 3 [] k2 d' = Some (replicate 8192 65, k3, demo_dev))"
    using pipe_write_read_all [OF demo_fds_ok demo_state_ok(1) k1 w] by simp
  with k1 w show ?thesis by blast
qed

end
