(* ===== verification/User_Command.thy ===== *)
theory User_Command
  imports User_Runtime
begin

text \<open>
  Running child programs, \<^verbatim>\<open>Command\<close> of \<^verbatim>\<open>runtime/rymos-user/src/lib.rs\<close>: the builder, the temporary changes of the
  working directory, the environment and the standard descriptors, and \<^verbatim>\<open>run_command_output\<close> and
  \<^verbatim>\<open>run_command_status\<close> around them.  What the rest of the system does while the caller waits for its child is
  the parameter \<open>sys_wait\<close>; an outer \<^term>\<open>None\<close> is a call that does not return.
\<close>

section \<open>The builder\<close>

definition COMMAND_ARGS_MAX :: nat where "COMMAND_ARGS_MAX = 64"

record command_env =
  ce_key :: bytes
  ce_value :: "bytes option"

record env_restore =
  er_key :: bytes
  er_existed :: bool
  er_value :: bytes

record command =
  cmd_name :: bytes
  cmd_args :: bytes
  cmd_argv :: "bytes list"
  cmd_stdin :: bytes
  cmd_cwd :: "bytes option"
  cmd_env :: "command_env list"
  cmd_stdout_file :: "bytes option"
  cmd_stderr_file :: "bytes option"
  cmd_error :: int

definition command_new :: "bytes \<Rightarrow> command" where
  "command_new name = \<lparr>cmd_name = name, cmd_args = [], cmd_argv = [], cmd_stdin = [], cmd_cwd = None, cmd_env = [],
     cmd_stdout_file = None, cmd_stderr_file = None, cmd_error = ERR_OK\<rparr>"

definition command_args :: "bytes \<Rightarrow> command \<Rightarrow> command" where
  "command_args args c =
     (let c = c\<lparr>cmd_args := [], cmd_argv := []\<rparr> in
      if length args > COMMAND_ARGS_MAX then c\<lparr>cmd_error := ERR_NOSPC\<rparr> else c\<lparr>cmd_args := args\<rparr>)"

definition command_arg :: "bytes \<Rightarrow> command \<Rightarrow> command" where
  "command_arg arg c =
     (if cmd_error c \<noteq> ERR_OK then c
      else
        let separator = (if cmd_args c \<noteq> [] then 1 else 0) in
        if length (cmd_args c) + separator + length arg > COMMAND_ARGS_MAX then c\<lparr>cmd_error := ERR_NOSPC\<rparr>
        else c\<lparr>cmd_args := cmd_args c @ (if separator = 1 then [32] else []) @ arg, cmd_argv := cmd_argv c @ [arg]\<rparr>)"

definition command_stdin :: "bytes \<Rightarrow> command \<Rightarrow> command" where "command_stdin stdin c = c\<lparr>cmd_stdin := stdin\<rparr>"
definition command_current_dir :: "bytes \<Rightarrow> command \<Rightarrow> command" where "command_current_dir cwd c = c\<lparr>cmd_cwd := Some cwd\<rparr>"
definition command_stdout_file :: "bytes \<Rightarrow> command \<Rightarrow> command" where "command_stdout_file path c = c\<lparr>cmd_stdout_file := Some path\<rparr>"
definition command_stderr_file :: "bytes \<Rightarrow> command \<Rightarrow> command" where "command_stderr_file path c = c\<lparr>cmd_stderr_file := Some path\<rparr>"

definition command_env_set :: "bytes \<Rightarrow> bytes \<Rightarrow> command \<Rightarrow> command" where
  "command_env_set key val c = c\<lparr>cmd_env := cmd_env c @ [\<lparr>ce_key = key, ce_value = Some val\<rparr>]\<rparr>"

definition command_env_remove :: "bytes \<Rightarrow> command \<Rightarrow> command" where
  "command_env_remove key c = c\<lparr>cmd_env := cmd_env c @ [\<lparr>ce_key = key, ce_value = None\<rparr>]\<rparr>"

section \<open>The caller's context\<close>

text \<open>Overriding the environment, with the record of what to put back.\<close>

definition env_saved :: "bytes \<Rightarrow> kernel \<Rightarrow> env_restore \<times> kernel" where
  "env_saved key k =
     (case user_env_get key 128 k of
        (Some v, k) \<Rightarrow> (\<lparr>er_key = key, er_existed = True, er_value = v\<rparr>, k)
      | (None, k) \<Rightarrow> (\<lparr>er_key = key, er_existed = False, er_value = []\<rparr>, k))"

definition restore_one :: "env_restore \<Rightarrow> kernel \<Rightarrow> kernel" where
  "restore_one r k = (if er_existed r then snd (user_env_set (er_key r) (er_value r) k) else snd (user_env_remove (er_key r) k))"

definition restore_env :: "env_restore list \<Rightarrow> kernel \<Rightarrow> kernel" where
  "restore_env restores k = fold restore_one (rev restores) k"

fun apply_env_loop :: "command_env list \<Rightarrow> env_restore list \<Rightarrow> kernel \<Rightarrow> (int + env_restore list) \<times> kernel" where
  "apply_env_loop [] restores k = (Inr restores, k)"
| "apply_env_loop (o_env # rest) restores k =
     (case env_saved (ce_key o_env) k of
        (restore, k) \<Rightarrow>
          (case (case ce_value o_env of Some v \<Rightarrow> user_env_set (ce_key o_env) v k | None \<Rightarrow> user_env_remove (ce_key o_env) k) of
             (False, k) \<Rightarrow> (let error = abi_last_error k in (Inl error, restore_env restores k))
           | (True, k) \<Rightarrow> apply_env_loop rest (restores @ [restore]) k))"

definition apply_env_overrides :: "command_env list \<Rightarrow> kernel \<Rightarrow> (int + env_restore list) \<times> kernel" where
  "apply_env_overrides overrides k = apply_env_loop overrides [] k"

definition save_stdio :: "kernel \<Rightarrow> int list" where
  "save_stdio k = [abi_std_fd STDIN_FD k, abi_std_fd STDOUT_FD k, abi_std_fd STDERR_FD k]"

definition restore_stdio :: "int list \<Rightarrow> kernel \<Rightarrow> kernel" where
  "restore_stdio saved k =
     (let k = snd (user_dup2 (saved ! 0) STDIN_FD k); k = snd (user_dup2 (saved ! 1) STDOUT_FD k)
      in snd (user_dup2 (saved ! 2) STDERR_FD k))"

definition close_many :: "int list \<Rightarrow> kernel \<Rightarrow> kernel" where
  "close_many fds k = fold (\<lambda>fd k. if fd \<ge> 0 then snd (user_close_fd fd k) else k) fds k"

text \<open>
  The parameters of a run: the bus, the clock, the memory an image is read from and the entry trampoline of
  the loader, and the wait for the child.
\<close>

record 'd sys =
  sys_bus :: "'d port_bus"
  sys_now :: u64
  sys_beyond :: "u64 \<Rightarrow> u8"
  sys_trampoline :: u64
  sys_wait :: "u32 \<Rightarrow> kernel \<Rightarrow> 'd \<Rightarrow> (process_status option \<times> kernel \<times> 'd) option"

definition restore_cwd :: "'d sys \<Rightarrow> bytes option \<Rightarrow> bytes \<Rightarrow> kernel \<Rightarrow> 'd \<Rightarrow> (kernel \<times> 'd) option" where
  "restore_cwd sys command_cwd saved_cwd k d =
     (if command_cwd \<noteq> None \<and> saved_cwd \<noteq> [] then map_option snd (user_chdir (sys_bus sys) saved_cwd k d) else Some (k, d))"

definition restore_command_context :: "'d sys \<Rightarrow> bytes option \<Rightarrow> bytes \<Rightarrow> env_restore list \<Rightarrow> kernel \<Rightarrow> 'd \<Rightarrow> (kernel \<times> 'd) option" where
  "restore_command_context sys command_cwd saved_cwd restores k d = restore_cwd sys command_cwd saved_cwd (restore_env restores k) d"

definition spawn_command :: "'d sys \<Rightarrow> bytes \<Rightarrow> bytes \<Rightarrow> bytes list \<Rightarrow> kernel \<Rightarrow> ((int + u32) \<times> kernel) option" where
  "spawn_command sys name args argv k =
     (if argv = [] then user_spawn (sys_beyond sys) (sys_trampoline sys) name args k
      else user_spawn_argv (sys_beyond sys) (sys_trampoline sys) name argv k)"

text \<open>
  The common start of both runs: remember and change the directory, then the environment.  The result is an
  error, or the saved directory and the record of the environment.
\<close>

definition enter_context :: "'d sys \<Rightarrow> bytes option \<Rightarrow> command_env list \<Rightarrow> kernel \<Rightarrow> 'd \<Rightarrow>
    ((int + bytes \<times> env_restore list) \<times> kernel \<times> 'd) option" where
  "enter_context sys command_cwd overrides k d =
     (case (case command_cwd of
              None \<Rightarrow> (Inr [], k)
            | Some _ \<Rightarrow> (case user_cwd 64 k of (None, k) \<Rightarrow> (Inl (abi_last_error k), k) | (Some current, k) \<Rightarrow> (Inr current, k))) of
        (Inl error, k) \<Rightarrow> Some (Inl error, k, d)
      | (Inr saved_cwd, k) \<Rightarrow>
          Option.bind (case command_cwd of None \<Rightarrow> Some (True, k, d) | Some next_cwd \<Rightarrow> user_chdir (sys_bus sys) next_cwd k d)
            (\<lambda>(ok, k, d).
              if \<not> ok then Some (Inl (abi_last_error k), k, d)
              else case apply_env_overrides overrides k of
                (Inr restores, k) \<Rightarrow> Some (Inr (saved_cwd, restores), k, d)
              | (Inl code, k) \<Rightarrow> map_option (\<lambda>(k, d). (Inl code, k, d)) (restore_cwd sys command_cwd saved_cwd k d)))"

text \<open>The common end: the standard descriptors, the context, then the caller's own descriptors.\<close>

definition leave_context :: "'d sys \<Rightarrow> int list \<Rightarrow> bytes option \<Rightarrow> bytes \<Rightarrow> env_restore list \<Rightarrow> kernel \<Rightarrow> 'd \<Rightarrow> (kernel \<times> 'd) option" where
  "leave_context sys saved_stdio command_cwd saved_cwd restores k d =
     restore_command_context sys command_cwd saved_cwd restores (restore_stdio saved_stdio k) d"

section \<open>Capturing the output of a child\<close>

record command_captured =
  out_pid :: u32
  out_status :: process_status
  out_stdout :: bytes
  out_stderr :: bytes

text \<open>The redirection: \<open>dup2\<close> of the three descriptors with the short-circuit of \<open>||\<close>.\<close>

definition redirect :: "int \<Rightarrow> int \<Rightarrow> int \<Rightarrow> kernel \<Rightarrow> bool \<times> kernel" where
  "redirect in_fd out_fd err_fd k =
     (case user_dup2 in_fd STDIN_FD k of
        (False, k) \<Rightarrow> (False, k)
      | (True, k) \<Rightarrow> (case user_dup2 out_fd STDOUT_FD k of (False, k) \<Rightarrow> (False, k) | (True, k) \<Rightarrow> user_dup2 err_fd STDERR_FD k))"

text \<open>From the redirection on, with the six pipe descriptors.\<close>

definition output_with_pipes ::
  "'d sys \<Rightarrow> command \<Rightarrow> int list \<Rightarrow> bytes \<Rightarrow> env_restore list \<Rightarrow> int \<times> int \<Rightarrow> int \<times> int \<Rightarrow> int \<times> int \<Rightarrow> kernel \<Rightarrow> 'd \<Rightarrow>
    ((int + command_captured) \<times> kernel \<times> 'd) option" where
  "output_with_pipes sys c saved_stdio saved_cwd restores in_fds out_fds err_fds k d =
     (let all_fds = [fst in_fds, snd in_fds, fst out_fds, snd out_fds, fst err_fds, snd err_fds];
          leave = leave_context sys saved_stdio (cmd_cwd c) saved_cwd restores in
      case user_fd_write (sys_bus sys) (sys_now sys) (snd in_fds) (cmd_stdin c) k d of
        (_, k, d) \<Rightarrow>
          (case redirect (fst in_fds) (snd out_fds) (snd err_fds) k of
             (False, k) \<Rightarrow>
               let error = abi_last_error k; k = close_many all_fds (restore_stdio saved_stdio k) in
               map_option (\<lambda>(k, d). (Inl error, k, d)) (restore_command_context sys (cmd_cwd c) saved_cwd restores k d)
           | (True, k) \<Rightarrow>
               Option.bind (spawn_command sys (cmd_name c) (cmd_args c) (cmd_argv c) k) (\<lambda>(spawned, k).
                 case spawned of
                   Inl code \<Rightarrow> map_option (\<lambda>(k, d). (Inl code, close_many all_fds k, d)) (leave k d)
                 | Inr pid \<Rightarrow>
                     Option.bind (sys_wait sys pid k d) (\<lambda>(status, k, d).
                       case status of
                         None \<Rightarrow> map_option (\<lambda>(k, d). (Inl ERR_NOENT, close_many all_fds k, d)) (leave k d)
                       | Some status \<Rightarrow>
                           Option.bind (leave k d) (\<lambda>(k, d).
                             Option.bind (read_all_available (sys_bus sys) (fst out_fds) [] k d) (\<lambda>(out, k, d).
                               Option.bind (read_all_available (sys_bus sys) (fst err_fds) [] k d) (\<lambda>(err, k, d).
                                 Some (Inr \<lparr>out_pid = pid, out_status = status, out_stdout = out, out_stderr = err\<rparr>,
                                   close_many all_fds k, d))))))))"

definition run_command_output :: "'d sys \<Rightarrow> command \<Rightarrow> kernel \<Rightarrow> 'd \<Rightarrow> ((int + command_captured) \<times> kernel \<times> 'd) option" where
  "run_command_output sys c k d =
     (let saved_stdio = save_stdio k in
      Option.bind (enter_context sys (cmd_cwd c) (cmd_env c) k d) (\<lambda>(entered, k, d).
        case entered of
          Inl error \<Rightarrow> Some (Inl error, k, d)
        | Inr (saved_cwd, restores) \<Rightarrow>
            let fail = (\<lambda>error fds k. map_option (\<lambda>(k, d). (Inl error, k, d))
                  (restore_command_context sys (cmd_cwd c) saved_cwd restores (close_many fds k) d)) in
            (case user_pipe k of
               (None, k) \<Rightarrow> fail (abi_last_error k) [] k
             | (Some in_fds, k) \<Rightarrow>
                 (case user_pipe k of
                    (None, k) \<Rightarrow> fail (abi_last_error k) [fst in_fds, snd in_fds] k
                  | (Some out_fds, k) \<Rightarrow>
                      (case user_pipe k of
                         (None, k) \<Rightarrow> fail (abi_last_error k) [fst in_fds, snd in_fds, fst out_fds, snd out_fds] k
                       | (Some err_fds, k) \<Rightarrow>
                           output_with_pipes sys c saved_stdio saved_cwd restores in_fds out_fds err_fds k d)))))"

definition command_output :: "'d sys \<Rightarrow> command \<Rightarrow> kernel \<Rightarrow> 'd \<Rightarrow> ((int + command_captured) \<times> kernel \<times> 'd) option" where
  "command_output sys c k d = (if cmd_error c \<noteq> ERR_OK then Some (Inl (cmd_error c), k, d) else run_command_output sys c k d)"

definition user_command_output :: "'d sys \<Rightarrow> bytes \<Rightarrow> bytes \<Rightarrow> bytes \<Rightarrow> kernel \<Rightarrow> 'd \<Rightarrow> ((int + command_captured) \<times> kernel \<times> 'd) option" where
  "user_command_output sys name args stdin = command_output sys (command_stdin stdin (command_args args (command_new name)))"

section \<open>Running a child with redirected files\<close>

record command_exit =
  cs_pid :: u32
  cs_status :: process_status

text \<open>
  Opening a redirection target: the error with the files still held, or the files held.  A file held when
  the function returns is dropped.
\<close>

definition open_target :: "'d sys \<Rightarrow> bytes option \<Rightarrow> int \<Rightarrow> kernel \<Rightarrow> 'd \<Rightarrow> (int \<times> int list + int list) \<times> kernel \<times> 'd" where
  "open_target sys target which k d =
     (case target of
        None \<Rightarrow> (Inr [], k, d)
      | Some path \<Rightarrow>
          (case file_create (sys_bus sys) (sys_now sys) path k d of
             (None, k, d) \<Rightarrow> (Inl (abi_last_error k, []), k, d)
           | (Some fd, k, d) \<Rightarrow>
               (case user_dup2 fd which k of
                  (False, k) \<Rightarrow> (Inl (abi_last_error k, [fd]), k, d)
                | (True, k) \<Rightarrow> (Inr [fd], k, d))))"

definition status_spawn ::
  "'d sys \<Rightarrow> command \<Rightarrow> int list \<Rightarrow> bytes \<Rightarrow> env_restore list \<Rightarrow> int list \<Rightarrow> int list \<Rightarrow> kernel \<Rightarrow> 'd \<Rightarrow>
    ((int + command_exit) \<times> kernel \<times> 'd) option" where
  "status_spawn sys c saved_stdio saved_cwd restores in_fds targets k d =
     (let finish = (\<lambda>r k d. map_option (\<lambda>(k, d). (r, fold file_drop targets (close_many in_fds k), d))
            (leave_context sys saved_stdio (cmd_cwd c) saved_cwd restores k d)) in
      Option.bind (spawn_command sys (cmd_name c) (cmd_args c) (cmd_argv c) k) (\<lambda>(spawned, k).
        case spawned of
          Inl code \<Rightarrow> finish (Inl code) k d
        | Inr pid \<Rightarrow>
            Option.bind (sys_wait sys pid k d) (\<lambda>(status, k, d).
              case status of
                None \<Rightarrow> finish (Inl ERR_NOENT) k d
              | Some status \<Rightarrow> finish (Inr \<lparr>cs_pid = pid, cs_status = status\<rparr>) k d)))"

definition status_fail ::
  "'d sys \<Rightarrow> command \<Rightarrow> int list \<Rightarrow> bytes \<Rightarrow> env_restore list \<Rightarrow> int list \<Rightarrow> int list \<Rightarrow> int \<Rightarrow> kernel \<Rightarrow> 'd \<Rightarrow>
    ((int + command_exit) \<times> kernel \<times> 'd) option" where
  "status_fail sys c saved_stdio saved_cwd restores in_fds held error k d =
     map_option (\<lambda>(k, d). (Inl error, fold file_drop held k, d))
       (restore_command_context sys (cmd_cwd c) saved_cwd restores (close_many in_fds (restore_stdio saved_stdio k)) d)"

text \<open>The stdin pipe, for a text that is not empty.\<close>

definition stdin_pipe :: "'d sys \<Rightarrow> bytes \<Rightarrow> kernel \<Rightarrow> 'd \<Rightarrow> (int list option \<times> bool) \<times> kernel \<times> 'd" where
  "stdin_pipe sys stdin k d =
     (if stdin = [] then ((Some [], True), k, d)
      else case user_pipe k of
        (None, k) \<Rightarrow> ((None, False), k, d)
      | (Some (stdin_read, stdin_write), k) \<Rightarrow>
          (case user_fd_write (sys_bus sys) (sys_now sys) stdin_write stdin k d of
             (_, k, d) \<Rightarrow> (case user_dup2 stdin_read STDIN_FD k of (ok, k) \<Rightarrow> ((Some [stdin_read, stdin_write], ok), k, d))))"

definition run_command_status :: "'d sys \<Rightarrow> command \<Rightarrow> kernel \<Rightarrow> 'd \<Rightarrow> ((int + command_exit) \<times> kernel \<times> 'd) option" where
  "run_command_status sys c k d =
     (let saved_stdio = save_stdio k in
      Option.bind (enter_context sys (cmd_cwd c) (cmd_env c) k d) (\<lambda>(entered, k, d).
        case entered of
          Inl error \<Rightarrow> Some (Inl error, k, d)
        | Inr (saved_cwd, restores) \<Rightarrow>
            let fail = status_fail sys c saved_stdio saved_cwd restores in
            (case stdin_pipe sys (cmd_stdin c) k d of
               ((None, _), k, d) \<Rightarrow>
                 map_option (\<lambda>(k', d). (Inl (abi_last_error k), k', d)) (restore_command_context sys (cmd_cwd c) saved_cwd restores k d)
             | ((Some in_fds, False), k, d) \<Rightarrow> fail in_fds [] (abi_last_error k) k d
             | ((Some in_fds, True), k, d) \<Rightarrow>
                 (case open_target sys (cmd_stdout_file c) STDOUT_FD k d of
                    (Inl (error, held), k, d) \<Rightarrow> fail in_fds held error k d
                  | (Inr out_file, k, d) \<Rightarrow>
                      (case open_target sys (cmd_stderr_file c) STDERR_FD k d of
                         (Inl (error, held), k, d) \<Rightarrow> fail in_fds (held @ out_file) error k d
                       | (Inr err_file, k, d) \<Rightarrow>
                           status_spawn sys c saved_stdio saved_cwd restores in_fds (out_file @ err_file) k d)))))"

definition command_status :: "'d sys \<Rightarrow> command \<Rightarrow> kernel \<Rightarrow> 'd \<Rightarrow> ((int + command_exit) \<times> kernel \<times> 'd) option" where
  "command_status sys c k d = (if cmd_error c \<noteq> ERR_OK then Some (Inl (cmd_error c), k, d) else run_command_status sys c k d)"

section \<open>The builder keeps the argument text consistent\<close>

text \<open>The text of the arguments: the arguments separated by single spaces, an empty text before them adding none.\<close>

fun joined_args :: "bytes list \<Rightarrow> bytes \<Rightarrow> bytes" where
  "joined_args [] raw = raw"
| "joined_args (a # xs) raw = joined_args xs (raw @ (if raw \<noteq> [] then [32] else []) @ a)"

lemma joined_args_snoc: "joined_args (xs @ [a]) raw = (let t = joined_args xs raw in t @ (if t \<noteq> [] then [32] else []) @ a)"
  by (induction xs arbitrary: raw) (auto simp: Let_def)

definition builder_ok :: "command \<Rightarrow> bool" where
  "builder_ok c \<longleftrightarrow> length (cmd_args c) \<le> 64 \<and> (cmd_argv c \<noteq> [] \<longrightarrow> (\<exists>raw. cmd_args c = joined_args (cmd_argv c) raw))"

lemma builder_ok_new: "builder_ok (command_new name)" and builder_ok_args: "builder_ok (command_args args c)"
  by (simp_all add: builder_ok_def command_new_def command_args_def Let_def COMMAND_ARGS_MAX_def)

lemma builder_ok_arg:
  assumes "builder_ok c"
  shows "builder_ok (command_arg arg c)"
proof (cases "cmd_error c \<noteq> ERR_OK \<or> length (cmd_args c) + (if cmd_args c \<noteq> [] then 1 else 0) + length arg > 64")
  case True
  then show ?thesis using assms by (auto simp: builder_ok_def command_arg_def Let_def COMMAND_ARGS_MAX_def)
next
  case False
  obtain raw where "cmd_args c = joined_args (cmd_argv c) raw"
    using assms by (cases "cmd_argv c") (auto simp: builder_ok_def)
  then have "cmd_args (command_arg arg c) = joined_args (cmd_argv (command_arg arg c)) raw"
    using False by (auto simp: command_arg_def COMMAND_ARGS_MAX_def joined_args_snoc Let_def)
  moreover have "length (cmd_args (command_arg arg c)) \<le> 64"
    using False by (auto simp: command_arg_def COMMAND_ARGS_MAX_def Let_def)
  ultimately show ?thesis by (auto simp: builder_ok_def)
qed

section \<open>What a call leaves alone\<close>

definition std_of :: "kernel \<Rightarrow> int list" where "std_of k = p_std_fds (cur_proc k)"

definition state_of :: "kernel \<Rightarrow> process_state" where "state_of k = p_state (cur_proc k)"

definition cwd_text :: "kernel \<Rightarrow> bytes" where "cwd_text k = take (p_cwd_len (cur_proc k)) (p_cwd (cur_proc k))"

text \<open>
  Everything of the caller's slot that a command changes for a while, besides the standard descriptors.
\<close>

definition slot_view :: "kernel \<Rightarrow> nat \<times> process_state \<times> bytes \<times> app_env_var list" where
  "slot_view k = (current_process_index k, state_of k, cwd_text k, env_of k)"

definition calm :: "kernel \<Rightarrow> kernel \<Rightarrow> bool" where
  "calm k k' \<longleftrightarrow> table_ok k' \<and> slot_view k' = slot_view k"

text \<open>Descriptors that are open stay open.\<close>

definition opens :: "kernel \<Rightarrow> kernel \<Rightarrow> bool" where
  "opens k k' \<longleftrightarrow> (\<forall>fd. app_fd_open fd k \<longrightarrow> app_fd_open fd k')"

lemma calm_trans [trans]: "calm a b \<Longrightarrow> calm b c \<Longrightarrow> calm a c" by (simp add: calm_def)
lemma opens_refl [simp]: "opens k k" by (simp add: opens_def)
lemma opens_trans [trans]: "opens a b \<Longrightarrow> opens b c \<Longrightarrow> opens a c" by (simp add: opens_def)

lemma opensI: "(\<And>j. j < 32 \<Longrightarrow> fd_is_open (app_fds k ! j) \<Longrightarrow> fd_is_open (app_fds k' ! j)) \<Longrightarrow> opens k k'"
  by (auto simp: opens_def app_fd_open_def app_fd_index_def Let_def APP_FD_COUNT_def APP_FD_BASE_def split: option.splits if_splits)

lemma calm_tables: "table_ok k \<Longrightarrow> process_table k' = process_table k \<Longrightarrow> current_process_index k' = current_process_index k \<Longrightarrow>
    pending_stack_reclaims k' = pending_stack_reclaims k \<Longrightarrow> calm k k' \<and> std_of k' = std_of k"
  by (simp add: calm_def table_ok_def slot_view_def cwd_text_def env_of_def std_of_def state_of_def)

text \<open>An update of the caller's own slot.\<close>

lemma set_cur_view:
  assumes "table_ok k" "process_ok p"
  shows "table_ok (set_cur p k)" "cur_proc (set_cur p k) = p"
  using assms table_ok_set_proc [OF assms] by (simp_all add: table_ok_def)

definition quiet :: "kernel \<Rightarrow> kernel \<Rightarrow> bool" where
  "quiet k k' \<longleftrightarrow> calm k k' \<and> std_of k' = std_of k"

lemma quiet_trans [trans]: "quiet a b \<Longrightarrow> quiet b c \<Longrightarrow> quiet a c" by (auto simp: quiet_def intro: calm_trans)
lemma quiet_refl: "table_ok k \<Longrightarrow> quiet k k" by (simp add: quiet_def calm_def)
lemma quiet_calm: "quiet k k' \<Longrightarrow> calm k k'" and quiet_table: "quiet k k' \<Longrightarrow> table_ok k'" by (simp_all add: quiet_def calm_def)
lemma calm_table: "calm k k' \<Longrightarrow> table_ok k'" by (simp add: calm_def)

lemma cur_ok: "table_ok k \<Longrightarrow> process_ok (cur_proc k)"
  by (simp add: table_ok_proc table_ok_def list_all_length)

lemma quiet_slot:
  assumes "table_ok k" "process_ok p" "p_state p = p_state (cur_proc k)" "p_std_fds p = p_std_fds (cur_proc k)"
    "p_cwd p = p_cwd (cur_proc k)" "p_cwd_len p = p_cwd_len (cur_proc k)" "p_env p = p_env (cur_proc k)"
  shows "quiet k (set_cur p k)"
  using set_cur_view [OF assms(1,2)] assms(3-7) by (simp add: quiet_def calm_def slot_view_def cwd_text_def env_of_def std_of_def state_of_def)

lemma error_quiet:
  assumes "table_ok k" "set_app_error e k = (r, k')"
  shows "quiet k k'" "app_fds k' = app_fds k" "app_pipes k' = app_pipes k" "r = - 1"
proof -
  have k': "r = - 1" "k' = set_cur ((cur_proc k)\<lparr>p_last_error := e\<rparr>) k" using assms(2) by (auto simp: set_app_error_def)
  show "quiet k k'" unfolding k' by (rule quiet_slot [OF assms(1)]) (simp_all add: cur_ok [OF assms(1)])
  show "app_fds k' = app_fds k" "app_pipes k' = app_pipes k" "r = - 1" by (simp_all add: k')
qed

lemma clear_quiet:
  assumes "table_ok k"
  shows "quiet k (clear_app_error k)" "app_fds (clear_app_error k) = app_fds k" "app_pipes (clear_app_error k) = app_pipes k"
  using error_quiet [OF assms, of ERR_OK "- 1" "clear_app_error k"] by (simp_all add: set_app_error_def clear_app_error_def)

lemma fd_tables_quiet:
  assumes "table_ok k"
  shows "quiet k (set_fd i h k)" "quiet k (set_pipe i q k)"
  unfolding quiet_def by (rule calm_tables [OF assms]; simp add: set_fd_def set_pipe_def)+

lemma opens_eq: "app_fds k' = app_fds k \<Longrightarrow> opens k k'" by (rule opensI) simp

lemma opens_set_fd: "fd_is_open h \<Longrightarrow> opens k (set_fd i h k)"
  by (rule opensI) (cases "i < length (app_fds k)"; simp add: set_fd_def nth_list_update list_update_beyond)

lemma set_fd_set_fd: "set_fd i h (set_fd i g k) = set_fd i h k"
  by (simp add: set_fd_def)

text \<open>The calls.\<close>

lemma pipe_quiet:
  assumes t: "table_ok k" and e: "user_pipe k = (r, k')"
  shows "quiet k k'" "opens k k'" "r = Some (a, b) \<Longrightarrow> 3 \<le> a \<and> 3 \<le> b"
proof -
  consider err where "r = None" "set_app_error err k = (- 1, k')"
    | p i j where "r = Some (int i + 3, int j + 3)"
      "k' = clear_app_error (set_fd j (pipe_fd KindPipeWrite FD_WRITE p) (set_fd i (pipe_fd KindPipeRead FD_READ p) (set_pipe p new_pipe k)))"
    using e by (auto simp: user_pipe_def abi_pipe_def Let_def set_app_error_def new_pipe_def split: option.splits prod.splits if_splits)
  then have "quiet k k' \<and> opens k k' \<and> (r = Some (a, b) \<longrightarrow> 3 \<le> a \<and> 3 \<le> b)"
  proof cases
    case 1
    with error_quiet [OF t 1(2)] show ?thesis by (simp add: opens_eq)
  next
    case (2 p i j)
    let ?k1 = "set_pipe p new_pipe k"
    let ?k2 = "set_fd i (pipe_fd KindPipeRead FD_READ p) ?k1"
    let ?k3 = "set_fd j (pipe_fd KindPipeWrite FD_WRITE p) ?k2"
    have q1: "quiet k ?k1" by (rule fd_tables_quiet [OF t])
    have q2: "quiet ?k1 ?k2" by (rule fd_tables_quiet [OF quiet_table [OF q1]])
    have q3: "quiet ?k2 ?k3" by (rule fd_tables_quiet [OF quiet_table [OF q2]])
    note q4 = clear_quiet [OF quiet_table [OF q3]]
    have "opens k ?k1" by (rule opens_eq) (simp add: set_pipe_def)
    also have "opens ?k1 ?k2" by (rule opens_set_fd) (simp add: pipe_fd_def)
    also have "opens ?k2 ?k3" by (rule opens_set_fd) (simp add: pipe_fd_def)
    also have "opens ?k3 k'" unfolding 2 by (rule opens_eq) (rule q4(2))
    finally have "opens k k'" .
    moreover have "quiet k k'" using q1 q2 q3 q4(1) unfolding 2 by (meson quiet_trans)
    ultimately show ?thesis by (simp add: 2(1))
  qed
  then show "quiet k k'" "opens k k'" "r = Some (a, b) \<Longrightarrow> 3 \<le> a \<and> 3 \<le> b" by blast+
qed

lemma close_quiet:
  assumes t: "table_ok k" and fd: "3 \<le> fd"
  shows "quiet k (snd (user_close_fd fd k))"
proof -
  have "process_table (snd (abi_close fd k)) = process_table k \<and> current_process_index (snd (abi_close fd k)) = current_process_index k \<and>
    pending_stack_reclaims (snd (abi_close fd k)) = pending_stack_reclaims k"
    using fd by (auto simp: abi_close_def STDIN_FD_def STDOUT_FD_def STDERR_FD_def Let_def set_fd_def set_pipe_def split: option.splits app_fd_kind.splits)
  then show ?thesis using calm_tables [OF t, of "snd (abi_close fd k)"] by (simp add: quiet_def user_close_fd_def split_beta)
qed

lemma close_many_quiet: "table_ok k \<Longrightarrow> list_all (\<lambda>fd. 3 \<le> fd) fds \<Longrightarrow> quiet k (close_many fds k)"
proof (induction fds arbitrary: k)
  case Nil
  then show ?case by (simp add: close_many_def quiet_refl)
next
  case (Cons fd fds)
  have q: "quiet k (snd (user_close_fd fd k))" using Cons.prems by (intro close_quiet) simp_all
  from quiet_trans [OF q Cons.IH [OF quiet_table [OF q]]] Cons.prems show ?case by (simp add: close_many_def)
qed

lemma file_drop_quiet: "table_ok k \<Longrightarrow> list_all (\<lambda>fd. 3 \<le> fd) fds \<Longrightarrow> quiet k (fold file_drop fds k)"
  using close_many_quiet [of k fds] by (simp add: close_many_def file_drop_def [abs_def])

definition tame :: "kernel \<Rightarrow> kernel \<Rightarrow> bool" where
  "tame k u \<longleftrightarrow> process_table u = process_table k \<and> current_process_index u = current_process_index k \<and>
     pending_stack_reclaims u = pending_stack_reclaims k \<and> opens k u"

lemma tameI:
  "tame k k" "tame k (set_pipe i q k)" "fd_is_open h \<Longrightarrow> tame k (set_fd j h k)" "tame k (k\<lparr>app_console := c\<rparr>)"
  by (simp_all add: tame_def opens_set_fd) (simp_all add: set_fd_def set_pipe_def opens_eq)

lemma tame_quiet: "table_ok k \<Longrightarrow> tame k k' \<Longrightarrow> quiet k k' \<and> opens k k'"
  using calm_tables [of k k'] by (simp add: tame_def quiet_def)

lemma fd_write_quiet:
  assumes t: "table_ok k" and e: "user_fd_write bus now fd data k d = (r, k', d')"
  shows "quiet k k'" "opens k k'"
proof -
  obtain r0 where e0: "abi_write_fd bus now fd (Some data) k d = (r0, k', d')"
    using e by (auto simp: user_fd_write_def split: prod.splits)
  have "tame k u" if "write_handle bus now i data k d = (q, u, v)" for i q u v
    using that by (auto simp: write_handle_def Let_def set_fd_set_fd split: if_splits option.splits prod.splits bool.splits intro!: tameI)
  with e0 have "tame k k'" by (auto simp: abi_write_fd_def Let_def abi_write_def split: if_splits option.splits intro!: tameI)
  from tame_quiet [OF t this] show "quiet k k'" "opens k k'" by simp_all
qed

lemma claim_quiet:
  assumes t: "table_ok k" and h: "fd_is_open h" and e: "claim_fd h k = (r, k')"
  shows "quiet k k'" "opens k k'" "r < 0 \<or> 3 \<le> r"
proof -
  consider i where "r = int i + 3" "k' = clear_app_error (set_fd i h k)" | "set_app_error ERR_NOSPC k = (r, k')"
    using e by (auto simp: claim_fd_def split: option.splits)
  then have "quiet k k' \<and> opens k k' \<and> (r < 0 \<or> 3 \<le> r)"
  proof cases
    case (1 i)
    have q: "quiet k (set_fd i h k)" by (rule fd_tables_quiet [OF t])
    note c = clear_quiet [OF quiet_table [OF q]]
    show ?thesis using quiet_trans [OF q c(1)] opens_trans [OF opens_set_fd [OF h] opens_eq [OF c(2)]] 1 by simp
  next
    case 2
    from error_quiet [OF t 2] show ?thesis by (simp add: opens_eq)
  qed
  then show "quiet k k'" "opens k k'" "r < 0 \<or> 3 \<le> r" by blast+
qed

lemma open_cases:
  assumes "abi_open bus now (Some path) flags k d = (r, k', d')"
  shows "(\<exists>e. set_app_error e k = (r, k')) \<or> (\<exists>h. fd_is_open h \<and> claim_fd h k = (r, k'))"
proof -
  have pfs: "(\<exists>e. set_app_error e k = (r, k')) \<or> (\<exists>h. fd_is_open h \<and> claim_fd h k = (r, k'))"
    if "abi_open_pfs bus now name flags k d = (r, k', d')" for name
  proof -
    have "fd_is_open (pfs_fd flags n i)" for n i by (simp add: pfs_fd_def)
    with that show ?thesis unfolding abi_open_pfs_def Let_def
      by (auto split: if_splits prod.splits option.splits sum.splits; blast)
  qed
  have "fd_is_open (bootfs_fd data)" for data by (simp add: bootfs_fd_def)
  with assms pfs show ?thesis unfolding abi_open_def Let_def
    by (auto split: if_splits prod.splits option.splits; blast)
qed

lemma file_create_quiet:
  assumes t: "table_ok k" and e: "file_create bus now path k d = (r, k', d')"
  shows "quiet k k'" "opens k k'" "r = Some fd \<Longrightarrow> 3 \<le> fd"
proof -
  obtain r0 where o: "abi_open bus now (Some path) (FD_READ OR FD_WRITE OR FD_CREATE OR FD_TRUNCATE) k d = (r0, k', d')"
    "r = (if r0 < 0 then None else Some r0)"
    using e by (auto simp: file_create_def file_open_mode_def split: prod.splits)
  from open_cases [OF o(1)] have "quiet k k' \<and> opens k k' \<and> (r0 < 0 \<or> 3 \<le> r0)"
  proof (elim disjE exE conjE)
    fix err assume "set_app_error err k = (r0, k')"
    from error_quiet [OF t this] show ?thesis by (simp add: opens_eq)
  next
    fix h assume "fd_is_open h" "claim_fd h k = (r0, k')"
    from claim_quiet [OF t this] show ?thesis by simp
  qed
  with o(2) show "quiet k k'" "opens k k'" "r = Some fd \<Longrightarrow> 3 \<le> fd" by (auto split: if_splits)
qed

lemma process_ok_std: "process_ok p \<Longrightarrow> length fds = 3 \<Longrightarrow> process_ok (p\<lparr>p_std_fds := fds\<rparr>)"
  by (simp add: process_ok_def)

lemma set_std_calm:
  assumes t: "table_ok k" and w: "0 \<le> which" "which \<le> 2"
  shows "calm k (set_std_fd which fd k)" "std_of (set_std_fd which fd k) = (std_of k)[nat which := fd]" "app_fds (set_std_fd which fd k) = app_fds k"
proof -
  let ?p = "(cur_proc k)\<lparr>p_std_fds := (p_std_fds (cur_proc k))[nat which := fd]\<rparr>"
  have "process_ok ?p" using cur_ok [OF t] by (intro process_ok_std) (simp_all add: process_ok_def)
  from set_cur_view [OF t this] show "calm k (set_std_fd which fd k)" "std_of (set_std_fd which fd k) = (std_of k)[nat which := fd]"
    "app_fds (set_std_fd which fd k) = app_fds k"
    by (simp_all add: set_std_fd_def calm_def slot_view_def cwd_text_def env_of_def std_of_def state_of_def)
qed

lemma dup2_calm:
  assumes t: "table_ok k" and w: "0 \<le> which" "which \<le> 2" and e: "user_dup2 fd which k = (ok, k')"
  shows "calm k k'" "app_fds k' = app_fds k" "app_pipes k' = app_pipes k"
    "app_fd_open fd k \<Longrightarrow> ok \<and> std_of k' = (std_of k)[nat which := fd]"
    "std_of k' = std_of k \<or> std_of k' = (std_of k)[nat which := fd]"
proof -
  have st: "calm k (clear_app_error (set_std_fd which fd k)) \<and> app_fds (clear_app_error (set_std_fd which fd k)) = app_fds k \<and>
      app_pipes (clear_app_error (set_std_fd which fd k)) = app_pipes k \<and>
      std_of (clear_app_error (set_std_fd which fd k)) = (std_of k)[nat which := fd]"
    using set_std_calm [OF t w, of fd] clear_quiet [OF calm_table [OF set_std_calm(1) [OF t w]], of fd]
    by (auto simp: quiet_def set_std_fd_def intro: calm_trans)
  consider "ok" "k' = clear_app_error (set_std_fd which fd k)" | "\<not> app_fd_open fd k" "k' = snd (set_app_error ERR_INVAL k)"
    using e w by (auto simp: user_dup2_def abi_dup2_def STDIN_FD_def STDERR_FD_def split: if_splits prod.splits)
  then have "calm k k' \<and> app_fds k' = app_fds k \<and> app_pipes k' = app_pipes k \<and> (app_fd_open fd k \<longrightarrow> ok \<and> std_of k' = (std_of k)[nat which := fd]) \<and>
      (std_of k' = std_of k \<or> std_of k' = (std_of k)[nat which := fd])"
  proof cases
    case 2
    with error_quiet [OF t, of ERR_INVAL "- 1" k'] show ?thesis by (auto simp: quiet_def set_app_error_def)
  qed (use st in simp)
  then show "calm k k'" "app_fds k' = app_fds k" "app_pipes k' = app_pipes k" "app_fd_open fd k \<Longrightarrow> ok \<and> std_of k' = (std_of k)[nat which := fd]"
    "std_of k' = std_of k \<or> std_of k' = (std_of k)[nat which := fd]" by blast+
qed

section \<open>Overriding the environment and putting it back\<close>

lemma overlay_slot:
  assumes "env_ok k" "env_set_overlay key val del k = (r, k')"
  obtains env e where "k' = set_cur ((cur_proc k)\<lparr>p_env := env, p_last_error := e\<rparr>) k" "length env = 64"
proof -
  have t: "table_ok k" and len: "length (p_env (cur_proc k)) = 64" using assms(1) by (simp_all add: env_ok_def env_tab_ok_def env_of_def)
  have i: "current_process_index k < length (process_table k)" using t by (simp add: table_ok_def)
  let ?slot = "env_slot_loop key (p_env (cur_proc k)) [0..<64] 64"
  consider e where "set_app_error e k = (r, k')"
    | "k' = clear_app_error (set_cur ((cur_proc k)\<lparr>p_env := (p_env (cur_proc k))[?slot := env_entry key val del]\<rparr>) k)"
    using assms(2) by (auto simp: env_set_overlay_def Let_def split: if_splits)
  then show ?thesis
  proof cases
    case (1 e)
    then have "k' = set_cur ((cur_proc k)\<lparr>p_env := p_env (cur_proc k), p_last_error := e\<rparr>) k" by (simp add: set_app_error_def)
    from that [OF this len] show ?thesis .
  next
    case 2
    then have "k' = set_cur ((cur_proc k)\<lparr>p_env := (p_env (cur_proc k))[?slot := env_entry key val del], p_last_error := 0\<rparr>) k"
      using i by (simp add: clear_app_error_def)
    from that [OF this] len show ?thesis by simp
  qed
qed

lemma overlay_view:
  assumes "env_ok k" "env_set_overlay key val del k = (r, k')"
  shows "table_ok k'" "current_process_index k' = current_process_index k" "state_of k' = state_of k"
    "cwd_text k' = cwd_text k" "std_of k' = std_of k" "app_fds k' = app_fds k" "app_pipes k' = app_pipes k"
proof -
  obtain env e where k': "k' = set_cur ((cur_proc k)\<lparr>p_env := env, p_last_error := e\<rparr>) k" "length env = 64"
    using overlay_slot [OF assms] .
  have t: "table_ok k" using assms(1) by (simp add: env_ok_def)
  have "process_ok ((cur_proc k)\<lparr>p_env := env, p_last_error := e\<rparr>)" using cur_ok [OF t] k'(2) by (simp add: process_ok_def)
  note v = set_cur_view [OF t this]
  show "table_ok k'" "current_process_index k' = current_process_index k" "state_of k' = state_of k"
    "cwd_text k' = cwd_text k" "std_of k' = std_of k" "app_fds k' = app_fds k" "app_pipes k' = app_pipes k"
    using v by (simp_all add: k'(1) cwd_text_def std_of_def state_of_def)
qed

lemma overlay_keys:
  assumes ok: "env_ok k" and e: "env_set_overlay key val del k = (r, k')"
  shows "env_overlay_has_key q k' \<longleftrightarrow> env_overlay_has_key q k \<or> r = 0 \<and> q = key"
proof -
  have tab: "table_ok k" and eok: "env_tab_ok (env_of k)" "env.uniq (env_of k)" using ok by (simp_all add: env_ok_def)
  have i: "current_process_index k < length (process_table k)" using tab by (simp add: table_ok_def)
  define slot where "slot = env_slot_loop key (env_of k) [0..<64] 64"
  show ?thesis
  proof (cases "env_args_ok key val \<and> slot \<noteq> 64")
    case True
    have s: "slot < 64" using True by (cases rule: env_slot_cases [OF slot_def]) auto
    have k': "r = 0" "env_of k' = (env_of k)[slot := env_entry key val del]"
      using e True i by (auto simp: env_set_overlay_def Let_def env_of_def slot_def clear_app_error_def)
    note p = env_put [OF eok conjunct1 [OF True] slot_def s, of del, folded k'(2)]
    show ?thesis unfolding overlay_lookup [OF p(1)] overlay_lookup [OF eok(1)] p(3) by (simp add: k'(1))
  next
    case False
    then have "r = - 1" "env_of k' = env_of k"
      using e i by (auto simp: env_set_overlay_def Let_def env_of_def slot_def set_app_error_def split: if_splits)
    then show ?thesis by (simp add: env_overlay_has_key_def env_of_def [symmetric])
  qed
qed

text \<open>The values a lookup can return are never empty: the setting call refuses an empty value.\<close>

definition vals_ok :: "kernel \<Rightarrow> bool" where
  "vals_ok k \<longleftrightarrow> env_ok k \<and> (\<forall>q v. env_lookup q k = Some v \<longrightarrow> v \<noteq> [] \<and> length v \<le> 96)"

definition env_change :: "bytes \<Rightarrow> bytes option \<Rightarrow> kernel \<Rightarrow> bool \<times> kernel" where
  "env_change key v k = (case v of Some v \<Rightarrow> user_env_set key v k | None \<Rightarrow> user_env_remove key k)"

definition env_keeps :: "kernel \<Rightarrow> kernel \<Rightarrow> bool" where
  "env_keeps k k' \<longleftrightarrow> table_ok k' \<and> current_process_index k' = current_process_index k \<and> state_of k' = state_of k \<and>
     cwd_text k' = cwd_text k \<and> std_of k' = std_of k \<and> app_fds k' = app_fds k \<and> app_pipes k' = app_pipes k"

lemma env_keeps_trans [trans]: "env_keeps a b \<Longrightarrow> env_keeps b c \<Longrightarrow> env_keeps a c"
  unfolding env_keeps_def by metis

lemma quiet_env_keeps: "quiet k k' \<Longrightarrow> app_fds k' = app_fds k \<Longrightarrow> app_pipes k' = app_pipes k \<Longrightarrow> env_keeps k k'"
  by (auto simp: quiet_def calm_def slot_view_def env_keeps_def)

lemma quiet_lookup:
  assumes "quiet k k'" "vals_ok k"
  shows "vals_ok k'" "env_lookup q k' = env_lookup q k" "env_overlay_has_key q k' = env_overlay_has_key q k"
proof -
  have e: "env_of k' = env_of k" "table_ok k'" using assms(1) by (simp_all add: quiet_def calm_def slot_view_def)
  have c: "env_ok k'" "\<And>q. env_lookup q k' = env_lookup q k" using env_ok_cong [of k k'] assms(2) e by (simp_all add: vals_ok_def)
  then show "vals_ok k'" "env_lookup q k' = env_lookup q k" using assms(2) by (simp_all add: vals_ok_def)
  show "env_overlay_has_key q k' = env_overlay_has_key q k" using e(1) by (simp add: env_overlay_has_key_def env_of_def)
qed

lemma env_change_spec:
  assumes ok: "vals_ok k" and e: "env_change key v k = (fine, k')"
  shows "vals_ok k'" "env_keeps k k'" "env_overlay_has_key q k \<or> fine \<and> q = key \<Longrightarrow> env_overlay_has_key q k'"
    "env_lookup q k' = (if fine \<and> q = key then v else env_lookup q k)"
    "fine \<Longrightarrow> env_args_ok key []"
    "env_overlay_has_key key k \<Longrightarrow> env_args_ok key [] \<Longrightarrow> (\<And>w. v = Some w \<Longrightarrow> w \<noteq> [] \<and> length w \<le> 96) \<Longrightarrow> fine"
proof -
  have t: "table_ok k" "env_ok k" using ok by (simp_all add: vals_ok_def env_ok_def)
  let ?w = "case v of Some w \<Rightarrow> w | None \<Rightarrow> []" and ?del = "v = None"
  define good where "good = (checked_app_slice (Some key) \<noteq> None \<and> (v \<noteq> None \<longrightarrow> checked_app_slice v \<noteq> None))"
  obtain r where r: "fine = (r = 0)" "(if good then env_set_overlay key ?w ?del k else set_app_error ERR_INVAL k) = (r, k')"
    using e by (cases v) (auto simp: env_change_def user_env_set_def user_env_remove_def abi_env_set_def abi_env_remove_def good_def
        checked_app_slice_def split: prod.splits if_splits option.splits)
  have wv: "good \<Longrightarrow> v = Some w \<Longrightarrow> w \<noteq> []" for w by (auto simp: good_def checked_app_slice_def split: if_splits)
  have gd: "env_args_ok key [] \<Longrightarrow> (\<And>w. v = Some w \<Longrightarrow> w \<noteq> [] \<and> length w \<le> 96) \<Longrightarrow> good \<and> env_args_ok key ?w"
    by (cases v) (auto simp: good_def checked_app_slice_def env_args_ok_def INPUT_MAX_def APP_ENV_KEY_MAX_def APP_ENV_VALUE_MAX_def)
  have "vals_ok k' \<and> env_keeps k k' \<and> (env_overlay_has_key q k \<or> fine \<and> q = key \<longrightarrow> env_overlay_has_key q k') \<and>
      env_lookup q k' = (if fine \<and> q = key then v else env_lookup q k) \<and> (fine \<longrightarrow> env_args_ok key []) \<and>
      (good \<and> env_args_ok key ?w \<and> env_overlay_has_key key k \<longrightarrow> fine)" for q
  proof (cases good)
    case False
    then have "set_app_error ERR_INVAL k = (r, k')" using r(2) by simp
    from error_quiet [OF t(1) this] quiet_lookup [OF _ ok, of k'] quiet_env_keeps [of k k'] False r(1) show ?thesis by simp
  next
    case True
    then have ov: "env_set_overlay key ?w ?del k = (r, k')" using r(2) by simp
    note sp = env_set_overlay_spec [OF t(2) ov]
    have look: "env_lookup p k' = (if fine \<and> p = key then v else env_lookup p k)" for p
      using sp r(1) by (cases v) (auto simp: fun_eq_iff split: if_splits)
    have args: "fine \<Longrightarrow> env_args_ok key ?w" using sp r(1) by (auto split: if_splits)
    have "w \<noteq> [] \<and> length w \<le> 96" if "env_lookup p k' = Some w" for p w
      using that look [of p] wv [OF True] args ok by (auto simp: vals_ok_def env_args_ok_def APP_ENV_VALUE_MAX_def split: if_splits)
    then have "vals_ok k'" using sp by (simp add: vals_ok_def)
    moreover have "env_keeps k k'" using overlay_view [OF t(2) ov] by (simp add: env_keeps_def)
    moreover have "fine \<Longrightarrow> env_args_ok key []" using args by (auto simp: env_args_ok_def)
    moreover have "env_args_ok key ?w \<and> env_overlay_has_key key k \<longrightarrow> fine" using sp r(1) by auto
    ultimately show ?thesis using look overlay_keys [OF t(2) ov, of q] r(1) by simp
  qed
  then show "vals_ok k'" "env_keeps k k'" "env_overlay_has_key q k \<or> fine \<and> q = key \<Longrightarrow> env_overlay_has_key q k'"
    "env_lookup q k' = (if fine \<and> q = key then v else env_lookup q k)" "fine \<Longrightarrow> env_args_ok key []"
    "env_overlay_has_key key k \<Longrightarrow> env_args_ok key [] \<Longrightarrow> (\<And>w. v = Some w \<Longrightarrow> w \<noteq> [] \<and> length w \<le> 96) \<Longrightarrow> fine"
    using gd by blast+
qed

lemma env_saved_spec:
  assumes ok: "vals_ok k" and e: "env_saved key k = (r, k')"
  shows "quiet k k'" "app_fds k' = app_fds k" "app_pipes k' = app_pipes k" "er_key r = key"
    "env_args_ok key [] \<Longrightarrow> (if er_existed r then Some (er_value r) else None) = env_lookup key k"
proof -
  have t: "table_ok k" using ok by (simp add: vals_ok_def env_ok_def)
  obtain v where g: "user_env_get key 128 k = (v, k')" and r: "er_key r = key" "(if er_existed r then Some (er_value r) else None) = v"
    using e by (auto simp: env_saved_def split: prod.splits option.splits)
  have shape: "k' = clear_app_error k \<or> (\<exists>err. set_app_error err k = (- 1, k'))"
    using g by (auto simp: user_env_get_def abi_env_get_def Let_def set_app_error_def split: option.splits prod.splits)
  show "quiet k k'" "app_fds k' = app_fds k" "app_pipes k' = app_pipes k"
    using shape clear_quiet [OF t] error_quiet [OF t] by blast+
  show "er_key r = key" by (rule r)
  assume "env_args_ok key []"
  then have c: "checked_app_slice (Some key) = Some key"
    by (auto simp: checked_app_slice_def env_args_ok_def INPUT_MAX_def APP_ENV_KEY_MAX_def)
  have "v = env_lookup key k"
  proof (cases "env_lookup key k")
    case None
    then show ?thesis using g c by (auto simp: user_env_get_def abi_env_get_def set_app_error_def user_slice_def)
  next
    case (Some w)
    then have "length w \<le> 96" using ok by (simp add: vals_ok_def)
    then show ?thesis using g c Some by (auto simp: user_env_get_def abi_env_get_def user_slice_def Let_def min_def)
  qed
  with r(2) show "(if er_existed r then Some (er_value r) else None) = env_lookup key k" by simp
qed

lemma restore_one_change: "restore_one r k = snd (env_change (er_key r) (if er_existed r then Some (er_value r) else None) k)"
  by (simp add: restore_one_def env_change_def)

text \<open>
  The record \<open>rs\<close>, taken in \<open>k\<close>, gives back the environment \<open>f\<close> from any state whose environment looks like that of
  \<open>k\<close> and whose overlay has at least its keys.
\<close>

definition undo :: "env_restore list \<Rightarrow> kernel \<Rightarrow> (bytes \<Rightarrow> bytes option) \<Rightarrow> bool" where
  "undo rs k f \<longleftrightarrow> (\<forall>k'. vals_ok k' \<and> (\<forall>q. env_lookup q k' = env_lookup q k) \<and> (\<forall>q. env_overlay_has_key q k \<longrightarrow> env_overlay_has_key q k') \<longrightarrow>
     vals_ok (restore_env rs k') \<and> env_keeps k' (restore_env rs k') \<and> (\<forall>q. env_lookup q (restore_env rs k') = f q))"

lemma vals_ok_table: "vals_ok k \<Longrightarrow> table_ok k" by (simp add: vals_ok_def env_ok_def)

lemma undo_Nil: "undo [] k (\<lambda>q. env_lookup q k)"
  by (auto simp: undo_def restore_env_def env_keeps_def dest: vals_ok_table)

lemma undo_snoc:
  assumes u: "undo rs k f" and ok: "vals_ok k" and s: "env_saved key k = (r, k1)" and c: "env_change key v k1 = (True, k2)"
  shows "undo (rs @ [r]) k2 f"
  unfolding undo_def
proof (intro allI impI, elim conjE)
  fix k' assume k': "vals_ok k'" "\<forall>q. env_lookup q k' = env_lookup q k2" "\<forall>q. env_overlay_has_key q k2 \<longrightarrow> env_overlay_has_key q k'"
  note sv = env_saved_spec [OF ok s]
  note q1 = quiet_lookup [OF sv(1) ok]
  note ch = env_change_spec [OF q1(1) c]
  let ?w = "if er_existed r then Some (er_value r) else None"
  have old: "?w = env_lookup key k" using sv(5) ch(5) by simp
  obtain fine k3 where e3: "env_change key ?w k' = (fine, k3)" by force
  note ch3 = env_change_spec [OF k'(1) e3]
  have has: "env_overlay_has_key key k'" using ch(3) [of key] k'(3) by simp
  have "fine" using ch3(6) [OF has ch(5)] old ok unfolding vals_ok_def by metis
  then have "env_lookup q k3 = env_lookup q k" for q
    using ch3(4) [of q] ch(4) [of q] old k'(2) q1(2) [of q] by auto
  moreover have "env_overlay_has_key q k \<Longrightarrow> env_overlay_has_key q k3" for q
    using ch(3) [of q] q1(3) [of q] k'(3) ch3(3) [of q] by simp
  ultimately have "vals_ok (restore_env rs k3) \<and> env_keeps k3 (restore_env rs k3) \<and> (\<forall>q. env_lookup q (restore_env rs k3) = f q)"
    using u ch3(1) unfolding undo_def by blast
  moreover have "restore_env (rs @ [r]) k' = restore_env rs k3" using e3 by (simp add: restore_env_def restore_one_change sv(4))
  ultimately show "vals_ok (restore_env (rs @ [r]) k') \<and> env_keeps k' (restore_env (rs @ [r]) k') \<and> (\<forall>q. env_lookup q (restore_env (rs @ [r]) k') = f q)"
    using env_keeps_trans [OF ch3(2)] by simp
qed

lemma undo_here: "undo rs k f \<Longrightarrow> vals_ok k \<Longrightarrow> vals_ok (restore_env rs k) \<and> env_keeps k (restore_env rs k) \<and> (\<forall>q. env_lookup q (restore_env rs k) = f q)"
  by (simp add: undo_def)

lemma apply_env_loop_spec:
  assumes "vals_ok k" "undo rs k f" "apply_env_loop ovs rs k = (res, k')"
  shows "vals_ok k' \<and> env_keeps k k' \<and> (case res of Inr rs' \<Rightarrow> undo rs' k' f | Inl _ \<Rightarrow> \<forall>q. env_lookup q k' = f q)"
  using assms
proof (induction ovs arbitrary: k rs)
  case Nil
  then show ?case by (auto simp: env_keeps_def dest: vals_ok_table)
next
  case (Cons o_env ovs)
  obtain r k1 where s: "env_saved (ce_key o_env) k = (r, k1)" by force
  obtain fine k2 where c: "env_change (ce_key o_env) (ce_value o_env) k1 = (fine, k2)" by force
  note sv = env_saved_spec [OF Cons.prems(1) s]
  note q1 = quiet_lookup [OF sv(1) Cons.prems(1)]
  note ch = env_change_spec [OF q1(1) c]
  have kp: "env_keeps k k2" by (rule env_keeps_trans [OF quiet_env_keeps [OF sv(1-3)] ch(2)])
  show ?case
  proof (cases fine)
    case True
    have "apply_env_loop ovs (rs @ [r]) k2 = (res, k')" using Cons.prems(3) s c True by (simp add: env_change_def)
    moreover have "env_change (ce_key o_env) (ce_value o_env) k1 = (True, k2)" using c True by simp
    note u = undo_snoc [OF Cons.prems(2,1) s this]
    ultimately have "vals_ok k' \<and> env_keeps k2 k' \<and> (case res of Inr rs' \<Rightarrow> undo rs' k' f | Inl _ \<Rightarrow> \<forall>q. env_lookup q k' = f q)"
      using Cons.IH [OF ch(1)] by blast
    with env_keeps_trans [OF kp] show ?thesis by blast
  next
    case False
    have k': "res = Inl (abi_last_error k2)" "k' = restore_env rs k2" using Cons.prems(3) s c False by (simp_all add: env_change_def)
    have "\<And>q. env_lookup q k2 = env_lookup q k" "\<And>q. env_overlay_has_key q k \<Longrightarrow> env_overlay_has_key q k2"
      using ch(3,4) q1(2,3) False by simp_all
    then have "vals_ok k' \<and> env_keeps k2 k' \<and> (\<forall>q. env_lookup q k' = f q)"
      using Cons.prems(2) ch(1) unfolding undo_def k' by blast
    with env_keeps_trans [OF kp] show ?thesis by (auto simp: k'(1))
  qed
qed

text \<open>
  C27. Overriding the environment for a child and putting it back.  Whatever the overrides, when one of them is
  refused every variable has its old value again at once; otherwise the recorded values bring every variable back
  when the child is done.
\<close>

theorem env_override_roundtrip:
  assumes "vals_ok k" "apply_env_overrides overrides k = (res, k')"
  shows "case res of Inl error \<Rightarrow> \<forall>q. env_lookup q k' = env_lookup q k
    | Inr restores \<Rightarrow> \<forall>q. env_lookup q (restore_env restores k') = env_lookup q k"
  using apply_env_loop_spec [OF assms(1) undo_Nil assms(2) [unfolded apply_env_overrides_def]] undo_here by (auto split: sum.splits)

section \<open>The working directory\<close>

lemma chdir_spec:
  assumes t: "table_ok k" and e: "user_chdir bus path k d = Some (ok, k', d')"
  shows "table_ok k'" "current_process_index k' = current_process_index k" "state_of k' = state_of k"
    "env_of k' = env_of k" "std_of k' = std_of k" "app_fds k' = app_fds k" "app_pipes k' = app_pipes k"
    "\<not> ok \<Longrightarrow> cwd_text k' = cwd_text k" "path \<in> {lit ''/'', lit ''pfs:''} \<Longrightarrow> ok \<and> cwd_text k' = path"
proof -
  have set: "set_cwd dir k = Ret (r, u) \<Longrightarrow> table_ok u \<and> current_process_index u = current_process_index k \<and>
      state_of u = state_of k \<and> env_of u = env_of k \<and> std_of u = std_of k \<and> app_fds u = app_fds k \<and>
      app_pipes u = app_pipes k \<and> r = 0 \<and> cwd_text u = dir" for dir r u
  proof -
    assume s: "set_cwd dir k = Ret (r, u)"
    let ?p = "(cur_proc k)\<lparr>p_cwd := copy_at (replicate 64 0) 0 dir, p_cwd_len := length dir\<rparr>"
    have l: "length dir \<le> 64" and u: "r = 0" "u = clear_app_error (set_cur ?p k)" using s by (auto simp: set_cwd_def split: if_splits)
    have "process_ok ?p" using cur_ok [OF t] l by (simp add: process_ok_def)
    note v = set_cur_view [OF t this]
    note c = clear_quiet [OF v(1)]
    have "slot_view (set_cur ?p k) = (current_process_index k, state_of k, dir, env_of k)" "std_of (set_cur ?p k) = std_of k"
      using v(2) l copy_at_prefix [of dir "replicate 64 0"] by (simp_all add: slot_view_def cwd_text_def env_of_def std_of_def state_of_def)
    with c have "table_ok u" "slot_view u = (current_process_index k, state_of k, dir, env_of k)" "std_of u = std_of k"
      by (simp_all add: quiet_def calm_def u)
    then show ?thesis by (simp add: slot_view_def u c(2,3))
  qed
  obtain r where a: "abi_chdir bus (Some path) k d = (Ret (r, k'), d')" "ok = (r = 0)"
    using e by (auto simp: user_chdir_def split: prod.splits outcome.splits)
  consider err where "set_app_error err k = (r, k')" "path \<notin> {lit ''/'', lit ''pfs:''}"
    | dir where "set_cwd dir k = Ret (r, k')" "path \<in> {lit ''/'', lit ''pfs:''} \<longrightarrow> dir = path"
  proof -
    have "lit ''/'' \<noteq> lit ''pfs:''" "checked_app_slice (Some (lit ''/'')) = Some (lit ''/'')" "checked_app_slice (Some (lit ''pfs:'')) = Some (lit ''pfs:'')"
      by (simp_all add: checked_app_slice_def INPUT_MAX_def)
    then show thesis using a(1) that unfolding abi_chdir_def Let_def eq_def
      by (cases "path = lit ''/''"; cases "path = lit ''pfs:''") (auto split: if_splits option.splits prod.splits)
  qed
  then have "table_ok k' \<and> current_process_index k' = current_process_index k \<and>
      state_of k' = state_of k \<and> env_of k' = env_of k \<and> std_of k' = std_of k \<and> app_fds k' = app_fds k \<and>
      app_pipes k' = app_pipes k \<and> (\<not> ok \<longrightarrow> cwd_text k' = cwd_text k) \<and> (path \<in> {lit ''/'', lit ''pfs:''} \<longrightarrow> ok \<and> cwd_text k' = path)"
  proof cases
    case 1
    from error_quiet [OF t 1(1)] 1(2) show ?thesis by (auto simp: quiet_def calm_def slot_view_def)
  next
    case 2
    from set [OF 2(1)] 2(2) a(2) show ?thesis by auto
  qed
  then show "table_ok k'" "current_process_index k' = current_process_index k" "state_of k' = state_of k"
    "env_of k' = env_of k" "std_of k' = std_of k" "app_fds k' = app_fds k" "app_pipes k' = app_pipes k"
    "\<not> ok \<Longrightarrow> cwd_text k' = cwd_text k" "path \<in> {lit ''/'', lit ''pfs:''} \<Longrightarrow> ok \<and> cwd_text k' = path" by blast+
qed

lemma user_cwd_spec:
  assumes t: "table_ok k" and e: "user_cwd 64 k = (r, k')"
  shows "r = Some (cwd_text k)" "quiet k k'" "app_fds k' = app_fds k" "app_pipes k' = app_pipes k"
proof -
  have l: "p_cwd_len (cur_proc k) \<le> 64" "length (p_cwd (cur_proc k)) = 64" using cur_ok [OF t] by (simp_all add: process_ok_def)
  then have "r = Some (cwd_text k) \<and> k' = clear_app_error k"
    using e by (auto simp: user_cwd_def abi_cwd_def Let_def user_slice_def cwd_text_def min_def)
  with clear_quiet [OF t] show "r = Some (cwd_text k)" "quiet k k'" "app_fds k' = app_fds k" "app_pipes k' = app_pipes k" by auto
qed

section \<open>Spawning leaves the caller's slot alone\<close>

lemma quiet_other_slot:
  assumes t: "table_ok k" and p: "process_ok p" and i: "i \<noteq> current_process_index k"
    and u: "process_table u = (process_table k)[i := p]" "current_process_index u = current_process_index k" "pending_stack_reclaims u = pending_stack_reclaims k"
  shows "quiet k u"
proof -
  have "table_ok (set_proc i p k)" by (rule table_ok_set_proc [OF t p])
  then have "table_ok u" using u by (simp add: table_ok_def set_proc_def)
  moreover have "cur_proc u = cur_proc k" using i by (simp add: u)
  ultimately show ?thesis by (simp add: quiet_def calm_def slot_view_def cwd_text_def env_of_def std_of_def state_of_def u)
qed

lemma spawn_quiet:
  assumes t: "table_ok k" and act: "state_of k = Running" and e: "spawn_prepared beyond trampoline name args argv k = Ret (r, k')"
  shows "quiet k k' \<and> app_fds k' = app_fds k \<and> app_pipes k' = app_pipes k"
proof -
  let ?c = "current_process_index k"
  let ?g = "\<lambda>u. quiet k u \<and> app_fds u = app_fds k \<and> app_pipes u = app_pipes k"
  have err: "?g k'" if "set_app_error x u = (r, k')" "?g u" for x u
    using error_quiet [OF quiet_table that(1), of k] that(2) quiet_trans by auto
  have self: "?g k" using quiet_refl [OF t] by simp
  show ?thesis
  proof (cases "?c < 16")
    case False
    with e err [OF _ self] show ?thesis by (simp add: spawn_prepared_def Let_def)
  next
    case c: True
    from e c obtain path where path: "program_path name = Ret path"
      by (cases "program_path name") (simp_all add: spawn_prepared_def Let_def)
    obtain av where av: "(case argv of Some argv \<Rightarrow> process_spawn_with_argv name args argv (current_pid k) k | None \<Rightarrow> process_spawn name args k)
        = process_spawn_with_argv name args av (current_pid k) k" by (cases argv) (auto simp: process_spawn_def)
    note run = e [unfolded spawn_prepared_def Let_def path bind_outcome.simps av]
    show ?thesis
    proof (cases "bootfs_find_data (app_bootfs k) path")
      case None
      with run c err [OF _ self] show ?thesis by simp
    next
      case (Some child_image)
      obtain s0 k1 where sp: "process_spawn_with_argv name args av (current_pid k) k = (s0, k1)" by force
      from sp show ?thesis
      proof (cases rule: spawn_cases)
        case full
        have "?g k1" using calm_tables [OF t, of k1] by (simp add: full(2) quiet_def)
        with run c Some sp full(1,2) err [of ERR_NOSPC k1] show ?thesis by simp
      next
        case (claimed i)
        define q where "q = (new_process (next_pid k) (current_pid k) name args av)\<lparr>p_std_fds := p_std_fds (cur_proc k),
          p_cwd := p_cwd (cur_proc k), p_cwd_len := p_cwd_len (cur_proc k), p_env := p_env (cur_proc k)\<rparr>"
        let ?k2 = "inherit ?c i k1"
        have ne: "i \<noteq> ?c" using claimed(3) act by (auto simp: reusable_def zombie_def state_of_def)
        have i: "i < length (process_table k)" using claimed(2) t by (simp add: table_ok_def)
        have k2: "process_table ?k2 = (process_table k)[i := q]" "current_process_index ?k2 = ?c"
          "pending_stack_reclaims ?k2 = pending_stack_reclaims k" "app_console ?k2 = app_console k" "app_fds ?k2 = app_fds k" "app_pipes ?k2 = app_pipes k"
          using ne i by (simp_all add: inherit_def claimed(4) q_def set_proc_def)
        have q: "process_ok q"
          using cur_ok [OF t] new_process_ok [of "next_pid k" "current_pid k" name args av] by (simp add: q_def process_ok_def)
        show ?thesis
        proof (cases "app_console ?k2")
          case None
          let ?u = "process_set_state i Failed (- 1) ?k2"
          have u: "process_table ?u = (process_table k)[i := q\<lparr>p_state := Failed, p_exit_code := - 1\<rparr>]" "current_process_index ?u = ?c"
            "pending_stack_reclaims ?u = pending_stack_reclaims k" "app_fds ?u = app_fds k" "app_pipes ?u = app_pipes k"
            using i k2 by (simp_all add: process_set_state_def set_proc_def)
          have "quiet k ?u" by (rule quiet_other_slot [OF t _ ne u(1-3)]) (use q in \<open>simp add: process_ok_def\<close>)
          then show ?thesis using run c Some sp claimed(1) None err [of ERR_INVAL ?u] u(4,5) by simp
        next
          case con: (Some con)
          obtain ok con' k3 where pr: "prepare_process beyond trampoline i con child_image ?k2 = (ok, con', k3)" by (metis prod_cases3)
          have i2: "i < length (process_table ?k2)" using i k2(1) by simp
          from pr i2 obtain p where p: "process_table k3 = (process_table ?k2)[i := p]" "current_process_index k3 = current_process_index ?k2"
            "pending_stack_reclaims k3 = pending_stack_reclaims ?k2" "same_owner (proc ?k2 i) p" "app_fds k3 = app_fds ?k2" "app_pipes k3 = app_pipes ?k2"
            by (rule prepare_process_slot) blast
          let ?u = "k3\<lparr>app_console := Some con'\<rparr>"
          have "process_ok p" using p(4) q k2(1) i by (simp add: same_owner_def)
          then have "quiet k ?u" by (rule quiet_other_slot [OF t _ ne]) (use p k2 in simp_all)
          then have gu: "?g ?u" using p(5,6) k2 by simp
          note cl = clear_quiet [OF quiet_table [OF conjunct1 [OF gu]]]
          have "?g (clear_app_error ?u)" using cl gu quiet_trans by auto
          then show ?thesis using run c Some sp claimed(1) con pr err [of ERR_IO ?u] gu by (cases ok) auto
        qed
      qed
    qed
  qed
qed

lemma spawn_command_quiet:
  assumes t: "table_ok k" "state_of k = Running" and e: "spawn_command sys name args argv k = Some (r, k')"
  shows "quiet k k'" "app_fds k' = app_fds k" "app_pipes k' = app_pipes k"
proof -
  obtain pid where r: "(if argv = [] then abi_spawn (sys_beyond sys) (sys_trampoline sys) (Some name) (Some args) k
      else abi_spawn_argv (sys_beyond sys) (sys_trampoline sys) (Some name) (Some (map Some argv)) k) = Ret (pid, k')"
    using e by (auto simp: spawn_command_def user_spawn_def user_spawn_argv_def spawn_result_def split: if_splits outcome.splits)
  then consider x where "set_app_error x k = (pid, k')" | n a v where "spawn_prepared (sys_beyond sys) (sys_trampoline sys) n a v k = Ret (pid, k')"
    by (auto simp: abi_spawn_def abi_spawn_argv_def split: if_splits option.splits sum.splits)
  then have "quiet k k' \<and> app_fds k' = app_fds k \<and> app_pipes k' = app_pipes k"
    by cases (use error_quiet [OF t(1)] spawn_quiet [OF t] in blast)+
  then show "quiet k k'" "app_fds k' = app_fds k" "app_pipes k' = app_pipes k" by simp_all
qed

section \<open>Entering and leaving the context of a command\<close>

text \<open>
  The directory the caller is left in: its own when the command sets none or when it is one that \<^verbatim>\<open>chdir\<close> always
  accepts; but a caller whose directory is still empty stays where the command was run.  \<^term>\<open>None\<close> claims nothing.
\<close>

definition left_in :: "bytes option \<Rightarrow> kernel \<Rightarrow> bytes option \<Rightarrow> bool" where
  "left_in cw k t \<longleftrightarrow> t = None \<or> (cw = None \<or> cwd_text k \<in> {lit ''/'', lit ''pfs:''}) \<and> t = Some (cwd_text k) \<or>
     cwd_text k = [] \<and> cw \<in> {Some (lit ''/''), Some (lit ''pfs:'')} \<and> t = cw"

text \<open>The caller between entering and leaving.\<close>

definition entered :: "bytes option \<Rightarrow> kernel \<Rightarrow> bytes \<Rightarrow> env_restore list \<Rightarrow> kernel \<Rightarrow> bool" where
  "entered cw k0 saved rs k \<longleftrightarrow> vals_ok k \<and> undo rs k (\<lambda>q. env_lookup q k0) \<and> current_process_index k = current_process_index k0 \<and>
     state_of k = state_of k0 \<and> saved = (if cw = None then [] else cwd_text k0) \<and>
     (cw = None \<longrightarrow> cwd_text k = cwd_text k0) \<and> (cw \<in> {Some (lit ''/''), Some (lit ''pfs:'')} \<longrightarrow> Some (cwd_text k) = cw)"

text \<open>The caller back in its own context.\<close>

definition home :: "bytes option \<Rightarrow> kernel \<Rightarrow> kernel \<Rightarrow> bool" where
  "home t k0 k \<longleftrightarrow> vals_ok k \<and> current_process_index k = current_process_index k0 \<and> std_of k = std_of k0 \<and>
     (\<forall>q. env_lookup q k = env_lookup q k0) \<and> (\<forall>x. t = Some x \<longrightarrow> cwd_text k = x)"

lemma quiet_back: "home t k0 k \<Longrightarrow> quiet k k' \<Longrightarrow> home t k0 k'"
  using quiet_lookup [of k k'] by (auto simp: home_def quiet_def calm_def slot_view_def)

lemma calm_vals:
  assumes "calm k k'" "vals_ok k"
  shows "vals_ok k'" "env_lookup q k' = env_lookup q k" "env_overlay_has_key q k' = env_overlay_has_key q k"
proof -
  have e: "env_of k' = env_of k" "table_ok k'" using assms(1) by (simp_all add: calm_def slot_view_def)
  then show "vals_ok k'" "env_lookup q k' = env_lookup q k" using env_ok_cong [of k k'] assms(2) by (simp_all add: vals_ok_def)
  show "env_overlay_has_key q k' = env_overlay_has_key q k" using e(1) by (simp add: env_overlay_has_key_def env_of_def)
qed

lemma undo_calm: "undo rs k f \<Longrightarrow> calm k k' \<Longrightarrow> vals_ok k \<Longrightarrow> undo rs k' f"
  using calm_vals [of k k'] unfolding undo_def by simp

lemma entered_calm: "entered cw k0 saved rs k \<Longrightarrow> calm k k' \<Longrightarrow> entered cw k0 saved rs k'"
  using calm_vals [of k k'] undo_calm [of rs k _ k'] by (auto simp: entered_def calm_def slot_view_def)

lemma restore_cwd_spec:
  assumes v: "vals_ok k" and e: "restore_cwd sys cw saved k d = Some (k', d')"
  shows "vals_ok k'" "env_lookup q k' = env_lookup q k" "current_process_index k' = current_process_index k" "std_of k' = std_of k"
    "app_fds k' = app_fds k" "app_pipes k' = app_pipes k"
    "cw \<noteq> None \<Longrightarrow> saved \<in> {lit ''/'', lit ''pfs:''} \<Longrightarrow> cwd_text k' = saved" "cw = None \<or> saved = [] \<Longrightarrow> cwd_text k' = cwd_text k"
proof -
  have "vals_ok k' \<and> env_lookup q k' = env_lookup q k \<and> current_process_index k' = current_process_index k \<and> std_of k' = std_of k \<and>
      app_fds k' = app_fds k \<and> app_pipes k' = app_pipes k \<and> (cw \<noteq> None \<longrightarrow> saved \<in> {lit ''/'', lit ''pfs:''} \<longrightarrow> cwd_text k' = saved) \<and>
      (cw = None \<or> saved = [] \<longrightarrow> cwd_text k' = cwd_text k)"
  proof (cases "cw \<noteq> None \<and> saved \<noteq> []")
    case True
    then obtain ok where c: "user_chdir (sys_bus sys) saved k d = Some (ok, k', d')" using e by (auto simp: restore_cwd_def)
    note sp = chdir_spec [OF vals_ok_table [OF v] c]
    have "vals_ok k'" "env_lookup q k' = env_lookup q k" using v env_ok_cong [of k k'] sp(1,4) by (simp_all add: vals_ok_def)
    with sp True show ?thesis by auto
  next
    case False
    then have "k' = k" using e by (auto simp: restore_cwd_def)
    then show ?thesis using False v by auto
  qed
  then show "vals_ok k'" "env_lookup q k' = env_lookup q k" "current_process_index k' = current_process_index k" "std_of k' = std_of k"
    "app_fds k' = app_fds k" "app_pipes k' = app_pipes k"
    "cw \<noteq> None \<Longrightarrow> saved \<in> {lit ''/'', lit ''pfs:''} \<Longrightarrow> cwd_text k' = saved" "cw = None \<or> saved = [] \<Longrightarrow> cwd_text k' = cwd_text k"
    by blast+
qed

lemma context_back:
  assumes en: "entered cw k0 saved rs k" and l: "left_in cw k0 t" and st: "std_of k = std_of k0"
    and e: "restore_command_context sys cw saved rs k d = Some (k', d')"
  shows "home t k0 k'" "app_fds k' = app_fds k" "app_pipes k' = app_pipes k"
proof -
  note i = en [unfolded entered_def]
  note u = undo_here [of rs k "\<lambda>q. env_lookup q k0"]
  have m: "vals_ok (restore_env rs k)" "env_keeps k (restore_env rs k)" "\<And>q. env_lookup q (restore_env rs k) = env_lookup q k0"
    using u i by simp_all
  note r = restore_cwd_spec [OF m(1) e [unfolded restore_command_context_def]]
  have "cwd_text k' = x" if "t = Some x" for x
  proof (cases "cw = None \<or> saved = []")
    case True
    then show ?thesis using that r(8) i l m(2) by (auto simp: left_in_def env_keeps_def)
  next
    case False
    then show ?thesis using that r(7) i l by (auto simp: left_in_def)
  qed
  with r(1-4) m(2,3) i st show "home t k0 k'" by (simp add: home_def env_keeps_def)
  show "app_fds k' = app_fds k" "app_pipes k' = app_pipes k" using r(5,6) m(2) by (simp_all add: env_keeps_def)
qed

lemma enter_spec:
  assumes v: "vals_ok k" and l: "left_in cw k t" and e: "enter_context sys cw ovs k d = Some (res, k', d')"
  shows "std_of k' = std_of k" "app_fds k' = app_fds k" "app_pipes k' = app_pipes k"
    "case res of Inl _ \<Rightarrow> home t k k' | Inr (saved, rs) \<Rightarrow> entered cw k saved rs k'"
proof -
  have t: "table_ok k" by (rule vals_ok_table [OF v])
  define saved where "saved = (if cw = None then [] else cwd_text k)"
  obtain k1 where k1: "(case cw of None \<Rightarrow> (Inr [], k) | Some _ \<Rightarrow>
        (case user_cwd 64 k of (None, k) \<Rightarrow> (Inl (abi_last_error k), k) | (Some current, k) \<Rightarrow> (Inr current, k))) = (Inr saved, k1)"
      and q1: "quiet k k1" "app_fds k1 = app_fds k" "app_pipes k1 = app_pipes k"
  proof (cases cw)
    case None
    then show ?thesis using that [of k] quiet_refl [OF t] by (simp add: saved_def)
  next
    case (Some x)
    obtain r u where c: "user_cwd 64 k = (r, u)" by force
    note sp = user_cwd_spec [OF t c]
    show ?thesis using that [of u] sp c Some by (simp add: saved_def)
  qed
  obtain ok k2 d2 where k2: "(case cw of None \<Rightarrow> Some (True, k1, d) | Some next_cwd \<Rightarrow> user_chdir (sys_bus sys) next_cwd k1 d) = Some (ok, k2, d2)"
    using e by (auto simp: enter_context_def k1 split: bind_splits)
  have v1: "vals_ok k1" "\<And>q. env_lookup q k1 = env_lookup q k" using quiet_lookup [OF q1(1) v] by simp_all
  have s1: "std_of k1 = std_of k" "cwd_text k1 = cwd_text k" "current_process_index k1 = current_process_index k" "state_of k1 = state_of k"
    using q1(1) by (simp_all add: quiet_def calm_def slot_view_def)
  have "table_ok k2 \<and> env_of k2 = env_of k1 \<and> std_of k2 = std_of k1 \<and> app_fds k2 = app_fds k1 \<and> app_pipes k2 = app_pipes k1 \<and>
      current_process_index k2 = current_process_index k1 \<and> state_of k2 = state_of k1 \<and> (\<not> ok \<longrightarrow> cwd_text k2 = cwd_text k1) \<and>
      (cw = None \<longrightarrow> ok \<and> cwd_text k2 = cwd_text k1) \<and> (cw \<in> {Some (lit ''/''), Some (lit ''pfs:'')} \<longrightarrow> ok \<and> Some (cwd_text k2) = cw)"
  proof (cases cw)
    case None
    then have "ok" "k2 = k1" using k2 by simp_all
    then show ?thesis using vals_ok_table [OF v1(1)] None by simp
  next
    case (Some x)
    then have "user_chdir (sys_bus sys) x k1 d = Some (ok, k2, d2)" using k2 by simp
    note c = chdir_spec [OF vals_ok_table [OF v1(1)] this]
    from c(1-8) c(9) Some show ?thesis by auto
  qed
  with q1(2,3) s1 have f2: "table_ok k2" "env_of k2 = env_of k1" "std_of k2 = std_of k" "app_fds k2 = app_fds k" "app_pipes k2 = app_pipes k"
      "current_process_index k2 = current_process_index k" "state_of k2 = state_of k" "\<not> ok \<Longrightarrow> cwd_text k2 = cwd_text k"
      "cw = None \<Longrightarrow> ok \<and> cwd_text k2 = cwd_text k" "cw \<in> {Some (lit ''/''), Some (lit ''pfs:'')} \<Longrightarrow> ok \<and> Some (cwd_text k2) = cw"
    by simp_all
  have v2: "vals_ok k2" "\<And>q. env_lookup q k2 = env_lookup q k" using env_ok_cong [of k1 k2] f2(1,2) v1 by (simp_all add: vals_ok_def)
  have "std_of k' = std_of k \<and> app_fds k' = app_fds k \<and> app_pipes k' = app_pipes k \<and>
    (case res of Inl _ \<Rightarrow> home t k k' | Inr (saved, rs) \<Rightarrow> entered cw k saved rs k')"
  proof (cases ok)
    case False
    then have "res = Inl (abi_last_error k2)" "k' = k2" using e by (auto simp: enter_context_def k1 k2)
    moreover have "t = Some x \<Longrightarrow> x = cwd_text k" for x using l f2(10) False by (auto simp: left_in_def)
    ultimately show ?thesis using f2 v2 False by (simp add: home_def)
  next
    case True
    obtain r3 k3 where a: "apply_env_overrides (ovs) k2 = (r3, k3)" by force
    note sp = apply_env_loop_spec [OF v2(1) undo_Nil a [unfolded apply_env_overrides_def]]
    then have kp: "env_keeps k2 k3" "vals_ok k3" by simp_all
    show ?thesis
    proof (cases r3)
      case (Inr rs)
      then have r: "res = Inr (saved, rs)" "k' = k3" using e a True by (simp_all add: enter_context_def k1 k2)
      have "undo rs k3 (\<lambda>q. env_lookup q k)" using sp Inr v2(2) by simp
      then have "entered cw k saved rs k3" using kp f2 by (auto simp: entered_def saved_def env_keeps_def)
      then show ?thesis using kp(1) f2 by (simp add: r env_keeps_def)
    next
      case (Inl code)
      then have r: "res = Inl code" "restore_cwd sys cw saved k3 d2 = Some (k', d')" using e a True by (auto simp: enter_context_def k1 k2)
      note rc = restore_cwd_spec [OF kp(2) r(2)]
      have "\<And>q. env_lookup q k3 = env_lookup q k" using sp Inl v2(2) by simp
      moreover have "cwd_text k' = x" if "t = Some x" for x
      proof (cases "cw = None \<or> saved = []")
        case True
        then show ?thesis using that rc(8) l kp(1) f2(9,10) by (auto simp: left_in_def saved_def env_keeps_def split: if_splits)
      next
        case False
        then show ?thesis using that rc(7) l by (auto simp: left_in_def saved_def)
      qed
      ultimately show ?thesis using rc kp(1) f2 by (simp add: r(1) home_def env_keeps_def)
    qed
  qed
  then show "std_of k' = std_of k" "app_fds k' = app_fds k" "app_pipes k' = app_pipes k"
    "case res of Inl _ \<Rightarrow> home t k k' | Inr (saved, rs) \<Rightarrow> entered cw k saved rs k'" by blast+
qed

lemma restore_stdio_spec:
  assumes t: "table_ok k" and o: "length saved = 3" "\<And>i. i < 3 \<Longrightarrow> app_fd_open (saved ! i) k"
  shows "calm k (restore_stdio saved k)" "std_of (restore_stdio saved k) = saved" "app_fds (restore_stdio saved k) = app_fds k"
    "app_pipes (restore_stdio saved k) = app_pipes k"
proof -
  obtain a b c where s: "saved = [a, b, c]" using o(1) by (auto simp: numeral_3_eq_3 length_Suc_conv)
  have op: "app_fd_open a k" "app_fd_open b k" "app_fd_open c k" using o(2) [of 0] o(2) [of 1] o(2) [of 2] by (simp_all add: s)
  obtain r1 k1 where e1: "user_dup2 a 0 k = (r1, k1)" by force
  note d1 = dup2_calm [OF t _ _ e1]
  have t1: "table_ok k1" using d1(1) by (simp add: calm_def)
  obtain r2 k2 where e2: "user_dup2 b 1 k1 = (r2, k2)" by force
  note d2 = dup2_calm [OF t1 _ _ e2]
  have t2: "table_ok k2" using d2(1) by (simp add: calm_def)
  obtain r3 k3 where e3: "user_dup2 c 2 k2 = (r3, k3)" by force
  note d3 = dup2_calm [OF t2 _ _ e3]
  have open_same: "app_fd_open fd k2 = app_fd_open fd k" "app_fd_open fd k1 = app_fd_open fd k" for fd
    using d1(2) d2(2) by (auto simp: app_fd_open_def split: option.splits)
  have r: "restore_stdio saved k = k3" using e1 e2 e3 by (simp add: restore_stdio_def s STDIN_FD_def STDOUT_FD_def STDERR_FD_def)
  obtain x y z where "std_of k = [x, y, z]" using cur_ok [OF t] by (auto simp: process_ok_def std_of_def numeral_3_eq_3 length_Suc_conv)
  then show "std_of (restore_stdio saved k) = saved" unfolding r using d1(4) d2(4) d3(4) op by (simp add: s open_same)
  show "calm k (restore_stdio saved k)" using d1(1) d2(1) d3(1) unfolding r by (auto intro: calm_trans)
  show "app_fds (restore_stdio saved k) = app_fds k" "app_pipes (restore_stdio saved k) = app_pipes k" using d1(2,3) d2(2,3) d3(2,3) by (simp_all add: r)
qed

lemma save_stdio_eq: "table_ok k \<Longrightarrow> save_stdio k = std_of k"
proof -
  assume t: "table_ok k"
  obtain x y z where "std_of k = [x, y, z]" using cur_ok [OF t] by (auto simp: process_ok_def std_of_def numeral_3_eq_3 length_Suc_conv)
  then show ?thesis by (simp add: save_stdio_def abi_std_fd_def std_of_def STDIN_FD_def STDOUT_FD_def STDERR_FD_def numeral_2_eq_2)
qed

text \<open>The caller's standard descriptors refer to open descriptors.\<close>

definition std_open :: "kernel \<Rightarrow> kernel \<Rightarrow> bool" where
  "std_open k0 k \<longleftrightarrow> (\<forall>i<3. app_fd_open (std_of k0 ! i) k)"

lemma std_open_mono: "std_open k0 k \<Longrightarrow> opens k k' \<Longrightarrow> std_open k0 k'" by (simp add: std_open_def opens_def)

lemma length_std: "table_ok k \<Longrightarrow> length (std_of k) = 3" using cur_ok [of k] by (simp add: process_ok_def std_of_def)

lemma leave_home:
  assumes t0: "table_ok k0" and en: "entered cw k0 saved rs k" and l: "left_in cw k0 t" and o: "std_open k0 k"
    and e: "leave_context sys (std_of k0) cw saved rs k d = Some (k', d')"
  shows "home t k0 k'" "app_fds k' = app_fds k" "app_pipes k' = app_pipes k"
proof -
  have t: "table_ok k" using en by (simp add: entered_def vals_ok_table)
  note r = restore_stdio_spec [OF t length_std [OF t0]]
  have r': "calm k (restore_stdio (std_of k0) k)" "std_of (restore_stdio (std_of k0) k) = std_of k0"
    "app_fds (restore_stdio (std_of k0) k) = app_fds k" "app_pipes (restore_stdio (std_of k0) k) = app_pipes k"
    using r o by (simp_all add: std_open_def)
  note c = context_back [OF entered_calm [OF en r'(1)] l r'(2) e [unfolded leave_context_def]]
  from c r'(3,4) show "home t k0 k'" "app_fds k' = app_fds k" "app_pipes k' = app_pipes k" by simp_all
qed

section \<open>A command leaves its caller as it was\<close>

text \<open>
  What the rest of the system may do while the caller waits: other processes run, but the caller's own slot keeps its
  directory, environment and redirections, and no open descriptor is closed under it.
\<close>

definition wait_keeps :: "'d sys \<Rightarrow> bool" where
  "wait_keeps sys \<longleftrightarrow> (\<forall>pid k d st k' d'. table_ok k \<longrightarrow> sys_wait sys pid k d = Some (st, k', d') \<longrightarrow> quiet k k' \<and> opens k k')"

lemma wait_keepsD: "wait_keeps sys \<Longrightarrow> table_ok k \<Longrightarrow> sys_wait sys pid k d = Some (st, k', d') \<Longrightarrow> quiet k k' \<and> opens k k'"
  unfolding wait_keeps_def by blast

lemma redirect_calm:
  assumes t: "table_ok k" and e: "redirect a b c k = (ok, k')"
  shows "calm k k'" "app_fds k' = app_fds k" "app_pipes k' = app_pipes k"
proof -
  obtain r1 k1 where e1: "user_dup2 a 0 k = (r1, k1)" by force
  note d1 = dup2_calm [OF t _ _ e1]
  obtain r2 k2 where e2: "user_dup2 b 1 k1 = (r2, k2)" by force
  note d2 = dup2_calm [OF calm_table [OF d1(1)] _ _ e2]
  obtain r3 k3 where e3: "user_dup2 c 2 k2 = (r3, k3)" by force
  note d3 = dup2_calm [OF calm_table [OF d2(1)] _ _ e3]
  have "k' = k1 \<or> k' = k2 \<or> k' = k3"
    using e e1 e2 e3 by (auto simp: redirect_def STDIN_FD_def STDOUT_FD_def STDERR_FD_def split: bool.splits)
  moreover have "calm k k2" by (rule calm_trans [OF d1(1) d2(1)]) simp_all
  moreover have "calm k k3" by (rule calm_trans [OF calculation(2) d3(1)]) simp_all
  ultimately show "calm k k'" "app_fds k' = app_fds k" "app_pipes k' = app_pipes k" using d1(1-3) d2(2,3) d3(2,3) by auto
qed

lemma fd_read_tame:
  assumes "3 \<le> fd" "user_fd_read bus fd n k d = Some (r, k', d')"
  shows "tame k k'"
proof -
  have "tame k u" if "read_handle bus i n k d = (q, data, u, v)" for i q data u v
    using that by (auto simp: read_handle_def Let_def split: if_splits prod.splits app_fd_kind.splits bool.splits intro!: tameI)
  with assms show ?thesis
    by (auto simp: user_fd_read_def abi_read_def Let_def resolve_high STDIN_FD_def split: option.splits if_splits intro!: tameI)
qed

lemma read_all_quiet:
  assumes "read_all_available bus fd data k d = Some (out, k', d')"
  shows "3 \<le> fd \<longrightarrow> table_ok k \<longrightarrow> quiet k k'"
proof -
  have "case y of (out, k', d') \<Rightarrow> 3 \<le> fd \<longrightarrow> table_ok k \<longrightarrow> quiet k k'" if "read_all_available bus fd data k d = Some y" for y
    apply (rule read_all_available.raw_induct [OF _ that, of "\<lambda>bus fd data k d y. case y of (out, k', d') \<Rightarrow> 3 \<le> fd \<longrightarrow> table_ok k \<longrightarrow> quiet k k'"])
    subgoal premises prems for rec bus fd data k d y
    proof -
      from prems(2) obtain chunk k1 d1 where r: "user_fd_read bus fd 128 k d = Some (chunk, k1, d1)" by (auto split: bind_splits)
      have q: "3 \<le> fd \<Longrightarrow> table_ok k \<Longrightarrow> quiet k k1" using tame_quiet fd_read_tame [OF _ r] by blast
      show ?thesis
      proof (cases "\<exists>ch. chunk = Some ch \<and> ch \<noteq> [] \<and> \<not> length ch < 128")
        case True
        then obtain ch where "rec bus fd (data @ ch) k1 d1 = Some y" using prems(2) r by auto
        from prems(1) [OF this] q show ?thesis by (auto intro: quiet_trans dest: quiet_table)
      next
        case False
        then have "fst (snd y) = k1" using prems(2) r by (auto split: option.splits if_splits)
        with q show ?thesis by (cases y) auto
      qed
    qed
    done
  from this [OF assms] show ?thesis by simp
qed

lemma output_with_pipes_home:
  assumes w: "wait_keeps sys" and t0: "table_ok k0" "state_of k0 = Running" and en: "entered (cmd_cwd c) k0 saved rs k"
    and l: "left_in (cmd_cwd c) k0 t" and o: "std_open k0 k"
    and fds: "list_all (\<lambda>fd. 3 \<le> fd) [fst i, snd i, fst u, snd u, fst v, snd v]"
    and e: "output_with_pipes sys c (std_of k0) saved rs i u v k d = Some (res, k', d')"
  shows "home t k0 k'"
proof -
  have t: "table_ok k" using en by (simp add: entered_def vals_ok_table)
  let ?fds = "[fst i, snd i, fst u, snd u, fst v, snd v]"
  note closed = quiet_back [OF _ close_many_quiet [OF _ fds]]
  have home_ok: "home t k0 x \<Longrightarrow> table_ok x" for x by (simp add: home_def vals_ok_table)
  obtain r1 k1 d1 where e1: "user_fd_write (sys_bus sys) (sys_now sys) (snd i) (cmd_stdin c) k d = (r1, k1, d1)" by (metis prod_cases3)
  note q1 = fd_write_quiet [OF t e1]
  obtain ok k2 where e2: "redirect (fst i) (snd u) (snd v) k1 = (ok, k2)" by force
  note q2 = redirect_calm [OF quiet_table [OF q1(1)] e2]
  have c2: "calm k k2" by (rule calm_trans [OF quiet_calm [OF q1(1)] q2(1)])
  have en2: "entered (cmd_cwd c) k0 saved rs k2" by (rule entered_calm [OF en c2])
  have o2: "std_open k0 k2" by (rule std_open_mono [OF std_open_mono [OF o q1(2)] opens_eq [OF q2(2)]])
  note leave2 = leave_home [OF t0(1) _ l]
  show ?thesis
  proof (cases ok)
    case False
    let ?k = "restore_stdio (std_of k0) k2"
    have r: "calm k2 ?k" "std_of ?k = std_of k0"
      using restore_stdio_spec [OF calm_table [OF c2] length_std [OF t0(1)]] o2 by (simp_all add: std_open_def)
    have cl: "quiet ?k (close_many ?fds ?k)" by (rule close_many_quiet [OF calm_table [OF r(1)] fds])
    have rc: "restore_command_context sys (cmd_cwd c) saved rs (close_many ?fds ?k) d1 = Some (k', d')"
      using e e1 e2 False by (auto simp: output_with_pipes_def Let_def)
    have "std_of (close_many ?fds ?k) = std_of k0" using r(2) cl by (simp add: quiet_def)
    from context_back(1) [OF entered_calm [OF en2 calm_trans [OF r(1) quiet_calm [OF cl]]] l this rc] show ?thesis .
  next
    case True
    note run = e [unfolded output_with_pipes_def Let_def e1 prod.case e2 eqTrueI [OF True] bool.case]
    then obtain sp k3 where e3: "spawn_command sys (cmd_name c) (cmd_args c) (cmd_argv c) k2 = Some (sp, k3)"
      by (auto split: bind_splits)
    have run2: "state_of k2 = Running" using en2 t0(2) by (simp add: entered_def)
    note q3 = spawn_command_quiet [OF calm_table [OF c2] run2 e3]
    have en3: "entered (cmd_cwd c) k0 saved rs k3" by (rule entered_calm [OF en2 quiet_calm [OF q3(1)]])
    have o3: "std_open k0 k3" by (rule std_open_mono [OF o2 opens_eq [OF q3(2)]])
    show ?thesis
    proof (cases sp)
      case (Inl code)
      have "map_option (\<lambda>(k, d). (Inl code, close_many ?fds k, d)) (leave_context sys (std_of k0) (cmd_cwd c) saved rs k3 d1) = Some (res, k', d')"
        using run by (simp only: e3 Inl Option.bind.simps prod.case sum.case)
      then obtain k4 where e4: "leave_context sys (std_of k0) (cmd_cwd c) saved rs k3 d1 = Some (k4, d')" "k' = close_many ?fds k4" by auto
      have h4: "home t k0 k4" by (rule leave2(1) [OF en3 o3 e4(1)])
      from closed [OF h4 home_ok [OF h4]] e4(2) show ?thesis by simp
    next
      case (Inr pid)
      note run3 = run [unfolded e3 Inr Option.bind.simps prod.case sum.case]
      then obtain st k4 d4 where e4: "sys_wait sys pid k3 d1 = Some (st, k4, d4)" by (cases "sys_wait sys pid k3 d1") auto
      have q4: "quiet k3 k4" "opens k3 k4" using wait_keepsD [OF w quiet_table [OF q3(1)] e4] by simp_all
      have en4: "entered (cmd_cwd c) k0 saved rs k4" by (rule entered_calm [OF en3 quiet_calm [OF q4(1)]])
      have o4: "std_open k0 k4" by (rule std_open_mono [OF o3 q4(2)])
      note run4 = run3 [unfolded e4 Option.bind.simps prod.case]
      obtain k5 d5 where e5: "leave_context sys (std_of k0) (cmd_cwd c) saved rs k4 d4 = Some (k5, d5)"
        using run4 by (cases st; cases "leave_context sys (std_of k0) (cmd_cwd c) saved rs k4 d4") auto
      have h5: "home t k0 k5" by (rule leave2(1) [OF en4 o4 e5])
      show ?thesis
      proof (cases st)
        case None
        have "k' = close_many ?fds k5" using run4 by (simp add: None e5)
        with closed [OF h5 home_ok [OF h5]] show ?thesis by simp
      next
        case (Some s)
        note run5 = run4 [unfolded Some option.case e5 Option.bind.simps prod.case]
        then obtain out k6 d6 where e6: "read_all_available (sys_bus sys) (fst u) [] k5 d5 = Some (out, k6, d6)"
          by (cases "read_all_available (sys_bus sys) (fst u) [] k5 d5") auto
        note run6 = run5 [unfolded e6 Option.bind.simps prod.case]
        then obtain err k7 d7 where e7: "read_all_available (sys_bus sys) (fst v) [] k6 d6 = Some (err, k7, d7)"
          by (cases "read_all_available (sys_bus sys) (fst v) [] k6 d6") auto
        have q6: "quiet k5 k6" using read_all_quiet [OF e6] home_ok [OF h5] fds by simp
        have q7: "quiet k6 k7" using read_all_quiet [OF e7] quiet_table [OF q6] fds by simp
        have h7: "home t k0 k7" by (rule quiet_back [OF quiet_back [OF h5 q6] q7])
        have "k' = close_many ?fds k7" using run6 by (simp add: e7)
        with closed [OF h7 home_ok [OF h7]] show ?thesis by simp
      qed
    qed
  qed
qed

lemma run_output_home:
  assumes w: "wait_keeps sys" and v: "vals_ok k0" "state_of k0 = Running" and l: "left_in (cmd_cwd c) k0 t" and o: "std_open k0 k0"
    and e: "run_command_output sys c k0 d = Some (res, k', d')"
  shows "home t k0 k'"
proof -
  have t0: "table_ok k0" by (rule vals_ok_table [OF v(1)])
  note run = e [unfolded run_command_output_def Let_def save_stdio_eq [OF t0]]
  then obtain en k1 d1 where e1: "enter_context sys (cmd_cwd c) (cmd_env c) k0 d = Some (en, k1, d1)"
    by (cases "enter_context sys (cmd_cwd c) (cmd_env c) k0 d") auto
  note en = enter_spec [OF v(1) l e1]
  note run1 = run [unfolded e1 Option.bind.simps prod.case]
  show ?thesis
  proof (cases en)
    case (Inl code)
    with run1 en(4) show ?thesis by simp
  next
    case (Inr sr)
    obtain saved rs where sr: "sr = (saved, rs)" by force
    note run2 = run1 [unfolded Inr sr sum.case prod.case]
    have i1: "entered (cmd_cwd c) k0 saved rs k1" using en(4) by (simp add: Inr sr)
    have t1: "table_ok k1" using i1 by (simp add: entered_def vals_ok_table)
    have o1: "std_open k0 k1" by (rule std_open_mono [OF o opens_eq [OF en(2)]])
    have fail: "home t k0 k'" if "restore_command_context sys (cmd_cwd c) saved rs (close_many fds u) d1 = Some (k', d')"
      "list_all (\<lambda>fd. 3 \<le> fd) fds" "quiet k1 u" for fds u
    proof -
      have q: "quiet k1 (close_many fds u)" by (rule quiet_trans [OF that(3) close_many_quiet [OF quiet_table [OF that(3)] that(2)]])
      have "std_of (close_many fds u) = std_of k0" using q en(1) by (simp add: quiet_def)
      from context_back(1) [OF entered_calm [OF i1 quiet_calm [OF q]] l this that(1)] show ?thesis .
    qed
    obtain p1 k2 where e2: "user_pipe k1 = (p1, k2)" by force
    note q2 = pipe_quiet [OF t1 e2]
    show ?thesis
    proof (cases p1)
      case None
      with run2 e2 fail [of "[]" k2] q2(1) show ?thesis by auto
    next
      case p1: (Some a)
      have f1: "3 \<le> fst a \<and> 3 \<le> snd a" using q2(3) [of "fst a" "snd a"] p1 by simp
      obtain p2 k3 where e3: "user_pipe k2 = (p2, k3)" by force
      note q3 = pipe_quiet [OF quiet_table [OF q2(1)] e3]
      have q13: "quiet k1 k3" by (rule quiet_trans [OF q2(1) q3(1)])
      show ?thesis
      proof (cases p2)
        case None
        with run2 e2 e3 p1 fail [of "[fst a, snd a]" k3] q13 f1 show ?thesis by auto
      next
        case p2: (Some b)
        have f2: "3 \<le> fst b \<and> 3 \<le> snd b" using q3(3) [of "fst b" "snd b"] p2 by simp
        obtain p3 k4 where e4: "user_pipe k3 = (p3, k4)" by force
        note q4 = pipe_quiet [OF quiet_table [OF q3(1)] e4]
        have q14: "quiet k1 k4" by (rule quiet_trans [OF q13 q4(1)])
        show ?thesis
        proof (cases p3)
          case None
          with run2 e2 e3 e4 p1 p2 fail [of "[fst a, snd a, fst b, snd b]" k4] q14 f1 f2 show ?thesis by auto
        next
          case p3: (Some g)
          have f3: "3 \<le> fst g \<and> 3 \<le> snd g" using q4(3) [of "fst g" "snd g"] p3 by simp
          have o4: "std_open k0 k4" by (rule std_open_mono [OF o1 opens_trans [OF q2(2) opens_trans [OF q3(2) q4(2)]]])
          have ow: "output_with_pipes sys c (std_of k0) saved rs a b g k4 d1 = Some (res, k', d')"
            using run2 by (simp add: e2 e3 e4 p1 p2 p3)
          show ?thesis
            by (rule output_with_pipes_home [OF w t0 v(2) entered_calm [OF i1 quiet_calm [OF q14]] l o4 _ ow]) (use f1 f2 f3 in simp)
        qed
      qed
    qed
  qed
qed

text \<open>
  C26. Capturing the output of a child.  Whatever happens on the way - a refused directory or variable, no pipe left, a
  failed spawn, a wait without an answer or a finished child - when \<^verbatim>\<open>run_command_output\<close> returns, the caller's standard
  descriptors and every variable of its environment are as before, and it is in the directory it was in when the
  command sets none or when that directory is \<^verbatim>\<open>/\<close> or \<^verbatim>\<open>pfs:\<close>.
\<close>

theorem run_command_output_restores:
  assumes "wait_keeps sys" "vals_ok k" "state_of k = Running" "std_open k k" "run_command_output sys c k d = Some (res, k', d')"
  shows "current_process_index k' = current_process_index k \<and> std_of k' = std_of k \<and> (\<forall>q. env_lookup q k' = env_lookup q k) \<and>
    (cmd_cwd c = None \<or> cwd_text k \<in> {lit ''/'', lit ''pfs:''} \<longrightarrow> cwd_text k' = cwd_text k)"
proof -
  have h: "home t k k'" if "left_in (cmd_cwd c) k t" for t by (rule run_output_home [OF assms(1-3) that assms(4,5)])
  show ?thesis using h [of None] h [of "Some (cwd_text k)"] by (simp add: left_in_def home_def)
qed

text \<open>A run whose wait gives no status returns when the spawn does.\<close>

definition demo_sys :: "ata_dev sys" where
  "demo_sys = \<lparr>sys_bus = dev_bus, sys_now = 0, sys_beyond = (\<lambda>a. 0), sys_trampoline = 0, sys_wait = (\<lambda>pid k d. Some (None, k, d))\<rparr>"

lemma demo_wait_keeps: "wait_keeps demo_sys"
  by (auto simp: wait_keeps_def demo_sys_def quiet_refl)

lemma demo_run_returns:
  assumes c: "cmd_cwd c = None" "cmd_argv c = []" "program_path (cmd_name c) \<noteq> Panic"
  shows "run_command_output demo_sys c k d \<noteq> None"
proof -
  obtain path where path: "program_path (cmd_name c) = Ret path" using c(3) by (cases "program_path (cmd_name c)") simp_all
  have pr: "\<exists>x. spawn_prepared b a (cmd_name c) args v k = Ret x" for b a args v k
    unfolding spawn_prepared_def path Let_def bind_outcome.simps by simp
  have "\<exists>x. abi_spawn b a (Some (cmd_name c)) args k = Ret x" for b a args k
    using pr unfolding abi_spawn_def by (auto simp: checked_app_slice_def split: option.split)
  then have sp: "spawn_command demo_sys (cmd_name c) (cmd_args c) (cmd_argv c) k \<noteq> None" for k
    unfolding spawn_command_def user_spawn_def spawn_result_def c(2) by (metis (no_types, lifting) option.distinct(1) outcome.simps(5) prod.collapse prod.case)
  have rc: "restore_command_context sys None saved rs k d = Some (restore_env rs k, d)" for sys :: "ata_dev sys" and saved rs k d
    by (simp add: restore_command_context_def restore_cwd_def)
  have en: "enter_context demo_sys None ovs k d \<noteq> None" for ovs k d
    by (auto simp: enter_context_def restore_cwd_def split: prod.splits sum.splits)
  have wt: "sys_wait demo_sys pid k d = Some (None, k, d)" for pid k d by (simp add: demo_sys_def)
  have out: "output_with_pipes demo_sys c saved_stdio saved rs i u v k d \<noteq> None" for saved_stdio saved rs i u v k d
    using sp c(1) by (auto simp: output_with_pipes_def Let_def rc leave_context_def wt split: prod.splits bool.splits sum.splits option.splits bind_splits)
      (metis option.distinct(1))
  show ?thesis
    using en [of "cmd_env c" k d] c(1) out
    by (auto simp: run_command_output_def Let_def rc split: prod.splits sum.splits option.splits bind_splits)
qed

lemma demo_caller: "vals_ok demo_spawner" "state_of demo_spawner = Running" "std_open demo_spawner demo_spawner" "cwd_text demo_spawner = []"
proof -
  have p: "cur_proc demo_spawner = demo_proc 1 0 Running" by (simp add: demo_spawner_def demo_family_facts)
  have env: "env_of demo_spawner = replicate 64 app_env_var_empty" by (simp add: env_of_def p demo_proc_def process_empty_def)
  have t: "table_ok demo_spawner" by (rule sched_invD(1) [OF demo_spawner_ok(1)])
  have u: "\<not> ev_used app_env_var_empty" by (simp add: app_env_var_empty_def)
  have ok: "env_ok demo_spawner" using t u by (auto simp: env_ok_def env env_tab_ok_def env.uniq_def list_all_iff app_env_var_empty_def)
  have "find (env_matches q) (replicate 64 app_env_var_empty) = None" for q using u by (simp add: find_None_iff env_matches_def)
  then have look: "env_lookup q demo_spawner = map_option snd (find (\<lambda>(env_key, env_value). env_key = q) ENV)" for q
    using env by (simp add: env_lookup_def env_of_def)
  have "\<forall>e \<in> set ENV. snd e \<noteq> [] \<and> length (snd e) \<le> 96" by (simp add: ENV_def lit_def)
  then have "v \<noteq> [] \<and> length v \<le> 96" if "env_lookup q demo_spawner = Some v" for q v
    using that unfolding look by (auto simp: find_Some_iff) (metis nth_mem snd_conv)+
  then show "vals_ok demo_spawner" using ok by (simp add: vals_ok_def)
  show "state_of demo_spawner = Running" "cwd_text demo_spawner = []" by (simp_all add: state_of_def cwd_text_def p demo_proc_def process_empty_def)
  have "std_of demo_spawner = [0, 1, 2]" by (simp add: std_of_def p demo_proc_def process_empty_def STDIN_FD_def STDOUT_FD_def STDERR_FD_def)
  then show "std_open demo_spawner demo_spawner"
    by (auto simp: std_open_def app_fd_open_def STDIN_FD_def STDERR_FD_def less_Suc_eq numeral_3_eq_3)
qed

definition demo_command :: command where
  "demo_command = command_env_set (lit ''USER'') (lit ''guest'') (command_args (lit ''-v'') (command_new (lit ''a'')))"

theorem run_command_output_restores_witness:
  "\<exists>res k' d'. run_command_output demo_sys demo_command demo_spawner demo_dev = Some (res, k', d') \<and>
     std_of k' = std_of demo_spawner \<and> env_lookup (lit ''USER'') k' = env_lookup (lit ''USER'') demo_spawner \<and> cwd_text k' = cwd_text demo_spawner"
proof -
  have c: "cmd_cwd demo_command = None" "cmd_argv demo_command = []" "cmd_name demo_command = lit ''a''"
    by (simp_all add: demo_command_def command_env_set_def command_args_def command_new_def Let_def COMMAND_ARGS_MAX_def)
  then have "run_command_output demo_sys demo_command demo_spawner demo_dev \<noteq> None"
    by (intro demo_run_returns) (simp_all only: demo_program_path outcome.distinct not_False_eq_True)
  then obtain res k' d' where e: "run_command_output demo_sys demo_command demo_spawner demo_dev = Some (res, k', d')" by auto
  from run_command_output_restores [OF demo_wait_keeps demo_caller(1,2,3) e] e c(1) show ?thesis by blast
qed

text \<open>
  An empty working directory is not put back: a command that names a directory leaves such a caller there.
  The kernel starts its programs in the root directory, so no program of this system begins with an empty one.
\<close>

lemma empty_directory_not_restored:
  assumes "wait_keeps sys" "vals_ok k" "state_of k = Running" "std_open k k" "cwd_text k = []" "cmd_cwd c = Some (lit ''pfs:'')"
    "run_command_output sys c k d = Some (res, k', d')"
  shows "cwd_text k' = lit ''pfs:''"
  using run_output_home [OF assms(1-3), of c "Some (lit ''pfs:'')" d res k' d'] assms(4-7) by (simp add: left_in_def home_def)

section \<open>Redirected runs\<close>

lemma open_target_calm:
  assumes t: "table_ok k" and w: "0 \<le> which" "which \<le> 2" and e: "open_target sys target which k d = (res, k', d')"
  shows "calm k k'" "opens k k'" "case res of Inl (_, held) \<Rightarrow> list_all (\<lambda>fd. 3 \<le> fd) held | Inr files \<Rightarrow> list_all (\<lambda>fd. 3 \<le> fd) files"
proof -
  have "calm k k' \<and> opens k k' \<and> (case res of Inl (_, held) \<Rightarrow> list_all (\<lambda>fd. 3 \<le> fd) held | Inr files \<Rightarrow> list_all (\<lambda>fd. 3 \<le> fd) files)"
  proof (cases target)
    case None
    with e t show ?thesis by (auto simp: open_target_def calm_def)
  next
    case (Some path)
    obtain r k1 d1 where f: "file_create (sys_bus sys) (sys_now sys) path k d = (r, k1, d1)" by (metis prod_cases3)
    note q = file_create_quiet [OF t f]
    show ?thesis
    proof (cases r)
      case None
      with e Some f q show ?thesis by (auto simp: open_target_def quiet_def)
    next
      case fd: (Some fd)
      obtain ok k2 where dp: "user_dup2 fd which k1 = (ok, k2)" by force
      note d2 = dup2_calm [OF quiet_table [OF q(1)] w dp]
      have "k' = k2" "res = (if ok then Inr [fd] else Inl (abi_last_error k2, [fd]))"
        using e Some f fd dp by (auto simp: open_target_def split: bool.splits)
      then show ?thesis
        using calm_trans [OF quiet_calm [OF q(1)] d2(1)] opens_trans [OF q(2) opens_eq [OF d2(2)]] q(3) [OF fd] by auto
    qed
  qed
  then show "calm k k'" "opens k k'" "case res of Inl (_, held) \<Rightarrow> list_all (\<lambda>fd. 3 \<le> fd) held | Inr files \<Rightarrow> list_all (\<lambda>fd. 3 \<le> fd) files"
    by blast+
qed

lemma stdin_pipe_calm:
  assumes t: "table_ok k" and e: "stdin_pipe sys stdin k d = ((fds, ok), k', d')"
  shows "calm k k'" "opens k k'" "fds = Some xs \<Longrightarrow> list_all (\<lambda>fd. 3 \<le> fd) xs" "fds = None \<Longrightarrow> std_of k' = std_of k"
proof -
  have "calm k k' \<and> opens k k' \<and> (fds = Some xs \<longrightarrow> list_all (\<lambda>fd. 3 \<le> fd) xs) \<and> (fds = None \<longrightarrow> std_of k' = std_of k)"
  proof (cases "stdin = []")
    case True
    with e t show ?thesis by (auto simp: stdin_pipe_def calm_def)
  next
    case False
    obtain p k1 where p: "user_pipe k = (p, k1)" by force
    note q = pipe_quiet [OF t p]
    show ?thesis
    proof (cases p)
      case None
      with e False p q show ?thesis by (auto simp: stdin_pipe_def quiet_def)
    next
      case (Some ab)
      obtain a b where ab: "ab = (a, b)" by force
      obtain r k2 d2 where w: "user_fd_write (sys_bus sys) (sys_now sys) b stdin k1 d = (r, k2, d2)" by (metis prod_cases3)
      note q2 = fd_write_quiet [OF quiet_table [OF q(1)] w]
      obtain ok2 k3 where dp: "user_dup2 a 0 k2 = (ok2, k3)" by force
      note d3 = dup2_calm [OF quiet_table [OF q2(1)] _ _ dp]
      have r: "k' = k3" "fds = Some [a, b]" using e False p Some ab w dp by (auto simp: stdin_pipe_def STDIN_FD_def)
      have "calm k k3" using calm_trans [OF quiet_calm [OF quiet_trans [OF q(1) q2(1)]] d3(1)] by simp
      moreover have "opens k k3" using opens_trans [OF opens_trans [OF q(2) q2(2)] opens_eq [OF d3(2)]] by simp
      ultimately show ?thesis using r q(3) [of a b] Some ab by auto
    qed
  qed
  then show "calm k k'" "opens k k'" "fds = Some xs \<Longrightarrow> list_all (\<lambda>fd. 3 \<le> fd) xs" "fds = None \<Longrightarrow> std_of k' = std_of k" by blast+
qed

lemma home_table: "home t k0 k \<Longrightarrow> table_ok k" by (simp add: home_def vals_ok_table)

lemma status_fail_home:
  assumes t0: "table_ok k0" and en: "entered (cmd_cwd c) k0 saved rs k" and l: "left_in (cmd_cwd c) k0 t" and o: "std_open k0 k"
    and f: "list_all (\<lambda>fd. 3 \<le> fd) in_fds" "list_all (\<lambda>fd. 3 \<le> fd) held"
    and e: "status_fail sys c (std_of k0) saved rs in_fds held code k d = Some (res, k', d')"
  shows "home t k0 k'"
proof -
  have t: "table_ok k" using en by (simp add: entered_def vals_ok_table)
  let ?k = "restore_stdio (std_of k0) k"
  have r: "calm k ?k" "std_of ?k = std_of k0"
    using restore_stdio_spec [OF t length_std [OF t0]] o by (simp_all add: std_open_def)
  have cl: "quiet ?k (close_many in_fds ?k)" by (rule close_many_quiet [OF calm_table [OF r(1)] f(1)])
  obtain k1 where k1: "restore_command_context sys (cmd_cwd c) saved rs (close_many in_fds ?k) d = Some (k1, d')" "k' = fold file_drop held k1"
    using e by (auto simp: status_fail_def)
  have "std_of (close_many in_fds ?k) = std_of k0" using r(2) cl by (simp add: quiet_def)
  note h = context_back(1) [OF entered_calm [OF en calm_trans [OF r(1) quiet_calm [OF cl]]] l this k1(1)]
  from quiet_back [OF h file_drop_quiet [OF home_table [OF h] f(2)]] show ?thesis by (simp add: k1(2))
qed

lemma status_spawn_home:
  assumes w: "wait_keeps sys" and t0: "table_ok k0" "state_of k0 = Running" and en: "entered (cmd_cwd c) k0 saved rs k"
    and l: "left_in (cmd_cwd c) k0 t" and o: "std_open k0 k"
    and f: "list_all (\<lambda>fd. 3 \<le> fd) in_fds" "list_all (\<lambda>fd. 3 \<le> fd) targets"
    and e: "status_spawn sys c (std_of k0) saved rs in_fds targets k d = Some (res, k', d')"
  shows "home t k0 k'"
proof -
  have t: "table_ok k" using en by (simp add: entered_def vals_ok_table)
  have run: "state_of k = Running" using en t0(2) by (simp add: entered_def)
  note u = e [unfolded status_spawn_def Let_def]
  then obtain sp k1 where e1: "spawn_command sys (cmd_name c) (cmd_args c) (cmd_argv c) k = Some (sp, k1)"
    by (cases "spawn_command sys (cmd_name c) (cmd_args c) (cmd_argv c) k") auto
  note q1 = spawn_command_quiet [OF t run e1]
  note u1 = u [unfolded e1 Option.bind.simps prod.case]
  have o1: "std_open k0 k1" by (rule std_open_mono [OF o opens_eq [OF q1(2)]])
  have fin: "home t k0 k'" if "map_option (\<lambda>(k, d). (r, fold file_drop targets (close_many in_fds k), d))
      (leave_context sys (std_of k0) (cmd_cwd c) saved rs x y) = Some (res, k', d')" "quiet k1 x" "std_open k0 x" for r x y
  proof -
    note le = that(1)
    obtain k2 where k2: "leave_context sys (std_of k0) (cmd_cwd c) saved rs x y = Some (k2, d')" "k' = fold file_drop targets (close_many in_fds k2)"
      using le by auto
    have "entered (cmd_cwd c) k0 saved rs x" by (rule entered_calm [OF en quiet_calm [OF quiet_trans [OF q1(1) that(2)]]])
    note h = leave_home(1) [OF t0(1) this l that(3) k2(1)]
    note h2 = quiet_back [OF h close_many_quiet [OF home_table [OF h] f(1)]]
    from quiet_back [OF h2 file_drop_quiet [OF home_table [OF h2] f(2)]] show ?thesis by (simp add: k2(2))
  qed
  show ?thesis
  proof (cases sp)
    case (Inl code)
    show ?thesis by (rule fin [OF _ quiet_refl [OF quiet_table [OF q1(1)]] o1]) (use u1 Inl in simp)
  next
    case (Inr pid)
    note u2 = u1 [unfolded Inr sum.case]
    then obtain st k2 d2 where e2: "sys_wait sys pid k1 d = Some (st, k2, d2)" by (cases "sys_wait sys pid k1 d") auto
    have q2: "quiet k1 k2" "opens k1 k2" using wait_keepsD [OF w quiet_table [OF q1(1)] e2] by simp_all
    note u3 = u2 [unfolded e2 Option.bind.simps prod.case]
    show ?thesis
    proof (cases st)
      case None
      show ?thesis by (rule fin [OF _ q2(1) std_open_mono [OF o1 q2(2)]]) (use u3 None in simp)
    next
      case (Some s)
      show ?thesis by (rule fin [OF _ q2(1) std_open_mono [OF o1 q2(2)]]) (use u3 Some in simp)
    qed
  qed
qed

lemma run_status_home:
  assumes w: "wait_keeps sys" and v: "vals_ok k0" "state_of k0 = Running" and l: "left_in (cmd_cwd c) k0 t" and o: "std_open k0 k0"
    and e: "run_command_status sys c k0 d = Some (res, k', d')"
  shows "home t k0 k'"
proof -
  have t0: "table_ok k0" by (rule vals_ok_table [OF v(1)])
  note run = e [unfolded run_command_status_def Let_def save_stdio_eq [OF t0]]
  then obtain en k1 d1 where e1: "enter_context sys (cmd_cwd c) (cmd_env c) k0 d = Some (en, k1, d1)"
    by (cases "enter_context sys (cmd_cwd c) (cmd_env c) k0 d") auto
  note en = enter_spec [OF v(1) l e1]
  note run1 = run [unfolded e1 Option.bind.simps prod.case]
  show ?thesis
  proof (cases en)
    case (Inl code)
    with run1 en(4) show ?thesis by simp
  next
    case (Inr sr)
    obtain saved rs where sr: "sr = (saved, rs)" by force
    note run2 = run1 [unfolded Inr sr sum.case prod.case]
    have i1: "entered (cmd_cwd c) k0 saved rs k1" using en(4) by (simp add: Inr sr)
    have t1: "table_ok k1" using i1 by (simp add: entered_def vals_ok_table)
    have o1: "std_open k0 k1" by (rule std_open_mono [OF o opens_eq [OF en(2)]])
    obtain fds ok k2 d2 where e2: "stdin_pipe sys (cmd_stdin c) k1 d1 = ((fds, ok), k2, d2)" by (metis surj_pair)
    note q2 = stdin_pipe_calm [OF t1 e2]
    have i2: "entered (cmd_cwd c) k0 saved rs k2" by (rule entered_calm [OF i1 q2(1)])
    have o2: "std_open k0 k2" by (rule std_open_mono [OF o1 q2(2)])
    note run3 = run2 [unfolded e2 prod.case]
    show ?thesis
    proof (cases fds)
      case None
      then have "restore_command_context sys (cmd_cwd c) saved rs k2 d2 = Some (k', d')" using run3 by auto
      from context_back(1) [OF i2 l _ this] q2(4) [OF None] en(1) show ?thesis by simp
    next
      case (Some xs)
      note f2 = q2(3) [OF Some]
      show ?thesis
      proof (cases ok)
        case False
        with run3 Some show ?thesis using status_fail_home [OF t0 i2 l o2 f2, of "[]"] by simp
      next
        case ok: True
        obtain r3 k3 d3 where e3: "open_target sys (cmd_stdout_file c) STDOUT_FD k2 d2 = (r3, k3, d3)" by (metis prod_cases3)
        have c3: "calm k2 k3" "opens k2 k3" "case r3 of Inl (_, held) \<Rightarrow> list_all (\<lambda>fd. 3 \<le> fd) held | Inr files \<Rightarrow> list_all (\<lambda>fd. 3 \<le> fd) files"
          using open_target_calm [OF calm_table [OF q2(1)] _ _ e3] by (simp_all add: STDOUT_FD_def)
        have i3: "entered (cmd_cwd c) k0 saved rs k3" by (rule entered_calm [OF i2 c3(1)])
        have o3: "std_open k0 k3" by (rule std_open_mono [OF o2 c3(2)])
        have run4: "(case (r3, k3, d3) of (Inl (error, held), k, d) \<Rightarrow> status_fail sys c (std_of k0) saved rs xs held error k d
            | (Inr out_file, k, d) \<Rightarrow> (case open_target sys (cmd_stderr_file c) STDERR_FD k d of
                 (Inl (error, held), k, d) \<Rightarrow> status_fail sys c (std_of k0) saved rs xs (held @ out_file) error k d
               | (Inr err_file, k, d) \<Rightarrow> status_spawn sys c (std_of k0) saved rs xs (out_file @ err_file) k d)) = Some (res, k', d')"
          using run3 by (simp only: ok Some e3 option.case bool.case)
        show ?thesis
        proof (cases r3)
          case (Inl eh)
          then show ?thesis using run4 c3(3) status_fail_home [OF t0 i3 l o3 f2, of "snd eh"] by (cases eh) simp
        next
          case out: (Inr files)
          obtain r4 k4 d4 where e4: "open_target sys (cmd_stderr_file c) STDERR_FD k3 d3 = (r4, k4, d4)" by (metis prod_cases3)
          have c4: "calm k3 k4" "opens k3 k4" "case r4 of Inl (_, held) \<Rightarrow> list_all (\<lambda>fd. 3 \<le> fd) held | Inr files \<Rightarrow> list_all (\<lambda>fd. 3 \<le> fd) files"
            using open_target_calm [OF calm_table [OF c3(1)] _ _ e4] by (simp_all add: STDERR_FD_def)
          have i4: "entered (cmd_cwd c) k0 saved rs k4" by (rule entered_calm [OF i3 c4(1)])
          have o4: "std_open k0 k4" by (rule std_open_mono [OF o3 c4(2)])
          show ?thesis
          proof (cases r4)
            case (Inl eh)
            obtain x held where eh: "eh = (x, held)" by force
            have "status_fail sys c (std_of k0) saved rs xs (held @ files) x k4 d4 = Some (res, k', d')" using run4 by (simp only: out e4 Inl eh sum.case prod.case)
            from status_fail_home [OF t0 i4 l o4 f2 _ this] c3(3) c4(3) show ?thesis by (simp add: out Inl eh)
          next
            case (Inr efiles)
            have "status_spawn sys c (std_of k0) saved rs xs (files @ efiles) k4 d4 = Some (res, k', d')" using run4 by (simp only: out e4 Inr sum.case prod.case)
            from status_spawn_home [OF w t0 v(2) i4 l o4 f2 _ this] c3(3) c4(3) show ?thesis by (simp add: out Inr)
          qed
        qed
      qed
    qed
  qed
qed

text \<open>The same for \<^verbatim>\<open>run_command_status\<close>, with its redirections to files.\<close>

lemma run_command_status_restores:
  assumes "wait_keeps sys" "vals_ok k" "state_of k = Running" "std_open k k" "run_command_status sys c k d = Some (res, k', d')"
  shows "current_process_index k' = current_process_index k \<and> std_of k' = std_of k \<and> (\<forall>q. env_lookup q k' = env_lookup q k) \<and>
    (cmd_cwd c = None \<or> cwd_text k \<in> {lit ''/'', lit ''pfs:''} \<longrightarrow> cwd_text k' = cwd_text k)"
proof -
  have h: "home t k k'" if "left_in (cmd_cwd c) k t" for t by (rule run_status_home [OF assms(1-3) that assms(4,5)])
  show ?thesis using h [of None] h [of "Some (cwd_text k)"] by (simp add: left_in_def home_def)
qed

theorem env_override_roundtrip_witness:
  "case apply_env_overrides [\<lparr>ce_key = lit ''USER'', ce_value = Some (lit ''guest'')\<rparr>, \<lparr>ce_key = lit ''HOME'', ce_value = None\<rparr>] demo_spawner of
     (Inl error, k') \<Rightarrow> env_lookup (lit ''USER'') k' = env_lookup (lit ''USER'') demo_spawner
   | (Inr restores, k') \<Rightarrow> env_lookup (lit ''USER'') (restore_env restores k') = env_lookup (lit ''USER'') demo_spawner"
proof -
  obtain res k' where e: "apply_env_overrides [\<lparr>ce_key = lit ''USER'', ce_value = Some (lit ''guest'')\<rparr>, \<lparr>ce_key = lit ''HOME'', ce_value = None\<rparr>] demo_spawner = (res, k')"
    by force
  from env_override_roundtrip [OF demo_caller(1) e] show ?thesis unfolding e by (cases res) (simp_all only: prod.case sum.case)
qed

end
