(* ===== verification/Rysh_Vars.thy ===== *)
theory Rysh_Vars
  imports User_Command
begin

text \<open>
  The script shell's own data, \<^verbatim>\<open>programs/rysh/src/main.rs\<close>: the store of script variables and the parsing of a line.
  A store has eight slots, with names of at most 16 and values of at most 64 bytes.  The locale \<open>slot_table\<close> is
  interpreted on it, so a store refines a dictionary from names to values.
\<close>

section \<open>The variable store\<close>

definition MAX_VARS :: nat where "MAX_VARS = 8"
definition NAME_SIZE :: nat where "NAME_SIZE = 16"
definition VALUE_SIZE :: nat where "VALUE_SIZE = 64"

record var =
  var_used :: bool
  var_name :: bytes
  var_name_len :: nat
  var_value :: bytes
  var_value_len :: nat

type_synonym var_store = "var list"

definition var_empty :: var where
  "var_empty = \<lparr>var_used = False, var_name = replicate NAME_SIZE 0, var_name_len = 0, var_value = replicate VALUE_SIZE 0, var_value_len = 0\<rparr>"

definition store_new :: var_store where
  "store_new = replicate MAX_VARS var_empty"

definition rysh_copy_bytes :: "bytes \<Rightarrow> bytes \<Rightarrow> nat \<times> bytes" where
  "rysh_copy_bytes source dest = (let len = min (length source) (length dest) in (len, take len source @ drop len dest))"

definition store_find :: "bytes \<Rightarrow> var_store \<Rightarrow> nat option" where
  "store_find nam s = find (\<lambda>i. var_used (s ! i) \<and> take (var_name_len (s ! i)) (var_name (s ! i)) = nam) [0..<length s]"

definition store_free_slot :: "var_store \<Rightarrow> nat option" where
  "store_free_slot s = find (\<lambda>i. \<not> var_used (s ! i)) [0..<length s]"

definition var_put :: "nat \<Rightarrow> bytes \<Rightarrow> bytes \<Rightarrow> var_store \<Rightarrow> var_store" where
  "var_put i nam v s =
     (let var = s ! i; (nlen, nbuf) = rysh_copy_bytes nam (var_name var); (vlen, vbuf) = rysh_copy_bytes v (var_value var)
      in s[i := \<lparr>var_used = True, var_name = nbuf, var_name_len = nlen, var_value = vbuf, var_value_len = vlen\<rparr>])"

definition store_set :: "bytes \<Rightarrow> bytes \<Rightarrow> var_store \<Rightarrow> var_store" where
  "store_set nam v s =
     (if nam = [] then s
      else
        let index = (case store_find nam s of Some i \<Rightarrow> i | None \<Rightarrow> (case store_free_slot s of Some i \<Rightarrow> i | None \<Rightarrow> 0))
        in var_put index nam v s)"

definition store_get :: "bytes \<Rightarrow> var_store \<Rightarrow> bytes option" where
  "store_get nam s = map_option (\<lambda>i. take (var_value_len (s ! i)) (var_value (s ! i))) (store_find nam s)"

section \<open>Parsing\<close>

definition rysh_trim_cr :: "bytes \<Rightarrow> bytes" where
  "rysh_trim_cr bs = (if ends_with bs [13] then take (length bs - 1) bs else bs)"

definition rysh_first_word :: "bytes \<Rightarrow> bytes option" where
  "rysh_first_word bs = (let bs = trim bs in if bs = [] then None else Some (fst (split_word bs)))"

definition checked_mul_usize :: "nat \<Rightarrow> nat \<Rightarrow> nat option" where
  "checked_mul_usize a b = (if a * b < 2 ^ 64 then Some (a * b) else None)"

definition checked_add_usize :: "nat \<Rightarrow> nat \<Rightarrow> nat option" where
  "checked_add_usize a b = (if a + b < 2 ^ 64 then Some (a + b) else None)"

fun rysh_digits :: "nat \<Rightarrow> bytes \<Rightarrow> nat option" where
  "rysh_digits v [] = Some v"
| "rysh_digits v (b # bs) =
     (if \<not> is_ascii_digit b then None else
      case checked_mul_usize v 10 of None \<Rightarrow> None | Some v \<Rightarrow>
      case checked_add_usize v (unat (b - 48)) of None \<Rightarrow> None | Some v \<Rightarrow>
      rysh_digits v bs)"

definition rysh_parse_usize :: "bytes \<Rightarrow> nat option" where
  "rysh_parse_usize bs = (let bs = trim bs in if bs = [] then None else rysh_digits 0 bs)"

definition rysh_parse_u32 :: "bytes \<Rightarrow> u32 option" where
  "rysh_parse_u32 bs =
     (case rysh_parse_usize bs of None \<Rightarrow> None | Some v \<Rightarrow> if v > 0xFFFFFFFF then None else Some (of_nat v))"

definition is_var_byte :: "u8 \<Rightarrow> bool" where
  "is_var_byte b \<longleftrightarrow> is_ascii_alphanumeric b \<or> b = 95 \<or> b = 45"

fun var_name_end :: "bytes \<Rightarrow> nat" where
  "var_name_end [] = 0"
| "var_name_end (b # bs) = (if is_var_byte b then Suc (var_name_end bs) else 0)"

lemma var_name_end_takeWhile: "take (var_name_end bs) bs = takeWhile is_var_byte bs" "drop (var_name_end bs) bs = dropWhile is_var_byte bs"
  by (induction bs) auto

section \<open>The store is a dictionary\<close>

definition var_ok :: "var \<Rightarrow> bool" where
  "var_ok v \<longleftrightarrow> length (var_name v) = 16 \<and> length (var_value v) = 64 \<and> var_name_len v \<le> 16 \<and> var_value_len v \<le> 64"

definition vars_ok :: "var_store \<Rightarrow> bool" where
  "vars_ok s \<longleftrightarrow> length s = 8 \<and> list_all var_ok s"

abbreviation var_key :: "var_store \<Rightarrow> nat \<Rightarrow> bytes" where
  "var_key s i \<equiv> take (var_name_len (s ! i)) (var_name (s ! i))"

lemma store_new_ok: "vars_ok store_new"
  by (simp add: vars_ok_def store_new_def MAX_VARS_def var_ok_def var_empty_def NAME_SIZE_def VALUE_SIZE_def list_all_iff)

lemma var_put_eq:
  assumes "vars_ok s" "i < 8"
  shows "var_put i nam v s = s[i := \<lparr>var_used = True, var_name = take 16 nam @ drop (length nam) (var_name (s ! i)),
    var_name_len = min (length nam) 16, var_value = take 64 v @ drop (length v) (var_value (s ! i)), var_value_len = min (length v) 64\<rparr>]"
proof -
  have "length (var_name (s ! i)) = 16" "length (var_value (s ! i)) = 64"
    using assms by (auto simp: vars_ok_def var_ok_def list_all_length)
  then show ?thesis by (auto simp: var_put_def rysh_copy_bytes_def Let_def min_def)
qed

lemma var_put_ok:
  assumes "vars_ok s" "i < 8"
  shows "vars_ok (var_put i nam v s)"
proof -
  have "length (var_name (s ! i)) = 16" "length (var_value (s ! i)) = 64"
    using assms by (auto simp: vars_ok_def var_ok_def list_all_length)
  then show ?thesis using assms
    by (auto simp: var_put_eq [OF assms] vars_ok_def var_ok_def list_all_length nth_list_update)
qed

lemma var_put_nth:
  assumes "vars_ok s" "i < 8" "j < 8"
  shows "var_used (var_put i nam v s ! j) \<longleftrightarrow> j = i \<or> var_used (s ! j)"
    "var_key (var_put i nam v s) j = (if j = i then take 16 nam else var_key s j)"
    "take (var_value_len (var_put i nam v s ! j)) (var_value (var_put i nam v s ! j)) =
      (if j = i then take 64 v else take (var_value_len (s ! j)) (var_value (s ! j)))"
  using assms by (auto simp: var_put_eq [OF assms(1,2)] vars_ok_def nth_list_update min_def)

text \<open>A slot is never given back; the law of erasing is that of marking it unused.\<close>

definition var_clear :: "nat \<Rightarrow> var_store \<Rightarrow> var_store" where
  "var_clear i s = s[i := (s ! i)\<lparr>var_used := False\<rparr>]"

interpretation vt: slot_table 8 vars_ok "\<lambda>s i. var_used (s ! i)" var_key var_put var_clear "\<lambda>nam v. length nam \<le> 16"
proof unfold_locales
  fix s :: var_store and i j :: nat
  assume s: "vars_ok s" "i < 8"
  show "vars_ok (var_clear i s)" using s by (auto simp: var_clear_def vars_ok_def list_all_length nth_list_update var_ok_def)
  assume j: "j < 8"
  show "var_used (var_clear i s ! j) \<longleftrightarrow> j \<noteq> i \<and> var_used (s ! j)" using s j by (auto simp: var_clear_def vars_ok_def nth_list_update)
  show "j \<noteq> i \<Longrightarrow> var_key (var_clear i s) j = var_key s j" by (simp add: var_clear_def)
qed (simp_all add: var_put_ok var_put_nth)

lemma store_find_lookup: "vars_ok s \<Longrightarrow> store_find nam s = vt.lookup s nam"
  by (simp add: store_find_def vt.lookup_def vars_ok_def)

lemma store_free_slot_eq: "vars_ok s \<Longrightarrow> store_free_slot s = vt.free_slot s"
  by (simp add: store_free_slot_def vt.free_slot_def vars_ok_def)


text \<open>The variables of a store as a dictionary, and stores whose slots have different names.\<close>

definition names_distinct :: "var_store \<Rightarrow> bool" where
  "names_distinct s \<longleftrightarrow> (\<forall>i<8. \<forall>j<8. var_used (s ! i) \<longrightarrow> var_used (s ! j) \<longrightarrow> var_key s i = var_key s j \<longrightarrow> i = j)"

definition variables :: "var_store \<Rightarrow> bytes \<rightharpoonup> bytes" where
  "variables s = (\<lambda>nam. store_get nam s)"

lemma names_distinct_uniq: "names_distinct s \<longleftrightarrow> vt.uniq s"
  by (simp add: names_distinct_def vt.uniq_def)

lemma store_new_distinct: "names_distinct store_new"
  by (simp add: names_distinct_def store_new_def var_empty_def MAX_VARS_def)

lemma store_get_put:
  assumes s: "vars_ok s" "names_distinct s" and i: "i < 8" and n: "length nam \<le> 16"
    and fresh: "\<And>j. j < 8 \<Longrightarrow> j \<noteq> i \<Longrightarrow> var_used (s ! j) \<Longrightarrow> var_key s j \<noteq> nam"
  shows "variables (var_put i nam v s) =
    (if var_used (s ! i) then (variables s)(var_key s i := None, nam \<mapsto> take 64 v) else (variables s)(nam \<mapsto> take 64 v))"
proof
  fix m
  note u = s(2) [unfolded names_distinct_uniq]
  note put = var_put_nth [OF s(1) i]
  note l = vt.lookup_put [OF s(1) i n u fresh, of v]
  have ok: "vars_ok (var_put i nam v s)" by (rule var_put_ok [OF s(1) i])
  have other: "take (var_value_len (var_put i nam v s ! j)) (var_value (var_put i nam v s ! j)) =
      take (var_value_len (s ! j)) (var_value (s ! j))" if "vt.lookup s m = Some j" "m \<noteq> nam" "var_used (s ! i) \<longrightarrow> m \<noteq> var_key s i" for j
    using vt.lookup_SomeD [OF that(1)] that(2,3) put(3) [of j nam v] by auto
  show "variables (var_put i nam v s) m =
    (if var_used (s ! i) then (variables s)(var_key s i := None, nam \<mapsto> take 64 v) else (variables s)(nam \<mapsto> take 64 v)) m"
    using other put(3) [OF i, of nam v]
    by (cases "vt.lookup s m") (auto simp: variables_def store_get_def store_find_lookup s(1) ok l)
qed

text \<open>
  C30. The variable store refines a dictionary.  Setting a variable with a name of at most 16 bytes keeps the store well
  formed and its names different, and changes the dictionary at that name only, to the first 64 bytes of the
  value; except that a new variable in a full store takes the place of the variable in slot 0.
\<close>

theorem store_set_refines:
  assumes "vars_ok s" "names_distinct s" "nam \<noteq> []" "length nam \<le> 16"
  shows "vars_ok (store_set nam v s) \<and> names_distinct (store_set nam v s) \<and>
    variables (store_set nam v s) =
      (if store_find nam s = None \<and> store_free_slot s = None then (variables s)(var_key s 0 := None) else variables s)(nam \<mapsto> take 64 v)"
proof -
  let ?i = "case store_find nam s of Some i \<Rightarrow> i | None \<Rightarrow> (case store_free_slot s of Some i \<Rightarrow> i | None \<Rightarrow> 0)"
  have set: "store_set nam v s = var_put ?i nam v s" using assms(3) by (simp add: store_set_def)
  note eqs = store_find_lookup [OF assms(1)] store_free_slot_eq [OF assms(1)]
  have i: "?i < 8" using vt.lookup_SomeD(1) vt.free_slot_SomeD(1) by (fastforce simp: eqs split: option.splits)
  have fresh: "var_key s j \<noteq> nam" if "j < 8" "j \<noteq> ?i" "var_used (s ! j)" for j
  proof (cases "vt.lookup s nam")
    case None
    then show ?thesis using that vt.lookup_NoneD by blast
  next
    case (Some i)
    then show ?thesis
      using that vt.lookup_SomeD [OF Some] vt.uniqD [OF assms(2) [unfolded names_distinct_uniq], of i j] by (auto simp: eqs)
  qed
  have d: "names_distinct (var_put ?i nam v s)"
    unfolding names_distinct_uniq using assms i fresh by (intro vt.uniq_put) (auto simp: names_distinct_uniq)
  have "variables (var_put ?i nam v s) =
      (if store_find nam s = None \<and> store_free_slot s = None then (variables s)(var_key s 0 := None) else variables s)(nam \<mapsto> take 64 v)"
  proof (cases "vt.lookup s nam")
    case None
    note none = None
    show ?thesis
    proof (cases "vt.free_slot s")
      case None
      with none have "?i = 0" by (simp add: eqs)
      with none None vt.free_slot_NoneD [OF None, of 0] store_get_put [OF assms(1,2) i assms(4) fresh, of v] show ?thesis
        by (simp add: eqs)
    next
      case (Some f)
      with none vt.free_slot_SomeD [OF Some] store_get_put [OF assms(1,2) i assms(4) fresh, of v] show ?thesis by (simp add: eqs)
    qed
  next
    case (Some f)
    with vt.lookup_SomeD [OF Some] store_get_put [OF assms(1,2) i assms(4) fresh, of v] show ?thesis by (simp add: eqs)
  qed
  with var_put_ok [OF assms(1) i] d show ?thesis by (simp only: set)
qed

theorem store_set_refines_witness:
  "variables (store_set (lit ''name'') (lit ''rymos'') store_new) = (variables store_new)(lit ''name'' \<mapsto> lit ''rymos'')"
proof -
  have f: "store_free_slot store_new = Some 0"
    unfolding store_free_slot_def by (rule find_upt_first) (simp_all add: store_new_def MAX_VARS_def var_empty_def)
  then show ?thesis
    using store_set_refines [OF store_new_ok store_new_distinct, of "lit ''name''" "lit ''rymos''"] by simp
qed

lemma store_set_ok:
  assumes "vars_ok s"
  shows "vars_ok (store_set nam v s)"
  using assms vt.lookup_SomeD(1) [of s] vt.free_slot_SomeD(1) [of s]
  by (auto simp: store_set_def Let_def store_find_lookup store_free_slot_eq intro!: var_put_ok split: option.splits)

text \<open>
  A name of more than 16 bytes is stored by its first 16, so it is never found again: reading it back fails, and
  every further assignment takes another slot.
\<close>

lemma long_name_lost:
  assumes "vars_ok s" "16 < length nam"
  shows "store_get nam (store_set nam v s) = None" "store_find nam s = None"
proof -
  have none: "store_find nam s = None" if "vars_ok s" for s
    unfolding store_find_def find_upt_None
  proof (intro allI impI notI, elim conjE)
    fix i
    assume "i < length s" "var_key s i = nam"
    moreover from this have "var_name_len (s ! i) \<le> 16" using that by (auto simp: vars_ok_def var_ok_def list_all_length)
    ultimately show False using assms(2) by auto
  qed
  show "store_find nam s = None" by (rule none [OF assms(1)])
  show "store_get nam (store_set nam v s) = None" by (simp add: store_get_def none [OF store_set_ok [OF assms(1)]])
qed

section \<open>Numbers\<close>

lemma rysh_digits_value:
  "v < 2 ^ 64 \<Longrightarrow> rysh_digits v bs =
     (let total = foldl (\<lambda>a b. a * 10 + (unat b - 48)) v bs in
      if list_all is_ascii_digit bs \<and> total < 2 ^ 64 then Some total else None)"
proof (induction bs arbitrary: v)
  case (Cons b bs)
  let ?v = "v * 10 + (unat b - 48)"
  show ?case
  proof (cases "is_ascii_digit b \<and> ?v < 2 ^ 64")
    case True
    then have "unat (b - 48) = unat b - 48" by (auto simp: is_ascii_digit_def unat_sub word_le_nat_alt)
    then have "rysh_digits v (b # bs) = rysh_digits ?v bs"
      using True by (simp add: checked_mul_usize_def checked_add_usize_def)
    with True Cons.IH [of ?v] show ?thesis by simp
  next
    case False
    have "rysh_digits v (b # bs) = None"
    proof (cases "is_ascii_digit b")
      case True
      then have "unat (b - 48) = unat b - 48" by (auto simp: is_ascii_digit_def unat_sub word_le_nat_alt)
      with True False show ?thesis by (auto simp: checked_mul_usize_def checked_add_usize_def)
    qed simp
    with False foldl_decimal_mono [of ?v bs] show ?thesis by (auto simp: Let_def)
  qed
qed simp

text \<open>The number of a text: its decimal digits, when the value fits in the word.\<close>

lemma rysh_parse_u32_value:
  "rysh_parse_u32 bs =
     (let t = trim bs in
      if t \<noteq> [] \<and> list_all is_ascii_digit t \<and> decimal_value t < 2 ^ 32 then Some (of_nat (decimal_value t)) else None)"
  by (simp add: rysh_parse_u32_def rysh_parse_usize_def rysh_digits_value decimal_value_def Let_def)

end
