(* ===== verification/Rtc_Time.thy ===== *)
theory Rtc_Time
  imports Ata_Disk "HOL-Library.Signed_Division"
begin

text \<open>
  Time, \<^verbatim>\<open>kernel/src/main.rs\<close>: the CMOS clock registers, their decoding, the calendar
  computation and the conversion of the cycle counter.  The cycle counter itself is read by an
  instruction; its value is an argument.  \<^verbatim>\<open>i64\<close> values are integers: the years of the clock are
  far from the ends of the range.
\<close>

section \<open>Model\<close>

definition CMOS_INDEX :: u16 where "CMOS_INDEX = 0x70"
definition CMOS_DATA :: u16 where "CMOS_DATA = 0x71"

definition read_cmos_register :: "'d port_bus \<Rightarrow> u8 \<Rightarrow> 'd \<Rightarrow> u8 \<times> 'd" where
  "read_cmos_register bus register d = p_inb bus CMOS_DATA (p_outb bus CMOS_INDEX register d)"

definition bcd_to_binary :: "u8 \<Rightarrow> u8" where
  "bcd_to_binary v = (v AND 0x0F) + drop_bit 4 v * 10"

definition days_from_civil :: "int \<Rightarrow> u8 \<Rightarrow> u8 \<Rightarrow> int" where
  "days_from_civil year month day =
     (let y = (if month \<le> 2 then year - 1 else year);
          era = (if y \<ge> 0 then y else y - 399) sdiv 400;
          year_of_era = y - era * 400;
          month_index = (uint month + 9) smod 12;
          day_of_year = (153 * month_index + 2) sdiv 5 + uint day - 1;
          day_of_era = year_of_era * 365 + year_of_era sdiv 4 - year_of_era sdiv 100 + day_of_year
      in era * 146097 + day_of_era - 719468)"

text \<open>Waiting for the update flag to clear, at most 100000 polls.\<close>

fun wait_rtc :: "'d port_bus \<Rightarrow> nat \<Rightarrow> 'd \<Rightarrow> 'd" where
  "wait_rtc bus 0 d = d"
| "wait_rtc bus (Suc n) d =
     (case read_cmos_register bus 0x0A d of
        (status, d) \<Rightarrow> if status AND 0x80 = 0 then d else wait_rtc bus n d)"

fun read_registers :: "'d port_bus \<Rightarrow> u8 list \<Rightarrow> 'd \<Rightarrow> u8 list \<times> 'd" where
  "read_registers bus [] d = ([], d)"
| "read_registers bus (r # rs) d =
     (case read_cmos_register bus r d of
        (v, d) \<Rightarrow> (case read_registers bus rs d of (vs, d) \<Rightarrow> (v # vs, d)))"

text \<open>The closure \<^verbatim>\<open>read_fields\<close>: seconds, minutes, hours, day, month, year.\<close>

definition read_fields :: "'d port_bus \<Rightarrow> 'd \<Rightarrow> u8 list \<times> 'd" where
  "read_fields bus d = read_registers bus [0x00, 0x02, 0x04, 0x07, 0x08, 0x09] d"

fun read_stable :: "'d port_bus \<Rightarrow> nat \<Rightarrow> u8 list \<Rightarrow> 'd \<Rightarrow> u8 list \<times> 'd" where
  "read_stable bus 0 regs d = (regs, d)"
| "read_stable bus (Suc n) regs d =
     (case read_fields bus d of
        (again, d) \<Rightarrow> if again = regs then (regs, d) else read_stable bus n again d)"

definition decode_hour :: "u8 \<Rightarrow> u8 \<Rightarrow> u8" where
  "decode_hour status_b hour =
     (let pm = (hour AND 0x80 \<noteq> 0); hour = bcd_to_binary (hour AND 0x7F) in
      if status_b AND 0x02 = 0 \<and> pm then hour mod 12 + 12 else hour)"

definition rtc_seconds :: "u8 \<Rightarrow> u8 list \<Rightarrow> u64" where
  "rtc_seconds status_b regs =
     (let bcd = (status_b AND 0x04 = 0);
          dec = (\<lambda>v. if bcd then bcd_to_binary v else v);
          second = dec (regs ! 0); minute = dec (regs ! 1);
          hour = (if bcd then decode_hour status_b (regs ! 2) else regs ! 2);
          day = dec (regs ! 3); month = dec (regs ! 4); year = dec (regs ! 5) in
      if \<not> (1 \<le> month \<and> month \<le> 12) \<or> \<not> (1 \<le> day \<and> day \<le> 31) then 0
      else
        let full_year = 2000 + uint year;
            days = days_from_civil full_year month day;
            seconds_of_day = uint hour * 3600 + uint minute * 60 + uint second
        in of_int (max (days * 86400 + seconds_of_day) 0))"

definition read_rtc_unix_seconds :: "'d port_bus \<Rightarrow> 'd \<Rightarrow> u64 \<times> 'd" where
  "read_rtc_unix_seconds bus d =
     (let d = wait_rtc bus 100000 d in
      case read_fields bus d of
        (regs, d) \<Rightarrow>
          (case read_stable bus 8 regs d of
             (regs, d) \<Rightarrow>
               (case read_cmos_register bus 0x0B d of (status_b, d) \<Rightarrow> (rtc_seconds status_b regs, d))))"

definition ns_since_boot :: "u64 \<Rightarrow> u64 \<Rightarrow> u64 \<Rightarrow> u64" where
  "ns_since_boot tsc_hz boot_tsc tsc =
     (let elapsed_ticks = saturating_sub tsc boot_tsc in
      if tsc_hz = 0 then elapsed_ticks
      else of_nat ((unat elapsed_ticks * 1000000000) div unat tsc_hz))"

definition unix_nanos_now :: "u64 \<Rightarrow> u64 \<Rightarrow> u64" where
  "unix_nanos_now boot_unix_nanos since_boot = (if boot_unix_nanos = 0 then 0 else boot_unix_nanos + since_boot)"

text \<open>
  Measuring the cycle counter against channel 2 of the interval timer.  \<open>tsc\<close> is one reading of the counter, which
  moves the devices on; \<^term>\<open>None\<close> is a timer whose output never rises.
\<close>

definition NMI_STATUS_CONTROL :: u16 where "NMI_STATUS_CONTROL = 0x61"
definition PIT_COMMAND :: u16 where "PIT_COMMAND = 0x43"
definition PIT_CHANNEL2_DATA :: u16 where "PIT_CHANNEL2_DATA = 0x42"
definition PIT_INPUT_HZ :: nat where "PIT_INPUT_HZ = 1193182"
definition PIT_COUNT :: u16 where "PIT_COUNT = 59659"

definition arm_timer :: "'d port_bus \<Rightarrow> 'd \<Rightarrow> 'd" where
  "arm_timer bus d =
     (case p_inb bus NMI_STATUS_CONTROL d of (nmi, d) \<Rightarrow>
      let d = p_outb bus NMI_STATUS_CONTROL ((nmi AND 0xFC) OR 0x01) d;
          d = p_outb bus PIT_COMMAND 0xB0 d;
          d = p_outb bus PIT_CHANNEL2_DATA (ucast (PIT_COUNT AND 0xFF)) d
      in p_outb bus PIT_CHANNEL2_DATA (ucast (drop_bit 8 PIT_COUNT)) d)"

partial_function (option) wait_timer :: "'d port_bus \<Rightarrow> 'd \<Rightarrow> 'd option" where
  "wait_timer bus d =
     (case p_inb bus NMI_STATUS_CONTROL d of (v, d) \<Rightarrow> if v AND 0x20 = 0 then wait_timer bus d else Some d)"

fun calibrate_rounds :: "'d port_bus \<Rightarrow> ('d \<Rightarrow> u64 \<times> 'd) \<Rightarrow> nat \<Rightarrow> u64 \<Rightarrow> 'd \<Rightarrow> (u64 \<times> 'd) option" where
  "calibrate_rounds bus tsc 0 total_ticks d = Some (total_ticks, d)"
| "calibrate_rounds bus tsc (Suc rounds) total_ticks d =
     (case tsc (arm_timer bus d) of (start, d) \<Rightarrow>
      Option.bind (wait_timer bus d) (\<lambda>d.
        case tsc d of (finish, d) \<Rightarrow> calibrate_rounds bus tsc rounds (total_ticks + saturating_sub finish start) d))"

definition calibrate_tsc :: "'d port_bus \<Rightarrow> ('d \<Rightarrow> u64 \<times> 'd) \<Rightarrow> 'd \<Rightarrow> (u64 \<times> 'd) option" where
  "calibrate_tsc bus tsc d =
     map_option (\<lambda>(total_ticks, d). (of_nat ((unat total_ticks * PIT_INPUT_HZ) div (unat PIT_COUNT * 4)), d))
       (calibrate_rounds bus tsc 4 0 d)"

text \<open>
  Sleeping spins on the clock; \<open>clock\<close> is one reading of \<^verbatim>\<open>ns_since_boot()\<close>.
\<close>

partial_function (option) sleep_loop :: "('d \<Rightarrow> u64 \<times> 'd) \<Rightarrow> u64 \<Rightarrow> u64 \<Rightarrow> 'd \<Rightarrow> 'd option" where
  "sleep_loop clock start nanos d =
     (case clock d of (now, d) \<Rightarrow> if saturating_sub now start < nanos then sleep_loop clock start nanos d else Some d)"

definition abi_sleep_nanos :: "('d \<Rightarrow> u64 \<times> 'd) \<Rightarrow> u64 \<Rightarrow> 'd \<Rightarrow> 'd option" where
  "abi_sleep_nanos clock nanos d = (case clock d of (start, d) \<Rightarrow> sleep_loop clock start nanos d)"

text \<open>The devices after \<open>n\<close> readings.  The sleep ends with the first reading at which the time has passed.\<close>

definition after_readings :: "('d \<Rightarrow> u64 \<times> 'd) \<Rightarrow> nat \<Rightarrow> 'd \<Rightarrow> 'd" where
  "after_readings clock n d = ((\<lambda>d. snd (clock d)) ^^ n) d"

lemma sleep_loop_first:
  assumes "\<And>j. j < n \<Longrightarrow> saturating_sub (fst (clock (after_readings clock j d))) start < nanos"
    and "\<not> saturating_sub (fst (clock (after_readings clock n d))) start < nanos"
  shows "sleep_loop clock start nanos d = Some (after_readings clock (Suc n) d)"
  using assms
proof (induction n arbitrary: d)
  case 0
  then show ?case by (subst sleep_loop.simps) (auto simp: after_readings_def split: prod.splits)
next
  case (Suc n)
  obtain now d1 where c: "clock d = (now, d1)" by force
  have shift: "after_readings clock (Suc j) d = after_readings clock j d1" for j
    unfolding after_readings_def funpow_Suc_right by (simp add: c)
  have "sleep_loop clock start nanos d1 = Some (after_readings clock (Suc n) d1)"
  proof (rule Suc.IH)
    show "saturating_sub (fst (clock (after_readings clock j d1))) start < nanos" if "j < n" for j
      using Suc.prems(1) [of "Suc j"] that by (simp add: shift)
  qed (use Suc.prems(2) in \<open>simp add: shift\<close>)
  moreover have "saturating_sub now start < nanos" using Suc.prems(1) [of 0] by (simp add: after_readings_def c)
  ultimately show ?case by (subst sleep_loop.simps) (simp add: c shift)
qed

section \<open>The calendar\<close>

definition leap :: "int \<Rightarrow> bool" where
  "leap y \<longleftrightarrow> y mod 4 = 0 \<and> (y mod 100 \<noteq> 0 \<or> y mod 400 = 0)"

definition month_length :: "int \<Rightarrow> nat \<Rightarrow> int" where
  "month_length y m = (if m = 2 then if leap y then 29 else 28 else if m \<in> {4, 6, 9, 11} then 30 else 31)"

text \<open>Counting the days from the first of January 1970, year by year and month by month.\<close>

definition day_number :: "nat \<Rightarrow> nat \<Rightarrow> nat \<Rightarrow> int" where
  "day_number y m d = (\<Sum>k\<in>{1970..<y}. if leap (int k) then 366 else 365) + (\<Sum>j\<in>{1..<m}. month_length (int y) j) + int d - 1"

definition civil_year :: "int \<Rightarrow> int" where
  "civil_year y = 365 * y + y div 4 - y div 100 + y div 400"

lemma div_Suc_step: "(y + 1) div n = y div n + (if (y + 1) mod n = 0 then 1 else 0)" if "0 < n" for n y :: int
proof (cases "y mod n + 1 = n")
  case True
  have "y + 1 = (y div n + 1) * n" using True div_mult_mod_eq [of y n] unfolding distrib_right by linarith
  thus ?thesis using that by simp
next
  case False
  have "0 \<le> y mod n" "y mod n < n" using that by simp_all
  hence b: "0 \<le> y mod n + 1" "y mod n + 1 < n" using False by linarith+
  have e: "y + 1 = y mod n + 1 + y div n * n" using div_mult_mod_eq [of y n] by linarith
  have "(y mod n + 1 + y div n * n) div n = y div n + (y mod n + 1) div n" using that by (intro div_mult_self1) simp
  moreover have "(y mod n + 1 + y div n * n) mod n = (y mod n + 1) mod n" by (rule mod_mult_self1)
  ultimately have "(y + 1) div n = y div n" "(y + 1) mod n = y mod n + 1"
    unfolding e [symmetric] div_pos_pos_trivial [OF b] mod_pos_pos_trivial [OF b] by simp_all
  thus ?thesis using \<open>0 \<le> y mod n\<close> by simp
qed

lemma civil_year_Suc: "civil_year (y + 1) = civil_year y + (if leap (y + 1) then 366 else 365)"
proof -
  have m: "(y + 1) mod 100 = 0 \<Longrightarrow> (y + 1) mod 4 = 0" "(y + 1) mod 400 = 0 \<Longrightarrow> (y + 1) mod 100 = 0" by presburger+
  have d: "civil_year (y + 1) = 365 * y + 365 + (y div 4 + (if (y + 1) mod 4 = 0 then 1 else 0))
    - (y div 100 + (if (y + 1) mod 100 = 0 then 1 else 0)) + (y div 400 + (if (y + 1) mod 400 = 0 then 1 else 0))"
    unfolding civil_year_def by (subst (1 2 3) div_Suc_step) simp_all
  show ?thesis unfolding d unfolding civil_year_def leap_def using m
    by (cases "(y + 1) mod 4 = 0"; cases "(y + 1) mod 100 = 0"; cases "(y + 1) mod 400 = 0") simp_all
qed

lemma sum_years: "1970 \<le> y \<Longrightarrow> (\<Sum>k\<in>{1970..<y}. if leap (int k) then 366 else 365) = civil_year (int y - 1) - 719162"
proof (induction y rule: dec_induct)
  case base
  show ?case by (simp add: civil_year_def)
next
  case (step n)
  have "civil_year (int n) = civil_year (int n - 1) + (if leap (int n) then 366 else 365)"
    using civil_year_Suc [of "int n - 1"] by simp
  thus ?case using step by simp
qed

text \<open>The eras of 400 years of the code are the three leap-year rules taken together.\<close>

lemma era_civil_year:
  "0 \<le> y \<Longrightarrow> y div 400 * 146097 + ((y - y div 400 * 400) * 365 + (y - y div 400 * 400) div 4 - (y - y div 400 * 400) div 100) = civil_year y"
proof -
  define e r where "e = y div 400" and "r = y - e * 400"
  have y: "y = r + e * 100 * 4" "y = r + e * 4 * 100" by (simp_all add: r_def)
  have "y div 4 = r div 4 + e * 100" by (subst y(1)) simp
  moreover have "y div 100 = r div 100 + e * 4" by (subst y(2)) simp
  ultimately show ?thesis unfolding civil_year_def e_def [symmetric] r_def [symmetric] using r_def by simp
qed

lemma sdiv_nonneg: "0 \<le> a \<Longrightarrow> 0 < b \<Longrightarrow> a sdiv b = a div b" for a b :: int
  by (auto simp: signed_divide_int_def sgn_if)

lemma smod_nonneg: "0 \<le> a \<Longrightarrow> 0 < b \<Longrightarrow> a smod b = a mod b" for a b :: int
  by (auto simp: signed_modulo_int_def sgn_if)

lemma days_from_civil_eras:
  assumes "0 \<le> (if month \<le> 2 then year - 1 else year)"
  shows "days_from_civil year month day =
    civil_year (if month \<le> 2 then year - 1 else year) + (153 * ((uint month + 9) mod 12) + 2) div 5 + uint day - 719469"
proof -
  define y where "y = (if month \<le> 2 then year - 1 else year)"
  have y: "0 \<le> y" using assms by (simp add: y_def)
  have r: "0 \<le> y - y div 400 * 400" using div_mult_mod_eq [of y 400] pos_mod_sign [of 400 y] by linarith
  have m: "(uint month + 9) smod 12 = (uint month + 9) mod 12" by (rule smod_nonneg) simp_all
  have mn: "0 \<le> 153 * ((uint month + 9) mod 12) + 2" by simp
  show ?thesis
    unfolding days_from_civil_def Let_def y_def [symmetric] m
    using era_civil_year [OF y] y by (simp add: sdiv_nonneg r mn)
qed

lemma month_sums:
  assumes "m \<in> {1..12}"
  shows "(\<Sum>j\<in>{1..<m}. month_length y j) =
    (if m \<le> 2 then (153 * ((int m + 9) mod 12) + 2) div 5 - 306
     else (153 * ((int m + 9) mod 12) + 2) div 5 + (if leap y then 60 else 59))"
proof -
  have "m \<in> {1, 2, 3, 4, 5, 6, 7, 8, 9, 10, 11, 12}" using assms unfolding atLeastAtMost_iff insert_iff empty_iff by presburger
  thus ?thesis by (auto simp: month_length_def atLeastLessThan_nat_numeral sum.atLeastLessThan_Suc numeral_eq_Suc)
qed

text \<open>The era arithmetic counts the days of the years before, the months before and the days before.\<close>

lemma days_from_civil_day_number:
  assumes "1970 \<le> y" and "m \<in> {1..12}" and "d < 256"
  shows "days_from_civil (int y) (of_nat m) (of_nat d) = day_number y m d"
proof -
  have u: "uint (of_nat m :: u8) = int m" "uint (of_nat d :: u8) = int d"
    using assms by (simp_all add: uint_nat unat_of_nat)
  have le: "(of_nat m :: u8) \<le> 2 \<longleftrightarrow> m \<le> 2" using assms by (simp add: word_le_nat_alt unat_of_nat)
  have c: "civil_year (int y) = civil_year (int y - 1) + (if leap (int y) then 366 else 365)"
    using civil_year_Suc [of "int y - 1"] by simp
  show ?thesis
    unfolding day_number_def sum_years [OF assms(1)] month_sums [OF assms(2)]
    using assms(1) c by (subst days_from_civil_eras) (auto simp: le u)
qed

section \<open>The clock registers\<close>

text \<open>How the chip presents a value: two decimal digits in nibbles, or binary, by bit 2 of status B.\<close>

definition rtc_encode :: "u8 \<Rightarrow> nat \<Rightarrow> u8" where
  "rtc_encode status_b v = (if status_b AND 0x04 = 0 then of_nat (v div 10 * 16 + v mod 10) else of_nat v)"

lemma bcd_to_binary_digits: "v < 100 \<Longrightarrow> bcd_to_binary (of_nat (v div 10 * 16 + v mod 10)) = of_nat v"
proof -
  have "list_all (\<lambda>v. bcd_to_binary (of_nat (v div 10 * 16 + v mod 10)) = of_nat v) [0..<100]" by code_simp
  thus "v < 100 \<Longrightarrow> ?thesis" by (simp add: list_all_iff)
qed

lemma decode_hour_digits:
  assumes "status_b AND 0x02 \<noteq> 0" and "h < 24"
  shows "decode_hour status_b (of_nat (h div 10 * 16 + h mod 10)) = of_nat h"
proof -
  have "list_all (\<lambda>h. (of_nat (h div 10 * 16 + h mod 10) :: u8) AND 0x7F = of_nat (h div 10 * 16 + h mod 10)) [0..<24]"
    by code_simp
  hence "(of_nat (h div 10 * 16 + h mod 10) :: u8) AND 0x7F = of_nat (h div 10 * 16 + h mod 10)"
    using assms(2) by (auto simp: list_all_iff)
  thus ?thesis using assms bcd_to_binary_digits [of h] by (simp add: decode_hour_def Let_def)
qed

lemma day_number_nonneg: "1 \<le> d \<Longrightarrow> 0 \<le> day_number y m d"
proof -
  have "0 \<le> (\<Sum>k\<in>{1970..<y}. if leap (int k) then 366 else 365 :: int)" by (intro sum_nonneg) simp
  moreover have "0 \<le> (\<Sum>j\<in>{1..<m}. month_length (int y) j)" by (intro sum_nonneg) (simp add: month_length_def)
  ultimately show "1 \<le> d \<Longrightarrow> ?thesis" unfolding day_number_def by linarith
qed

text \<open>C23. Reading the clock agrees with counting days: a date of this century and a time of day, held
  by a chip in twenty-four-hour mode either as decimal digits or in binary, decode to the number of
  seconds since the first of January 1970 that counting whole years, months and days gives; the era
  formula of the code is equivalent to that count.\<close>

theorem rtc_seconds_correct:
  assumes "status_b AND 0x02 \<noteq> 0" and "s < 60" and "mi < 60" and "h < 24"
    and "d \<in> {1..31}" and "m \<in> {1..12}" and "y < 100"
  shows "rtc_seconds status_b (map (rtc_encode status_b) [s, mi, h, d, m, y]) =
    of_int (day_number (2000 + y) m d * 86400 + int (h * 3600 + mi * 60 + s))"
proof -
  have u: "uint (of_nat v :: u8) = int v" if "v < 256" for v using that by (simp add: uint_nat unat_of_nat)
  have r: "1 \<le> (of_nat m :: u8)" "(of_nat m :: u8) \<le> 12" "1 \<le> (of_nat d :: u8)" "(of_nat d :: u8) \<le> 31"
    using assms by (simp_all add: word_le_nat_alt unat_of_nat)
  have days: "days_from_civil (2000 + int y) (of_nat m) (of_nat d) = day_number (2000 + y) m d"
    using days_from_civil_day_number [of "2000 + y" m d] assms by simp
  have nn: "0 \<le> day_number (2000 + y) m d * 86400" using day_number_nonneg [of d "2000 + y" m] assms by simp
  have lt: "s < 100" "mi < 100" "d < 100" "m < 100" using assms by auto
  show ?thesis
  proof (cases "status_b AND 0x04 = 0")
    case True
    have dec: "bcd_to_binary (rtc_encode status_b v) = of_nat v" if "v < 100" for v
      using bcd_to_binary_digits [OF that] True by (simp add: rtc_encode_def)
    have hour: "decode_hour status_b (rtc_encode status_b h) = of_nat h"
      using decode_hour_digits [OF assms(1,4)] True by (simp add: rtc_encode_def)
    show ?thesis using True assms nn by (simp add: rtc_seconds_def dec lt hour r u days)
  next
    case False
    hence "rtc_encode status_b v = of_nat v" for v by (simp add: rtc_encode_def)
    thus ?thesis using False assms nn by (simp add: rtc_seconds_def r u days)
  qed
qed

theorem rtc_seconds_correct_witness:
  "rtc_seconds 2 (map (rtc_encode 2) [56, 34, 12, 29, 2, 24]) = of_int (day_number 2024 2 29 * 86400 + 45296)"
  using rtc_seconds_correct [of 2 56 34 12 29 2 24] by simp

text \<open>The clock in twelve-hour mode: the hour after noon decodes, the hour after midnight does not.\<close>

theorem decode_hour_midnight: "decode_hour 0 0x12 = 12 \<and> decode_hour 0 0x92 = 12 \<and> decode_hour 0 0x81 = 13"
  by (simp add: decode_hour_def bcd_to_binary_def)

end
