(* ===== verification/Rysh.thy ===== *)
theory Rysh
  imports Rysh_Vars Rtc_Time
begin

text \<open>
  The script shell \<^verbatim>\<open>programs/rysh/src/main.rs\<close>: its built-in commands, the dispatch of a line and the loop over a script.
  A command maps the kernel and the devices to their state after it; the value \<^term>\<open>None\<close> is a command that does
  not return.  All its text goes through the runtime's \<^verbatim>\<open>write\<close> to descriptor 1.
\<close>

section \<open>Sequencing\<close>

type_synonym 'd machine = "kernel \<times> 'd"
type_synonym 'd cmd = "'d machine \<Rightarrow> 'd machine option"

text \<open>
  Beside the parameters of a child command: the wait for any child, and one reading of the clock, which moves the
  devices on.
\<close>

record 'd shell_sys = "'d sys" +
  sh_wait_any :: "kernel \<Rightarrow> 'd \<Rightarrow> ((u32 \<times> process_status) option \<times> kernel \<times> 'd) option"
  sh_clock :: "'d \<Rightarrow> u64 \<times> 'd"

fun seq :: "'d cmd list \<Rightarrow> 'd cmd" where
  "seq [] m = Some m"
| "seq (c # cs) m = Option.bind (c m) (seq cs)"

text \<open>A call of the runtime followed by what is done with its result; the variants differ in what the call takes.\<close>

definition kcall :: "(kernel \<Rightarrow> 'a \<times> kernel) \<Rightarrow> ('a \<Rightarrow> 'd cmd) \<Rightarrow> 'd cmd" where
  "kcall f g m = (case f (fst m) of (x, k) \<Rightarrow> g x (k, snd m))"

definition dcall :: "(kernel \<Rightarrow> 'd \<Rightarrow> 'a \<times> kernel \<times> 'd) \<Rightarrow> ('a \<Rightarrow> 'd cmd) \<Rightarrow> 'd cmd" where
  "dcall f g m = (case f (fst m) (snd m) of (x, m) \<Rightarrow> g x m)"

definition ocall :: "(kernel \<Rightarrow> 'd \<Rightarrow> ('a \<times> kernel \<times> 'd) option) \<Rightarrow> ('a \<Rightarrow> 'd cmd) \<Rightarrow> 'd cmd" where
  "ocall f g m = Option.bind (f (fst m) (snd m)) (\<lambda>(x, m). g x m)"

definition with_error :: "(int \<Rightarrow> 'd cmd) \<Rightarrow> 'd cmd" where
  "with_error g m = g (abi_last_error (fst m)) m"

definition kdo :: "(kernel \<Rightarrow> 'a \<times> kernel) \<Rightarrow> 'd cmd" where
  "kdo f = kcall f (\<lambda>_. Some)"

definition out :: "('d, 'z) sys_scheme \<Rightarrow> bytes \<Rightarrow> 'd cmd" where
  "out sys data m = Some (user_write (sys_bus sys) (sys_now sys) data (fst m) (snd m))"

definition say :: "('d, 'z) sys_scheme \<Rightarrow> string \<Rightarrow> 'd cmd" where
  "say sys s = out sys (lit s)"

definition say_line :: "('d, 'z) sys_scheme \<Rightarrow> string \<Rightarrow> 'd cmd" where
  "say_line sys s = out sys (lit s @ [10])"

definition num :: "('d, 'z) sys_scheme \<Rightarrow> nat \<Rightarrow> 'd cmd" where
  "num sys v m = Some (user_print_usize (sys_bus sys) (sys_now sys) v (fst m) (snd m))"

definition newline :: "('d, 'z) sys_scheme \<Rightarrow> 'd cmd" where
  "newline sys = out sys [10]"

definition print_i32 :: "('d, 'z) sys_scheme \<Rightarrow> u32 \<Rightarrow> 'd cmd" where
  "print_i32 sys v =
     (if sint v < 0 then seq [out sys [45], num sys (unat (scast (- v) :: u64))] else num sys (unat (scast v :: u64)))"

text \<open>The text of a failure with the last error.\<close>

definition say_errno :: "('d, 'z) sys_scheme \<Rightarrow> string \<Rightarrow> 'd cmd" where
  "say_errno sys s = seq [say sys s, with_error (\<lambda>e. print_i32 sys (of_int e)), newline sys]"

definition say_path :: "('d, 'z) sys_scheme \<Rightarrow> string \<Rightarrow> bytes \<Rightarrow> 'd cmd" where
  "say_path sys s path = seq [say sys s, out sys path, newline sys]"

section \<open>Built-in commands\<close>

definition rysh_pwd :: "'d shell_sys \<Rightarrow> 'd cmd" where
  "rysh_pwd sys =
     kcall (user_cwd 64) (\<lambda>r. case r of None \<Rightarrow> say_line sys ''rysh: pwd failed'' | Some cwd \<Rightarrow> seq [out sys cwd, newline sys])"

definition rysh_chdir :: "'d shell_sys \<Rightarrow> bytes \<Rightarrow> 'd cmd" where
  "rysh_chdir sys path =
     ocall (user_chdir (sys_bus sys) path)
       (\<lambda>ok. if ok then Some else seq [say sys ''rysh: cd failed: '', out sys path, say_errno sys '' errno ''])"

definition rysh_errno :: "'d shell_sys \<Rightarrow> 'd cmd" where
  "rysh_errno sys = say_errno sys ''errno ''"

definition rysh_unlink :: "'d shell_sys \<Rightarrow> bytes \<Rightarrow> 'd cmd" where
  "rysh_unlink sys path = dcall (user_unlink (sys_bus sys) path) (\<lambda>ok. if ok then Some else say_path sys ''rysh: rm failed: '' path)"

definition rysh_rename :: "'d shell_sys \<Rightarrow> bytes \<Rightarrow> bytes \<Rightarrow> 'd cmd" where
  "rysh_rename sys old_path new_path =
     dcall (user_rename (sys_bus sys) (sys_now sys) old_path new_path)
       (\<lambda>ok. if ok then Some
             else seq [say sys ''rysh: rename failed: '', out sys old_path, say sys '' '', out sys new_path, newline sys])"

definition rysh_time_ticks :: "'d shell_sys \<Rightarrow> 'd cmd" where
  "rysh_time_ticks sys =
     seq [say sys ''ticks '', dcall (\<lambda>k d. case sh_clock sys d of (t, d) \<Rightarrow> (t, k, d)) (\<lambda>t. num sys (unat t)), newline sys]"

definition rysh_stdio :: "'d shell_sys \<Rightarrow> 'd cmd" where
  "rysh_stdio sys =
     seq [dcall (user_fd_write (sys_bus sys) (sys_now sys) STDOUT_FD (lit ''stdout fd1 ok'' @ [10])) (\<lambda>_. Some),
          dcall (user_fd_write (sys_bus sys) (sys_now sys) STDERR_FD (lit ''stderr fd2 ok'' @ [10])) (\<lambda>_. Some)]"

definition close2 :: "int \<Rightarrow> int \<Rightarrow> 'd cmd" where
  "close2 a b = seq [kdo (user_close_fd a), kdo (user_close_fd b)]"

definition rysh_pipe_demo :: "'d shell_sys \<Rightarrow> bytes \<Rightarrow> 'd cmd" where
  "rysh_pipe_demo sys message =
     (let payload = (if message = [] then lit ''pipe-ok'' else message) in
      kcall user_pipe (\<lambda>p. case p of
        None \<Rightarrow> say_errno sys ''rysh: pipe failed errno ''
      | Some (read_fd, write_fd) \<Rightarrow>
          seq [dcall (user_fd_write (sys_bus sys) (sys_now sys) write_fd payload) (\<lambda>_. Some),
               ocall (user_fd_read (sys_bus sys) read_fd 128) (\<lambda>r. case r of
                 None \<Rightarrow> say_line sys ''rysh: pipe read failed''
               | Some data \<Rightarrow> seq [say sys ''pipe '', out sys data, newline sys]),
               close2 read_fd write_fd]))"

definition rysh_redir_demo :: "'d shell_sys \<Rightarrow> bytes \<Rightarrow> 'd cmd" where
  "rysh_redir_demo sys message =
     (let payload = (if message = [] then lit ''redirect-ok'' else message) in
      kcall user_pipe (\<lambda>p. case p of
        None \<Rightarrow> say_errno sys ''rysh: redir pipe failed errno ''
      | Some (read_fd, write_fd) \<Rightarrow>
          kcall (user_dup2 write_fd STDOUT_FD) (\<lambda>ok.
            if \<not> ok then seq [say_errno sys ''rysh: dup2 failed errno '', close2 read_fd write_fd]
            else
              seq [dcall (user_fd_write (sys_bus sys) (sys_now sys) STDOUT_FD payload) (\<lambda>_. Some),
                   kdo (user_dup2 STDOUT_FD STDOUT_FD),
                   ocall (user_fd_read (sys_bus sys) read_fd 128) (\<lambda>r. case r of
                     None \<Rightarrow> say_line sys ''rysh: redir read failed''
                   | Some data \<Rightarrow> seq [say sys ''redir '', out sys data, newline sys]),
                   close2 read_fd write_fd])))"

text \<open>Starting a child and waiting for it, with what was started.\<close>

definition sh_spawn :: "'d shell_sys \<Rightarrow> bytes \<Rightarrow> bytes \<Rightarrow> (int + u32 \<Rightarrow> 'd cmd) \<Rightarrow> 'd cmd" where
  "sh_spawn sys name args =
     ocall (\<lambda>k d. map_option (\<lambda>(r, k). (r, k, d)) (user_spawn (sys_beyond sys) (sys_trampoline sys) name args k))"

definition wait_if_started :: "'d shell_sys \<Rightarrow> int + u32 \<Rightarrow> 'd cmd" where
  "wait_if_started sys child = (case child of Inl _ \<Rightarrow> Some | Inr pid \<Rightarrow> ocall (sys_wait sys pid) (\<lambda>_. Some))"

definition say_started :: "'d shell_sys \<Rightarrow> string \<Rightarrow> string \<Rightarrow> int + u32 \<Rightarrow> 'd cmd" where
  "say_started sys ok failed child =
     (case child of
        Inr pid \<Rightarrow> seq [say sys ok, num sys (unat pid), newline sys]
      | Inl code \<Rightarrow> seq [say sys failed, print_i32 sys (of_int code), newline sys])"

definition say_captured :: "'d shell_sys \<Rightarrow> string \<Rightarrow> bytes \<Rightarrow> 'd cmd" where
  "say_captured sys s data = seq [say sys s, num sys (length data), say_line sys '' B'', out sys data]"

definition rysh_spawn_redir :: "'d shell_sys \<Rightarrow> bytes \<Rightarrow> 'd cmd" where
  "rysh_spawn_redir sys rest =
     (case split_word rest of (name, args) \<Rightarrow>
      let program = (if name = [] then lit ''hello'' else name) in
      kcall user_pipe (\<lambda>p. case p of
        None \<Rightarrow> say_errno sys ''rysh: spawnredir pipe failed errno ''
      | Some (read_fd, write_fd) \<Rightarrow>
          kcall (user_dup2 write_fd STDOUT_FD) (\<lambda>ok.
            if \<not> ok then seq [say_errno sys ''rysh: spawnredir dup2 failed errno '', close2 read_fd write_fd]
            else
              sh_spawn sys program args (\<lambda>child.
                seq [wait_if_started sys child,
                     kdo (user_dup2 STDOUT_FD STDOUT_FD),
                     say_started sys ''spawnredir pid '' ''rysh: spawnredir failed '' child,
                     ocall (user_fd_read (sys_bus sys) read_fd 512) (\<lambda>r. case r of
                       None \<Rightarrow> say_line sys ''rysh: spawnredir read failed''
                     | Some data \<Rightarrow> say_captured sys ''spawnredir captured '' data),
                     close2 read_fd write_fd]))))"

definition rysh_spawn_stdin :: "'d shell_sys \<Rightarrow> bytes \<Rightarrow> 'd cmd" where
  "rysh_spawn_stdin sys rest =
     (case split_word rest of (name, payload) \<Rightarrow>
      let program = (if name = [] then lit ''echoin'' else name);
          input = (if payload = [] then lit ''hello-on-stdin'' else payload) in
      kcall user_pipe (\<lambda>p. case p of
        None \<Rightarrow> say_errno sys ''rysh: spawnstdin pipe failed errno ''
      | Some (read_fd, write_fd) \<Rightarrow>
          seq [dcall (user_fd_write (sys_bus sys) (sys_now sys) write_fd input) (\<lambda>_. Some),
               kcall (user_dup2 read_fd STDIN_FD) (\<lambda>ok.
                 if \<not> ok then seq [say_errno sys ''rysh: spawnstdin dup2 failed errno '', close2 read_fd write_fd]
                 else
                   sh_spawn sys program [] (\<lambda>child.
                     seq [wait_if_started sys child,
                          kdo (user_dup2 STDIN_FD STDIN_FD),
                          say_started sys ''spawnstdin pid '' ''rysh: spawnstdin failed '' child,
                          close2 read_fd write_fd]))]))"

text \<open>Putting standard descriptors back on the console, and closing up to four descriptors.\<close>

definition rysh_reset_stdio :: "'d cmd" where
  "rysh_reset_stdio =
     seq [kdo (user_dup2 STDIN_FD STDIN_FD), kdo (user_dup2 STDOUT_FD STDOUT_FD), kdo (user_dup2 STDERR_FD STDERR_FD)]"

definition rysh_close4 :: "int \<Rightarrow> int \<Rightarrow> int \<Rightarrow> int \<Rightarrow> 'd cmd" where
  "rysh_close4 a b c e = seq (map (\<lambda>fd. if fd \<ge> 0 then kdo (user_close_fd fd) else Some) [a, b, c, e])"

definition redirect_two :: "int \<Rightarrow> int \<Rightarrow> kernel \<Rightarrow> bool \<times> kernel" where
  "redirect_two in_fd out_fd k =
     (case user_dup2 in_fd STDIN_FD k of (False, k) \<Rightarrow> (False, k) | (True, k) \<Rightarrow> user_dup2 out_fd STDOUT_FD k)"

definition rysh_spawn_io :: "'d shell_sys \<Rightarrow> bytes \<Rightarrow> 'd cmd" where
  "rysh_spawn_io sys rest =
     (case split_word rest of (name, payload) \<Rightarrow>
      let program = (if name = [] then lit ''echoin'' else name);
          input = (if payload = [] then lit ''hello-spawnio'' else payload) in
      kcall user_pipe (\<lambda>p. case p of
        None \<Rightarrow> say_errno sys ''rysh: spawnio stdin pipe failed errno ''
      | Some (stdin_read, stdin_write) \<Rightarrow>
          kcall user_pipe (\<lambda>q. case q of
            None \<Rightarrow> seq [say_errno sys ''rysh: spawnio stdout pipe failed errno '', close2 stdin_read stdin_write]
          | Some (stdout_read, stdout_write) \<Rightarrow>
              let close_all = seq [close2 stdin_read stdin_write, close2 stdout_read stdout_write] in
              seq [dcall (user_fd_write (sys_bus sys) (sys_now sys) stdin_write input) (\<lambda>_. Some),
                   kcall (redirect_two stdin_read stdout_write) (\<lambda>ok.
                     if \<not> ok then
                       seq [say_errno sys ''rysh: spawnio dup2 failed errno '',
                            kdo (user_dup2 STDIN_FD STDIN_FD), kdo (user_dup2 STDOUT_FD STDOUT_FD), close_all]
                     else
                       sh_spawn sys program [] (\<lambda>child.
                         seq [wait_if_started sys child,
                              kdo (user_dup2 STDIN_FD STDIN_FD), kdo (user_dup2 STDOUT_FD STDOUT_FD),
                              say_started sys ''spawnio pid '' ''rysh: spawnio failed '' child,
                              ocall (user_fd_read (sys_bus sys) stdout_read 256) (\<lambda>r. case r of
                                None \<Rightarrow> say_line sys ''rysh: spawnio read failed''
                              | Some data \<Rightarrow> say_captured sys ''spawnio captured '' data),
                              close_all]))])))"

definition rysh_spawn_io_err :: "'d shell_sys \<Rightarrow> bytes \<Rightarrow> 'd cmd" where
  "rysh_spawn_io_err sys rest =
     (case split_word rest of (name, payload) \<Rightarrow>
      let program = (if name = [] then lit ''echoin'' else name);
          input = (if payload = [] then lit ''hello-spawnioe'' else payload) in
      kcall user_pipe (\<lambda>p. case p of
        None \<Rightarrow> say_errno sys ''rysh: spawnioe stdin pipe failed errno ''
      | Some (stdin_read, stdin_write) \<Rightarrow>
          kcall user_pipe (\<lambda>q. case q of
            None \<Rightarrow> seq [say_errno sys ''rysh: spawnioe stdout pipe failed errno '', rysh_close4 stdin_read stdin_write (- 1) (- 1)]
          | Some (stdout_read, stdout_write) \<Rightarrow>
              kcall user_pipe (\<lambda>r. case r of
                None \<Rightarrow>
                  seq [say_errno sys ''rysh: spawnioe stderr pipe failed errno '',
                       rysh_close4 stdin_read stdin_write stdout_read stdout_write]
              | Some (stderr_read, stderr_write) \<Rightarrow>
                  let close_all = seq [rysh_close4 stdin_read stdin_write stdout_read stdout_write,
                                       rysh_close4 stderr_read stderr_write (- 1) (- 1)] in
                  seq [dcall (user_fd_write (sys_bus sys) (sys_now sys) stdin_write input) (\<lambda>_. Some),
                       kcall (redirect stdin_read stdout_write stderr_write) (\<lambda>ok.
                         if \<not> ok then seq [say_errno sys ''rysh: spawnioe dup2 failed errno '', rysh_reset_stdio, close_all]
                         else
                           sh_spawn sys program [] (\<lambda>child.
                             seq [wait_if_started sys child, rysh_reset_stdio,
                                  say_started sys ''spawnioe pid '' ''rysh: spawnioe failed '' child,
                                  ocall (user_fd_read (sys_bus sys) stdout_read 256) (\<lambda>o_data.
                                    ocall (user_fd_read (sys_bus sys) stderr_read 128) (\<lambda>e_data.
                                      seq [say_captured sys ''spawnioe stdout '' (case o_data of None \<Rightarrow> [] | Some data \<Rightarrow> data),
                                           say_captured sys ''spawnioe stderr '' (case e_data of None \<Rightarrow> [] | Some data \<Rightarrow> data)])),
                                  close_all]))]))))"

definition say_launched :: "'d shell_sys \<Rightarrow> string \<Rightarrow> string \<Rightarrow> string \<Rightarrow> int + u32 \<Rightarrow> 'd cmd" where
  "say_launched sys ok isolated failed child =
     (if child = Inl (- 2) then say_line sys isolated else say_started sys ok failed child)"

definition rysh_spawn :: "'d shell_sys \<Rightarrow> bytes \<Rightarrow> bytes \<Rightarrow> 'd cmd" where
  "rysh_spawn sys name args =
     sh_spawn sys name args (say_launched sys ''spawned pid '' ''rysh: spawn waits for isolated app loading'' ''rysh: spawn failed '')"

definition rysh_daemon :: "'d shell_sys \<Rightarrow> bytes \<Rightarrow> bytes \<Rightarrow> 'd cmd" where
  "rysh_daemon sys name args =
     sh_spawn sys name args (say_launched sys ''daemon started pid '' ''rysh: daemon waits for isolated app loading'' ''rysh: daemon failed '')"

definition rysh_sleep_ms :: "'d shell_sys \<Rightarrow> bytes \<Rightarrow> 'd cmd" where
  "rysh_sleep_ms sys txt =
     (case rysh_parse_u32 txt of
        None \<Rightarrow> say_line sys ''rysh: invalid sleep duration''
      | Some ms \<Rightarrow> (\<lambda>m. map_option (Pair (fst m)) (abi_sleep_nanos (sh_clock sys) (ucast ms * 1000000) (snd m))))"

definition rysh_process_state_name :: "u32 \<Rightarrow> string" where
  "rysh_process_state_name st =
     (if st = 1 then ''ready'' else if st = 2 then ''running'' else if st = 3 then ''exited'' else if st = 4 then ''failed'' else ''empty'')"

definition rysh_print_process_status :: "'d shell_sys \<Rightarrow> u32 \<Rightarrow> process_status \<Rightarrow> 'd cmd" where
  "rysh_print_process_status sys pid status =
     seq [say sys ''pid '', num sys (unat pid), say sys '' '', say sys (rysh_process_state_name (st_state status)),
          say sys '' exit '', print_i32 sys (st_exit_code status), newline sys]"

definition rysh_wait_process :: "'d shell_sys \<Rightarrow> bytes \<Rightarrow> 'd cmd" where
  "rysh_wait_process sys txt =
     (if txt = [] then
        ocall (sh_wait_any sys) (\<lambda>r. case r of
          None \<Rightarrow> say_line sys ''rysh: wait failed: no child status''
        | Some (pid, status) \<Rightarrow> rysh_print_process_status sys pid status)
      else
        case rysh_parse_u32 txt of
          None \<Rightarrow> say_line sys ''rysh: invalid pid''
        | Some pid \<Rightarrow>
            ocall (sys_wait sys pid) (\<lambda>r. case r of
              None \<Rightarrow> seq [say sys ''rysh: wait failed: '', num sys (unat pid), newline sys]
            | Some status \<Rightarrow> rysh_print_process_status sys pid status))"

definition say_variable :: "'d shell_sys \<Rightarrow> bytes \<Rightarrow> bytes \<Rightarrow> 'd cmd" where
  "say_variable sys key val = seq [out sys key, say sys ''='', out sys val, newline sys]"

partial_function (option) rysh_env_loop :: "'d shell_sys \<Rightarrow> nat \<Rightarrow> 'd machine \<Rightarrow> 'd machine option" where
  "rysh_env_loop sys index m =
     (case user_env_list index 32 96 (fst m) of
        (None, k) \<Rightarrow> Some (k, snd m)
      | (Some (key, val), k) \<Rightarrow> Option.bind (say_variable sys key val (k, snd m)) (\<lambda>m. rysh_env_loop sys (index + 1) m))"

definition rysh_env :: "'d shell_sys \<Rightarrow> 'd cmd" where
  "rysh_env sys = rysh_env_loop sys 0"

definition rysh_getenv :: "'d shell_sys \<Rightarrow> bytes \<Rightarrow> 'd cmd" where
  "rysh_getenv sys key =
     kcall (user_env_get key 96) (\<lambda>r. case r of None \<Rightarrow> say_path sys ''rysh: env not found: '' key | Some val \<Rightarrow> say_variable sys key val)"

definition rysh_setenv :: "'d shell_sys \<Rightarrow> bytes \<Rightarrow> bytes \<Rightarrow> 'd cmd" where
  "rysh_setenv sys key val =
     kcall (user_env_set key val) (\<lambda>ok. if ok then say_variable sys key val else say_errno sys ''rysh: setenv failed errno '')"

definition rysh_unsetenv :: "'d shell_sys \<Rightarrow> bytes \<Rightarrow> 'd cmd" where
  "rysh_unsetenv sys key =
     kcall (user_env_remove key) (\<lambda>ok. if ok then say_path sys ''unset '' key else say_errno sys ''rysh: unsetenv failed errno '')"

section \<open>Files\<close>

datatype fill_result = FillWrote nat | FillFailed | FillShort

definition fill_chunk :: "nat \<Rightarrow> nat \<Rightarrow> bytes" where
  "fill_chunk written_total count = map (\<lambda>index. 65 + of_nat ((written_total + index) mod 26)) [0..<count]"

function fill_loop :: "'d shell_sys \<Rightarrow> int \<Rightarrow> nat \<Rightarrow> nat \<Rightarrow> kernel \<Rightarrow> 'd \<Rightarrow> fill_result \<times> kernel \<times> 'd" where
  "fill_loop sys fd amount written_total k d =
     (if written_total < amount then
        let count = min 256 (amount - written_total) in
        case user_fd_write (sys_bus sys) (sys_now sys) fd (fill_chunk written_total count) k d of
          (None, k, d) \<Rightarrow> (FillFailed, k, d)
        | (Some written, k, d) \<Rightarrow>
            if written \<noteq> count then (FillShort, k, d) else fill_loop sys fd amount (written_total + written) k d
      else (FillWrote written_total, k, d))"
  by pat_completeness auto
termination by (relation "measure (\<lambda>(sys, fd, amount, written_total, k, d). amount - written_total)") auto

declare fill_loop.simps [simp del]

definition rysh_fill_file :: "'d shell_sys \<Rightarrow> bytes \<Rightarrow> bytes \<Rightarrow> 'd cmd" where
  "rysh_fill_file sys path count =
     (case rysh_parse_usize count of
        None \<Rightarrow> say_line sys ''rysh: invalid count''
      | Some amount \<Rightarrow>
          dcall (file_create (sys_bus sys) (sys_now sys) path) (\<lambda>f. case f of
            None \<Rightarrow> say_path sys ''rysh: open failed: '' path
          | Some fd \<Rightarrow>
              dcall (fill_loop sys fd amount 0) (\<lambda>r.
                seq [case r of
                       FillFailed \<Rightarrow> say_path sys ''rysh: write failed: '' path
                     | FillShort \<Rightarrow> say_path sys ''rysh: short write: '' path
                     | FillWrote n \<Rightarrow> seq [say sys ''wrote '', num sys n, newline sys],
                     kdo (\<lambda>k. ((), file_drop fd k))])))"

text \<open>The loop of \<^verbatim>\<open>countfile\<close>: the bytes read up to the end, or \<^term>\<open>None\<close> for a failed read.\<close>

partial_function (option) count_loop :: "'d port_bus \<Rightarrow> int \<Rightarrow> nat \<Rightarrow> kernel \<Rightarrow> 'd \<Rightarrow> (nat option \<times> kernel \<times> 'd) option" where
  "count_loop bus fd amount k d =
     Option.bind (user_fd_read bus fd 512 k d) (\<lambda>(data, k, d).
       case data of
         None \<Rightarrow> Some (None, k, d)
       | Some data \<Rightarrow> if data = [] then Some (Some amount, k, d) else count_loop bus fd (amount + length data) k d)"

definition rysh_count_file :: "'d shell_sys \<Rightarrow> bytes \<Rightarrow> 'd cmd" where
  "rysh_count_file sys path =
     dcall (file_open (sys_bus sys) (sys_now sys) path) (\<lambda>f. case f of
       None \<Rightarrow> say_path sys ''rysh: file not found: '' path
     | Some fd \<Rightarrow>
         ocall (count_loop (sys_bus sys) fd 0) (\<lambda>r.
           seq [case r of
                  None \<Rightarrow> say_path sys ''rysh: read failed: '' path
                | Some amount \<Rightarrow> seq [say sys ''count '', out sys path, say sys '' '', num sys amount, newline sys],
                kdo (\<lambda>k. ((), file_drop fd k))]))"

definition rysh_mkdir :: "'d shell_sys \<Rightarrow> bytes \<Rightarrow> 'd cmd" where
  "rysh_mkdir sys path =
     dcall (user_mkdir (sys_bus sys) (sys_now sys) path) (\<lambda>ok. if ok then Some else say_path sys ''rysh: mkdir failed: '' path)"

definition rysh_print_stat :: "'d shell_sys \<Rightarrow> rymos_stat \<Rightarrow> 'd cmd" where
  "rysh_print_stat sys st =
     seq [if stat_fs st = STAT_FS_PFS then say sys ''pfs '' else if stat_fs st = STAT_FS_BOOTFS then say sys ''bootfs '' else say sys ''fs? '',
          if stat_kind st = STAT_KIND_DIR then say sys ''dir '' else say sys ''file '',
          num sys (stat_size st), say sys '' B'']"

definition rysh_stat_path :: "'d shell_sys \<Rightarrow> bytes \<Rightarrow> 'd cmd" where
  "rysh_stat_path sys path =
     dcall (user_stat (sys_bus sys) path) (\<lambda>r. case r of
       None \<Rightarrow> say_path sys ''rysh: stat failed: '' path
     | Some st \<Rightarrow> seq [out sys path, say sys '' '', rysh_print_stat sys st, newline sys])"

partial_function (option) rysh_list_loop :: "'d shell_sys \<Rightarrow> bytes \<Rightarrow> nat \<Rightarrow> 'd machine \<Rightarrow> 'd machine option" where
  "rysh_list_loop sys namespace index m =
     (case user_list (sys_bus sys) namespace index 64 (fst m) (snd m) of
        (None, m) \<Rightarrow> Some m
      | (Some (entry_name, st), m) \<Rightarrow>
          Option.bind (seq [out sys entry_name, say sys '' '', rysh_print_stat sys st, newline sys] m)
            (\<lambda>m. rysh_list_loop sys namespace (index + 1) m))"

definition rysh_list_dir :: "'d shell_sys \<Rightarrow> bytes \<Rightarrow> 'd cmd" where
  "rysh_list_dir sys namespace = rysh_list_loop sys namespace 0"

definition rysh_write_file :: "'d shell_sys \<Rightarrow> bytes \<Rightarrow> bytes \<Rightarrow> 'd cmd" where
  "rysh_write_file sys path txt =
     dcall (file_create (sys_bus sys) (sys_now sys) path) (\<lambda>f. case f of
       None \<Rightarrow> say_path sys ''rysh: open failed: '' path
     | Some fd \<Rightarrow>
         dcall (user_fd_write (sys_bus sys) (sys_now sys) fd txt) (\<lambda>r.
           seq [case r of
                  None \<Rightarrow> say_path sys ''rysh: write failed: '' path
                | Some written \<Rightarrow> if written \<noteq> length txt then say_path sys ''rysh: short write: '' path else Some,
                kdo (\<lambda>k. ((), file_drop fd k))]))"

text \<open>Copying a file to the output; the flags tell whether the file ended and whether anything was written.\<close>

partial_function (option) cat_loop :: "'d shell_sys \<Rightarrow> int \<Rightarrow> bool \<Rightarrow> 'd machine \<Rightarrow> ((bool \<times> bool) \<times> 'd machine) option" where
  "cat_loop sys fd wrote_any m =
     Option.bind (user_fd_read (sys_bus sys) fd 512 (fst m) (snd m)) (\<lambda>(data, m).
       case data of
         None \<Rightarrow> Some ((False, wrote_any), m)
       | Some data \<Rightarrow>
           if data = [] then Some ((True, wrote_any), m)
           else Option.bind (out sys data m) (\<lambda>m. cat_loop sys fd True m))"

definition rysh_cat :: "'d shell_sys \<Rightarrow> bytes \<Rightarrow> 'd cmd" where
  "rysh_cat sys path =
     dcall (file_open (sys_bus sys) (sys_now sys) path) (\<lambda>f. case f of
       None \<Rightarrow> say_path sys ''rysh: file not found: '' path
     | Some fd \<Rightarrow>
         ocall (\<lambda>k d. cat_loop sys fd False (k, d)) (\<lambda>(ended, wrote_any).
           seq [if \<not> ended then say_path sys ''rysh: read failed: '' path else if wrote_any then newline sys else Some,
                kdo (\<lambda>k. ((), file_drop fd k))]))"

section \<open>Lines and scripts\<close>

function print_expanded :: "'d shell_sys \<Rightarrow> bytes \<Rightarrow> bytes \<Rightarrow> var_store \<Rightarrow> 'd cmd" where
  "print_expanded sys bs args vars m =
     (if bs = [] then Some m
      else if hd bs = 36 then
        let name_end = var_name_end (drop 1 bs) + 1;
            name = subslice bs 1 name_end in
        Option.bind
          ((if name = lit ''pid'' then num sys (unat (current_pid (fst m)))
            else if name = lit ''args'' then out sys args
            else case store_get name vars of Some val \<Rightarrow> out sys val | None \<Rightarrow> Some) m)
          (print_expanded sys (drop name_end bs) args vars)
      else Option.bind (out sys (take 1 bs) m) (print_expanded sys (drop 1 bs) args vars))"
  by pat_completeness auto
termination by (relation "measure (\<lambda>(sys, bs, args, vars, m). length bs)") auto

declare print_expanded.simps [simp del]

text \<open>Every command but \<^verbatim>\<open>set\<close>, which is the one that changes the variables.\<close>

definition rysh_dispatch :: "'d shell_sys \<Rightarrow> nat \<Rightarrow> bytes \<Rightarrow> var_store \<Rightarrow> bytes \<Rightarrow> bytes \<Rightarrow> 'd cmd" where
  "rysh_dispatch sys line_no args vars command rest =
     (if command = lit ''print'' then seq [print_expanded sys rest args vars, newline sys]
      else if command = lit ''write'' then print_expanded sys rest args vars
      else if command = lit ''pid'' then seq [say sys ''pid '', (\<lambda>m. num sys (unat (current_pid (fst m))) m), newline sys]
      else if command = lit ''args'' then
        seq [say sys ''args '', if args = [] then say sys ''<none>'' else out sys args, newline sys]
      else if command = lit ''get'' then
        (case store_get rest vars of Some val \<Rightarrow> seq [out sys val, newline sys] | None \<Rightarrow> Some)
      else if command = lit ''cat'' then rysh_cat sys rest
      else if command = lit ''writefile'' then (case split_word rest of (path, txt) \<Rightarrow> rysh_write_file sys path txt)
      else if command = lit ''stat'' then rysh_stat_path sys rest
      else if command = lit ''listdir'' then rysh_list_dir sys rest
      else if command = lit ''mkdir'' then rysh_mkdir sys rest
      else if command = lit ''fillfile'' then (case split_word rest of (path, count) \<Rightarrow> rysh_fill_file sys path count)
      else if command = lit ''countfile'' then rysh_count_file sys rest
      else if command = lit ''env'' then rysh_env sys
      else if command = lit ''getenv'' then rysh_getenv sys rest
      else if command = lit ''setenv'' then (case split_word rest of (key, val) \<Rightarrow> rysh_setenv sys key val)
      else if command = lit ''unsetenv'' then rysh_unsetenv sys rest
      else if command = lit ''spawn'' then (case split_word rest of (name, args) \<Rightarrow> rysh_spawn sys name args)
      else if command = lit ''daemon'' then (case split_word rest of (name, args) \<Rightarrow> rysh_daemon sys name args)
      else if command = lit ''wait'' then rysh_wait_process sys rest
      else if command = lit ''sleep'' then rysh_sleep_ms sys rest
      else if command = lit ''time'' then rysh_time_ticks sys
      else if command = lit ''stdio'' then rysh_stdio sys
      else if command = lit ''pipe'' then rysh_pipe_demo sys rest
      else if command = lit ''redir'' then rysh_redir_demo sys rest
      else if command = lit ''spawnredir'' then rysh_spawn_redir sys rest
      else if command = lit ''spawnstdin'' then rysh_spawn_stdin sys rest
      else if command = lit ''spawnio'' then rysh_spawn_io sys rest
      else if command = lit ''spawnioe'' then rysh_spawn_io_err sys rest
      else if command = lit ''rm'' then rysh_unlink sys rest
      else if command = lit ''rename'' then (case split_word rest of (old_path, new_path) \<Rightarrow> rysh_rename sys old_path new_path)
      else if command = lit ''pwd'' then rysh_pwd sys
      else if command = lit ''cd'' then rysh_chdir sys rest
      else if command = lit ''errno'' then rysh_errno sys
      else
        seq [say sys ''rysh: unknown command at line '', num sys line_no, say sys '': '', out sys command, newline sys])"

definition run_line :: "'d shell_sys \<Rightarrow> bytes \<Rightarrow> nat \<Rightarrow> bytes \<Rightarrow> var_store \<Rightarrow> 'd machine \<Rightarrow> (var_store \<times> 'd machine) option" where
  "run_line sys line line_no args vars m =
     (if line = [] \<or> hd line = 35 then Some (vars, m)
      else case split_word line of (command, rest) \<Rightarrow>
        if command = lit ''set'' then (case split_word rest of (name, val) \<Rightarrow> Some (store_set name val vars, m))
        else map_option (Pair vars) (rysh_dispatch sys line_no args vars command rest m))"

text \<open>The loop over the indices of a script, with the start of the current line and its number.\<close>

fun script_loop :: "'d shell_sys \<Rightarrow> bytes \<Rightarrow> bytes \<Rightarrow> nat list \<Rightarrow> nat \<Rightarrow> nat \<Rightarrow> var_store \<Rightarrow> 'd machine \<Rightarrow> (var_store \<times> 'd machine) option" where
  "script_loop sys script args [] start line_no vars m = Some (vars, m)"
| "script_loop sys script args (index # rest) start line_no vars m =
     (if index = length script \<or> script ! index = 10 then
        Option.bind (run_line sys (rysh_trim_cr (trim (subslice script start index))) line_no args vars m) (\<lambda>(vars, m).
          script_loop sys script args rest (index + 1) (line_no + 1) vars m)
      else script_loop sys script args rest start line_no vars m)"

definition run_script :: "'d shell_sys \<Rightarrow> bytes \<Rightarrow> bytes \<Rightarrow> var_store \<Rightarrow> 'd machine \<Rightarrow> (var_store \<times> 'd machine) option" where
  "run_script sys script args vars m = script_loop sys script args [0..<length script + 1] 0 1 vars m"

definition SCRIPT_SIZE :: nat where "SCRIPT_SIZE = 2048"

text \<open>The program: its exit code and the state it leaves.\<close>

definition rysh_main :: "'d shell_sys \<Rightarrow> 'd machine \<Rightarrow> (int \<times> 'd machine) option" where
  "rysh_main sys m =
     (let args = user_args 96 (fst m);
          script_path = (case rysh_first_word args of Some w \<Rightarrow> w | None \<Rightarrow> lit ''build/demo.rym'') in
      Option.bind (say_path sys ''rysh: '' script_path m) (\<lambda>m.
        case user_file_read script_path SCRIPT_SIZE (fst m) of
          None \<Rightarrow> map_option (Pair 1) (say_path sys ''rysh: script not found: '' script_path m)
        | Some data \<Rightarrow> map_option (\<lambda>(vars, m). (0, m)) (run_script sys data args store_new m)))"

end
