(* ===== verification/Text_Lines.thy ===== *)
theory Text_Lines
  imports Byte_Strings
begin

text \<open>
  Lines of a text, as the two script interpreters (\<^verbatim>\<open>run_script\<close> of \<^verbatim>\<open>kernel/src/main.rs\<close> and of
  \<^verbatim>\<open>programs/rysh/src/main.rs\<close>) find them: a loop over the positions of the text, the position after the last byte included,
  which takes a slice at every newline.  The slices are the lines of the reference splitter \<open>split_lines\<close>.
\<close>

fun split_lines :: "bytes \<Rightarrow> bytes list" where
  "split_lines [] = [[]]"
| "split_lines (b # bs) = (if b = 10 then [] # split_lines bs else case split_lines bs of l # ls \<Rightarrow> (b # l) # ls | [] \<Rightarrow> [[b]])"

text \<open>The slices taken at the positions of a list, the current line beginning at a start.\<close>

fun line_slices :: "bytes \<Rightarrow> nat list \<Rightarrow> nat \<Rightarrow> bytes list" where
  "line_slices script [] start = []"
| "line_slices script (index # rest) start =
     (if index = length script \<or> script ! index = 10 then subslice script start index # line_slices script rest (index + 1)
      else line_slices script rest start)"

lemma split_lines_not_Nil [simp]: "split_lines bs \<noteq> []"
  by (cases bs) (auto split: list.split)

lemma split_lines_prefix:
  "10 \<notin> set pre \<Longrightarrow> split_lines (pre @ bs) = (pre @ hd (split_lines bs)) # tl (split_lines bs)"
proof (induction pre)
  case Nil
  then show ?case using split_lines_not_Nil [of bs] by (metis append_Nil list.collapse)
qed auto

lemma split_lines_length: "l \<in> set (split_lines bs) \<Longrightarrow> length l \<le> length bs"
proof (induction bs arbitrary: l)
  case (Cons b bs)
  show ?case using Cons.prems Cons.IH by (cases "split_lines bs") (fastforce split: if_splits)+
qed simp

lemma line_slices_from:
  assumes "start \<le> i" "i \<le> length script" "10 \<notin> set (subslice script start i)"
  shows "line_slices script [i..<Suc (length script)] start = split_lines (drop start script)"
  using assms
proof (induction "length script - i" arbitrary: i start)
  case 0
  then have i: "i = length script" by simp
  then have "drop start script = subslice script start i" by (simp add: subslice_def)
  moreover have "split_lines (subslice script start i) = [subslice script start i]"
    using split_lines_prefix [OF "0.prems"(3), of "[]"] by simp
  ultimately show ?case by (simp add: i)
next
  case (Suc x)
  then have i: "i < length script" by simp
  have up: "[i..<Suc (length script)] = i # [Suc i..<Suc (length script)]" using i by (simp add: upt_conv_Cons)
  let ?pre = "subslice script start i"
  have d: "drop start script = ?pre @ script ! i # drop (Suc i) script"
    using i Suc.prems(1) by (simp add: subslice_def Cons_nth_drop_Suc) (metis append_take_drop_id drop_drop le_add_diff_inverse2)
  note split = split_lines_prefix [OF Suc.prems(3), of "script ! i # drop (Suc i) script", folded d]
  show ?case
  proof (cases "script ! i = 10")
    case True
    have IH: "line_slices script [Suc i..<Suc (length script)] (Suc i) = split_lines (drop (Suc i) script)"
      using Suc.hyps(2) i by (intro Suc.hyps(1)) (simp_all add: subslice_def)
    show ?thesis unfolding up split using True by (simp add: IH del: upt_Suc)
  next
    case False
    have "subslice script start (Suc i) = ?pre @ [script ! i]"
      using i Suc.prems(1) by (simp add: subslice_def Suc_diff_le take_Suc_conv_app_nth)
    then have "line_slices script [Suc i..<Suc (length script)] start = split_lines (drop start script)"
      using Suc.hyps(2) Suc.prems i False by (intro Suc.hyps(1)) auto
    with False i show ?thesis unfolding up by simp
  qed
qed

lemma line_slices_split: "line_slices script [0..<Suc (length script)] 0 = split_lines script"
  using line_slices_from [of 0 0 script] by (simp add: subslice_def del: upt_Suc)

text \<open>Words that are compared as literals.\<close>

lemma lit_eq: "lit s = lit t \<longleftrightarrow> s = t"
proof -
  have "inj (of_char :: char \<Rightarrow> u8)"
  proof (rule injI)
    fix c c' :: char
    assume "(of_char c :: u8) = of_char c'"
    then have "unat (of_nat (of_char c) :: u8) = unat (of_nat (of_char c') :: u8)" by (simp add: of_nat_of_char)
    then have "(of_char c :: nat) mod 256 = of_char c' mod 256" by (simp add: unat_of_nat)
    then show "c = c'" by simp
  qed
  then show ?thesis by (simp add: lit_def inj_map_eq_map)
qed

end
