(* ===== verification/Rysh_Script.thy ===== *)
theory Rysh_Script
  imports Rysh Text_Lines
begin

text \<open>
  What a script shows.  A command that only prints is described by its text; the expansion of variables, the lines
  that need no file and no child, and the loop over a script get a reference definition, and the shell is shown to
  put exactly that text on the console.
\<close>

section \<open>Commands that print\<close>

text \<open>Output that is not redirected, and the kernel after a text was shown.\<close>

definition on_console :: "kernel \<Rightarrow> bool" where
  "on_console k \<longleftrightarrow> p_std_fds (cur_proc k) ! 1 = STDOUT_FD"

definition shown :: "bytes \<Rightarrow> kernel \<Rightarrow> kernel" where
  "shown txt k = k\<lparr>app_console := map_option (write_bytes txt) (app_console k)\<rparr>"

definition prints :: "u32 \<Rightarrow> 'd cmd \<Rightarrow> bytes \<Rightarrow> bool" where
  "prints pid c txt \<longleftrightarrow> (\<forall>k d. on_console k \<longrightarrow> current_pid k = pid \<longrightarrow> c (k, d) = Some (shown txt k, d))"

lemma write_bytes_append: "write_bytes (a @ b) con = write_bytes b (write_bytes a con)"
  by (simp add: write_bytes_def)

lemma shown_nil [simp]: "shown [] k = k"
proof -
  have "write_bytes [] = id" by (simp add: write_bytes_def fun_eq_iff)
  then show ?thesis by (simp add: shown_def option.map_id0)
qed

lemma shown_simps [simp]:
  "shown b (shown a k) = shown (a @ b) k" "on_console (shown a k) = on_console k" "current_pid (shown a k) = current_pid k"
  by (simp_all add: shown_def write_bytes_append [abs_def] option.map_comp comp_def on_console_def current_pid_def process_pid_def)

lemma printsD: "prints pid c txt \<Longrightarrow> on_console k \<Longrightarrow> current_pid k = pid \<Longrightarrow> c (k, d) = Some (shown txt k, d)"
  by (simp add: prints_def)

lemma prints_seq:
  assumes "list_all2 (prints pid) cs txts" "txt = concat txts"
  shows "prints pid (seq cs) txt"
  unfolding assms(2) using assms(1) by (induction rule: list_all2_induct) (simp_all add: prints_def)

lemma prints_nothing: "prints pid Some []"
  by (simp add: prints_def)

lemma user_write_console:
  assumes "on_console k" "length data < 2 ^ 63"
  shows "user_write bus now data k d = (shown data k, d)"
proof -
  have "abi_write (Some data) k = shown data k" by (cases "data = []") (simp add: abi_write_def, simp add: abi_write_def shown_def)
  with assms show ?thesis
    by (simp add: user_write_def abi_write_fd_def app_resolve_fd_def on_console_def Let_def STDOUT_FD_def STDIN_FD_def STDERR_FD_def usize_as_isize_def)
qed

lemma prints_out: "length data < 2 ^ 63 \<Longrightarrow> prints pid (out sys data) data"
  by (simp add: prints_def out_def user_write_console)

lemma prints_say: "length s < 2 ^ 63 \<Longrightarrow> prints pid (say sys s) (lit s)"
  unfolding say_def by (rule prints_out) (simp add: lit_def)

lemma prints_newline: "prints pid (newline sys) [10]"
  unfolding newline_def by (rule prints_out) simp

lemma digit_loop_eq: "digit_loop v = digits_loop v"
  by (induction v rule: digit_loop.induct) (simp add: digit_loop.simps digits_loop.simps)

lemma write_each_console: "on_console k \<Longrightarrow> write_each bus now bs k d = (shown bs k, d)"
  by (induction bs arbitrary: k) (simp_all add: user_write_console)

lemma prints_num: "prints pid (num sys v) (usize_text v)"
  by (simp add: prints_def num_def user_print_usize_def user_write_console write_each_console usize_text_def digit_loop_eq)

lemma prints_pid: "prints pid (\<lambda>m. num sys (unat (current_pid (fst m))) m) (usize_text (unat pid))"
  unfolding prints_def by (auto intro: printsD [OF prints_num])

section \<open>Expansion\<close>

definition var_text :: "u32 \<Rightarrow> bytes \<Rightarrow> (bytes \<rightharpoonup> bytes) \<Rightarrow> bytes \<Rightarrow> bytes" where
  "var_text pid args val name =
     (if name = lit ''pid'' then usize_text (unat pid) else if name = lit ''args'' then args
      else case val name of Some v \<Rightarrow> v | None \<Rightarrow> [])"

text \<open>The reference: a dollar sign and the longest name after it stand for the name's value, other bytes for themselves.\<close>

function expand :: "(bytes \<Rightarrow> bytes) \<Rightarrow> bytes \<Rightarrow> bytes" where
  "expand val [] = []"
| "expand val (b # bs) =
     (if b = 36 then val (takeWhile is_var_byte bs) @ expand val (dropWhile is_var_byte bs) else b # expand val bs)"
  by pat_completeness auto
termination by (relation "measure (\<lambda>(val, bs). length bs)") (auto simp: less_Suc_eq_le length_dropWhile_le)

lemma variables_length: "vars_ok vars \<Longrightarrow> variables vars name = Some v \<Longrightarrow> length v \<le> 64"
  by (auto simp: variables_def store_get_def store_find_lookup vars_ok_def var_ok_def list_all_length dest!: vt.lookup_SomeD(1))

lemma print_expanded_shows:
  assumes v: "vars_ok vars" and a: "length args < 2 ^ 63"
  shows "prints pid (print_expanded sys bs args vars) (expand (var_text pid args (variables vars)) bs)"
proof (induction bs rule: length_induct)
  case (1 bs)
  let ?t = "var_text pid args (variables vars)"
  show ?case
  proof (cases bs)
    case Nil
    then show ?thesis by (simp add: prints_def print_expanded.simps)
  next
    case (Cons b cs)
    show ?thesis
    proof (cases "b = 36")
      case False
      have IH: "prints pid (print_expanded sys cs args vars) (expand ?t cs)" using 1 Cons by simp
      from False Cons printsD [OF IH] printsD [OF prints_out [of "[b]" pid sys]] show ?thesis
        unfolding prints_def by (subst print_expanded.simps) simp
    next
      case True
      let ?n = "takeWhile is_var_byte cs" and ?r = "dropWhile is_var_byte cs"
      have name: "subslice bs 1 (var_name_end cs + 1) = ?n" "drop (var_name_end cs + 1) bs = ?r"
        by (simp_all add: Cons subslice_def var_name_end_takeWhile)
      have "length ?r < length bs" using length_dropWhile_le [of is_var_byte cs] by (simp add: Cons)
      then have IH: "prints pid (print_expanded sys ?r args vars) (expand ?t ?r)" using 1 by blast
      have val: "prints pid (if ?n = lit ''pid'' then (\<lambda>m. num sys (unat (current_pid (fst m))) m) else if ?n = lit ''args'' then out sys args
            else case store_get ?n vars of Some val \<Rightarrow> out sys val | None \<Rightarrow> Some) (?t ?n)"
        using a variables_length [OF v, of ?n] prints_pid [of pid sys]
        by (auto simp: var_text_def variables_def prints_nothing split: option.splits intro!: prints_out)
      have step: "print_expanded sys bs args vars m = Option.bind
          ((if ?n = lit ''pid'' then (\<lambda>m. num sys (unat (current_pid (fst m))) m) else if ?n = lit ''args'' then out sys args
            else case store_get ?n vars of Some val \<Rightarrow> out sys val | None \<Rightarrow> Some) m)
          (print_expanded sys ?r args vars)" for m
        using Cons True name by (subst print_expanded.simps) (simp add: Let_def)
      show ?thesis unfolding prints_def step using printsD [OF val] printsD [OF IH] by (simp add: Cons True)
    qed
  qed
qed

section \<open>Scripts\<close>

text \<open>The reference splits a script at its newlines; every piece is trimmed.\<close>

definition script_lines :: "bytes \<Rightarrow> bytes list" where
  "script_lines script = map (\<lambda>l. rysh_trim_cr (trim l)) (split_lines script)"

fun run_lines :: "'d shell_sys \<Rightarrow> bytes \<Rightarrow> bytes list \<Rightarrow> nat \<Rightarrow> var_store \<Rightarrow> 'd machine \<Rightarrow> (var_store \<times> 'd machine) option" where
  "run_lines sys args [] n vars m = Some (vars, m)"
| "run_lines sys args (l # ls) n vars m = Option.bind (run_line sys l n args vars m) (\<lambda>(vars, m). run_lines sys args ls (n + 1) vars m)"

lemma script_loop_lines:
  "script_loop sys script args is start n vars m =
    run_lines sys args (map (\<lambda>l. rysh_trim_cr (trim l)) (line_slices script is start)) n vars m"
proof (induction "is" arbitrary: start n vars m)
  case (Cons i "is")
  then show ?case
    by (cases "run_line sys (rysh_trim_cr (trim (subslice script start i))) n args vars m") (auto split: prod.split)
qed simp

lemma run_script_lines: "run_script sys script args vars m = run_lines sys args (script_lines script) 1 vars m"
  using line_slices_split [of script] by (simp add: run_script_def script_lines_def script_loop_lines del: upt_Suc)

section \<open>The text of a script\<close>

definition builtin_names :: "bytes list" where
  "builtin_names = map lit [''print'', ''write'', ''pid'', ''args'', ''set'', ''get'', ''cat'', ''writefile'', ''stat'', ''listdir'', ''mkdir'',
     ''fillfile'', ''countfile'', ''env'', ''getenv'', ''setenv'', ''unsetenv'', ''spawn'', ''daemon'', ''wait'', ''sleep'', ''time'', ''stdio'',
     ''pipe'', ''redir'', ''spawnredir'', ''spawnstdin'', ''spawnio'', ''spawnioe'', ''rm'', ''rename'', ''pwd'', ''cd'', ''errno'']"

text \<open>The lines that need no file, no child and no clock.\<close>

definition plain_line :: "bytes \<Rightarrow> bool" where
  "plain_line line \<longleftrightarrow> line = [] \<or> hd line = 35 \<or>
     fst (split_word line) \<in> set (take 6 builtin_names) \<or> fst (split_word line) \<notin> set builtin_names"

text \<open>The reference: the text a plain line shows and the variables after it.\<close>

definition line_effect :: "u32 \<Rightarrow> bytes \<Rightarrow> nat \<Rightarrow> bytes \<Rightarrow> var_store \<Rightarrow> bytes \<times> var_store" where
  "line_effect pid args n line vars =
     (let (command, rest) = split_word line; expanded = expand (var_text pid args (variables vars)) rest in
      if line = [] \<or> hd line = 35 then ([], vars)
      else if command = lit ''set'' then ([], case split_word rest of (name, val) \<Rightarrow> store_set name val vars)
      else
        (if command = lit ''print'' then expanded @ [10]
         else if command = lit ''write'' then expanded
         else if command = lit ''pid'' then lit ''pid '' @ usize_text (unat pid) @ [10]
         else if command = lit ''args'' then lit ''args '' @ (if args = [] then lit ''<none>'' else args) @ [10]
         else if command = lit ''get'' then (case variables vars rest of Some v \<Rightarrow> v @ [10] | None \<Rightarrow> [])
         else lit ''rysh: unknown command at line '' @ usize_text n @ lit '': '' @ command @ [10],
         vars))"

fun script_effect :: "u32 \<Rightarrow> bytes \<Rightarrow> nat \<Rightarrow> bytes list \<Rightarrow> var_store \<Rightarrow> bytes \<times> var_store" where
  "script_effect pid args n [] vars = ([], vars)"
| "script_effect pid args n (line # rest) vars =
     (case line_effect pid args n line vars of (t, vars) \<Rightarrow> case script_effect pid args (n + 1) rest vars of (ts, vars) \<Rightarrow> (t @ ts, vars))"

lemma dispatch_plain:
  "rysh_dispatch sys n args vars (lit ''print'') rest = seq [print_expanded sys rest args vars, newline sys]"
  "rysh_dispatch sys n args vars (lit ''write'') rest = print_expanded sys rest args vars"
  "rysh_dispatch sys n args vars (lit ''pid'') rest = seq [say sys ''pid '', (\<lambda>m. num sys (unat (current_pid (fst m))) m), newline sys]"
  "rysh_dispatch sys n args vars (lit ''args'') rest = seq [say sys ''args '', if args = [] then say sys ''<none>'' else out sys args, newline sys]"
  "rysh_dispatch sys n args vars (lit ''get'') rest =
    (case store_get rest vars of Some val \<Rightarrow> seq [out sys val, newline sys] | None \<Rightarrow> Some)"
  by (simp_all add: rysh_dispatch_def)

lemma dispatch_unknown:
  "command \<notin> set builtin_names \<Longrightarrow> rysh_dispatch sys n args vars command rest =
    seq [say sys ''rysh: unknown command at line '', num sys n, say sys '': '', out sys command, newline sys]"
  unfolding builtin_names_def rysh_dispatch_def by (simp del: lit_simps)

lemma trim_length: "length (trim bs) \<le> length bs"
proof -
  have "length (trim_back cs) \<le> length cs" for cs
    by (induction cs rule: trim_back.induct) (subst trim_back.simps, auto intro: le_trans)
  then show ?thesis unfolding trim_def using length_dropWhile_le le_trans by blast
qed

lemma split_word_length: "length (fst (split_word bs)) \<le> length bs"
  using trim_length [of bs] by (auto simp: split_word_def Let_def split: option.splits)

lemma dispatch_prints:
  assumes v: "vars_ok vars" and a: "length args < 2 ^ 63" and l: "length line < 2 ^ 63"
    and p: "plain_line line" "line \<noteq> []" "hd line \<noteq> 35" and w: "split_word line = (command, rest)" "command \<noteq> lit ''set''"
  shows "prints pid (rysh_dispatch sys n args vars command rest) (fst (line_effect pid args n line vars))"
proof -
  have c: "length command < 2 ^ 63" using split_word_length [of line] l w by simp
  note e = print_expanded_shows [OF v a, of pid sys rest]
  note eff = line_effect_def [of pid args n line vars, unfolded w(1)]
  have "command = lit ''print'' \<or> command = lit ''write'' \<or> command = lit ''pid'' \<or> command = lit ''args'' \<or> command = lit ''get'' \<or>
      command \<notin> set builtin_names"
    using p w by (auto simp: plain_line_def builtin_names_def)
  then consider "command = lit ''print''" | "command = lit ''write''" | "command = lit ''pid''" | "command = lit ''args''" | "command = lit ''get''"
    | "command \<notin> set builtin_names" by blast
  then show ?thesis
  proof cases
    case 1
    then show ?thesis using p e
      by (simp only: dispatch_plain) (intro prints_seq [where txts = "[expand (var_text pid args (variables vars)) rest, [10]]"];
        simp add: eff prints_newline lit_eq del: lit_simps)
  next
    case 2
    then show ?thesis using p e by (simp only: dispatch_plain) (simp add: eff lit_eq del: lit_simps)
  next
    case 3
    then show ?thesis using p
      by (simp only: dispatch_plain) (intro prints_seq [where txts = "[lit ''pid '', usize_text (unat pid), [10]]"];
        simp add: eff prints_newline prints_pid prints_say lit_eq del: lit_simps)
  next
    case 4
    have "prints pid (if args = [] then say sys ''<none>'' else out sys args) (if args = [] then lit ''<none>'' else args)"
      using a by (simp add: prints_out prints_say lit_eq del: lit_simps)
    with 4 show ?thesis using p
      by (simp only: dispatch_plain) (intro prints_seq [where txts = "[lit ''args '', if args = [] then lit ''<none>'' else args, [10]]"];
        simp add: eff prints_newline prints_say lit_eq del: lit_simps)
  next
    case 5
    show ?thesis
    proof (cases "variables vars rest")
      case None
      with 5 p show ?thesis by (simp only: dispatch_plain) (simp add: eff variables_def prints_nothing lit_eq del: lit_simps)
    next
      case (Some val)
      with variables_length [OF v Some] have "prints pid (out sys val) val" by (intro prints_out) simp
      then have "prints pid (seq [out sys val, newline sys]) (val @ [10])"
        by (intro prints_seq [where txts = "[val, [10]]"]) (simp_all add: prints_newline)
      with Some 5 p show ?thesis by (simp only: dispatch_plain) (simp add: eff variables_def lit_eq del: lit_simps)
    qed
  next
    case 6
    have "prints pid (seq [say sys ''rysh: unknown command at line '', num sys n, say sys '': '', out sys command, newline sys])
        (lit ''rysh: unknown command at line '' @ usize_text n @ lit '': '' @ command @ [10])"
      using c by (intro prints_seq [where txts = "[lit ''rysh: unknown command at line '', usize_text n, lit '': '', command, [10]]"])
        (simp_all add: prints_newline prints_num prints_out prints_say lit_eq del: lit_simps)
    moreover have "\<forall>x \<in> {''print'', ''write'', ''pid'', ''args'', ''get''}. command \<noteq> lit x"
      using 6 by (auto simp: builtin_names_def)
    ultimately show ?thesis using 6 p w(2) by (simp add: dispatch_unknown eff lit_eq del: lit_simps)
  qed
qed

lemma run_plain_line:
  assumes "vars_ok vars" "length args < 2 ^ 63" "length line < 2 ^ 63" "plain_line line" "on_console k"
  shows "run_line sys line n args vars (k, d) =
    Some (snd (line_effect (current_pid k) args n line vars), (shown (fst (line_effect (current_pid k) args n line vars)) k, d))"
    "vars_ok (snd (line_effect (current_pid k) args n line vars))"
proof -
  obtain command rest where w: "split_word line = (command, rest)" by force
  show "vars_ok (snd (line_effect (current_pid k) args n line vars))"
    using assms(1) by (auto simp: line_effect_def Let_def w store_set_ok split: prod.splits)
  show "run_line sys line n args vars (k, d) =
    Some (snd (line_effect (current_pid k) args n line vars), (shown (fst (line_effect (current_pid k) args n line vars)) k, d))"
  proof (cases "line = [] \<or> hd line = 35 \<or> command = lit ''set''")
    case True
    then show ?thesis by (auto simp: run_line_def line_effect_def Let_def w split: prod.splits)
  next
    case False
    have "rysh_dispatch sys n args vars command rest (k, d) = Some (shown (fst (line_effect (current_pid k) args n line vars)) k, d)"
      using False assms w by (intro printsD [OF dispatch_prints [where line = line]]) simp_all
    with False show ?thesis by (simp add: run_line_def w) (simp add: line_effect_def Let_def w)
  qed
qed

lemma script_line_length: "l \<in> set (script_lines bs) \<Longrightarrow> length l \<le> length bs"
proof -
  assume "l \<in> set (script_lines bs)"
  then obtain p where p: "p \<in> set (split_lines bs)" "l = rysh_trim_cr (trim p)" by (auto simp: script_lines_def)
  have "length l \<le> length (trim p)" by (simp add: p(2) rysh_trim_cr_def)
  with trim_length [of p] split_lines_length [OF p(1)] show ?thesis by linarith
qed

lemma run_plain_lines:
  assumes "vars_ok vars" "length args < 2 ^ 63" "\<And>l. l \<in> set ls \<Longrightarrow> length l < 2 ^ 63" "list_all plain_line ls" "on_console k"
  shows "run_lines sys args ls n vars (k, d) =
    Some (snd (script_effect (current_pid k) args n ls vars), (shown (fst (script_effect (current_pid k) args n ls vars)) k, d))"
  using assms
proof (induction ls arbitrary: n vars k)
  case (Cons l ls)
  note r = run_plain_line(1) [where sys = sys and n = n and d = d and line = l, OF Cons.prems(1,2) _ _ Cons.prems(5)]
    run_plain_line(2) [where n = n and line = l, OF Cons.prems(1,2) _ _ Cons.prems(5)]
  obtain t v where e: "line_effect (current_pid k) args n l vars = (t, v)" by force
  have s: "run_line sys l n args vars (k, d) = Some (v, (shown t k, d))" "vars_ok v"
    using r Cons.prems(3,4) by (simp_all add: e)
  obtain ts w where es: "script_effect (current_pid k) args (Suc n) ls v = (ts, w)" by force
  have "run_lines sys args ls (Suc n) v (shown t k, d) = Some (w, (shown ts (shown t k), d))"
    using Cons.IH [where vars = v and k = "shown t k" and n = "Suc n"] s(2) Cons.prems(2-5) es by simp
  with s(1) show ?case by (simp add: e es)
qed simp

text \<open>
  C31. A script of lines that need no file, child or clock (\<^verbatim>\<open>print\<close>, \<^verbatim>\<open>write\<close>, \<^verbatim>\<open>pid\<close>, \<^verbatim>\<open>args\<close>, \<^verbatim>\<open>set\<close>, \<^verbatim>\<open>get\<close>, comments,
  blank lines and unknown commands), run with its output on the console, always finishes.  It puts on the console
  exactly the reference text of its lines, split at the newlines and numbered from one, with the
  variables expanded as they stand at each line; it changes nothing else of the kernel and the devices.
\<close>

theorem run_script_output:
  assumes "vars_ok vars" "length args < 2 ^ 63" "length script < 2 ^ 63" "list_all plain_line (script_lines script)" "on_console k"
  shows "run_script sys script args vars (k, d) =
    (case script_effect (current_pid k) args 1 (script_lines script) vars of (txt, vars') \<Rightarrow>
       Some (vars', (k\<lparr>app_console := map_option (write_bytes txt) (app_console k)\<rparr>, d)))"
proof -
  have len: "length l < 2 ^ 63" if "l \<in> set (script_lines script)" for l using script_line_length [OF that] assms(3) by simp
  note run = run_plain_lines [OF assms(1,2) len assms(4,5), where sys = sys and n = 1 and d = d]
  show ?thesis by (subst run_script_lines, subst run) (simp_all add: split_beta shown_def)
qed

definition demo_shell :: "ata_dev shell_sys" where
  "demo_shell = \<lparr>sys_bus = dev_bus, sys_now = 0, sys_beyond = (\<lambda>a. 0), sys_trampoline = 0, sys_wait = (\<lambda>pid k d. Some (None, k, d)),
     sh_wait_any = (\<lambda>k d. Some (None, k, d)), sh_clock = (\<lambda>d. (0, d))\<rparr>"

definition demo_script :: bytes where
  "demo_script = lit ''set who rymos'' @ [10] @ lit ''# greeting'' @ [13, 10] @ lit ''print hello $who!'' @ [10] @ lit ''frob''"

definition demo_console :: console where
  "demo_console = console_new (\<lambda>a. 0) (\<lambda>a. 0) None"

definition demo_shown :: kernel where
  "demo_shown = demo_state\<lparr>app_console := Some demo_console\<rparr>"

lemma demo_shown_console: "on_console demo_shown"
  by (simp add: on_console_def demo_shown_def demo_state_def process_empty_def STDOUT_FD_def)

theorem run_script_output_witness:
  "\<exists>vars k'. run_script demo_shell demo_script [] store_new (demo_shown, demo_dev) = Some (vars, (k', demo_dev)) \<and>
     app_console k' = Some (write_bytes (lit ''hello rymos!'' @ [10] @ lit ''rysh: unknown command at line 4: frob'' @ [10]) demo_console)"
proof -
  have l: "list_all plain_line (script_lines demo_script)" by code_simp
  have e: "fst (script_effect pid [] 1 (script_lines demo_script) store_new) =
      lit ''hello rymos!'' @ [10] @ lit ''rysh: unknown command at line 4: frob'' @ [10]" for pid by code_simp
  have "length demo_script < 2 ^ 63" by (simp add: demo_script_def)
  note run = run_script_output [OF store_new_ok _ this l demo_shown_console, of "[]" demo_shell demo_dev]
  obtain t vars where es: "script_effect (current_pid demo_shown) [] 1 (script_lines demo_script) store_new = (t, vars)" by force
  from run es show ?thesis unfolding e [symmetric, of "current_pid demo_shown"] by (simp add: demo_shown_def)
qed

end
