(* ===== verification/Rysh_Pipes.thy ===== *)
theory Rysh_Pipes
  imports Rysh_Script
begin

text \<open>
  The pipe commands of the script shell: a message written to a pipe, directly or through a redirected standard
  output, comes back and is shown.
\<close>

section \<open>What the calls keep\<close>

text \<open>The parts a call on a pipe leaves alone, and the descriptors that are open.\<close>

lemma console_set [simp]:
  "app_console (set_fd i h k) = app_console k" "app_console (set_pipe j q k) = app_console k" "pending_stack_reclaims (set_pipe j q k) = pending_stack_reclaims k"
  by (simp_all add: set_fd_def set_pipe_def)

lemma app_fd_open_cong: "app_fds k' = app_fds k \<Longrightarrow> app_fd_open x k' = app_fd_open x k"
  by (simp add: app_fd_open_def split: option.split)

lemma pipe_end_console:
  assumes "end_of kind p (app_fds k ! i)" "kind \<in> {KindPipeRead, KindPipeWrite}" "i < 32"
  shows "user_fd_read bus (int i + 3) n k d = Some (r, k', d') \<Longrightarrow> app_console k' = app_console k \<and> app_fds k' = app_fds k \<and>
      pending_stack_reclaims k' = pending_stack_reclaims k"
    "user_fd_write bus now (int i + 3) data k d = (w, k', d') \<Longrightarrow> app_console k' = app_console k \<and> app_fds k' = app_fds k"
  using assms
  by (auto simp: user_fd_read_def abi_read_def read_handle_def user_fd_write_def abi_write_fd_def write_handle_def Let_def resolve_high
      fd_index_high STDIN_FD_def STDOUT_FD_def STDERR_FD_def end_of_def split: prod.splits if_splits option.splits)

lemma dup2_console: "app_console (snd (user_dup2 a b k)) = app_console k"
  by (auto simp: user_dup2_def abi_dup2_def set_app_error_def clear_app_error_def set_std_fd_def split: prod.splits)

lemma close_console: "3 \<le> fd \<Longrightarrow> app_console (snd (user_close_fd fd k)) = app_console k"
  by (auto simp: user_close_fd_def abi_close_def Let_def STDIN_FD_def STDOUT_FD_def STDERR_FD_def
      split: prod.splits option.splits app_fd_kind.splits)

lemma pipe_console: "user_pipe k = (r, k') \<Longrightarrow> app_console k' = app_console k"
  by (auto simp: user_pipe_def abi_pipe_def Let_def set_app_error_def clear_app_error_def split: prod.splits option.splits if_splits)

lemma dup2_tables:
  assumes "table_ok k" "0 \<le> which" "which \<le> 2" "user_dup2 fd which k = (ok, k')"
  shows "fd_tables_ok k' = fd_tables_ok k" "joined p w r k' = joined p w r k" "app_pipes k' = app_pipes k" "table_ok k'" "app_console k' = app_console k"
  using dup2_calm(1-3) [OF assms] dup2_console [of fd which k] assms(4) by (auto simp: joined_def calm_def)

lemma joined_open: "joined p w r k \<Longrightarrow> app_fd_open (int w + 3) k \<and> app_fd_open (int r + 3) k"
  by (auto simp: joined_def app_fd_open_def fd_index_high end_of_def)

lemma on_console_std: "on_console k \<longleftrightarrow> std_of k ! 1 = 1"
  by (simp add: on_console_def std_of_def STDOUT_FD_def)

lemma std_length: "table_ok k \<Longrightarrow> length (std_of k) = 3"
  using cur_ok [of k] by (simp add: std_of_def process_ok_def)

text \<open>Closing a descriptor closes that one only.\<close>

lemma close_fds:
  assumes "3 \<le> fd"
  shows "app_fds (snd (user_close_fd fd k)) =
    (case app_fd_index fd of None \<Rightarrow> app_fds k | Some i \<Rightarrow> if fd_is_open (app_fds k ! i) then (app_fds k)[i := app_fd_empty] else app_fds k)"
  using assms
  by (auto simp: user_close_fd_def abi_close_def Let_def STDIN_FD_def STDOUT_FD_def STDERR_FD_def split: prod.splits option.splits app_fd_kind.splits)

lemma close_open:
  assumes "fd_tables_ok k" "3 \<le> fd"
  shows "app_fd_open x (snd (user_close_fd fd k)) \<longleftrightarrow> x \<noteq> fd \<and> app_fd_open x k"
proof (cases "x < 3")
  case True
  then show ?thesis using assms(2) by (auto simp: app_fd_open_def STDIN_FD_def STDERR_FD_def app_fd_index_def APP_FD_BASE_def)
next
  case False
  then show ?thesis using assms fds_okD(1) [OF assms(1)]
    by (auto simp: app_fd_open_def close_fds app_fd_index_Some fd_index_high nth_list_update STDIN_FD_def STDERR_FD_def split: option.splits)
qed

text \<open>The result of \<^verbatim>\<open>close2\<close> on two descriptors of a program.\<close>

lemma close2_done:
  assumes "fd_tables_ok k" "table_ok k" "3 \<le> a" "3 \<le> b"
  obtains k' where "close2 a b (k, d) = Some (k', d)" "fd_tables_ok k'" "quiet k k'" "app_console k' = app_console k"
    "\<And>x. app_fd_open x k' \<longleftrightarrow> x \<noteq> a \<and> x \<noteq> b \<and> app_fd_open x k"
proof -
  let ?k1 = "snd (user_close_fd a k)"
  have c: "snd (user_close_fd fd k) = snd (abi_close fd k)" for fd k by (simp add: user_close_fd_def split_beta)
  have ok1: "fd_tables_ok ?k1" "quiet k ?k1" using assms abi_close_ok [OF assms(1), of a] close_quiet by (simp_all add: c)
  let ?k2 = "snd (user_close_fd b ?k1)"
  have ok2: "fd_tables_ok ?k2" "quiet ?k1 ?k2"
    using assms abi_close_ok [OF ok1(1), of b] close_quiet [OF quiet_table [OF ok1(2)], of b] by (simp_all add: c)
  show ?thesis
  proof (rule that [of ?k2])
    show "close2 a b (k, d) = Some (?k2, d)" by (simp add: close2_def kdo_def kcall_def split_beta)
    show "app_fd_open x ?k2 \<longleftrightarrow> x \<noteq> a \<and> x \<noteq> b \<and> app_fd_open x k" for x
      by (auto simp: close_open [OF ok1(1) assms(4)] close_open [OF assms(1,3)])
  qed (use ok1 ok2 assms(3,4) in \<open>auto simp: close_console intro: quiet_trans\<close>)
qed

lemma pipe_fresh:
  assumes ok: "fd_tables_ok k" and e: "user_pipe k = (Some (rfd, wfd), k1)"
  shows "\<not> app_fd_open rfd k" "\<not> app_fd_open wfd k" "x \<noteq> rfd \<Longrightarrow> x \<noteq> wfd \<Longrightarrow> app_fd_open x k1 \<longleftrightarrow> app_fd_open x k"
proof -
  obtain p where p: "find (\<lambda>index. \<not> pp_used (app_pipes k ! index)) [0..<12] = Some p"
    using e by (auto simp: user_pipe_def abi_pipe_def Let_def set_app_error_def split: option.splits)
  obtain r w where rw: "two_free_fds k [0..<32] 32 = (r, w)" by force
  have w: "w \<noteq> 32" using e p rw by (auto simp: user_pipe_def abi_pipe_def Let_def set_app_error_def)
  note s = two_free_fds_spec [OF rw w]
  have f: "rfd = int r + 3" "wfd = int w + 3"
    "app_fds k1 = (app_fds k)[r := pipe_fd KindPipeRead FD_READ p, w := pipe_fd KindPipeWrite FD_WRITE p]"
    using e p rw w by (auto simp: user_pipe_def abi_pipe_def Let_def)
  have b: "r < 32" "w < 32" "\<not> fd_is_open (app_fds k ! r)" "\<not> fd_is_open (app_fds k ! w)" using s by auto
  show "\<not> app_fd_open rfd k" "\<not> app_fd_open wfd k"
    using b by (simp_all add: app_fd_open_def f STDIN_FD_def STDERR_FD_def fd_index_high)
  assume x: "x \<noteq> rfd" "x \<noteq> wfd"
  show "app_fd_open x k1 \<longleftrightarrow> app_fd_open x k"
  proof (cases "app_fd_index x")
    case (Some i)
    then show ?thesis using x b fds_okD(1) [OF ok] by (auto simp: app_fd_open_def f app_fd_index_Some fd_index_high nth_list_update)
  qed (simp add: app_fd_open_def)
qed

section \<open>The pipe commands\<close>

text \<open>A message goes into a new pipe through descriptor 1 and comes out of the other end.\<close>

lemma redirected_message:
  assumes ok: "fd_tables_ok k" "table_ok k" and e: "user_pipe k = (Some (rfd, wfd), k1)" and m: "msg \<noteq> []"
  obtains k2 w k3 k4 k5 where "user_dup2 wfd STDOUT_FD k1 = (True, k2)" "user_fd_write bus now STDOUT_FD msg k2 d = (Some w, k3, d)"
    "user_dup2 STDOUT_FD STDOUT_FD k3 = (True, k4)" "user_fd_read bus rfd 128 k4 d = Some (Some (take 128 msg), k5, d)"
    "fd_tables_ok k5" "table_ok k5" "std_of k5 = (std_of k)[1 := 1]" "app_console k5 = app_console k"
    "3 \<le> rfd" "3 \<le> wfd" "\<And>x. app_fd_open x k5 = app_fd_open x k1"
proof -
  have e': "abi_pipe True k = (0, Some (rfd, wfd), k1)" using e by (auto simp: user_pipe_def split: prod.splits if_splits)
  obtain p where p: "joined p (nat (wfd - 3)) (nat (rfd - 3)) k1" "app_pipes k1 ! p = new_pipe" "3 \<le> rfd" "3 \<le> wfd"
    using abi_pipe_joined [OF ok(1) e'] by metis
  define r w where rw: "r = nat (rfd - 3)" "w = nat (wfd - 3)"
  have fd: "rfd = int r + 3" "wfd = int w + 3" using p(3,4) by (simp_all add: rw)
  note j1 = p(1) [folded rw]
  have b: "r < 32" "w < 32" using j1 by (simp_all add: joined_def)
  have ok1: "fd_tables_ok k1" "table_ok k1" "std_of k1 = std_of k" "app_console k1 = app_console k"
    using abi_pipe_ok [OF ok(1), of True] e' pipe_quiet(1) [OF ok(2) e] pipe_console [OF e] by (auto simp: quiet_def calm_def)
  obtain ok2 k2 where d2: "user_dup2 wfd 1 k1 = (ok2, k2)" by force
  note t2 = dup2_tables [OF ok1(2) _ _ d2] dup2_calm(2,4) [OF ok1(2) _ _ d2]
  have s2: "ok2" "std_of k2 = (std_of k)[1 := wfd]" using t2(7) joined_open [OF j1] ok1(3) by (simp_all add: fd)
  have ok2': "fd_tables_ok k2" "joined p w r k2" "app_pipes k2 ! p = new_pipe" "table_ok k2" "app_console k2 = app_console k" "app_fds k2 = app_fds k1"
    using t2 ok1 j1 p(2) by simp_all
  have res: "user_fd_write bus now STDOUT_FD msg k2 d = user_fd_write bus now (int w + 3) msg k2 d"
  proof -
    have "p_std_fds (cur_proc k2) ! 1 = int w + 3" using s2(2) std_length [OF ok(2)] by (simp add: std_of_def fd)
    then show ?thesis by (simp add: user_fd_write_def abi_write_fd_def app_resolve_fd_def STDIN_FD_def STDOUT_FD_def STDERR_FD_def)
  qed
  have room: "\<exists>q. pipe_write msg new_pipe = Some (min (length msg) 8192, q)" using m by (auto simp: pipe_write_def new_pipe_def Let_def)
  show ?thesis
  proof (rule pipe_write_call [OF ok2'(1,2), of bus now msg d])
    fix n k3
    assume wr: "user_fd_write bus now (int w + 3) msg k2 d = (Some n, k3, d)" "pipe_write msg (app_pipes k2 ! p) = Some (n, app_pipes k3 ! p)"
      "fd_tables_ok k3" "joined p w r k3" "pipe_contents (app_pipes k3 ! p) = pipe_contents (app_pipes k2 ! p) @ take n msg"
      "process_table k3 = process_table k2" "current_process_index k3 = current_process_index k2"
    have n: "n = min (length msg) 8192" using wr(2) ok2'(3) room by auto
    have c3: "app_console k3 = app_console k" "app_fds k3 = app_fds k1"
      using pipe_end_console(2) [OF _ _ b(2) wr(1)] ok2'(2,5,6) by (auto simp: joined_def)
    have q3: "quiet k2 k3" using fd_write_quiet [OF ok2'(4) wr(1)] by simp
    have t3: "table_ok k3" by (rule quiet_table [OF q3])
    obtain ok4 k4 where d4: "user_dup2 1 1 k3 = (ok4, k4)" by force
    note t4 = dup2_tables [OF t3 _ _ d4] dup2_calm(2,4) [OF t3 _ _ d4]
    have s4: "ok4" "std_of k4 = (std_of k)[1 := 1]"
      using t4(7) q3 s2 by (simp_all add: app_fd_open_def STDIN_FD_def STDERR_FD_def quiet_def)
    have ok4: "fd_tables_ok k4" "joined p w r k4" "table_ok k4" "app_console k4 = app_console k" "app_fds k4 = app_fds k1"
      using t4 wr(3,4) c3 by simp_all
    have cont: "pipe_contents (app_pipes k4 ! p) = take 8192 msg"
      using t4(3) wr(5) n ok2'(3) by (simp add: pipe_contents_def new_pipe_def min_def)
    show thesis
    proof (rule pipe_read_call [OF ok4(1,2), of bus 128 d])
      fix k5
      assume rd: "user_fd_read bus (int r + 3) 128 k4 d = Some (Some (take 128 (pipe_contents (app_pipes k4 ! p))), k5, d)" "fd_tables_ok k5"
        "joined p w r k5" "process_table k5 = process_table k4" "current_process_index k5 = current_process_index k4"
      have k5: "app_console k5 = app_console k" "app_fds k5 = app_fds k1" "pending_stack_reclaims k5 = pending_stack_reclaims k4"
        using pipe_end_console(1) [OF _ _ b(1) rd(1)] ok4(2,4,5) by (auto simp: joined_def)
      have "table_ok k5" using calm_tables [OF ok4(3) rd(4,5) k5(3)] by (simp add: calm_def)
      moreover have "app_fd_open x k5 = app_fd_open x k1" for x by (rule app_fd_open_cong [OF k5(2)])
      ultimately show thesis
        by (intro that [of k2 n k3 k4 k5]) (use k5(1) d2 s2(1) res wr(1) d4 s4 rd cont p(3,4) in \<open>simp_all add: fd STDOUT_FD_def std_of_def min_def\<close>)
    qed
  next
    assume "pipe_write msg (app_pipes k2 ! p) = None"
    then show thesis using room ok2'(3) by auto
  qed
qed

text \<open>The message of a demonstration: the argument, or a default text.\<close>

definition demo_payload :: "bytes \<Rightarrow> bytes \<Rightarrow> bytes" where
  "demo_payload message fallback = (if message = [] then fallback else message)"

lemma redir_demo_runs:
  assumes "fd_tables_ok k" "table_ok k" "user_pipe k = (Some fds, k1)"
  shows "\<exists>k'. rysh_redir_demo sys message (k, d) = Some (k', d) \<and>
    app_console k' = map_option (write_bytes (lit ''redir '' @ take 128 (demo_payload message (lit ''redirect-ok'')) @ [10])) (app_console k) \<and>
    std_of k' = (std_of k)[1 := 1] \<and> fd_tables_ok k' \<and> table_ok k' \<and> (\<forall>x. app_fd_open x k' = app_fd_open x k)"
proof -
  obtain rfd wfd where fds: "fds = (rfd, wfd)" by force
  note e = assms(3) [unfolded fds]
  define msg where "msg = demo_payload message (lit ''redirect-ok'')"
  have msg: "msg \<noteq> []" by (simp add: msg_def demo_payload_def)
  show ?thesis
  proof (rule redirected_message [OF assms(1,2) e msg, of "sys_bus sys" "sys_now sys" d])
    fix k2 w k3 k4 k5
    assume r: "user_dup2 wfd STDOUT_FD k1 = (True, k2)" "user_fd_write (sys_bus sys) (sys_now sys) STDOUT_FD msg k2 d = (Some w, k3, d)"
      "user_dup2 STDOUT_FD STDOUT_FD k3 = (True, k4)" "user_fd_read (sys_bus sys) rfd 128 k4 d = Some (Some (take 128 msg), k5, d)"
      "fd_tables_ok k5" "table_ok k5" "std_of k5 = (std_of k)[1 := 1]" "app_console k5 = app_console k"
      "3 \<le> rfd" "3 \<le> wfd" "\<And>x. app_fd_open x k5 = app_fd_open x k1"
    let ?txt = "lit ''redir '' @ take 128 msg @ [10]"
    have pr: "prints (current_pid k5) (seq [say sys ''redir '', out sys (take 128 msg), newline sys]) ?txt"
      by (intro prints_seq [where txts = "[lit ''redir '', take 128 msg, [10]]"]) (simp_all add: prints_say prints_out prints_newline del: lit_simps)
    have con: "on_console k5" using r(7) std_length [OF assms(2)] by (simp add: on_console_std)
    have told: "seq [say sys ''redir '', out sys (take 128 msg), newline sys] (k5, d) = Some (shown ?txt k5, d)"
      by (rule printsD [OF pr con refl])
    have kept: "fd_tables_ok (shown ?txt k5)" "quiet k5 (shown ?txt k5)" "app_fd_open x (shown ?txt k5) = app_fd_open x k5" for x
      using r(5) tame_quiet [OF r(6) tameI(4)] by (simp_all add: shown_def) (rule app_fd_open_cong, simp)
    show ?thesis
    proof (rule close2_done [OF kept(1) quiet_table [OF kept(2)] r(9,10), of d])
      fix k6
      assume c: "close2 rfd wfd (shown ?txt k5, d) = Some (k6, d)" "fd_tables_ok k6" "quiet (shown ?txt k5) k6"
        "app_console k6 = app_console (shown ?txt k5)" "\<And>x. app_fd_open x k6 \<longleftrightarrow> x \<noteq> rfd \<and> x \<noteq> wfd \<and> app_fd_open x (shown ?txt k5)"
      have "rysh_redir_demo sys message (k, d) = Some (k6, d)"
        using e r(1-4) told c(1) unfolding rysh_redir_demo_def Let_def msg_def demo_payload_def [symmetric]
        by (simp add: kcall_def dcall_def ocall_def kdo_def del: lit_simps)
      moreover have "app_fd_open x k6 = app_fd_open x k" for x
        using c(5) kept(3) r(11) pipe_fresh [OF assms(1) e] by (cases "x = rfd \<or> x = wfd") auto
      moreover have "std_of k6 = (std_of k)[1 := 1]" "table_ok k6"
        using c(3) kept(2) r(7) by (auto simp: quiet_def calm_def)
      moreover have "app_console k6 = map_option (write_bytes ?txt) (app_console k)" using c(4) r(8) by (simp add: shown_def)
      ultimately show ?thesis using c(2) unfolding msg_def by blast
    qed
  qed
qed

text \<open>
  C33. The \<^verbatim>\<open>redir\<close> command, started with any standard output: when a pipe is available, the first 128 bytes of the
  message go through the redirected output into the pipe, come out of its other end and are shown on the console
  after the word \<^verbatim>\<open>redir\<close>.  The standard output is the console afterwards (even if it was a file before), the
  standard input and error are as before, and exactly the descriptors open before are open.
\<close>

theorem redir_demo_shows:
  assumes "fd_tables_ok k" "table_ok k" "user_pipe k = (Some fds, k1)"
  shows "\<exists>k'. rysh_redir_demo sys message (k, d) = Some (k', d) \<and>
    app_console k' = map_option (write_bytes (lit ''redir '' @ take 128 (demo_payload message (lit ''redirect-ok'')) @ [10])) (app_console k) \<and>
    std_of k' = (std_of k)[1 := 1] \<and> fd_tables_ok k' \<and> table_ok k' \<and> (\<forall>x. app_fd_open x k' = app_fd_open x k)"
  using assms by (rule redir_demo_runs)

theorem redir_demo_shows_witness:
  "\<exists>k'. rysh_redir_demo demo_shell (lit ''abc'') (demo_shown, demo_dev) = Some (k', demo_dev) \<and>
     app_console k' = Some (write_bytes (lit ''redir abc'' @ [10]) demo_console)"
proof -
  have "find (\<lambda>index. \<not> pp_used (app_pipes demo_shown ! index)) [0..<12] = Some 0"
    by (rule find_upt_first) (simp_all add: demo_shown_def demo_state_def app_pipe_empty_def)
  moreover have "two_free_fds demo_shown [0..<32] 32 = (0, 1)" by (simp add: upt_rec demo_shown_def demo_state_def)
  ultimately obtain fds k1 where p: "user_pipe demo_shown = (Some fds, k1)" by (simp add: user_pipe_def abi_pipe_def Let_def)
  have ok: "fd_tables_ok demo_shown" "table_ok demo_shown"
    using demo_fds_ok demo_state_ok(1) by (simp_all add: demo_shown_def table_ok_def)
  from redir_demo_shows [OF ok p, of demo_shell "lit ''abc''" demo_dev] show ?thesis
    by (auto simp: demo_payload_def demo_shown_def)
qed

end
