(* ===== verification/Rysh_Keeps.thy ===== *)
theory Rysh_Keeps
  imports Rysh_Pipes
begin

text \<open>
  What every command of the script shell keeps: the tables of the kernel stay well formed, no descriptor is leaked or
  closed, and no standard descriptor is left redirected by the command.  The rules follow the way commands are
  put together, so each command needs one line.
\<close>

section \<open>The state of the calling process\<close>

definition shell_ok :: "kernel \<Rightarrow> bool" where
  "shell_ok k \<longleftrightarrow> vals_ok k \<and> fd_tables_ok k \<and> state_of k = Running"

definition steady :: "kernel \<Rightarrow> kernel \<Rightarrow> bool" where
  "steady k k' \<longleftrightarrow> shell_ok k' \<and> std_of k' = std_of k \<and> (\<forall>x. app_fd_open x k' = app_fd_open x k)"

lemma shell_okD: "shell_ok k \<Longrightarrow> table_ok k" "shell_ok k \<Longrightarrow> fd_tables_ok k" "shell_ok k \<Longrightarrow> vals_ok k" "shell_ok k \<Longrightarrow> state_of k = Running"
  by (simp_all add: shell_ok_def vals_ok_table)

lemma steady_refl: "shell_ok k \<Longrightarrow> steady k k" by (simp add: steady_def)
lemma steady_trans: "steady a b \<Longrightarrow> steady b c \<Longrightarrow> steady a c" by (simp add: steady_def)

lemma calm_shell_ok: "shell_ok k \<Longrightarrow> calm k k' \<Longrightarrow> fd_tables_ok k' \<Longrightarrow> shell_ok k'"
  using calm_vals(1) [of k k'] by (auto simp: shell_ok_def calm_def slot_view_def)

lemma quiet_steady:
  assumes "shell_ok k" "quiet k k'" "fd_tables_ok k'" "\<And>x. app_fd_open x k' = app_fd_open x k"
  shows "steady k k'"
  using calm_shell_ok [of k k'] assms by (simp add: steady_def quiet_def)

lemma quiet_same_fds: "shell_ok k \<Longrightarrow> quiet k k' \<Longrightarrow> app_fds k' = app_fds k \<Longrightarrow> app_pipes k' = app_pipes k \<Longrightarrow> steady k k'"
  using app_fd_open_cong [of k' k] by (intro quiet_steady) (auto dest: shell_okD)

lemma error_steady: "shell_ok k \<Longrightarrow> set_app_error e k = (r, k') \<Longrightarrow> steady k k'"
  using error_quiet [of k e r k'] by (intro quiet_same_fds) (auto dest: shell_okD)

lemma clear_steady: "shell_ok k \<Longrightarrow> steady k (clear_app_error k)"
  using clear_quiet [of k] by (intro quiet_same_fds) (auto dest: shell_okD)

section \<open>Effects\<close>

text \<open>
  A command with the effect \<open>(X, R)\<close> closes the descriptors in \<open>X\<close> and puts the standard descriptors in \<open>R\<close> back to
  themselves; it opens nothing else and leaves the other standard descriptors as they are or puts them back.
\<close>

definition eff :: "int set \<Rightarrow> nat set \<Rightarrow> 'd cmd \<Rightarrow> bool" where
  "eff X R c \<longleftrightarrow> (\<forall>k d k' d'. shell_ok k \<longrightarrow> c (k, d) = Some (k', d') \<longrightarrow>
     shell_ok k' \<and> (\<forall>x. app_fd_open x k' \<longleftrightarrow> x \<notin> X \<and> app_fd_open x k) \<and>
     (\<forall>i<3. std_of k' ! i = int i \<or> i \<notin> R \<and> std_of k' ! i = std_of k ! i))"

lemma effI:
  assumes "\<And>k d k' d'. shell_ok k \<Longrightarrow> c (k, d) = Some (k', d') \<Longrightarrow> shell_ok k'"
    and "\<And>k d k' d' x. shell_ok k \<Longrightarrow> c (k, d) = Some (k', d') \<Longrightarrow> app_fd_open x k' \<longleftrightarrow> x \<notin> X \<and> app_fd_open x k"
    and "\<And>k d k' d' i. shell_ok k \<Longrightarrow> c (k, d) = Some (k', d') \<Longrightarrow> i < 3 \<Longrightarrow> std_of k' ! i = int i \<or> i \<notin> R \<and> std_of k' ! i = std_of k ! i"
  shows "eff X R c"
  using assms unfolding eff_def by blast

lemma effD:
  assumes "eff X R c" "shell_ok k" "c (k, d) = Some (k', d')"
  shows "shell_ok k'" "app_fd_open x k' \<longleftrightarrow> x \<notin> X \<and> app_fd_open x k" "i < 3 \<Longrightarrow> std_of k' ! i = int i \<or> i \<notin> R \<and> std_of k' ! i = std_of k ! i"
  using assms unfolding eff_def by blast+

lemma eff_steady:
  assumes "\<And>k d k' d'. shell_ok k \<Longrightarrow> c (k, d) = Some (k', d') \<Longrightarrow> steady k k'"
  shows "eff {} {} c"
  using assms unfolding eff_def steady_def by simp

lemma eff_Some: "eff {} {} Some"
  by (rule eff_steady) (simp add: steady_refl)

lemma eff_seq_Nil: "eff {} {} (seq [])"
  by (rule eff_steady) (simp add: steady_refl)

lemma eff_bind:
  assumes c: "eff X R c" and g: "eff Y S g"
  shows "eff (X \<union> Y) (R \<union> S) (\<lambda>m. Option.bind (c m) g)"
proof -
  have main: "shell_ok k' \<and> (\<forall>x. app_fd_open x k' \<longleftrightarrow> x \<notin> X \<union> Y \<and> app_fd_open x k) \<and>
      (\<forall>i<3. std_of k' ! i = int i \<or> i \<notin> R \<union> S \<and> std_of k' ! i = std_of k ! i)"
    if ok: "shell_ok k" and e: "Option.bind (c (k, d)) g = Some (k', d')" for k d k' d'
  proof -
    from e obtain k1 d1 where e1: "c (k, d) = Some (k1, d1)" and e2: "g (k1, d1) = Some (k', d')" by (auto simp: bind_eq_Some_conv)
    note f1 = effD [OF c ok e1] and f2 = effD [OF g effD(1) [OF c ok e1] e2]
    have "std_of k' ! i = int i \<or> i \<notin> R \<union> S \<and> std_of k' ! i = std_of k ! i" if "i < 3" for i
      using f1(3) [OF that] f2(3) [OF that] by auto
    with f1(1,2) f2(1,2) show ?thesis by blast
  qed
  then show ?thesis unfolding eff_def by blast
qed

lemma eff_seq: "eff X R c \<Longrightarrow> eff Y S (seq cs) \<Longrightarrow> eff (X \<union> Y) (R \<union> S) (seq (c # cs))"
proof -
  have "seq (c # cs) = (\<lambda>m. Option.bind (c m) (seq cs))" by (rule ext) simp
  then show "eff X R c \<Longrightarrow> eff Y S (seq cs) \<Longrightarrow> eff (X \<union> Y) (R \<union> S) (seq (c # cs))" by (simp only: eff_bind)
qed

text \<open>A call that keeps the state steady, followed by a command.\<close>

lemma eff_after:
  assumes "\<And>k d x k1 d1. shell_ok k \<Longrightarrow> f k d = Some (x, k1, d1) \<Longrightarrow> steady k k1" "\<And>x. eff X R (g x)"
  shows "eff X R (ocall f g)"
proof -
  have "shell_ok k' \<and> (\<forall>x. app_fd_open x k' \<longleftrightarrow> x \<notin> X \<and> app_fd_open x k) \<and> (\<forall>i<3. std_of k' ! i = int i \<or> i \<notin> R \<and> std_of k' ! i = std_of k ! i)"
    if ok: "shell_ok k" and e: "ocall f g (k, d) = Some (k', d')" for k d k' d'
  proof -
    from e obtain x k1 d1 where e1: "f k d = Some (x, k1, d1)" and e2: "g x (k1, d1) = Some (k', d')"
      by (auto simp: ocall_def bind_eq_Some_conv)
    note s = assms(1) [OF ok e1]
    from s have "shell_ok k1" by (simp add: steady_def)
    from effD [OF assms(2) this e2] s show ?thesis unfolding steady_def by simp
  qed
  then show ?thesis unfolding eff_def by blast
qed

lemma kcall_ocall: "kcall f g = ocall (\<lambda>k d. case f k of (x, k) \<Rightarrow> Some (x, k, d)) g"
  by (simp add: fun_eq_iff kcall_def ocall_def split_beta)

lemma dcall_ocall: "dcall f g = ocall (\<lambda>k d. Some (f k d)) g"
  by (simp add: fun_eq_iff dcall_def ocall_def split_beta)

lemma eff_kcall: "(\<And>k x k1. shell_ok k \<Longrightarrow> f k = (x, k1) \<Longrightarrow> steady k k1) \<Longrightarrow> (\<And>x. eff X R (g x)) \<Longrightarrow> eff X R (kcall f g)"
  unfolding kcall_ocall by (rule eff_after) (auto split: prod.splits)

lemma eff_dcall: "(\<And>k d x k1 d1. shell_ok k \<Longrightarrow> f k d = (x, k1, d1) \<Longrightarrow> steady k k1) \<Longrightarrow> (\<And>x. eff X R (g x)) \<Longrightarrow> eff X R (dcall f g)"
  unfolding dcall_ocall by (rule eff_after) auto

lemma eff_with_error: "(\<And>e. eff X R (g e)) \<Longrightarrow> eff X R (with_error g)"
  unfolding eff_def with_error_def by (metis fst_conv)

text \<open>A new pipe adds two descriptors that were closed; the command after it has to close them.\<close>

lemma eff_pipe:
  assumes "eff X R (g None)" "\<And>a b. 3 \<le> a \<Longrightarrow> 3 \<le> b \<Longrightarrow> eff (X \<union> {a, b}) R (g (Some (a, b)))"
  shows "eff X R (kcall user_pipe g)"
proof -
  have "shell_ok k' \<and> (\<forall>x. app_fd_open x k' \<longleftrightarrow> x \<notin> X \<and> app_fd_open x k) \<and> (\<forall>i<3. std_of k' ! i = int i \<or> i \<notin> R \<and> std_of k' ! i = std_of k ! i)"
    if ok: "shell_ok k" and e: "kcall user_pipe g (k, d) = Some (k', d')" for k d k' d'
  proof -
    obtain r k1 where p: "user_pipe k = (r, k1)" by force
    with e have g: "g r (k1, d) = Some (k', d')" by (simp add: kcall_def)
    note q = pipe_quiet(1) [OF shell_okD(1) [OF ok] p]
    have f: "fd_tables_ok k1"
      using abi_pipe_ok [OF shell_okD(2) [OF ok], of True] p by (auto simp: user_pipe_def split: prod.splits)
    have ok1: "shell_ok k1" "std_of k1 = std_of k" using calm_shell_ok [OF ok quiet_calm [OF q] f] q by (simp_all add: quiet_def)
    show ?thesis
    proof (cases r)
      case None
      then have "app_fds k1 = app_fds k"
        using p by (auto simp: user_pipe_def abi_pipe_def Let_def set_app_error_def split: prod.splits option.splits if_splits)
      then have "app_fd_open x k1 = app_fd_open x k" for x by (rule app_fd_open_cong)
      with effD [OF assms(1) ok1(1) g [unfolded None]] ok1(2) show ?thesis by simp
    next
      case (Some ab)
      obtain a b where ab: "ab = (a, b)" by force
      note r = Some [unfolded ab]
      note b = pipe_quiet(3) [OF shell_okD(1) [OF ok] p r]
      note n = pipe_fresh [OF shell_okD(2) [OF ok] p [unfolded r]]
      note f = effD [OF assms(2) ok1(1) g [unfolded r]]
      have "app_fd_open x k' \<longleftrightarrow> x \<notin> X \<and> app_fd_open x k" for x using f(2) [of x] b n by (cases "x = a \<or> x = b") auto
      with f(1,3) b ok1(2) show ?thesis by simp
    qed
  qed
  then show ?thesis unfolding eff_def by blast
qed

lemma eff_weaken: "eff X R c \<Longrightarrow> S \<subseteq> R \<Longrightarrow> eff X S c"
  unfolding eff_def by blast

text \<open>Redirecting a standard descriptor, for a command that puts it back.\<close>

lemma dup2_ok_effect:
  assumes ok: "shell_ok k" and w: "0 \<le> which" "which \<le> 2" and e: "user_dup2 fd which k = (fine, k')"
  shows "shell_ok k'" "app_fd_open x k' = app_fd_open x k" "j \<noteq> nat which \<Longrightarrow> std_of k' ! j = std_of k ! j"
    "\<not> fine \<Longrightarrow> std_of k' = std_of k" "fd = which \<Longrightarrow> std_of k' ! nat which = which"
proof -
  note d = dup2_calm [OF shell_okD(1) [OF ok] w e]
  show "shell_ok k'" using calm_shell_ok [OF ok d(1)] d(2,3) shell_okD(2) [OF ok] by simp
  show "app_fd_open x k' = app_fd_open x k" by (rule app_fd_open_cong [OF d(2)])
  show "j \<noteq> nat which \<Longrightarrow> std_of k' ! j = std_of k ! j" using d(5) by auto
  show "\<not> fine \<Longrightarrow> std_of k' = std_of k"
    using e w error_quiet [OF shell_okD(1) [OF ok], of ERR_INVAL "- 1" k']
    by (auto simp: user_dup2_def abi_dup2_def STDIN_FD_def STDERR_FD_def quiet_def set_app_error_def split: if_splits)
  show "fd = which \<Longrightarrow> std_of k' ! nat which = which"
    using d(4) w std_length [OF shell_okD(1) [OF ok]] by (simp add: app_fd_open_def STDIN_FD_def STDERR_FD_def)
qed

lemma eff_dup2:
  assumes w: "which = int i" "i < 3" and g: "eff X (insert i R) (g True)" "eff X R (g False)"
  shows "eff X R (kcall (user_dup2 fd which) g)"
proof -
  have "shell_ok k' \<and> (\<forall>x. app_fd_open x k' \<longleftrightarrow> x \<notin> X \<and> app_fd_open x k) \<and> (\<forall>i<3. std_of k' ! i = int i \<or> i \<notin> R \<and> std_of k' ! i = std_of k ! i)"
    if ok: "shell_ok k" and e: "kcall (user_dup2 fd which) g (k, d) = Some (k', d')" for k d k' d'
  proof -
    obtain fine k1 where p: "user_dup2 fd which k = (fine, k1)" by force
    with e have e2: "g fine (k1, d) = Some (k', d')" by (simp add: kcall_def)
    note d = dup2_ok_effect [OF ok _ _ p, unfolded w(1)]
    have ok1: "shell_ok k1" "app_fd_open x k1 = app_fd_open x k" for x using d(1,2) w by simp_all
    show ?thesis
    proof (cases fine)
      case True
      with e2 have "g True (k1, d) = Some (k', d')" by simp
      note f = effD [OF g(1) ok1(1) this]
      have "std_of k' ! j = int j \<or> j \<notin> R \<and> std_of k' ! j = std_of k ! j" if "j < 3" for j
        using f(3) [OF that] d(3) [of j] w by (cases "j = i") auto
      with f(1,2) ok1(2) show ?thesis by simp
    next
      case False
      with e2 have "g False (k1, d) = Some (k', d')" by simp
      from effD [OF g(2) ok1(1) this] False ok1(2) d(4) w show ?thesis by simp
    qed
  qed
  then show ?thesis unfolding eff_def by blast
qed

lemma eff_reset:
  assumes "which = int i" "i < 3"
  shows "eff {} {i} (kdo (user_dup2 which which))"
proof -
  have "shell_ok k' \<and> (\<forall>x. app_fd_open x k' \<longleftrightarrow> app_fd_open x k) \<and> (\<forall>j<3. std_of k' ! j = int j \<or> j \<noteq> i \<and> std_of k' ! j = std_of k ! j)"
    if ok: "shell_ok k" and e: "kdo (user_dup2 which which) (k, d) = Some (k', d')" for k d k' and d' :: 'a
  proof -
    obtain fine where p: "user_dup2 which which k = (fine, k')" using e by (auto simp: kdo_def kcall_def split: prod.splits)
    note d = dup2_ok_effect [OF ok _ _ p, unfolded assms(1)]
    have "std_of k' ! j = int j \<or> j \<noteq> i \<and> std_of k' ! j = std_of k ! j" for j
      using d(3) [of j] d(5) assms by (cases "j = i") auto
    with d(1,2) assms show ?thesis by simp
  qed
  then show ?thesis unfolding eff_def by simp
qed

lemma eff_close:
  assumes "3 \<le> fd"
  shows "eff {fd} {} (kdo (user_close_fd fd))"
proof -
  have "shell_ok k' \<and> (\<forall>x. app_fd_open x k' \<longleftrightarrow> x \<noteq> fd \<and> app_fd_open x k) \<and> std_of k' = std_of k"
    if ok: "shell_ok k" and e: "kdo (user_close_fd fd) (k, d) = Some (k', d')" for k d k' and d' :: 'a
  proof -
    have k': "k' = snd (user_close_fd fd k)" using e by (auto simp: kdo_def kcall_def split: prod.splits)
    have f: "fd_tables_ok k'" using abi_close_ok [OF shell_okD(2) [OF ok], of fd] by (simp add: k' user_close_fd_def split_beta)
    note q = close_quiet [OF shell_okD(1) [OF ok] assms, folded k']
    from calm_shell_ok [OF ok quiet_calm [OF q] f] q close_open [OF shell_okD(2) [OF ok] assms, folded k'] show ?thesis
      by (simp add: quiet_def)
  qed
  then show ?thesis unfolding eff_def by simp
qed

section \<open>The calls\<close>

definition same_open :: "kernel \<Rightarrow> kernel \<Rightarrow> bool" where
  "same_open k k' \<longleftrightarrow> (\<forall>x. app_fd_open x k' = app_fd_open x k)"

lemma same_openI:
  "same_open k k" "same_open k (set_pipe i q k)" "same_open k (k\<lparr>app_console := c\<rparr>)"
  "fd_is_open h \<Longrightarrow> fd_is_open (app_fds k ! j) \<Longrightarrow> same_open k (set_fd j h k)"
  using app_fd_open_cong [of "set_pipe i q k" k] app_fd_open_cong [of "k\<lparr>app_console := c\<rparr>" k]
  by (auto simp: same_open_def app_fd_open_def nth_list_update list_update_beyond split: option.split)
     (metis list_update_beyond not_le nth_list_update)+

lemma fd_write_steady:
  assumes ok: "shell_ok k" and e: "user_fd_write bus now fd data k d = (r, k', d')"
  shows "steady k k'"
proof -
  obtain r0 where e0: "abi_write_fd bus now fd (Some data) k d = (r0, k', d')"
    using e by (auto simp: user_fd_write_def split: prod.splits)
  have "same_open k u" if "write_handle bus now i data k d = (q, u, v)" for i q u v
    using that by (auto simp: write_handle_def Let_def set_fd_set_fd split: if_splits option.splits prod.splits bool.splits intro!: same_openI)
  with e0 have "same_open k k'" by (auto simp: abi_write_fd_def Let_def abi_write_def split: if_splits option.splits intro!: same_openI)
  with quiet_steady [OF ok fd_write_quiet(1) [OF shell_okD(1) [OF ok] e] abi_write_fd_ok [OF shell_okD(2) [OF ok] e0]] show ?thesis
    by (simp add: same_open_def)
qed

lemma fd_read_steady:
  assumes ok: "shell_ok k" and fd: "3 \<le> fd" and e: "user_fd_read bus fd n k d = Some (r, k', d')"
  shows "steady k k'"
proof -
  obtain r0 bs where e0: "abi_read bus fd (Some n) k d = Some (r0, bs, k', d')" using e by (auto simp: user_fd_read_def)
  have "same_open k u" if "read_handle bus i n k d = (q, data, u, v)" for i q data u v
    using that by (auto simp: read_handle_def Let_def split: if_splits prod.splits app_fd_kind.splits bool.splits intro!: same_openI)
  with e0 fd have "same_open k k'"
    by (auto simp: abi_read_def Let_def resolve_high STDIN_FD_def split: option.splits if_splits intro!: same_openI)
  moreover have "quiet k k'" using tame_quiet [OF shell_okD(1) [OF ok] fd_read_tame [OF fd e]] by simp
  ultimately show ?thesis using quiet_steady [OF ok _ abi_read_ok [OF shell_okD(2) [OF ok] e0]] by (simp add: same_open_def)
qed

lemma user_write_steady:
  assumes ok: "shell_ok k" and e: "user_write bus now data k d = (k', d')"
  shows "steady k k'"
proof -
  obtain r k1 where w: "abi_write_fd bus now STDOUT_FD (Some data) k d = (r, k1, d')" "k' = (if r < 0 then abi_write (Some data) k1 else k1)"
    using e by (auto simp: user_write_def split: prod.splits)
  have s: "steady k k1" using fd_write_steady [OF ok, of bus now STDOUT_FD data d] w(1) by (simp add: user_fd_write_def)
  then have "shell_ok k1" by (simp add: steady_def)
  then have "steady k1 (k1\<lparr>app_console := c\<rparr>)" for c
    using tame_quiet [OF shell_okD(1) tameI(4)] by (intro quiet_same_fds) auto
  with s w(2) show ?thesis by (auto simp: abi_write_def intro: steady_trans)
qed

lemma eff_out: "eff {} {} (out sys data)"
  by (rule eff_steady) (auto simp: out_def intro: user_write_steady)

lemma write_each_steady: "shell_ok k \<Longrightarrow> write_each bus now bs k d = (k', d') \<Longrightarrow> steady k k'"
proof (induction bs arbitrary: k d)
  case (Cons b bs)
  obtain k1 d1 where w: "user_write bus now [b] k d = (k1, d1)" by force
  note s = user_write_steady [OF Cons.prems(1) w]
  from Cons.IH [of k1 d1] Cons.prems(2) w s show ?case by (auto simp: steady_def)
qed (auto intro: steady_refl)

lemma eff_num: "eff {} {} (num sys v)"
  by (rule eff_steady) (auto simp: num_def user_print_usize_def split: if_splits intro: user_write_steady write_each_steady)

lemma path_calls_steady:
  assumes ok: "shell_ok k"
  shows "user_unlink bus path k d = (r, k', d') \<Longrightarrow> steady k k'"
    "user_rename bus now path path2 k d = (r, k', d') \<Longrightarrow> steady k k'"
    "user_mkdir bus now path k d = (r, k', d') \<Longrightarrow> steady k k'"
    "user_stat bus path k d = (st, k', d') \<Longrightarrow> steady k k'"
    "user_list bus path index n k d = (entry, k', d') \<Longrightarrow> steady k k'"
proof -
  have err: "steady k (snd (set_app_error e k))" for e using error_steady [OF ok] by (metis prod.collapse)
  have store: "store_header bus h k d = (q, u, v) \<Longrightarrow> steady k u" for h d q u v
    using err clear_steady [OF ok] by (auto simp: store_header_def set_app_error_def split: prod.splits bool.splits)
  show "user_unlink bus path k d = (r, k', d') \<Longrightarrow> steady k k'"
    using err store by (auto simp: user_unlink_def abi_unlink_def Let_def set_app_error_def split: prod.splits option.splits sum.splits)
  show "user_rename bus now path path2 k d = (r, k', d') \<Longrightarrow> steady k k'"
    using err store by (auto simp: user_rename_def abi_rename_def Let_def set_app_error_def split: prod.splits option.splits sum.splits)
  show "user_mkdir bus now path k d = (r, k', d') \<Longrightarrow> steady k k'"
    using err store by (auto simp: user_mkdir_def abi_mkdir_def Let_def set_app_error_def split: prod.splits option.splits if_splits)
  show "user_stat bus path k d = (st, k', d') \<Longrightarrow> steady k k'"
    using err clear_steady [OF ok] by (auto simp: user_stat_def abi_stat_def Let_def set_app_error_def split: prod.splits option.splits if_splits)
  show "user_list bus path index n k d = (entry, k', d') \<Longrightarrow> steady k k'"
    using err clear_steady [OF ok] by (auto simp: user_list_def abi_list_def Let_def set_app_error_def split: prod.splits option.splits if_splits)
qed

lemma env_calls_steady:
  assumes ok: "shell_ok k"
  shows "user_env_get key n k = (v, k') \<Longrightarrow> steady k k'" "user_env_list index n m k = (entry, k') \<Longrightarrow> steady k k'"
    "user_cwd n k = (dir, k') \<Longrightarrow> steady k k'" "user_env_set key val k = (r, k') \<Longrightarrow> steady k k'"
    "user_env_remove key k = (r, k') \<Longrightarrow> steady k k'" "user_chdir bus path k d = Some (r, k', d') \<Longrightarrow> steady k k'"
proof -
  have err: "steady k (snd (set_app_error e k))" for e using error_steady [OF ok] by (metis prod.collapse)
  show "user_env_get key n k = (v, k') \<Longrightarrow> steady k k'"
    using err clear_steady [OF ok]
    by (auto simp: user_env_get_def abi_env_get_def Let_def set_app_error_def split: prod.splits option.splits if_splits)
  show "user_env_list index n m k = (entry, k') \<Longrightarrow> steady k k'"
    using err clear_steady [OF ok]
    by (auto simp: user_env_list_def abi_env_list_def Let_def set_app_error_def split: prod.splits option.splits if_splits)
  show "user_cwd n k = (dir, k') \<Longrightarrow> steady k k'"
    using steady_refl [OF ok] clear_steady [OF ok] by (auto simp: user_cwd_def abi_cwd_def Let_def split: prod.splits if_splits)
  have change: "steady k k'" if "env_change key v k = (r, k')" for v
  proof -
    note s = env_change_spec(1,2) [OF shell_okD(3) [OF ok] that]
    have "app_fd_open x k' = app_fd_open x k" for x using s(2) by (intro app_fd_open_cong) (simp add: env_keeps_def)
    with s ok show ?thesis by (auto simp: steady_def shell_ok_def env_keeps_def)
  qed
  show "user_env_set key val k = (r, k') \<Longrightarrow> steady k k'" using change [of "Some val"] by (simp add: env_change_def)
  show "user_env_remove key k = (r, k') \<Longrightarrow> steady k k'" using change [of None] by (simp add: env_change_def)
  assume e: "user_chdir bus path k d = Some (r, k', d')"
  note c = chdir_spec(1-7) [OF shell_okD(1) [OF ok] e]
  have "vals_ok k'" using c(1,4) shell_okD(3) [OF ok] env_ok_cong [of k k'] by (auto simp: vals_ok_def)
  moreover have "app_fd_open x k' = app_fd_open x k" for x by (rule app_fd_open_cong [OF c(6)])
  ultimately show "steady k k'" using c ok by (simp add: steady_def shell_ok_def)
qed

lemma spawn_steady:
  assumes ok: "shell_ok k" and e: "user_spawn beyond trampoline name args k = Some (r, k')"
  shows "steady k k'"
proof -
  have "spawn_command \<lparr>sys_bus = undefined, sys_now = 0, sys_beyond = beyond, sys_trampoline = trampoline, sys_wait = undefined\<rparr> name args [] k = Some (r, k')"
    using e by (simp add: spawn_command_def)
  from spawn_command_quiet [OF shell_okD(1) [OF ok] shell_okD(4) [OF ok] this] show ?thesis by (intro quiet_same_fds [OF ok])
qed

lemma eff_open:
  assumes f: "\<And>k d r k1 d1. shell_ok k \<Longrightarrow> f k d = (r, k1, d1) \<Longrightarrow> \<exists>path flags r0. abi_open bus now (Some path) flags k d = (r0, k1, d1) \<and> r = (if r0 < 0 then None else Some r0)"
    and g: "eff {} {} (g None)" "\<And>fd. 3 \<le> fd \<Longrightarrow> eff {fd} {} (g (Some fd))"
  shows "eff {} {} (dcall f g)"
proof -
  have "shell_ok k' \<and> (\<forall>x. app_fd_open x k' \<longleftrightarrow> app_fd_open x k) \<and> (\<forall>i<3. std_of k' ! i = int i \<or> std_of k' ! i = std_of k ! i)"
    if ok: "shell_ok k" and e: "dcall f g (k, d) = Some (k', d')" for k d k' d'
  proof -
    obtain r k1 d1 where p: "f k d = (r, k1, d1)" by (metis prod_cases3)
    with e have e2: "g r (k1, d1) = Some (k', d')" by (simp add: dcall_def)
    obtain path flags r0 where o: "abi_open bus now (Some path) flags k d = (r0, k1, d1)" "r = (if r0 < 0 then None else Some r0)"
      using f [OF ok p] by blast
    have f1: "fd_tables_ok k1" by (rule abi_open_ok [OF shell_okD(2) [OF ok] o(1)])
    from open_cases [OF o(1)] consider err where "set_app_error err k = (r0, k1)" | h where "fd_is_open h" "claim_fd h k = (r0, k1)" by blast
    then show ?thesis
    proof cases
      case 1
      then have "r = None" "steady k k1" using o(2) error_steady [OF ok 1] by (simp_all add: set_app_error_def)
      with e2 have "g None (k1, d1) = Some (k', d')" "shell_ok k1" by (simp_all add: steady_def)
      from effD [OF g(1) this(2,1)] \<open>steady k k1\<close> show ?thesis by (simp add: steady_def)
    next
      case (2 h)
      note q = claim_quiet(1) [OF shell_okD(1) [OF ok] 2]
      have ok1: "shell_ok k1" "std_of k1 = std_of k" using calm_shell_ok [OF ok quiet_calm [OF q] f1] q by (simp_all add: quiet_def)
      show ?thesis
      proof (cases "free_fd k")
        case None
        with 2(2) have s: "set_app_error ERR_NOSPC k = (r0, k1)" by (simp add: claim_fd_def)
        then have "r = None" using o(2) by (simp add: set_app_error_def)
        with e2 have "g None (k1, d1) = Some (k', d')" by simp
        from effD [OF g(1) ok1(1) this] error_steady [OF ok s] show ?thesis by (simp add: steady_def)
      next
        case (Some i)
        have i: "i < 32" "\<not> fd_is_open (app_fds k ! i)" using find_upt_SomeD(1,2) [OF Some [unfolded free_fd_def]] by simp_all
        have r0: "r0 = int i + 3" "app_fds k1 = (app_fds k)[i := h]" using 2(2) Some by (auto simp: claim_fd_def)
        with e2 o(2) have "g (Some r0) (k1, d1) = Some (k', d')" by simp
        note f2 = effD [OF g(2) ok1(1) this]
        have "app_fd_open x k' = app_fd_open x k" for x
          using f2(2) [of x] r0 i fds_okD(1) [OF shell_okD(2) [OF ok]]
          by (cases "app_fd_index x") (auto simp: app_fd_open_def app_fd_index_Some nth_list_update fd_index_high STDIN_FD_def STDERR_FD_def)
        with f2(1,3) ok1(2) r0(1) show ?thesis by simp
      qed
    qed
  qed
  then show ?thesis unfolding eff_def by simp
qed

lemma eff_drop: "3 \<le> fd \<Longrightarrow> eff {fd} {} (kdo (\<lambda>k. ((), file_drop fd k)))"
  using eff_close [of fd] by (simp add: eff_def kdo_def kcall_def file_drop_def split_beta)

section \<open>Commands that keep the state steady\<close>

definition still :: "'d cmd \<Rightarrow> bool" where
  "still c \<longleftrightarrow> (\<forall>k d k' d'. shell_ok k \<longrightarrow> c (k, d) = Some (k', d') \<longrightarrow> steady k k')"

lemma stillD: "still c \<Longrightarrow> shell_ok k \<Longrightarrow> c (k, d) = Some (k', d') \<Longrightarrow> steady k k'"
  unfolding still_def by blast

lemma still_eff: "still c \<Longrightarrow> eff {} {} c"
  by (rule eff_steady) (rule stillD)

lemma still_Some: "still Some"
  by (simp add: still_def steady_refl)

lemma still_bind:
  assumes "still c" "still g"
  shows "still (\<lambda>m. Option.bind (c m) g)"
proof -
  have "steady k k'" if ok: "shell_ok k" and e: "Option.bind (c (k, d)) g = Some (k', d')" for k d k' d'
  proof -
    from e obtain k1 d1 where e1: "c (k, d) = Some (k1, d1)" and e2: "g (k1, d1) = Some (k', d')" by (auto simp: bind_eq_Some_conv)
    note s = stillD [OF assms(1) ok e1]
    from s have "shell_ok k1" by (simp add: steady_def)
    from steady_trans [OF s stillD [OF assms(2) this e2]] show ?thesis .
  qed
  then show ?thesis unfolding still_def by blast
qed

lemma still_seq_Nil: "still (seq [])"
  by (simp add: still_def steady_refl)

lemma still_seq: "still c \<Longrightarrow> still (seq cs) \<Longrightarrow> still (seq (c # cs))"
proof -
  have "seq (c # cs) = (\<lambda>m. Option.bind (c m) (seq cs))" by (rule ext) simp
  then show "still c \<Longrightarrow> still (seq cs) \<Longrightarrow> still (seq (c # cs))" by (simp only: still_bind)
qed

lemma still_ocall:
  assumes "\<And>k d x k1 d1. shell_ok k \<Longrightarrow> f k d = Some (x, k1, d1) \<Longrightarrow> steady k k1" "\<And>x. still (g x)"
  shows "still (ocall f g)"
proof -
  have "steady k k'" if ok: "shell_ok k" and e: "ocall f g (k, d) = Some (k', d')" for k d k' d'
  proof -
    from e obtain x k1 d1 where e1: "f k d = Some (x, k1, d1)" and e2: "g x (k1, d1) = Some (k', d')"
      by (auto simp: ocall_def bind_eq_Some_conv)
    note s = assms(1) [OF ok e1]
    from s have "shell_ok k1" by (simp add: steady_def)
    from steady_trans [OF s stillD [OF assms(2) this e2]] show ?thesis .
  qed
  then show ?thesis unfolding still_def by blast
qed

lemma still_kcall: "(\<And>k x k1. shell_ok k \<Longrightarrow> f k = (x, k1) \<Longrightarrow> steady k k1) \<Longrightarrow> (\<And>x. still (g x)) \<Longrightarrow> still (kcall f g)"
  unfolding kcall_ocall by (rule still_ocall) (auto split: prod.splits)

lemma still_dcall: "(\<And>k d x k1 d1. shell_ok k \<Longrightarrow> f k d = (x, k1, d1) \<Longrightarrow> steady k k1) \<Longrightarrow> (\<And>x. still (g x)) \<Longrightarrow> still (dcall f g)"
  unfolding dcall_ocall by (rule still_ocall) auto

lemma still_with_error: "(\<And>e. still (g e)) \<Longrightarrow> still (with_error g)"
  unfolding still_def with_error_def by (metis fst_conv)

lemma still_option: "still a \<Longrightarrow> (\<And>x. still (b x)) \<Longrightarrow> still (case r of None \<Rightarrow> a | Some x \<Rightarrow> b x)"
  by (cases r) simp_all

lemma still_if: "still a \<Longrightarrow> still b \<Longrightarrow> still (if c then a else b)"
  by simp

lemma still_out: "still (out sys data)"
  unfolding still_def by (auto simp: out_def intro: user_write_steady)

lemma still_num: "still (num sys v)"
  unfolding still_def by (auto simp: num_def user_print_usize_def split: if_splits intro: user_write_steady write_each_steady)

lemma still_text: "still (say sys s)" "still (say_line sys s)" "still (newline sys)" "still (print_i32 sys v)"
  by (simp_all add: say_def say_line_def newline_def print_i32_def still_out still_num still_seq still_seq_Nil)

lemmas still_rules = still_text still_out still_num still_seq still_seq_Nil still_Some still_with_error still_option still_if

lemma still_failures: "still (say_errno sys s)" "still (say_path sys s path)" "still (say_captured sys s data)"
    "still (say_started sys s t child)" "still (say_variable sys key val)" "still (rysh_print_process_status sys pid st)"
    "still (rysh_print_stat sys stat)" "still (say_launched sys s t u child)"
  by (auto simp: say_errno_def say_path_def say_captured_def say_started_def say_variable_def rysh_print_process_status_def
      rysh_print_stat_def say_launched_def intro!: still_rules split: sum.splits)

text \<open>A loop that shows one entry after the other.\<close>

lemma env_loop_still: "still (rysh_env_loop sys index)"
proof -
  have "case m of (k, d) \<Rightarrow> \<forall>k' d'. y = (k', d') \<longrightarrow> shell_ok k \<longrightarrow> steady k k'" if "rysh_env_loop sys index m = Some y" for m y
    apply (rule rysh_env_loop.raw_induct [OF _ that, of "\<lambda>sys index m y. case m of (k, d) \<Rightarrow> \<forall>k' d'. y = (k', d') \<longrightarrow> shell_ok k \<longrightarrow> steady k k'"])
    subgoal premises prems for loop sys index m y
    proof -
      obtain k d where m: "m = (k, d)" by force
      obtain entry k1 where e: "user_env_list index 32 96 k = (entry, k1)" by force
      have s: "steady k k1" if "shell_ok k" using env_calls_steady(2) [OF that e] .
      show ?thesis
      proof (cases entry)
        case None
        with prems(2) e s show ?thesis by (auto simp: m)
      next
        case (Some kv)
        then obtain m2 where b: "say_variable sys (fst kv) (snd kv) (k1, d) = Some m2" "loop sys (index + 1) m2 = Some y"
          using prems(2) e by (auto simp: m bind_eq_Some_conv split: prod.splits)
        obtain k2 d2 where m2: "m2 = (k2, d2)" by force
        have s2: "steady k k2" if "shell_ok k"
          using s [OF that] stillD [OF still_failures(5) _ b(1) [unfolded m2]] by (auto simp: steady_def)
        from prems(1) [OF b(2)] s2 show ?thesis by (auto simp: m m2 steady_def)
      qed
    qed
    done
  then show ?thesis unfolding still_def by fastforce
qed

lemma list_loop_still: "still (rysh_list_loop sys namespace index)"
proof -
  have "case m of (k, d) \<Rightarrow> \<forall>k' d'. y = (k', d') \<longrightarrow> shell_ok k \<longrightarrow> steady k k'" if "rysh_list_loop sys namespace index m = Some y" for m y
    apply (rule rysh_list_loop.raw_induct [OF _ that, of "\<lambda>sys namespace index m y. case m of (k, d) \<Rightarrow> \<forall>k' d'. y = (k', d') \<longrightarrow> shell_ok k \<longrightarrow> steady k k'"])
    subgoal premises prems for loop sys namespace index m y
    proof -
      obtain k d where m: "m = (k, d)" by force
      obtain entry k1 d1 where e: "user_list (sys_bus sys) namespace index 64 k d = (entry, k1, d1)" by (metis prod_cases3)
      have s: "steady k k1" if "shell_ok k" using path_calls_steady(5) [OF that e] .
      show ?thesis
      proof (cases entry)
        case None
        with prems(2) e s show ?thesis by (auto simp: m)
      next
        case (Some ns)
        let ?show = "seq [out sys (fst ns), say sys '' '', rysh_print_stat sys (snd ns), newline sys]"
        from Some obtain m2 where b: "?show (k1, d1) = Some m2" "loop sys namespace (index + 1) m2 = Some y"
          using prems(2) e by (auto simp: m bind_eq_Some_conv split: prod.splits)
        obtain k2 d2 where m2: "m2 = (k2, d2)" by force
        have st: "still ?show" by (intro still_rules still_failures)
        have s2: "steady k k2" if "shell_ok k" using s [OF that] stillD [OF st _ b(1) [unfolded m2]] by (auto simp: steady_def)
        from prems(1) [OF b(2)] s2 show ?thesis by (auto simp: m m2 steady_def)
      qed
    qed
    done
  then show ?thesis unfolding still_def by fastforce
qed

text \<open>The loops over an open file.\<close>

lemma count_loop_steady:
  assumes "count_loop bus fd amount k d = Some (r, k', d')" "3 \<le> fd" "shell_ok k"
  shows "steady k k'"
proof -
  have "3 \<le> fd \<longrightarrow> shell_ok k \<longrightarrow> steady k (fst (snd y))" if "count_loop bus fd amount k d = Some y" for y
    apply (rule count_loop.raw_induct [OF _ that, of "\<lambda>bus fd amount k d y. 3 \<le> fd \<longrightarrow> shell_ok k \<longrightarrow> steady k (fst (snd y))"])
    subgoal premises prems for loop bus fd amount k d y
    proof -
      from prems(2) obtain data k1 d1 where r: "user_fd_read bus fd 512 k d = Some (data, k1, d1)" by (auto split: bind_splits)
      have s: "steady k k1" if "3 \<le> fd" "shell_ok k" by (rule fd_read_steady [OF that(2,1) r])
      show ?thesis
      proof (cases "data = None \<or> data = Some []")
        case True
        then have "fst (snd y) = k1" using prems(2) r by auto
        with s show ?thesis by simp
      next
        case False
        then obtain bs where "data = Some bs" "bs \<noteq> []" by (cases data) auto
        then have "loop bus fd (amount + length bs) k1 d1 = Some y" using prems(2) r by simp
        from prems(1) [OF this] s show ?thesis by (auto simp: steady_def)
      qed
    qed
    done
  with assms show ?thesis by fastforce
qed

lemma cat_loop_steady:
  assumes "cat_loop sys fd wrote (k, d) = Some (r, k', d')" "3 \<le> fd" "shell_ok k"
  shows "steady k k'"
proof -
  have "3 \<le> fd \<longrightarrow> shell_ok (fst m) \<longrightarrow> steady (fst m) (fst (snd y))" if "cat_loop sys fd wrote m = Some y" for m y
    apply (rule cat_loop.raw_induct [OF _ that, of "\<lambda>sys fd wrote m y. 3 \<le> fd \<longrightarrow> shell_ok (fst m) \<longrightarrow> steady (fst m) (fst (snd y))"])
    subgoal premises prems for loop sys fd wrote m y
    proof -
      from prems(2) obtain data k1 d1 where r: "user_fd_read (sys_bus sys) fd 512 (fst m) (snd m) = Some (data, k1, d1)"
        by (auto split: bind_splits)
      have s: "steady (fst m) k1" if "3 \<le> fd" "shell_ok (fst m)" by (rule fd_read_steady [OF that(2,1) r])
      show ?thesis
      proof (cases "data = None \<or> data = Some []")
        case True
        then have "fst (snd y) = k1" using prems(2) r by auto
        with s show ?thesis by simp
      next
        case False
        then obtain bs where "data = Some bs" "bs \<noteq> []" by (cases data) auto
        then obtain k2 d2 where b: "out sys bs (k1, d1) = Some (k2, d2)" "loop sys fd True (k2, d2) = Some y"
          using prems(2) r by (auto simp: bind_eq_Some_conv)
        have "steady k1 k2" if "shell_ok k1" by (rule stillD [OF still_out that b(1)])
        with prems(1) [OF b(2)] s show ?thesis by (auto simp: steady_def)
      qed
    qed
    done
  from this [OF assms(1)] assms(2,3) show ?thesis by simp
qed

lemma fill_loop_steady: "fill_loop sys fd amount written k d = (r, k', d') \<Longrightarrow> shell_ok k \<Longrightarrow> steady k k'"
proof (induction sys fd amount written k d arbitrary: r k' d' rule: fill_loop.induct)
  case (1 sys fd amount written k d)
  show ?case
  proof (cases "written < amount")
    case False
    with 1 show ?thesis by (simp add: fill_loop.simps steady_refl)
  next
    case True
    let ?n = "min 256 (amount - written)"
    obtain w k1 d1 where w: "user_fd_write (sys_bus sys) (sys_now sys) fd (fill_chunk written ?n) k d = (w, k1, d1)" by (metis prod_cases3)
    note s = fd_write_steady [OF "1.prems"(2) w]
    show ?thesis
    proof (cases "w = Some ?n")
      case False
      then have "k' = k1" using "1.prems"(1) True w by (subst (asm) fill_loop.simps) (auto simp: Let_def split: option.splits if_splits)
      with s show ?thesis by simp
    next
      case wn: True
      have "fill_loop sys fd amount (written + ?n) k1 d1 = (r, k', d')"
        using "1.prems"(1) True w wn by (subst (asm) fill_loop.simps) (simp add: Let_def)
      moreover have "shell_ok k1" using s by (simp add: steady_def)
      ultimately have "steady k1 k'" using "1.IH" [OF True refl _ _ _ _ _ _] w wn by (metis prod.collapse)
      with s show ?thesis by (rule steady_trans)
    qed
  qed
qed

section \<open>Every command\<close>

text \<open>
  What the rest of the system may do while the shell waits for a child: the shell's own slot and the set of open
  descriptors are as before when the wait returns.
\<close>

definition shell_waits :: "'d shell_sys \<Rightarrow> bool" where
  "shell_waits sys \<longleftrightarrow> (\<forall>k d. shell_ok k \<longrightarrow>
     (\<forall>pid st k' d'. sys_wait sys pid k d = Some (st, k', d') \<longrightarrow> steady k k') \<and>
     (\<forall>r k' d'. sh_wait_any sys k d = Some (r, k', d') \<longrightarrow> steady k k'))"

lemma shell_waitsD:
  "shell_waits sys \<Longrightarrow> shell_ok k \<Longrightarrow> sys_wait sys pid k d = Some (st, k', d') \<Longrightarrow> steady k k'"
  "shell_waits sys \<Longrightarrow> shell_ok k \<Longrightarrow> sh_wait_any sys k d = Some (r, k', d') \<Longrightarrow> steady k k'"
  unfolding shell_waits_def by blast+

lemma still_spawn: "(\<And>x. still (g x)) \<Longrightarrow> still (sh_spawn sys name args g)"
  unfolding sh_spawn_def by (rule still_ocall) (auto intro: spawn_steady)

lemma eff_spawn: "(\<And>x. eff X R (g x)) \<Longrightarrow> eff X R (sh_spawn sys name args g)"
  unfolding sh_spawn_def by (rule eff_after) (auto intro: spawn_steady)

lemma still_wait: "shell_waits sys \<Longrightarrow> still (wait_if_started sys child)"
  by (auto simp: wait_if_started_def still_Some split: sum.split intro!: still_ocall dest: shell_waitsD(1))

text \<open>The commands that open no descriptor and redirect nothing.\<close>

lemma still_commands:
  assumes w: "shell_waits sys"
  shows "still (rysh_pwd sys)" "still (rysh_chdir sys path)" "still (rysh_errno sys)" "still (rysh_unlink sys path)"
    "still (rysh_rename sys path path2)" "still (rysh_time_ticks sys)" "still (rysh_stdio sys)" "still (rysh_spawn sys name args)"
    "still (rysh_daemon sys name args)" "still (rysh_sleep_ms sys number)" "still (rysh_wait_process sys number)" "still (rysh_env sys)"
    "still (rysh_getenv sys key)" "still (rysh_setenv sys key val)" "still (rysh_unsetenv sys key)" "still (rysh_mkdir sys path)"
    "still (rysh_stat_path sys path)" "still (rysh_list_dir sys path)"
proof -
  show "still (rysh_pwd sys)" unfolding rysh_pwd_def by (intro still_kcall still_rules) (rule env_calls_steady(3))
  show "still (rysh_chdir sys path)" unfolding rysh_chdir_def
    by (intro still_ocall still_rules still_failures) (rule env_calls_steady(6))
  show "still (rysh_errno sys)" unfolding rysh_errno_def by (rule still_failures)
  show "still (rysh_unlink sys path)" unfolding rysh_unlink_def
    by (intro still_dcall still_rules still_failures) (rule path_calls_steady(1))
  show "still (rysh_rename sys path path2)" unfolding rysh_rename_def
    by (intro still_dcall still_rules still_failures) (rule path_calls_steady(2))
  show "still (rysh_time_ticks sys)" unfolding rysh_time_ticks_def
    by (intro still_dcall still_rules) (auto split: prod.splits intro: steady_refl)
  show "still (rysh_stdio sys)" unfolding rysh_stdio_def by (intro still_dcall still_rules) (rule fd_write_steady, assumption+)+
  show "still (rysh_spawn sys name args)" "still (rysh_daemon sys name args)"
    unfolding rysh_spawn_def rysh_daemon_def by (intro still_spawn still_failures)+
  show "still (rysh_sleep_ms sys number)" unfolding rysh_sleep_ms_def
    by (intro still_rules) (auto simp: still_def intro: steady_refl)
  show "still (rysh_wait_process sys number)" unfolding rysh_wait_process_def
    by (intro still_ocall still_rules still_failures) (auto simp: case_prod_beta intro: still_failures shell_waitsD [OF w])
  show "still (rysh_env sys)" unfolding rysh_env_def by (rule env_loop_still)
  show "still (rysh_getenv sys key)" unfolding rysh_getenv_def
    by (intro still_kcall still_rules still_failures) (rule env_calls_steady(1))
  show "still (rysh_setenv sys key val)" unfolding rysh_setenv_def
    by (intro still_kcall still_rules still_failures) (rule env_calls_steady(4))
  show "still (rysh_unsetenv sys key)" unfolding rysh_unsetenv_def
    by (intro still_kcall still_rules still_failures) (rule env_calls_steady(5))
  show "still (rysh_mkdir sys path)" unfolding rysh_mkdir_def
    by (intro still_dcall still_rules still_failures) (rule path_calls_steady(3))
  show "still (rysh_stat_path sys path)" unfolding rysh_stat_path_def
    by (intro still_dcall still_rules still_failures) (rule path_calls_steady(4))
  show "still (rysh_list_dir sys path)" unfolding rysh_list_dir_def by (rule list_loop_still)
qed

text \<open>Several commands in a row, with the effects of each.\<close>

lemma eff_seqs:
  assumes "list_all2 (\<lambda>(X, R) c. eff X R c) es cs" "X = (\<Union>e\<in>set es. fst e)" "R \<subseteq> (\<Union>e\<in>set es. snd e)"
  shows "eff X R (seq cs)"
proof -
  have "eff (\<Union>e\<in>set es. fst e) (\<Union>e\<in>set es. snd e) (seq cs)" using assms(1)
  proof (induction rule: list_all2_induct)
    case (Cons e es c cs)
    then show ?case using eff_seq [of "fst e" "snd e" c "\<Union>e\<in>set es. fst e" "\<Union>e\<in>set es. snd e" cs] by (simp add: case_prod_beta del: seq.simps)
  qed (simp add: eff_seq_Nil del: seq.simps)
  then show ?thesis unfolding assms(2) by (rule eff_weaken) (rule assms(3))
qed

lemma eff_close2: "3 \<le> a \<Longrightarrow> 3 \<le> b \<Longrightarrow> eff {a, b} {} (close2 a b)"
  unfolding close2_def by (rule eff_seqs [where es = "[({a}, {}), ({b}, {})]"]) (auto intro: eff_close)

lemma eff_reset_stdio: "eff {} {0, 1, 2} rysh_reset_stdio"
  unfolding rysh_reset_stdio_def
  by (rule eff_seqs [where es = "[({}, {0}), ({}, {1}), ({}, {2})]"]) (auto simp: STDIN_FD_def STDOUT_FD_def STDERR_FD_def intro!: eff_reset)

lemma eff_close4:
  "3 \<le> a \<Longrightarrow> 3 \<le> b \<Longrightarrow> 3 \<le> c \<Longrightarrow> 3 \<le> e \<Longrightarrow> eff {a, b, c, e} {} (rysh_close4 a b c e)"
  "3 \<le> a \<Longrightarrow> 3 \<le> b \<Longrightarrow> eff {a, b} {} (rysh_close4 a b (- 1) (- 1))"
proof -
  show "3 \<le> a \<Longrightarrow> 3 \<le> b \<Longrightarrow> 3 \<le> c \<Longrightarrow> 3 \<le> e \<Longrightarrow> eff {a, b, c, e} {} (rysh_close4 a b c e)"
    unfolding rysh_close4_def by (rule eff_seqs [where es = "[({a}, {}), ({b}, {}), ({c}, {}), ({e}, {})]"]) (auto intro: eff_close)
  show "3 \<le> a \<Longrightarrow> 3 \<le> b \<Longrightarrow> eff {a, b} {} (rysh_close4 a b (- 1) (- 1))"
    unfolding rysh_close4_def by (rule eff_seqs [where es = "[({a}, {}), ({b}, {}), ({}, {}), ({}, {})]"]) (auto intro: eff_close eff_Some)
qed

lemma still_read: "3 \<le> fd \<Longrightarrow> (\<And>x. still (g x)) \<Longrightarrow> still (ocall (user_fd_read bus fd n) g)"
  by (rule still_ocall) (rule fd_read_steady)

lemma still_write: "still (dcall (user_fd_write bus now fd data) (\<lambda>_. Some))"
  by (rule still_dcall) (rule fd_write_steady, assumption+, rule still_Some)

lemmas eff_still = still_eff still_write still_read still_rules still_failures

text \<open>The two shapes in which the commands use a pipe and a redirection.\<close>

lemma eff_with_pipe:
  assumes "eff X {} failed" "\<And>a b. 3 \<le> a \<Longrightarrow> 3 \<le> b \<Longrightarrow> eff (insert a (insert b X)) {} (body a b)"
  shows "eff X {} (kcall user_pipe (\<lambda>p. case p of None \<Rightarrow> failed | Some (a, b) \<Rightarrow> body a b))"
proof (rule eff_pipe)
  fix a b :: int
  assume ab: "3 \<le> a" "3 \<le> b"
  have "X \<union> {a, b} = insert a (insert b X)" by auto
  with assms(2) [OF ab] show "eff (X \<union> {a, b}) {} (case Some (a, b) of None \<Rightarrow> failed | Some (a, b) \<Rightarrow> body a b)" by simp
qed (simp add: assms(1))

lemma eff_redirected:
  assumes "which = int i" "i < 3" "eff X {} failed" "eff X {i} body"
  shows "eff X {} (kcall (user_dup2 fd which) (\<lambda>ok. if \<not> ok then failed else body))"
  by (rule eff_dup2 [OF assms(1,2)]) (use assms(3,4) in simp_all)

lemma eff_pipe_demo: "eff {} {} (rysh_pipe_demo sys message)"
  unfolding rysh_pipe_demo_def Let_def
proof (rule eff_with_pipe)
  fix a b :: int
  assume "3 \<le> a" "3 \<le> b"
  then show "eff {a, b} {} (seq [dcall (user_fd_write (sys_bus sys) (sys_now sys) b (if message = [] then lit ''pipe-ok'' else message)) (\<lambda>_. Some),
      ocall (user_fd_read (sys_bus sys) a 128) (\<lambda>r. case r of None \<Rightarrow> say_line sys ''rysh: pipe read failed''
        | Some data \<Rightarrow> seq [say sys ''pipe '', out sys data, newline sys]), close2 a b])"
    by (intro eff_seqs [where es = "[({}, {}), ({}, {}), ({a, b}, {})]"]) (auto intro!: eff_still eff_close2 simp del: seq.simps)
qed (intro eff_still)

lemma eff_failed_close2: "3 \<le> a \<Longrightarrow> 3 \<le> b \<Longrightarrow> still c \<Longrightarrow> eff {a, b} {} (seq [c, close2 a b])"
  by (rule eff_seqs [where es = "[({}, {}), ({a, b}, {})]"]) (auto intro: still_eff eff_close2 simp del: seq.simps)

lemma eff_redir_demo: "eff {} {} (rysh_redir_demo sys message)"
  unfolding rysh_redir_demo_def Let_def
proof (intro eff_with_pipe eff_redirected [where i = 1])
  fix a b :: int
  assume ab: "3 \<le> a" "3 \<le> b"
  show "eff {a, b} {} (seq [say_errno sys ''rysh: dup2 failed errno '', close2 a b])"
    by (rule eff_failed_close2 [OF ab still_failures(1)])
  show "eff {a, b} {1} (seq [dcall (user_fd_write (sys_bus sys) (sys_now sys) STDOUT_FD (if message = [] then lit ''redirect-ok'' else message)) (\<lambda>_. Some),
      kdo (user_dup2 STDOUT_FD STDOUT_FD),
      ocall (user_fd_read (sys_bus sys) a 128) (\<lambda>r. case r of None \<Rightarrow> say_line sys ''rysh: redir read failed''
        | Some data \<Rightarrow> seq [say sys ''redir '', out sys data, newline sys]), close2 a b])"
    using ab by (intro eff_seqs [where es = "[({}, {}), ({}, {1}), ({}, {}), ({a, b}, {})]"])
      (auto intro!: eff_still eff_close2 eff_reset simp: STDOUT_FD_def simp del: seq.simps)
qed (auto simp: STDOUT_FD_def intro!: eff_still simp del: seq.simps)

lemma eff_spawn_redir:
  assumes w: "shell_waits sys"
  shows "eff {} {} (rysh_spawn_redir sys rest)"
proof -
  obtain name args where sw: "split_word rest = (name, args)" by force
  show ?thesis
    unfolding rysh_spawn_redir_def sw prod.case Let_def
  proof (intro eff_with_pipe eff_redirected [where i = 1] eff_spawn)
    fix a b :: int and child
    assume ab: "3 \<le> a" "3 \<le> b"
    show "eff {a, b} {} (seq [say_errno sys ''rysh: spawnredir dup2 failed errno '', close2 a b])"
      by (rule eff_failed_close2 [OF ab still_failures(1)])
    show "eff {a, b} {1} (seq [wait_if_started sys child, kdo (user_dup2 STDOUT_FD STDOUT_FD),
        say_started sys ''spawnredir pid '' ''rysh: spawnredir failed '' child,
        ocall (user_fd_read (sys_bus sys) a 512) (\<lambda>r. case r of None \<Rightarrow> say_line sys ''rysh: spawnredir read failed''
          | Some data \<Rightarrow> say_captured sys ''spawnredir captured '' data), close2 a b])"
      using ab still_wait [OF w] by (intro eff_seqs [where es = "[({}, {}), ({}, {1}), ({}, {}), ({}, {}), ({a, b}, {})]"])
        (auto intro!: eff_still eff_close2 eff_reset simp: STDOUT_FD_def simp del: seq.simps)
  qed (auto simp: STDOUT_FD_def intro!: eff_still simp del: seq.simps)
qed

lemma eff_spawn_stdin:
  assumes w: "shell_waits sys"
  shows "eff {} {} (rysh_spawn_stdin sys rest)"
proof -
  obtain name payload where sw: "split_word rest = (name, payload)" by force
  show ?thesis
    unfolding rysh_spawn_stdin_def sw prod.case Let_def
  proof (intro eff_with_pipe)
    fix a b :: int
    assume ab: "3 \<le> a" "3 \<le> b"
    let ?rest = "kcall (user_dup2 a STDIN_FD) (\<lambda>ok. if \<not> ok then seq [say_errno sys ''rysh: spawnstdin dup2 failed errno '', close2 a b]
      else sh_spawn sys (if name = [] then lit ''echoin'' else name) [] (\<lambda>child.
        seq [wait_if_started sys child, kdo (user_dup2 STDIN_FD STDIN_FD),
          say_started sys ''spawnstdin pid '' ''rysh: spawnstdin failed '' child, close2 a b]))"
    have "eff {a, b} {} ?rest"
    proof (intro eff_redirected [where i = 0] eff_spawn)
      fix child
      show "eff {a, b} {0} (seq [wait_if_started sys child, kdo (user_dup2 STDIN_FD STDIN_FD),
          say_started sys ''spawnstdin pid '' ''rysh: spawnstdin failed '' child, close2 a b])"
        using ab still_wait [OF w] by (intro eff_seqs [where es = "[({}, {}), ({}, {0}), ({}, {}), ({a, b}, {})]"])
          (auto intro!: eff_still eff_close2 eff_reset simp: STDIN_FD_def simp del: seq.simps)
    qed (use ab in \<open>auto simp: STDIN_FD_def intro!: eff_failed_close2 still_failures simp del: seq.simps\<close>)
    then show "eff {a, b} {} (seq [dcall (user_fd_write (sys_bus sys) (sys_now sys) b (if payload = [] then lit ''hello-on-stdin'' else payload)) (\<lambda>_. Some), ?rest])"
      by (intro eff_seqs [where es = "[({}, {}), ({a, b}, {})]"]) (auto intro!: eff_still simp del: seq.simps)
  qed (intro eff_still)
qed

text \<open>Several redirections at once, for a command that puts all of them back whether they worked or not.\<close>

definition redirects :: "nat set \<Rightarrow> (kernel \<Rightarrow> bool \<times> kernel) \<Rightarrow> bool" where
  "redirects R f \<longleftrightarrow> (\<forall>k ok k'. shell_ok k \<longrightarrow> f k = (ok, k') \<longrightarrow>
     shell_ok k' \<and> (\<forall>x. app_fd_open x k' = app_fd_open x k) \<and> (\<forall>j. j \<notin> R \<longrightarrow> std_of k' ! j = std_of k ! j))"

lemma redirects_dup2: "which = int i \<Longrightarrow> i < 3 \<Longrightarrow> redirects {i} (user_dup2 fd which)"
  unfolding redirects_def using dup2_ok_effect(1-3) [where which = which] by fastforce

lemma redirects_both:
  assumes "redirects R f" "redirects S g"
  shows "redirects (R \<union> S) (\<lambda>k. case f k of (False, k) \<Rightarrow> (False, k) | (True, k) \<Rightarrow> g k)"
proof -
  have "shell_ok k' \<and> (\<forall>x. app_fd_open x k' = app_fd_open x k) \<and> (\<forall>j. j \<notin> R \<union> S \<longrightarrow> std_of k' ! j = std_of k ! j)"
    if ok: "shell_ok k" and e: "(case f k of (False, k) \<Rightarrow> (False, k) | (True, k) \<Rightarrow> g k) = (r, k')" for k r k'
  proof -
    obtain r1 k1 where f: "f k = (r1, k1)" by force
    have s: "shell_ok k1 \<and> (\<forall>x. app_fd_open x k1 = app_fd_open x k) \<and> (\<forall>j. j \<notin> R \<longrightarrow> std_of k1 ! j = std_of k ! j)"
      using assms(1) ok f unfolding redirects_def by blast
    show ?thesis
    proof (cases r1)
      case True
      with e f have "g k1 = (r, k')" by simp
      then have "shell_ok k' \<and> (\<forall>x. app_fd_open x k' = app_fd_open x k1) \<and> (\<forall>j. j \<notin> S \<longrightarrow> std_of k' ! j = std_of k1 ! j)"
        using assms(2) s unfolding redirects_def by blast
      with s show ?thesis by simp
    next
      case False
      with e f s show ?thesis by simp
    qed
  qed
  then show ?thesis unfolding redirects_def by blast
qed

lemma redirects_two: "redirects {0, 1} (redirect_two a b)"
proof -
  have "redirects ({0} \<union> {1}) (redirect_two a b)"
    unfolding redirect_two_def [abs_def] by (intro redirects_both redirects_dup2) (simp_all add: STDIN_FD_def STDOUT_FD_def)
  then show ?thesis by (simp add: insert_commute)
qed

lemma redirects_three: "redirects {0, 1, 2} (redirect a b c)"
proof -
  have "redirects ({0} \<union> ({1} \<union> {2})) (redirect a b c)"
    unfolding redirect_def [abs_def]
    by (intro redirects_both redirects_dup2) (simp_all add: STDIN_FD_def STDOUT_FD_def STDERR_FD_def)
  moreover have "{0} \<union> ({1} \<union> {2}) = {0, 1, 2 :: nat}" by auto
  ultimately show ?thesis by metis
qed

lemma eff_redirects:
  assumes "redirects R f" "\<And>ok. eff X R (g ok)"
  shows "eff X {} (kcall f g)"
proof -
  have "shell_ok k' \<and> (\<forall>x. app_fd_open x k' \<longleftrightarrow> x \<notin> X \<and> app_fd_open x k) \<and> (\<forall>i<3. std_of k' ! i = int i \<or> std_of k' ! i = std_of k ! i)"
    if ok: "shell_ok k" and e: "kcall f g (k, d) = Some (k', d')" for k d k' d'
  proof -
    obtain r k1 where f: "f k = (r, k1)" by force
    with e have e2: "g r (k1, d) = Some (k', d')" by (simp add: kcall_def)
    have s: "shell_ok k1" "app_fd_open x k1 = app_fd_open x k" "j \<notin> R \<Longrightarrow> std_of k1 ! j = std_of k ! j" for x j
      using assms(1) ok f unfolding redirects_def by blast+
    note g = effD [OF assms(2) s(1) e2]
    have "std_of k' ! i = int i \<or> std_of k' ! i = std_of k ! i" if "i < 3" for i using g(3) [OF that] s(3) [of i] by auto
    with g(1,2) s(2) show ?thesis by simp
  qed
  then show ?thesis unfolding eff_def by simp
qed

lemma eff_spawn_io:
  assumes w: "shell_waits sys"
  shows "eff {} {} (rysh_spawn_io sys rest)"
proof -
  obtain name payload where sw: "split_word rest = (name, payload)" by force
  show ?thesis
    unfolding rysh_spawn_io_def sw prod.case Let_def
  proof (intro eff_with_pipe)
    fix a b c e :: int
    assume ab: "3 \<le> a" "3 \<le> b"
    show "eff {a, b} {} (seq [say_errno sys ''rysh: spawnio stdout pipe failed errno '', close2 a b])"
      by (rule eff_failed_close2 [OF ab still_failures(1)])
    assume ce: "3 \<le> c" "3 \<le> e"
    let ?all = "seq [close2 a b, close2 c e] :: 'a cmd"
    have all: "eff {c, e, a, b} {} ?all"
      using ab ce by (intro eff_seqs [where es = "[({a, b}, {}), ({c, e}, {})]"]) (auto intro: eff_close2 simp del: seq.simps)
    let ?started = "sh_spawn sys (if name = [] then lit ''echoin'' else name) [] (\<lambda>child.
      seq [wait_if_started sys child, kdo (user_dup2 STDIN_FD STDIN_FD), kdo (user_dup2 STDOUT_FD STDOUT_FD),
        say_started sys ''spawnio pid '' ''rysh: spawnio failed '' child,
        ocall (user_fd_read (sys_bus sys) c 256) (\<lambda>r. case r of None \<Rightarrow> say_line sys ''rysh: spawnio read failed''
          | Some data \<Rightarrow> say_captured sys ''spawnio captured '' data), ?all])"
    have "eff {c, e, a, b} {0, 1} ?started"
      using ce still_wait [OF w] all
      by (intro eff_spawn eff_seqs [where es = "[({}, {}), ({}, {0}), ({}, {1}), ({}, {}), ({}, {}), ({c, e, a, b}, {})]"])
        (auto intro!: eff_still eff_reset simp: STDIN_FD_def STDOUT_FD_def simp del: seq.simps)
    moreover have "eff {c, e, a, b} {0, 1} (seq [say_errno sys ''rysh: spawnio dup2 failed errno '',
        kdo (user_dup2 STDIN_FD STDIN_FD), kdo (user_dup2 STDOUT_FD STDOUT_FD), ?all])"
      using all by (intro eff_seqs [where es = "[({}, {}), ({}, {0}), ({}, {1}), ({c, e, a, b}, {})]"])
        (auto intro!: eff_still eff_reset simp: STDIN_FD_def STDOUT_FD_def simp del: seq.simps)
    ultimately have "eff {c, e, a, b} {} (kcall (redirect_two a e) (\<lambda>ok. if \<not> ok then
        seq [say_errno sys ''rysh: spawnio dup2 failed errno '', kdo (user_dup2 STDIN_FD STDIN_FD), kdo (user_dup2 STDOUT_FD STDOUT_FD), ?all]
        else ?started))"
      by (intro eff_redirects [OF redirects_two]) (simp del: seq.simps)
    then show "eff {c, e, a, b} {} (seq [dcall (user_fd_write (sys_bus sys) (sys_now sys) b (if payload = [] then lit ''hello-spawnio'' else payload)) (\<lambda>_. Some),
        kcall (redirect_two a e) (\<lambda>ok. if \<not> ok then
          seq [say_errno sys ''rysh: spawnio dup2 failed errno '', kdo (user_dup2 STDIN_FD STDIN_FD), kdo (user_dup2 STDOUT_FD STDOUT_FD), ?all]
          else ?started)])"
      by (intro eff_seqs [where es = "[({}, {}), ({c, e, a, b}, {})]"]) (auto intro!: eff_still simp del: seq.simps)
  qed (intro eff_still)
qed

lemma eff_spawn_io_err:
  assumes w: "shell_waits sys"
  shows "eff {} {} (rysh_spawn_io_err sys rest)"
proof -
  obtain name payload where sw: "split_word rest = (name, payload)" by force
  show ?thesis
    unfolding rysh_spawn_io_err_def sw prod.case Let_def
  proof (intro eff_with_pipe)
    fix a b c e f g :: int
    assume ab: "3 \<le> a" "3 \<le> b"
    show "eff {a, b} {} (seq [say_errno sys ''rysh: spawnioe stdout pipe failed errno '', rysh_close4 a b (- 1) (- 1)])"
      using ab by (intro eff_seqs [where es = "[({}, {}), ({a, b}, {})]"]) (auto intro!: eff_still eff_close4 simp del: seq.simps)
    assume ce: "3 \<le> c" "3 \<le> e"
    show "eff {c, e, a, b} {} (seq [say_errno sys ''rysh: spawnioe stderr pipe failed errno '', rysh_close4 a b c e])"
      using ab ce by (intro eff_seqs [where es = "[({}, {}), ({a, b, c, e}, {})]"]) (auto intro!: eff_still eff_close4 simp del: seq.simps)
    assume fg: "3 \<le> f" "3 \<le> g"
    let ?X = "{f, g, c, e, a, b}"
    let ?all = "seq [rysh_close4 a b c e, rysh_close4 f g (- 1) (- 1)] :: 'a cmd"
    have all: "eff ?X {} ?all"
      using ab ce fg by (intro eff_seqs [where es = "[({a, b, c, e}, {}), ({f, g}, {})]"]) (auto intro: eff_close4 simp del: seq.simps)
    let ?started = "sh_spawn sys (if name = [] then lit ''echoin'' else name) [] (\<lambda>child.
      seq [wait_if_started sys child, rysh_reset_stdio, say_started sys ''spawnioe pid '' ''rysh: spawnioe failed '' child,
        ocall (user_fd_read (sys_bus sys) c 256) (\<lambda>o_data. ocall (user_fd_read (sys_bus sys) f 128) (\<lambda>e_data.
          seq [say_captured sys ''spawnioe stdout '' (case o_data of None \<Rightarrow> [] | Some data \<Rightarrow> data),
               say_captured sys ''spawnioe stderr '' (case e_data of None \<Rightarrow> [] | Some data \<Rightarrow> data)])), ?all])"
    let ?failed = "seq [say_errno sys ''rysh: spawnioe dup2 failed errno '', rysh_reset_stdio, ?all]"
    have "eff ?X {0, 1, 2} ?started"
      using ce fg still_wait [OF w] all
      by (intro eff_spawn eff_seqs [where es = "[({}, {}), ({}, {0, 1, 2}), ({}, {}), ({}, {}), (?X, {})]"])
        (auto intro!: eff_still eff_reset_stdio [simplified] simp del: seq.simps)
    moreover have "eff ?X {0, 1, 2} ?failed"
      using all by (intro eff_seqs [where es = "[({}, {}), ({}, {0, 1, 2}), (?X, {})]"])
        (auto intro!: eff_still eff_reset_stdio [simplified] simp del: seq.simps)
    ultimately have "eff ?X {} (kcall (redirect a e g) (\<lambda>ok. if \<not> ok then ?failed else ?started))"
      by (intro eff_redirects [OF redirects_three]) (simp del: seq.simps)
    then show "eff ?X {} (seq [dcall (user_fd_write (sys_bus sys) (sys_now sys) b (if payload = [] then lit ''hello-spawnioe'' else payload)) (\<lambda>_. Some),
        kcall (redirect a e g) (\<lambda>ok. if \<not> ok then ?failed else ?started)])"
      by (intro eff_seqs [where es = "[({}, {}), (?X, {})]"]) (auto intro!: eff_still simp del: seq.simps)
  qed (intro eff_still)
qed

text \<open>The commands on files.\<close>

lemma opens_file:
  "file_open bus now path k d = (r, k1, d1) \<Longrightarrow> \<exists>path flags r0. abi_open bus now (Some path) flags k d = (r0, k1, d1) \<and> r = (if r0 < 0 then None else Some r0)"
  "file_create bus now path k d = (r, k1, d1) \<Longrightarrow> \<exists>path flags r0. abi_open bus now (Some path) flags k d = (r0, k1, d1) \<and> r = (if r0 < 0 then None else Some r0)"
proof -
  have mode: "\<exists>path flags r0. abi_open bus now (Some path) flags k d = (r0, k1, d1) \<and> r = (if r0 < 0 then None else Some r0)"
    if e: "file_open_mode bus now path flags k d = (r, k1, d1)" for flags
  proof -
    obtain r0 k2 d2 where o: "abi_open bus now (Some path) flags k d = (r0, k2, d2)" by (metis prod_cases3)
    with e have "r = (if r0 < 0 then None else Some r0)" "k2 = k1" "d2 = d1" by (simp_all add: file_open_mode_def)
    with o show ?thesis by blast
  qed
  show "file_open bus now path k d = (r, k1, d1) \<Longrightarrow> \<exists>path flags r0. abi_open bus now (Some path) flags k d = (r0, k1, d1) \<and> r = (if r0 < 0 then None else Some r0)"
    "file_create bus now path k d = (r, k1, d1) \<Longrightarrow> \<exists>path flags r0. abi_open bus now (Some path) flags k d = (r0, k1, d1) \<and> r = (if r0 < 0 then None else Some r0)"
    using mode unfolding file_open_def file_create_def by blast+
qed

lemma eff_dropped: "3 \<le> fd \<Longrightarrow> still c \<Longrightarrow> eff {fd} {} (seq [c, kdo (\<lambda>k. ((), file_drop fd k))])"
  by (rule eff_seqs [where es = "[({}, {}), ({fd}, {})]"]) (auto intro: still_eff eff_drop simp del: seq.simps)

lemma eff_files: "eff {} {} (rysh_fill_file sys path count)" "eff {} {} (rysh_count_file sys path)"
    "eff {} {} (rysh_write_file sys path data)" "eff {} {} (rysh_cat sys path)"
proof -
  show "eff {} {} (rysh_count_file sys path)" unfolding rysh_count_file_def
    by (rule eff_open, erule opens_file(1))
      (auto intro!: eff_still eff_after eff_dropped intro: count_loop_steady simp del: seq.simps)
  show "eff {} {} (rysh_write_file sys path data)" unfolding rysh_write_file_def
    by (rule eff_open, erule opens_file(2))
      (auto intro!: eff_still eff_dcall eff_dropped intro: fd_write_steady simp del: seq.simps)
  show "eff {} {} (rysh_cat sys path)" unfolding rysh_cat_def
    by (rule eff_open, erule opens_file(1))
      (auto intro!: eff_still eff_after eff_dropped intro: cat_loop_steady simp: case_prod_beta simp del: seq.simps)
  have "eff {} {} (dcall (file_create (sys_bus sys) (sys_now sys) path) (\<lambda>f. case f of
      None \<Rightarrow> say_path sys ''rysh: open failed: '' path
    | Some fd \<Rightarrow> dcall (fill_loop sys fd amount 0) (\<lambda>r.
        seq [case r of FillFailed \<Rightarrow> say_path sys ''rysh: write failed: '' path | FillShort \<Rightarrow> say_path sys ''rysh: short write: '' path
               | FillWrote n \<Rightarrow> seq [say sys ''wrote '', num sys n, newline sys], kdo (\<lambda>k. ((), file_drop fd k))])))" for amount
    by (rule eff_open, erule opens_file(2))
      (auto intro!: eff_still eff_dcall eff_dropped intro: fill_loop_steady split: fill_result.split simp del: seq.simps)
  then show "eff {} {} (rysh_fill_file sys path count)" unfolding rysh_fill_file_def
    by (cases "rysh_parse_usize count") (auto intro!: eff_still simp del: seq.simps)
qed

lemma still_pid: "still (\<lambda>m. num sys (unat (current_pid (fst m))) m)"
  unfolding still_def by (auto intro: stillD [OF still_num])

lemma print_expanded_still: "still (print_expanded sys bs args vars)"
proof (induction bs rule: length_induct)
  case (1 bs)
  show ?case
  proof (cases "bs = []")
    case True
    then have "print_expanded sys bs args vars = Some" by (simp add: fun_eq_iff print_expanded.simps)
    then show ?thesis by (simp add: still_Some)
  next
    case False
    then have IH: "still (print_expanded sys (drop (Suc n) bs) args vars)" for n using 1 by simp
    let ?stop = "var_name_end (drop 1 bs) + 1"
    let ?name = "subslice bs 1 ?stop"
    let ?val = "if ?name = lit ''pid'' then (\<lambda>m. num sys (unat (current_pid (fst m))) m) else if ?name = lit ''args'' then out sys args
      else case store_get ?name vars of Some val \<Rightarrow> out sys val | None \<Rightarrow> Some"
    have "still ?val" by (auto intro!: still_rules still_pid split: option.split)
    then have "still (\<lambda>m. Option.bind (?val m) (print_expanded sys (drop ?stop bs) args vars))"
      using IH [of "var_name_end (drop 1 bs)"] by (intro still_bind) simp_all
    moreover have "still (\<lambda>m. Option.bind (out sys (take 1 bs) m) (print_expanded sys (drop 1 bs) args vars))"
      using IH [of 0] by (intro still_bind still_rules) simp_all
    moreover have "print_expanded sys bs args vars = (if hd bs = 36 then (\<lambda>m. Option.bind (?val m) (print_expanded sys (drop ?stop bs) args vars))
        else (\<lambda>m. Option.bind (out sys (take 1 bs) m) (print_expanded sys (drop 1 bs) args vars)))"
      using False by (rule_tac ext, subst print_expanded.simps) (simp add: Let_def)
    ultimately show ?thesis by simp
  qed
qed

lemma eff_if: "eff X R a \<Longrightarrow> eff X R b \<Longrightarrow> eff X R (if c then a else b)"
  by simp

lemma eff_dispatch:
  assumes w: "shell_waits sys"
  shows "eff {} {} (rysh_dispatch sys n args vars command rest)"
proof -
  obtain a b where sw: "split_word rest = (a, b)" by force
  show ?thesis
    unfolding rysh_dispatch_def sw prod.case
    by (intro eff_if eff_files eff_pipe_demo eff_redir_demo eff_spawn_redir [OF w] eff_spawn_stdin [OF w] eff_spawn_io [OF w]
        eff_spawn_io_err [OF w] still_eff still_commands [OF w] still_rules print_expanded_still still_pid)
qed

lemma run_line_keeps:
  assumes w: "shell_waits sys" and ok: "shell_ok k" and e: "run_line sys line n args vars (k, d) = Some (vars', (k', d'))"
  shows "shell_ok k'" "app_fd_open x k' = app_fd_open x k" "i < 3 \<Longrightarrow> std_of k' ! i = int i \<or> std_of k' ! i = std_of k ! i"
proof -
  obtain command rest where sw: "split_word line = (command, rest)" by force
  consider "k' = k" | "rysh_dispatch sys n args vars command rest (k, d) = Some (k', d')"
    using e by (auto simp: run_line_def sw split: if_splits prod.splits)
  then have "shell_ok k' \<and> app_fd_open x k' = app_fd_open x k \<and> (i < 3 \<longrightarrow> std_of k' ! i = int i \<or> std_of k' ! i = std_of k ! i)"
  proof cases
    case 2
    from effD [OF eff_dispatch [OF w] ok 2] show ?thesis by simp
  qed (simp add: ok)
  then show "shell_ok k'" "app_fd_open x k' = app_fd_open x k" "i < 3 \<Longrightarrow> std_of k' ! i = int i \<or> std_of k' ! i = std_of k ! i" by blast+
qed

lemma run_lines_keeps:
  assumes "shell_waits sys" "shell_ok k" "run_lines sys args ls n vars (k, d) = Some (vars', (k', d'))"
  shows "shell_ok k' \<and> app_fd_open x k' = app_fd_open x k \<and> (i < 3 \<longrightarrow> std_of k' ! i = int i \<or> std_of k' ! i = std_of k ! i)"
  using assms(2,3)
proof (induction ls arbitrary: n vars k d)
  case (Cons l ls)
  obtain v k1 d1 where e: "run_line sys l n args vars (k, d) = Some (v, (k1, d1))" "run_lines sys args ls (n + 1) v (k1, d1) = Some (vars', (k', d'))"
    using Cons.prems(2) by (auto simp: bind_eq_Some_conv)
  note r = run_line_keeps [OF assms(1) Cons.prems(1) e(1)]
  from r(1) r(2) [of x] r(3) [of i] Cons.IH [OF r(1) e(2)] show ?case by auto
qed auto

text \<open>
  C32. No script leaks or closes a descriptor.  Whatever the script does, files, pipes, redirections, children and
  errors included, when it ends the kernel's tables are well formed, exactly the descriptors open before are open,
  and each standard descriptor is as it was or back on the console: none is left redirected into a pipe
  of the script.  The hypothesis on the system is that a wait for a child leaves the shell's own slot and the set of open descriptors
  as they were.
\<close>

theorem run_script_keeps:
  assumes "shell_waits sys" "shell_ok k" "run_script sys script args vars (k, d) = Some (vars', (k', d'))"
  shows "table_ok k' \<and> fd_tables_ok k' \<and> (\<forall>x. app_fd_open x k' = app_fd_open x k) \<and>
    (\<forall>i<3. std_of k' ! i = int i \<or> std_of k' ! i = std_of k ! i)"
  using run_lines_keeps [OF assms(1,2) assms(3) [unfolded run_script_lines]] shell_okD by blast

theorem run_script_keeps_witness:
  "\<exists>k'. run_script demo_shell (lit ''redir abc'') [] store_new (demo_spawner, demo_dev) = Some (store_new, (k', demo_dev)) \<and>
     app_fd_open 3 k' = app_fd_open 3 demo_spawner \<and> std_of k' ! 1 = 1"
proof -
  have fd: "app_fds demo_spawner = replicate 32 app_fd_empty" "app_pipes demo_spawner = replicate 12 app_pipe_empty"
    by (simp_all add: demo_spawner_def demo_family_def demo_state_def)
  have ok: "shell_ok demo_spawner" using demo_caller(1,2) demo_fds_ok by (simp add: shell_ok_def fd demo_state_def)
  have std: "std_of demo_spawner ! 1 = 1"
    by (simp add: std_of_def demo_spawner_def demo_family_facts demo_proc_def process_empty_def STDOUT_FD_def)
  have "find (\<lambda>index. \<not> pp_used (app_pipes demo_spawner ! index)) [0..<12] = Some 0"
    by (rule find_upt_first) (simp_all add: fd app_pipe_empty_def)
  moreover have "two_free_fds demo_spawner [0..<32] 32 = (0, 1)" by (simp add: upt_rec fd)
  ultimately obtain fds k1 where p: "user_pipe demo_spawner = (Some fds, k1)" by (simp add: user_pipe_def abi_pipe_def Let_def)
  from redir_demo_runs [OF shell_okD(2) [OF ok] shell_okD(1) [OF ok] p, of demo_shell "lit ''abc''" demo_dev]
  obtain k' where r: "rysh_redir_demo demo_shell (lit ''abc'') (demo_spawner, demo_dev) = Some (k', demo_dev)" by (elim exE conjE)
  have l: "script_lines (lit ''redir abc'') = [lit ''redir abc'']" "split_word (lit ''redir abc'') = (lit ''redir'', lit ''abc'')"
    "lit ''redir abc'' \<noteq> []" "hd (lit ''redir abc'') \<noteq> 35" by code_simp+
  have "run_script demo_shell (lit ''redir abc'') [] store_new (demo_spawner, demo_dev) = Some (store_new, (k', demo_dev))"
    unfolding run_script_lines l(1) using l(2-4) r
    by (simp add: run_line_def rysh_dispatch_def lit_eq del: lit_simps)
  note run = this
  have "shell_waits demo_shell" by (auto simp: shell_waits_def demo_shell_def intro: steady_refl)
  note kept = run_script_keeps [OF this ok run]
  then have "\<forall>i<3. std_of k' ! i = int i \<or> std_of k' ! i = std_of demo_spawner ! i" by blast
  from this [rule_format, of 1] std have "std_of k' ! 1 = 1" by simp
  with run kept show ?thesis by blast
qed

end
