(* ===== verification/Ram_Fs.thy ===== *)
theory Ram_Fs
  imports Slot_Table Boot_Fs
begin

text \<open>
  The shell's RAM filesystem, \<^verbatim>\<open>impl RamFs\<close> in \<^verbatim>\<open>kernel/src/main.rs\<close>: twelve
  slots with a 16-byte name and 192 bytes of data.  The table interprets \<open>slot_table\<close>;
  the operations are shown to keep names unique, with the one exception of \<open>move_entry\<close>.
\<close>

definition FILE_COUNT :: nat where "FILE_COUNT = 12"
definition FILE_NAME_MAX :: nat where "FILE_NAME_MAX = 16"
definition FILE_DATA_MAX :: nat where "FILE_DATA_MAX = 192"

record file_entry =
  fe_used :: bool
  fe_is_dir :: bool
  fe_name :: bytes
  fe_name_len :: nat
  fe_data :: bytes
  fe_data_len :: nat

type_synonym ram_fs = "file_entry list"

definition file_entry_empty :: file_entry where
  "file_entry_empty = \<lparr>fe_used = False, fe_is_dir = False, fe_name = replicate FILE_NAME_MAX 0, fe_name_len = 0,
     fe_data = replicate FILE_DATA_MAX 0, fe_data_len = 0\<rparr>"

definition ramfs_new :: ram_fs where
  "ramfs_new = replicate FILE_COUNT file_entry_empty"

definition ramfs_find :: "ram_fs \<Rightarrow> bytes \<Rightarrow> nat option" where
  "ramfs_find fs name =
     find (\<lambda>index. let entry = fs ! index in
         fe_used entry \<and> fe_name_len entry = length name \<and> take (fe_name_len entry) (fe_name entry) = name)
       [0..<FILE_COUNT]"

definition ramfs_free_slot :: "ram_fs \<Rightarrow> nat option" where
  "ramfs_free_slot fs = find (\<lambda>index. \<not> fe_used (fs ! index)) [0..<FILE_COUNT]"

definition touch_raw :: "bytes \<Rightarrow> bool \<Rightarrow> ram_fs \<Rightarrow> bool \<times> ram_fs" where
  "touch_raw name is_dir fs =
     (case ramfs_find fs name of
        Some index \<Rightarrow> (True, fs[index := (fs ! index)\<lparr>fe_is_dir := is_dir\<rparr>])
      | None \<Rightarrow>
          (case ramfs_free_slot fs of
             None \<Rightarrow> (False, fs)
           | Some index \<Rightarrow>
               (True, fs[index := (fs ! index)\<lparr>fe_used := True, fe_is_dir := is_dir, fe_name_len := length name,
                  fe_name := copy_at (fe_name (fs ! index)) 0 name\<rparr>])))"

definition write_raw :: "bytes \<Rightarrow> bytes \<Rightarrow> ram_fs \<Rightarrow> ram_fs" where
  "write_raw name contents fs =
     (case touch_raw name False fs of
        (False, fs) \<Rightarrow> fs
      | (True, fs) \<Rightarrow>
          let index = (case ramfs_find fs name of Some index \<Rightarrow> index | None \<Rightarrow> 0) in
          fs[index := (fs ! index)\<lparr>fe_is_dir := False, fe_data := copy_at (replicate FILE_DATA_MAX 0) 0 contents,
            fe_data_len := length contents\<rparr>])"

definition ramfs_seed :: "ram_fs \<Rightarrow> ram_fs" where
  "ramfs_seed fs =
     (let fs = write_raw (lit ''readme'') (lit ''Welcome to RYMOS RAMFS.'') fs;
          fs = write_raw (lit ''notes'')
            (lit ''Disk FAT32 loading works in the bootloader. Kernel FAT32 comes later.'') fs
      in snd (touch_raw (lit ''tmp'') True fs))"

definition ramfs_ls :: "ram_fs \<Rightarrow> console \<Rightarrow> console" where
  "ramfs_ls fs con =
     fold (\<lambda>entry con.
         if fe_used entry then
           let con = (if fe_is_dir entry then console_write ''[dir]  '' con else console_write ''[file] '' con);
               con = write_bytes (take (fe_name_len entry) (fe_name entry)) con;
               con = (if \<not> fe_is_dir entry then
                        console_write '' B'' (write_usize (fe_data_len entry) (console_write ''  '' con))
                      else con)
           in new_line con
         else con) fs con"

definition ramfs_usage :: "ram_fs \<Rightarrow> nat \<times> nat" where
  "ramfs_usage fs =
     fold (\<lambda>entry (n, total). if fe_used entry then (n + 1, total + fe_data_len entry) else (n, total)) fs (0, 0)"

definition ramfs_df :: "ram_fs \<Rightarrow> bootfs \<Rightarrow> console \<Rightarrow> console" where
  "ramfs_df fs bfs con =
     (let (used_entries, used_bytes) = ramfs_usage fs;
          con = write_line ''filesystem   entries        bytes'' con;
          con = console_write ''ramfs        '' con;
          con = write_usize used_entries con;
          con = console_write ''/'' con;
          con = write_usize FILE_COUNT con;
          con = console_write ''          '' con;
          con = write_usize used_bytes con;
          con = console_write ''/'' con;
          con = write_usize (FILE_COUNT * FILE_DATA_MAX) con;
          con = new_line con;
          con = console_write ''bootfs       ro initrd      '' con;
          con = write_usize (bootfs_used_bytes bfs) con
      in write_line '' bytes'' con)"

definition ramfs_cat :: "ram_fs \<Rightarrow> bytes \<Rightarrow> console \<Rightarrow> console" where
  "ramfs_cat fs name con =
     (case ramfs_find fs name of
        Some index \<Rightarrow>
          if fe_is_dir (fs ! index) then write_line ''cat: is a directory'' con
          else new_line (write_bytes (take (fe_data_len (fs ! index)) (fe_data (fs ! index))) con)
      | None \<Rightarrow> write_line ''cat: not found'' con)"

definition ramfs_touch :: "bytes \<Rightarrow> bool \<Rightarrow> console \<Rightarrow> ram_fs \<Rightarrow> console \<times> ram_fs" where
  "ramfs_touch name is_dir con fs =
     (if \<not> valid_name name then (write_line ''invalid name'' con, fs)
      else
        case touch_raw name is_dir fs of
          (True, fs) \<Rightarrow> (write_line ''ok'' con, fs)
        | (False, fs) \<Rightarrow> (write_line ''ramfs full'' con, fs))"

definition ramfs_write :: "bytes \<Rightarrow> bytes \<Rightarrow> console \<Rightarrow> ram_fs \<Rightarrow> console \<times> ram_fs" where
  "ramfs_write name contents con fs =
     (if \<not> valid_name name then (write_line ''invalid name'' con, fs)
      else if length contents > FILE_DATA_MAX then (write_line ''write: text too large'' con, fs)
      else (write_line ''ok'' con, write_raw name contents fs))"

definition ramfs_remove :: "bytes \<Rightarrow> bool \<Rightarrow> console \<Rightarrow> ram_fs \<Rightarrow> console \<times> ram_fs" where
  "ramfs_remove name dir con fs =
     (case ramfs_find fs name of
        Some index \<Rightarrow>
          if fe_is_dir (fs ! index) = dir then (write_line ''ok'' con, fs[index := file_entry_empty])
          else if dir then (write_line ''rmdir: not a directory'' con, fs)
          else (write_line ''rm: is a directory'' con, fs)
      | None \<Rightarrow> (write_line ''not found'' con, fs))"

definition ramfs_append :: "bytes \<Rightarrow> bytes \<Rightarrow> console \<Rightarrow> ram_fs \<Rightarrow> console \<times> ram_fs" where
  "ramfs_append name contents con fs =
     (if \<not> valid_name name then (write_line ''invalid name'' con, fs)
      else
        case ramfs_find fs name of
          None \<Rightarrow> ramfs_write name contents con fs
        | Some index \<Rightarrow>
            let entry = fs ! index; start = fe_data_len entry in
            if fe_is_dir entry then (write_line ''append: is a directory'' con, fs)
            else if start + length contents > FILE_DATA_MAX then (write_line ''append: text too large'' con, fs)
            else (write_line ''ok'' con,
              fs[index := entry\<lparr>fe_data := copy_at (fe_data entry) start contents, fe_data_len := start + length contents\<rparr>]))"

definition ramfs_copy :: "bytes \<Rightarrow> bytes \<Rightarrow> console \<Rightarrow> ram_fs \<Rightarrow> console \<times> ram_fs" where
  "ramfs_copy src dst con fs =
     (if \<not> valid_name dst then (write_line ''invalid destination'' con, fs)
      else
        case ramfs_find fs src of
          None \<Rightarrow> (write_line ''copy: source not found'' con, fs)
        | Some index \<Rightarrow>
            if fe_is_dir (fs ! index) then (write_line ''copy: directories not supported yet'' con, fs)
            else (write_line ''ok'' con, write_raw dst (take (fe_data_len (fs ! index)) (fe_data (fs ! index))) fs))"

definition move_entry :: "bytes \<Rightarrow> bytes \<Rightarrow> console \<Rightarrow> ram_fs \<Rightarrow> console \<times> ram_fs" where
  "move_entry src dst con fs =
     (if \<not> valid_name dst then (write_line ''invalid destination'' con, fs)
      else
        case ramfs_find fs src of
          None \<Rightarrow> (write_line ''move: source not found'' con, fs)
        | Some index \<Rightarrow>
            if length dst > FILE_NAME_MAX then (write_line ''move: destination too long'' con, fs)
            else (write_line ''ok'' con,
              fs[index := (fs ! index)\<lparr>fe_name := copy_at (replicate FILE_NAME_MAX 0) 0 dst, fe_name_len := length dst\<rparr>]))"

section \<open>The table of slots\<close>

lemmas file_consts [simp] = FILE_COUNT_def FILE_NAME_MAX_def FILE_DATA_MAX_def

definition fe_ok :: "file_entry \<Rightarrow> bool" where
  "fe_ok e \<longleftrightarrow> length (fe_name e) = 16 \<and> fe_name_len e \<le> 16 \<and> length (fe_data e) = 192 \<and> fe_data_len e \<le> 192"

definition ramfs_ok :: "ram_fs \<Rightarrow> bool" where
  "ramfs_ok fs \<longleftrightarrow> length fs = 12 \<and> list_all fe_ok fs"

definition fe_key :: "file_entry \<Rightarrow> bytes" where
  "fe_key e = take (fe_name_len e) (fe_name e)"

text \<open>Storing an entry: the value says what else the entry holds.\<close>

definition put_file :: "nat \<Rightarrow> bytes \<Rightarrow> file_entry \<Rightarrow> ram_fs \<Rightarrow> ram_fs" where
  "put_file i k e fs = fs[i := e]"

definition file_for :: "bytes \<Rightarrow> file_entry \<Rightarrow> bool" where
  "file_for k e \<longleftrightarrow> fe_ok e \<and> fe_used e \<and> fe_key e = k"

interpretation ram: slot_table 12 ramfs_ok "\<lambda>fs i. fe_used (fs ! i)" "\<lambda>fs i. fe_key (fs ! i)" put_file
  "\<lambda>i fs. fs[i := file_entry_empty]" file_for
  by unfold_locales
    (auto simp: ramfs_ok_def put_file_def file_for_def nth_list_update list_all_length file_entry_empty_def fe_ok_def)

lemma ramfs_find_lookup: "ramfs_ok fs \<Longrightarrow> ramfs_find fs = ram.lookup fs"
proof
  fix name
  assume ok: "ramfs_ok fs"
  show "ramfs_find fs name = ram.lookup fs name"
    unfolding ramfs_find_def ram.lookup_def file_consts
    by (rule find_upt_cong) (use ok in \<open>auto simp: ramfs_ok_def list_all_length fe_ok_def fe_key_def Let_def\<close>)
qed

lemma ramfs_free_slot_free: "ramfs_free_slot fs = ram.free_slot fs"
  by (simp add: ramfs_free_slot_def ram.free_slot_def)

lemma valid_name_len: "valid_name name \<Longrightarrow> length name \<le> 16 \<and> name \<noteq> []"
  by (auto simp: valid_name_def)

definition ramfs_wf :: "ram_fs \<Rightarrow> bool" where
  "ramfs_wf fs \<longleftrightarrow> ramfs_ok fs \<and> ram.uniq fs"

lemma ramfs_ok_nth: "ramfs_ok fs \<Longrightarrow> i < 12 \<Longrightarrow> fe_ok (fs ! i)"
  by (simp add: ramfs_ok_def list_all_length)

lemma ramfs_wf_put:
  assumes "ramfs_wf fs" "i < 12" "file_for name e"
    "\<And>j. j < 12 \<Longrightarrow> j \<noteq> i \<Longrightarrow> fe_used (fs ! j) \<Longrightarrow> fe_key (fs ! j) \<noteq> name"
  shows "ramfs_wf (fs[i := e])" "ramfs_find (fs[i := e]) name = Some i"
proof -
  have ok: "ramfs_ok fs" "ram.uniq fs" using assms(1) by (simp_all add: ramfs_wf_def)
  have u: "ram.uniq (fs[i := e])" using ram.uniq_put [OF ok(1) assms(2,3) ok(2) assms(4)] by (simp add: put_file_def)
  have o: "ramfs_ok (fs[i := e])" using ram.put_ok [OF ok(1) assms(2,3)] by (simp add: put_file_def)
  from u o show "ramfs_wf (fs[i := e])" by (simp add: ramfs_wf_def)
  have "ram.lookup (fs[i := e]) name = Some i"
    using ram.lookup_uniq [OF u assms(2), of name] assms(2,3) ok(1) by (simp add: file_for_def ramfs_ok_def)
  with ramfs_find_lookup [OF o] show "ramfs_find (fs[i := e]) name = Some i" by simp
qed

text \<open>Where a write goes: the slot of the name, or the first free one.\<close>

definition write_slot :: "ram_fs \<Rightarrow> bytes \<Rightarrow> nat option" where
  "write_slot fs name = (case ramfs_find fs name of Some i \<Rightarrow> Some i | None \<Rightarrow> ramfs_free_slot fs)"

lemma write_slot_fresh:
  assumes "ramfs_wf fs" "write_slot fs name = Some i"
  shows "i < 12" "\<And>j. j < 12 \<Longrightarrow> j \<noteq> i \<Longrightarrow> fe_used (fs ! j) \<Longrightarrow> fe_key (fs ! j) \<noteq> name"
proof -
  have ok: "ramfs_ok fs" "ram.uniq fs" using assms(1) by (simp_all add: ramfs_wf_def)
  note look = ramfs_find_lookup [OF ok(1)]
  have "i < 12 \<and> (\<forall>j<12. j \<noteq> i \<longrightarrow> fe_used (fs ! j) \<longrightarrow> fe_key (fs ! j) \<noteq> name)"
  proof (cases "ramfs_find fs name")
    case (Some k)
    with assms(2) have "k = i" by (simp add: write_slot_def)
    with Some look ram.lookup_SomeD [of fs name i] ram.uniqD [OF ok(2)] show ?thesis by metis
  next
    case None
    with assms(2) have "ram.free_slot fs = Some i" by (simp add: write_slot_def ramfs_free_slot_free)
    with None look ram.free_slot_SomeD [of fs i] ram.lookup_NoneD [of fs name] show ?thesis by auto
  qed
  then show "i < 12" "\<And>j. j < 12 \<Longrightarrow> j \<noteq> i \<Longrightarrow> fe_used (fs ! j) \<Longrightarrow> fe_key (fs ! j) \<noteq> name" by blast+
qed

lemma touch_raw_spec:
  assumes "ramfs_wf fs" "length name \<le> 16"
  shows "case write_slot fs name of
      None \<Rightarrow> touch_raw name is_dir fs = (False, fs)
    | Some i \<Rightarrow> \<exists>e. touch_raw name is_dir fs = (True, fs[i := e]) \<and> file_for name e \<and> fe_is_dir e = is_dir"
proof (cases "write_slot fs name")
  case None
  then show ?thesis by (auto simp: write_slot_def touch_raw_def split: option.splits)
next
  case (Some i)
  note s = write_slot_fresh [OF assms(1) Some]
  have ok: "ramfs_ok fs" "fe_ok (fs ! i)" using assms(1) s(1) ramfs_ok_nth by (simp_all add: ramfs_wf_def)
  show ?thesis
  proof (cases "ramfs_find fs name")
    case f: (Some k)
    with Some have "k = i" by (simp add: write_slot_def)
    with f ramfs_find_lookup [OF ok(1)] have "fe_used (fs ! i)" "fe_key (fs ! i) = name"
      using ram.lookup_SomeD [of fs name i] by simp_all
    with f Some ok(2) \<open>k = i\<close> show ?thesis
      by (auto simp: touch_raw_def file_for_def fe_ok_def fe_key_def intro!: exI [of _ "(fs ! i)\<lparr>fe_is_dir := is_dir\<rparr>"])
  next
    case None
    with Some have "ramfs_free_slot fs = Some i" by (simp add: write_slot_def)
    with None Some ok(2) assms(2) show ?thesis
      by (auto simp: touch_raw_def file_for_def fe_ok_def fe_key_def copy_at_prefix
          intro!: exI [of _ "(fs ! i)\<lparr>fe_used := True, fe_is_dir := is_dir, fe_name_len := length name,
            fe_name := copy_at (fe_name (fs ! i)) 0 name\<rparr>"])
  qed
qed

lemma write_raw_spec:
  assumes "ramfs_wf fs" "length name \<le> 16" "length contents \<le> 192"
  shows "case write_slot fs name of
      None \<Rightarrow> write_raw name contents fs = fs
    | Some i \<Rightarrow> \<exists>e. write_raw name contents fs = fs[i := e] \<and> file_for name e \<and> \<not> fe_is_dir e \<and>
        take (fe_data_len e) (fe_data e) = contents"
proof (cases "write_slot fs name")
  case None
  with touch_raw_spec [OF assms(1,2), of False] show ?thesis by (simp add: write_raw_def)
next
  case (Some i)
  note s = write_slot_fresh [OF assms(1) Some]
  from touch_raw_spec [OF assms(1,2), of False] Some obtain e where
    e: "touch_raw name False fs = (True, fs[i := e])" "file_for name e" by auto
  have f: "ramfs_find (fs[i := e]) name = Some i" using ramfs_wf_put(2) [OF assms(1) s(1) e(2) s(2)] .
  have "length fs = 12" using assms(1) by (simp add: ramfs_wf_def ramfs_ok_def)
  then have "write_raw name contents fs =
      fs[i := e\<lparr>fe_is_dir := False, fe_data := copy_at (replicate 192 0) 0 contents, fe_data_len := length contents\<rparr>]"
    using e(1) f s(1) by (simp add: write_raw_def Let_def)
  moreover have "file_for name (e\<lparr>fe_is_dir := False, fe_data := copy_at (replicate 192 0) 0 contents, fe_data_len := length contents\<rparr>)"
    using e(2) assms(3) by (simp add: file_for_def fe_ok_def fe_key_def)
  ultimately show ?thesis using Some assms(3) by (auto simp: copy_at_prefix)
qed

section \<open>Properties\<close>

text \<open>
   Writing a RAM file keeps the table well formed (sizes in range, names unique) and, when the
  name exists or a slot is free, reading the name back gives the text.  When the table is full
  and the name is new, nothing is stored although the command answers ok.
\<close>

theorem ramfs_write_correct:
  assumes "ramfs_wf fs" "valid_name name" "length contents \<le> FILE_DATA_MAX"
  shows "fst (ramfs_write name contents con fs) = write_line ''ok'' con \<and>
    ramfs_wf (snd (ramfs_write name contents con fs)) \<and>
    (case write_slot fs name of
       Some i \<Rightarrow> ramfs_find (snd (ramfs_write name contents con fs)) name = Some i \<and>
         (\<forall>con. ramfs_cat (snd (ramfs_write name contents con fs)) name con = new_line (write_bytes contents con))
     | None \<Rightarrow> snd (ramfs_write name contents con fs) = fs)"
proof -
  have w: "ramfs_write name contents c fs = (write_line ''ok'' c, write_raw name contents fs)" for c
    using assms by (simp add: ramfs_write_def)
  note sp = write_raw_spec [OF assms(1) valid_name_len [OF assms(2), THEN conjunct1], of contents]
  show ?thesis
  proof (cases "write_slot fs name")
    case None
    with sp w assms show ?thesis by simp
  next
    case (Some i)
    note s = write_slot_fresh [OF assms(1) Some]
    from sp Some assms(3) obtain e where e: "write_raw name contents fs = fs[i := e]" "file_for name e" "\<not> fe_is_dir e"
        "take (fe_data_len e) (fe_data e) = contents" by auto
    have "length fs = 12" using assms(1) by (simp add: ramfs_wf_def ramfs_ok_def)
    with ramfs_wf_put [OF assms(1) s(1) e(2) s(2)] Some e s(1) w show ?thesis by (simp add: ramfs_cat_def)
  qed
qed

lemma ramfs_new_wf: "ramfs_wf ramfs_new"
  by (simp add: ramfs_wf_def ramfs_ok_def ramfs_new_def ram.uniq_def list_all_length fe_ok_def file_entry_empty_def)

theorem ramfs_write_correct_witness:
  "ramfs_wf ramfs_new \<and> valid_name (lit ''readme'') \<and>
   ramfs_wf (snd (ramfs_write (lit ''readme'') (lit ''hello'') (console_new (\<lambda>_. 0) (\<lambda>_. 0) None) ramfs_new))"
proof -
  have v: "valid_name (lit ''readme'')" by code_simp
  have "length (lit ''hello'') \<le> FILE_DATA_MAX" by simp
  from ramfs_write_correct [OF ramfs_new_wf v this] v ramfs_new_wf show ?thesis by blast
qed

text \<open>
  Moving a RAM file onto the name of another one succeeds and leaves two slots with the same
  name: the lookup then only ever finds the first of them.
\<close>

theorem move_entry_duplicates:
  assumes "ramfs_wf fs" "valid_name dst" "ramfs_find fs src = Some i" "ramfs_find fs dst = Some j" "src \<noteq> dst"
  shows "fst (move_entry src dst con fs) = write_line ''ok'' con \<and> \<not> ram.uniq (snd (move_entry src dst con fs))"
proof -
  let ?e = "(fs ! i)\<lparr>fe_name := copy_at (replicate 16 0) 0 dst, fe_name_len := length dst\<rparr>"
  have ok: "ramfs_ok fs" "length fs = 12" using assms(1) by (simp_all add: ramfs_wf_def ramfs_ok_def)
  have i: "i < 12" "fe_used (fs ! i)" "fe_key (fs ! i) = src"
    using assms(3) ramfs_find_lookup [OF ok(1)] ram.lookup_SomeD [of fs src i] by auto
  have j: "j < 12" "fe_used (fs ! j)" "fe_key (fs ! j) = dst"
    using assms(4) ramfs_find_lookup [OF ok(1)] ram.lookup_SomeD [of fs dst j] by auto
  have len: "length dst \<le> 16" using valid_name_len [OF assms(2)] by simp
  have "i \<noteq> j" using i j assms(5) by auto
  moreover have "fe_key ?e = dst" using len by (simp add: fe_key_def copy_at_prefix)
  ultimately have "\<not> ram.uniq (fs[i := ?e])"
    using i j ok(2) ram.uniqD [of "fs[i := ?e]" i j] by auto
  with assms(2,3) len show ?thesis by (simp add: move_entry_def)
qed

definition demo_ram :: ram_fs where
  "demo_ram = write_raw (lit ''b'') (lit ''2'') (write_raw (lit ''a'') (lit ''1'') ramfs_new)"

lemma demo_ram_wf: "ramfs_wf demo_ram" "ramfs_find demo_ram (lit ''a'') = Some 0" "ramfs_find demo_ram (lit ''b'') = Some 1"
proof -
  have "ramfs_wf (write_raw name contents fs)" if "ramfs_wf fs" "length name \<le> 16" "length contents \<le> 192" for name contents fs
    using write_raw_spec [OF that] ramfs_wf_put(1) [OF that(1)] write_slot_fresh [OF that(1)] that(1)
    by (cases "write_slot fs name") auto
  then show "ramfs_wf demo_ram" unfolding demo_ram_def using ramfs_new_wf by simp
  show "ramfs_find demo_ram (lit ''a'') = Some 0" "ramfs_find demo_ram (lit ''b'') = Some 1" by code_simp+
qed

theorem move_entry_duplicates_witness:
  "\<not> ram.uniq (snd (move_entry (lit ''a'') (lit ''b'') (console_new (\<lambda>_. 0) (\<lambda>_. 0) None) demo_ram))"
proof -
  have "valid_name (lit ''b'')" "lit ''a'' \<noteq> lit ''b''" by code_simp+
  with move_entry_duplicates [OF demo_ram_wf(1) _ demo_ram_wf(2,3)] show ?thesis by blast
qed

end
