(* ===== verification/Pci_Bus.thy ===== *)
theory Pci_Bus
  imports Console
begin

text \<open>
  The PCI scan of the kernel shell (\<^verbatim>\<open>pci_scan\<close>, \<^verbatim>\<open>pci_class_name\<close> and the three reads of configuration space in
  \<^verbatim>\<open>kernel/src/main.rs\<close>) over the 32-bit port instructions, which are a parameter.  The address written to the first
  port selects bus, device, function and register for the second: this is the locale \<open>config_space\<close>, and the reference host bridge
  is an instance for every contents of the configuration space.  The scan lists exactly the functions that answer.
\<close>

section \<open>Model\<close>

record 'd pci_ports =
  p_outl :: "u16 \<Rightarrow> u32 \<Rightarrow> 'd \<Rightarrow> 'd"
  p_inl :: "u16 \<Rightarrow> 'd \<Rightarrow> u32 \<times> 'd"

definition pci_address :: "u8 \<Rightarrow> u8 \<Rightarrow> u8 \<Rightarrow> u8 \<Rightarrow> u32" where
  "pci_address bus device function offset =
     0x80000000 OR push_bit 16 (ucast bus) OR push_bit 11 (ucast device) OR push_bit 8 (ucast function) OR (ucast offset AND 0xFC)"

definition pci_read_u32 :: "'d pci_ports \<Rightarrow> u8 \<Rightarrow> u8 \<Rightarrow> u8 \<Rightarrow> u8 \<Rightarrow> 'd \<Rightarrow> u32 \<times> 'd" where
  "pci_read_u32 ports bus device function offset d =
     p_inl ports 0xCFC (p_outl ports 0xCF8 (pci_address bus device function offset) d)"

definition pci_read_u16 :: "'d pci_ports \<Rightarrow> u8 \<Rightarrow> u8 \<Rightarrow> u8 \<Rightarrow> u8 \<Rightarrow> 'd \<Rightarrow> u16 \<times> 'd" where
  "pci_read_u16 ports bus device function offset d =
     (case pci_read_u32 ports bus device function (offset AND 0xFC) d of (value, d) \<Rightarrow>
        (ucast (drop_bit (unat ((offset AND 2) * 8)) value AND 0xFFFF), d))"

definition pci_read_u8 :: "'d pci_ports \<Rightarrow> u8 \<Rightarrow> u8 \<Rightarrow> u8 \<Rightarrow> u8 \<Rightarrow> 'd \<Rightarrow> u8 \<times> 'd" where
  "pci_read_u8 ports bus device function offset d =
     (case pci_read_u32 ports bus device function (offset AND 0xFC) d of (value, d) \<Rightarrow>
        (ucast (drop_bit (unat ((offset AND 3) * 8)) value AND 0xFF), d))"

definition pci_class_name :: "u8 \<Rightarrow> u8 \<Rightarrow> string" where
  "pci_class_name class subclass =
     (if (class, subclass) = (0x01, 0x01) then ''ide controller''
      else if (class, subclass) = (0x01, 0x06) then ''sata controller''
      else if (class, subclass) = (0x02, 0x00) then ''ethernet controller''
      else if (class, subclass) = (0x03, 0x00) then ''vga/display controller''
      else if (class, subclass) = (0x04, 0x01) then ''audio device''
      else if (class, subclass) = (0x06, 0x00) then ''host bridge''
      else if (class, subclass) = (0x06, 0x01) then ''isa bridge''
      else if (class, subclass) = (0x06, 0x04) then ''pci bridge''
      else if (class, subclass) = (0x0C, 0x03) then ''usb controller''
      else ''device'')"

text \<open>The line of a function that answers.\<close>

definition pci_line :: "u8 \<Rightarrow> u8 \<Rightarrow> u8 \<Rightarrow> u16 \<Rightarrow> u16 \<Rightarrow> u8 \<Rightarrow> u8 \<Rightarrow> console \<Rightarrow> console" where
  "pci_line bus device function vendor device_id class subclass con =
     (let con = console_write ''  '' (write_hex_u8 bus con);
          con = console_write ''  '' (write_hex_u8 device con);
          con = console_write ''  '' (write_hex_u8 function con);
          con = console_write ''   '' (write_hex_u16 vendor con);
          con = console_write ''   '' (write_hex_u16 device_id con);
          con = console_write ''    '' (write_hex_u8 class con);
          con = console_write ''       '' (write_hex_u8 subclass con)
      in write_line (pci_class_name class subclass) con)"

definition scan_function :: "'d pci_ports \<Rightarrow> u8 \<Rightarrow> u8 \<Rightarrow> u8 \<Rightarrow> nat \<times> console \<times> 'd \<Rightarrow> nat \<times> console \<times> 'd" where
  "scan_function ports bus device function = (\<lambda>(found, con, d).
     case pci_read_u16 ports bus device function 0x00 d of (vendor, d) \<Rightarrow>
       if vendor = 0xFFFF then (found, con, d)
       else
         case pci_read_u16 ports bus device function 0x02 d of (device_id, d) \<Rightarrow>
         case pci_read_u8 ports bus device function 0x0B d of (class, d) \<Rightarrow>
         case pci_read_u8 ports bus device function 0x0A d of (subclass, d) \<Rightarrow>
           (found + 1, pci_line bus device function vendor device_id class subclass con, d))"

definition scan_device :: "'d pci_ports \<Rightarrow> u8 \<Rightarrow> u8 \<Rightarrow> nat \<times> console \<times> 'd \<Rightarrow> nat \<times> console \<times> 'd" where
  "scan_device ports bus device = (\<lambda>(found, con, d).
     case pci_read_u16 ports bus device 0 0x00 d of (vendor, d) \<Rightarrow>
       if vendor = 0xFFFF then (found, con, d)
       else
         case pci_read_u8 ports bus device 0 0x0E d of (header_type, d) \<Rightarrow>
           let functions = (if header_type AND 0x80 \<noteq> 0 then 8 else 1) in
           fold (\<lambda>function. scan_function ports bus device (of_nat function)) [0..<functions] (found, con, d))"

definition pci_scan :: "'d pci_ports \<Rightarrow> console \<Rightarrow> 'd \<Rightarrow> console \<times> 'd" where
  "pci_scan ports con d =
     (case fold (\<lambda>device. scan_device ports 0 (of_nat device)) [0..<32] (0, write_line ''bus dev fn vendor device class subclass'' con, d)
      of (found, con, d) \<Rightarrow> (if found = 0 then write_line ''no pci devices found'' con else con, d))"

section \<open>Configuration space\<close>

text \<open>The fields of an address, and the reference: what a register of the space \<open>view d\<close> holds at an offset.\<close>

definition config_at :: "(u8 \<Rightarrow> u8 \<Rightarrow> u8 \<Rightarrow> u8 \<Rightarrow> u32) \<Rightarrow> u32 \<Rightarrow> u32" where
  "config_at cfg a =
     cfg (ucast (drop_bit 16 a)) (ucast (drop_bit 11 a) AND 0x1F) (ucast (drop_bit 8 a) AND 0x07) (ucast a AND 0xFC)"

lemma config_at_address:
  assumes "device < 32" "function < 8"
  shows "config_at cfg (pci_address bus device function offset) = cfg bus device function (offset AND 0xFC)"
proof -
  have "take_bit 5 device = device" "take_bit 3 function = function"
    using assms by (simp_all add: take_bit_eq_self_iff_drop_bit_eq_0 drop_bit_eq_div div_word_less)
  then have d: "bit device n \<Longrightarrow> n < 5" and f: "bit function n \<Longrightarrow> n < 3" for n
    by (metis bit_take_bit_iff)+
  let ?a = "pci_address bus device function offset"
  have nums: "bit (0x80000000 :: u32) n \<longleftrightarrow> n = 31" "bit (0x8000 :: u32) n \<longleftrightarrow> n = 15" "bit (0x100000 :: u32) n \<longleftrightarrow> n = 20"
    "bit (0x800000 :: u32) n \<longleftrightarrow> n = 23" "bit (0x1F :: u8) n \<longleftrightarrow> n < 5" "bit (7 :: u8) n \<longleftrightarrow> n < 3"
    "bit (0xFC :: u8) n \<longleftrightarrow> 2 \<le> n \<and> n < 8" "bit (0xFC :: u32) n \<longleftrightarrow> 2 \<le> n \<and> n < 8" for n
  proof -
    have e: "(0x80000000 :: u32) = push_bit 31 1" "(0x8000 :: u32) = push_bit 15 1" "(0x100000 :: u32) = push_bit 20 1"
      "(0x800000 :: u32) = push_bit 23 1" "(0x1F :: u8) = mask 5" "(7 :: u8) = mask 3" "(0xFC :: u8) = push_bit 2 (mask 6)"
      "(0xFC :: u32) = push_bit 2 (mask 6)" by (simp_all add: mask_eq_exp_minus_1 push_bit_eq_mult)
    show "bit (0x80000000 :: u32) n \<longleftrightarrow> n = 31" "bit (0x8000 :: u32) n \<longleftrightarrow> n = 15" "bit (0x100000 :: u32) n \<longleftrightarrow> n = 20"
    "bit (0x800000 :: u32) n \<longleftrightarrow> n = 23" "bit (0x1F :: u8) n \<longleftrightarrow> n < 5" "bit (7 :: u8) n \<longleftrightarrow> n < 3"
      "bit (0xFC :: u8) n \<longleftrightarrow> 2 \<le> n \<and> n < 8" "bit (0xFC :: u32) n \<longleftrightarrow> 2 \<le> n \<and> n < 8"
      unfolding e bit_mask_iff bit_push_bit_iff bit_1_iff possible_bit_word by auto
  qed
  have "ucast (drop_bit 16 ?a) = bus"
    by (rule bit_eqI) (auto simp: pci_address_def bit_simps nums simp del: bit_numeral_word_iff dest: d f)
  moreover have "ucast (drop_bit 11 ?a) AND 0x1F = device"
    by (rule bit_eqI) (auto simp: pci_address_def bit_simps nums simp del: bit_numeral_word_iff dest: d f)
  moreover have "ucast (drop_bit 8 ?a) AND 0x07 = function"
    by (rule bit_eqI) (auto simp: pci_address_def bit_simps nums simp del: bit_numeral_word_iff dest: d f)
  moreover have "ucast ?a AND 0xFC = offset AND 0xFC"
    by (rule bit_eqI) (auto simp: pci_address_def bit_simps nums simp del: bit_numeral_word_iff dest: d f)
  ultimately show ?thesis by (simp add: config_at_def)
qed

lemma pci_address_enabled: "pci_address bus device function offset AND 0x80000000 \<noteq> 0"
proof -
  have "(0x80000000 :: u32) = push_bit 31 1" by (simp add: push_bit_eq_mult)
  then have "bit (pci_address bus device function offset AND 0x80000000) 31"
    unfolding pci_address_def by (simp only: bit_and_iff bit_or_iff bit_push_bit_iff) simp
  then show ?thesis by (metis bit_0_eq bot_fun_def bot_bool_def)
qed

text \<open>The promise of the two ports: an enabled address selects the register that the second port then reads.\<close>

locale config_space =
  fixes ports :: "'d pci_ports" and view :: "'d \<Rightarrow> u8 \<Rightarrow> u8 \<Rightarrow> u8 \<Rightarrow> u8 \<Rightarrow> u32"
  assumes select: "a AND 0x80000000 \<noteq> 0 \<Longrightarrow> p_inl ports 0xCFC (p_outl ports 0xCF8 a d) = (v, d') \<Longrightarrow>
    v = config_at (view d) a \<and> view d' = view d"

text \<open>The fields of a function, from its registers 0, 8 and 12.\<close>

type_synonym config = "u8 \<Rightarrow> u8 \<Rightarrow> u8 \<Rightarrow> u8 \<Rightarrow> u32"

definition vendor_of :: "config \<Rightarrow> u8 \<Rightarrow> u8 \<Rightarrow> u16" where
  "vendor_of cfg device function = ucast (cfg 0 device function 0)"

definition many_functions :: "config \<Rightarrow> u8 \<Rightarrow> bool" where
  "many_functions cfg device \<longleftrightarrow> bit (cfg 0 device 0 12) 23"

definition function_line :: "config \<Rightarrow> u8 \<times> u8 \<Rightarrow> console \<Rightarrow> console" where
  "function_line cfg = (\<lambda>(device, function).
     pci_line 0 device function (vendor_of cfg device function) (ucast (drop_bit 16 (cfg 0 device function 0)))
       (ucast (drop_bit 24 (cfg 0 device function 8))) (ucast (drop_bit 16 (cfg 0 device function 8))))"

definition functions_of :: "config \<Rightarrow> u8 \<Rightarrow> (u8 \<times> u8) list" where
  "functions_of cfg device =
     (if vendor_of cfg device 0 = 0xFFFF then []
      else map (Pair device) (filter (\<lambda>function. vendor_of cfg device function \<noteq> 0xFFFF)
        (if many_functions cfg device then map of_nat [0..<8] else [0])))"

definition present_functions :: "config \<Rightarrow> (u8 \<times> u8) list" where
  "present_functions cfg = concat (map (functions_of cfg) (map of_nat [0..<32]))"

lemma ucast_and_mask: "LENGTH('b::len) \<le> n \<Longrightarrow> (ucast (x AND mask n) :: 'b word) = ucast x" for x :: "'a::len word"
  by (rule bit_eqI) (auto simp: bit_simps dest: bit_imp_le_length)

lemma header_type_bit: "(ucast (drop_bit 16 x) :: u8) AND 0x80 \<noteq> 0 \<longleftrightarrow> bit x 23" for x :: u32
proof -
  have e: "(0x80 :: u8) = push_bit 7 1" by (simp add: push_bit_eq_mult)
  have "(b AND push_bit 7 1 \<noteq> 0) = bit b 7" for b :: u8
    by (metis and_exp_eq_0_iff_not_bit push_bit_of_1)
  then show ?thesis unfolding e by (simp add: bit_simps)
qed

context config_space
begin

lemma read_register:
  assumes "device < 32" "function < 8"
  shows "\<exists>d'. pci_read_u32 ports bus device function offset d = (view d bus device function (offset AND 0xFC), d') \<and> view d' = view d"
proof -
  obtain v d' where r: "pci_read_u32 ports bus device function offset d = (v, d')" by force
  then have "v = config_at (view d) (pci_address bus device function offset) \<and> view d' = view d"
    using select [OF pci_address_enabled] by (simp add: pci_read_u32_def)
  with r config_at_address [OF assms] show ?thesis by simp
qed

lemma read_u16:
  assumes "device < 32" "func < 8"
  shows "\<exists>d'. pci_read_u16 ports bus device func offset d =
    (ucast (drop_bit (unat ((offset AND 2) * 8)) (view d bus device func (offset AND 0xFC))), d') \<and> view d' = view d"
proof -
  obtain d' where "pci_read_u32 ports bus device func (offset AND 0xFC) d = (view d bus device func (offset AND 0xFC), d')"
    "view d' = view d" using read_register [OF assms, of bus "offset AND 0xFC" d] by (auto simp: and.assoc)
  moreover have "(ucast (x AND 0xFFFF) :: u16) = ucast x" for x :: u32
    using ucast_and_mask [where 'b = 16 and n = 16 and x = x] by (simp add: mask_eq_exp_minus_1)
  ultimately show ?thesis by (simp add: pci_read_u16_def)
qed

lemma read_u8:
  assumes "device < 32" "func < 8"
  shows "\<exists>d'. pci_read_u8 ports bus device func offset d =
    (ucast (drop_bit (unat ((offset AND 3) * 8)) (view d bus device func (offset AND 0xFC))), d') \<and> view d' = view d"
proof -
  obtain d' where "pci_read_u32 ports bus device func (offset AND 0xFC) d = (view d bus device func (offset AND 0xFC), d')"
    "view d' = view d" using read_register [OF assms, of bus "offset AND 0xFC" d] by (auto simp: and.assoc)
  moreover have "(ucast (x AND 0xFF) :: u8) = ucast x" for x :: u32
    using ucast_and_mask [where 'b = 8 and n = 8 and x = x] by (simp add: mask_eq_exp_minus_1)
  ultimately show ?thesis by (simp add: pci_read_u8_def)
qed

lemma scan_function_lists:
  assumes "device < 32" "function < 8"
  shows "\<exists>d'. scan_function ports 0 device function (found, con, d) =
      (if vendor_of (view d) device function = 0xFFFF then (found, con, d')
       else (found + 1, function_line (view d) (device, function) con, d')) \<and> view d' = view d"
proof -
  obtain d1 where r1: "pci_read_u16 ports 0 device function 0x00 d = (vendor_of (view d) device function, d1)" "view d1 = view d"
    using read_u16 [OF assms, of 0 0 d] by (auto simp: vendor_of_def)
  obtain d2 where r2: "pci_read_u16 ports 0 device function 0x02 d1 = (ucast (drop_bit 16 (view d 0 device function 0)), d2)" "view d2 = view d"
    using read_u16 [OF assms, of 0 2 d1] by (auto simp: r1)
  obtain d3 where r3: "pci_read_u8 ports 0 device function 0x0B d2 = (ucast (drop_bit 24 (view d 0 device function 8)), d3)" "view d3 = view d"
    using read_u8 [OF assms, of 0 "0x0B" d2] by (auto simp: r2)
  obtain d4 where r4: "pci_read_u8 ports 0 device function 0x0A d3 = (ucast (drop_bit 16 (view d 0 device function 8)), d4)" "view d4 = view d"
    using read_u8 [OF assms, of 0 "0x0A" d3] by (auto simp: r3)
  show ?thesis using r1(2) r4(2) by (auto simp: scan_function_def r1(1) r2(1) r3(1) r4(1) function_line_def)
qed

lemma scan_functions_list:
  assumes "device < 32" "\<forall>n \<in> set ns. n < 8"
  shows "\<exists>d'. fold (\<lambda>n. scan_function ports 0 device (of_nat n)) ns (found, con, d) =
      (let fs = map (Pair device) (filter (\<lambda>f. vendor_of (view d) device f \<noteq> 0xFFFF) (map of_nat ns))
       in (found + length fs, fold (function_line (view d)) fs con, d')) \<and> view d' = view d"
  using assms(2)
proof (induction ns arbitrary: found con d)
  case (Cons n ns)
  have "(of_nat n :: u8) < 8" using Cons.prems by (simp add: word_less_nat_alt unat_of_nat)
  from scan_function_lists [OF assms(1) this, of found con d] obtain d1 where d1:
    "scan_function ports 0 device (of_nat n) (found, con, d) =
      (if vendor_of (view d) device (of_nat n) = 0xFFFF then (found, con, d1)
       else (found + 1, function_line (view d) (device, of_nat n) con, d1))" "view d1 = view d" by blast
  show ?case
  proof (cases "vendor_of (view d) device (of_nat n) = 0xFFFF")
    case True
    with Cons.IH [of found con d1] Cons.prems d1 show ?thesis by (auto simp: Let_def)
  next
    case False
    with Cons.IH [of "found + 1" "function_line (view d) (device, of_nat n) con" d1] Cons.prems d1 show ?thesis by (auto simp: Let_def)
  qed
qed simp

lemma scan_device_lists:
  assumes "device < 32"
  shows "\<exists>d'. scan_device ports 0 device (found, con, d) =
      (found + length (functions_of (view d) device), fold (function_line (view d)) (functions_of (view d) device) con, d') \<and>
    view d' = view d"
proof -
  obtain d1 where r1: "pci_read_u16 ports 0 device 0 0x00 d = (vendor_of (view d) device 0, d1)" "view d1 = view d"
    using read_u16 [OF assms, where func = 0 and bus = 0 and offset = 0 and d = d] by (auto simp: vendor_of_def)
  show ?thesis
  proof (cases "vendor_of (view d) device 0 = 0xFFFF")
    case True
    with r1 show ?thesis by (simp add: scan_device_def functions_of_def)
  next
    case False
    obtain d2 where r2: "pci_read_u8 ports 0 device 0 0x0E d1 = (ucast (drop_bit 16 (view d 0 device 0 12)), d2)" "view d2 = view d"
      using read_u8 [OF assms, where func = 0 and bus = 0 and offset = "0x0E" and d = d1] by (auto simp: r1)
    have multi: "(ucast (drop_bit 16 (view d 0 device 0 12)) :: u8) AND 0x80 \<noteq> 0 \<longleftrightarrow> many_functions (view d) device"
      by (simp only: header_type_bit many_functions_def)
    let ?ns = "[0..<if many_functions (view d) device then 8 else 1]"
    have "\<forall>n \<in> set ?ns. n < 8" by simp
    from scan_functions_list [OF assms this, of found con d2] obtain d3 where d3:
      "fold (\<lambda>n. scan_function ports 0 device (of_nat n)) ?ns (found, con, d2) =
        (let fs = map (Pair device) (filter (\<lambda>f. vendor_of (view d) device f \<noteq> 0xFFFF) (map of_nat ?ns))
         in (found + length fs, fold (function_line (view d)) fs con, d3))" "view d3 = view d" by (auto simp: r2)
    have "functions_of (view d) device = map (Pair device) (filter (\<lambda>f. vendor_of (view d) device f \<noteq> 0xFFFF) (map of_nat ?ns))"
      using False by (simp add: functions_of_def)
    with d3 show ?thesis by (simp add: scan_device_def r1(1) r2(1) False multi Let_def)
  qed
qed

lemma scan_devices_list:
  assumes "\<forall>n \<in> set ns. n < 32"
  shows "\<exists>d'. fold (\<lambda>n. scan_device ports 0 (of_nat n)) ns (found, con, d) =
      (let fs = concat (map (functions_of (view d)) (map of_nat ns))
       in (found + length fs, fold (function_line (view d)) fs con, d')) \<and> view d' = view d"
  using assms
proof (induction ns arbitrary: found con d)
  case (Cons n ns)
  have "(of_nat n :: u8) < 32" using Cons.prems by (simp add: word_less_nat_alt unat_of_nat)
  from scan_device_lists [OF this, of found con d] obtain d1 where d1: "scan_device ports 0 (of_nat n) (found, con, d) =
      (found + length (functions_of (view d) (of_nat n)), fold (function_line (view d)) (functions_of (view d) (of_nat n)) con, d1)"
    "view d1 = view d" by blast
  with Cons.IH [of "found + length (functions_of (view d) (of_nat n))" "fold (function_line (view d)) (functions_of (view d) (of_nat n)) con" d1]
    Cons.prems show ?case by (auto simp: Let_def add.assoc)
qed simp

lemma scan_lists:
  "\<exists>d'. pci_scan ports con d =
    (let con = fold (function_line (view d)) (present_functions (view d)) (write_line ''bus dev fn vendor device class subclass'' con)
     in if present_functions (view d) = [] then write_line ''no pci devices found'' con else con, d') \<and> view d' = view d"
  using scan_devices_list [of "[0..<32]" 0 "write_line ''bus dev fn vendor device class subclass'' con" d]
  by (auto simp: pci_scan_def present_functions_def Let_def simp del: upt_conv_Cons upt_Suc)

end

section \<open>The reference bridge\<close>

record pci_bridge =
  br_latch :: u32
  br_config :: config

definition bridge_ports :: "pci_bridge pci_ports" where
  "bridge_ports = \<lparr>p_outl = (\<lambda>port v br. if port = 0xCF8 then br\<lparr>br_latch := v\<rparr> else br),
     p_inl = (\<lambda>port br. (if port = 0xCFC \<and> br_latch br AND 0x80000000 \<noteq> 0 then config_at (br_config br) (br_latch br) else - 1, br))\<rparr>"

interpretation bridge: config_space bridge_ports br_config
  by unfold_locales (auto simp: bridge_ports_def)

text \<open>
  C38. The PCI command lists, for every contents of the configuration space, exactly the functions of bus 0 that
  answer, in the order of devices and functions: function 0 of each device that is there, and the functions 1 to 7 only of
  a device whose header says that it has several.  Each line shows the vendor, device and class fields of that
  function; without any function it says so.  The scan leaves the configuration space as it was.
\<close>

theorem pci_scan_lists:
  "\<exists>br'. pci_scan bridge_ports con br =
    (let con = fold (function_line (br_config br)) (present_functions (br_config br))
           (write_line ''bus dev fn vendor device class subclass'' con)
     in if present_functions (br_config br) = [] then write_line ''no pci devices found'' con else con, br') \<and>
    br_config br' = br_config br"
  by (rule bridge.scan_lists)

end
