(* ===== verification/Kernel_Shell.thy ===== *)
theory Kernel_Shell
  imports Pfs_Commands Program_Spawn Ram_Fs Pci_Bus Rtc_Time Text_Lines
begin

text \<open>
  The shell inside the kernel (\<^verbatim>\<open>run_command\<close>, \<^verbatim>\<open>shell_loop\<close>, \<^verbatim>\<open>run_script\<close> and the diagnostic commands of
  \<^verbatim>\<open>kernel/src/main.rs\<close>): its state is the console, the RAM file system, the statics of the kernel, the next scratch address
  and the devices.  A command returns that state, or the way in which the shell does not come back: the halt command, the
  panic handler, a program whose exit is waited for forever, or a timer that never fires.
\<close>

section \<open>State\<close>

record 'd kshell =
  ks_console :: console
  ks_fs :: ram_fs
  ks_kernel :: kernel
  ks_scratch :: u64
  ks_dev :: 'd

text \<open>
  What the shell finds: the ports, the boot image, the memory map of the firmware, the bytes beyond an image in memory, the
  address of the trampoline, the tick count, the cycle counter as the volume's time stamps read it, and the
  wait for a program, during which the scheduled processes run.
\<close>

record 'd kernel_env =
  ke_bus :: "'d port_bus"
  ke_pci :: "'d pci_ports"
  ke_bootfs :: bootfs
  ke_memory_map :: "efi_memory_descriptor list option"
  ke_beyond :: "u64 \<Rightarrow> u8"
  ke_trampoline :: u64
  ke_ticks :: "'d \<Rightarrow> u64"
  ke_now :: "'d \<Rightarrow> u64"
  ke_wait :: "u32 \<Rightarrow> kernel \<Rightarrow> 'd \<Rightarrow> (process_status option \<times> kernel \<times> 'd) option"

datatype 'd no_return = Halted "'d kshell" | Panicked | Waiting

type_synonym 'd after = "'d no_return + 'd kshell"

definition after_then :: "'e + 's \<Rightarrow> ('s \<Rightarrow> 'e + 't) \<Rightarrow> 'e + 't" where
  "after_then r f = (case r of Inl e \<Rightarrow> Inl e | Inr s \<Rightarrow> f s)"

text \<open>The ways a command uses the state.\<close>

definition on_con :: "(console \<Rightarrow> console) \<Rightarrow> 'd kshell \<Rightarrow> 'd kshell" where
  "on_con f s = s\<lparr>ks_console := f (ks_console s)\<rparr>"

definition on_fs :: "(console \<Rightarrow> ram_fs \<Rightarrow> console \<times> ram_fs) \<Rightarrow> 'd kshell \<Rightarrow> 'd kshell" where
  "on_fs f s = (case f (ks_console s) (ks_fs s) of (con, fs) \<Rightarrow> s\<lparr>ks_console := con, ks_fs := fs\<rparr>)"

definition on_dev :: "(console \<Rightarrow> 'd \<Rightarrow> console \<times> 'd) \<Rightarrow> 'd kshell \<Rightarrow> 'd kshell" where
  "on_dev f s = (case f (ks_console s) (ks_dev s) of (con, d) \<Rightarrow> s\<lparr>ks_console := con, ks_dev := d\<rparr>)"

definition on_kernel :: "(console \<Rightarrow> kernel \<Rightarrow> console \<times> kernel) \<Rightarrow> 'd kshell \<Rightarrow> 'd kshell" where
  "on_kernel f s = (case f (ks_console s) (ks_kernel s) of (con, k) \<Rightarrow> s\<lparr>ks_console := con, ks_kernel := k\<rparr>)"

section \<open>Memory and paging\<close>

definition KERNEL_SCRATCH_BASE :: u64 where "KERNEL_SCRATCH_BASE = 0xFFFF800000000000"

text \<open>The number of conventional pages and the highest end of conventional memory.\<close>

definition conventional_memory :: "efi_memory_descriptor list \<Rightarrow> u64 \<times> u64" where
  "conventional_memory ds =
     fold (\<lambda>d (pages, highest).
         let stop = md_physical_start d + md_number_of_pages d * 4096 in
         if md_typ d = 7 then (pages + md_number_of_pages d, if stop > highest then stop else highest) else (pages, highest))
       ds (0, 0)"

definition memory_summary :: "efi_memory_descriptor list option \<Rightarrow> phys_page_allocator \<Rightarrow> u64 \<Rightarrow> console \<Rightarrow> console" where
  "memory_summary memory_map a ticks con =
     (let con = write_line ''memory:'' con;
          con = write_line ''  kernel linked at 0x100000'' con;
          con = write_line ''  VGA text buffer at 0xb8000'' con
      in case memory_map of
           None \<Rightarrow> write_line ''  UEFI memory map: unavailable'' con
         | Some ds \<Rightarrow>
             (case conventional_memory ds of (conventional_pages, highest) \<Rightarrow>
              let con = console_write ''  UEFI memory map: '' con;
                  con = write_line '' descriptors'' (write_usize (length ds) con);
                  con = console_write ''  conventional free RAM: '' con;
                  con = write_line '' MiB'' (write_usize (unat (conventional_pages * 4096 div 1024 div 1024)) con);
                  con = console_write ''  highest free RAM end: 0x'' con;
                  con = new_line (write_hex_u64 highest con);
                  con = console_write ''  page allocator ranges: '' con;
                  con = new_line (write_usize (range_count a) con);
                  con = console_write ''  page allocator free: '' con;
                  con = console_write '' pages / '' (write_usize (unat (free_pages a)) con);
                  con = write_line '' MiB'' (write_usize (unat (free_pages a * PAGE_SIZE div 1024 div 1024)) con);
                  con = console_write ''  page allocator used: '' con;
                  con = write_line '' pages'' (write_usize (unat (allocated_pages a)) con);
                  con = console_write ''  reusable free stack: '' con;
                  con = write_line '' pages'' (write_usize (free_count a) con);
                  con = console_write ''  timer ticks (IRQ0, ~100 Hz): '' con
              in new_line (write_usize (unat ticks) con)))"

definition pagealloc_command :: "console \<Rightarrow> kernel \<Rightarrow> console \<times> kernel" where
  "pagealloc_command con k =
     (case alloc_page (phys_alloc k) of
        (None, a) \<Rightarrow> (write_line ''pagealloc: out of pages'' con, k\<lparr>phys_alloc := a\<rparr>)
      | (Some page, a) \<Rightarrow>
          (new_line (write_hex_u64 page (console_write ''pagealloc: 0x'' con)), k\<lparr>phys_alloc := a\<rparr>))"

text \<open>The scan of the root table: present entries, the first and the last of them, and huge entries.\<close>

definition count_entry :: "(u64 \<Rightarrow> u64) \<Rightarrow> u64 \<Rightarrow> nat \<Rightarrow> nat \<times> nat \<times> nat \<times> nat \<Rightarrow> nat \<times> nat \<times> nat \<times> nat" where
  "count_entry m pml4 index = (\<lambda>(present, first, final, huge).
     let entry = m (entry_addr pml4 index) in
     if entry AND PAGE_PRESENT \<noteq> 0 then
       (present + 1, if first = PAGE_TABLE_ENTRIES then index else first, index,
        if entry AND PAGE_HUGE \<noteq> 0 then huge + 1 else huge)
     else (present, first, final, huge))"

definition count_entries :: "(u64 \<Rightarrow> u64) \<Rightarrow> u64 \<Rightarrow> nat \<times> nat \<times> nat \<times> nat" where
  "count_entries m pml4 = fold (count_entry m pml4) [0..<PAGE_TABLE_ENTRIES] (0, PAGE_TABLE_ENTRIES, 0, 0)"

definition paging_summary :: "kernel \<Rightarrow> console \<Rightarrow> console" where
  "paging_summary k con =
     (let pml4_phys = cr3 k AND 0x000FFFFFFFFFF000;
          con = write_line ''paging:'' con;
          con = new_line (write_hex_u64 (cr3 k) (console_write ''  cr3: 0x'' con));
          con = new_line (write_hex_u64 pml4_phys (console_write ''  pml4: 0x'' con));
          kernel_pml4 = kernel_pml4_phys k;
          con = (if kernel_pml4 \<noteq> 0 then new_line (write_hex_u64 kernel_pml4 (console_write ''  kernel-owned pml4: 0x'' con)) else con)
      in case count_entries (phys_mem k) pml4_phys of (present, first, final, huge) \<Rightarrow>
      let con = write_usize present (console_write ''  pml4 present entries: '' con);
          con = (if present > 0 then
                   console_write '')'' (write_usize final (console_write ''..'' (write_usize first (console_write '' ('' con))))
                 else con);
          con = new_line con;
          con = new_line (write_usize huge (console_write ''  pml4 huge entries: '' con))
      in if kernel_pml4 = pml4_phys \<and> kernel_pml4 \<noteq> 0
         then write_line ''  mapper: kernel-owned PML4 active, lower-level mapping edits next'' con
         else write_line ''  mapper: firmware PML4 active, run vmclone to take ownership'' con)"

definition vmclone_command :: "console \<Rightarrow> kernel \<Rightarrow> console \<times> kernel" where
  "vmclone_command con k =
     (let old_pml4 = cr3 k AND 0x000FFFFFFFFFF000 in
      case ensure_kernel_pml4 k of
        (None, k) \<Rightarrow> (write_line ''vmclone: out of pages'' con, k)
      | (Some new_pml4, k) \<Rightarrow>
          let con = write_hex_u64 old_pml4 (console_write ''vmclone: 0x'' con);
              con = write_hex_u64 new_pml4 (console_write '' -> 0x'' con)
          in (new_line con, k))"

definition ptalloc_command :: "console \<Rightarrow> kernel \<Rightarrow> console \<times> kernel" where
  "ptalloc_command con k =
     (case alloc_zeroed_page k of
        (None, k) \<Rightarrow> (write_line ''ptalloc: out of pages'' con, k)
      | (Some page, k) \<Rightarrow>
          let zero = page_is_zeroed page k;
              con = write_hex_u64 page (console_write ''ptalloc: 0x'' con);
              con = console_write '' zeroed='' con
          in (write_line (if zero then ''yes'' else ''no'') con, k))"

text \<open>A 64-bit load at an aligned virtual address under the active tables, beside the store.\<close>

definition load_word :: "u64 \<Rightarrow> 'a paging_scheme \<Rightarrow> u64 option" where
  "load_word virt s = map_option (\<lambda>page. phys_mem s (word_addr page virt)) (translate (phys_mem s) (cr3 s) virt)"

definition MAP_MARKER :: u64 where "MAP_MARKER = 0x52594D4F535F4D41"

text \<open>
  \<^verbatim>\<open>maptest\<close>, with the scratch address before and after it; None is the page fault of an address that is not mapped
  under the active tables.
\<close>

definition maptest_command :: "console \<Rightarrow> u64 \<Rightarrow> kernel \<Rightarrow> (console \<times> u64 \<times> kernel) option" where
  "maptest_command con scratch k =
     (if kernel_pml4_phys k = 0 then Some (write_line ''maptest: run vmclone first'' con, scratch, k)
      else
        case alloc_zeroed_page k of
          (None, k) \<Rightarrow> Some (write_line ''maptest: out of pages'' con, scratch, k)
        | (Some phys, k) \<Rightarrow>
        let virt = scratch; scratch = scratch + PAGE_SIZE in
        case map_page (kernel_pml4_phys k) virt phys (PAGE_PRESENT OR PAGE_WRITABLE) k of
          (False, k) \<Rightarrow> Some (write_line ''maptest: map failed'' con, scratch, k)
        | (True, k) \<Rightarrow>
        let k = store_word virt MAP_MARKER k in
        case load_word virt k of
          None \<Rightarrow> None
        | Some read_back \<Rightarrow>
            let con = write_hex_u64 virt (console_write ''maptest: virt 0x'' con);
                con = write_hex_u64 phys (console_write '' -> phys 0x'' con);
                con = console_write '' readback='' con
            in Some (if read_back = MAP_MARKER then write_line ''ok'' con
                     else new_line (write_hex_u64 read_back (console_write ''bad 0x'' con)), scratch, k))"

section \<open>Fixed texts\<close>

definition write_lines :: "string list \<Rightarrow> console \<Rightarrow> console" where
  "write_lines ls con = fold write_line ls con"

definition show_drivers :: "console \<Rightarrow> console" where
  "show_drivers = write_lines
    [''driver                 state'',
     ''serial 16550           active'',
     ''ps2 keyboard           polling'',
     ''vga text               active'',
     ''uefi gop framebuffer   active'',
     ''ramfs                  active'',
     ''pci config             polling'',
     ''ata/net/sound          planned from MOROS study'']"

definition show_devices :: "console \<Rightarrow> console" where
  "show_devices = write_lines
    [''/dev/console      serial + keyboard console'',
     ''/dev/null         planned sink device'',
     ''/dev/random       planned rng device'',
     ''/dev/vga          text + framebuffer display'',
     ''/dev/kbd          ps2 keyboard poller'',
     ''/dev/pci          config-space scanner'',
     ''/dev/ramfs        in-kernel volatile filesystem'']"

definition help_lines :: "string list" where
  "help_lines =
    [''commands:'',
     ''  help                 show commands'',
     ''  clear                clear screen'',
     ''  about                kernel summary'',
     ''  mem                  memory summary'',
     ''  pagealloc            allocate one physical page'',
     ''  paging               inspect active page tables'',
     ''  vmclone              clone active PML4 and switch CR3'',
     ''  ptalloc              allocate zeroed page-table page'',
     ''  maptest              map and verify a scratch page'',
     ''  video                show active video mode'',
     ''  df                   filesystem usage'',
     ''  fsformat             format persistent RYMFS disk'',
     ''  pls                  list persistent files'',
     ''  pread <file>         read persistent file'',
     ''  pwrite <file> <txt>  write persistent file'',
     ''  pdelete <file>       delete persistent file'',
     ''  pmkdir <dir>         create persistent directory'',
     ''  bootls               list boot filesystem'',
     ''  bootcat <file>       read boot filesystem file'',
     ''  run <program>        run bootfs Rust program'',
     ''  ps                   list processes'',
     ''  wait <pid>           show process exit status'',
     ''  drivers              list kernel drivers'',
     ''  dev                  list pseudo devices'',
     ''  pci                  scan PCI config space'',
     ''  pwd                  print working directory'',
     ''  ls|list              list ramfs entries'',
     ''  cat|read <file>      print file'',
     ''  touch <file>         create empty file'',
     ''  write <file> <text>  replace file'',
     ''  append <file> <txt>  append to file'',
     ''  echo|print <text>    print text'',
     ''  cp|copy <src> <dst>  copy file'',
     ''  mv|move <src> <dst>  move file'',
     ''  rm|delete <file>     remove file'',
     ''  mkdir <name>         create ramfs directory entry'',
     ''  rmdir <name>         remove empty directory entry'',
     ''  cd|goto [/]          show/change current dir'',
     ''  reboot               reset via keyboard controller'',
     ''  halt                 stop the CPU'']"

section \<open>Commands\<close>

definition run_program :: "'d kernel_env \<Rightarrow> bytes \<Rightarrow> bytes \<Rightarrow> 'd kshell \<Rightarrow> 'd after" where
  "run_program env name args s =
     (case run_program_start (ke_beyond env) (ke_trampoline env) name args (ks_console s) (ke_bootfs env) (ks_kernel s) of
        Panic \<Rightarrow> Inl Panicked
      | Ret (None, con, k) \<Rightarrow> Inr (s\<lparr>ks_console := con, ks_kernel := k\<rparr>)
      | Ret (Some index, con, k) \<Rightarrow>
          (case ke_wait env (process_pid k index) k (ks_dev s) of
             None \<Rightarrow> Inl Waiting
           | Some (status, k, d) \<Rightarrow>
               (case run_program_finish index status (case app_console k of Some con \<Rightarrow> con | None \<Rightarrow> con) k of
                  (con, k) \<Rightarrow> Inr (s\<lparr>ks_console := con, ks_kernel := k, ks_dev := d\<rparr>))))"

text \<open>One word is needed, or a usage line is printed.\<close>

definition need1 :: "string \<Rightarrow> bytes \<Rightarrow> (bytes \<Rightarrow> 'd kshell \<Rightarrow> 'd after) \<Rightarrow> 'd kshell \<Rightarrow> 'd after" where
  "need1 usage rest f s =
     (case split_word rest of (name, _) \<Rightarrow> if name = [] then Inr (on_con (write_line usage) s) else f name s)"

definition need_text :: "string \<Rightarrow> bytes \<Rightarrow> (bytes \<Rightarrow> bytes \<Rightarrow> 'd kshell \<Rightarrow> 'd after) \<Rightarrow> 'd kshell \<Rightarrow> 'd after" where
  "need_text usage rest f s =
     (case split_word rest of (name, contents) \<Rightarrow>
        if name = [] \<or> contents = [] then Inr (on_con (write_line usage) s) else f name contents s)"

definition need2 :: "string \<Rightarrow> bytes \<Rightarrow> (bytes \<Rightarrow> bytes \<Rightarrow> 'd kshell \<Rightarrow> 'd after) \<Rightarrow> 'd kshell \<Rightarrow> 'd after" where
  "need2 usage rest f s =
     (case split_word rest of (src, rest) \<Rightarrow> case split_word rest of (dst, _) \<Rightarrow>
        if src = [] \<or> dst = [] then Inr (on_con (write_line usage) s) else f src dst s)"

abbreviation is_cmd :: "bytes \<Rightarrow> string \<Rightarrow> bool" where "is_cmd cmd name \<equiv> cmd = lit name"

text \<open>The commands on the kernel and on the devices, and then those on the RAM file system and the machine.\<close>

definition volume_command :: "'d kernel_env \<Rightarrow> bytes \<Rightarrow> bytes \<Rightarrow> ('d kshell \<Rightarrow> 'd after) option" where
  "volume_command env cmd rest =
     (if is_cmd cmd ''fsformat'' then Some (\<lambda>s. Inr (on_dev (pfs_format (ke_bus env)) s))
      else if is_cmd cmd ''pls'' then Some (\<lambda>s. Inr (on_dev (pfs_ls (ke_bus env)) s))
      else if is_cmd cmd ''pread'' then
        Some (need1 ''usage: pread <file>'' rest (\<lambda>name s. Inr (on_dev (pfs_read (ke_bus env) name) s)))
      else if is_cmd cmd ''pwrite'' then
        Some (need_text ''usage: pwrite <file> <text>'' rest
          (\<lambda>name contents s. Inr (on_dev (pfs_write (ke_bus env) (ke_now env (ks_dev s)) name contents) s)))
      else if is_cmd cmd ''pdelete'' then
        Some (need1 ''usage: pdelete <file>'' rest (\<lambda>name s. Inr (on_dev (pfs_delete (ke_bus env) name) s)))
      else if is_cmd cmd ''pmkdir'' then
        Some (need1 ''usage: pmkdir <dir>'' rest (\<lambda>name s. Inr (on_dev (pfs_mkdir (ke_bus env) (ke_now env (ks_dev s)) name) s)))
      else None)"

definition memory_command :: "'d kernel_env \<Rightarrow> bytes \<Rightarrow> ('d kshell \<Rightarrow> 'd after) option" where
  "memory_command env cmd =
     (if is_cmd cmd ''mem'' then
        Some (\<lambda>s. Inr (on_con (memory_summary (ke_memory_map env) (phys_alloc (ks_kernel s)) (ke_ticks env (ks_dev s))) s))
      else if is_cmd cmd ''pagealloc'' then Some (\<lambda>s. Inr (on_kernel pagealloc_command s))
      else if is_cmd cmd ''paging'' then Some (\<lambda>s. Inr (on_con (paging_summary (ks_kernel s)) s))
      else if is_cmd cmd ''vmclone'' then Some (\<lambda>s. Inr (on_kernel vmclone_command s))
      else if is_cmd cmd ''ptalloc'' then Some (\<lambda>s. Inr (on_kernel ptalloc_command s))
      else if is_cmd cmd ''maptest'' then
        Some (\<lambda>s. case maptest_command (ks_console s) (ks_scratch s) (ks_kernel s) of
            None \<Rightarrow> Inl Panicked
          | Some (con, scratch, k) \<Rightarrow> Inr (s\<lparr>ks_console := con, ks_scratch := scratch, ks_kernel := k\<rparr>))
      else None)"

definition ram_command :: "bytes \<Rightarrow> bytes \<Rightarrow> ('d kshell \<Rightarrow> 'd after) option" where
  "ram_command cmd rest =
     (if is_cmd cmd ''ls'' \<or> is_cmd cmd ''list'' then Some (\<lambda>s. Inr (on_con (ramfs_ls (ks_fs s)) s))
      else if is_cmd cmd ''cat'' \<or> is_cmd cmd ''read'' then
        Some (need1 ''usage: read <file>'' rest (\<lambda>name s. Inr (on_con (ramfs_cat (ks_fs s) name) s)))
      else if is_cmd cmd ''touch'' then
        Some (need1 ''usage: touch <file>'' rest (\<lambda>name s. Inr (on_fs (ramfs_touch name False) s)))
      else if is_cmd cmd ''write'' then
        Some (need_text ''usage: write <file> <text>'' rest (\<lambda>name contents s. Inr (on_fs (ramfs_write name contents) s)))
      else if is_cmd cmd ''append'' then
        Some (need_text ''usage: append <file> <text>'' rest (\<lambda>name contents s. Inr (on_fs (ramfs_append name contents) s)))
      else if is_cmd cmd ''echo'' \<or> is_cmd cmd ''print'' then Some (\<lambda>s. Inr (on_con (\<lambda>con. new_line (write_bytes rest con)) s))
      else if is_cmd cmd ''cp'' \<or> is_cmd cmd ''copy'' then
        Some (need2 ''usage: copy <src> <dst>'' rest (\<lambda>src dst s. Inr (on_fs (ramfs_copy src dst) s)))
      else if is_cmd cmd ''mv'' \<or> is_cmd cmd ''move'' then
        Some (need2 ''usage: move <src> <dst>'' rest (\<lambda>src dst s. Inr (on_fs (move_entry src dst) s)))
      else if is_cmd cmd ''rm'' \<or> is_cmd cmd ''delete'' then
        Some (need1 ''usage: delete <file>'' rest (\<lambda>name s. Inr (on_fs (ramfs_remove name False) s)))
      else if is_cmd cmd ''mkdir'' then
        Some (need1 ''usage: mkdir <name>'' rest (\<lambda>name s. Inr (on_fs (ramfs_touch name True) s)))
      else if is_cmd cmd ''rmdir'' then
        Some (need1 ''usage: rmdir <name>'' rest (\<lambda>name s. Inr (on_fs (ramfs_remove name True) s)))
      else None)"

definition machine_command :: "'d kernel_env \<Rightarrow> bytes \<Rightarrow> bytes \<Rightarrow> ('d kshell \<Rightarrow> 'd after) option" where
  "machine_command env cmd rest =
     (if is_cmd cmd ''help'' then Some (\<lambda>s. Inr (on_con (write_lines help_lines) s))
      else if is_cmd cmd ''clear'' then Some (\<lambda>s. Inr (on_con console_clear s))
      else if is_cmd cmd ''about'' then
        Some (\<lambda>s. Inr (on_con (write_lines [''RYMOS: Rust toy OS kernel'', ''boot: UEFI loader from FAT32'',
          ''kernel: freestanding x86_64 ELF'', ''shell: in-kernel RAMFS shell'']) s))
      else if is_cmd cmd ''video'' then Some (\<lambda>s. Inr (on_con video_info s))
      else if is_cmd cmd ''df'' then
        Some (\<lambda>s. Inr (on_dev (pfs_df (ke_bus env)) (on_con (ramfs_df (ks_fs s) (ke_bootfs env)) s)))
      else if is_cmd cmd ''bootls'' then Some (\<lambda>s. Inr (on_con (bootfs_ls (ke_bootfs env)) s))
      else if is_cmd cmd ''bootcat'' then
        Some (need1 ''usage: bootcat <file>'' rest (\<lambda>name s. Inr (on_con (bootfs_cat (ke_bootfs env) name) s)))
      else if is_cmd cmd ''run'' then
        Some (\<lambda>s. case split_word rest of (name, args) \<Rightarrow>
          if name = [] then Inr (on_con (write_line ''usage: run <program>'') s) else run_program env name args s)
      else if is_cmd cmd ''ps'' then Some (\<lambda>s. Inr (on_con (process_list (ks_kernel s)) s))
      else if is_cmd cmd ''wait'' then
        Some (need1 ''usage: wait <pid>'' rest (\<lambda>pid s. Inr (on_kernel (process_wait pid) s)))
      else if is_cmd cmd ''drivers'' then Some (\<lambda>s. Inr (on_con show_drivers s))
      else if is_cmd cmd ''dev'' then Some (\<lambda>s. Inr (on_con show_devices s))
      else if is_cmd cmd ''pci'' then Some (\<lambda>s. Inr (on_dev (pci_scan (ke_pci env)) s))
      else if is_cmd cmd ''pwd'' then Some (\<lambda>s. Inr (on_con (write_line ''/'') s))
      else if is_cmd cmd ''cd'' \<or> is_cmd cmd ''goto'' then
        Some (\<lambda>s. Inr (on_con (write_line (if rest = [] \<or> rest = lit ''/'' then ''/'' else ''only / exists in ramfs shell'')) s))
      else if is_cmd cmd ''reboot'' then
        Some (\<lambda>s. Inr (on_dev (\<lambda>con d. (write_line ''rebooting...'' con, p_outb (ke_bus env) KEYBOARD_STATUS 0xFE d)) s))
      else if is_cmd cmd ''halt'' then Some (\<lambda>s. Inl (Halted (on_con (write_line ''halted'') s)))
      else None)"

text \<open>The first group that knows the word runs it; their words differ, so their order does not matter.\<close>

definition find_command :: "'d kernel_env \<Rightarrow> bytes \<Rightarrow> bytes \<Rightarrow> ('d kshell \<Rightarrow> 'd after) option" where
  "find_command env cmd rest =
     (case machine_command env cmd rest of Some f \<Rightarrow> Some f
      | None \<Rightarrow> (case memory_command env cmd of Some f \<Rightarrow> Some f
      | None \<Rightarrow> (case volume_command env cmd rest of Some f \<Rightarrow> Some f
      | None \<Rightarrow> ram_command cmd rest)))"

definition run_command :: "'d kernel_env \<Rightarrow> bytes \<Rightarrow> 'd kshell \<Rightarrow> 'd after" where
  "run_command env input s =
     (let input = trim input in
      if input = [] then Inr s
      else
        case split_word input of (cmd, rest) \<Rightarrow>
          (case find_command env cmd rest of
             Some f \<Rightarrow> f s
           | None \<Rightarrow> Inr (on_con (\<lambda>con. new_line (write_bytes cmd (console_write ''unknown command: '' con))) s)))"

section \<open>Scripts and the interactive loop\<close>

definition strip_cr :: "bytes \<Rightarrow> bytes" where
  "strip_cr line = (if line \<noteq> [] \<and> last line = 13 then take (length line - 1) line else line)"

definition script_line :: "'d kernel_env \<Rightarrow> bytes \<Rightarrow> 'd kshell \<Rightarrow> 'd after" where
  "script_line env line s =
     (let line = trim (strip_cr line) in
      if line \<noteq> [] \<and> \<not> starts_with line (lit ''rem'') then run_command env line s else Inr s)"

fun kernel_script_loop :: "'d kernel_env \<Rightarrow> bytes \<Rightarrow> nat list \<Rightarrow> nat \<Rightarrow> 'd kshell \<Rightarrow> 'd after" where
  "kernel_script_loop env data [] start s = Inr s"
| "kernel_script_loop env data (index # rest) start s =
     (if index = length data \<or> data ! index = 10 then
        after_then (script_line env (subslice data start index) s) (kernel_script_loop env data rest (index + 1))
      else kernel_script_loop env data rest start s)"

definition kernel_run_script :: "'d kernel_env \<Rightarrow> bytes \<Rightarrow> 'd kshell \<Rightarrow> 'd after" where
  "kernel_run_script env name s =
     (case bootfs_find_data (ke_bootfs env) name of
        None \<Rightarrow> Inr s
      | Some data \<Rightarrow>
          kernel_script_loop env data [0..<length data + 1] 0
            (on_con (\<lambda>con. new_line (write_bytes name (console_write ''running '' con))) s))"

definition shell_prompt :: "console \<Rightarrow> console" where
  "shell_prompt = console_write ''rymos:/ $ ''"

text \<open>One turn of \<^verbatim>\<open>shell_loop\<close>: a poll of the input devices and what it does with the byte.\<close>

definition shell_turn :: "'d kernel_env \<Rightarrow> bytes \<times> 'd kshell \<Rightarrow> 'd no_return + bytes \<times> 'd kshell" where
  "shell_turn env = (\<lambda>(input, s).
     case read_input_byte (ke_bus env) (ks_dev s) of
       (None, d) \<Rightarrow> Inr (input, s\<lparr>ks_dev := d\<rparr>)
     | (Some byte, d) \<Rightarrow>
         let s = s\<lparr>ks_dev := d\<rparr> in
         if byte = 13 \<or> byte = 10 then
           after_then (run_command env input (on_con new_line s)) (\<lambda>s. Inr ([], on_con shell_prompt s))
         else case line_key INPUT_MAX byte input (ks_console s) of (input, con) \<Rightarrow> Inr (input, s\<lparr>ks_console := con\<rparr>))"

text \<open>The loop never returns; \<open>shell_turns n\<close> is its state after \<open>n\<close> turns.\<close>

fun shell_turns :: "'d kernel_env \<Rightarrow> nat \<Rightarrow> bytes \<times> 'd kshell \<Rightarrow> 'd no_return + bytes \<times> 'd kshell" where
  "shell_turns env 0 st = Inr st"
| "shell_turns env (Suc n) st = after_then (shell_turn env st) (shell_turns env n)"

section \<open>A script is the run of its lines\<close>

lemma after_then_simps [simp]: "after_then (Inr s) f = f s" "after_then (Inl e) f = Inl e"
  by (simp_all add: after_then_def)

lemma after_then_assoc: "after_then (after_then r f) g = after_then r (\<lambda>s. after_then (f s) g)"
  by (simp add: after_then_def split: sum.split)

lemma after_then_Inr [simp]: "after_then r Inr = r"
  by (simp add: after_then_def split: sum.split)

fun run_commands :: "'d kernel_env \<Rightarrow> bytes list \<Rightarrow> 'd kshell \<Rightarrow> 'd after" where
  "run_commands env [] s = Inr s"
| "run_commands env (c # cs) s = after_then (run_command env c s) (run_commands env cs)"

text \<open>The commands of a script: its lines without blanks around them, but for empty lines and those that begin with \<^verbatim>\<open>rem\<close>.\<close>

definition script_commands :: "bytes \<Rightarrow> bytes list" where
  "script_commands data = filter (\<lambda>l. l \<noteq> [] \<and> \<not> starts_with l (lit ''rem'')) (map (\<lambda>l. trim (strip_cr l)) (split_lines data))"

lemma kernel_script_loop_lines:
  "kernel_script_loop env data is start s =
    run_commands env (filter (\<lambda>l. l \<noteq> [] \<and> \<not> starts_with l (lit ''rem'')) (map (\<lambda>l. trim (strip_cr l)) (line_slices data is start))) s"
proof (induction "is" arbitrary: start s)
  case (Cons i "is")
  then have IH: "kernel_script_loop env data is n = run_commands env (filter (\<lambda>l. l \<noteq> [] \<and> \<not> starts_with l (lit ''rem''))
      (map (\<lambda>l. trim (strip_cr l)) (line_slices data is n)))" for n by (intro ext)
  show ?case by (auto simp: IH script_line_def Let_def simp del: lit_simps)
qed simp

lemma kernel_run_script_commands:
  "kernel_run_script env name s =
    (case bootfs_find_data (ke_bootfs env) name of None \<Rightarrow> Inr s
     | Some data \<Rightarrow> run_commands env (script_commands data)
         (on_con (\<lambda>con. new_line (write_bytes name (console_write ''running '' con))) s))"
  using line_slices_split by (simp add: kernel_run_script_def script_commands_def kernel_script_loop_lines del: upt_Suc split: option.split)

section \<open>A session at the keyboard\<close>

lemma shell_turns_add: "shell_turns env (m + n) st = after_then (shell_turns env m st) (shell_turns env n)"
proof (induction m arbitrary: st)
  case (Suc m)
  then have "shell_turns env (m + n) = (\<lambda>st. after_then (shell_turns env m st) (shell_turns env n))" by (intro ext)
  then show ?case by (simp add: after_then_assoc)
qed simp

text \<open>The echo of keys that do not end the line, and the state in which the command of the line starts.\<close>

definition type_keys :: "bytes \<Rightarrow> bytes \<times> console \<Rightarrow> bytes \<times> console" where
  "type_keys keys st = fold (\<lambda>b (input, con). line_key INPUT_MAX b input con) keys st"

lemma fst_type_keys: "fst (type_keys keys (input, con)) = foldl (edit_key INPUT_MAX) input keys"
proof (induction keys arbitrary: input con)
  case (Cons b keys)
  obtain con1 where "line_key INPUT_MAX b input con = (edit_key INPUT_MAX input b, con1)" by (metis fst_line_key prod.collapse)
  with Cons [of "edit_key INPUT_MAX input b" con1] show ?case by (simp add: type_keys_def)
qed (simp add: type_keys_def)

definition enter_line :: "'d kernel_env \<Rightarrow> bytes \<Rightarrow> 'd \<Rightarrow> bytes \<times> 'd kshell \<Rightarrow> 'd no_return + bytes \<times> 'd kshell" where
  "enter_line env keys d st =
     (case type_keys keys (fst st, ks_console (snd st)) of (line, con) \<Rightarrow>
        after_then (run_command env line ((snd st)\<lparr>ks_dev := d, ks_console := new_line con\<rparr>)) (\<lambda>s. Inr ([], on_con shell_prompt s)))"

lemma shell_line:
  assumes "delivers bus d keys d0" "read_input_byte bus d0 = (Some nl, d1)" "nl = 13 \<or> nl = 10"
    "list_all (\<lambda>b. b \<noteq> 13 \<and> b \<noteq> 10) keys" "d = ks_dev s" "bus = ke_bus env"
  shows "\<exists>n. shell_turns env n (input, s) = enter_line env keys d1 (input, s)"
  using assms
proof (induction arbitrary: input s rule: delivers.induct)
  case (quiet bus d)
  then have "shell_turns env (Suc 0) (input, s) = enter_line env [] d1 (input, s)"
    by (auto simp: shell_turn_def enter_line_def type_keys_def Let_def on_con_def after_then_def split: sum.split)
  then show ?case by blast
next
  case (idle bus d da bytes d2)
  from idle.IH [of "s\<lparr>ks_dev := da\<rparr>" input] idle.prems obtain n where
    n: "shell_turns env n (input, s\<lparr>ks_dev := da\<rparr>) = enter_line env bytes d1 (input, s\<lparr>ks_dev := da\<rparr>)" by auto
  have "shell_turns env (Suc n) (input, s) = enter_line env bytes d1 (input, s)"
    using idle.hyps(1) idle.prems(4,5) n by (simp add: shell_turn_def enter_line_def)
  then show ?case by blast
next
  case (byte bus d b da bytes d2)
  obtain line con where k: "line_key INPUT_MAX b input (ks_console s) = (line, con)" by force
  from byte.IH [of "s\<lparr>ks_dev := da, ks_console := con\<rparr>" line] byte.prems obtain n where
    n: "shell_turns env n (line, s\<lparr>ks_dev := da, ks_console := con\<rparr>) =
      enter_line env bytes d1 (line, s\<lparr>ks_dev := da, ks_console := con\<rparr>)" by auto
  have "shell_turns env (Suc n) (input, s) = enter_line env (b # bytes) d1 (input, s)"
    using byte.hyps(1) byte.prems(3-5) n k by (simp add: shell_turn_def enter_line_def type_keys_def Let_def)
  then show ?case by blast
qed

text \<open>
  A session: at the prompt the devices deliver the keys of a line and then its end, the command runs and comes back, and
  so on; the next line is read from the devices as the command has left them.
\<close>

inductive session :: "'d kernel_env \<Rightarrow> 'd kshell \<Rightarrow> bytes list \<Rightarrow> 'd kshell \<Rightarrow> bool" where
  over: "session env s [] s"
| line: "delivers (ke_bus env) (ks_dev s) keys d0 \<Longrightarrow> read_input_byte (ke_bus env) d0 = (Some nl, d1) \<Longrightarrow> nl = 13 \<or> nl = 10 \<Longrightarrow>
    list_all (\<lambda>b. b \<noteq> 13 \<and> b \<noteq> 10) keys \<Longrightarrow>
    run_command env (foldl (edit_key INPUT_MAX) [] keys)
      (s\<lparr>ks_dev := d1, ks_console := new_line (snd (type_keys keys ([], ks_console s)))\<rparr>) = Inr s1 \<Longrightarrow>
    session env (on_con shell_prompt s1) ls s' \<Longrightarrow> session env s (foldl (edit_key INPUT_MAX) [] keys # ls) s'"

text \<open>
  C39. The interactive loop runs a session: whatever idle polls come in between, after some number of turns it has run
  exactly the commands of the session, each the edited line of the keys typed, in order, and waits at
  the prompt with an empty line, the console showing the echo of the keys and the output of the commands.
\<close>

theorem shell_session:
  assumes "session env s commands s'"
  shows "\<exists>n. shell_turns env n ([], s) = Inr ([], s')"
  using assms
proof (induction rule: session.induct)
  case (over env s)
  have "shell_turns env 0 ([], s) = Inr ([], s)" by simp
  then show ?case by blast
next
  case (line env s keys d0 nl d1 s1 ls s')
  from shell_line [OF line.hyps(1-4) refl refl] obtain n where n: "shell_turns env n ([], s) = enter_line env keys d1 ([], s)" by blast
  from line.IH obtain m where m: "shell_turns env m ([], on_con shell_prompt s1) = Inr ([], s')" by blast
  have "enter_line env keys d1 ([], s) = Inr ([], on_con shell_prompt s1)"
    using line.hyps(5) fst_type_keys [of keys "[]" "ks_console s"]
    by (cases "type_keys keys ([], ks_console s)") (simp add: enter_line_def)
  with n m have "shell_turns env (n + m) ([], s) = Inr ([], s')" by (simp add: shell_turns_add)
  then show ?case by blast
qed

definition demo_env :: "bytes kernel_env" where
  "demo_env = \<lparr>ke_bus = demo_serial, ke_pci = \<lparr>p_outl = (\<lambda>port v d. d), p_inl = (\<lambda>port d. (- 1, d))\<rparr>, ke_bootfs = None,
     ke_memory_map = None, ke_beyond = (\<lambda>a. 0), ke_trampoline = 0, ke_ticks = (\<lambda>d. 0), ke_now = (\<lambda>d. 0),
     ke_wait = (\<lambda>pid k d. Some (None, k, d))\<rparr>"

definition demo_kshell :: "bytes \<Rightarrow> bytes kshell" where
  "demo_kshell keys = \<lparr>ks_console = console_new (\<lambda>a. 0) (\<lambda>a. 0) None, ks_fs = ramfs_new, ks_kernel = demo_state,
     ks_scratch = KERNEL_SCRATCH_BASE, ks_dev = keys\<rparr>"

theorem shell_session_witness:
  "\<exists>n s'. shell_turns demo_env n ([], demo_kshell (lit ''pwx'' @ [8] @ lit ''d'' @ [13])) = Inr ([], s') \<and> ks_dev s' = []"
proof -
  define keys where "keys = lit ''pwx'' @ [8] @ lit ''d''"
  let ?s = "demo_kshell (keys @ [13])"
  have ends: "list_all (\<lambda>b. b \<noteq> 13 \<and> b \<noteq> 10) keys" unfolding keys_def by code_simp
  have d: "delivers demo_serial (bs @ ds) bs ds" for bs ds
    by (induction bs) (auto intro: delivers.intros demo_serial_read)
  have e: "foldl (edit_key INPUT_MAX) [] keys = lit ''pwd''"
    unfolding keys_def by (simp add: edit_key_def INPUT_MAX_def is_ascii_graphic_def)
  have w: "trim (lit ''pwd'') = lit ''pwd''" "split_word (lit ''pwd'') = (lit ''pwd'', [])" "lit ''pwd'' \<noteq> []" by code_simp+
  have r: "run_command env (lit ''pwd'') s = Inr (on_con (write_line ''/'') s)" for env :: "bytes kernel_env" and s
    using w by (simp add: run_command_def find_command_def machine_command_def lit_eq del: lit_simps)
  have "session demo_env ?s [foldl (edit_key INPUT_MAX) [] keys]
      (on_con shell_prompt (on_con (write_line ''/'') (?s\<lparr>ks_dev := [], ks_console := new_line (snd (type_keys keys ([], ks_console ?s)))\<rparr>)))"
  proof (rule session.line [where nl = 13 and ?d0.0 = "[13]" and ?d1.0 = "[]", OF _ _ _ ends _ session.over])
    show "delivers (ke_bus demo_env) (ks_dev ?s) keys [13]" using d [of keys "[13]"] by (simp add: demo_env_def demo_kshell_def)
    show "read_input_byte (ke_bus demo_env) [13] = (Some 13, [])" by (simp add: demo_env_def demo_serial_read)
  qed (simp_all only: e r, simp)
  from shell_session [OF this] show ?thesis by (force simp: on_con_def keys_def)
qed

end
