(* ===== verification/Kernel_Keeps.thy ===== *)
theory Kernel_Keeps
  imports Kernel_Shell
begin

text \<open>
  What no command of the kernel shell can break.  Every command but the one that clears the screen only adds text to the
  console: \<open>adds\<close> composes along the calls, and gives the console's invariant.  The RAM file system keeps the
  shape of its slots, the process table the scheduler's invariant, and the idle slot stays the current one.
\<close>

section \<open>Commands add text\<close>

definition adds :: "console \<Rightarrow> console \<Rightarrow> bool" where
  "adds con con' \<longleftrightarrow> (\<exists>bs. con' = write_bytes bs con)"

lemma adds_refl: "adds con con"
  unfolding adds_def by (rule exI [of _ "[]"]) (simp add: write_bytes_def)

lemma adds_bytes: "adds con c \<Longrightarrow> adds con (write_bytes bs c)"
  unfolding adds_def write_bytes_def by (metis fold_append comp_apply)

lemma adds_byte: "adds con c \<Longrightarrow> adds con (write_byte b c)"
  using adds_bytes [of con c "[b]"] by (simp add: write_bytes_def)

lemma new_line_byte: "new_line con = write_byte 10 con"
  by (simp add: write_byte_def)

lemma adds_new_line: "adds con c \<Longrightarrow> adds con (new_line c)"
  by (simp add: new_line_byte adds_byte)

lemma adds_write: "adds con c \<Longrightarrow> adds con (console_write s c)"
  by (simp add: console_write_def adds_bytes)

lemma adds_line: "adds con c \<Longrightarrow> adds con (write_line s c)"
  by (simp add: write_line_def adds_write adds_new_line)

lemma adds_fold: "(\<And>x c. x \<in> set xs \<Longrightarrow> adds con c \<Longrightarrow> adds con (f x c)) \<Longrightarrow> adds con c \<Longrightarrow> adds con (fold f xs c)"
  by (induction xs arbitrary: c) auto

lemma fold_keeps: "P st \<Longrightarrow> (\<And>x st. P st \<Longrightarrow> P (f x st)) \<Longrightarrow> P (fold f xs st)"
  by (induction xs arbitrary: st) auto

lemma adds_usize: "adds con c \<Longrightarrow> adds con (write_usize n c)"
  unfolding write_usize_def by (rule adds_fold) (rule adds_byte)

lemma adds_i32: "adds con c \<Longrightarrow> adds con (write_i32 n c)"
  unfolding write_i32_def by (rule adds_fold) (rule adds_byte)

lemma adds_hex_digit: "adds con c \<Longrightarrow> adds con (write_hex_digit v c)"
  unfolding write_hex_digit_def by (rule adds_byte)

lemma adds_hex8: "adds con c \<Longrightarrow> adds con (write_hex_u8 v c)"
  by (simp add: write_hex_u8_def adds_hex_digit)

lemma adds_hex16: "adds con c \<Longrightarrow> adds con (write_hex_u16 v c)"
  by (simp add: write_hex_u16_def adds_hex8)

lemma adds_hex64: "adds con c \<Longrightarrow> adds con (write_hex_u64 v c)"
  unfolding write_hex_u64_def by (rule adds_fold) (rule adds_hex_digit)

lemma adds_if: "(b \<Longrightarrow> adds con x) \<Longrightarrow> (\<not> b \<Longrightarrow> adds con y) \<Longrightarrow> adds con (if b then x else y)"
  by simp

lemma adds_lines: "adds con c \<Longrightarrow> adds con (write_lines ls c)"
  unfolding write_lines_def by (rule adds_fold) (rule adds_line)

lemmas adds_rules = adds_refl adds_bytes adds_byte adds_new_line adds_write adds_line adds_usize adds_i32 adds_hex8 adds_hex16
  adds_hex64 adds_if adds_lines

lemma adds_wf: "adds con con' \<Longrightarrow> console_wf con \<Longrightarrow> console_wf con'"
  using write_bytes_facts by (auto simp: adds_def)

lemma adds_ramfs:
  "adds con (ramfs_ls fs con)" "adds con (ramfs_df fs bfs con)" "adds con (ramfs_cat fs name con)"
  "adds con (fst (ramfs_touch name d con fs))" "adds con (fst (ramfs_write name contents con fs))"
  "adds con (fst (ramfs_remove name d con fs))" "adds con (fst (ramfs_append name contents con fs))"
  "adds con (fst (ramfs_copy src dst con fs))" "adds con (fst (move_entry src dst con fs))"
proof -
  show "adds con (ramfs_ls fs con)" unfolding ramfs_ls_def by (rule adds_fold) (auto simp: Let_def intro!: adds_rules)
  show "adds con (ramfs_df fs bfs con)" by (auto simp: ramfs_df_def Let_def split: prod.split intro!: adds_rules)
  show "adds con (ramfs_cat fs name con)" by (auto simp: ramfs_cat_def split: option.split intro!: adds_rules)
  show "adds con (fst (ramfs_touch name d con fs))"
    by (auto simp: ramfs_touch_def split: prod.split bool.split intro!: adds_rules)
  show w: "adds con (fst (ramfs_write name contents con fs))" for con
    by (auto simp: ramfs_write_def intro!: adds_rules)
  show "adds con (fst (ramfs_remove name d con fs))"
    by (auto simp: ramfs_remove_def split: option.split intro!: adds_rules)
  show "adds con (fst (ramfs_append name contents con fs))"
    using w by (auto simp: ramfs_append_def Let_def split: option.split intro!: adds_rules)
  show "adds con (fst (ramfs_copy src dst con fs))"
    by (auto simp: ramfs_copy_def split: option.split intro!: adds_rules)
  show "adds con (fst (move_entry src dst con fs))"
    by (auto simp: move_entry_def split: option.split intro!: adds_rules)
qed

lemma adds_bootfs: "adds con (bootfs_ls fs con)" "adds con (bootfs_cat fs name con)"
proof -
  have "adds con (bootfs_ls_entry fs i c)" if "adds con c" for i c
    using that by (auto simp: bootfs_ls_entry_def Let_def split: option.split intro!: adds_rules)
  then show "adds con (bootfs_ls fs con)" unfolding bootfs_ls_def by (intro adds_if adds_fold adds_line adds_refl) auto
  show "adds con (bootfs_cat fs name con)" by (auto simp: bootfs_cat_def split: option.split intro!: adds_rules)
qed

lemma adds_header: "adds con (fst (snd (read_header bus con d)))"
  by (auto simp: read_header_def split: prod.split bool.split option.split intro!: adds_rules)

lemma adds_pread: "adds con c \<Longrightarrow> adds con (fst (snd (pread_loop bus header index ls remaining c d)))"
proof (induction ls arbitrary: remaining c d)
  case (Cons l ls)
  from Cons.prems show ?case by (auto split: option.split prod.split simp: Let_def intro!: adds_rules Cons.IH)
qed simp

lemma adds_pfs:
  "adds con (fst (pfs_format bus con d))" "adds con (fst (pfs_ls bus con d))" "adds con (fst (pfs_read bus name con d))"
  "adds con (fst (pfs_write bus now name contents con d))" "adds con (fst (pfs_delete bus name con d))"
  "adds con (fst (pfs_mkdir bus now name con d))" "adds con (fst (pfs_df bus con d))"
proof -
  have h: "adds con c" if "read_header bus con d = (r, c, d')" for con d r c d'
    using adds_header [of con bus d] that by simp
  show "adds con (fst (pfs_format bus con d))"
    by (auto simp: pfs_format_def split: prod.split bool.split intro!: adds_rules)
  have e: "adds con (snd (fold (pfs_ls_entry header) is (found, c)))" if "adds con c" for header "is" found c
    by (rule fold_keeps) (use that in \<open>auto simp: pfs_ls_entry_def Let_def intro!: adds_rules\<close>)
  show "adds con (fst (pfs_ls bus con d))"
  proof (cases "read_header bus con d")
    case (fields r c d')
    obtain found c2 where f: "fold (pfs_ls_entry (the r)) [0..<PFS_ENTRY_COUNT] (False, c) = (found, c2)" by force
    with e [OF h [OF fields], of "the r" "[0..<PFS_ENTRY_COUNT]" False] h [OF fields] fields show ?thesis
      by (auto simp: pfs_ls_def split: option.split intro!: adds_rules)
  qed
  show "adds con (fst (pfs_read bus name con d))"
  proof (cases "read_header bus con d")
    case (fields r c d')
    have "adds con c2" if "pread_loop bus hd' i ls n c d' = (b, c2, d2)" for hd' i ls n b c2 d2
      using adds_pread [OF h [OF fields], of bus hd' i ls n d'] that by simp
    with h [OF fields] fields show ?thesis
      by (auto simp: pfs_read_def Let_def split: option.split prod.split bool.split intro!: adds_rules)
  qed
  show "adds con (fst (pfs_write bus now name contents con d))"
  proof (cases "read_header bus con d")
    case (fields r c d')
    define slot where "slot = (\<lambda>header. case pfs_find_entry header name of
        Some index \<Rightarrow> if pfs_entry_is_dir header index then Inl ''pwrite: is a directory'' else Inr index
      | None \<Rightarrow> (case pfs_free_entry header of Some index \<Rightarrow> Inr index | None \<Rightarrow> Inl ''pwrite: filesystem full''))"
    define put where "put = (\<lambda>header index. if \<not> pfs_entry_used header index then
        write_header (ata_disk bus) (pfs_set_entry now header index name 0 PFS_KIND_FILE [] now PFS_MODE_DEFAULT_FILE) d'
      else (True, d'))"
    note c = h [OF fields]
    have "adds con (fst (pfs_write bus now name contents con d))" if "r = None"
      using that c fields by (auto simp: pfs_write_def intro!: adds_rules)
    moreover have "adds con (fst (pfs_write bus now name contents con d))" if r: "r = Some header" for header
    proof (cases "slot header")
      case (Inl message)
      with r c show ?thesis by (auto simp: pfs_write_def fields slot_def intro!: adds_rules)
    next
      case (Inr index)
      obtain ok d2 where p: "put header index = (ok, d2)" by force
      obtain ok2 d3 where w: "pfs_write_at (ata_disk bus) now index 0 contents d2 = (ok2, d3)" by force
      obtain ok3 d4 where u: "pfs_update_size (ata_disk bus) now index (length contents) d3 = (ok3, d4)" by force
      from r c show ?thesis
        by (cases ok; cases ok2; cases ok3)
          (simp_all add: pfs_write_def fields Inr [unfolded slot_def] p [unfolded put_def] w u adds_if adds_line adds_refl)
    qed
    ultimately show ?thesis by (cases r) auto
  qed
  show "adds con (fst (pfs_delete bus name con d))"
    by (cases "read_header bus con d")
      (auto simp: pfs_delete_def dest: h split: option.split prod.split bool.split sum.split intro!: adds_rules)
  show "adds con (fst (pfs_mkdir bus now name con d))"
    by (cases "read_header bus con d")
      (auto simp: pfs_mkdir_def dest: h split: option.split prod.split bool.split intro!: adds_rules)
  show "adds con (fst (pfs_df bus con d))"
    by (auto simp: pfs_df_def Let_def split: option.split prod.split bool.split intro!: adds_rules)
qed

lemma adds_pci: "adds con (fst (pci_scan ports con d))"
proof -
  have l: "adds con (pci_line b dv fn v i c sc c0)" if "adds con c0" for b dv fn v i c sc c0
    using that by (auto simp: pci_line_def Let_def intro!: adds_rules)
  have f: "adds con (fst (snd (scan_function ports b dv fn st)))" if "adds con (fst (snd st))" for b dv fn st
    using that by (cases st) (auto simp: scan_function_def split: prod.split intro!: l)
  have fs: "adds con (fst (snd (fold (\<lambda>n. scan_function ports b dv (of_nat n)) ns st)))" if "adds con (fst (snd st))" for b dv ns st
    by (rule fold_keeps [where P = "\<lambda>st. adds con (fst (snd st))"]) (use that f in auto)
  have dv: "adds con (fst (snd (scan_device ports b dv st)))" if "adds con (fst (snd st))" for b dv st
    using that by (cases st) (auto simp: scan_device_def Let_def split: prod.split intro!: fs f)
  have "adds con (fst (snd (fold (\<lambda>n. scan_device ports 0 (of_nat n)) ns st)))" if "adds con (fst (snd st))" for ns st
    by (rule fold_keeps [where P = "\<lambda>st. adds con (fst (snd st))"]) (use that dv in auto)
  from this [of "(0, write_line ''bus dev fn vendor device class subclass'' con, d)" "[0..<32]"] show ?thesis
    by (auto simp: pci_scan_def adds_line adds_refl split: prod.split simp del: upt_conv_Cons upt_Suc intro!: adds_rules)
qed

lemma adds_memory:
  "adds con (memory_summary mm a t con)" "adds con (fst (pagealloc_command con k))" "adds con (paging_summary k con)"
  "adds con (fst (vmclone_command con k))" "adds con (fst (ptalloc_command con k))"
  "maptest_command con scratch k = Some (con', scratch', k') \<Longrightarrow> adds con con'"
proof -
  show "adds con (memory_summary mm a t con)"
    by (auto simp: memory_summary_def Let_def split: option.split prod.split intro!: adds_rules)
  show "adds con (fst (pagealloc_command con k))"
    by (auto simp: pagealloc_command_def split: option.split prod.split intro!: adds_rules)
  show "adds con (paging_summary k con)"
    by (auto simp: paging_summary_def Let_def split: prod.split intro!: adds_rules)
  show "adds con (fst (vmclone_command con k))"
    by (auto simp: vmclone_command_def Let_def split: option.split prod.split intro!: adds_rules)
  show "adds con (fst (ptalloc_command con k))"
    by (auto simp: ptalloc_command_def Let_def split: option.split prod.split intro!: adds_rules)
  show "adds con con'" if "maptest_command con scratch k = Some (con', scratch', k')"
    using that by (auto simp: maptest_command_def Let_def split: option.splits prod.splits bool.splits if_splits intro!: adds_rules)
qed

lemma adds_process: "adds con (process_list k con)" "adds con (fst (process_wait pid con k))"
proof -
  have "adds con (process_list_entry p c)" if "adds con c" for p c
    using that by (auto simp: process_list_entry_def Let_def intro!: adds_rules)
  then show "adds con (process_list k con)" unfolding process_list_def by (intro adds_fold adds_line adds_refl)
  show "adds con (fst (process_wait pid con k))"
    by (auto simp: process_wait_def print_process_status_def Let_def split: option.split prod.split intro!: adds_rules)
qed

lemma adds_video: "adds con (video_info con)" "adds con (show_drivers con)" "adds con (show_devices con)"
  by (auto simp: video_info_def show_drivers_def show_devices_def Let_def intro!: adds_rules)

section \<open>The slots of the RAM file system\<close>

lemma ramfs_ok_update: "ramfs_ok fs \<Longrightarrow> (i < 12 \<Longrightarrow> fe_ok e) \<Longrightarrow> ramfs_ok (fs[i := e])"
  by (cases "i < 12") (auto simp: ramfs_ok_def list_all_length nth_list_update)

lemma ramfs_find_less: "ramfs_find fs name = Some i \<Longrightarrow> i < 12"
  using find_upt_SomeD(1) by (auto simp: ramfs_find_def)

lemma ramfs_free_slot_less: "ramfs_free_slot fs = Some i \<Longrightarrow> i < 12"
  using find_upt_SomeD(1) by (auto simp: ramfs_free_slot_def)

lemma touch_raw_ok:
  assumes "ramfs_ok fs" "length name \<le> 16"
  shows "ramfs_ok (snd (touch_raw name d fs))"
  using assms ramfs_find_less ramfs_free_slot_less
  by (auto simp: touch_raw_def fe_ok_def copy_at_def dest: ramfs_ok_nth split: option.split intro!: ramfs_ok_update)

lemma write_raw_ok:
  assumes "ramfs_ok fs" "length name \<le> 16" "length contents \<le> 192"
  shows "ramfs_ok (write_raw name contents fs)"
proof -
  obtain ok fs1 where t: "touch_raw name False fs = (ok, fs1)" by force
  then have "ramfs_ok fs1" using touch_raw_ok [OF assms(1,2), of False] by simp
  with t assms(3) show ?thesis
    by (auto simp: write_raw_def Let_def fe_ok_def copy_at_def dest: ramfs_ok_nth split: bool.split intro!: ramfs_ok_update)
qed

lemma ramfs_commands_ok:
  assumes "ramfs_ok fs"
  shows "ramfs_ok (snd (ramfs_touch name d con fs))" "ramfs_ok (snd (ramfs_write name contents con fs))"
    "ramfs_ok (snd (ramfs_remove name d con fs))" "ramfs_ok (snd (ramfs_append name contents con fs))"
    "ramfs_ok (snd (ramfs_copy src dst con fs))" "ramfs_ok (snd (move_entry src dst con fs))"
proof -
  note v = valid_name_len [THEN conjunct1]
  show "ramfs_ok (snd (ramfs_touch name d con fs))"
    using touch_raw_ok [OF assms v, of name d] assms by (auto simp: ramfs_touch_def split: prod.split bool.split)
  show w: "ramfs_ok (snd (ramfs_write name contents con fs))"
    using write_raw_ok [OF assms v, of name contents] assms by (auto simp: ramfs_write_def)
  show "ramfs_ok (snd (ramfs_remove name d con fs))"
    using assms by (auto simp: ramfs_remove_def fe_ok_def file_entry_empty_def split: option.split intro!: ramfs_ok_update)
  show "ramfs_ok (snd (ramfs_append name contents con fs))"
    using assms w
    by (auto simp: ramfs_append_def Let_def fe_ok_def copy_at_def dest: ramfs_ok_nth split: option.split intro!: ramfs_ok_update)
  have "length (take (fe_data_len (fs ! i)) (fe_data (fs ! i))) \<le> 192" if "ramfs_find fs src = Some i" for i
    using ramfs_ok_nth [OF assms ramfs_find_less [OF that]] by (simp add: fe_ok_def)
  then show "ramfs_ok (snd (ramfs_copy src dst con fs))"
    using write_raw_ok [OF assms v] assms by (auto simp: ramfs_copy_def split: option.split)
  show "ramfs_ok (snd (move_entry src dst con fs))"
    using assms by (auto simp: move_entry_def fe_ok_def copy_at_def dest: ramfs_ok_nth split: option.split intro!: ramfs_ok_update)
qed

section \<open>The statics of the kernel\<close>

text \<open>The shell runs in the slot reserved for it, and the scheduler's invariant holds.\<close>

definition idle_inv :: "kernel \<Rightarrow> bool" where
  "idle_inv k \<longleftrightarrow> sched_inv k \<and> current_process_index k = 16"

lemma idle_more:
  fixes k k' :: kernel
  assumes "paging.more k' = paging.more k" "idle_inv k"
  shows "idle_inv k'"
  using assms(2) sched_inv_cong [OF more_fields(1,2,4) [OF assms(1)]] more_fields(2) [OF assms(1)] by (simp add: idle_inv_def)

lemma idle_update:
  assumes "idle_inv k" "i < 16" "process_ok p" "p_state p \<noteq> Running" "runnable p \<Longrightarrow> p_context_rsp p \<noteq> 0"
  shows "idle_inv (set_proc i p k)"
  using assms sched_inv_update [of k i p] by (auto simp: idle_inv_def)

lemma idle_cong:
  assumes "process_table k' = process_table k" "current_process_index k' = current_process_index k"
    "pending_stack_reclaims k' = pending_stack_reclaims k"
  shows "idle_inv k' = idle_inv k"
  using assms sched_inv_cong [of k' k] by (simp add: idle_inv_def)

lemma idle_memory:
  assumes "idle_inv k"
  shows "idle_inv (snd (pagealloc_command con k))" "idle_inv (snd (vmclone_command con k))" "idle_inv (snd (ptalloc_command con k))"
    "maptest_command con scratch k = Some (con', scratch', k') \<Longrightarrow> idle_inv k'" "idle_inv (snd (process_wait pid con k))"
proof -
  note less = find_upt_SomeD(1)
  show "idle_inv (snd (pagealloc_command con k))"
  proof (cases "alloc_page (phys_alloc k)")
    case (Pair r a)
    have "idle_inv (k\<lparr>phys_alloc := a\<rparr>)" using assms idle_cong [of "k\<lparr>phys_alloc := a\<rparr>" k] by simp
    with Pair show ?thesis by (simp add: pagealloc_command_def split: option.split)
  qed
  have pml4: "idle_inv k1" if "ensure_kernel_pml4 k = (r, k1)" for r k1
    by (rule idle_more [OF kernel_pml4_moreD [OF that] assms])
  then show "idle_inv (snd (vmclone_command con k))" by (auto simp: vmclone_command_def Let_def split: prod.split option.split)
  have alloc: "idle_inv k1" if "alloc_zeroed_page k = (r, k1)" for r k1
    by (rule idle_more [OF alloc_moreD [OF that] assms])
  then show "idle_inv (snd (ptalloc_command con k))" by (auto simp: ptalloc_command_def Let_def split: prod.split option.split)
  show "idle_inv k'" if m: "maptest_command con scratch k = Some (con', scratch', k')"
  proof (cases "kernel_pml4_phys k = 0")
    case True
    with m assms show ?thesis by (simp add: maptest_command_def)
  next
    case False
    obtain r k1 where a: "alloc_zeroed_page k = (r, k1)" by force
    obtain ok k2 where mp: "map_page (kernel_pml4_phys k1) scratch (the r) (PAGE_PRESENT OR PAGE_WRITABLE) k1 = (ok, k2)" by force
    note k1 = alloc [OF a]
    note k2 = idle_more [OF map_page_moreD [OF mp] k1]
    have "paging.more (store_word v x k2) = paging.more k2" for v x by (simp add: store_word_def split: option.split)
    from idle_more [OF this k2] k1 k2 m False a mp show ?thesis
      by (auto simp: maptest_command_def Let_def split: option.splits bool.splits if_splits)
  qed
  have by_pid: "idle_inv k1" if "process_wait_by_pid p k = (r, k1)" for p r k1
    using that assms
  proof (cases rule: wait_by_pid_cases)
    case (collected i)
    with assms collect_inv [of k i] show ?thesis by (simp add: idle_inv_def)
  qed simp
  have any: "idle_inv k1" if w: "process_wait_any_child p k = (r, k1)" for p r k1
  proof (cases "find (\<lambda>index. p_parent_pid (proc k index) = p \<and> \<not> p_waited (proc k index) \<and> zombie (proc k index)) [0..<PROCESS_COUNT]")
    case None
    with w assms show ?thesis by (simp add: process_wait_any_child_def del: process_consts)
  next
    case (Some i)
    with w less [OF Some [unfolded process_consts]] assms collect_inv [of k i] show ?thesis
      by (auto simp: process_wait_any_child_def collect_status_def Let_def idle_inv_def simp del: process_consts)
  qed
  show "idle_inv (snd (process_wait pid con k))"
    using assms by_pid any by (auto simp: process_wait_def split: prod.split option.split)
qed

lemma prepare_adds:
  assumes "prepare_process beyond trampoline i c img k = (ok, c', k')" "adds con c"
  shows "adds con c'"
proof -
  have l: "adds con c2" if "load_program_elf_isolated beyond c img p s = (r, c2, s')" for p s r c2 and s' :: kernel
    using that assms(2) by (auto simp: load_program_elf_isolated_def split: option.splits prod.splits intro: adds_rules)
  from assms show ?thesis
    unfolding prepare_process_def Let_def by (auto split: prod.splits option.splits dest: l)
qed

lemma run_start_inv:
  assumes "idle_inv k" "run_program_start beyond trampoline name args con bfs k = Ret (r, con', k')"
  shows "idle_inv k'" "adds con con'" "r = Some i \<Longrightarrow> i < 16 \<and> app_console k' = Some con'"
proof -
  obtain s0 k1 where sp: "process_spawn name args k = (s0, k1)" by force
  from assms(1) have inv: "sched_inv k" "current_process_index k = 16" by (simp_all add: idle_inv_def)
  have "idle_inv k' \<and> adds con con' \<and> (r = Some i \<longrightarrow> i < 16 \<and> app_console k' = Some con')"
    using sp unfolding process_spawn_def
  proof (cases rule: spawn_cases)
    case full
    from full(2) have "idle_inv k1" using assms(1) idle_cong [of k1 k] by simp
    with assms(2) full(1) sp show ?thesis by (auto simp: run_program_start_def intro: adds_rules)
  next
    case (claimed j)
    let ?p = "new_process (next_pid k) (current_pid k) name args (raw_args_to_argv args)"
    have len: "j < length (process_table k)" using sched_invD(5) [OF inv(1)] claimed(2) by simp
    have p: "process_ok ?p" "p_state ?p = Loading" using new_process_ok by auto
    have k1: "idle_inv k1" "proc k1 j = ?p" "length (process_table k1) = 17"
    proof -
      have "idle_inv (set_proc j ?p k)" by (rule idle_update [OF assms(1) claimed(2) p(1)]) (simp_all add: p(2) runnable_def)
      moreover have "idle_inv k1 = idle_inv (set_proc j ?p k)" by (rule idle_cong) (simp_all add: claimed(4) set_proc_def)
      ultimately show "idle_inv k1" by simp
      show "proc k1 j = ?p" "length (process_table k1) = 17"
        using len sched_invD(5) [OF inv(1)] by (simp_all add: claimed(4) set_proc_def)
    qed
    obtain path where path: "program_path name = Ret path"
      using assms(2) sp claimed(1) by (cases "program_path name") (simp_all add: run_program_start_def)
    note run = assms(2) [unfolded run_program_start_def sp claimed(1) path bind_outcome.simps prod.case option.case outcome.inject Let_def]
    show ?thesis
    proof (cases "bootfs_find_data bfs path")
      case None
      have "idle_inv (process_fail_unwaited j k1)"
        unfolding process_fail_unwaited_def process_set_state_def Let_def
        using k1 claimed(2) p by (auto intro!: idle_update simp: process_ok_def runnable_def)
      with run None show ?thesis by (auto intro: adds_rules)
    next
      case (Some image_bytes)
      define c2 where "c2 = new_line (write_usize (unat (process_pid k1 j)) (console_write '' pid ''
        (write_bytes path (console_write ''run: '' con))))"
      define k2 where "k2 = app_close_all_fds (k1\<lparr>app_console := Some c2, app_bootfs := bfs\<rparr>)"
      define k3 where "k3 = set_proc j ((proc k2 j)\<lparr>p_std_fds := [STDIN_FD, STDOUT_FD, STDERR_FD],
        p_cwd := (replicate (length (p_cwd (proc k2 j))) 0)[0 := 47], p_cwd_len := 1, p_last_error := ERR_OK\<rparr>) k2"
      have k2: "idle_inv k2" "proc k2 j = ?p" "length (process_table k2) = 17"
        using k1 idle_cong [of k2 k1] by (simp_all add: k2_def app_close_all_fds_def)
      have k3: "idle_inv k3" "length (process_table k3) = 17" "process_ok (proc k3 j)" "p_state (proc k3 j) = Loading"
        unfolding k3_def using k2 claimed(2) p by (auto intro!: idle_update simp: process_ok_def runnable_def)
      have c2: "adds con c2" unfolding c2_def by (intro adds_rules)
      obtain ok c4 k4 where pr: "prepare_process beyond trampoline j c2 image_bytes k3 = (ok, c4, k4)" by (metis prod_cases3)
      have "j < length (process_table k3)" using claimed(2) k3(2) by simp
      from pr this obtain q where q: "process_table k4 = (process_table k3)[j := q]" "current_process_index k4 = current_process_index k3"
        "pending_stack_reclaims k4 = pending_stack_reclaims k3" "same_owner (proc k3 j) q" "p_state q = (if ok then Ready else Failed)"
        "ok \<Longrightarrow> p_context_rsp q \<noteq> 0" by (rule prepare_process_slot) blast
      have "process_ok q" using q(4) k3(3) by (simp add: same_owner_def)
      then have "idle_inv (set_proc j q k3)" using q(5,6) claimed(2) k3(1) by (intro idle_update) (auto simp: runnable_def split: if_splits)
      then have k4: "idle_inv (k4\<lparr>app_console := x\<rparr>)" "idle_inv k4" for x
        using idle_cong [of "k4\<lparr>app_console := x\<rparr>" "set_proc j q k3"] idle_cong [of k4 "set_proc j q k3"] q(1-3) by (simp_all add: set_proc_def)
      note run2 = run [unfolded Some option.case, folded c2_def, folded k2_def, folded k3_def, unfolded pr prod.case]
      from run2 k4 prepare_adds [OF pr c2] claimed(2) show ?thesis by (cases ok) (auto intro: adds_rules)
    qed
  qed
  then show "idle_inv k'" "adds con con'" "r = Some i \<Longrightarrow> i < 16 \<and> app_console k' = Some con'" by auto
qed

section \<open>Every command\<close>

definition shell_inv :: "'d kshell \<Rightarrow> bool" where
  "shell_inv s \<longleftrightarrow> console_wf (ks_console s) \<and> ramfs_ok (ks_fs s) \<and> idle_inv (ks_kernel s)"

definition after_inv :: "'d after \<Rightarrow> bool" where
  "after_inv r = (case r of Inr s \<Rightarrow> shell_inv s | Inl (Halted s) \<Rightarrow> shell_inv s | Inl Panicked \<Rightarrow> True | Inl Waiting \<Rightarrow> True)"

text \<open>
  What is asked of the wait for a program: the scheduled processes keep the scheduler's invariant and leave the console in
  a proper state, and the wait ends in the slot in which it began.
\<close>

definition wait_keeps_idle :: "'d kernel_env \<Rightarrow> bool" where
  "wait_keeps_idle env \<longleftrightarrow> (\<forall>pid k d st k' d' con. ke_wait env pid k d = Some (st, k', d') \<longrightarrow> idle_inv k \<longrightarrow>
     app_console k = Some con \<longrightarrow> console_wf con \<longrightarrow> idle_inv k' \<and> (\<exists>con'. app_console k' = Some con' \<and> console_wf con'))"

lemma after_simps [simp]: "after_inv (Inr s) = shell_inv s" "after_inv (Inl (Halted s)) = shell_inv s" "after_inv (Inl Panicked)"
  "after_inv (Inl Waiting)"
  by (simp_all add: after_inv_def)

lemma inv_con: "shell_inv s \<Longrightarrow> (\<And>con. adds con (f con)) \<Longrightarrow> shell_inv (on_con f s)"
  using adds_wf by (auto simp: shell_inv_def on_con_def)

lemma inv_clear: "shell_inv s \<Longrightarrow> shell_inv (on_con console_clear s)"
proof -
  have "console_wf (console_clear con)" if "console_wf con" for con
  proof -
    let ?c = "fold (\<lambda>r con. fold (\<lambda>c con. write_cell r c 32 con) [0..<cols con] con)
      [0..<rows (clear_framebuffer con)] (clear_framebuffer con)"
    have "console_wf (clear_framebuffer con)" using that by (simp add: clear_framebuffer_def console_wf_def)
    moreover have "media_kept (clear_framebuffer con) ?c"
      by (intro media_kept_fold write_cell_media)
    ultimately have "console_wf ?c" using console_wf_media by blast
    then show ?thesis by (simp add: console_clear_def Let_def console_wf_def)
  qed
  then show "shell_inv s \<Longrightarrow> shell_inv (on_con console_clear s)" by (simp add: shell_inv_def on_con_def)
qed

lemma inv_dev:
  assumes "shell_inv s" "\<And>con d. adds con (fst (f con d))"
  shows "shell_inv (on_dev f s)"
proof (cases "f (ks_console s) (ks_dev s)")
  case (Pair con d)
  with assms(2) [of "ks_console s" "ks_dev s"] have "adds (ks_console s) con" by simp
  with adds_wf assms(1) Pair show ?thesis by (simp add: shell_inv_def on_dev_def)
qed

lemma inv_fs:
  assumes "shell_inv s" "\<And>con fs. adds con (fst (f con fs))" "\<And>con fs. ramfs_ok fs \<Longrightarrow> ramfs_ok (snd (f con fs))"
  shows "shell_inv (on_fs f s)"
proof (cases "f (ks_console s) (ks_fs s)")
  case (Pair con fs)
  with assms(2) [of "ks_console s" "ks_fs s"] assms(3) [of "ks_fs s" "ks_console s"] assms(1)
  have "adds (ks_console s) con" "ramfs_ok fs" by (simp_all add: shell_inv_def)
  with adds_wf assms(1) Pair show ?thesis by (simp add: shell_inv_def on_fs_def)
qed

lemma inv_kernel:
  assumes "shell_inv s" "\<And>con k. adds con (fst (f con k))" "\<And>con k. idle_inv k \<Longrightarrow> idle_inv (snd (f con k))"
  shows "shell_inv (on_kernel f s)"
proof (cases "f (ks_console s) (ks_kernel s)")
  case (Pair con k)
  with assms(2) [of "ks_console s" "ks_kernel s"] assms(3) [of "ks_kernel s" "ks_console s"] assms(1)
  have "adds (ks_console s) con" "idle_inv k" by (simp_all add: shell_inv_def)
  with adds_wf assms(1) Pair show ?thesis by (simp add: shell_inv_def on_kernel_def)
qed

lemma inv_need:
  "shell_inv s \<Longrightarrow> (\<And>name. after_inv (f name s)) \<Longrightarrow> after_inv (need1 usage rest f s)"
  "shell_inv s \<Longrightarrow> (\<And>name contents. after_inv (g name contents s)) \<Longrightarrow> after_inv (need_text usage rest g s)"
  "shell_inv s \<Longrightarrow> (\<And>src dst. after_inv (g src dst s)) \<Longrightarrow> after_inv (need2 usage rest g s)"
  by (auto simp: need1_def need_text_def need2_def split: prod.split intro!: inv_con adds_rules)

lemma inv_run:
  assumes "wait_keeps_idle env" "shell_inv s"
  shows "after_inv (run_program env name args s)"
proof (cases "run_program_start (ke_beyond env) (ke_trampoline env) name args (ks_console s) (ke_bootfs env) (ks_kernel s)")
  case (Ret x)
  obtain r con k where x: "x = (r, con, k)" by (cases x)
  have i: "idle_inv (ks_kernel s)" and wf: "console_wf (ks_console s)" using assms(2) by (simp_all add: shell_inv_def)
  note st = run_start_inv [OF i Ret [unfolded x]]
  have con: "console_wf con" by (rule adds_wf [OF st(2) wf])
  show ?thesis
  proof (cases r)
    case None
    with Ret x st(1) con assms(2) show ?thesis by (simp add: run_program_def shell_inv_def)
  next
    case (Some j)
    note j = st(3) [OF Some]
    show ?thesis
    proof (cases "ke_wait env (process_pid k j) k (ks_dev s)")
      case None
      with Ret x Some show ?thesis by (simp add: run_program_def)
    next
      case w: (Some y)
      obtain status k1 d1 where y: "y = (status, k1, d1)" by (cases y)
      from assms(1) w [unfolded y] st(1) j con obtain con' where k1: "idle_inv k1" "app_console k1 = Some con'" "console_wf con'"
        unfolding wait_keeps_idle_def by blast
      have "idle_inv (set_proc j ((proc k1 j)\<lparr>p_waited := True\<rparr>) k1)"
        using collect_inv [of k1 j] k1(1) j by (simp add: idle_inv_def)
      moreover have "adds con' (new_line (write_i32 c (console_write ''exit '' con')))" for c by (intro adds_rules)
      ultimately show ?thesis
        using Ret x Some w y k1 assms(2) adds_wf
        by (auto simp: run_program_def run_program_finish_def shell_inv_def)
    qed
  qed
qed (simp add: run_program_def)

lemma if_SomeE: "(if b then Some x else r) = Some f \<Longrightarrow> (f = x \<Longrightarrow> P) \<Longrightarrow> (r = Some f \<Longrightarrow> P) \<Longrightarrow> P"
  by (cases b) auto

lemma inv_groups:
  assumes "shell_inv s"
  shows "volume_command env cmd rest = Some f \<Longrightarrow> after_inv (f s)" "memory_command env cmd = Some f \<Longrightarrow> after_inv (f s)"
    "ram_command cmd rest = Some f \<Longrightarrow> after_inv (f s)" "wait_keeps_idle env \<Longrightarrow> machine_command env cmd rest = Some f \<Longrightarrow> after_inv (f s)"
proof -
  have mp: "after_inv (case maptest_command (ks_console s) (ks_scratch s) (ks_kernel s) of
      None \<Rightarrow> Inl Panicked | Some (con, scratch, k) \<Rightarrow> Inr (s\<lparr>ks_console := con, ks_scratch := scratch, ks_kernel := k\<rparr>))"
  proof (cases "maptest_command (ks_console s) (ks_scratch s) (ks_kernel s)")
    case (Some y)
    obtain con scratch k where y: "y = (con, scratch, k)" by (cases y)
    from adds_wf [OF adds_memory(6) [OF Some [unfolded y]]] idle_memory(4) [OF _ Some [unfolded y]] assms show ?thesis
      by (simp add: Some y shell_inv_def)
  qed simp
  note rules = inv_con inv_clear inv_dev inv_fs inv_kernel inv_need adds_ramfs ramfs_commands_ok adds_pfs adds_bootfs adds_process
    adds_video adds_pci adds_memory(1-5) idle_memory(1-3,5)
  show "after_inv (f s)" if "volume_command env cmd rest = Some f"
    using that unfolding volume_command_def
    by (elim if_SomeE) (simp_all add: rules assms)
  show "after_inv (f s)" if "memory_command env cmd = Some f"
    using that unfolding memory_command_def
    by (elim if_SomeE) (simp_all add: rules assms mp)
  show "after_inv (f s)" if "ram_command cmd rest = Some f"
    using that unfolding ram_command_def
    by (elim if_SomeE) (simp_all add: rules assms adds_rules)
  show "after_inv (f s)" if "wait_keeps_idle env" "machine_command env cmd rest = Some f"
    using that(2) unfolding machine_command_def
    by (elim if_SomeE) (simp_all add: rules assms adds_rules inv_run [OF that(1) assms] split: prod.split)
qed

lemma inv_command:
  assumes "wait_keeps_idle env" "shell_inv s"
  shows "after_inv (run_command env input s)"
proof -
  have "after_inv (f s)" if "find_command env cmd rest = Some f" for cmd rest f
    using that inv_groups [OF assms(2)] assms(1) by (auto simp: find_command_def split: option.splits)
  then show ?thesis using assms(2)
    by (auto simp: run_command_def Let_def split: prod.split option.split intro!: inv_con adds_rules)
qed

lemma inv_commands:
  assumes "wait_keeps_idle env" "shell_inv s"
  shows "after_inv (run_commands env cs s)"
  using assms(2)
proof (induction cs arbitrary: s)
  case (Cons c cs)
  from inv_command [OF assms(1) Cons.prems, of c] Cons.IH show ?case by (cases "run_command env c s") auto
qed simp

lemma wf_backspace: "console_wf con \<Longrightarrow> console_wf (backspace con)"
proof (cases "col con = 0")
  case False
  assume wf: "console_wf con"
  let ?c = "con\<lparr>col := col con - 1\<rparr>"
  have "console_wf ?c" using wf by (auto simp: console_wf_def)
  then have "console_wf (write_cell (row ?c) (col ?c) 32 ?c)" using console_wf_media [OF write_cell_media] by blast
  with False show ?thesis by (simp add: backspace_def Let_def serial_write_byte_def console_wf_def)
qed (simp add: backspace_def)

lemma inv_turn:
  assumes "wait_keeps_idle env" "shell_inv s" "length input < INPUT_MAX"
  shows "case shell_turn env (input, s) of Inr (input', s') \<Rightarrow> length input' < INPUT_MAX \<and> shell_inv s' | Inl e \<Rightarrow> after_inv (Inl e)"
proof -
  obtain r d where rd: "read_input_byte (ke_bus env) (ks_dev s) = (r, d)" by force
  have s1: "shell_inv (s\<lparr>ks_dev := d\<rparr>)" using assms(2) by (simp add: shell_inv_def)
  show ?thesis
  proof (cases r)
    case None
    with rd s1 assms(3) show ?thesis by (simp add: shell_turn_def)
  next
    case (Some byte)
    show ?thesis
    proof (cases "byte = 13 \<or> byte = 10")
      case True
      have "shell_inv (on_con new_line (s\<lparr>ks_dev := d\<rparr>))" by (rule inv_con [OF s1]) (intro adds_rules)
      from inv_command [OF assms(1) this, of input] have r: "after_inv (run_command env input (on_con new_line (s\<lparr>ks_dev := d\<rparr>)))" .
      have "shell_inv (on_con shell_prompt s')" if "shell_inv s'" for s' :: "'a kshell"
        by (rule inv_con [OF that]) (unfold shell_prompt_def, intro adds_rules)
      with r rd Some True show ?thesis
        by (cases "run_command env input (on_con new_line (s\<lparr>ks_dev := d\<rparr>))") (simp_all add: shell_turn_def INPUT_MAX_def)
    next
      case False
      obtain line con where k: "line_key INPUT_MAX byte input (ks_console s) = (line, con)" by force
      have "length line < INPUT_MAX" using edit_key_bound [OF assms(3), of byte] fst_line_key [of INPUT_MAX byte input "ks_console s"] k by simp
      moreover have wf: "console_wf (ks_console s)" using assms(2) by (simp add: shell_inv_def)
      from wf adds_wf [OF adds_byte [OF adds_refl] wf, of byte] wf_backspace [OF wf] k have "console_wf con"
        by (auto simp: line_key_def split: if_splits)
      ultimately show ?thesis using rd Some False k s1 by (simp add: shell_turn_def Let_def shell_inv_def)
    qed
  qed
qed

text \<open>
  Nothing typed at the kernel shell breaks it.  Through any number of turns, whatever bytes the devices deliver, the
  cursor of the console stays on the screen, the slots of the RAM file system keep their bounds, the scheduler's
  invariant holds with the shell in its own slot, and the line being typed fits its buffer; also in the state in which
  the halt command stops.  What is asked is that the wait for a program keeps the same.
\<close>

theorem kernel_shell_keeps:
  assumes "wait_keeps_idle env" "shell_inv s" "length input < INPUT_MAX"
  shows "case shell_turns env n (input, s) of
      Inr (input', s') \<Rightarrow> length input' < INPUT_MAX \<and> shell_inv s'
    | Inl (Halted s') \<Rightarrow> shell_inv s' | Inl Panicked \<Rightarrow> True | Inl Waiting \<Rightarrow> True"
  using assms(2,3)
proof (induction n arbitrary: input s)
  case (Suc n)
  note t = inv_turn [OF assms(1) Suc.prems]
  show ?case
  proof (cases "shell_turn env (input, s)")
    case (Inl e)
    with t show ?thesis by (cases e) simp_all
  next
    case (Inr st)
    with t Suc.IH show ?thesis by (cases st) simp
  qed
qed simp

section \<open>The mapping test\<close>

text \<open>
  The mapping test under the kernel's own tables never faults.  Either memory runs out or the address is taken, and no
  translation changes; or the scratch page was not mapped, is now mapped to a page that was free, reads back what was
  written to it, and the test says so.
\<close>

definition maptest_ok_text :: "u64 \<Rightarrow> u64 \<Rightarrow> console \<Rightarrow> console" where
  "maptest_ok_text virt phys con =
     write_line ''ok'' (console_write '' readback='' (write_hex_u64 phys (console_write '' -> phys 0x''
       (write_hex_u64 virt (console_write ''maptest: virt 0x'' con)))))"

theorem maptest_maps:
  assumes "paging_ok root k" "kernel_pml4_phys k = root" "root \<noteq> 0" "cr3 k = root"
  shows "\<exists>con' scratch' k'. maptest_command con scratch k = Some (con', scratch', k') \<and> paging_ok root k' \<and>
    (translate (phys_mem k') root = translate (phys_mem k) root \<or>
     (\<exists>phys. phys \<in> avail k \<and> translate (phys_mem k) root scratch = None \<and>
       translate (phys_mem k') root = (\<lambda>v. if same_page v scratch then Some phys else translate (phys_mem k) root v) \<and>
       load_word scratch k' = Some MAP_MARKER \<and> scratch' = scratch + PAGE_SIZE \<and> con' = maptest_ok_text scratch phys con))"
proof -
  obtain r k1 where a: "alloc_zeroed_page k = (r, k1)" by force
  have wf: "allocator_wf (phys_alloc k)" using assms(1) by (simp add: paging_ok_def)
  from a wf show ?thesis
  proof (cases rule: alloc_zeroed_page_cases)
    case none
    with a assms show ?thesis by (auto simp: maptest_command_def)
  next
    case (some n al)
    have tr: "tree_ok (phys_mem k) root (avail k)" using assms(1) by (simp add: paging_ok_def)
    have n: "n AND PAGE_ADDR_MASK = n" "page_aligned n" using tree_okD(4,5) [OF tr some(2)] by simp_all
    have nt: "n \<notin> tables (phys_mem k) root" using tree_okD(3) [OF tr] some(2) by (auto simp: tables_def)
    have pk: "paging_ok root (k\<lparr>phys_alloc := al\<rparr>)"
      using tr some(3,4) by (auto simp: paging_ok_def tree_ok_def)
    have z: "zero_page n (phys_mem k) b = phys_mem k b" if "align_down_u64 b PAGE_SIZE \<noteq> n" for b using that by (simp add: zero_page_def)
    note d = data_write [OF pk, where x = n and m = "zero_page n (phys_mem k)"]
    have k1: "paging_ok root k1" "translate (phys_mem k1) root = translate (phys_mem k) root"
      "tables (phys_mem k1) root = tables (phys_mem k) root"
      using d nt n(1) z some(3,5) by simp_all
    obtain ok k2 where m: "map_page root scratch n (PAGE_PRESENT OR PAGE_WRITABLE) k1 = (ok, k2)" by force
    have fl: "(PAGE_PRESENT OR PAGE_WRITABLE) AND PAGE_PRESENT \<noteq> 0" "(PAGE_PRESENT OR PAGE_WRITABLE) AND PAGE_ADDR_MASK = 0"
      by (simp_all add: paging_consts)
    note sp = map_page_spec [OF k1(1) m fl n(1)]
    note g = tables_grownD [OF sp(1)]
    have root1: "kernel_pml4_phys k1 = root" "cr3 k2 = root" using some(5) assms(2,4) sp(1) by (simp_all add: tables_grown_def)
    show ?thesis
    proof (cases ok)
      case False
      with a some(1) m root1 assms sp(3) g(1) k1(2) show ?thesis by (auto simp: maptest_command_def Let_def)
    next
      case True
      have t2: "translate (phys_mem k2) root scratch = Some n" using sp(2) [OF True] by (simp add: same_page_refl)
      have "n \<notin> avail k1" using some(3,5) by simp
      then have n2: "n \<notin> avail k2" "n \<notin> tables (phys_mem k2) root" using g(2,4) nt k1(3) by auto
      let ?m = "(phys_mem k2)(word_addr n scratch := MAP_MARKER)"
      have "?m b = phys_mem k2 b" if "align_down_u64 b PAGE_SIZE \<noteq> n" for b using that word_addr_page [OF n(2)] by auto
      note w = data_write [OF g(1) n2 n(1), where m = ?m, OF this]
      have st: "store_word scratch MAP_MARKER k2 = k2\<lparr>phys_mem := ?m\<rparr>" using t2 root1(2) by (simp add: store_word_def)
      have ld: "load_word scratch (k2\<lparr>phys_mem := ?m\<rparr>) = Some MAP_MARKER" using w(2) t2 root1(2) by (simp add: load_word_def)
      from a some(1) m root1 assms True st ld have
        "maptest_command con scratch k = Some (maptest_ok_text scratch n con, scratch + PAGE_SIZE, k2\<lparr>phys_mem := ?m\<rparr>)"
        by (simp add: maptest_command_def Let_def maptest_ok_text_def)
      moreover have T: "translate ?m root = (\<lambda>v. if same_page v scratch then Some n else translate (phys_mem k) root v)"
        "translate (phys_mem k) root scratch = None" using w(2) sp(2) [OF True] k1(2) by (simp_all cong: if_cong)
      ultimately show ?thesis
        by (intro exI [of _ "maptest_ok_text scratch n con"] exI [of _ "scratch + PAGE_SIZE"] exI [of _ "k2\<lparr>phys_mem := ?m\<rparr>"] conjI disjI2
            exI [of _ n]) (use w(1) some(2) ld in simp_all)
    qed
  qed
qed

end
