(* ===== verification/Cpu_Contexts.thy ===== *)
theory Cpu_Contexts
  imports Rymos_Prelude
begin

text \<open>
  The assembly routines of \<^verbatim>\<open>kernel/src/main.rs\<close>: \<^verbatim>\<open>context_switch\<close>, the timer entry \<^verbatim>\<open>irq0_stub\<close> and the exception
  stubs, as lists of the instructions they are written in, over a machine of registers and memory words.  A switch away
  and back resumes a task as it was; a timer interrupt does not show in the interrupted task; an
  exception stub hands over the frame the processor pushed.
\<close>

section \<open>The machine\<close>

datatype reg = RAX | RBX | RCX | RDX | RSI | RDI | RBP | R8 | R9 | R10 | R11 | R12 | R13 | R14 | R15

text \<open>Memory in words of eight bytes at the addresses that are used; every stack pointer here is a multiple of eight.\<close>

record cpu =
  cpu_regs :: "reg \<Rightarrow> u64"
  cpu_rsp :: u64
  cpu_rip :: u64
  cpu_flags :: u64
  cpu_cs :: u64
  cpu_ss :: u64
  cpu_mem :: "u64 \<Rightarrow> u64"
  cpu_out :: "(u16 \<times> u8) list"  \<comment> \<open>bytes written to ports\<close>

datatype instr =
    Push reg | PushImm u64 | Pop reg
  | SaveRsp reg  \<comment> \<open>\<^verbatim>\<open>mov [r], rsp\<close>\<close>
  | LoadRsp reg  \<comment> \<open>\<^verbatim>\<open>mov rsp, [r]\<close>\<close>
  | CopyRsp reg  \<comment> \<open>\<^verbatim>\<open>mov r, rsp\<close>\<close>
  | SetRsp reg  \<comment> \<open>\<^verbatim>\<open>mov rsp, r\<close>\<close>
  | AlignRsp  \<comment> \<open>\<^verbatim>\<open>and rsp, -16\<close>\<close>
  | MovAl u8 | MovDx u16 | OutDxAl
  | Call | Ret | Iretq

definition push :: "u64 \<Rightarrow> cpu \<Rightarrow> cpu" where
  "push v c = c\<lparr>cpu_rsp := cpu_rsp c - 8, cpu_mem := (cpu_mem c)(cpu_rsp c - 8 := v)\<rparr>"

definition set_reg :: "reg \<Rightarrow> u64 \<Rightarrow> cpu \<Rightarrow> cpu" where
  "set_reg r v c = c\<lparr>cpu_regs := (cpu_regs c)(r := v)\<rparr>"

definition word_at :: "nat \<Rightarrow> cpu \<Rightarrow> u64" where
  "word_at i c = cpu_mem c (cpu_rsp c + 8 * of_nat i)"

text \<open>The called function is a parameter; it returns with the stack pointer at which it was called.\<close>

fun exec :: "(cpu \<Rightarrow> cpu) \<Rightarrow> instr \<Rightarrow> cpu \<Rightarrow> cpu" where
  "exec callee (Push r) c = push (cpu_regs c r) c"
| "exec callee (PushImm v) c = push v c"
| "exec callee (Pop r) c = (set_reg r (word_at 0 c) c)\<lparr>cpu_rsp := cpu_rsp c + 8\<rparr>"
| "exec callee (SaveRsp r) c = c\<lparr>cpu_mem := (cpu_mem c)(cpu_regs c r := cpu_rsp c)\<rparr>"
| "exec callee (LoadRsp r) c = c\<lparr>cpu_rsp := cpu_mem c (cpu_regs c r)\<rparr>"
| "exec callee (CopyRsp r) c = set_reg r (cpu_rsp c) c"
| "exec callee (SetRsp r) c = c\<lparr>cpu_rsp := cpu_regs c r\<rparr>"
| "exec callee AlignRsp c = c\<lparr>cpu_rsp := cpu_rsp c AND - 16\<rparr>"
| "exec callee (MovAl v) c = set_reg RAX ((cpu_regs c RAX AND NOT 0xFF) OR ucast v) c"
| "exec callee (MovDx v) c = set_reg RDX ((cpu_regs c RDX AND NOT 0xFFFF) OR ucast v) c"
| "exec callee OutDxAl c = c\<lparr>cpu_out := cpu_out c @ [(ucast (cpu_regs c RDX), ucast (cpu_regs c RAX))]\<rparr>"
| "exec callee Call c = callee c"
| "exec callee Ret c = c\<lparr>cpu_rip := word_at 0 c, cpu_rsp := cpu_rsp c + 8\<rparr>"
| "exec callee Iretq c =
     c\<lparr>cpu_rip := word_at 0 c, cpu_cs := word_at 1 c, cpu_flags := word_at 2 c, cpu_rsp := word_at 3 c, cpu_ss := word_at 4 c\<rparr>"

definition run_code :: "(cpu \<Rightarrow> cpu) \<Rightarrow> instr list \<Rightarrow> cpu \<Rightarrow> cpu" where
  "run_code callee code c = fold (exec callee) code c"

section \<open>The routines\<close>

definition context_switch :: "cpu \<Rightarrow> cpu" where
  "context_switch = run_code id
     [Push RBX, Push RBP, Push R12, Push R13, Push R14, Push R15,
      SaveRsp RDI, LoadRsp RSI,
      Pop R15, Pop R14, Pop R13, Pop R12, Pop RBP, Pop RBX, Ret]"

definition irq0_stub :: "(cpu \<Rightarrow> cpu) \<Rightarrow> cpu \<Rightarrow> cpu" where
  "irq0_stub handler = run_code handler
     [Push RAX, Push RBX, Push RCX, Push RDX, Push RSI, Push RDI, Push RBP, Push R8,
      Push R9, Push R10, Push R11, Push R12, Push R13, Push R14, Push R15,
      CopyRsp RBP, AlignRsp, Call, SetRsp RBP,
      Pop R15, Pop R14, Pop R13, Pop R12, Pop R11, Pop R10, Pop R9, Pop R8,
      Pop RBP, Pop RDI, Pop RSI, Pop RDX, Pop RCX, Pop RBX, Pop RAX, Iretq]"

definition irq_spurious_master_stub :: "cpu \<Rightarrow> cpu" where
  "irq_spurious_master_stub = run_code id
     [Push RAX, Push RDX, MovAl 0x20, MovDx 0x20, OutDxAl, Pop RDX, Pop RAX, Iretq]"

definition irq_spurious_slave_stub :: "cpu \<Rightarrow> cpu" where
  "irq_spurious_slave_stub = run_code id
     [Push RAX, Push RDX, MovAl 0x20, MovDx 0xA0, OutDxAl, MovDx 0x20, OutDxAl, Pop RDX, Pop RAX, Iretq]"

definition isr_stub_noerr :: "u64 \<Rightarrow> (cpu \<Rightarrow> cpu) \<Rightarrow> cpu \<Rightarrow> cpu" where
  "isr_stub_noerr vector entry = run_code entry [PushImm 0, PushImm vector, CopyRsp RDI, AlignRsp, Call]"

definition isr_stub_err :: "u64 \<Rightarrow> (cpu \<Rightarrow> cpu) \<Rightarrow> cpu \<Rightarrow> cpu" where
  "isr_stub_err vector entry = run_code entry [PushImm vector, CopyRsp RDI, AlignRsp, Call]"

text \<open>The processor on an interrupt: the aligned stack, five words, and for some exceptions an error code.\<close>

definition interrupt_frame :: "cpu \<Rightarrow> cpu" where
  "interrupt_frame c =
     push (cpu_rip c) (push (cpu_cs c) (push (cpu_flags c) (push (cpu_rsp c) (push (cpu_ss c) (c\<lparr>cpu_rsp := cpu_rsp c AND - 16\<rparr>)))))"

definition exception_frame :: "u64 option \<Rightarrow> cpu \<Rightarrow> cpu" where
  "exception_frame error c = (case error of Some e \<Rightarrow> push e (interrupt_frame c) | None \<Rightarrow> interrupt_frame c)"

section \<open>The top of the stack\<close>

definition top_words :: "nat \<Rightarrow> cpu \<Rightarrow> u64 list" where
  "top_words n c = map (\<lambda>i. word_at i c) [0..<n]"

lemma run_code_append [simp]: "run_code h (xs @ ys) c = run_code h ys (run_code h xs c)"
  by (simp add: run_code_def)

lemma run_code_simps [simp]: "run_code h [] c = c" "run_code h (x # xs) c = run_code h xs (exec h x c)"
  by (simp_all add: run_code_def)

lemma push_simps [simp]: "cpu_regs (push v c) = cpu_regs c" "cpu_rsp (push v c) = cpu_rsp c - 8" "cpu_rip (push v c) = cpu_rip c"
  "cpu_flags (push v c) = cpu_flags c" "cpu_cs (push v c) = cpu_cs c" "cpu_ss (push v c) = cpu_ss c"
  "cpu_mem (push v c) = (cpu_mem c)(cpu_rsp c - 8 := v)" "cpu_out (push v c) = cpu_out c"
  by (simp_all add: push_def)

lemma set_reg_simps [simp]: "cpu_regs (set_reg r v c) = (cpu_regs c)(r := v)" "cpu_rsp (set_reg r v c) = cpu_rsp c"
  "cpu_rip (set_reg r v c) = cpu_rip c" "cpu_flags (set_reg r v c) = cpu_flags c" "cpu_cs (set_reg r v c) = cpu_cs c"
  "cpu_ss (set_reg r v c) = cpu_ss c" "cpu_mem (set_reg r v c) = cpu_mem c" "cpu_out (set_reg r v c) = cpu_out c"
  by (simp_all add: set_reg_def)

text \<open>Words at different small offsets are different words.\<close>

lemma offset_eq: "i < 2 ^ 60 \<Longrightarrow> j < 2 ^ 60 \<Longrightarrow> (a + 8 * of_nat i = a + 8 * of_nat j) = (i = j)" for a :: u64
proof
  assume b: "i < 2 ^ 60" "j < 2 ^ 60" and "a + 8 * of_nat i = a + 8 * of_nat j"
  then have "unat (8 * of_nat i :: u64) = unat (8 * of_nat j :: u64)" by simp
  moreover have "unat (8 * of_nat n :: u64) = 8 * n" if "n < 2 ^ 60" for n using that by (simp add: unat_word_ariths unat_of_nat)
  ultimately show "i = j" using b by simp
qed simp

lemma length_top_words [simp]: "length (top_words n c) = n"
  by (simp add: top_words_def)

lemma top_words_push: "n < 2 ^ 59 \<Longrightarrow> top_words (Suc n) (push v c) = v # top_words n c"
proof (rule nth_equalityI)
  fix i
  assume n: "n < 2 ^ 59" and "i < length (top_words (Suc n) (push v c))"
  then have i: "i < Suc n" by simp
  show "top_words (Suc n) (push v c) ! i = (v # top_words n c) ! i"
  proof (cases i)
    case (Suc j)
    have ne: "cpu_rsp c - 8 + 8 * of_nat i \<noteq> cpu_rsp c - 8"
      using offset_eq [of i 0 "cpu_rsp c - 8"] i n Suc by simp
    have eq: "cpu_rsp c - 8 + 8 * of_nat i = cpu_rsp c + 8 * of_nat j" using Suc by (simp add: algebra_simps)
    have "top_words (Suc n) (push v c) ! i = cpu_mem (push v c) (cpu_rsp c - 8 + 8 * of_nat i)"
      using i by (simp add: top_words_def word_at_def del: upt_Suc)
    also have "\<dots> = cpu_mem c (cpu_rsp c + 8 * of_nat j)" using ne unfolding push_simps eq by simp
    also have "\<dots> = (v # top_words n c) ! i" using i Suc by (simp add: top_words_def word_at_def)
    finally show ?thesis .
  qed (use i in \<open>simp add: top_words_def word_at_def del: upt_Suc\<close>)
qed simp

lemma word_at_top: "i < n \<Longrightarrow> word_at i c = top_words n c ! i"
  by (simp add: top_words_def)

text \<open>A list of pushes, and a list of pops.\<close>

lemma push_regs:
  assumes "n + length rs < 2 ^ 59"
  shows "top_words (length rs + n) (run_code h (map Push rs) c) = rev (map (cpu_regs c) rs) @ top_words n c"
    "run_code h (map Push rs) c = c\<lparr>cpu_rsp := cpu_rsp c - 8 * of_nat (length rs), cpu_mem := cpu_mem (run_code h (map Push rs) c)\<rparr>"
    "\<And>a. (\<forall>i<length rs. a \<noteq> cpu_rsp c - 8 * of_nat (Suc i)) \<Longrightarrow> cpu_mem (run_code h (map Push rs) c) a = cpu_mem c a"
proof -
  have "top_words (length rs + n) (run_code h (map Push rs) c) = rev (map (cpu_regs c) rs) @ top_words n c \<and>
    run_code h (map Push rs) c = c\<lparr>cpu_rsp := cpu_rsp c - 8 * of_nat (length rs), cpu_mem := cpu_mem (run_code h (map Push rs) c)\<rparr> \<and>
    (\<forall>a. (\<forall>i<length rs. a \<noteq> cpu_rsp c - 8 * of_nat (Suc i)) \<longrightarrow> cpu_mem (run_code h (map Push rs) c) a = cpu_mem c a)"
    using assms
  proof (induction rs rule: rev_induct)
    case (snoc r rs)
    let ?d = "run_code h (map Push rs) c"
    have IH: "top_words (length rs + n) ?d = rev (map (cpu_regs c) rs) @ top_words n c"
      "?d = c\<lparr>cpu_rsp := cpu_rsp c - 8 * of_nat (length rs), cpu_mem := cpu_mem ?d\<rparr>"
      "\<And>a. (\<forall>i<length rs. a \<noteq> cpu_rsp c - 8 * of_nat (Suc i)) \<Longrightarrow> cpu_mem ?d a = cpu_mem c a" using snoc by auto
    have d: "cpu_regs ?d = cpu_regs c" "cpu_rsp ?d = cpu_rsp c - 8 * of_nat (length rs)" by (subst IH(2), simp)+
    have e: "run_code h (map Push (rs @ [r])) c = push (cpu_regs c r) ?d" by (simp add: d(1))
    have A: "top_words (length (rs @ [r]) + n) (push (cpu_regs c r) ?d) = cpu_regs c r # top_words (length rs + n) ?d"
      using top_words_push [of "length rs + n" "cpu_regs c r" ?d] snoc.prems by simp
    have B: "push (cpu_regs c r) ?d = c\<lparr>cpu_rsp := cpu_rsp c - 8 * of_nat (length (rs @ [r])), cpu_mem := cpu_mem (push (cpu_regs c r) ?d)\<rparr>"
      by (subst IH(2)) (simp add: push_def d algebra_simps)
    have C: "cpu_mem (push (cpu_regs c r) ?d) a = cpu_mem c a"
      if a: "\<forall>i<length (rs @ [r]). a \<noteq> cpu_rsp c - 8 * of_nat (Suc i)" for a
    proof -
      have "a \<noteq> cpu_rsp ?d - 8" using a [rule_format, of "length rs"] by (simp add: d(2) algebra_simps)
      moreover have "cpu_mem ?d a = cpu_mem c a" by (rule IH(3)) (use a in simp)
      ultimately show ?thesis by simp
    qed
    show ?case unfolding e
    proof (intro conjI allI impI)
      show "top_words (length (rs @ [r]) + n) (push (cpu_regs c r) ?d) = rev (map (cpu_regs c) (rs @ [r])) @ top_words n c"
        unfolding A IH(1) by simp
    qed (rule B, rule C)
  qed simp
  then show "top_words (length rs + n) (run_code h (map Push rs) c) = rev (map (cpu_regs c) rs) @ top_words n c"
    "run_code h (map Push rs) c = c\<lparr>cpu_rsp := cpu_rsp c - 8 * of_nat (length rs), cpu_mem := cpu_mem (run_code h (map Push rs) c)\<rparr>"
    "\<And>a. (\<forall>i<length rs. a \<noteq> cpu_rsp c - 8 * of_nat (Suc i)) \<Longrightarrow> cpu_mem (run_code h (map Push rs) c) a = cpu_mem c a" by blast+
qed

lemma top_words_pop: "top_words n (exec h (Pop r) c) = tl (top_words (Suc n) c)"
  by (simp add: top_words_def word_at_def map_tl [symmetric] upt_conv_Cons map_Suc_upt [symmetric] algebra_simps del: upt_Suc)

lemma pop_regs:
  assumes "top_words (length rs + n) c = vs @ ws" "length vs = length rs" "distinct rs"
  shows "top_words n (run_code h (map Pop rs) c) = ws"
    "run_code h (map Pop rs) c = c\<lparr>cpu_rsp := cpu_rsp c + 8 * of_nat (length rs), cpu_regs := cpu_regs (run_code h (map Pop rs) c)\<rparr>"
    "cpu_regs (run_code h (map Pop rs) c) r = (case map_of (zip rs vs) r of Some v \<Rightarrow> v | None \<Rightarrow> cpu_regs c r)"
proof -
  have "top_words n (run_code h (map Pop rs) c) = ws \<and>
    run_code h (map Pop rs) c = c\<lparr>cpu_rsp := cpu_rsp c + 8 * of_nat (length rs), cpu_regs := cpu_regs (run_code h (map Pop rs) c)\<rparr> \<and>
    (\<forall>r. cpu_regs (run_code h (map Pop rs) c) r = (case map_of (zip rs vs) r of Some v \<Rightarrow> v | None \<Rightarrow> cpu_regs c r))"
    using assms
  proof (induction rs arbitrary: vs c)
    case (Cons q rs)
    from Cons.prems(2) obtain v vs' where vs: "vs = v # vs'" "length vs' = length rs" by (cases vs) auto
    let ?d = "exec h (Pop q) c"
    have v: "word_at 0 c = v" using Cons.prems(1) vs word_at_top [of 0 "length (q # rs) + n" c] by simp
    have "top_words (length rs + n) ?d = vs' @ ws" using Cons.prems(1) vs by (simp only: top_words_pop) simp
    note IH = Cons.IH [OF this vs(2)]
    have d: "?d = c\<lparr>cpu_regs := (cpu_regs c)(q := v), cpu_rsp := cpu_rsp c + 8\<rparr>" by (simp add: v set_reg_def)
    have q: "map_of (zip rs vs') q = None" using Cons.prems(3) vs(2) by (auto simp: map_of_eq_None_iff dest: set_zip_leftD)
    have e: "run_code h (map Pop (q # rs)) c = run_code h (map Pop rs) ?d" by simp
    have r: "cpu_regs (run_code h (map Pop rs) ?d) r = (case map_of (zip (q # rs) vs) r of Some v \<Rightarrow> v | None \<Rightarrow> cpu_regs c r)" for r
    proof -
      define m where "m = map_of (zip rs vs')"
      have "map_of (zip (q # rs) vs) r = (if r = q then Some v else m r)" "m q = None" using q by (simp_all add: vs m_def)
      moreover have "cpu_regs ?d r = (if r = q then v else cpu_regs c r)" by (simp add: v)
      moreover have "cpu_regs (run_code h (map Pop rs) ?d) r = (case m r of Some v \<Rightarrow> v | None \<Rightarrow> cpu_regs ?d r)"
        using IH Cons.prems(3) by (simp add: m_def)
      ultimately show ?thesis by (cases "m r") (auto simp del: exec.simps)
    qed
    have "run_code h (map Pop rs) ?d = ?d\<lparr>cpu_rsp := cpu_rsp ?d + 8 * of_nat (length rs), cpu_regs := cpu_regs (run_code h (map Pop rs) ?d)\<rparr>"
      using IH Cons.prems(3) by simp
    also have "\<dots> = c\<lparr>cpu_rsp := cpu_rsp c + 8 * of_nat (length (q # rs)), cpu_regs := cpu_regs (run_code h (map Pop rs) ?d)\<rparr>"
      by (subst (1 2) d) (simp add: algebra_simps)
    finally have B: "run_code h (map Pop rs) ?d = c\<lparr>cpu_rsp := cpu_rsp c + 8 * of_nat (length (q # rs)), cpu_regs := cpu_regs (run_code h (map Pop rs) ?d)\<rparr>" .
    show ?case unfolding e
    proof (intro conjI allI)
      show "top_words n (run_code h (map Pop rs) ?d) = ws" using IH Cons.prems(3) by simp
    qed (rule B, rule r)
  qed simp
  then show "top_words n (run_code h (map Pop rs) c) = ws"
    "run_code h (map Pop rs) c = c\<lparr>cpu_rsp := cpu_rsp c + 8 * of_nat (length rs), cpu_regs := cpu_regs (run_code h (map Pop rs) c)\<rparr>"
    "cpu_regs (run_code h (map Pop rs) c) r = (case map_of (zip rs vs) r of Some v \<Rightarrow> v | None \<Rightarrow> cpu_regs c r)" by blast+
qed

section \<open>Switching between tasks\<close>

definition saved_regs :: "reg list" where
  "saved_regs = [RBX, RBP, R12, R13, R14, R15]"

text \<open>
  A suspended task: its context holds the stack pointer, and its stack the six saved registers, the last one pushed first, and
  the address at which it goes on.
\<close>

definition suspended :: "(u64 \<Rightarrow> u64) \<Rightarrow> u64 \<Rightarrow> (reg \<Rightarrow> u64) \<Rightarrow> u64 \<Rightarrow> u64 \<Rightarrow> bool" where
  "suspended m ctx saved ra sp \<longleftrightarrow> m ctx = sp \<and>
     (\<forall>i<7. m (sp + 8 * of_nat i) = (map saved (rev saved_regs) @ [ra]) ! i)"

definition frame_addrs :: "u64 \<Rightarrow> u64 set" where
  "frame_addrs sp = (\<lambda>i. sp + 8 * of_nat i) ` {..<7}"

definition pushed_addrs :: "u64 \<Rightarrow> u64 set" where
  "pushed_addrs sp = (\<lambda>i. sp - 8 * of_nat (Suc i)) ` {..<6}"

lemma all_less_7: "(\<forall>i<7. P i) \<longleftrightarrow> P 0 \<and> P (Suc 0) \<and> P 2 \<and> P 3 \<and> P 4 \<and> P 5 \<and> P 6" for P :: "nat \<Rightarrow> bool"
  by (auto simp: eval_nat_numeral All_less_Suc)

lemma context_switch_code:
  "context_switch c = exec id Ret (run_code id (map Pop (rev saved_regs)) (exec id (LoadRsp RSI) (exec id (SaveRsp RDI)
     (run_code id (map Push saved_regs) c))))"
  by (simp add: context_switch_def saved_regs_def)

lemma suspended_cong: "suspended m ctx f ra sp \<Longrightarrow> (\<And>x. x \<in> insert ctx (frame_addrs sp) \<Longrightarrow> m' x = m x) \<Longrightarrow> suspended m' ctx f ra sp"
  by (auto simp: suspended_def frame_addrs_def)

lemma pushed_state:
  defines "d \<equiv> \<lambda>c. run_code id (map Push saved_regs) c"
  shows "cpu_regs (d c) = cpu_regs c" "cpu_rsp (d c) = cpu_rsp c - 48"
    "top_words 7 (d c) = map (cpu_regs c) (rev saved_regs) @ [word_at 0 c]"
    "x \<notin> pushed_addrs (cpu_rsp c) \<Longrightarrow> cpu_mem (d c) x = cpu_mem c x"
proof -
  have l: "length saved_regs = 6" by (simp add: saved_regs_def)
  note p = push_regs [where n = 1 and rs = saved_regs and h = id and c = c, unfolded l]
  show "cpu_regs (d c) = cpu_regs c" "cpu_rsp (d c) = cpu_rsp c - 48"
    unfolding d_def by (subst p(2), simp, simp)+
  show "top_words 7 (d c) = map (cpu_regs c) (rev saved_regs) @ [word_at 0 c]"
    using p(1) by (simp add: d_def rev_map) (simp add: top_words_def)
  show "cpu_mem (d c) x = cpu_mem c x" if "x \<notin> pushed_addrs (cpu_rsp c)"
    unfolding d_def by (rule p(3)) (use that in \<open>auto simp: pushed_addrs_def simp del: of_nat_Suc\<close>)
qed

lemma popped_state:
  assumes "suspended (cpu_mem c) ctx f ra (cpu_rsp c)"
  defines "d \<equiv> exec id Ret (run_code id (map Pop (rev saved_regs)) c)"
  shows "cpu_rip d = ra" "cpu_rsp d = cpu_rsp c + 56" "cpu_mem d = cpu_mem c"
    "cpu_regs d r = (if r \<in> set saved_regs then f r else cpu_regs c r)"
proof -
  have l: "length saved_regs = 6" "distinct (rev saved_regs)" by (simp_all add: saved_regs_def)
  let ?e = "run_code id (map Pop (rev saved_regs)) c"
  have t: "top_words (length (rev saved_regs) + 1) c = map f (rev saved_regs) @ [ra]"
    using assms(1) by (intro nth_equalityI) (simp_all add: l saved_regs_def top_words_def word_at_def suspended_def del: upt_Suc)
  note p = pop_regs [OF t _ l(2), where h = id, simplified length_map, OF refl]
  have e: "cpu_rsp ?e = cpu_rsp c + 48" "cpu_mem ?e = cpu_mem c" by (subst p(2), simp add: l)+
  have "word_at 0 ?e = ra" using p(1) by (simp add: top_words_def)
  then show "cpu_rip d = ra" by (simp add: d_def)
  show "cpu_rsp d = cpu_rsp c + 56" "cpu_mem d = cpu_mem c" by (simp_all add: d_def e algebra_simps)
  have "map_of (zip (rev saved_regs) (map f (rev saved_regs))) r = (if r \<in> set saved_regs then Some (f r) else None)"
    by (simp add: map_of_zip_map)
  then show "cpu_regs d r = (if r \<in> set saved_regs then f r else cpu_regs c r)"
    using p(3) [of r] by (simp add: d_def)
qed

lemma switch_suspends:
  assumes "cpu_regs c RDI = ctx" "ctx \<notin> frame_addrs (cpu_rsp c - 48)"
  shows "suspended ((cpu_mem (run_code id (map Push saved_regs) c))(ctx := cpu_rsp c - 48)) ctx (cpu_regs c) (word_at 0 c) (cpu_rsp c - 48)"
proof -
  let ?d = "run_code id (map Push saved_regs) c"
  note p = pushed_state [where c = c]
  have "cpu_mem ?d (cpu_rsp c - 48 + 8 * of_nat i) = (map (cpu_regs c) (rev saved_regs) @ [word_at 0 c]) ! i" if "i < 7" for i
    using that p(3) word_at_top [of i 7 ?d] by (simp add: word_at_def p(2))
  then show ?thesis using assms(2) by (auto simp: suspended_def frame_addrs_def)
qed

lemma switch_state:
  assumes "cpu_regs c RDI = a" "cpu_regs c RSI = b"
    "suspended ((cpu_mem (run_code id (map Push saved_regs) c))(a := cpu_rsp c - 48)) b f ra sp"
  shows "cpu_rip (context_switch c) = ra" "cpu_rsp (context_switch c) = sp + 56"
    "cpu_mem (context_switch c) = (cpu_mem (run_code id (map Push saved_regs) c))(a := cpu_rsp c - 48)"
    "cpu_regs (context_switch c) r = (if r \<in> set saved_regs then f r else cpu_regs c r)"
proof -
  let ?d = "exec id (LoadRsp RSI) (exec id (SaveRsp RDI) (run_code id (map Push saved_regs) c))"
  note p = pushed_state [where c = c]
  have d: "cpu_mem ?d = (cpu_mem (run_code id (map Push saved_regs) c))(a := cpu_rsp c - 48)" "cpu_regs ?d = cpu_regs c"
    using assms(1) by (simp_all add: p)
  have "cpu_rsp ?d = cpu_mem ?d b" using assms(2) by (simp add: p)
  with d(1) assms(3) have s: "cpu_rsp ?d = sp" by (simp only: suspended_def)
  have "suspended (cpu_mem ?d) b f ra (cpu_rsp ?d)" unfolding d(1) s by (rule assms(3))
  note q = popped_state [OF this, folded context_switch_code]
  show "cpu_rip (context_switch c) = ra" by (rule q(1))
  show "cpu_rsp (context_switch c) = sp + 56" unfolding q(2) s ..
  show "cpu_mem (context_switch c) = (cpu_mem (run_code id (map Push saved_regs) c))(a := cpu_rsp c - 48)" unfolding q(3) d(1) ..
  show "cpu_regs (context_switch c) r = (if r \<in> set saved_regs then f r else cpu_regs c r)" unfolding q(4) d(2) ..
qed

text \<open>A switch to a suspended task resumes it, when what the switch stores lies elsewhere.\<close>

lemma switch_resumes:
  assumes "suspended (cpu_mem c) b f ra sp" "cpu_regs c RSI = b"
    "insert (cpu_regs c RDI) (pushed_addrs (cpu_rsp c)) \<inter> insert b (frame_addrs sp) = {}"
  shows "cpu_rip (context_switch c) = ra" "cpu_rsp (context_switch c) = sp + 56"
    "r \<in> set saved_regs \<Longrightarrow> cpu_regs (context_switch c) r = f r"
proof -
  have "suspended ((cpu_mem (run_code id (map Push saved_regs) c))(cpu_regs c RDI := cpu_rsp c - 48)) b f ra sp"
    by (rule suspended_cong [OF assms(1)]) (use assms(3) pushed_state(4) in auto)
  note s = switch_state [OF refl assms(2) this]
  show "cpu_rip (context_switch c) = ra" "cpu_rsp (context_switch c) = sp + 56"
    "r \<in> set saved_regs \<Longrightarrow> cpu_regs (context_switch c) r = f r" using s by simp_all
qed

text \<open>
  C34. A task that switches away comes back as it left.  Task A switches to any suspended task; whatever runs then, if it
  leaves the words of A's context and saved frame alone and at last switches to A from a stack that does not overlap them, A
  goes on at the return address of its call, with its stack pointer past that address and its six saved registers
  unchanged.
\<close>

theorem context_switch_roundtrip:
  assumes "cpu_regs c RDI = ctx" "ctx \<notin> frame_addrs (cpu_rsp c - 48)"
    and other: "cpu_regs c RSI = b" "suspended (cpu_mem c) b f ra sp"
      "insert ctx (pushed_addrs (cpu_rsp c)) \<inter> insert b (frame_addrs sp) = {}"
    and kept: "\<And>x. x \<in> insert ctx (frame_addrs (cpu_rsp c - 48)) \<Longrightarrow> cpu_mem later x = cpu_mem (context_switch c) x"
    and home: "cpu_regs later RSI = ctx"
      "insert (cpu_regs later RDI) (pushed_addrs (cpu_rsp later)) \<inter> insert ctx (frame_addrs (cpu_rsp c - 48)) = {}"
  shows "cpu_rip (context_switch c) = ra \<and> cpu_rip (context_switch later) = word_at 0 c \<and>
    cpu_rsp (context_switch later) = cpu_rsp c + 8 \<and> list_all (\<lambda>r. cpu_regs (context_switch later) r = cpu_regs c r) saved_regs"
proof -
  have "suspended ((cpu_mem (run_code id (map Push saved_regs) c))(ctx := cpu_rsp c - 48)) b f ra sp"
    by (rule suspended_cong [OF other(2)]) (use other(3) pushed_state(4) in auto)
  note s = switch_state [OF assms(1) other(1) this]
  have "suspended (cpu_mem (context_switch c)) ctx (cpu_regs c) (word_at 0 c) (cpu_rsp c - 48)"
    unfolding s(3) by (rule switch_suspends [OF assms(1,2)])
  then have "suspended (cpu_mem later) ctx (cpu_regs c) (word_at 0 c) (cpu_rsp c - 48)" using kept by (rule suspended_cong)
  note r = switch_resumes [OF this home]
  have "cpu_rsp (context_switch later) = cpu_rsp c + 8" unfolding r(2) by (simp add: algebra_simps)
  with s(1) r show ?thesis by (auto simp: list_all_iff)
qed

definition demo_task :: cpu where
  "demo_task = \<lparr>cpu_regs = (\<lambda>r. 7)(RDI := 0x5000, RSI := 0x6000), cpu_rsp = 0x1000, cpu_rip = 0, cpu_flags = 0x202, cpu_cs = 8, cpu_ss = 16,
     cpu_mem = (\<lambda>a. 0)(0x6000 := 0x2000, 0x2030 := 0x400, 0x1000 := 0x300), cpu_out = []\<rparr>"

definition demo_later :: cpu where
  "demo_later = (context_switch demo_task)\<lparr>cpu_regs := (\<lambda>r. 9)(RDI := 0x6000, RSI := 0x5000)\<rparr>"

theorem context_switch_roundtrip_witness:
  "cpu_rip (context_switch demo_task) = 0x400 \<and> cpu_rip (context_switch demo_later) = 0x300 \<and>
   cpu_rsp (context_switch demo_later) = 0x1008 \<and> cpu_regs (context_switch demo_later) RBX = 7"
proof -
  note up = lessThan_nat_numeral pred_numeral_simps lessThan_Suc
  have s: "suspended (cpu_mem demo_task) 0x6000 (\<lambda>r. 0) 0x400 0x2000"
    by (simp add: suspended_def demo_task_def saved_regs_def all_less_7)
  have sp: "cpu_rsp (context_switch demo_task) = 0x2038" by (simp add: context_switch_def demo_task_def word_at_def)
  have r: "cpu_regs demo_task RDI = 0x5000" "cpu_regs demo_task RSI = 0x6000" "cpu_rsp demo_task = 0x1000" "word_at 0 demo_task = 0x300"
    by (simp_all add: demo_task_def word_at_def)
  have "cpu_rip (context_switch demo_task) = 0x400 \<and> cpu_rip (context_switch demo_later) = word_at 0 demo_task \<and>
    cpu_rsp (context_switch demo_later) = cpu_rsp demo_task + 8 \<and>
    list_all (\<lambda>r. cpu_regs (context_switch demo_later) r = cpu_regs demo_task r) saved_regs"
  proof (rule context_switch_roundtrip [OF r(1) _ r(2) s])
    show "0x5000 \<notin> frame_addrs (cpu_rsp demo_task - 48)" by (auto simp: frame_addrs_def r up)
    show "insert 0x5000 (pushed_addrs (cpu_rsp demo_task)) \<inter> insert 0x6000 (frame_addrs 0x2000) = {}"
      by (auto simp: frame_addrs_def pushed_addrs_def r up)
    show "insert (cpu_regs demo_later RDI) (pushed_addrs (cpu_rsp demo_later)) \<inter> insert 0x5000 (frame_addrs (cpu_rsp demo_task - 48)) = {}"
      by (auto simp: frame_addrs_def pushed_addrs_def demo_later_def sp r up)
  qed (simp_all add: demo_later_def)
  then show ?thesis by (simp add: r saved_regs_def) (simp add: demo_task_def)
qed

text \<open>
  A new process: \<^verbatim>\<open>build_initial_stack_frame\<close> leaves six zero words and the entry address below the top of the stack, so the first
  switch to it jumps there with zero registers, the stack pointer one word below the top as after a call.
\<close>

lemma fresh_task_starts:
  assumes "cpu_mem c b = top - 64" "\<forall>i<6. cpu_mem c (top - 64 + 8 * of_nat i) = 0" "cpu_mem c (top - 64 + 8 * 6) = entry"
    "cpu_regs c RSI = b" "insert (cpu_regs c RDI) (pushed_addrs (cpu_rsp c)) \<inter> insert b (frame_addrs (top - 64)) = {}"
  shows "cpu_rip (context_switch c) = entry" "cpu_rsp (context_switch c) = top - 8"
    "r \<in> set saved_regs \<Longrightarrow> cpu_regs (context_switch c) r = 0"
proof -
  have "(map (\<lambda>r. 0) (rev saved_regs) @ [entry]) ! i = (if i < 6 then 0 else entry)" if "i < 7" for i
    using that by (auto simp: saved_regs_def less_Suc_eq eval_nat_numeral)
  then have "suspended (cpu_mem c) b (\<lambda>r. 0) entry (top - 64)"
    using assms(1-3) by (auto simp: suspended_def less_Suc_eq eval_nat_numeral)
  note r = switch_resumes [OF this assms(4,5)]
  show "cpu_rip (context_switch c) = entry" "cpu_rsp (context_switch c) = top - 8"
    "r \<in> set saved_regs \<Longrightarrow> cpu_regs (context_switch c) r = 0" using r by simp_all
qed

section \<open>The interrupt entries\<close>

lemma frame_words: "top_words 5 (interrupt_frame c) = [cpu_rip c, cpu_cs c, cpu_flags c, cpu_rsp c, cpu_ss c]"
proof -
  have z: "top_words 0 d = []" for d by (simp add: top_words_def)
  have two: "top_words 2 d = top_words (Suc (Suc 0)) d" for d by (simp add: numeral_2_eq_2)
  let ?c = "c\<lparr>cpu_rsp := cpu_rsp c AND - 16\<rparr>"
  show ?thesis
    using top_words_push [of 4 "cpu_rip c" "push (cpu_cs c) (push (cpu_flags c) (push (cpu_rsp c) (push (cpu_ss c) ?c)))"]
      top_words_push [of 3 "cpu_cs c" "push (cpu_flags c) (push (cpu_rsp c) (push (cpu_ss c) ?c))"]
      top_words_push [of 2 "cpu_flags c" "push (cpu_rsp c) (push (cpu_ss c) ?c)"]
      top_words_push [of 1 "cpu_rsp c" "push (cpu_ss c) ?c"] top_words_push [of 0 "cpu_ss c" ?c]
    by (simp add: interrupt_frame_def z two)
qed

text \<open>
  A routine that pushes registers, does something with the same stack pointer that keeps the words on the stack and the
  registers not pushed, pops them and returns from the interrupt.
\<close>

lemma bracketed:
  fixes h c rs b
  defines "d \<equiv> run_code h (map Push rs) (interrupt_frame c)"
  assumes rs: "distinct rs" "length rs < 100"
    and b: "cpu_rsp (b d) = cpu_rsp d" "\<And>i. i < 105 \<Longrightarrow> cpu_mem (b d) (cpu_rsp d + 8 * of_nat i) = cpu_mem d (cpu_rsp d + 8 * of_nat i)"
      "\<And>r. r \<notin> set rs \<Longrightarrow> cpu_regs (b d) r = cpu_regs d r"
  shows "\<exists>m. exec h Iretq (run_code h (map Pop (rev rs)) (b d)) = c\<lparr>cpu_mem := m, cpu_out := cpu_out (b d)\<rparr>"
proof -
  let ?f = "interrupt_frame c"
  let ?ws = "[cpu_rip c, cpu_cs c, cpu_flags c, cpu_rsp c, cpu_ss c]"
  have l: "5 + length rs < 2 ^ 59" using rs(2) by simp
  note p = push_regs [where n = 5 and rs = rs and h = h and c = ?f, OF l, folded d_def]
  have regs: "cpu_regs ?f = cpu_regs c" by (simp add: interrupt_frame_def)
  have d: "cpu_regs d = cpu_regs c" unfolding regs [symmetric] by (subst p(2)) simp
  have td: "top_words (length rs + 5) d = map (cpu_regs c) (rev rs) @ ?ws"
    using p(1) by (simp add: regs frame_words rev_map)
  have "top_words (length rs + 5) (b d) = top_words (length rs + 5) d"
    using b(1,2) rs(2) by (simp add: top_words_def word_at_def)
  with td have tg: "top_words (length (rev rs) + 5) (b d) = map (cpu_regs c) (rev rs) @ ?ws" by simp
  define k where "k = run_code h (map Pop (rev rs)) (b d)"
  have rr: "length (map (cpu_regs c) (rev rs)) = length (rev rs)" "distinct (rev rs)" using rs(1) by simp_all
  note q = pop_regs [OF tg rr, where h = h, folded k_def]
  have kr: "cpu_regs k = cpu_regs c"
  proof
    fix r
    have "map_of (zip (rev rs) (map (cpu_regs c) (rev rs))) r = (if r \<in> set rs then Some (cpu_regs c r) else None)"
      by (simp add: map_of_zip_map)
    then show "cpu_regs k r = cpu_regs c r" using q(3) [of r] b(3) [of r] d by simp
  qed
  have w: "word_at i k = ?ws ! i" if "i < 5" for i using word_at_top [OF that] q(1) by simp
  have "cpu_out k = cpu_out (b d)" by (subst q(2)) simp
  then have "exec h Iretq k = c\<lparr>cpu_mem := cpu_mem k, cpu_out := cpu_out (b d)\<rparr>"
    using w [of 0] w [of 1] w [of 2] w [of 3] w [of 4] kr by (cases c, cases k) simp
  then show ?thesis unfolding k_def by blast
qed

text \<open>
  What a called function promises: the stack pointer and the saved registers come back, and the words of the caller's stack, here
  the next page from the stack pointer on, keep their contents.
\<close>

definition sysv_call :: "(cpu \<Rightarrow> cpu) \<Rightarrow> bool" where
  "sysv_call h \<longleftrightarrow> (\<forall>c. cpu_rsp (h c) = cpu_rsp c \<and> (\<forall>r \<in> set saved_regs. cpu_regs (h c) r = cpu_regs c r) \<and>
     (\<forall>a. a - cpu_rsp c < 4096 \<longrightarrow> cpu_mem (h c) a = cpu_mem c a))"

lemma align_gap: "x - (x AND - 16) = x AND 15" for x :: u64
proof -
  have n: "(- 16 :: u64) = NOT 15" by simp
  have "NOT x AND (x AND NOT 15) = 0" by (rule bit_eqI) (auto simp: bit_and_iff bit_not_iff)
  then have "x - (x AND NOT 15) = x AND NOT (x AND NOT 15)" by (rule disjunctive_diff_eq_and_not)
  also have "\<dots> = x AND 15" by (rule bit_eqI) (auto simp: bit_and_iff bit_or_iff bit_not_iff)
  finally show ?thesis by (simp only: n)
qed

lemma sysv_words:
  assumes "sysv_call h" "cpu_rsp c = x AND - 16" "i < 400"
  shows "cpu_mem (h c) (x + 8 * of_nat i) = cpu_mem c (x + 8 * of_nat i)"
proof -
  have "x AND 15 \<le> 15" by (rule word_and_le1)
  then have u: "unat (x AND 15) \<le> 15" by (simp add: word_le_nat_alt)
  have gap: "x + 8 * of_nat i - cpu_rsp c = (x AND 15) + 8 * of_nat i" using align_gap [of x] assms(2) by (simp add: algebra_simps)
  have "unat ((x AND 15) + 8 * of_nat i) < 4096"
  proof -
    have "unat (8 * of_nat i :: u64) = 8 * i" using assms(3) by (simp add: unat_word_ariths unat_of_nat)
    then show ?thesis using u assms(3) by (simp add: unat_word_ariths)
  qed
  then have "x + 8 * of_nat i - cpu_rsp c < 4096" unfolding gap by (simp add: word_less_nat_alt)
  then show ?thesis using assms(1) unfolding sysv_call_def by blast
qed

definition all_regs :: "reg list" where
  "all_regs = [RAX, RBX, RCX, RDX, RSI, RDI, RBP, R8, R9, R10, R11, R12, R13, R14, R15]"

lemma all_regs: "distinct all_regs" "r \<in> set all_regs" "length all_regs = 15"
  by (simp_all add: all_regs_def, cases r) simp_all

lemma irq0_code:
  "irq0_stub h c = exec h Iretq (run_code h (map Pop (rev all_regs)) (exec h (SetRsp RBP) (h (exec h AlignRsp (exec h (CopyRsp RBP)
     (run_code h (map Push all_regs) c))))))"
  by (simp add: irq0_stub_def all_regs_def)

text \<open>
  C35. A timer interrupt does not show in the task it interrupts.  Whatever the handler does within the calling convention,
  scheduling other tasks included, after the entry code has run to its \<^verbatim>\<open>iretq\<close> every register, the stack pointer, the flags,
  the segments and the instruction pointer are those of the moment of the interrupt, whatever the alignment of the stack was.
\<close>

theorem irq0_transparent:
  assumes "sysv_call handler"
  shows "\<exists>m out. irq0_stub handler (interrupt_frame c) = c\<lparr>cpu_mem := m, cpu_out := out\<rparr>"
proof -
  define b where "b = (\<lambda>d. exec handler (SetRsp RBP) (handler (exec handler AlignRsp (exec handler (CopyRsp RBP) d))))"
  let ?d = "run_code handler (map Push all_regs) (interrupt_frame c)"
  let ?e = "exec handler AlignRsp (exec handler (CopyRsp RBP) ?d)"
  have e: "cpu_rsp ?e = cpu_rsp ?d AND - 16" "cpu_mem ?e = cpu_mem ?d" "cpu_regs ?e RBP = cpu_rsp ?d" by simp_all
  have "cpu_regs (handler ?e) RBP = cpu_rsp ?d" using assms e(3) by (simp add: sysv_call_def saved_regs_def)
  then have g: "cpu_rsp (b ?d) = cpu_rsp ?d" "cpu_mem (b ?d) = cpu_mem (handler ?e)" by (simp_all add: b_def)
  have "\<exists>m. exec handler Iretq (run_code handler (map Pop (rev all_regs)) (b ?d)) = c\<lparr>cpu_mem := m, cpu_out := cpu_out (b ?d)\<rparr>"
  proof (rule bracketed [where b = b and rs = all_regs and h = handler and c = c])
    show "cpu_mem (b ?d) (cpu_rsp ?d + 8 * of_nat i) = cpu_mem ?d (cpu_rsp ?d + 8 * of_nat i)" if "i < 105" for i
      using sysv_words [OF assms e(1), of i] that by (simp add: g(2) e(2) del: exec.simps)
  qed (rule all_regs, simp add: all_regs, rule g(1), simp add: all_regs)
  then show ?thesis unfolding irq0_code b_def by blast
qed

theorem irq0_transparent_witness:
  "\<exists>m out. irq0_stub (\<lambda>c. c\<lparr>cpu_regs := (cpu_regs c)(RAX := 1), cpu_flags := 0\<rparr>) (interrupt_frame demo_task) =
     demo_task\<lparr>cpu_mem := m, cpu_out := out\<rparr>"
  by (rule irq0_transparent) (simp add: sysv_call_def saved_regs_def)

lemma ucast_mask_bits: "bit (0xFF :: u64) n \<longleftrightarrow> n < 8" "bit (0xFFFF :: u64) n \<longleftrightarrow> n < 16"
proof -
  have e: "(0xFF :: u64) = mask 8" "(0xFFFF :: u64) = mask 16" by (simp_all add: mask_eq_exp_minus_1)
  show "bit (0xFF :: u64) n \<longleftrightarrow> n < 8" "bit (0xFFFF :: u64) n \<longleftrightarrow> n < 16" unfolding e bit_mask_iff possible_bit_word by auto
qed

text \<open>A spurious interrupt only sends the end-of-interrupt byte, to the second controller first when it comes from there.\<close>

lemma spurious_stubs:
  "\<exists>m. irq_spurious_master_stub (interrupt_frame c) = c\<lparr>cpu_mem := m, cpu_out := cpu_out c @ [(0x20, 0x20)]\<rparr>"
  "\<exists>m. irq_spurious_slave_stub (interrupt_frame c) = c\<lparr>cpu_mem := m, cpu_out := cpu_out c @ [(0xA0, 0x20), (0x20, 0x20)]\<rparr>"
proof -
  have low: "(ucast ((x AND NOT 0xFFFF) OR ucast v) :: u16) = v" for x :: u64 and v :: u16
    by (rule bit_eqI) (auto simp: bit_simps ucast_mask_bits(2) simp del: bit_numeral_word_iff)
  have lowb: "(ucast ((x AND NOT 0xFF) OR ucast v) :: u8) = v" for x :: u64 and v :: u8
    by (rule bit_eqI) (auto simp: bit_simps ucast_mask_bits(1) simp del: bit_numeral_word_iff)
  let ?d = "run_code id (map Push [RAX, RDX]) (interrupt_frame c)"
  have o: "cpu_out ?d = cpu_out c" by (simp add: interrupt_frame_def)
  define b1 where "b1 = (\<lambda>d. exec id OutDxAl (exec id (MovDx 0x20) (exec id (MovAl 0x20) d)))"
  define b2 where "b2 = (\<lambda>d. exec id OutDxAl (exec id (MovDx 0x20) (exec id OutDxAl (exec id (MovDx 0xA0) (exec id (MovAl 0x20) d)))))"
  have "\<exists>m. exec id Iretq (run_code id (map Pop (rev [RAX, RDX])) (b1 ?d)) = c\<lparr>cpu_mem := m, cpu_out := cpu_out (b1 ?d)\<rparr>"
    by (rule bracketed) (simp_all add: b1_def)
  moreover have "cpu_out (b1 ?d) = cpu_out c @ [(0x20, 0x20)]" using low [of _ "0x20"] lowb [of _ "0x20"] o by (simp add: b1_def)
  ultimately show "\<exists>m. irq_spurious_master_stub (interrupt_frame c) = c\<lparr>cpu_mem := m, cpu_out := cpu_out c @ [(0x20, 0x20)]\<rparr>"
    by (simp add: irq_spurious_master_stub_def b1_def)
  have "\<exists>m. exec id Iretq (run_code id (map Pop (rev [RAX, RDX])) (b2 ?d)) = c\<lparr>cpu_mem := m, cpu_out := cpu_out (b2 ?d)\<rparr>"
    by (rule bracketed) (simp_all add: b2_def)
  moreover have "cpu_out (b2 ?d) = cpu_out c @ [(0xA0, 0x20), (0x20, 0x20)]"
    using low [of _ "0x20"] low [of _ "0xA0"] lowb [of _ "0x20"] o by (simp add: b2_def)
  ultimately show "\<exists>m. irq_spurious_slave_stub (interrupt_frame c) = c\<lparr>cpu_mem := m, cpu_out := cpu_out c @ [(0xA0, 0x20), (0x20, 0x20)]\<rparr>"
    by (simp add: irq_spurious_slave_stub_def b2_def)
qed

section \<open>The exception stubs\<close>

text \<open>The words that \<^verbatim>\<open>isr_common_entry\<close> finds at the pointer it is called with.\<close>

definition raw_word :: "nat \<Rightarrow> cpu \<Rightarrow> u64" where
  "raw_word i c = cpu_mem c (cpu_regs c RDI + 8 * of_nat i)"

lemma stub_raw_words:
  "map (\<lambda>i. raw_word i (isr_stub_noerr v id (interrupt_frame c))) [0..<7] = [v, 0, cpu_rip c, cpu_cs c, cpu_flags c, cpu_rsp c, cpu_ss c]"
  "map (\<lambda>i. raw_word i (isr_stub_err v id (push e (interrupt_frame c)))) [0..<7] = [v, e, cpu_rip c, cpu_cs c, cpu_flags c, cpu_rsp c, cpu_ss c]"
proof -
  have r: "raw_word i (exec id Call (exec id AlignRsp (exec id (CopyRsp RDI) d))) = word_at i d" for i d
    by (simp add: raw_word_def word_at_def)
  have t: "top_words 7 (push v (push x (interrupt_frame c))) = [v, x, cpu_rip c, cpu_cs c, cpu_flags c, cpu_rsp c, cpu_ss c]" for x
    using top_words_push [of 6 v "push x (interrupt_frame c)"] top_words_push [of 5 x "interrupt_frame c"] by (simp add: frame_words)
  show "map (\<lambda>i. raw_word i (isr_stub_noerr v id (interrupt_frame c))) [0..<7] = [v, 0, cpu_rip c, cpu_cs c, cpu_flags c, cpu_rsp c, cpu_ss c]"
    unfolding t [symmetric] top_words_def isr_stub_noerr_def run_code_simps r exec.simps(2) ..
  show "map (\<lambda>i. raw_word i (isr_stub_err v id (push e (interrupt_frame c)))) [0..<7] = [v, e, cpu_rip c, cpu_cs c, cpu_flags c, cpu_rsp c, cpu_ss c]"
    unfolding t [symmetric] top_words_def isr_stub_err_def run_code_simps r exec.simps(2) ..
qed

end
