(* ===== verification/Interrupts.thy ===== *)
theory Interrupts
  imports Cpu_Contexts Scheduler Rtc_Time
begin

text \<open>
  Interrupts and faults of \<^verbatim>\<open>kernel/src/main.rs\<close>: the descriptor table (\<^verbatim>\<open>set_idt_gate\<close>, \<^verbatim>\<open>init_idt\<close>), the two interrupt
  controllers (\<^verbatim>\<open>remap_pic\<close>), the timer (\<^verbatim>\<open>init_pit_timer\<close>, \<^verbatim>\<open>timer_tick_isr\<close>) and the report of an exception on the
  serial line.  Reference models of the controllers and of the timer's counter stand for the hardware.
\<close>

section \<open>The descriptor table\<close>

definition IDT_LEN :: nat where "IDT_LEN = 48"
definition IDT_GATE_PRESENT_INTERRUPT :: u8 where "IDT_GATE_PRESENT_INTERRUPT = 0x8E"

record idt_entry =
  ie_offset_low :: u16
  ie_selector :: u16
  ie_ist :: u8
  ie_type_attr :: u8
  ie_offset_mid :: u16
  ie_offset_high :: u32
  ie_reserved :: u32

definition idt_missing :: idt_entry where
  "idt_missing = \<lparr>ie_offset_low = 0, ie_selector = 0, ie_ist = 0, ie_type_attr = 0, ie_offset_mid = 0, ie_offset_high = 0, ie_reserved = 0\<rparr>"

definition set_idt_gate :: "nat \<Rightarrow> u64 \<Rightarrow> u16 \<Rightarrow> idt_entry list \<Rightarrow> idt_entry list" where
  "set_idt_gate vector handler selector idt =
     idt[vector := \<lparr>ie_offset_low = ucast handler, ie_selector = selector, ie_ist = 0, ie_type_attr = IDT_GATE_PRESENT_INTERRUPT,
       ie_offset_mid = ucast (drop_bit 16 handler), ie_offset_high = ucast (drop_bit 32 handler), ie_reserved = 0\<rparr>]"

text \<open>The addresses of the stubs, which the linker chooses.\<close>

record stub_addrs =
  isr_stub :: "nat \<Rightarrow> u64"
  irq0_addr :: u64
  irq_master_addr :: u64
  irq_slave_addr :: u64

text \<open>The vectors with a stub, in the order in which \<^verbatim>\<open>init_idt\<close> sets their gates.\<close>

definition exception_vectors :: "nat list" where
  "exception_vectors = [0, 1, 2, 3, 4, 5, 6, 7, 8, 10, 11, 12, 13, 14, 16, 17, 18, 19, 20, 21]"

definition init_idt :: "stub_addrs \<Rightarrow> u16 \<Rightarrow> idt_entry list \<Rightarrow> idt_entry list" where
  "init_idt addrs cs idt =
     (let idt = fold (\<lambda>vector. set_idt_gate vector (isr_stub addrs vector) cs) exception_vectors idt;
          idt = set_idt_gate 32 (irq0_addr addrs) cs idt;
          idt = fold (\<lambda>vector. set_idt_gate vector (irq_master_addr addrs) cs) [33..<40] idt
      in fold (\<lambda>vector. set_idt_gate vector (irq_slave_addr addrs) cs) [40..<48] idt)"

text \<open>The limit and base loaded into the register.\<close>

definition idt_pointer :: "u64 \<Rightarrow> u16 \<times> u64" where
  "idt_pointer base = (of_nat (IDT_LEN * 16 - 1), base)"

section \<open>Faults\<close>

text \<open>The name of an exception, and whether the processor pushes an error code for it.\<close>

definition vector_info :: "u8 \<Rightarrow> string \<times> bool" where
  "vector_info vector =
     (if vector = 0 then (''divide error'', False)
      else if vector = 1 then (''debug'', False)
      else if vector = 2 then (''non-maskable interrupt'', False)
      else if vector = 3 then (''breakpoint'', False)
      else if vector = 4 then (''overflow'', False)
      else if vector = 5 then (''bound range exceeded'', False)
      else if vector = 6 then (''invalid opcode'', False)
      else if vector = 7 then (''device not available'', False)
      else if vector = 8 then (''double fault'', True)
      else if vector = 10 then (''invalid TSS'', True)
      else if vector = 11 then (''segment not present'', True)
      else if vector = 12 then (''stack fault'', True)
      else if vector = 13 then (''general protection fault'', True)
      else if vector = 14 then (''page fault'', True)
      else if vector = 16 then (''x87 floating point'', False)
      else if vector = 17 then (''alignment check'', True)
      else if vector = 18 then (''machine check'', False)
      else if vector = 19 then (''SIMD floating point'', False)
      else if vector = 20 then (''virtualization'', False)
      else if vector = 21 then (''control protection'', True)
      else (''unknown'', False))"

text \<open>What \<^verbatim>\<open>fault_print\<close> and \<^verbatim>\<open>fault_print_hex\<close> write to the serial line.\<close>

definition fault_digit :: "u64 \<Rightarrow> nat \<Rightarrow> bool \<times> bytes \<Rightarrow> bool \<times> bytes" where
  "fault_digit v shift = (\<lambda>(started, out).
     let nibble = (ucast (drop_bit (shift * 4) v AND 0xF) :: u8) in
     if nibble \<noteq> 0 \<or> started \<or> shift = 0
     then (True, out @ [if nibble < 10 then 48 + nibble else 97 + (nibble - 10)]) else (started, out))"

definition fault_print_hex :: "u64 \<Rightarrow> bytes" where
  "fault_print_hex v = lit ''0x'' @ snd (fold (fault_digit v) (rev [0..<16]) (False, []))"

text \<open>\<^verbatim>\<open>core::str::from_utf8\<close>: the well-formed byte sequences of the Unicode standard.\<close>

definition utf8_tail :: "u8 \<Rightarrow> bool" where
  "utf8_tail b \<longleftrightarrow> 0x80 \<le> b \<and> b \<le> 0xBF"

fun valid_utf8 :: "bytes \<Rightarrow> bool" where
  "valid_utf8 [] = True"
| "valid_utf8 (a # bs) =
     (if a < 0x80 then valid_utf8 bs
      else if 0xC2 \<le> a \<and> a \<le> 0xDF then (case bs of b # bs \<Rightarrow> utf8_tail b \<and> valid_utf8 bs | [] \<Rightarrow> False)
      else if 0xE0 \<le> a \<and> a \<le> 0xEF then
        (case bs of b # c # bs \<Rightarrow>
           (if a = 0xE0 then 0xA0 \<le> b \<and> b \<le> 0xBF else if a = 0xED then 0x80 \<le> b \<and> b \<le> 0x9F else utf8_tail b) \<and>
           utf8_tail c \<and> valid_utf8 bs
         | _ \<Rightarrow> False)
      else if 0xF0 \<le> a \<and> a \<le> 0xF4 then
        (case bs of b # c # d # bs \<Rightarrow>
           (if a = 0xF0 then 0x90 \<le> b \<and> b \<le> 0xBF else if a = 0xF4 then 0x80 \<le> b \<and> b \<le> 0x8F else utf8_tail b) \<and>
           utf8_tail c \<and> utf8_tail d \<and> valid_utf8 bs
         | _ \<Rightarrow> False)
      else False)"

record stack_frame =
  sf_instruction_pointer :: u64
  sf_code_segment :: u64
  sf_cpu_flags :: u64
  sf_stack_pointer :: u64
  sf_stack_segment :: u64

text \<open>The text of a report; after it the processor halts.  \<open>cr2\<close> is the register of the faulting address.\<close>

definition report_fault :: "kernel \<Rightarrow> u64 \<Rightarrow> u8 \<Rightarrow> string \<Rightarrow> stack_frame \<Rightarrow> u64 option \<Rightarrow> bytes" where
  "report_fault k cr2 vector mnemonic frame error_code =
     [13, 10] @ lit ''!! CPU EXCEPTION vector='' @ fault_print_hex (ucast vector) @ lit '' ('' @ lit mnemonic @ lit '')'' @ [13, 10] @
     (case error_code of Some code \<Rightarrow> lit ''   error_code='' @ fault_print_hex code @ [13, 10] | None \<Rightarrow> []) @
     (if vector = 14 then lit ''   cr2 (fault address)='' @ fault_print_hex cr2 @ [13, 10] else []) @
     lit ''   rip='' @ fault_print_hex (sf_instruction_pointer frame) @
     lit '' cs='' @ fault_print_hex (sf_code_segment frame) @
     lit '' rflags='' @ fault_print_hex (sf_cpu_flags frame) @
     [13, 10] @ lit ''   rsp='' @ fault_print_hex (sf_stack_pointer frame) @
     lit '' ss='' @ fault_print_hex (sf_stack_segment frame) @ [13, 10] @
     (let index = current_process_index k in
      if index < PROCESS_COUNT then
        let process = proc k index; name = take (p_name_len process) (p_name process) in
        lit ''   pid='' @ fault_print_hex (ucast (p_pid process)) @
        lit '' name='' @ (if valid_utf8 name then name else lit ''?'') @ [13, 10]
      else lit ''   (fault outside any process context)'' @ [13, 10]) @
     lit ''!! halting'' @ [13, 10]"

text \<open>The common entry, from the words of the stub at the pointer it is given.\<close>

definition isr_common_entry :: "kernel \<Rightarrow> u64 \<Rightarrow> cpu \<Rightarrow> bytes" where
  "isr_common_entry k cr2 c =
     (let vector = (ucast (raw_word 0 c) :: u8);
          (mnemonic, has_error_code) = vector_info vector;
          error_code = (if has_error_code then Some (raw_word 1 c) else None);
          frame = \<lparr>sf_instruction_pointer = raw_word 2 c, sf_code_segment = raw_word 3 c, sf_cpu_flags = raw_word 4 c,
            sf_stack_pointer = raw_word 5 c, sf_stack_segment = raw_word 6 c\<rparr>
      in report_fault k cr2 vector mnemonic frame error_code)"

text \<open>The stubs that push no filler; the other vectors of the table have the stub with one.\<close>

definition err_stub_vectors :: "nat list" where
  "err_stub_vectors = [8, 10, 11, 12, 13, 14, 17, 21]"

definition stub_for :: "nat \<Rightarrow> (cpu \<Rightarrow> cpu) \<Rightarrow> cpu \<Rightarrow> cpu" where
  "stub_for vector entry =
     (if vector \<in> set err_stub_vectors then isr_stub_err (of_nat vector) entry else isr_stub_noerr (of_nat vector) entry)"

section \<open>Controllers and timer\<close>

definition PIC1_COMMAND :: u16 where "PIC1_COMMAND = 0x20"
definition PIC1_DATA :: u16 where "PIC1_DATA = 0x21"
definition PIC2_COMMAND :: u16 where "PIC2_COMMAND = 0xA0"
definition PIC2_DATA :: u16 where "PIC2_DATA = 0xA1"
definition PIC_EOI :: u8 where "PIC_EOI = 0x20"
definition PIT_CHANNEL0_DATA :: u16 where "PIT_CHANNEL0_DATA = 0x40"

definition io_wait :: "'d port_bus \<Rightarrow> 'd \<Rightarrow> 'd" where
  "io_wait bus d = p_outb bus 0x80 0 d"

definition remap_pic :: "'d port_bus \<Rightarrow> 'd \<Rightarrow> 'd" where
  "remap_pic bus d =
     (let d = io_wait bus (p_outb bus PIC1_COMMAND 0x11 d);
          d = io_wait bus (p_outb bus PIC2_COMMAND 0x11 d);
          d = io_wait bus (p_outb bus PIC1_DATA 0x20 d);
          d = io_wait bus (p_outb bus PIC2_DATA 0x28 d);
          d = io_wait bus (p_outb bus PIC1_DATA 0x04 d);
          d = io_wait bus (p_outb bus PIC2_DATA 0x02 d);
          d = io_wait bus (p_outb bus PIC1_DATA 0x01 d);
          d = io_wait bus (p_outb bus PIC2_DATA 0x01 d);
          d = p_outb bus PIC1_DATA 0xFE d
      in p_outb bus PIC2_DATA 0xFF d)"

definition init_pit_timer :: "'d port_bus \<Rightarrow> u32 \<Rightarrow> 'd \<Rightarrow> 'd" where
  "init_pit_timer bus hz d =
     (let divisor = (of_nat (PIT_INPUT_HZ div unat hz) :: u16);
          d = p_outb bus PIT_COMMAND 0x36 d;
          d = p_outb bus PIT_CHANNEL0_DATA (ucast (divisor AND 0xFF)) d
      in p_outb bus PIT_CHANNEL0_DATA (ucast (drop_bit 8 divisor)) d)"

text \<open>The \<^verbatim>\<open>sti\<close> that follows is the processor's and not a port write.\<close>

definition enable_timer_interrupts :: "'d port_bus \<Rightarrow> 'd \<Rightarrow> 'd" where
  "enable_timer_interrupts bus d = init_pit_timer bus 100 (remap_pic bus d)"

text \<open>A tick: the count, the acknowledgement, and then the scheduler, on the stack pointer of the interrupted task.\<close>

definition timer_tick_isr :: "'d port_bus \<Rightarrow> u64 \<Rightarrow> u64 \<Rightarrow> kernel \<Rightarrow> 'd \<Rightarrow> u64 \<times> kernel \<times> 'd" where
  "timer_tick_isr bus rsp ticks k d = (ticks + 1, maybe_preempt rsp k, p_outb bus PIC1_COMMAND PIC_EOI d)"

section \<open>Gates\<close>

text \<open>Where a gate leads: the processor puts the three parts of the address together.\<close>

definition gate_target :: "idt_entry \<Rightarrow> u64 option" where
  "gate_target e =
     (if bit (ie_type_attr e) 7
      then Some (ucast (ie_offset_low e) OR push_bit 16 (ucast (ie_offset_mid e)) OR push_bit 32 (ucast (ie_offset_high e)))
      else None)"

lemma offset_parts:
  "ucast (ucast h :: u16) OR push_bit 16 (ucast (ucast (drop_bit 16 h) :: u16)) OR push_bit 32 (ucast (ucast (drop_bit 32 h) :: u32)) = h"
  (is "?l = h") for h :: u64
proof (rule bit_word_eqI)
  fix n
  assume n: "n < LENGTH(64)"
  show "bit ?l n = bit h n"
  proof (cases "n < 32")
    case True
    then show ?thesis by (auto simp: bit_simps)
  next
    case False
    then obtain m where "n = 32 + m" by (metis le_Suc_ex not_less)
    then show ?thesis using n by (auto simp: bit_simps)
  qed
qed

lemma gate_of_set:
  "j < length idt \<Longrightarrow> gate_target (set_idt_gate i h cs idt ! j) = (if j = i then Some h else gate_target (idt ! j))"
  by (auto simp: set_idt_gate_def gate_target_def IDT_GATE_PRESENT_INTERRUPT_def offset_parts)

lemma length_set_gate [simp]: "length (set_idt_gate i h cs idt) = length idt"
  by (simp add: set_idt_gate_def)

lemma gates_of_fold:
  "j < length idt \<Longrightarrow> gate_target (fold (\<lambda>v. set_idt_gate v (f v) cs) vs idt ! j) = (if j \<in> set vs then Some (f j) else gate_target (idt ! j))
     \<and> length (fold (\<lambda>v. set_idt_gate v (f v) cs) vs idt) = length idt"
  by (induction vs arbitrary: idt) (auto simp: gate_of_set)

lemma init_idt_gates:
  assumes "j < 48" "length idt = 48"
  shows "gate_target (init_idt addrs cs idt ! j) =
    (if j \<in> set exception_vectors then Some (isr_stub addrs j) else if j = 32 then Some (irq0_addr addrs)
     else if 33 \<le> j \<and> j < 40 then Some (irq_master_addr addrs) else if 40 \<le> j then Some (irq_slave_addr addrs)
     else gate_target (idt ! j))"
proof -
  define i1 where "i1 = fold (\<lambda>vector. set_idt_gate vector (isr_stub addrs vector) cs) exception_vectors idt"
  define i2 where "i2 = set_idt_gate 32 (irq0_addr addrs) cs i1"
  define i3 where "i3 = fold (\<lambda>vector. set_idt_gate vector (irq_master_addr addrs) cs) [33..<40] i2"
  have j: "j < length idt" using assms by simp
  note 1 = gates_of_fold [OF j, of "isr_stub addrs" cs exception_vectors, folded i1_def]
  have l1: "j < length i1" using 1 j by simp
  have 2: "gate_target (i2 ! j) = (if j = 32 then Some (irq0_addr addrs) else gate_target (i1 ! j))" "j < length i2"
    using gate_of_set [OF l1, of 32] l1 by (simp_all add: i2_def)
  note 3 = gates_of_fold [OF 2(2), of "\<lambda>_. irq_master_addr addrs" cs "[33..<40]", folded i3_def]
  have l3: "j < length i3" using 3 2(2) by simp
  note 4 = gates_of_fold [OF l3, of "\<lambda>_. irq_slave_addr addrs" cs "[40..<48]"]
  have "init_idt addrs cs idt = fold (\<lambda>vector. set_idt_gate vector (irq_slave_addr addrs) cs) [40..<48] i3"
    by (simp add: init_idt_def Let_def i1_def i2_def i3_def)
  moreover have "j \<in> set exception_vectors \<Longrightarrow> j < 32" by (auto simp: exception_vectors_def)
  ultimately show ?thesis using 1 2(1) 3 4 assms(1) by auto
qed

section \<open>The report\<close>

text \<open>A hexadecimal number as it is printed has the value of the word.\<close>

definition hex_digit :: "u8 \<Rightarrow> nat" where
  "hex_digit b = (if b < 58 then unat b - 48 else unat b - 87)"

definition hex_value :: "bytes \<Rightarrow> nat" where
  "hex_value bs = fold (\<lambda>b n. n * 16 + hex_digit b) bs 0"

lemma nibble_value: "unat (ucast (drop_bit (n * 4) v AND 0xF) :: u8) = unat v div 16 ^ n mod 16" for v :: u64
proof -
  have e: "(0xF :: u64) = mask 4" by (simp add: mask_eq_exp_minus_1)
  have u: "unat (drop_bit (n * 4) v AND 0xF) = unat v div 16 ^ n mod 16"
    unfolding e take_bit_eq_mask [symmetric] unsigned_take_bit_eq unsigned_drop_bit_eq
    using unsigned_less [of v, where 'a = nat] by (simp add: drop_bit_eq_div take_bit_eq_mod power_mult mult.commute [of n])
  show ?thesis unfolding unsigned_ucast_eq u [symmetric] by (simp add: take_bit_eq_mod u mod_less)
qed

lemma hex_digit_value: "unat d < 16 \<Longrightarrow> hex_digit (if d < 10 then 48 + d else 97 + (d - 10)) = unat d" for d :: u8
  by (auto simp: hex_digit_def word_less_nat_alt unat_word_ariths unat_sub word_le_nat_alt)

lemma fault_digits:
  assumes "hex_value out = unat v div 16 ^ n" "st = (unat v div 16 ^ n \<noteq> 0)" "n > 0"
  shows "hex_value (snd (fold (fault_digit v) (rev [0..<n]) (st, out))) = unat v"
  using assms
proof (induction n arbitrary: st out)
  case (Suc n)
  define q where "q = unat v div 16 ^ n"
  have q: "unat v div 16 ^ Suc n = q div 16" unfolding q_def by (simp add: div_mult2_eq [symmetric] mult.commute)
  let ?nib = "ucast (drop_bit (n * 4) v AND 0xF) :: u8"
  have nib: "unat ?nib = q mod 16" using nibble_value [of n v] by (simp add: q_def)
  have nz: "?nib \<noteq> 0 \<longleftrightarrow> q mod 16 \<noteq> 0" unfolding nib [symmetric] by (simp add: unat_eq_0)
  let ?out = "out @ [if ?nib < 10 then 48 + ?nib else 97 + (?nib - 10)]"
  have "hex_value ?out = hex_value out * 16 + unat ?nib" unfolding hex_value_def fold_append using hex_digit_value [of ?nib] nib by simp
  also have "\<dots> = q" using Suc.prems(1) q nib by simp
  finally have v: "hex_value ?out = q" .
  show ?case
  proof (cases "q mod 16 \<noteq> 0 \<or> q div 16 \<noteq> 0 \<or> n = 0")
    case True
    then have d: "fault_digit v n (st, out) = (True, ?out)" using Suc.prems(2) nz q by (auto simp: fault_digit_def)
    show ?thesis
    proof (cases n)
      case 0
      then show ?thesis using d v by (simp add: q_def)
    next
      case (Suc m)
      then have "True = (q \<noteq> 0)" using True by (cases "q = 0") auto
      then show ?thesis using Suc.IH [OF v [unfolded q_def], of True] d Suc by (simp add: q_def)
    qed
  next
    case False
    then have d: "fault_digit v n (st, out) = (st, out)" using Suc.prems(2) nz q by (simp add: fault_digit_def)
    have "q = 0" using False by (metis mod_div_mult_eq mult_is_0 add_0)
    then show ?thesis using Suc.IH [of out st] Suc.prems d q False by (simp add: q_def)
  qed
qed simp

lemma fault_print_hex_value: "hex_value (drop 2 (fault_print_hex v)) = unat v"
proof -
  have "unat v div 16 ^ 16 = 0" by (rule div_less) (use unsigned_less [of v] in simp)
  then show ?thesis using fault_digits [of "[]" v 16 False] by (simp add: fault_print_hex_def hex_value_def)
qed

text \<open>The exceptions for which the processor pushes an error code, as its manual lists them.\<close>

definition pushes_error :: "nat \<Rightarrow> bool" where
  "pushes_error v = list_ex ((=) v) [8, 10, 11, 12, 13, 14, 17, 21, 29, 30]"

lemma entry_report:
  assumes "map (\<lambda>i. raw_word i d) [0..<7] = [v, x, cpu_rip c, cpu_cs c, cpu_flags c, cpu_rsp c, cpu_ss c]"
  shows "isr_common_entry k cr2 d = report_fault k cr2 (ucast v) (fst (vector_info (ucast v)))
     \<lparr>sf_instruction_pointer = cpu_rip c, sf_code_segment = cpu_cs c, sf_cpu_flags = cpu_flags c, sf_stack_pointer = cpu_rsp c,
      sf_stack_segment = cpu_ss c\<rparr> (if snd (vector_info (ucast v)) then Some x else None)"
proof -
  have n: "[0..<7] = [0, 1, 2, 3, 4, 5, 6 :: nat]" by (simp add: upt_rec)
  show ?thesis using assms unfolding n isr_common_entry_def Let_def by (cases "vector_info (ucast v)") simp
qed

text \<open>
  C37. Every exception with a gate is reported as what it is.  When the processor has pushed its frame, with the error code
  where its manual says there is one, the stub of the vector passes the common entry words from which the report is made for that
  vector, that error code or none, and the registers of the interrupted code; the
  numbers in it are printed with the value they have.
\<close>

theorem exception_reported:
  "list_all (\<lambda>v. \<forall>e c k cr2. let code = (if pushes_error v then Some e else None) in
     isr_common_entry k cr2 (stub_for v id (exception_frame code c)) =
     report_fault k cr2 (of_nat v) (fst (vector_info (of_nat v)))
       \<lparr>sf_instruction_pointer = cpu_rip c, sf_code_segment = cpu_cs c, sf_cpu_flags = cpu_flags c, sf_stack_pointer = cpu_rsp c,
        sf_stack_segment = cpu_ss c\<rparr> code) exception_vectors \<and>
   hex_value (drop 2 (fault_print_hex w)) = unat w"
proof
  show "list_all (\<lambda>v. \<forall>e c k cr2. let code = (if pushes_error v then Some e else None) in
     isr_common_entry k cr2 (stub_for v id (exception_frame code c)) =
     report_fault k cr2 (of_nat v) (fst (vector_info (of_nat v)))
       \<lparr>sf_instruction_pointer = cpu_rip c, sf_code_segment = cpu_cs c, sf_cpu_flags = cpu_flags c, sf_stack_pointer = cpu_rsp c,
        sf_stack_segment = cpu_ss c\<rparr> code) exception_vectors"
    unfolding list_all_iff
  proof (intro ballI allI)
    fix v e c k cr2
    assume v: "v \<in> set exception_vectors"
    have u: "(ucast (of_nat v :: u64) :: u8) = of_nat v" by (rule bit_word_eqI) (simp add: bit_simps)
    have agree: "list_all (\<lambda>v. snd (vector_info (of_nat v)) = pushes_error v \<and> (v \<in> set err_stub_vectors) = pushes_error v) exception_vectors"
      by code_simp
    then have a: "snd (vector_info (of_nat v)) = pushes_error v" "(v \<in> set err_stub_vectors) = pushes_error v"
      using v by (auto simp: list_all_iff)
    show "let code = (if pushes_error v then Some e else None) in
     isr_common_entry k cr2 (stub_for v id (exception_frame code c)) =
     report_fault k cr2 (of_nat v) (fst (vector_info (of_nat v)))
       \<lparr>sf_instruction_pointer = cpu_rip c, sf_code_segment = cpu_cs c, sf_cpu_flags = cpu_flags c, sf_stack_pointer = cpu_rsp c,
        sf_stack_segment = cpu_ss c\<rparr> code"
    proof (cases "pushes_error v")
      case True
      then show ?thesis unfolding Let_def stub_for_def
        using entry_report [OF stub_raw_words(2) [of "of_nat v" e c]] a u by (simp add: exception_frame_def)
    next
      case False
      then show ?thesis unfolding Let_def stub_for_def
        using entry_report [OF stub_raw_words(1) [of "of_nat v" c]] a u by (simp add: exception_frame_def)
    qed
  qed
qed (rule fault_print_hex_value)

section \<open>The board\<close>

text \<open>
  Reference models of the hardware: a controller with its initialization sequence, its mask and the requests in service, and the
  counter of the timer with its two-byte reload.
\<close>

record pic =
  pic_stage :: nat
  pic_base :: u8
  pic_cascade :: u8
  pic_mask :: u8
  pic_service :: u8

definition pic_command :: "u8 \<Rightarrow> pic \<Rightarrow> pic" where
  "pic_command v p =
     (if bit v 4 then p\<lparr>pic_stage := 1, pic_mask := 0, pic_service := 0\<rparr>
      else if v = 0x20 then p\<lparr>pic_service := pic_service p AND (pic_service p - 1)\<rparr> else p)"

definition pic_data :: "u8 \<Rightarrow> pic \<Rightarrow> pic" where
  "pic_data v p =
     (if pic_stage p = 1 then p\<lparr>pic_base := v AND 0xF8, pic_stage := 2\<rparr>
      else if pic_stage p = 2 then p\<lparr>pic_cascade := v, pic_stage := 3\<rparr>
      else if pic_stage p = 3 then p\<lparr>pic_stage := 0\<rparr> else p\<lparr>pic_mask := v\<rparr>)"

text \<open>A request is passed on when it is not masked and none of its own or a higher priority is in service.\<close>

definition pic_takes :: "nat \<Rightarrow> pic \<Rightarrow> bool" where
  "pic_takes i p \<longleftrightarrow> pic_stage p = 0 \<and> \<not> bit (pic_mask p) i \<and> list_all (\<lambda>j. \<not> bit (pic_service p) j) [0..<Suc i]"

record pit =
  pit_low :: "u8 option"
  pit_reload :: u16

definition pit_data :: "u8 \<Rightarrow> pit \<Rightarrow> pit" where
  "pit_data v t =
     (case pit_low t of None \<Rightarrow> t\<lparr>pit_low := Some v\<rparr>
      | Some l \<Rightarrow> t\<lparr>pit_low := None, pit_reload := ucast l OR push_bit 8 (ucast v)\<rparr>)"

record board =
  b_master :: pic
  b_slave :: pic
  b_pit :: pit

definition board_outb :: "u16 \<Rightarrow> u8 \<Rightarrow> board \<Rightarrow> board" where
  "board_outb port v b =
     (if port = 0x20 then b\<lparr>b_master := pic_command v (b_master b)\<rparr>
      else if port = 0x21 then b\<lparr>b_master := pic_data v (b_master b)\<rparr>
      else if port = 0xA0 then b\<lparr>b_slave := pic_command v (b_slave b)\<rparr>
      else if port = 0xA1 then b\<lparr>b_slave := pic_data v (b_slave b)\<rparr>
      else if port = 0x43 \<and> v AND 0xF0 = 0x30 then b\<lparr>b_pit := (b_pit b)\<lparr>pit_low := None\<rparr>\<rparr>
      else if port = 0x40 then b\<lparr>b_pit := pit_data v (b_pit b)\<rparr>
      else b)"

definition board_bus :: "board port_bus" where
  "board_bus = \<lparr>p_inb = (\<lambda>port b. (0, b)), p_inw = (\<lambda>port b. (0, b)), p_outb = board_outb, p_outw = (\<lambda>port v b. b)\<rparr>"

text \<open>The vector of a request on a line, if it is passed on; the second controller's go through line 2 of the first.\<close>

definition line_vector :: "board \<Rightarrow> nat \<Rightarrow> nat option" where
  "line_vector b line =
     (if line < 8 then if pic_takes line (b_master b) then Some (unat (pic_base (b_master b)) + line) else None
      else if pic_takes 2 (b_master b) \<and> pic_takes (line - 8) (b_slave b) then Some (unat (pic_base (b_slave b)) + (line - 8)) else None)"

definition live_lines :: "board \<Rightarrow> (nat \<times> nat) list" where
  "live_lines b = [(line, v). line \<leftarrow> [0..<16], v \<leftarrow> (case line_vector b line of Some v \<Rightarrow> [v] | None \<Rightarrow> [])]"

definition serve_timer :: "board \<Rightarrow> board" where
  "serve_timer b = b\<lparr>b_master := (b_master b)\<lparr>pic_service := pic_service (b_master b) OR 1\<rparr>\<rparr>"

lemmas board_consts = PIC1_COMMAND_def PIC1_DATA_def PIC2_COMMAND_def PIC2_DATA_def PIT_CHANNEL0_DATA_def PIT_COMMAND_def

lemma board_ports:
  "board_outb 0x20 v \<lparr>b_master = m, b_slave = s, b_pit = t\<rparr> = \<lparr>b_master = pic_command v m, b_slave = s, b_pit = t\<rparr>"
  "board_outb 0x21 v \<lparr>b_master = m, b_slave = s, b_pit = t\<rparr> = \<lparr>b_master = pic_data v m, b_slave = s, b_pit = t\<rparr>"
  "board_outb 0xA0 v \<lparr>b_master = m, b_slave = s, b_pit = t\<rparr> = \<lparr>b_master = m, b_slave = pic_command v s, b_pit = t\<rparr>"
  "board_outb 0xA1 v \<lparr>b_master = m, b_slave = s, b_pit = t\<rparr> = \<lparr>b_master = m, b_slave = pic_data v s, b_pit = t\<rparr>"
  "board_outb 0x43 0x36 \<lparr>b_master = m, b_slave = s, b_pit = t\<rparr> = \<lparr>b_master = m, b_slave = s, b_pit = t\<lparr>pit_low := None\<rparr>\<rparr>"
  "board_outb 0x40 v \<lparr>b_master = m, b_slave = s, b_pit = t\<rparr> = \<lparr>b_master = m, b_slave = s, b_pit = pit_data v t\<rparr>"
  "board_outb 0x80 v \<lparr>b_master = m, b_slave = s, b_pit = t\<rparr> = \<lparr>b_master = m, b_slave = s, b_pit = t\<rparr>"
  by (simp_all add: board_outb_def)

text \<open>Four bytes start a controller, and a fifth sets its mask.\<close>

lemma pic_started:
  "pic_data mk (pic_data 1 (pic_data cas (pic_data base (pic_command 0x11 p)))) =
     \<lparr>pic_stage = 0, pic_base = base AND 0xF8, pic_cascade = cas, pic_mask = mk, pic_service = 0\<rparr>"
proof -
  have 1: "pic_command 0x11 p = p\<lparr>pic_stage := 1, pic_mask := 0, pic_service := 0\<rparr>" by (simp add: pic_command_def)
  show ?thesis unfolding 1 by (cases p) (simp add: pic_data_def)
qed

lemma board_ready:
  "enable_timer_interrupts board_bus b =
     \<lparr>b_master = \<lparr>pic_stage = 0, pic_base = 0x20, pic_cascade = 4, pic_mask = 0xFE, pic_service = 0\<rparr>,
      b_slave = \<lparr>pic_stage = 0, pic_base = 0x28, pic_cascade = 2, pic_mask = 0xFF, pic_service = 0\<rparr>,
      b_pit = \<lparr>pit_low = None, pit_reload = 11931\<rparr>\<rparr>"
proof -
  obtain m s t where b: "b = \<lparr>b_master = m, b_slave = s, b_pit = t\<rparr>" by (cases b) auto
  have out: "p_outb board_bus = board_outb" by (simp add: board_bus_def)
  have "remap_pic board_bus b = \<lparr>
     b_master = \<lparr>pic_stage = 0, pic_base = 0x20, pic_cascade = 4, pic_mask = 0xFE, pic_service = 0\<rparr>,
     b_slave = \<lparr>pic_stage = 0, pic_base = 0x28, pic_cascade = 2, pic_mask = 0xFF, pic_service = 0\<rparr>, b_pit = t\<rparr>"
    unfolding remap_pic_def io_wait_def out board_consts Let_def b by (simp only: board_ports pic_started) simp
  moreover have "pit_data 46 (pit_data 155 (t\<lparr>pit_low := None\<rparr>)) = \<lparr>pit_low = None, pit_reload = 11931\<rparr>"
    by (cases t) (simp add: pit_data_def)
  moreover have "(ucast (word_of_nat (PIT_INPUT_HZ div unat (100 :: u32)) AND 0xFF :: u16) :: u8) = 155"
    "(ucast (drop_bit 8 (word_of_nat (PIT_INPUT_HZ div unat (100 :: u32)) :: u16)) :: u8) = 46" by (simp_all add: PIT_INPUT_HZ_def)
  ultimately show ?thesis unfolding enable_timer_interrupts_def init_pit_timer_def out board_consts Let_def by (simp only: board_ports)
qed

text \<open>
  C36. After the start only the timer interrupts, and it is served.  Whatever state the controllers and the timer were in, after
  \<^verbatim>\<open>enable_timer_interrupts\<close> the one line that raises an interrupt is line 0, with vector 32; that gate of the table leads to
  \<^verbatim>\<open>irq0_stub\<close> and the gates of an unexpected interrupt of the two controllers to the stubs that acknowledge it; the
  counter reloads 11931 ticks of its clock, a hundredth of a second; while a tick is in service no other is raised, and the handler's
  acknowledgement opens the line again.
\<close>

theorem only_the_timer:
  "let b' = enable_timer_interrupts board_bus b; idt = init_idt addrs cs (replicate IDT_LEN idt_missing) in
     live_lines b' = [(0, 32)] \<and>
     map gate_target (map (nth idt) [32, 39, 47]) = map Some [irq0_addr addrs, irq_master_addr addrs, irq_slave_addr addrs] \<and>
     pit_reload (b_pit b') = 11931 \<and> live_lines (serve_timer b') = [] \<and>
     live_lines (snd (snd (timer_tick_isr board_bus rsp ticks k (serve_timer b')))) = [(0, 32)]"
proof -
  define b' where "b' = enable_timer_interrupts board_bus b"
  define idt where "idt = init_idt addrs cs (replicate IDT_LEN idt_missing)"
  have 1: "live_lines b' = [(0, 32)]" unfolding b'_def board_ready by code_simp
  have 2: "live_lines (serve_timer b') = []" unfolding b'_def board_ready by code_simp
  have 3: "pit_reload (b_pit b') = 11931" by (simp add: b'_def board_ready)
  have 4: "live_lines (snd (snd (timer_tick_isr board_bus rsp ticks k (serve_timer b')))) = [(0, 32)]"
    unfolding b'_def board_ready timer_tick_isr_def snd_conv by code_simp
  have "gate_target (idt ! j) = (if j = 32 then Some (irq0_addr addrs) else if j < 40 then Some (irq_master_addr addrs) else Some (irq_slave_addr addrs))"
    if "32 \<le> j" "j < 48" for j
    using that init_idt_gates [of j "replicate IDT_LEN idt_missing" addrs cs] by (auto simp: idt_def IDT_LEN_def exception_vectors_def)
  then have "map gate_target (map (nth idt) [32, 39, 47]) = map Some [irq0_addr addrs, irq_master_addr addrs, irq_slave_addr addrs]" by simp
  with 1 2 3 4 show ?thesis by (simp only: Let_def b'_def [symmetric] idt_def [symmetric] simp_thms)
qed

end
