(* ===== verification/Kernel_Start.thy ===== *)
theory Kernel_Start
  imports Kernel_Keeps Interrupts
begin

text \<open>
  \<^verbatim>\<open>_start\<close> of \<^verbatim>\<open>kernel/src/main.rs\<close>: the order in which the parts of the kernel are set up, from the statics the image holds to
  the first prompt, and the program calls that wait and tell the time.  The composition with the shell says what
  holds from power-on.
\<close>

section \<open>The statics and the serial line\<close>

text \<open>The statics as the image holds them; the firmware's memory and page tables are what they are.\<close>

definition kernel_statics :: "(u64 \<Rightarrow> u64) \<Rightarrow> u64 \<Rightarrow> kernel" where
  "kernel_statics mem root =
     \<lparr>phys_mem = mem, phys_alloc = allocator_empty, kernel_pml4_phys = 0, cr3 = root,
      process_table = replicate (PROCESS_COUNT + 1) process_empty, current_process_index = PROCESS_COUNT, next_pid = 1,
      pending_stack_reclaims = replicate PROCESS_COUNT None, app_console = None, app_bootfs = None,
      app_fds = replicate APP_FD_COUNT app_fd_empty, app_pipes = replicate APP_PIPE_COUNT app_pipe_empty\<rparr>"

definition serial_init :: "'d port_bus \<Rightarrow> 'd \<Rightarrow> 'd" where
  "serial_init bus d =
     (let d = p_outb bus (COM1 + 1) 0x00 d;
          d = p_outb bus (COM1 + 3) 0x80 d;
          d = p_outb bus COM1 0x03 d;
          d = p_outb bus (COM1 + 1) 0x00 d;
          d = p_outb bus (COM1 + 3) 0x03 d;
          d = p_outb bus (COM1 + 2) 0xC7 d
      in p_outb bus (COM1 + 4) 0x0B d)"

section \<open>The start\<close>

text \<open>What the boot loader hands over beside the environment of the shell, and the clock as it is set once.\<close>

record 'd boot =
  bt_info :: "boot_info option"
  bt_image :: "(u64 \<times> bytes) option"
  bt_vga :: "nat \<Rightarrow> u8"
  bt_pixels :: "nat \<Rightarrow> u32"
  bt_mem :: "u64 \<Rightarrow> u64"
  bt_root :: u64
  bt_cs :: u16
  bt_stubs :: stub_addrs
  bt_tsc :: "'d \<Rightarrow> u64 \<times> 'd"

record boot_clock =
  tsc_hz :: u64
  boot_tsc :: u64
  boot_unix_nanos :: u64

definition saturating_mul :: "u64 \<Rightarrow> u64 \<Rightarrow> u64" where
  "saturating_mul a b = (if unat a * unat b < 2 ^ 64 then a * b else - 1)"

text \<open>The shell's environment with the boot image that \<^verbatim>\<open>BootFs::new\<close> finds.\<close>

definition start_env :: "'d boot \<Rightarrow> 'd kernel_env \<Rightarrow> 'd kernel_env" where
  "start_env boot env = env\<lparr>ke_bootfs := bootfs_new (bt_image boot)\<rparr>"

definition start_clock :: "'d boot \<Rightarrow> 'd port_bus \<Rightarrow> 'd \<Rightarrow> (boot_clock \<times> 'd) option" where
  "start_clock boot bus d =
     (case calibrate_tsc bus (bt_tsc boot) d of
        None \<Rightarrow> None
      | Some (hz, d) \<Rightarrow>
          (case read_rtc_unix_seconds bus d of (unix_seconds, d) \<Rightarrow>
           case bt_tsc boot d of (tsc, d) \<Rightarrow>
             Some (\<lparr>tsc_hz = hz, boot_tsc = tsc, boot_unix_nanos = saturating_mul unix_seconds 1000000000\<rparr>, d)))"

text \<open>Up to the first prompt: the clock, the descriptor table, and the state of \<^verbatim>\<open>shell_loop\<close> with its empty line.\<close>

definition kernel_start ::
  "'d boot \<Rightarrow> 'd kernel_env \<Rightarrow> 'd \<Rightarrow> 'd no_return + (boot_clock \<times> idt_entry list) \<times> bytes \<times> 'd kshell" where
  "kernel_start boot env d =
     (let con = console_new (bt_vga boot) (bt_pixels boot) (bt_info boot);
          fs = ramfs_new;
          env = start_env boot env;
          d = serial_init (ke_bus env) d;
          k = (kernel_statics (bt_mem boot) (bt_root boot))\<lparr>phys_alloc := init_physical_allocator (ke_memory_map env)\<rparr>;
          idt = init_idt (bt_stubs boot) (bt_cs boot) (replicate IDT_LEN idt_missing)
      in
      case start_clock boot (ke_bus env) d of
        None \<Rightarrow> Inl Waiting
      | Some (clock, d) \<Rightarrow>
          let d = enable_timer_interrupts (ke_bus env) d;
              con = console_clear con;
              con = write_line ''RYMOS minimal Rust kernel'' con;
              con = write_line ''_start reached'' con;
              con = write_line ''kernel shell online'' con;
              con = write_line '''' con;
              fs = ramfs_seed fs;
              con = process_config_sys con (ke_bootfs env);
              s = \<lparr>ks_console = con, ks_fs = fs, ks_kernel = k, ks_scratch = KERNEL_SCRATCH_BASE, ks_dev = d\<rparr>
          in after_then (kernel_run_script env (lit ''autoexec.bat'') s)
               (\<lambda>s. Inr ((clock, idt), [], on_con shell_prompt s)))"

section \<open>Waiting and the time\<close>

text \<open>The calls of programs, beside the null pointer of a status that is to be stored.  The waits themselves are parameters.\<close>

definition abi_wait ::
  "(u32 \<Rightarrow> kernel \<Rightarrow> 'd \<Rightarrow> (process_status option \<times> kernel \<times> 'd) option) \<Rightarrow> u32 \<Rightarrow> bool \<Rightarrow> kernel \<Rightarrow> 'd
    \<Rightarrow> (int \<times> process_status option \<times> kernel \<times> 'd) option" where
  "abi_wait wait_for_pid_blocking pid status_is_null k d =
     (if status_is_null then Some (- 1, None, k, d)
      else case wait_for_pid_blocking pid k d of
             None \<Rightarrow> None
           | Some (Some status, k, d) \<Rightarrow> Some (0, Some status, k, d)
           | Some (None, k, d) \<Rightarrow> Some (- 1, None, k, d))"

definition abi_wait_any ::
  "(u32 \<Rightarrow> kernel \<Rightarrow> 'd \<Rightarrow> ((u32 \<times> process_status) option \<times> kernel \<times> 'd) option) \<Rightarrow> bool \<Rightarrow> kernel \<Rightarrow> 'd
    \<Rightarrow> (int \<times> process_status option \<times> kernel \<times> 'd) option" where
  "abi_wait_any wait_for_any_child_blocking status_is_null k d =
     (if status_is_null then Some (- 1, None, k, d)
      else case wait_for_any_child_blocking (current_pid k) k d of
             None \<Rightarrow> None
           | Some (Some (pid, status), k, d) \<Rightarrow> Some (sint pid, Some status, k, d)
           | Some (None, k, d) \<Rightarrow> Some (- 1, None, k, d))"

definition abi_time_ticks :: "boot_clock \<Rightarrow> u64 \<Rightarrow> u64" where
  "abi_time_ticks clock tsc = ns_since_boot (tsc_hz clock) (boot_tsc clock) tsc"

definition abi_time_unix_nanos :: "boot_clock \<Rightarrow> u64 \<Rightarrow> u64" where
  "abi_time_unix_nanos clock tsc = unix_nanos_now (boot_unix_nanos clock) (ns_since_boot (tsc_hz clock) (boot_tsc clock) tsc)"

section \<open>From power-on\<close>

lemma seed_ok: "ramfs_ok (ramfs_seed ramfs_new)"
  using ramfs_new_wf unfolding ramfs_seed_def Let_def
  by (intro write_raw_ok touch_raw_ok) (simp_all add: ramfs_wf_def)

lemma statics_idle: "idle_inv ((kernel_statics mem root)\<lparr>phys_alloc := a\<rparr>)"
proof -
  let ?k = "(kernel_statics mem root)\<lparr>phys_alloc := a\<rparr>"
  have e: "process_table ?k = process_table demo_state" "current_process_index ?k = current_process_index demo_state"
    "pending_stack_reclaims ?k = pending_stack_reclaims demo_state"
    by (simp_all add: kernel_statics_def demo_state_def PROCESS_COUNT_def)
  have "sched_inv demo_state"
    using demo_state_ok(1) by (auto simp: sched_inv_def table_ok_def runnable_def demo_state_def process_empty_def)
  then have "idle_inv demo_state" by (simp add: idle_inv_def, simp add: demo_state_def)
  then show ?thesis using idle_cong [of ?k demo_state] e by simp
qed

lemma start_shell:
  assumes "wait_keeps_idle env"
  shows "case kernel_start boot env d of Inr (_, input, s) \<Rightarrow> input = [] \<and> shell_inv s | Inl e \<Rightarrow> after_inv (Inl e)"
proof (cases "start_clock boot (ke_bus (start_env boot env)) (serial_init (ke_bus (start_env boot env)) d)")
  case None
  then show ?thesis by (simp add: kernel_start_def Let_def)
next
  case (Some cd)
  obtain clock d1 where cd: "cd = (clock, d1)" by force
  have env: "wait_keeps_idle (start_env boot env)" using assms by (simp add: wait_keeps_idle_def start_env_def)
  let ?k = "(kernel_statics (bt_mem boot) (bt_root boot))\<lparr>phys_alloc := init_physical_allocator (ke_memory_map (start_env boot env))\<rparr>"
  let ?s0 = "\<lparr>ks_console = console_new (bt_vga boot) (bt_pixels boot) (bt_info boot), ks_fs = ramfs_seed ramfs_new, ks_kernel = ?k,
    ks_scratch = KERNEL_SCRATCH_BASE, ks_dev = enable_timer_interrupts (ke_bus (start_env boot env)) d1\<rparr>"
  have "shell_inv ?s0" using console_new_wf seed_ok statics_idle by (simp add: shell_inv_def)
  from inv_clear [OF this] have s1: "shell_inv (on_con console_clear ?s0)" .
  let ?f = "\<lambda>con. process_config_sys (write_line '''' (write_line ''kernel shell online'' (write_line ''_start reached''
    (write_line ''RYMOS minimal Rust kernel'' con)))) (ke_bootfs (start_env boot env))"
  have s2: "shell_inv (on_con ?f (on_con console_clear ?s0))"
    by (rule inv_con [OF s1]) (unfold process_config_sys_def, intro adds_rules)
  let ?r = "kernel_run_script (start_env boot env) (lit ''autoexec.bat'') (on_con ?f (on_con console_clear ?s0))"
  have r: "after_inv ?r"
  proof (cases "bootfs_find_data (ke_bootfs (start_env boot env)) (lit ''autoexec.bat'')")
    case None
    then show ?thesis using s2 by (simp add: kernel_run_script_commands)
  next
    case (Some data)
    show ?thesis unfolding kernel_run_script_commands Some option.case
      by (intro inv_commands [OF env] inv_con [OF s2] adds_rules)
  qed
  have st: "kernel_start boot env d = after_then ?r (\<lambda>s. Inr ((clock, init_idt (bt_stubs boot) (bt_cs boot) (replicate IDT_LEN idt_missing)),
      [], on_con shell_prompt s))"
    using Some cd by (simp add: kernel_start_def Let_def on_con_def)
  have p: "shell_inv (on_con shell_prompt s')" if "shell_inv s'" for s' :: "'a kshell"
    by (rule inv_con [OF that]) (unfold shell_prompt_def, intro adds_rules)
  show ?thesis unfolding st using r p by (cases ?r) simp_all
qed

text \<open>
  C40. From power-on nothing typed at the kernel shell breaks it.  Whatever the boot loader hands over, the boot script
  says and the devices deliver, after the start and any number of turns of the shell's loop the cursor of the
  console is on the screen, the slots of the RAM file system keep their bounds, the scheduler's invariant holds with the shell in
  its own slot, and the line being typed fits its buffer; also in the state in which the halt command
  stops.  What is asked is that the wait for a program keeps the same.
\<close>

theorem kernel_start_keeps:
  assumes "wait_keeps_idle env"
  shows "case after_then (kernel_start boot env d) (\<lambda>(_, st). shell_turns (start_env boot env) n st) of
      Inr (input', s') \<Rightarrow> length input' < INPUT_MAX \<and> shell_inv s'
    | Inl (Halted s') \<Rightarrow> shell_inv s' | Inl Panicked \<Rightarrow> True | Inl Waiting \<Rightarrow> True"
proof -
  note s = start_shell [OF assms, of boot d]
  show ?thesis
  proof (cases "kernel_start boot env d")
    case (Inl e)
    with s show ?thesis by (cases e) simp_all
  next
    case (Inr r)
    obtain x input sh where r: "r = (x, input, sh)" by (metis prod_cases3)
    have env: "wait_keeps_idle (start_env boot env)" using assms by (simp add: wait_keeps_idle_def start_env_def)
    have "length input < INPUT_MAX" "shell_inv sh" using s Inr r by (simp_all add: INPUT_MAX_def)
    from kernel_shell_keeps [OF env this(2,1), of n] Inr r show ?thesis by simp
  qed
qed

definition demo_boot :: "bytes boot" where
  "demo_boot = \<lparr>bt_info = None, bt_image = None, bt_vga = (\<lambda>a. 0), bt_pixels = (\<lambda>a. 0), bt_mem = (\<lambda>a. 0), bt_root = 0, bt_cs = 8,
     bt_stubs = \<lparr>isr_stub = (\<lambda>v. 0), irq0_addr = 0, irq_master_addr = 0, irq_slave_addr = 0\<rparr>, bt_tsc = (\<lambda>d. (0, d))\<rparr>"

text \<open>A serial line beside a timer whose output is high: the calibration returns, and without a boot script the prompt is reached.\<close>

definition timer_env :: "bytes kernel_env" where
  "timer_env = demo_env\<lparr>ke_bus := demo_serial\<lparr>p_inb := (\<lambda>port q. if port = NMI_STATUS_CONTROL then (0x20, q) else p_inb demo_serial port q)\<rparr>\<rparr>"

lemma start_prompt:
  assumes "start_clock boot (ke_bus env) (serial_init (ke_bus env) d) = Some (clock, d1)" "bt_image boot = None"
  shows "\<exists>idt s. kernel_start boot env d = Inr ((clock, idt), [], s)"
proof -
  have "bootfs_find_data None name = None" for name by (simp add: bootfs_find_data_def bootfs_find_entry_def bootfs_valid_def)
  then show ?thesis using assms by (simp add: kernel_start_def Let_def start_env_def bootfs_new_def kernel_run_script_def)
qed

lemma timer_calibrates: "start_clock demo_boot (ke_bus timer_env) q \<noteq> None"
proof -
  have 1: "p_inb (ke_bus timer_env) NMI_STATUS_CONTROL q = (0x20, q)" for q by (simp add: timer_env_def)
  have "wait_timer (ke_bus timer_env) q = Some q" for q by (subst wait_timer.simps) (simp add: 1)
  moreover have "bt_tsc demo_boot q = (0, q)" for q by (simp add: demo_boot_def)
  moreover have "arm_timer (ke_bus timer_env) q = q" for q
    using 1 [of q] by (simp add: arm_timer_def Let_def timer_env_def demo_env_def demo_serial_def)
  ultimately show ?thesis
    by (simp add: start_clock_def calibrate_tsc_def eval_nat_numeral split: prod.split)
qed

theorem kernel_start_keeps_witness:
  "(\<exists>x s. kernel_start demo_boot timer_env (lit ''halt'' @ [13]) = Inr (x, [], s)) \<and>
   (case after_then (kernel_start demo_boot timer_env (lit ''halt'' @ [13])) (\<lambda>(_, st). shell_turns (start_env demo_boot timer_env) 5 st) of
      Inr (input', s') \<Rightarrow> length input' < INPUT_MAX \<and> shell_inv s'
    | Inl (Halted s') \<Rightarrow> shell_inv s' | Inl Panicked \<Rightarrow> True | Inl Waiting \<Rightarrow> True)"
proof
  obtain clock d where "start_clock demo_boot (ke_bus timer_env) (serial_init (ke_bus timer_env) (lit ''halt'' @ [13])) = Some (clock, d)"
    using timer_calibrates by fast
  from start_prompt [OF this] show "\<exists>x s. kernel_start demo_boot timer_env (lit ''halt'' @ [13]) = Inr (x, [], s)"
    by (auto simp: demo_boot_def)
qed (rule kernel_start_keeps, simp add: wait_keeps_idle_def timer_env_def demo_env_def)

end
