(* ===== verification/Boot_Loader.thy ===== *)
theory Boot_Loader
  imports Elf_Loader
begin

text \<open>
  The boot loader (\<^verbatim>\<open>bootloader/src/main.rs\<close>): it reads the kernel and the boot image from the boot volume, puts the segments
  of the kernel in place, finds the framebuffer, leaves the boot services and jumps.  Memory is flat; the calls of the firmware
  are a parameter, and the locale \<open>firmware\<close> has what the UEFI specification promises of them.
\<close>

section \<open>The firmware's interface\<close>

type_synonym efi_status = u64

definition EFI_SUCCESS :: efi_status where "EFI_SUCCESS = 0"
definition EFI_LOAD_ERROR :: efi_status where "EFI_LOAD_ERROR = 1"
definition EFI_NOT_FOUND :: efi_status where "EFI_NOT_FOUND = 14"
definition EFI_FILE_MODE_READ :: u64 where "EFI_FILE_MODE_READ = 1"
definition EFI_LOADER_DATA :: nat where "EFI_LOADER_DATA = 2"
definition EFI_RUNTIME_SERVICES_DATA :: nat where "EFI_RUNTIME_SERVICES_DATA = 6"
definition BOOT_COM1 :: u16 where "BOOT_COM1 = 0x3F8"
definition KERNEL_READ_LIMIT :: u64 where "KERNEL_READ_LIMIT = 1024 * 1024"
definition INITRD_READ_LIMIT :: u64 where "INITRD_READ_LIMIT = 32 * 1024 * 1024"

definition ascii_to_uefi :: "nat \<Rightarrow> bytes \<Rightarrow> u16 list" where
  "ascii_to_uefi n ascii = fold (\<lambda>index wide. wide[index := ucast (ascii ! index)]) [0..<length ascii] (replicate n 0)"

definition KERNEL_PATH :: "u16 list" where "KERNEL_PATH = map ucast ([92] @ lit ''KERNEL.ELF'') @ [0]"
definition INITRD_PATH :: "u16 list" where "INITRD_PATH = map ucast ([92] @ lit ''INITRD.RFS'') @ [0]"
definition SERIAL_BOOT_MESSAGE :: bytes where "SERIAL_BOOT_MESSAGE = lit ''RYMOS bootloader: loading KERNEL.ELF from FAT32...'' @ [13, 10]"
definition SERIAL_JUMP_MESSAGE :: bytes where "SERIAL_JUMP_MESSAGE = lit ''RYMOS bootloader: jumping to kernel'' @ [13, 10]"
definition SERIAL_ERROR_MESSAGE :: bytes where "SERIAL_ERROR_MESSAGE = lit ''RYMOS bootloader: load failed'' @ [13, 10]"
definition BOOT_MESSAGE :: "u16 list" where "BOOT_MESSAGE = ascii_to_uefi 59 SERIAL_BOOT_MESSAGE"
definition JUMP_MESSAGE :: "u16 list" where "JUMP_MESSAGE = ascii_to_uefi 39 SERIAL_JUMP_MESSAGE"
definition ERROR_MESSAGE :: "u16 list" where "ERROR_MESSAGE = ascii_to_uefi 34 SERIAL_ERROR_MESSAGE"

datatype efi_guid = Guid u32 u16 u16 "u8 list"

definition LOADED_IMAGE_PROTOCOL_GUID :: efi_guid where
  "LOADED_IMAGE_PROTOCOL_GUID = Guid 0x5B1B31A1 0x9562 0x11D2 [0x8E, 0x3F, 0x00, 0xA0, 0xC9, 0x69, 0x72, 0x3B]"
definition SIMPLE_FILE_SYSTEM_PROTOCOL_GUID :: efi_guid where
  "SIMPLE_FILE_SYSTEM_PROTOCOL_GUID = Guid 0x964E5B22 0x6459 0x11D2 [0x8E, 0x39, 0x00, 0xA0, 0xC9, 0x69, 0x72, 0x3B]"
definition GRAPHICS_OUTPUT_PROTOCOL_GUID :: efi_guid where
  "GRAPHICS_OUTPUT_PROTOCOL_GUID = Guid 0x9042A9DE 0x23DC 0x4A38 [0x96, 0xFB, 0x7A, 0xDE, 0xD0, 0x80, 0x51, 0x6A]"

text \<open>Memory, and the state of the firmware.\<close>

record 'f bstate =
  bs_mem :: "u64 \<Rightarrow> u8"
  bs_fw :: 'f

record mode_info =
  mi_horizontal_resolution :: u32
  mi_vertical_resolution :: u32
  mi_pixel_format :: u32
  mi_pixels_per_scan_line :: u32

record gop_mode =
  gm_max_mode :: u32
  gm_info :: "mode_info option"
  gm_framebuffer_base :: u64
  gm_framebuffer_size :: u64

text \<open>
  The calls, in the order in which the code first needs them; a null pointer is the address 0 or None.  The device handle of a
  loaded image and the mode of a graphics protocol are read through a pointer.
\<close>

record 's efi =
  e_handle_protocol :: "u64 \<Rightarrow> efi_guid \<Rightarrow> 's \<Rightarrow> efi_status \<times> u64 \<times> 's"
  e_device_handle :: "u64 \<Rightarrow> 's \<Rightarrow> u64"
  e_open_volume :: "u64 \<Rightarrow> 's \<Rightarrow> efi_status \<times> u64 \<times> 's"
  e_open :: "u64 \<Rightarrow> u16 list \<Rightarrow> u64 \<Rightarrow> 's \<Rightarrow> efi_status \<times> u64 \<times> 's"
  e_allocate_pool :: "nat \<Rightarrow> u64 \<Rightarrow> 's \<Rightarrow> efi_status \<times> u64 \<times> 's"
  e_read :: "u64 \<Rightarrow> u64 \<Rightarrow> u64 \<Rightarrow> 's \<Rightarrow> efi_status \<times> u64 \<times> 's"
  e_close :: "u64 \<Rightarrow> 's \<Rightarrow> 's"
  e_allocate_pages :: "u64 \<Rightarrow> nat \<Rightarrow> 's \<Rightarrow> efi_status \<times> 's"
  e_locate_protocol :: "efi_guid \<Rightarrow> 's \<Rightarrow> efi_status \<times> u64 \<times> 's"
  e_mode :: "u64 \<Rightarrow> 's \<Rightarrow> gop_mode option"
  e_query_mode :: "u64 \<Rightarrow> u32 \<Rightarrow> 's \<Rightarrow> efi_status \<times> mode_info option \<times> 's"
  e_set_mode :: "u64 \<Rightarrow> u32 \<Rightarrow> 's \<Rightarrow> 's"
  e_memory_map :: "u64 \<Rightarrow> u64 \<Rightarrow> 's \<Rightarrow> efi_status \<times> u64 \<times> u64 \<times> u64 \<times> 's"  \<comment> \<open>status, size, key, descriptor size\<close>
  e_exit :: "u64 \<Rightarrow> u64 \<Rightarrow> 's \<Rightarrow> efi_status \<times> 's"

record 's system_table =
  st_con_out :: "(u16 list \<Rightarrow> 's \<Rightarrow> 's) option"
  st_boot_services :: "'s efi option"

record loader_info =
  li_framebuffer_base :: u64
  li_framebuffer_size :: u64
  li_horizontal_resolution :: u64
  li_vertical_resolution :: u64
  li_pixels_per_scan_line :: u64
  li_pixel_format :: u32
  li_initrd_base :: u64
  li_initrd_size :: u64
  li_memory_map_base :: u64
  li_memory_map_size :: u64
  li_memory_descriptor_size :: u64

definition empty_boot_info :: loader_info where
  "empty_boot_info = \<lparr>li_framebuffer_base = 0, li_framebuffer_size = 0, li_horizontal_resolution = 0, li_vertical_resolution = 0,
     li_pixels_per_scan_line = 0, li_pixel_format = 0, li_initrd_base = 0, li_initrd_size = 0, li_memory_map_base = 0,
     li_memory_map_size = 0, li_memory_descriptor_size = 0\<rparr>"

section \<open>Reading a file\<close>

record file_buffer =
  fb_status :: efi_status
  fb_ptr :: u64
  fb_size :: u64

definition no_buffer :: "efi_status \<Rightarrow> file_buffer" where
  "no_buffer st = \<lparr>fb_status = st, fb_ptr = 0, fb_size = 0\<rparr>"

definition boot_read_file :: "'s efi \<Rightarrow> u64 \<Rightarrow> u16 list \<Rightarrow> u64 \<Rightarrow> 's \<Rightarrow> file_buffer \<times> 's" where
  "boot_read_file efi handle path read_limit s =
     (case e_handle_protocol efi handle LOADED_IMAGE_PROTOCOL_GUID s of (st, loaded_image, s) \<Rightarrow>
      if st \<noteq> EFI_SUCCESS then (no_buffer st, s)
      else case e_handle_protocol efi (e_device_handle efi loaded_image s) SIMPLE_FILE_SYSTEM_PROTOCOL_GUID s of (st, fs, s) \<Rightarrow>
      if st \<noteq> EFI_SUCCESS then (no_buffer st, s)
      else case e_open_volume efi fs s of (st, root, s) \<Rightarrow>
      if st \<noteq> EFI_SUCCESS then (no_buffer st, s)
      else case e_open efi root path EFI_FILE_MODE_READ s of (st, fh, s) \<Rightarrow>
      if st \<noteq> EFI_SUCCESS then (no_buffer st, s)
      else case e_allocate_pool efi EFI_LOADER_DATA read_limit s of (st, buffer, s) \<Rightarrow>
      if st \<noteq> EFI_SUCCESS then (no_buffer st, s)
      else case e_read efi fh read_limit buffer s of (st, n, s) \<Rightarrow>
        (\<lparr>fb_status = (if n = 0 then EFI_NOT_FOUND else st), fb_ptr = buffer, fb_size = n\<rparr>,
         e_close efi root (e_close efi fh s)))"

section \<open>Loading the kernel\<close>

definition bytes_at :: "(u64 \<Rightarrow> u8) \<Rightarrow> u64 \<Rightarrow> nat \<Rightarrow> bytes" where
  "bytes_at m a n = map (\<lambda>i. m (a + of_nat i)) [0..<n]"

definition boot_elf_header :: "(u64 \<Rightarrow> u8) \<Rightarrow> u64 \<Rightarrow> elf_header" where
  "boot_elf_header m elf = elf64_header (bytes_at m elf 64)"

definition boot_program_header :: "(u64 \<Rightarrow> u8) \<Rightarrow> u64 \<Rightarrow> elf_program_header" where
  "boot_program_header m a = elf64_program_header (bytes_at m a 56)"

definition boot_zero_bytes :: "u64 \<Rightarrow> nat \<Rightarrow> (u64 \<Rightarrow> u8) \<Rightarrow> u64 \<Rightarrow> u8" where
  "boot_zero_bytes destination n m = fold (\<lambda>index m. m(destination + of_nat index := 0)) [0..<n] m"

definition copy_nonoverlapping :: "u64 \<Rightarrow> u64 \<Rightarrow> nat \<Rightarrow> (u64 \<Rightarrow> u8) \<Rightarrow> u64 \<Rightarrow> u8" where
  "copy_nonoverlapping src destination n m = fold (\<lambda>index m. m(destination + of_nat index := m (src + of_nat index))) [0..<n] m"

text \<open>One program header; False is the way out with the entry 0.\<close>

definition load_ph :: "'f bstate efi \<Rightarrow> u64 \<Rightarrow> u64 \<Rightarrow> elf_program_header \<Rightarrow> 'f bstate \<Rightarrow> bool \<times> 'f bstate" where
  "load_ph efi elf n ph s =
     (if ph_typ ph \<noteq> PT_LOAD \<or> ph_memsz ph = 0 then (True, s)
      else if ph_offset ph + ph_filesz ph > n \<or> ph_filesz ph > ph_memsz ph then (False, s)
      else
        let pages = (unat (ph_memsz ph) + 4095) div 4096 in
        case e_allocate_pages efi (ph_paddr ph) pages s of (st, s) \<Rightarrow>
        if st \<noteq> EFI_SUCCESS then (False, s)
        else
          let m = boot_zero_bytes (ph_paddr ph) (unat (ph_memsz ph)) (bs_mem s);
              m = copy_nonoverlapping (elf + ph_offset ph) (ph_paddr ph) (unat (ph_filesz ph)) m
          in (True, s\<lparr>bs_mem := m\<rparr>))"

fun load_phs :: "'f bstate efi \<Rightarrow> u64 \<Rightarrow> u64 \<Rightarrow> u64 \<Rightarrow> u64 \<Rightarrow> nat list \<Rightarrow> 'f bstate \<Rightarrow> bool \<times> 'f bstate" where
  "load_phs efi elf n phoff phentsize [] s = (True, s)"
| "load_phs efi elf n phoff phentsize (index # rest) s =
     (case load_ph efi elf n (boot_program_header (bs_mem s) (elf + (phoff + of_nat index * phentsize))) s of
        (False, s) \<Rightarrow> (False, s)
      | (True, s) \<Rightarrow> load_phs efi elf n phoff phentsize rest s)"

definition load_elf :: "'f bstate efi \<Rightarrow> u64 \<Rightarrow> u64 \<Rightarrow> 'f bstate \<Rightarrow> u64 \<times> 'f bstate" where
  "load_elf efi elf n s =
     (if n < 64 then (0, s)
      else
        let header = boot_elf_header (bs_mem s) elf in
        if take 4 (eh_ident header) \<noteq> ELF_MAGIC \<or> eh_ident header ! 4 \<noteq> 2 \<or> eh_machine header \<noteq> 0x3E then (0, s)
        else
          let phoff = eh_phoff header; phentsize = ucast (eh_phentsize header); phnum = ucast (eh_phnum header) in
          if phoff + phentsize * phnum > n \<or> phentsize < 56 then (0, s)
          else
            case load_phs efi elf n phoff phentsize [0..<unat phnum] s of
              (False, s) \<Rightarrow> (0, s)
            | (True, s) \<Rightarrow> (eh_entry (boot_elf_header (bs_mem s) elf), s))"

section \<open>Graphics\<close>

definition locate_gop :: "'s efi \<Rightarrow> 's \<Rightarrow> u64 option \<times> 's" where
  "locate_gop efi s =
     (case e_locate_protocol efi GRAPHICS_OUTPUT_PROTOCOL_GUID s of (st, gop, s) \<Rightarrow>
        (if st = EFI_SUCCESS \<and> gop \<noteq> 0 then Some gop else None, s))"

definition framebuffer_info :: "'s efi \<Rightarrow> 's \<Rightarrow> loader_info \<times> 's" where
  "framebuffer_info efi s =
     (case locate_gop efi s of
        (None, s) \<Rightarrow> (empty_boot_info, s)
      | (Some gop, s) \<Rightarrow>
          (case e_mode efi gop s of
             None \<Rightarrow> (empty_boot_info, s)
           | Some mode \<Rightarrow>
               (case gm_info mode of
                  None \<Rightarrow> (empty_boot_info, s)
                | Some info \<Rightarrow>
                    (empty_boot_info\<lparr>li_framebuffer_base := gm_framebuffer_base mode, li_framebuffer_size := gm_framebuffer_size mode,
                       li_horizontal_resolution := ucast (mi_horizontal_resolution info),
                       li_vertical_resolution := ucast (mi_vertical_resolution info),
                       li_pixels_per_scan_line := ucast (mi_pixels_per_scan_line info),
                       li_pixel_format := mi_pixel_format info\<rparr>, s))))"

fun choose_mode :: "'s efi \<Rightarrow> u64 \<Rightarrow> u32 \<Rightarrow> u32 \<Rightarrow> nat list \<Rightarrow> 's \<Rightarrow> 's" where
  "choose_mode efi gop width height [] s = s"
| "choose_mode efi gop width height (mode_number # rest) s =
     (case e_query_mode efi gop (of_nat mode_number) s of (st, info, s) \<Rightarrow>
        case info of
          None \<Rightarrow> choose_mode efi gop width height rest s
        | Some info \<Rightarrow>
            if st \<noteq> EFI_SUCCESS then choose_mode efi gop width height rest s
            else if mi_horizontal_resolution info = width \<and> mi_vertical_resolution info = height
            then e_set_mode efi gop (of_nat mode_number) s
            else choose_mode efi gop width height rest s)"

definition set_graphics_mode :: "'s efi \<Rightarrow> u32 \<Rightarrow> u32 \<Rightarrow> 's \<Rightarrow> 's" where
  "set_graphics_mode efi width height s =
     (case locate_gop efi s of
        (None, s) \<Rightarrow> s
      | (Some gop, s) \<Rightarrow>
          (case e_mode efi gop s of
             None \<Rightarrow> s
           | Some mode \<Rightarrow> choose_mode efi gop width height [0..<unat (gm_max_mode mode)] s))"

section \<open>Leaving the firmware\<close>

text \<open>The memory map is fetched once for its size and once into a buffer with room for eight more descriptors.\<close>

definition exit_boot_services :: "'s efi \<Rightarrow> u64 \<Rightarrow> loader_info \<Rightarrow> 's \<Rightarrow> efi_status \<times> loader_info \<times> 's" where
  "exit_boot_services efi handle info s =
     (case e_memory_map efi 0 0 s of (_, map_bytes, _, descriptor_size, s) \<Rightarrow>
      let map_bytes = map_bytes + descriptor_size * 8 in
      case e_allocate_pool efi EFI_RUNTIME_SERVICES_DATA map_bytes s of (st, memory_map, s) \<Rightarrow>
      if st \<noteq> EFI_SUCCESS then (st, info, s)
      else case e_memory_map efi map_bytes memory_map s of (st, map_bytes, map_key, descriptor_size, s) \<Rightarrow>
      if st \<noteq> EFI_SUCCESS then (st, info, s)
      else
        let info = info\<lparr>li_memory_map_base := memory_map, li_memory_map_size := map_bytes, li_memory_descriptor_size := descriptor_size\<rparr> in
        case e_exit efi handle map_key s of (st, s) \<Rightarrow> (st, info, s))"

definition write_uefi :: "'s system_table option \<Rightarrow> u16 list \<Rightarrow> 's \<Rightarrow> 's" where
  "write_uefi table message s =
     (case table of None \<Rightarrow> s | Some t \<Rightarrow> (case st_con_out t of None \<Rightarrow> s | Some output_string \<Rightarrow> output_string message s))"

definition boot_serial_write :: "(u16 \<Rightarrow> u8 \<Rightarrow> 's \<Rightarrow> 's) \<Rightarrow> bytes \<Rightarrow> 's \<Rightarrow> 's" where
  "boot_serial_write outb bs s = fold (outb BOOT_COM1) bs s"

definition boot_serial_init :: "(u16 \<Rightarrow> u8 \<Rightarrow> 's \<Rightarrow> 's) \<Rightarrow> 's \<Rightarrow> 's" where
  "boot_serial_init outb s =
     (let s = outb (BOOT_COM1 + 1) 0x00 s;
          s = outb (BOOT_COM1 + 3) 0x80 s;
          s = outb BOOT_COM1 0x03 s;
          s = outb (BOOT_COM1 + 1) 0x00 s;
          s = outb (BOOT_COM1 + 3) 0x03 s;
          s = outb (BOOT_COM1 + 2) 0xC7 s
      in outb (BOOT_COM1 + 4) 0x0B s)"

section \<open>The start\<close>

text \<open>A failure with its status, or the jump to the entry with the boot information.\<close>

datatype 's boot_end = Boot_Failed efi_status 's | Jump_To u64 loader_info 's

definition boot_kernel :: "(u16 \<Rightarrow> u8 \<Rightarrow> 'f bstate \<Rightarrow> 'f bstate) \<Rightarrow> u64 \<Rightarrow> 'f bstate system_table option \<Rightarrow> 'f bstate
    \<Rightarrow> 'f bstate boot_end" where
  "boot_kernel outb handle table s =
     (case table of None \<Rightarrow> Boot_Failed EFI_LOAD_ERROR s
      | Some t \<Rightarrow>
      let s = write_uefi table BOOT_MESSAGE s in
      case st_boot_services t of None \<Rightarrow> Boot_Failed EFI_LOAD_ERROR s
      | Some efi \<Rightarrow>
      case boot_read_file efi handle KERNEL_PATH KERNEL_READ_LIMIT s of (kfile, s) \<Rightarrow>
      if fb_status kfile \<noteq> EFI_SUCCESS then Boot_Failed (fb_status kfile) s
      else case load_elf efi (fb_ptr kfile) (fb_size kfile) s of (entry, s) \<Rightarrow>
      if entry = 0 then Boot_Failed EFI_LOAD_ERROR s
      else let s = set_graphics_mode efi 1024 768 s in
      case framebuffer_info efi s of (info, s) \<Rightarrow>
      case boot_read_file efi handle INITRD_PATH INITRD_READ_LIMIT s of (initrd, s) \<Rightarrow>
      let info = (if fb_status initrd = EFI_SUCCESS
                  then info\<lparr>li_initrd_base := fb_ptr initrd, li_initrd_size := fb_size initrd\<rparr> else info);
          s = write_uefi table JUMP_MESSAGE s;
          s = boot_serial_write outb SERIAL_JUMP_MESSAGE s in
      case exit_boot_services efi handle info s of (st, info, s) \<Rightarrow>
      if st \<noteq> EFI_SUCCESS then Boot_Failed st s else Jump_To entry info s)"

text \<open>After a failure the loader writes a message and spins; nothing of the kernel is started.\<close>

definition efi_main :: "(u16 \<Rightarrow> u8 \<Rightarrow> 'f bstate \<Rightarrow> 'f bstate) \<Rightarrow> u64 \<Rightarrow> 'f bstate system_table option \<Rightarrow> 'f bstate
    \<Rightarrow> 'f bstate boot_end" where
  "efi_main outb handle table s =
     (let s = boot_serial_write outb SERIAL_BOOT_MESSAGE (boot_serial_init outb s) in
      case boot_kernel outb handle table s of
        Jump_To entry info s \<Rightarrow> Jump_To entry info s
      | Boot_Failed st s \<Rightarrow> Boot_Failed st (if st \<noteq> EFI_SUCCESS then write_uefi table ERROR_MESSAGE (boot_serial_write outb SERIAL_ERROR_MESSAGE s) else s))"

section \<open>Memory\<close>

definition region :: "u64 \<Rightarrow> nat \<Rightarrow> u64 set" where
  "region a n = {x. unat (x - a) < n}"

lemma unat_u64: "unat (x :: u64) < 2 ^ 64"
  using unsigned_less [of x, where 'a = nat] by simp

lemma unat_u16_up: "unat (ucast (x :: u16) :: u64) = unat x"
  using unsigned_less [of x, where 'a = nat] by (simp add: unsigned_ucast_eq take_bit_nat_eq_self)

lemma region_iff: "x \<in> region a n \<longleftrightarrow> (\<exists>i<n. x = a + of_nat i)"
proof
  assume "x \<in> region a n"
  then show "\<exists>i<n. x = a + of_nat i" by (intro exI [of _ "unat (x - a)"]) (simp add: region_def)
next
  assume "\<exists>i<n. x = a + of_nat i"
  then obtain i where i: "i < n" "x = a + of_nat i" by blast
  have "unat (of_nat i :: u64) \<le> i" by (simp add: unat_of_nat)
  with i show "x \<in> region a n" by (simp add: region_def)
qed

lemma region_mono: "m \<le> n \<Longrightarrow> region a m \<subseteq> region a n"
  by (auto simp: region_def)

lemma region_at: "i < n \<Longrightarrow> a + of_nat i \<in> region a n"
  by (auto simp: region_iff)

lemma region_sub: "i + n \<le> m \<Longrightarrow> region (a + of_nat i) n \<subseteq> region a m"
proof
  fix x
  assume le: "i + n \<le> m" and "x \<in> region (a + of_nat i) n"
  then obtain j where j: "j < n" "x = a + of_nat i + of_nat j" by (auto simp: region_iff)
  then have "x = a + of_nat (i + j)" by (simp add: algebra_simps)
  with j le show "x \<in> region a m" by (auto simp: region_iff intro!: exI [of _ "i + j"])
qed

lemma boot_zero_bytes_at: "boot_zero_bytes d n m x = (if x \<in> region d n then 0 else m x)"
proof (induction n)
  case (Suc n)
  have "boot_zero_bytes d (Suc n) m = (boot_zero_bytes d n m)(d + of_nat n := 0)" by (simp add: boot_zero_bytes_def)
  with Suc show ?case by (auto simp: region_iff less_Suc_eq)
qed (simp add: boot_zero_bytes_def region_def)

lemma copy_nonoverlapping_at:
  assumes "region src n \<inter> region d n = {}"
  shows "copy_nonoverlapping src d n m x = (if x \<in> region d n then m (src + (x - d)) else m x)"
proof -
  have "copy_nonoverlapping src d k m x = (if x \<in> region d k then m (src + (x - d)) else m x)" if "k \<le> n" for k x
    using that
  proof (induction k arbitrary: x)
    case (Suc k)
    have "src + of_nat k \<in> region src n" using Suc.prems by (simp add: region_at)
    then have "src + of_nat k \<notin> region d k" using assms region_mono [of k n d] Suc.prems by auto
    moreover have "copy_nonoverlapping src d (Suc k) m =
      (copy_nonoverlapping src d k m)(d + of_nat k := copy_nonoverlapping src d k m (src + of_nat k))"
      by (simp add: copy_nonoverlapping_def)
    ultimately show ?case using Suc.IH Suc.prems by (auto simp: region_iff less_Suc_eq)
  qed (simp add: copy_nonoverlapping_def region_def)
  then show ?thesis by simp
qed

lemma bytes_at_cong: "(\<And>x. x \<in> region a n \<Longrightarrow> m x = m' x) \<Longrightarrow> bytes_at m a n = bytes_at m' a n"
  by (auto simp: bytes_at_def region_at)

lemma bytes_at_slice: "i + k \<le> n \<Longrightarrow> bytes_at m (a + of_nat i) k = take k (drop i (bytes_at m a n))"
  by (rule nth_equalityI) (auto simp: bytes_at_def algebra_simps)

lemma length_bytes_at [simp]: "length (bytes_at m a n) = n"
  by (simp add: bytes_at_def)

lemma bytes_at_nth: "unat y < n \<Longrightarrow> bytes_at m a n ! unat y = m (a + y)"
  by (simp add: bytes_at_def)

section \<open>What the firmware promises\<close>

text \<open>
  The loader owns the memory it was given; \<open>held\<close> says that a block of it has given contents.  A calm step takes nothing of it
  back and changes none of its bytes.
\<close>

definition held :: "('f bstate \<Rightarrow> u64 set) \<Rightarrow> 'f bstate \<Rightarrow> u64 \<Rightarrow> bytes \<Rightarrow> bool" where
  "held owned s a bs \<longleftrightarrow> region a (length bs) \<subseteq> owned s \<and> bytes_at (bs_mem s) a (length bs) = bs"

definition calm_but :: "u64 set \<Rightarrow> ('f bstate \<Rightarrow> u64 set) \<Rightarrow> 'f bstate \<Rightarrow> 'f bstate \<Rightarrow> bool" where
  "calm_but R owned s s' \<longleftrightarrow> owned s \<subseteq> owned s' \<and> (\<forall>x \<in> owned s - R. bs_mem s' x = bs_mem s x)"

abbreviation calm_step :: "('f bstate \<Rightarrow> u64 set) \<Rightarrow> 'f bstate \<Rightarrow> 'f bstate \<Rightarrow> bool" where
  "calm_step \<equiv> calm_but {}"

definition segment_bytes :: "bytes \<Rightarrow> elf_program_header \<Rightarrow> bytes" where
  "segment_bytes elf ph = subslice elf (unat (ph_offset ph)) (unat (ph_offset ph) + unat (ph_filesz ph)) @
     replicate (unat (ph_memsz ph) - unat (ph_filesz ph)) 0"

definition table_no_wrap :: "bytes \<Rightarrow> bool" where
  "table_no_wrap elf \<longleftrightarrow> (let h = elf64_header elf in unat (eh_phoff h) + unat (eh_phentsize h) * unat (eh_phnum h) < 2 ^ 64)"

lemma calm_but_refl [simp]: "calm_but R owned s s"
  by (simp add: calm_but_def)

lemma calm_step_trans [trans]: "calm_step owned s s' \<Longrightarrow> calm_step owned s' s'' \<Longrightarrow> calm_step owned s s''"
  by (auto simp: calm_but_def)

lemma calm_fresh: "calm_step owned s s' \<Longrightarrow> calm_but R owned s' s'' \<Longrightarrow> R \<inter> owned s = {} \<Longrightarrow> calm_step owned s s''"
proof -
  assume a: "calm_step owned s s'" "calm_but R owned s' s''" "R \<inter> owned s = {}"
  have "bs_mem s'' x = bs_mem s x" if "x \<in> owned s" for x
  proof -
    have "x \<in> owned s' - R" using a(1,3) that by (auto simp: calm_but_def)
    with a(1,2) that show ?thesis by (simp add: calm_but_def)
  qed
  with a show ?thesis by (auto simp: calm_but_def)
qed

lemma held_calm: "held owned s a bs \<Longrightarrow> calm_step owned s s' \<Longrightarrow> held owned s' a bs"
  unfolding held_def calm_but_def using bytes_at_cong [of a "length bs" "bs_mem s'" "bs_mem s"] by auto

lemma boot_elf_header_held:
  assumes "held owned s elf K" "64 \<le> length K"
  shows "boot_elf_header (bs_mem s) elf = elf64_header K"
proof -
  have "bytes_at (bs_mem s) elf 64 = take 64 K"
    using bytes_at_slice [of 0 64 "length K" "bs_mem s" elf] assms by (simp add: held_def)
  then show ?thesis using assms(2)
    by (simp add: boot_elf_header_def elf64_header_def read_le16_def read_le64_from_slice_def upt_rec)
qed

lemma boot_program_header_held:
  assumes "held owned s elf K" "unat off + 56 \<le> length K" "length K < 2 ^ 64"
  shows "boot_program_header (bs_mem s) (elf + off) = program_header_at beyond K off"
proof -
  have "bs_mem s (elf + off + of_nat i) = image_at beyond K (off + of_nat i)" if "i < 56" for i
  proof -
    have "unat (off + of_nat i) = unat off + i" using that assms(2,3) by (simp add: unat_word_ariths unat_of_nat)
    with bytes_at_nth [of "off + of_nat i" "length K" "bs_mem s" elf] assms that show ?thesis
      by (simp add: held_def image_at_def add.assoc)
  qed
  then have "bytes_at (bs_mem s) (elf + off) 56 = map (\<lambda>i. image_at beyond K (off + of_nat i)) [0..<56]"
    by (auto simp: bytes_at_def)
  then show ?thesis unfolding boot_program_header_def program_header_at_def by (rule arg_cong)
qed

text \<open>
  The laws: memory handed out is fresh and stays the loader's; reading a file fills the buffer with the start of the file and
  touches nothing else; the memory map is written into the buffer named; every other call is calm.
\<close>

locale firmware =
  fixes efi :: "'f bstate efi" and put :: "u16 list \<Rightarrow> 'f bstate \<Rightarrow> 'f bstate" and port :: "u16 \<Rightarrow> u8 \<Rightarrow> 'f bstate \<Rightarrow> 'f bstate"
    and owned :: "'f bstate \<Rightarrow> u64 set" and opened :: "'f bstate \<Rightarrow> u64 \<Rightarrow> bytes option" and volume :: "u16 list \<Rightarrow> bytes"
  assumes owned_mem: "owned (s\<lparr>bs_mem := m\<rparr>) = owned s"
    and put_law: "calm_step owned s (put msg s)"
    and port_law: "calm_step owned s (port p byte s)"
    and handle_law: "e_handle_protocol efi h g s = (st, q, s') \<Longrightarrow> calm_step owned s s'"
    and volume_law: "e_open_volume efi fs s = (st, q, s') \<Longrightarrow> calm_step owned s s'"
    and open_law: "e_open efi root path mode s = (st, fh, s') \<Longrightarrow>
      calm_step owned s s' \<and> (st = EFI_SUCCESS \<longrightarrow> opened s' fh = Some (volume path))"
    and pool_law: "e_allocate_pool efi t n s = (st, q, s') \<Longrightarrow> calm_step owned s s' \<and> opened s' = opened s \<and>
      (st = EFI_SUCCESS \<longrightarrow> region q (unat n) \<inter> owned s = {} \<and> region q (unat n) \<subseteq> owned s')"
    and read_law: "e_read efi fh limit q s = (st, n, s') \<Longrightarrow> calm_but (region q (unat limit)) owned s s' \<and>
      (st = EFI_SUCCESS \<longrightarrow> region q (unat limit) \<subseteq> owned s \<longrightarrow> opened s fh = Some b \<longrightarrow>
        unat n = length (take (unat limit) b) \<and> bytes_at (bs_mem s') q (unat n) = take (unat limit) b)"
    and close_law: "calm_step owned s (e_close efi fh s)"
    and pages_law: "e_allocate_pages efi a pages s = (st, s') \<Longrightarrow> calm_step owned s s' \<and>
      (st = EFI_SUCCESS \<longrightarrow> region a (4096 * pages) \<inter> owned s = {} \<and> region a (4096 * pages) \<subseteq> owned s')"
    and locate_law: "e_locate_protocol efi g s = (st, q, s') \<Longrightarrow> calm_step owned s s'"
    and query_law: "e_query_mode efi gop k s = (st, i, s') \<Longrightarrow> calm_step owned s s'"
    and set_law: "calm_step owned s (e_set_mode efi gop k s)"
    and map_law: "e_memory_map efi n q s = (st, n', key, dsize, s') \<Longrightarrow> calm_but (region q (unat n)) owned s s'"
    and exit_law: "e_exit efi h key s = (st, s') \<Longrightarrow> calm_step owned s s'"
begin

lemma boot_read_file_law:
  assumes "boot_read_file efi handle path limit s = (fb, s')"
  shows "calm_step owned s s' \<and> (fb_status fb = EFI_SUCCESS \<longrightarrow> fb_size fb \<noteq> 0 \<and>
    unat (fb_size fb) = length (take (unat limit) (volume path)) \<and> held owned s' (fb_ptr fb) (take (unat limit) (volume path)))"
proof -
  obtain st1 p1 s1 where 1: "e_handle_protocol efi handle LOADED_IMAGE_PROTOCOL_GUID s = (st1, p1, s1)" by (metis prod_cases3)
  obtain st2 p2 s2 where 2: "e_handle_protocol efi (e_device_handle efi p1 s1) SIMPLE_FILE_SYSTEM_PROTOCOL_GUID s1 = (st2, p2, s2)"
    by (metis prod_cases3)
  obtain st3 p3 s3 where 3: "e_open_volume efi p2 s2 = (st3, p3, s3)" by (metis prod_cases3)
  obtain st4 fh s4 where 4: "e_open efi p3 path EFI_FILE_MODE_READ s3 = (st4, fh, s4)" by (metis prod_cases3)
  obtain st5 q s5 where 5: "e_allocate_pool efi EFI_LOADER_DATA limit s4 = (st5, q, s5)" by (metis prod_cases3)
  obtain st6 n s6 where 6: "e_read efi fh limit q s5 = (st6, n, s6)" by (metis prod_cases3)
  let ?s7 = "e_close efi p3 (e_close efi fh s6)"
  note e = assms [unfolded boot_read_file_def 1 prod.case]
  note c1 = handle_law [OF 1]
  note c2 = calm_step_trans [OF c1 handle_law [OF 2]]
  note c3 = calm_step_trans [OF c2 volume_law [OF 3]]
  note o4 = open_law [OF 4]
  note c4 = calm_step_trans [OF c3 conjunct1 [OF o4]]
  note o5 = pool_law [OF 5]
  note c5 = calm_step_trans [OF c4 conjunct1 [OF o5]]
  note o6 = read_law [OF 6, where b = "volume path"]
  have c7: "calm_step owned s6 ?s7" using calm_step_trans [OF close_law close_law] .
  show ?thesis
  proof (cases "st1 = EFI_SUCCESS \<and> st2 = EFI_SUCCESS \<and> st3 = EFI_SUCCESS \<and> st4 = EFI_SUCCESS \<and> st5 = EFI_SUCCESS")
    case True
    then have fb: "fb = \<lparr>fb_status = (if n = 0 then EFI_NOT_FOUND else st6), fb_ptr = q, fb_size = n\<rparr>" "s' = ?s7"
      using e by (simp_all add: 2 3 4 5 6)
    have fresh: "region q (unat limit) \<inter> owned s4 = {}" "region q (unat limit) \<subseteq> owned s5" using o5 True by simp_all
    have "calm_step owned s s6"
      using calm_step_trans [OF c4 calm_fresh [OF conjunct1 [OF o5] conjunct1 [OF o6] fresh(1)]] .
    with c7 have c: "calm_step owned s s'" unfolding fb by (rule calm_step_trans [rotated])
    have "held owned s' q (take (unat limit) (volume path)) \<and> unat n = length (take (unat limit) (volume path))" if "st6 = EFI_SUCCESS"
    proof -
      have op: "opened s5 fh = Some (volume path)" using o4 o5 True by simp
      then have "unat n = length (take (unat limit) (volume path)) \<and> bytes_at (bs_mem s6) q (unat n) = take (unat limit) (volume path)"
        using o6 that fresh(2) by blast
      then have r: "unat n = length (take (unat limit) (volume path))" "bytes_at (bs_mem s6) q (unat n) = take (unat limit) (volume path)"
        by blast+
      have "region q (unat n) \<subseteq> owned s6" using r(1) fresh(2) o6 region_mono [of "unat n" "unat limit" q] by (auto simp: calm_but_def)
      then have "held owned s6 q (take (unat limit) (volume path))" using r(2) unfolding held_def r(1) by simp
      with held_calm [OF _ c7] r(1) fb show ?thesis by simp
    qed
    with c fb show ?thesis by (auto simp: EFI_NOT_FOUND_def EFI_SUCCESS_def)
  next
    case False
    then have "\<exists>st. fb = no_buffer st \<and> st \<noteq> EFI_SUCCESS \<and> s' \<in> {s1, s2, s3, s4, s5}"
      using e by (auto simp: 2 3 4 5 6 split: if_splits)
    with c1 c2 c3 c4 c5 show ?thesis by (auto simp: no_buffer_def)
  qed
qed

lemma load_ph_law:
  assumes K: "held owned s elf K" "length K = unat n" and nw: "no_wrap ph" and e: "load_ph efi elf n ph s = (True, s')"
  shows "calm_step owned s s' \<and> (loadable ph \<longrightarrow> held owned s' (ph_paddr ph) (segment_bytes K ph))"
proof (cases "loadable ph")
  case False
  then have "s' = s" using e by (auto simp: load_ph_def loadable_def)
  with False show ?thesis by simp
next
  case True
  let ?off = "ph_offset ph" and ?d = "ph_paddr ph" and ?f = "unat (ph_filesz ph)" and ?m = "unat (ph_memsz ph)"
  define pages where "pages = (?m + 4095) div 4096"
  obtain st s1 where a: "e_allocate_pages efi ?d pages s = (st, s1)" by fastforce
  note law = pages_law [OF a]
  have b: "?off + ph_filesz ph \<le> n" "ph_filesz ph \<le> ph_memsz ph" "st = EFI_SUCCESS"
    and s': "s' = s1\<lparr>bs_mem := copy_nonoverlapping (elf + ?off) ?d ?f (boot_zero_bytes ?d ?m (bs_mem s1))\<rparr>"
    using e True a by (auto simp: load_ph_def loadable_def pages_def Let_def split: if_splits)
  have fm: "?f \<le> ?m" using b(2) by (simp add: word_le_nat_alt)
  have "unat ?off + ?f < 2 ^ 64" using nw True by (simp add: no_wrap_def)
  with b(1) K(2) have fn: "unat ?off + ?f \<le> length K" by (simp add: word_le_nat_alt unat_word_ariths)
  have "?m \<le> 4096 * pages" unfolding pages_def by simp
  then have dst: "region ?d ?m \<inter> owned s = {}" "region ?d ?m \<subseteq> owned s1"
    using law b(3) region_mono [of ?m "4096 * pages" ?d] by auto
  have "region (elf + of_nat (unat ?off)) ?f \<subseteq> owned s" using region_sub [OF fn] K(1) by (auto simp: held_def)
  then have src: "region (elf + ?off) ?f \<subseteq> owned s" by simp
  have dis: "region (elf + ?off) ?f \<inter> region ?d ?f = {}" using src dst(1) region_mono [OF fm, of ?d] by auto
  have at: "bs_mem s' x = (if x \<in> region ?d ?f then bs_mem s (elf + ?off + (x - ?d)) else if x \<in> region ?d ?m then 0 else bs_mem s1 x)" for x
  proof (cases "x \<in> region ?d ?f")
    case True
    then obtain i where i: "i < ?f" "x = ?d + of_nat i" by (auto simp: region_iff)
    then have "elf + ?off + (x - ?d) \<in> region (elf + ?off) ?f" by (simp add: region_at)
    with src have o: "elf + ?off + (x - ?d) \<in> owned s" by blast
    with dst(1) have "elf + ?off + (x - ?d) \<notin> region ?d ?m" by blast
    with o True law show ?thesis by (simp add: s' copy_nonoverlapping_at [OF dis] boot_zero_bytes_at calm_but_def)
  qed (simp add: s' copy_nonoverlapping_at [OF dis] boot_zero_bytes_at)
  have own: "owned s' = owned s1" by (simp add: s' owned_mem)
  have calm: "calm_step owned s s'"
    using law dst(1) region_mono [OF fm, of ?d] unfolding calm_but_def own at by auto
  have len: "length (segment_bytes K ph) = ?m" using fm fn by (simp add: segment_bytes_def)
  moreover have "bytes_at (bs_mem s') ?d ?m = segment_bytes K ph"
  proof (rule nth_equalityI)
    fix i assume "i < length (bytes_at (bs_mem s') ?d ?m)"
    then have i: "i < ?m" by simp
    then have "?d + of_nat i \<in> region ?d ?m" by (rule region_at)
    have w: "unat (of_nat i :: u64) = i" using i unat_u64 [of "ph_memsz ph"] by (intro unat_of_nat_small) simp
    have in_f: "?d + of_nat i \<in> region ?d ?f \<longleftrightarrow> i < ?f" using w by (simp add: region_def)
    have "bs_mem s (elf + ?off + of_nat i) = K ! (unat ?off + i)" if "i < ?f"
    proof -
      have "unat (?off + of_nat i) = unat ?off + i" using that fn K(2) unat_u64 [of n] w by (simp add: unat_word_ariths)
      with bytes_at_nth [of "?off + of_nat i" "length K" "bs_mem s" elf] K(1) that fn show ?thesis
        by (simp add: held_def add.assoc)
    qed
    with i \<open>?d + of_nat i \<in> region ?d ?m\<close> in_f show "bytes_at (bs_mem s') ?d ?m ! i = segment_bytes K ph ! i"
      using fn fm by (simp add: bytes_at_def at segment_bytes_def nth_append)
  qed (simp add: len)
  ultimately have "held owned s' ?d (segment_bytes K ph)" using dst(2) by (simp add: held_def own)
  with calm show ?thesis by blast
qed

lemma load_phs_law:
  assumes "held owned s elf K" "length K = unat n" "\<forall>i \<in> set is. unat (phoff + of_nat i * phentsize) + 56 \<le> length K"
    "\<forall>i \<in> set is. no_wrap (program_header_at beyond K (phoff + of_nat i * phentsize))"
    "load_phs efi elf n phoff phentsize is s = (True, s')"
  shows "calm_step owned s s' \<and> (\<forall>i \<in> set is. let ph = program_header_at beyond K (phoff + of_nat i * phentsize) in
    loadable ph \<longrightarrow> held owned s' (ph_paddr ph) (segment_bytes K ph))"
  using assms
proof (induction "is" arbitrary: s)
  case (Cons i "is")
  let ?ph = "program_header_at beyond K (phoff + of_nat i * phentsize)"
  have "boot_program_header (bs_mem s) (elf + (phoff + of_nat i * phentsize)) = ?ph"
    using Cons.prems(1-3) unat_u64 [of n] by (intro boot_program_header_held) simp_all
  with Cons.prems(5) obtain s1 where 1: "load_ph efi elf n ?ph s = (True, s1)" "load_phs efi elf n phoff phentsize is s1 = (True, s')"
    by (auto split: prod.splits bool.splits)
  have nw: "no_wrap ?ph" using Cons.prems(4) by simp
  note l1 = load_ph_law [OF Cons.prems(1,2) nw 1(1)]
  have "held owned s1 elf K" using held_calm [OF Cons.prems(1)] l1 by blast
  note l2 = Cons.IH [OF this Cons.prems(2) _ _ 1(2)]
  have l2: "calm_step owned s1 s' \<and> (\<forall>i \<in> set is. let ph = program_header_at beyond K (phoff + of_nat i * phentsize) in
    loadable ph \<longrightarrow> held owned s' (ph_paddr ph) (segment_bytes K ph))" using Cons.prems(3,4) by (intro l2) simp_all
  have "held owned s' (ph_paddr ?ph) (segment_bytes K ?ph)" if "loadable ?ph" using l1 l2 that held_calm by blast
  with l1 l2 calm_step_trans show ?case unfolding Let_def by (metis set_ConsD)
qed simp

lemma load_elf_law:
  assumes K: "held owned s elf K" "length K = unat n" and nw: "table_no_wrap K" "list_all no_wrap (program_headers beyond K)"
    and e: "load_elf efi elf n s = (entry, s')" "entry \<noteq> 0"
  shows "calm_step owned s s' \<and> header_error K = None \<and> entry = eh_entry (elf64_header K) \<and>
    (\<forall>ph \<in> set (program_headers beyond K). loadable ph \<longrightarrow> held owned s' (ph_paddr ph) (segment_bytes K ph))"
proof -
  have n: "64 \<le> length K" using e K(2) by (auto simp: load_elf_def word_less_nat_alt split: if_splits)
  note h = boot_elf_header_held [OF K(1) n]
  define hd where "hd = elf64_header K"
  let ?o = "eh_phoff hd" and ?e = "ucast (eh_phentsize hd) :: u64" and ?k = "ucast (eh_phnum hd) :: u64"
  let ?at = "\<lambda>i. ?o + of_nat i * ?e"
  have ok: "take 4 (eh_ident hd) = ELF_MAGIC" "eh_ident hd ! 4 = 2" "eh_machine hd = 0x3E" "?o + ?e * ?k \<le> n" "\<not> ?e < 56"
    and l: "load_phs efi elf n ?o ?e [0..<unat ?k] s = (True, s')" and en: "entry = eh_entry (boot_elf_header (bs_mem s') elf)"
    using e unfolding load_elf_def h hd_def [symmetric] by (auto simp: Let_def split: if_splits prod.splits bool.splits)
  have k: "unat ?k = unat (eh_phnum hd)" and pe: "unat ?e = unat (eh_phentsize hd)" by (simp_all add: unat_u16_up)
  have lt: "unat ?o + unat ?e * unat ?k < 2 ^ 64" using nw(1) by (simp add: table_no_wrap_def hd_def Let_def unat_u16_up)
  then have "unat ?e * unat ?k < 2 ^ 64" by linarith
  with lt have "unat (?o + ?e * ?k) = unat ?o + unat ?e * unat ?k" by (simp add: unat_word_ariths)
  with ok(4) K(2) have tab: "unat ?o + unat ?e * unat ?k \<le> length K" by (simp add: word_le_nat_alt)
  have "unat (?at i) + 56 \<le> length K" if "i < unat ?k" for i
  proof -
    have "i * unat ?e + unat ?e \<le> unat ?e * unat ?k" using that by (metis Suc_leI add.commute mult.commute mult_Suc mult_le_mono1)
    moreover have "56 \<le> unat ?e" using ok(5) by (simp add: word_less_nat_alt)
    ultimately have a: "unat ?o + i * unat ?e + 56 \<le> length K" using tab by linarith
    moreover have "unat (?at i) \<le> unat ?o + i * unat ?e"
      by (simp add: unat_word_ariths unat_of_nat) (meson add_le_mono le_refl le_trans mod_less_eq_dividend mult_le_mono1)
    ultimately show ?thesis by linarith
  qed
  moreover have phs: "program_headers beyond K = map (\<lambda>i. program_header_at beyond K (?at i)) [0..<unat ?k]"
    by (simp add: program_headers_def hd_def Let_def k [unfolded hd_def])
  ultimately have "calm_step owned s s' \<and> (\<forall>i \<in> set [0..<unat ?k]. let ph = program_header_at beyond K (?at i) in
    loadable ph \<longrightarrow> held owned s' (ph_paddr ph) (segment_bytes K ph))"
    using nw(2) by (intro load_phs_law [OF K _ _ l]) (simp_all add: list_all_iff)
  then have c: "calm_step owned s s'" and p: "\<forall>ph \<in> set (program_headers beyond K). loadable ph \<longrightarrow> held owned s' (ph_paddr ph) (segment_bytes K ph)"
    by (auto simp: phs Let_def)
  have "entry = eh_entry hd" using boot_elf_header_held [OF held_calm [OF K(1) c] n] en by (simp add: hd_def)
  moreover have "header_error K = None"
    using ok n K(2) by (simp add: header_error_def Let_def hd_def word_le_nat_alt word_less_nat_alt unat_u16_up)
  ultimately show ?thesis using c p by (simp add: hd_def)
qed

lemma locate_gop_law: "locate_gop efi s = (r, s') \<Longrightarrow> calm_step owned s s'"
  using locate_law by (auto simp: locate_gop_def split: prod.splits)

lemma framebuffer_info_law: "framebuffer_info efi s = (info, s') \<Longrightarrow> calm_step owned s s' \<and> li_initrd_size info = 0"
  using locate_gop_law by (auto simp: framebuffer_info_def empty_boot_info_def split: prod.splits option.splits)

lemma choose_mode_law: "calm_step owned s (choose_mode efi gop width height ms s)"
proof (induction ms arbitrary: s)
  case (Cons m ms)
  obtain st i s1 where q: "e_query_mode efi gop (of_nat m) s = (st, i, s1)" by (metis prod_cases3)
  note c = query_law [OF q]
  have "choose_mode efi gop width height (m # ms) s \<in> {choose_mode efi gop width height ms s1, e_set_mode efi gop (of_nat m) s1}"
    by (cases i) (simp_all add: q)
  with calm_step_trans [OF c Cons.IH] calm_step_trans [OF c set_law] show ?case by auto
qed simp

lemma set_graphics_mode_law: "calm_step owned s (set_graphics_mode efi width height s)"
proof -
  obtain g s1 where g: "locate_gop efi s = (g, s1)" by fastforce
  note c = locate_gop_law [OF g]
  from c calm_step_trans [OF c choose_mode_law] show ?thesis by (simp add: set_graphics_mode_def g split: option.split)
qed

lemma exit_boot_services_law:
  assumes "exit_boot_services efi handle info s = (st, info', s')"
  shows "calm_step owned s s' \<and> li_initrd_base info' = li_initrd_base info \<and> li_initrd_size info' = li_initrd_size info"
proof -
  obtain st1 n1 k1 z1 s1 where 1: "e_memory_map efi 0 0 s = (st1, n1, k1, z1, s1)" by (metis prod_cases5)
  obtain st2 q s2 where 2: "e_allocate_pool efi EFI_RUNTIME_SERVICES_DATA (n1 + z1 * 8) s1 = (st2, q, s2)" by (metis prod_cases3)
  obtain st3 n3 k3 z3 s3 where 3: "e_memory_map efi (n1 + z1 * 8) q s2 = (st3, n3, k3, z3, s3)" by (metis prod_cases5)
  obtain st4 s4 where 4: "e_exit efi handle k3 s3 = (st4, s4)" by fastforce
  have "region 0 (unat (0 :: u64)) = {}" by (simp add: region_def)
  with map_law [OF 1] have c1: "calm_step owned s s1" by simp
  note o2 = pool_law [OF 2]
  have c2: "calm_step owned s s2" using calm_step_trans [OF c1] o2 by blast
  have c3: "calm_step owned s s3" if "st2 = EFI_SUCCESS"
    using calm_step_trans [OF c1 calm_fresh [OF conjunct1 [OF o2] map_law [OF 3]]] o2 that by blast
  have c4: "calm_step owned s s4" if "st2 = EFI_SUCCESS" using calm_step_trans [OF c3 [OF that] exit_law [OF 4]] .
  show ?thesis using assms c2 c3 c4 unfolding exit_boot_services_def 1
    by (auto simp: 2 3 4 Let_def split: if_splits)
qed

lemma fold_calm: "(\<And>x s. calm_step owned s (f x s)) \<Longrightarrow> calm_step owned s (fold f xs s)"
proof (induction xs arbitrary: s)
  case (Cons x xs)
  from calm_step_trans [OF Cons.prems Cons.IH [OF Cons.prems]] show ?case by simp
qed simp

lemma serial_write_law: "calm_step owned s (boot_serial_write port bs s)"
  unfolding boot_serial_write_def by (intro fold_calm port_law)

lemma write_uefi_law:
  assumes "co \<in> {None, Some put}"
  shows "calm_step owned s (write_uefi (Some \<lparr>st_con_out = co, st_boot_services = bs\<rparr>) msg s)"
  using assms put_law by (auto simp: write_uefi_def)

lemma boot_kernel_law:
  assumes co: "co \<in> {None, Some put}" and K: "K = take (1024 * 1024) (volume KERNEL_PATH)"
    and nw: "table_no_wrap K" "list_all no_wrap (program_headers beyond K)"
    and e: "boot_kernel port handle (Some \<lparr>st_con_out = co, st_boot_services = Some efi\<rparr>) s = Jump_To entry info s'"
  shows "header_error K = None \<and> entry = eh_entry (elf64_header K) \<and> entry \<noteq> 0 \<and>
    (\<forall>ph \<in> set (program_headers beyond K). loadable ph \<longrightarrow> held owned s' (ph_paddr ph) (segment_bytes K ph)) \<and>
    (li_initrd_size info \<noteq> 0 \<longrightarrow>
       held owned s' (li_initrd_base info) (take (32 * 1024 * 1024) (volume INITRD_PATH)) \<and>
       unat (li_initrd_size info) = length (take (32 * 1024 * 1024) (volume INITRD_PATH)))"
proof -
  let ?t = "Some \<lparr>st_con_out = co, st_boot_services = Some efi\<rparr>"
  obtain kf s1 where 1: "boot_read_file efi handle KERNEL_PATH KERNEL_READ_LIMIT (write_uefi ?t BOOT_MESSAGE s) = (kf, s1)" by fastforce
  obtain en s2 where 2: "load_elf efi (fb_ptr kf) (fb_size kf) s1 = (en, s2)" by fastforce
  obtain inf s3 where 3: "framebuffer_info efi (set_graphics_mode efi 1024 768 s2) = (inf, s3)" by fastforce
  obtain rd s4 where 4: "boot_read_file efi handle INITRD_PATH INITRD_READ_LIMIT s3 = (rd, s4)" by fastforce
  define inf' where "inf' = (if fb_status rd = EFI_SUCCESS then inf\<lparr>li_initrd_base := fb_ptr rd, li_initrd_size := fb_size rd\<rparr> else inf)"
  obtain st inf2 s5 where 5: "exit_boot_services efi handle inf' (boot_serial_write port SERIAL_JUMP_MESSAGE (write_uefi ?t JUMP_MESSAGE s4)) = (st, inf2, s5)"
    by (metis prod_cases3)
  have r: "fb_status kf = EFI_SUCCESS" "en \<noteq> 0" "entry = en" "info = inf2" "s' = s5"
    using e 5 unfolding inf'_def by (auto simp: boot_kernel_def Let_def 1 2 3 4 split: if_splits)
  have lim: "unat KERNEL_READ_LIMIT = 1024 * 1024" "unat INITRD_READ_LIMIT = 32 * 1024 * 1024"
    by (simp_all add: KERNEL_READ_LIMIT_def INITRD_READ_LIMIT_def)
  note l1 = boot_read_file_law [OF 1, unfolded lim, folded K]
  have kf: "held owned s1 (fb_ptr kf) K" "length K = unat (fb_size kf)" using l1 r(1) by simp_all
  note l2 = load_elf_law [OF kf nw 2 r(2)]
  note l3 = framebuffer_info_law [OF 3]
  note l4 = boot_read_file_law [OF 4, unfolded lim]
  note l5 = exit_boot_services_law [OF 5]
  have c4: "calm_step owned s4 s'"
    using calm_step_trans [OF calm_step_trans [OF write_uefi_law [OF co] serial_write_law] conjunct1 [OF l5]] by (simp add: r(5))
  have c2: "calm_step owned s2 s'"
    using calm_step_trans [OF calm_step_trans [OF calm_step_trans [OF set_graphics_mode_law conjunct1 [OF l3]] conjunct1 [OF l4]] c4] .
  have "li_initrd_size inf2 \<noteq> 0 \<Longrightarrow> fb_status rd = EFI_SUCCESS \<and> li_initrd_base inf2 = fb_ptr rd \<and> li_initrd_size inf2 = fb_size rd"
    using l5 l3 by (auto simp: inf'_def split: if_splits)
  with l2 l4 r held_calm [OF _ c2] held_calm [OF _ c4] show ?thesis by auto
qed

end

section \<open>What the kernel finds\<close>

text \<open>
  When the loader jumps, the kernel file was a proper image, the entry is the file's, every loadable segment lies in memory at its
  address, its bytes from the file followed by zeroes, and a boot image that is announced is in memory as it
  is on the volume (both files up to their read limits).  The firmware is any that keeps its laws; the kernel's headers
  must not wrap around the address arithmetic.
\<close>

theorem efi_main_jump:
  assumes "firmware efi put port owned opened volume" "co \<in> {None, Some put}" "K = take (1024 * 1024) (volume KERNEL_PATH)"
    "table_no_wrap K" "list_all no_wrap (program_headers beyond K)"
    "efi_main port handle (Some \<lparr>st_con_out = co, st_boot_services = Some efi\<rparr>) s = Jump_To entry info s'"
  shows "header_error K = None \<and> entry = eh_entry (elf64_header K) \<and> entry \<noteq> 0 \<and>
    (\<forall>ph \<in> set (program_headers beyond K). loadable ph \<longrightarrow> held owned s' (ph_paddr ph) (segment_bytes K ph)) \<and>
    (li_initrd_size info \<noteq> 0 \<longrightarrow>
       held owned s' (li_initrd_base info) (take (32 * 1024 * 1024) (volume INITRD_PATH)) \<and>
       unat (li_initrd_size info) = length (take (32 * 1024 * 1024) (volume INITRD_PATH)))"
proof (rule firmware.boot_kernel_law [OF assms(1-5)])
  show "boot_kernel port handle (Some \<lparr>st_con_out = co, st_boot_services = Some efi\<rparr>)
    (boot_serial_write port SERIAL_BOOT_MESSAGE (boot_serial_init port s)) = Jump_To entry info s'"
    using assms(6) by (simp add: efi_main_def Let_def split: boot_end.splits)
qed

section \<open>A reference firmware\<close>

text \<open>
  It keeps a list of the blocks handed out, gives the pool the space above them, and has a boot volume with a small kernel and
  a boot image of three bytes; it has no graphics.
\<close>

record ref_fw =
  rf_taken :: "(nat \<times> nat) list"
  rf_files :: "u64 \<Rightarrow> bytes option"

definition ref_owned :: "ref_fw bstate \<Rightarrow> u64 set" where
  "ref_owned s = {x. list_ex (\<lambda>(a, n). a \<le> unat x \<and> unat x < a + n) (rf_taken (bs_fw s))}"

definition ref_opened :: "ref_fw bstate \<Rightarrow> u64 \<Rightarrow> bytes option" where
  "ref_opened s = rf_files (bs_fw s)"

definition ref_volume :: "u16 list \<Rightarrow> bytes" where
  "ref_volume path = (if path = KERNEL_PATH then demo_elf else if path = INITRD_PATH then [1, 2, 3] else [])"

definition ref_take :: "u64 \<Rightarrow> nat \<Rightarrow> ref_fw bstate \<Rightarrow> efi_status \<times> ref_fw bstate" where
  "ref_take a n s =
     (if unat a + n \<le> 2 ^ 64 \<and> list_all (\<lambda>(b, m). unat a + n \<le> b \<or> b + m \<le> unat a) (rf_taken (bs_fw s))
      then (EFI_SUCCESS, s\<lparr>bs_fw := (bs_fw s)\<lparr>rf_taken := (unat a, n) # rf_taken (bs_fw s)\<rparr>\<rparr>) else (EFI_NOT_FOUND, s))"

definition ref_top :: "ref_fw bstate \<Rightarrow> u64" where
  "ref_top s = of_nat (fold (\<lambda>(b, m) t. max (b + m) t) (rf_taken (bs_fw s)) 0x10000000)"

definition ref_read :: "u64 \<Rightarrow> u64 \<Rightarrow> u64 \<Rightarrow> ref_fw bstate \<Rightarrow> efi_status \<times> u64 \<times> ref_fw bstate" where
  "ref_read fh limit q s =
     (case rf_files (bs_fw s) fh of
        None \<Rightarrow> (EFI_NOT_FOUND, 0, s)
      | Some b \<Rightarrow> (let bs = take (unat limit) b in (EFI_SUCCESS, of_nat (length bs),
          s\<lparr>bs_mem := (\<lambda>x. if unat (x - q) < length bs then bs ! unat (x - q) else bs_mem s x)\<rparr>)))"

definition ref_efi :: "ref_fw bstate efi" where
  "ref_efi = \<lparr>e_handle_protocol = (\<lambda>h g s. (EFI_SUCCESS, 1, s)), e_device_handle = (\<lambda>p s. 1),
     e_open_volume = (\<lambda>fs s. (EFI_SUCCESS, 1, s)),
     e_open = (\<lambda>root path mode s. if ref_volume path = [] then (EFI_NOT_FOUND, 0, s)
        else (EFI_SUCCESS, 2, s\<lparr>bs_fw := (bs_fw s)\<lparr>rf_files := (rf_files (bs_fw s))(2 \<mapsto> ref_volume path)\<rparr>\<rparr>)),
     e_allocate_pool = (\<lambda>t n s. case ref_take (ref_top s) (unat n) s of (st, s') \<Rightarrow> (st, ref_top s, s')),
     e_read = ref_read,
     e_close = (\<lambda>fh s. s\<lparr>bs_fw := (bs_fw s)\<lparr>rf_files := (rf_files (bs_fw s))(fh := None)\<rparr>\<rparr>),
     e_allocate_pages = (\<lambda>a pages s. ref_take a (4096 * pages) s),
     e_locate_protocol = (\<lambda>g s. (EFI_NOT_FOUND, 0, s)), e_mode = (\<lambda>gop s. None),
     e_query_mode = (\<lambda>gop k s. (EFI_NOT_FOUND, None, s)), e_set_mode = (\<lambda>gop k s. s),
     e_memory_map = (\<lambda>n q s. (if n = 0 then EFI_NOT_FOUND else EFI_SUCCESS, 96, 7, 48, s)),
     e_exit = (\<lambda>h key s. (if key = 7 then EFI_SUCCESS else EFI_LOAD_ERROR, s))\<rparr>"

lemma region_nat:
  assumes "unat a + n \<le> 2 ^ 64"
  shows "x \<in> region a n \<longleftrightarrow> unat a \<le> unat x \<and> unat x < unat a + n"
proof
  assume "x \<in> region a n"
  then obtain i where i: "i < n" "x = a + of_nat i" by (auto simp: region_iff)
  with assms have "unat x = unat a + i" by (simp add: unat_word_ariths unat_of_nat)
  with i show "unat a \<le> unat x \<and> unat x < unat a + n" by simp
next
  assume "unat a \<le> unat x \<and> unat x < unat a + n"
  then have "unat (x - a) = unat x - unat a" "unat x - unat a < n" by (auto simp: unat_sub word_le_nat_alt)
  then have "unat (x - a) < n" by simp
  then show "x \<in> region a n" by (simp add: region_def)
qed

lemma ref_take_law:
  assumes "ref_take a n s = (st, s')"
  shows "calm_step ref_owned s s' \<and> ref_opened s' = ref_opened s \<and>
    (st = EFI_SUCCESS \<longrightarrow> region a n \<inter> ref_owned s = {} \<and> region a n \<subseteq> ref_owned s')"
proof (cases "st = EFI_SUCCESS")
  case True
  then have a: "unat a + n \<le> 2 ^ 64" "list_all (\<lambda>(b, m). unat a + n \<le> b \<or> b + m \<le> unat a) (rf_taken (bs_fw s))"
    and s': "s' = s\<lparr>bs_fw := (bs_fw s)\<lparr>rf_taken := (unat a, n) # rf_taken (bs_fw s)\<rparr>\<rparr>"
    using assms by (auto simp: ref_take_def EFI_SUCCESS_def EFI_NOT_FOUND_def split: if_splits)
  have "x \<notin> ref_owned s" if "x \<in> region a n" for x
    using that a(2) by (fastforce simp: region_nat [OF a(1)] ref_owned_def list_ex_iff list_all_iff)
  then show ?thesis
    by (auto simp: s' calm_but_def ref_owned_def ref_opened_def region_nat [OF a(1)])
next
  case False
  with assms have "s' = s" by (auto simp: ref_take_def split: if_splits)
  with False show ?thesis by simp
qed

lemma ref_read_law:
  assumes "ref_read fh limit q s = (st, n, s')"
  shows "calm_but (region q (unat limit)) ref_owned s s' \<and> (st = EFI_SUCCESS \<longrightarrow> ref_opened s fh = Some b \<longrightarrow>
    unat n = length (take (unat limit) b) \<and> bytes_at (bs_mem s') q (unat n) = take (unat limit) b)"
proof (cases "rf_files (bs_fw s) fh")
  case None
  with assms show ?thesis by (simp add: ref_read_def ref_opened_def)
next
  case (Some c)
  define bs where "bs = take (unat limit) c"
  have l: "length bs \<le> unat limit" by (simp add: bs_def)
  then have n64: "length bs < 2 ^ 64" using unat_u64 [of limit] by linarith
  have n: "n = of_nat (length bs)" and s': "s' = s\<lparr>bs_mem := (\<lambda>x. if unat (x - q) < length bs then bs ! unat (x - q) else bs_mem s x)\<rparr>"
    using assms unfolding ref_read_def Some option.case Let_def bs_def [symmetric] by simp_all
  have un: "unat n = length bs" using n64 by (simp add: n unat_of_nat)
  have "bytes_at (bs_mem s') q (length bs) = bs"
  proof (rule nth_equalityI)
    fix i assume "i < length (bytes_at (bs_mem s') q (length bs))"
    then have i: "i < length bs" by simp
    then have "unat (of_nat i :: u64) = i" using n64 by (simp add: unat_of_nat)
    with i show "bytes_at (bs_mem s') q (length bs) ! i = bs ! i" by (simp add: bytes_at_def s')
  qed simp
  moreover have "calm_but (region q (unat limit)) ref_owned s s'"
    using l by (auto simp: calm_but_def s' ref_owned_def region_def)
  ultimately show ?thesis using Some un by (auto simp: ref_opened_def bs_def)
qed

interpretation reference: firmware ref_efi "\<lambda>msg s. s" "\<lambda>p b s. s" ref_owned ref_opened ref_volume
proof
  fix t n s st q s'
  assume "e_allocate_pool ref_efi t n s = (st, q, s')"
  then have "ref_take q (unat n) s = (st, s')" by (auto simp: ref_efi_def split: prod.splits)
  from ref_take_law [OF this] show "calm_step ref_owned s s' \<and> ref_opened s' = ref_opened s \<and>
    (st = EFI_SUCCESS \<longrightarrow> region q (unat n) \<inter> ref_owned s = {} \<and> region q (unat n) \<subseteq> ref_owned s')" .
next
  fix fh limit q s st n s' b
  assume "e_read ref_efi fh limit q s = (st, n, s')"
  then show "calm_but (region q (unat limit)) ref_owned s s' \<and> (st = EFI_SUCCESS \<longrightarrow> region q (unat limit) \<subseteq> ref_owned s \<longrightarrow>
    ref_opened s fh = Some b \<longrightarrow> unat n = length (take (unat limit) b) \<and> bytes_at (bs_mem s') q (unat n) = take (unat limit) b)"
    using ref_read_law [of fh limit q s st n s' b] unfolding ref_efi_def efi.simps by blast
next
  fix a pages s st s'
  assume "e_allocate_pages ref_efi a pages s = (st, s')"
  then show "calm_step ref_owned s s' \<and>
      (st = EFI_SUCCESS \<longrightarrow> region a (4096 * pages) \<inter> ref_owned s = {} \<and> region a (4096 * pages) \<subseteq> ref_owned s')"
    using ref_take_law [of a "4096 * pages" s st s'] by (simp add: ref_efi_def)
qed (auto simp: ref_efi_def ref_owned_def ref_opened_def calm_but_def EFI_SUCCESS_def EFI_NOT_FOUND_def split: if_splits)

definition demo_machine :: "ref_fw bstate" where
  "demo_machine = \<lparr>bs_mem = (\<lambda>x. 0xFF), bs_fw = \<lparr>rf_taken = [], rf_files = (\<lambda>fh. None)\<rparr>\<rparr>"

lemma ref_read_file:
  assumes "ref_volume path \<noteq> []" "length (ref_volume path) \<le> unat limit" "unat (ref_top s) + unat limit \<le> 2 ^ 64"
    "list_all (\<lambda>(b, m). b + m \<le> unat (ref_top s)) (rf_taken (bs_fw s))"
  shows "\<exists>s'. boot_read_file ref_efi handle path limit s =
      (\<lparr>fb_status = EFI_SUCCESS, fb_ptr = ref_top s, fb_size = of_nat (length (ref_volume path))\<rparr>, s') \<and>
    rf_taken (bs_fw s') = (unat (ref_top s), unat limit) # rf_taken (bs_fw s)"
proof -
  have "list_all (\<lambda>(b, m). unat (ref_top s) + unat limit \<le> b \<or> b + m \<le> unat (ref_top s)) (rf_taken (bs_fw s))"
    using assms(4) by (auto simp: list_all_iff)
  moreover have "(of_nat (length (ref_volume path)) :: u64) \<noteq> 0"
  proof -
    have "unat (of_nat (length (ref_volume path)) :: u64) = length (ref_volume path)"
      using assms(2) unat_u64 [of limit] by (intro unat_of_nat_small) simp
    with assms(1) show ?thesis by auto
  qed
  ultimately show ?thesis using assms(1-3)
    by (simp add: boot_read_file_def ref_efi_def ref_take_def ref_read_def ref_top_def Let_def EFI_SUCCESS_def)
qed

lemma demo_header:
  "take 4 (eh_ident (elf64_header demo_elf)) = ELF_MAGIC" "eh_ident (elf64_header demo_elf) ! 4 = 2"
  "eh_machine (elf64_header demo_elf) = 0x3E" "eh_phoff (elf64_header demo_elf) = 64" "eh_phentsize (elf64_header demo_elf) = 56"
  "eh_phnum (elf64_header demo_elf) = 1" "length demo_elf = 121"
  by code_simp+

lemma demo_load_elf:
  assumes h: "held ref_owned s elf demo_elf" and t: "list_all (\<lambda>(b, m). 0x201000 \<le> b) (rf_taken (bs_fw s))"
  shows "\<exists>s'. load_elf ref_efi elf 121 s = (0x200000, s') \<and> rf_taken (bs_fw s') = (0x200000, 4096) # rf_taken (bs_fw s)"
proof -
  let ?ph = "\<lparr>ph_typ = 1, ph_offset = 120, ph_paddr = 0x200000, ph_filesz = 1, ph_memsz = 2\<rparr>"
  have hd: "boot_elf_header (bs_mem s) elf = elf64_header demo_elf" by (rule boot_elf_header_held [OF h]) (simp add: demo_header)
  have "boot_program_header (bs_mem s) (elf + 64) = program_header_at (\<lambda>_. 0) demo_elf 64"
    by (rule boot_program_header_held [OF h]) (simp_all add: demo_header)
  also have "\<dots> = ?ph" using demo_elf_segments [of "\<lambda>_. 0"] by (simp add: program_headers_def demo_header Let_def)
  finally have ph: "boot_program_header (bs_mem s) (elf + 64) = ?ph" .
  have "list_all (\<lambda>(b, m). 0x200000 + 4096 \<le> b \<or> b + m \<le> 0x200000) (rf_taken (bs_fw s))"
    using t by (auto simp: list_all_iff)
  then obtain s1 where 1: "load_ph ref_efi elf 121 ?ph s = (True, s1)" "rf_taken (bs_fw s1) = (0x200000, 4096) # rf_taken (bs_fw s)"
    by (simp add: load_ph_def PT_LOAD_def ref_efi_def ref_take_def EFI_SUCCESS_def Let_def)
  have "calm_step ref_owned s s1"
    using reference.load_ph_law [OF h _ _ 1(1)] by (simp add: demo_header no_wrap_def)
  then have "boot_elf_header (bs_mem s1) elf = elf64_header demo_elf"
    by (intro boot_elf_header_held [OF held_calm [OF h]]) (simp_all add: demo_header)
  with 1 hd ph show ?thesis
    by (simp add: load_elf_def Let_def demo_header demo_elf_header(2) ELF_MAGIC_def)
qed

theorem efi_main_jump_witness:
  "\<exists>info s'. efi_main (\<lambda>p b s. s) 1 (Some \<lparr>st_con_out = Some (\<lambda>msg s. s), st_boot_services = Some ref_efi\<rparr>) demo_machine =
      Jump_To 0x200000 info s' \<and>
     bytes_at (bs_mem s') 0x200000 2 = [0x90, 0] \<and> bytes_at (bs_mem s') (li_initrd_base info) 3 = [1, 2, 3]"
proof -
  let ?t = "Some \<lparr>st_con_out = Some (\<lambda>msg s. s), st_boot_services = Some ref_efi\<rparr>"
  have paths: "KERNEL_PATH \<noteq> INITRD_PATH" by code_simp
  then have vol: "ref_volume KERNEL_PATH = demo_elf" "ref_volume INITRD_PATH = [1, 2, 3]" by (simp_all add: ref_volume_def)
  have lim: "unat KERNEL_READ_LIMIT = 1048576" "unat INITRD_READ_LIMIT = 33554432" by (simp_all add: KERNEL_READ_LIMIT_def INITRD_READ_LIMIT_def)
  have ne: "demo_elf \<noteq> []" using demo_header(7) by auto
  have top: "ref_top demo_machine = 0x10000000" "rf_taken (bs_fw demo_machine) = []" by (simp_all add: ref_top_def demo_machine_def)
  obtain s1 where 1: "boot_read_file ref_efi 1 KERNEL_PATH KERNEL_READ_LIMIT demo_machine =
      (\<lparr>fb_status = EFI_SUCCESS, fb_ptr = 0x10000000, fb_size = 121\<rparr>, s1)" "rf_taken (bs_fw s1) = [(0x10000000, 1048576)]"
    using ref_read_file [of KERNEL_PATH KERNEL_READ_LIMIT demo_machine 1] ne
    by (auto simp: vol lim top demo_header)
  have "held ref_owned s1 0x10000000 demo_elf"
    using reference.boot_read_file_law [OF 1(1)] demo_header(7) by (simp add: vol lim)
  from demo_load_elf [OF this] 1(2) obtain s2 where 2: "load_elf ref_efi 0x10000000 121 s1 = (0x200000, s2)"
      "rf_taken (bs_fw s2) = [(0x200000, 4096), (0x10000000, 1048576)]" by auto
  have top2: "ref_top s2 = 0x10100000" by (simp add: ref_top_def 2)
  obtain s3 where 3: "boot_read_file ref_efi 1 INITRD_PATH INITRD_READ_LIMIT s2 =
      (\<lparr>fb_status = EFI_SUCCESS, fb_ptr = 0x10100000, fb_size = 3\<rparr>, s3)"
      "rf_taken (bs_fw s3) = [(0x10100000, 33554432), (0x200000, 4096), (0x10000000, 1048576)]"
    using ref_read_file [of INITRD_PATH INITRD_READ_LIMIT s2 1] by (auto simp: vol lim top2 2(2))
  have top3: "ref_top s3 = 0x12100000" by (simp add: ref_top_def 3)
  have gop: "set_graphics_mode ref_efi 1024 768 s = s" "framebuffer_info ref_efi s = (empty_boot_info, s)" for s
    by (simp_all add: set_graphics_mode_def framebuffer_info_def locate_gop_def ref_efi_def EFI_SUCCESS_def EFI_NOT_FOUND_def)
  have out: "write_uefi ?t msg s = s" "boot_serial_write (\<lambda>p b s. s) bs s = s" "boot_serial_init (\<lambda>p b s. s) s = s" for msg s bs
    by (simp_all add: write_uefi_def boot_serial_write_def boot_serial_init_def fold_id [unfolded id_def])
  have "\<exists>inf s4. exit_boot_services ref_efi 1 info s3 = (EFI_SUCCESS, inf, s4) \<and>
      li_initrd_base inf = li_initrd_base info \<and> li_initrd_size inf = li_initrd_size info" for info
    using 3(2) by (simp add: exit_boot_services_def ref_efi_def ref_take_def top3 EFI_SUCCESS_def Let_def)
  then obtain inf s4 where 4: "exit_boot_services ref_efi 1 (empty_boot_info\<lparr>li_initrd_base := 0x10100000, li_initrd_size := 3\<rparr>) s3 =
      (EFI_SUCCESS, inf, s4)" "li_initrd_base inf = 0x10100000" "li_initrd_size inf = 3" by fastforce
  have run: "efi_main (\<lambda>p b s. s) 1 ?t demo_machine = Jump_To 0x200000 inf s4"
    by (simp add: efi_main_def boot_kernel_def out gop 1 2 3 4)
  have K: "demo_elf = take (1024 * 1024) (ref_volume KERNEL_PATH)" by (simp add: vol demo_header)
  have nw: "table_no_wrap demo_elf" by (simp add: table_no_wrap_def demo_header)
  note j = efi_main_jump [OF reference.firmware_axioms _ K nw demo_no_wrap run]
  have seg: "segment_bytes demo_elf \<lparr>ph_typ = 1, ph_offset = 120, ph_paddr = 0x200000, ph_filesz = 1, ph_memsz = 2\<rparr> = [0x90, 0]"
    by code_simp
  have len: "(2 :: nat) = length [0x90, 0 :: u8]" "(3 :: nat) = length [1, 2, 3 :: u8]" by simp_all
  from j have "held ref_owned s4 0x200000 [0x90, 0]" "held ref_owned s4 0x10100000 [1, 2, 3]"
    by (simp_all add: demo_elf_segments seg loadable_def PT_LOAD_def 4 vol)
  then show ?thesis using run 4(2) by (simp add: held_def numeral_2_eq_2 numeral_3_eq_3)
qed

end
