(* ===== verification/Spec2Isabelle.thy ===== *)
theory Spec2Isabelle
  imports Rysh_Keeps Kernel_Start Boot_Loader
begin

text \<open>
  RYMOS is a small operating system: a UEFI boot loader, a kernel in one file
  (\<^verbatim>\<open>src/kernel/src/main.rs\<close>), a runtime for user programs and a script shell.  This development models all
  four.  The parts and the way they use each other:

  \<^item> a physical page allocator serves the page tables; the page tables serve process address spaces
    and kernel stacks; the process table and the scheduler own those;
  \<^item> an ATA driver is the block device of RYMFS, the file system with one directory table and up to
    four extents per file; the boot image and the RAM table are two more file systems;
  \<^item> programs reach all of it through a table of calls: descriptors, pipes, files, the environment, line
    input and the clock, on the statics of the kernel;
  \<^item> the runtime of programs (\<^verbatim>\<open>src/runtime/rymos-user/src/lib.rs\<close>) wraps those calls, allocates memory for programs
    and runs children with their own directory, environment and descriptors.

  Layout of the theories.  \<^verbatim>\<open>Rymos_Prelude\<close> has the machine types, slices, saturating arithmetic, search
  loops and the shared lemmas.  \<^verbatim>\<open>Byte_Strings\<close> has the byte-string helpers (\<^verbatim>\<open>trim\<close>, \<^verbatim>\<open>split_word\<close>,
  \<^verbatim>\<open>parse_u32\<close>, argument tokens).  \<^verbatim>\<open>Slot_Table\<close> has the locale of fixed tables with a used flag and a
  key, interpreted for directory entries, RAM files and environment overlays.

  Memory.  \<^verbatim>\<open>Phys_Allocator\<close> models \<^verbatim>\<open>PhysPageAllocator\<close> and \<^verbatim>\<open>init_physical_allocator\<close>: a page is never
  handed out twice and the counters are exact.  \<^verbatim>\<open>Page_Tables\<close> models the four-level walk over physical
  memory as a function from addresses to words (\<^verbatim>\<open>map_page\<close> to \<^verbatim>\<open>ensure_kernel_pml4\<close>); the
  allocator is used through a locale of its promises.  \<^verbatim>\<open>Address_Spaces\<close> models the private tables of a
  process, its windows and their release: a new space maps none of the image window and leaves the
  kernel's translations alone.

  Processes.  \<^verbatim>\<open>Kernel_State\<close> is the record of the statics.  \<^verbatim>\<open>Process_Table\<close> models slot claims, states,
  exit codes and the non-blocking waits.  \<^verbatim>\<open>Scheduler\<close> models \<^verbatim>\<open>pick_next_ready\<close>, \<^verbatim>\<open>switch_to\<close>,
  \<^verbatim>\<open>maybe_preempt\<close>, \<^verbatim>\<open>exit_and_yield\<close>, the trampoline's teardown and the blocking waits, cut into the
  steps between which a timer tick can fall, as an inductive relation: at most one process runs in every
  reachable state, an exit wakes its waiters, and three interleavings break the promises.

  RYMFS.  \<^verbatim>\<open>Pfs_Layout\<close> has the header bytes, \<^verbatim>\<open>Pfs_Path\<close> paths and their normalisation (refines a stack
  of components), \<^verbatim>\<open>Pfs_Dir\<close> directory operations on the tree of names, \<^verbatim>\<open>Pfs_Alloc\<close> extents and first
  fit, \<^verbatim>\<open>Pfs_File\<close> reads and writes inside locales of a block device that may fail, of one that also never leaves a
  sector half written, and of one that does not fail.
  \<^verbatim>\<open>Ata_Disk\<close> models the driver over a port bus and interprets the locales with a model of the drive, so
  that contents, isolation and round trip hold of the driver.  \<^verbatim>\<open>Pfs_Commands\<close> has the shell's commands.
  \<^verbatim>\<open>Boot_Fs\<close> and \<^verbatim>\<open>Ram_Fs\<close> are the other two file systems, \<^verbatim>\<open>Console\<close> the text grid and number output.

  Program calls.  \<^verbatim>\<open>App_Env\<close> has the error number, slice checks and the environment.  \<^verbatim>\<open>Line_Input\<close> has the
  devices and the line editor.  \<^verbatim>\<open>App_Fds\<close> has descriptors and pipes: a pipe is a bounded byte queue.
  \<^verbatim>\<open>App_Files\<close> has the file-system calls; all calls together keep the descriptor tables well formed.
  \<^verbatim>\<open>File_Handles\<close> proves what a write through a descriptor stores, and what it destroys when its cached
  length is out of date.  \<^verbatim>\<open>Rtc_Time\<close> has the clock: its calendar equals counting days; the calibration of
  the cycle counter and the busy-wait of sleep run on a stream of port values and counter readings.

  Programs.  \<^verbatim>\<open>Elf_Loader\<close> checks and loads an ELF image through the page tables of the new process: what the
  program finds in its window is what the segments of the file say.  \<^verbatim>\<open>Program_Memory\<close> has the heap and mapping
  calls, \<^verbatim>\<open>Program_Spawn\<close> the building of a process from slot, tables, image and stack, the spawn calls, the shell's
  \<^verbatim>\<open>run\<close> around its wait and the argument calls: a spawn keeps the scheduler's invariant.

  The runtime.  \<^verbatim>\<open>User_Heap\<close> has the bump allocator: its needs are the locale of a page source, which the kernel's call
  provides, and blocks never overlap.  \<^verbatim>\<open>User_Runtime\<close> has the wrappers, files and the \<^verbatim>\<open>stdish\<close> helpers: what is written to
  a pipe is read back, up to its size.  \<^verbatim>\<open>User_Command\<close> has the builder and the two ways to run a child: on every way
  out the caller's descriptors and variables are as they were.  What the rest of the system does during the wait
  is a parameter with the contract \<^verbatim>\<open>wait_keeps\<close>.

  The script shell (\<^verbatim>\<open>src/programs/rysh/src/main.rs\<close>).  \<^verbatim>\<open>Rysh_Vars\<close> has the variable store, an instance of the slot table
  which refines a dictionary, and the parsing of lines.  \<^verbatim>\<open>Rysh\<close> has every command as a partial step on
  kernel and devices, None when a wait does not return, the dispatch and the loop over a script; the record
  \<^verbatim>\<open>shell_sys\<close> holds what a shell finds around it: devices, clock and the two waits.  \<^verbatim>\<open>Rysh_Script\<close> equates scripts of
  output commands with a reference text, \<^verbatim>\<open>Rysh_Pipes\<close> follows redirected output through a pipe, and
  \<^verbatim>\<open>Rysh_Keeps\<close> shows, by rules for composed effects, that no script leaks a descriptor; its hypothesis
  \<^verbatim>\<open>shell_waits\<close> says that the shell's own slot and descriptors survive a wait.

  The kernel's shell and its start.  \<^verbatim>\<open>Kernel_Shell\<close> has the command loop, every command and the boot script over a record of
  console, RAM files, statics and devices: the loop gets through a session of typed lines, and a script is the run of its lines
  (\<^verbatim>\<open>Text_Lines\<close>).  \<^verbatim>\<open>Pci_Bus\<close> has the bus scan over a locale of configuration space.  \<^verbatim>\<open>Kernel_Keeps\<close> has the invariant that every
  command keeps, and what the mapping test does to the translations.  \<^verbatim>\<open>Kernel_Start\<close> is \<^verbatim>\<open>_start\<close>: from power-on
  the invariant holds in every turn.

  The boot loader (\<^verbatim>\<open>src/bootloader/src/main.rs\<close>).  \<^verbatim>\<open>Boot_Loader\<close> has the whole loader over flat memory; the firmware's calls are the
  locale \<open>firmware\<close>: fresh memory, files read into their buffers, nothing else touched.  \<open>efi_main_jump\<close> shows that at the jump
  the segments of the kernel and the boot image are in memory as the volume has them; a reference firmware interprets the locale.

  The processor.  \<^verbatim>\<open>Cpu_Contexts\<close> has the assembly routines as lists of instructions over registers and words of memory: a
  switch away and back resumes a task, and the timer entry is transparent.  \<^verbatim>\<open>Interrupts\<close> has the descriptor table, the report
  of an exception, the controllers and the timer; what the kernel programs is read off reference models of the chips.  The
  processor's delivery of an interrupt and the calling convention of compiled code are stated there as definitions.

  Conventions.  Machine words are words of their width, or naturals where the code's values are bounded
  by a table size; \<^verbatim>\<open>usize\<close> is 64 bits wide and arithmetic wraps, as in the release build the kernel is
  shipped as.  A slice index out of range is the error value \<^verbatim>\<open>Panic\<close> where an input can cause it.
  Pointers of programs are optional byte lists: None is the null pointer.  Loops over tables recurse on
  index lists.  The polling loops of the drive and the clock have the code's own bounds; the line editor
  has none and is a partial function whose return is proved from the keys delivered.  Devices, the cycle
  counter and the time are parameters; what is relied on is stated as hypotheses of the properties, and
  concrete instances discharge them.

  Limits.  A translation is that of a 4-KiB page: an entry for a huge page counts as unmapped.  The index into the
  framebuffer is a natural number and does not wrap.  A switch of contexts ends a step of the scheduler where the code calls
  \<^verbatim>\<open>context_switch\<close>; what the resumed side does next is a step of its own.  No timer tick falls between two turns of the kernel's
  shell: other processes run inside its waits, which are a parameter.

  Not modelled: the runtime's wrappers of wait, sleep and the clock; the sample programs;
  reading control registers and the interrupt flag, which are single instructions.
\<close>

end
